(* ===== verification/Prelude.thy ===== *)
theory Prelude
  imports "HOL-Library.Word" "HOL-Library.Monad_Syntax"
begin

text \<open>
  Shared ground of the development: the failure monad in which kernel code is
  written, the kernel's error numbers, fixed-width arithmetic on naturals, the
  rounding macros of \<^verbatim>\<open>libs/defs.h\<close> and the list lemmas that the
  components use.

  A C function that can run into \<^verbatim>\<open>assert\<close> or \<^verbatim>\<open>panic\<close> is a
  function into \<open>option\<close>: \<open>None\<close> is the kernel panic (the machine stops), and
  \<open>Some\<close> of the result and of the new state is a normal return. An error
  number returned to the caller is an ordinary \<open>int\<close> result, as in the C code.
\<close>

named_theorems kernel_simps \<open>unfolding rules shared by the components\<close>

subsection \<open>Assertions and error numbers\<close>

definition kassert :: "bool \<Rightarrow> unit option" where
  "kassert b = (if b then Some () else None)"

definition kpanic :: "'a option" where
  "kpanic = None"

definition E_UNSPECIFIED :: int where "E_UNSPECIFIED = 1"
definition E_BAD_PROC :: int where "E_BAD_PROC = 2"
definition E_INVAL :: int where "E_INVAL = 3"
definition E_NO_MEM :: int where "E_NO_MEM = 4"
definition E_NO_FREE_PROC :: int where "E_NO_FREE_PROC = 5"
definition E_FAULT :: int where "E_FAULT = 6"
definition E_INVAL_ELF :: int where "E_INVAL_ELF = 8"
definition E_KILLED :: int where "E_KILLED = 9"
definition E_TOO_BIG :: int where "E_TOO_BIG = 12"
definition E_NO_DEV :: int where "E_NO_DEV = 13"
definition E_NA_DEV :: int where "E_NA_DEV = 14"
definition E_BUSY :: int where "E_BUSY = 15"
definition E_NOENT :: int where "E_NOENT = 16"
definition E_ISDIR :: int where "E_ISDIR = 17"
definition E_NOTDIR :: int where "E_NOTDIR = 18"
definition E_UNIMP :: int where "E_UNIMP = 20"
definition E_MAX_OPEN :: int where "E_MAX_OPEN = 22"
definition E_EXISTS :: int where "E_EXISTS = 23"

lemmas error_defs [kernel_simps] =
  E_UNSPECIFIED_def E_BAD_PROC_def E_INVAL_def E_NO_MEM_def E_NO_FREE_PROC_def E_FAULT_def
  E_INVAL_ELF_def E_KILLED_def E_TOO_BIG_def E_NO_DEV_def E_NA_DEV_def E_BUSY_def
  E_NOENT_def E_ISDIR_def E_NOTDIR_def E_UNIMP_def E_MAX_OPEN_def E_EXISTS_def

lemma kassert_bind [simp]: "kassert b \<bind> f = (if b then f () else None)"
  by (simp add: kassert_def)

lemma kassert_eq_Some [simp]: "kassert b = Some u \<longleftrightarrow> b"
  by (simp add: kassert_def)

lemma kpanic_bind [simp]: "kpanic \<bind> f = None"
  by (simp add: kpanic_def)

lemma kpanic_neq_Some [simp]: "kpanic \<noteq> Some x" "kpanic = None"
  by (simp_all add: kpanic_def)

subsection \<open>Unsigned arithmetic on naturals\<close>

text \<open>
  Counters of the C code that are \<^verbatim>\<open>unsigned int\<close> or \<^verbatim>\<open>size_t\<close> and take
  part in no bit manipulation are naturals with the reduction written out at
  every assignment.
\<close>

definition u32 :: "nat \<Rightarrow> nat" where
  "u32 n = n mod 2 ^ 32"

definition u64 :: "nat \<Rightarrow> nat" where
  "u64 n = n mod 2 ^ 64"

text \<open>Subtraction of unsigned 32-bit values, wrapping below zero.\<close>

definition u32_minus :: "nat \<Rightarrow> nat \<Rightarrow> nat" where
  "u32_minus a b = u32 (a + (2 ^ 32 - u32 b))"

lemma u32_id [simp]: "n < 4294967296 \<Longrightarrow> u32 n = n"
  by (simp add: u32_def)

lemma u32_bound [simp]: "u32 n < 4294967296"
  by (simp add: u32_def)

lemma u64_id [simp]: "n < 18446744073709551616 \<Longrightarrow> u64 n = n"
  by (simp add: u64_def)

lemma u32_minus_le: "b \<le> a \<Longrightarrow> a < 4294967296 \<Longrightarrow> u32_minus a b = a - b"
proof -
  assume ba: "b \<le> a" "a < 4294967296"
  then have "a + (4294967296 - b) = (a - b) + 4294967296" by simp
  then have "(a + (4294967296 - b)) mod 4294967296 = a - b" using ba by (metis mod_add_self2 less_imp_diff_less mod_less)
  then show ?thesis using ba by (simp add: u32_minus_def u32_def)
qed

lemma u32_Suc [simp]: "u32 (Suc (u32 n)) = u32 (Suc n)"
  by (simp add: u32_def mod_Suc_eq)

lemma u32_minus_1 [simp]: "u32_minus (u32 (Suc n)) (Suc 0) = u32 n"
proof -
  have "(Suc n mod 4294967296 + 4294967295) mod 4294967296 = (Suc n + 4294967295) mod 4294967296"
    by (rule mod_add_left_eq)
  also have "Suc n + 4294967295 = n + 4294967296" by simp
  finally show ?thesis by (simp add: u32_def u32_minus_def)
qed

lemma map_remove1_inj: "inj f \<Longrightarrow> map f (remove1 x xs) = remove1 (f x) (map f xs)"
  by (induction xs) (auto dest: injD)

subsection \<open>Hashing\<close>

text \<open>\<^verbatim>\<open>hash32\<close> of \<^verbatim>\<open>libs/hash.c\<close>: the high bits of a product.\<close>

definition hash32 :: "32 word \<Rightarrow> nat \<Rightarrow> 32 word" where
  "hash32 val bits = drop_bit (32 - bits) (val * 0x9e370001)"

end
