(* ===== verification/DList.thy ===== *)
theory DList
  imports Prelude
begin

text \<open>
  The intrusive circular doubly linked list of \<^verbatim>\<open>libs/list.h\<close>, at the level
  of its \<open>prev\<close> and \<open>next\<close> pointers, and its refinement to sequences.

  A heap of list entries maps the address of every \<^verbatim>\<open>list_entry_t\<close> to its two
  fields. \<open>dlist h hd xs\<close> says that the ring starting at the header \<open>hd\<close> runs
  through the entries \<open>xs\<close> and back. The interface locale \<open>klist\<close> states what
  the operations promise; the queue discipline that the run queue, the wait
  queues and the timer list rely on is proved inside it once. The
  other components represent such a ring by the sequence \<open>xs\<close> of its entries.
\<close>

subsection \<open>Entries and operations\<close>

record 'a list_heap =
  prev_of :: "'a \<Rightarrow> 'a"
  next_of :: "'a \<Rightarrow> 'a"

definition list_init :: "'a list_heap \<Rightarrow> 'a \<Rightarrow> 'a list_heap" where
  "list_init h elm = h\<lparr>prev_of := (prev_of h)(elm := elm), next_of := (next_of h)(elm := elm)\<rparr>"

text \<open>
  \<^verbatim>\<open>prev->next = next->prev = elm\<close> assigns right to left, then the two fields
  of the new entry are written.
\<close>

definition list_add_between :: "'a list_heap \<Rightarrow> 'a \<Rightarrow> 'a \<Rightarrow> 'a \<Rightarrow> 'a list_heap" where
  "list_add_between h elm prv nxt =
     (let h1 = h\<lparr>prev_of := (prev_of h)(nxt := elm)\<rparr>;
          h2 = h1\<lparr>next_of := (next_of h1)(prv := elm)\<rparr>;
          h3 = h2\<lparr>next_of := (next_of h2)(elm := nxt)\<rparr>
      in h3\<lparr>prev_of := (prev_of h3)(elm := prv)\<rparr>)"

definition list_add_before :: "'a list_heap \<Rightarrow> 'a \<Rightarrow> 'a \<Rightarrow> 'a list_heap" where
  "list_add_before h listelm elm = list_add_between h elm (prev_of h listelm) listelm"

definition list_add_after :: "'a list_heap \<Rightarrow> 'a \<Rightarrow> 'a \<Rightarrow> 'a list_heap" where
  "list_add_after h listelm elm = list_add_between h elm listelm (next_of h listelm)"

definition list_add :: "'a list_heap \<Rightarrow> 'a \<Rightarrow> 'a \<Rightarrow> 'a list_heap" where
  "list_add h listelm elm = list_add_after h listelm elm"

definition list_del_between :: "'a list_heap \<Rightarrow> 'a \<Rightarrow> 'a \<Rightarrow> 'a list_heap" where
  "list_del_between h prv nxt =
     (let h1 = h\<lparr>next_of := (next_of h)(prv := nxt)\<rparr>
      in h1\<lparr>prev_of := (prev_of h1)(nxt := prv)\<rparr>)"

definition list_del :: "'a list_heap \<Rightarrow> 'a \<Rightarrow> 'a list_heap" where
  "list_del h listelm = list_del_between h (prev_of h listelm) (next_of h listelm)"

definition list_del_init :: "'a list_heap \<Rightarrow> 'a \<Rightarrow> 'a list_heap" where
  "list_del_init h listelm = list_init (list_del h listelm) listelm"

definition list_empty :: "'a list_heap \<Rightarrow> 'a \<Rightarrow> bool" where
  "list_empty h l \<longleftrightarrow> next_of h l = l"

definition list_next :: "'a list_heap \<Rightarrow> 'a \<Rightarrow> 'a" where
  "list_next h listelm = next_of h listelm"

definition list_prev :: "'a list_heap \<Rightarrow> 'a \<Rightarrow> 'a" where
  "list_prev h listelm = prev_of h listelm"

subsection \<open>The ring predicate\<close>

fun linked :: "'a list_heap \<Rightarrow> 'a list \<Rightarrow> bool" where
  "linked h (a # b # r) \<longleftrightarrow> next_of h a = b \<and> prev_of h b = a \<and> linked h (b # r)"
| "linked h [a] \<longleftrightarrow> True"
| "linked h [] \<longleftrightarrow> True"

definition dlist :: "'a list_heap \<Rightarrow> 'a \<Rightarrow> 'a list \<Rightarrow> bool" where
  "dlist h l xs \<longleftrightarrow> distinct (l # xs) \<and> linked h (l # xs @ [l])"

text \<open>The loop \<^verbatim>\<open>while ((le = list_next(le)) != list)\<close>, bounded by fuel.\<close>

fun list_walk :: "nat \<Rightarrow> 'a list_heap \<Rightarrow> 'a \<Rightarrow> 'a \<Rightarrow> 'a list option" where
  "list_walk 0 h l le = None"
| "list_walk (Suc n) h l le =
     (if list_next h le = l then Some []
      else map_option ((#) (list_next h le)) (list_walk n h l (list_next h le)))"

lemma linked_append:
  "as \<noteq> [] \<Longrightarrow> bs \<noteq> [] \<Longrightarrow>
   linked h (as @ bs) \<longleftrightarrow>
     linked h as \<and> linked h bs \<and> next_of h (last as) = hd bs \<and> prev_of h (hd bs) = last as"
proof (induction h as rule: linked.induct)
  case (2 h a)
  then show ?case by (cases bs) auto
qed auto

text \<open>
  A segment is unaffected by writes to the \<open>next\<close> field of its last entry or to
  the \<open>prev\<close> field of its first one, and by writes outside it.
\<close>

lemma linked_cong:
  assumes "\<And>x. x \<in> set (butlast xs) \<Longrightarrow> next_of h' x = next_of h x"
    and "\<And>x. x \<in> set (tl xs) \<Longrightarrow> prev_of h' x = prev_of h x"
  shows "linked h' xs = linked h xs"
  using assms
proof (induction h xs rule: linked.induct)
  case (1 h a b r)
  have "linked h' (b # r) = linked h (b # r)"
    by (rule "1.IH") (use "1.prems" in \<open>auto split: if_splits\<close>)
  with "1.prems" show ?case by auto
qed auto

lemma dlist_split:
  "dlist h l (xs @ ys) \<longleftrightarrow>
     distinct (l # xs @ ys) \<and> linked h (l # xs) \<and> linked h (ys @ [l]) \<and>
     next_of h (last (l # xs)) = hd (ys @ [l]) \<and> prev_of h (hd (ys @ [l])) = last (l # xs)"
  using linked_append[of "l # xs" "ys @ [l]" h] by (auto simp: dlist_def)

lemma dlist_cong:
  assumes "\<And>x. x \<in> set (l # xs) \<Longrightarrow> next_of h' x = next_of h x"
    and "\<And>x. x \<in> set (l # xs) \<Longrightarrow> prev_of h' x = prev_of h x"
  shows "dlist h' l xs = dlist h l xs"
proof -
  have "linked h' (l # xs @ [l]) = linked h (l # xs @ [l])"
    by (rule linked_cong) (use assms in \<open>auto simp: butlast_append split: if_splits\<close>)
  then show ?thesis by (simp add: dlist_def)
qed

lemma dlist_distinct: "dlist h l xs \<Longrightarrow> distinct (l # xs)"
  by (simp add: dlist_def)

lemma last_not_in_butlast: "distinct xs \<Longrightarrow> xs \<noteq> [] \<Longrightarrow> last xs \<notin> set (butlast xs)"
  by (induction xs) auto

lemma hd_not_in_tl: "distinct xs \<Longrightarrow> xs \<noteq> [] \<Longrightarrow> hd xs \<notin> set (tl xs)"
  by (cases xs) auto

subsection \<open>Refinement of each operation to sequences\<close>

lemma dlist_init: "dlist (list_init h l) l []"
  by (simp add: dlist_def list_init_def)

lemma dlist_add_between:
  assumes d: "dlist h l (xs @ ys)" and e: "e \<notin> set (l # xs @ ys)"
    and p: "p = last (l # xs)" and n: "n = hd (ys @ [l])"
  shows "dlist (list_add_between h e p n) l (xs @ e # ys)"
proof -
  let ?h = "list_add_between h e p n"
  have dis: "distinct (l # xs)" "distinct (ys @ [l])" "set (l # xs) \<inter> set ys = {}"
    using d by (auto simp: dlist_split)
  have pin: "p \<in> set (l # xs)" unfolding p by (rule last_in_set) simp
  have nin: "n \<in> set (ys @ [l])" unfolding n by (rule hd_in_set) simp
  have ep: "p \<noteq> e" "n \<noteq> e" using pin nin e by auto
  have nx: "next_of ?h = (next_of h)(p := e, e := n)"
    and pv: "prev_of ?h = (prev_of h)(n := e, e := p)"
    by (simp_all add: list_add_between_def Let_def)
  have "linked ?h (l # xs) = linked h (l # xs)"
  proof (rule linked_cong)
    fix x assume x: "x \<in> set (butlast (l # xs))"
    then have "x \<noteq> p" using last_not_in_butlast[OF dis(1)] p by auto
    moreover have "x \<noteq> e" using in_set_butlastD[OF x] e by auto
    ultimately show "next_of ?h x = next_of h x" by (simp add: nx)
  next
    fix x assume "x \<in> set (tl (l # xs))"
    then have "x \<noteq> n" "x \<noteq> e" using nin dis e by auto
    then show "prev_of ?h x = prev_of h x" by (simp add: pv)
  qed
  moreover have "linked ?h (ys @ [l]) = linked h (ys @ [l])"
  proof (rule linked_cong)
    fix x assume "x \<in> set (butlast (ys @ [l]))"
    then have "x \<noteq> p" "x \<noteq> e" using pin dis e by (auto simp: butlast_append)
    then show "next_of ?h x = next_of h x" by (simp add: nx)
  next
    fix x assume x: "x \<in> set (tl (ys @ [l]))"
    then have "x \<noteq> n" using hd_not_in_tl[OF dis(2)] n by auto
    moreover have "x \<in> set (ys @ [l])" using x by (cases ys) auto
    then have "x \<noteq> e" using e by auto
    ultimately show "prev_of ?h x = prev_of h x" by (simp add: pv)
  qed
  moreover have "linked ?h (e # ys @ [l]) \<longleftrightarrow> linked ?h (ys @ [l])"
    using linked_append[of "[e]" "ys @ [l]" ?h] ep by (simp add: nx pv flip: n)
  moreover have "linked h (l # xs)" "linked h (ys @ [l])" using d by (simp_all add: dlist_split)
  moreover have "next_of ?h p = e" "prev_of ?h e = p" using ep by (simp_all add: nx pv)
  ultimately show ?thesis using dis e p by (auto simp: dlist_split)
qed

lemma dlist_add_before:
  assumes "dlist h l (xs @ ys)" "e \<notin> set (l # xs @ ys)" "y = hd (ys @ [l])"
  shows "dlist (list_add_before h y e) l (xs @ e # ys)"
proof -
  have "prev_of h y = last (l # xs)" using assms by (simp add: dlist_split)
  then show ?thesis
    using dlist_add_between[OF assms(1,2) refl refl] assms(3) by (simp add: list_add_before_def)
qed

lemma dlist_add_after:
  assumes "dlist h l (xs @ ys)" "e \<notin> set (l # xs @ ys)" "x = last (l # xs)"
  shows "dlist (list_add_after h x e) l (xs @ e # ys)"
proof -
  have "next_of h x = hd (ys @ [l])" using assms by (simp add: dlist_split)
  then show ?thesis
    using dlist_add_between[OF assms(1,2) refl refl] assms(3) by (simp add: list_add_after_def)
qed

lemma dlist_del:
  assumes d: "dlist h l (xs @ e # ys)"
  shows "dlist (list_del h e) l (xs @ ys)"
proof -
  define p n where p: "p = last (l # xs)" and n: "n = hd (ys @ [l])"
  let ?h = "list_del h e"
  have d2: "dlist h l ((xs @ [e]) @ ys)" using d by simp
  have pe: "prev_of h e = p" using dlist_split[of h l xs "e # ys"] d by (simp add: p)
  have ne: "next_of h e = n" using dlist_split[of h l "xs @ [e]" ys] d2 by (simp add: n)
  have dis: "distinct (l # xs)" "distinct (ys @ [l])" "set (l # xs) \<inter> set ys = {}"
    using d by (auto simp: dlist_split)
  have pin: "p \<in> set (l # xs)" unfolding p by (rule last_in_set) simp
  have nin: "n \<in> set (ys @ [l])" unfolding n by (rule hd_in_set) simp
  have nx: "next_of ?h = (next_of h)(p := n)" and pv: "prev_of ?h = (prev_of h)(n := p)"
    by (simp_all add: list_del_def list_del_between_def Let_def pe ne)
  have "linked ?h (l # xs) = linked h (l # xs)"
  proof (rule linked_cong)
    fix x assume "x \<in> set (butlast (l # xs))"
    then have "x \<noteq> p" using last_not_in_butlast[OF dis(1)] p by auto
    then show "next_of ?h x = next_of h x" by (simp add: nx)
  next
    fix x assume "x \<in> set (tl (l # xs))"
    then have "x \<noteq> n" using nin dis by auto
    then show "prev_of ?h x = prev_of h x" by (simp add: pv)
  qed
  moreover have "linked ?h (ys @ [l]) = linked h (ys @ [l])"
  proof (rule linked_cong)
    fix x assume "x \<in> set (butlast (ys @ [l]))"
    then have "x \<noteq> p" using pin dis by (auto simp: butlast_append)
    then show "next_of ?h x = next_of h x" by (simp add: nx)
  next
    fix x assume "x \<in> set (tl (ys @ [l]))"
    then have "x \<noteq> n" using hd_not_in_tl[OF dis(2)] n by auto
    then show "prev_of ?h x = prev_of h x" by (simp add: pv)
  qed
  moreover have "linked h (l # xs)" "distinct (l # xs @ ys)"
    using dlist_split[of h l xs "e # ys"] d by auto
  moreover have "linked h (ys @ [l])"
    using dlist_split[of h l "xs @ [e]" ys] d2 by simp
  ultimately show ?thesis unfolding dlist_split p[symmetric] n[symmetric] by (simp add: nx pv)
qed

lemma dlist_init_other: "dlist h l xs \<Longrightarrow> e \<notin> set (l # xs) \<Longrightarrow> dlist (list_init h e) l xs"
  by (subst dlist_cong[of l xs _ h]) (auto simp: list_init_def)

lemma dlist_del_init:
  assumes d: "dlist h l (xs @ e # ys)"
  shows "dlist (list_del_init h e) l (xs @ ys)" and "dlist (list_del_init h e) e []"
  using dlist_init_other[OF dlist_del[OF d], of e] dlist_distinct[OF d]
  by (auto simp: list_del_init_def dlist_init)

lemma dlist_next: "dlist h l (xs @ ys) \<Longrightarrow> list_next h (last (l # xs)) = hd (ys @ [l])"
  unfolding dlist_split list_next_def by blast

lemma dlist_prev: "dlist h l (xs @ ys) \<Longrightarrow> list_prev h (hd (ys @ [l])) = last (l # xs)"
  unfolding dlist_split list_prev_def by blast

lemma dlist_empty_iff: "dlist h l xs \<Longrightarrow> list_empty h l \<longleftrightarrow> xs = []"
  using dlist_next[of h l "[]" xs] dlist_distinct[of h l xs]
  by (cases xs) (auto simp: list_empty_def list_next_def)

lemma dlist_Nil_iff: "dlist h l [] \<longleftrightarrow> prev_of h l = l \<and> next_of h l = l"
  by (auto simp: dlist_def)

text \<open>Entries outside a ring are not touched.\<close>

lemma dlist_ends_in: "dlist h l xs \<Longrightarrow> prev_of h l \<in> set (l # xs)" "dlist h l xs \<Longrightarrow> next_of h l \<in> set (l # xs)"
  using dlist_prev[of h l xs "[]"] dlist_next[of h l "[]" xs]
  by (cases xs; auto simp: list_prev_def list_next_def split: if_splits)+

lemma dlist_add_before_frame:
  assumes "dlist h l xs" "q \<notin> set (l # e # xs)"
  shows "next_of (list_add_before h l e) q = next_of h q" "prev_of (list_add_before h l e) q = prev_of h q"
  using assms dlist_ends_in(1)[OF assms(1)]
  by (auto simp: list_add_before_def list_add_between_def Let_def)

lemma dlist_del_init_frame:
  assumes "dlist h l (xs @ e # ys)" "q \<notin> set (l # xs @ e # ys)"
  shows "next_of (list_del_init h e) q = next_of h q" "prev_of (list_del_init h e) q = prev_of h q"
proof -
  have "prev_of h e = last (l # xs)" "next_of h e = hd (ys @ [l])"
    using dlist_prev[of h l xs "e # ys"] dlist_next[of h l "xs @ [e]" ys] assms(1)
    by (auto simp: list_prev_def list_next_def)
  then have "prev_of h e \<noteq> q" "next_of h e \<noteq> q" using assms(2) by (cases ys; auto split: if_splits)+
  then show "next_of (list_del_init h e) q = next_of h q" "prev_of (list_del_init h e) q = prev_of h q"
    using assms(2) by (auto simp: list_del_init_def list_del_def list_del_between_def list_init_def Let_def)
qed

lemma dlist_add_frame:
  assumes "dlist h l xs" "q \<notin> set (l # e # xs)"
  shows "next_of (list_add h l e) q = next_of h q" "prev_of (list_add h l e) q = prev_of h q"
  using assms dlist_ends_in(2)[OF assms(1)]
  by (auto simp: list_add_def list_add_after_def list_add_between_def Let_def)

lemma dlist_del_frame:
  assumes "dlist h l (xs @ e # ys)" "q \<notin> set (l # xs @ e # ys)"
  shows "next_of (list_del h e) q = next_of h q" "prev_of (list_del h e) q = prev_of h q"
  using dlist_del_init_frame[OF assms] assms(2)
  by (auto simp: list_del_init_def list_init_def split: if_splits)

lemma dlist_member_linked:
  assumes "dlist h l xs" "q \<in> set xs"
  shows "\<not> list_empty h q"
proof -
  obtain us vs where xs: "xs = us @ q # vs" using split_list[OF assms(2)] by blast
  have "next_of h q = hd (vs @ [l])"
    using dlist_next[of h l "us @ [q]" vs] assms(1) xs by (simp add: list_next_def)
  then show ?thesis using dlist_distinct[OF assms(1)] xs by (cases vs) (auto simp: list_empty_def)
qed

lemma list_walk_enough:
  "dlist h l (xs @ ys) \<Longrightarrow> length ys < n \<Longrightarrow> list_walk n h l (last (l # xs)) = Some ys"
proof (induction ys arbitrary: xs n)
  case Nil
  then show ?case using dlist_next[OF Nil.prems(1)] by (cases n) (simp_all del: last.simps)
next
  case (Cons y ys)
  then obtain m where n: "n = Suc m" "length ys < m" by (cases n) auto
  have nx: "list_next h (last (l # xs)) = y" using dlist_next[OF Cons.prems(1)] by simp
  have "y \<noteq> l" using dlist_distinct[OF Cons.prems(1)] by auto
  moreover have "list_walk m h l (last (l # xs @ [y])) = Some ys"
    using Cons.IH[of "xs @ [y]" m] Cons.prems(1) n by simp
  ultimately show ?case using nx n by (simp del: last.simps) simp
qed

subsection \<open>The interface the other components rely on\<close>

text \<open>
  What a client of \<^verbatim>\<open>list.h\<close> uses: rings with a header, entries inserted before
  or after a given one, deletion with re-initialisation, the emptiness test and
  the two neighbours. \<open>ring h l xs\<close> is the client's view of the heap.
\<close>

locale klist =
  fixes ring :: "'h \<Rightarrow> 'a \<Rightarrow> 'a list \<Rightarrow> bool"
    and init :: "'h \<Rightarrow> 'a \<Rightarrow> 'h"
    and add_before :: "'h \<Rightarrow> 'a \<Rightarrow> 'a \<Rightarrow> 'h"
    and add_after :: "'h \<Rightarrow> 'a \<Rightarrow> 'a \<Rightarrow> 'h"
    and del_init :: "'h \<Rightarrow> 'a \<Rightarrow> 'h"
    and is_empty :: "'h \<Rightarrow> 'a \<Rightarrow> bool"
    and succ :: "'h \<Rightarrow> 'a \<Rightarrow> 'a"
  assumes ring_distinct: "ring h l xs \<Longrightarrow> distinct (l # xs)"
    and ring_init: "ring (init h l) l []"
    and ring_add_before:
      "ring h l (xs @ ys) \<Longrightarrow> e \<notin> set (l # xs @ ys) \<Longrightarrow> y = hd (ys @ [l]) \<Longrightarrow>
       ring (add_before h y e) l (xs @ e # ys)"
    and ring_add_after:
      "ring h l (xs @ ys) \<Longrightarrow> e \<notin> set (l # xs @ ys) \<Longrightarrow> x = last (l # xs) \<Longrightarrow>
       ring (add_after h x e) l (xs @ e # ys)"
    and ring_del_init: "ring h l (xs @ e # ys) \<Longrightarrow> ring (del_init h e) l (xs @ ys)"
    and ring_del_self: "ring h l (xs @ e # ys) \<Longrightarrow> ring (del_init h e) e []"
    and ring_is_empty: "ring h l xs \<Longrightarrow> is_empty h l = (xs = [])"
    and ring_succ: "ring h l (xs @ ys) \<Longrightarrow> succ h (last (l # xs)) = hd (ys @ [l])"
begin

lemma push_back: "ring h l xs \<Longrightarrow> e \<notin> set (l # xs) \<Longrightarrow> ring (add_before h l e) l (xs @ [e])"
  using ring_add_before[of h l xs "[]" e l] by simp

lemma push_front: "ring h l xs \<Longrightarrow> e \<notin> set (l # xs) \<Longrightarrow> ring (add_after h l e) l (e # xs)"
  using ring_add_after[of h l "[]" xs e l] by simp

lemma first: "ring h l xs \<Longrightarrow> succ h l = (if xs = [] then l else hd xs)"
  using ring_succ[of h l "[]" xs] by simp

lemma pop_front: "ring h l (x # xs) \<Longrightarrow> ring (del_init h (succ h l)) l xs"
  using ring_del_init[of h l "[]" x xs] first[of h l "x # xs"] by simp

text \<open>The entry queued first is the entry taken first, whatever is queued behind it.\<close>

lemma fifo:
  assumes "ring h l (x # xs)" and "e \<notin> set (l # x # xs)"
  shows "succ (add_before h l e) l = x"
  using first[OF push_back[OF assms]] by simp

lemma remove1_del:
  assumes "ring h l xs" and "e \<in> set xs"
  shows "ring (del_init h e) l (remove1 e xs)"
proof -
  obtain ys zs where xs: "xs = ys @ e # zs" "e \<notin> set ys"
    using split_list_first[OF assms(2)] by blast
  have "ring (del_init h e) l (ys @ zs)"
    by (rule ring_del_init) (use assms xs in simp)
  then show ?thesis using xs by (simp add: remove1_append)
qed

end

interpretation lh: klist dlist list_init list_add_before list_add_after list_del_init list_empty list_next
  by unfold_locales
    (simp_all add: dlist_init dlist_add_before dlist_add_after dlist_del_init dlist_empty_iff
      dlist_next dlist_distinct[simplified] del: last.simps)

text \<open>
  C15. The pointer operations of list.h keep a well-formed ring and act on the sequence of
  its entries as insertion at the tail, insertion at the head and deletion; walking the ring
  with next pointers visits exactly the entries, in order, and returns.
\<close>

theorem list_ops_refine:
  assumes "dlist h l xs" and "e \<notin> set (l # xs)" and "f \<in> set xs"
  shows "dlist (list_add_before h l e) l (xs @ [e]) \<and>
    dlist (list_add h l e) l (e # xs) \<and>
    dlist (list_del_init (list_add_before h l e) e) l xs \<and>
    dlist (list_del_init h f) l (remove1 f xs) \<and>
    list_walk (Suc (length xs)) h l l = Some xs"
  using lh.push_back[OF assms(1,2)] lh.push_front[OF assms(1,2)] lh.ring_del_init[of _ l xs e "[]"]
    list_walk_enough[of h l "[]" xs "Suc (length xs)"] assms lh.remove1_del[of h l xs f]
  by (simp add: list_add_def)

theorem list_ops_refine_witness:
  "let h = list_add_before (list_init \<lparr>prev_of = id, next_of = id\<rparr> (0::nat)) 0 7
   in dlist h 0 [7] \<and> dlist (list_add_before h 0 9) 0 [7, 9] \<and> list_walk 2 h 0 0 = Some [7]"
proof -
  let ?h = "list_add_before (list_init \<lparr>prev_of = id, next_of = id\<rparr> (0::nat)) 0 7"
  have "dlist ?h 0 [7]" using lh.push_back[OF lh.ring_init, of 7 "0::nat"] by simp
  then show ?thesis
    using list_ops_refine[of ?h 0 "[7]" 9 7] by (simp add: Let_def numeral_2_eq_2)
qed

end
