(* ===== verification/PmmManager.thy ===== *)
theory PmmManager
  imports Prelude
begin

text \<open>
  The interface \<^verbatim>\<open>struct pmm_manager\<close> of \<^verbatim>\<open>kern/mm/pmm.h\<close> as a locale: what the
  kernel above the physical memory manager relies on when it calls
  \<^verbatim>\<open>alloc_pages\<close>, \<^verbatim>\<open>free_pages\<close> and \<^verbatim>\<open>nr_free_pages\<close>. \<open>frees\<close> is the set of free
  pages, \<open>may_rel\<close> what the caller of \<^verbatim>\<open>free_pages\<close> has to respect.
\<close>

text \<open>
  The part of the contract that holds of every manager, also of one that hands out
  more pages than it was asked for: an allocation takes its pages from the free
  ones, and a failed one changes nothing.
\<close>

locale page_source =
  fixes inv :: "'s \<Rightarrow> bool"
    and frees :: "'s \<Rightarrow> nat set"
    and alloc :: "nat \<Rightarrow> 's \<Rightarrow> (nat option \<times> 's) option"
  assumes source_inv: "inv s \<Longrightarrow> alloc n s = Some (r, s') \<Longrightarrow> inv s'"
    and source_Some: "inv s \<Longrightarrow> alloc n s = Some (Some p, s') \<Longrightarrow>
      0 < n \<and> {p..<p + n} \<subseteq> frees s \<and> frees s' \<subseteq> frees s - {p..<p + n}"
    and source_None: "inv s \<Longrightarrow> alloc n s = Some (None, s') \<Longrightarrow> s' = s"
begin

lemma alloc_disjoint:
  assumes "inv s" "alloc n s = Some (Some p, s1)" "alloc m s1 = Some (Some q, s2)"
  shows "{p..<p + n} \<inter> {q..<q + m} = {}"
proof -
  have "inv s1" "frees s1 \<subseteq> frees s - {p..<p + n}"
    using source_inv source_Some assms(1,2) by auto
  moreover have "{q..<q + m} \<subseteq> frees s1" using source_Some[OF calculation(1) assms(3)] by simp
  ultimately show ?thesis by blast
qed

end

locale pmm_manager =
  fixes inv :: "'s \<Rightarrow> bool"
    and frees :: "'s \<Rightarrow> nat set"
    and alloc :: "nat \<Rightarrow> 's \<Rightarrow> (nat option \<times> 's) option"
    and release :: "nat \<Rightarrow> nat \<Rightarrow> 's \<Rightarrow> 's option"
    and count :: "'s \<Rightarrow> nat"
    and may_rel :: "nat \<Rightarrow> nat \<Rightarrow> 's \<Rightarrow> bool"
  assumes alloc_returns: "inv s \<Longrightarrow> 0 < n \<Longrightarrow> \<exists>r s'. alloc n s = Some (r, s')"
    and alloc_inv: "inv s \<Longrightarrow> alloc n s = Some (r, s') \<Longrightarrow> inv s'"
    and alloc_Some: "inv s \<Longrightarrow> alloc n s = Some (Some p, s') \<Longrightarrow>
      0 < n \<and> {p..<p + n} \<subseteq> frees s \<and> frees s' = frees s - {p..<p + n}"
    and alloc_None: "inv s \<Longrightarrow> alloc n s = Some (None, s') \<Longrightarrow>
      s' = s \<and> \<not> (\<exists>p. {p..<p + n} \<subseteq> frees s)"
    and release_ok: "inv s \<Longrightarrow> may_rel base n s \<Longrightarrow>
      \<exists>s'. release base n s = Some s' \<and> inv s' \<and> frees s' = frees s \<union> {base..<base + n}"
    and count_frees: "inv s \<Longrightarrow> count s = card (frees s) \<and> finite (frees s)"
begin

lemma alloc_count:
  assumes "inv s" "alloc n s = Some (Some p, s')"
  shows "count s' = count s - n"
proof -
  have "inv s'" "frees s' = frees s - {p..<p + n}" "{p..<p + n} \<subseteq> frees s"
    using alloc_inv alloc_Some assms by auto
  then show ?thesis using count_frees assms(1) by (simp add: card_Diff_subset)
qed

text \<open>A request within a run of free pages is never refused.\<close>

lemma alloc_succeeds:
  assumes "inv s" "0 < n" "{p..<p + n} \<subseteq> frees s"
  shows "\<exists>q s'. alloc n s = Some (Some q, s')"
proof -
  obtain r s' where r: "alloc n s = Some (r, s')" using alloc_returns assms by blast
  then show ?thesis using alloc_None[OF assms(1)] assms(3) by (cases r) auto
qed

lemma release_restores:
  assumes "inv s" "alloc n s = Some (Some p, s1)" "may_rel p n s1"
  shows "\<exists>s2. release p n s1 = Some s2 \<and> inv s2 \<and> frees s2 = frees s \<and> count s2 = count s"
proof -
  have s1: "inv s1" "frees s1 = frees s - {p..<p + n}" "{p..<p + n} \<subseteq> frees s"
    using alloc_inv alloc_Some assms(1,2) by auto
  obtain s2 where s2: "release p n s1 = Some s2" "inv s2" "frees s2 = frees s1 \<union> {p..<p + n}"
    using release_ok[OF s1(1) assms(3)] by blast
  have "frees s2 = frees s" using s1 s2 by auto
  then show ?thesis using s2 count_frees assms(1) by auto
qed

end

sublocale pmm_manager \<subseteq> page_source inv frees alloc
  by unfold_locales (use alloc_inv alloc_Some alloc_None in \<open>blast+\<close>)

end
