(* ===== verification/DefaultPmm.thy ===== *)
theory DefaultPmm
  imports DList PmmManager
begin

text \<open>
  Page descriptors (\<^verbatim>\<open>kern/mm/memlayout.h\<close>) and the first-fit physical memory
  manager (\<^verbatim>\<open>kern/mm/default_pmm.c\<close>).

  A \<^verbatim>\<open>struct Page *\<close> is the index of the descriptor in the array \<^verbatim>\<open>pages\<close>. The
  free list is kept at pointer level, as a heap of \<^verbatim>\<open>page_link\<close> entries whose
  addresses are the list header and the links of the pages. The two searches
  of the code are loops along \<^verbatim>\<open>list_next\<close>; they are partial functions, and that
  they return is part of the theorems.
\<close>

subsection \<open>Page descriptors\<close>

record page =
  ref :: int
  flags :: "64 word"
  property :: nat
  pra_vaddr :: "64 word"

definition PG_reserved :: nat where "PG_reserved = 0"
definition PG_property :: nat where "PG_property = 1"

definition PageReserved :: "page \<Rightarrow> bool" where
  "PageReserved p = bit (flags p) PG_reserved"

definition SetPageReserved :: "page \<Rightarrow> page" where
  "SetPageReserved p = p\<lparr>flags := Bit_Operations.set_bit PG_reserved (flags p)\<rparr>"

definition PageProperty :: "page \<Rightarrow> bool" where
  "PageProperty p = bit (flags p) PG_property"

definition SetPageProperty :: "page \<Rightarrow> page" where
  "SetPageProperty p = p\<lparr>flags := Bit_Operations.set_bit PG_property (flags p)\<rparr>"

definition ClearPageProperty :: "page \<Rightarrow> page" where
  "ClearPageProperty p = p\<lparr>flags := unset_bit PG_property (flags p)\<rparr>"

datatype link = Head | Pg nat

record pmm =
  pages :: "nat \<Rightarrow> page"
  links :: "link list_heap"
  nr_free :: nat

text \<open>Replace the descriptor of one page.\<close>

definition upd_page :: "nat \<Rightarrow> (page \<Rightarrow> page) \<Rightarrow> pmm \<Rightarrow> pmm" where
  "upd_page i f s = s\<lparr>pages := (pages s)(i := f (pages s i))\<rparr>"

subsection \<open>Operations of the manager\<close>

definition default_init :: "pmm \<Rightarrow> pmm" where
  "default_init s = s\<lparr>links := list_init (links s) Head, nr_free := 0\<rparr>"

text \<open>The loop over the descriptors in \<open>default_init_memmap\<close>.\<close>

fun init_memmap_pages :: "nat \<Rightarrow> nat \<Rightarrow> (nat \<Rightarrow> page) \<Rightarrow> (nat \<Rightarrow> page) option" where
  "init_memmap_pages 0 p pg = Some pg"
| "init_memmap_pages (Suc k) p pg =
     do { kassert (PageReserved (pg p));
          init_memmap_pages k (Suc p) (pg(p := (pg p)\<lparr>property := 0, flags := 0, ref := 0\<rparr>)) }"

text \<open>
  The search for the position of a block, shared by \<open>default_init_memmap\<close> and
  \<open>default_free_pages\<close>. After \<^verbatim>\<open>list_add\<close> at the end of the list the loop is
  not left: it goes on with the entry it has just added.
\<close>

partial_function (option) insert_loop ::
  "link list_heap \<Rightarrow> link \<Rightarrow> nat \<Rightarrow> link list_heap option" where
  "insert_loop h le base =
     (case list_next h le of
        Head \<Rightarrow> Some h
      | Pg pa \<Rightarrow>
          if base < pa then Some (list_add_before h (Pg pa) (Pg base))
          else insert_loop
            (if list_next h (Pg pa) = Head then list_add h (Pg pa) (Pg base) else h) (Pg pa) base)"

definition insert_block :: "link list_heap \<Rightarrow> nat \<Rightarrow> link list_heap option" where
  "insert_block h base =
     (if list_empty h Head then Some (list_add h Head (Pg base)) else insert_loop h Head base)"

definition default_init_memmap :: "nat \<Rightarrow> nat \<Rightarrow> pmm \<Rightarrow> pmm option" where
  "default_init_memmap base n s =
     do { kassert (n > 0);
          pg \<leftarrow> init_memmap_pages n base (pages s);
          let s1 = upd_page base (\<lambda>p. SetPageProperty (p\<lparr>property := u32 n\<rparr>)) (s\<lparr>pages := pg\<rparr>);
          let s2 = s1\<lparr>nr_free := u32 (nr_free s1 + n)\<rparr>;
          h \<leftarrow> insert_block (links s2) base;
          Some (s2\<lparr>links := h\<rparr>) }"

text \<open>The first-fit search.\<close>

partial_function (option) default_find :: "pmm \<Rightarrow> link \<Rightarrow> nat \<Rightarrow> nat option option" where
  "default_find s le n =
     (case list_next (links s) le of
        Head \<Rightarrow> Some None
      | Pg p \<Rightarrow> if n \<le> property (pages s p) then Some (Some p) else default_find s (Pg p) n)"

text \<open>Taking \<open>n\<close> pages off the front of the block at \<open>page\<close>.\<close>

definition take_block :: "nat \<Rightarrow> nat \<Rightarrow> pmm \<Rightarrow> pmm" where
  "take_block pa n s =
     (let prv = list_prev (links s) (Pg pa);
          s1 = s\<lparr>links := list_del (links s) (Pg pa)\<rparr>;
          s2 = (if property (pages s1 pa) > n then
                  let p = pa + n;
                      s1' = upd_page p (\<lambda>q. SetPageProperty
                              (q\<lparr>property := u32 (property (pages s1 pa) - n)\<rparr>)) s1
                  in s1'\<lparr>links := list_add (links s1') prv (Pg p)\<rparr>
                else s1);
          s3 = s2\<lparr>nr_free := u32_minus (nr_free s2) n\<rparr>
      in upd_page pa ClearPageProperty s3)"

definition default_alloc_pages :: "nat \<Rightarrow> pmm \<Rightarrow> (nat option \<times> pmm) option" where
  "default_alloc_pages n s =
     do { kassert (n > 0);
          if n > nr_free s then Some (None, s)
          else do { r \<leftarrow> default_find s Head n;
                    case r of
                      None \<Rightarrow> Some (None, s)
                    | Some pa \<Rightarrow> Some (Some pa, take_block pa n s) } }"

text \<open>The loop over the descriptors in \<open>default_free_pages\<close>.\<close>

fun free_reset_pages :: "nat \<Rightarrow> nat \<Rightarrow> (nat \<Rightarrow> page) \<Rightarrow> (nat \<Rightarrow> page) option" where
  "free_reset_pages 0 p pg = Some pg"
| "free_reset_pages (Suc k) p pg =
     do { kassert (\<not> PageReserved (pg p) \<and> \<not> PageProperty (pg p));
          free_reset_pages k (Suc p) (pg(p := (pg p)\<lparr>flags := 0, ref := 0\<rparr>)) }"

text \<open>
  Merging of two neighbours: \<^verbatim>\<open>p->property += q->property; ClearPageProperty(q);
  list_del(&(q->page_link))\<close>.
\<close>

definition join_blocks :: "nat \<Rightarrow> nat \<Rightarrow> pmm \<Rightarrow> pmm" where
  "join_blocks p q s =
     (let s1 = upd_page p (\<lambda>d. d\<lparr>property := u32 (property d + property (pages s q))\<rparr>) s;
          s2 = upd_page q ClearPageProperty s1
      in s2\<lparr>links := list_del (links s2) (Pg q)\<rparr>)"

definition merge_prev :: "nat \<Rightarrow> pmm \<Rightarrow> nat \<times> pmm" where
  "merge_prev base s =
     (case list_prev (links s) (Pg base) of
        Head \<Rightarrow> (base, s)
      | Pg p \<Rightarrow>
          if p + property (pages s p) = base then (p, join_blocks p base s) else (base, s))"

definition merge_next :: "nat \<Rightarrow> pmm \<Rightarrow> pmm" where
  "merge_next base s =
     (case list_next (links s) (Pg base) of
        Head \<Rightarrow> s
      | Pg p \<Rightarrow> if base + property (pages s base) = p then join_blocks base p s else s)"

definition default_free_pages :: "nat \<Rightarrow> nat \<Rightarrow> pmm \<Rightarrow> pmm option" where
  "default_free_pages base n s =
     do { kassert (n > 0);
          pg \<leftarrow> free_reset_pages n base (pages s);
          let s1 = upd_page base (\<lambda>p. SetPageProperty (p\<lparr>property := u32 n\<rparr>)) (s\<lparr>pages := pg\<rparr>);
          let s2 = s1\<lparr>nr_free := u32 (nr_free s1 + n)\<rparr>;
          h \<leftarrow> insert_block (links s2) base;
          let (base', s3) = merge_prev base (s2\<lparr>links := h\<rparr>);
          Some (merge_next base' s3) }"

definition default_nr_free_pages :: "pmm \<Rightarrow> nat" where
  "default_nr_free_pages s = nr_free s"

text \<open>The state at boot: every page reserved, an empty list header.\<close>

definition boot_pmm :: pmm where
  "boot_pmm = default_init \<lparr>pages = (\<lambda>_. SetPageReserved \<lparr>ref = 0, flags = 0, property = 0, pra_vaddr = 0\<rparr>),
     links = \<lparr>prev_of = id, next_of = id\<rparr>, nr_free = 0\<rparr>"

subsection \<open>Flags and evaluation rules\<close>

lemma page_flag_simps [simp]:
  "PageProperty (SetPageProperty p)" "\<not> PageProperty (ClearPageProperty p)"
  "PageReserved (SetPageProperty p) = PageReserved p" "PageReserved (ClearPageProperty p) = PageReserved p"
  "PageReserved (SetPageReserved p)" "PageProperty (SetPageReserved p) = PageProperty p"
  "\<not> PageProperty (p\<lparr>flags := 0\<rparr>)" "\<not> PageReserved (p\<lparr>flags := 0\<rparr>)"
  "PageProperty (p\<lparr>property := k\<rparr>) = PageProperty p" "PageReserved (p\<lparr>property := k\<rparr>) = PageReserved p"
  "PageProperty (p\<lparr>ref := r\<rparr>) = PageProperty p" "PageReserved (p\<lparr>ref := r\<rparr>) = PageReserved p"
  "property (SetPageProperty p) = property p" "property (ClearPageProperty p) = property p" "property (SetPageReserved p) = property p"
  "ref (SetPageProperty p) = ref p" "ref (ClearPageProperty p) = ref p"
  by (simp_all add: PageProperty_def PageReserved_def SetPageProperty_def SetPageReserved_def
      ClearPageProperty_def PG_property_def PG_reserved_def bit_set_bit_iff bit_unset_bit_iff)

lemma loops_numeral:
  "init_memmap_pages (numeral v) p pg = do { kassert (PageReserved (pg p));
          init_memmap_pages (pred_numeral v) (Suc p) (pg(p := (pg p)\<lparr>property := 0, flags := 0, ref := 0\<rparr>)) }"
  "free_reset_pages (numeral v) p pg = do { kassert (\<not> PageReserved (pg p) \<and> \<not> PageProperty (pg p));
          free_reset_pages (pred_numeral v) (Suc p) (pg(p := (pg p)\<lparr>flags := 0, ref := 0\<rparr>)) }"
  "init_memmap_pages 1 p pg = do { kassert (PageReserved (pg p)); Some (pg(p := (pg p)\<lparr>property := 0, flags := 0, ref := 0\<rparr>)) }"
  "free_reset_pages 1 p pg = do { kassert (\<not> PageReserved (pg p) \<and> \<not> PageProperty (pg p));
          Some (pg(p := (pg p)\<lparr>flags := 0, ref := 0\<rparr>)) }"
  by (simp_all add: numeral_eq_Suc)

lemmas pmm_eval = default_init_def default_init_memmap_def default_alloc_pages_def default_free_pages_def
  insert_block_def take_block_def join_blocks_def merge_prev_def merge_next_def upd_page_def Let_def
  list_init_def list_add_def list_add_after_def list_add_before_def list_add_between_def list_del_def list_del_between_def list_next_def list_prev_def list_empty_def
  u32_minus_def loops_numeral insert_loop.simps default_find.simps

subsection \<open>The allocator's invariant\<close>

text \<open>
  \<open>bs\<close> lists the heads of the free blocks. They form the ring of the free list,
  they are the pages that carry \<open>PG_property\<close>, consecutive blocks leave a gap (so
  adjacent free blocks are always merged) and \<open>nr_free\<close> counts the free pages.
\<close>

abbreviation bsize :: "pmm \<Rightarrow> nat \<Rightarrow> nat" where
  "bsize s b \<equiv> property (pages s b)"

definition gap :: "pmm \<Rightarrow> nat \<Rightarrow> nat \<Rightarrow> bool" where
  "gap s b c \<longleftrightarrow> b + bsize s b < c"

definition free_set :: "pmm \<Rightarrow> nat list \<Rightarrow> nat set" where
  "free_set s bs = (\<Union>b\<in>set bs. {b..<b + bsize s b})"

definition pmm_base :: "pmm \<Rightarrow> nat list \<Rightarrow> bool" where
  "pmm_base s bs \<longleftrightarrow> dlist (links s) Head (map Pg bs) \<and>
     (\<forall>b\<in>set bs. 0 < bsize s b) \<and>
     (\<forall>p. PageProperty (pages s p) \<longleftrightarrow> p \<in> set bs) \<and>
     (\<forall>p\<in>free_set s bs. \<not> PageReserved (pages s p)) \<and>
     nr_free s = sum_list (map (bsize s) bs) \<and> nr_free s < 2 ^ 32"

definition pmm_inv :: "pmm \<Rightarrow> nat list \<Rightarrow> bool" where
  "pmm_inv s bs \<longleftrightarrow> pmm_base s bs \<and> successively (gap s) bs"

subsection \<open>Allocation\<close>


lemma gap_trans_sorted:
  assumes "successively (gap s) bs"
  shows "sorted_wrt (gap s) bs"
  using assms
proof (induction bs)
  case (Cons b bs)
  then show ?case
  proof (cases bs)
    case (Cons c cs)
    have "gap s b d" if "d \<in> set cs" for d
      using Cons.IH Cons.prems that Cons by (auto simp: gap_def)
    with Cons.IH Cons.prems Cons show ?thesis by auto
  qed simp
qed simp

lemma sum_list_split_le: "b \<in> set bs \<Longrightarrow> f b \<le> sum_list (map f bs)" for f :: "'a \<Rightarrow> nat"
  by (induction bs) auto

lemma default_find_result:
  assumes "dlist (links s) Head (map Pg (xs @ ys))"
  shows "default_find s (last (Head # map Pg xs)) n = Some (find (\<lambda>b. n \<le> bsize s b) ys)"
  using assms
proof (induction ys arbitrary: xs)
  case Nil
  then show ?case using dlist_next[of "links s" Head "map Pg xs" "[]"]
    by (subst default_find.simps) (simp del: last.simps)
next
  case (Cons y ys)
  have nx: "list_next (links s) (last (Head # map Pg xs)) = Pg y"
    using dlist_next[of "links s" Head "map Pg xs" "map Pg (y # ys)"] Cons.prems by (simp del: last.simps)
  have "default_find s (Pg y) n = Some (find (\<lambda>b. n \<le> bsize s b) ys)"
    using Cons.IH[of "xs @ [y]"] Cons.prems by simp
  then show ?case by (subst default_find.simps) (simp add: nx del: last.simps)
qed

lemma find_split:
  "find P ys = Some y \<Longrightarrow> \<exists>us vs. ys = us @ y # vs \<and> P y \<and> (\<forall>u\<in>set us. \<not> P u)"
proof (induction ys)
  case (Cons a ys)
  show ?case
  proof (cases "P a")
    case True
    then show ?thesis using Cons.prems by (intro exI[of _ "[]"] exI[of _ ys]) auto
  next
    case False
    then obtain us vs where "ys = us @ y # vs \<and> P y \<and> (\<forall>u\<in>set us. \<not> P u)" using Cons by auto
    then show ?thesis using False by (intro exI[of _ "a # us"] exI[of _ vs]) auto
  qed
qed simp

lemma u32_minus_less [simp]: "b \<le> a \<Longrightarrow> a < 4294967296 \<Longrightarrow> u32_minus a b = a - b"
  by (rule u32_minus_le)

text \<open>The state after \<open>take_block\<close>, field by field.\<close>

lemma take_block_fields:
  "pages (take_block pa n s) = (if n < bsize s pa
      then (pages s)(pa + n := SetPageProperty ((pages s (pa + n))\<lparr>property := u32 (bsize s pa - n)\<rparr>), pa := ClearPageProperty (if n = 0 then SetPageProperty ((pages s pa)\<lparr>property := u32 (bsize s pa)\<rparr>) else pages s pa))
      else (pages s)(pa := ClearPageProperty (pages s pa)))"
  "nr_free (take_block pa n s) = u32_minus (nr_free s) n"
  "links (take_block pa n s) = (if n < bsize s pa
     then list_add (list_del (links s) (Pg pa)) (list_prev (links s) (Pg pa)) (Pg (pa + n)) else list_del (links s) (Pg pa))"
  by (auto simp: take_block_def upd_page_def Let_def)

lemma take_block_links:
  assumes "dlist (links s) Head (map Pg (us @ pa # vs))" "0 < n" "pa + n \<notin> set (us @ pa # vs)"
  shows "dlist (links (take_block pa n s)) Head (map Pg (us @ (if n < bsize s pa then (pa + n) # vs else vs)))"
proof -
  have d: "dlist (list_del (links s) (Pg pa)) Head (map Pg us @ map Pg vs)"
    using dlist_del[of "links s" Head "map Pg us" "Pg pa" "map Pg vs"] assms by simp
  have pv: "list_prev (links s) (Pg pa) = last (Head # map Pg us)"
    using dlist_prev[of "links s" Head "map Pg us" "Pg pa # map Pg vs"] assms by (simp del: last.simps)
  have "dlist (list_add (list_del (links s) (Pg pa)) (list_prev (links s) (Pg pa)) (Pg (pa + n))) Head
      (map Pg us @ Pg (pa + n) # map Pg vs)"
    unfolding list_add_def using assms(3) by (intro dlist_add_after[OF d _ pv]) auto
  then show ?thesis using d by (simp add: take_block_fields)
qed

lemma successively_gap_cong:
  assumes "\<And>b. b \<in> set bs \<Longrightarrow> bsize s' b = bsize s b"
  shows "successively (gap s') bs = successively (gap s) bs"
  using assms by (intro successively_cong) (auto simp: gap_def)

lemma pmm_inv_around:
  assumes "pmm_inv s (us @ pa # vs)"
  shows "\<And>u. u \<in> set us \<Longrightarrow> u + bsize s u < pa" "\<And>v. v \<in> set vs \<Longrightarrow> pa + bsize s pa < v"
    "0 < bsize s pa" "bsize s pa \<le> nr_free s" "nr_free s < 4294967296"
    "\<And>u v. u \<in> set us \<Longrightarrow> v \<in> set vs \<Longrightarrow> u + bsize s u < v"
  using assms gap_trans_sorted[of s "us @ pa # vs"]
  by (auto simp: pmm_inv_def pmm_base_def sorted_wrt_append gap_def)

lemma take_block_ok:
  assumes inv: "pmm_inv s (us @ pa # vs)" and n: "0 < n" "n \<le> bsize s pa"
  defines "s' \<equiv> take_block pa n s"
    and "bs' \<equiv> us @ (if n < bsize s pa then (pa + n) # vs else vs)"
  shows "pmm_inv s' bs' \<and> free_set s' bs' = free_set s (us @ pa # vs) - {pa..<pa + n} \<and>
    nr_free s' = nr_free s - n"
proof -
  note ar = pmm_inv_around[OF inv]
  have inv': "dlist (links s) Head (map Pg (us @ pa # vs))"
    "\<forall>b\<in>set (us @ pa # vs). 0 < bsize s b"
    "\<forall>p. PageProperty (pages s p) \<longleftrightarrow> p \<in> set (us @ pa # vs)"
    "\<forall>p\<in>free_set s (us @ pa # vs). \<not> PageReserved (pages s p)"
    "nr_free s = sum_list (map (bsize s) (us @ pa # vs))"
    "successively (gap s) (us @ pa # vs)"
    using inv by (auto simp: pmm_inv_def pmm_base_def)
  have fresh: "pa + n \<notin> set (us @ pa # vs)" using ar(1,2) n by fastforce
  have pa_nin: "pa \<notin> set us" "pa \<notin> set vs" using ar(1,2) by fastforce+
  have bsz: "bsize s' b = bsize s b" if "b \<in> set us \<union> set vs" for b
    using that fresh pa_nin by (auto simp: s'_def take_block_fields)
  have bszn: "n < bsize s pa \<Longrightarrow> bsize s' (pa + n) = bsize s pa - n"
    using n ar by (simp add: s'_def take_block_fields)
  have links: "dlist (links s') Head (map Pg bs')"
    using take_block_links[OF inv'(1) n(1) fresh] by (simp add: s'_def bs'_def)
  have props: "PageProperty (pages s' p) \<longleftrightarrow> p \<in> set bs'" for p
    using inv'(3) fresh pa_nin n by (auto simp: s'_def bs'_def take_block_fields)
  have resv: "PageReserved (pages s' p) = PageReserved (pages s p)" for p
    using n by (auto simp: s'_def take_block_fields)
  have fs: "free_set s' bs' = free_set s (us @ pa # vs) - {pa..<pa + n}"
  proof -
    define A where "A = (\<Union>b\<in>set us \<union> set vs. {b..<b + bsize s b})"
    have "free_set s' bs' = A \<union> {pa + n..<pa + bsize s pa}"
      using bsz bszn by (auto simp: free_set_def bs'_def A_def)
    moreover have "free_set s (us @ pa # vs) = A \<union> {pa..<pa + bsize s pa}"
      by (auto simp: free_set_def A_def)
    moreover have "A \<inter> {pa..<pa + n} = {}"
      using ar(1,2) n by (fastforce simp: A_def)
    ultimately show ?thesis using n by auto
  qed
  have nr: "nr_free s' = nr_free s - n"
    using ar n by (simp add: s'_def take_block_fields)
  have maps: "map (bsize s') us = map (bsize s) us" "map (bsize s') vs = map (bsize s) vs"
    using bsz by (auto intro: map_cong)
  have sum: "nr_free s' = sum_list (map (bsize s') bs')"
    using inv'(5) n bszn by (simp add: nr bs'_def maps)
  have pos: "\<forall>b\<in>set bs'. 0 < bsize s' b"
    using inv'(2) bsz bszn by (auto simp: bs'_def)
  have "successively (gap s') us" "successively (gap s') vs"
    using inv'(6) bsz successively_gap_cong[of us s' s] successively_gap_cong[of vs s' s]
    by (auto simp: successively_append_iff successively_Cons)
  moreover have "us \<noteq> [] \<Longrightarrow> last us + bsize s' (last us) < pa"
    "us \<noteq> [] \<Longrightarrow> vs \<noteq> [] \<Longrightarrow> last us + bsize s' (last us) < hd vs"
    "vs \<noteq> [] \<Longrightarrow> pa + bsize s pa < hd vs"
    using ar(1,2,6) bsz by simp_all
  ultimately have suc: "successively (gap s') bs'"
    using bszn n by (cases "us = []"; cases "vs = []"; cases "n < bsize s pa")
      (simp_all add: bs'_def successively_append_iff successively_Cons gap_def)
  show ?thesis
    using links props resv fs nr sum pos suc inv'(4) ar(5)
    by (simp add: pmm_inv_def pmm_base_def)
qed

lemma block_run:
  assumes inv: "pmm_inv s bs" and n: "0 < n" and run: "{p..<p + n} \<subseteq> free_set s bs"
  shows "\<exists>b\<in>set bs. n \<le> bsize s b"
proof -
  have "p \<in> free_set s bs" using run n by auto
  then obtain b where b: "b \<in> set bs" "b \<le> p" "p < b + bsize s b" by (auto simp: free_set_def)
  obtain us vs where bs: "bs = us @ b # vs" using split_list[OF b(1)] by blast
  note ar = pmm_inv_around[OF inv[unfolded bs]]
  have "b + bsize s b \<notin> free_set s bs"
    using ar(1,2) by (fastforce simp: free_set_def bs)
  then have "\<not> (b + bsize s b < p + n)"
    using subsetD[OF run, of "b + bsize s b"] b by auto
  then show ?thesis using b by (intro bexI[of _ b]) auto
qed

lemma alloc_pages_spec:
  assumes inv: "pmm_inv s bs" and n: "0 < n"
  shows "\<exists>r s'. default_alloc_pages n s = Some (r, s') \<and>
    (case r of
       None \<Rightarrow> s' = s \<and> \<not> (\<exists>p. {p..<p + n} \<subseteq> free_set s bs)
     | Some p \<Rightarrow> {p..<p + n} \<subseteq> free_set s bs \<and> (\<forall>b\<in>set bs. b < p \<longrightarrow> bsize s b < n) \<and>
         nr_free s' = nr_free s - n \<and>
         (\<exists>bs'. pmm_inv s' bs' \<and> free_set s' bs' = free_set s bs - {p..<p + n}))"
proof -
  have bound: "\<forall>b\<in>set bs. bsize s b \<le> nr_free s"
    using inv sum_list_split_le[of _ bs "bsize s"] by (simp add: pmm_inv_def pmm_base_def)
  have find: "default_find s Head n = Some (find (\<lambda>b. n \<le> bsize s b) bs)"
    using default_find_result[of s "[]" bs n] inv by (simp add: pmm_inv_def pmm_base_def)
  show ?thesis
  proof (cases "find (\<lambda>b. n \<le> bsize s b) bs")
    case None
    then have "\<forall>b\<in>set bs. \<not> n \<le> bsize s b" by (auto simp: find_None_iff)
    then have "\<not> (\<exists>p. {p..<p + n} \<subseteq> free_set s bs)" using block_run[OF inv n] by blast
    then show ?thesis using None find n by (simp add: default_alloc_pages_def)
  next
    case (Some p)
    then obtain us vs where bs: "bs = us @ p # vs" "n \<le> bsize s p" "\<forall>u\<in>set us. \<not> n \<le> bsize s u"
      using find_split[OF Some] by blast
    note ar = pmm_inv_around[OF inv[unfolded bs]]
    have "default_alloc_pages n s = Some (Some p, take_block p n s)"
      using Some find n bound bs by (auto simp: default_alloc_pages_def)
    moreover have "\<forall>b\<in>set bs. b < p \<longrightarrow> bsize s b < n"
      using bs ar(2) by (fastforce simp: not_le)
    moreover have "{p..<p + n} \<subseteq> free_set s bs" using bs by (auto simp: free_set_def)
    ultimately show ?thesis
      using take_block_ok[OF inv[unfolded bs(1)] n bs(2)] bs(1) by auto
  qed
qed

subsection \<open>Release and merging\<close>


lemma free_reset_pages_ok:
  "(\<forall>q\<in>{p..<p + k}. \<not> PageReserved (pg q) \<and> \<not> PageProperty (pg q)) \<Longrightarrow>
   free_reset_pages k p pg =
     Some (\<lambda>q. if q \<in> {p..<p + k} then (pg q)\<lparr>flags := 0, ref := 0\<rparr> else pg q)"
proof (induction k arbitrary: p pg)
  case (Suc k)
  let ?pg = "pg(p := (pg p)\<lparr>flags := 0, ref := 0\<rparr>)"
  have "free_reset_pages k (Suc p) ?pg =
     Some (\<lambda>q. if q \<in> {Suc p..<Suc p + k} then (?pg q)\<lparr>flags := 0, ref := 0\<rparr> else ?pg q)"
    by (rule Suc.IH) (use Suc.prems in auto)
  moreover have "\<not> PageReserved (pg p)" "\<not> PageProperty (pg p)" using Suc.prems by auto
  ultimately show ?case by (auto simp: fun_eq_iff)
qed simp

lemma insert_loop_before:
  "dlist h Head (map Pg (xs @ zs @ c # ws)) \<Longrightarrow> \<forall>z\<in>set zs. \<not> base < z \<Longrightarrow> base < c \<Longrightarrow>
   insert_loop h (last (Head # map Pg xs)) base = Some (list_add_before h (Pg c) (Pg base))"
proof (induction zs arbitrary: xs)
  case Nil
  have "list_next h (last (Head # map Pg xs)) = Pg c"
    using dlist_next[of h Head "map Pg xs" "map Pg (c # ws)"] Nil.prems by (simp del: last.simps)
  then show ?case using Nil.prems by (subst insert_loop.simps) (simp del: last.simps)
next
  case (Cons z zs)
  have 1: "list_next h (last (Head # map Pg xs)) = Pg z"
    using dlist_next[of h Head "map Pg xs" "map Pg (z # zs @ c # ws)"] Cons.prems by (simp del: last.simps)
  have "list_next h (Pg z) = hd (map Pg (zs @ c # ws) @ [Head])"
    using dlist_next[of h Head "map Pg (xs @ [z])" "map Pg (zs @ c # ws)"] Cons.prems by simp
  then have "list_next h (Pg z) \<noteq> Head" by (cases zs) auto
  then show ?case
    using Cons.IH[of "xs @ [z]"] Cons.prems 1 by (subst insert_loop.simps) (simp del: last.simps, simp)
qed

text \<open>The loop at the end of the list adds the block a second time, after itself.\<close>

lemma insert_loop_tail:
  "dlist h Head (map Pg (xs @ zs @ [c])) \<Longrightarrow> base \<notin> set (xs @ zs @ [c]) \<Longrightarrow>
   \<forall>z\<in>set (zs @ [c]). \<not> base < z \<Longrightarrow>
   insert_loop h (last (Head # map Pg xs)) base =
     Some (list_add (list_add h (Pg c) (Pg base)) (Pg base) (Pg base))"
proof (induction zs arbitrary: xs)
  case Nil
  let ?h = "list_add h (Pg c) (Pg base)"
  let ?h2 = "list_add ?h (Pg base) (Pg base)"
  have 1: "list_next h (last (Head # map Pg xs)) = Pg c"
    using dlist_next[of h Head "map Pg xs" "[Pg c]"] Nil.prems by (simp del: last.simps)
  have 2: "list_next h (Pg c) = Head"
    using dlist_next[of h Head "map Pg (xs @ [c])" "[]"] Nil.prems by simp
  have d: "dlist ?h Head (map Pg (xs @ [c]) @ Pg base # [])"
    unfolding list_add_def by (rule dlist_add_after) (use Nil.prems in auto)
  have 3: "list_next ?h (Pg c) = Pg base"
    using dlist_next[of ?h Head "map Pg (xs @ [c])" "[Pg base]"] d by simp
  have 4: "list_next ?h (Pg base) = Head"
    using dlist_next[of ?h Head "map Pg (xs @ [c, base])" "[]"] d by simp
  have 5: "list_next ?h2 (Pg base) = Head"
    using 4 by (simp add: list_add_def list_add_after_def list_add_between_def list_next_def Let_def)
  have "insert_loop ?h2 (Pg base) base = Some ?h2" using 5 by (subst insert_loop.simps) simp
  then have "insert_loop ?h (Pg c) base = Some ?h2" using 3 4 by (subst insert_loop.simps) simp
  then show ?case using Nil.prems 1 2 by (subst insert_loop.simps) (simp del: last.simps)
next
  case (Cons z zs)
  have 1: "list_next h (last (Head # map Pg xs)) = Pg z"
    using dlist_next[of h Head "map Pg xs" "map Pg (z # zs @ [c])"] Cons.prems by (simp del: last.simps)
  have "list_next h (Pg z) = hd (map Pg (zs @ [c]) @ [Head])"
    using dlist_next[of h Head "map Pg (xs @ [z])" "map Pg (zs @ [c])"] Cons.prems by simp
  then have "list_next h (Pg z) \<noteq> Head" by (cases zs) auto
  then show ?case
    using Cons.IH[of "xs @ [z]"] Cons.prems 1 by (subst insert_loop.simps) (simp del: last.simps, simp)
qed

lemma distinct_blocks: "pmm_base s bs \<Longrightarrow> distinct bs"
  by (auto simp: pmm_base_def dlist_def distinct_map)

lemma join_blocks_fields:
  assumes "p \<noteq> q"
  shows "pages (join_blocks p q s) = (pages s)(p := (pages s p)\<lparr>property := u32 (bsize s p + bsize s q)\<rparr>,
      q := ClearPageProperty (pages s q))"
    "nr_free (join_blocks p q s) = nr_free s"
    "links (join_blocks p q s) = list_del (links s) (Pg q)"
  using assms by (auto simp: join_blocks_def upd_page_def Let_def)

lemma join_blocks_ok:
  assumes b: "pmm_base s (us @ p # q # vs)" and adj: "p + bsize s p = q"
  defines "s' \<equiv> join_blocks p q s"
  shows "pmm_base s' (us @ p # vs)" "free_set s' (us @ p # vs) = free_set s (us @ p # q # vs)"
    "nr_free s' = nr_free s" "bsize s' p = bsize s p + bsize s q"
    "\<And>x. x \<noteq> p \<Longrightarrow> bsize s' x = bsize s x"
proof -
  have dis: "distinct (us @ p # q # vs)" using distinct_blocks[OF b] .
  then have pq: "p \<noteq> q" by auto
  note f = join_blocks_fields[OF pq, of s]
  have le: "bsize s p + bsize s q < 4294967296" using b by (simp add: pmm_base_def)
  show nr: "nr_free s' = nr_free s" and bp: "bsize s' p = bsize s p + bsize s q"
    and bx: "\<And>x. x \<noteq> p \<Longrightarrow> bsize s' x = bsize s x"
    using le pq by (simp_all add: s'_def f)
  have bus: "bsize s' x = bsize s x" if "x \<in> set us \<union> set vs" for x
    by (rule bx) (use dis that in auto)
  have "{p..<p + bsize s' p} = {p..<p + bsize s p} \<union> {q..<q + bsize s q}"
    using adj bp by auto
  moreover have "(\<Union>b\<in>set us \<union> set vs. {b..<b + bsize s' b}) = (\<Union>b\<in>set us \<union> set vs. {b..<b + bsize s b})"
    using bus by simp
  ultimately show fs: "free_set s' (us @ p # vs) = free_set s (us @ p # q # vs)"
    by (auto simp: free_set_def)
  have "dlist (links s') Head (map Pg (us @ p # vs))"
    using dlist_del[of "links s" Head "map Pg (us @ [p])" "Pg q" "map Pg vs"] b
    by (simp add: s'_def f pmm_base_def)
  moreover have "PageProperty (pages s' x) \<longleftrightarrow> x \<in> set (us @ p # vs)" for x
    using b dis by (auto simp: s'_def f pmm_base_def)
  moreover have "PageReserved (pages s' x) = PageReserved (pages s x)" for x
    using pq by (simp add: s'_def f)
  moreover have "sum_list (map (bsize s') us) = sum_list (map (bsize s) us)"
    "sum_list (map (bsize s') vs) = sum_list (map (bsize s) vs)"
    using bus by (simp_all cong: map_cong)
  moreover have "\<forall>x\<in>set (us @ p # vs). 0 < bsize s' x"
    using b bus bp by (auto simp: pmm_base_def)
  ultimately show "pmm_base s' (us @ p # vs)"
    using b fs nr bp by (simp add: pmm_base_def)
qed


text \<open>A state in the middle of \<open>default_free_pages\<close>: the block \<open>b\<close> is linked in
  but not yet merged.\<close>

definition unmerged :: "pmm \<Rightarrow> nat list \<Rightarrow> nat \<Rightarrow> nat list \<Rightarrow> bool" where
  "unmerged s us b vs \<longleftrightarrow> pmm_base s (us @ b # vs) \<and>
     successively (gap s) us \<and> successively (gap s) vs \<and>
     (us \<noteq> [] \<longrightarrow> last us + bsize s (last us) \<le> b) \<and> (vs \<noteq> [] \<longrightarrow> b + bsize s b \<le> hd vs)"

lemma merge_prev_ok:
  assumes u: "unmerged s us b vs" and m: "merge_prev b s = (b', s')"
  shows "\<exists>us'. unmerged s' us' b' vs \<and> successively (gap s') (us' @ [b']) \<and>
    free_set s' (us' @ b' # vs) = free_set s (us @ b # vs) \<and> nr_free s' = nr_free s"
proof -
  have d: "dlist (links s) Head (map Pg us @ map Pg (b # vs))" using u by (simp add: unmerged_def pmm_base_def)
  have pv: "list_prev (links s) (Pg b) = last (Head # map Pg us)"
    using dlist_prev[OF d] by (simp del: last.simps)
  show ?thesis
  proof (cases us rule: rev_cases)
    case Nil
    then show ?thesis using pv u m by (intro exI[of _ "[]"]) (simp add: merge_prev_def unmerged_def)
  next
    case (snoc ws p)
    then have pv: "list_prev (links s) (Pg b) = Pg p" using pv by simp
    show ?thesis
    proof (cases "p + bsize s p = b")
      case False
      then have "gap s p b" using u snoc by (simp add: unmerged_def gap_def)
      then show ?thesis using False pv u m snoc
        by (intro exI[of _ us]) (simp add: merge_prev_def unmerged_def successively_append_iff)
    next
      case True
      have base: "pmm_base s (ws @ p # b # vs)" using u snoc by (simp add: unmerged_def)
      note j = join_blocks_ok[OF base True]
      have m': "b' = p" "s' = join_blocks p b s" using m pv True by (auto simp: merge_prev_def)
      have dis: "distinct (ws @ p # b # vs)" using distinct_blocks[OF base] .
      have same: "bsize s' x = bsize s x" if "x \<in> set ws \<union> set vs" for x
        unfolding m'(2) by (rule j(5)) (use dis that in auto)
      have "ws \<noteq> [] \<longrightarrow> bsize s' (last ws) = bsize s (last ws)" using same by simp
      moreover have "successively (gap s') ws = successively (gap s) ws"
        by (rule successively_gap_cong) (rule same, simp)
      ultimately have "successively (gap s') (ws @ [p])"
        using u snoc
        by (auto simp: unmerged_def successively_append_iff gap_def)
      moreover have "successively (gap s') vs"
        using u same successively_gap_cong[of vs s' s] by (simp add: unmerged_def)
      moreover have "vs \<noteq> [] \<Longrightarrow> p + bsize s' p \<le> hd vs" using u True j(4) m' by (simp add: unmerged_def)
      ultimately show ?thesis
        using j(1-4) m' snoc by (intro exI[of _ ws]) (auto simp: unmerged_def successively_append_iff gap_def)
    qed
  qed
qed

lemma merge_next_ok:
  assumes u: "unmerged s us b vs" and g: "successively (gap s) (us @ [b])"
  shows "\<exists>bs. pmm_inv (merge_next b s) bs \<and> free_set (merge_next b s) bs = free_set s (us @ b # vs) \<and>
    nr_free (merge_next b s) = nr_free s"
proof -
  have d: "dlist (links s) Head (map Pg (us @ [b]) @ map Pg vs)" using u by (simp add: unmerged_def pmm_base_def)
  have nx: "list_next (links s) (Pg b) = hd (map Pg vs @ [Head])" using dlist_next[OF d] by simp
  show ?thesis
  proof (cases vs)
    case Nil
    then show ?thesis using nx u g by (intro exI[of _ "us @ [b]"]) (simp add: merge_next_def unmerged_def pmm_inv_def)
  next
    case (Cons q ws)
    then have nx: "list_next (links s) (Pg b) = Pg q" using nx by simp
    show ?thesis
    proof (cases "b + bsize s b = q")
      case False
      then have "gap s b q" using u Cons by (simp add: unmerged_def gap_def)
      then show ?thesis using False nx u g Cons
        by (intro exI[of _ "us @ b # vs"])
          (simp add: merge_next_def unmerged_def pmm_inv_def successively_append_iff successively_Cons)
    next
      case True
      have base: "pmm_base s (us @ b # q # ws)" using u Cons by (simp add: unmerged_def)
      note j = join_blocks_ok[OF base True]
      have m: "merge_next b s = join_blocks b q s" using nx True by (simp add: merge_next_def)
      have dis: "distinct (us @ b # q # ws)" using distinct_blocks[OF base] .
      have same: "bsize (join_blocks b q s) x = bsize s x" if "x \<in> set us \<union> set ws" for x
        by (rule j(5)) (use dis that in auto)
      have "us \<noteq> [] \<longrightarrow> bsize (join_blocks b q s) (last us) = bsize s (last us)" using same by simp
      moreover have "successively (gap (join_blocks b q s)) us = successively (gap s) us"
        by (rule successively_gap_cong) (rule same, simp)
      ultimately have "successively (gap (join_blocks b q s)) (us @ [b])"
        using g
        by (auto simp: successively_append_iff gap_def)
      moreover have "successively (gap (join_blocks b q s)) ws"
        using u Cons same successively_gap_cong[of ws "join_blocks b q s" s]
        by (cases "ws = []") (simp_all add: unmerged_def successively_Cons)
      moreover have "ws \<noteq> [] \<Longrightarrow> gap (join_blocks b q s) b (hd ws)"
        using u Cons True j(4) by (auto simp: unmerged_def successively_Cons gap_def)
      ultimately show ?thesis
        using j m Cons by (intro exI[of _ "us @ b # ws"])
          (auto simp: pmm_inv_def successively_append_iff successively_Cons)
    qed
  qed
qed


text \<open>The state after the descriptors are reset and the block is linked in.\<close>

lemma linked_state:
  assumes inv: "pmm_inv s (us @ vs)" and n: "0 < n"
    and dis: "{base..<base + n} \<inter> free_set s (us @ vs) = {}"
    and res: "\<forall>p\<in>{base..<base + n}. \<not> PageReserved (pages s p)"
    and sz: "nr_free s + n < 2 ^ 32"
    and us: "\<forall>u\<in>set us. u < base" and vs: "\<forall>v\<in>set vs. base < v"
    and h: "dlist h Head (map Pg (us @ base # vs))"
    and pg: "pg = (\<lambda>q. if q \<in> {base..<base + n} then (pages s q)\<lparr>flags := 0, ref := 0\<rparr> else pages s q)"
  defines "s' \<equiv> (upd_page base (\<lambda>p. SetPageProperty (p\<lparr>property := u32 n\<rparr>)) (s\<lparr>pages := pg\<rparr>))
      \<lparr>nr_free := u32 (nr_free s + n), links := h\<rparr>"
  shows "unmerged s' us base vs \<and> free_set s' (us @ base # vs) = free_set s (us @ vs) \<union> {base..<base + n} \<and>
    nr_free s' = nr_free s + n"
proof -
  have b: "dlist (links s) Head (map Pg (us @ vs))" "\<forall>b\<in>set (us @ vs). 0 < bsize s b"
    "\<And>p. PageProperty (pages s p) \<longleftrightarrow> p \<in> set (us @ vs)"
    "\<forall>p\<in>free_set s (us @ vs). \<not> PageReserved (pages s p)"
    "nr_free s = sum_list (map (bsize s) (us @ vs))" "successively (gap s) (us @ vs)"
    using inv by (auto simp: pmm_inv_def pmm_base_def)
  have heads: "b \<notin> {base..<base + n}" if "b \<in> set (us @ vs)" for b
    using dis b(2) that by (fastforce simp: free_set_def)
  have nle: "n < 4294967296" using sz by simp
  have bb: "bsize s' base = n" using nle by (simp add: s'_def upd_page_def)
  have same: "bsize s' x = bsize s x" if "x \<in> set us \<union> set vs" for x
    using heads[of x] that n by (auto simp: s'_def upd_page_def pg)
  have fs: "free_set s' (us @ base # vs) = free_set s (us @ vs) \<union> {base..<base + n}"
    using same bb by (auto simp: free_set_def)
  have sums: "sum_list (map (bsize s') us) = sum_list (map (bsize s) us)"
    "sum_list (map (bsize s') vs) = sum_list (map (bsize s) vs)"
    using same by (simp_all cong: map_cong)
  have nr: "nr_free s' = nr_free s + n" using sz by (simp add: s'_def)
  have props: "PageProperty (pages s' p) \<longleftrightarrow> p \<in> set (us @ base # vs)" for p
    using b(3)[of p] heads[of p] n by (auto simp: s'_def upd_page_def pg)
  have resv: "\<not> PageReserved (pages s' p)" if "p \<in> free_set s' (us @ base # vs)" for p
    using that b(4) res n unfolding fs by (auto simp: s'_def upd_page_def pg)
  have pos: "\<forall>x\<in>set (us @ base # vs). 0 < bsize s' x" using b(2) same bb n by auto
  have base: "pmm_base s' (us @ base # vs)"
    using h props resv pos nr b(5) sums bb sz by (simp add: pmm_base_def s'_def)
  have gaps: "successively (gap s') us" "successively (gap s') vs"
    using b(6) same successively_gap_cong[of us s' s] successively_gap_cong[of vs s' s]
    by (auto simp: successively_append_iff)
  have "last us + bsize s' (last us) \<le> base" if "us \<noteq> []"
  proof -
    have l: "last us \<in> set us" using that by simp
    have "base \<notin> {last us..<last us + bsize s (last us)}" 
      using dis n l by (fastforce simp: free_set_def set_eq_iff)
    then show ?thesis using us l same[of "last us"] by auto
  qed
  moreover have "base + bsize s' base \<le> hd vs" if "vs \<noteq> []"
    using heads[of "hd vs"] vs that bb by (cases vs) auto
  ultimately show ?thesis using base gaps fs nr by (simp add: unmerged_def)
qed


lemma insert_position:
  fixes base :: nat
  assumes "sorted_wrt (<) bs" "base \<notin> set bs" "bs = [] \<or> base < last bs"
  shows "\<exists>us vs. bs = us @ vs \<and> (\<forall>u\<in>set us. u < base) \<and> (\<forall>v\<in>set vs. base < v) \<and> (bs \<noteq> [] \<longrightarrow> vs \<noteq> [])"
proof -
  let ?us = "takeWhile (\<lambda>b. b < base) bs" and ?vs = "dropWhile (\<lambda>b. b < base) bs"
  have "\<forall>v\<in>set ?vs. base < v"
  proof (cases ?vs)
    case (Cons v vs)
    then have v: "\<not> v < base" using hd_dropWhile[of "\<lambda>b. b < base" bs] by auto
    have "v \<in> set bs" using Cons set_dropWhileD[of v "\<lambda>b. b < base" bs] by simp
    moreover have "sorted_wrt (<) ?vs"
      using assms(1) by (metis sorted_wrt_append takeWhile_dropWhile_id)
    moreover have "base < v" using v calculation(1) assms(2) by (metis linorder_neqE_nat)
    ultimately show ?thesis using Cons by auto
  next
    case Nil
    show ?thesis unfolding Nil by simp
  qed
  moreover have "bs \<noteq> [] \<longrightarrow> ?vs \<noteq> []"
    using assms(3) by (auto simp: dropWhile_eq_Nil_conv intro!: bexI[of _ "last bs"])
  ultimately show ?thesis
    by (intro exI[of _ ?us] exI[of _ ?vs]) (auto dest: set_takeWhileD)
qed

lemma insert_block_ok:
  assumes d: "dlist h Head (map Pg (us @ vs))" and us: "\<forall>u\<in>set us. u < base" and vs: "\<forall>v\<in>set vs. base < v"
    and ne: "us @ vs \<noteq> [] \<longrightarrow> vs \<noteq> []"
  shows "\<exists>h'. insert_block h base = Some h' \<and> dlist h' Head (map Pg (us @ base # vs))"
proof (cases vs)
  case Nil
  then have "us = []" using ne by auto
  then have "dlist (list_add h Head (Pg base)) Head ([] @ Pg base # [])"
    unfolding list_add_def by (intro dlist_add_after) (use d Nil in auto)
  then show ?thesis using d Nil \<open>us = []\<close> by (simp add: insert_block_def dlist_empty_iff)
next
  case (Cons c ws)
  have "insert_loop h Head base = Some (list_add_before h (Pg c) (Pg base))"
    using insert_loop_before[of h "[]" us c ws base] d us vs Cons by (simp add: not_less less_imp_le)
  moreover have "\<not> list_empty h Head" using dlist_empty_iff[OF d] Cons by simp
  moreover have "dlist (list_add_before h (Pg c) (Pg base)) Head (map Pg us @ Pg base # map Pg vs)"
    by (intro dlist_add_before) (use d us vs Cons in auto)
  ultimately show ?thesis by (simp add: insert_block_def)
qed

lemma free_pages_spec:
  assumes inv: "pmm_inv s bs" and n: "0 < n"
    and dis: "{base..<base + n} \<inter> free_set s bs = {}"
    and res: "\<forall>p\<in>{base..<base + n}. \<not> PageReserved (pages s p)"
    and sz: "nr_free s + n < 2 ^ 32"
    and pos: "bs = [] \<or> base < last bs"
  shows "\<exists>s' bs'. default_free_pages base n s = Some s' \<and> pmm_inv s' bs' \<and>
    free_set s' bs' = free_set s bs \<union> {base..<base + n} \<and> nr_free s' = nr_free s + n"
proof -
  have posb: "\<forall>b\<in>set bs. 0 < bsize s b" "\<And>p. PageProperty (pages s p) \<longleftrightarrow> p \<in> set bs"
    and d: "dlist (links s) Head (map Pg bs)"
    using inv by (auto simp: pmm_inv_def pmm_base_def)
  have heads: "b \<notin> {base..<base + n}" if "b \<in> set bs" for b
    using dis posb(1) that by (fastforce simp: free_set_def)
  have "sorted_wrt (<) bs"
    using gap_trans_sorted[of s bs] inv
    by (auto simp: pmm_inv_def gap_def elim!: sorted_wrt_mono_rel[rotated])
  moreover have "base \<notin> set bs" using heads n by force
  ultimately obtain us vs where bs: "bs = us @ vs" "\<forall>u\<in>set us. u < base" "\<forall>v\<in>set vs. base < v"
    "us @ vs \<noteq> [] \<longrightarrow> vs \<noteq> []"
    using insert_position[of bs base] pos by auto
  define pg where "pg = (\<lambda>q. if q \<in> {base..<base + n} then (pages s q)\<lparr>flags := 0, ref := 0\<rparr> else pages s q)"
  have reset: "free_reset_pages n base (pages s) = Some pg"
    unfolding pg_def using heads posb(2) res by (intro free_reset_pages_ok) auto
  obtain h where h: "insert_block (links s) base = Some h" "dlist h Head (map Pg (us @ base # vs))"
    using insert_block_ok[of "links s" us vs base] d bs by auto
  define s1 where "s1 = (upd_page base (\<lambda>p. SetPageProperty (p\<lparr>property := u32 n\<rparr>)) (s\<lparr>pages := pg\<rparr>))
      \<lparr>nr_free := u32 (nr_free s + n), links := h\<rparr>"
  have un: "unmerged s1 us base vs" "free_set s1 (us @ base # vs) = free_set s bs \<union> {base..<base + n}"
    "nr_free s1 = nr_free s + n"
    using linked_state[OF inv[unfolded bs(1)] n dis[unfolded bs(1)] res sz bs(2,3) h(2) pg_def]
    unfolding bs(1) s1_def by blast+
  obtain b' s2 where mp: "merge_prev base s1 = (b', s2)" by force
  obtain us' where us': "unmerged s2 us' b' vs" "successively (gap s2) (us' @ [b'])"
    "free_set s2 (us' @ b' # vs) = free_set s1 (us @ base # vs)" "nr_free s2 = nr_free s1"
    using merge_prev_ok[OF un(1) mp] by blast
  obtain bs' where fin: "pmm_inv (merge_next b' s2) bs'"
    "free_set (merge_next b' s2) bs' = free_set s2 (us' @ b' # vs)" "nr_free (merge_next b' s2) = nr_free s2"
    using merge_next_ok[OF us'(1,2)] by blast
  have "default_free_pages base n s = Some (merge_next b' s2)"
    using n reset h mp by (simp add: default_free_pages_def Let_def s1_def upd_page_def)
  then show ?thesis using fin us' un by auto
qed

lemma init_memmap_pages_ok:
  "(\<forall>q\<in>{p..<p + k}. PageReserved (pg q)) \<Longrightarrow>
   init_memmap_pages k p pg =
     Some (\<lambda>q. if q \<in> {p..<p + k} then (pg q)\<lparr>property := 0, flags := 0, ref := 0\<rparr> else pg q)"
proof (induction k arbitrary: p pg)
  case (Suc k)
  let ?pg = "pg(p := (pg p)\<lparr>property := 0, flags := 0, ref := 0\<rparr>)"
  have "init_memmap_pages k (Suc p) ?pg =
     Some (\<lambda>q. if q \<in> {Suc p..<Suc p + k} then (?pg q)\<lparr>property := 0, flags := 0, ref := 0\<rparr> else ?pg q)"
    by (rule Suc.IH) (use Suc.prems in auto)
  moreover have "PageReserved (pg p)" using Suc.prems by auto
  ultimately show ?case by (auto simp: fun_eq_iff)
qed simp

lemma default_init_memmap_first:
  assumes "\<forall>p. PageReserved (pages s p) \<and> \<not> PageProperty (pages s p)" "0 < n" "n < 2 ^ 32"
  shows "\<exists>s'. default_init_memmap base n (default_init s) = Some s' \<and> pmm_inv s' [base] \<and>
    free_set s' [base] = {base..<base + n} \<and> nr_free s' = n"
proof -
  define pg where "pg = (\<lambda>q. if q \<in> {base..<base + n} then (pages s q)\<lparr>property := 0, flags := 0, ref := 0\<rparr> else pages s q)"
  have "init_memmap_pages n base (pages s) = Some pg"
    unfolding pg_def using assms by (intro init_memmap_pages_ok) auto
  moreover have d: "dlist (list_init (links s) Head) Head (map Pg ([] @ []))" by (simp add: dlist_init)
  then obtain h where h: "insert_block (list_init (links s) Head) base = Some h" "dlist h Head [Pg base]"
    using insert_block_ok[OF d, of base] by auto
  define s' where "s' = (upd_page base (\<lambda>p. SetPageProperty (p\<lparr>property := u32 n\<rparr>)) (s\<lparr>pages := pg\<rparr>))
      \<lparr>nr_free := n, links := h\<rparr>"
  have "default_init_memmap base n (default_init s) = Some s'"
    using calculation h(1) assms(2,3)
    by (simp add: default_init_memmap_def default_init_def Let_def s'_def upd_page_def)
  moreover have "pmm_inv s' [base]" "free_set s' [base] = {base..<base + n}"
    using h(2) assms by (auto simp: pmm_inv_def pmm_base_def free_set_def s'_def upd_page_def pg_def)
  ultimately show ?thesis by (auto simp: s'_def)
qed

subsection \<open>The free pages of a state\<close>

text \<open>The free pages, read off the descriptors alone.\<close>

definition free_pages_of :: "pmm \<Rightarrow> nat set" where
  "free_pages_of s = (\<Union>b\<in>{b. PageProperty (pages s b)}. {b..<b + property (pages s b)})"

definition pmm_ok :: "pmm \<Rightarrow> bool" where
  "pmm_ok s \<longleftrightarrow> (\<exists>bs. pmm_inv s bs)"

text \<open>
  What the caller of \<open>default_free_pages\<close> owes: the pages are in use and not
  reserved, the counter does not overflow, and some free block lies above the
  released one unless the list is empty.
\<close>

definition may_free :: "nat \<Rightarrow> nat \<Rightarrow> pmm \<Rightarrow> bool" where
  "may_free base n s \<longleftrightarrow> 0 < n \<and> {base..<base + n} \<inter> free_pages_of s = {} \<and>
     (\<forall>p\<in>{base..<base + n}. \<not> PageReserved (pages s p)) \<and> nr_free s + n < 2 ^ 32 \<and>
     ((\<forall>b. \<not> PageProperty (pages s b)) \<or> (\<exists>b. PageProperty (pages s b) \<and> base < b))"

lemma free_pages_of_inv: "pmm_inv s bs \<Longrightarrow> free_pages_of s = free_set s bs"
  by (simp add: free_pages_of_def free_set_def pmm_inv_def pmm_base_def)

lemma card_free_set: "successively (gap s) bs \<Longrightarrow> card (free_set s bs) = sum_list (map (bsize s) bs)"
proof (induction bs)
  case (Cons b bs)
  have "\<forall>c\<in>set bs. b + bsize s b < c" using gap_trans_sorted[OF Cons.prems] by (auto simp: gap_def)
  then have "{b..<b + bsize s b} \<inter> free_set s bs = {}" by (fastforce simp: free_set_def)
  moreover have "free_set s (b # bs) = {b..<b + bsize s b} \<union> free_set s bs" by (simp add: free_set_def)
  moreover have "finite (free_set s bs)" by (simp add: free_set_def)
  moreover have "card (free_set s bs) = sum_list (map (bsize s) bs)"
    using Cons.IH Cons.prems by (simp add: successively_Cons split: if_splits) (cases "bs = []"; simp add: free_set_def)
  ultimately show ?case by (simp add: card_Un_disjoint)
qed (simp add: free_set_def)

lemma nr_free_card: "pmm_ok s \<Longrightarrow> nr_free s = card (free_pages_of s)"
  by (auto simp: pmm_ok_def free_pages_of_inv card_free_set) (simp add: pmm_inv_def pmm_base_def card_free_set)

subsection \<open>The manager meets the interface\<close>

lemma default_alloc_pages_0 [simp]: "default_alloc_pages 0 s = None"
  by (simp add: default_alloc_pages_def)

lemma may_free_last:
  assumes "pmm_inv s bs" "may_free base n s"
  shows "bs = [] \<or> base < last bs"
proof (cases "bs = []")
  case False
  have heads: "\<And>b. PageProperty (pages s b) \<longleftrightarrow> b \<in> set bs" using assms(1) by (simp add: pmm_inv_def pmm_base_def)
  have "\<exists>b\<in>set bs. base < b" using assms(2) False by (auto simp: may_free_def heads)
  moreover have "b \<le> last bs" if "b \<in> set bs" for b
    using gap_trans_sorted[of s bs] assms(1) that False
    by (cases bs rule: rev_cases) (auto simp: pmm_inv_def gap_def sorted_wrt_append)
  ultimately show ?thesis by fastforce
qed simp

interpretation dpmm: pmm_manager pmm_ok free_pages_of default_alloc_pages default_free_pages
  default_nr_free_pages may_free
proof (unfold_locales, goal_cases)
  case (1 s n)
  then obtain bs where "pmm_inv s bs" by (auto simp: pmm_ok_def)
  then show ?case using alloc_pages_spec 1(2) by blast
next
  case (2 s n r s')
  then have n: "0 < n" by (cases n) auto
  from 2 obtain bs where bs: "pmm_inv s bs" by (auto simp: pmm_ok_def)
  show ?case using alloc_pages_spec[OF bs n] 2 by (cases r) (auto simp: pmm_ok_def)
next
  case (3 s n p s')
  then have n: "0 < n" by (cases n) auto
  from 3 obtain bs where bs: "pmm_inv s bs" by (auto simp: pmm_ok_def)
  then show ?case using 3 n alloc_pages_spec[OF bs n] by (auto simp: free_pages_of_inv)
next
  case (4 s n s')
  then have n: "0 < n" by (cases n) auto
  from 4 obtain bs where bs: "pmm_inv s bs" by (auto simp: pmm_ok_def)
  then show ?case using 4 n alloc_pages_spec[OF bs n] by (simp add: free_pages_of_inv)
next
  case (5 s base n)
  then obtain bs where bs: "pmm_inv s bs" by (auto simp: pmm_ok_def)
  have m: "0 < n" "{base..<base + n} \<inter> free_set s bs = {}" "nr_free s + n < 2 ^ 32"
    "\<forall>p\<in>{base..<base + n}. \<not> PageReserved (pages s p)"
    using 5(2) unfolding may_free_def free_pages_of_inv[OF bs] by auto
  obtain s' bs' where "default_free_pages base n s = Some s'" "pmm_inv s' bs'"
    "free_set s' bs' = free_set s bs \<union> {base..<base + n}"
    using free_pages_spec[OF bs m(1,2,4,3) may_free_last[OF bs 5(2)]] by blast
  then show ?case using free_pages_of_inv[OF bs] free_pages_of_inv by (metis pmm_ok_def)
next
  case (6 s)
  then have "finite (free_pages_of s)"
    by (auto simp: pmm_ok_def free_pages_of_inv free_set_def)
  then show ?case using nr_free_card[OF 6] by (simp add: default_nr_free_pages_def)
qed

subsection \<open>Freeing above every free block\<close>

text \<open>The first-fit search needs the \<open>next\<close> links only.\<close>

lemma default_find_chain:
  "successively (\<lambda>a b. next_of (links s) a = b) (le # map Pg ys @ [Head]) \<Longrightarrow>
   default_find s le n = Some (find (\<lambda>b. n \<le> bsize s b) ys)"
proof (induction ys arbitrary: le)
  case Nil
  then show ?case by (subst default_find.simps) (simp add: list_next_def)
next
  case (Cons y ys)
  have "default_find s (Pg y) n = Some (find (\<lambda>b. n \<le> bsize s b) ys)" by (rule Cons.IH) (use Cons.prems in simp)
  then show ?case using Cons.prems by (subst default_find.simps) (simp add: list_next_def)
qed

lemma linked_chain: "linked h xs \<Longrightarrow> successively (\<lambda>a b. next_of h a = b) xs"
  by (induction h xs rule: linked.induct) auto

lemma insert_block_tail:
  assumes inv: "pmm_inv s bs" and bs: "bs \<noteq> []" and above: "\<forall>b\<in>set bs. b < base"
  shows "\<exists>h. insert_block (links s) base = Some h \<and> prev_of h (Pg base) = Pg base \<and> next_of h (Pg base) = Head \<and>
    successively (\<lambda>a b. next_of h a = b) (Head # map Pg (bs @ [base]) @ [Head])"
proof -
  obtain zs c where z: "bs = zs @ [c]" using bs by (cases bs rule: rev_cases) auto
  have d: "dlist (links s) Head (map Pg bs)" using inv by (simp add: pmm_inv_def pmm_base_def)
  let ?h1 = "list_add (links s) (Pg c) (Pg base)"
  let ?h = "list_add ?h1 (Pg base) (Pg base)"
  have "insert_loop (links s) Head base = Some ?h"
    using insert_loop_tail[of "links s" "[]" zs c base] d above z by fastforce
  moreover have "\<not> list_empty (links s) Head" using dlist_empty_iff[OF d] bs by simp
  ultimately have "insert_block (links s) base = Some ?h" by (simp add: insert_block_def)
  moreover have "next_of (links s) (Pg c) = Head"
    using dlist_next[of "links s" Head "map Pg bs" "[]"] d z by (simp add: list_next_def)
  then have nx: "next_of ?h = (next_of (links s))(Pg c := Pg base, Pg base := Head)"
    using above z by (auto simp: list_add_def list_add_after_def list_add_between_def Let_def)
  moreover have "prev_of ?h (Pg base) = Pg base"
    by (simp add: list_add_def list_add_after_def list_add_between_def Let_def)
  moreover have "successively (\<lambda>a b. next_of ?h a = b) ((Head # map Pg zs) @ [Pg c, Pg base, Head])"
  proof -
    let ?xs = "Head # map Pg zs"
    have "successively (\<lambda>a b. next_of (links s) a = b) (?xs @ [Pg c, Head])"
      using linked_chain[of "links s" "Head # map Pg bs @ [Head]"] d z by (simp add: dlist_def)
    then have ch: "successively (\<lambda>a b. next_of (links s) a = b) ?xs" "next_of (links s) (last ?xs) = Pg c"
      unfolding successively_append_iff by simp_all
    have "distinct bs" using d by (simp add: dlist_def distinct_map)
    then have out: "Pg c \<notin> set ?xs" "Pg base \<notin> set ?xs" using z above by auto
    have same: "next_of ?h a = next_of (links s) a" if "a \<in> set ?xs" for a using that out nx by auto
    have "successively (\<lambda>a b. next_of ?h a = b) ?xs"
      using ch(1) by (rule successively_mono) (simp add: same del: list.set)
    moreover have "next_of ?h (last ?xs) = Pg c" using ch(2) same[OF last_in_set[of ?xs]] by (simp only: list.distinct simp_thms)
    moreover have "c \<noteq> base" using z above by auto
    ultimately show ?thesis unfolding successively_append_iff using nx by simp
  qed
  ultimately show ?thesis using z by (intro exI[of _ ?h]) simp
qed

text \<open>Taking the block whose links point to itself and to the header leaves it in the list.\<close>

lemma take_tail_block:
  assumes "prev_of (links s) (Pg base) = Pg base" "next_of (links s) (Pg base) = Head" "bsize s base = n"
  shows "next_of (links (take_block base n s)) = next_of (links s)"
    "prev_of (links (take_block base n s)) (Pg base) = Pg base"
    "bsize (take_block base n s) b = bsize s b" "nr_free (take_block base n s) = u32_minus (nr_free s) n"
  using assms by (auto simp: take_block_fields list_del_def list_del_between_def fun_eq_iff)

lemma alloc_tail_block:
  assumes "prev_of (links s) (Pg base) = Pg base" "next_of (links s) (Pg base) = Head" "bsize s base = n"
    and "successively (\<lambda>a b. next_of (links s) a = b) (Head # map Pg (bs @ [base]) @ [Head])"
    and "\<forall>b\<in>set bs. bsize s b < n" "0 < n" "n \<le> nr_free s"
  shows "default_alloc_pages n s = Some (Some base, take_block base n s)"
proof -
  have "find (\<lambda>b. n \<le> bsize s b) (bs @ [base]) = Some base"
    using assms(3,5) by (induction bs) (auto simp: not_le)
  then have "default_find s Head n = Some (Some base)" using default_find_chain[OF assms(4), of n] by simp
  then show ?thesis using assms(6,7) by (simp add: default_alloc_pages_def)
qed

lemma free_tail_block:
  assumes inv: "pmm_inv s bs" and bs: "bs \<noteq> []" and above: "\<forall>b\<in>set bs. b < base" and n: "0 < n"
    and res: "\<forall>p\<in>{base..<base + n}. \<not> PageReserved (pages s p)" and nr: "nr_free s + n < 2 ^ 32"
  shows "\<exists>s'. default_free_pages base n s = Some s' \<and> prev_of (links s') (Pg base) = Pg base \<and> next_of (links s') (Pg base) = Head \<and>
    successively (\<lambda>a b. next_of (links s') a = b) (Head # map Pg (bs @ [base]) @ [Head]) \<and>
    bsize s' base = n \<and> (\<forall>b\<in>set bs. bsize s' b = bsize s b) \<and> nr_free s' = nr_free s + n"
proof -
  define pg where "pg = (\<lambda>q. if q \<in> {base..<base + n} then (pages s q)\<lparr>flags := 0, ref := 0\<rparr> else pages s q)"
  have "\<not> PageProperty (pages s q)" if "q \<in> {base..<base + n}" for q
    using inv above that by (auto simp: pmm_inv_def pmm_base_def)
  then have reset: "free_reset_pages n base (pages s) = Some pg"
    unfolding pg_def using res by (intro free_reset_pages_ok) auto
  obtain h where h: "insert_block (links s) base = Some h" "prev_of h (Pg base) = Pg base" "next_of h (Pg base) = Head"
    "successively (\<lambda>a b. next_of h a = b) (Head # map Pg (bs @ [base]) @ [Head])" using insert_block_tail[OF inv bs above] by blast
  define s' where "s' = (upd_page base (\<lambda>p. SetPageProperty (p\<lparr>property := u32 n\<rparr>)) (s\<lparr>pages := pg\<rparr>))\<lparr>nr_free := u32 (nr_free s + n), links := h\<rparr>"
  have sz: "bsize s' base = n" "nr_free s' = nr_free s + n" using nr by (simp_all add: s'_def upd_page_def)
  have "merge_prev base s' = (base, s')" using h(2) n sz(1) by (simp add: merge_prev_def list_prev_def s'_def)
  moreover have "merge_next base s' = s'" using h(3) by (simp add: merge_next_def list_next_def s'_def)
  ultimately have "default_free_pages base n s = Some s'"
    using n reset h(1) by (simp add: default_free_pages_def Let_def s'_def upd_page_def)
  moreover have "\<forall>b\<in>set bs. bsize s' b = bsize s b" using above by (auto simp: s'_def upd_page_def pg_def)
  ultimately show ?thesis using h sz by (intro exI[of _ s']) (simp add: s'_def)
qed

subsection \<open>Properties\<close>

lemma no_flags [simp]: "\<not> PageProperty \<lparr>ref = r, flags = 0, property = n, pra_vaddr = v\<rparr>"
  by (simp add: PageProperty_def)

lemma boot_6: "\<exists>s. default_init_memmap 0 6 boot_pmm = Some s \<and> pmm_inv s [0] \<and>
  free_set s [0] = {0..<6} \<and> nr_free s = 6"
proof -
  let ?s = "\<lparr>pages = (\<lambda>_. SetPageReserved \<lparr>ref = 0, flags = 0, property = 0, pra_vaddr = 0\<rparr>),
     links = \<lparr>prev_of = id, next_of = id\<rparr>, nr_free = 0\<rparr>"
  have "\<forall>p. PageReserved (pages ?s p) \<and> \<not> PageProperty (pages ?s p)"
    by simp
  then show ?thesis using default_init_memmap_first[of ?s 6 0] by (simp add: boot_pmm_def)
qed

text \<open>
  Initialising the manager and handing it a run of reserved pages establishes the
  invariant: one free block, holding exactly the pages of the run, all of them counted.
\<close>

lemma default_init_memmap_correct:
  assumes "\<forall>p. PageReserved (pages s p) \<and> \<not> PageProperty (pages s p)" "0 < n" "n < 2 ^ 32"
  shows "\<exists>s'. default_init_memmap base n (default_init s) = Some s' \<and> pmm_inv s' [base] \<and>
    free_set s' [base] = {base..<base + n} \<and> default_nr_free_pages s' = n"
  using default_init_memmap_first[OF assms] by (simp add: default_nr_free_pages_def)

text \<open>
  C1. First-fit allocation always returns. When it returns a block, the block is a run of
  free pages, every free block below it is too small for the request, exactly the pages of
  the block stop being free and the counter drops by their number; when it returns NULL the
  state is unchanged and no run of that many free pages exists. The invariant is kept.
\<close>

theorem default_alloc_pages_correct:
  assumes "pmm_inv s bs" and "0 < n"
  shows "\<exists>r s'. default_alloc_pages n s = Some (r, s') \<and>
    (case r of
       None \<Rightarrow> s' = s \<and> \<not> (\<exists>p. {p..<p + n} \<subseteq> free_set s bs)
     | Some p \<Rightarrow> {p..<p + n} \<subseteq> free_set s bs \<and> (\<forall>b\<in>set bs. b < p \<longrightarrow> bsize s b < n) \<and>
         nr_free s' = nr_free s - n \<and>
         (\<exists>bs'. pmm_inv s' bs' \<and> free_set s' bs' = free_set s bs - {p..<p + n}))"
  using assms by (rule alloc_pages_spec)

theorem default_alloc_pages_correct_witness:
  "\<exists>s p s'. default_init_memmap 0 6 boot_pmm = Some s \<and> default_alloc_pages 4 s = Some (Some p, s') \<and>
     {p..<p + 4} \<subseteq> {0..<6} \<and> nr_free s' = 2"
proof -
  obtain s where s: "default_init_memmap 0 6 boot_pmm = Some s" "pmm_inv s [0]"
    "free_set s [0] = {0..<6}" "nr_free s = 6" using boot_6 by blast
  have "{0..<0 + 4} \<subseteq> free_set s [0]" using s(3) by auto
  then show ?thesis using default_alloc_pages_correct[OF s(2), of 4] s
    by (auto split: option.splits)
qed

text \<open>
  C2. Releasing pages that are in use, below the highest free block, always succeeds: exactly
  these pages become free, they are merged with their neighbours (the invariant leaves no two
  adjacent free blocks) and the counter grows by their number.
\<close>

theorem default_free_pages_correct:
  assumes "pmm_inv s bs" and "0 < n" and "{base..<base + n} \<inter> free_set s bs = {}"
    and "\<forall>p\<in>{base..<base + n}. \<not> PageReserved (pages s p)"
    and "nr_free s + n < 2 ^ 32" and "bs = [] \<or> base < last bs"
  shows "\<exists>s' bs'. default_free_pages base n s = Some s' \<and> pmm_inv s' bs' \<and>
    free_set s' bs' = free_set s bs \<union> {base..<base + n} \<and> nr_free s' = nr_free s + n"
  using assms by (rule free_pages_spec)

theorem default_free_pages_correct_witness:
  "\<exists>s s' bs'. do { s \<leftarrow> default_init_memmap 0 6 boot_pmm; (a, s) \<leftarrow> default_alloc_pages 6 s; Some s } = Some s \<and>
     default_free_pages 2 3 s = Some s' \<and> pmm_inv s' bs' \<and> free_set s' bs' = {2..<5} \<and> nr_free s' = 3"
proof -
  define s where "s = the (do { s \<leftarrow> default_init_memmap 0 6 boot_pmm; (a, s) \<leftarrow> default_alloc_pages 6 s; Some s })"
  have run: "do { s \<leftarrow> default_init_memmap 0 6 boot_pmm; (a, s) \<leftarrow> default_alloc_pages 6 s; Some s } = Some s"
    and res: "\<forall>p\<in>{2..<2 + 3}. \<not> PageReserved (pages s p)" and nr: "nr_free s = 0"
    unfolding s_def by (simp_all add: pmm_eval boot_pmm_def u32_def)
  obtain bs where bs: "pmm_inv s bs" "nr_free s = 0"
    using run boot_6 nr dpmm.alloc_inv[of _ 6] by (fastforce simp: pmm_ok_def bind_eq_Some_conv)
  then have "bs = []" by (cases bs) (auto simp: pmm_inv_def pmm_base_def)
  then show ?thesis using default_free_pages_correct[OF bs(1), of 3 2] run res nr
    by (auto simp: free_set_def)
qed

text \<open>
  Two blocks handed out one after the other never overlap, the counter accounts for both,
  and a request that fits in a run of free pages is not refused.
\<close>

lemma default_alloc_separate:
  assumes "pmm_ok s" and "default_alloc_pages n s = Some (Some p, s1)" and "0 < m"
    and "{q..<q + m} \<subseteq> free_pages_of s - {p..<p + n}"
  shows "\<exists>q' s2. default_alloc_pages m s1 = Some (Some q', s2) \<and>
    {p..<p + n} \<inter> {q'..<q' + m} = {} \<and>
    default_nr_free_pages s2 = default_nr_free_pages s - n - m"
proof -
  have s1: "pmm_ok s1" "free_pages_of s1 = free_pages_of s - {p..<p + n}"
    using dpmm.alloc_inv dpmm.alloc_Some assms(1,2) by auto
  then obtain q' s2 where "default_alloc_pages m s1 = Some (Some q', s2)"
    using dpmm.alloc_succeeds[of s1 m q] assms(3,4) by auto
  then show ?thesis
    using dpmm.alloc_disjoint[OF assms(1,2)] dpmm.alloc_count[OF assms(1,2)] dpmm.alloc_count[OF s1(1)] by auto
qed

text \<open>
  C4. The block searches do not leave the loop after appending at the tail, so a block freed
  above all free blocks is linked to itself, and list_del cannot unlink it. When n such pages
  are released, no free block below is as large and there are n free pages in all, the
  next two requests for n pages are both given this block.
\<close>

theorem default_double_allocation:
  assumes "pmm_inv s bs" and "bs \<noteq> []" and "\<forall>b\<in>set bs. b < base" and "0 < n"
    and "\<forall>p\<in>{base..<base + n}. \<not> PageReserved (pages s p)" and "nr_free s + n < 2 ^ 32"
    and "\<forall>b\<in>set bs. bsize s b < n" and "n \<le> nr_free s"
  shows "\<exists>s1 s2 s3. default_free_pages base n s = Some s1 \<and> default_alloc_pages n s1 = Some (Some base, s2) \<and>
    default_alloc_pages n s2 = Some (Some base, s3) \<and> default_nr_free_pages s3 = default_nr_free_pages s - n"
proof -
  obtain s1 where s1: "default_free_pages base n s = Some s1" "prev_of (links s1) (Pg base) = Pg base" "next_of (links s1) (Pg base) = Head"
    "successively (\<lambda>a b. next_of (links s1) a = b) (Head # map Pg (bs @ [base]) @ [Head])"
    "bsize s1 base = n" "\<forall>b\<in>set bs. bsize s1 b = bsize s b" "nr_free s1 = nr_free s + n"
    using free_tail_block[OF assms(1-6)] by blast
  let ?s2 = "take_block base n s1"
  have small: "\<forall>b\<in>set bs. bsize s1 b < n" using s1(6) assms(7) by simp
  have a1: "default_alloc_pages n s1 = Some (Some base, ?s2)"
    by (rule alloc_tail_block[OF s1(2,3,5,4) small assms(4)]) (simp add: s1(7))
  note t = take_tail_block[OF s1(2,3,5)]
  have nr: "nr_free ?s2 = nr_free s" using t(4) s1(7) assms(6) by simp
  have a2: "default_alloc_pages n ?s2 = Some (Some base, take_block base n ?s2)"
    by (rule alloc_tail_block[where bs = bs]) (use s1 small assms(4,8) nr t in simp_all)
  have "nr_free (take_block base n ?s2) = nr_free s - n" using assms(6,8) nr by (simp add: take_block_fields)
  then show ?thesis using s1(1) a1 a2 by (simp add: default_nr_free_pages_def)
qed

theorem default_double_allocation_witness:
  "\<exists>s s1 s2 s3. do { s \<leftarrow> default_init_memmap 0 6 boot_pmm; (a, s) \<leftarrow> default_alloc_pages 6 s;
                    s \<leftarrow> default_free_pages 2 1 s; default_free_pages 0 1 s } = Some s \<and>
     default_free_pages 4 2 s = Some s1 \<and> default_alloc_pages 2 s1 = Some (Some 4, s2) \<and> default_alloc_pages 2 s2 = Some (Some 4, s3)"
proof -
  define s where "s = the (do { s \<leftarrow> default_init_memmap 0 6 boot_pmm; (a, s) \<leftarrow> default_alloc_pages 6 s;
                    s \<leftarrow> default_free_pages 2 1 s; default_free_pages 0 1 s })"
  have run: "do { s \<leftarrow> default_init_memmap 0 6 boot_pmm; (a, s) \<leftarrow> default_alloc_pages 6 s;
                    s \<leftarrow> default_free_pages 2 1 s; default_free_pages 0 1 s } = Some s"
    and res: "\<forall>p\<in>{4..<4 + 2}. \<not> PageReserved (pages s p)" and nr: "nr_free s = 2" and sz: "bsize s 0 = 1" "bsize s 2 = 1"
    and pp: "PageProperty (pages s p) \<longleftrightarrow> p = 0 \<or> p = 2" and rp: "\<not> PageReserved (pages s 0)" "\<not> PageReserved (pages s 2)"
    and ls: "next_of (links s) Head = Pg 0" "next_of (links s) (Pg 0) = Pg 2" "next_of (links s) (Pg 2) = Head"
      "prev_of (links s) Head = Pg 2" "prev_of (links s) (Pg 0) = Head" "prev_of (links s) (Pg 2) = Pg 0" for p
    unfolding s_def by (simp_all add: pmm_eval boot_pmm_def u32_def)
  have "free_set s [0, 2] = {0, 2}" using sz by (auto simp: free_set_def)
  then have "pmm_inv s [0, 2]" using nr sz rp ls pp by (auto simp: pmm_inv_def pmm_base_def dlist_def gap_def)
  from default_double_allocation[OF this, of 4 2] show ?thesis using run res nr sz by auto
qed

end
