(* ===== verification/PageTable.thy ===== *)
theory PageTable
  imports DefaultPmm
begin

text \<open>
  Page tables (\<^verbatim>\<open>kern/mm/mmu.h\<close>, \<^verbatim>\<open>kern/mm/pmm.h\<close>, \<^verbatim>\<open>kern/mm/pmm.c\<close>).

  Physical memory is the array of frames, indexed by physical page number, each
  of them 512 words of 64 bits. A kernel virtual address of a page is the number
  of its frame, because \<^verbatim>\<open>KADDR\<close> adds a constant; a \<^verbatim>\<open>pte_t *\<close> is a frame and
  an entry number. Linear addresses are naturals below \<open>2 ^ 64\<close>, with the
  reduction written out where the code adds to them. A \<^verbatim>\<open>struct Page *\<close> is the
  index of the descriptor, as in the physical memory managers. The manager is the
  table of functions \<^verbatim>\<open>struct pmm_manager\<close>. A write to memory outside the page
  array stops the model as a panic does.
\<close>

unbundle bit_operations_syntax

subsection \<open>Layout constants and address fields\<close>

definition PGSIZE :: nat where "PGSIZE = 4096"
definition PTSIZE :: nat where "PTSIZE = PGSIZE * 512"
definition PDSIZE :: nat where "PDSIZE = PTSIZE * 512"
definition NPTEENTRY :: nat where "NPTEENTRY = 512"
definition nbase :: nat where "nbase = 0x80000000 div PGSIZE"
definition USERBASE :: nat where "USERBASE = 0x00200000"
definition USERTOP :: nat where "USERTOP = 0x80000000"
definition KERNBASE :: nat where "KERNBASE = 0xFFFFFFFFC0200000"
definition KERNTOP :: nat where "KERNTOP = KERNBASE + 0x7E00000"

definition USER_ACCESS :: "nat \<Rightarrow> nat \<Rightarrow> bool" where
  "USER_ACCESS a b \<longleftrightarrow> USERBASE \<le> a \<and> a < b \<and> b \<le> USERTOP"

definition KERN_ACCESS :: "nat \<Rightarrow> nat \<Rightarrow> bool" where
  "KERN_ACCESS a b \<longleftrightarrow> KERNBASE \<le> a \<and> a < b \<and> b \<le> KERNTOP"

definition ROUNDDOWN :: "nat \<Rightarrow> nat \<Rightarrow> nat" where
  "ROUNDDOWN a n = a - a mod n"

definition ROUNDUP :: "nat \<Rightarrow> nat \<Rightarrow> nat" where
  "ROUNDUP a n = ROUNDDOWN (u64 (a + n - 1)) n"

definition PDX1 :: "nat \<Rightarrow> nat" where "PDX1 la = la div 2 ^ 30 mod 512"
definition PDX0 :: "nat \<Rightarrow> nat" where "PDX0 la = la div 2 ^ 21 mod 512"
definition PTX :: "nat \<Rightarrow> nat" where "PTX la = la div 2 ^ 12 mod 512"
definition PGOFF :: "nat \<Rightarrow> nat" where "PGOFF la = la mod 4096"
definition PGADDR :: "nat \<Rightarrow> nat \<Rightarrow> nat \<Rightarrow> nat \<Rightarrow> nat" where
  "PGADDR d1 d0 t off = u64 (push_bit 30 d1 OR push_bit 21 d0 OR push_bit 12 t OR off)"

definition PTE_V :: "32 word" where "PTE_V = 0x001"
definition PTE_R :: "32 word" where "PTE_R = 0x002"
definition PTE_W :: "32 word" where "PTE_W = 0x004"
definition PTE_X :: "32 word" where "PTE_X = 0x008"
definition PTE_U :: "32 word" where "PTE_U = 0x010"
definition PTE_USER :: "32 word" where "PTE_USER = PTE_R OR PTE_W OR PTE_X OR PTE_U OR PTE_V"

definition valid :: "64 word \<Rightarrow> bool" where
  "valid e \<longleftrightarrow> e AND ucast PTE_V \<noteq> 0"

definition PTE_ADDR :: "64 word \<Rightarrow> 64 word" where
  "PTE_ADDR e = push_bit 2 (e AND NOT 0x3FF)"

definition PPN :: "64 word \<Rightarrow> nat" where
  "PPN pa = unat (drop_bit 12 pa)"

text \<open>\<^verbatim>\<open>pte_create\<close>: the \<^verbatim>\<open>int\<close> argument is sign-extended by the conversion.\<close>

definition pte_create :: "nat \<Rightarrow> 32 word \<Rightarrow> 64 word" where
  "pte_create ppn t = push_bit 10 (word_of_nat ppn) OR ucast PTE_V OR scast t"

subsection \<open>State\<close>

record pmm_ops =
  mgr_init :: "pmm \<Rightarrow> pmm"
  mgr_init_memmap :: "nat \<Rightarrow> nat \<Rightarrow> pmm \<Rightarrow> pmm option"
  mgr_alloc :: "nat \<Rightarrow> pmm \<Rightarrow> (nat option \<times> pmm) option"
  mgr_free :: "nat \<Rightarrow> nat \<Rightarrow> pmm \<Rightarrow> pmm option"
  mgr_nr_free :: "pmm \<Rightarrow> nat"

definition default_pmm_manager :: pmm_ops where
  "default_pmm_manager = \<lparr>mgr_init = default_init, mgr_init_memmap = default_init_memmap,
     mgr_alloc = default_alloc_pages, mgr_free = default_free_pages,
     mgr_nr_free = default_nr_free_pages\<rparr>"

record vm =
  phys :: pmm
  frames :: "nat \<Rightarrow> nat \<Rightarrow> 64 word"
  npage :: nat

type_synonym pte_ptr = "nat \<times> nat"

definition alloc_pages :: "pmm_ops \<Rightarrow> nat \<Rightarrow> ('b vm_scheme) \<Rightarrow> (nat option \<times> 'b vm_scheme) option" where
  "alloc_pages M n s = do { (r, ph) \<leftarrow> mgr_alloc M n (phys s); Some (r, s\<lparr>phys := ph\<rparr>) }"

definition free_pages :: "pmm_ops \<Rightarrow> nat \<Rightarrow> nat \<Rightarrow> 'b vm_scheme \<Rightarrow> 'b vm_scheme option" where
  "free_pages M base n s = do { ph \<leftarrow> mgr_free M base n (phys s); Some (s\<lparr>phys := ph\<rparr>) }"

definition nr_free_pages :: "pmm_ops \<Rightarrow> 'b vm_scheme \<Rightarrow> nat" where
  "nr_free_pages M s = mgr_nr_free M (phys s)"

definition page2ppn :: "nat \<Rightarrow> nat" where
  "page2ppn p = p + nbase"

definition page2pa :: "nat \<Rightarrow> 64 word" where
  "page2pa p = push_bit 12 (word_of_nat (page2ppn p))"

definition KADDR :: "'b vm_scheme \<Rightarrow> 64 word \<Rightarrow> nat option" where
  "KADDR s pa = (if npage s \<le> PPN pa then kpanic else Some (PPN pa))"

definition pa2page :: "'b vm_scheme \<Rightarrow> 64 word \<Rightarrow> nat option" where
  "pa2page s pa = (if npage s \<le> PPN pa then kpanic
     else if PPN pa < nbase then kpanic else Some (PPN pa - nbase))"

definition page2kva :: "'b vm_scheme \<Rightarrow> nat \<Rightarrow> nat option" where
  "page2kva s p = KADDR s (page2pa p)"

definition pte2page :: "'b vm_scheme \<Rightarrow> 64 word \<Rightarrow> nat option" where
  "pte2page s e = (if \<not> valid e then kpanic else pa2page s (PTE_ADDR e))"

definition pde2page :: "'b vm_scheme \<Rightarrow> 64 word \<Rightarrow> nat option" where
  "pde2page s e = pa2page s (PTE_ADDR e)"

definition page_ref :: "'b vm_scheme \<Rightarrow> nat \<Rightarrow> int" where
  "page_ref s p = ref (pages (phys s) p)"

definition set_page_ref :: "nat \<Rightarrow> int \<Rightarrow> 'b vm_scheme \<Rightarrow> 'b vm_scheme" where
  "set_page_ref p v s = s\<lparr>phys := upd_page p (ref_update (\<lambda>_. v)) (phys s)\<rparr>"

definition page_ref_inc :: "nat \<Rightarrow> 'b vm_scheme \<Rightarrow> 'b vm_scheme" where
  "page_ref_inc p s = s\<lparr>phys := upd_page p (ref_update (\<lambda>r. r + 1)) (phys s)\<rparr>"

definition page_ref_dec :: "nat \<Rightarrow> 'b vm_scheme \<Rightarrow> 'b vm_scheme" where
  "page_ref_dec p s = s\<lparr>phys := upd_page p (ref_update (\<lambda>r. r - 1)) (phys s)\<rparr>"

text \<open>Reading and writing an entry, and \<^verbatim>\<open>memset(kva, 0, PGSIZE)\<close>.\<close>

definition rd :: "'b vm_scheme \<Rightarrow> pte_ptr \<Rightarrow> 64 word" where
  "rd s q = frames s (fst q) (snd q)"

definition wr :: "pte_ptr \<Rightarrow> 64 word \<Rightarrow> 'b vm_scheme \<Rightarrow> 'b vm_scheme" where
  "wr q w s = s\<lparr>frames := (frames s)(fst q := (frames s (fst q))(snd q := w))\<rparr>"

definition clear_frame :: "nat \<Rightarrow> 'b vm_scheme \<Rightarrow> 'b vm_scheme" where
  "clear_frame f s = s\<lparr>frames := (frames s)(f := (\<lambda>_. 0))\<rparr>"

subsection \<open>Walking and filling the tables\<close>

text \<open>
  One level of \<open>get_pte\<close>: when the directory entry \<open>q\<close> is not valid, a zeroed
  page is allocated for the next level, if asked for and if there is one.
\<close>

definition ensure_table :: "pmm_ops \<Rightarrow> pte_ptr \<Rightarrow> bool \<Rightarrow> 'b vm_scheme \<Rightarrow> (bool \<times> 'b vm_scheme) option" where
  "ensure_table M q create s =
     (if valid (rd s q) then Some (True, s)
      else if \<not> create then Some (False, s)
      else do { (pg, s1) \<leftarrow> alloc_pages M 1 s;
                case pg of
                  None \<Rightarrow> Some (False, s1)
                | Some p \<Rightarrow>
                    do { let s2 = set_page_ref p 1 s1;
                         kva \<leftarrow> KADDR s2 (page2pa p);
                         let s3 = clear_frame kva s2;
                         Some (True, wr q (pte_create (page2ppn p) (PTE_U OR PTE_V)) s3) } })"

definition get_pte :: "pmm_ops \<Rightarrow> nat \<Rightarrow> nat \<Rightarrow> bool \<Rightarrow> 'b vm_scheme \<Rightarrow> (pte_ptr option \<times> 'b vm_scheme) option" where
  "get_pte M pgdir la create s =
     do { (ok1, s1) \<leftarrow> ensure_table M (pgdir, PDX1 la) create s;
          if \<not> ok1 then Some (None, s1)
          else do { pd0 \<leftarrow> KADDR s1 (PTE_ADDR (rd s1 (pgdir, PDX1 la)));
                    (ok0, s2) \<leftarrow> ensure_table M (pd0, PDX0 la) create s1;
                    if \<not> ok0 then Some (None, s2)
                    else do { pt \<leftarrow> KADDR s2 (PTE_ADDR (rd s2 (pd0, PDX0 la)));
                              Some (Some (pt, PTX la), s2) } } }"

definition get_page :: "pmm_ops \<Rightarrow> nat \<Rightarrow> nat \<Rightarrow> 'b vm_scheme \<Rightarrow> (nat option \<times> pte_ptr option \<times> 'b vm_scheme) option" where
  "get_page M pgdir la s =
     do { (q, s1) \<leftarrow> get_pte M pgdir la False s;
          case q of
            None \<Rightarrow> Some (None, q, s1)
          | Some ptep \<Rightarrow>
              if valid (rd s1 ptep) then do { p \<leftarrow> pte2page s1 (rd s1 ptep); Some (Some p, q, s1) }
              else Some (None, q, s1) }"

definition page_remove_pte :: "pmm_ops \<Rightarrow> pte_ptr \<Rightarrow> 'b vm_scheme \<Rightarrow> 'b vm_scheme option" where
  "page_remove_pte M ptep s =
     (if valid (rd s ptep) then
        do { p \<leftarrow> pte2page s (rd s ptep);
             let s1 = page_ref_dec p s;
             s2 \<leftarrow> (if page_ref s1 p = 0 then free_pages M p 1 s1 else Some s1);
             Some (wr ptep 0 s2) }
      else Some s)"

definition page_remove :: "pmm_ops \<Rightarrow> nat \<Rightarrow> nat \<Rightarrow> 'b vm_scheme \<Rightarrow> 'b vm_scheme option" where
  "page_remove M pgdir la s =
     do { (q, s1) \<leftarrow> get_pte M pgdir la False s;
          case q of None \<Rightarrow> Some s1 | Some ptep \<Rightarrow> page_remove_pte M ptep s1 }"

definition page_insert :: "pmm_ops \<Rightarrow> nat \<Rightarrow> nat \<Rightarrow> nat \<Rightarrow> 32 word \<Rightarrow> 'b vm_scheme \<Rightarrow> (int \<times> 'b vm_scheme) option" where
  "page_insert M pgdir page la perm s =
     do { (q, s1) \<leftarrow> get_pte M pgdir la True s;
          case q of
            None \<Rightarrow> Some (- E_NO_MEM, s1)
          | Some ptep \<Rightarrow>
              do { let s2 = page_ref_inc page s1;
                   s3 \<leftarrow> (if valid (rd s2 ptep) then
                            do { p \<leftarrow> pte2page s2 (rd s2 ptep);
                                 if p = page then Some (page_ref_dec page s2)
                                 else page_remove_pte M ptep s2 }
                          else Some s2);
                   Some (0, wr ptep (pte_create (page2ppn page) (PTE_V OR perm)) s3) } }"

definition pgdir_alloc_page :: "pmm_ops \<Rightarrow> nat \<Rightarrow> nat \<Rightarrow> 32 word \<Rightarrow> 'b vm_scheme \<Rightarrow> (nat option \<times> 'b vm_scheme) option" where
  "pgdir_alloc_page M pgdir la perm s =
     do { (r, s1) \<leftarrow> alloc_pages M 1 s;
          case r of
            None \<Rightarrow> Some (None, s1)
          | Some page \<Rightarrow>
              do { (ret, s2) \<leftarrow> page_insert M pgdir page la perm s1;
                   if ret \<noteq> 0 then do { s3 \<leftarrow> free_pages M page 1 s2; Some (None, s3) }
                   else do { let s3 = s2\<lparr>phys := upd_page page
                                       (pra_vaddr_update (\<lambda>_. word_of_nat la)) (phys s2)\<rparr>;
                             kassert (page_ref s3 page = 1);
                             Some (Some page, s3) } } }"

subsection \<open>Ranges\<close>

fun boot_map_loop :: "pmm_ops \<Rightarrow> nat \<Rightarrow> nat \<Rightarrow> nat \<Rightarrow> nat \<Rightarrow> 32 word \<Rightarrow> 'b vm_scheme \<Rightarrow> 'b vm_scheme option" where
  "boot_map_loop M pgdir la 0 pa perm s = Some s"
| "boot_map_loop M pgdir la (Suc n) pa perm s =
     do { (q, s1) \<leftarrow> get_pte M pgdir la True s;
          case q of
            None \<Rightarrow> kpanic
          | Some ptep \<Rightarrow>
              boot_map_loop M pgdir (u64 (la + PGSIZE)) n (u64 (pa + PGSIZE)) perm
                (wr ptep (pte_create (pa div PGSIZE) (PTE_V OR perm)) s1) }"

definition boot_map_segment :: "pmm_ops \<Rightarrow> nat \<Rightarrow> nat \<Rightarrow> nat \<Rightarrow> nat \<Rightarrow> 32 word \<Rightarrow> 'b vm_scheme \<Rightarrow> 'b vm_scheme option" where
  "boot_map_segment M pgdir la sz pa perm s =
     do { kassert (PGOFF la = PGOFF pa);
          boot_map_loop M pgdir (ROUNDDOWN la PGSIZE) (ROUNDUP (u64 (sz + PGOFF la)) PGSIZE div PGSIZE)
            (ROUNDDOWN pa PGSIZE) perm s }"

partial_function (option) unmap_loop :: "pmm_ops \<Rightarrow> nat \<Rightarrow> nat \<Rightarrow> nat \<Rightarrow> 'b vm_scheme \<Rightarrow> 'b vm_scheme option" where
  "unmap_loop M pgdir start fin s =
     do { (q, s1) \<leftarrow> get_pte M pgdir start False s;
          (start', s2) \<leftarrow>
            (case q of
               None \<Rightarrow> Some (ROUNDDOWN (u64 (start + PTSIZE)) PTSIZE, s1)
             | Some ptep \<Rightarrow>
                 do { s2 \<leftarrow> (if rd s1 ptep \<noteq> 0 then page_remove_pte M ptep s1 else Some s1);
                      Some (u64 (start + PGSIZE), s2) });
          if start' \<noteq> 0 \<and> start' < fin then unmap_loop M pgdir start' fin s2 else Some s2 }"

definition unmap_range :: "pmm_ops \<Rightarrow> nat \<Rightarrow> nat \<Rightarrow> nat \<Rightarrow> 'b vm_scheme \<Rightarrow> 'b vm_scheme option" where
  "unmap_range M pgdir start fin s =
     do { kassert (start mod PGSIZE = 0 \<and> fin mod PGSIZE = 0);
          kassert (USER_ACCESS start fin);
          unmap_loop M pgdir start fin s }"

text \<open>The inner loop of \<open>exit_range\<close>, over the level-0 directory \<open>pd0\<close>.\<close>

partial_function (option) exit_pd0_loop ::
  "pmm_ops \<Rightarrow> nat \<Rightarrow> nat \<Rightarrow> nat \<Rightarrow> nat \<Rightarrow> bool \<Rightarrow> 'b vm_scheme \<Rightarrow> (bool \<times> 'b vm_scheme) option" where
  "exit_pd0_loop M pd0 d1start d0start fin free_pd0 s =
     do { let pde0 = rd s (pd0, PDX0 d0start);
          (fr, s1) \<leftarrow>
            (if valid pde0 then
               do { p \<leftarrow> pde2page s pde0;
                    pt \<leftarrow> page2kva s p;
                    if \<not> list_ex (\<lambda>i. valid (rd s (pt, i))) [0..<NPTEENTRY] then
                      do { s1 \<leftarrow> free_pages M p 1 s;
                           Some (free_pd0, wr (pd0, PDX0 d0start) 0 s1) }
                    else Some (free_pd0, s) }
             else Some (False, s));
          let d0 = u64 (d0start + PTSIZE);
          if d0 \<noteq> 0 \<and> d0 < u64 (d1start + PDSIZE) \<and> d0 < fin
          then exit_pd0_loop M pd0 d1start d0 fin fr s1 else Some (fr, s1) }"

partial_function (option) exit_loop :: "pmm_ops \<Rightarrow> nat \<Rightarrow> nat \<Rightarrow> nat \<Rightarrow> nat \<Rightarrow> 'b vm_scheme \<Rightarrow> 'b vm_scheme option" where
  "exit_loop M pgdir d1start d0start fin s =
     do { let pde1 = rd s (pgdir, PDX1 d1start);
          s1 \<leftarrow> (if valid pde1 then
                    do { p1 \<leftarrow> pde2page s pde1;
                         pd0 \<leftarrow> page2kva s p1;
                         (fr, s1) \<leftarrow> exit_pd0_loop M pd0 d1start d0start fin True s;
                         if fr then do { s2 \<leftarrow> free_pages M p1 1 s1;
                                         Some (wr (pgdir, PDX1 d1start) 0 s2) }
                         else Some s1 }
                  else Some s);
          let d1 = u64 (d1start + PDSIZE);
          if d1 \<noteq> 0 \<and> d1 < fin then exit_loop M pgdir d1 d1 fin s1 else Some s1 }"

definition exit_range :: "pmm_ops \<Rightarrow> nat \<Rightarrow> nat \<Rightarrow> nat \<Rightarrow> 'b vm_scheme \<Rightarrow> 'b vm_scheme option" where
  "exit_range M pgdir start fin s =
     do { kassert (start mod PGSIZE = 0 \<and> fin mod PGSIZE = 0);
          kassert (USER_ACCESS start fin);
          exit_loop M pgdir (ROUNDDOWN start PDSIZE) (ROUNDDOWN start PTSIZE) fin s }"

text \<open>One page of \<open>copy_range\<close>: allocate, copy and map. Its assertions panic.\<close>

definition copy_page :: "pmm_ops \<Rightarrow> nat \<Rightarrow> nat \<Rightarrow> pte_ptr \<Rightarrow> 'b vm_scheme \<Rightarrow> (int \<times> 'b vm_scheme) option" where
  "copy_page M to start ptep s =
     do { (q, s1) \<leftarrow> get_pte M to start True s;
          case q of
            None \<Rightarrow> Some (- E_NO_MEM, s1)
          | Some _ \<Rightarrow>
              do { let perm = ucast (rd s1 ptep AND ucast PTE_USER);
                   page \<leftarrow> pte2page s1 (rd s1 ptep);
                   (r, s2) \<leftarrow> alloc_pages M 1 s1;
                   case r of
                     None \<Rightarrow> kpanic
                   | Some np \<Rightarrow>
                       do { src \<leftarrow> page2kva s2 page;
                            dst \<leftarrow> page2kva s2 np;
                            let s3 = s2\<lparr>frames := (frames s2)(dst := frames s2 src)\<rparr>;
                            (ret, s4) \<leftarrow> page_insert M to np start perm s3;
                            kassert (ret = 0);
                            Some (0, s4) } } }"

partial_function (option) copy_loop :: "pmm_ops \<Rightarrow> nat \<Rightarrow> nat \<Rightarrow> nat \<Rightarrow> nat \<Rightarrow> 'b vm_scheme \<Rightarrow> (int \<times> 'b vm_scheme) option" where
  "copy_loop M to from start fin s =
     do { (q, s1) \<leftarrow> get_pte M from start False s;
          (ret, start', s2) \<leftarrow>
            (case q of
               None \<Rightarrow> Some (0, ROUNDDOWN (u64 (start + PTSIZE)) PTSIZE, s1)
             | Some ptep \<Rightarrow>
                 if valid (rd s1 ptep) then
                   do { (ret, s2) \<leftarrow> copy_page M to start ptep s1;
                        Some (ret, u64 (start + PGSIZE), s2) }
                 else Some (0, u64 (start + PGSIZE), s1));
          if ret \<noteq> 0 then Some (ret, s2)
          else if start' \<noteq> 0 \<and> start' < fin then copy_loop M to from start' fin s2
          else Some (0, s2) }"

definition copy_range :: "pmm_ops \<Rightarrow> nat \<Rightarrow> nat \<Rightarrow> nat \<Rightarrow> nat \<Rightarrow> 'b vm_scheme \<Rightarrow> (int \<times> 'b vm_scheme) option" where
  "copy_range M to from start fin s =
     do { kassert (start mod PGSIZE = 0 \<and> fin mod PGSIZE = 0);
          kassert (USER_ACCESS start fin);
          copy_loop M to from start fin s }"

end
