(* ===== verification/PageMap.thy ===== *)
theory PageMap
  imports PageTable
begin

text \<open>
  The trees that page tables form, what they map, and the invariant of a set of
  address spaces: tables are not shared, whatever a directory reaches is in use, and
  every page has at least as many references as mappings. The lemmas are about memory
  alone and follow the three ways in which the operations change it: linking in a
  table, clearing a leaf entry, writing a leaf entry.
\<close>

subsection \<open>Entries\<close>

unbundle bit_operations_syntax

lemma bit_word_of_nat: "bit (word_of_nat n :: 'a::len word) k \<longleftrightarrow> k < LENGTH('a) \<and> bit n k"
  by transfer (auto simp: bit_of_nat_iff)

lemma mask10: "(0x3FF :: 64 word) = mask 10"
  by (simp add: mask_eq_exp_minus_1)

lemma valid_iff: "valid e \<longleftrightarrow> bit e 0"
  by (simp add: valid_def PTE_V_def and_one_eq bit_0 odd_iff_mod_2_eq_one)

lemma valid_create [simp]: "valid (pte_create n t)"
  by (simp add: valid_iff pte_create_def PTE_V_def bit_or_iff)

lemma valid_0 [simp]: "\<not> valid 0"
  by (simp add: valid_iff)

lemma ppn_bit: "bit (drop_bit 12 (PTE_ADDR e)) k \<longleftrightarrow> k < 52 \<and> bit e (k + 10)" for e :: "64 word"
proof -
  have "bit (drop_bit 12 (PTE_ADDR e)) k \<longleftrightarrow> k + 12 < 64 \<and> bit e (k + 10)"
    unfolding PTE_ADDR_def mask10
    by (auto simp: bit_drop_bit_eq bit_push_bit_iff bit_and_iff bit_not_iff bit_mask_iff ac_simps dest: bit_imp_le_length)
  then show ?thesis by auto
qed

lemma scast_small: 
  assumes "take_bit 10 t = (t :: 32 word)" shows "bit (scast t :: 64 word) k \<longleftrightarrow> k < 10 \<and> bit t k"
proof -
  have "\<not> bit t j" if "10 \<le> j" for j
    using assms that by (metis bit_take_bit_iff linorder_not_less)
  then show ?thesis
    by (cases "k < 10") (auto simp: bit_signed_iff min_def bit_simps not_less dest: bit_imp_le_length)
qed

lemma bit_nat_less: "n < 2 ^ m \<Longrightarrow> bit n k \<Longrightarrow> k < m" for n :: nat
  by (metis bit_take_bit_iff take_bit_nat_eq_self)

lemma PPN_create:
  assumes "n < 2 ^ 52" "take_bit 10 t = (t :: 32 word)"
  shows "PPN (PTE_ADDR (pte_create n t)) = n"
proof -
  have "drop_bit 12 (PTE_ADDR (pte_create n t)) = (word_of_nat n :: 64 word)"
  proof (rule bit_word_eqI)
    fix k assume "k < LENGTH(64)"
    then show "bit (drop_bit 12 (PTE_ADDR (pte_create n t))) k = bit (word_of_nat n :: 64 word) k"
      using scast_small[OF assms(2), of "k+10"] bit_nat_less[OF assms(1), of k]
      by (auto simp: ppn_bit pte_create_def PTE_V_def bit_or_iff bit_push_bit_iff bit_1_iff
          bit_word_of_nat)
  qed
  moreover have "unat (word_of_nat n :: 64 word) = n"
    using assms(1) by (simp add: unsigned_of_nat take_bit_nat_eq_self)
  ultimately show ?thesis by (simp add: PPN_def)
qed

lemma PPN_shift: "n < 2 ^ 52 \<Longrightarrow> PPN (push_bit 12 (word_of_nat n)) = n"
proof -
  assume a: "n < 2 ^ 52"
  have "drop_bit 12 (push_bit 12 (word_of_nat n)) = (word_of_nat n :: 64 word)"
  proof (rule bit_word_eqI)
    fix k assume "k < LENGTH(64)"
    then show "bit (drop_bit 12 (push_bit 12 (word_of_nat n)) :: 64 word) k = bit (word_of_nat n :: 64 word) k"
      using bit_nat_less[OF a, of k]
      by (auto simp: bit_drop_bit_eq bit_push_bit_iff bit_word_of_nat)
  qed
  moreover have "unat (word_of_nat n :: 64 word) = n" using a by (simp add: unsigned_of_nat take_bit_nat_eq_self)
  ultimately show ?thesis by (simp add: PPN_def)
qed

lemma PPN_page2pa: "page2ppn p < 2 ^ 52 \<Longrightarrow> PPN (page2pa p) = page2ppn p"
  unfolding page2pa_def by (rule PPN_shift)


subsection \<open>Trees of tables\<close>

definition pte_ppn :: "64 word \<Rightarrow> nat" where
  "pte_ppn e = PPN (PTE_ADDR e)"

definition child :: "'b vm_scheme \<Rightarrow> nat \<Rightarrow> nat \<Rightarrow> nat option" where
  "child s f i = (if valid (frames s f i) then Some (pte_ppn (frames s f i)) else None)"

fun walk :: "'b vm_scheme \<Rightarrow> nat \<Rightarrow> nat list \<Rightarrow> nat option" where
  "walk s f [] = Some f"
| "walk s f (i # is) = child s f i \<bind> (\<lambda>g. walk s g is)"

lemma walk_append: "walk s f (is @ js) = walk s f is \<bind> (\<lambda>g. walk s g js)"
  by (induction "is" arbitrary: f) (auto split: bind_splits)

lemma walk_snoc: "walk s f (is @ [i]) = walk s f is \<bind> (\<lambda>g. child s g i)"
  by (simp add: walk_append)

lemma walk_cong:
  assumes "\<And>ks i ls g. js = ks @ i # ls \<Longrightarrow> walk s f ks = Some g \<Longrightarrow> frames s' g i = frames s g i"
  shows "walk s' f js = walk s f js"
  using assms
proof (induction js rule: rev_induct)
  case (snoc i js)
  have "walk s' f js = walk s f js" by (rule snoc.IH) (use snoc.prems in force)
  moreover have "child s' g i = child s g i" if "walk s f js = Some g" for g
    using snoc.prems[of js i "[]" g] that by (simp add: child_def)
  ultimately show ?case by (auto simp: walk_snoc split: bind_splits)
qed simp

text \<open>
  The user part of an address space: level-1 entries below 2, that is addresses
  below \<^verbatim>\<open>USERTOP\<close>. The entries above are the kernel's and shared by all
  directories.
\<close>

definition upath :: "nat list \<Rightarrow> bool" where
  "upath is \<longleftrightarrow> length is \<le> 3 \<and> (\<forall>i\<in>set is. i < 512) \<and> (is \<noteq> [] \<longrightarrow> hd is < 2)"

lemma upath_Nil [simp]: "upath []"
  by (simp add: upath_def)

lemma upath_prefix: "upath (is @ js) \<Longrightarrow> upath is"
  by (cases "is") (auto simp: upath_def)

definition upages :: "nat list set" where
  "upages = {is. upath is \<and> length is = 3}"

lemma finite_upages: "finite upages"
proof -
  have "upages \<subseteq> {is. set is \<subseteq> {..<512} \<and> length is = 3}" by (auto simp: upages_def upath_def)
  then show ?thesis by (rule finite_subset) (simp add: finite_lists_length_eq)
qed

text \<open>The mapping of an address space: the valid leaf entries.\<close>

definition leaf :: "'b vm_scheme \<Rightarrow> nat \<Rightarrow> nat list \<Rightarrow> 64 word option" where
  "leaf s r is = walk s r (butlast is) \<bind>
     (\<lambda>g. if valid (frames s g (last is)) then Some (frames s g (last is)) else None)"

lemma walk_leaf: "is \<noteq> [] \<Longrightarrow> walk s r is = map_option pte_ppn (leaf s r is)"
  by (cases "is" rule: rev_cases) (auto simp: leaf_def walk_snoc child_def split: bind_splits)

lemma leaf_cong:
  assumes "is \<noteq> []"
    "\<And>ks i ls g. is = ks @ i # ls \<Longrightarrow> walk s f ks = Some g \<Longrightarrow> frames s' g i = frames s g i"
  shows "leaf s' f is = leaf s f is"
proof (cases "is" rule: rev_cases)
  case (snoc ks i)
  have "walk s' f ks = walk s f ks" by (rule walk_cong) (use assms(2) snoc in force)
  then show ?thesis using assms(2)[of ks i "[]"] snoc by (auto simp: leaf_def split: bind_splits)
qed (use assms in simp)

definition idx :: "nat \<Rightarrow> nat list" where
  "idx la = [PDX1 la, PDX0 la, PTX la]"

lemma idx_upages: "la < USERTOP \<Longrightarrow> idx la \<in> upages"
  by (auto simp: idx_def upages_def upath_def PDX1_def PDX0_def PTX_def USERTOP_def)


subsection \<open>The invariant of a set of address spaces\<close>

definition maps_of :: "'b vm_scheme \<Rightarrow> nat set \<Rightarrow> nat \<Rightarrow> (nat \<times> nat list) set" where
  "maps_of s R p = {(r, is). r \<in> R \<and> is \<in> upages \<and> walk s r is = Some (page2ppn p)}"

definition page_used :: "nat set \<Rightarrow> 'b vm_scheme \<Rightarrow> nat \<Rightarrow> bool" where
  "page_used F s f \<longleftrightarrow> (\<exists>p. f = page2ppn p \<and> f < npage s \<and> p \<notin> F)"

definition as_ok :: "nat set \<Rightarrow> nat set \<Rightarrow> 'b vm_scheme \<Rightarrow> bool" where
  "as_ok F R s \<longleftrightarrow> finite R \<and> npage s \<le> 2 ^ 52 \<and>
     (\<forall>p\<in>F. page2ppn p < npage s \<and> page_ref s p = 0) \<and>
     (\<forall>r\<in>R. \<forall>is f. upath is \<longrightarrow> walk s r is = Some f \<longrightarrow> page_used F s f) \<and>
     (\<forall>r\<in>R. \<forall>r'\<in>R. \<forall>is js f. upath is \<longrightarrow> length is < 3 \<longrightarrow> upath js \<longrightarrow>
        walk s r is = Some f \<longrightarrow> walk s r' js = Some f \<longrightarrow> r = r' \<and> is = js) \<and>
     (\<forall>p. int (card (maps_of s R p)) \<le> page_ref s p)"

lemma as_okD:
  assumes "as_ok F R s"
  shows "finite R" "npage s \<le> 2 ^ 52" "p \<in> F \<Longrightarrow> page2ppn p < npage s \<and> page_ref s p = 0"
    "r \<in> R \<Longrightarrow> upath is \<Longrightarrow> walk s r is = Some f \<Longrightarrow> page_used F s f"
    "r \<in> R \<Longrightarrow> r' \<in> R \<Longrightarrow> upath is \<Longrightarrow> length is < 3 \<Longrightarrow> upath js \<Longrightarrow>
       walk s r is = Some f \<Longrightarrow> walk s r' js = Some f \<Longrightarrow> r = r' \<and> is = js"
    "int (card (maps_of s R p)) \<le> page_ref s p"
  using assms unfolding as_ok_def by blast+

lemma as_okI:
  assumes "finite R" "npage s \<le> 2 ^ 52" "\<And>p. p \<in> F \<Longrightarrow> page2ppn p < npage s \<and> page_ref s p = 0"
    "\<And>r is f. r \<in> R \<Longrightarrow> upath is \<Longrightarrow> walk s r is = Some f \<Longrightarrow> page_used F s f"
    "\<And>r r' is js f. r \<in> R \<Longrightarrow> r' \<in> R \<Longrightarrow> upath is \<Longrightarrow> length is < 3 \<Longrightarrow> upath js \<Longrightarrow>
       walk s r is = Some f \<Longrightarrow> walk s r' js = Some f \<Longrightarrow> r = r' \<and> is = js"
    "\<And>p. int (card (maps_of s R p)) \<le> page_ref s p"
  shows "as_ok F R s"
  using assms unfolding as_ok_def by blast

lemma page2ppn_inj [simp]: "page2ppn p = page2ppn q \<longleftrightarrow> p = q"
  by (simp add: page2ppn_def)

lemma page_used_page [simp]: "page_used F s (page2ppn p) \<longleftrightarrow> page2ppn p < npage s \<and> p \<notin> F"
  by (auto simp: page_used_def)

lemma free_not_reached:
  "as_ok F R s \<Longrightarrow> r \<in> R \<Longrightarrow> upath is \<Longrightarrow> p \<in> F \<Longrightarrow> walk s r is \<noteq> Some (page2ppn p)"
  using as_okD(4)[of F R s r "is"] by fastforce

lemma finite_maps: "finite R \<Longrightarrow> finite (maps_of s R p)"
  by (rule finite_subset[of _ "R \<times> upages"]) (auto simp: maps_of_def finite_upages)

lemma walk_frames: "frames s' = frames s \<Longrightarrow> walk s' r is = walk s r is" for s :: "'b vm_scheme" and s' :: "'c vm_scheme"
  by (induction "is" arbitrary: r) (auto simp: child_def split: bind_splits)

lemma leaf_frames: "frames s' = frames s \<Longrightarrow> leaf s' r is = leaf s r is" for s :: "'b vm_scheme" and s' :: "'c vm_scheme"
  by (simp add: leaf_def walk_frames[of s' s] cong: if_cong)

text \<open>A change confined to one slot of a table and to frames no walk reaches.\<close>

lemma slot_change:
  assumes ok: "as_ok F R s" and r: "r \<in> R" "r' \<in> R"
    and f: "walk s r is = Some f" "upath is" "length is < 3"
    and same: "\<forall>h k. (h, k) \<noteq> (f, i) \<longrightarrow> h \<notin> G \<longrightarrow> frames s' h k = frames s h k"
    and G: "\<forall>q\<in>R. \<forall>ks h. upath ks \<longrightarrow> walk s q ks = Some h \<longrightarrow> h \<notin> G"
    and js: "upath js" "r' = r \<Longrightarrow> \<nexists>ls. js = is @ i # ls"
  shows "walk s' r' js = walk s r' js" "js \<noteq> [] \<Longrightarrow> leaf s' r' js = leaf s r' js"
proof -
  have keep: "frames s' h k = frames s h k" if "js = ks @ k # ls" "walk s r' ks = Some h" for ks k ls h
  proof (rule same[rule_format])
    have ks: "upath ks" using js(1) that(1) upath_prefix by blast
    have "is = ks \<and> r = r'" if "h = f"
      using as_okD(5)[OF ok r(1,2) f(2,3) ks f(1)] that \<open>walk s r' ks = Some h\<close> by blast
    then show "(h, k) \<noteq> (f, i)" using js(2) that(1) by auto
    show "h \<notin> G" using G r(2) ks that(2) by blast
  qed
  show "walk s' r' js = walk s r' js" by (rule walk_cong) (use keep in blast)
  show "leaf s' r' js = leaf s r' js" if "js \<noteq> []" by (rule leaf_cong[OF that]) (use keep in blast)
qed


text \<open>Linking a zeroed free page in as a table.\<close>

lemma add_table_walk:
  assumes ok: "as_ok F R s" and r: "r \<in> R" "r' \<in> R"
    and f: "walk s r is = Some f" "upath (is @ [i])" "length is < 2" "\<not> valid (frames s f i)"
    and p: "p \<in> F" and w: "valid w" "pte_ppn w = page2ppn p"
    and fr: "frames s' = (frames s)(page2ppn p := (\<lambda>_. 0), f := (frames s f)(i := w))"
    and js: "upath js"
  shows "walk s' r' js = (if r' = r \<and> js = is @ [i] then Some (page2ppn p) else walk s r' js)"
    "js \<noteq> [] \<Longrightarrow> length js = 3 \<Longrightarrow> leaf s' r' js = leaf s r' js"
proof -
  have u: "upath is" "length is < 3" using f upath_prefix by auto
  have "f \<noteq> page2ppn p" using free_not_reached[OF ok r(1) u(1) p] f(1) by auto
  have G: "\<forall>q\<in>R. \<forall>ks h. upath ks \<longrightarrow> walk s q ks = Some h \<longrightarrow> h \<notin> {page2ppn p}"
    using free_not_reached[OF ok _ _ p] by blast
  have same: "\<forall>h k. (h, k) \<noteq> (f, i) \<longrightarrow> h \<notin> {page2ppn p} \<longrightarrow> frames s' h k = frames s h k"
    using fr by auto
  note ch = slot_change[OF ok r f(1) u same G js] 
  have fi: "walk s' r is = Some f"
    using slot_change(1)[OF ok r(1) r(1) f(1) u same G u(1)] f(1) by auto
  have c: "child s' f i = Some (page2ppn p)" using w fr by (simp add: child_def)
  have z: "child s' (page2ppn p) k = None" for k using fr \<open>f \<noteq> page2ppn p\<close> by (simp add: child_def)
  have ext: "walk s' r (is @ i # ls) = (if ls = [] then Some (page2ppn p) else None)" for ls
    using fi c z by (cases ls) (simp_all add: walk_append)
  have ext0: "walk s r (is @ i # ls) = None" for ls using f by (simp add: walk_append child_def)
  show "walk s' r' js = (if r' = r \<and> js = is @ [i] then Some (page2ppn p) else walk s r' js)"
  proof (cases "r' = r \<and> (\<exists>ls. js = is @ i # ls)")
    case True
    then show ?thesis using ext ext0 by (auto split: if_splits)
  next
    case False
    then show ?thesis using ch(1) by auto
  qed
  show "leaf s' r' js = leaf s r' js" if "js \<noteq> []" "length js = 3"
  proof (cases "r' = r \<and> (\<exists>ls. js = is @ i # ls)")
    case True
    then obtain ls where ls: "js = is @ i # ls" "r' = r" by blast
    then have "ls \<noteq> []" using f(3) that by auto
    then have "walk s' r' js = None" "walk s r' js = None" using ext ext0 ls by auto
    then show ?thesis using that(1) by (simp add: walk_leaf)
  next
    case False
    then show ?thesis using ch(2) that by auto
  qed
qed

lemma maps_of_walk:
  assumes "\<And>r is. r \<in> R \<Longrightarrow> is \<in> upages \<Longrightarrow> walk s' r is = walk s r is"
  shows "maps_of s' R p = maps_of s R p"
  using assms by (auto simp: maps_of_def)

lemma add_table_ok:
  assumes ok: "as_ok F R s" and r: "r \<in> R"
    and f: "walk s r is = Some f" "upath (is @ [i])" "length is < 2" "\<not> valid (frames s f i)"
    and p: "p \<in> F" and w: "valid w" "pte_ppn w = page2ppn p"
    and fr: "frames s' = (frames s)(page2ppn p := (\<lambda>_. 0), f := (frames s f)(i := w))"
    and np: "npage s' = npage s" and rf: "page_ref s' = (page_ref s)(p := 1)"
  shows "as_ok (F - {p}) R s'"
proof -
  note wk = add_table_walk(1)[OF ok r _ f p w fr]
  have new: "walk s q js \<noteq> Some (page2ppn p)" if "q \<in> R" "upath js" for q js
    using free_not_reached[OF ok that p] .
  have use: "page_used (F - {p}) s' h" if "q \<in> R" "upath js" "walk s' q js = Some h" for q js h
    using that wk[OF that(1,2)] as_okD(3)[OF ok p] as_okD(4)[OF ok that(1,2), of h] np
    by (auto simp: page_used_def split: if_splits)
  have uniq: "q = q' \<and> ks = js" if "q \<in> R" "q' \<in> R" "upath ks" "length ks < 3" "upath js"
    "walk s' q ks = Some h" "walk s' q' js = Some h" for q q' ks js h
    using that wk[OF that(1,3)] wk[OF that(2,5)] new[OF that(1,3)] new[OF that(2,5)]
      as_okD(5)[OF ok that(1-5), of h]
    by (auto split: if_splits)
  have "maps_of s' R q = maps_of s R q" for q
    using f(3) by (intro maps_of_walk) (auto simp: wk upages_def)
  moreover have "int (card (maps_of s R q)) \<le> page_ref s' q" for q
    using as_okD(6)[OF ok, of q] as_okD(3)[OF ok p] rf by (cases "q = p") auto
  ultimately have refs: "int (card (maps_of s' R q)) \<le> page_ref s' q" for q by simp
  show ?thesis
    using as_okD(1-3)[OF ok] use uniq refs np rf by (intro as_okI) auto
qed


text \<open>Overwriting a leaf entry.\<close>

lemma write_leaf:
  assumes ok: "as_ok F R s" and r: "r \<in> R" "r' \<in> R"
    and f: "walk s r is = Some f" "is @ [i] \<in> upages" and js: "upath js"
    and fr: "frames s' = (frames s)(f := (frames s f)(i := w))"
  shows "length js < 3 \<Longrightarrow> walk s' r' js = walk s r' js"
    "length js = 3 \<Longrightarrow> leaf s' r' js =
       (if r' = r \<and> js = is @ [i] then (if valid w then Some w else None) else leaf s r' js)"
proof -
  have u: "upath is" "length is < 3" using f(2) upath_prefix by (auto simp: upages_def)
  have same: "\<forall>h k. (h, k) \<noteq> (f, i) \<longrightarrow> h \<notin> {} \<longrightarrow> frames s' h k = frames s h k" using fr by auto
  have len: "length is = 2" using f(2) by (simp add: upages_def)
  note ch = slot_change[OF ok r f(1) u same _ js]
  have fi: "walk s' r is = Some f"
    using slot_change(1)[OF ok r(1) r(1) f(1) u same _ u(1)] f(1) by auto
  show "walk s' r' js = walk s r' js" if "length js < 3"
    by (rule ch(1)) (use that len in auto)
  show "leaf s' r' js =
       (if r' = r \<and> js = is @ [i] then (if valid w then Some w else None) else leaf s r' js)"
    if l: "length js = 3"
  proof (cases "r' = r \<and> js = is @ [i]")
    case True
    then show ?thesis using fi fr by (auto simp: leaf_def)
  next
    case False
    moreover have "leaf s' r' js = leaf s r' js"
      by (rule ch(2)) (use l len False in auto)
    ultimately show ?thesis by auto
  qed
qed

lemma leaf_walk3: "length is = 3 \<Longrightarrow> walk s r is = map_option pte_ppn (leaf s r is)"
  by (rule walk_leaf) auto

lemma maps_of_leaf: "maps_of s R p = {(r, is). r \<in> R \<and> is \<in> upages \<and> map_option pte_ppn (leaf s r is) = Some (page2ppn p)}"
  by (auto simp: maps_of_def upages_def leaf_walk3)

text \<open>Clearing a leaf that maps the page \<open>p\<close>: the page may become free.\<close>

lemma clear_leaf_ok:
  assumes ok: "as_ok F R s" and r: "r \<in> R"
    and f: "walk s r is = Some f" "is @ [i] \<in> upages" "valid (frames s f i)" "pte_ppn (frames s f i) = page2ppn p"
    and fr: "frames s' = (frames s)(f := (frames s f)(i := 0))"
    and np: "npage s' = npage s" and rf: "page_ref s' = (page_ref s)(p := page_ref s p - 1)"
    and F': "F' = F \<or> F' = insert p F \<and> page_ref s p = 1"
  shows "as_ok F' R s'"
proof -
  note wl = write_leaf[OF ok r _ f(1,2) _ fr]
  have lf: "leaf s r (is @ [i]) = Some (frames s f i)" using f(1,3) by (simp add: leaf_def)
  have p: "page2ppn p < npage s" "p \<notin> F"
    using as_okD(4)[OF ok r, of "is @ [i]" "page2ppn p"] f lf by (auto simp: walk_leaf upages_def)
  have sub: "walk s' q js = Some h \<Longrightarrow> walk s q js = Some h \<and> (q, js) \<noteq> (r, is @ [i])" if "q \<in> R" "upath js" for q js h
    using wl[OF that] that(2) f(2) by (cases "length js = 3") (auto simp: leaf_walk3 upath_def upages_def split: if_splits)
  have m: "maps_of s' R q = maps_of s R q - {(r, is @ [i])}" for q
    using wl(2) by (auto simp: maps_of_leaf upages_def split: if_splits)
  have mem: "(r, is @ [i]) \<in> maps_of s R p" using r f lf by (simp add: maps_of_leaf)
  have out: "(r, is @ [i]) \<notin> maps_of s R q" if "q \<noteq> p" for q using that f lf by (auto simp: maps_of_leaf)
  have fin: "finite (maps_of s R p)" using finite_maps as_okD(1)[OF ok] by blast
  have cp: "int (card (maps_of s' R p)) \<le> page_ref s p - 1"
    using as_okD(6)[OF ok, of p] card_Suc_Diff1[OF fin mem] unfolding m by linarith
  have refs: "int (card (maps_of s' R q)) \<le> page_ref s' q" for q
    using as_okD(6)[OF ok, of q] cp out m rf by (cases "q = p") auto
  have gone: "h \<noteq> page2ppn p" if "F' \<noteq> F" "q \<in> R" "upath js" "walk s' q js = Some h" for q js h
  proof (cases "length js = 3")
    case True
    have "maps_of s' R p = {}" using cp F' that(1) fin m by (auto simp: card_eq_0_iff)
    then show ?thesis using that True by (auto simp: maps_of_def upages_def)
  next
    case False
    then have "walk s q js = Some h" "length js < 3" using sub[OF that(2,3,4)] that(3) by (auto simp: upath_def)
    then show ?thesis using as_okD(5)[OF ok that(2) r that(3), of "is @ [i]" h] f lf
      by (auto simp: walk_leaf upages_def)
  qed
  have use: "page_used F' s' h" if "q \<in> R" "upath js" "walk s' q js = Some h" for q js h
    using as_okD(4)[OF ok that(1,2), of h] sub[OF that] gone[OF _ that] F' np
    by (auto simp: page_used_def)
  have uniq: "q = q' \<and> ks = js" if "q \<in> R" "q' \<in> R" "upath ks" "length ks < 3" "upath js"
    "walk s' q ks = Some h" "walk s' q' js = Some h" for q q' ks js h
    using as_okD(5)[OF ok that(1-5), of h] sub[OF that(1,3,6)] sub[OF that(2,5,7)] by blast
  have "page2ppn q < npage s' \<and> page_ref s' q = 0" if "q \<in> F'" for q
    using that F' as_okD(3)[OF ok, of q] p rf np by auto
  then show ?thesis using as_okD(1,2)[OF ok] use uniq refs np by (intro as_okI) auto
qed

text \<open>Writing a leaf entry for a page in use, with a reference in hand.\<close>

lemma set_leaf_ok:
  assumes ok: "as_ok F R s" and r: "r \<in> R"
    and f: "walk s r is = Some f" "is @ [i] \<in> upages"
    and w: "valid w" "pte_ppn w = page2ppn p"
    and fr: "frames s' = (frames s)(f := (frames s f)(i := w))"
    and np: "npage s' = npage s" and rf: "page_ref s' = page_ref s"
    and p: "page2ppn p < npage s" "p \<notin> F" "\<forall>q\<in>R. \<forall>js. upath js \<longrightarrow> length js < 3 \<longrightarrow> walk s q js \<noteq> Some (page2ppn p)"
    and c: "int (card (insert (r, is @ [i]) (maps_of s R p))) \<le> page_ref s p"
  shows "as_ok F R s'"
proof -
  note wl = write_leaf[OF ok r _ f(1,2) _ fr]
  have wk: "walk s' q js = (if q = r \<and> js = is @ [i] then Some (page2ppn p) else walk s q js)"
    if "q \<in> R" "upath js" for q js
    using wl[OF that] that(2) f(2) w by (cases "length js = 3") (auto simp: leaf_walk3 upath_def upages_def)
  have m: "maps_of s' R q = (if q = p then insert (r, is @ [i]) (maps_of s R q) else maps_of s R q - {(r, is @ [i])})" for q
    using wk r f(2) by (auto simp: maps_of_def upages_def split: if_splits)
  have fin: "finite (maps_of s R q)" for q using finite_maps as_okD(1)[OF ok] by blast
  have refs: "int (card (maps_of s' R q)) \<le> page_ref s' q" for q
  proof (cases "q = p")
    case False
    have "card (maps_of s R q - {(r, is @ [i])}) \<le> card (maps_of s R q)" using fin by (simp add: card_mono)
    then show ?thesis using as_okD(6)[OF ok, of q] False m rf by simp
  qed (use c m rf in simp)
  have use: "page_used F s' h" if "q \<in> R" "upath js" "walk s' q js = Some h" for q js h
    using as_okD(4)[OF ok that(1,2), of h] wk[OF that(1,2)] that(3) p np
    by (auto simp: page_used_def split: if_splits)
  have uniq: "q = q' \<and> ks = js" if "q \<in> R" "q' \<in> R" "upath ks" "length ks < 3" "upath js"
    "walk s' q ks = Some h" "walk s' q' js = Some h" for q q' ks js h
    using as_okD(5)[OF ok that(1-5), of h] wk[OF that(1,3)] wk[OF that(2,5)] that p(3) f(2)
    by (auto simp: upages_def split: if_splits)
  show ?thesis using as_okD(1-3)[OF ok] use uniq refs np rf by (intro as_okI) auto
qed

end
