(* ===== verification/PageOps.thy ===== *)
theory PageOps
  imports PageMap
begin

text \<open>
  The operations on page tables, proved once over any physical memory manager that
  satisfies the interface \<open>page_refs\<close>: the contract of \<open>pmm_manager\<close> together with
  its effect on the reference counts. Each operation is shown to return, to keep the
  invariant of the set of address spaces, and to change the mapping as intended.
\<close>

unbundle bit_operations_syntax

text \<open>
  What one step of \<open>get_pte\<close> may change: tables made of pages of \<open>F\<close> are added,
  while the mappings, the reference counts of the other pages and the contents
  of the frames that are not tables stay.
\<close>

definition extends :: "nat set \<Rightarrow> nat set \<Rightarrow> 'b vm_scheme \<Rightarrow> 'b vm_scheme \<Rightarrow> bool" where
  "extends F R s s' \<longleftrightarrow> npage s' = npage s \<and> vm.more s' = vm.more s \<and>
     (\<forall>q\<in>R. \<forall>js\<in>upages. leaf s' q js = leaf s q js) \<and>
     (\<forall>q\<in>R. \<forall>js h. upath js \<longrightarrow> walk s q js = Some h \<longrightarrow> walk s' q js = Some h) \<and>
     (\<forall>q\<in>R. \<forall>js h. upath js \<longrightarrow> walk s' q js = Some h \<longrightarrow> walk s q js = Some h \<or> h \<in> page2ppn ` F) \<and>
     (\<forall>p. p \<notin> F \<longrightarrow> page_ref s' p = page_ref s p) \<and>
     (\<forall>h. h \<notin> page2ppn ` F \<longrightarrow> (\<forall>q\<in>R. \<forall>js. upath js \<longrightarrow> length js < 3 \<longrightarrow> walk s q js \<noteq> Some h) \<longrightarrow>
        frames s' h = frames s h)"

lemma extendsI:
  assumes "npage s' = npage s" "vm.more s' = vm.more s"
    "\<And>q js. q \<in> R \<Longrightarrow> js \<in> upages \<Longrightarrow> leaf s' q js = leaf s q js"
    "\<And>q js h. q \<in> R \<Longrightarrow> upath js \<Longrightarrow> walk s q js = Some h \<Longrightarrow> walk s' q js = Some h"
    "\<And>q js h. q \<in> R \<Longrightarrow> upath js \<Longrightarrow> walk s' q js = Some h \<Longrightarrow> walk s q js = Some h \<or> h \<in> page2ppn ` F"
    "\<And>p. p \<notin> F \<Longrightarrow> page_ref s' p = page_ref s p"
    "\<And>h. h \<notin> page2ppn ` F \<Longrightarrow> \<forall>q\<in>R. \<forall>js. upath js \<longrightarrow> length js < 3 \<longrightarrow> walk s q js \<noteq> Some h \<Longrightarrow>
        frames s' h = frames s h"
  shows "extends F R s s'"
  using assms unfolding extends_def by blast

lemma extendsD:
  assumes "extends F R s s'"
  shows "npage s' = npage s" "vm.more s' = vm.more s"
    "q \<in> R \<Longrightarrow> js \<in> upages \<Longrightarrow> leaf s' q js = leaf s q js"
    "q \<in> R \<Longrightarrow> upath js \<Longrightarrow> walk s q js = Some h \<Longrightarrow> walk s' q js = Some h"
    "q \<in> R \<Longrightarrow> upath js \<Longrightarrow> walk s' q js = Some h \<Longrightarrow> walk s q js = Some h \<or> h \<in> page2ppn ` F"
    "p \<notin> F \<Longrightarrow> page_ref s' p = page_ref s p"
    "h \<notin> page2ppn ` F \<Longrightarrow> \<forall>q\<in>R. \<forall>js. upath js \<longrightarrow> length js < 3 \<longrightarrow> walk s q js \<noteq> Some h \<Longrightarrow>
        frames s' h = frames s h"
  using assms unfolding extends_def by blast+

lemma extends_refl [simp]: "extends F R s s"
  by (simp add: extends_def)

lemma extends_trans:
  assumes a: "extends F R s s1" and b: "extends F1 R s1 s2" and F: "F1 \<subseteq> F"
  shows "extends F R s s2"
proof (rule extendsI)
  fix q js h assume q: "q \<in> R" "upath js" "walk s2 q js = Some h"
  then show "walk s q js = Some h \<or> h \<in> page2ppn ` F"
    using extendsD(5)[OF b q] extendsD(5)[OF a q(1,2)] F by blast
next
  fix h assume h: "h \<notin> page2ppn ` F" "\<forall>q\<in>R. \<forall>js. upath js \<longrightarrow> length js < 3 \<longrightarrow> walk s q js \<noteq> Some h"
  then have "\<forall>q\<in>R. \<forall>js. upath js \<longrightarrow> length js < 3 \<longrightarrow> walk s1 q js \<noteq> Some h"
    using extendsD(5)[OF a] by blast
  moreover have "h \<notin> page2ppn ` F1" using h(1) F by blast
  ultimately show "frames s2 h = frames s h" using extendsD(7)[OF b] extendsD(7)[OF a h] by simp
next
  fix p assume "p \<notin> F"
  then show "page_ref s2 p = page_ref s p" using extendsD(6)[OF a, of p] extendsD(6)[OF b, of p] F by auto
qed (use extendsD(1-4)[OF a] extendsD(1-4)[OF b] in auto)

lemma same_fields [simp]:
  "frames (set_page_ref p v s) = frames s" "npage (set_page_ref p v s) = npage s"
  "vm.more (set_page_ref p v s) = vm.more s"
  "page_ref (set_page_ref p v s) = (page_ref s)(p := v)"
  "npage (clear_frame f s) = npage s" "vm.more (clear_frame f s) = vm.more s"
  "phys (clear_frame f s) = phys s" "page_ref (clear_frame f s) = page_ref s"
  "npage (wr q w s) = npage s" "vm.more (wr q w s) = vm.more s"
  "phys (wr q w s) = phys s" "page_ref (wr q w s) = page_ref s"
  "frames (page_ref_dec p s) = frames s" "npage (page_ref_dec p s) = npage s"
  "vm.more (page_ref_dec p s) = vm.more s"
  "page_ref (page_ref_dec p s) = (page_ref s)(p := page_ref s p - 1)"
  "frames (page_ref_inc p s) = frames s" "npage (page_ref_inc p s) = npage s"
  "vm.more (page_ref_inc p s) = vm.more s"
  "page_ref (page_ref_inc p s) = (page_ref s)(p := page_ref s p + 1)"
  by (auto simp: set_page_ref_def page_ref_def clear_frame_def wr_def page_ref_dec_def page_ref_inc_def
      upd_page_def)

lemma phys_fields:
  "phys (set_page_ref p v s) = upd_page p (ref_update (\<lambda>_. v)) (phys s)"
  "phys (page_ref_dec p s) = upd_page p (ref_update (\<lambda>r. r - 1)) (phys s)"
  "phys (page_ref_inc p s) = upd_page p (ref_update (\<lambda>r. r + 1)) (phys s)"
  by (simp_all add: set_page_ref_def page_ref_dec_def page_ref_inc_def)

lemma shrink_free_ok:
  assumes ok: "as_ok F R s" and s': "frames s' = frames s" "npage s' = npage s" "page_ref s' = page_ref s"
    and F: "F' \<subseteq> F"
  shows "as_ok F' R s'"
proof -
  have w: "walk s' q js = walk s q js" for q js using walk_frames s'(1) by blast
  have m: "maps_of s' R q = maps_of s R q" for q by (simp add: maps_of_def w)
  have use: "page_used F' s' f" if "r \<in> R" "upath is" "walk s' r is = Some f" for r "is" f
    using as_okD(4)[OF ok that(1,2)] that(3) s'(2) F w by (auto simp: page_used_def)
  have fr: "page2ppn q < npage s' \<and> page_ref s' q = 0" if "q \<in> F'" for q
    using as_okD(3)[OF ok, of q] that F s' by auto
  show ?thesis
    by (rule as_okI[OF as_okD(1)[OF ok] _ fr use])
      (use as_okD(2,5,6)[OF ok] s' w m in auto)
qed


lemma table_kaddr:
  assumes ok: "as_ok F R s" and r: "r \<in> R" and f: "walk s r is = Some f" "upath (is @ [i])" "valid (frames s f i)"
  shows "\<exists>g. KADDR s (PTE_ADDR (frames s f i)) = Some g \<and> walk s r (is @ [i]) = Some g"
proof -
  have w: "walk s r (is @ [i]) = Some (pte_ppn (frames s f i))" using f by (simp add: walk_snoc child_def)
  then have "pte_ppn (frames s f i) < npage s" using as_okD(4)[OF ok r f(2)] by (auto simp: page_used_def)
  then show ?thesis using w by (simp add: KADDR_def pte_ppn_def)
qed

lemma upath_idx:
  assumes "la < USERTOP"
  shows "upath [PDX1 la]" "upath [PDX1 la, PDX0 la]" "[PDX1 la, PDX0 la] @ [PTX la] \<in> upages"
  using idx_upages[OF assms] by (auto simp: idx_def upages_def upath_def)

lemma pte2page_leaf:
  assumes ok: "as_ok F R s" and r: "r \<in> R" and f: "walk s r is = Some f" "is @ [i] \<in> upages" "valid (frames s f i)"
  shows "\<exists>p. pte2page s (frames s f i) = Some p \<and> pte_ppn (frames s f i) = page2ppn p \<and>
    walk s r (is @ [i]) = Some (page2ppn p) \<and> page2ppn p < npage s \<and> p \<notin> F"
proof -
  have w: "walk s r (is @ [i]) = Some (pte_ppn (frames s f i))" using f by (simp add: walk_snoc child_def)
  then obtain p where p: "pte_ppn (frames s f i) = page2ppn p" "page2ppn p < npage s" "p \<notin> F"
    using as_okD(4)[OF ok r _ w] f(2) by (auto simp: page_used_def upages_def)
  then show ?thesis using w f(3) by (auto simp: pte2page_def pa2page_def pte_ppn_def page2ppn_def)
qed

lemma ref_inc_ok:
  assumes ok: "as_ok F R s" and p: "p \<notin> F"
  shows "as_ok F R (page_ref_inc p s)"
proof -
  have w: "walk (page_ref_inc p s) q js = walk s q js" for q js by (rule walk_frames) simp
  have m: "maps_of (page_ref_inc p s) R q = maps_of s R q" for q by (simp add: maps_of_def w)
  have "int (card (maps_of s R q)) \<le> page_ref (page_ref_inc p s) q" for q
    using as_okD(6)[OF ok, of q] by auto
  moreover have "page_used F (page_ref_inc p s) = page_used F s" by (auto simp: page_used_def fun_eq_iff)
  ultimately show ?thesis using as_okD[OF ok] p by (intro as_okI) (auto simp: w m)
qed

lemma grow_free_ok:
  assumes ok: "as_ok F R s" and s': "frames s' = frames s" "npage s' = npage s" "page_ref s' = page_ref s"
    and p: "page2ppn p < npage s" "page_ref s p = 0"
      "\<And>q js. q \<in> R \<Longrightarrow> upath js \<Longrightarrow> walk s q js \<noteq> Some (page2ppn p)"
  shows "as_ok (insert p F) R s'"
proof -
  have w: "walk s' q js = walk s q js" for q js using walk_frames s'(1) by blast
  have m: "maps_of s' R q = maps_of s R q" for q by (simp add: maps_of_def w)
  have use: "page_used (insert p F) s' f" if "r \<in> R" "upath is" "walk s' r is = Some f" for r "is" f
    using as_okD(4)[OF ok that(1,2)] that s'(2) p(3) w by (force simp: page_used_def)
  have fr: "page2ppn q < npage s' \<and> page_ref s' q = 0" if "q \<in> insert p F" for q
    using as_okD(3)[OF ok, of q] that s' p by auto
  show ?thesis
    by (rule as_okI[OF as_okD(1)[OF ok] _ fr use])
      (use as_okD(2,5,6)[OF ok] s' w m in auto)
qed


lemma idx_same_page: "la div 4096 = lb div 4096 \<Longrightarrow> idx la = idx lb"
proof -
  assume a: "la div 4096 = lb div 4096"
  have "x div 2 ^ 30 = x div 4096 div 2 ^ 18" "x div 2 ^ 21 = x div 4096 div 2 ^ 9" for x :: nat
    by (simp_all add: div_mult2_eq[symmetric])
  then show ?thesis using a by (simp add: idx_def PDX1_def PDX0_def PTX_def)
qed

lemma pdx_same_table: "la div 2 ^ 21 = lb div 2 ^ 21 \<Longrightarrow> PDX1 la = PDX1 lb \<and> PDX0 la = PDX0 lb"
proof -
  assume a: "la div 2 ^ 21 = lb div 2 ^ 21"
  have "x div 2 ^ 30 = x div 2 ^ 21 div 2 ^ 9" for x :: nat by (simp add: div_mult2_eq[symmetric])
  then show ?thesis using a by (simp add: PDX1_def PDX0_def)
qed

lemma ROUNDDOWN_eq: "ROUNDDOWN a n = a div n * n"
  by (simp add: ROUNDDOWN_def minus_mod_eq_div_mult)

lemma next_table:
  assumes "start < USERTOP" 
  shows "start < ROUNDDOWN (u64 (start + PTSIZE)) PTSIZE" "ROUNDDOWN (u64 (start + PTSIZE)) PTSIZE mod 4096 = 0"
    "start \<le> la \<Longrightarrow> la < ROUNDDOWN (u64 (start + PTSIZE)) PTSIZE \<Longrightarrow> PDX1 la = PDX1 start \<and> PDX0 la = PDX0 start"
proof -
  define k where "k = start div 2097152"
  have e: "ROUNDDOWN (u64 (start + PTSIZE)) PTSIZE = (k + 1) * 2097152"
    using assms div_add_self2[of 2097152 start] by (simp add: ROUNDDOWN_eq PTSIZE_def PGSIZE_def USERTOP_def k_def)
  have k: "k * 2097152 \<le> start" "start < (k + 1) * 2097152"
    unfolding k_def by (simp_all add: dividend_less_div_times)
  show "start < ROUNDDOWN (u64 (start + PTSIZE)) PTSIZE" using e k by simp
  have "(k + 1) * 2097152 = ((k + 1) * 512) * 4096" by simp
  then show "ROUNDDOWN (u64 (start + PTSIZE)) PTSIZE mod 4096 = 0" unfolding e by (metis mod_mult_self2_is_0)
  assume "start \<le> la" "la < ROUNDDOWN (u64 (start + PTSIZE)) PTSIZE"
  then have "la div 2097152 = k" using e k by (intro div_nat_eqI) auto
  then show "PDX1 la = PDX1 start \<and> PDX0 la = PDX0 start"
    by (intro pdx_same_table) (simp add: k_def)
qed

lemma aligned_step:
  assumes "start mod 4096 = 0" "fin mod 4096 = 0" "(start :: nat) < fin"
  shows "start + 4096 \<le> fin" "idx ` {start..<fin} = insert (idx start) (idx ` {start + 4096..<fin})"
proof -
  obtain a b where ab: "start = 4096 * a" "fin = 4096 * b" using assms(1,2) by (metis mod_0_imp_dvd dvdE)
  then show le: "start + 4096 \<le> fin" using assms(3) by simp
  have same: "idx la = idx start" if "start \<le> la" "la < start + 4096" for la
  proof (rule idx_same_page)
    have "la div 4096 = a" by (rule div_nat_eqI) (use that ab(1) in simp_all)
    then show "la div 4096 = start div 4096" using ab(1) by simp
  qed
  have "idx ` {start..<start + 4096} = (\<lambda>_. idx start) ` {start..<start + 4096}"
    by (rule image_cong[OF refl]) (rule same; simp only: atLeastLessThan_iff)
  moreover have "(\<lambda>_. idx start) ` {start..<start + 4096} = {idx start}"
    by (rule image_constant[of start]) (simp only: atLeastLessThan_iff, simp)
  moreover have "{start..<fin} = {start..<start + 4096} \<union> {start + 4096..<fin}"
    using le by (intro ivl_disj_un_two(3)[symmetric]) simp_all
  ultimately show "idx ` {start..<fin} = insert (idx start) (idx ` {start + 4096..<fin})"
    by (simp only: image_Un) simp
qed

text \<open>The number of tables on the way to an address that do not exist.\<close>

definition missing_tables :: "'b vm_scheme \<Rightarrow> nat \<Rightarrow> nat \<Rightarrow> nat" where
  "missing_tables s r la = of_bool (walk s r [PDX1 la] = None) + of_bool (walk s r [PDX1 la, PDX0 la] = None)"

text \<open>The physical memory manager, with its effect on the descriptors' reference counts.\<close>

locale page_refs = pmm_manager inv frees "mgr_alloc M" "mgr_free M" "mgr_nr_free M" may_rel
  for inv :: "pmm \<Rightarrow> bool" and frees :: "pmm \<Rightarrow> nat set" and M :: pmm_ops
    and may_rel :: "nat \<Rightarrow> nat \<Rightarrow> pmm \<Rightarrow> bool" +
  fixes usable :: "nat \<Rightarrow> pmm \<Rightarrow> bool"
  assumes upd_keeps: "(\<And>q. flags (g q) = flags q \<and> property (g q) = property q) \<Longrightarrow>
      inv (upd_page p g ph) = inv ph \<and> frees (upd_page p g ph) = frees ph \<and>
      may_rel b n (upd_page p g ph) = may_rel b n ph \<and> usable b (upd_page p g ph) = usable b ph"
    and alloc_usable: "inv ph \<Longrightarrow> mgr_alloc M n ph = Some (r, ph') \<Longrightarrow> usable q ph \<Longrightarrow> usable q ph'"
    and release_usable: "mgr_free M b n ph = Some ph' \<Longrightarrow> usable q ph \<Longrightarrow> usable q ph'"
    and free_usable: "inv ph \<Longrightarrow> p \<in> frees ph \<Longrightarrow> usable p ph"
    and below_free: "inv ph \<Longrightarrow> usable p ph \<Longrightarrow> p \<notin> frees ph \<Longrightarrow> frees ph = {} \<or> (\<exists>z\<in>frees ph. p < z) \<Longrightarrow>
      card (frees ph) + 2 < 2 ^ 32 \<Longrightarrow> may_rel p 1 ph"
    and alloc_ref: "inv ph \<Longrightarrow> mgr_alloc M n ph = Some (r, ph') \<Longrightarrow> ref (pages ph' q) = ref (pages ph q)"
    and release_ref: "mgr_free M b n ph = Some ph' \<Longrightarrow>
      ref (pages ph' q) = (if q \<in> {b..<b + n} then 0 else ref (pages ph q))"
begin

lemma ref_keeps [simp]:
  "inv (upd_page p (ref_update g) ph) = inv ph" "frees (upd_page p (ref_update g) ph) = frees ph"
  "may_rel b n (upd_page p (ref_update g) ph) = may_rel b n ph"
  "usable b (upd_page p (ref_update g) ph) = usable b ph"
  "usable b (upd_page p (pra_vaddr_update h) ph) = usable b ph"
  "inv (upd_page p (pra_vaddr_update h) ph) = inv ph"
  "frees (upd_page p (pra_vaddr_update h) ph) = frees ph"
  "may_rel b n (upd_page p (pra_vaddr_update h) ph) = may_rel b n ph"
  using upd_keeps[of "ref_update g" p ph b n] upd_keeps[of "pra_vaddr_update h" p ph b n] by auto

lemma alloc_page_spec:
  assumes "inv (phys s)"
  shows "\<exists>r s'. alloc_pages M 1 s = Some (r, s') \<and> inv (phys s') \<and> frames s' = frames s \<and>
    npage s' = npage s \<and> vm.more s' = vm.more s \<and> page_ref s' = page_ref s \<and> (\<forall>x. usable x (phys s) \<longrightarrow> usable x (phys s')) \<and>
    (case r of None \<Rightarrow> s' = s \<and> frees (phys s) = {}
     | Some p \<Rightarrow> p \<in> frees (phys s) \<and> frees (phys s') = frees (phys s) - {p})"
proof -
  obtain r ph where a: "mgr_alloc M 1 (phys s) = Some (r, ph)" using alloc_returns[OF assms, of 1] by auto
  have "frees (phys s) = {}" if "r = None"
    using alloc_None[OF assms, of 1 ph] a that by (auto simp: subset_iff)
  moreover have "ph = phys s" if "r = None" using alloc_None[OF assms, of 1 ph] a that by auto
  ultimately show ?thesis
    using a alloc_inv[OF assms a] alloc_ref[OF assms a] alloc_Some[OF assms, of 1 _ ph]
      alloc_usable[OF assms a]
    by (cases r) (auto simp: alloc_pages_def page_ref_def fun_eq_iff)
qed

lemma ensure_table_spec:
  assumes inv: "inv (phys s)" and ok: "as_ok (frees (phys s)) R s" and r: "r \<in> R"
    and f: "walk s r is = Some f" "upath (is @ [i])" "length is < 2"
  shows "\<exists>b s'. ensure_table M (f, i) create s = Some (b, s') \<and> inv (phys s') \<and>
    as_ok (frees (phys s')) R s' \<and> extends (frees (phys s)) R s s' \<and> frees (phys s') \<subseteq> frees (phys s) \<and>
    (\<not> create \<or> valid (frames s f i) \<longrightarrow> s' = s) \<and> (b \<longleftrightarrow> valid (frames s' f i)) \<and> (create \<and> \<not> b \<longrightarrow> frees (phys s') = {}) \<and> (\<forall>x. usable x (phys s) \<longrightarrow> usable x (phys s'))"
proof (cases "valid (frames s f i) \<or> \<not> create")
  case True
  then show ?thesis using inv ok by (auto simp: ensure_table_def rd_def)
next
  case False
  obtain pr s1 where a: "alloc_pages M 1 s = Some (pr, s1)" "inv (phys s1)" "frames s1 = frames s"
    "npage s1 = npage s" "vm.more s1 = vm.more s" "page_ref s1 = page_ref s"
    "\<forall>x. usable x (phys s) \<longrightarrow> usable x (phys s1)"
    and pr: "case pr of None \<Rightarrow> s1 = s \<and> frees (phys s) = {}
     | Some p \<Rightarrow> p \<in> frees (phys s) \<and> frees (phys s1) = frees (phys s) - {p}"
    using alloc_page_spec[OF inv] by blast
  show ?thesis
  proof (cases pr)
    case None
    then show ?thesis using a pr inv ok False by (auto simp: ensure_table_def rd_def)
  next
    case (Some p)
    then have p: "p \<in> frees (phys s)" "frees (phys s1) = frees (phys s) - {p}" using pr by auto
    have np: "page2ppn p < npage s" "page2ppn p < 2 ^ 52" using as_okD(2,3)[OF ok] p(1) by force+
    define w where "w = pte_create (page2ppn p) (PTE_U OR PTE_V)"
    have w: "valid w" "pte_ppn w = page2ppn p"
      using np(2) by (auto simp: w_def pte_ppn_def PTE_U_def PTE_V_def intro!: PPN_create)
    define s' where "s' = wr (f, i) w (clear_frame (page2ppn p) (set_page_ref p 1 s1))"
    have en: "ensure_table M (f, i) create s = Some (True, s')"
      using False a Some np by (simp add: ensure_table_def rd_def KADDR_def PPN_page2pa s'_def w_def)
    have u: "upath is" using f(2) upath_prefix by blast
    have fp: "f \<noteq> page2ppn p" using free_not_reached[OF ok r u p(1)] f(1) by auto
    have fr: "frames s' = (frames s)(page2ppn p := (\<lambda>_. 0), f := (frames s f)(i := w))"
      using fp a(3) by (auto simp: s'_def wr_def clear_frame_def set_page_ref_def fun_eq_iff)
    have nv: "\<not> valid (frames s f i)" using False by simp
    have ph: "inv (phys s')" "frees (phys s') = frees (phys s) - {p}"
      using a(2) p(2) by (simp_all add: s'_def phys_fields)
    have rf: "page_ref s' = (page_ref s)(p := 1)" "npage s' = npage s" "vm.more s' = vm.more s"
      using a by (simp_all add: s'_def)
    have ok': "as_ok (frees (phys s')) R s'"
      unfolding ph(2) by (rule add_table_ok[OF ok r f nv p(1) w fr rf(2) rf(1)])
    note wk = add_table_walk[OF ok r _ f nv p(1) w fr]
    have none: "walk s r (is @ [i]) = None" using f(1) nv by (simp add: walk_snoc child_def)
    have keep: "frames s' h = frames s h"
      if "h \<notin> page2ppn ` frees (phys s)" "\<forall>q\<in>R. \<forall>js. upath js \<longrightarrow> length js < 3 \<longrightarrow> walk s q js \<noteq> Some h" for h
    proof -
      have "h \<noteq> f" using that(2) r u f(1,3) by fastforce
      moreover have "h \<noteq> page2ppn p" using that(1) p(1) by blast
      ultimately show ?thesis using fr by simp
    qed
    have lf: "leaf s' q js = leaf s q js" if "q \<in> R" "js \<in> upages" for q js
      by (rule wk(2)) (use that in \<open>auto simp: upages_def\<close>)
    have "extends (frees (phys s)) R s s'"
    proof (rule extendsI)
      fix q js h assume q: "q \<in> R" "upath js"
      show "walk s q js = Some h \<Longrightarrow> walk s' q js = Some h" using wk(1)[OF q] none by auto
      show "walk s' q js = Some h \<Longrightarrow> walk s q js = Some h \<or> h \<in> page2ppn ` frees (phys s)"
        using wk(1)[OF q] p(1) by (auto split: if_splits)
    qed (use rf p(1) lf keep in auto)
    moreover have "valid (frames s' f i)" using fr w(1) by simp
    moreover have "frees (phys s') \<subseteq> frees (phys s)" using ph(2) by blast
    moreover have "\<forall>x. usable x (phys s) \<longrightarrow> usable x (phys s')" using a(7) by (simp add: s'_def phys_fields)
    ultimately show ?thesis using en ph(1) ok' False by blast
  qed
qed


lemma get_pte_spec:
  assumes inv: "inv (phys s)" and ok: "as_ok (frees (phys s)) R s" and r: "r \<in> R" and la: "la < USERTOP"
  shows "\<exists>q s'. get_pte M r la create s = Some (q, s') \<and> inv (phys s') \<and>
    as_ok (frees (phys s')) R s' \<and> extends (frees (phys s)) R s s' \<and> frees (phys s') \<subseteq> frees (phys s) \<and>
    (\<forall>x. usable x (phys s) \<longrightarrow> usable x (phys s')) \<and>
    (\<not> create \<or> leaf s r (idx la) \<noteq> None \<longrightarrow> s' = s) \<and>
    (case q of
       None \<Rightarrow> walk s r [PDX1 la, PDX0 la] = None \<and> (create \<longrightarrow> frees (phys s') = {})
     | Some q' \<Rightarrow> \<exists>f. q' = (f, PTX la) \<and> walk s' r [PDX1 la, PDX0 la] = Some f)"
proof -
  note u = upath_idx[OF la]
  obtain b1 s1 where e1: "ensure_table M (r, PDX1 la) create s = Some (b1, s1)" "inv (phys s1)"
    "as_ok (frees (phys s1)) R s1" "extends (frees (phys s)) R s s1" "frees (phys s1) \<subseteq> frees (phys s)"
    "\<not> create \<or> valid (frames s r (PDX1 la)) \<longrightarrow> s1 = s" "b1 \<longleftrightarrow> valid (frames s1 r (PDX1 la))" "create \<and> \<not> b1 \<longrightarrow> frees (phys s1) = {}"
    "\<forall>x. usable x (phys s) \<longrightarrow> usable x (phys s1)"
    using ensure_table_spec[OF inv ok r, of "[]" r "PDX1 la" create] u(1) by auto
  show ?thesis
  proof (cases b1)
    case False
    then have "walk s1 r [PDX1 la, PDX0 la] = None" using e1(7) by (simp add: child_def)
    then have n: "walk s r [PDX1 la, PDX0 la] = None"
      using extendsD(4)[OF e1(4) r u(2)] by (cases "walk s r [PDX1 la, PDX0 la]") auto
    then have "leaf s r (idx la) = None" by (simp add: leaf_def idx_def)
    then show ?thesis using False e1 n by (auto simp: get_pte_def)
  next
    case True
    obtain g where g: "KADDR s1 (PTE_ADDR (frames s1 r (PDX1 la))) = Some g" "walk s1 r [PDX1 la] = Some g"
      using table_kaddr[OF e1(3) r, of "[]" r "PDX1 la"] u(1) True e1(7) by auto
    obtain b2 s2 where e2: "ensure_table M (g, PDX0 la) create s1 = Some (b2, s2)" "inv (phys s2)"
      "as_ok (frees (phys s2)) R s2" "extends (frees (phys s1)) R s1 s2" "frees (phys s2) \<subseteq> frees (phys s1)"
      "\<not> create \<or> valid (frames s1 g (PDX0 la)) \<longrightarrow> s2 = s1" "b2 \<longleftrightarrow> valid (frames s2 g (PDX0 la))" "create \<and> \<not> b2 \<longrightarrow> frees (phys s2) = {}"
      "\<forall>x. usable x (phys s1) \<longrightarrow> usable x (phys s2)"
      using ensure_table_spec[OF e1(2,3) r g(2), of "PDX0 la" create] u(2) by auto
    have ex: "extends (frees (phys s)) R s s2" by (rule extends_trans[OF e1(4) e2(4) e1(5)])
    have g2: "walk s2 r [PDX1 la] = Some g" using extendsD(4)[OF e2(4) r u(1) g(2)] .
    show ?thesis
    proof (cases b2)
      case False
      then have "walk s2 r [PDX1 la, PDX0 la] = None" using e2(7) g2
        by (auto simp: child_def split: bind_splits if_splits)
      then have n: "walk s r [PDX1 la, PDX0 la] = None"
        using extendsD(4)[OF ex r u(2)] by (cases "walk s r [PDX1 la, PDX0 la]") auto
      then have "leaf s r (idx la) = None" by (simp add: leaf_def idx_def)
      then show ?thesis using False True e1 e2 g ex n by (auto simp: get_pte_def rd_def)
    next
      case b2: True
      obtain h where h: "KADDR s2 (PTE_ADDR (frames s2 g (PDX0 la))) = Some h" "walk s2 r [PDX1 la, PDX0 la] = Some h"
        using table_kaddr[OF e2(3) r g2, of "PDX0 la"] u(2) b2 e2(7) by auto
      have "get_pte M r la create s = Some (Some (h, PTX la), s2)"
        using e1(1) e2(1) True b2 g(1) h(1) by (simp add: get_pte_def rd_def)
      moreover have "s2 = s" if "leaf s r (idx la) \<noteq> None"
      proof -
        have v: "valid (frames s r (PDX1 la))" 
          using that by (auto simp: leaf_def idx_def child_def split: bind_splits if_splits)
        then have "s1 = s" using e1(6) by blast
        then have "valid (frames s1 g (PDX0 la))" 
          using that g(2) by (auto simp: leaf_def idx_def child_def split: bind_splits if_splits)
        then show ?thesis using e2(6) \<open>s1 = s\<close> by blast
      qed
      moreover have "s2 = s" if "\<not> create" using that e1(6) e2(6) by blast
      ultimately show ?thesis using e1(2-5,9) e2(2-5,9) ex h(2)
        by - (rule exI[of _ "Some (h, PTX la)"], rule exI[of _ s2], simp, blast)
    qed
  qed
qed


lemma free_page_spec:
  assumes "inv (phys s)" "may_rel p 1 (phys s)"
  shows "\<exists>s'. free_pages M p 1 s = Some s' \<and> inv (phys s') \<and> frees (phys s') = insert p (frees (phys s)) \<and>
    frames s' = frames s \<and> npage s' = npage s \<and> vm.more s' = vm.more s \<and>
    page_ref s' = (page_ref s)(p := 0) \<and> (\<forall>x. usable x (phys s) \<longrightarrow> usable x (phys s'))"
proof -
  obtain ph where ph: "mgr_free M p 1 (phys s) = Some ph" "inv ph" "frees ph = insert p (frees (phys s))"
    using release_ok[OF assms] by auto
  have "page_ref (s\<lparr>phys := ph\<rparr>) = (page_ref s)(p := 0)"
    using release_ref[OF ph(1)] by (auto simp: page_ref_def fun_eq_iff)
  then show ?thesis using ph release_usable[OF ph(1)] by (auto simp: free_pages_def)
qed

lemma page_remove_pte_spec:
  assumes inv: "inv (phys s)" and ok: "as_ok (frees (phys s)) R s" and r: "r \<in> R"
    and f: "walk s r is = Some f" "is @ [i] \<in> upages"
    and rel: "\<And>p. walk s r (is @ [i]) = Some (page2ppn p) \<Longrightarrow> page_ref s p = 1 \<Longrightarrow> may_rel p 1 (phys s)"
  shows "\<exists>s'. page_remove_pte M (f, i) s = Some s' \<and> inv (phys s') \<and> as_ok (frees (phys s')) R s' \<and>
    frees (phys s') = frees (phys s) \<union> {p. walk s r (is @ [i]) = Some (page2ppn p) \<and> page_ref s p = 1} \<and>
    page_ref s' = (\<lambda>p. page_ref s p - of_bool (walk s r (is @ [i]) = Some (page2ppn p))) \<and>
    npage s' = npage s \<and> vm.more s' = vm.more s \<and> (\<forall>x. usable x (phys s) \<longrightarrow> usable x (phys s')) \<and>
    (\<exists>w. \<not> valid w \<and> frames s' = (frames s)(f := (frames s f)(i := w)))"
proof (cases "valid (frames s f i)")
  case False
  then have "walk s r (is @ [i]) = None" using f by (simp add: walk_snoc child_def)
  moreover have "frames s = (frames s)(f := (frames s f)(i := frames s f i))" by simp
  ultimately show ?thesis using False inv ok by (auto simp: page_remove_pte_def rd_def)
next
  case True
  obtain p where p: "pte2page s (frames s f i) = Some p" "pte_ppn (frames s f i) = page2ppn p"
    "walk s r (is @ [i]) = Some (page2ppn p)" using pte2page_leaf[OF ok r f True] by blast
  define s1 where "s1 = page_ref_dec p s"
  have s1: "inv (phys s1)" "frees (phys s1) = frees (phys s)" "frames s1 = frames s" "npage s1 = npage s"
    "vm.more s1 = vm.more s" "page_ref s1 = (page_ref s)(p := page_ref s p - 1)"
    using inv by (simp_all add: s1_def phys_fields)
  have rel1: "may_rel p 1 (phys s1)" if "page_ref s p = 1"
    using rel[OF p(3) that] by (simp add: s1_def phys_fields)
  obtain s2 where s2: "(if page_ref s1 p = 0 then free_pages M p 1 s1 else Some s1) = Some s2"
    "inv (phys s2)" "frees (phys s2) = frees (phys s) \<union> {q. q = p \<and> page_ref s p = 1}"
    "frames s2 = frames s" "npage s2 = npage s" "vm.more s2 = vm.more s"
    "page_ref s2 = (page_ref s)(p := page_ref s p - 1)" "\<forall>x. usable x (phys s1) \<longrightarrow> usable x (phys s2)"
  proof (cases "page_ref s p = 1")
    case True
    then show ?thesis using free_page_spec[OF s1(1) rel1[OF True]] s1 that
      by (auto simp: fun_upd_idem_iff fun_eq_iff)
  qed (use s1 that in auto)
  have "page_remove_pte M (f, i) s = Some (wr (f, i) 0 s2)"
    using True p(1) s2(1) by (auto simp: page_remove_pte_def rd_def s1_def split: if_splits)
  moreover have fr: "frames (wr (f, i) 0 s2) = (frames s)(f := (frames s f)(i := 0))"
    using s2(4) by (simp add: wr_def)
  moreover have "as_ok (frees (phys s2)) R (wr (f, i) 0 s2)"
    by (rule clear_leaf_ok[OF ok r f True p(2) fr]) (use s2 in auto)
  moreover have "\<forall>x. usable x (phys s) \<longrightarrow> usable x (phys s2)" using s2(8) by (simp add: s1_def phys_fields)
  ultimately show ?thesis using s2(2-7) p(3) valid_0
    by - (rule exI[of _ "wr (f, i) 0 s2"], auto simp: fun_eq_iff)
qed


text \<open>
  The step of \<open>page_insert\<close> between the increment of the new page's count and
  the store: the old page gives up its reference.
\<close>

lemma release_old_spec:
  assumes inv: "inv (phys s)" and ok: "as_ok (frees (phys s)) R s" and r: "r \<in> R"
    and f: "walk s r is = Some f" "is @ [i] \<in> upages" and p: "p \<notin> frees (phys s)"
    and rel: "\<And>x. walk s r (is @ [i]) = Some (page2ppn x) \<Longrightarrow> x \<noteq> p \<Longrightarrow> page_ref s x = 1 \<Longrightarrow> may_rel x 1 (phys s)"
  defines "s2 \<equiv> page_ref_inc p s"
  shows "\<exists>s3 w. (if valid (rd s2 (f, i)) then do { x \<leftarrow> pte2page s2 (rd s2 (f, i));
             if x = p then Some (page_ref_dec p s2) else page_remove_pte M (f, i) s2 } else Some s2) = Some s3 \<and>
    inv (phys s3) \<and> as_ok (frees (phys s3)) R s3 \<and>
    frees (phys s3) = frees (phys s) \<union> {x. walk s r (is @ [i]) = Some (page2ppn x) \<and> x \<noteq> p \<and> page_ref s x = 1} \<and>
    page_ref s3 = (\<lambda>x. page_ref s x + of_bool (x = p) - of_bool (walk s r (is @ [i]) = Some (page2ppn x))) \<and>
    npage s3 = npage s \<and> vm.more s3 = vm.more s \<and>
    frames s3 = (frames s)(f := (frames s f)(i := w)) \<and> (w = frames s f i \<or> \<not> valid w)"
proof -
  have w2: "walk s2 q js = walk s q js" for q js unfolding s2_def by (rule walk_frames) simp
  have s2: "inv (phys s2)" "as_ok (frees (phys s2)) R s2" "frees (phys s2) = frees (phys s)" "frames s2 = frames s"
    "npage s2 = npage s" "vm.more s2 = vm.more s" "page_ref s2 = (page_ref s)(p := page_ref s p + 1)"
    using inv ref_inc_ok[OF ok p] by (simp_all add: s2_def phys_fields)
  have idw: "frames s = (frames s)(f := (frames s f)(i := frames s f i))" by simp
  show ?thesis
  proof (cases "valid (frames s f i)")
    case False
    then have "walk s r (is @ [i]) = None" using f by (simp add: walk_snoc child_def)
    then show ?thesis using False s2 idw
      by - (rule exI[of _ s2], rule exI[of _ "frames s f i"], auto simp: rd_def fun_eq_iff)
  next
    case True
    have f2: "walk s2 r is = Some f" "valid (frames s2 f i)" using f(1) True w2 s2(4) by auto
    obtain x where x: "pte2page s2 (frames s f i) = Some x" "walk s r (is @ [i]) = Some (page2ppn x)"
      using pte2page_leaf[OF s2(2) r f2(1) f(2) f2(2)] s2(4) w2 by auto
    show ?thesis
    proof (cases "x = p")
      case xp: True
      have pr: "page_ref (page_ref_dec p s2) = page_ref s" using s2(7) by (auto simp: fun_eq_iff)
      have "as_ok (frees (phys s)) R (page_ref_dec p s2)"
        by (rule shrink_free_ok[OF ok]) (use s2 pr in auto)
      then show ?thesis using True s2 x xp idw pr
        by - (rule exI[of _ "page_ref_dec p s2"], rule exI[of _ "frames s f i"],
          auto simp: rd_def fun_eq_iff phys_fields)
    next
      case False
      have "may_rel y 1 (phys s2)" if "walk s2 r (is @ [i]) = Some (page2ppn y)" "page_ref s2 y = 1" for y
        using rel[of y] that w2 x(2) False s2(7) by (auto simp: s2_def phys_fields)
      then obtain s3 w where "page_remove_pte M (f, i) s2 = Some s3" "inv (phys s3)" "as_ok (frees (phys s3)) R s3"
        "frees (phys s3) = frees (phys s2) \<union> {p. walk s2 r (is @ [i]) = Some (page2ppn p) \<and> page_ref s2 p = 1}"
        "page_ref s3 = (\<lambda>p. page_ref s2 p - of_bool (walk s2 r (is @ [i]) = Some (page2ppn p)))"
        "npage s3 = npage s2" "vm.more s3 = vm.more s2" "\<not> valid w"
        "frames s3 = (frames s2)(f := (frames s2 f)(i := w))"
        using page_remove_pte_spec[OF s2(1,2) r f2(1) f(2)] by blast
      then show ?thesis using True False x w2 s2
        by - (rule exI[of _ s3], rule exI[of _ w], auto simp: rd_def fun_eq_iff)
    qed
  qed
qed


lemma page_insert_spec:
  assumes inv: "inv (phys s)" and ok: "as_ok (frees (phys s)) R s" and r: "r \<in> R" and la: "la < USERTOP"
    and p: "page2ppn p < npage s" "p \<notin> frees (phys s)"
      "\<forall>q\<in>R. \<forall>js. upath js \<longrightarrow> length js < 3 \<longrightarrow> walk s q js \<noteq> Some (page2ppn p)"
    and perm: "take_bit 10 perm = perm"
    and rel: "\<And>x. walk s r (idx la) = Some (page2ppn x) \<Longrightarrow> x \<noteq> p \<Longrightarrow> page_ref s x = 1 \<Longrightarrow> may_rel x 1 (phys s)"
  shows "\<exists>ret s'. page_insert M r p la perm s = Some (ret, s') \<and> inv (phys s') \<and>
    as_ok (frees (phys s')) R s' \<and> npage s' = npage s \<and> vm.more s' = vm.more s \<and>
    (if ret = 0 then
       (\<forall>q\<in>R. \<forall>js\<in>upages. leaf s' q js =
          (if q = r \<and> js = idx la then Some (pte_create (page2ppn p) (PTE_V OR perm)) else leaf s q js)) \<and>
       frees (phys s') \<subseteq> frees (phys s) \<union> {x. walk s r (idx la) = Some (page2ppn x) \<and> x \<noteq> p \<and> page_ref s x = 1} \<and>
       {x. walk s r (idx la) = Some (page2ppn x) \<and> x \<noteq> p \<and> page_ref s x = 1} \<subseteq> frees (phys s') \<and>
       (\<forall>x. x \<notin> frees (phys s) \<longrightarrow>
          page_ref s' x = page_ref s x + of_bool (x = p) - of_bool (walk s r (idx la) = Some (page2ppn x)))
     else ret = - E_NO_MEM \<and> frees (phys s') = {} \<and> extends (frees (phys s)) R s s' \<and> (\<forall>x. usable x (phys s) \<longrightarrow> usable x (phys s')))"
proof -
  have sp: "idx la = [PDX1 la, PDX0 la] @ [PTX la]" by (simp add: idx_def)
  have up: "[PDX1 la, PDX0 la] @ [PTX la] \<in> upages" using upath_idx[OF la] by simp
  obtain q s1 where g: "get_pte M r la True s = Some (q, s1)" "inv (phys s1)" "as_ok (frees (phys s1)) R s1"
    "extends (frees (phys s)) R s s1" "frees (phys s1) \<subseteq> frees (phys s)"
    "leaf s r (idx la) \<noteq> None \<longrightarrow> s1 = s" "\<forall>x. usable x (phys s) \<longrightarrow> usable x (phys s1)"
    and q: "case q of None \<Rightarrow> walk s r [PDX1 la, PDX0 la] = None \<and> (True \<longrightarrow> frees (phys s1) = {})
     | Some q' \<Rightarrow> \<exists>f. q' = (f, PTX la) \<and> walk s1 r [PDX1 la, PDX0 la] = Some f"
    using get_pte_spec[OF inv ok r la, of True] by blast
  note ex = extendsD[OF g(4)]
  show ?thesis
  proof (cases q)
    case None
    then show ?thesis using g q ex(1,2)
      by - (rule exI[of _ "- E_NO_MEM"], rule exI[of _ s1], simp add: page_insert_def E_NO_MEM_def)
  next
    case (Some q')
    then obtain f where f: "q = Some (f, PTX la)" "walk s1 r [PDX1 la, PDX0 la] = Some f" using q by auto
    have wl: "walk s1 r (idx la) = walk s r (idx la)"
      using ex(3)[OF r idx_upages[OF la]] by (simp add: walk_leaf idx_def del: walk.simps)
    have wl': "walk s1 r ([PDX1 la, PDX0 la] @ [PTX la]) = walk s r (idx la)" using wl unfolding sp .
    have used: "x \<notin> frees (phys s)" if "walk s r (idx la) = Some (page2ppn x)" for x
      using free_not_reached[OF ok r, of "idx la" x] that idx_upages[OF la] by (auto simp: upages_def)
    have pF: "p \<notin> frees (phys s1)" using p(2) g(5) by blast
    have rel1: "may_rel x 1 (phys s1)" if "walk s1 r ([PDX1 la, PDX0 la] @ [PTX la]) = Some (page2ppn x)" "x \<noteq> p" "page_ref s1 x = 1" for x
    proof -
      have w: "walk s r (idx la) = Some (page2ppn x)" using that(1) wl sp by simp
      then have "s1 = s" using g(6) by (auto simp: walk_leaf idx_def simp del: walk.simps)
      then show ?thesis using rel[OF w that(2)] that(3) by simp
    qed
    obtain s3 w where s3: "(if valid (rd (page_ref_inc p s1) (f, PTX la)) then
           do { x \<leftarrow> pte2page (page_ref_inc p s1) (rd (page_ref_inc p s1) (f, PTX la));
             if x = p then Some (page_ref_dec p (page_ref_inc p s1)) else page_remove_pte M (f, PTX la) (page_ref_inc p s1) }
           else Some (page_ref_inc p s1)) = Some s3"
      and i3: "inv (phys s3)" "as_ok (frees (phys s3)) R s3"
      and fs: "frees (phys s3) = frees (phys s1) \<union> {x. walk s r (idx la) = Some (page2ppn x) \<and> x \<noteq> p \<and> page_ref s1 x = 1}"
      and rf: "page_ref s3 = (\<lambda>x. page_ref s1 x + of_bool (x = p) - of_bool (walk s r (idx la) = Some (page2ppn x)))"
      and n3: "npage s3 = npage s1" "vm.more s3 = vm.more s1"
      and fr: "frames s3 = (frames s1)(f := (frames s1 f)(PTX la := w))" "w = frames s1 f (PTX la) \<or> \<not> valid w"
      using release_old_spec[OF g(2,3) r f(2) up pF rel1, unfolded wl'] by blast
    define e where "e = pte_create (page2ppn p) (PTE_V OR perm)"
    have e: "valid e" "pte_ppn e = page2ppn p"
      using p(1) as_okD(2)[OF ok] perm
      by (auto simp: e_def pte_ppn_def PTE_V_def take_bit_or intro!: PPN_create)
    define s' where "s' = wr (f, PTX la) e s3"
    have pi: "page_insert M r p la perm s = Some (0, s')"
      using g(1) f(1) s3 by (simp add: page_insert_def s'_def e_def)
    have fr': "frames s' = (frames s1)(f := (frames s1 f)(PTX la := e))" "frames s' = (frames s3)(f := (frames s3 f)(PTX la := e))"
      using fr(1) by (simp_all add: s'_def wr_def)
    have f3: "walk s3 r [PDX1 la, PDX0 la] = Some f"
      using write_leaf(1)[OF g(3) r r f(2) up _ fr(1), of "[PDX1 la, PDX0 la]"] upath_idx[OF la] f(2) by auto
    have tab: "\<forall>q\<in>R. \<forall>js. upath js \<longrightarrow> length js < 3 \<longrightarrow> walk s3 q js \<noteq> Some (page2ppn p)"
      using write_leaf(1)[OF g(3) r _ f(2) up _ fr(1)] ex(5) p(2,3) by fastforce
    have lf3: "leaf s3 q js = None \<or> leaf s3 q js = leaf s1 q js" if "q \<in> R" "js \<in> upages" for q js
      using write_leaf(2)[OF g(3) r that(1) f(2) up _ fr(1), of js] that(2) fr(2) f(2)
      by (auto simp: upages_def leaf_def split: if_splits)
    have sub: "maps_of s3 R p \<subseteq> maps_of s1 R p"
      unfolding maps_of_leaf using lf3 by force
    have fin: "finite (maps_of s1 R p)" "finite (maps_of s3 R p)" using finite_maps as_okD(1)[OF ok] by blast+
    have c: "int (card (insert (r, idx la) (maps_of s3 R p))) \<le> page_ref s3 p"
    proof (cases "walk s r (idx la) = Some (page2ppn p)")
      case True
      have "(r, idx la) \<in> maps_of s1 R p" using True wl r idx_upages[OF la] by (simp add: maps_of_def)
      then have "card (insert (r, idx la) (maps_of s3 R p)) \<le> card (maps_of s1 R p)"
        using sub fin by (intro card_mono) auto
      then show ?thesis using True rf as_okD(6)[OF g(3), of p] by simp
    next
      case False
      have "card (insert (r, idx la) (maps_of s3 R p)) \<le> Suc (card (maps_of s1 R p))"
        using card_mono[OF fin(1) sub] card_insert_le_m1[of "Suc (card (maps_of s1 R p))" "maps_of s3 R p"] by simp
      then show ?thesis using False rf as_okD(6)[OF g(3), of p] by simp
    qed
    have p3: "page2ppn p < npage s3" "p \<notin> frees (phys s3)" using p n3 ex(1) fs pF by auto
    have ok': "as_ok (frees (phys s3)) R s'"
      by (rule set_leaf_ok[OF i3(2) r f3 up e fr'(2) _ _ p3 tab c[unfolded sp]]) (simp_all add: s'_def)
    have "leaf s' q js = (if q = r \<and> js = idx la then Some e else leaf s q js)" if "q \<in> R" "js \<in> upages" for q js
      using write_leaf(2)[OF g(3) r that(1) f(2) up _ fr'(1), of js] ex(3)[OF that] that(2) e(1)
      by (auto simp: sp upages_def)
    moreover have "page_ref s1 x = page_ref s x" if "walk s r (idx la) = Some (page2ppn x)" for x
      using ex(6)[OF used[OF that]] .
    moreover have "page_ref s' x = page_ref s x + of_bool (x = p) - of_bool (walk s r (idx la) = Some (page2ppn x))"
      if "x \<notin> frees (phys s)" for x using rf ex(6)[OF that] by (simp add: s'_def)
    ultimately show ?thesis using pi i3(1) ok' n3 ex(1,2) fs g(5)
      by - (rule exI[of _ 0], rule exI[of _ s'], auto simp: s'_def e_def)
  qed
qed


lemma page_remove_spec:
  assumes inv: "inv (phys s)" and ok: "as_ok (frees (phys s)) R s" and r: "r \<in> R" and la: "la < USERTOP"
    and rel: "\<And>x. walk s r (idx la) = Some (page2ppn x) \<Longrightarrow> page_ref s x = 1 \<Longrightarrow> may_rel x 1 (phys s)"
  shows "\<exists>s'. page_remove M r la s = Some s' \<and> inv (phys s') \<and> as_ok (frees (phys s')) R s' \<and>
    npage s' = npage s \<and> vm.more s' = vm.more s \<and> (\<forall>x. usable x (phys s) \<longrightarrow> usable x (phys s')) \<and>
    (\<forall>q\<in>R. \<forall>js\<in>upages. leaf s' q js = (if q = r \<and> js = idx la then None else leaf s q js)) \<and>
    frees (phys s') = frees (phys s) \<union> {x. walk s r (idx la) = Some (page2ppn x) \<and> page_ref s x = 1} \<and>
    page_ref s' = (\<lambda>x. page_ref s x - of_bool (walk s r (idx la) = Some (page2ppn x)))"
proof -
  have sp: "[PDX1 la, PDX0 la] @ [PTX la] = idx la" by (simp add: idx_def)
  have up: "[PDX1 la, PDX0 la] @ [PTX la] \<in> upages" using upath_idx[OF la] by simp
  obtain q where g: "get_pte M r la False s = Some (q, s)"
    and q: "case q of None \<Rightarrow> walk s r [PDX1 la, PDX0 la] = None
     | Some q' \<Rightarrow> \<exists>f. q' = (f, PTX la) \<and> walk s r [PDX1 la, PDX0 la] = Some f"
    using get_pte_spec[OF inv ok r la, of False] by (auto split: option.splits)
  show ?thesis
  proof (cases q)
    case None
    then have "leaf s r (idx la) = None" using q by (simp add: leaf_def idx_def)
    then show ?thesis using g None inv ok walk_leaf[of "idx la" s r]
      by - (rule exI[of _ s], auto simp: page_remove_def idx_def simp del: walk.simps)
  next
    case (Some q')
    then obtain f where f: "q = Some (f, PTX la)" "walk s r [PDX1 la, PDX0 la] = Some f" using q by auto
    obtain s' w where s': "page_remove_pte M (f, PTX la) s = Some s'" "inv (phys s')" "as_ok (frees (phys s')) R s'"
      "frees (phys s') = frees (phys s) \<union> {p. walk s r (idx la) = Some (page2ppn p) \<and> page_ref s p = 1}"
      "page_ref s' = (\<lambda>p. page_ref s p - of_bool (walk s r (idx la) = Some (page2ppn p)))"
      "npage s' = npage s" "vm.more s' = vm.more s" "\<not> valid w" "frames s' = (frames s)(f := (frames s f)(PTX la := w))"
      "\<forall>x. usable x (phys s) \<longrightarrow> usable x (phys s')"
      using page_remove_pte_spec[OF inv ok r f(2) up, unfolded sp, OF rel] by blast
    have "leaf s' q js = (if q = r \<and> js = idx la then None else leaf s q js)" if "q \<in> R" "js \<in> upages" for q js
      using write_leaf(2)[OF ok r that(1) f(2) up _ s'(9), of js] that(2) s'(8) by (auto simp: idx_def upages_def)
    then show ?thesis using s' g f(1) by - (rule exI[of _ s'], simp add: page_remove_def)
  qed
qed

text \<open>Pages are taken for the tables that are missing, and for nothing else.\<close>

lemma ensure_table_count:
  assumes inv: "inv (phys s)" and ok: "as_ok (frees (phys s)) R s" and r: "r \<in> R"
    and f: "walk s r is = Some f" "upath (is @ [i])" and run: "ensure_table M (f, i) True s = Some (b, s')"
  shows "card (frees (phys s')) = card (frees (phys s)) - of_bool (\<not> valid (frames s f i))"
    "b \<longleftrightarrow> valid (frames s f i) \<or> frees (phys s) \<noteq> {}"
    "\<not> valid (frames s f i) \<Longrightarrow> b \<Longrightarrow> child s' (pte_ppn (frames s' f i)) j = None"
proof -
  obtain pr s1 where a: "alloc_pages M 1 s = Some (pr, s1)" "frames s1 = frames s" "npage s1 = npage s"
    and pr: "case pr of None \<Rightarrow> s1 = s \<and> frees (phys s) = {} | Some p \<Rightarrow> p \<in> frees (phys s) \<and> frees (phys s1) = frees (phys s) - {p}"
    using alloc_page_spec[OF inv] by blast
  have fin: "finite (frees (phys s))" using count_frees[OF inv] by simp
  have "card (frees (phys s')) = card (frees (phys s)) - of_bool (\<not> valid (frames s f i)) \<and>
    (b \<longleftrightarrow> valid (frames s f i) \<or> frees (phys s) \<noteq> {}) \<and>
    (\<not> valid (frames s f i) \<longrightarrow> b \<longrightarrow> child s' (pte_ppn (frames s' f i)) j = None)"
  proof (cases "valid (frames s f i) \<or> pr = None")
    case True
    then show ?thesis using run a pr by (auto simp: ensure_table_def rd_def)
  next
    case False
    then obtain p where p: "pr = Some p" "p \<in> frees (phys s)" "frees (phys s1) = frees (phys s) - {p}" using pr by auto
    have np: "page2ppn p < npage s" "page2ppn p < 2 ^ 52" using as_okD(2,3)[OF ok] p(2) by force+
    define w where "w = pte_create (page2ppn p) (PTE_U OR PTE_V)"
    have w: "pte_ppn w = page2ppn p" using np(2) by (auto simp: w_def pte_ppn_def PTE_U_def PTE_V_def intro!: PPN_create)
    have s': "b" "s' = wr (f, i) w (clear_frame (page2ppn p) (set_page_ref p 1 s1))"
      using run False a p(1) np by (simp_all add: ensure_table_def rd_def KADDR_def PPN_page2pa w_def)
    have "f \<noteq> page2ppn p" using free_not_reached[OF ok r _ p(2), of "is"] f upath_prefix by auto
    then have "child s' (pte_ppn (frames s' f i)) j = None"
      using w by (simp add: s' child_def wr_def clear_frame_def set_page_ref_def valid_def)
    moreover have "frees (phys s') = frees (phys s) - {p}" using p(3) by (simp add: s'(2) phys_fields)
    ultimately show ?thesis using False s'(1) p(2) fin by auto
  qed
  then show "card (frees (phys s')) = card (frees (phys s)) - of_bool (\<not> valid (frames s f i))"
    "b \<longleftrightarrow> valid (frames s f i) \<or> frees (phys s) \<noteq> {}"
    "\<not> valid (frames s f i) \<Longrightarrow> b \<Longrightarrow> child s' (pte_ppn (frames s' f i)) j = None" by blast+
qed

lemma get_pte_count:
  assumes inv: "inv (phys s)" and ok: "as_ok (frees (phys s)) R s" and r: "r \<in> R" and la: "la < USERTOP"
    and run: "get_pte M r la True s = Some (q, s')"
  shows "card (frees (phys s')) = card (frees (phys s)) - missing_tables s r la"
    "q = None \<longleftrightarrow> card (frees (phys s)) < missing_tables s r la"
proof -
  note u = upath_idx[OF la]
  have fin: "finite (frees (phys s))" using count_frees[OF inv] by simp
  obtain b1 s1 where e1: "ensure_table M (r, PDX1 la) True s = Some (b1, s1)" "inv (phys s1)" "as_ok (frees (phys s1)) R s1"
    "valid (frames s r (PDX1 la)) \<longrightarrow> s1 = s" "b1 \<longleftrightarrow> valid (frames s1 r (PDX1 la))"
    using ensure_table_spec[OF inv ok r, of "[]" r "PDX1 la" True] u(1) by auto
  note c1 = ensure_table_count[OF inv ok r, of "[]" r "PDX1 la", simplified, OF u(1) e1(1)]
  have w1: "valid (frames s r (PDX1 la)) \<longleftrightarrow> walk s r [PDX1 la] \<noteq> None" by (simp add: child_def)
  have sub: "walk s r [PDX1 la] = None \<Longrightarrow> walk s r [PDX1 la, PDX0 la] = None" by (auto simp: child_def split: if_splits)
  have "card (frees (phys s')) = card (frees (phys s)) - missing_tables s r la \<and> (q = None \<longleftrightarrow> card (frees (phys s)) < missing_tables s r la)"
  proof (cases b1)
    case False
    then have "frees (phys s) = {}" "walk s r [PDX1 la] = None" "q = None" "s' = s1" using c1(2) w1 run e1(1) by (auto simp: get_pte_def)
    then show ?thesis using c1(1) sub w1 by (simp add: missing_tables_def)
  next
    case True
    obtain g where g: "KADDR s1 (PTE_ADDR (frames s1 r (PDX1 la))) = Some g" "walk s1 r [PDX1 la] = Some g"
      using table_kaddr[OF e1(3) r, of "[]" r "PDX1 la"] u(1) True e1(5) by auto
    obtain b2 s2 where e2: "ensure_table M (g, PDX0 la) True s1 = Some (b2, s2)" "as_ok (frees (phys s2)) R s2"
      "extends (frees (phys s1)) R s1 s2" "b2 \<longleftrightarrow> valid (frames s2 g (PDX0 la))"
      using ensure_table_spec[OF e1(2,3) r g(2), of "PDX0 la" True] u(2) by auto
    have g2: "walk s2 r [PDX1 la] = Some g" using extendsD(4)[OF e2(3) r u(1) g(2)] .
    have s': "s' = s2" "q = None \<longleftrightarrow> \<not> b2"
      using run e1(1) e2(1) True g(1) table_kaddr[OF e2(2) r g2, of "PDX0 la"] u(2) e2(4) by (cases b2; auto simp: get_pte_def rd_def)+
    have c2: "card (frees (phys s2)) = card (frees (phys s1)) - of_bool (\<not> valid (frames s1 g (PDX0 la)))"
      "b2 \<longleftrightarrow> valid (frames s1 g (PDX0 la)) \<or> frees (phys s1) \<noteq> {}"
      using ensure_table_count(1,2)[OF e1(2,3) r g(2) _ e2(1)] u(2) by auto
    have v2: "valid (frames s1 g (PDX0 la)) \<longleftrightarrow> walk s r [PDX1 la, PDX0 la] \<noteq> None"
    proof (cases "valid (frames s r (PDX1 la))")
      case v: True
      then have "s1 = s" using e1(4) by blast
      then show ?thesis using g(2) v by (auto simp: child_def split: if_splits)
    next
      case False
      have "g = pte_ppn (frames s1 r (PDX1 la))" using g(2) by (auto simp: child_def split: if_splits)
      then have "child s1 g (PDX0 la) = None" using c1(3)[OF False True, of "PDX0 la"] by simp
      then have "\<not> valid (frames s1 g (PDX0 la))" by (simp add: child_def split: if_splits)
      moreover have "walk s r [PDX1 la, PDX0 la] = None" by (rule sub) (use False w1 in blast)
      ultimately show ?thesis by (simp del: walk.simps)
    qed
    have fin1: "finite (frees (phys s1))" using count_frees[OF e1(2)] by simp
    have k: "card (frees (phys s)) = 0 \<longleftrightarrow> frees (phys s) = {}" "card (frees (phys s1)) = 0 \<longleftrightarrow> frees (phys s1) = {}" using fin fin1 by simp_all
    define m1 m2 where "m1 = (walk s r [PDX1 la] = None)" and "m2 = (walk s r [PDX1 la, PDX0 la] = None)"
    have "card (frees (phys s1)) = card (frees (phys s)) - of_bool m1" "m1 \<Longrightarrow> frees (phys s) \<noteq> {}" "m1 \<Longrightarrow> m2"
      "card (frees (phys s2)) = card (frees (phys s1)) - of_bool m2" "b2 \<longleftrightarrow> \<not> m2 \<or> frees (phys s1) \<noteq> {}"
      "missing_tables s r la = of_bool m1 + of_bool m2"
      using c1(1,2) c2 True sub unfolding w1 v2 m1_def m2_def missing_tables_def not_not by blast+
    then show ?thesis using s' k by (cases m1; cases m2) auto
  qed
  then show "card (frees (phys s')) = card (frees (phys s)) - missing_tables s r la"
    "q = None \<longleftrightarrow> card (frees (phys s)) < missing_tables s r la" by blast+
qed

lemma page_insert_count:
  assumes inv: "inv (phys s)" and ok: "as_ok (frees (phys s)) R s" and r: "r \<in> R" and la: "la < USERTOP"
    and run: "page_insert M r p la perm s = Some (ret, s')"
  shows "ret \<noteq> 0 \<longleftrightarrow> card (frees (phys s)) < missing_tables s r la"
    "leaf s r (idx la) = None \<Longrightarrow> card (frees (phys s')) = card (frees (phys s)) - missing_tables s r la"
proof -
  obtain q s1 where g: "get_pte M r la True s = Some (q, s1)" "extends (frees (phys s)) R s s1"
    and q: "case q of None \<Rightarrow> True | Some q' \<Rightarrow> \<exists>f. q' = (f, PTX la) \<and> walk s1 r [PDX1 la, PDX0 la] = Some f"
    using get_pte_spec[OF inv ok r la, of True] by (fastforce split: option.splits)
  note c = get_pte_count[OF inv ok r la g(1)]
  have "ret \<noteq> 0 \<longleftrightarrow> q = None"
    using run g(1) by (cases q) (auto simp: page_insert_def E_NO_MEM_def Let_def bind_eq_Some_conv)
  then show "ret \<noteq> 0 \<longleftrightarrow> card (frees (phys s)) < missing_tables s r la" using c(2) by simp
  assume un: "leaf s r (idx la) = None"
  have "frees (phys s') = frees (phys s1)"
  proof (cases q)
    case None
    then show ?thesis using run g(1) by (simp add: page_insert_def)
  next
    case (Some q')
    then obtain f where f: "q = Some (f, PTX la)" "walk s1 r [PDX1 la, PDX0 la] = Some f" using q by auto
    have "leaf s1 r (idx la) = None" using un extendsD(3)[OF g(2) r idx_upages[OF la]] by simp
    then have "\<not> valid (frames s1 f (PTX la))" using f(2) by (simp add: leaf_def idx_def del: walk.simps split: if_splits)
    then have "s' = wr (f, PTX la) (pte_create (page2ppn p) (PTE_V OR perm)) (page_ref_inc p s1)"
      using run g(1) f(1) by (simp add: page_insert_def rd_def)
    then show ?thesis by (simp add: phys_fields)
  qed
  then show "card (frees (phys s')) = card (frees (phys s)) - missing_tables s r la" using c(1) by simp
qed

lemma pgdir_alloc_page_spec:
  assumes inv: "inv (phys s)" and ok: "as_ok (frees (phys s)) R s" and r: "r \<in> R" and la: "la < USERTOP"
    and perm: "take_bit 10 perm = perm" and un: "leaf s r (idx la) = None"
  shows "\<exists>pg s'. pgdir_alloc_page M r la perm s = Some (pg, s') \<and> inv (phys s') \<and>
    as_ok (frees (phys s')) R s' \<and>
    (case pg of
       None \<Rightarrow> card (frees (phys s)) \<le> missing_tables s r la \<and> (\<forall>q\<in>R. \<forall>js\<in>upages. leaf s' q js = leaf s q js) \<and>
         (\<forall>x. x \<notin> frees (phys s) \<longrightarrow> page_ref s' x = page_ref s x) \<and>
         (if frees (phys s) = {} then s' = s else \<exists>p\<in>frees (phys s). frees (phys s') = {p})
     | Some p \<Rightarrow> card (frees (phys s')) + missing_tables s r la + 1 = card (frees (phys s)) \<and>
        p \<in> frees (phys s) \<and> p \<notin> frees (phys s') \<and> page_ref s' p = 1 \<and>
        (\<forall>q\<in>R. \<forall>js\<in>upages. leaf s' q js =
          (if q = r \<and> js = idx la then Some (pte_create (page2ppn p) (PTE_V OR perm)) else leaf s q js)))"
proof -
  obtain pr s1 where a: "alloc_pages M 1 s = Some (pr, s1)" "inv (phys s1)" "frames s1 = frames s"
    "npage s1 = npage s" "vm.more s1 = vm.more s" "page_ref s1 = page_ref s"
    "\<forall>x. usable x (phys s) \<longrightarrow> usable x (phys s1)"
    and pr: "case pr of None \<Rightarrow> s1 = s \<and> frees (phys s) = {}
     | Some p \<Rightarrow> p \<in> frees (phys s) \<and> frees (phys s1) = frees (phys s) - {p}"
    using alloc_page_spec[OF inv] by blast
  show ?thesis
  proof (cases pr)
    case None
    then show ?thesis using a pr inv ok
      by - (rule exI[of _ None], rule exI[of _ s], auto simp: pgdir_alloc_page_def)
  next
    case (Some p)
    then have p: "p \<in> frees (phys s)" "frees (phys s1) = frees (phys s) - {p}" using pr by auto
    have ok1: "as_ok (frees (phys s1)) R s1"
      by (rule shrink_free_ok[OF ok]) (use a p in auto)
    have w1: "walk s1 q js = walk s q js" "leaf s1 q js = leaf s q js" for q js
      using walk_frames[OF a(3)] leaf_frames[OF a(3)] by auto
    have n1: "walk s1 r (idx la) = None" using un w1 by (simp add: walk_leaf idx_def del: walk.simps)
    have np: "page2ppn p < npage s1" "page_ref s1 p = 0" using as_okD(3)[OF ok p(1)] a by auto
    have mt: "missing_tables s1 r la = missing_tables s r la" unfolding missing_tables_def w1(1) ..
    have "finite (frees (phys s))" using count_frees[OF inv] by simp
    then have cd: "card (frees (phys s)) = card (frees (phys s1)) + 1" using card.remove[OF _ p(1)] p(2) by simp
    have nt: "\<forall>q\<in>R. \<forall>js. upath js \<longrightarrow> length js < 3 \<longrightarrow> walk s1 q js \<noteq> Some (page2ppn p)"
      using free_not_reached[OF ok _ _ p(1)] w1 by auto
    obtain ret s2 where i: "page_insert M r p la perm s1 = Some (ret, s2)" "inv (phys s2)" "as_ok (frees (phys s2)) R s2"
      and res: "if ret = 0 then
       (\<forall>q\<in>R. \<forall>js\<in>upages. leaf s2 q js =
          (if q = r \<and> js = idx la then Some (pte_create (page2ppn p) (PTE_V OR perm)) else leaf s1 q js)) \<and>
       frees (phys s2) \<subseteq> frees (phys s1) \<union> {x. walk s1 r (idx la) = Some (page2ppn x) \<and> x \<noteq> p \<and> page_ref s1 x = 1} \<and>
       {x. walk s1 r (idx la) = Some (page2ppn x) \<and> x \<noteq> p \<and> page_ref s1 x = 1} \<subseteq> frees (phys s2) \<and>
       (\<forall>x. x \<notin> frees (phys s1) \<longrightarrow>
          page_ref s2 x = page_ref s1 x + of_bool (x = p) - of_bool (walk s1 r (idx la) = Some (page2ppn x)))
     else ret = - E_NO_MEM \<and> frees (phys s2) = {} \<and> extends (frees (phys s1)) R s1 s2 \<and>
       (\<forall>x. usable x (phys s1) \<longrightarrow> usable x (phys s2))"
      using page_insert_spec[OF a(2) ok1 r la np(1) _ nt perm] p(2) n1 by auto
    note cnt = page_insert_count[OF a(2) ok1 r la i(1), unfolded mt]
    have cnt2: "card (frees (phys s2)) = card (frees (phys s1)) - missing_tables s r la" using cnt(2) un w1(2) by simp
    show ?thesis
    proof (cases "ret = 0")
      case True
      define s3 where "s3 = s2\<lparr>phys := upd_page p (pra_vaddr_update (\<lambda>_. word_of_nat la)) (phys s2)\<rparr>"
      have s3: "frames s3 = frames s2" "npage s3 = npage s2" "page_ref s3 = page_ref s2"
        "inv (phys s3)" "frees (phys s3) = frees (phys s2)"
        using i(2) by (simp_all add: s3_def) (simp add: page_ref_def fun_eq_iff upd_page_def)
      have "as_ok (frees (phys s3)) R s3" by (rule shrink_free_ok[OF i(3)]) (use s3 in auto)
      moreover have "page_ref s2 p = 1" "p \<notin> frees (phys s2)" using res True p(2) n1 np(2) by auto
      moreover have "pgdir_alloc_page M r la perm s = Some (Some p, s3)"
        using a(1) Some i(1) True calculation(2) s3(3) by (simp add: pgdir_alloc_page_def s3_def)
      moreover have "card (frees (phys s3)) + missing_tables s r la + 1 = card (frees (phys s))"
        using cnt(1) cnt2 cd True s3(5) by simp
      ultimately show ?thesis using s3 res True p(1) w1(2) leaf_frames[OF s3(1)]
        by - (rule exI[of _ "Some p"], rule exI[of _ s3], simp)
    next
      case False
      then have f: "frees (phys s2) = {}" "extends (frees (phys s1)) R s1 s2" using res by auto
      have pF: "p \<notin> frees (phys s1)" using p(2) by simp
      note ex = extendsD[OF f(2)]
      have us: "usable p (phys s2)" using free_usable[OF inv p(1)] a(7) res False by auto
      have "may_rel p 1 (phys s2)" by (rule below_free[OF i(2) us]) (simp_all add: f(1))
      then obtain s3 where s3: "free_pages M p 1 s2 = Some s3" "inv (phys s3)" "frees (phys s3) = insert p (frees (phys s2))"
        "frames s3 = frames s2" "npage s3 = npage s2" "page_ref s3 = (page_ref s2)(p := 0)"
        using free_page_spec[OF i(2)] by blast
      have r2: "page_ref s2 p = 0" using ex(6)[OF pF] np(2) by simp
      have nr: "walk s2 q js \<noteq> Some (page2ppn p)" if "q \<in> R" "upath js" for q js
        using ex(5)[OF that, of "page2ppn p"] pF free_not_reached[OF ok that p(1)] w1 by auto
      have "as_ok (frees (phys s3)) R s3" unfolding s3(3)
        by (rule grow_free_ok[OF i(3) s3(4,5) _ _ r2 nr]) (use s3(6) r2 np(1) ex(1) in auto)
      moreover have "leaf s3 q js = leaf s q js" if "q \<in> R" "js \<in> upages" for q js
        using leaf_frames[OF s3(4)] ex(3)[OF that] w1 by simp
      moreover have "pgdir_alloc_page M r la perm s = Some (None, s3)"
        using a(1) Some i(1) False s3(1) by (simp add: pgdir_alloc_page_def)
      moreover have "page_ref s3 x = page_ref s x" if "x \<notin> frees (phys s)" for x
        using ex(6)[of x] that p s3(6) a(6) by auto
      moreover have "card (frees (phys s)) \<le> missing_tables s r la" using cnt(1) cd False by simp
      ultimately show ?thesis using s3(2,3) f(1) p(1) by auto
    qed
  qed
qed


lemma page_may_go:
  assumes inv: "inv (phys s)" and ok: "as_ok (frees (phys s)) R s" and r: "r \<in> R" and js: "js \<in> upages"
    and w: "walk s r js = Some (page2ppn x)" and us: "usable x (phys s)" and z: "z \<in> frees (phys s)" "x < z"
    and np: "npage s + 2 < 2 ^ 32"
  shows "may_rel x 1 (phys s)"
proof (rule below_free[OF inv us])
  show "x \<notin> frees (phys s)" using as_okD(4)[OF ok r _ w] js by (auto simp: upages_def)
  show "frees (phys s) = {} \<or> (\<exists>z\<in>frees (phys s). x < z)" using z by blast
  have "frees (phys s) \<subseteq> {..<npage s}" using as_okD(3)[OF ok] by (fastforce simp: page2ppn_def)
  then have "card (frees (phys s)) \<le> npage s" using card_mono[of "{..<npage s}"] by auto
  then show "card (frees (phys s)) + 2 < 2 ^ 32" using np by simp
qed

lemma unmap_loop_spec:
  fixes s :: "'b vm_scheme"
  assumes "inv (phys s)" "as_ok (frees (phys s)) R s" "r \<in> R"
    "start mod 4096 = 0" "fin mod 4096 = 0" "start < fin" "fin \<le> USERTOP" "z \<in> frees (phys s)" "npage s + 2 < 2 ^ 32"
    "\<forall>js\<in>idx ` {start..<fin}. \<forall>x. walk s r js = Some (page2ppn x) \<longrightarrow> x < z \<and> usable x (phys s)"
  shows "\<exists>s'. unmap_loop M r start fin s = Some s' \<and> inv (phys s') \<and> as_ok (frees (phys s')) R s' \<and>
    frees (phys s) \<subseteq> frees (phys s') \<and> npage s' = npage s \<and> vm.more s' = vm.more s \<and>
    (\<forall>q\<in>R. \<forall>js\<in>upages. leaf s' q js = (if q = r \<and> js \<in> idx ` {start..<fin} then None else leaf s q js))"
  using assms
proof (induction "fin - start" arbitrary: start s rule: less_induct)
  case less
  note inv = less.prems(1) and ok = less.prems(2) and r = less.prems(3)
  have la: "start < USERTOP" using less.prems by simp
  obtain q where g: "get_pte M r start False s = Some (q, s)"
    and q: "case q of None \<Rightarrow> walk s r [PDX1 start, PDX0 start] = None
     | Some q' \<Rightarrow> \<exists>f. q' = (f, PTX start) \<and> walk s r [PDX1 start, PDX0 start] = Some f"
    using get_pte_spec[OF inv ok r la, of False] by (auto split: option.splits)
  show ?case
  proof (cases q)
    case None
    define st where "st = ROUNDDOWN (u64 (start + PTSIZE)) PTSIZE"
    note nt = next_table[OF la, folded st_def]
    have none: "leaf s r (idx la) = None" if "start \<le> la" "la < st" for la
      using nt(3)[OF that] q None by (simp add: leaf_def idx_def)
    have skip: "(if q = r \<and> js \<in> idx ` {start..<fin} then None else leaf s q js) =
      (if q = r \<and> js \<in> idx ` {st..<fin} then None else leaf s q js)" for q js
      using none nt(1) by (force simp: image_iff not_less)
    show ?thesis
    proof (cases "st < fin")
      case True
      have "\<exists>s'. unmap_loop M r st fin s = Some s' \<and> inv (phys s') \<and> as_ok (frees (phys s')) R s' \<and>
        frees (phys s) \<subseteq> frees (phys s') \<and> npage s' = npage s \<and> vm.more s' = vm.more s \<and>
        (\<forall>q\<in>R. \<forall>js\<in>upages. leaf s' q js = (if q = r \<and> js \<in> idx ` {st..<fin} then None else leaf s q js))"
        by (rule less.hyps[OF _ inv ok r nt(2) less.prems(5) True less.prems(7-9)])
          (use nt(1) True less.prems(10) in auto)
      moreover have "unmap_loop M r start fin s = unmap_loop M r st fin s"
        using g None True nt(1) by (subst unmap_loop.simps) (simp add: st_def)
      ultimately show ?thesis unfolding skip by simp
    next
      case False
      have "unmap_loop M r start fin s = Some s"
        using g None False by (subst unmap_loop.simps) (simp add: st_def)
      then show ?thesis using inv ok False unfolding skip by (intro exI[of _ s]) auto
    qed
  next
    case (Some q')
    note al = aligned_step[OF less.prems(4-6)]
    have rel: "may_rel x 1 (phys s)" if "walk s r (idx start) = Some (page2ppn x)" "page_ref s x = 1" for x
    proof (rule page_may_go[OF inv ok r idx_upages[OF la] that(1) _ less.prems(8) _ less.prems(9)])
      show "usable x (phys s)" "x < z" using less.prems(10) that(1) al(2) by auto
    qed
    obtain s1 where s1: "page_remove M r start s = Some s1" "inv (phys s1)" "as_ok (frees (phys s1)) R s1"
      "npage s1 = npage s" "vm.more s1 = vm.more s" "\<forall>x. usable x (phys s) \<longrightarrow> usable x (phys s1)"
      "\<forall>q\<in>R. \<forall>js\<in>upages. leaf s1 q js = (if q = r \<and> js = idx start then None else leaf s q js)"
      "frees (phys s) \<subseteq> frees (phys s1)"
      using page_remove_spec[OF inv ok r la rel] by blast
    have rm: "(if rd s q' \<noteq> 0 then page_remove_pte M q' s else Some s) = Some s1"
      using s1(1) g Some by (auto simp: page_remove_def page_remove_pte_def)
    have st: "u64 (start + PGSIZE) = start + 4096" using la by (simp add: PGSIZE_def USERTOP_def)
    show ?thesis
    proof (cases "start + 4096 < fin")
      case True
      have up: "js \<in> upages" if "js \<in> idx ` {start..<fin}" for js
        using that idx_upages less.prems(7) by auto
      have rest: "\<forall>js\<in>idx ` {start + 4096..<fin}. \<forall>x. walk s1 r js = Some (page2ppn x) \<longrightarrow> x < z \<and> usable x (phys s1)"
      proof (intro ballI allI impI)
        fix js x assume js: "js \<in> idx ` {start + 4096..<fin}" "walk s1 r js = Some (page2ppn x)"
        have j: "js \<in> idx ` {start..<fin}" using js(1) by auto
        then have "js \<noteq> []" by (auto simp: idx_def)
        then have "walk s r js = Some (page2ppn x)" using js(2) s1(7) r up[OF j]
          by (auto simp: walk_leaf split: if_splits)
        then show "x < z \<and> usable x (phys s1)" using less.prems(10) j s1(6) by blast
      qed
      have "\<exists>s'. unmap_loop M r (start + 4096) fin s1 = Some s' \<and> inv (phys s') \<and> as_ok (frees (phys s')) R s' \<and>
        frees (phys s1) \<subseteq> frees (phys s') \<and> npage s' = npage s1 \<and> vm.more s' = vm.more s1 \<and>
        (\<forall>q\<in>R. \<forall>js\<in>upages. leaf s' q js = (if q = r \<and> js \<in> idx ` {start + 4096..<fin} then None else leaf s1 q js))"
        by (rule less.hyps[OF _ s1(2,3) r _ less.prems(5) True less.prems(7) _ _ rest])
          (use less.prems s1 in auto)
      moreover have "unmap_loop M r start fin s = unmap_loop M r (start + 4096) fin s1"
        using g Some rm st True by (subst unmap_loop.simps) simp
      moreover have "frees (phys s) \<subseteq> frees (phys s')" if "frees (phys s1) \<subseteq> frees (phys s')" for s' :: "'b vm_scheme"
        using that s1(8) by blast
      ultimately show ?thesis using s1(4,5,7) unfolding al(2) by auto
    next
      case False
      then have f: "fin = start + 4096" using al(1) by simp
      have "unmap_loop M r start fin s = Some s1"
        using g Some rm st f by (subst unmap_loop.simps) simp
      moreover have "idx ` {start..<fin} = {idx start}" using al(2) f by simp
      ultimately show ?thesis using s1 by auto
    qed
  qed
qed

end

end
