(* ===== verification/BestFit.thy ===== *)
theory BestFit
  imports DefaultPmm
begin

text \<open>
  The best-fit physical memory manager (\<^verbatim>\<open>lab2/kern/mm/best_fit_pmm.c\<close>), the second
  provider of the interface \<^verbatim>\<open>pmm_manager\<close>. It shares the insertion, merging and
  splitting code of the first-fit manager line by line; its search walks the
  whole free list and keeps the smallest block that fits.
\<close>

subsection \<open>Operations\<close>

definition best_fit_init :: "pmm \<Rightarrow> pmm" where
  "best_fit_init s = s\<lparr>links := list_init (links s) Head, nr_free := 0\<rparr>"

definition best_fit_init_memmap :: "nat \<Rightarrow> nat \<Rightarrow> pmm \<Rightarrow> pmm option" where
  "best_fit_init_memmap base n s =
     do { kassert (n > 0);
          pg \<leftarrow> init_memmap_pages n base (pages s);
          let s1 = upd_page base (\<lambda>p. SetPageProperty (p\<lparr>property := u32 n\<rparr>)) (s\<lparr>pages := pg\<rparr>);
          let s2 = s1\<lparr>nr_free := u32 (nr_free s1 + n)\<rparr>;
          h \<leftarrow> insert_block (links s2) base;
          Some (s2\<lparr>links := h\<rparr>) }"

text \<open>The search loop, with its variables \<open>page\<close> and \<open>min_size\<close>.\<close>

partial_function (option) best_fit_find ::
  "pmm \<Rightarrow> link \<Rightarrow> nat \<Rightarrow> nat option \<Rightarrow> nat \<Rightarrow> nat option option" where
  "best_fit_find s le n pa min_size =
     (case list_next (links s) le of
        Head \<Rightarrow> Some pa
      | Pg p \<Rightarrow>
          if n \<le> property (pages s p) \<and> property (pages s p) < min_size
          then best_fit_find s (Pg p) n (Some p) (property (pages s p))
          else best_fit_find s (Pg p) n pa min_size)"

definition best_fit_alloc_pages :: "nat \<Rightarrow> pmm \<Rightarrow> (nat option \<times> pmm) option" where
  "best_fit_alloc_pages n s =
     do { kassert (n > 0);
          if n > nr_free s then Some (None, s)
          else do { r \<leftarrow> best_fit_find s Head n None (u32 (nr_free s + 1));
                    case r of
                      None \<Rightarrow> Some (None, s)
                    | Some pa \<Rightarrow> Some (Some pa, take_block pa n s) } }"

definition best_fit_free_pages :: "nat \<Rightarrow> nat \<Rightarrow> pmm \<Rightarrow> pmm option" where
  "best_fit_free_pages base n s =
     do { kassert (n > 0);
          pg \<leftarrow> free_reset_pages n base (pages s);
          let s1 = upd_page base (\<lambda>p. SetPageProperty (p\<lparr>property := u32 n\<rparr>)) (s\<lparr>pages := pg\<rparr>);
          let s2 = s1\<lparr>nr_free := u32 (nr_free s1 + n)\<rparr>;
          h \<leftarrow> insert_block (links s2) base;
          let (base', s3) = merge_prev base (s2\<lparr>links := h\<rparr>);
          Some (merge_next base' s3) }"

definition best_fit_nr_free_pages :: "pmm \<Rightarrow> nat" where
  "best_fit_nr_free_pages s = nr_free s"

subsection \<open>The search finds a smallest block that fits\<close>

text \<open>What the loop computes, as a fold over the blocks of the list.\<close>

fun best_choice :: "(nat \<Rightarrow> nat) \<Rightarrow> nat \<Rightarrow> nat list \<Rightarrow> nat option \<Rightarrow> nat \<Rightarrow> nat option" where
  "best_choice sz n [] pa m = pa"
| "best_choice sz n (b # bs) pa m =
     (if n \<le> sz b \<and> sz b < m then best_choice sz n bs (Some b) (sz b) else best_choice sz n bs pa m)"

lemma best_fit_find_choice:
  assumes "dlist (links s) Head (map Pg (xs @ ys))"
  shows "best_fit_find s (last (Head # map Pg xs)) n pa m = Some (best_choice (bsize s) n ys pa m)"
  using assms
proof (induction ys arbitrary: xs pa m)
  case Nil
  then show ?case using dlist_next[of "links s" Head "map Pg xs" "[]"]
    by (subst best_fit_find.simps) (simp del: last.simps)
next
  case (Cons y ys)
  have nx: "list_next (links s) (last (Head # map Pg xs)) = Pg y"
    using dlist_next[of "links s" Head "map Pg xs" "map Pg (y # ys)"] Cons.prems by (simp del: last.simps)
  have "best_fit_find s (Pg y) n pa m = Some (best_choice (bsize s) n ys pa m)" for pa m
    using Cons.IH[of "xs @ [y]"] Cons.prems by simp
  then show ?case by (subst best_fit_find.simps) (simp add: nx del: last.simps)
qed

lemma best_choice_keeps:
  "best_choice sz n bs pa m = None \<longleftrightarrow> pa = None \<and> (\<forall>b\<in>set bs. n \<le> sz b \<longrightarrow> m \<le> sz b)"
  by (induction bs arbitrary: pa m) auto

lemma best_choice_Some:
  assumes "best_choice sz n bs pa m = Some b"
  shows "(pa = Some b \<and> (\<forall>c\<in>set bs. n \<le> sz c \<longrightarrow> m \<le> sz c)) \<or>
    (b \<in> set bs \<and> n \<le> sz b \<and> sz b < m \<and> (\<forall>c\<in>set bs. n \<le> sz c \<longrightarrow> sz b \<le> sz c))"
  using assms
proof (induction bs arbitrary: pa m)
  case (Cons c bs)
  show ?case
  proof (cases "n \<le> sz c \<and> sz c < m")
    case True
    with Cons.prems have "best_choice sz n bs (Some c) (sz c) = Some b" by simp
    from Cons.IH[OF this] True show ?thesis by fastforce
  next
    case False
    with Cons.prems have "best_choice sz n bs pa m = Some b" by simp
    from Cons.IH[OF this] False show ?thesis by fastforce
  qed
qed simp

lemma best_fit_alloc_spec:
  assumes inv: "pmm_inv s bs" and n: "0 < n" and nr: "nr_free s + 1 < 2 ^ 32"
  shows "\<exists>r s'. best_fit_alloc_pages n s = Some (r, s') \<and>
    (case r of
       None \<Rightarrow> s' = s \<and> \<not> (\<exists>p. {p..<p + n} \<subseteq> free_set s bs)
     | Some p \<Rightarrow> p \<in> set bs \<and> n \<le> bsize s p \<and> (\<forall>b\<in>set bs. n \<le> bsize s b \<longrightarrow> bsize s p \<le> bsize s b) \<and>
         nr_free s' = nr_free s - n \<and>
         (\<exists>bs'. pmm_inv s' bs' \<and> free_set s' bs' = free_set s bs - {p..<p + n}))"
proof -
  have bound: "\<forall>b\<in>set bs. bsize s b \<le> nr_free s"
    using inv sum_list_split_le[of _ bs "bsize s"] by (simp add: pmm_inv_def pmm_base_def)
  let ?c = "best_choice (bsize s) n bs None (nr_free s + 1)"
  have find: "best_fit_find s Head n None (u32 (nr_free s + 1)) = Some ?c"
    using best_fit_find_choice[of s "[]" bs n] inv nr by (simp add: pmm_inv_def pmm_base_def)
  show ?thesis
  proof (cases ?c)
    case None
    then have "\<forall>b\<in>set bs. \<not> n \<le> bsize s b" using bound by (fastforce simp: best_choice_keeps)
    then have "\<not> (\<exists>p. {p..<p + n} \<subseteq> free_set s bs)" using block_run[OF inv n] by blast
    then show ?thesis using None find n by (simp add: best_fit_alloc_pages_def)
  next
    case (Some p)
    then have p: "p \<in> set bs" "n \<le> bsize s p" "\<forall>c\<in>set bs. n \<le> bsize s c \<longrightarrow> bsize s p \<le> bsize s c"
      using best_choice_Some[OF Some] by auto
    obtain us vs where bs: "bs = us @ p # vs" using split_list[OF p(1)] by blast
    have "n \<le> nr_free s" using bound p(1,2) by fastforce
    then have "best_fit_alloc_pages n s = Some (Some p, take_block p n s)"
      using Some find n by (simp add: best_fit_alloc_pages_def)
    then show ?thesis using take_block_ok[OF inv[unfolded bs] n p(2)] p bs by auto
  qed
qed

lemma best_fit_free_eq: "best_fit_free_pages = default_free_pages"
  by (intro ext) (simp add: best_fit_free_pages_def default_free_pages_def)

lemma best_fit_init_memmap_eq: "best_fit_init_memmap = default_init_memmap"
  by (intro ext) (simp add: best_fit_init_memmap_def default_init_memmap_def)

subsection \<open>The manager meets the interface\<close>

text \<open>The search computes \<^verbatim>\<open>nr_free + 1\<close> in 32 bits, hence the stricter bound.\<close>

definition best_fit_ok :: "pmm \<Rightarrow> bool" where
  "best_fit_ok s \<longleftrightarrow> pmm_ok s \<and> nr_free s + 1 < 2 ^ 32"

definition best_fit_may_free :: "nat \<Rightarrow> nat \<Rightarrow> pmm \<Rightarrow> bool" where
  "best_fit_may_free base n s \<longleftrightarrow> may_free base n s \<and> nr_free s + n + 1 < 2 ^ 32"

lemma best_fit_ok_inv: "best_fit_ok s \<Longrightarrow> \<exists>bs. pmm_inv s bs \<and> nr_free s + 1 < 2 ^ 32 \<and> free_pages_of s = free_set s bs"
  by (auto simp: best_fit_ok_def pmm_ok_def free_pages_of_inv)

lemma best_fit_alloc_0 [simp]: "best_fit_alloc_pages 0 s = None"
  by (simp add: best_fit_alloc_pages_def)

lemma best_fit_alloc_contract:
  assumes "best_fit_ok s" "0 < n"
  shows "\<exists>r s'. best_fit_alloc_pages n s = Some (r, s') \<and> best_fit_ok s' \<and>
    (case r of None \<Rightarrow> s' = s \<and> \<not> (\<exists>p. {p..<p + n} \<subseteq> free_pages_of s)
     | Some p \<Rightarrow> {p..<p + n} \<subseteq> free_pages_of s \<and> free_pages_of s' = free_pages_of s - {p..<p + n})"
proof -
  obtain bs where bs: "pmm_inv s bs" "nr_free s + 1 < 2 ^ 32" "free_pages_of s = free_set s bs"
    using best_fit_ok_inv[OF assms(1)] by blast
  obtain r s' where r: "best_fit_alloc_pages n s = Some (r, s')"
    and post: "case r of
       None \<Rightarrow> s' = s \<and> \<not> (\<exists>p. {p..<p + n} \<subseteq> free_set s bs)
     | Some p \<Rightarrow> p \<in> set bs \<and> n \<le> bsize s p \<and> (\<forall>b\<in>set bs. n \<le> bsize s b \<longrightarrow> bsize s p \<le> bsize s b) \<and>
         nr_free s' = nr_free s - n \<and>
         (\<exists>bs'. pmm_inv s' bs' \<and> free_set s' bs' = free_set s bs - {p..<p + n})"
    using best_fit_alloc_spec[OF bs(1) assms(2) bs(2)] by blast
  show ?thesis
  proof (cases r)
    case None
    then show ?thesis using r post assms bs by auto
  next
    case (Some p)
    then obtain bs' where "pmm_inv s' bs'" "free_set s' bs' = free_set s bs - {p..<p + n}"
      "p \<in> set bs" "n \<le> bsize s p" "nr_free s' = nr_free s - n" using post by auto
    then show ?thesis using r bs Some
      by (auto simp: best_fit_ok_def pmm_ok_def free_pages_of_inv free_set_def)
  qed
qed

interpretation bpmm: pmm_manager best_fit_ok free_pages_of best_fit_alloc_pages best_fit_free_pages
  best_fit_nr_free_pages best_fit_may_free
proof (unfold_locales, goal_cases)
  case (1 s n)
  then show ?case using best_fit_alloc_contract[OF 1] by blast
next
  case (2 s n r s')
  then have "0 < n" by (cases n) auto
  then show ?case using best_fit_alloc_contract[OF 2(1), of n] 2(2) by auto
next
  case (3 s n p s')
  then have "0 < n" by (cases n) auto
  then show ?case using best_fit_alloc_contract[OF 3(1), of n] 3(2) by auto
next
  case (4 s n s')
  then have "0 < n" by (cases n) auto
  then show ?case using best_fit_alloc_contract[OF 4(1), of n] 4(2) by auto
next
  case (5 s base n)
  then have "pmm_ok s" "may_free base n s" by (auto simp: best_fit_ok_def best_fit_may_free_def)
  then obtain s' where s': "default_free_pages base n s = Some s'" "pmm_ok s'"
    "free_pages_of s' = free_pages_of s \<union> {base..<base + n}" using dpmm.release_ok by blast
  have "card (free_pages_of s') \<le> card (free_pages_of s) + n"
    unfolding s'(3) using card_Un_le[of "free_pages_of s" "{base..<base + n}"] by simp
  then have "nr_free s' + 1 < 2 ^ 32"
    using nr_free_card[OF s'(2)] nr_free_card[OF \<open>pmm_ok s\<close>] 5(2) by (simp add: best_fit_may_free_def)
  then show ?case using s' by (simp add: best_fit_free_eq best_fit_ok_def)
next
  case (6 s)
  then show ?case using dpmm.count_frees
    by (simp add: best_fit_ok_def best_fit_nr_free_pages_def default_nr_free_pages_def)
qed

subsection \<open>Properties\<close>

text \<open>
  C13. Best-fit allocation always returns. The block it takes pages from is a smallest
  free block that is large enough; exactly the requested pages stop being free and the
  invariant is kept. It returns NULL, without any change, only when no run of that many
  free pages exists.
\<close>

theorem best_fit_alloc_pages_correct:
  assumes "pmm_inv s bs" and "0 < n" and "nr_free s + 1 < 2 ^ 32"
  shows "\<exists>r s'. best_fit_alloc_pages n s = Some (r, s') \<and>
    (case r of
       None \<Rightarrow> s' = s \<and> \<not> (\<exists>p. {p..<p + n} \<subseteq> free_set s bs)
     | Some p \<Rightarrow> p \<in> set bs \<and> n \<le> bsize s p \<and> (\<forall>b\<in>set bs. n \<le> bsize s b \<longrightarrow> bsize s p \<le> bsize s b) \<and>
         nr_free s' = nr_free s - n \<and>
         (\<exists>bs'. pmm_inv s' bs' \<and> free_set s' bs' = free_set s bs - {p..<p + n}))"
  using assms by (rule best_fit_alloc_spec)

theorem best_fit_alloc_pages_correct_witness:
  "\<exists>s p s'. best_fit_init_memmap 0 6 boot_pmm = Some s \<and> best_fit_alloc_pages 4 s = Some (Some p, s') \<and>
     p = 0 \<and> nr_free s' = 2"
proof -
  obtain s where s: "default_init_memmap 0 6 boot_pmm = Some s" "pmm_inv s [0]"
    "free_set s [0] = {0..<6}" "nr_free s = 6" using boot_6 by blast
  have "{0..<0 + 4} \<subseteq> free_set s [0]" using s(3) by auto
  then show ?thesis using best_fit_alloc_pages_correct[OF s(2), of 4] s
    by (auto simp: best_fit_init_memmap_eq split: option.splits)
qed

text \<open>
  What best fit hands out can be given back: releasing a block just allocated, while a
  free block lies above it, restores the set of free pages and the counter.
\<close>

lemma best_fit_free_restores:
  assumes "best_fit_ok s" and "best_fit_alloc_pages n s = Some (Some p, s1)"
    and "best_fit_may_free p n s1"
  shows "\<exists>s2. best_fit_free_pages p n s1 = Some s2 \<and> best_fit_ok s2 \<and>
    free_pages_of s2 = free_pages_of s \<and> best_fit_nr_free_pages s2 = best_fit_nr_free_pages s"
  using assms by (rule bpmm.release_restores)

end
