(* ===== verification/PageMgr.thy ===== *)
theory PageMgr
  imports PageOps BestFit
begin

text \<open>
  The first-fit and the best-fit manager satisfy the interface of the page table
  operations; the properties of the page tables of \<^verbatim>\<open>kern/mm/pmm.c\<close>, over the
  first-fit manager that the kernel uses.
\<close>

unbundle bit_operations_syntax

subsection \<open>The managers' effect on the descriptors\<close>

abbreviation not_reserved :: "nat \<Rightarrow> pmm \<Rightarrow> bool" where
  "not_reserved p ph \<equiv> \<not> PageReserved (pages ph p)"

lemma upd_keeps_default:
  assumes "\<And>q. flags (g q) = flags q \<and> property (g q) = property q"
  shows "pmm_ok (upd_page p g ph) = pmm_ok ph" "free_pages_of (upd_page p g ph) = free_pages_of ph"
    "may_free b n (upd_page p g ph) = may_free b n ph" "not_reserved b (upd_page p g ph) = not_reserved b ph"
    "nr_free (upd_page p g ph) = nr_free ph"
proof -
  have fl: "flags (pages (upd_page p g ph) q) = flags (pages ph q)"
    "property (pages (upd_page p g ph) q) = property (pages ph q)" for q
    using assms by (simp_all add: upd_page_def)
  have pr: "PageReserved (pages (upd_page p g ph) q) = PageReserved (pages ph q)"
    "PageProperty (pages (upd_page p g ph) q) = PageProperty (pages ph q)" for q
    by (simp_all add: PageReserved_def PageProperty_def fl)
  have rest: "links (upd_page p g ph) = links ph" "nr_free (upd_page p g ph) = nr_free ph"
    by (simp_all add: upd_page_def)
  show fs: "free_pages_of (upd_page p g ph) = free_pages_of ph" by (simp add: free_pages_of_def pr fl)
  have g: "gap (upd_page p g ph) = gap ph" by (simp add: gap_def fl fun_eq_iff)
  show "pmm_ok (upd_page p g ph) = pmm_ok ph"
    by (simp add: pmm_ok_def pmm_inv_def pmm_base_def free_set_def fl pr rest g)
  show "may_free b n (upd_page p g ph) = may_free b n ph" by (simp add: may_free_def pr fs rest)
  show "not_reserved b (upd_page p g ph) = not_reserved b ph" by (simp add: pr)
  show "nr_free (upd_page p g ph) = nr_free ph" by (rule rest)
qed

lemma take_block_descr:
  "ref (pages (take_block pa n s) q) = ref (pages s q)"
  "PageReserved (pages (take_block pa n s) q) = PageReserved (pages s q)"
  by (auto simp: take_block_def Let_def upd_page_def SetPageProperty_def ClearPageProperty_def
      PageReserved_def PG_reserved_def PG_property_def bit_simps)

lemma default_alloc_descr:
  assumes "default_alloc_pages n s = Some (r, s')"
  shows "ref (pages s' q) = ref (pages s q)" "PageReserved (pages s' q) = PageReserved (pages s q)"
  using assms by (auto simp: default_alloc_pages_def take_block_descr split: if_splits option.splits bind_splits)

lemma best_fit_alloc_descr:
  assumes "best_fit_alloc_pages n s = Some (r, s')"
  shows "ref (pages s' q) = ref (pages s q)" "PageReserved (pages s' q) = PageReserved (pages s q)"
  using assms by (auto simp: best_fit_alloc_pages_def take_block_descr split: if_splits option.splits bind_splits)

lemma free_reset_descr:
  "free_reset_pages k p pg = Some pg' \<Longrightarrow>
   ref (pg' q) = (if q \<in> {p..<p + k} then 0 else ref (pg q)) \<and>
   (PageReserved (pg' q) \<longrightarrow> PageReserved (pg q))"
proof (induction k arbitrary: p pg)
  case (Suc k)
  let ?pg = "pg(p := (pg p)\<lparr>flags := 0, ref := 0\<rparr>)"
  have "free_reset_pages k (Suc p) ?pg = Some pg'" using Suc.prems by (simp split: if_splits)
  from Suc.IH[OF this] show ?case by (auto simp: PageReserved_def split: if_splits)
qed simp

lemma join_blocks_descr:
  "ref (pages (join_blocks a b s) q) = ref (pages s q)"
  "PageReserved (pages (join_blocks a b s) q) = PageReserved (pages s q)"
  by (auto simp: join_blocks_def Let_def upd_page_def ClearPageProperty_def
      PageReserved_def PG_reserved_def PG_property_def bit_simps)

lemma default_free_descr:
  assumes "default_free_pages b n s = Some s'"
  shows "ref (pages s' q) = (if q \<in> {b..<b + n} then 0 else ref (pages s q))"
    "PageReserved (pages s' q) \<Longrightarrow> PageReserved (pages s q)"
proof -
  obtain pg h b2 s2 where pg: "free_reset_pages n b (pages s) = Some pg"
    and mp: "merge_prev b (s\<lparr>pages := pg(b := SetPageProperty ((pg b)\<lparr>property := u32 n\<rparr>)),
        nr_free := u32 (nr_free s + n), links := h\<rparr>) = (b2, s2)"
    and s': "s' = merge_next b2 s2"
    using assms by (auto simp: default_free_pages_def upd_page_def split: if_splits bind_splits prod.splits)
  have "ref (pages s2 q) = ref (pg q) \<and> PageReserved (pages s2 q) = PageReserved (pg q)"
    using mp by (auto simp: merge_prev_def join_blocks_descr split: link.splits if_splits)
  then have "ref (pages s' q) = ref (pg q) \<and> (PageReserved (pages s' q) \<longrightarrow> PageReserved (pg q))"
    unfolding s' by (auto simp: merge_next_def join_blocks_descr split: link.splits)
  then show "ref (pages s' q) = (if q \<in> {b..<b + n} then 0 else ref (pages s q))"
    "PageReserved (pages s' q) \<Longrightarrow> PageReserved (pages s q)"
    using free_reset_descr[OF pg, of q] by auto
qed

lemma default_below_free:
  assumes "pmm_ok ph" "not_reserved p ph" "p \<notin> free_pages_of ph"
    "free_pages_of ph = {} \<or> (\<exists>z\<in>free_pages_of ph. p < z)" "card (free_pages_of ph) + 2 < 2 ^ 32"
  shows "may_free p 1 ph"
proof -
  obtain bs where bs: "pmm_inv ph bs" using assms(1) by (auto simp: pmm_ok_def)
  then have pos: "\<And>b. PageProperty (pages ph b) \<Longrightarrow> 0 < property (pages ph b)"
    by (auto simp: pmm_inv_def pmm_base_def)
  have "nr_free ph = card (free_pages_of ph)" by (rule nr_free_card[OF assms(1)])
  moreover have "(\<forall>b. \<not> PageProperty (pages ph b)) \<or> (\<exists>b. PageProperty (pages ph b) \<and> p < b)"
    using assms(4)
  proof
    assume "free_pages_of ph = {}"
    then show ?thesis using pos by (fastforce simp: free_pages_of_def)
  next
    assume "\<exists>z\<in>free_pages_of ph. p < z"
    then obtain z b where "PageProperty (pages ph b)" "b \<le> z" "z < b + property (pages ph b)" "p < z"
      by (auto simp: free_pages_of_def)
    moreover have "p \<notin> {b..<b + property (pages ph b)}" using assms(3) calculation(1) unfolding free_pages_of_def by blast
    then have "p < b" using calculation(3,4) by (auto simp: not_less)
    ultimately show ?thesis by blast
  qed
  ultimately show ?thesis using assms by (auto simp: may_free_def)
qed

lemma free_not_reserved: "pmm_ok ph \<Longrightarrow> p \<in> free_pages_of ph \<Longrightarrow> not_reserved p ph"
  by (auto simp: pmm_ok_def free_pages_of_inv) (auto simp: pmm_inv_def pmm_base_def)

lemma default_manager_fields:
  "mgr_alloc default_pmm_manager = default_alloc_pages" "mgr_free default_pmm_manager = default_free_pages"
  "mgr_nr_free default_pmm_manager = default_nr_free_pages"
  by (simp_all add: default_pmm_manager_def)

interpretation dvm: page_refs pmm_ok free_pages_of default_pmm_manager may_free not_reserved
  unfolding page_refs_def default_manager_fields
proof (intro conjI, unfold_locales, goal_cases)
  case (1 g p ph b n)
  then show ?case using upd_keeps_default[of g] by blast
next
  case (2 ph n r ph' q)
  then show ?case using default_alloc_descr(2)[of n ph r ph' q] by (auto simp: default_manager_fields)
next
  case (3 b n ph ph' q)
  then show ?case using default_free_descr(2)[of b n ph ph' q] by (auto simp: default_manager_fields)
next
  case (4 ph p)
  then show ?case by (rule free_not_reserved)
next
  case (5 ph p)
  then show ?case by (rule default_below_free)
next
  case (6 ph n r ph' q)
  then show ?case using default_alloc_descr(1)[of n ph r ph' q] by (auto simp: default_manager_fields)
next
  case (7 b n ph ph' q)
  then show ?case using default_free_descr(1)[of b n ph ph' q] by (simp add: default_manager_fields)
qed


definition best_fit_pmm_manager :: pmm_ops where
  "best_fit_pmm_manager = \<lparr>mgr_init = best_fit_init, mgr_init_memmap = best_fit_init_memmap,
     mgr_alloc = best_fit_alloc_pages, mgr_free = best_fit_free_pages,
     mgr_nr_free = best_fit_nr_free_pages\<rparr>"

lemma best_fit_manager_fields:
  "mgr_alloc best_fit_pmm_manager = best_fit_alloc_pages" "mgr_free best_fit_pmm_manager = best_fit_free_pages"
  "mgr_nr_free best_fit_pmm_manager = best_fit_nr_free_pages"
  by (simp_all add: best_fit_pmm_manager_def)

interpretation bvm: page_refs best_fit_ok free_pages_of best_fit_pmm_manager best_fit_may_free not_reserved
  unfolding page_refs_def best_fit_manager_fields
proof (intro conjI, unfold_locales, goal_cases)
  case (1 g p ph b n)
  then show ?case using upd_keeps_default[of g] unfolding best_fit_ok_def best_fit_may_free_def by metis
next
  case (2 ph n r ph' q)
  then show ?case using best_fit_alloc_descr(2)[of n ph r ph' q] by (auto simp: best_fit_manager_fields)
next
  case (3 b n ph ph' q)
  then show ?case using default_free_descr(2)[of b n ph ph' q] by (auto simp: best_fit_manager_fields best_fit_free_eq)
next
  case (4 ph p)
  then show ?case using free_not_reserved by (auto simp: best_fit_ok_def)
next
  case (5 ph p)
  then have ok: "pmm_ok ph" by (simp add: best_fit_ok_def)
  then show ?case using default_below_free[OF ok 5(2-5)] nr_free_card[OF ok] 5(5) by (simp add: best_fit_may_free_def)
next
  case (6 ph n r ph' q)
  then show ?case using best_fit_alloc_descr(1)[of n ph r ph' q] by (auto simp: best_fit_manager_fields)
next
  case (7 b n ph ph' q)
  then show ?case using default_free_descr(1)[of b n ph ph' q] by (simp add: best_fit_manager_fields best_fit_free_eq)
qed

subsection \<open>A concrete address space\<close>

text \<open>
  Pages 4 to 9 are free. Page 0 is a directory, 1 and 2 are its tables, and
  page 3 is mapped at \<^verbatim>\<open>UTEXT\<close>.
\<close>

definition UTEXT :: nat where "UTEXT = 0x00800000"

definition demo_pmm :: pmm where
  "demo_pmm = \<lparr>pages = (\<lambda>p. \<lparr>ref = (if p \<in> {1, 2, 3} then 1 else 0), flags = (if p = 4 then 2 else 0),
       property = (if p = 4 then 6 else 0), pra_vaddr = 0\<rparr>),
     links = list_add (list_init \<lparr>prev_of = id, next_of = id\<rparr> Head) Head (Pg 4), nr_free = 6\<rparr>"

definition demo_vm :: vm where
  "demo_vm = \<lparr>phys = demo_pmm, frames = (\<lambda>f i.
       if f = page2ppn 0 \<and> i = 0 then pte_create (page2ppn 1) 0x11
       else if f = page2ppn 1 \<and> i = 4 then pte_create (page2ppn 2) 0x11
       else if f = page2ppn 2 \<and> i = 0 then pte_create (page2ppn 3) 0x17 else 0), npage = nbase + 10\<rparr>"

lemma demo_pmm_inv: "pmm_inv demo_pmm [4]" "free_pages_of demo_pmm = {4..<10}" 
proof -
  have pp: "PageProperty (pages demo_pmm p) \<longleftrightarrow> p = 4" for p
    by (auto simp: demo_pmm_def PageProperty_def PG_property_def bit_2_iff)
  have pr: "\<not> PageReserved (pages demo_pmm p)" for p
    by (auto simp: demo_pmm_def PageReserved_def PG_reserved_def bit_2_iff)
  have "dlist (links demo_pmm) Head ([] @ Pg 4 # [])"
    unfolding demo_pmm_def list_add_def by (simp, intro dlist_add_after[where xs = "[]" and ys = "[]", simplified]) (auto simp: dlist_init)
  moreover have "property (pages demo_pmm 4) = 6" "nr_free demo_pmm = 6" by (simp_all add: demo_pmm_def)
  ultimately show inv: "pmm_inv demo_pmm [4]" using pp pr
    by (auto simp: pmm_inv_def pmm_base_def)
  show "free_pages_of demo_pmm = {4..<10}"
    using pp by (auto simp: free_pages_of_def) (auto simp: demo_pmm_def)
qed


lemma demo_child:
  "child demo_vm f i = (if f = page2ppn 0 \<and> i = 0 then Some (page2ppn 1)
     else if f = page2ppn 1 \<and> i = 4 then Some (page2ppn 2)
     else if f = page2ppn 2 \<and> i = 0 then Some (page2ppn 3) else None)"
proof -
  have "pte_ppn (pte_create (page2ppn k) t) = page2ppn k" if "k < 10" "take_bit 10 t = t" for k and t :: "32 word"
    using that unfolding pte_ppn_def by (intro PPN_create) (auto simp: page2ppn_def nbase_def PGSIZE_def)
  then show ?thesis by (auto simp: child_def demo_vm_def)
qed

lemma demo_walk:
  "walk demo_vm (page2ppn 0) is = Some f \<longleftrightarrow>
   (is, f) \<in> {([], page2ppn 0), ([0], page2ppn 1), ([0, 4], page2ppn 2), ([0, 4, 0], page2ppn 3)}"
proof -
  have a: "walk demo_vm (page2ppn 3) js = Some f \<longleftrightarrow> js = [] \<and> f = page2ppn 3" for js
    by (cases js) (auto simp: demo_child)
  have b: "walk demo_vm (page2ppn 2) js = Some f \<longleftrightarrow> (js, f) \<in> {([], page2ppn 2), ([0], page2ppn 3)}" for js
    by (cases js) (auto simp: demo_child a)
  have c: "walk demo_vm (page2ppn 1) js = Some f \<longleftrightarrow> (js, f) \<in> {([], page2ppn 1), ([4], page2ppn 2), ([4, 0], page2ppn 3)}" for js
    by (cases js) (auto simp: demo_child b)
  show ?thesis by (cases "is") (auto simp: demo_child c[unfolded One_nat_def])
qed

lemma demo_ok: "as_ok {4..<10} {page2ppn 0} demo_vm"
proof (rule as_okI)
  have sz: "npage demo_vm = nbase + 10" by (simp add: demo_vm_def)
  show "npage demo_vm \<le> 2 ^ 52" by (simp add: sz nbase_def PGSIZE_def)
  have rf: "page_ref demo_vm p = (if p \<in> {1, 2, 3} then 1 else 0)" for p
    by (simp add: page_ref_def demo_vm_def demo_pmm_def)
  show "page2ppn p < npage demo_vm \<and> page_ref demo_vm p = 0" if "p \<in> {4..<10}" for p
    using that unfolding rf sz by (auto simp: page2ppn_def)
  fix p
  have "maps_of demo_vm {page2ppn 0} p \<subseteq> (if p = 3 then {(page2ppn 0, [0, 4, 0])} else {})"
    by (auto simp: maps_of_def upages_def demo_walk)
  then have "card (maps_of demo_vm {page2ppn 0} p) \<le> card (if p = 3 then {(page2ppn 0, [0, 4, 0 :: nat])} else {})"
    by (intro card_mono) auto
  then show "int (card (maps_of demo_vm {page2ppn 0} p)) \<le> page_ref demo_vm p" unfolding rf by (auto split: if_splits)
next
  fix r "is" f assume "r \<in> {page2ppn 0}" "walk demo_vm r is = Some f"
  then show "page_used {4..<10} demo_vm f" by (auto simp: demo_walk) (auto simp: demo_vm_def page2ppn_def)
qed (auto simp: demo_walk)

subsection \<open>Address spaces over the first-fit manager\<close>

definition vm_ok :: "nat set \<Rightarrow> 'b vm_scheme \<Rightarrow> bool" where
  "vm_ok R s \<longleftrightarrow> pmm_ok (phys s) \<and> as_ok (free_pages_of (phys s)) R s"

text \<open>The valid entry for an address, and the page mapped there.\<close>

definition mapping :: "'b vm_scheme \<Rightarrow> nat \<Rightarrow> nat \<Rightarrow> 64 word option" where
  "mapping s r la = leaf s r (idx la)"

definition maps_page :: "'b vm_scheme \<Rightarrow> nat \<Rightarrow> nat \<Rightarrow> nat \<Rightarrow> bool" where
  "maps_page s r la x \<longleftrightarrow> walk s r (idx la) = Some (page2ppn x)"

definition is_table :: "nat set \<Rightarrow> 'b vm_scheme \<Rightarrow> nat \<Rightarrow> bool" where
  "is_table R s p \<longleftrightarrow> (\<exists>r\<in>R. \<exists>is. upath is \<and> length is < 3 \<and> walk s r is = Some (page2ppn p))"

lemma demo_vm_ok: "vm_ok {page2ppn 0} demo_vm" "free_pages_of (phys demo_vm) = {4..<10}"
  "npage demo_vm = nbase + 10"
  using demo_ok demo_pmm_inv by (auto simp: vm_ok_def pmm_ok_def demo_vm_def)

text \<open>
  C5. Mapping a page that is in use and not a table at a user address returns. On
  success exactly that address, in exactly that address space, maps the page with the
  requested permissions, and every other mapping of every address space is as before;
  the page has one reference more, the page mapped before has one less and is released
  with its last one, which has to be a page that may be released: it is not reserved and
  lies below a free page (or no page is free). The only failure is -E_NO_MEM, exactly when there
  are fewer free pages than tables missing on the way, and then no mapping and no reference
  count has changed. The invariant is kept: no page in use is free and no two address
  spaces share a table.
\<close>

theorem page_insert_correct:
  assumes "vm_ok R s" "r \<in> R" "la < USERTOP"
    and "page2ppn p < npage s" "p \<notin> free_pages_of (phys s)" "\<not> is_table R s p"
    and "take_bit 10 perm = perm"
    and "\<forall>x. maps_page s r la x \<longrightarrow> x \<noteq> p \<longrightarrow> page_ref s x = 1 \<longrightarrow> may_free x 1 (phys s)"
  shows "\<exists>ret s'. page_insert default_pmm_manager r p la perm s = Some (ret, s') \<and> vm_ok R s' \<and>
    (ret \<noteq> 0 \<longleftrightarrow> card (free_pages_of (phys s)) < missing_tables s r la) \<and>
    (if ret = 0 then
       (\<forall>q\<in>R. \<forall>lb<USERTOP. mapping s' q lb =
          (if q = r \<and> idx lb = idx la then Some (pte_create (page2ppn p) (PTE_V OR perm)) else mapping s q lb)) \<and>
       (\<forall>x. maps_page s r la x \<longrightarrow> x \<noteq> p \<longrightarrow> page_ref s x = 1 \<longrightarrow> x \<in> free_pages_of (phys s')) \<and>
       (\<forall>x. x \<notin> free_pages_of (phys s) \<longrightarrow>
          page_ref s' x = page_ref s x + of_bool (x = p) - of_bool (maps_page s r la x))
     else ret = - E_NO_MEM \<and> free_pages_of (phys s') = {} \<and>
       (\<forall>q\<in>R. \<forall>lb<USERTOP. mapping s' q lb = mapping s q lb) \<and>
       (\<forall>x. x \<notin> free_pages_of (phys s) \<longrightarrow> page_ref s' x = page_ref s x))"
proof -
  have tab: "\<forall>q\<in>R. \<forall>js. upath js \<longrightarrow> length js < 3 \<longrightarrow> walk s q js \<noteq> Some (page2ppn p)"
    using assms(6) by (auto simp: is_table_def)
  have ok: "pmm_ok (phys s)" "as_ok (free_pages_of (phys s)) R s" using assms(1) by (auto simp: vm_ok_def)
  obtain ret s' where i: "page_insert default_pmm_manager r p la perm s = Some (ret, s')" "pmm_ok (phys s')"
    "as_ok (free_pages_of (phys s')) R s'"
    and res: "if ret = 0 then
       (\<forall>q\<in>R. \<forall>js\<in>upages. leaf s' q js =
          (if q = r \<and> js = idx la then Some (pte_create (page2ppn p) (PTE_V OR perm)) else leaf s q js)) \<and>
       free_pages_of (phys s') \<subseteq> free_pages_of (phys s) \<union> {x. walk s r (idx la) = Some (page2ppn x) \<and> x \<noteq> p \<and> page_ref s x = 1} \<and>
       {x. walk s r (idx la) = Some (page2ppn x) \<and> x \<noteq> p \<and> page_ref s x = 1} \<subseteq> free_pages_of (phys s') \<and>
       (\<forall>x. x \<notin> free_pages_of (phys s) \<longrightarrow>
          page_ref s' x = page_ref s x + of_bool (x = p) - of_bool (walk s r (idx la) = Some (page2ppn x)))
     else ret = - E_NO_MEM \<and> free_pages_of (phys s') = {} \<and> extends (free_pages_of (phys s)) R s s' \<and>
       (\<forall>x. not_reserved x (phys s) \<longrightarrow> not_reserved x (phys s'))"
    using dvm.page_insert_spec[OF ok assms(2-5) tab assms(7)] assms(8) unfolding maps_page_def by blast
  have "vm_ok R s'" using i(2,3) by (simp add: vm_ok_def)
  moreover note dvm.page_insert_count(1)[OF ok assms(2,3) i(1)]
  moreover have "extends (free_pages_of (phys s)) R s s'" if "ret \<noteq> 0" using res that by simp
  note ex = extendsD[OF this]
  ultimately show ?thesis using i(1) res ex(3,6) idx_upages
    by - (rule exI[of _ ret], rule exI[of _ s'],
      cases "ret = 0"; simp add: mapping_def maps_page_def; blast)
qed


lemma demo_maps: "maps_page demo_vm (page2ppn 0) la x \<Longrightarrow> x = 3"
  unfolding maps_page_def demo_walk by (auto simp: idx_def)

theorem page_insert_correct_witness:
  "\<exists>ret s'. page_insert default_pmm_manager (page2ppn 0) 3 (UTEXT + PGSIZE) PTE_USER demo_vm = Some (ret, s') \<and>
     vm_ok {page2ppn 0} s'"
proof -
  have t: "\<not> is_table {page2ppn 0} demo_vm 3" by (auto simp: is_table_def demo_walk)
  have u: "UTEXT + PGSIZE < USERTOP" "take_bit 10 PTE_USER = PTE_USER"
    by (simp_all add: UTEXT_def PGSIZE_def USERTOP_def PTE_USER_def PTE_R_def PTE_W_def PTE_X_def PTE_U_def PTE_V_def)
  have n: "\<forall>x. maps_page demo_vm (page2ppn 0) (UTEXT + PGSIZE) x \<longrightarrow> x \<noteq> 3 \<longrightarrow> page_ref demo_vm x = 1 \<longrightarrow>
      may_free x 1 (phys demo_vm)"
    using demo_maps by blast
  have p: "page2ppn 3 < npage demo_vm" "3 \<notin> free_pages_of (phys demo_vm)"
    by (simp_all add: demo_vm_ok page2ppn_def)
  show ?thesis
    using page_insert_correct[OF demo_vm_ok(1) _ u(1) p t u(2) n] by auto
qed



text \<open>
  C7. Allocating a page for an unmapped user address needs that page and one for each table on
  the way that is missing. With so many free pages it maps a page that was free, with one
  reference, at exactly that address, and just these pages are not free any more. With
  fewer it returns no page: every mapping and every reference count is as before, and when
  there was a free page at all, one is given back and free (the others hold the tables made so far).
  Neither the assertion on the reference count nor any other panic can be reached, and the
  invariant is kept.
\<close>

theorem pgdir_alloc_page_correct:
  assumes "vm_ok R s" "r \<in> R" "la < USERTOP" "take_bit 10 perm = perm" "mapping s r la = None"
  shows "\<exists>pg s'. pgdir_alloc_page default_pmm_manager r la perm s = Some (pg, s') \<and> vm_ok R s' \<and>
    (pg = None \<longleftrightarrow> card (free_pages_of (phys s)) \<le> missing_tables s r la) \<and>
    (case pg of
       None \<Rightarrow> (\<forall>q\<in>R. \<forall>lb<USERTOP. mapping s' q lb = mapping s q lb) \<and>
         (\<forall>x. x \<notin> free_pages_of (phys s) \<longrightarrow> page_ref s' x = page_ref s x) \<and>
         (if free_pages_of (phys s) = {} then s' = s else \<exists>p\<in>free_pages_of (phys s). free_pages_of (phys s') = {p})
     | Some p \<Rightarrow> p \<in> free_pages_of (phys s) \<and> p \<notin> free_pages_of (phys s') \<and> page_ref s' p = 1 \<and>
        card (free_pages_of (phys s')) + missing_tables s r la + 1 = card (free_pages_of (phys s)) \<and>
        (\<forall>q\<in>R. \<forall>lb<USERTOP. mapping s' q lb =
          (if q = r \<and> idx lb = idx la then Some (pte_create (page2ppn p) (PTE_V OR perm)) else mapping s q lb)))"
proof -
  have ok: "pmm_ok (phys s)" "as_ok (free_pages_of (phys s)) R s" using assms(1) by (auto simp: vm_ok_def)
  obtain pg s' where p: "pgdir_alloc_page default_pmm_manager r la perm s = Some (pg, s')" "pmm_ok (phys s')"
    "as_ok (free_pages_of (phys s')) R s'"
    and res: "case pg of
       None \<Rightarrow> card (free_pages_of (phys s)) \<le> missing_tables s r la \<and> (\<forall>q\<in>R. \<forall>js\<in>upages. leaf s' q js = leaf s q js) \<and>
         (\<forall>x. x \<notin> free_pages_of (phys s) \<longrightarrow> page_ref s' x = page_ref s x) \<and>
         (if free_pages_of (phys s) = {} then s' = s else \<exists>p\<in>free_pages_of (phys s). free_pages_of (phys s') = {p})
     | Some p \<Rightarrow> card (free_pages_of (phys s')) + missing_tables s r la + 1 = card (free_pages_of (phys s)) \<and>
        p \<in> free_pages_of (phys s) \<and> p \<notin> free_pages_of (phys s') \<and> page_ref s' p = 1 \<and>
        (\<forall>q\<in>R. \<forall>js\<in>upages. leaf s' q js =
          (if q = r \<and> js = idx la then Some (pte_create (page2ppn p) (PTE_V OR perm)) else leaf s q js))"
    using dvm.pgdir_alloc_page_spec[OF ok assms(2-4) assms(5)[unfolded mapping_def]] by blast
  show ?thesis using p res idx_upages
    by - (rule exI[of _ pg], rule exI[of _ s'], cases pg; simp add: vm_ok_def mapping_def)
qed

theorem pgdir_alloc_page_correct_witness:
  "\<exists>p s'. pgdir_alloc_page default_pmm_manager (page2ppn 0) (UTEXT + PGSIZE) PTE_USER demo_vm = Some (Some p, s') \<and>
     vm_ok {page2ppn 0} s' \<and> p \<in> {4..<10} \<and> card (free_pages_of (phys s')) = 5"
proof -
  have u: "UTEXT + PGSIZE < USERTOP" "take_bit 10 PTE_USER = PTE_USER"
    by (simp_all add: UTEXT_def PGSIZE_def USERTOP_def PTE_USER_def PTE_R_def PTE_W_def PTE_X_def PTE_U_def PTE_V_def)
  have i: "idx (UTEXT + PGSIZE) = [0, 4, 1]" "PDX1 (UTEXT + PGSIZE) = 0" "PDX0 (UTEXT + PGSIZE) = 4"
    by (simp_all add: idx_def PDX1_def PDX0_def PTX_def UTEXT_def PGSIZE_def)
  have "walk demo_vm (page2ppn 0) [0, 4, 1] = None" using demo_walk[of "[0, 4, 1]"] by (cases "walk demo_vm (page2ppn 0) [0, 4, 1]") auto
  then have m: "mapping demo_vm (page2ppn 0) (UTEXT + PGSIZE) = None"
    unfolding mapping_def i by (simp add: walk_leaf del: walk.simps)
  have "walk demo_vm (page2ppn 0) [0] = Some (page2ppn 1)" "walk demo_vm (page2ppn 0) [0, 4] = Some (page2ppn 2)"
    unfolding demo_walk by simp_all
  then have z: "missing_tables demo_vm (page2ppn 0) (UTEXT + PGSIZE) = 0" unfolding missing_tables_def i by (simp del: walk.simps)
  show ?thesis using pgdir_alloc_page_correct[OF demo_vm_ok(1) _ u m] unfolding demo_vm_ok(2) z by (auto split: option.splits)
qed

text \<open>
  C8. A page table entry gives back what it was made of: for every page number below
  2^52 and permissions within the low ten bits the entry is valid, its address
  field is the frame's address, and its flag bits are the permissions with the valid
  bit. Neither shift loses a bit and the sign extension of the permissions changes none.
\<close>

theorem pte_create_roundtrip:
  assumes "n < 2 ^ 52" "take_bit 10 t = t"
  shows "valid (pte_create n t) \<and> PPN (PTE_ADDR (pte_create n t)) = n \<and>
    pte_create n t AND 0x3FF = ucast (t OR PTE_V)"
proof -
  have "bit (pte_create n t AND 0x3FF) k = bit (ucast (t OR PTE_V) :: 64 word) k" for k
    unfolding mask10 using scast_small[OF assms(2), of k] bit_take_bit_iff[of 10 t k] assms(2)
    by (auto simp: pte_create_def PTE_V_def bit_or_iff bit_and_iff bit_push_bit_iff bit_mask_iff bit_1_iff
        bit_unsigned_iff dest: bit_imp_le_length)
  then show ?thesis using PPN_create[OF assms] by (auto intro: bit_eqI)
qed

theorem pte_create_roundtrip_witness:
  "valid (pte_create (page2ppn 3) PTE_USER) \<and> PPN (PTE_ADDR (pte_create (page2ppn 3) PTE_USER)) = page2ppn 3 \<and>
    pte_create (page2ppn 3) PTE_USER AND 0x3FF = ucast (PTE_USER OR PTE_V)"
  by (rule pte_create_roundtrip) (simp_all add: page2ppn_def nbase_def PGSIZE_def PTE_USER_def PTE_R_def
      PTE_W_def PTE_X_def PTE_U_def PTE_V_def)


subsection \<open>Releasing a directory that is still in use\<close>

text \<open>Two empty tables, for \<^verbatim>\<open>UTEXT\<close> and for the next two megabytes.\<close>

definition two_tables_vm :: vm where
  "two_tables_vm = \<lparr>phys = demo_pmm, frames = (\<lambda>f i.
       if f = page2ppn 0 \<and> i = 0 then pte_create (page2ppn 1) 0x11
       else if f = page2ppn 1 \<and> i = 4 then pte_create (page2ppn 2) 0x11
       else if f = page2ppn 1 \<and> i = 5 then pte_create (page2ppn 3) 0x11 else 0), npage = nbase + 10\<rparr>"

lemma demo_release:
  assumes "pmm_ok (phys s)" "p < 9" "9 \<in> free_pages_of (phys s)" "p \<notin> free_pages_of (phys s)"
    "free_pages_of (phys s) \<subseteq> {0..<10}" "not_reserved p (phys s)"
  shows "\<exists>s'. free_pages default_pmm_manager p 1 s = Some s' \<and> pmm_ok (phys s') \<and>
    free_pages_of (phys s') = insert p (free_pages_of (phys s)) \<and> frames s' = frames s \<and> npage s' = npage s \<and>
    (\<forall>x. not_reserved x (phys s) \<longrightarrow> not_reserved x (phys s'))"
proof -
  have "card (free_pages_of (phys s)) \<le> 10" using card_mono[OF _ assms(5)] by simp
  then have "may_free p 1 (phys s)" using assms by (intro default_below_free) auto
  then show ?thesis using dvm.free_page_spec[OF assms(1)] by blast
qed

text \<open>
  C9. Releasing the tables of the two megabytes at UTEXT also releases the level-0
  directory, although its entry for the next two megabytes is valid and its table is in
  use: that table is neither released nor reachable any more.
\<close>

theorem exit_range_drops_table:
  "PPN (PTE_ADDR (rd two_tables_vm (page2ppn 1, PDX0 (UTEXT + PTSIZE)))) = page2ppn 3 \<and>
   valid (rd two_tables_vm (page2ppn 1, PDX0 (UTEXT + PTSIZE))) \<and>
   (\<exists>s'. exit_range default_pmm_manager (page2ppn 0) UTEXT (UTEXT + PTSIZE) two_tables_vm = Some s' \<and>
     1 \<in> free_pages_of (phys s') \<and> 3 \<notin> free_pages_of (phys s') \<and>
     walk s' (page2ppn 0) [PDX1 (UTEXT + PTSIZE)] = None)"
proof -
  have ix: "PDX1 UTEXT = 0" "PDX0 UTEXT = 4" "PDX1 (UTEXT + PTSIZE) = 0" "PDX0 (UTEXT + PTSIZE) = 5" "PDX1 0 = 0"
    "ROUNDDOWN UTEXT PDSIZE = 0" "ROUNDDOWN UTEXT PTSIZE = UTEXT" "u64 (UTEXT + PTSIZE) = UTEXT + PTSIZE"
    "u64 PDSIZE = PDSIZE" "\<not> PDSIZE < UTEXT + PTSIZE"
    by (simp_all add: UTEXT_def PTSIZE_def PGSIZE_def PDX1_def PDX0_def ROUNDDOWN_def PDSIZE_def)
  have ac: "UTEXT mod PGSIZE = 0 \<and> (UTEXT + PTSIZE) mod PGSIZE = 0" "USER_ACCESS UTEXT (UTEXT + PTSIZE)"
    by (simp_all add: UTEXT_def PGSIZE_def PTSIZE_def USER_ACCESS_def USERBASE_def USERTOP_def)
  have ppn: "PPN (PTE_ADDR (pte_create (page2ppn k) 0x11)) = page2ppn k" if "k < 10" for k
    using that by (intro PPN_create) (auto simp: page2ppn_def nbase_def PGSIZE_def)
  have pd: "pde2page s (pte_create (page2ppn k) 0x11) = Some k" "page2kva s k = Some (page2ppn k)"
    if "k < 10" "npage s = nbase + 10" for k and s :: vm
  proof -
    have "page2ppn k < 2 ^ 52" using that by (simp add: page2ppn_def nbase_def PGSIZE_def)
    then show "pde2page s (pte_create (page2ppn k) 0x11) = Some k" "page2kva s k = Some (page2ppn k)"
      using that ppn[OF that(1)] PPN_page2pa[of k]
      by (auto simp: pde2page_def pa2page_def page2kva_def KADDR_def page2ppn_def)
  qed
  let ?s = two_tables_vm
  have s0: "pmm_ok (phys ?s)" "free_pages_of (phys ?s) = {4..<10}" "npage ?s = nbase + 10"
    "\<And>x. not_reserved x (phys ?s)"
    using demo_pmm_inv by (auto simp: two_tables_vm_def pmm_ok_def)
      (simp add: demo_pmm_def PageReserved_def PG_reserved_def bit_2_iff split: if_splits)
  have e: "rd ?s (page2ppn 0, 0) = pte_create (page2ppn 1) 0x11" "rd ?s (page2ppn 1, 4) = pte_create (page2ppn 2) 0x11"
    "rd ?s (page2ppn 1, 5) = pte_create (page2ppn 3) 0x11" "\<And>i. rd ?s (page2ppn 2, i) = 0"
    by (simp_all add: two_tables_vm_def rd_def)
  obtain s1 where s1: "free_pages default_pmm_manager 2 1 ?s = Some s1" "pmm_ok (phys s1)"
    "free_pages_of (phys s1) = insert 2 {4..<10}" "frames s1 = frames ?s" "npage s1 = npage ?s"
    "\<And>x. not_reserved x (phys s1)"
    using demo_release[of ?s 2] s0 by auto
  define s2 where "s2 = wr (page2ppn 1, 4) 0 s1"
  obtain s3 where s3: "free_pages default_pmm_manager 1 1 s2 = Some s3"
    "free_pages_of (phys s3) = insert 1 (insert 2 {4..<10})"
    using demo_release[of s2 1] s1 by (auto simp: s2_def)
  have "exit_pd0_loop default_pmm_manager (page2ppn 1) 0 UTEXT (UTEXT + PTSIZE) True ?s = Some (True, s2)"
    using pd s0(3) by (subst exit_pd0_loop.simps) (simp add: Let_def ix e s1(1) list_ex_iff s2_def del: One_nat_def)
  then have "exit_range default_pmm_manager (page2ppn 0) UTEXT (UTEXT + PTSIZE) ?s =
      Some (wr (page2ppn 0, 0) 0 s3)"
    using pd s0(3) s3(1) ac
    by (simp add: exit_range_def ix del: One_nat_def) (subst exit_loop.simps, simp add: Let_def ix e del: One_nat_def)
  moreover have "walk (wr (page2ppn 0, 0) 0 s3) (page2ppn 0) [0] = None" by (simp add: child_def wr_def)
  ultimately show ?thesis using s3(2) e ppn[of 3] unfolding ix by auto
qed

end
