(* ===== verification/Kmalloc.thy ===== *)
theory Kmalloc
  imports PageMap
begin

text \<open>
  The allocator of small kernel objects (\<^verbatim>\<open>kern/mm/kmalloc.c\<close>, a list of free blocks).

  Addresses are counted in units of \<^verbatim>\<open>SLOB_UNIT\<close>, 16 bytes: the blocks, the static
  header \<^verbatim>\<open>arena\<close> and the pages that feed the heap all begin at such an address, and
  pointer arithmetic on \<^verbatim>\<open>slob_t *\<close> is addition of units. A page has 256 of them. The
  header of a block is the pair \<open>slob_units\<close>, \<open>slob_next\<close>; the fields of a
  \<^verbatim>\<open>bigblock_t\<close> are maps of their own. The functions run with interrupts off or do not
  sleep. \<^verbatim>\<open>slob_init\<close> and \<^verbatim>\<open>kmalloc_init\<close> only print.
\<close>

unbundle bit_operations_syntax

subsection \<open>State\<close>

definition SLOB_UNIT :: nat where "SLOB_UNIT = 16"

definition SLOB_UNITS :: "nat \<Rightarrow> nat" where
  "SLOB_UNITS sz = (sz + SLOB_UNIT - 1) div SLOB_UNIT"

definition ALIGN :: "64 word \<Rightarrow> 64 word \<Rightarrow> 64 word" where
  "ALIGN addr sz = (addr + sz - 1) AND NOT (sz - 1)"

text \<open>The size of a page in units, and of a \<^verbatim>\<open>bigblock_t\<close> in bytes.\<close>

abbreviation PAGE_UNITS :: nat where "PAGE_UNITS \<equiv> 256"

definition BIGBLOCK_SIZE :: nat where "BIGBLOCK_SIZE = 24"

record slob = vm +
  arena :: nat
  slob_units :: "nat \<Rightarrow> nat"
  slob_next :: "nat \<Rightarrow> nat"
  slobfree :: nat
  bb_order :: "nat \<Rightarrow> nat"
  bb_pages :: "nat \<Rightarrow> nat option"
  bb_next :: "nat \<Rightarrow> nat option"
  bigblocks :: "nat option"

definition set_units :: "nat \<Rightarrow> nat \<Rightarrow> slob \<Rightarrow> slob" where
  "set_units b u s = s\<lparr>slob_units := (slob_units s)(b := u)\<rparr>"

definition set_next :: "nat \<Rightarrow> nat \<Rightarrow> slob \<Rightarrow> slob" where
  "set_next b c s = s\<lparr>slob_next := (slob_next s)(b := c)\<rparr>"

subsection \<open>Pages\<close>

definition slob_get_free_pages :: "pmm_ops \<Rightarrow> nat \<Rightarrow> slob \<Rightarrow> (nat option \<times> slob) option" where
  "slob_get_free_pages M order s =
     do { (r, s1) \<leftarrow> alloc_pages M (2 ^ order) s;
          case r of
            None \<Rightarrow> Some (None, s1)
          | Some p \<Rightarrow> do { k \<leftarrow> page2kva s1 p; Some (Some (PAGE_UNITS * k), s1) } }"

definition kva2page :: "slob \<Rightarrow> nat \<Rightarrow> nat option" where
  "kva2page s kva = pa2page s (push_bit 12 (word_of_nat (kva div PAGE_UNITS)))"

definition slob_free_pages :: "pmm_ops \<Rightarrow> nat \<Rightarrow> nat \<Rightarrow> slob \<Rightarrow> slob option" where
  "slob_free_pages M kva order s = do { p \<leftarrow> kva2page s kva; free_pages M p (2 ^ order) s }"

subsection \<open>Giving a block back\<close>

text \<open>The search for the place of \<open>b\<close>.\<close>

partial_function (option) slob_pos :: "nat \<Rightarrow> nat \<Rightarrow> slob \<Rightarrow> nat option" where
  "slob_pos b cur s =
     (if b > cur \<and> b < slob_next s cur then Some cur
      else if cur \<ge> slob_next s cur \<and> (b > cur \<or> b < slob_next s cur) then Some cur
      else slob_pos b (slob_next s cur) s)"

definition slob_join :: "nat \<Rightarrow> nat \<Rightarrow> slob \<Rightarrow> slob" where
  "slob_join b cur s =
     (let s1 = (if b + slob_units s b = slob_next s cur
                then set_next b (slob_next s (slob_next s cur))
                       (set_units b (slob_units s b + slob_units s (slob_next s cur)) s)
                else set_next b (slob_next s cur) s);
          s2 = (if cur + slob_units s1 cur = b
                then set_next cur (slob_next s1 b) (set_units cur (slob_units s1 cur + slob_units s1 b) s1)
                else set_next cur b s1)
      in s2\<lparr>slobfree := cur\<rparr>)"

definition slob_free :: "nat option \<Rightarrow> nat \<Rightarrow> slob \<Rightarrow> slob option" where
  "slob_free block sz s =
     (case block of
        None \<Rightarrow> Some s
      | Some b \<Rightarrow>
          do { let s1 = (if sz \<noteq> 0 then set_units b (SLOB_UNITS sz) s else s);
               cur \<leftarrow> slob_pos b (slobfree s1) s1;
               Some (slob_join b cur s1) })"

subsection \<open>Taking a block\<close>

text \<open>The head of a block is split off when an aligned block is asked for.\<close>

definition slob_delta :: "nat \<Rightarrow> nat \<Rightarrow> nat" where
  "slob_delta cur align =
     (if align \<noteq> 0 then unat (ALIGN (word_of_nat (SLOB_UNIT * cur)) (word_of_nat align)) div SLOB_UNIT - cur else 0)"

definition slob_cut_head :: "nat \<Rightarrow> nat \<Rightarrow> slob \<Rightarrow> slob" where
  "slob_cut_head cur delta s =
     (let aligned = cur + delta;
          s1 = set_units aligned (slob_units s cur - delta) s;
          s2 = set_next aligned (slob_next s1 cur) s1;
          s3 = set_next cur aligned s2
      in set_units cur delta s3)"

definition slob_take :: "nat \<Rightarrow> nat \<Rightarrow> nat \<Rightarrow> slob \<Rightarrow> slob" where
  "slob_take prv cur units s =
     (let s1 = (if slob_units s cur = units then set_next prv (slob_next s cur) s
                else let s1 = set_next prv (cur + units) s;
                         s2 = set_units (slob_next s1 prv) (slob_units s1 cur - units) s1;
                         s3 = set_next (slob_next s2 prv) (slob_next s2 cur) s2
                     in set_units cur units s3)
      in s1\<lparr>slobfree := prv\<rparr>)"

partial_function (option) slob_alloc_loop ::
  "pmm_ops \<Rightarrow> nat \<Rightarrow> nat \<Rightarrow> nat \<Rightarrow> nat \<Rightarrow> nat \<Rightarrow> slob \<Rightarrow> (nat option \<times> slob) option" where
  "slob_alloc_loop M sz align units prv cur s =
     (let delta = slob_delta cur align in
      if units + delta \<le> slob_units s cur then
        (if delta \<noteq> 0
         then Some (Some (cur + delta), slob_take cur (cur + delta) units (slob_cut_head cur delta s))
         else Some (Some cur, slob_take prv cur units s))
      else if cur = slobfree s then
        (if sz = PGSIZE then Some (None, s)
         else do { (r, s1) \<leftarrow> slob_get_free_pages M 0 s;
                   case r of
                     None \<Rightarrow> Some (None, s1)
                   | Some c \<Rightarrow>
                       do { s2 \<leftarrow> slob_free (Some c) PGSIZE s1;
                            slob_alloc_loop M sz align units (slobfree s2) (slob_next s2 (slobfree s2)) s2 } })
      else slob_alloc_loop M sz align units cur (slob_next s cur) s)"

definition slob_alloc :: "pmm_ops \<Rightarrow> nat \<Rightarrow> nat \<Rightarrow> slob \<Rightarrow> (nat option \<times> slob) option" where
  "slob_alloc M sz align s =
     do { kassert (u64 (sz + SLOB_UNIT) < PGSIZE);
          slob_alloc_loop M sz align (SLOB_UNITS sz) (slobfree s) (slob_next s (slobfree s)) s }"

subsection \<open>Objects of any size\<close>

text \<open>The conversion of a \<^verbatim>\<open>size_t\<close> to \<^verbatim>\<open>int\<close>.\<close>

definition to_int :: "nat \<Rightarrow> int" where
  "to_int n = (if u32 n < 2 ^ 31 then int (u32 n) else int (u32 n) - 2 ^ 32)"

function find_order_loop :: "int \<Rightarrow> nat \<Rightarrow> nat" where
  "find_order_loop sz order = (if sz > 4096 then find_order_loop (sz div 2) (order + 1) else order)"
  by pat_completeness auto
termination
  by (relation "measure (\<lambda>(sz, order). nat sz)") auto

declare find_order_loop.simps [simp del]

definition find_order :: "int \<Rightarrow> nat" where
  "find_order sz = find_order_loop sz 0"

definition kmalloc :: "pmm_ops \<Rightarrow> nat \<Rightarrow> slob \<Rightarrow> (nat option \<times> slob) option" where
  "kmalloc M sz s =
     (if sz < PGSIZE - SLOB_UNIT then
        do { (m, s1) \<leftarrow> slob_alloc M (sz + SLOB_UNIT) 0 s;
             Some (map_option (\<lambda>m. m + 1) m, s1) }
      else
        do { (bb, s1) \<leftarrow> slob_alloc M BIGBLOCK_SIZE 0 s;
             case bb of
               None \<Rightarrow> Some (None, s1)
             | Some b \<Rightarrow>
                 do { let order = find_order (to_int sz);
                      (pg, s2) \<leftarrow> slob_get_free_pages M order (s1\<lparr>bb_order := (bb_order s1)(b := order)\<rparr>);
                      let s3 = s2\<lparr>bb_pages := (bb_pages s2)(b := pg)\<rparr>;
                      case pg of
                        Some k \<Rightarrow> Some (Some k, s3\<lparr>bb_next := (bb_next s3)(b := bigblocks s3), bigblocks := Some b\<rparr>)
                      | None \<Rightarrow> do { s4 \<leftarrow> slob_free (Some b) BIGBLOCK_SIZE s3; Some (None, s4) } } })"

text \<open>The search of \<^verbatim>\<open>kfree\<close> in the list of big blocks; \<open>lst\<close> is the entry before, if any.\<close>

partial_function (option) bb_find :: "nat \<Rightarrow> nat option \<Rightarrow> nat option \<Rightarrow> slob \<Rightarrow> (nat option \<times> nat) option option" where
  "bb_find block lst bb s =
     (case bb of
        None \<Rightarrow> Some None
      | Some b \<Rightarrow> if bb_pages s b = Some block then Some (Some (lst, b)) else bb_find block (Some b) (bb_next s b) s)"

definition bb_unlink :: "nat option \<Rightarrow> nat \<Rightarrow> slob \<Rightarrow> slob" where
  "bb_unlink lst b s =
     (case lst of
        None \<Rightarrow> s\<lparr>bigblocks := bb_next s b\<rparr>
      | Some l \<Rightarrow> s\<lparr>bb_next := (bb_next s)(l := bb_next s b)\<rparr>)"

definition kfree :: "pmm_ops \<Rightarrow> nat option \<Rightarrow> slob \<Rightarrow> slob option" where
  "kfree M block s =
     (case block of
        None \<Rightarrow> Some s
      | Some k \<Rightarrow>
          do { r \<leftarrow> (if k mod PAGE_UNITS = 0 then bb_find k None (bigblocks s) s else Some None);
               case r of
                 Some (lst, b) \<Rightarrow>
                   do { s1 \<leftarrow> slob_free_pages M k (bb_order s b) (bb_unlink lst b s);
                        slob_free (Some b) BIGBLOCK_SIZE s1 }
               | None \<Rightarrow> slob_free (Some (k - 1)) 0 s })"

definition ksize :: "nat option \<Rightarrow> slob \<Rightarrow> nat option" where
  "ksize block s =
     (case block of
        None \<Rightarrow> Some 0
      | Some k \<Rightarrow>
          do { r \<leftarrow> (if k mod PAGE_UNITS = 0 then bb_find k None (bigblocks s) s else Some None);
               case r of
                 Some (lst, b) \<Rightarrow> Some (u32 (PGSIZE * 2 ^ bb_order s b))
               | None \<Rightarrow> Some (u32 (slob_units s (k - 1) * SLOB_UNIT)) })"

end
