(* ===== verification/KmallocSpec.thy ===== *)
theory KmallocSpec
  imports Kmalloc PageMgr
begin

text \<open>
  The heap of small objects: the free blocks form a ring in the order of their
  addresses, neighbours are merged, and every block that is handed out comes from
  what was free.
\<close>

subsection \<open>Rings in address order\<close>

abbreviation follows :: "slob \<Rightarrow> nat \<Rightarrow> nat \<Rightarrow> bool" where
  "follows s x y \<equiv> slob_next s x = y"

definition apart :: "slob \<Rightarrow> nat \<Rightarrow> nat \<Rightarrow> bool" where
  "apart s x y \<longleftrightarrow> x + slob_units s x < y"

definition slob_ring :: "slob \<Rightarrow> nat list \<Rightarrow> bool" where
  "slob_ring s L \<longleftrightarrow> L \<noteq> [] \<and> successively (follows s) (L @ [hd L]) \<and> successively (apart s) L \<and>
     slobfree s \<in> set L"

definition block_units :: "slob \<Rightarrow> nat list \<Rightarrow> nat set" where
  "block_units s bs = (\<Union>b\<in>set bs. {b..<b + slob_units s b})"

lemma apart_sorted:
  assumes "successively (apart s) L"
  shows "sorted_wrt (apart s) L"
  using assms
proof (induction L)
  case (Cons b L)
  then show ?case
  proof (cases L)
    case (Cons c cs)
    have "apart s b d" if "d \<in> set cs" for d
      using Cons.IH Cons.prems that Cons by (auto simp: apart_def)
    with Cons.IH Cons.prems Cons show ?thesis by auto
  qed simp
qed simp

lemma slob_ring_sorted: "slob_ring s L \<Longrightarrow> sorted_wrt (<) L"
  using sorted_wrt_mono_rel[of L "apart s" "(<)"] apart_sorted[of s L]
  by (auto simp: slob_ring_def apart_def)

lemma slob_ring_distinct: "slob_ring s L \<Longrightarrow> distinct L"
  using slob_ring_sorted strict_sorted_iff by blast

lemma slob_ring_next:
  assumes "slob_ring s (as @ q # bs)"
  shows "slob_next s q = hd (bs @ [hd (as @ q # bs)])"
proof -
  have "successively (follows s) ((as @ [q]) @ (bs @ [hd (as @ q # bs)]))" using assms by (simp add: slob_ring_def)
  then have "follows s (last (as @ [q])) (hd (bs @ [hd (as @ q # bs)]))"
    unfolding successively_append_iff by blast
  then show ?thesis by simp
qed

lemma successively_rotate:
  assumes "successively P (xs @ f # ys @ [hd (xs @ [f])])"
  shows "successively P (f # ys @ xs @ [f])"
proof -
  let ?h = "hd (xs @ [f])"
  have "successively P ((xs @ [f]) @ (ys @ [?h]))" "successively P (xs @ ((f # ys) @ [?h]))" using assms by simp_all
  then have "successively P (xs @ [f])" "successively P ((f # ys) @ [?h])" unfolding successively_append_iff by blast+
  then have "successively P (f # ys) \<and> successively P (xs @ [f]) \<and> P (last (f # ys)) ?h"
    unfolding successively_append_iff[of P "f # ys"] by auto
  then have "successively P ((f # ys) @ (xs @ [f]))" unfolding successively_append_iff by blast
  then show ?thesis by simp
qed

lemma ring_rotate:
  assumes "slob_ring s (xs @ f # ys)"
  shows "successively (follows s) (f # ys @ xs @ [f])"
proof (rule successively_rotate)
  have "hd (xs @ f # ys) = hd (xs @ [f])" by (cases xs) auto
  then show "successively (follows s) (xs @ f # ys @ [hd (xs @ [f])])" using assms by (simp add: slob_ring_def)
qed

lemma ring_pred:
  assumes r: "slob_ring s (xs @ p # z # ys)" and q: "q \<in> set (xs @ p # z # ys)" "slob_next s q = z"
  shows "q = p"
proof -
  let ?L = "xs @ p # z # ys"
  have d: "distinct ?L" by (rule slob_ring_distinct[OF r])
  obtain as bs where L: "?L = as @ q # bs" using split_list[OF q(1)] by blast
  have nx: "z = hd (bs @ [hd ?L])" using slob_ring_next[of s as q bs] r L q(2) by simp
  show ?thesis
  proof (cases bs)
    case Nil
    then have "z = hd ?L" using nx by simp
    then show ?thesis using d by (cases xs) auto
  next
    case (Cons c cs)
    then have "(xs @ [p]) @ z # ys = (as @ [q]) @ z # cs" using L nx by simp
    moreover have "z \<notin> set (xs @ [p])" "z \<notin> set ys" using d by auto
    ultimately show ?thesis using append_Cons_eq_iff[of z "xs @ [p]" ys "as @ [q]" cs] by simp
  qed
qed

subsection \<open>Giving a block back\<close>

lemma slob_pos_walk:
  assumes "successively (follows s) (zs @ [p])"
    and "\<And>c. c \<in> set zs \<Longrightarrow> \<not> (b > c \<and> b < slob_next s c) \<and> \<not> (c \<ge> slob_next s c \<and> (b > c \<or> b < slob_next s c))"
    and "(b > p \<and> b < slob_next s p) \<or> (p \<ge> slob_next s p \<and> (b > p \<or> b < slob_next s p))"
  shows "slob_pos b (hd (zs @ [p])) s = Some p"
  using assms
proof (induction zs)
  case Nil
  then show ?case by (auto simp: slob_pos.simps[of b p])
next
  case (Cons z zs)
  have "slob_next s z = hd (zs @ [p])" using Cons.prems(1) by (auto simp: successively_Cons)
  moreover have "slob_pos b (hd (zs @ [p])) s = Some p"
    using Cons.prems by (intro Cons.IH) (auto simp: successively_Cons)
  ultimately show ?case using Cons.prems(2)[of z] by (subst slob_pos.simps) auto
qed

text \<open>The block before \<open>b\<close> in the ring is found from wherever the search starts.\<close>

lemma slob_pos_ok:
  assumes r: "slob_ring s (us @ p # vs)" and b: "p < b" "\<forall>v\<in>set vs. b < v" "hd (us @ [p]) < b"
  shows "slob_pos b (slobfree s) s = Some p"
proof -
  let ?L = "us @ p # vs"
  note srt = slob_ring_sorted[OF r]
  have nxt: "slob_next s c = hd (bs @ [hd ?L])" if "?L = as @ c # bs" for as c bs
    using slob_ring_next[of s as c bs] r that by simp
  have h: "hd ?L = hd (us @ [p])" by (cases us) auto
  have good: "(b > p \<and> b < slob_next s p) \<or> (p \<ge> slob_next s p \<and> (b > p \<or> b < slob_next s p))"
  proof (cases vs)
    case Nil
    have "hd (us @ [p]) \<le> p" using srt by (cases us) (auto simp: sorted_wrt_append)
    then show ?thesis using nxt[of us p vs] b(1) h Nil by simp
  next
    case (Cons v vs')
    then show ?thesis using nxt[of us p vs] b by simp
  qed
  have bad: "\<not> (b > c \<and> b < slob_next s c) \<and> \<not> (c \<ge> slob_next s c \<and> (b > c \<or> b < slob_next s c))"
    if c: "c \<in> set ?L" "c \<noteq> p" for c
  proof -
    obtain as bs where L: "?L = as @ c # bs" using split_list[OF c(1)] by blast
    note n = nxt[OF L]
    consider "c \<in> set us" | "c \<in> set vs" using c by auto
    then show ?thesis
    proof cases
      case 1
      then have cp: "c < p" using srt by (auto simp: sorted_wrt_append)
      have "p \<in> set bs"
      proof -
        have "p \<in> set ?L" by simp
        then show ?thesis using srt cp unfolding L by (auto simp: sorted_wrt_append)
      qed
      then obtain d ds where bs: "bs = d # ds" by (cases bs) auto
      have "d \<le> p" "c < d" using srt \<open>p \<in> set bs\<close> unfolding L bs by (auto simp: sorted_wrt_append)
      then show ?thesis using n bs b(1) by simp
    next
      case 2
      then have bc: "b < c" using b(2) by simp
      have "slob_next s c = hd ?L \<or> c < slob_next s c"
        using n srt unfolding L by (cases bs) (auto simp: sorted_wrt_append)
      then show ?thesis using bc b(3) h by auto
    qed
  qed
  obtain xs ys where f: "?L = xs @ slobfree s # ys" using r split_list[of "slobfree s" ?L] by (auto simp: slob_ring_def)
  let ?R = "slobfree s # ys @ xs"
  have rot: "successively (follows s) (?R @ [slobfree s])" using ring_rotate[of s xs "slobfree s" ys] r f by simp
  have setR: "set ?R = set ?L" unfolding f by auto
  have dR: "distinct ?R" using slob_ring_distinct[OF r] unfolding f by auto
  have "p \<in> set ?R" using setR by auto
  then obtain zs ws where R: "?R = zs @ p # ws" using split_list by metis
  have "slob_pos b (hd (zs @ [p])) s = Some p"
  proof (rule slob_pos_walk)
    have "successively (follows s) ((zs @ [p]) @ (ws @ [slobfree s]))" using rot R by simp
    then show "successively (follows s) (zs @ [p])" unfolding successively_append_iff by blast
    show "\<not> (b > c \<and> b < slob_next s c) \<and> \<not> (c \<ge> slob_next s c \<and> (b > c \<or> b < slob_next s c))" if "c \<in> set zs" for c
    proof (rule bad)
      show "c \<in> set ?L" using that R setR by (metis UnCI set_append)
      show "c \<noteq> p" using that dR R by auto
    qed
  qed (rule good)
  moreover have "hd (zs @ [p]) = slobfree s" using R by (cases zs) auto
  ultimately show ?thesis by simp
qed

lemma follows_cong:
  "(\<And>x. x \<in> set (butlast xs) \<Longrightarrow> slob_next s' x = slob_next s x) \<Longrightarrow> successively (follows s') xs = successively (follows s) xs"
  by (induction xs rule: induct_list012) auto

lemma apart_cong:
  "(\<And>x. x \<in> set (butlast xs) \<Longrightarrow> slob_units s' x = slob_units s x) \<Longrightarrow> successively (apart s') xs = successively (apart s) xs"
  by (induction xs rule: induct_list012) (auto simp: apart_def)

lemma successively_mid:
  "successively P (xs @ [p] @ zs) \<longleftrightarrow> successively P (xs @ [p]) \<and> successively P (p # zs)"
  by (induction xs rule: induct_list012) (auto simp: successively_append_iff successively_Cons)

text \<open>The ring with the part between \<open>p\<close> and \<open>vs\<close> replaced.\<close>

lemma ring_replace:
  assumes r: "slob_ring s (us @ p # vs0 @ vs)"
    and nx: "\<And>x. x \<in> set us \<union> set vs \<Longrightarrow> slob_next s' x = slob_next s x"
    and un: "\<And>x. x \<in> set us \<union> set vs \<Longrightarrow> slob_units s' x = slob_units s x"
    and mid: "successively (follows s') (p # ms @ [hd (vs @ [hd (us @ [p])])])" "successively (apart s') (p # ms @ (if vs = [] then [] else [hd vs]))"
    and f: "slobfree s' \<in> set (us @ p # ms @ vs)"
  shows "slob_ring s' (us @ p # ms @ vs)"
proof -
  let ?h = "hd (us @ [p])"
  have h: "hd (us @ p # ws) = ?h" for ws by (cases us) auto
  have d: "distinct (us @ p # vs0 @ vs)" by (rule slob_ring_distinct[OF r])
  have old: "successively (follows s) ((us @ [p]) @ (vs0 @ vs @ [?h]))" "successively (follows s) ((us @ p # vs0) @ (vs @ [?h]))"
    "successively (apart s) ((us @ [p]) @ (vs0 @ vs))" "successively (apart s) ((us @ p # vs0) @ vs)"
    using r unfolding slob_ring_def h[of "vs0 @ vs"] by simp_all
  have fl: "successively (follows s') (us @ [p])"
  proof -
    have "successively (follows s) (us @ [p])" using old(1) unfolding successively_append_iff by blast
    then show ?thesis using nx by (subst follows_cong[of _ s' s]) auto
  qed
  have fl2: "successively (follows s') (vs @ [?h])"
  proof -
    have "successively (follows s) (vs @ [?h])" using old(2) unfolding successively_append_iff by blast
    then show ?thesis using nx by (subst follows_cong[of _ s' s]) auto
  qed
  have ap: "successively (apart s') (us @ [p])"
  proof -
    have "successively (apart s) (us @ [p])" using old(3) unfolding successively_append_iff by blast
    then show ?thesis using un by (subst apart_cong[of _ s' s]) auto
  qed
  have ap2: "successively (apart s') vs"
  proof -
    have "successively (apart s) vs" using old(4) unfolding successively_append_iff by blast
    then show ?thesis using un by (subst apart_cong[of _ s' s]) (auto dest: in_set_butlastD)
  qed
  have "successively (follows s') (us @ [p] @ (ms @ vs @ [?h]))"
    unfolding successively_mid
  proof
    show "successively (follows s') (p # ms @ vs @ [?h])"
      using mid(1) fl2 successively_append_iff[of "follows s'" "p # ms" "[hd (vs @ [?h])]"]
        successively_append_iff[of "follows s'" "p # ms" "vs @ [?h]"] by auto
  qed (rule fl)
  moreover have "successively (apart s') (us @ [p] @ (ms @ vs))"
    unfolding successively_mid
  proof
    show "successively (apart s') (p # ms @ vs)"
      using mid(2) ap2 successively_append_iff[of "apart s'" "p # ms" "[hd vs]"]
        successively_append_iff[of "apart s'" "p # ms" vs] by (cases "vs = []") auto
  qed (rule ap)
  ultimately show ?thesis using f unfolding slob_ring_def h[of "ms @ vs"] by simp
qed

lemma slob_join_ok:
  assumes r: "slob_ring s (us @ p # vs)" and u: "0 < slob_units s b"
    and lo: "p + slob_units s p \<le> b" and hi: "\<forall>v\<in>set vs. b + slob_units s b \<le> v"
    and nin: "b \<notin> set (us @ p # vs)"
  defines "s' \<equiv> slob_join b p s"
  shows "\<exists>L'. slob_ring s' L' \<and> hd L' = hd (us @ [p]) \<and> block_units s' L' = block_units s (us @ p # vs) \<union> {b..<b + slob_units s b} \<and>
    (p + slob_units s p < b \<longrightarrow> slob_units s' p = slob_units s p) \<and>
    (\<forall>x. x \<noteq> p \<and> x \<noteq> b \<longrightarrow> slob_units s' x = slob_units s x) \<and> set L' \<subseteq> insert b (set (us @ p # vs))"
proof -
  let ?h = "hd (us @ [p])"
  define mr where "mr = (vs \<noteq> [] \<and> b + slob_units s b = hd vs)"
  define ml where "ml = (p + slob_units s p = b)"
  define v0 where "v0 = (if mr then [hd vs] else [])"
  define v1 where "v1 = (if mr then tl vs else vs)"
  have vs: "vs = v0 @ v1" by (cases vs) (auto simp: v0_def v1_def mr_def)
  define ub where "ub = slob_units s b + sum_list (map (slob_units s) v0)"
  define nb where "nb = hd (v1 @ [?h])"
  have h: "hd (us @ p # ws) = ?h" for ws by (cases us) auto
  note srt = slob_ring_sorted[OF r]
  have np: "slob_next s p = hd (vs @ [?h])" using slob_ring_next[OF r] h[of vs] by simp
  have hp: "?h \<le> p" using srt by (cases us) (auto simp: sorted_wrt_append)
  have mr': "b + slob_units s b = slob_next s p \<longleftrightarrow> mr"
    using np hp lo u by (cases vs) (auto simp: mr_def)
  have nv: "mr \<Longrightarrow> slob_next s (hd vs) = nb"
    using slob_ring_next[of s "us @ [p]" "hd vs" "tl vs"] r h[of vs] by (cases vs) (auto simp: nb_def v1_def mr_def)
  have pb: "p \<noteq> b" using nin by auto
  have un: "slob_units s' = (slob_units s)(b := ub, p := (if ml then slob_units s p + ub else slob_units s p))"
    using pb mr' np by (auto simp: s'_def slob_join_def Let_def set_units_def set_next_def ub_def v0_def ml_def mr_def fun_eq_iff)
  have nx: "slob_next s' = (slob_next s)(b := nb, p := (if ml then nb else b))"
    using pb mr' np nv by (auto simp: s'_def slob_join_def Let_def set_units_def set_next_def nb_def v1_def ml_def mr_def fun_eq_iff)
  have sf: "slobfree s' = p" by (simp add: s'_def slob_join_def Let_def)
  define ms where "ms = (if ml then [] else [b])"
  have rest: "b + ub < w" if "w \<in> set v1" for w
  proof (cases mr)
    case True
    then obtain v where v: "v0 = [v]" "v = hd vs" by (simp add: v0_def)
    have "vs = v # v1" using vs v by simp
    then have "apart s v w" using r apart_sorted[of s "us @ p # vs"] that by (auto simp: slob_ring_def sorted_wrt_append)
    then show ?thesis using True v by (simp add: ub_def mr_def apart_def)
  next
    case False
    then have "v1 = vs" "ub = slob_units s b" by (simp_all add: v1_def ub_def v0_def)
    moreover have "b + slob_units s b \<noteq> w"
    proof
      assume e: "b + slob_units s b = w"
      then have "w = hd vs" using hi srt that \<open>v1 = vs\<close> by (cases vs) (auto simp: sorted_wrt_append)
      then show False using False e that \<open>v1 = vs\<close> by (auto simp: mr_def)
    qed
    ultimately show ?thesis using hi that by fastforce
  qed
  have others: "x \<noteq> p \<and> x \<noteq> b" if "x \<in> set us \<union> set v1" for x
    using that nin slob_ring_distinct[OF r] vs by auto
  have ring: "slob_ring s' (us @ p # ms @ v1)"
  proof (rule ring_replace[of s us p v0 v1])
    show "slob_ring s (us @ p # v0 @ v1)" using r vs by simp
    show "successively (follows s') (p # ms @ [hd (v1 @ [?h])])" using pb by (simp add: ms_def nx nb_def)
    show "successively (apart s') (p # ms @ (if v1 = [] then [] else [hd v1]))"
      using pb rest[of "hd v1"] lo by (cases "v1 = []") (auto simp: ms_def un apart_def ml_def)
  qed (use others sf in \<open>auto simp: nx un\<close>)
  have bu: "block_units s' (us @ p # ms @ v1) = block_units s (us @ p # vs) \<union> {b..<b + slob_units s b}"
  proof -
    have rest_eq: "(\<Union>x\<in>set us \<union> set v1. {x..<x + slob_units s' x}) = (\<Union>x\<in>set us \<union> set v1. {x..<x + slob_units s x})"
      using others by (intro SUP_cong) (auto simp: un)
    have mid: "{p..<p + slob_units s' p} \<union> (\<Union>x\<in>set ms. {x..<x + slob_units s' x}) =
      {p..<p + slob_units s p} \<union> {b..<b + slob_units s b} \<union> (\<Union>x\<in>set v0. {x..<x + slob_units s x})"
    proof -
      have "{b..<b + ub} = {b..<b + slob_units s b} \<union> (\<Union>x\<in>set v0. {x..<x + slob_units s x})"
        by (auto simp: ub_def v0_def mr_def)
      moreover have "{p..<p + slob_units s' p} \<union> (\<Union>x\<in>set ms. {x..<x + slob_units s' x}) = {p..<p + slob_units s p} \<union> {b..<b + ub}"
        using pb by (auto simp: ms_def un ml_def)
      ultimately show ?thesis by (simp add: Un_assoc)
    qed
    have "block_units s' (us @ p # ms @ v1) = (\<Union>x\<in>set us \<union> set v1. {x..<x + slob_units s' x}) \<union>
        ({p..<p + slob_units s' p} \<union> (\<Union>x\<in>set ms. {x..<x + slob_units s' x}))" by (auto simp: block_units_def)
    also have "\<dots> = block_units s (us @ p # vs) \<union> {b..<b + slob_units s b}"
      unfolding rest_eq mid vs by (auto simp: block_units_def)
    finally show ?thesis .
  qed
  have "slob_units s' p = slob_units s p" if "p + slob_units s p < b" using that by (simp add: un ml_def)
  moreover have "slob_units s' x = slob_units s x" if "x \<noteq> p \<and> x \<noteq> b" for x using that by (simp add: un)
  moreover have "set (us @ p # ms @ v1) \<subseteq> insert b (set (us @ p # vs))" using vs by (auto simp: ms_def)
  ultimately show ?thesis using ring bu h[of "ms @ v1"] by (intro exI[of _ "us @ p # ms @ v1"]) simp
qed

text \<open>The heap: the ring starts at the static header, which is never merged.\<close>

definition heap_ok :: "slob \<Rightarrow> nat list \<Rightarrow> bool" where
  "heap_ok s bs \<longleftrightarrow> slob_ring s (arena s # bs) \<and> slob_units s (arena s) = 1 \<and> (\<forall>b\<in>set bs. 0 < slob_units s b)"

text \<open>Everything but the headers of the blocks.\<close>

definition heap_frame :: "slob \<Rightarrow> slob \<Rightarrow> bool" where
  "heap_frame s s' \<longleftrightarrow> phys s' = phys s \<and> frames s' = frames s \<and> npage s' = npage s \<and> arena s' = arena s \<and>
     bb_order s' = bb_order s \<and> bb_pages s' = bb_pages s \<and> bb_next s' = bb_next s \<and> bigblocks s' = bigblocks s"

lemma heap_frame_trans: "heap_frame s t \<Longrightarrow> heap_frame t u \<Longrightarrow> heap_frame s u"
  by (simp add: heap_frame_def)

lemma heap_frame_join: "heap_frame s (slob_join b c s)"
  by (simp add: heap_frame_def slob_join_def set_units_def set_next_def Let_def)

lemma heap_block_above:
  assumes "heap_ok s bs" "b \<in> set bs"
  shows "arena s + 1 < b" "b \<in> block_units s bs" "arena s \<noteq> b"
proof -
  have srt: "sorted_wrt (apart s) (arena s # bs)" using assms(1) by (intro apart_sorted) (simp add: heap_ok_def slob_ring_def)
  then show "arena s + 1 < b" using assms by (auto simp: heap_ok_def apart_def)
  then show "arena s \<noteq> b" by simp
  show "b \<in> block_units s bs" using assms by (auto simp: block_units_def heap_ok_def intro!: bexI[of _ b])
qed

lemma heap_units_cong:
  assumes "heap_ok s bs" "b \<notin> set (arena s # bs)"
  shows "heap_ok (set_units b u s) bs" "block_units (set_units b u s) bs = block_units s bs"
proof -
  have "successively (apart (set_units b u s)) (arena s # bs) = successively (apart s) (arena s # bs)"
    using assms(2) by (intro apart_cong) (auto simp: set_units_def dest: in_set_butlastD split: if_splits)
  then show "heap_ok (set_units b u s) bs" using assms
    by (auto simp: heap_ok_def slob_ring_def set_units_def)
  show "block_units (set_units b u s) bs = block_units s bs"
    unfolding block_units_def by (intro SUP_cong) (use assms(2) in \<open>auto simp: set_units_def\<close>)
qed

lemma slob_free_ok:
  assumes ok: "heap_ok s bs" and b: "arena s + 1 < b" "{b..<b + u} \<inter> block_units s bs = {}" "0 < u"
    and u: "u = (if sz \<noteq> 0 then SLOB_UNITS sz else slob_units s b)"
  shows "\<exists>s' bs'. slob_free (Some b) sz s = Some s' \<and> heap_ok s' bs' \<and> heap_frame s s' \<and>
    block_units s' bs' = block_units s bs \<union> {b..<b + u} \<and>
    (\<forall>x. x \<notin> block_units s bs \<union> {b..<b + u} \<longrightarrow> slob_units s' x = slob_units s x)"
proof -
  have bin: "b \<in> {b..<b + u}" using b(3) by simp
  have "b \<notin> block_units s bs" using b(2) bin by blast
  then have bnin: "b \<notin> set (arena s # bs)" using heap_block_above(2)[OF ok, of b] b(1) by auto
  define s1 where "s1 = (if sz \<noteq> 0 then set_units b (SLOB_UNITS sz) s else s)"
  have s1: "heap_ok s1 bs" "block_units s1 bs = block_units s bs" "slob_units s1 b = u" "arena s1 = arena s"
    "\<forall>x. x \<noteq> b \<longrightarrow> slob_units s1 x = slob_units s x"
    using heap_units_cong[OF ok bnin] ok u by (auto simp: s1_def set_units_def)
  have fr1: "heap_frame s s1" by (simp add: heap_frame_def s1_def set_units_def)
  let ?L = "arena s # bs"
  have r: "slob_ring s1 ?L" using s1(1,4) by (simp add: heap_ok_def)
  note srt = slob_ring_sorted[OF r]
  define tk where "tk = takeWhile (\<lambda>x. x < b) ?L"
  define vs where "vs = dropWhile (\<lambda>x. x < b) ?L"
  have "tk \<noteq> []" using b(1) by (simp add: tk_def)
  then obtain us p where tk: "tk = us @ [p]" by (cases tk rule: rev_cases) auto
  have L: "?L = us @ p # vs" using takeWhile_dropWhile_id[of "\<lambda>x. x < b" ?L] tk by (simp add: tk_def vs_def)
  have pb: "p < b" using tk set_takeWhileD[of p "\<lambda>x. x < b" ?L] by (auto simp: tk_def)
  have hdL: "hd (us @ [p]) = arena s" using L by (cases us) auto
  have vb: "b < v" if "v \<in> set vs" for v
  proof -
    have "vs \<noteq> []" using that by auto
    then have "\<not> hd vs < b" using hd_dropWhile[of "\<lambda>x. x < b" ?L] unfolding vs_def by blast
    moreover have "hd vs \<le> v" using srt that unfolding L by (cases vs) (auto simp: sorted_wrt_append)
    moreover have "v \<noteq> b" using bnin that L by (metis UnCI list.set_intros(2) set_append)
    ultimately show ?thesis by simp
  qed
  have lo: "p + slob_units s1 p \<le> b"
  proof (cases "p = arena s")
    case True
    then show ?thesis using b(1) s1(1,4) by (simp add: heap_ok_def)
  next
    case False
    then have "p \<in> set bs" using L by (metis in_set_conv_decomp set_ConsD)
    then have "{p..<p + slob_units s1 p} \<subseteq> block_units s bs" using s1(2) by (auto simp: block_units_def)
    then have "b \<notin> {p..<p + slob_units s1 p}" using b(2) bin by blast
    then show ?thesis using pb by simp
  qed
  have hi: "\<forall>v\<in>set vs. b + slob_units s1 b \<le> v"
  proof
    fix v assume v: "v \<in> set vs"
    have "arena s \<noteq> v" using vb[OF v] b(1) by simp
    then have "v \<in> set bs" using L v by (metis UnCI list.set_intros(2) set_ConsD set_append)
    then have "v \<notin> {b..<b + u}" using heap_block_above(2)[OF ok] b(2) by blast
    then show "b + slob_units s1 b \<le> v" using vb[OF v] s1(3) by simp
  qed
  have pos: "slob_pos b (slobfree s1) s1 = Some p"
    by (rule slob_pos_ok[of s1 us p vs]) (use r L pb vb hdL b(1) in auto)
  let ?s' = "slob_join b p s1"
  obtain L' where L': "slob_ring ?s' L'" "hd L' = arena s"
    "block_units ?s' L' = block_units s1 ?L \<union> {b..<b + u}"
    "p + slob_units s1 p < b \<longrightarrow> slob_units ?s' p = slob_units s1 p"
    "\<forall>x. x \<noteq> p \<and> x \<noteq> b \<longrightarrow> slob_units ?s' x = slob_units s1 x" "set L' \<subseteq> insert b (set ?L)"
    using slob_join_ok[of s1 us p vs b] r L b(3) lo hi bnin s1(3) hdL by auto
  then obtain bs' where bs': "L' = arena s # bs'" by (cases L') (auto simp: slob_ring_def)
  have fr: "heap_frame s ?s'" by (rule heap_frame_trans[OF fr1 heap_frame_join])
  have ar: "arena ?s' = arena s" using fr by (simp add: heap_frame_def)
  have ua: "slob_units ?s' (arena s) = 1"
  proof (cases "p = arena s")
    case True
    then show ?thesis using L'(4) b(1) s1(1,4) by (auto simp: heap_ok_def)
  next
    case False
    then show ?thesis using L'(5) b(1) s1(1,4) by (auto simp: heap_ok_def)
  qed
  have ring': "sorted_wrt (apart ?s') (arena s # bs')" using L'(1) bs' by (intro apart_sorted) (simp add: slob_ring_def)
  have split: "block_units t (arena s # xs) = {arena s} \<union> block_units t xs" if "slob_units t (arena s) = 1" for t xs
    using that by (auto simp: block_units_def)
  have a_out: "arena s \<notin> block_units ?s' bs'" "arena s \<notin> block_units s bs \<union> {b..<b + u}"
    using ring' heap_block_above(1)[OF ok] b(1) by (fastforce simp: block_units_def apart_def)+
  have "{arena s} \<union> block_units ?s' bs' = {arena s} \<union> (block_units s bs \<union> {b..<b + u})"
    using L'(3) split[of ?s' bs', OF ua] split[of s1 bs] s1 bs' by (auto simp: heap_ok_def)
  then have bu: "block_units ?s' bs' = block_units s bs \<union> {b..<b + u}"
    using insert_ident[OF a_out] by (simp add: insert_is_Un[symmetric])
  have upos: "0 < slob_units ?s' x" if "x \<in> set bs'" for x
  proof -
    have "x \<in> insert b (set bs)" using that L'(6) bs' ring' by (auto simp: apart_def)
    moreover have "0 < slob_units s1 x" if "x \<in> set bs" using s1(1) that by (simp add: heap_ok_def)
    ultimately show ?thesis
      using L'(5) s1(3) b(3) \<open>x \<in> set bs'\<close> by (cases "x = p"; cases "x = b") (auto simp: slob_join_def set_units_def set_next_def Let_def)
  qed
  have "heap_ok ?s' bs'" using L'(1) bs' ar ua upos by (simp add: heap_ok_def)
  moreover have "slob_free (Some b) sz s = Some ?s'" using pos by (simp add: slob_free_def s1_def Let_def)
  moreover have "slob_units ?s' x = slob_units s x" if x: "x \<notin> block_units s bs \<union> {b..<b + u}" for x
  proof -
    have "x \<noteq> b" using x bin by auto
    show ?thesis
    proof (cases "x = p")
      case True
      then have "x \<notin> set bs" using x heap_block_above(2)[OF ok] by blast
      then have "x = arena s" using True L by (metis in_set_conv_decomp set_ConsD)
      then show ?thesis using ua ok by (simp add: heap_ok_def)
    next
      case False
      then show ?thesis using L'(5) s1(5) \<open>x \<noteq> b\<close> by simp
    qed
  qed
  ultimately show ?thesis using fr bu by blast
qed

subsection \<open>Taking a block\<close>

lemma slob_take_ok:
  assumes ok: "heap_ok s (ms @ c # ys)" and u: "0 < u" "u \<le> slob_units s c" and p: "p = last (arena s # ms)"
  defines "s' \<equiv> slob_take p c u s"
  defines "bs' \<equiv> ms @ (if slob_units s c = u then ys else (c + u) # ys)"
  shows "heap_ok s' bs' \<and> heap_frame s s' \<and> block_units s' bs' = block_units s (ms @ c # ys) - {c..<c + u} \<and>
    slob_units s' c = u \<and> (\<forall>x. x \<notin> {c..<c + slob_units s c} \<longrightarrow> slob_units s' x = slob_units s x)"
proof -
  let ?a = "arena s"
  have r: "slob_ring s (?a # ms @ c # ys)" using ok by (simp add: heap_ok_def)
  obtain us where us: "?a # ms = us @ [p]" using p by (metis append_butlast_last_id list.distinct(1))
  then have r2: "slob_ring s (us @ p # [c] @ ys)" using r by (metis append_Cons append_Nil append_assoc)
  have ap: "sorted_wrt (apart s) (us @ p # [c] @ ys)" using r2 by (intro apart_sorted) (simp add: slob_ring_def)
  have h: "hd (us @ p # ws) = ?a" for ws using us by (cases us) auto
  have nc: "slob_next s c = hd (ys @ [?a])" using slob_ring_next[of s "us @ [p]" c ys] r2 h[of "c # ys"] by simp
  have ne: "p \<noteq> c" "c \<notin> set us" "c \<notin> set ys" "p \<notin> set us" "p \<notin> set ys" using slob_ring_distinct[OF r2] by auto
  have above: "\<And>y. y \<in> set ys \<Longrightarrow> c + slob_units s c < y" "\<And>x. x \<in> set us \<Longrightarrow> x + slob_units s x < c" "p + slob_units s p < c"
    using ap by (auto simp: sorted_wrt_append apart_def)
  have fresh: "c + u \<noteq> p" "c + u \<noteq> c" "c + u \<notin> set us" "c + u \<notin> set ys"
    using above u by fastforce+
  define ex where "ex = (slob_units s c = u)"
  have un: "slob_units s' = (if ex then slob_units s else (slob_units s)(c + u := slob_units s c - u, c := u))"
    using u by (auto simp: s'_def slob_take_def Let_def set_units_def set_next_def ex_def)
  have nx: "slob_next s' = (if ex then (slob_next s)(p := slob_next s c) else (slob_next s)(p := c + u, c + u := slob_next s c))"
    using ne fresh by (auto simp: s'_def slob_take_def Let_def set_units_def set_next_def ex_def fun_eq_iff)
  have fr: "heap_frame s s'" "slobfree s' = p"
    by (auto simp: s'_def slob_take_def Let_def set_units_def set_next_def heap_frame_def)
  define m where "m = (if ex then [] else [c + u])"
  have ring: "slob_ring s' (us @ p # m @ ys)"
  proof (rule ring_replace[OF r2])
    show "slob_next s' x = slob_next s x" if "x \<in> set us \<union> set ys" for x using that ne fresh by (auto simp: nx)
    show "slob_units s' x = slob_units s x" if "x \<in> set us \<union> set ys" for x using that ne fresh by (auto simp: un)
    show "successively (follows s') (p # m @ [hd (ys @ [hd (us @ [p])])])"
      using nc h[of "[]"] fresh by (auto simp: m_def nx)
    show "successively (apart s') (p # m @ (if ys = [] then [] else [hd ys]))"
      using above(1)[of "hd ys"] above(3) ne fresh u by (cases "ys = []") (auto simp: m_def un apart_def ex_def)
    show "slobfree s' \<in> set (us @ p # m @ ys)" using fr by simp
  qed
  have bs': "?a # bs' = us @ p # m @ ys" using us by (auto simp: bs'_def m_def ex_def)
  have oth: "slob_units s' x = slob_units s x" if "x \<in> set ms \<union> set ys \<union> {?a}" for x
  proof -
    have "set (?a # ms) = set (us @ [p])" using us by simp
    then have "x \<in> set us \<union> {p} \<union> set ys" using that by auto
    then show ?thesis using ne fresh by (auto simp: un)
  qed
  have rest: "(\<Union>x\<in>set ms \<union> set ys. {x..<x + slob_units s' x}) = (\<Union>x\<in>set ms \<union> set ys. {x..<x + slob_units s x})"
    using oth by (intro SUP_cong) auto
  have cut: "(\<Union>x\<in>set m. {x..<x + slob_units s' x}) = {c..<c + slob_units s c} - {c..<c + u}"
    using u by (auto simp: m_def un ex_def)
  have dis: "(\<Union>x\<in>set ms \<union> set ys. {x..<x + slob_units s x}) \<inter> {c..<c + slob_units s c} = {}"
  proof -
    have "x + slob_units s x < c \<or> c + slob_units s c < x" if "x \<in> set ms \<union> set ys" for x
    proof -
      have "x \<in> set (us @ [p]) \<or> x \<in> set ys" using that us by (metis UnE list.set_intros(2))
      then show ?thesis using above by auto
    qed
    then show ?thesis by fastforce
  qed
  have "block_units s' bs' = (\<Union>x\<in>set ms \<union> set ys. {x..<x + slob_units s' x}) \<union> (\<Union>x\<in>set m. {x..<x + slob_units s' x})"
    by (auto simp: block_units_def bs'_def m_def ex_def)
  also have "\<dots> = (\<Union>x\<in>set ms \<union> set ys. {x..<x + slob_units s x}) \<union> ({c..<c + slob_units s c} - {c..<c + u})"
    unfolding rest cut ..
  also have "\<dots> = block_units s (ms @ c # ys) - {c..<c + u}"
  proof -
    have "{c..<c + u} \<subseteq> {c..<c + slob_units s c}" using u(2) by auto
    then have "(\<Union>x\<in>set ms \<union> set ys. {x..<x + slob_units s x}) \<inter> {c..<c + u} = {}" using dis by blast
    moreover have "block_units s (ms @ c # ys) = (\<Union>x\<in>set ms \<union> set ys. {x..<x + slob_units s x}) \<union> {c..<c + slob_units s c}"
      by (auto simp: block_units_def)
    ultimately show ?thesis by blast
  qed
  finally have bu: "block_units s' bs' = block_units s (ms @ c # ys) - {c..<c + u}" .
  have "0 < slob_units s' x" if "x \<in> set bs'" for x
    using that oth ok u by (auto simp: bs'_def heap_ok_def un ex_def split: if_splits)
  then have "heap_ok s' bs'" using ring bs' oth fr(1) ok by (simp add: heap_ok_def heap_frame_def)
  moreover have "slob_units s' x = slob_units s x" if "x \<notin> {c..<c + slob_units s c}" for x
    using that u by (auto simp: un ex_def)
  ultimately show ?thesis using fr bu by (auto simp: un ex_def)
qed

text \<open>One turn of the search around the ring.\<close>

fun first_fit :: "slob \<Rightarrow> nat \<Rightarrow> nat list \<Rightarrow> (nat list \<times> nat) option" where
  "first_fit s u [] = None"
| "first_fit s u (z # zs) =
     (if u \<le> slob_units s z then Some ([], z) else map_option (\<lambda>(ws, y). (z # ws, y)) (first_fit s u zs))"

definition slob_grow :: "pmm_ops \<Rightarrow> nat \<Rightarrow> nat \<Rightarrow> slob \<Rightarrow> (nat option \<times> slob) option" where
  "slob_grow M sz u s =
     (if sz = PGSIZE then Some (None, s)
      else do { (r, s1) \<leftarrow> slob_get_free_pages M 0 s;
                case r of
                  None \<Rightarrow> Some (None, s1)
                | Some c \<Rightarrow>
                    do { s2 \<leftarrow> slob_free (Some c) PGSIZE s1;
                         slob_alloc_loop M sz 0 u (slobfree s2) (slob_next s2 (slobfree s2)) s2 } })"

lemma slob_alloc_walk:
  assumes "successively (follows s) (p # zs @ [slobfree s])" "slobfree s \<notin> set zs"
  shows "slob_alloc_loop M sz 0 u p (hd (zs @ [slobfree s])) s =
    (case first_fit s u (zs @ [slobfree s]) of
       None \<Rightarrow> slob_grow M sz u s
     | Some (ws, z) \<Rightarrow> Some (Some z, slob_take (last (p # ws)) z u s))"
  using assms
proof (induction zs arbitrary: p)
  case Nil
  then show ?case
    by (subst slob_alloc_loop.simps) (simp add: slob_delta_def slob_grow_def Let_def)
next
  case (Cons z zs)
  have nz: "slob_next s z = hd (zs @ [slobfree s])" using Cons.prems(1) by (cases zs) auto
  show ?case
  proof (cases "u \<le> slob_units s z")
    case True
    then show ?thesis by (subst slob_alloc_loop.simps) (simp add: slob_delta_def)
  next
    case False
    have "slob_alloc_loop M sz 0 u p z s = slob_alloc_loop M sz 0 u z (hd (zs @ [slobfree s])) s"
      using False Cons.prems(2) by (subst slob_alloc_loop.simps) (simp add: slob_delta_def nz)
    also have "\<dots> = (case first_fit s u (zs @ [slobfree s]) of
       None \<Rightarrow> slob_grow M sz u s
     | Some (ws, y) \<Rightarrow> Some (Some y, slob_take (last (z # ws)) y u s))"
      using Cons.prems by (intro Cons.IH) (auto simp: successively_Cons)
    also have "\<dots> = (case first_fit s u (z # zs @ [slobfree s]) of
       None \<Rightarrow> slob_grow M sz u s
     | Some (ws, y) \<Rightarrow> Some (Some y, slob_take (last (p # ws)) y u s))"
      using False by (auto split: option.splits)
    finally show ?thesis by simp
  qed
qed

lemma first_fit_Some:
  "first_fit s u zs = Some (ws, z) \<Longrightarrow> \<exists>vs. zs = ws @ z # vs \<and> u \<le> slob_units s z"
  by (induction zs arbitrary: ws) (auto split: if_splits)

lemma first_fit_None: "first_fit s u zs = None \<longleftrightarrow> (\<forall>z\<in>set zs. slob_units s z < u)"
  by (induction zs) auto

text \<open>A search over a heap takes from a block that fits, or asks for a page.\<close>

lemma slob_alloc_search:
  assumes ok: "heap_ok s bs" and u: "2 \<le> u"
  shows "(\<exists>c s' bs'. slob_alloc_loop M sz 0 u (slobfree s) (slob_next s (slobfree s)) s = Some (Some c, s') \<and>
      heap_ok s' bs' \<and> heap_frame s s' \<and> {c..<c + u} \<subseteq> block_units s bs \<and>
      block_units s' bs' = block_units s bs - {c..<c + u} \<and> slob_units s' c = u \<and>
      (\<forall>x. x \<notin> block_units s bs \<longrightarrow> slob_units s' x = slob_units s x)) \<or>
    ((\<forall>b\<in>set bs. slob_units s b < u) \<and>
      slob_alloc_loop M sz 0 u (slobfree s) (slob_next s (slobfree s)) s = slob_grow M sz u s)"
proof -
  let ?L = "arena s # bs" and ?f = "slobfree s"
  have r: "slob_ring s ?L" using ok by (simp add: heap_ok_def)
  obtain xs ys where L: "?L = xs @ ?f # ys" using r split_list[of ?f ?L] by (auto simp: slob_ring_def)
  have rot: "successively (follows s) (?f # (ys @ xs) @ [?f])" using ring_rotate[of s xs ?f ys] r L by simp
  have nin: "?f \<notin> set (ys @ xs)" using slob_ring_distinct[OF r] L by auto
  have nf: "slob_next s ?f = hd ((ys @ xs) @ [?f])" using rot by (cases "ys @ xs") auto
  have setL: "set ((ys @ xs) @ [?f]) = set ?L" unfolding L by auto
  note walk = slob_alloc_walk[OF rot nin, of M sz u, folded nf]
  show ?thesis
  proof (cases "first_fit s u ((ys @ xs) @ [?f])")
    case None
    then have "\<forall>z\<in>set ?L. slob_units s z < u" using first_fit_None setL by metis
    then show ?thesis using walk None by simp
  next
    case (Some wz)
    obtain ws z where wz: "wz = (ws, z)" by (cases wz)
    obtain vs where zs: "(ys @ xs) @ [?f] = ws @ z # vs" "u \<le> slob_units s z" using first_fit_Some Some wz by blast
    have "z \<in> set ?L" using zs(1) setL by (metis in_set_conv_decomp)
    moreover have "z \<noteq> arena s" using zs(2) u ok by (auto simp: heap_ok_def)
    ultimately have "z \<in> set bs" by simp
    then obtain ms ns where bs: "bs = ms @ z # ns" using split_list by metis
    let ?q = "last (?f # ws)"
    have nq: "slob_next s ?q = z"
    proof -
      have "successively (follows s) ((?f # ws) @ (z # vs))" using rot zs(1) by simp
      then have "follows s ?q (hd (z # vs))" unfolding successively_append_iff by blast
      then show ?thesis by simp
    qed
    have qL: "?q \<in> set ?L"
    proof -
      have "?q \<in> set (?f # ws)" by (rule last_in_set) simp
      also have "set (?f # ws) \<subseteq> set ?L" using zs(1) setL L by (metis UnCI Un_insert_right insert_subset list.simps(15) set_append subsetI)
      finally show ?thesis .
    qed
    obtain us p where us: "arena s # ms = us @ [p]" by (metis append_butlast_last_id list.distinct(1))
    have Lz: "?L = us @ p # z # ns" using us bs by (metis append_Cons append_Nil append_assoc)
    have "?q = p" by (rule ring_pred[of s us p z ns]) (use r qL nq Lz in auto)
    then have q: "?q = last (arena s # ms)" using us by simp
    have take: "slob_alloc_loop M sz 0 u ?f (slob_next s ?f) s = Some (Some z, slob_take ?q z u s)"
      using walk Some wz by simp
    note t = slob_take_ok[OF ok[unfolded bs], of u, OF _ zs(2) q]
    have sub: "{z..<z + slob_units s z} \<subseteq> block_units s bs" by (auto simp: block_units_def bs)
    then have "{z..<z + u} \<subseteq> block_units s bs" using zs(2) by auto
    moreover have "slob_units (slob_take ?q z u s) x = slob_units s x" if "x \<notin> block_units s bs" for x
    proof -
      have "x \<notin> {z..<z + slob_units s z}" using that sub by blast
      then show ?thesis using t u by simp
    qed
    ultimately show ?thesis using take t u bs by auto
  qed
qed

subsection \<open>The heap and its pages\<close>

definition page_units :: "nat \<Rightarrow> nat set" where
  "page_units p = {PAGE_UNITS * page2ppn p..<PAGE_UNITS * page2ppn p + PAGE_UNITS}"

primrec bb_list :: "slob \<Rightarrow> nat option \<Rightarrow> nat list \<Rightarrow> bool" where
  "bb_list s q [] \<longleftrightarrow> q = None"
| "bb_list s q (x # xs) \<longleftrightarrow> q = Some x \<and> bb_list s (bb_next s x) xs"

text \<open>The units that an allocation can give out: free blocks and free pages.\<close>

definition kavail :: "(pmm \<Rightarrow> nat set) \<Rightarrow> slob \<Rightarrow> nat list \<Rightarrow> nat set" where
  "kavail frees s bs = block_units s bs \<union> (\<Union>p\<in>frees (phys s). page_units p)"

definition kheap_ok :: "(pmm \<Rightarrow> bool) \<Rightarrow> (pmm \<Rightarrow> nat set) \<Rightarrow> slob \<Rightarrow> nat list \<Rightarrow> bool" where
  "kheap_ok pinv frees s bs \<longleftrightarrow> heap_ok s bs \<and> pinv (phys s) \<and> npage s \<le> 2 ^ 52 \<and>
     (\<forall>p\<in>frees (phys s). page2ppn p < npage s \<and> arena s + 1 < PAGE_UNITS * page2ppn p) \<and>
     block_units s bs \<inter> (\<Union>p\<in>frees (phys s). page_units p) = {} \<and>
     (\<exists>xs. bb_list s (bigblocks s) xs \<and> (\<forall>b\<in>set xs. \<forall>k. bb_pages s b = Some k \<longrightarrow> k \<notin> kavail frees s bs))"

lemma block_run_units:
  assumes ok: "heap_ok s bs" and n: "0 < n" and run: "{c..<c + n} \<subseteq> block_units s bs"
  shows "\<exists>b\<in>set bs. n \<le> slob_units s b"
proof -
  have "c \<in> block_units s bs" using run n by auto
  then obtain b where b: "b \<in> set bs" "b \<le> c" "c < b + slob_units s b" by (auto simp: block_units_def)
  obtain ms ns where bs: "bs = ms @ b # ns" using split_list[OF b(1)] by blast
  have "sorted_wrt (apart s) (arena s # bs)" using ok by (intro apart_sorted) (simp add: heap_ok_def slob_ring_def)
  then have ap: "\<And>x. x \<in> set ms \<Longrightarrow> x + slob_units s x < b" "\<And>x. x \<in> set ns \<Longrightarrow> b + slob_units s b < x"
    by (auto simp: bs sorted_wrt_append apart_def)
  have "b + slob_units s b \<notin> block_units s bs" using ap by (fastforce simp: block_units_def bs)
  then have "\<not> b + slob_units s b < c + n" using subsetD[OF run, of "b + slob_units s b"] b by auto
  then show ?thesis using b by (intro bexI[of _ b]) auto
qed

lemma bb_list_unique: "bb_list s q as \<Longrightarrow> bb_list s q bs \<Longrightarrow> as = bs"
proof (induction as arbitrary: q bs)
  case Nil
  then show ?case by (cases bs) auto
next
  case (Cons a as)
  then show ?case by (cases bs) auto
qed

lemma bb_list_frame: "heap_frame s s' \<Longrightarrow> bb_list s' q xs = bb_list s q xs"
  by (induction xs arbitrary: q) (auto simp: heap_frame_def)

text \<open>A change of the blocks alone.\<close>

lemma kheap_ok_frame:
  assumes k: "kheap_ok pinv frees s bs" and fr: "heap_frame s s'" and h: "heap_ok s' bs'"
    and disj: "block_units s' bs' \<inter> (\<Union>p\<in>frees (phys s). page_units p) = {}"
    and bb: "\<And>xs b k. bb_list s (bigblocks s) xs \<Longrightarrow> b \<in> set xs \<Longrightarrow> bb_pages s b = Some k \<Longrightarrow> k \<notin> kavail frees s bs \<Longrightarrow> k \<notin> kavail frees s' bs'"
  shows "kheap_ok pinv frees s' bs'"
proof -
  have f: "phys s' = phys s" "npage s' = npage s" "arena s' = arena s" "bigblocks s' = bigblocks s" "bb_pages s' = bb_pages s"
    using fr by (auto simp: heap_frame_def)
  obtain xs where xs: "bb_list s (bigblocks s) xs" "\<forall>b\<in>set xs. \<forall>k. bb_pages s b = Some k \<longrightarrow> k \<notin> kavail frees s bs"
    using k by (auto simp: kheap_ok_def)
  then have "\<exists>xs. bb_list s' (bigblocks s') xs \<and> (\<forall>b\<in>set xs. \<forall>k. bb_pages s' b = Some k \<longrightarrow> k \<notin> kavail frees s' bs')"
    using bb_list_frame[OF fr] bb f by (intro exI[of _ xs]) auto
  then show ?thesis using k h disj f by (simp add: kheap_ok_def)
qed

locale kheap = pmm_manager inv frees "mgr_alloc M" "mgr_free M" "mgr_nr_free M" may_rel
  for inv :: "pmm \<Rightarrow> bool" and frees :: "pmm \<Rightarrow> nat set" and M :: pmm_ops
    and may_rel :: "nat \<Rightarrow> nat \<Rightarrow> pmm \<Rightarrow> bool"
begin

lemma page_supply:
  assumes k: "kheap_ok inv frees s bs"
  shows "(slob_get_free_pages M 0 s = Some (None, s) \<and> frees (phys s) = {}) \<or>
    (\<exists>p s1. slob_get_free_pages M 0 s = Some (Some (PAGE_UNITS * page2ppn p), s1) \<and> p \<in> frees (phys s) \<and>
      s1 = s\<lparr>phys := phys s1\<rparr> \<and> inv (phys s1) \<and> frees (phys s1) = frees (phys s) - {p})"
proof -
  have i: "inv (phys s)" using k by (simp add: kheap_ok_def)
  obtain r ph where r: "mgr_alloc M 1 (phys s) = Some (r, ph)" using alloc_returns[OF i, of 1] by auto
  show ?thesis
  proof (cases r)
    case None
    have "ph = phys s" "frees (phys s) = {}"
      using alloc_None[OF i r[unfolded None]] by (auto simp: subset_iff)
    then show ?thesis using r None by (simp add: slob_get_free_pages_def alloc_pages_def)
  next
    case (Some p)
    have a: "p \<in> frees (phys s)" "frees ph = frees (phys s) - {p}" using alloc_Some[OF i r[unfolded Some]] by auto
    have "page2ppn p < npage s" "npage s \<le> 2 ^ 52" using k a(1) by (auto simp: kheap_ok_def)
    then have "page2kva (s\<lparr>phys := ph\<rparr>) p = Some (page2ppn p)"
      by (simp add: page2kva_def KADDR_def PPN_page2pa)
    then have "slob_get_free_pages M 0 s = Some (Some (PAGE_UNITS * page2ppn p), s\<lparr>phys := ph\<rparr>)"
      using r Some by (simp add: slob_get_free_pages_def alloc_pages_def)
    then show ?thesis using a alloc_inv[OF i r] by (intro disjI2 exI[of _ p] exI[of _ "s\<lparr>phys := ph\<rparr>"]) simp
  qed
qed

lemma page_units_disjoint: "p \<noteq> q \<Longrightarrow> page_units p \<inter> page_units q = {}"
  by (auto simp: page_units_def page2ppn_def)

text \<open>Growing the heap by a page keeps what is available.\<close>

lemma add_page:
  assumes k: "kheap_ok inv frees s bs" and p: "p \<in> frees (phys s)"
    and s1: "s1 = s\<lparr>phys := ph\<rparr>" "inv ph" "frees ph = frees (phys s) - {p}"
  shows "\<exists>s2 bs2. slob_free (Some (PAGE_UNITS * page2ppn p)) PGSIZE s1 = Some s2 \<and> kheap_ok inv frees s2 bs2 \<and>
    kavail frees s2 bs2 = kavail frees s bs \<and> page_units p \<subseteq> block_units s2 bs2 \<and> heap_frame s1 s2 \<and>
    (\<forall>x. x \<notin> kavail frees s bs \<longrightarrow> slob_units s2 x = slob_units s x)"
proof -
  let ?b = "PAGE_UNITS * page2ppn p"
  have h: "heap_ok s bs" and a: "arena s + 1 < ?b" and d: "block_units s bs \<inter> (\<Union>p\<in>frees (phys s). page_units p) = {}"
    using k p by (auto simp: kheap_ok_def)
  have h1: "heap_ok s1 bs" "block_units s1 bs = block_units s bs"
    using h by (auto simp: s1(1) heap_ok_def slob_ring_def apart_def[abs_def] block_units_def)
  have pu: "{?b..<?b + PAGE_UNITS} = page_units p" by (simp add: page_units_def)
  have dis: "{?b..<?b + PAGE_UNITS} \<inter> block_units s1 bs = {}" using d p unfolding pu h1(2) by blast
  have u: "PAGE_UNITS = (if PGSIZE \<noteq> 0 then SLOB_UNITS PGSIZE else slob_units s1 ?b)"
    by (simp add: PGSIZE_def SLOB_UNITS_def SLOB_UNIT_def)
  obtain s2 bs2 where s2: "slob_free (Some ?b) PGSIZE s1 = Some s2" "heap_ok s2 bs2" "heap_frame s1 s2"
    "block_units s2 bs2 = block_units s bs \<union> page_units p"
    "\<forall>x. x \<notin> block_units s bs \<union> page_units p \<longrightarrow> slob_units s2 x = slob_units s1 x"
    using slob_free_ok[OF h1(1) _ dis _ u] a h1(2) by (auto simp: s1(1) pu)
  have ph2: "phys s2 = ph" using s2(3) by (simp add: heap_frame_def s1(1))
  have rest: "(\<Union>q\<in>frees ph. page_units q) \<union> page_units p = (\<Union>q\<in>frees (phys s). page_units q)"
    using s1(3) p by auto
  have pd: "(\<Union>q\<in>frees ph. page_units q) \<inter> page_units p = {}"
    using page_units_disjoint s1(3) by fastforce
  have av: "kavail frees s2 bs2 = kavail frees s bs" unfolding kavail_def ph2 s2(4) rest[symmetric] by blast
  have fr: "npage s2 = npage s" "arena s2 = arena s" "bigblocks s2 = bigblocks s" "bb_pages s2 = bb_pages s" "bb_next s2 = bb_next s"
    using s2(3) by (auto simp: heap_frame_def s1(1))
  have bbl: "bb_list s2 q xs = bb_list s q xs" for q xs by (induction xs arbitrary: q) (simp_all add: fr)
  have "kheap_ok inv frees s2 bs2"
  proof -
    have "block_units s bs \<inter> (\<Union>q\<in>frees ph. page_units q) = {}" using d unfolding rest[symmetric] by blast
    then have "block_units s2 bs2 \<inter> (\<Union>q\<in>frees (phys s2). page_units q) = {}" unfolding ph2 s2(4) using pd by blast
    then show ?thesis using k s2(2) s1(2,3) fr av by (simp add: kheap_ok_def ph2 bbl)
  qed
  moreover have "slob_units s2 x = slob_units s x" if "x \<notin> kavail frees s bs" for x
  proof -
    have "x \<notin> block_units s bs \<union> page_units p" using that p by (auto simp: kavail_def)
    then show ?thesis using s2(5) by (simp add: s1(1))
  qed
  ultimately show ?thesis using s2 av by blast
qed

text \<open>What an allocation of \<open>u\<close> units does.\<close>

definition taken_from :: "slob \<Rightarrow> nat list \<Rightarrow> nat \<Rightarrow> nat option \<Rightarrow> slob \<Rightarrow> nat list \<Rightarrow> bool" where
  "taken_from s bs u r s' bs' \<longleftrightarrow> kheap_ok inv frees s' bs' \<and>
     (\<forall>x. x \<notin> kavail frees s bs \<longrightarrow> slob_units s' x = slob_units s x) \<and>
     arena s' = arena s \<and> npage s' = npage s \<and> bb_order s' = bb_order s \<and> bb_pages s' = bb_pages s \<and> bb_next s' = bb_next s \<and> bigblocks s' = bigblocks s \<and>
     (case r of
        None \<Rightarrow> frees (phys s) = {} \<and> (\<forall>b\<in>set bs. slob_units s b < u) \<and> kavail frees s' bs' = kavail frees s bs
      | Some c \<Rightarrow> {c..<c + u} \<subseteq> kavail frees s bs \<and> kavail frees s' bs' = kavail frees s bs - {c..<c + u} \<and>
          slob_units s' c = u)"

lemma search_taken:
  assumes k: "kheap_ok inv frees s bs"
    and s': "heap_ok s' bs'" "heap_frame s s'" "{c..<c + u} \<subseteq> block_units s bs"
      "block_units s' bs' = block_units s bs - {c..<c + u}" "slob_units s' c = u"
      "\<forall>x. x \<notin> block_units s bs \<longrightarrow> slob_units s' x = slob_units s x"
  shows "taken_from s bs u (Some c) s' bs'"
proof -
  have ph: "phys s' = phys s" using s'(2) by (simp add: heap_frame_def)
  have d: "block_units s bs \<inter> (\<Union>p\<in>frees (phys s). page_units p) = {}" using k by (simp add: kheap_ok_def)
  have av: "kavail frees s' bs' = kavail frees s bs - {c..<c + u}"
    unfolding kavail_def ph s'(4) using d s'(3) by blast
  have "kheap_ok inv frees s' bs'"
  proof (rule kheap_ok_frame[OF k s'(2,1)])
    show "block_units s' bs' \<inter> (\<Union>p\<in>frees (phys s). page_units p) = {}" unfolding s'(4) using d by blast
  qed (simp add: av)
  moreover have "\<forall>x. x \<notin> kavail frees s bs \<longrightarrow> slob_units s' x = slob_units s x" using s'(6) by (simp add: kavail_def)
  moreover have "{c..<c + u} \<subseteq> kavail frees s bs" using s'(3) by (auto simp: kavail_def)
  ultimately show ?thesis using s'(2,5) av by (simp add: taken_from_def heap_frame_def)
qed

lemma slob_alloc_ok:
  assumes k: "kheap_ok inv frees s bs" and sz: "16 < sz" "sz + 16 < 4096"
  shows "\<exists>r s' bs'. slob_alloc M sz 0 s = Some (r, s') \<and> taken_from s bs (SLOB_UNITS sz) r s' bs'"
proof -
  let ?u = "SLOB_UNITS sz"
  have u: "2 \<le> ?u" "?u \<le> PAGE_UNITS" using sz by (auto simp: SLOB_UNITS_def SLOB_UNIT_def)
  have h: "heap_ok s bs" using k by (simp add: kheap_ok_def)
  have start: "slob_alloc M sz 0 s = slob_alloc_loop M sz 0 ?u (slobfree s) (slob_next s (slobfree s)) s"
    using sz by (simp add: slob_alloc_def SLOB_UNIT_def PGSIZE_def)
  from slob_alloc_search[OF h u(1), of M sz] show ?thesis
  proof (elim disjE exE conjE)
    fix c s' bs'
    assume a: "slob_alloc_loop M sz 0 ?u (slobfree s) (slob_next s (slobfree s)) s = Some (Some c, s')"
      "heap_ok s' bs'" "heap_frame s s'" "{c..<c + ?u} \<subseteq> block_units s bs"
      "block_units s' bs' = block_units s bs - {c..<c + ?u}" "slob_units s' c = ?u"
      "\<forall>x. x \<notin> block_units s bs \<longrightarrow> slob_units s' x = slob_units s x"
    then show ?thesis using search_taken[OF k a(2-7)] start by auto
  next
    assume none: "\<forall>b\<in>set bs. slob_units s b < ?u"
      and grow: "slob_alloc_loop M sz 0 ?u (slobfree s) (slob_next s (slobfree s)) s = slob_grow M sz ?u s"
    from page_supply[OF k] show ?thesis
    proof (elim disjE exE conjE)
      assume g: "slob_get_free_pages M 0 s = Some (None, s)" "frees (phys s) = {}"
      have "slob_grow M sz ?u s = Some (None, s)" using g(1) sz by (simp add: slob_grow_def PGSIZE_def)
      moreover have "taken_from s bs ?u None s bs" using k none g(2) by (simp add: taken_from_def)
      ultimately show ?thesis using start grow by auto
    next
      fix p s1
      assume g: "slob_get_free_pages M 0 s = Some (Some (PAGE_UNITS * page2ppn p), s1)" "p \<in> frees (phys s)"
        "s1 = s\<lparr>phys := phys s1\<rparr>" "inv (phys s1)" "frees (phys s1) = frees (phys s) - {p}"
      obtain s2 bs2 where s2: "slob_free (Some (PAGE_UNITS * page2ppn p)) PGSIZE s1 = Some s2" "kheap_ok inv frees s2 bs2"
        "kavail frees s2 bs2 = kavail frees s bs" "page_units p \<subseteq> block_units s2 bs2" "heap_frame s1 s2"
        "\<forall>x. x \<notin> kavail frees s bs \<longrightarrow> slob_units s2 x = slob_units s x"
        using add_page[OF k g(2,3,4,5)] by blast
      have h2: "heap_ok s2 bs2" using s2(2) by (simp add: kheap_ok_def)
      have lp: "slob_grow M sz ?u s = slob_alloc_loop M sz 0 ?u (slobfree s2) (slob_next s2 (slobfree s2)) s2"
        using g(1) s2(1) sz by (simp add: slob_grow_def PGSIZE_def)
      obtain b where "b \<in> set bs2" "PAGE_UNITS \<le> slob_units s2 b"
        using block_run_units[OF h2 _ s2(4)[unfolded page_units_def]] by auto
      then have big: "\<exists>b\<in>set bs2. ?u \<le> slob_units s2 b" using u(2) by (intro bexI[of _ b]) auto
      have "\<exists>c s' bs'. slob_alloc_loop M sz 0 ?u (slobfree s2) (slob_next s2 (slobfree s2)) s2 = Some (Some c, s') \<and>
          taken_from s2 bs2 ?u (Some c) s' bs'"
        using slob_alloc_search[OF h2 u(1), of M sz]
      proof (elim disjE exE conjE)
        fix c s' bs'
        assume a: "slob_alloc_loop M sz 0 ?u (slobfree s2) (slob_next s2 (slobfree s2)) s2 = Some (Some c, s')"
          "heap_ok s' bs'" "heap_frame s2 s'" "{c..<c + ?u} \<subseteq> block_units s2 bs2"
          "block_units s' bs' = block_units s2 bs2 - {c..<c + ?u}" "slob_units s' c = ?u"
          "\<forall>x. x \<notin> block_units s2 bs2 \<longrightarrow> slob_units s' x = slob_units s2 x"
        then show ?thesis using search_taken[OF s2(2) a(2-7)] by auto
      qed (use big in fastforce)
      then obtain c s' bs' where c: "slob_alloc_loop M sz 0 ?u (slobfree s2) (slob_next s2 (slobfree s2)) s2 = Some (Some c, s')"
        "taken_from s2 bs2 ?u (Some c) s' bs'" by blast
      have f: "arena s2 = arena s \<and> npage s2 = npage s \<and> bb_order s2 = bb_order s \<and> bb_pages s2 = bb_pages s \<and>
          bb_next s2 = bb_next s \<and> bigblocks s2 = bigblocks s"
        using s2(5) by (subst (asm) g(3)) (simp add: heap_frame_def)
      have "taken_from s bs ?u (Some c) s' bs'"
        using c(2) s2(3,6) f unfolding taken_from_def by simp
      then show ?thesis using start grow lp c(1) by auto
    qed
  qed
qed

lemma bb_find_none:
  "bb_list s q xs \<Longrightarrow> \<forall>b\<in>set xs. bb_pages s b \<noteq> Some k \<Longrightarrow> bb_find k l q s = Some None"
proof (induction xs arbitrary: l q)
  case Nil
  then show ?case by (simp add: bb_find.simps)
next
  case (Cons x xs)
  then show ?case by (subst bb_find.simps) simp
qed

lemma kfree_small:
  assumes k: "kheap_ok inv frees s bs" and m: "arena s + 1 < m" "0 < slob_units s m"
    and dis: "{m..<m + slob_units s m} \<inter> kavail frees s bs = {}"
    and bb: "\<forall>xs. bb_list s (bigblocks s) xs \<longrightarrow> (\<forall>b\<in>set xs. \<forall>k. bb_pages s b = Some k \<longrightarrow> k \<notin> {m..<m + slob_units s m} \<and> k \<noteq> m + 1)"
  shows "\<exists>s' bs'. kfree M (Some (m + 1)) s = Some s' \<and> kheap_ok inv frees s' bs' \<and>
    kavail frees s' bs' = kavail frees s bs \<union> {m..<m + slob_units s m}"
proof -
  let ?B = "{m..<m + slob_units s m}"
  have h: "heap_ok s bs" using k by (simp add: kheap_ok_def)
  have d1: "?B \<inter> block_units s bs = {}" and d2: "?B \<inter> (\<Union>p\<in>frees (phys s). page_units p) = {}"
    using dis by (auto simp: kavail_def)
  obtain s' bs' where s': "slob_free (Some m) 0 s = Some s'" "heap_ok s' bs'" "heap_frame s s'"
    "block_units s' bs' = block_units s bs \<union> ?B"
    using slob_free_ok[OF h m(1) d1 m(2), of 0] by auto
  obtain xs where xs: "bb_list s (bigblocks s) xs" using k by (auto simp: kheap_ok_def)
  have "bb_find (m + 1) None (bigblocks s) s = Some None"
    by (rule bb_find_none[OF xs]) (use bb xs in blast)
  then have "kfree M (Some (m + 1)) s = Some s'" using s'(1) by (simp add: kfree_def)
  moreover have av: "kavail frees s' bs' = kavail frees s bs \<union> ?B"
    using s'(3,4) by (auto simp: kavail_def heap_frame_def)
  moreover have "kheap_ok inv frees s' bs'"
  proof (rule kheap_ok_frame[OF k s'(3,2)])
    have "block_units s bs \<inter> (\<Union>p\<in>frees (phys s). page_units p) = {}" using k by (simp add: kheap_ok_def)
    then show "block_units s' bs' \<inter> (\<Union>p\<in>frees (phys s). page_units p) = {}" unfolding s'(4) using d2 by blast
    show "k \<notin> kavail frees s' bs'" if "bb_list s (bigblocks s) xs" "b \<in> set xs" "bb_pages s b = Some k" "k \<notin> kavail frees s bs" for xs b k
      using bb that unfolding av by blast
  qed
  ultimately show ?thesis by blast
qed

lemma kavail_above:
  assumes "kheap_ok inv frees s bs" "x \<in> kavail frees s bs"
  shows "arena s + 1 < x"
proof -
  have h: "heap_ok s bs" using assms(1) by (simp add: kheap_ok_def)
  consider "x \<in> block_units s bs" | p where "p \<in> frees (phys s)" "x \<in> page_units p" using assms(2) by (auto simp: kavail_def)
  then show ?thesis
  proof cases
    case 1
    then obtain b where "b \<in> set bs" "b \<le> x" by (auto simp: block_units_def)
    then show ?thesis using heap_block_above(1)[OF h] by fastforce
  next
    case 2
    then have "arena s + 1 < PAGE_UNITS * page2ppn p" using assms(1) by (simp add: kheap_ok_def)
    then show ?thesis using 2(2) by (simp add: page_units_def)
  qed
qed

lemma kmalloc_kfree:
  assumes k: "kheap_ok inv frees s bs" and sz: "0 < sz" "sz < 4064"
  defines "u \<equiv> SLOB_UNITS (sz + SLOB_UNIT)"
  shows "\<exists>r s' bs'. kmalloc M sz s = Some (r, s') \<and> kheap_ok inv frees s' bs' \<and>
    (case r of
       None \<Rightarrow> frees (phys s) = {} \<and> (\<forall>b\<in>set bs. slob_units s b < u) \<and> kavail frees s' bs' = kavail frees s bs
     | Some a \<Rightarrow> 0 < a \<and> sz \<le> SLOB_UNIT * (u - 1) \<and> {a - 1..<a - 1 + u} \<subseteq> kavail frees s bs \<and>
         kavail frees s' bs' = kavail frees s bs - {a - 1..<a - 1 + u} \<and>
         (\<exists>s'' bs''. kfree M (Some a) s' = Some s'' \<and> kheap_ok inv frees s'' bs'' \<and> kavail frees s'' bs'' = kavail frees s bs))"
proof -
  obtain r s' bs' where r: "slob_alloc M (sz + SLOB_UNIT) 0 s = Some (r, s')" "taken_from s bs u r s' bs'"
    using slob_alloc_ok[OF k, of "sz + SLOB_UNIT"] sz by (auto simp: SLOB_UNIT_def u_def)
  have km: "kmalloc M sz s = Some (map_option (\<lambda>m. m + 1) r, s')" using r(1) sz by (simp add: kmalloc_def SLOB_UNIT_def PGSIZE_def)
  have k': "kheap_ok inv frees s' bs'" using r(2) by (simp add: taken_from_def)
  have u2: "2 \<le> u" "sz \<le> SLOB_UNIT * (u - 1)" using sz by (auto simp: u_def SLOB_UNITS_def SLOB_UNIT_def)
  show ?thesis
  proof (cases r)
    case None
    then show ?thesis using km k' r(2) by (auto simp: taken_from_def)
  next
    case (Some m)
    have t: "{m..<m + u} \<subseteq> kavail frees s bs" "kavail frees s' bs' = kavail frees s bs - {m..<m + u}" "slob_units s' m = u"
      "arena s' = arena s" "bigblocks s' = bigblocks s" "bb_pages s' = bb_pages s" "bb_next s' = bb_next s"
      using r(2) Some by (auto simp: taken_from_def)
    have min: "m \<in> {m..<m + u}" "m + 1 \<in> {m..<m + u}" using u2(1) by auto
    have am: "arena s' + 1 < m" using kavail_above[OF k subsetD[OF t(1) min(1)]] t(4) by simp
    have bl: "bb_list s' q xs = bb_list s q xs" for q xs by (induction xs arbitrary: q) (simp_all add: t)
    obtain xs where xs: "bb_list s (bigblocks s) xs" "\<forall>b\<in>set xs. \<forall>k. bb_pages s b = Some k \<longrightarrow> k \<notin> kavail frees s bs"
      using k by (auto simp: kheap_ok_def)
    have bb: "\<forall>xs. bb_list s' (bigblocks s') xs \<longrightarrow> (\<forall>b\<in>set xs. \<forall>k. bb_pages s' b = Some k \<longrightarrow>
        k \<notin> {m..<m + slob_units s' m} \<and> k \<noteq> m + 1)"
    proof (intro allI impI ballI)
      fix ys b k
      assume y: "bb_list s' (bigblocks s') ys" "b \<in> set ys" "bb_pages s' b = Some k"
      have "ys = xs" using bb_list_unique[OF xs(1)] y(1) by (simp add: bl t(5))
      then have "k \<notin> kavail frees s bs" using xs(2) y(2,3) by (simp add: t(6))
      then have "k \<notin> {m..<m + u}" using t(1) by blast
      then show "k \<notin> {m..<m + slob_units s' m} \<and> k \<noteq> m + 1" using min(2) t(3) by auto
    qed
    have "\<exists>s'' bs''. kfree M (Some (m + 1)) s' = Some s'' \<and> kheap_ok inv frees s'' bs'' \<and>
        kavail frees s'' bs'' = kavail frees s' bs' \<union> {m..<m + slob_units s' m}"
      by (rule kfree_small[OF k' am _ _ bb]) (use t u2 in auto)
    moreover have "kavail frees s' bs' \<union> {m..<m + slob_units s' m} = kavail frees s bs" using t(1,2,3) by auto
    ultimately show ?thesis using km k' t u2(2) Some by simp blast
  qed
qed

end

text \<open>Both page managers of that interface feed the heap.\<close>

interpretation dkheap: kheap pmm_ok free_pages_of default_pmm_manager may_free ..

interpretation bkheap: kheap best_fit_ok free_pages_of best_fit_pmm_manager best_fit_may_free ..

subsection \<open>Sizes\<close>

text \<open>
  \<^verbatim>\<open>slob_alloc\<close> adds the header once more in its assertion: a request that needs a whole
  page less one or two units stops the kernel.
\<close>

lemma kmalloc_panics: "4064 \<le> sz \<Longrightarrow> sz < 4080 \<Longrightarrow> kmalloc M sz s = None"
  by (simp add: kmalloc_def slob_alloc_def PGSIZE_def SLOB_UNIT_def)

text \<open>Halving rounds down: the pages of a large object may be too few.\<close>

lemma find_order_short: "find_order 8193 = 1"
  by (simp add: find_order_def find_order_loop.simps)

lemma find_order_enough: "find_order (4096 * 2 ^ k) = k"
proof -
  have "find_order_loop (4096 * 2 ^ k) j = j + k" for j
  proof (induction k arbitrary: j)
    case (Suc k)
    have "(1::int) < 2 * 2 ^ k" using one_le_power[of "2::int" k] by linarith
    then show ?case using Suc by (subst find_order_loop.simps) simp
  qed (simp add: find_order_loop.simps)
  then show ?thesis by (simp add: find_order_def)
qed

subsection \<open>Properties\<close>

definition demo_heap :: slob where
  "demo_heap = \<lparr>phys = phys demo_vm, frames = frames demo_vm, npage = npage demo_vm, arena = 0,
     slob_units = (\<lambda>_. 1), slob_next = (\<lambda>_. 0), slobfree = 0, bb_order = (\<lambda>_. 0), bb_pages = (\<lambda>_. None),
     bb_next = (\<lambda>_. None), bigblocks = None\<rparr>"

lemma demo_heap_ok: "kheap_ok pmm_ok free_pages_of demo_heap []"
proof -
  have "heap_ok demo_heap []" by (simp add: heap_ok_def slob_ring_def demo_heap_def)
  moreover have "\<exists>xs. bb_list demo_heap (bigblocks demo_heap) xs \<and>
      (\<forall>b\<in>set xs. \<forall>k. bb_pages demo_heap b = Some k \<longrightarrow> k \<notin> kavail free_pages_of demo_heap [])"
    by (intro exI[of _ "[]"]) (simp add: demo_heap_def)
  moreover have "phys demo_heap = phys demo_vm" "npage demo_heap = nbase + 10" "arena demo_heap = 0"
    using demo_vm_ok by (simp_all add: demo_heap_def)
  ultimately show ?thesis using demo_vm_ok
    by (auto simp: kheap_ok_def block_units_def page2ppn_def nbase_def PGSIZE_def vm_ok_def)
qed

text \<open>
  C3. Objects of 1 to 4063 bytes: kmalloc returns and finds room as long as a free block is
  large enough or a page is left. The object has room for the size asked for, its memory
  lies in what was available (free blocks of the heap and free pages) and exactly that memory
  stops being available, so it overlaps no live object; the free list stays a ring in the
  order of addresses with neighbours merged. Giving the object back with kfree returns and
  makes available exactly what was before.
\<close>

theorem kmalloc_kfree_correct:
  assumes "kheap_ok pmm_ok free_pages_of s bs" and "0 < sz" and "sz < 4064"
  shows "\<exists>r s' bs'. kmalloc default_pmm_manager sz s = Some (r, s') \<and> kheap_ok pmm_ok free_pages_of s' bs' \<and>
    (let u = SLOB_UNITS (sz + SLOB_UNIT) in case r of
       None \<Rightarrow> free_pages_of (phys s) = {} \<and> (\<forall>b\<in>set bs. slob_units s b < u) \<and>
         kavail free_pages_of s' bs' = kavail free_pages_of s bs
     | Some a \<Rightarrow> 0 < a \<and> sz \<le> SLOB_UNIT * (u - 1) \<and> {a - 1..<a - 1 + u} \<subseteq> kavail free_pages_of s bs \<and>
         kavail free_pages_of s' bs' = kavail free_pages_of s bs - {a - 1..<a - 1 + u} \<and>
         (\<exists>s'' bs''. kfree default_pmm_manager (Some a) s' = Some s'' \<and> kheap_ok pmm_ok free_pages_of s'' bs'' \<and>
            kavail free_pages_of s'' bs'' = kavail free_pages_of s bs))"
  unfolding Let_def using assms by (rule dkheap.kmalloc_kfree)

theorem kmalloc_kfree_correct_witness:
  "\<exists>a s' s''. kmalloc default_pmm_manager 40 demo_heap = Some (Some a, s') \<and> kfree default_pmm_manager (Some a) s' = Some s''"
proof -
  have "free_pages_of (phys demo_heap) \<noteq> {}" using demo_vm_ok by (simp add: demo_heap_def)
  then show ?thesis using kmalloc_kfree_correct[OF demo_heap_ok, of 40]
    by (auto simp: Let_def split: option.splits)
qed

end
