(* ===== verification/StrLib.thy ===== *)
theory StrLib
  imports Prelude
begin

text \<open>
  The string library (\<^verbatim>\<open>libs/string.c\<close>; the variants guarded by
  \<^verbatim>\<open>__HAVE_ARCH_*\<close> are not defined for this machine).

  Memory is a function from addresses to bytes and a pointer is an address; no
  object reaches the end of the address space, so pointers do not wrap. A
  function that writes returns the new memory (the C functions also return their
  first argument). \<^verbatim>\<open>char\<close> is unsigned on this machine. A loop that runs to
  the end of a string is a partial function: \<open>None\<close> is a loop that never meets a
  null byte. The string at an address is described by \<open>cstr\<close>, and each routine is
  equal to a function on the lists of bytes.
\<close>

subsection \<open>Lengths\<close>

partial_function (option) strlen_loop :: "(nat \<Rightarrow> 8 word) \<Rightarrow> nat \<Rightarrow> nat \<Rightarrow> nat option" where
  "strlen_loop mem s cnt = (if mem s \<noteq> 0 then strlen_loop mem (s + 1) (cnt + 1) else Some cnt)"

definition strlen :: "(nat \<Rightarrow> 8 word) \<Rightarrow> nat \<Rightarrow> nat option" where
  "strlen mem s = strlen_loop mem s 0"

fun strnlen :: "(nat \<Rightarrow> 8 word) \<Rightarrow> nat \<Rightarrow> nat \<Rightarrow> nat" where
  "strnlen mem a 0 = 0"
| "strnlen mem a (Suc n) = (if mem a \<noteq> 0 then Suc (strnlen mem (a + 1) n) else 0)"

subsection \<open>Copies of strings\<close>

partial_function (option) strcpy :: "nat \<Rightarrow> nat \<Rightarrow> (nat \<Rightarrow> 8 word) \<Rightarrow> (nat \<Rightarrow> 8 word) option" where
  "strcpy dst src mem =
     (if mem src \<noteq> 0 then strcpy (dst + 1) (src + 1) (mem(dst := mem src)) else Some (mem(dst := mem src)))"

fun strncpy :: "nat \<Rightarrow> nat \<Rightarrow> nat \<Rightarrow> (nat \<Rightarrow> 8 word) \<Rightarrow> nat \<Rightarrow> 8 word" where
  "strncpy dst src 0 mem = mem"
| "strncpy dst src (Suc len) mem =
     strncpy (dst + 1) (if mem src \<noteq> 0 then src + 1 else src) len (mem(dst := mem src))"

definition strcat :: "nat \<Rightarrow> nat \<Rightarrow> (nat \<Rightarrow> 8 word) \<Rightarrow> (nat \<Rightarrow> 8 word) option" where
  "strcat dst src mem = do { n \<leftarrow> strlen mem dst; strcpy (dst + n) src mem }"

subsection \<open>Comparisons and searches\<close>

partial_function (option) strcmp :: "(nat \<Rightarrow> 8 word) \<Rightarrow> nat \<Rightarrow> nat \<Rightarrow> int option" where
  "strcmp mem s1 s2 =
     (if mem s1 \<noteq> 0 \<and> mem s1 = mem s2 then strcmp mem (s1 + 1) (s2 + 1)
      else Some (uint (mem s1) - uint (mem s2)))"

fun strncmp :: "(nat \<Rightarrow> 8 word) \<Rightarrow> nat \<Rightarrow> nat \<Rightarrow> nat \<Rightarrow> int" where
  "strncmp mem s1 s2 0 = 0"
| "strncmp mem s1 s2 (Suc n) =
     (if mem s1 \<noteq> 0 \<and> mem s1 = mem s2 then strncmp mem (s1 + 1) (s2 + 1) n
      else uint (mem s1) - uint (mem s2))"

partial_function (option) strchr :: "(nat \<Rightarrow> 8 word) \<Rightarrow> nat \<Rightarrow> 8 word \<Rightarrow> nat option option" where
  "strchr mem s c =
     (if mem s \<noteq> 0 then if mem s = c then Some (Some s) else strchr mem (s + 1) c
      else Some None)"

partial_function (option) strfind :: "(nat \<Rightarrow> 8 word) \<Rightarrow> nat \<Rightarrow> 8 word \<Rightarrow> nat option" where
  "strfind mem s c =
     (if mem s \<noteq> 0 then if mem s = c then Some s else strfind mem (s + 1) c
      else Some s)"

subsection \<open>Numbers\<close>

definition chr :: "char \<Rightarrow> 8 word" where
  "chr c = of_nat (of_char c)"

partial_function (option) skip_white :: "(nat \<Rightarrow> 8 word) \<Rightarrow> nat \<Rightarrow> nat option" where
  "skip_white mem s = (if mem s = chr CHR '' '' \<or> mem s = chr CHR 0x09 then skip_white mem (s + 1) else Some s)"

text \<open>The value of a digit; \<open>None\<close> for a byte that ends the number.\<close>

definition strtol_digit :: "8 word \<Rightarrow> 32 word \<Rightarrow> nat option" where
  "strtol_digit b base =
     (let dig = (if chr CHR ''0'' \<le> b \<and> b \<le> chr CHR ''9'' then Some (unat (b - chr CHR ''0''))
                 else if chr CHR ''a'' \<le> b \<and> b \<le> chr CHR ''z'' then Some (unat (b - chr CHR ''a'') + 10)
                 else if chr CHR ''A'' \<le> b \<and> b \<le> chr CHR ''Z'' then Some (unat (b - chr CHR ''A'') + 10)
                 else None)
      in case dig of None \<Rightarrow> None
         | Some d \<Rightarrow> if int d \<ge> sint base then None else Some d)"

text \<open>A \<^verbatim>\<open>long\<close> is a 64-bit word: the source does not detect overflow.\<close>

partial_function (option) strtol_digits ::
  "(nat \<Rightarrow> 8 word) \<Rightarrow> nat \<Rightarrow> 32 word \<Rightarrow> 64 word \<Rightarrow> (64 word \<times> nat) option" where
  "strtol_digits mem s base val =
     (case strtol_digit (mem s) base of
        None \<Rightarrow> Some (val, s)
      | Some dig \<Rightarrow> strtol_digits mem (s + 1) base (val * scast base + of_nat dig))"

definition strtol_base :: "(nat \<Rightarrow> 8 word) \<Rightarrow> nat \<Rightarrow> 32 word \<Rightarrow> nat \<times> 32 word" where
  "strtol_base mem s base =
     (if (base = 0 \<or> base = 16) \<and> mem s = chr CHR ''0'' \<and> mem (s + 1) = chr CHR ''x'' then (s + 2, 16)
      else if base = 0 \<and> mem s = chr CHR ''0'' then (s + 1, 8)
      else if base = 0 then (s, 10)
      else (s, base))"

text \<open>The value and what is stored through \<^verbatim>\<open>endptr\<close> (a flag: is the pointer not null).\<close>

definition strtol :: "(nat \<Rightarrow> 8 word) \<Rightarrow> nat \<Rightarrow> bool \<Rightarrow> 32 word \<Rightarrow> (64 word \<times> nat option) option" where
  "strtol mem s endptr base =
     do { s1 \<leftarrow> skip_white mem s;
          let neg = (mem s1 = chr CHR ''-'');
          let s2 = (if mem s1 = chr CHR ''+'' then s1 + 1 else if neg then s1 + 1 else s1);
          let (s3, base1) = strtol_base mem s2 base;
          (val, s4) \<leftarrow> strtol_digits mem s3 base1 0;
          Some (if neg then - val else val, if endptr then Some s4 else None) }"

subsection \<open>Memory areas\<close>

fun memset :: "nat \<Rightarrow> 8 word \<Rightarrow> nat \<Rightarrow> (nat \<Rightarrow> 8 word) \<Rightarrow> nat \<Rightarrow> 8 word" where
  "memset s c 0 mem = mem"
| "memset s c (Suc n) mem = memset (s + 1) c n (mem(s := c))"

fun memcpy :: "nat \<Rightarrow> nat \<Rightarrow> nat \<Rightarrow> (nat \<Rightarrow> 8 word) \<Rightarrow> nat \<Rightarrow> 8 word" where
  "memcpy dst src 0 mem = mem"
| "memcpy dst src (Suc n) mem = memcpy (dst + 1) (src + 1) n (mem(dst := mem src))"

text \<open>The loop of \<^verbatim>\<open>memmove\<close> that runs downwards.\<close>

fun memmove_down :: "nat \<Rightarrow> nat \<Rightarrow> nat \<Rightarrow> (nat \<Rightarrow> 8 word) \<Rightarrow> nat \<Rightarrow> 8 word" where
  "memmove_down d s 0 mem = mem"
| "memmove_down d s (Suc n) mem = memmove_down (d - 1) (s - 1) n (mem(d - 1 := mem (s - 1)))"

text \<open>The other loop of \<^verbatim>\<open>memmove\<close> is the one of \<^verbatim>\<open>memcpy\<close>.\<close>

definition memmove :: "nat \<Rightarrow> nat \<Rightarrow> nat \<Rightarrow> (nat \<Rightarrow> 8 word) \<Rightarrow> nat \<Rightarrow> 8 word" where
  "memmove dst src n mem =
     (if src < dst \<and> src + n > dst then memmove_down (dst + n) (src + n) n mem
      else memcpy dst src n mem)"

fun memcmp :: "(nat \<Rightarrow> 8 word) \<Rightarrow> nat \<Rightarrow> nat \<Rightarrow> nat \<Rightarrow> int" where
  "memcmp mem s1 s2 0 = 0"
| "memcmp mem s1 s2 (Suc n) =
     (if mem s1 \<noteq> mem s2 then uint (mem s1) - uint (mem s2) else memcmp mem (s1 + 1) (s2 + 1) n)"

subsection \<open>Reference definitions\<close>

text \<open>The null-terminated string \<open>xs\<close> is stored at \<open>a\<close>.\<close>

primrec cstr :: "(nat \<Rightarrow> 8 word) \<Rightarrow> nat \<Rightarrow> 8 word list \<Rightarrow> bool" where
  "cstr mem a [] \<longleftrightarrow> mem a = 0"
| "cstr mem a (x # xs) \<longleftrightarrow> x \<noteq> 0 \<and> mem a = x \<and> cstr mem (a + 1) xs"

text \<open>\<open>mem\<close> with \<open>xs\<close> written at \<open>dst\<close>; with a copy of the \<open>n\<close> bytes that \<open>src\<close> held.\<close>

definition stored :: "nat \<Rightarrow> 8 word list \<Rightarrow> (nat \<Rightarrow> 8 word) \<Rightarrow> nat \<Rightarrow> 8 word" where
  "stored dst xs mem = (\<lambda>a. if dst \<le> a \<and> a < dst + length xs then xs ! (a - dst) else mem a)"

definition loaded :: "nat \<Rightarrow> nat \<Rightarrow> (nat \<Rightarrow> 8 word) \<Rightarrow> 8 word list" where
  "loaded src n mem = map (\<lambda>i. mem (src + i)) [0..<n]"

text \<open>The first difference of two strings; the missing byte counts as the null byte.\<close>

fun str_diff :: "8 word list \<Rightarrow> 8 word list \<Rightarrow> int" where
  "str_diff [] [] = 0"
| "str_diff [] (y # ys) = - uint y"
| "str_diff (x # xs) [] = uint x"
| "str_diff (x # xs) (y # ys) = (if x = y then str_diff xs ys else uint x - uint y)"

lemma stored_Nil [simp]: "stored dst [] mem = mem"
  by (auto simp: stored_def fun_eq_iff)

lemma stored_Cons: "stored dst (x # xs) mem = stored (dst + 1) xs (mem(dst := x))"
  by (auto simp: stored_def fun_eq_iff nth_Cons')

lemma stored_append: "stored dst (xs @ ys) mem = stored dst xs (stored (dst + length xs) ys mem)"
  by (auto simp: stored_def fun_eq_iff nth_append)

lemma loaded_0 [simp]: "loaded src 0 mem = []"
  by (simp add: loaded_def)

lemma length_loaded [simp]: "length (loaded src n mem) = n"
  by (simp add: loaded_def)

lemma nth_loaded [simp]: "i < n \<Longrightarrow> loaded src n mem ! i = mem (src + i)"
  by (simp add: loaded_def)

lemma loaded_Suc: "loaded src (Suc n) mem = mem src # loaded (src + 1) n mem"
  by (intro nth_equalityI) (auto simp: nth_Cons')

lemma loaded_snoc: "loaded src (Suc n) mem = loaded src n mem @ [mem (src + n)]"
  by (simp add: loaded_def)

lemma loaded_cong: "(\<And>a. src \<le> a \<Longrightarrow> a < src + n \<Longrightarrow> mem a = mem' a) \<Longrightarrow> loaded src n mem = loaded src n mem'"
  by (simp add: loaded_def)

lemma loaded_stored [simp]: "loaded dst (length xs) (stored dst xs mem) = xs"
  by (intro nth_equalityI) (auto simp: stored_def)

lemma cstr_iff: "cstr mem a xs \<longleftrightarrow> loaded a (length xs) mem = xs \<and> 0 \<notin> set xs \<and> mem (a + length xs) = 0"
  by (induction xs arbitrary: a) (auto simp: loaded_Suc)

lemma cstr_stored: "0 \<notin> set xs \<Longrightarrow> cstr (stored a (xs @ [0]) mem) a xs"
proof -
  assume "0 \<notin> set xs"
  moreover have "loaded a (length xs) (stored a (xs @ [0]) mem) = xs"
    by (intro nth_equalityI) (auto simp: stored_def nth_append)
  ultimately show ?thesis by (simp add: cstr_iff stored_def nth_append)
qed

subsection \<open>Areas of memory\<close>

lemma memset_eq: "memset s c n mem = stored s (replicate n c) mem"
  by (induction n arbitrary: s mem) (simp_all add: stored_Cons)

lemma memcpy_eq: "dst \<le> src \<or> src + n \<le> dst \<Longrightarrow> memcpy dst src n mem = stored dst (loaded src n mem) mem"
proof (induction n arbitrary: dst src mem)
  case (Suc n)
  have "dst + 1 \<le> src + 1 \<or> src + 1 + n \<le> dst + 1" using Suc.prems by auto
  then have "memcpy dst src (Suc n) mem = stored (dst + 1) (loaded (src + 1) n (mem(dst := mem src))) (mem(dst := mem src))"
    unfolding memcpy.simps by (rule Suc.IH)
  moreover have "loaded (src + 1) n (mem(dst := mem src)) = loaded (src + 1) n mem"
    using Suc.prems by (intro loaded_cong) auto
  ultimately show ?case by (simp add: loaded_Suc stored_Cons)
qed simp

lemma memmove_down_eq: "src < dst \<Longrightarrow> memmove_down (dst + n) (src + n) n mem = stored dst (loaded src n mem) mem"
proof (induction n arbitrary: mem)
  case (Suc n)
  define m1 where "m1 = mem(dst + n := mem (src + n))"
  have "memmove_down (dst + Suc n) (src + Suc n) (Suc n) mem = stored dst (loaded src n m1) m1"
    using Suc by (simp add: m1_def)
  moreover have "loaded src n m1 = loaded src n mem"
    using Suc.prems by (intro loaded_cong) (auto simp: m1_def)
  ultimately show ?case by (simp add: loaded_snoc stored_append stored_Cons m1_def)
qed simp

lemma memcmp_eq: "memcmp mem s1 s2 n = 0 \<longleftrightarrow> loaded s1 n mem = loaded s2 n mem"
  by (induction n arbitrary: s1 s2) (auto simp: loaded_Suc dest: word_uint_eqI)

lemma memcpy_disjoint:
  assumes "{dst..<dst + n} \<inter> {src..<src + n} = {}"
  shows "memcpy dst src n mem a = (if a \<in> {dst..<dst + n} then mem (src + (a - dst)) else mem a)"
proof (cases "n = 0")
  case False
  have "dst \<le> src \<or> src + n \<le> dst"
  proof (rule ccontr)
    assume "\<not> (dst \<le> src \<or> src + n \<le> dst)"
    then have "dst \<in> {dst..<dst + n} \<inter> {src..<src + n}" using False by auto
    then show False using assms by simp
  qed
  then show ?thesis by (auto simp: memcpy_eq stored_def)
qed simp

subsection \<open>Strings\<close>

lemma strlen_loop_eq: "cstr mem s xs \<Longrightarrow> strlen_loop mem s cnt = Some (cnt + length xs)"
  by (induction xs arbitrary: s cnt) (simp_all add: strlen_loop.simps)

lemma strlen_eq: "cstr mem s xs \<Longrightarrow> strlen mem s = Some (length xs)"
  by (simp add: strlen_def strlen_loop_eq)

lemma strnlen_eq: "cstr mem s xs \<Longrightarrow> strnlen mem s n = min n (length xs)"
proof (induction n arbitrary: s xs)
  case (Suc n)
  then show ?case by (cases xs) auto
qed simp

lemma strnlen_le: "strnlen mem a n \<le> n"
  by (induction n arbitrary: a) auto

lemma strnlen_nonzero: "i < strnlen mem a n \<Longrightarrow> mem (a + i) \<noteq> 0"
proof (induction n arbitrary: a i)
  case (Suc n)
  then show ?case using Suc.IH[of "i - 1" "a + 1"] by (cases i) (auto split: if_splits)
qed simp

lemma strnlen_zero: "strnlen mem a n < n \<Longrightarrow> mem (a + strnlen mem a n) = 0"
proof (induction n arbitrary: a)
  case (Suc n)
  then show ?case using Suc.IH[of "a + 1"] by (auto split: if_splits)
qed simp

lemma cstr_cong: "(\<And>b. a \<le> b \<Longrightarrow> b \<le> a + length xs \<Longrightarrow> mem b = mem' b) \<Longrightarrow> cstr mem a xs = cstr mem' a xs"
proof (induction xs arbitrary: a)
  case (Cons x xs)
  have "cstr mem (a + 1) xs = cstr mem' (a + 1) xs" using Cons.prems by (intro Cons.IH) auto
  then show ?case using Cons.prems[of a] by simp
qed simp

lemma cstr_upd: "b < a \<or> a + length xs < b \<Longrightarrow> cstr (mem(b := v)) a xs = cstr mem a xs"
  by (rule cstr_cong) auto

text \<open>A copy may write below the source as it is read, or behind its end.\<close>

lemma strcpy_eq:
  "cstr mem src xs \<Longrightarrow> dst \<le> src \<or> src + length xs < dst \<Longrightarrow>
   strcpy dst src mem = Some (stored dst (xs @ [0]) mem)"
proof (induction xs arbitrary: dst src mem)
  case (Cons x xs)
  have c: "cstr (mem(dst := x)) (src + 1) xs" using Cons.prems by (subst cstr_upd) auto
  have "strcpy (dst + 1) (src + 1) (mem(dst := x)) = Some (stored (dst + 1) (xs @ [0]) (mem(dst := x)))"
    using Cons.prems by (intro Cons.IH c) auto
  then show ?case using Cons.prems(1) by (simp add: strcpy.simps[of dst] stored_Cons)
qed (simp add: strcpy.simps stored_Cons)

lemma strncpy_pad: "mem src = 0 \<Longrightarrow> strncpy dst src n mem = stored dst (replicate n 0) mem"
  by (induction n arbitrary: dst mem) (simp_all add: stored_Cons)

lemma strncpy_eq:
  "cstr mem src xs \<Longrightarrow> dst \<le> src \<or> src + length xs < dst \<Longrightarrow>
   strncpy dst src n mem = stored dst (take n (xs @ replicate n 0)) mem"
proof (induction n arbitrary: dst src mem xs)
  case (Suc n)
  show ?case
  proof (cases xs)
    case Nil
    then show ?thesis using Suc.prems(1) strncpy_pad[of mem src dst "Suc n"] by simp
  next
    case (Cons x ys)
    have c: "cstr (mem(dst := x)) (src + 1) ys" using Suc.prems Cons by (subst cstr_upd) auto
    have "strncpy (dst + 1) (src + 1) n (mem(dst := x)) = stored (dst + 1) (take n (ys @ replicate n 0)) (mem(dst := x))"
      using Suc.prems Cons by (intro Suc.IH c) auto
    moreover have "take n (ys @ replicate (Suc n) 0) = take n (ys @ replicate n (0::8 word))"
      by (simp add: min_def del: replicate_Suc)
    ultimately show ?thesis using Suc.prems(1) Cons by (simp add: stored_Cons del: replicate_Suc)
  qed
qed simp

lemma strcat_eq:
  assumes "cstr mem dst xs" "cstr mem src ys" "dst + length xs \<le> src \<or> src + length ys < dst"
  shows "strcat dst src mem = Some (stored dst (xs @ ys @ [0]) mem)"
proof -
  have "strcpy (dst + length xs) src mem = Some (stored (dst + length xs) (ys @ [0]) mem)"
    using assms by (intro strcpy_eq) auto
  moreover have "stored dst xs m = m" if "\<forall>i<length xs. m (dst + i) = xs ! i" for m
  proof
    fix a
    show "stored dst xs m a = m a" using that[rule_format, of "a - dst"] by (auto simp: stored_def)
  qed
  moreover have "stored (dst + length xs) (ys @ [0]) mem (dst + i) = xs ! i" if "i < length xs" for i
  proof -
    have "mem (dst + i) = loaded dst (length xs) mem ! i" using that by simp
    also have "loaded dst (length xs) mem = xs" using assms(1) by (simp add: cstr_iff)
    finally show ?thesis using that by (simp add: stored_def)
  qed
  ultimately show ?thesis
    by (simp add: strcat_def strlen_eq[OF assms(1)] stored_append[of dst xs "ys @ [0]"])
qed

lemma strcmp_eq: "cstr mem s1 xs \<Longrightarrow> cstr mem s2 ys \<Longrightarrow> strcmp mem s1 s2 = Some (str_diff xs ys)"
proof (induction xs ys arbitrary: s1 s2 rule: str_diff.induct)
  case (4 x xs y ys)
  then show ?case by (simp add: strcmp.simps[of mem s1 s2])
qed (simp_all add: strcmp.simps)

lemma strncmp_eq: "cstr mem s1 xs \<Longrightarrow> cstr mem s2 ys \<Longrightarrow> strncmp mem s1 s2 n = str_diff (take n xs) (take n ys)"
proof (induction n arbitrary: s1 s2 xs ys)
  case (Suc n)
  then show ?case by (cases xs; cases ys) auto
qed simp

lemma strchr_eq:
  "cstr mem s xs \<Longrightarrow> strchr mem s c =
     Some (if c \<in> set xs then Some (s + length (takeWhile (\<lambda>x. x \<noteq> c) xs)) else None)"
  by (induction xs arbitrary: s) (auto simp: strchr.simps)

lemma strfind_eq: "cstr mem s xs \<Longrightarrow> strfind mem s c = Some (s + length (takeWhile (\<lambda>x. x \<noteq> c) xs))"
  by (induction xs arbitrary: s) (auto simp: strfind.simps)

text \<open>The sign of a comparison is the lexicographic order of the bytes as unsigned numbers.\<close>

lemma str_diff_eq_0: "0 \<notin> set xs \<Longrightarrow> 0 \<notin> set ys \<Longrightarrow> str_diff xs ys = 0 \<longleftrightarrow> xs = ys"
  by (induction xs ys rule: str_diff.induct) (auto dest: word_uint_eqI simp: uint_0_iff)

lemma str_diff_neg: "0 \<notin> set xs \<Longrightarrow> 0 \<notin> set ys \<Longrightarrow> str_diff xs ys < 0 \<longleftrightarrow> ord_class.lexordp xs ys"
proof (induction xs ys rule: str_diff.induct)
  case (2 y ys)
  then have "uint y \<noteq> 0" by (simp add: uint_0_iff)
  then have "0 < uint y" using uint_ge_0[of y] by linarith
  then show ?case by simp
next
  case (4 x xs y ys)
  have "x = y \<or> uint x < uint y \<or> uint y < uint x" using word_uint_eqI[of x y] by linarith
  then show ?case using 4 by (auto simp: word_less_def)
qed simp_all

subsection \<open>Numbers\<close>

text \<open>The digits at the start of a string.\<close>

fun digits_of :: "32 word \<Rightarrow> 8 word list \<Rightarrow> nat list" where
  "digits_of base [] = []"
| "digits_of base (x # xs) = (case strtol_digit x base of None \<Rightarrow> [] | Some d \<Rightarrow> d # digits_of base xs)"

lemma strtol_digit_0 [simp]: "strtol_digit 0 base = None"
  by (simp add: strtol_digit_def chr_def)

lemma strtol_digits_eq:
  "cstr mem s xs \<Longrightarrow> strtol_digits mem s base val =
     Some (fold (\<lambda>d v. v * scast base + of_nat d) (digits_of base xs) val, s + length (digits_of base xs))"
  by (induction xs arbitrary: s val) (auto simp: strtol_digits.simps split: option.splits)

lemma skip_white_eq:
  "cstr mem s xs \<Longrightarrow> skip_white mem s = Some (s + length (takeWhile (\<lambda>x. x = chr CHR '' '' \<or> x = chr CHR 0x09) xs))"
  by (induction xs arbitrary: s) (auto simp: skip_white.simps chr_def)

text \<open>
  C40. memmove is equivalent to the assignment of a snapshot: after the call the
  target area holds the bytes that the source area held before it, and every other byte of
  memory is unchanged, for every length and every overlap of the two areas in either
  direction. memcpy, with its single upward loop, gives the same memory whenever
  the target does not start strictly inside the source area.
\<close>

theorem memmove_equiv:
  "memmove dst src n mem = stored dst (loaded src n mem) mem \<and>
   (memcpy dst src n mem = memmove dst src n mem \<or> src < dst \<and> dst < src + n)"
  by (auto simp: memmove_def memcpy_eq memmove_down_eq)

end
