(* ===== verification/Vmm.thy ===== *)
theory Vmm
  imports PageTable StrLib
begin

text \<open>
  Virtual memory areas (\<^verbatim>\<open>kern/mm/vmm.c\<close>, \<^verbatim>\<open>kern/mm/vmm.h\<close>).

  A \<^verbatim>\<open>struct mm_struct *\<close> and a \<^verbatim>\<open>struct vma_struct *\<close> are numbers; the areas of
  an address space are linked at pointer level, in a ring whose header is the
  \<^verbatim>\<open>mmap_list\<close> of the \<open>mm\<close>. \<^verbatim>\<open>kmalloc\<close> is the parameter \<open>K\<close>: from the set of
  addresses in use it returns an address or fails. The loops that follow links are
  partial functions. Addresses are naturals below \<open>2 ^ 64\<close>. The byte memory \<open>umem\<close>
  is the memory that the running kernel sees through the current page table.
\<close>

unbundle bit_operations_syntax

subsection \<open>State\<close>

definition VM_READ :: "32 word" where "VM_READ = 1"
definition VM_WRITE :: "32 word" where "VM_WRITE = 2"
definition VM_EXEC :: "32 word" where "VM_EXEC = 4"
definition VM_STACK :: "32 word" where "VM_STACK = 8"

record vma_struct =
  vm_mm :: "nat option"
  vm_start :: nat
  vm_end :: nat
  vm_flags :: "32 word"

record mm_struct =
  mmap_cache :: "nat option"
  mm_pgdir :: "nat option"
  map_count :: int
  mm_count :: int
  mm_sem_value :: int

datatype mlink = MmapList nat | VmaLink nat

record vmm = vm +
  vmas :: "nat \<Rightarrow> vma_struct"
  mms :: "nat \<Rightarrow> mm_struct"
  mlinks :: "mlink list_heap"
  live_vmas :: "nat set"
  live_mms :: "nat set"
  umem :: "nat \<Rightarrow> 8 word"

type_synonym kmalloc = "nat set \<Rightarrow> nat option"

definition upd_vma :: "nat \<Rightarrow> (vma_struct \<Rightarrow> vma_struct) \<Rightarrow> 'b vmm_scheme \<Rightarrow> 'b vmm_scheme" where
  "upd_vma v f s = s\<lparr>vmas := (vmas s)(v := f (vmas s v))\<rparr>"

definition upd_mm :: "nat \<Rightarrow> (mm_struct \<Rightarrow> mm_struct) \<Rightarrow> 'b vmm_scheme \<Rightarrow> 'b vmm_scheme" where
  "upd_mm m f s = s\<lparr>mms := (mms s)(m := f (mms s m))\<rparr>"

definition set_mm_count :: "nat \<Rightarrow> int \<Rightarrow> 'b vmm_scheme \<Rightarrow> 'b vmm_scheme" where
  "set_mm_count m v s = upd_mm m (mm_count_update (\<lambda>_. v)) s"

definition mm_count_inc :: "nat \<Rightarrow> 'b vmm_scheme \<Rightarrow> int \<times> 'b vmm_scheme" where
  "mm_count_inc m s = (let s1 = upd_mm m (mm_count_update (\<lambda>c. c + 1)) s in (mm_count (mms s1 m), s1))"

definition mm_count_dec :: "nat \<Rightarrow> 'b vmm_scheme \<Rightarrow> int \<times> 'b vmm_scheme" where
  "mm_count_dec m s = (let s1 = upd_mm m (mm_count_update (\<lambda>c. c - 1)) s in (mm_count (mms s1 m), s1))"

subsection \<open>Operations on areas\<close>

definition mm_create :: "kmalloc \<Rightarrow> 'b vmm_scheme \<Rightarrow> nat option \<times> 'b vmm_scheme" where
  "mm_create K s =
     (case K (live_mms s) of
        None \<Rightarrow> (None, s)
      | Some m \<Rightarrow>
          let s1 = s\<lparr>live_mms := insert m (live_mms s), mlinks := list_init (mlinks s) (MmapList m)\<rparr>;
              s2 = upd_mm m (\<lambda>d. d\<lparr>mmap_cache := None, mm_pgdir := None, map_count := 0\<rparr>) s1;
              s3 = set_mm_count m 0 s2
          in (Some m, upd_mm m (\<lambda>d. d\<lparr>mm_sem_value := 1\<rparr>) s3))"

definition vma_create :: "kmalloc \<Rightarrow> nat \<Rightarrow> nat \<Rightarrow> 32 word \<Rightarrow> 'b vmm_scheme \<Rightarrow> nat option \<times> 'b vmm_scheme" where
  "vma_create K st en fl s =
     (case K (live_vmas s) of
        None \<Rightarrow> (None, s)
      | Some v \<Rightarrow>
          (Some v, upd_vma v (\<lambda>d. d\<lparr>vm_start := st, vm_end := en, vm_flags := fl\<rparr>)
             (s\<lparr>live_vmas := insert v (live_vmas s)\<rparr>)))"

abbreviation vma_covers :: "'b vmm_scheme \<Rightarrow> nat \<Rightarrow> nat \<Rightarrow> bool" where
  "vma_covers s v addr \<equiv> vm_start (vmas s v) \<le> addr \<and> addr < vm_end (vmas s v)"

text \<open>The search along the ring.\<close>

partial_function (option) find_vma_loop :: "'b vmm_scheme \<Rightarrow> nat \<Rightarrow> mlink \<Rightarrow> nat \<Rightarrow> nat option option" where
  "find_vma_loop s m le addr =
     (case list_next (mlinks s) le of
        MmapList _ \<Rightarrow> Some None
      | VmaLink v \<Rightarrow> if vma_covers s v addr then Some (Some v) else find_vma_loop s m (VmaLink v) addr)"

definition find_vma :: "nat option \<Rightarrow> nat \<Rightarrow> 'b vmm_scheme \<Rightarrow> (nat option \<times> 'b vmm_scheme) option" where
  "find_vma mm addr s =
     (case mm of
        None \<Rightarrow> Some (None, s)
      | Some m \<Rightarrow>
          do { r \<leftarrow> (case mmap_cache (mms s m) of
                        Some v \<Rightarrow> if vma_covers s v addr then Some (Some v)
                                   else find_vma_loop s m (MmapList m) addr
                      | None \<Rightarrow> find_vma_loop s m (MmapList m) addr);
               Some (r, if r \<noteq> None then upd_mm m (mmap_cache_update (\<lambda>_. r)) s else s) })"

definition check_vma_overlap :: "'b vmm_scheme \<Rightarrow> nat \<Rightarrow> nat \<Rightarrow> unit option" where
  "check_vma_overlap s p n =
     do { kassert (vm_start (vmas s p) < vm_end (vmas s p));
          kassert (vm_end (vmas s p) \<le> vm_start (vmas s n));
          kassert (vm_start (vmas s n) < vm_end (vmas s n)) }"

text \<open>The search for the insertion point, with the variable \<open>le_prev\<close>.\<close>

partial_function (option) insert_vma_loop :: "'b vmm_scheme \<Rightarrow> mlink \<Rightarrow> nat \<Rightarrow> mlink option" where
  "insert_vma_loop s le_prev st =
     (case list_next (mlinks s) le_prev of
        MmapList _ \<Rightarrow> Some le_prev
      | VmaLink v \<Rightarrow> if st < vm_start (vmas s v) then Some le_prev else insert_vma_loop s (VmaLink v) st)"

definition insert_vma_struct :: "nat \<Rightarrow> nat \<Rightarrow> 'b vmm_scheme \<Rightarrow> 'b vmm_scheme option" where
  "insert_vma_struct m v s =
     do { kassert (vm_start (vmas s v) < vm_end (vmas s v));
          le_prev \<leftarrow> insert_vma_loop s (MmapList m) (vm_start (vmas s v));
          let le_next = list_next (mlinks s) le_prev;
          (case le_prev of MmapList _ \<Rightarrow> Some () | VmaLink p \<Rightarrow> check_vma_overlap s p v);
          (case le_next of MmapList _ \<Rightarrow> Some () | VmaLink n \<Rightarrow> check_vma_overlap s v n);
          let s1 = upd_vma v (vm_mm_update (\<lambda>_. Some m)) s;
          let s2 = s1\<lparr>mlinks := list_add_after (mlinks s1) le_prev (VmaLink v)\<rparr>;
          Some (upd_mm m (map_count_update (\<lambda>c. c + 1)) s2) }"

partial_function (option) mm_destroy_loop :: "nat \<Rightarrow> 'b vmm_scheme \<Rightarrow> 'b vmm_scheme option" where
  "mm_destroy_loop m s =
     (case list_next (mlinks s) (MmapList m) of
        MmapList _ \<Rightarrow> Some s
      | VmaLink v \<Rightarrow>
          mm_destroy_loop m (s\<lparr>mlinks := list_del (mlinks s) (VmaLink v), live_vmas := live_vmas s - {v}\<rparr>))"

definition mm_destroy :: "nat \<Rightarrow> 'b vmm_scheme \<Rightarrow> 'b vmm_scheme option" where
  "mm_destroy m s =
     do { kassert (mm_count (mms s m) = 0);
          s1 \<leftarrow> mm_destroy_loop m s;
          Some (s1\<lparr>live_mms := live_mms s1 - {m}\<rparr>) }"

definition mm_map :: "kmalloc \<Rightarrow> nat option \<Rightarrow> nat \<Rightarrow> nat \<Rightarrow> 32 word \<Rightarrow> 'b vmm_scheme \<Rightarrow> (int \<times> nat option \<times> 'b vmm_scheme) option" where
  "mm_map K mm addr len fl s =
     (let start = ROUNDDOWN addr PGSIZE; fin = ROUNDUP (u64 (addr + len)) PGSIZE in
      if \<not> USER_ACCESS start fin then Some (- E_INVAL, None, s)
      else do { kassert (mm \<noteq> None);
                (r, s1) \<leftarrow> find_vma mm start s;
                if (case r of None \<Rightarrow> False | Some v \<Rightarrow> vm_start (vmas s1 v) < fin)
                then Some (- E_INVAL, None, s1)
                else (case vma_create K start fin fl s1 of
                        (None, s2) \<Rightarrow> Some (- E_NO_MEM, None, s2)
                      | (Some v, s2) \<Rightarrow> do { s3 \<leftarrow> insert_vma_struct (the mm) v s2; Some (0, Some v, s3) }) })"

text \<open>
  Duplicating an address space walks the areas from the last to the first.
\<close>

partial_function (option) dup_mmap_loop ::
  "pmm_ops \<Rightarrow> kmalloc \<Rightarrow> nat \<Rightarrow> nat \<Rightarrow> mlink \<Rightarrow> 'b vmm_scheme \<Rightarrow> (int \<times> 'b vmm_scheme) option" where
  "dup_mmap_loop M K to from le s =
     (case list_prev (mlinks s) le of
        MmapList _ \<Rightarrow> Some (0, s)
      | VmaLink v \<Rightarrow>
          (case vma_create K (vm_start (vmas s v)) (vm_end (vmas s v)) (vm_flags (vmas s v)) s of
             (None, s1) \<Rightarrow> Some (- E_NO_MEM, s1)
           | (Some nv, s1) \<Rightarrow>
               do { s2 \<leftarrow> insert_vma_struct to nv s1;
                    tp \<leftarrow> mm_pgdir (mms s2 to);
                    fp \<leftarrow> mm_pgdir (mms s2 from);
                    (ret, s3) \<leftarrow> copy_range M tp fp (vm_start (vmas s2 v)) (vm_end (vmas s2 v)) s2;
                    if ret \<noteq> 0 then Some (- E_NO_MEM, s3)
                    else dup_mmap_loop M K to from (VmaLink v) s3 }))"

definition dup_mmap :: "pmm_ops \<Rightarrow> kmalloc \<Rightarrow> nat option \<Rightarrow> nat option \<Rightarrow> 'b vmm_scheme \<Rightarrow> (int \<times> 'b vmm_scheme) option" where
  "dup_mmap M K to from s =
     (case (to, from) of
        (Some t, Some f) \<Rightarrow> dup_mmap_loop M K t f (MmapList f) s
      | _ \<Rightarrow> kpanic)"

text \<open>The two loops of \<open>exit_mmap\<close>: unmap every area, then release the tables.\<close>

partial_function (option) exit_unmap_loop :: "pmm_ops \<Rightarrow> nat \<Rightarrow> mlink \<Rightarrow> 'b vmm_scheme \<Rightarrow> 'b vmm_scheme option" where
  "exit_unmap_loop M pd le s =
     (case list_next (mlinks s) le of
        MmapList _ \<Rightarrow> Some s
      | VmaLink v \<Rightarrow>
          do { s1 \<leftarrow> unmap_range M pd (vm_start (vmas s v)) (vm_end (vmas s v)) s;
               exit_unmap_loop M pd (VmaLink v) s1 })"

partial_function (option) exit_tables_loop :: "pmm_ops \<Rightarrow> nat \<Rightarrow> mlink \<Rightarrow> 'b vmm_scheme \<Rightarrow> 'b vmm_scheme option" where
  "exit_tables_loop M pd le s =
     (case list_next (mlinks s) le of
        MmapList _ \<Rightarrow> Some s
      | VmaLink v \<Rightarrow>
          do { s1 \<leftarrow> exit_range M pd (vm_start (vmas s v)) (vm_end (vmas s v)) s;
               exit_tables_loop M pd (VmaLink v) s1 })"

definition exit_mmap :: "pmm_ops \<Rightarrow> nat option \<Rightarrow> 'b vmm_scheme \<Rightarrow> 'b vmm_scheme option" where
  "exit_mmap M mm s =
     (case mm of
        None \<Rightarrow> kpanic
      | Some m \<Rightarrow>
          do { kassert (mm_count (mms s m) = 0);
               pd \<leftarrow> mm_pgdir (mms s m);
               s1 \<leftarrow> exit_unmap_loop M pd (MmapList m) s;
               exit_tables_loop M pd (MmapList m) s1 })"

subsection \<open>Checking user memory\<close>

partial_function (option) user_mem_loop :: "nat \<Rightarrow> nat \<Rightarrow> nat \<Rightarrow> bool \<Rightarrow> 'b vmm_scheme \<Rightarrow> (bool \<times> 'b vmm_scheme) option" where
  "user_mem_loop m start fin write s =
     (if start < fin then
        do { (r, s1) \<leftarrow> find_vma (Some m) start s;
             (case r of
                None \<Rightarrow> Some (False, s1)
              | Some v \<Rightarrow>
                  if start < vm_start (vmas s1 v) then Some (False, s1)
                  else if vm_flags (vmas s1 v) AND (if write then VM_WRITE else VM_READ) = 0 then Some (False, s1)
                  else if write \<and> vm_flags (vmas s1 v) AND VM_STACK \<noteq> 0 \<and>
                          start < u64 (vm_start (vmas s1 v) + PGSIZE) then Some (False, s1)
                  else user_mem_loop m (vm_end (vmas s1 v)) fin write s1) }
      else Some (True, s))"

definition user_mem_check :: "nat option \<Rightarrow> nat \<Rightarrow> nat \<Rightarrow> bool \<Rightarrow> 'b vmm_scheme \<Rightarrow> (bool \<times> 'b vmm_scheme) option" where
  "user_mem_check mm addr len write s =
     (case mm of
        None \<Rightarrow> Some (KERN_ACCESS addr (u64 (addr + len)), s)
      | Some m \<Rightarrow>
          if \<not> USER_ACCESS addr (u64 (addr + len)) then Some (False, s)
          else user_mem_loop m addr (u64 (addr + len)) write s)"


subsection \<open>Copying between user and kernel memory\<close>

definition copy_from_user :: "nat option \<Rightarrow> nat \<Rightarrow> nat \<Rightarrow> nat \<Rightarrow> bool \<Rightarrow> 'b vmm_scheme \<Rightarrow> (bool \<times> 'b vmm_scheme) option" where
  "copy_from_user mm dst src len writable s =
     do { (ok, s1) \<leftarrow> user_mem_check mm src len writable s;
          if \<not> ok then Some (False, s1)
          else Some (True, s1\<lparr>umem := memcpy dst src len (umem s1)\<rparr>) }"

definition copy_to_user :: "nat option \<Rightarrow> nat \<Rightarrow> nat \<Rightarrow> nat \<Rightarrow> 'b vmm_scheme \<Rightarrow> (bool \<times> 'b vmm_scheme) option" where
  "copy_to_user mm dst src len s =
     do { (ok, s1) \<leftarrow> user_mem_check mm dst len True s;
          if \<not> ok then Some (False, s1)
          else Some (True, s1\<lparr>umem := memcpy dst src len (umem s1)\<rparr>) }"

partial_function (option) copy_string_loop ::
  "nat option \<Rightarrow> nat \<Rightarrow> nat \<Rightarrow> nat \<Rightarrow> nat \<Rightarrow> 'b vmm_scheme \<Rightarrow> (bool \<times> 'b vmm_scheme) option" where
  "copy_string_loop mm dst src maxn prt s =
     do { let part = (if maxn < prt then maxn else prt);
          (ok, s1) \<leftarrow> user_mem_check mm src part False s;
          if \<not> ok then Some (False, s1)
          else do { let alen = strnlen (umem s1) src part;
                    if alen < part then Some (True, s1\<lparr>umem := memcpy dst src (alen + 1) (umem s1)\<rparr>)
                    else if part = maxn then Some (False, s1)
                    else copy_string_loop mm (u64 (dst + part)) (u64 (src + part)) (maxn - part) PGSIZE
                           (s1\<lparr>umem := memcpy dst src part (umem s1)\<rparr>) } }"

definition copy_string :: "nat option \<Rightarrow> nat \<Rightarrow> nat \<Rightarrow> nat \<Rightarrow> 'b vmm_scheme \<Rightarrow> (bool \<times> 'b vmm_scheme) option" where
  "copy_string mm dst src maxn s =
     copy_string_loop mm dst src maxn (u64 (ROUNDDOWN (u64 (src + PGSIZE)) PGSIZE + (2 ^ 64 - src))) s"

end
