(* ===== verification/VmmSpec.thy ===== *)
theory VmmSpec
  imports Vmm
begin

text \<open>
  Correctness of the memory areas: the ring of an address space holds disjoint areas
  in the order of their addresses, the cache never changes a result, a new area is
  accepted exactly when it overlaps no other, and the check of user memory accepts
  exactly the ranges that are covered by areas with the right flags.
\<close>

unbundle bit_operations_syntax

subsection \<open>The areas of an address space\<close>

definition before :: "'b vmm_scheme \<Rightarrow> nat \<Rightarrow> nat \<Rightarrow> bool" where
  "before s v w \<longleftrightarrow> vm_end (vmas s v) \<le> vm_start (vmas s w)"

definition mm_ok :: "nat \<Rightarrow> nat list \<Rightarrow> 'b vmm_scheme \<Rightarrow> bool" where
  "mm_ok m vs s \<longleftrightarrow> dlist (mlinks s) (MmapList m) (map VmaLink vs) \<and>
     (\<forall>v\<in>set vs. vm_start (vmas s v) < vm_end (vmas s v) \<and> vm_end (vmas s v) \<le> USERTOP \<and> v \<in> live_vmas s) \<and>
     sorted_wrt (before s) vs \<and>
     (\<forall>v. mmap_cache (mms s m) = Some v \<longrightarrow> v \<in> set vs) \<and>
     map_count (mms s m) = int (length vs)"

lemma mm_okD:
  assumes "mm_ok m vs s"
  shows "dlist (mlinks s) (MmapList m) (map VmaLink vs)"
    "v \<in> set vs \<Longrightarrow> vm_start (vmas s v) < vm_end (vmas s v)" "v \<in> set vs \<Longrightarrow> vm_end (vmas s v) \<le> USERTOP"
    "v \<in> set vs \<Longrightarrow> v \<in> live_vmas s" "sorted_wrt (before s) vs"
    "mmap_cache (mms s m) = Some v \<Longrightarrow> v \<in> set vs" "map_count (mms s m) = int (length vs)"
  using assms by (auto simp: mm_ok_def)

lemma ring_next:
  assumes "dlist h (MmapList m) (map VmaLink (xs @ ys))"
  shows "list_next h (last (MmapList m # map VmaLink xs)) = (case ys of [] \<Rightarrow> MmapList m | y # _ \<Rightarrow> VmaLink y)"
  using dlist_next[of h "MmapList m" "map VmaLink xs" "map VmaLink ys"] assms
  by (cases ys) (simp_all del: last.simps)

lemma last_link: "last (MmapList m # map VmaLink (xs @ [y])) = VmaLink y"
  by simp

lemma covers_unique:
  assumes "sorted_wrt (before s) vs" "v \<in> set vs" "w \<in> set vs" "vma_covers s v a" "vma_covers s w a"
  shows "v = w"
  using assms by (induction vs) (auto simp: before_def)

lemma find_vma_loop_ok:
  assumes "dlist (mlinks s) (MmapList m) (map VmaLink (xs @ ys))"
  shows "find_vma_loop s m (last (MmapList m # map VmaLink xs)) addr = Some (find (\<lambda>v. vma_covers s v addr) ys)"
  using assms
proof (induction ys arbitrary: xs)
  case Nil
  then show ?case using ring_next[OF Nil] by (subst find_vma_loop.simps) (simp del: last.simps)
next
  case (Cons y ys)
  have "find_vma_loop s m (last (MmapList m # map VmaLink (xs @ [y]))) addr = Some (find (\<lambda>v. vma_covers s v addr) ys)"
    by (rule Cons.IH) (use Cons.prems in simp)
  then show ?case using ring_next[OF Cons.prems] unfolding last_link by (subst find_vma_loop.simps) (auto simp del: last.simps)
qed

text \<open>The cache is transparent: the result is the search's, whatever is cached.\<close>

lemma find_vma_ok:
  fixes addr :: nat
  assumes ok: "mm_ok m vs s"
  defines "r \<equiv> find (\<lambda>v. vma_covers s v addr) vs"
  defines "s' \<equiv> if r \<noteq> None then upd_mm m (mmap_cache_update (\<lambda>_. r)) s else s"
  shows "find_vma (Some m) addr s = Some (r, s')" "mm_ok m vs s'" "vmas s' = vmas s"
    "live_vmas s' = live_vmas s" "umem s' = umem s" "mlinks s' = mlinks s" "live_mms s' = live_mms s"
proof -
  have loop: "find_vma_loop s m (MmapList m) addr = Some r"
    using find_vma_loop_ok[of s m "[]" vs addr] mm_okD(1)[OF ok] by (simp add: r_def)
  have "Some v = r" if c: "mmap_cache (mms s m) = Some v" "vma_covers s v addr" for v
  proof -
    have v: "v \<in> set vs" using mm_okD(6)[OF ok c(1)] .
    then obtain w where w: "r = Some w" "w \<in> set vs" "vma_covers s w addr"
      using c(2) unfolding r_def by (cases "find (\<lambda>v. vma_covers s v addr) vs")
        (auto simp: find_None_iff find_Some_iff)
    then show ?thesis using covers_unique[OF mm_okD(5)[OF ok] v w(2) c(2) w(3)] by simp
  qed
  then show "find_vma (Some m) addr s = Some (r, s')"
    using loop by (auto simp: find_vma_def s'_def split: option.splits)
  have "v \<in> set vs" if "r = Some v" for v using that by (auto simp: r_def find_Some_iff)
  then show "mm_ok m vs s'" using ok by (auto simp: s'_def mm_ok_def upd_mm_def before_def[abs_def])
qed (simp_all add: s'_def upd_mm_def)

subsection \<open>Inserting an area\<close>

lemma insert_vma_loop_ok:
  assumes "dlist (mlinks s) (MmapList m) (map VmaLink (xs @ ys))"
  shows "insert_vma_loop s (last (MmapList m # map VmaLink xs)) st =
    Some (last (MmapList m # map VmaLink (xs @ takeWhile (\<lambda>v. vm_start (vmas s v) \<le> st) ys)))"
  using assms
proof (induction ys arbitrary: xs)
  case Nil
  then show ?case using ring_next[OF Nil] by (subst insert_vma_loop.simps) (simp del: last.simps)
next
  case (Cons y ys)
  have "insert_vma_loop s (last (MmapList m # map VmaLink (xs @ [y]))) st =
     Some (last (MmapList m # map VmaLink ((xs @ [y]) @ takeWhile (\<lambda>v. vm_start (vmas s v) \<le> st) ys)))"
    by (rule Cons.IH) (use Cons.prems in simp)
  then show ?case using ring_next[OF Cons.prems] unfolding last_link
    by (subst insert_vma_loop.simps) (auto simp: not_less simp del: last.simps) 
qed

definition no_overlap :: "'b vmm_scheme \<Rightarrow> nat list \<Rightarrow> nat \<Rightarrow> nat \<Rightarrow> bool" where
  "no_overlap s vs st en \<longleftrightarrow> (\<forall>w\<in>set vs. en \<le> vm_start (vmas s w) \<or> vm_end (vmas s w) \<le> st)"

lemma no_overlap_split:
  assumes ok: "mm_ok m vs s" and lt: "st < en"
  defines "us \<equiv> takeWhile (\<lambda>v. vm_start (vmas s v) \<le> st) vs"
  defines "ws \<equiv> dropWhile (\<lambda>v. vm_start (vmas s v) \<le> st) vs"
  shows "no_overlap s vs st en \<longleftrightarrow> (us \<noteq> [] \<longrightarrow> vm_end (vmas s (last us)) \<le> st) \<and> (ws \<noteq> [] \<longrightarrow> en \<le> vm_start (vmas s (hd ws)))"
    "no_overlap s vs st en \<Longrightarrow> (\<forall>u\<in>set us. vm_end (vmas s u) \<le> st) \<and> (\<forall>w\<in>set ws. en \<le> vm_start (vmas s w))"
proof -
  have vs: "vs = us @ ws" by (simp add: us_def ws_def)
  have srt: "sorted_wrt (before s) us" "sorted_wrt (before s) ws" using mm_okD(5)[OF ok] vs by (auto simp: sorted_wrt_append)
  have lo: "vm_start (vmas s u) \<le> st" if "u \<in> set us" for u using that set_takeWhileD by (fastforce simp: us_def)
  have lu: "vm_end (vmas s u) \<le> vm_end (vmas s (last us))" if "u \<in> set us" for u
  proof (cases us rule: rev_cases)
    case (snoc xs x)
    have "vm_start (vmas s x) < vm_end (vmas s x)" using mm_okD(2)[OF ok] vs snoc by simp
    then show ?thesis using that srt(1) snoc by (auto simp: sorted_wrt_append before_def)
  qed (use that in simp)
  have hw: "vm_start (vmas s (hd ws)) \<le> vm_start (vmas s w)" if "w \<in> set ws" for w
  proof (cases ws)
    case (Cons x xs)
    have "vm_start (vmas s x) < vm_end (vmas s x)" using mm_okD(2)[OF ok] vs Cons by simp
    then show ?thesis using that srt(2) Cons by (auto simp: before_def)
  qed (use that in simp)
  have hi: "st < vm_start (vmas s (hd ws))" if "ws \<noteq> []"
    using hd_dropWhile[of "\<lambda>v. vm_start (vmas s v) \<le> st" vs] that by (simp add: ws_def)
  have pos: "vm_start (vmas s v) < vm_end (vmas s v)" if "v \<in> set vs" for v using mm_okD(2)[OF ok that] .
  have all: "(\<forall>u\<in>set us. vm_end (vmas s u) \<le> st) \<and> (\<forall>w\<in>set ws. en \<le> vm_start (vmas s w))"
    if n: "no_overlap s vs st en"
  proof (intro conjI ballI)
    fix u assume u: "u \<in> set us"
    then have "en \<le> vm_start (vmas s u) \<or> vm_end (vmas s u) \<le> st" using n vs by (auto simp: no_overlap_def)
    then show "vm_end (vmas s u) \<le> st" using lo[OF u] lt by auto
  next
    fix w assume w: "w \<in> set ws"
    then have "en \<le> vm_start (vmas s w) \<or> vm_end (vmas s w) \<le> st" using n vs by (auto simp: no_overlap_def)
    moreover have "ws \<noteq> []" using w by auto
    then have "st < vm_start (vmas s w)" using hi hw[OF w] by simp
    ultimately show "en \<le> vm_start (vmas s w)" using pos[of w] w vs by auto
  qed
  then show "no_overlap s vs st en \<Longrightarrow> (\<forall>u\<in>set us. vm_end (vmas s u) \<le> st) \<and> (\<forall>w\<in>set ws. en \<le> vm_start (vmas s w))" .
  show "no_overlap s vs st en \<longleftrightarrow> (us \<noteq> [] \<longrightarrow> vm_end (vmas s (last us)) \<le> st) \<and> (ws \<noteq> [] \<longrightarrow> en \<le> vm_start (vmas s (hd ws)))"
  proof
    assume "no_overlap s vs st en"
    then show "(us \<noteq> [] \<longrightarrow> vm_end (vmas s (last us)) \<le> st) \<and> (ws \<noteq> [] \<longrightarrow> en \<le> vm_start (vmas s (hd ws)))"
      using all by simp
  next
    assume h: "(us \<noteq> [] \<longrightarrow> vm_end (vmas s (last us)) \<le> st) \<and> (ws \<noteq> [] \<longrightarrow> en \<le> vm_start (vmas s (hd ws)))"
    show "no_overlap s vs st en" unfolding no_overlap_def vs
    proof
      fix w assume "w \<in> set (us @ ws)"
      then consider "w \<in> set us" | "w \<in> set ws" by auto
      then show "en \<le> vm_start (vmas s w) \<or> vm_end (vmas s w) \<le> st"
      proof cases
        case 1
        then have "us \<noteq> []" by auto
        then show ?thesis using h lu[OF 1] by auto
      next
        case 2
        then have "ws \<noteq> []" by auto
        then show ?thesis using h hw[OF 2] by auto
      qed
    qed
  qed
qed


lemma insert_vma_ok:
  assumes ok: "mm_ok m vs s" and v: "v \<notin> set vs" "v \<in> live_vmas s"
    and lt: "vm_start (vmas s v) < vm_end (vmas s v)" and top: "vm_end (vmas s v) \<le> USERTOP"
    and no: "no_overlap s vs (vm_start (vmas s v)) (vm_end (vmas s v))"
  shows "\<exists>us ws s'. insert_vma_struct m v s = Some s' \<and> vs = us @ ws \<and> mm_ok m (us @ v # ws) s' \<and>
    (\<forall>w. vm_start (vmas s' w) = vm_start (vmas s w) \<and> vm_end (vmas s' w) = vm_end (vmas s w) \<and>
       vm_flags (vmas s' w) = vm_flags (vmas s w)) \<and> vm_mm (vmas s' v) = Some m \<and>
    live_vmas s' = live_vmas s"
proof -
  define st where "st = vm_start (vmas s v)"
  define us ws where "us = takeWhile (\<lambda>v. vm_start (vmas s v) \<le> st) vs"
    and "ws = dropWhile (\<lambda>v. vm_start (vmas s v) \<le> st) vs"
  have vs: "vs = us @ ws" by (simp add: us_def ws_def)
  note sp = no_overlap_split[OF ok lt, folded st_def, folded us_def ws_def]
  have d: "dlist (mlinks s) (MmapList m) (map VmaLink (us @ ws))" using mm_okD(1)[OF ok] vs by simp
  have lp: "insert_vma_loop s (MmapList m) st = Some (last (MmapList m # map VmaLink us))"
    using insert_vma_loop_ok[of s m "[]" vs st] mm_okD(1)[OF ok] by (simp add: us_def)
  have nx: "list_next (mlinks s) (last (MmapList m # map VmaLink us)) = (case ws of [] \<Rightarrow> MmapList m | y # _ \<Rightarrow> VmaLink y)"
    by (rule ring_next[OF d])
  have fit: "us \<noteq> [] \<longrightarrow> vm_end (vmas s (last us)) \<le> st" "ws \<noteq> [] \<longrightarrow> vm_end (vmas s v) \<le> vm_start (vmas s (hd ws))"
    using sp(1) no by (auto simp: st_def)
  have pos: "vm_start (vmas s w) < vm_end (vmas s w)" if "w \<in> set us \<union> set ws" for w
    using mm_okD(2)[OF ok, of w] that vs by auto
  have c1: "(case last (MmapList m # map VmaLink us) of MmapList _ \<Rightarrow> Some () | VmaLink p \<Rightarrow> check_vma_overlap s p v) = Some ()"
    using fit(1) pos lt by (cases us rule: rev_cases) (auto simp: check_vma_overlap_def st_def kassert_def)
  have c2: "(case (case ws of [] \<Rightarrow> MmapList m | y # _ \<Rightarrow> VmaLink y) of
      MmapList _ \<Rightarrow> Some () | VmaLink n \<Rightarrow> check_vma_overlap s v n) = Some ()"
    using fit(2) pos lt by (cases ws) (auto simp: check_vma_overlap_def kassert_def)
  define s' where "s' = upd_mm m (map_count_update (\<lambda>c. c + 1)) ((upd_vma v (vm_mm_update (\<lambda>_. Some m)) s)
     \<lparr>mlinks := list_add_after (mlinks s) (last (MmapList m # map VmaLink us)) (VmaLink v)\<rparr>)"
  have ins: "insert_vma_struct m v s = Some s'"
    using lt lp nx c1 c2 by (simp add: insert_vma_struct_def s'_def st_def upd_vma_def del: last.simps)
  have f: "vm_start (vmas s' w) = vm_start (vmas s w)" "vm_end (vmas s' w) = vm_end (vmas s w)"
    "vm_flags (vmas s' w) = vm_flags (vmas s w)" for w
    by (simp_all add: s'_def upd_mm_def upd_vma_def)
  have f': "live_vmas s' = live_vmas s" "vm_mm (vmas s' v) = Some m"
    "mlinks s' = list_add_after (mlinks s) (last (MmapList m # map VmaLink us)) (VmaLink v)"
    "mmap_cache (mms s' m) = mmap_cache (mms s m)" "map_count (mms s' m) = map_count (mms s m) + 1"
    by (simp_all add: s'_def upd_mm_def upd_vma_def)
  have "dlist (mlinks s') (MmapList m) (map VmaLink us @ VmaLink v # map VmaLink ws)"
    unfolding f'(3) by (rule dlist_add_after) (use d v(1) vs in auto)
  moreover have bf: "before s' = before s" by (simp add: before_def f fun_eq_iff)
  have "sorted_wrt (before s') (us @ v # ws)"
    using sp(2)[OF no[folded st_def]] mm_okD(5)[OF ok] unfolding vs bf
    by (auto simp: sorted_wrt_append st_def before_def)
  ultimately have "mm_ok m (us @ v # ws) s'"
    using ok v(2) lt top unfolding mm_ok_def vs f f' by auto
  then show ?thesis using ins vs f f' by blast
qed

text \<open>An area that overlaps another one runs into an assertion.\<close>

lemma insert_vma_overlap:
  assumes ok: "mm_ok m vs s" and lt: "vm_start (vmas s v) < vm_end (vmas s v)"
    and no: "\<not> no_overlap s vs (vm_start (vmas s v)) (vm_end (vmas s v))"
  shows "insert_vma_struct m v s = None"
proof -
  define st where "st = vm_start (vmas s v)"
  define us ws where "us = takeWhile (\<lambda>v. vm_start (vmas s v) \<le> st) vs"
    and "ws = dropWhile (\<lambda>v. vm_start (vmas s v) \<le> st) vs"
  have vs: "vs = us @ ws" by (simp add: us_def ws_def)
  note sp = no_overlap_split[OF ok lt, folded st_def, folded us_def ws_def]
  have d: "dlist (mlinks s) (MmapList m) (map VmaLink (us @ ws))" using mm_okD(1)[OF ok] vs by simp
  have lp: "insert_vma_loop s (MmapList m) st = Some (last (MmapList m # map VmaLink us))"
    using insert_vma_loop_ok[of s m "[]" vs st] mm_okD(1)[OF ok] by (simp add: us_def)
  have nx: "list_next (mlinks s) (last (MmapList m # map VmaLink us)) = (case ws of [] \<Rightarrow> MmapList m | y # _ \<Rightarrow> VmaLink y)"
    by (rule ring_next[OF d])
  have "(us \<noteq> [] \<and> \<not> vm_end (vmas s (last us)) \<le> st) \<or> (ws \<noteq> [] \<and> \<not> vm_end (vmas s v) \<le> vm_start (vmas s (hd ws)))"
    using sp(1) no by (auto simp: st_def)
  then show ?thesis
  proof
    assume "us \<noteq> [] \<and> \<not> vm_end (vmas s (last us)) \<le> st"
    then show ?thesis using lt lp
      by (cases us rule: rev_cases) (auto simp: insert_vma_struct_def st_def check_vma_overlap_def)
  next
    assume "ws \<noteq> [] \<and> \<not> vm_end (vmas s v) \<le> vm_start (vmas s (hd ws))"
    then show ?thesis using lt lp nx
      by (cases ws) (auto simp: insert_vma_struct_def st_def check_vma_overlap_def split: mlink.splits bind_splits simp del: last.simps)
  qed
qed


subsection \<open>Checking user memory\<close>

text \<open>States that differ in the cached area only.\<close>

definition cache_only :: "nat \<Rightarrow> 'b vmm_scheme \<Rightarrow> 'b vmm_scheme \<Rightarrow> bool" where
  "cache_only m s s' \<longleftrightarrow> (\<exists>c. s' = upd_mm m (mmap_cache_update (\<lambda>_. c)) s)"

lemma cache_only_refl [simp]: "cache_only m s s"
  unfolding cache_only_def by (rule exI[of _ "mmap_cache (mms s m)"]) (simp add: upd_mm_def)

lemma cache_only_trans: "cache_only m s s1 \<Longrightarrow> cache_only m s1 s2 \<Longrightarrow> cache_only m s s2"
proof -
  assume "cache_only m s s1" "cache_only m s1 s2"
  then obtain c d where "s1 = upd_mm m (mmap_cache_update (\<lambda>_. c)) s" "s2 = upd_mm m (mmap_cache_update (\<lambda>_. d)) s1"
    by (auto simp: cache_only_def)
  then have "s2 = upd_mm m (mmap_cache_update (\<lambda>_. d)) s" by (simp add: upd_mm_def)
  then show ?thesis by (auto simp: cache_only_def)
qed

lemma cache_only_fields:
  "cache_only m s s' \<Longrightarrow> vmas s' = vmas s \<and> umem s' = umem s \<and> mlinks s' = mlinks s \<and> live_vmas s' = live_vmas s \<and>
     frames s' = frames s \<and> phys s' = phys s \<and> npage s' = npage s"
  by (auto simp: cache_only_def upd_mm_def)

lemma find_vma_cache_only:
  assumes ok: "mm_ok m vs s"
  shows "\<exists>s'. find_vma (Some m) addr s = Some (find (\<lambda>v. vma_covers s v addr) vs, s') \<and> mm_ok m vs s' \<and> cache_only m s s'"
  using find_vma_ok(1,2)[OF ok, of addr] by (auto simp: cache_only_def intro: cache_only_refl[unfolded cache_only_def])

definition allowed :: "'b vmm_scheme \<Rightarrow> nat list \<Rightarrow> bool \<Rightarrow> nat \<Rightarrow> bool" where
  "allowed s vs write a \<longleftrightarrow> (\<exists>v\<in>set vs. vma_covers s v a \<and>
     vm_flags (vmas s v) AND (if write then VM_WRITE else VM_READ) \<noteq> 0 \<and>
     \<not> (write \<and> vm_flags (vmas s v) AND VM_STACK \<noteq> 0 \<and> a < vm_start (vmas s v) + PGSIZE))"

lemma user_mem_loop_ok:
  assumes "mm_ok m vs s" "fin \<le> USERTOP"
  shows "\<exists>s'. user_mem_loop m start fin write s = Some ((\<forall>a\<in>{start..<fin}. allowed s vs write a), s') \<and>
    mm_ok m vs s' \<and> cache_only m s s'"
  using assms
proof (induction "fin - start" arbitrary: start s rule: less_induct)
  case less
  note ok = less.prems(1)
  show ?case
  proof (cases "start < fin")
    case False
    then show ?thesis using ok by (subst user_mem_loop.simps) auto
  next
    case True
    obtain s1 where s1: "find_vma (Some m) start s = Some (find (\<lambda>v. vma_covers s v start) vs, s1)"
      "mm_ok m vs s1" "cache_only m s s1" using find_vma_cache_only[OF ok] by blast
    have vm: "vmas s1 = vmas s" using cache_only_fields[OF s1(3)] by simp
    have al: "allowed s1 vs write a = allowed s vs write a" for a by (simp add: allowed_def vm)
    have in_range: "start \<in> {start..<fin}" using True by simp
    show ?thesis
    proof (cases "find (\<lambda>v. vma_covers s v start) vs")
      case None
      then have "\<not> allowed s vs write start" by (auto simp: allowed_def find_None_iff)
      then have "\<not> (\<forall>a\<in>{start..<fin}. allowed s vs write a)" using in_range by blast
      then show ?thesis using s1 None True by (subst user_mem_loop.simps) auto
    next
      case (Some v)
      then have v: "v \<in> set vs" "vma_covers s v start" by (auto simp: find_Some_iff)
      define fl where "fl \<longleftrightarrow> vm_flags (vmas s v) AND (if write then VM_WRITE else VM_READ) \<noteq> 0 \<and>
        \<not> (write \<and> vm_flags (vmas s v) AND VM_STACK \<noteq> 0 \<and> start < vm_start (vmas s v) + PGSIZE)"
      have top: "vm_end (vmas s v) \<le> USERTOP" using mm_okD(3)[OF ok v(1)] .
      have wrap: "u64 (vm_start (vmas s v) + PGSIZE) = vm_start (vmas s v) + PGSIZE"
        using top v(2) by (simp add: USERTOP_def PGSIZE_def)
      show ?thesis
      proof (cases fl)
        case False
        have "\<not> allowed s vs write start"
        proof
          assume "allowed s vs write start"
          then obtain w where w: "w \<in> set vs" "vma_covers s w start"
            "vm_flags (vmas s w) AND (if write then VM_WRITE else VM_READ) \<noteq> 0"
            "\<not> (write \<and> vm_flags (vmas s w) AND VM_STACK \<noteq> 0 \<and> start < vm_start (vmas s w) + PGSIZE)"
            unfolding allowed_def by blast
          have "w = v" by (rule covers_unique[OF mm_okD(5)[OF ok] w(1) v(1) w(2) v(2)])
          then show False using w(3,4) False unfolding fl_def by blast
        qed
        then have "\<not> (\<forall>a\<in>{start..<fin}. allowed s vs write a)" using in_range by blast
        moreover have "user_mem_loop m start fin write s = Some (False, s1)"
          using False True s1(1) Some v(2) wrap by (subst user_mem_loop.simps) (auto simp: vm fl_def)
        ultimately show ?thesis using s1 by auto
      next
        case True': True
        have here: "allowed s vs write a" if "start \<le> a" "a < vm_end (vmas s v)" for a
        proof -
          have "vma_covers s v a" using that v(2) by simp
          moreover have "\<not> (write \<and> vm_flags (vmas s v) AND VM_STACK \<noteq> 0 \<and> a < vm_start (vmas s v) + PGSIZE)"
            using True' that(1) unfolding fl_def by linarith
          ultimately show ?thesis using v(1) True' unfolding allowed_def fl_def by blast
        qed
        have eq: "(\<forall>a\<in>{start..<fin}. allowed s vs write a) \<longleftrightarrow> (\<forall>a\<in>{vm_end (vmas s v)..<fin}. allowed s1 vs write a)"
          unfolding al
        proof (intro iffI ballI)
          fix a assume "\<forall>a\<in>{vm_end (vmas s v)..<fin}. allowed s vs write a" "a \<in> {start..<fin}"
          then show "allowed s vs write a" using here[of a] by (cases "a < vm_end (vmas s v)") auto
        qed (use v(2) in auto)
        have step: "user_mem_loop m start fin write s = user_mem_loop m (vm_end (vmas s v)) fin write s1"
          using True' True s1(1) Some v(2) wrap
          by (subst user_mem_loop.simps) (auto simp: vm fl_def)
        have lt: "fin - vm_end (vmas s v) < fin - start" using v(2) True by (intro diff_less_mono2) auto
        obtain s' where "user_mem_loop m (vm_end (vmas s v)) fin write s1 =
            Some ((\<forall>a\<in>{vm_end (vmas s v)..<fin}. allowed s1 vs write a), s')" "mm_ok m vs s'" "cache_only m s1 s'"
          using less.hyps[OF lt s1(2) less.prems(2)] by blast
        then show ?thesis using step eq cache_only_trans[OF s1(3)] by auto
      qed
    qed
  qed
qed

lemma user_mem_check_ok:
  assumes "mm_ok m vs s"
  shows "\<exists>s'. user_mem_check (Some m) addr len write s = Some
     (USER_ACCESS addr (u64 (addr + len)) \<and> (\<forall>a\<in>{addr..<u64 (addr + len)}. allowed s vs write a), s') \<and>
    mm_ok m vs s' \<and> cache_only m s s'"
proof (cases "USER_ACCESS addr (u64 (addr + len))")
  case True
  then have "u64 (addr + len) \<le> USERTOP" by (simp add: USER_ACCESS_def)
  then show ?thesis using user_mem_loop_ok[OF assms, of "u64 (addr + len)" addr "write"] True by (simp add: user_mem_check_def)
next
  case False
  then show ?thesis using assms by (simp add: user_mem_check_def)
qed


subsection \<open>Copying strings from user memory\<close>

lemma mm_ok_umem [simp]: "mm_ok m vs (s\<lparr>umem := u\<rparr>) = mm_ok m vs s"
  by (simp add: mm_ok_def before_def[abs_def])

definition string_copied :: "(nat \<Rightarrow> 8 word) \<Rightarrow> (nat \<Rightarrow> 8 word) \<Rightarrow> nat \<Rightarrow> nat \<Rightarrow> nat \<Rightarrow> bool" where
  "string_copied mem mem' dst src n \<longleftrightarrow> (\<forall>i<n. mem (src + i) \<noteq> 0) \<and> mem (src + n) = 0 \<and>
     (\<forall>i\<le>n. mem' (dst + i) = mem (src + i))"

lemma copy_string_loop_ok:
  assumes "mm_ok m vs s" "0 < prt" "src + maxn < 2 ^ 64" "dst + maxn < 2 ^ 64"
    "{dst..<dst + maxn} \<inter> {src..<src + maxn} = {}"
  shows "\<exists>b s'. copy_string_loop (Some m) dst src maxn prt s = Some (b, s') \<and> mm_ok m vs s' \<and> vmas s' = vmas s \<and>
    (\<forall>a. a \<notin> {dst..<dst + maxn} \<longrightarrow> umem s' a = umem s a) \<and>
    (b \<longrightarrow> (\<exists>n<maxn. string_copied (umem s) (umem s') dst src n \<and> (\<forall>i\<le>n. allowed s vs False (src + i)))) \<and>
    (USERBASE \<le> src \<and> src + maxn \<le> USERTOP \<and> (\<forall>a\<in>{src..<src + maxn}. allowed s vs False a) \<and>
      (\<exists>n<maxn. umem s (src + n) = 0) \<longrightarrow> b)"
  using assms
proof (induction maxn arbitrary: dst src prt s rule: less_induct)
  case (less maxn)
  define part where "part = (if maxn < prt then maxn else prt)"
  have part: "part \<le> maxn" "u64 (src + part) = src + part" "u64 (dst + part) = dst + part"
    using less.prems by (auto simp: part_def)
  obtain s1 where s1: "user_mem_check (Some m) src part False s = Some
     (USER_ACCESS src (src + part) \<and> (\<forall>a\<in>{src..<src + part}. allowed s vs False a), s1)"
    "mm_ok m vs s1" "cache_only m s s1"
    using user_mem_check_ok[OF less.prems(1), of src part False] part(2) by auto
  have eq: "umem s1 = umem s" "vmas s1 = vmas s" using cache_only_fields[OF s1(3)] by auto
  define ok where "ok \<longleftrightarrow> USER_ACCESS src (src + part) \<and> (\<forall>a\<in>{src..<src + part}. allowed s vs False a)"
  define alen where "alen = strnlen (umem s) src part"
  have unf: "copy_string_loop (Some m) dst src maxn prt s =
    (if \<not> ok then Some (False, s1)
     else if alen < part then Some (True, s1\<lparr>umem := memcpy dst src (alen + 1) (umem s)\<rparr>)
     else if part = maxn then Some (False, s1)
     else copy_string_loop (Some m) (dst + part) (src + part) (maxn - part) PGSIZE
            (s1\<lparr>umem := memcpy dst src part (umem s)\<rparr>))"
    using s1(1) part(2,3) eq by (subst copy_string_loop.simps) (simp add: part_def[symmetric] ok_def alen_def Let_def)
  have sl: "alen \<le> part" "\<And>i. i < alen \<Longrightarrow> umem s (src + i) \<noteq> 0" "alen < part \<Longrightarrow> umem s (src + alen) = 0"
    using strnlen_le strnlen_nonzero strnlen_zero by (auto simp: alen_def)
  have dis: "{dst..<dst + k} \<inter> {src..<src + k} = {}" if "k \<le> maxn" for k
    using less.prems(5) that by fastforce
  show ?case
  proof (cases "ok \<and> part \<noteq> maxn \<and> \<not> alen < part")
    case True
    then have lt: "maxn - part < maxn" "part < maxn" using part(1) less.prems(2) by (auto simp: part_def split: if_splits)
    define s2 where "s2 = s1\<lparr>umem := memcpy dst src part (umem s)\<rparr>"
    have u2: "umem s2 a = (if a \<in> {dst..<dst + part} then umem s (src + (a - dst)) else umem s a)" for a
      using memcpy_disjoint[OF dis[OF part(1)]] by (simp add: s2_def)
    have src2: "umem s2 (src + i) = umem s (src + i)" if "i < maxn" for i
    proof -
      have "src + i \<notin> {dst..<dst + part}" using less.prems(5) that part(1) by auto
      then show ?thesis unfolding u2 by (simp only: if_False)
    qed
    have al: "allowed s2 vs False a = allowed s vs False a" for a by (simp add: allowed_def s2_def eq)
    have d2: "{dst + part..<dst + part + (maxn - part)} \<inter> {src + part..<src + part + (maxn - part)} = {}"
      using less.prems(5) part(1) by auto
    obtain b s' where ih: "copy_string_loop (Some m) (dst + part) (src + part) (maxn - part) PGSIZE s2 = Some (b, s')"
      "mm_ok m vs s'" "vmas s' = vmas s2"
      and fr: "\<forall>a. a \<notin> {dst + part..<dst + part + (maxn - part)} \<longrightarrow> umem s' a = umem s2 a"
      and yes: "b \<longrightarrow> (\<exists>n<maxn - part. string_copied (umem s2) (umem s') (dst + part) (src + part) n \<and>
          (\<forall>i\<le>n. allowed s2 vs False (src + part + i)))"
      and no: "USERBASE \<le> src + part \<and> src + part + (maxn - part) \<le> USERTOP \<and>
          (\<forall>a\<in>{src + part..<src + part + (maxn - part)}. allowed s2 vs False a) \<and>
          (\<exists>n<maxn - part. umem s2 (src + part + n) = 0) \<longrightarrow> b"
      using less.IH[OF lt(1) _ _ _ _ d2, of s2 PGSIZE] s1(2) less.prems(3,4) part(1)
      by (auto simp: s2_def PGSIZE_def)
    have full: "alen = part" using sl(1) True by simp
    have nz: "umem s (src + i) \<noteq> 0" if "i < part" for i using sl(2) that full by simp
    have "\<exists>n<maxn. string_copied (umem s) (umem s') dst src n \<and> (\<forall>i\<le>n. allowed s vs False (src + i))" if bb: b
    proof -
      obtain n where n: "n < maxn - part" "string_copied (umem s2) (umem s') (dst + part) (src + part) n"
        "\<forall>i\<le>n. allowed s2 vs False (src + part + i)" using yes bb by blast
      have tail: "umem s2 (src + part + i) = umem s (src + (part + i))" if "i \<le> n" for i
        using src2[of "part + i"] n(1) that by (simp add: ac_simps)
      have "umem s (src + i) \<noteq> 0" if "i < part + n" for i
      proof (cases "i < part")
        case False
        then have "i - part < n" using that by simp
        then have "umem s2 (src + part + (i - part)) \<noteq> 0" using n(2) unfolding string_copied_def by blast
        then show ?thesis using tail[of "i - part"] that False by simp
      qed (rule nz)
      moreover have "umem s' (dst + i) = umem s (src + i)" if "i \<le> part + n" for i
      proof (cases "i < part")
        case True
        then have "umem s' (dst + i) = umem s2 (dst + i)" using fr by auto
        then show ?thesis using u2[of "dst + i"] True by simp
      next
        case False
        then have "i - part \<le> n" using that by simp
        then have "umem s' (dst + part + (i - part)) = umem s2 (src + part + (i - part))"
          using n(2) unfolding string_copied_def by blast
        then show ?thesis using tail[of "i - part"] that False by simp
      qed
      moreover have "umem s (src + (part + n)) = 0" using n(2) tail[of n] by (simp add: string_copied_def)
      moreover have "allowed s vs False (src + i)" if "i \<le> part + n" for i
      proof (cases "i < part")
        case True
        then show ?thesis using \<open>ok \<and> part \<noteq> maxn \<and> \<not> alen < part\<close> by (auto simp: ok_def)
      next
        case False
        then have "i - part \<le> n" using that by simp
        then have "allowed s2 vs False (src + part + (i - part))" using n(3) by blast
        then show ?thesis using al False by simp
      qed
      ultimately show ?thesis using n(1) by (intro exI[of _ "part + n"]) (auto simp: string_copied_def)
    qed
    moreover have "b" if "USERBASE \<le> src" "src + maxn \<le> USERTOP" "\<forall>a\<in>{src..<src + maxn}. allowed s vs False a"
      "k < maxn" "umem s (src + k) = 0" for k
    proof -
      have "part \<le> k" using nz[of k] that(5) by (meson not_le)
      then have "k - part < maxn - part" "umem s2 (src + part + (k - part)) = 0" using that(4,5) src2[of k] by auto
      then show ?thesis using no that(1-3) al lt by auto
    qed
    moreover have "umem s' a = umem s a" if "a \<notin> {dst..<dst + maxn}" for a
      using that fr u2[of a] part(1) by auto
    moreover have "copy_string_loop (Some m) dst src maxn prt s = Some (b, s')" using unf True ih(1) by (simp add: s2_def)
    moreover have "vmas s' = vmas s" using ih(3) eq by (simp add: s2_def)
    ultimately show ?thesis using ih(2) by blast
  next
    case False
    show ?thesis
    proof (cases "ok \<and> alen < part")
      case True
      define s2 where "s2 = s1\<lparr>umem := memcpy dst src (alen + 1) (umem s)\<rparr>"
      have k: "alen + 1 \<le> maxn" using True part(1) by simp
      have u2: "umem s2 a = (if a \<in> {dst..<dst + (alen + 1)} then umem s (src + (a - dst)) else umem s a)" for a
        using memcpy_disjoint[OF dis[OF k]] by (simp add: s2_def)
      have "string_copied (umem s) (umem s2) dst src alen"
        using sl True u2 by (auto simp: string_copied_def)
      moreover have "\<forall>i\<le>alen. allowed s vs False (src + i)" using True by (auto simp: ok_def)
      moreover have "\<forall>a. a \<notin> {dst..<dst + maxn} \<longrightarrow> umem s2 a = umem s a" using u2 k by auto
      moreover have "copy_string_loop (Some m) dst src maxn prt s = Some (True, s2)" using unf True by (simp add: s2_def)
      moreover have "mm_ok m vs s2" "vmas s2 = vmas s" "alen < maxn" using s1(2) eq k by (simp_all add: s2_def)
      ultimately show ?thesis by blast
    next
      case F2: False
      have r: "copy_string_loop (Some m) dst src maxn prt s = Some (False, s1)" using unf False F2 by auto
      have "False" if h: "USERBASE \<le> src" "src + maxn \<le> USERTOP" "\<forall>a\<in>{src..<src + maxn}. allowed s vs False a"
        "k < maxn" "umem s (src + k) = 0" for k
      proof -
        have "0 < part" using h(4) less.prems(2) by (auto simp: part_def)
        then have "ok" using h(1-3) part(1) by (auto simp: ok_def USER_ACCESS_def)
        then have "part = maxn" "alen = part" using False F2 sl(1) by auto
        then show False using sl(2)[of k] h(4,5) by simp
      qed
      moreover have "umem s1 = umem s" "vmas s1 = vmas s" using eq by auto
      ultimately show ?thesis using r s1(2) by (intro exI[of _ False] exI[of _ s1]) auto
    qed
  qed
qed


subsection \<open>Mapping a range\<close>

lemma vma_create_fields:
  assumes "K (live_vmas s) = Some v"
  shows "\<exists>s'. vma_create K st en fl s = (Some v, s') \<and> vm_start (vmas s' v) = st \<and> vm_end (vmas s' v) = en \<and>
    vm_flags (vmas s' v) = fl \<and> (\<forall>w. w \<noteq> v \<longrightarrow> vmas s' w = vmas s w) \<and> mlinks s' = mlinks s \<and> mms s' = mms s \<and>
    live_vmas s' = insert v (live_vmas s)"
  using assms by (simp add: vma_create_def upd_vma_def)

lemma mm_ok_create:
  assumes ok: "mm_ok m vs s" and v: "v \<notin> live_vmas s"
    and s': "\<forall>w. w \<noteq> v \<longrightarrow> vmas s' w = vmas s w" "mlinks s' = mlinks s" "mms s' = mms s" "live_vmas s' = insert v (live_vmas s)"
  shows "mm_ok m vs s'" "v \<notin> set vs" "no_overlap s' vs st en = no_overlap s vs st en"
proof -
  show nv: "v \<notin> set vs" using mm_okD(4)[OF ok] v by blast
  then have same: "vmas s' w = vmas s w" if "w \<in> set vs" for w using that s'(1) by metis
  have "sorted_wrt (before s') vs"
    by (rule sorted_wrt_mono_rel[OF _ mm_okD(5)[OF ok]]) (simp add: before_def same)
  then show "mm_ok m vs s'" using ok same s' unfolding mm_ok_def by auto
  show "no_overlap s' vs st en = no_overlap s vs st en" using same by (simp add: no_overlap_def)
qed

definition mm_range :: "nat \<Rightarrow> nat \<Rightarrow> nat \<times> nat" where
  "mm_range addr len = (ROUNDDOWN addr PGSIZE, ROUNDUP (u64 (addr + len)) PGSIZE)"

lemma mm_map_cases:
  assumes ok: "mm_ok m vs s" and K: "\<forall>L v. K L = Some v \<longrightarrow> v \<notin> L" and r: "mm_range addr len = (st, en)"
  shows "\<not> USER_ACCESS st en \<Longrightarrow> mm_map K (Some m) addr len fl s = Some (- E_INVAL, None, s)"
    "USER_ACCESS st en \<Longrightarrow> \<exists>v\<in>set vs. vma_covers s v st \<Longrightarrow>
      \<exists>s'. mm_map K (Some m) addr len fl s = Some (- E_INVAL, None, s') \<and> mm_ok m vs s' \<and> cache_only m s s'"
    "USER_ACCESS st en \<Longrightarrow> \<not> (\<exists>v\<in>set vs. vma_covers s v st) \<Longrightarrow> K (live_vmas s) = None \<Longrightarrow>
      mm_map K (Some m) addr len fl s = Some (- E_NO_MEM, None, s)"
    "USER_ACCESS st en \<Longrightarrow> \<not> (\<exists>v\<in>set vs. vma_covers s v st) \<Longrightarrow> K (live_vmas s) = Some v \<Longrightarrow>
      \<not> no_overlap s vs st en \<Longrightarrow> mm_map K (Some m) addr len fl s = None"
    "USER_ACCESS st en \<Longrightarrow> K (live_vmas s) = Some v \<Longrightarrow> no_overlap s vs st en \<Longrightarrow>
      \<exists>us ws s'. mm_map K (Some m) addr len fl s = Some (0, Some v, s') \<and> vs = us @ ws \<and> v \<notin> set vs \<and>
        mm_ok m (us @ v # ws) s' \<and> vm_start (vmas s' v) = st \<and> vm_end (vmas s' v) = en \<and> vm_flags (vmas s' v) = fl \<and>
        (\<forall>w\<in>set vs. vm_start (vmas s' w) = vm_start (vmas s w) \<and> vm_end (vmas s' w) = vm_end (vmas s w) \<and>
           vm_flags (vmas s' w) = vm_flags (vmas s w))"
proof -
  have se: "ROUNDDOWN addr PGSIZE = st" "ROUNDUP (u64 (addr + len)) PGSIZE = en" using r by (auto simp: mm_range_def)
  obtain s1 where f: "find_vma (Some m) st s = Some (find (\<lambda>v. vma_covers s v st) vs, s1)" "mm_ok m vs s1" "cache_only m s s1"
    using find_vma_cache_only[OF ok] by blast
  have s1n: "s1 = s" if "find (\<lambda>v. vma_covers s v st) vs = None"
    using f(1) find_vma_ok(1)[OF ok, of st] that by simp
  have vm: "vmas s1 = vmas s" using cache_only_fields[OF f(3)] by simp
  show "mm_map K (Some m) addr len fl s = Some (- E_INVAL, None, s)" if "\<not> USER_ACCESS st en"
    using that by (simp add: mm_map_def se)
  show "\<exists>s'. mm_map K (Some m) addr len fl s = Some (- E_INVAL, None, s') \<and> mm_ok m vs s' \<and> cache_only m s s'"
    if u: "USER_ACCESS st en" and c: "\<exists>v\<in>set vs. vma_covers s v st"
  proof -
    obtain w where w: "find (\<lambda>v. vma_covers s v st) vs = Some w" using c
      by (cases "find (\<lambda>v. vma_covers s v st) vs") (auto simp: find_None_iff)
    then have "vm_start (vmas s w) \<le> st" by (auto simp: find_Some_iff)
    then have "vm_start (vmas s w) < en" using u by (simp add: USER_ACCESS_def)
    then show ?thesis using f u w vm by (simp add: mm_map_def se)
  qed
  have none: "find (\<lambda>v. vma_covers s v st) vs = None" if "\<not> (\<exists>v\<in>set vs. vma_covers s v st)"
    using that by (auto simp: find_None_iff)
  show "mm_map K (Some m) addr len fl s = Some (- E_NO_MEM, None, s)"
    if "USER_ACCESS st en" "\<not> (\<exists>v\<in>set vs. vma_covers s v st)" "K (live_vmas s) = None"
    using that none[OF that(2)] s1n f(1) by (simp add: mm_map_def se vma_create_def)
  obtain s2 where s2: "vma_create K st en fl s = (Some v, s2)" "vm_start (vmas s2 v) = st" "vm_end (vmas s2 v) = en"
    "vm_flags (vmas s2 v) = fl" "\<forall>w. w \<noteq> v \<longrightarrow> vmas s2 w = vmas s w" "mlinks s2 = mlinks s" "mms s2 = mms s"
    "live_vmas s2 = insert v (live_vmas s)" if "K (live_vmas s) = Some v"
    using vma_create_fields[of K s v st en fl] by blast
  have lt: "st < en" "en \<le> USERTOP" if "USER_ACCESS st en" using that by (auto simp: USER_ACCESS_def)
  show "mm_map K (Some m) addr len fl s = None"
    if "USER_ACCESS st en" "\<not> (\<exists>v\<in>set vs. vma_covers s v st)" "K (live_vmas s) = Some v" "\<not> no_overlap s vs st en"
  proof -
    note c = mm_ok_create[OF ok K[rule_format, OF that(3)] s2(5-8)[OF that(3)]]
    have "insert_vma_struct m v s2 = None"
      using insert_vma_overlap[OF c(1), of v] s2(2,3)[OF that(3)] c(3) that(4) lt(1)[OF that(1)] by simp
    then show ?thesis using that none[OF that(2)] s1n f(1) s2(1)[OF that(3)] by (simp add: mm_map_def se)
  qed
  show "\<exists>us ws s'. mm_map K (Some m) addr len fl s = Some (0, Some v, s') \<and> vs = us @ ws \<and> v \<notin> set vs \<and>
        mm_ok m (us @ v # ws) s' \<and> vm_start (vmas s' v) = st \<and> vm_end (vmas s' v) = en \<and> vm_flags (vmas s' v) = fl \<and>
        (\<forall>w\<in>set vs. vm_start (vmas s' w) = vm_start (vmas s w) \<and> vm_end (vmas s' w) = vm_end (vmas s w) \<and>
           vm_flags (vmas s' w) = vm_flags (vmas s w))"
    if u: "USER_ACCESS st en" "K (live_vmas s) = Some v" "no_overlap s vs st en"
  proof -
    note c = mm_ok_create[OF ok K[rule_format, OF u(2)] s2(5-8)[OF u(2)]]
    have "\<not> (\<exists>v\<in>set vs. vma_covers s v st)" using u(3) lt(1)[OF u(1)] by (force simp: no_overlap_def)
    note n = none[OF this]
    have "no_overlap s2 vs (vm_start (vmas s2 v)) (vm_end (vmas s2 v))" using c(3) u(3) s2(2,3)[OF u(2)] by simp
    then obtain us ws s' where "insert_vma_struct m v s2 = Some s'" "vs = us @ ws" "mm_ok m (us @ v # ws) s'"
      "\<forall>w. vm_start (vmas s' w) = vm_start (vmas s2 w) \<and> vm_end (vmas s' w) = vm_end (vmas s2 w) \<and>
       vm_flags (vmas s' w) = vm_flags (vmas s2 w)"
      using insert_vma_ok[OF c(1,2)] s2(2,3,8)[OF u(2)] lt[OF u(1)] by auto
    moreover have "vmas s2 w = vmas s w" if "w \<in> set vs" for w using that c(2) s2(5)[OF u(2)] by metis
    ultimately show ?thesis using u n s1n f(1) s2(1-4)[OF u(2)] c(2)
      by - (rule exI[of _ us], rule exI[of _ ws], rule exI[of _ s'], auto simp: mm_map_def se)
  qed
qed


subsection \<open>Properties\<close>

text \<open>Two areas of one address space: a page of text and a stack of two pages.\<close>

definition demo_vmm :: vmm where
  "demo_vmm = \<lparr>phys = boot_pmm, frames = (\<lambda>_ _. 0), npage = nbase,
     vmas = (\<lambda>v. if v = 0 then \<lparr>vm_mm = Some 0, vm_start = 0x800000, vm_end = 0x801000, vm_flags = 7\<rparr>
                  else \<lparr>vm_mm = Some 0, vm_start = 0x7FFFE000, vm_end = 0x80000000, vm_flags = 11\<rparr>),
     mms = (\<lambda>_. \<lparr>mmap_cache = Some 1, mm_pgdir = None, map_count = 2, mm_count = 1, mm_sem_value = 1\<rparr>),
     mlinks = list_add_after (list_add_after (list_init \<lparr>prev_of = id, next_of = id\<rparr> (MmapList 0))
                (MmapList 0) (VmaLink 0)) (VmaLink 0) (VmaLink 1),
     live_vmas = {0, 1}, live_mms = {0},
     umem = (\<lambda>a. if a = 0x800000 then 0x68 else if a = 0x800001 then 0x69 else 0)\<rparr>"

definition demo_kmalloc :: kmalloc where
  "demo_kmalloc L = (if 5 \<in> L then None else Some 5)"

lemma demo_mm_ok: "mm_ok 0 [0, 1] demo_vmm"
proof -
  let ?h = "list_init \<lparr>prev_of = id, next_of = id\<rparr> (MmapList 0)"
  have "dlist (list_add_after ?h (MmapList 0) (VmaLink 0)) (MmapList 0) ([] @ VmaLink 0 # [])"
    by (rule dlist_add_after) (simp_all add: dlist_init)
  then have "dlist (list_add_after (list_add_after ?h (MmapList 0) (VmaLink 0)) (VmaLink 0) (VmaLink 1))
      (MmapList 0) ([VmaLink 0] @ VmaLink 1 # [])"
    by (intro dlist_add_after) auto
  then show ?thesis by (simp add: mm_ok_def demo_vmm_def before_def USERTOP_def)
qed

text \<open>
  C11. Mapping a range into an address space: a range outside the user's part is refused
  with -E_INVAL, and so is one whose first page is taken; without memory for the
  descriptor the result is -E_NO_MEM; in these cases the areas stay as they are.
  A range that overlaps no area is accepted, and the new area stands at its place in
  the ordered ring of disjoint areas, all others unchanged. A range whose first page is
  free but that overlaps a later area does not return an error: it runs into the
  assertions of check_vma_overlap.
\<close>

theorem mm_map_correct:
  assumes "mm_ok m vs s" "\<forall>L v. K L = Some v \<longrightarrow> v \<notin> L" "mm_range addr len = (st, en)"
  shows "if \<not> USER_ACCESS st en then mm_map K (Some m) addr len fl s = Some (- E_INVAL, None, s)
    else if \<exists>v\<in>set vs. vma_covers s v st then
      \<exists>s'. mm_map K (Some m) addr len fl s = Some (- E_INVAL, None, s') \<and> mm_ok m vs s' \<and> cache_only m s s'
    else case K (live_vmas s) of
      None \<Rightarrow> mm_map K (Some m) addr len fl s = Some (- E_NO_MEM, None, s)
    | Some v \<Rightarrow>
        if no_overlap s vs st en then
          \<exists>us ws s'. mm_map K (Some m) addr len fl s = Some (0, Some v, s') \<and> vs = us @ ws \<and> v \<notin> set vs \<and>
            mm_ok m (us @ v # ws) s' \<and> vm_start (vmas s' v) = st \<and> vm_end (vmas s' v) = en \<and> vm_flags (vmas s' v) = fl \<and>
            (\<forall>w\<in>set vs. vm_start (vmas s' w) = vm_start (vmas s w) \<and> vm_end (vmas s' w) = vm_end (vmas s w) \<and>
               vm_flags (vmas s' w) = vm_flags (vmas s w))
        else mm_map K (Some m) addr len fl s = None"
proof -
  note c = mm_map_cases[OF assms, where fl = fl]
  show ?thesis
  proof (cases "USER_ACCESS st en \<and> \<not> (\<exists>v\<in>set vs. vma_covers s v st)")
    case True
    then have u: "USER_ACCESS st en" "\<not> (\<exists>v\<in>set vs. vma_covers s v st)" by auto
    show ?thesis
    proof (cases "K (live_vmas s)")
      case None
      show ?thesis unfolding None using c(3)[OF u None] u by (simp only: if_False not_True_eq_False option.case)
    next
      case (Some v)
      show ?thesis unfolding Some using c(4)[OF u Some] c(5)[OF u(1) Some] u
        by (cases "no_overlap s vs st en") (simp_all only: if_False if_True not_True_eq_False not_False_eq_True option.case simp_thms)
    qed
  next
    case False
    then show ?thesis using c(1,2) by (simp only: split: if_split) blast
  qed
qed


theorem mm_map_correct_witness:
  "\<exists>us ws s'. mm_map demo_kmalloc (Some 0) 0x900010 100 VM_READ demo_vmm = Some (0, Some 5, s') \<and> [0, 1] = us @ ws \<and>
     mm_ok 0 (us @ 5 # ws) s' \<and> vm_start (vmas s' 5) = 0x900000 \<and> vm_end (vmas s' 5) = 0x901000"
proof -
  have r: "mm_range 0x900010 100 = (0x900000, 0x901000)"
    by (simp add: mm_range_def ROUNDDOWN_def ROUNDUP_def PGSIZE_def)
  have K: "\<forall>L v. demo_kmalloc L = Some v \<longrightarrow> v \<notin> L" by (auto simp: demo_kmalloc_def)
  have u: "USER_ACCESS 0x900000 0x901000" by (simp add: USER_ACCESS_def USERBASE_def USERTOP_def)
  have n: "no_overlap demo_vmm [0, 1] 0x900000 0x901000" "\<not> (\<exists>v\<in>set [0, 1]. vma_covers demo_vmm v 0x900000)"
    "demo_kmalloc (live_vmas demo_vmm) = Some 5"
    by (simp_all add: no_overlap_def demo_vmm_def demo_kmalloc_def)
  have "\<exists>us ws s'. mm_map demo_kmalloc (Some 0) 0x900010 100 VM_READ demo_vmm = Some (0, Some 5, s') \<and> [0, 1] = us @ ws \<and>
      5 \<notin> set [0, 1 :: nat] \<and> mm_ok 0 (us @ 5 # ws) s' \<and> vm_start (vmas s' 5) = 0x900000 \<and> vm_end (vmas s' 5) = 0x901000 \<and>
      vm_flags (vmas s' 5) = VM_READ \<and> (\<forall>w\<in>set [0, 1]. vm_start (vmas s' w) = vm_start (vmas demo_vmm w) \<and>
        vm_end (vmas s' w) = vm_end (vmas demo_vmm w) \<and> vm_flags (vmas s' w) = vm_flags (vmas demo_vmm w))"
    using mm_map_correct[OF demo_mm_ok K r, of VM_READ] u n by (simp only: if_False if_True simp_thms option.case)
  then show ?thesis by blast
qed

text \<open>
  C10. The check of a range of user memory always returns, and accepts the range exactly
  when it lies in the user's part without wrapping around and every byte of it is in an
  area with the required permission and, for a write to a stack, not in the area's
  lowest page. Besides the cached area it changes nothing.
\<close>

theorem user_mem_check_correct:
  assumes "mm_ok m vs s"
  shows "\<exists>s'. user_mem_check (Some m) addr len write s = Some
     (USER_ACCESS addr (u64 (addr + len)) \<and> (\<forall>a\<in>{addr..<u64 (addr + len)}. allowed s vs write a), s') \<and>
    mm_ok m vs s' \<and> cache_only m s s'"
  by (rule user_mem_check_ok[OF assms])

theorem user_mem_check_correct_witness:
  "\<exists>s'. user_mem_check (Some 0) 0x800010 8 True demo_vmm = Some (True, s') \<and> mm_ok 0 [0, 1] s'"
proof -
  have "\<forall>a\<in>{0x800010..<u64 (0x800010 + 8)}. allowed demo_vmm [0, 1] True a"
    by (auto simp: allowed_def demo_vmm_def VM_WRITE_def VM_STACK_def)
  moreover have "USER_ACCESS 0x800010 (u64 (0x800010 + 8))" by (simp add: USER_ACCESS_def USERBASE_def USERTOP_def)
  ultimately show ?thesis using user_mem_check_correct[OF demo_mm_ok, of "0x800010" 8 True] by auto
qed

text \<open>
  C12. Copying a string from user memory always returns. When it reports success, the
  destination holds the string with its terminating zero, found within the given size,
  and every byte read was readable for the process; it does report success when the
  whole range is readable and holds a zero. Nothing outside the destination is written.
\<close>

theorem copy_string_correct:
  assumes "mm_ok m vs s" "src + PGSIZE < 2 ^ 64" "src + maxn < 2 ^ 64" "dst + maxn < 2 ^ 64"
    "{dst..<dst + maxn} \<inter> {src..<src + maxn} = {}"
  shows "\<exists>b s'. copy_string (Some m) dst src maxn s = Some (b, s') \<and> mm_ok m vs s' \<and>
    (\<forall>a. a \<notin> {dst..<dst + maxn} \<longrightarrow> umem s' a = umem s a) \<and>
    (b \<longrightarrow> (\<exists>n<maxn. string_copied (umem s) (umem s') dst src n \<and> (\<forall>i\<le>n. allowed s vs False (src + i)))) \<and>
    (USERBASE \<le> src \<and> src + maxn \<le> USERTOP \<and> (\<forall>a\<in>{src..<src + maxn}. allowed s vs False a) \<and>
      (\<exists>n<maxn. umem s (src + n) = 0) \<longrightarrow> b)"
proof -
  define k where "k = ROUNDDOWN (src + PGSIZE) PGSIZE"
  have k: "src < k" "k \<le> src + PGSIZE" using mod_less_divisor[of PGSIZE "src + PGSIZE"]
    by (simp_all add: k_def ROUNDDOWN_def PGSIZE_def)
  have "u64 (k + (2 ^ 64 - src)) = k - src"
  proof -
    have "k + (2 ^ 64 - src) = (k - src) + 2 ^ 64" using k assms(2) by simp
    then have "u64 (k + (2 ^ 64 - src)) = (k - src) mod 2 ^ 64" unfolding u64_def by (simp only: mod_add_self2)
    then show ?thesis using k assms(2) by simp
  qed
  then have "copy_string (Some m) dst src maxn s = copy_string_loop (Some m) dst src maxn (k - src) s"
    using assms(2) by (simp add: copy_string_def k_def)
  moreover have "0 < k - src" using k by simp
  ultimately show ?thesis using copy_string_loop_ok[OF assms(1) _ assms(3-5), of "k - src"] by (simp only:) blast
qed

theorem copy_string_correct_witness:
  "\<exists>s'. copy_string (Some 0) 0x100 0x800000 8 demo_vmm = Some (True, s') \<and>
     (\<exists>n<8. string_copied (umem demo_vmm) (umem s') 0x100 0x800000 n)"
proof -
  have al: "\<forall>a\<in>{0x800000..<0x800000 + 8}. allowed demo_vmm [0, 1] False a"
    by (auto simp: allowed_def demo_vmm_def VM_READ_def)
  have "umem demo_vmm (0x800000 + 2) = 0" by (simp add: demo_vmm_def)
  then have z: "\<exists>n<8. umem demo_vmm (0x800000 + n) = 0" by (intro exI[of _ 2]) simp
  have u: "USERBASE \<le> 0x800000" "0x800000 + 8 \<le> USERTOP" "(0x800000 :: nat) + PGSIZE < 2 ^ 64"
    by (simp_all add: USERBASE_def USERTOP_def PGSIZE_def)
  have d: "(0x800000 :: nat) + 8 < 2 ^ 64" "(0x100 :: nat) + 8 < 2 ^ 64"
    "{0x100..<0x100 + 8 :: nat} \<inter> {0x800000..<0x800000 + 8} = {}" by auto
  obtain b s' where c: "copy_string (Some 0) 0x100 0x800000 8 demo_vmm = Some (b, s')"
    "b \<longrightarrow> (\<exists>n<8. string_copied (umem demo_vmm) (umem s') 0x100 0x800000 n)" "b"
    using copy_string_correct[OF demo_mm_ok u(3) d] u(1,2) al z by blast
  then show ?thesis by auto
qed

end
