(* ===== verification/Buddy.thy ===== *)
theory Buddy
  imports DefaultPmm
begin

text \<open>
  The buddy-system physical memory manager (\<^verbatim>\<open>lab2/kern/mm/buddy_pmm.c\<close>), the manager
  that lab2 selects.

  There is one free list for every order below \<^verbatim>\<open>MAX_ORDER\<close>; all of them live in one
  heap of links, whose entries are the headers and the links of the pages. A page
  pointer is the index of the page, as in \<^verbatim>\<open>base - pages\<close>. The loops over the
  descriptors are those of the first-fit manager.
\<close>

unbundle bit_operations_syntax

subsection \<open>State\<close>

definition MAX_ORDER :: nat where "MAX_ORDER = 11"

datatype area_link = Area nat | FPg nat

record buddy =
  bpages :: "nat \<Rightarrow> page"
  blinks :: "area_link list_heap"
  bnr :: "nat \<Rightarrow> nat"
  bnpage :: nat

definition upd_bpage :: "nat \<Rightarrow> (page \<Rightarrow> page) \<Rightarrow> buddy \<Rightarrow> buddy" where
  "upd_bpage i f s = s\<lparr>bpages := (bpages s)(i := f (bpages s i))\<rparr>"

subsection \<open>Arithmetic of orders\<close>

partial_function (option) log2_loop :: "nat \<Rightarrow> nat \<Rightarrow> nat \<Rightarrow> nat option" where
  "log2_loop n order sz = (if sz < n then log2_loop n (u32 (order + 1)) (u64 (2 * sz)) else Some order)"

definition log2_ceil :: "nat \<Rightarrow> nat option" where
  "log2_ceil n = log2_loop n 0 1"

definition pow2 :: "nat \<Rightarrow> nat" where
  "pow2 order = 2 ^ order"

definition buddy_idx :: "nat \<Rightarrow> nat \<Rightarrow> nat" where
  "buddy_idx page_idx order = page_idx XOR 2 ^ order"

subsection \<open>Setting up\<close>

function buddy_init_loop :: "nat \<Rightarrow> buddy \<Rightarrow> buddy" where
  "buddy_init_loop i s =
     (if i < MAX_ORDER
      then buddy_init_loop (i + 1) (s\<lparr>blinks := list_init (blinks s) (Area i), bnr := (bnr s)(i := 0)\<rparr>)
      else s)"
  by pat_completeness auto
termination
  by (relation "measure (\<lambda>(i, s). MAX_ORDER - i)") auto

declare buddy_init_loop.simps [simp del]

definition buddy_init :: "buddy \<Rightarrow> buddy" where
  "buddy_init s = buddy_init_loop 0 s"

text \<open>The largest order whose block fits.\<close>

function fit_order :: "nat \<Rightarrow> nat \<Rightarrow> nat" where
  "fit_order remaining order =
     (if pow2 (order + 1) \<le> remaining \<and> order + 1 < MAX_ORDER then fit_order remaining (order + 1) else order)"
  by pat_completeness auto
termination
  by (relation "measure (\<lambda>(r, k). MAX_ORDER - k)") auto

declare fit_order.simps [simp del]

definition put_block :: "nat \<Rightarrow> nat \<Rightarrow> (area_link list_heap \<Rightarrow> area_link \<Rightarrow> area_link \<Rightarrow> area_link list_heap) \<Rightarrow> buddy \<Rightarrow> buddy" where
  "put_block block order add s =
     (let s1 = upd_bpage block (\<lambda>p. SetPageProperty (p\<lparr>property := order\<rparr>)) s
      in s1\<lparr>blinks := add (blinks s1) (Area order) (FPg block), bnr := (bnr s1)(order := u32 (bnr s1 order + 1))\<rparr>)"

function buddy_chop :: "nat \<Rightarrow> nat \<Rightarrow> nat \<Rightarrow> buddy \<Rightarrow> buddy" where
  "buddy_chop base offset remaining s =
     (if remaining > 0 then
        let order = fit_order remaining 0;
            block_size = pow2 order
        in buddy_chop base (offset + block_size) (remaining - block_size) (put_block (base + offset) order list_add_before s)
      else s)"
  by pat_completeness auto
termination
  by (relation "measure (\<lambda>(b, off, r, s). r)") (auto simp: pow2_def)

declare buddy_chop.simps [simp del]

definition buddy_init_memmap :: "nat \<Rightarrow> nat \<Rightarrow> buddy \<Rightarrow> buddy option" where
  "buddy_init_memmap base n s =
     do { kassert (n > 0);
          pg \<leftarrow> init_memmap_pages n base (bpages s);
          Some (buddy_chop base 0 n (s\<lparr>bpages := pg\<rparr>)) }"

subsection \<open>Allocation\<close>

function find_area :: "nat \<Rightarrow> buddy \<Rightarrow> nat" where
  "find_area current_order s =
     (if current_order < MAX_ORDER
      then if \<not> list_empty (blinks s) (Area current_order) then current_order else find_area (current_order + 1) s
      else current_order)"
  by pat_completeness auto
termination
  by (relation "measure (\<lambda>(k, s). MAX_ORDER - k)") auto

declare find_area.simps [simp del]

text \<open>The loop that splits the block at \<open>pa\<close> down to \<open>order\<close>; the right half goes back.\<close>

fun buddy_split :: "nat \<Rightarrow> nat \<Rightarrow> nat \<Rightarrow> buddy \<Rightarrow> buddy" where
  "buddy_split pa current_order order s =
     (if current_order > order
      then buddy_split pa (current_order - 1) order
             (put_block (pa + pow2 (current_order - 1)) (current_order - 1) list_add s)
      else s)"

declare buddy_split.simps [simp del]

definition buddy_alloc_pages :: "nat \<Rightarrow> buddy \<Rightarrow> (nat option \<times> buddy) option" where
  "buddy_alloc_pages n s =
     do { kassert (n > 0);
          order \<leftarrow> log2_ceil n;
          if order \<ge> MAX_ORDER then Some (None, s)
          else let current_order = find_area order s in
            if current_order \<ge> MAX_ORDER then Some (None, s)
            else case list_next (blinks s) (Area current_order) of
                   Area i \<Rightarrow> None
                 | FPg pa \<Rightarrow>
                     let s1 = s\<lparr>blinks := list_del (blinks s) (FPg pa),
                                bnr := (bnr s)(current_order := u32_minus (bnr s current_order) 1)\<rparr>;
                         s2 = buddy_split pa current_order order s1
                     in Some (Some pa, upd_bpage pa (\<lambda>p. (ClearPageProperty p)\<lparr>property := order\<rparr>) s2) }"

subsection \<open>Release\<close>

text \<open>
  The merge loop, with its variables \<^verbatim>\<open>base\<close> and \<^verbatim>\<open>order\<close>. The page whose mark is
  cleared is chosen after \<^verbatim>\<open>base\<close> has been assigned.
\<close>

function buddy_merge :: "nat \<Rightarrow> nat \<Rightarrow> buddy \<Rightarrow> nat \<times> nat \<times> buddy" where
  "buddy_merge base order s =
     (if order < MAX_ORDER - 1 then
        let bidx = buddy_idx base order in
        if bidx \<ge> bnpage s then (base, order, s)
        else if \<not> PageProperty (bpages s bidx) \<or> property (bpages s bidx) \<noteq> order then (base, order, s)
        else let s1 = s\<lparr>blinks := list_del (blinks s) (FPg bidx), bnr := (bnr s)(order := u32_minus (bnr s order) 1)\<rparr>;
                 base1 = (if bidx < base then bidx else base);
                 s2 = upd_bpage (if bidx < base1 then base1 else bidx) ClearPageProperty s1;
                 s3 = upd_bpage base1 (\<lambda>p. p\<lparr>property := order + 1\<rparr>) s2
             in buddy_merge base1 (order + 1) s3
      else (base, order, s))"
  by pat_completeness auto
termination
  by (relation "measure (\<lambda>(b, order, s). MAX_ORDER - order)") auto

declare buddy_merge.simps [simp del]

definition buddy_free_pages :: "nat \<Rightarrow> nat \<Rightarrow> buddy \<Rightarrow> buddy option" where
  "buddy_free_pages base n s =
     do { kassert (n > 0);
          order \<leftarrow> log2_ceil n;
          if order \<ge> MAX_ORDER then Some s
          else do { pg \<leftarrow> free_reset_pages (pow2 order) base (bpages s);
                    let s1 = upd_bpage base (\<lambda>p. SetPageProperty (p\<lparr>property := order\<rparr>)) (s\<lparr>bpages := pg\<rparr>);
                    let (base1, order1, s2) = buddy_merge base order s1;
                    Some (s2\<lparr>blinks := list_add (blinks s2) (Area order1) (FPg base1),
                             bnr := (bnr s2)(order1 := u32 (bnr s2 order1 + 1))\<rparr>) } }"

function buddy_count_loop :: "nat \<Rightarrow> nat \<Rightarrow> buddy \<Rightarrow> nat" where
  "buddy_count_loop i tot s =
     (if i < MAX_ORDER then buddy_count_loop (i + 1) (u64 (tot + bnr s i * pow2 i)) s else tot)"
  by pat_completeness auto
termination
  by (relation "measure (\<lambda>(i, t, s). MAX_ORDER - i)") auto

declare buddy_count_loop.simps [simp del]

definition buddy_nr_free_pages :: "buddy \<Rightarrow> nat" where
  "buddy_nr_free_pages s = buddy_count_loop 0 0 s"

subsection \<open>Orders\<close>

text \<open>The smallest order whose blocks hold \<open>n\<close> pages.\<close>

definition order_of :: "nat \<Rightarrow> nat" where
  "order_of n = (LEAST k. n \<le> 2 ^ k)"

lemma le_order_of: "n \<le> 2 ^ order_of n"
  unfolding order_of_def by (rule LeastI[of "\<lambda>k. n \<le> 2 ^ k" n]) (simp add: less_imp_le)

lemma order_of_le: "n \<le> 2 ^ k \<Longrightarrow> order_of n \<le> k"
  unfolding order_of_def by (rule Least_le)

lemma order_of_eqI: "n \<le> 2 ^ k \<Longrightarrow> (\<And>j. j < k \<Longrightarrow> 2 ^ j < n) \<Longrightarrow> order_of n = k"
  unfolding order_of_def by (rule Least_equality) (auto simp: not_le[symmetric])

lemma log2_loop_eq:
  assumes "n \<le> 2 ^ 63" "k \<le> 63" "\<And>j. j < k \<Longrightarrow> 2 ^ j < n"
  shows "log2_loop n k (2 ^ k) = Some (order_of n)"
  using assms(2,3)
proof (induction "63 - k" arbitrary: k)
  case 0
  then have "k = 63" by simp
  then show ?case using assms(1) order_of_eqI[OF assms(1)] 0 by (subst log2_loop.simps) simp
next
  case (Suc m)
  show ?case
  proof (cases "2 ^ k < n")
    case True
    have k: "k + 1 \<le> 63" using Suc.hyps(2) by simp
    have "(2::nat) ^ (k + 1) \<le> 2 ^ 63" by (rule power_increasing) (use k in auto)
    then have "u64 (2 * 2 ^ k) = 2 ^ (k + 1)" by simp
    moreover have "log2_loop n (k + 1) (2 ^ (k + 1)) = Some (order_of n)"
      using Suc.hyps Suc.prems True k by (intro Suc.hyps(1)) (auto simp: less_Suc_eq)
    ultimately show ?thesis using True k by (subst log2_loop.simps) simp
  next
    case False
    then have "order_of n = k" using Suc.prems by (intro order_of_eqI) auto
    then show ?thesis using False by (subst log2_loop.simps) simp
  qed
qed

lemma log2_ceil_eq: "n \<le> 2 ^ 63 \<Longrightarrow> log2_ceil n = Some (order_of n)"
  using log2_loop_eq[of n 0] by (simp add: log2_ceil_def)

text \<open>The buddy of a block is the block of the same size right above or below it, aligned or not.\<close>

lemma unset_bit_nat_minus: "bit (i::nat) k \<Longrightarrow> unset_bit k i = i - 2 ^ k"
proof -
  assume b: "bit i k"
  have "set_bit k (unset_bit k i) = i" using b by (intro bit_eqI) (auto simp: bit_simps)
  then have "unset_bit k i + 2 ^ k = i" by (simp add: set_bit_eq bit_simps)
  then show ?thesis by simp
qed

lemma buddy_idx_eq: "buddy_idx i k = (if bit i k then i - 2 ^ k else i + 2 ^ k)"
proof -
  have "buddy_idx i k = flip_bit k i" by (simp add: buddy_idx_def flip_bit_eq_xor push_bit_eq_mult)
  then show ?thesis by (simp add: flip_bit_eq_if set_bit_eq unset_bit_nat_minus)
qed

lemma bit_le: "bit (i::nat) k \<Longrightarrow> 2 ^ k \<le> i"
  by (metis bit_iff_odd div_less dvd_0_right not_less even_zero)

lemma bit_sub_less: "bit (i::nat) k \<Longrightarrow> i - 2 ^ k < i"
  using bit_le[of i k] by (intro diff_less) (auto intro: less_le_trans[of 0 "2 ^ k"])

subsection \<open>Rings that share one heap\<close>

definition areas :: "buddy \<Rightarrow> (nat \<Rightarrow> nat list) \<Rightarrow> bool" where
  "areas s bl \<longleftrightarrow> (\<forall>k<MAX_ORDER. dlist (blinks s) (Area k) (map FPg (bl k)) \<and> bnr s k = length (bl k))"

lemma areasD: "areas s bl \<Longrightarrow> k < MAX_ORDER \<Longrightarrow> dlist (blinks s) (Area k) (map FPg (bl k))"
  "areas s bl \<Longrightarrow> k < MAX_ORDER \<Longrightarrow> bnr s k = length (bl k)"
  by (auto simp: areas_def)

lemma areas_distinct: "areas s bl \<Longrightarrow> k < MAX_ORDER \<Longrightarrow> distinct (bl k)"
  using dlist_distinct[OF areasD(1)] by (auto simp: distinct_map)

lemma areas_cong: "blinks s' = blinks s \<Longrightarrow> bnr s' = bnr s \<Longrightarrow> areas s' bl = areas s bl"
  by (simp add: areas_def)

text \<open>A write to one ring, as seen by all of them.\<close>

lemma areas_update:
  assumes a: "areas s bl" and k: "k < MAX_ORDER"
    and new: "dlist h (Area k) (map FPg ys)" "c = length ys"
    and frame: "\<And>q. q \<notin> insert (Area k) (FPg ` (set (bl k) \<union> E)) \<Longrightarrow>
      next_of h q = next_of (blinks s) q \<and> prev_of h q = prev_of (blinks s) q"
    and sep: "\<And>j. j < MAX_ORDER \<Longrightarrow> j \<noteq> k \<Longrightarrow> set (bl j) \<inter> (set (bl k) \<union> E) = {}"
  shows "areas (s\<lparr>blinks := h, bnr := (bnr s)(k := c)\<rparr>) (bl(k := ys))"
proof -
  have "dlist h (Area j) (map FPg (bl j))" if j: "j < MAX_ORDER" "j \<noteq> k" for j
  proof -
    have "x \<notin> insert (Area k) (FPg ` (set (bl k) \<union> E))" if "x \<in> set (Area j # map FPg (bl j))" for x
      using that sep[OF j] j(2) by auto
    then have "dlist h (Area j) (map FPg (bl j)) = dlist (blinks s) (Area j) (map FPg (bl j))"
      using frame by (intro dlist_cong) blast+
    then show ?thesis using areasD(1)[OF a j(1)] by simp
  qed
  then show ?thesis using a new by (simp add: areas_def)
qed

lemma areas_add:
  assumes a: "areas s bl" and k: "k < MAX_ORDER" and b: "\<And>j. j < MAX_ORDER \<Longrightarrow> b \<notin> set (bl j)"
    and dis: "\<And>j. j < MAX_ORDER \<Longrightarrow> j \<noteq> k \<Longrightarrow> set (bl j) \<inter> set (bl k) = {}" and len: "length (bl k) + 1 < 2 ^ 32"
  shows "areas (s\<lparr>blinks := list_add (blinks s) (Area k) (FPg b), bnr := (bnr s)(k := u32 (bnr s k + 1))\<rparr>) (bl(k := b # bl k))"
    and "areas (s\<lparr>blinks := list_add_before (blinks s) (Area k) (FPg b), bnr := (bnr s)(k := u32 (bnr s k + 1))\<rparr>) (bl(k := bl k @ [b]))"
proof -
  note d = areasD(1)[OF a k]
  have e: "FPg b \<notin> set (Area k # map FPg (bl k))" using b[OF k] by auto
  have sep: "set (bl j) \<inter> (set (bl k) \<union> {b}) = {}" if "j < MAX_ORDER" "j \<noteq> k" for j
    using dis[OF that] b[OF that(1)] by auto
  show "areas (s\<lparr>blinks := list_add (blinks s) (Area k) (FPg b), bnr := (bnr s)(k := u32 (bnr s k + 1))\<rparr>) (bl(k := b # bl k))"
    by (rule areas_update[OF a k, where E = "{b}"])
      (use lh.push_front[OF d e] dlist_add_frame[OF d] sep len areasD(2)[OF a k] in \<open>auto simp: list_add_def[symmetric]\<close>)
  show "areas (s\<lparr>blinks := list_add_before (blinks s) (Area k) (FPg b), bnr := (bnr s)(k := u32 (bnr s k + 1))\<rparr>) (bl(k := bl k @ [b]))"
    by (rule areas_update[OF a k, where E = "{b}"])
      (use lh.push_back[OF d e] dlist_add_before_frame[OF d] sep len areasD(2)[OF a k] in auto)
qed

lemma areas_del:
  assumes a: "areas s bl" and k: "k < MAX_ORDER" and b: "b \<in> set (bl k)"
    and dis: "\<And>j. j < MAX_ORDER \<Longrightarrow> j \<noteq> k \<Longrightarrow> set (bl j) \<inter> set (bl k) = {}" and len: "length (bl k) < 2 ^ 32"
  shows "areas (s\<lparr>blinks := list_del (blinks s) (FPg b), bnr := (bnr s)(k := u32_minus (bnr s k) 1)\<rparr>) (bl(k := remove1 b (bl k)))"
proof -
  note d = areasD(1)[OF a k]
  obtain us vs where bl: "bl k = us @ b # vs" "b \<notin> set us" using split_list_first[OF b] by blast
  have d2: "dlist (blinks s) (Area k) (map FPg us @ FPg b # map FPg vs)" using d bl by simp
  have r: "remove1 b (bl k) = us @ vs" using bl by (simp add: remove1_append)
  have "dlist (list_del (blinks s) (FPg b)) (Area k) (map FPg (remove1 b (bl k)))"
    using dlist_del[OF d2] r by simp
  then show ?thesis
    by (rule areas_update[OF a k, where E = "{}"])
      (use dlist_del_frame[OF d2] dis len areasD(2)[OF a k] bl in \<open>auto simp: remove1_append\<close>)
qed

subsection \<open>The invariant\<close>

text \<open>
  \<open>bl k\<close> lists the free blocks of order \<open>k\<close>. \<open>buddy_core\<close> leaves open which pages
  carry the mark \<open>PG_property\<close>; in \<open>buddy_inv\<close> they are the heads of the free blocks.
\<close>

definition buddy_free :: "(nat \<Rightarrow> nat list) \<Rightarrow> nat set" where
  "buddy_free bl = (\<Union>k<MAX_ORDER. \<Union>b\<in>set (bl k). {b..<b + 2 ^ k})"

definition separated :: "(nat \<Rightarrow> nat list) \<Rightarrow> bool" where
  "separated bl \<longleftrightarrow> (\<forall>k<MAX_ORDER. \<forall>l<MAX_ORDER. \<forall>b\<in>set (bl k). \<forall>c\<in>set (bl l).
     (k, b) \<noteq> (l, c) \<longrightarrow> {b..<b + 2 ^ k} \<inter> {c..<c + 2 ^ l} = {})"

definition buddy_core :: "buddy \<Rightarrow> (nat \<Rightarrow> nat list) \<Rightarrow> bool" where
  "buddy_core s bl \<longleftrightarrow> areas s bl \<and> separated bl \<and> buddy_free bl \<subseteq> {..<bnpage s} \<and> bnpage s < 2 ^ 32 \<and>
     (\<forall>k<MAX_ORDER. \<forall>b\<in>set (bl k). property (bpages s b) = k) \<and>
     (\<forall>p\<in>buddy_free bl. \<not> PageReserved (bpages s p))"

definition heads :: "(nat \<Rightarrow> nat list) \<Rightarrow> nat set" where
  "heads bl = (\<Union>k<MAX_ORDER. set (bl k))"

definition marked :: "buddy \<Rightarrow> nat set \<Rightarrow> bool" where
  "marked s X \<longleftrightarrow> (\<forall>p. PageProperty (bpages s p) \<longleftrightarrow> p \<in> X)"

definition buddy_inv :: "buddy \<Rightarrow> (nat \<Rightarrow> nat list) \<Rightarrow> bool" where
  "buddy_inv s bl \<longleftrightarrow> buddy_core s bl \<and> marked s (heads bl)"

lemma separatedD:
  "separated bl \<Longrightarrow> k < MAX_ORDER \<Longrightarrow> l < MAX_ORDER \<Longrightarrow> b \<in> set (bl k) \<Longrightarrow> c \<in> set (bl l) \<Longrightarrow>
   (k, b) \<noteq> (l, c) \<Longrightarrow> {b..<b + 2 ^ k} \<inter> {c..<c + 2 ^ l} = {}"
  by (simp add: separated_def)

lemma headsI: "k < MAX_ORDER \<Longrightarrow> b \<in> set (bl k) \<Longrightarrow> b \<in> heads bl"
  by (auto simp: heads_def)

lemma heads_free: "heads bl \<subseteq> buddy_free bl"
  by (force simp: heads_def buddy_free_def)

lemma UN_upd: "k < M \<Longrightarrow> (\<Union>j<M. F j ((f(k := x)) j)) = F k x \<union> (\<Union>j\<in>{..<M} - {k}. F j (f j))" for M :: nat
proof -
  assume "k < M"
  then have M: "{..<M} = insert k ({..<M} - {k})" by auto
  show ?thesis by (subst M) (simp del: insert_Diff_single)
qed

lemma heads_upd: "k < MAX_ORDER \<Longrightarrow> heads (bl(k := xs)) = set xs \<union> heads (bl(k := []))"
  unfolding heads_def by (simp add: UN_upd[of k MAX_ORDER "\<lambda>j. set"] del: fun_upd_apply)

lemma free_upd: "k < MAX_ORDER \<Longrightarrow> buddy_free (bl(k := xs)) = (\<Union>b\<in>set xs. {b..<b + 2 ^ k}) \<union> buddy_free (bl(k := []))"
  unfolding buddy_free_def by (simp add: UN_upd[of k MAX_ORDER "\<lambda>j ys. \<Union>b\<in>set ys. {b..<b + 2 ^ j}"] del: fun_upd_apply)

lemma core_dis:
  assumes "buddy_core s bl" "j < MAX_ORDER" "k < MAX_ORDER" "j \<noteq> k"
  shows "set (bl j) \<inter> set (bl k) = {}"
proof -
  have "property (bpages s x) = i" if "x \<in> set (bl i)" "i < MAX_ORDER" for x i
    using assms(1) that by (simp add: buddy_core_def)
  then show ?thesis using assms(2-4) by blast
qed

lemma core_length:
  assumes "buddy_core s bl" "k < MAX_ORDER"
  shows "length (bl k) \<le> bnpage s"
proof -
  have "set (bl k) \<subseteq> {..<bnpage s}"
    using assms heads_free headsI by (fastforce simp: buddy_core_def)
  then have "card (set (bl k)) \<le> card {..<bnpage s}" by (intro card_mono) auto
  then show ?thesis using distinct_card[OF areas_distinct, of s bl k] assms by (simp add: buddy_core_def)
qed

lemma core_bound:
  assumes "buddy_core s bl" "{b..<b + 2 ^ k} \<subseteq> buddy_free bl"
  shows "b + 2 ^ k \<le> bnpage s"
proof -
  have one: "(1::nat) \<le> 2 ^ k" by simp
  have "b + 2 ^ k - 1 \<in> {b..<b + 2 ^ k}" unfolding atLeastLessThan_iff using one by linarith
  then have "b + 2 ^ k - 1 < bnpage s" using assms unfolding buddy_core_def by blast
  then show ?thesis by simp
qed

lemma core_member:
  assumes "buddy_core s bl" "p \<in> heads bl" "property (bpages s p) = k"
  shows "k < MAX_ORDER" "p \<in> set (bl k)"
  using assms by (auto simp: heads_def buddy_core_def)

text \<open>Adding a block that is disjoint from the free ones.\<close>

lemma separated_add:
  assumes "separated bl" "k < MAX_ORDER" "{b..<b + 2 ^ k} \<inter> buddy_free bl = {}" "set ys = insert b (set (bl k))"
  shows "separated (bl(k := ys))"
proof -
  have new: "{b..<b + 2 ^ k} \<inter> {c..<c + 2 ^ l} = {}" if "l < MAX_ORDER" "c \<in> set (bl l)" for c l
    using assms(3) that by (fastforce simp: buddy_free_def)
  show ?thesis unfolding separated_def
  proof (intro allI impI ballI)
    fix i l x y
    assume il: "i < MAX_ORDER" "l < MAX_ORDER" and x: "x \<in> set ((bl(k := ys)) i)" and y: "y \<in> set ((bl(k := ys)) l)"
      and ne: "(i, x) \<noteq> (l, y)"
    have x': "(i = k \<and> x = b) \<or> x \<in> set (bl i)" and y': "(l = k \<and> y = b) \<or> y \<in> set (bl l)"
      using x y assms(4) by (auto split: if_splits)
    then consider "i = k" "x = b" "l = k" "y = b" | "i = k" "x = b" "y \<in> set (bl l)" |
      "l = k" "y = b" "x \<in> set (bl i)" | "x \<in> set (bl i)" "y \<in> set (bl l)" by blast
    then show "{x..<x + 2 ^ i} \<inter> {y..<y + 2 ^ l} = {}"
    proof cases
      case 1
      then show ?thesis using ne by simp
    next
      case 2
      then show ?thesis using new[OF il(2)] by simp
    next
      case 3
      then show ?thesis using new[OF il(1), of x] by (simp add: Int_commute)
    next
      case 4
      then show ?thesis using assms(1) il ne by (simp add: separated_def)
    qed
  qed
qed

lemma core_add:
  assumes c: "buddy_core s bl" and k: "k < MAX_ORDER" and blk: "{b..<b + 2 ^ k} \<inter> buddy_free bl = {}"
    and bnd: "b + 2 ^ k \<le> bnpage s" and res: "\<And>p. p \<in> {b..<b + 2 ^ k} \<Longrightarrow> \<not> PageReserved (bpages s' p)"
    and keep: "\<And>p. p \<in> buddy_free bl \<Longrightarrow> bpages s' p = bpages s p"
    and prp: "property (bpages s' b) = k"
    and ar: "areas s' (bl(k := ys))" and ys: "set ys = insert b (set (bl k))"
    and np: "bnpage s' = bnpage s"
  shows "buddy_core s' (bl(k := ys)) \<and> buddy_free (bl(k := ys)) = buddy_free bl \<union> {b..<b + 2 ^ k} \<and>
    heads (bl(k := ys)) = insert b (heads bl)"
proof -
  have h: "heads (bl(k := ys)) = insert b (heads bl)"
    using heads_upd[OF k, of bl ys] heads_upd[OF k, of bl "bl k"] ys by simp
  have f: "buddy_free (bl(k := ys)) = buddy_free bl \<union> {b..<b + 2 ^ k}"
    using free_upd[OF k, of bl ys] free_upd[OF k, of bl "bl k"] ys by auto
  have p: "property (bpages s' x) = j" if "j < MAX_ORDER" "x \<in> set ((bl(k := ys)) j)" for j x
  proof (cases "j = k \<and> x = b")
    case True
    then show ?thesis using prp by simp
  next
    case False
    then have x: "x \<in> set (bl j)" using that ys by (auto split: if_splits)
    then have "bpages s' x = bpages s x" using keep heads_free headsI[of j x bl] that(1) x by blast
    then show ?thesis using c that(1) x by (simp add: buddy_core_def)
  qed
  have "\<forall>p\<in>buddy_free bl. \<not> PageReserved (bpages s' p)" using c keep by (simp add: buddy_core_def)
  then have "\<forall>p\<in>buddy_free (bl(k := ys)). \<not> PageReserved (bpages s' p)" using res unfolding f by auto
  moreover have "buddy_free (bl(k := ys)) \<subseteq> {..<bnpage s'}" using c bnd np unfolding f by (auto simp: buddy_core_def)
  moreover have "separated (bl(k := ys))" using separated_add[OF _ k blk ys] c by (simp add: buddy_core_def)
  ultimately show ?thesis using c ar np p h f by (simp add: buddy_core_def)
qed

text \<open>Taking a block out of its list.\<close>

definition drop_block :: "nat \<Rightarrow> nat \<Rightarrow> buddy \<Rightarrow> buddy" where
  "drop_block b k s = s\<lparr>blinks := list_del (blinks s) (FPg b), bnr := (bnr s)(k := u32_minus (bnr s k) 1)\<rparr>"

lemma drop_block_simps [simp]:
  "bpages (drop_block b k s) = bpages s" "bnpage (drop_block b k s) = bnpage s"
  by (simp_all add: drop_block_def)

lemma core_del:
  assumes c: "buddy_core s bl" and k: "k < MAX_ORDER" and b: "b \<in> set (bl k)"
  defines "bl' \<equiv> bl(k := remove1 b (bl k))"
  shows "buddy_core (drop_block b k s) bl' \<and> buddy_free bl' = buddy_free bl - {b..<b + 2 ^ k} \<and>
    heads bl' = heads bl - {b} \<and> {b..<b + 2 ^ k} \<subseteq> buddy_free bl"
proof -
  have len: "length (bl k) < 2 ^ 32" using core_length[OF c k] c by (simp add: buddy_core_def)
  have "areas s bl" using c by (simp add: buddy_core_def)
  note areas_del[where bl = bl and b = b, OF this k b core_dis[OF c _ k] len]
  then have ar: "areas (drop_block b k s) bl'" by (simp add: drop_block_def bl'_def)
  have st: "set (remove1 b (bl k)) = set (bl k) - {b}"
    using areas_distinct[of s bl k] c k by (simp add: buddy_core_def)
  have sub: "set (bl' j) \<subseteq> set (bl j)" for j using st by (auto simp: bl'_def)
  have sep: "separated bl" using c by (simp add: buddy_core_def)
  have oth: "{b..<b + 2 ^ k} \<inter> {x..<x + 2 ^ j} = {}" if "j < MAX_ORDER" "x \<in> set (bl' j)" for j x
  proof -
    have "b \<notin> set (bl' k)" unfolding bl'_def fun_upd_same st by simp
    then have "(k, b) \<noteq> (j, x)" using that by auto
    moreover have "x \<in> set (bl j)" using that(2) sub by blast
    ultimately show ?thesis by (intro separatedD[OF sep k that(1) b])
  qed
  have sub2: "buddy_free bl' \<subseteq> buddy_free bl" using sub by (fastforce simp: buddy_free_def)
  have d: "{b..<b + 2 ^ k} \<inter> buddy_free bl' = {}" using oth unfolding buddy_free_def by blast
  have "buddy_free bl = buddy_free bl' \<union> {b..<b + 2 ^ k}"
    using free_upd[OF k, of bl "bl k"] free_upd[OF k, of bl "remove1 b (bl k)"] st b by (auto simp: bl'_def)
  then have f: "buddy_free bl' = buddy_free bl - {b..<b + 2 ^ k}" "{b..<b + 2 ^ k} \<subseteq> buddy_free bl" using d by auto
  have "b \<notin> heads bl'" using d heads_free by force
  moreover have "heads bl = insert b (heads bl')"
    using heads_upd[OF k, of bl "bl k"] heads_upd[OF k, of bl "remove1 b (bl k)"] st b by (auto simp: bl'_def)
  ultimately have h: "heads bl' = heads bl - {b}" by auto
  have "separated bl'" using sep sub unfolding separated_def by (meson subsetD)
  moreover have "property (bpages s x) = j" if "j < MAX_ORDER" "x \<in> set (bl' j)" for j x
    using c that(1) subsetD[OF sub that(2)] by (simp add: buddy_core_def)
  ultimately show ?thesis using c ar f h by (auto simp: buddy_core_def)
qed

lemma put_block_fields:
  "bpages (put_block b k add s) = (bpages s)(b := SetPageProperty ((bpages s b)\<lparr>property := k\<rparr>))"
  "bnpage (put_block b k add s) = bnpage s"
  by (simp_all add: put_block_def upd_bpage_def Let_def)

lemma put_block_ok:
  assumes c: "buddy_core s bl" and k: "k < MAX_ORDER" and blk: "{b..<b + 2 ^ k} \<inter> buddy_free bl = {}"
    and bnd: "b + 2 ^ k \<le> bnpage s" and res: "\<And>p. p \<in> {b..<b + 2 ^ k} \<Longrightarrow> \<not> PageReserved (bpages s p)"
    and ys: "add = list_add \<and> ys = b # bl k \<or> add = list_add_before \<and> ys = bl k @ [b]"
  shows "buddy_core (put_block b k add s) (bl(k := ys)) \<and>
    buddy_free (bl(k := ys)) = buddy_free bl \<union> {b..<b + 2 ^ k} \<and> heads (bl(k := ys)) = insert b (heads bl)"
proof (rule core_add[OF c k blk bnd])
  let ?s1 = "upd_bpage b (\<lambda>p. SetPageProperty (p\<lparr>property := k\<rparr>)) s"
  have nin: "b \<notin> buddy_free bl" using blk disjoint_iff[of "{b..<b + 2 ^ k}" "buddy_free bl"] by simp
  have "areas ?s1 bl = areas s bl" by (rule areas_cong) (simp_all add: upd_bpage_def)
  then have a: "areas ?s1 bl" using c by (simp add: buddy_core_def)
  have b: "b \<notin> set (bl j)" if "j < MAX_ORDER" for j using nin heads_free headsI[of j b bl] that by blast
  have "length (bl k) + 1 < 2 ^ 32"
  proof -
    have "insert b (set (bl k)) \<subseteq> {..<bnpage s}"
    proof -
      have "(0::nat) < 2 ^ k" by simp
      then have "b < bnpage s" using bnd by linarith
      then show ?thesis
        using subset_trans[OF heads_free, of bl "{..<bnpage s}"] headsI[of k _ bl] c k by (auto simp: buddy_core_def)
    qed
    then have "card (insert b (set (bl k))) \<le> card {..<bnpage s}" by (intro card_mono) auto
    then show ?thesis using b[OF k] distinct_card[OF areas_distinct, of s bl k] c k by (simp add: buddy_core_def)
  qed
  note add = areas_add[OF a k b core_dis[OF c _ k] this]
  show "areas (put_block b k add s) (bl(k := ys))"
    using add ys unfolding put_block_def Let_def by (elim disjE) simp_all
  show "set ys = insert b (set (bl k))" using ys by auto
  show "bpages (put_block b k add s) p = bpages s p" if "p \<in> buddy_free bl" for p
    using that nin by (auto simp: put_block_fields)
qed (use res in \<open>auto simp: put_block_fields\<close>)

lemma marked_put: "marked s X \<Longrightarrow> marked (put_block b k add s) (insert b X)"
  by (auto simp: marked_def put_block_fields)

text \<open>The lists after the block at \<open>p\<close> has been split from order \<open>c\<close> down to \<open>d\<close>.\<close>

definition split_lists :: "nat \<Rightarrow> nat \<Rightarrow> nat \<Rightarrow> (nat \<Rightarrow> nat list) \<Rightarrow> nat \<Rightarrow> nat list" where
  "split_lists p c d bl = (\<lambda>j. if d \<le> j \<and> j < c then (p + 2 ^ j) # bl j else bl j)"

lemma split_lists_same [simp]: "split_lists p d d bl = bl"
  by (auto simp: split_lists_def fun_eq_iff)

lemma buddy_split_ok:
  assumes "buddy_core s bl" "marked s (insert p (heads bl))" "d \<le> c" "c < MAX_ORDER"
    "{p..<p + 2 ^ c} \<inter> buddy_free bl = {}" "p + 2 ^ c \<le> bnpage s" "\<And>q. q \<in> {p..<p + 2 ^ c} \<Longrightarrow> \<not> PageReserved (bpages s q)"
  defines "bl' \<equiv> split_lists p c d bl" and "s' \<equiv> buddy_split p c d s"
  shows "buddy_core s' bl' \<and> marked s' (insert p (heads bl')) \<and>
    buddy_free bl' = buddy_free bl \<union> {p + 2 ^ d..<p + 2 ^ c}"
  using assms(1-7) unfolding bl'_def s'_def
proof (induction "c - d" arbitrary: c s bl)
  case 0
  then have "c = d" by simp
  then show ?case using 0 by (simp add: buddy_split.simps[of p d])
next
  case (Suc m)
  define e where "e = c - 1"
  have ce: "c = Suc e" "d \<le> e" using Suc.hyps(2) by (auto simp: e_def)
  define b where "b = p + 2 ^ e"
  have pe: "(2::nat) ^ c = 2 ^ e + 2 ^ e" by (simp add: ce)
  have sub: "{b..<b + 2 ^ e} \<subseteq> {p..<p + 2 ^ c}" "{p..<p + 2 ^ e} \<subseteq> {p..<p + 2 ^ c}" by (auto simp: b_def pe)
  have fb: "{b..<b + 2 ^ e} \<inter> buddy_free bl = {}" using sub Suc.prems(5) by blast
  let ?s = "put_block b e list_add s" and ?bl = "bl(e := b # bl e)"
  have put: "buddy_core ?s ?bl" "buddy_free ?bl = buddy_free bl \<union> {b..<b + 2 ^ e}" "heads ?bl = insert b (heads bl)"
    using put_block_ok[OF Suc.prems(1) _ fb, of list_add "b # bl e"] Suc.prems(4,6,7) sub(1) ce pe by (auto simp: b_def)
  have "{p..<p + 2 ^ e} \<inter> buddy_free ?bl = {}"
  proof -
    have "{p..<p + 2 ^ e} \<inter> buddy_free bl = {}" using sub(2) Suc.prems(5) by blast
    then show ?thesis unfolding put(2) by (auto simp: b_def)
  qed
  moreover have "marked ?s (insert p (heads ?bl))"
    using marked_put[OF Suc.prems(2), of b e list_add] put(3) by (simp add: insert_commute)
  moreover have "\<not> PageReserved (bpages ?s q)" if "q \<in> {p..<p + 2 ^ e}" for q
    using Suc.prems(7) that sub by (auto simp: put_block_fields)
  ultimately have "buddy_core (buddy_split p e d ?s) (split_lists p e d ?bl) \<and>
      marked (buddy_split p e d ?s) (insert p (heads (split_lists p e d ?bl))) \<and>
      buddy_free (split_lists p e d ?bl) = buddy_free ?bl \<union> {p + 2 ^ d..<p + 2 ^ e}"
    using Suc.hyps(2) Suc.prems(4,6) put(1) ce pe by (intro Suc.hyps(1)) (auto simp: put_block_fields)
  moreover have "split_lists p e d ?bl = split_lists p c d bl"
    using ce by (auto simp: split_lists_def fun_eq_iff b_def less_Suc_eq)
  moreover have "buddy_split p c d s = buddy_split p e d ?s"
    using ce by (subst buddy_split.simps) (simp add: b_def pow2_def)
  moreover have "{b..<b + 2 ^ e} \<union> {p + 2 ^ d..<p + 2 ^ e} = {p + 2 ^ d..<p + 2 ^ c}"
  proof -
    have "(2::nat) ^ d \<le> 2 ^ e" by (rule power_increasing) (use ce in auto)
    then have "b + 2 ^ e = p + 2 ^ c" "p + 2 ^ d \<le> b" by (simp_all add: b_def pe)
    then show ?thesis using \<open>2 ^ d \<le> 2 ^ e\<close> by (auto simp: b_def[symmetric])
  qed
  ultimately show ?case using put(2) by (simp add: Un_assoc)
qed

subsection \<open>Allocation is correct\<close>

lemma find_area_ok:
  assumes "areas s bl" "k \<le> MAX_ORDER"
  shows "k \<le> find_area k s \<and> find_area k s \<le> MAX_ORDER \<and> (\<forall>j\<in>{k..<find_area k s}. bl j = []) \<and>
    (find_area k s < MAX_ORDER \<longrightarrow> bl (find_area k s) \<noteq> [])"
  using assms(2)
proof (induction "MAX_ORDER - k" arbitrary: k)
  case 0
  then show ?case by (simp add: find_area.simps[of MAX_ORDER])
next
  case (Suc m)
  have k: "k < MAX_ORDER" using Suc.hyps(2) by simp
  have e: "list_empty (blinks s) (Area k) \<longleftrightarrow> bl k = []" using dlist_empty_iff[OF areasD(1)[OF assms(1) k]] by simp
  show ?case
  proof (cases "bl k = []")
    case True
    have "k + 1 \<le> find_area (k + 1) s \<and> find_area (k + 1) s \<le> MAX_ORDER \<and> (\<forall>j\<in>{k + 1..<find_area (k + 1) s}. bl j = []) \<and>
      (find_area (k + 1) s < MAX_ORDER \<longrightarrow> bl (find_area (k + 1) s) \<noteq> [])"
      using Suc.hyps(2) k by (intro Suc.hyps(1)) auto
    moreover have "find_area k s = find_area (k + 1) s" using True e k by (simp add: find_area.simps[of k])
    moreover have "{k..<find_area (k + 1) s} \<subseteq> insert k {k + 1..<find_area (k + 1) s}" by auto
    ultimately show ?thesis using True by (metis Suc_eq_plus1 Suc_leD insert_iff subset_iff)
  next
    case False
    then show ?thesis using e k by (simp add: find_area.simps[of k])
  qed
qed

lemma core_clear:
  assumes "buddy_core s bl" "p \<notin> buddy_free bl"
  shows "buddy_core (upd_bpage p f s) bl"
proof -
  have "areas (upd_bpage p f s) bl = areas s bl" by (rule areas_cong) (simp_all add: upd_bpage_def)
  moreover have "p \<notin> set (bl k)" if "k < MAX_ORDER" for k using headsI[OF that] heads_free assms(2) by blast
  ultimately show ?thesis using assms by (auto simp: buddy_core_def upd_bpage_def)
qed

lemma buddy_alloc_spec:
  assumes inv: "buddy_inv s bl" and n: "0 < n" "n \<le> 2 ^ 63"
  shows "\<exists>r s'. buddy_alloc_pages n s = Some (r, s') \<and>
    (case r of
       None \<Rightarrow> s' = s \<and> (\<forall>j<MAX_ORDER. n \<le> 2 ^ j \<longrightarrow> bl j = [])
     | Some p \<Rightarrow> (\<exists>j bl'. order_of n \<le> j \<and> j < MAX_ORDER \<and> p = hd (bl j) \<and> bl j \<noteq> [] \<and>
         (\<forall>i\<in>{order_of n..<j}. bl i = []) \<and> buddy_inv s' bl' \<and>
         {p..<p + 2 ^ order_of n} \<subseteq> buddy_free bl \<and> buddy_free bl' = buddy_free bl - {p..<p + 2 ^ order_of n}))"
proof -
  define k where "k = order_of n"
  have c: "buddy_core s bl" and m: "marked s (heads bl)" using inv by (auto simp: buddy_inv_def)
  have a: "areas s bl" using c by (simp add: buddy_core_def)
  note lg = log2_ceil_eq[OF n(2), folded k_def]
  define j where "j = find_area k s"
  show ?thesis
  proof (cases "MAX_ORDER \<le> k \<or> MAX_ORDER \<le> j")
    case True
    have "bl i = []" if i: "i < MAX_ORDER" "n \<le> 2 ^ i" for i
      using find_area_ok[OF a, of k, folded j_def] True i order_of_le[OF i(2)] by (auto simp: k_def)
    then show ?thesis using True lg n by (auto simp: buddy_alloc_pages_def Let_def j_def)
  next
    case False
    then have k: "k < MAX_ORDER" and j: "j < MAX_ORDER" by auto
    have fa: "k \<le> j" "\<forall>i\<in>{k..<j}. bl i = []" "bl j \<noteq> []"
      using find_area_ok[OF a, of k, folded j_def] k j by auto
    then obtain p ps where bj: "bl j = p # ps" by (cases "bl j") auto
    have nx: "list_next (blinks s) (Area j) = FPg p" using lh.first[OF areasD(1)[OF a j]] bj by simp
    define bl1 where "bl1 = bl(j := ps)"
    have pj: "p \<in> set (bl j)" "remove1 p (bl j) = ps" using bj by auto
    have del: "buddy_core (drop_block p j s) bl1" "buddy_free bl1 = buddy_free bl - {p..<p + 2 ^ j}"
      "heads bl1 = heads bl - {p}" "{p..<p + 2 ^ j} \<subseteq> buddy_free bl"
      using core_del[OF c j pj(1)] by (simp_all add: pj(2) bl1_def)
    have ph: "p \<in> heads bl" using headsI[of j p bl] j pj(1) by simp
    define s2 where "s2 = buddy_split p j k (drop_block p j s)"
    define bl2 where "bl2 = split_lists p j k bl1"
    note np = core_bound[OF c del(4)]
    have "buddy_core s2 bl2 \<and> marked s2 (insert p (heads bl2)) \<and> buddy_free bl2 = buddy_free bl1 \<union> {p + 2 ^ k..<p + 2 ^ j}"
      unfolding s2_def bl2_def
    proof (rule buddy_split_ok[OF del(1) _ fa(1) j])
      show "marked (drop_block p j s) (insert p (heads bl1))" using m ph del(3) by (simp add: marked_def insert_absorb)
      show "{p..<p + 2 ^ j} \<inter> buddy_free bl1 = {}" using del(2) by auto
      show "\<not> PageReserved (bpages (drop_block p j s) q)" if "q \<in> {p..<p + 2 ^ j}" for q
        using subsetD[OF del(4) that] c by (simp add: buddy_core_def)
    qed (use np in simp)
    then have sp: "buddy_core s2 bl2" "marked s2 (insert p (heads bl2))" "buddy_free bl2 = buddy_free bl1 \<union> {p + 2 ^ k..<p + 2 ^ j}"
      by auto
    have pw: "(2::nat) ^ k \<le> 2 ^ j" by (rule power_increasing) (use fa(1) in auto)
    have sub: "{p..<p + 2 ^ k} \<subseteq> {p..<p + 2 ^ j}" "{p..<p + 2 ^ j} - {p..<p + 2 ^ k} = {p + 2 ^ k..<p + 2 ^ j}"
      using pw by auto
    have fr: "buddy_free bl2 = buddy_free bl - {p..<p + 2 ^ k}"
      using sp(3) del(2,4) sub by blast
    have pn: "p \<notin> buddy_free bl2" using fr by simp
    let ?s = "upd_bpage p (\<lambda>q. (ClearPageProperty q)\<lparr>property := k\<rparr>) s2"
    have "marked ?s (heads bl2)"
      using sp(2) pn heads_free[of bl2] by (auto simp: marked_def upd_bpage_def)
    then have "buddy_inv ?s bl2" using core_clear[OF sp(1) pn] by (simp add: buddy_inv_def)
    moreover have al: "buddy_alloc_pages n s = Some (Some p, ?s)"
      using lg n k j nx by (simp add: buddy_alloc_pages_def Let_def j_def[symmetric] s2_def drop_block_def)
    moreover have "{p..<p + 2 ^ k} \<subseteq> buddy_free bl" using sub(1) del(4) by (rule subset_trans)
    ultimately have "\<exists>j bl'. k \<le> j \<and> j < MAX_ORDER \<and> p = hd (bl j) \<and> bl j \<noteq> [] \<and> (\<forall>i\<in>{k..<j}. bl i = []) \<and>
        buddy_inv ?s bl' \<and> {p..<p + 2 ^ k} \<subseteq> buddy_free bl \<and> buddy_free bl' = buddy_free bl - {p..<p + 2 ^ k}"
      using fa j bj fr by - (rule exI[of _ j], rule exI[of _ bl2], simp)
    then show ?thesis using al unfolding k_def[symmetric] by simp
  qed
qed

subsection \<open>Release\<close>

text \<open>
  A free block of order \<open>j\<close> right below \<open>base\<close> that the merge loop would take for the
  buddy of the block at \<open>base\<close>.
\<close>

definition lower_buddy :: "buddy \<Rightarrow> nat \<Rightarrow> nat \<Rightarrow> bool" where
  "lower_buddy s base j \<longleftrightarrow> bit base j \<and> PageProperty (bpages s (base - 2 ^ j)) \<and> property (bpages s (base - 2 ^ j)) = j"

text \<open>What the loop keeps: the block at \<open>base\<close> of order \<open>k\<close> is in no list, and its head is marked.\<close>

definition taken :: "buddy \<Rightarrow> (nat \<Rightarrow> nat list) \<Rightarrow> nat \<Rightarrow> nat \<Rightarrow> bool" where
  "taken s bl base k \<longleftrightarrow> buddy_core s bl \<and> marked s (insert base (heads bl)) \<and> k < MAX_ORDER \<and>
     property (bpages s base) = k \<and> {base..<base + 2 ^ k} \<inter> buddy_free bl = {} \<and> base + 2 ^ k \<le> bnpage s \<and>
     (\<forall>p\<in>{base..<base + 2 ^ k}. \<not> PageReserved (bpages s p)) \<and>
     (\<forall>j. k \<le> j \<and> j < MAX_ORDER - 1 \<longrightarrow> \<not> lower_buddy s base j)"

lemma core_cong:
  assumes "buddy_core s bl" "blinks s' = blinks s" "bnr s' = bnr s" "bnpage s' = bnpage s"
    "\<And>p. p \<in> buddy_free bl \<Longrightarrow> bpages s' p = bpages s p"
  shows "buddy_core s' bl"
proof -
  have "bpages s' b = bpages s b" if "k < MAX_ORDER" "b \<in> set (bl k)" for k b
    using assms(5) heads_free headsI[of k b bl] that by blast
  then show ?thesis using assms areas_cong[of s' s bl] by (simp add: buddy_core_def)
qed

lemma taken_step:
  assumes h: "taken s bl base k" and k: "k < MAX_ORDER - 1"
    and bd: "PageProperty (bpages s (buddy_idx base k))" "property (bpages s (buddy_idx base k)) = k"
  defines "b \<equiv> base + 2 ^ k"
  defines "s3 \<equiv> upd_bpage base (\<lambda>p. p\<lparr>property := k + 1\<rparr>) (upd_bpage b ClearPageProperty (drop_block b k s))"
  shows "buddy_idx base k = b \<and> (\<exists>bl'. taken s3 bl' base (k + 1) \<and>
    buddy_free bl' \<union> {base..<base + 2 ^ (k + 1)} = buddy_free bl \<union> {base..<base + 2 ^ k})"
proof -
  have c: "buddy_core s bl" and m: "marked s (insert base (heads bl))"
    and disj: "{base..<base + 2 ^ k} \<inter> buddy_free bl = {}" and bnd: "base + 2 ^ k \<le> bnpage s"
    and res: "\<forall>p\<in>{base..<base + 2 ^ k}. \<not> PageReserved (bpages s p)"
    and low: "\<And>j. k \<le> j \<Longrightarrow> j < MAX_ORDER - 1 \<Longrightarrow> \<not> lower_buddy s base j"
    and kM: "k < MAX_ORDER"
    using h by (auto simp: taken_def)
  have nb: "\<not> bit base k" using low[OF le_refl k] bd by (auto simp: lower_buddy_def buddy_idx_eq split: if_splits)
  then have bi: "buddy_idx base k = b" by (simp add: buddy_idx_eq b_def)
  have "b \<in> insert base (heads bl)" using m bd(1) by (simp add: marked_def bi)
  then have bh: "b \<in> heads bl" by (simp add: b_def)
  have bk: "b \<in> set (bl k)" using core_member(2)[OF c bh] bd(2) by (simp add: bi)
  define bl' where "bl' = bl(k := remove1 b (bl k))"
  have del: "buddy_core (drop_block b k s) bl'" "buddy_free bl' = buddy_free bl - {b..<b + 2 ^ k}"
    "heads bl' = heads bl - {b}" "{b..<b + 2 ^ k} \<subseteq> buddy_free bl"
    using core_del[OF c kM bk] by (simp_all add: bl'_def)
  have dbl: "{base..<base + 2 ^ (k + 1)} = {base..<base + 2 ^ k} \<union> {b..<b + 2 ^ k}" by (auto simp: b_def)
  have dis2: "{base..<base + 2 ^ (k + 1)} \<inter> buddy_free bl' = {}" unfolding dbl del(2) using disj by blast
  have pg: "bpages s3 = (bpages s)(b := ClearPageProperty (bpages s b), base := (bpages s base)\<lparr>property := k + 1\<rparr>)"
    by (simp add: s3_def upd_bpage_def b_def)
  have nin: "base \<notin> buddy_free bl'" "b \<notin> buddy_free bl'"
    using dis2 by (auto simp: b_def disjoint_iff)
  have core: "buddy_core s3 bl'"
    by (rule core_cong[OF del(1)]) (use nin in \<open>auto simp: pg s3_def upd_bpage_def\<close>)
  have "marked s3 (insert base (heads bl'))"
    unfolding marked_def del(3)
  proof
    fix p
    have "PageProperty (bpages s p) \<longleftrightarrow> p \<in> insert base (heads bl)" using m by (simp add: marked_def)
    then show "PageProperty (bpages s3 p) \<longleftrightarrow> p \<in> insert base (heads bl - {b})"
      by (auto simp: pg b_def)
  qed
  moreover have "\<forall>p\<in>{base..<base + 2 ^ (k + 1)}. \<not> PageReserved (bpages s3 p)"
  proof -
    have "\<forall>p\<in>{base..<base + 2 ^ (k + 1)}. \<not> PageReserved (bpages s p)"
      unfolding dbl using res del(4) c by (auto simp: buddy_core_def)
    then show ?thesis by (simp add: pg)
  qed
  moreover have "base + 2 ^ (k + 1) \<le> bnpage s3"
    using core_bound[OF c del(4)] by (simp add: b_def s3_def upd_bpage_def)
  moreover have "\<not> lower_buddy s3 base j" if "k + 1 \<le> j" "j < MAX_ORDER - 1" for j
  proof
    assume l: "lower_buddy s3 base j"
    then have "base - 2 ^ j < base" using bit_sub_less by (simp add: lower_buddy_def)
    then have "lower_buddy s base j" using l by (simp add: lower_buddy_def pg b_def)
    then show False using low[of j] that by simp
  qed
  ultimately have "taken s3 bl' base (k + 1)" using core dis2 k by (simp add: taken_def pg)
  moreover have "buddy_free bl' \<union> {base..<base + 2 ^ (k + 1)} = buddy_free bl \<union> {base..<base + 2 ^ k}"
    unfolding dbl del(2) using del(4) by blast
  ultimately show ?thesis using bi by blast
qed

lemma buddy_merge_ok:
  assumes "taken s bl base k"
  shows "\<exists>k' s' bl'. buddy_merge base k s = (base, k', s') \<and> taken s' bl' base k' \<and>
    buddy_free bl' \<union> {base..<base + 2 ^ k'} = buddy_free bl \<union> {base..<base + 2 ^ k}"
  using assms
proof (induction "MAX_ORDER - k" arbitrary: k s bl)
  case 0
  then show ?case by (simp add: taken_def)
next
  case (Suc m)
  show ?case
  proof (cases "k < MAX_ORDER - 1 \<and> buddy_idx base k < bnpage s \<and> PageProperty (bpages s (buddy_idx base k)) \<and>
      property (bpages s (buddy_idx base k)) = k")
    case False
    then have "buddy_merge base k s = (base, k, s)" by (subst buddy_merge.simps) (auto simp: Let_def)
    then show ?thesis using Suc.prems by blast
  next
    case True
    let ?b = "base + 2 ^ k"
    let ?s3 = "upd_bpage base (\<lambda>p. p\<lparr>property := k + 1\<rparr>) (upd_bpage ?b ClearPageProperty (drop_block ?b k s))"
    obtain bl' where st: "buddy_idx base k = ?b" "taken ?s3 bl' base (k + 1)"
      "buddy_free bl' \<union> {base..<base + 2 ^ (k + 1)} = buddy_free bl \<union> {base..<base + 2 ^ k}"
      using taken_step[OF Suc.prems] True by blast
    have "buddy_merge base k s = buddy_merge base (k + 1) ?s3"
      using True st(1) by (subst buddy_merge.simps) (simp add: Let_def drop_block_def)
    moreover have "m = MAX_ORDER - (k + 1)" using Suc.hyps(2) by simp
    ultimately show ?thesis using Suc.hyps(1)[OF _ st(2)] st(3) by auto
  qed
qed

lemma buddy_free_spec:
  assumes inv: "buddy_inv s bl" and n: "0 < n" "order_of n < MAX_ORDER"
  defines "k \<equiv> order_of n"
  assumes disj: "{base..<base + 2 ^ k} \<inter> buddy_free bl = {}" and bnd: "base + 2 ^ k \<le> bnpage s"
    and res: "\<forall>p\<in>{base..<base + 2 ^ k}. \<not> PageReserved (bpages s p)"
    and low: "\<forall>j. k \<le> j \<and> j < MAX_ORDER - 1 \<longrightarrow> \<not> lower_buddy s base j"
  shows "\<exists>s' bl'. buddy_free_pages base n s = Some s' \<and> buddy_inv s' bl' \<and>
    buddy_free bl' = buddy_free bl \<union> {base..<base + 2 ^ k}"
proof -
  have c: "buddy_core s bl" and m: "marked s (heads bl)" using inv by (auto simp: buddy_inv_def)
  have "n \<le> 2 ^ k" "(2::nat) ^ k \<le> 2 ^ 63" using le_order_of[of n] n(2) power_increasing[of k 63 "2::nat"]
    by (auto simp: k_def MAX_ORDER_def)
  then have lg: "log2_ceil n = Some k" using log2_ceil_eq[of n] by (simp add: k_def)
  define pg where "pg = (\<lambda>p. if p \<in> {base..<base + 2 ^ k} then (bpages s p)\<lparr>flags := 0, ref := 0\<rparr> else bpages s p)"
  have np: "\<not> PageProperty (bpages s p)" if "p \<in> {base..<base + 2 ^ k}" for p
    using m that disj heads_free[of bl] by (auto simp: marked_def)
  have reset: "free_reset_pages (pow2 k) base (bpages s) = Some pg"
    using free_reset_pages_ok[of base "pow2 k" "bpages s"] res np by (simp add: pow2_def pg_def)
  define s1 where "s1 = upd_bpage base (\<lambda>p. SetPageProperty (p\<lparr>property := k\<rparr>)) (s\<lparr>bpages := pg\<rparr>)"
  have pb: "pg p = bpages s p" if "p \<notin> {base..<base + 2 ^ k}" for p using that by (simp only: pg_def if_False)
  have inb: "base \<in> {base..<base + 2 ^ k}" by simp
  have s1p: "bpages s1 = pg(base := SetPageProperty ((pg base)\<lparr>property := k\<rparr>))" by (simp add: s1_def upd_bpage_def)
  have out: "bpages s1 p = bpages s p" if "p \<notin> {base..<base + 2 ^ k}" for p
    using that pb[OF that] inb by (auto simp: s1p)
  have "buddy_core s1 bl"
  proof (rule core_cong[OF c])
    show "bpages s1 p = bpages s p" if "p \<in> buddy_free bl" for p
      using that disj by (intro out) blast
  qed (simp_all add: s1_def upd_bpage_def)
  moreover have "marked s1 (insert base (heads bl))"
    unfolding marked_def
  proof
    fix p
    show "PageProperty (bpages s1 p) \<longleftrightarrow> p \<in> insert base (heads bl)"
    proof (cases "p \<in> {base..<base + 2 ^ k}")
      case True
      then have "p \<notin> heads bl" using disj heads_free[of bl] by blast
      moreover have "\<not> PageProperty (pg p)" using True by (simp add: pg_def PageProperty_def)
      ultimately show ?thesis by (simp add: s1p)
    next
      case False
      then have "p \<noteq> base" using inb by blast
      then show ?thesis using out[OF False] m by (simp add: marked_def)
    qed
  qed
  moreover have "\<forall>p\<in>{base..<base + 2 ^ k}. \<not> PageReserved (bpages s1 p)"
    by (simp add: s1p pg_def PageReserved_def SetPageProperty_def PG_property_def PG_reserved_def bit_simps)
  moreover have "\<not> lower_buddy s1 base j" if "k \<le> j" "j < MAX_ORDER - 1" for j
  proof
    assume l: "lower_buddy s1 base j"
    then have "base - 2 ^ j < base" using bit_sub_less by (simp add: lower_buddy_def)
    then have "base - 2 ^ j \<notin> {base..<base + 2 ^ k}" by simp
    then have "lower_buddy s base j" using l out by (simp add: lower_buddy_def)
    then show False using low that by simp
  qed
  moreover have "bnpage s1 = bnpage s" by (simp add: s1_def upd_bpage_def)
  ultimately have "taken s1 bl base k" using disj bnd n(2) by (simp add: taken_def k_def[symmetric] s1p)
  then obtain k' s2 bl2 where mg: "buddy_merge base k s1 = (base, k', s2)" "taken s2 bl2 base k'"
    "buddy_free bl2 \<union> {base..<base + 2 ^ k'} = buddy_free bl \<union> {base..<base + 2 ^ k}"
    using buddy_merge_ok by blast
  let ?s' = "s2\<lparr>blinks := list_add (blinks s2) (Area k') (FPg base), bnr := (bnr s2)(k' := u32 (bnr s2 k' + 1))\<rparr>"
  have h2: "buddy_core s2 bl2" "marked s2 (insert base (heads bl2))" "k' < MAX_ORDER" "property (bpages s2 base) = k'"
    "{base..<base + 2 ^ k'} \<inter> buddy_free bl2 = {}" "base + 2 ^ k' \<le> bnpage s2"
    "\<And>p. p \<in> {base..<base + 2 ^ k'} \<Longrightarrow> \<not> PageReserved (bpages s2 p)"
    using mg(2) by (auto simp: taken_def)
  note put = put_block_ok[OF h2(1,3,5,6,7), of list_add "base # bl2 k'"]
  have "areas ?s' (bl2(k' := base # bl2 k'))"
    using put areas_cong[of ?s' "put_block base k' list_add s2"] by (simp add: buddy_core_def put_block_def upd_bpage_def)
  note add = core_add[OF h2(1,3,5,6) _ _ _ this]
  have "buddy_core ?s' (bl2(k' := base # bl2 k')) \<and> buddy_free (bl2(k' := base # bl2 k')) = buddy_free bl2 \<union> {base..<base + 2 ^ k'} \<and>
    heads (bl2(k' := base # bl2 k')) = insert base (heads bl2)"
    by (rule add) (use h2(4,7) in auto)
  moreover have "buddy_free_pages base n s = Some ?s'"
    using lg n reset mg(1) by (simp add: buddy_free_pages_def k_def[symmetric] Let_def s1_def[symmetric])
  moreover have "marked ?s' X = marked s2 X" for X by (simp add: marked_def)
  ultimately show ?thesis using h2(2) mg(3) unfolding buddy_inv_def by (intro exI[of _ ?s'] exI[of _ "bl2(k' := base # bl2 k')"]) simp
qed

subsection \<open>Set-up and counting\<close>

lemma fit_order_ok: "2 ^ k \<le> r \<Longrightarrow> k < MAX_ORDER \<Longrightarrow> 2 ^ fit_order r k \<le> r \<and> fit_order r k < MAX_ORDER"
proof (induction r k rule: fit_order.induct)
  case (1 r k)
  then show ?case by (subst (1 2) fit_order.simps) (auto simp: pow2_def)
qed

lemma buddy_chop_ok:
  assumes "buddy_core s bl" "marked s (heads bl)" "{base + off..<base + off + r} \<inter> buddy_free bl = {}"
    "base + off + r \<le> bnpage s" "\<forall>p\<in>{base + off..<base + off + r}. \<not> PageReserved (bpages s p)"
  shows "\<exists>bl'. buddy_inv (buddy_chop base off r s) bl' \<and> buddy_free bl' = buddy_free bl \<union> {base + off..<base + off + r}"
  using assms
proof (induction r arbitrary: off s bl rule: less_induct)
  case (less r)
  show ?case
  proof (cases "r = 0")
    case True
    then show ?thesis using less.prems by (auto simp: buddy_chop.simps[of base off 0] buddy_inv_def)
  next
    case False
    define k where "k = fit_order r 0"
    have k: "2 ^ k \<le> r" "k < MAX_ORDER" using fit_order_ok[of 0 r] False by (auto simp: k_def MAX_ORDER_def)
    define b where "b = base + off"
    have sub: "{b..<b + 2 ^ k} \<subseteq> {b..<b + r}" "{b + 2 ^ k..<b + r} \<subseteq> {b..<b + r}" using k(1) by auto
    define s1 where "s1 = put_block b k list_add_before s"
    define bl1 where "bl1 = bl(k := bl k @ [b])"
    have fb: "{b..<b + 2 ^ k} \<inter> buddy_free bl = {}" using sub(1) less.prems(3) unfolding b_def[symmetric] by blast
    have res: "\<not> PageReserved (bpages s p)" if "p \<in> {b..<b + 2 ^ k}" for p
      using less.prems(5) subsetD[OF sub(1) that] by (simp add: b_def)
    have put: "buddy_core s1 bl1" "buddy_free bl1 = buddy_free bl \<union> {b..<b + 2 ^ k}" "heads bl1 = insert b (heads bl)"
      using put_block_ok[OF less.prems(1) k(2) fb _ res, of list_add_before "bl k @ [b]"] k(1) less.prems(4)
      by (auto simp: b_def s1_def bl1_def)
    have "{b + 2 ^ k..<b + r} \<inter> buddy_free bl = {}" using sub(2) less.prems(3) unfolding b_def[symmetric] by blast
    then have d: "{b + 2 ^ k..<b + r} \<inter> buddy_free bl1 = {}" unfolding put(2) by auto
    have eq: "base + (off + 2 ^ k) = b + 2 ^ k" "b + 2 ^ k + (r - 2 ^ k) = b + r" using k(1) by (simp_all add: b_def)
    have m: "marked s1 (heads bl1)" using marked_put[OF less.prems(2), of b k list_add_before] put(3) by (simp add: s1_def)
    have rs: "\<forall>p\<in>{b + 2 ^ k..<b + r}. \<not> PageReserved (bpages s1 p)"
      using less.prems(5) sub(2) by (auto simp: s1_def put_block_fields b_def)
    have np: "b + r \<le> bnpage s1" using less.prems(4) by (simp add: s1_def put_block_fields b_def)
    have "\<exists>bl'. buddy_inv (buddy_chop base (off + 2 ^ k) (r - 2 ^ k) s1) bl' \<and>
        buddy_free bl' = buddy_free bl1 \<union> {base + (off + 2 ^ k)..<base + (off + 2 ^ k) + (r - 2 ^ k)}"
      by (rule less.IH[OF _ put(1) m]; (unfold eq)?) (use d np rs False in auto)
    then obtain bl' where "buddy_inv (buddy_chop base (off + 2 ^ k) (r - 2 ^ k) s1) bl'"
      "buddy_free bl' = buddy_free bl1 \<union> {b + 2 ^ k..<b + r}" unfolding eq by blast
    moreover have "{b..<b + 2 ^ k} \<union> {b + 2 ^ k..<b + r} = {b..<b + r}" using k(1) by auto
    moreover have "buddy_chop base off r s = buddy_chop base (off + 2 ^ k) (r - 2 ^ k) s1"
      using False by (subst buddy_chop.simps) (simp add: Let_def k_def[symmetric] pow2_def b_def s1_def)
    ultimately show ?thesis unfolding b_def[symmetric] put(2) by (metis Un_assoc)
  qed
qed

lemma buddy_init_memmap_ok:
  assumes inv: "buddy_inv s bl" and n: "0 < n" "base + n \<le> bnpage s"
    and res: "\<forall>p\<in>{base..<base + n}. PageReserved (bpages s p)"
  shows "\<exists>s' bl'. buddy_init_memmap base n s = Some s' \<and> buddy_inv s' bl' \<and> buddy_free bl' = buddy_free bl \<union> {base..<base + n}"
proof -
  define s1 where "s1 = s\<lparr>bpages := \<lambda>p. if p \<in> {base..<base + n} then (bpages s p)\<lparr>property := 0, flags := 0, ref := 0\<rparr> else bpages s p\<rparr>"
  have disj: "{base..<base + n} \<inter> buddy_free bl = {}"
    using res inv unfolding buddy_inv_def buddy_core_def by blast
  have "buddy_core s1 bl"
  proof (rule core_cong[of s])
    show "bpages s1 p = bpages s p" if "p \<in> buddy_free bl" for p
      using that disj by (auto simp: s1_def disjoint_iff)
  qed (use inv in \<open>simp_all add: s1_def buddy_inv_def\<close>)
  moreover have "marked s1 (heads bl)"
    unfolding marked_def
  proof
    fix p
    show "PageProperty (bpages s1 p) \<longleftrightarrow> p \<in> heads bl"
    proof (cases "p \<in> {base..<base + n}")
      case True
      then have "p \<notin> heads bl" using disj heads_free[of bl] by blast
      then show ?thesis using True by (simp add: s1_def PageProperty_def)
    next
      case False
      then have "bpages s1 p = bpages s p" by (auto simp: s1_def)
      then show ?thesis using inv by (simp add: buddy_inv_def marked_def)
    qed
  qed
  moreover have "\<forall>p\<in>{base..<base + n}. \<not> PageReserved (bpages s1 p)" by (simp add: s1_def PageReserved_def)
  ultimately obtain bl' where "buddy_inv (buddy_chop base 0 n s1) bl'" "buddy_free bl' = buddy_free bl \<union> {base..<base + n}"
    using buddy_chop_ok[of s1 bl base 0 n] disj n(2) by (auto simp: s1_def)
  moreover have "buddy_init_memmap base n s = Some (buddy_chop base 0 n s1)"
    using init_memmap_pages_ok[OF res] n by (simp add: buddy_init_memmap_def s1_def)
  ultimately show ?thesis by blast
qed

lemma buddy_init_loop_ok:
  assumes "i \<le> MAX_ORDER" "\<forall>k<i. dlist (blinks s) (Area k) [] \<and> bnr s k = 0"
  shows "areas (buddy_init_loop i s) (\<lambda>_. []) \<and> bpages (buddy_init_loop i s) = bpages s \<and> bnpage (buddy_init_loop i s) = bnpage s"
  using assms
proof (induction i s rule: buddy_init_loop.induct)
  case (1 i s)
  show ?case
  proof (cases "i < MAX_ORDER")
    case True
    let ?s = "s\<lparr>blinks := list_init (blinks s) (Area i), bnr := (bnr s)(i := 0)\<rparr>"
    have "\<forall>k<i + 1. dlist (blinks ?s) (Area k) [] \<and> bnr ?s k = 0"
      using "1.prems"(2) dlist_init_other[of "blinks s" _ "[]" "Area i"] by (auto simp: less_Suc_eq dlist_init)
    then have "areas (buddy_init_loop (i + 1) ?s) (\<lambda>_. []) \<and> bpages (buddy_init_loop (i + 1) ?s) = bpages ?s \<and>
        bnpage (buddy_init_loop (i + 1) ?s) = bnpage ?s"
      using True by (intro "1.IH") auto
    then show ?thesis using True by (subst (1 2 3) buddy_init_loop.simps) simp
  next
    case False
    then have "i = MAX_ORDER" using "1.prems"(1) by simp
    then show ?thesis using "1.prems"(2) by (subst (1 2 3) buddy_init_loop.simps) (simp add: areas_def)
  qed
qed

lemma buddy_init_ok:
  assumes "bnpage s < 2 ^ 32" "\<forall>p. \<not> PageProperty (bpages s p)"
  shows "buddy_inv (buddy_init s) (\<lambda>_. [])" "buddy_free (\<lambda>_. []) = {}"
    "bpages (buddy_init s) = bpages s" "bnpage (buddy_init s) = bnpage s"
  using buddy_init_loop_ok[of 0 s] assms
  by (auto simp: buddy_init_def buddy_inv_def buddy_core_def separated_def buddy_free_def heads_def marked_def)

text \<open>The free pages are counted by the lengths of the lists.\<close>

lemma card_buddy_free:
  assumes "separated bl" "\<And>k. k < MAX_ORDER \<Longrightarrow> distinct (bl k)"
  shows "card (buddy_free bl) = (\<Sum>k<MAX_ORDER. length (bl k) * 2 ^ k)"
proof -
  let ?I = "Sigma {..<MAX_ORDER} (\<lambda>k. set (bl k))"
  let ?A = "\<lambda>(k, b). {b..<b + 2 ^ k :: nat}"
  have "buddy_free bl = (\<Union>i\<in>?I. ?A i)" by (auto simp: buddy_free_def)
  also have "card \<dots> = (\<Sum>i\<in>?I. card (?A i))"
    by (rule card_UN_disjoint) (use separatedD[OF assms(1)] in \<open>auto simp del: disjoint_iff\<close>)
  also have "\<dots> = (\<Sum>(k, b)\<in>?I. 2 ^ k)" by (rule sum.cong) auto
  also have "\<dots> = (\<Sum>k<MAX_ORDER. \<Sum>b\<in>set (bl k). 2 ^ k)" by (rule sum.Sigma[symmetric]) auto
  also have "\<dots> = (\<Sum>k<MAX_ORDER. length (bl k) * 2 ^ k)"
    using assms(2) by (intro sum.cong) (auto simp: distinct_card)
  finally show ?thesis .
qed

lemma buddy_count_loop_eq:
  "i \<le> MAX_ORDER \<Longrightarrow> t + (\<Sum>k\<in>{i..<MAX_ORDER}. bnr s k * 2 ^ k) < 2 ^ 64 \<Longrightarrow>
   buddy_count_loop i t s = t + (\<Sum>k\<in>{i..<MAX_ORDER}. bnr s k * 2 ^ k)"
proof (induction i t s rule: buddy_count_loop.induct)
  case (1 i t s)
  show ?case
  proof (cases "i < MAX_ORDER")
    case True
    then have sp: "(\<Sum>k\<in>{i..<MAX_ORDER}. bnr s k * 2 ^ k) = bnr s i * 2 ^ i + (\<Sum>k\<in>{i + 1..<MAX_ORDER}. bnr s k * 2 ^ k)"
      by (simp add: sum.atLeast_Suc_lessThan)
    have u: "u64 (t + bnr s i * pow2 i) = t + bnr s i * 2 ^ i" using "1.prems"(2) by (simp add: sp pow2_def)
    have "buddy_count_loop (i + 1) (u64 (t + bnr s i * pow2 i)) s = t + bnr s i * 2 ^ i + (\<Sum>k\<in>{i + 1..<MAX_ORDER}. bnr s k * 2 ^ k)"
      using "1.IH"[OF True] "1.prems"(2) True by (simp add: u sp add.assoc)
    then show ?thesis using True by (subst buddy_count_loop.simps) (simp only: sp if_True add.assoc)
  next
    case False
    then show ?thesis using "1.prems" by (subst buddy_count_loop.simps) simp
  qed
qed

lemma buddy_nr_free_ok:
  assumes "buddy_inv s bl"
  shows "buddy_nr_free_pages s = card (buddy_free bl)" "finite (buddy_free bl)"
proof -
  have c: "areas s bl" "separated bl" "buddy_free bl \<subseteq> {..<bnpage s}" "bnpage s < 2 ^ 32"
    using assms by (auto simp: buddy_inv_def buddy_core_def)
  have "(\<Sum>k\<in>{0..<MAX_ORDER}. bnr s k * 2 ^ k) = (\<Sum>k<MAX_ORDER. length (bl k) * 2 ^ k)"
    using areasD(2)[OF c(1)] by (intro sum.cong) auto
  also have "\<dots> = card (buddy_free bl)" using card_buddy_free[OF c(2)] areas_distinct[OF c(1)] by simp
  finally have sm: "(\<Sum>k\<in>{0..<MAX_ORDER}. bnr s k * 2 ^ k) = card (buddy_free bl)" .
  have "card (buddy_free bl) \<le> card {..<bnpage s}" using c(3) by (intro card_mono) auto
  then have "0 + (\<Sum>k\<in>{0..<MAX_ORDER}. bnr s k * 2 ^ k) < 2 ^ 64" using c(4) sm by simp
  from buddy_count_loop_eq[OF _ this] show "buddy_nr_free_pages s = card (buddy_free bl)"
    using sm by (simp add: buddy_nr_free_pages_def)
  show "finite (buddy_free bl)" using c(3) finite_subset by blast
qed

subsection \<open>The manager as a source of pages\<close>

text \<open>The free pages can be read off the marks.\<close>

definition buddy_frees :: "buddy \<Rightarrow> nat set" where
  "buddy_frees s = {p. \<exists>b\<le>p. PageProperty (bpages s b) \<and> p < b + 2 ^ property (bpages s b)}"

definition buddy_ok :: "buddy \<Rightarrow> bool" where
  "buddy_ok s \<longleftrightarrow> (\<exists>bl. buddy_inv s bl)"

lemma buddy_frees_inv:
  assumes "buddy_inv s bl"
  shows "buddy_frees s = buddy_free bl"
proof
  have c: "buddy_core s bl" and m: "marked s (heads bl)" using assms by (auto simp: buddy_inv_def)
  show "buddy_frees s \<subseteq> buddy_free bl"
  proof
    fix p assume "p \<in> buddy_frees s"
    then obtain b where b: "b \<le> p" "b \<in> heads bl" "p < b + 2 ^ property (bpages s b)"
      using m by (auto simp: buddy_frees_def marked_def)
    then show "p \<in> buddy_free bl" using core_member[OF c b(2) refl] by (auto simp: buddy_free_def)
  qed
  show "buddy_free bl \<subseteq> buddy_frees s"
  proof
    fix p assume "p \<in> buddy_free bl"
    then obtain k b where b: "k < MAX_ORDER" "b \<in> set (bl k)" "b \<le> p" "p < b + 2 ^ k" by (auto simp: buddy_free_def)
    then have "property (bpages s b) = k" "b \<in> heads bl" using c by (auto simp: buddy_core_def heads_def)
    then show "p \<in> buddy_frees s" using b m by (auto simp: buddy_frees_def marked_def)
  qed
qed

lemma log2_loop_bound:
  "log2_loop n k sz = Some r \<Longrightarrow> sz = 0 \<or> (\<exists>j\<le>63. sz = 2 ^ j) \<Longrightarrow> n \<le> 2 ^ 63"
proof (induction rule: log2_loop.raw_induct[rotated, consumes 1, case_names step])
  case (step rec n k sz r)
  show ?case
  proof (cases "sz < n")
    case True
    have "u64 (2 * sz) = 0 \<or> (\<exists>j\<le>63. u64 (2 * sz) = 2 ^ j)"
      using step(3)
    proof (elim disjE exE conjE)
      fix j :: nat
      assume j: "j \<le> 63" "sz = 2 ^ j"
      show ?thesis
      proof (cases "j = 63")
        case True
        then show ?thesis by (simp add: u64_def j(2))
      next
        case False
        then have "(2::nat) ^ (j + 1) \<le> 2 ^ 63" using j(1) by (intro power_increasing) auto
        then have "u64 (2 * sz) = 2 ^ (j + 1)" by (simp add: j(2))
        moreover have "j + 1 \<le> 63" using False j(1) by simp
        ultimately show ?thesis by blast
      qed
    qed (simp add: u64_def)
    moreover have "rec n (u32 (k + 1)) (u64 (2 * sz)) = Some r" using step(2) True by simp
    ultimately show ?thesis using step(1) by blast
  next
    case False
    then have "n \<le> sz" by simp
    also have "sz \<le> 2 ^ 63"
      using step(3) by (elim disjE exE conjE) (simp, simp only:, rule power_increasing, simp_all)
    finally show ?thesis .
  qed
qed

lemma log2_ceil_bound: "log2_ceil n = Some k \<Longrightarrow> n \<le> 2 ^ 63"
  using log2_loop_bound[of n 0 1 k] power_0[of "2::nat"] by (metis log2_ceil_def le0)

lemma buddy_alloc_returns_bound: "buddy_alloc_pages n s = Some r \<Longrightarrow> 0 < n \<and> n \<le> 2 ^ 63"
  using log2_ceil_bound[of n] by (cases "log2_ceil n"; cases "0 < n") (simp_all add: buddy_alloc_pages_def)

lemma buddy_alloc_frees:
  assumes "buddy_ok s" "buddy_alloc_pages n s = Some (r, s')"
  shows "buddy_ok s' \<and> (case r of None \<Rightarrow> s' = s | Some p \<Rightarrow>
    {p..<p + 2 ^ order_of n} \<subseteq> buddy_frees s \<and> buddy_frees s' = buddy_frees s - {p..<p + 2 ^ order_of n})"
proof -
  obtain bl where inv: "buddy_inv s bl" using assms(1) by (auto simp: buddy_ok_def)
  have n: "0 < n" "n \<le> 2 ^ 63" using buddy_alloc_returns_bound[OF assms(2)] by auto
  show ?thesis using buddy_alloc_spec[OF inv n] assms inv buddy_frees_inv[OF inv]
    by (auto simp: buddy_ok_def buddy_frees_inv split: option.splits)
qed

interpretation bsource: page_source buddy_ok buddy_frees buddy_alloc_pages
proof (unfold_locales, goal_cases)
  case (1 s n r s')
  then show ?case using buddy_alloc_frees[OF 1] by simp
next
  case (2 s n p s')
  have "{p..<p + n} \<subseteq> {p..<p + 2 ^ order_of n}" using le_order_of[of n] by auto
  then show ?case using buddy_alloc_frees[OF 2] buddy_alloc_returns_bound[OF 2(2)] by auto
next
  case (3 s n s')
  then show ?case using buddy_alloc_frees[OF 3] by simp
qed

subsection \<open>A release that merges with the block below it\<close>

definition boot_buddy :: "nat \<Rightarrow> buddy" where
  "boot_buddy n = \<lparr>bpages = \<lambda>_. SetPageReserved \<lparr>ref = 0, flags = 0, property = 0, pra_vaddr = 0\<rparr>,
     blinks = \<lparr>prev_of = id, next_of = id\<rparr>, bnr = \<lambda>_. 0, bnpage = n\<rparr>"

definition lower_merge_run :: "(nat option \<times> nat option \<times> nat option \<times> bool) option" where
  "lower_merge_run =
     do { s0 \<leftarrow> buddy_init_memmap 0 2 (buddy_init (boot_buddy 2));
          (p, s1) \<leftarrow> buddy_alloc_pages 1 s0;
          (q, s2) \<leftarrow> buddy_alloc_pages 1 s1;
          s3 \<leftarrow> buddy_free_pages 0 1 s2;
          s4 \<leftarrow> buddy_free_pages 1 1 s3;
          (r, s5) \<leftarrow> buddy_alloc_pages 2 s4;
          Some (p, q, r, buddy_free_pages 0 2 s5 = None) }"

lemma lower_merge_panics: "lower_merge_run = Some (Some 0, Some 1, Some 0, True)"
  by (simp add: lower_merge_run_def boot_buddy_def buddy_init_def buddy_init_loop.simps MAX_ORDER_def buddy_init_memmap_def loops_numeral
      buddy_chop.simps fit_order.simps pow2_def put_block_def upd_bpage_def Let_def
      buddy_alloc_pages_def log2_ceil_def log2_loop.simps u32_def u64_def find_area.simps buddy_split.simps u32_minus_def
      buddy_free_pages_def buddy_merge.simps buddy_idx_eq bit_0
  list_init_def list_add_def list_add_after_def list_add_before_def list_add_between_def list_del_def list_del_between_def list_next_def list_prev_def list_empty_def)

subsection \<open>Properties\<close>

text \<open>
  C14. The buddy system hands out a block whose size is the request rounded up to a power of
  two: it takes the first block of the smallest order that has one, splits it down and puts
  the right halves back. Exactly the pages of the block stop being free, the count drops by
  its size and the invariant (lists, orders, marks and disjointness of the blocks) is kept.
  It returns NULL, without any change, only when no list of a sufficient order has a block.
  Two allocations in a row never overlap.
\<close>

theorem buddy_alloc_pages_correct:
  assumes "buddy_inv s bl" and "0 < n" and "n \<le> 2 ^ 63"
  shows "\<exists>r s'. buddy_alloc_pages n s = Some (r, s') \<and>
    (case r of
       None \<Rightarrow> s' = s \<and> (\<forall>j<MAX_ORDER. n \<le> 2 ^ j \<longrightarrow> bl j = [])
     | Some p \<Rightarrow> (\<exists>j bl'. order_of n \<le> j \<and> j < MAX_ORDER \<and> p = hd (bl j) \<and> bl j \<noteq> [] \<and>
         (\<forall>i\<in>{order_of n..<j}. bl i = []) \<and> buddy_inv s' bl' \<and>
         {p..<p + 2 ^ order_of n} \<subseteq> buddy_free bl \<and> buddy_free bl' = buddy_free bl - {p..<p + 2 ^ order_of n} \<and>
         buddy_nr_free_pages s' = buddy_nr_free_pages s - 2 ^ order_of n)) \<and>
    (\<forall>p m q s''. r = Some p \<longrightarrow> buddy_alloc_pages m s' = Some (Some q, s'') \<longrightarrow> {p..<p + n} \<inter> {q..<q + m} = {})"
proof -
  obtain r s' where r: "buddy_alloc_pages n s = Some (r, s')"
    and post: "case r of
       None \<Rightarrow> s' = s \<and> (\<forall>j<MAX_ORDER. n \<le> 2 ^ j \<longrightarrow> bl j = [])
     | Some p \<Rightarrow> (\<exists>j bl'. order_of n \<le> j \<and> j < MAX_ORDER \<and> p = hd (bl j) \<and> bl j \<noteq> [] \<and>
         (\<forall>i\<in>{order_of n..<j}. bl i = []) \<and> buddy_inv s' bl' \<and>
         {p..<p + 2 ^ order_of n} \<subseteq> buddy_free bl \<and> buddy_free bl' = buddy_free bl - {p..<p + 2 ^ order_of n})"
    using buddy_alloc_spec[OF assms] by blast
  have ok: "buddy_ok s" using assms(1) by (auto simp: buddy_ok_def)
  have cnt: "buddy_nr_free_pages s' = buddy_nr_free_pages s - 2 ^ k"
    if "buddy_inv s' bl'" "{p..<p + 2 ^ k} \<subseteq> buddy_free bl" "buddy_free bl' = buddy_free bl - {p..<p + 2 ^ k}" for bl' p k
    using buddy_nr_free_ok[OF assms(1)] buddy_nr_free_ok[OF that(1)] that(2,3) by (simp add: card_Diff_subset)
  have "\<forall>p m q s''. r = Some p \<longrightarrow> buddy_alloc_pages m s' = Some (Some q, s'') \<longrightarrow> {p..<p + n} \<inter> {q..<q + m} = {}"
    using bsource.alloc_disjoint[OF ok] r by blast
  moreover have "case r of
       None \<Rightarrow> s' = s \<and> (\<forall>j<MAX_ORDER. n \<le> 2 ^ j \<longrightarrow> bl j = [])
     | Some p \<Rightarrow> (\<exists>j bl'. order_of n \<le> j \<and> j < MAX_ORDER \<and> p = hd (bl j) \<and> bl j \<noteq> [] \<and>
         (\<forall>i\<in>{order_of n..<j}. bl i = []) \<and> buddy_inv s' bl' \<and>
         {p..<p + 2 ^ order_of n} \<subseteq> buddy_free bl \<and> buddy_free bl' = buddy_free bl - {p..<p + 2 ^ order_of n} \<and>
         buddy_nr_free_pages s' = buddy_nr_free_pages s - 2 ^ order_of n)"
  proof (cases r)
    case (Some p)
    then show ?thesis using post cnt by simp blast
  qed (use post in simp)
  ultimately show ?thesis using r by blast
qed

theorem buddy_alloc_pages_correct_witness:
  "\<exists>s p s'. buddy_init_memmap 0 4 (buddy_init (boot_buddy 4)) = Some s \<and>
     buddy_alloc_pages 1 s = Some (Some p, s') \<and> p < 4 \<and> buddy_nr_free_pages s' = 3"
proof -
  have b: "buddy_inv (buddy_init (boot_buddy 4)) (\<lambda>_. [])" "bnpage (buddy_init (boot_buddy 4)) = 4"
    "\<forall>p. PageReserved (bpages (buddy_init (boot_buddy 4)) p)"
    using buddy_init_ok[of "boot_buddy 4"] by (simp_all add: boot_buddy_def)
  obtain s bl where s: "buddy_init_memmap 0 4 (buddy_init (boot_buddy 4)) = Some s" "buddy_inv s bl" "buddy_free bl = {0..<4}"
    using buddy_init_memmap_ok[OF b(1), of 4 0] b(2,3) by (auto simp: buddy_free_def)
  have o: "order_of 1 = 0" by (rule order_of_eqI) auto
  have "buddy_nr_free_pages s = 4" using buddy_nr_free_ok(1)[OF s(2)] s(3) by simp
  moreover have "\<not> (\<forall>j<MAX_ORDER. bl j = [])"
  proof
    assume "\<forall>j<MAX_ORDER. bl j = []"
    then have "buddy_free bl = {}" by (simp add: buddy_free_def)
    then show False using s(3) by simp
  qed
  ultimately show ?thesis using buddy_alloc_pages_correct[OF s(2), of 1] s(1,3) o
    by (auto split: option.splits)
qed

end
