(* ===== verification/SkewHeap.thy ===== *)
theory SkewHeap
  imports Prelude "HOL-Library.Tree" "HOL-Library.Multiset"
begin

text \<open>
  The intrusive skew heap of \<^verbatim>\<open>libs/skew_heap.h\<close>, at pointer level: a heap of
  entries with parent, left and right pointers (\<^verbatim>\<open>NULL\<close> is \<open>None\<close>), and the
  comparison as a function argument, as in the code. The recursion of
  \<^verbatim>\<open>skew_heap_merge\<close> follows pointers, so it is a partial function; the
  refinement lemmas show that it returns on every pair of separate trees and
  computes the merge of functional trees.
\<close>

subsection \<open>The operations\<close>

record 'a skew_heap =
  parent :: "'a \<Rightarrow> 'a option"
  left :: "'a \<Rightarrow> 'a option"
  right :: "'a \<Rightarrow> 'a option"

definition skew_heap_init :: "'a skew_heap \<Rightarrow> 'a \<Rightarrow> 'a skew_heap" where
  "skew_heap_init h a = h\<lparr>left := (left h)(a := None), right := (right h)(a := None),
     parent := (parent h)(a := None)\<rparr>"

definition set_parent :: "'a option \<Rightarrow> 'a option \<Rightarrow> 'a skew_heap \<Rightarrow> 'a skew_heap" where
  "set_parent l p h = (case l of None \<Rightarrow> h | Some x \<Rightarrow> h\<lparr>parent := (parent h)(x := p)\<rparr>)"

definition set_children :: "'a \<Rightarrow> 'a option \<Rightarrow> 'a option \<Rightarrow> 'a skew_heap \<Rightarrow> 'a skew_heap" where
  "set_children a l r h =
     set_parent l (Some a) (h\<lparr>left := (left h)(a := l), right := (right h)(a := r)\<rparr>)"

partial_function (option) skew_heap_merge ::
  "('a \<Rightarrow> 'a \<Rightarrow> int) \<Rightarrow> 'a skew_heap \<Rightarrow> 'a option \<Rightarrow> 'a option \<Rightarrow> ('a option \<times> 'a skew_heap) option" where
  "skew_heap_merge cmp h a b =
     (case a of
        None \<Rightarrow> Some (b, h)
      | Some x \<Rightarrow>
         (case b of
            None \<Rightarrow> Some (a, h)
          | Some y \<Rightarrow>
              if cmp x y = -1
              then do { (l, h') \<leftarrow> skew_heap_merge cmp h (right h x) b;
                        Some (a, set_children x l (left h x) h') }
              else do { (l, h') \<leftarrow> skew_heap_merge cmp h a (right h y);
                        Some (b, set_children y l (left h y) h') }))"

definition skew_heap_insert ::
  "('a \<Rightarrow> 'a \<Rightarrow> int) \<Rightarrow> 'a skew_heap \<Rightarrow> 'a option \<Rightarrow> 'a \<Rightarrow> ('a option \<times> 'a skew_heap) option" where
  "skew_heap_insert cmp h a b = skew_heap_merge cmp (skew_heap_init h b) a (Some b)"

definition skew_heap_remove ::
  "('a \<Rightarrow> 'a \<Rightarrow> int) \<Rightarrow> 'a skew_heap \<Rightarrow> 'a option \<Rightarrow> 'a \<Rightarrow> ('a option \<times> 'a skew_heap) option" where
  "skew_heap_remove cmp h a b =
     (let p = parent h b in
      do { (rep, h1) \<leftarrow> skew_heap_merge cmp h (left h b) (right h b);
           let h2 = set_parent rep p h1;
           case p of
             None \<Rightarrow> Some (rep, h2)
           | Some q \<Rightarrow>
               Some (a, if left h2 q = Some b then h2\<lparr>left := (left h2)(q := rep)\<rparr>
                        else h2\<lparr>right := (right h2)(q := rep)\<rparr>) })"

subsection \<open>Trees in the heap\<close>

fun root_of :: "'a tree \<Rightarrow> 'a option" where
  "root_of \<langle>\<rangle> = None"
| "root_of \<langle>l, a, r\<rangle> = Some a"

text \<open>
  The tree \<open>t\<close> lies in the heap, child and parent pointers in agreement; the
  parent pointer of its root is free.
\<close>

fun tree_at :: "'a skew_heap \<Rightarrow> 'a tree \<Rightarrow> bool" where
  "tree_at h \<langle>\<rangle> \<longleftrightarrow> True"
| "tree_at h \<langle>l, a, r\<rangle> \<longleftrightarrow> left h a = root_of l \<and> right h a = root_of r \<and>
     (\<forall>x. root_of l = Some x \<or> root_of r = Some x \<longrightarrow> parent h x = Some a) \<and>
     tree_at h l \<and> tree_at h r"

definition heap_of :: "'a skew_heap \<Rightarrow> 'a option \<Rightarrow> 'a tree \<Rightarrow> bool" where
  "heap_of h a t \<longleftrightarrow> a = root_of t \<and> tree_at h t \<and> distinct (inorder t) \<and>
     (\<forall>x. a = Some x \<longrightarrow> parent h x = None)"

function smerge :: "('a \<Rightarrow> 'a \<Rightarrow> int) \<Rightarrow> 'a tree \<Rightarrow> 'a tree \<Rightarrow> 'a tree" where
  "smerge cmp \<langle>\<rangle> t2 = t2"
| "t1 \<noteq> \<langle>\<rangle> \<Longrightarrow> smerge cmp t1 \<langle>\<rangle> = t1"
| "smerge cmp \<langle>l1, a, r1\<rangle> \<langle>l2, b, r2\<rangle> =
     (if cmp a b = -1 then \<langle>smerge cmp r1 \<langle>l2, b, r2\<rangle>, a, l1\<rangle>
      else \<langle>smerge cmp \<langle>l1, a, r1\<rangle> r2, b, l2\<rangle>)"
  apply (metis prod_cases3 tree.exhaust)
  apply auto
  done
termination by (relation "measure (\<lambda>(_, t1, t2). size t1 + size t2)") auto

fun sremove :: "('a \<Rightarrow> 'a \<Rightarrow> int) \<Rightarrow> 'a \<Rightarrow> 'a tree \<Rightarrow> 'a tree" where
  "sremove cmp b \<langle>\<rangle> = \<langle>\<rangle>"
| "sremove cmp b \<langle>l, a, r\<rangle> =
     (if a = b then smerge cmp l r
      else if b \<in> set_tree l then \<langle>sremove cmp b l, a, r\<rangle>
      else \<langle>l, a, sremove cmp b r\<rangle>)"

lemma smerge_Leaf [simp]: "smerge cmp t \<langle>\<rangle> = t"
  by (cases t) simp_all

lemma mset_smerge [simp]: "mset (inorder (smerge cmp t1 t2)) = mset (inorder t1) + mset (inorder t2)"
  by (induction cmp t1 t2 rule: smerge.induct) auto

lemma set_smerge [simp]: "set_tree (smerge cmp t1 t2) = set_tree t1 \<union> set_tree t2"
  by (metis mset_smerge set_inorder set_mset_mset set_mset_union)

lemma distinct_smerge:
  "distinct (inorder t1) \<Longrightarrow> distinct (inorder t2) \<Longrightarrow> set_tree t1 \<inter> set_tree t2 = {} \<Longrightarrow>
   distinct (inorder (smerge cmp t1 t2))"
  by (metis distinct_append mset_append mset_eq_imp_distinct_iff mset_smerge set_inorder)

lemma root_of_in: "root_of t = Some x \<Longrightarrow> x \<in> set_tree t"
  by (cases t) auto

lemma root_of_None [simp]: "root_of t = None \<longleftrightarrow> t = \<langle>\<rangle>"
  by (cases t) auto

lemma root_of_smerge: "root_of (smerge cmp t1 t2) = Some x \<Longrightarrow> root_of t1 = Some x \<or> root_of t2 = Some x"
  by (induction cmp t1 t2 rule: smerge.induct) (auto split: if_splits)

subsection \<open>Refinement of the merge\<close>

text \<open>\<open>same_on A h h'\<close>: the entries in \<open>A\<close> have the same children and parent.\<close>

definition same_on :: "'a set \<Rightarrow> 'a skew_heap \<Rightarrow> 'a skew_heap \<Rightarrow> bool" where
  "same_on A h h' \<longleftrightarrow> (\<forall>x\<in>A. left h' x = left h x \<and> right h' x = right h x \<and> parent h' x = parent h x)"

lemma same_on_mono: "same_on A h h' \<Longrightarrow> B \<subseteq> A \<Longrightarrow> same_on B h h'"
  by (auto simp: same_on_def)

text \<open>A tree only depends on its own entries, and not on the parent of its root.\<close>

lemma tree_at_cong:
  assumes "tree_at h t" "\<And>x. x \<in> set_tree t \<Longrightarrow> left h' x = left h x \<and> right h' x = right h x"
    "\<And>x. x \<in> set_tree t \<Longrightarrow> root_of t \<noteq> Some x \<Longrightarrow> parent h' x = parent h x"
    "distinct (inorder t)"
  shows "tree_at h' t"
  using assms
proof (induction t)
  case (Node l a r)
  have "tree_at h' l"
    using Node.prems by (intro Node.IH(1)) (auto dest: root_of_in)
  moreover have "tree_at h' r"
    using Node.prems by (intro Node.IH(2)) (auto dest: root_of_in)
  moreover have "parent h' x = Some a" if "root_of l = Some x \<or> root_of r = Some x" for x
  proof -
    have "x \<in> set_tree l \<union> set_tree r" using that root_of_in by fastforce
    moreover from this have "x \<noteq> a" using Node.prems(4) by auto
    ultimately show ?thesis using Node.prems(1,3) that by auto
  qed
  ultimately show ?case using Node.prems(1,2) by auto
qed simp

lemma set_children_simps [simp]:
  "left (set_children a l r h) = (left h)(a := l)"
  "right (set_children a l r h) = (right h)(a := r)"
  "parent (set_children a l r h) = (case l of None \<Rightarrow> parent h | Some x \<Rightarrow> (parent h)(x := Some a))"
  "left (set_parent l p h) = left h" "right (set_parent l p h) = right h"
  "parent (set_parent l p h) = (case l of None \<Rightarrow> parent h | Some x \<Rightarrow> (parent h)(x := p))"
  by (auto simp: set_children_def set_parent_def split: option.splits)

text \<open>Relinking a node above a merged tree and its old left child.\<close>

lemma tree_at_relink:
  assumes "tree_at h' t" "tree_at h' l" "distinct (inorder t)" "distinct (inorder l)"
    "set_tree t \<inter> set_tree l = {}" "a \<notin> set_tree t \<union> set_tree l"
    "\<forall>x. root_of l = Some x \<longrightarrow> parent h' x = Some a"
  shows "tree_at (set_children a (root_of t) (root_of l) h') \<langle>t, a, l\<rangle>"
proof -
  let ?h = "set_children a (root_of t) (root_of l) h'"
  have "tree_at ?h t"
    using assms by (intro tree_at_cong[OF assms(1)]) (auto split: option.splits)
  moreover have "tree_at ?h l"
    using assms by (intro tree_at_cong[OF assms(2)]) (auto split: option.splits dest: root_of_in)
  ultimately show ?thesis using assms by (auto split: option.splits dest: root_of_in)
qed

lemma merge_step:
  assumes t: "tree_at h \<langle>l, a, r\<rangle>" "distinct (inorder \<langle>l, a, r\<rangle>)" "set_tree \<langle>l, a, r\<rangle> \<inter> B = {}"
    and h': "tree_at h' t" "distinct (inorder t)" "set_tree t = set_tree r \<union> B"
      "same_on (- (set_tree r \<union> B)) h h'"
  defines "h'' \<equiv> set_children a (root_of t) (left h a) h'"
  shows "tree_at h'' \<langle>t, a, l\<rangle> \<and> same_on (- (set_tree \<langle>l, a, r\<rangle> \<union> B)) h h'' \<and> parent h'' a = parent h a"
proof -
  have out: "a \<notin> set_tree t \<union> set_tree l" "set_tree t \<inter> set_tree l = {}" "distinct (inorder l)"
    using t(2,3) h'(3) by auto
  then have same: "left h' x = left h x \<and> right h' x = right h x \<and> parent h' x = parent h x"
    if "x \<in> insert a (set_tree l)" for x
    using that h'(3,4) by (auto simp: same_on_def)
  have l: "tree_at h' l"
  proof (rule tree_at_cong[OF _ _ _ out(3)])
    show "tree_at h l" using t(1) by simp
  qed (simp_all add: same)
  have "\<forall>x. root_of l = Some x \<longrightarrow> parent h' x = Some a"
    using t(1) same by (simp add: root_of_in)
  from tree_at_relink[OF h'(1) l h'(2) out(3,2,1) this] have "tree_at h'' \<langle>t, a, l\<rangle>"
    using t(1) by (simp add: h''_def)
  moreover have frame: "left h'' x = left h' x \<and> right h'' x = right h' x" if "x \<noteq> a" for x
    using that by (simp add: h''_def)
  moreover have par: "parent h'' x = parent h' x" if "x \<notin> set_tree t" for x
    using that root_of_in[of t] by (auto simp: h''_def split: option.splits)
  moreover have "same_on (- (set_tree \<langle>l, a, r\<rangle> \<union> B)) h h''"
    using frame par h'(3,4) unfolding same_on_def by simp
  moreover have "parent h'' a = parent h a" using par[of a] out(1) same[of a] by simp
  ultimately show ?thesis by blast
qed

lemma skew_heap_merge_refines:
  assumes "tree_at h t1" "tree_at h t2" "distinct (inorder t1)" "distinct (inorder t2)"
    "set_tree t1 \<inter> set_tree t2 = {}"
  shows "\<exists>h'. skew_heap_merge cmp h (root_of t1) (root_of t2) = Some (root_of (smerge cmp t1 t2), h') \<and>
    tree_at h' (smerge cmp t1 t2) \<and> same_on (- (set_tree t1 \<union> set_tree t2)) h h' \<and>
    (\<forall>x. root_of (smerge cmp t1 t2) = Some x \<longrightarrow> parent h' x = parent h x)"
  using assms
proof (induction cmp t1 t2 arbitrary: h rule: smerge.induct)
  case (1 cmp t2)
  then show ?case by (subst skew_heap_merge.simps) (auto simp: same_on_def)
next
  case (2 t1 cmp)
  then show ?case by (subst skew_heap_merge.simps) (cases t1; auto simp: same_on_def)
next
  case (3 cmp l1 a r1 l2 b r2)
  note dis = 3(7)
  show ?case
  proof (cases "cmp a b = -1")
    case True
    let ?t = "smerge cmp r1 \<langle>l2, b, r2\<rangle>"
    have pre: "tree_at h r1" "distinct (inorder r1)" "set_tree r1 \<inter> set_tree \<langle>l2, b, r2\<rangle> = {}"
      "right h a = root_of r1" "left h a = root_of l1"
      using 3(3,5) dis by auto
    obtain h' where h': "skew_heap_merge cmp h (root_of r1) (Some b) = Some (root_of ?t, h')"
      "tree_at h' ?t" "same_on (- (set_tree r1 \<union> set_tree \<langle>l2, b, r2\<rangle>)) h h'"
      using 3(1)[OF True pre(1) 3(4) pre(2) 3(6) pre(3)] by auto
    show ?thesis
      using merge_step[OF 3(3,5) dis h'(2) distinct_smerge[OF pre(2) 3(6) pre(3)] set_smerge h'(3)]
        True h'(1) pre(4,5) by (subst skew_heap_merge.simps) simp
  next
    case False
    let ?t = "smerge cmp \<langle>l1, a, r1\<rangle> r2"
    have pre: "tree_at h r2" "distinct (inorder r2)" "set_tree \<langle>l1, a, r1\<rangle> \<inter> set_tree r2 = {}"
      "right h b = root_of r2" "left h b = root_of l2" and dis': "set_tree \<langle>l2, b, r2\<rangle> \<inter> set_tree \<langle>l1, a, r1\<rangle> = {}"
      using 3(4,6) dis by auto
    obtain h' where h': "skew_heap_merge cmp h (Some a) (root_of r2) = Some (root_of ?t, h')"
      "tree_at h' ?t" "same_on (- (set_tree r2 \<union> set_tree \<langle>l1, a, r1\<rangle>)) h h'"
      using 3(2)[OF False 3(3) pre(1) 3(5) pre(2) pre(3)] by (auto simp: Un_commute)
    have "set_tree ?t = set_tree r2 \<union> set_tree \<langle>l1, a, r1\<rangle>" by auto
    from merge_step[OF 3(4,6) dis' h'(2) distinct_smerge[OF 3(5) pre(2) pre(3)] this h'(3)]
    show ?thesis using False h'(1) pre(4,5)
      by (subst skew_heap_merge.simps) (simp add: Un_commute)
  qed
qed

subsection \<open>Insertion\<close>

lemma skew_heap_insert_refines:
  assumes "heap_of h a t" "b \<notin> set_tree t"
  shows "\<exists>h'. skew_heap_insert cmp h a b = Some (root_of (smerge cmp t \<langle>\<langle>\<rangle>, b, \<langle>\<rangle>\<rangle>), h') \<and>
    heap_of h' (root_of (smerge cmp t \<langle>\<langle>\<rangle>, b, \<langle>\<rangle>\<rangle>)) (smerge cmp t \<langle>\<langle>\<rangle>, b, \<langle>\<rangle>\<rangle>) \<and>
    same_on (- insert b (set_tree t)) h h'"
proof -
  let ?h = "skew_heap_init h b" and ?b = "\<langle>\<langle>\<rangle>, b, \<langle>\<rangle>\<rangle>"
  have t: "a = root_of t" "tree_at h t" "distinct (inorder t)" "\<forall>x. a = Some x \<longrightarrow> parent h x = None"
    using assms(1) by (auto simp: heap_of_def)
  have "tree_at ?h t"
    using assms(2) by (intro tree_at_cong[OF t(2) _ _ t(3)]) (auto simp: skew_heap_init_def)
  moreover have "tree_at ?h ?b" by (simp add: skew_heap_init_def)
  ultimately obtain h' where h': "skew_heap_merge cmp ?h (root_of t) (root_of ?b) = Some (root_of (smerge cmp t ?b), h')"
    "tree_at h' (smerge cmp t ?b)" "same_on (- (set_tree t \<union> set_tree ?b)) ?h h'"
    "\<forall>x. root_of (smerge cmp t ?b) = Some x \<longrightarrow> parent h' x = parent ?h x"
    using skew_heap_merge_refines[of ?h t ?b cmp] t(3) assms(2) by auto
  have "distinct (inorder (smerge cmp t ?b))" using t(3) assms(2) by (intro distinct_smerge) auto
  moreover have "parent ?h x = None" if "root_of (smerge cmp t ?b) = Some x" for x
    using root_of_smerge[OF that] t(1,4) by (auto simp: skew_heap_init_def)
  moreover have "same_on (- insert b (set_tree t)) h h'"
    using h'(3) by (auto simp: same_on_def skew_heap_init_def)
  ultimately show ?thesis using h' t(1) by (simp add: skew_heap_insert_def heap_of_def)
qed

subsection \<open>Removal\<close>

text \<open>The subtree whose root is \<open>b\<close>.\<close>

fun subtree_of :: "'a \<Rightarrow> 'a tree \<Rightarrow> 'a tree" where
  "subtree_of b \<langle>\<rangle> = \<langle>\<rangle>"
| "subtree_of b \<langle>l, a, r\<rangle> =
     (if a = b then \<langle>l, a, r\<rangle> else if b \<in> set_tree l then subtree_of b l else subtree_of b r)"

lemma subtree_of_ok:
  assumes "b \<in> set_tree t" "tree_at h t" "distinct (inorder t)"
  shows "\<exists>l r. subtree_of b t = \<langle>l, b, r\<rangle> \<and> tree_at h \<langle>l, b, r\<rangle> \<and> distinct (inorder \<langle>l, b, r\<rangle>)"
  using assms by (induction t) (auto split: if_splits)

lemma subtree_of_subset: "set_tree (subtree_of b t) \<subseteq> set_tree t"
  by (induction t) auto

lemma sremove_not_in [simp]: "b \<notin> set_tree t \<Longrightarrow> sremove cmp b t = t"
  by (induction t) auto

lemma root_of_sremove: "root_of t \<noteq> Some b \<Longrightarrow> root_of (sremove cmp b t) = root_of t"
  by (cases t) auto

lemma parent_in:
  assumes "b \<in> set_tree t" "tree_at h t" "root_of t \<noteq> Some b" "distinct (inorder t)"
  shows "\<exists>q\<in>set_tree t. parent h b = Some q \<and> q \<notin> set_tree (subtree_of b t)"
  using assms
proof (induction t)
  case (Node l a r)
  have a: "a \<notin> set_tree (subtree_of b l) \<union> set_tree (subtree_of b r)"
    using Node.prems(4) subtree_of_subset by fastforce
  show ?case
  proof (cases "root_of l = Some b \<or> root_of r = Some b")
    case True
    then show ?thesis using Node.prems a by (auto dest: root_of_in)
  next
    case False
    then show ?thesis using Node.prems Node.IH by (auto split: if_splits)
  qed
qed simp

lemma root_not_in_subtree:
  assumes "root_of t = Some x" "x \<noteq> b" "distinct (inorder t)"
  shows "x \<notin> set_tree (subtree_of b t)"
proof -
  obtain l r where "t = \<langle>l, x, r\<rangle>" using assms(1) by (cases t) auto
  then show ?thesis using assms subtree_of_subset[of b l] subtree_of_subset[of b r] by auto
qed

lemma set_sremove: "distinct (inorder t) \<Longrightarrow> set_tree (sremove cmp b t) = set_tree t - {b}"
  by (induction t) auto

lemma distinct_sremove: "distinct (inorder t) \<Longrightarrow> distinct (inorder (sremove cmp b t))"
  by (induction t) (auto simp: distinct_smerge set_sremove)

lemma tree_at_replace:
  assumes t: "tree_at h t" "distinct (inorder t)" "b \<in> set_tree t" "root_of t \<noteq> Some b"
    and sub: "subtree_of b t = \<langle>bl, b, br\<rangle>" and q: "parent h b = Some q"
    and same: "\<And>x. x \<notin> set_tree \<langle>bl, b, br\<rangle> \<Longrightarrow> x \<noteq> q \<Longrightarrow> left h' x = left h x \<and> right h' x = right h x"
    and par: "\<And>x. x \<notin> set_tree \<langle>bl, b, br\<rangle> \<Longrightarrow> parent h' x = parent h x"
    and relink: "left h' q = (if left h q = Some b then root_of (smerge cmp bl br) else left h q)"
      "right h' q = (if left h q = Some b then right h q else root_of (smerge cmp bl br))"
    and m: "tree_at h' (smerge cmp bl br)"
      "\<And>x. root_of (smerge cmp bl br) = Some x \<Longrightarrow> parent h' x = Some q"
  shows "tree_at h' (sremove cmp b t)"
  using t sub
proof (induction t)
  case (Node l a r)
  have sets: "set_tree \<langle>bl, b, br\<rangle> \<subseteq> set_tree l \<or> set_tree \<langle>bl, b, br\<rangle> \<subseteq> set_tree r"
    using Node.prems subtree_of_subset by (metis root_of.simps(2) subtree_of.simps(2))
  have a: "a \<notin> set_tree \<langle>bl, b, br\<rangle>" "a \<noteq> b" "set_tree l \<inter> set_tree r = {}"
    using Node.prems(2,4) sets by auto
  have other: "tree_at h' u"
    if "tree_at h u" "distinct (inorder u)" "set_tree u \<inter> set_tree \<langle>bl, b, br\<rangle> = {}" "q \<notin> set_tree u" for u
    by (rule tree_at_cong[OF that(1) _ _ that(2)]) (use that(3,4) same par in blast)+
  have chd: "parent h' x = Some a"
    if "root_of l = Some x \<or> root_of r = Some x" "x \<notin> set_tree \<langle>bl, b, br\<rangle>" for x
    using that par Node.prems(1) by auto
  show ?case
  proof (cases "b \<in> set_tree l")
    case True
    then have sub_l: "set_tree \<langle>bl, b, br\<rangle> \<subseteq> set_tree l" "b \<notin> set_tree r" "subtree_of b l = \<langle>bl, b, br\<rangle>"
      using Node.prems(5) a subtree_of_subset[of b l] by auto
    have r: "root_of r = Some x \<Longrightarrow> parent h' x = Some a" for x
      using chd[of x] root_of_in[of r x] sub_l(1) a(3) by blast
    show ?thesis
    proof (cases "root_of l = Some b")
      case True
      then have "q = a" "l = \<langle>bl, b, br\<rangle>" "left h a = Some b"
        using q Node.prems(1) sub_l(3) by (cases l; auto)+
      moreover from this have "tree_at h' r"
        using Node.prems(1,2) sub_l a by (intro other) auto
      ultimately show ?thesis using relink m r a(2) Node.prems(1) by auto
    next
      case False
      have "\<exists>q'\<in>set_tree l. parent h b = Some q'"
        using parent_in[of b l h] True False Node.prems(1,2) by auto
      then have ql: "q \<in> set_tree l" using q by auto
      have "tree_at h' (sremove cmp b l)" using Node.IH(1) Node.prems(1,2) True False sub_l(3) by auto
      moreover have "tree_at h' r" using Node.prems(1,2) ql sub_l(1) a(3) by (intro other) auto
      moreover have "root_of l = Some x \<Longrightarrow> parent h' x = Some a" for x
        using chd[of x] root_not_in_subtree[of l x b] False sub_l(3) Node.prems(2) by auto
      moreover have "a \<noteq> q" using ql Node.prems(2) by auto
      ultimately show ?thesis using True a same[of a] r root_of_sremove[OF False] Node.prems(1) by auto
    qed
  next
    case False
    then have br: "b \<in> set_tree r" using Node.prems(3) a(2) by auto
    then have sub_r: "set_tree \<langle>bl, b, br\<rangle> \<subseteq> set_tree r" "subtree_of b r = \<langle>bl, b, br\<rangle>"
      using Node.prems(5) a False subtree_of_subset[of b r] by auto
    have l: "root_of l = Some x \<Longrightarrow> parent h' x = Some a" for x
      using chd[of x] root_of_in[of l x] sub_r(1) a(3) by blast
    have nl: "left h a \<noteq> Some b" using Node.prems(1) False root_of_in[of l b] by auto
    show ?thesis
    proof (cases "root_of r = Some b")
      case True
      then have "q = a" "r = \<langle>bl, b, br\<rangle>"
        using q Node.prems(1) sub_r(2) by (cases r; auto)+
      moreover from this have "tree_at h' l"
        using Node.prems(1,2) a(3) by (intro other) auto
      ultimately show ?thesis using relink m l a(2) nl False Node.prems(1) by auto
    next
      case nroot: False
      have "\<exists>q'\<in>set_tree r. parent h b = Some q'"
        using parent_in[of b r h] br nroot Node.prems(1,2) by auto
      then have qr: "q \<in> set_tree r" using q by auto
      have "tree_at h' (sremove cmp b r)" using Node.IH(2) Node.prems(1,2) br nroot sub_r(2) by auto
      moreover have "tree_at h' l" using Node.prems(1,2) qr sub_r(1) a(3) by (intro other) auto
      moreover have "root_of r = Some x \<Longrightarrow> parent h' x = Some a" for x
        using chd[of x] root_not_in_subtree[of r x b] nroot sub_r(2) Node.prems(2) by auto
      moreover have "a \<noteq> q" using qr Node.prems(2) by auto
      ultimately show ?thesis using False a same[of a] l root_of_sremove[OF nroot] Node.prems(1) by auto
    qed
  qed
qed simp

text \<open>Removal of an entry anywhere in the heap, by its parent pointer.\<close>

lemma skew_heap_remove_refines:
  assumes "heap_of h a t" "b \<in> set_tree t"
  shows "\<exists>h'. skew_heap_remove cmp h a b = Some (root_of (sremove cmp b t), h') \<and>
    heap_of h' (root_of (sremove cmp b t)) (sremove cmp b t) \<and> same_on (- set_tree t) h h'"
proof -
  have t: "a = root_of t" "tree_at h t" "distinct (inorder t)" "\<forall>x. a = Some x \<longrightarrow> parent h x = None"
    using assms(1) by (auto simp: heap_of_def)
  obtain l r where sub: "subtree_of b t = \<langle>l, b, r\<rangle>" "tree_at h \<langle>l, b, r\<rangle>" "distinct (inorder \<langle>l, b, r\<rangle>)"
    using subtree_of_ok[OF assms(2) t(2,3)] by blast
  have subset: "set_tree \<langle>l, b, r\<rangle> \<subseteq> set_tree t" using subtree_of_subset[of b t] sub(1) by simp
  let ?m = "smerge cmp l r"
  obtain h1 where h1: "skew_heap_merge cmp h (root_of l) (root_of r) = Some (root_of ?m, h1)"
    "tree_at h1 ?m" "same_on (- (set_tree l \<union> set_tree r)) h h1"
    using skew_heap_merge_refines[of h l r cmp] sub(2,3) by auto
  have dm: "distinct (inorder ?m)" using sub(3) by (intro distinct_smerge) auto
  define h2 where "h2 = set_parent (root_of ?m) (parent h b) h1"
  have m2: "tree_at h2 ?m"
    by (rule tree_at_cong[OF h1(2) _ _ dm]) (auto simp: h2_def split: option.splits)
  have rp: "root_of ?m = Some x \<Longrightarrow> parent h2 x = parent h b" for x by (simp add: h2_def)
  have same: "same_on (- (set_tree l \<union> set_tree r)) h h2"
    using h1(3) root_of_in[of ?m] by (auto simp: same_on_def h2_def split: option.splits)
  have run: "skew_heap_remove cmp h a b = (case parent h b of None \<Rightarrow> Some (root_of ?m, h2)
     | Some q \<Rightarrow> Some (a, if left h2 q = Some b then h2\<lparr>left := (left h2)(q := root_of ?m)\<rparr>
                        else h2\<lparr>right := (right h2)(q := root_of ?m)\<rparr>))"
    using h1(1) sub(2) unfolding h2_def by (simp add: skew_heap_remove_def Let_def cong: option.case_cong)
  show ?thesis
  proof (cases "parent h b")
    case None
    have root: "root_of t = Some b"
      using parent_in[OF assms(2) t(2) _ t(3)] None by fastforce
    then have "sremove cmp b t = ?m" using sub(1) by (cases t) auto
    moreover have "same_on (- set_tree t) h h2" by (rule same_on_mono[OF same]) (use subset in auto)
    ultimately show ?thesis using run None m2 dm rp by (simp add: heap_of_def)
  next
    case (Some q)
    have root: "root_of t \<noteq> Some b" using Some t(1,4) by auto
    have q: "q \<in> set_tree t" "q \<notin> set_tree \<langle>l, b, r\<rangle>"
      using parent_in[OF assms(2) t(2) root t(3)] Some sub(1) by auto
    define h3 where "h3 = (if left h2 q = Some b then h2\<lparr>left := (left h2)(q := root_of ?m)\<rparr>
               else h2\<lparr>right := (right h2)(q := root_of ?m)\<rparr>)"
    have h3: "left h3 = (left h2)(q := if left h q = Some b then root_of ?m else left h q)"
      "right h3 = (right h2)(q := if left h q = Some b then right h q else root_of ?m)"
      "parent h3 = parent h2"
      using same q(2) by (auto simp: h3_def same_on_def)
    have "tree_at h3 ?m" by (rule tree_at_cong[OF m2 _ _ dm]) (use q(2) in \<open>auto simp: h3\<close>)
    then have "tree_at h3 (sremove cmp b t)"
      by (intro tree_at_replace[OF t(2,3) assms(2) root sub(1) Some])
        (use same Some rp in \<open>auto simp: h3 same_on_def\<close>)
    moreover have "parent h3 x = None" if "root_of t = Some x" for x
      using that t(1,4) same root_not_in_subtree[of t x b] t(3) root sub(1) by (auto simp: h3(3) same_on_def)
    moreover have "same_on (- set_tree t) h h3"
      using same_on_mono[OF same, of "- set_tree t"] subset q(1) by (auto simp: same_on_def h3)
    ultimately show ?thesis
      using run Some t(1) root distinct_sremove[OF t(3), of cmp b]
      by (simp add: heap_of_def root_of_sremove h3_def)
  qed
qed

subsection \<open>Heap order\<close>

text \<open>
  \<^verbatim>\<open>cmp(a, b) == -1\<close> is the only outcome the code tests. It has to be a strict weak
  order on the entries of the heap.
\<close>

definition cmp_ok :: "('a \<Rightarrow> 'a \<Rightarrow> int) \<Rightarrow> 'a set \<Rightarrow> bool" where
  "cmp_ok cmp S \<longleftrightarrow> (\<forall>x\<in>S. \<forall>y\<in>S. cmp x y = -1 \<longrightarrow> cmp y x \<noteq> -1) \<and>
     (\<forall>x\<in>S. \<forall>y\<in>S. \<forall>z\<in>S. cmp y x \<noteq> -1 \<longrightarrow> cmp z y \<noteq> -1 \<longrightarrow> cmp z x \<noteq> -1)"

fun heap_ordered :: "('a \<Rightarrow> 'a \<Rightarrow> int) \<Rightarrow> 'a tree \<Rightarrow> bool" where
  "heap_ordered cmp \<langle>\<rangle> \<longleftrightarrow> True"
| "heap_ordered cmp \<langle>l, a, r\<rangle> \<longleftrightarrow> (\<forall>x\<in>set_tree l \<union> set_tree r. cmp x a \<noteq> -1) \<and>
     heap_ordered cmp l \<and> heap_ordered cmp r"

lemma heap_ordered_smerge:
  assumes "cmp_ok cmp (set_tree t1 \<union> set_tree t2)" "heap_ordered cmp t1" "heap_ordered cmp t2"
  shows "heap_ordered cmp (smerge cmp t1 t2)"
  using assms
proof (induction cmp t1 t2 rule: smerge.induct)
  case (3 cmp l1 a r1 l2 b r2)
  have ok: "cmp_ok cmp T" if "T \<subseteq> set_tree \<langle>l1, a, r1\<rangle> \<union> set_tree \<langle>l2, b, r2\<rangle>" for T
    using that 3(3) unfolding cmp_ok_def by (meson subsetD)
  have S: "\<And>x y. x \<in> set_tree \<langle>l1, a, r1\<rangle> \<union> set_tree \<langle>l2, b, r2\<rangle> \<Longrightarrow> y \<in> set_tree \<langle>l1, a, r1\<rangle> \<union> set_tree \<langle>l2, b, r2\<rangle> \<Longrightarrow> cmp x y = -1 \<Longrightarrow> cmp y x \<noteq> -1"
    "\<And>x y z. x \<in> set_tree \<langle>l1, a, r1\<rangle> \<union> set_tree \<langle>l2, b, r2\<rangle> \<Longrightarrow> y \<in> set_tree \<langle>l1, a, r1\<rangle> \<union> set_tree \<langle>l2, b, r2\<rangle> \<Longrightarrow>
      z \<in> set_tree \<langle>l1, a, r1\<rangle> \<union> set_tree \<langle>l2, b, r2\<rangle> \<Longrightarrow> cmp y x \<noteq> -1 \<Longrightarrow> cmp z y \<noteq> -1 \<Longrightarrow> cmp z x \<noteq> -1"
    using 3(3) unfolding cmp_ok_def by blast+
  show ?case
  proof (cases "cmp a b = -1")
    case True
    then have "cmp b a \<noteq> -1" by (intro S(1)) auto
    moreover have "cmp x a \<noteq> -1" if "x \<in> set_tree l2 \<union> set_tree r2" for x
      using that calculation 3(5) by (intro S(2)[of a b x]) auto
    moreover have "heap_ordered cmp (smerge cmp r1 \<langle>l2, b, r2\<rangle>)"
      using 3(4,5) True by (intro 3(1) ok) auto
    ultimately show ?thesis using True 3(4) by auto
  next
    case False
    have "cmp x b \<noteq> -1" if "x \<in> set_tree l1 \<union> set_tree r1" for x
      using that False 3(4) by (intro S(2)[of b a x]) auto
    moreover have "heap_ordered cmp (smerge cmp \<langle>l1, a, r1\<rangle> r2)"
      using 3(4,5) False by (intro 3(2) ok) auto
    ultimately show ?thesis using False 3(5) by auto
  qed
qed auto

lemma cmp_ok_subset: "cmp_ok cmp S \<Longrightarrow> T \<subseteq> S \<Longrightarrow> cmp_ok cmp T"
  unfolding cmp_ok_def by (meson subsetD)

lemma heap_ordered_sremove:
  assumes "cmp_ok cmp (set_tree t)" "heap_ordered cmp t" "distinct (inorder t)"
  shows "heap_ordered cmp (sremove cmp b t)"
  using assms
proof (induction t)
  case (Node l a r)
  have "cmp_ok cmp (set_tree l)" "cmp_ok cmp (set_tree r)" "cmp_ok cmp (set_tree l \<union> set_tree r)"
    using Node.prems(1) by (auto elim: cmp_ok_subset)
  then show ?case using Node heap_ordered_smerge[of cmp l r] by (auto simp: set_sremove)
qed simp

lemma heap_root_min:
  assumes "heap_ordered cmp t" "root_of t = Some a" "x \<in> set_tree t"
  shows "x = a \<or> cmp x a \<noteq> -1"
  using assms by (cases t) auto

subsection \<open>Properties\<close>

text \<open>
  C16. On a well-formed, ordered heap, insertion of a new entry and removal of any entry
  return; parent, left and right pointers describe a tree again, its entries are the old
  ones with the entry added or removed, heap order is kept, and the root returned is not
  greater than any entry.
\<close>

theorem skew_heap_correct:
  assumes "heap_of h a t" and "heap_ordered cmp t" and "b \<notin> set_tree t" and "c \<in> set_tree t"
    and "cmp_ok cmp (insert b (set_tree t))"
  shows "(\<exists>a' h' t'. skew_heap_insert cmp h a b = Some (a', h') \<and> heap_of h' a' t' \<and>
      set_tree t' = insert b (set_tree t) \<and> heap_ordered cmp t' \<and>
      (\<forall>m. a' = Some m \<longrightarrow> (\<forall>x\<in>set_tree t'. x = m \<or> cmp x m \<noteq> -1))) \<and>
    (\<exists>a' h' t'. skew_heap_remove cmp h a c = Some (a', h') \<and> heap_of h' a' t' \<and>
      set_tree t' = set_tree t - {c} \<and> heap_ordered cmp t' \<and>
      (\<forall>m. a' = Some m \<longrightarrow> (\<forall>x\<in>set_tree t'. x = m \<or> cmp x m \<noteq> -1)))"
proof
  let ?t = "smerge cmp t \<langle>\<langle>\<rangle>, b, \<langle>\<rangle>\<rangle>"
  obtain h' where h': "skew_heap_insert cmp h a b = Some (root_of ?t, h')" "heap_of h' (root_of ?t) ?t"
    using skew_heap_insert_refines[OF assms(1,3)] by blast
  have "heap_ordered cmp ?t" using assms(2,5) by (intro heap_ordered_smerge) (auto simp: Un_commute)
  moreover from this have "\<forall>m. root_of ?t = Some m \<longrightarrow> (\<forall>x\<in>set_tree ?t. x = m \<or> cmp x m \<noteq> -1)"
    using heap_root_min by metis
  moreover have "set_tree ?t = insert b (set_tree t)" by auto
  ultimately show "\<exists>a' h' t'. skew_heap_insert cmp h a b = Some (a', h') \<and> heap_of h' a' t' \<and>
      set_tree t' = insert b (set_tree t) \<and> heap_ordered cmp t' \<and>
      (\<forall>m. a' = Some m \<longrightarrow> (\<forall>x\<in>set_tree t'. x = m \<or> cmp x m \<noteq> -1))"
    using h' by blast
next
  let ?t = "sremove cmp c t"
  obtain h' where h': "skew_heap_remove cmp h a c = Some (root_of ?t, h')" "heap_of h' (root_of ?t) ?t"
    using skew_heap_remove_refines[OF assms(1,4)] by blast
  have d: "distinct (inorder t)" using assms(1) by (simp add: heap_of_def)
  have "heap_ordered cmp ?t"
    using heap_ordered_sremove[OF cmp_ok_subset[OF assms(5)] assms(2) d] by auto
  moreover from this have "\<forall>m. root_of ?t = Some m \<longrightarrow> (\<forall>x\<in>set_tree ?t. x = m \<or> cmp x m \<noteq> -1)"
    using heap_root_min by metis
  ultimately show "\<exists>a' h' t'. skew_heap_remove cmp h a c = Some (a', h') \<and> heap_of h' a' t' \<and>
      set_tree t' = set_tree t - {c} \<and> heap_ordered cmp t' \<and>
      (\<forall>m. a' = Some m \<longrightarrow> (\<forall>x\<in>set_tree t'. x = m \<or> cmp x m \<noteq> -1))"
    using h' set_sremove[OF d, of cmp c] by blast
qed

theorem skew_heap_correct_witness:
  "let cmp = (\<lambda>x y :: nat. if x < y then -1 else if x = y then 0 else 1);
       h = \<lparr>parent = (\<lambda>_. None), left = (\<lambda>_. None), right = (\<lambda>_. None)\<rparr>
   in \<exists>a h' t'. skew_heap_insert cmp h (Some 7) 3 = Some (a, h') \<and> heap_of h' a t' \<and> set_tree t' = {3, 7}"
proof -
  let ?cmp = "\<lambda>x y :: nat. if x < y then -1 else if x = y then 0 else 1 :: int"
  let ?h = "\<lparr>parent = (\<lambda>_. None), left = (\<lambda>_. None), right = (\<lambda>_. None)\<rparr> :: nat skew_heap"
  have "heap_of ?h (Some 7) \<langle>\<langle>\<rangle>, 7, \<langle>\<rangle>\<rangle>" by (simp add: heap_of_def)
  moreover have "cmp_ok ?cmp (insert 3 (set_tree \<langle>\<langle>\<rangle>, 7, \<langle>\<rangle>\<rangle>))" by (auto simp: cmp_ok_def)
  ultimately show ?thesis
    using skew_heap_correct[of ?h "Some 7" "\<langle>\<langle>\<rangle>, 7, \<langle>\<rangle>\<rangle>" ?cmp 3 7] by (auto simp: Let_def)
qed

end
