(* ===== verification/ProcTypes.thy ===== *)
theory ProcTypes
  imports DList SkewHeap
begin

text \<open>
  The process control block (\<^verbatim>\<open>kern/process/proc.h\<close>), timers and the part of the kernel
  state the scheduler works on (\<^verbatim>\<open>kern/schedule/sched.h\<close>).

  A \<^verbatim>\<open>struct proc_struct *\<close> is a natural number, the table \<open>procs\<close> maps it to the block;
  \<^verbatim>\<open>NULL\<close> is \<open>None\<close>. The links embedded in the blocks live in heaps of their own: the run
  queue's ring of \<^verbatim>\<open>run_link\<close> entries, the run pool of \<^verbatim>\<open>lab6_run_pool\<close> entries and the ring
  of timers. There is one run queue, so \<^verbatim>\<open>proc->rq\<close> is \<open>Some ()\<close> or \<open>None\<close>. Dereferencing
  \<^verbatim>\<open>NULL\<close>, a failed assertion and a panic are the value \<open>None\<close> of the option monad.
\<close>

datatype proc_state = PROC_UNINIT | PROC_SLEEPING | PROC_RUNNABLE | PROC_ZOMBIE

text \<open>\<open>gpr\<close> is indexed by register number: \<^verbatim>\<open>struct pushregs\<close> has them in that order.\<close>

record trapframe =
  gpr :: "nat \<Rightarrow> 64 word"
  status :: "64 word"
  epc :: "64 word"
  tval :: "64 word"
  cause :: "64 word"

record proc_context =
  ctx_ra :: "64 word"
  ctx_sp :: "64 word"
  ctx_s :: "nat \<Rightarrow> 64 word"

record proc_struct =
  pstate :: proc_state
  pid :: int
  runs :: int
  kstack :: "64 word"
  need_resched :: bool
  parent_p :: "nat option"
  mm :: "nat option"
  pcontext :: proc_context
  tf :: "trapframe option"
  pgdir :: "64 word"
  pflags :: "32 word"
  pname :: string
  exit_code :: int
  wait_state :: "32 word"
  cptr :: "nat option"
  yptr :: "nat option"
  optr :: "nat option"
  p_rq :: "unit option"
  time_slice :: int
  lab6_stride :: "32 word"
  lab6_priority :: "32 word"
  filesp :: "nat option"

definition PF_EXITING :: "32 word" where "PF_EXITING = 0x00000001"
definition WT_INTERRUPTED :: "32 word" where "WT_INTERRUPTED = 0x80000000"
definition WT_CHILD :: "32 word" where "WT_CHILD = 0x80000001"
definition WT_KSEM :: "32 word" where "WT_KSEM = 0x00000100"
definition WT_TIMER :: "32 word" where "WT_TIMER = 0x80000002"
definition WT_KBD :: "32 word" where "WT_KBD = 0x80000004"
definition MAX_TIME_SLICE :: int where "MAX_TIME_SLICE = 5"

text \<open>The fields of a new block, as \<^verbatim>\<open>alloc_proc\<close> sets them; \<open>exit_code\<close> is left as it was.\<close>

definition alloc_proc_fields :: "64 word \<Rightarrow> int \<Rightarrow> proc_struct" where
  "alloc_proc_fields boot_pgdir_pa junk =
     \<lparr>pstate = PROC_UNINIT, pid = -1, runs = 0, kstack = 0, need_resched = False, parent_p = None,
      mm = None, pcontext = \<lparr>ctx_ra = 0, ctx_sp = 0, ctx_s = (\<lambda>_. 0)\<rparr>, tf = None,
      pgdir = boot_pgdir_pa, pflags = 0, pname = [], exit_code = junk, wait_state = 0,
      cptr = None, yptr = None, optr = None, p_rq = None, time_slice = 0,
      lab6_stride = 0, lab6_priority = 0, filesp = None\<rparr>"

datatype run_entry = RunList | RunLink nat
datatype timer_entry = TimerList | TimerLink nat

record timer =
  expires :: nat
  timer_proc :: "nat option"

record sched =
  procs :: "nat \<Rightarrow> proc_struct"
  current :: "nat option"
  idleproc :: "nat option"
  initproc :: "nat option"
  run_links :: "run_entry list_heap"
  pool_links :: "nat skew_heap"
  lab6_run_pool :: "nat option"
  proc_num :: nat
  max_time_slice :: int
  timers :: "nat \<Rightarrow> timer"
  timer_links :: "timer_entry list_heap"
  satp :: "64 word"

definition upd_proc :: "nat \<Rightarrow> (proc_struct \<Rightarrow> proc_struct) \<Rightarrow> 'a sched_scheme \<Rightarrow> 'a sched_scheme" where
  "upd_proc p f s = s\<lparr>procs := (procs s)(p := f (procs s p))\<rparr>"

text \<open>\<^verbatim>\<open>struct sched_class\<close>: the operations of a scheduling policy.\<close>

record 's sched_class =
  sc_init :: "'s \<Rightarrow> 's"
  sc_enqueue :: "nat \<Rightarrow> 's \<Rightarrow> 's option"
  sc_dequeue :: "nat \<Rightarrow> 's \<Rightarrow> 's option"
  sc_pick_next :: "'s \<Rightarrow> nat option \<times> 's"
  sc_proc_tick :: "nat \<Rightarrow> 's \<Rightarrow> 's"

lemma upd_proc_simps [simp]:
  "procs (upd_proc p f s) = (procs s)(p := f (procs s p))"
  "current (upd_proc p f s) = current s" "idleproc (upd_proc p f s) = idleproc s"
  "initproc (upd_proc p f s) = initproc s"
  "run_links (upd_proc p f s) = run_links s" "pool_links (upd_proc p f s) = pool_links s"
  "lab6_run_pool (upd_proc p f s) = lab6_run_pool s" "proc_num (upd_proc p f s) = proc_num s"
  "max_time_slice (upd_proc p f s) = max_time_slice s" "timers (upd_proc p f s) = timers s"
  "timer_links (upd_proc p f s) = timer_links s" "satp (upd_proc p f s) = satp s"
  "sched.more (upd_proc p f s) = sched.more s"
  by (simp_all add: upd_proc_def)

text \<open>The state before \<^verbatim>\<open>sched_init\<close>: block 0 is idle and runs, nothing is linked.\<close>

definition boot_sched :: sched where
  "boot_sched =
     \<lparr>procs = (\<lambda>p. (alloc_proc_fields 0 0)\<lparr>pstate := if p = 0 then PROC_RUNNABLE else PROC_UNINIT\<rparr>),
      current = Some 0, idleproc = Some 0, initproc = None,
      run_links = \<lparr>prev_of = id, next_of = id\<rparr>,
      pool_links = \<lparr>parent = (\<lambda>_. None), left = (\<lambda>_. None), right = (\<lambda>_. None)\<rparr>,
      lab6_run_pool = None, proc_num = 0, max_time_slice = 0,
      timers = (\<lambda>_. \<lparr>expires = 0, timer_proc = None\<rparr>),
      timer_links = \<lparr>prev_of = id, next_of = id\<rparr>, satp = 0\<rparr>"

end
