(* ===== verification/Sched.thy ===== *)
theory Sched
  imports ProcTypes
begin

text \<open>
  The scheduler core (\<^verbatim>\<open>kern/schedule/sched.c\<close>) over an arbitrary scheduling class, and
  the contract of a class as a locale. Interrupts are off in each of these functions
  (\<^verbatim>\<open>local_intr_save\<close>), so each is one atomic step on a single processor. \<^verbatim>\<open>proc_run\<close> is
  the switch: what follows it in the code runs when the old process is switched back to.
\<close>

unbundle bit_operations_syntax

subsection \<open>Calls of the class\<close>

definition sched_class_enqueue :: "'a sched_scheme sched_class \<Rightarrow> nat \<Rightarrow> 'a sched_scheme \<Rightarrow> 'a sched_scheme option" where
  "sched_class_enqueue cls p s = (if Some p \<noteq> idleproc s then sc_enqueue cls p s else Some s)"

definition sched_class_dequeue :: "'a sched_scheme sched_class \<Rightarrow> nat \<Rightarrow> 'a sched_scheme \<Rightarrow> 'a sched_scheme option" where
  "sched_class_dequeue cls p s = sc_dequeue cls p s"

definition sched_class_pick_next :: "'a sched_scheme sched_class \<Rightarrow> 'a sched_scheme \<Rightarrow> nat option \<times> 'a sched_scheme" where
  "sched_class_pick_next cls s = sc_pick_next cls s"

definition sched_class_proc_tick :: "'a sched_scheme sched_class \<Rightarrow> nat \<Rightarrow> 'a sched_scheme \<Rightarrow> 'a sched_scheme" where
  "sched_class_proc_tick cls p s =
     (if Some p \<noteq> idleproc s then sc_proc_tick cls p s
      else upd_proc p (\<lambda>q. q\<lparr>need_resched := True\<rparr>) s)"

definition sched_init :: "'a sched_scheme sched_class \<Rightarrow> 'a sched_scheme \<Rightarrow> 'a sched_scheme" where
  "sched_init cls s =
     (let s1 = s\<lparr>timer_links := list_init (timer_links s) TimerList\<rparr>;
          s2 = s1\<lparr>max_time_slice := MAX_TIME_SLICE\<rparr>
      in sc_init cls s2)"

subsection \<open>Waking and switching\<close>

definition wakeup_proc :: "'a sched_scheme sched_class \<Rightarrow> nat \<Rightarrow> 'a sched_scheme \<Rightarrow> 'a sched_scheme option" where
  "wakeup_proc cls p s =
     do { kassert (pstate (procs s p) \<noteq> PROC_ZOMBIE);
          if pstate (procs s p) \<noteq> PROC_RUNNABLE then
            let s1 = upd_proc p (\<lambda>q. q\<lparr>pstate := PROC_RUNNABLE, wait_state := 0\<rparr>) s in
            if Some p \<noteq> current s1 then sched_class_enqueue cls p s1 else Some s1
          else Some s }"

definition lsatp :: "64 word \<Rightarrow> 64 word" where
  "lsatp pd = 0x8000000000000000 OR drop_bit 12 pd"

definition proc_run :: "nat \<Rightarrow> 'a sched_scheme \<Rightarrow> 'a sched_scheme" where
  "proc_run p s =
     (if Some p \<noteq> current s then s\<lparr>current := Some p, satp := lsatp (pgdir (procs s p))\<rparr> else s)"

definition schedule :: "'a sched_scheme sched_class \<Rightarrow> 'a sched_scheme \<Rightarrow> 'a sched_scheme option" where
  "schedule cls s =
     do { c \<leftarrow> current s;
          let s1 = upd_proc c (\<lambda>q. q\<lparr>need_resched := False\<rparr>) s;
          s2 \<leftarrow> (if pstate (procs s1 c) = PROC_RUNNABLE then sched_class_enqueue cls c s1 else Some s1);
          let (next, s3) = sched_class_pick_next cls s2;
          s4 \<leftarrow> (case next of Some n \<Rightarrow> sched_class_dequeue cls n s3 | None \<Rightarrow> Some s3);
          n \<leftarrow> (case next of Some n \<Rightarrow> Some n | None \<Rightarrow> idleproc s4);
          let s5 = upd_proc n (\<lambda>q. q\<lparr>runs := runs q + 1\<rparr>) s4;
          Some (if Some n \<noteq> current s5 then proc_run n s5 else s5) }"

lemma proc_run_simps [simp]:
  "procs (proc_run p s) = procs s" "current (proc_run p s) = Some p" "idleproc (proc_run p s) = idleproc s"
  "initproc (proc_run p s) = initproc s" "timers (proc_run p s) = timers s"
  "timer_links (proc_run p s) = timer_links s" "run_links (proc_run p s) = run_links s"
  "proc_num (proc_run p s) = proc_num s"
  "sched.more (proc_run p s) = sched.more s"
  "Some p \<noteq> current s \<Longrightarrow> satp (proc_run p s) = lsatp (pgdir (procs s p))"
  by (auto simp: proc_run_def)

subsection \<open>Timers\<close>

definition upd_timer :: "nat \<Rightarrow> (nat \<Rightarrow> nat) \<Rightarrow> (nat \<Rightarrow> timer) \<Rightarrow> nat \<Rightarrow> timer" where
  "upd_timer t f tm = tm(t := (tm t)\<lparr>expires := f (expires (tm t))\<rparr>)"

definition timer_init :: "nat \<Rightarrow> nat \<Rightarrow> int \<Rightarrow> 'a sched_scheme \<Rightarrow> 'a sched_scheme" where
  "timer_init t p e s =
     s\<lparr>timers := (timers s)(t := \<lparr>expires = nat (e mod 2 ^ 32), timer_proc = Some p\<rparr>),
       timer_links := list_init (timer_links s) (TimerLink t)\<rparr>"

text \<open>The search for the position of a new timer: entries hold differences.\<close>

partial_function (option) add_timer_loop ::
  "timer_entry list_heap \<Rightarrow> nat \<Rightarrow> timer_entry \<Rightarrow> (nat \<Rightarrow> timer) \<Rightarrow> (timer_entry \<times> (nat \<Rightarrow> timer)) option" where
  "add_timer_loop h t le tm =
     (case le of
        TimerList \<Rightarrow> Some (le, tm)
      | TimerLink n \<Rightarrow>
          if expires (tm t) < expires (tm n)
          then Some (le, upd_timer n (\<lambda>e. e - expires (tm t)) tm)
          else add_timer_loop h t (list_next h le) (upd_timer t (\<lambda>e. e - expires (tm n)) tm))"

definition add_timer :: "nat \<Rightarrow> 'a sched_scheme \<Rightarrow> 'a sched_scheme option" where
  "add_timer t s =
     do { kassert (expires (timers s t) > 0 \<and> timer_proc (timers s t) \<noteq> None);
          kassert (list_empty (timer_links s) (TimerLink t));
          (le, tm) \<leftarrow> add_timer_loop (timer_links s) t (list_next (timer_links s) TimerList) (timers s);
          Some (s\<lparr>timers := tm, timer_links := list_add_before (timer_links s) le (TimerLink t)\<rparr>) }"

definition del_timer :: "nat \<Rightarrow> 'a sched_scheme \<Rightarrow> 'a sched_scheme" where
  "del_timer t s =
     (if \<not> list_empty (timer_links s) (TimerLink t) then
        let s1 = (if expires (timers s t) \<noteq> 0 then
                    (case list_next (timer_links s) (TimerLink t) of
                       TimerLink n \<Rightarrow> s\<lparr>timers := upd_timer n (\<lambda>e. u32 (e + expires (timers s t))) (timers s)\<rparr>
                     | TimerList \<Rightarrow> s)
                  else s)
        in s1\<lparr>timer_links := list_del_init (timer_links s1) (TimerLink t)\<rparr>
      else s)"

text \<open>The loop of \<open>run_timer_list\<close> over the timers that have run out.\<close>

partial_function (option) run_timers_loop ::
  "'a sched_scheme sched_class \<Rightarrow> nat \<Rightarrow> 'a sched_scheme \<Rightarrow> 'a sched_scheme option" where
  "run_timers_loop cls t s =
     (if expires (timers s t) = 0 then
        do { let le = list_next (timer_links s) (TimerLink t);
             p \<leftarrow> timer_proc (timers s t);
             kassert (wait_state (procs s p) \<noteq> 0 \<longrightarrow> wait_state (procs s p) AND WT_INTERRUPTED \<noteq> 0);
             s1 \<leftarrow> wakeup_proc cls p s;
             let s2 = del_timer t s1;
             case le of
               TimerList \<Rightarrow> Some s2
             | TimerLink n \<Rightarrow> run_timers_loop cls n s2 }
      else Some s)"

definition run_timer_list :: "'a sched_scheme sched_class \<Rightarrow> 'a sched_scheme \<Rightarrow> 'a sched_scheme option" where
  "run_timer_list cls s =
     do { s1 \<leftarrow> (case list_next (timer_links s) TimerList of
                   TimerList \<Rightarrow> Some s
                 | TimerLink t \<Rightarrow>
                     do { kassert (expires (timers s t) \<noteq> 0);
                          run_timers_loop cls t (s\<lparr>timers := upd_timer t (\<lambda>e. e - 1) (timers s)\<rparr>) });
          Some (case current s1 of Some c \<Rightarrow> sched_class_proc_tick cls c s1 | None \<Rightarrow> s1) }"

subsection \<open>The contract of a scheduling class\<close>

text \<open>The components of the state that belong to the policy.\<close>

definition queue_part :: "'a sched_scheme \<Rightarrow> _" where
  "queue_part s = (run_links s, pool_links s, lab6_run_pool s, proc_num s, max_time_slice s,
     \<lambda>p. (p_rq (procs s p), lab6_stride (procs s p)))"

text \<open>What a policy does not touch. The fields of a block that no scheduling decision looks at:\<close>

definition static_part :: "proc_struct \<Rightarrow> _" where
  "static_part q = (parent_p q, cptr q, yptr q, optr q, exit_code q, pflags q, mm q, filesp q, kstack q, pname q, tf q, pcontext q)"

definition same_control :: "'a sched_scheme \<Rightarrow> 'a sched_scheme \<Rightarrow> bool" where
  "same_control s s' \<longleftrightarrow> current s' = current s \<and> idleproc s' = idleproc s \<and> initproc s' = initproc s \<and>
     timers s' = timers s \<and> timer_links s' = timer_links s \<and> satp s' = satp s \<and> sched.more s' = sched.more s \<and>
     (\<forall>p. static_part (procs s' p) = static_part (procs s p)) \<and>
     (\<forall>p. pstate (procs s' p) = pstate (procs s p) \<and> wait_state (procs s' p) = wait_state (procs s p) \<and>
          pgdir (procs s' p) = pgdir (procs s p) \<and> pid (procs s' p) = pid (procs s p))"

text \<open>The processes that have to be in the run queue.\<close>

definition runq :: "'a sched_scheme \<Rightarrow> nat set" where
  "runq s = {p. pstate (procs s p) = PROC_RUNNABLE \<and> Some p \<noteq> current s \<and> Some p \<noteq> idleproc s}"

lemma static_part_simps [simp]:
  "static_part (q\<lparr>need_resched := b\<rparr>) = static_part q" "static_part (q\<lparr>runs := n\<rparr>) = static_part q"
  "static_part (q\<lparr>pstate := st, wait_state := w\<rparr>) = static_part q" "static_part (q\<lparr>lab6_stride := st'\<rparr>) = static_part q"
  "static_part (q\<lparr>time_slice := t\<rparr>) = static_part q" "static_part (q\<lparr>p_rq := r\<rparr>) = static_part q"
  "static_part (q\<lparr>lab6_priority := st'\<rparr>) = static_part q"
  by (simp_all add: static_part_def)

definition sched_inv :: "('a sched_scheme \<Rightarrow> nat set \<Rightarrow> bool) \<Rightarrow> (nat \<Rightarrow> 'a sched_scheme \<Rightarrow> bool) \<Rightarrow>
    'a sched_scheme \<Rightarrow> bool" where
  "sched_inv qinv ready s \<longleftrightarrow> current s \<noteq> None \<and>
     idleproc s \<noteq> None \<and> (\<forall>i. idleproc s = Some i \<longrightarrow> pstate (procs s i) = PROC_RUNNABLE) \<and>
     qinv s (runq s) \<and> (\<forall>p. pstate (procs s p) \<noteq> PROC_UNINIT \<longrightarrow> p \<notin> runq s \<longrightarrow> ready p s)"

locale sched_policy =
  fixes cls :: "'a sched_scheme sched_class"
    and qinv :: "'a sched_scheme \<Rightarrow> nat set \<Rightarrow> bool"
    and ready :: "nat \<Rightarrow> 'a sched_scheme \<Rightarrow> bool"
  assumes enqueue_ok: "qinv s Q \<Longrightarrow> p \<notin> Q \<Longrightarrow> ready p s \<Longrightarrow>
      \<exists>s'. sc_enqueue cls p s = Some s' \<and> qinv s' (insert p Q) \<and> same_control s s' \<and>
           (\<forall>q. q \<noteq> p \<longrightarrow> ready q s \<longrightarrow> ready q s')"
    and pick_empty: "qinv s {} \<Longrightarrow> sc_pick_next cls s = (None, s)"
    and pick_dequeue: "qinv s Q \<Longrightarrow> Q \<noteq> {} \<Longrightarrow> card Q < 2 ^ 32 \<Longrightarrow>
      \<exists>p s1 s2. sc_pick_next cls s = (Some p, s1) \<and> sc_dequeue cls p s1 = Some s2 \<and> p \<in> Q \<and>
         qinv s2 (Q - {p}) \<and> same_control s s2 \<and> ready p s2 \<and> (\<forall>q. ready q s \<longrightarrow> ready q s2)"
    and tick_ok: "qinv s Q \<Longrightarrow> qinv (sc_proc_tick cls p s) Q \<and> same_control s (sc_proc_tick cls p s) \<and>
      (\<forall>q. ready q s \<longrightarrow> ready q (sc_proc_tick cls p s))"
    and queue_cong: "queue_part s' = queue_part s \<Longrightarrow> qinv s' Q = qinv s Q \<and> ready p s' = ready p s"
begin

lemma same_control_runq: "same_control s s' \<Longrightarrow> runq s' = runq s"
  by (auto simp: same_control_def runq_def)

lemma control_update_cong:
  "queue_part (upd_proc p (\<lambda>q. q\<lparr>pstate := a, wait_state := w\<rparr>) s) = queue_part s"
  "queue_part (upd_proc p (\<lambda>q. q\<lparr>need_resched := b\<rparr>) s) = queue_part s"
  "queue_part (upd_proc p (\<lambda>q. q\<lparr>runs := r q\<rparr>) s) = queue_part s"
  "queue_part (proc_run p s) = queue_part s"
  by (auto simp: queue_part_def upd_proc_def proc_run_def fun_eq_iff)

lemma wakeup_proc_ok:
  assumes inv: "sched_inv qinv ready s" and live: "pstate (procs s p) \<noteq> PROC_ZOMBIE"
    and new: "pstate (procs s p) = PROC_UNINIT \<Longrightarrow> ready p s"
  shows "\<exists>s'. wakeup_proc cls p s = Some s' \<and> sched_inv qinv ready s' \<and>
    pstate (procs s' p) = PROC_RUNNABLE \<and> current s' = current s \<and> idleproc s' = idleproc s \<and>
    timers s' = timers s \<and> timer_links s' = timer_links s \<and>
    (\<forall>q. q \<noteq> p \<longrightarrow> pstate (procs s' q) = pstate (procs s q) \<and> wait_state (procs s' q) = wait_state (procs s q)) \<and>
    (wait_state (procs s' p) = 0 \<or> wait_state (procs s' p) = wait_state (procs s p)) \<and>
    sched.more s' = sched.more s \<and> (\<forall>q. static_part (procs s' q) = static_part (procs s q) \<and> pid (procs s' q) = pid (procs s q)) \<and>
    runq s' = (if Some p = current s \<or> Some p = idleproc s then runq s else insert p (runq s))"
proof (cases "pstate (procs s p) = PROC_RUNNABLE")
  case True
  then show ?thesis using inv by (auto simp: wakeup_proc_def kassert_def runq_def)
next
  case False
  let ?s1 = "upd_proc p (\<lambda>q. q\<lparr>pstate := PROC_RUNNABLE, wait_state := 0\<rparr>) s"
  note qc = queue_cong[OF control_update_cong(1)]
  have p: "p \<notin> runq s" "ready p s" "Some p \<noteq> idleproc s"
    using False new inv by (auto simp: runq_def sched_inv_def)
  have rq1: "runq ?s1 = (if Some p = current s then runq s else insert p (runq s))"
    using False p(3) by (auto simp: runq_def)
  show ?thesis
  proof (cases "Some p = current s")
    case True
    then show ?thesis using inv False live p rq1
      by (auto simp: wakeup_proc_def sched_inv_def kassert_def qc)
  next
    case notcur: False
    have "qinv ?s1 (runq s)" "ready p ?s1" using inv p(2) by (auto simp: sched_inv_def qc)
    then obtain s' where s': "sc_enqueue cls p ?s1 = Some s'" "qinv s' (insert p (runq s))"
      "same_control ?s1 s'" "\<forall>q. q \<noteq> p \<longrightarrow> ready q ?s1 \<longrightarrow> ready q s'"
      using enqueue_ok p(1) by blast
    have "runq s' = insert p (runq s)" using same_control_runq[OF s'(3)] rq1 notcur by simp
    moreover have "wakeup_proc cls p s = Some s'"
      using s'(1) False live notcur p(3) by (simp add: wakeup_proc_def sched_class_enqueue_def kassert_def)
    moreover have "ready q s'" if "pstate (procs s' q) \<noteq> PROC_UNINIT" "q \<notin> insert p (runq s)" for q
      using that s'(3,4) inv by (auto simp: same_control_def sched_inv_def qc)
    ultimately show ?thesis using s'(2,3) inv p(3) notcur
      by (auto simp: sched_inv_def same_control_def)
  qed
qed

text \<open>The first half of \<open>schedule\<close>: a runnable current process goes to the queue.\<close>

lemma enqueue_current_ok:
  assumes inv: "sched_inv qinv ready s" and c: "current s = Some c"
  defines "s1 \<equiv> upd_proc c (\<lambda>q. q\<lparr>need_resched := False\<rparr>) s"
    and "Q \<equiv> (if pstate (procs s c) = PROC_RUNNABLE \<and> idleproc s \<noteq> Some c then insert c (runq s) else runq s)"
  shows "\<exists>s2. (if pstate (procs s1 c) = PROC_RUNNABLE then sched_class_enqueue cls c s1 else Some s1) = Some s2 \<and>
    qinv s2 Q \<and> same_control s s2 \<and>
    (\<forall>q. pstate (procs s q) \<noteq> PROC_UNINIT \<longrightarrow> q \<notin> Q \<longrightarrow> ready q s2)"
proof -
  note qc = queue_cong[OF control_update_cong(2)]
  have sc: "same_control s s1" by (simp add: same_control_def s1_def)
  have inv1: "qinv s1 (runq s)" "\<forall>q. ready q s1 = ready q s" using inv by (auto simp: s1_def sched_inv_def qc)
  show ?thesis
  proof (cases "pstate (procs s c) = PROC_RUNNABLE \<and> idleproc s \<noteq> Some c")
    case True
    have "c \<notin> runq s" "ready c s1" using c inv inv1(2) True by (auto simp: runq_def sched_inv_def)
    then obtain s2 where s2: "sc_enqueue cls c s1 = Some s2" "qinv s2 (insert c (runq s))" "same_control s1 s2"
      "\<forall>q. q \<noteq> c \<longrightarrow> ready q s1 \<longrightarrow> ready q s2" using enqueue_ok inv1(1) by blast
    then show ?thesis using True sc inv inv1(2)
      by (auto simp: Q_def s1_def sched_class_enqueue_def same_control_def sched_inv_def)
  next
    case False
    then show ?thesis using sc inv inv1
      by (auto simp: Q_def s1_def sched_class_enqueue_def sched_inv_def same_control_def)
  qed
qed

lemma schedule_ok:
  assumes inv: "sched_inv qinv ready s" and c: "current s = Some c" and i: "idleproc s = Some i"
    and card: "card (insert c (runq s)) < 2 ^ 32" and fin: "finite (runq s)"
  defines "Q \<equiv> (if pstate (procs s c) = PROC_RUNNABLE \<and> i \<noteq> c then insert c (runq s) else runq s)"
  shows "\<exists>s' n. schedule cls s = Some s' \<and> sched_inv qinv ready s' \<and> current s' = Some n \<and>
    n \<in> insert i Q \<and> (n = i \<longleftrightarrow> Q = {}) \<and> (n \<noteq> c \<longrightarrow> satp s' = lsatp (pgdir (procs s n))) \<and>
    idleproc s' = idleproc s \<and> timers s' = timers s \<and> timer_links s' = timer_links s \<and>
    (\<forall>p. pstate (procs s' p) = pstate (procs s p) \<and> wait_state (procs s' p) = wait_state (procs s p) \<and>
       pid (procs s' p) = pid (procs s p) \<and> static_part (procs s' p) = static_part (procs s p)) \<and>
    sched.more s' = sched.more s \<and> initproc s' = initproc s"
proof -
  obtain s2 where s2: "(if pstate (procs (upd_proc c (\<lambda>q. q\<lparr>need_resched := False\<rparr>) s) c) = PROC_RUNNABLE
      then sched_class_enqueue cls c (upd_proc c (\<lambda>q. q\<lparr>need_resched := False\<rparr>) s)
      else Some (upd_proc c (\<lambda>q. q\<lparr>need_resched := False\<rparr>) s)) = Some s2"
    "qinv s2 Q" "same_control s s2" "\<forall>q. pstate (procs s q) \<noteq> PROC_UNINIT \<longrightarrow> q \<notin> Q \<longrightarrow> ready q s2"
    using enqueue_current_ok[OF inv c] i by (auto simp: Q_def)
  have Qi: "i \<notin> Q" "\<forall>q\<in>Q. pstate (procs s q) = PROC_RUNNABLE" using i by (auto simp: Q_def runq_def)
  have "\<exists>n s3 s4. sc_pick_next cls s2 = s3 \<and> (case fst s3 of Some n \<Rightarrow> sc_dequeue cls n (snd s3) | None \<Rightarrow> Some (snd s3)) = Some s4 \<and>
      (case fst s3 of Some n \<Rightarrow> Some n | None \<Rightarrow> Some i) = Some n \<and> qinv s4 (Q - {n}) \<and> same_control s s4 \<and>
      n \<in> insert i Q \<and> (n = i \<longleftrightarrow> Q = {}) \<and> (\<forall>q. pstate (procs s q) \<noteq> PROC_UNINIT \<longrightarrow> q \<notin> Q - {n} \<longrightarrow> ready q s4)"
  proof (cases "Q = {}")
    case True
    then show ?thesis using pick_empty s2 by (intro exI[of _ i] exI[of _ "(None, s2)"] exI[of _ s2]) auto
  next
    case False
    have "card Q < 2 ^ 32" using card card_mono[of "insert c (runq s)" Q] fin
      by (simp add: Q_def card_insert_if split: if_splits)
    then obtain n s3 s4 where n: "sc_pick_next cls s2 = (Some n, s3)" "sc_dequeue cls n s3 = Some s4" "n \<in> Q"
      "qinv s4 (Q - {n})" "same_control s2 s4" "ready n s4" "\<forall>q. ready q s2 \<longrightarrow> ready q s4"
      using pick_dequeue[OF s2(2) False] by blast
    have "same_control s s4" using s2(3) n(5) by (simp add: same_control_def)
    then show ?thesis using n s2 Qi False
      by (intro exI[of _ n] exI[of _ "(Some n, s3)"] exI[of _ s4]) auto
  qed
  then obtain n s3 s4 where n: "sc_pick_next cls s2 = s3"
    "(case fst s3 of Some n \<Rightarrow> sc_dequeue cls n (snd s3) | None \<Rightarrow> Some (snd s3)) = Some s4"
    "(case fst s3 of Some n \<Rightarrow> Some n | None \<Rightarrow> Some i) = Some n" "qinv s4 (Q - {n})" "same_control s s4"
    "n \<in> insert i Q" "n = i \<longleftrightarrow> Q = {}"
    "\<forall>q. pstate (procs s q) \<noteq> PROC_UNINIT \<longrightarrow> q \<notin> Q - {n} \<longrightarrow> ready q s4" by blast
  let ?s5 = "upd_proc n (\<lambda>q. q\<lparr>runs := runs q + 1\<rparr>) s4"
  have ctrl: "current s4 = Some c" "idleproc s4 = Some i" "satp s4 = satp s" "timers s4 = timers s"
    "timer_links s4 = timer_links s"
    "sched.more s4 = sched.more s" "initproc s4 = initproc s"
    "\<And>p. pstate (procs s4 p) = pstate (procs s p)" "\<And>p. wait_state (procs s4 p) = wait_state (procs s p)"
    "\<And>p. pid (procs s4 p) = pid (procs s p)" "\<And>p. static_part (procs s4 p) = static_part (procs s p)" "\<And>p. pgdir (procs s4 p) = pgdir (procs s p)"
    using n(5) c i by (auto simp: same_control_def)
  have run: "schedule cls s = Some (proc_run n ?s5)"
    using c s2(1) n(1,2,3) ctrl i
    by (auto simp: schedule_def Let_def sched_class_pick_next_def sched_class_dequeue_def proc_run_def
        split: prod.splits option.splits)
  note cong = queue_cong[OF control_update_cong(4)] queue_cong[OF control_update_cong(3)]
  have rq: "runq (proc_run n ?s5) = Q - {n}"
    using ctrl c i n(6,7) by (auto simp: runq_def Q_def)
  have "qinv (proc_run n ?s5) (Q - {n})" "\<forall>q. ready q (proc_run n ?s5) = ready q s4"
    using n(4) by (simp_all add: cong)
  then have "sched_inv qinv ready (proc_run n ?s5)"
    unfolding sched_inv_def rq using n(8) inv ctrl i by (auto simp: sched_inv_def)
  then show ?thesis using run n(6,7) ctrl i by auto
qed

end

end
