(* ===== verification/RRSched.thy ===== *)
theory RRSched
  imports Sched
begin

text \<open>
  The round-robin policy (\<^verbatim>\<open>kern/schedule/default_sched.c\<close>) on the ring of run links,
  and its refinement to a queue of processes.
\<close>

definition RR_init :: "'a sched_scheme \<Rightarrow> 'a sched_scheme" where
  "RR_init s = s\<lparr>run_links := list_init (run_links s) RunList, proc_num := 0\<rparr>"

definition RR_enqueue :: "nat \<Rightarrow> 'a sched_scheme \<Rightarrow> 'a sched_scheme option" where
  "RR_enqueue p s =
     do { kassert (list_empty (run_links s) (RunLink p));
          let s1 = s\<lparr>run_links := list_add_before (run_links s) RunList (RunLink p)\<rparr>;
          let s2 = upd_proc p (\<lambda>q. if time_slice q = 0 \<or> time_slice q > max_time_slice s
                                   then q\<lparr>time_slice := max_time_slice s\<rparr> else q) s1;
          let s3 = upd_proc p (\<lambda>q. q\<lparr>p_rq := Some ()\<rparr>) s2;
          Some (s3\<lparr>proc_num := u32 (proc_num s3 + 1)\<rparr>) }"

definition RR_dequeue :: "nat \<Rightarrow> 'a sched_scheme \<Rightarrow> 'a sched_scheme option" where
  "RR_dequeue p s =
     do { kassert (\<not> list_empty (run_links s) (RunLink p) \<and> p_rq (procs s p) = Some ());
          let s1 = s\<lparr>run_links := list_del_init (run_links s) (RunLink p)\<rparr>;
          Some (s1\<lparr>proc_num := u32_minus (proc_num s1) 1\<rparr>) }"

definition RR_pick_next :: "'a sched_scheme \<Rightarrow> nat option \<times> 'a sched_scheme" where
  "RR_pick_next s =
     (case list_next (run_links s) RunList of
        RunLink p \<Rightarrow> (Some p, s)
      | RunList \<Rightarrow> (None, s))"

definition RR_proc_tick :: "nat \<Rightarrow> 'a sched_scheme \<Rightarrow> 'a sched_scheme" where
  "RR_proc_tick p s =
     (let s1 = (if time_slice (procs s p) > 0
                then upd_proc p (\<lambda>q. q\<lparr>time_slice := time_slice q - 1\<rparr>) s else s)
      in if time_slice (procs s1 p) = 0 then upd_proc p (\<lambda>q. q\<lparr>need_resched := True\<rparr>) s1 else s1)"

definition default_sched_class :: "'a sched_scheme sched_class" where
  "default_sched_class = \<lparr>sc_init = RR_init, sc_enqueue = RR_enqueue, sc_dequeue = RR_dequeue,
     sc_pick_next = RR_pick_next, sc_proc_tick = RR_proc_tick\<rparr>"

subsection \<open>The queue behind the ring\<close>

definition RR_queue :: "'a sched_scheme \<Rightarrow> nat list \<Rightarrow> bool" where
  "RR_queue s xs \<longleftrightarrow> dlist (run_links s) RunList (map RunLink xs) \<and> proc_num s = u32 (length xs) \<and>
     (\<forall>p\<in>set xs. p_rq (procs s p) = Some ())"

definition RR_inv :: "'a sched_scheme \<Rightarrow> nat set \<Rightarrow> bool" where
  "RR_inv s Q \<longleftrightarrow> (\<exists>xs. RR_queue s xs \<and> set xs = Q)"

definition RR_ready :: "nat \<Rightarrow> 'a sched_scheme \<Rightarrow> bool" where
  "RR_ready p s \<longleftrightarrow> list_empty (run_links s) (RunLink p)"

lemma map_RunLink_mem [simp]: "RunLink p \<in> RunLink ` A \<longleftrightarrow> p \<in> A" by auto

lemma RR_ready_not_queued: "RR_queue s xs \<Longrightarrow> RR_ready p s \<Longrightarrow> p \<notin> set xs"
  using dlist_member_linked[of "run_links s" RunList "map RunLink xs" "RunLink p"]
  by (auto simp: RR_queue_def RR_ready_def)

lemma RR_enqueue_queue:
  assumes q: "RR_queue s xs" and r: "RR_ready p s"
  shows "\<exists>s'. RR_enqueue p s = Some s' \<and> RR_queue s' (xs @ [p]) \<and> same_control s s' \<and>
    (\<forall>x. x \<noteq> p \<longrightarrow> RR_ready x s \<longrightarrow> RR_ready x s')"
proof -
  have p: "p \<notin> set xs" using RR_ready_not_queued[OF q r] .
  have d: "dlist (run_links s) RunList (map RunLink xs)" using q by (simp add: RR_queue_def)
  let ?h = "list_add_before (run_links s) RunList (RunLink p)"
  have d': "dlist ?h RunList (map RunLink (xs @ [p]))" using lh.push_back[OF d, of "RunLink p"] p by auto
  have fr: "next_of ?h (RunLink x) = next_of (run_links s) (RunLink x)" if "x \<notin> set xs" "x \<noteq> p" for x
    using dlist_add_before_frame(1)[OF d, of "RunLink x" "RunLink p"] that by auto
  obtain s' where s': "RR_enqueue p s = Some s'"
    using r by (auto simp: RR_enqueue_def RR_ready_def kassert_def Let_def)
  then have f: "run_links s' = ?h" "proc_num s' = u32 (Suc (proc_num s))"
    "\<forall>x. p_rq (procs s' x) = (if x = p then Some () else p_rq (procs s x))" "same_control s s'"
    using r by (auto simp: RR_enqueue_def RR_ready_def kassert_def Let_def same_control_def)
  have "RR_queue s' (xs @ [p])" using q d' f(1-3) by (auto simp: RR_queue_def)
  moreover have "RR_ready x s'" if "x \<noteq> p" "RR_ready x s" for x
    using that fr[of x] RR_ready_not_queued[OF q that(2)] by (simp add: RR_ready_def list_empty_def f(1))
  ultimately show ?thesis using s' f(4) by blast
qed

lemma RR_pick_first:
  assumes "RR_queue s xs"
  shows "RR_pick_next s = (case xs of [] \<Rightarrow> None | x # _ \<Rightarrow> Some x, s)"
  using lh.first[of "run_links s" RunList "map RunLink xs"] assms
  by (cases xs) (simp_all add: RR_pick_next_def RR_queue_def)

lemma RR_dequeue_first:
  assumes q: "RR_queue s (p # xs)"
  shows "\<exists>s'. RR_dequeue p s = Some s' \<and> RR_queue s' xs \<and> same_control s s' \<and> RR_ready p s' \<and>
    (\<forall>x. RR_ready x s \<longrightarrow> RR_ready x s')"
proof -
  have d: "dlist (run_links s) RunList ([] @ RunLink p # map RunLink xs)" using q by (simp add: RR_queue_def)
  have ne: "\<not> list_empty (run_links s) (RunLink p)" using dlist_member_linked[OF d] by simp
  let ?h = "list_del_init (run_links s) (RunLink p)"
  have d': "dlist ?h RunList (map RunLink xs)" "list_empty ?h (RunLink p)"
    using dlist_del_init(1)[OF d] dlist_empty_iff[OF dlist_del_init(2)[OF d]] by simp_all
  obtain s' where s': "RR_dequeue p s = Some s'"
    using ne q by (auto simp: RR_dequeue_def kassert_def Let_def RR_queue_def)
  then have f: "run_links s' = ?h" "proc_num s' = u32_minus (proc_num s) 1" "procs s' = procs s" "same_control s s'"
    using ne q by (auto simp: RR_dequeue_def kassert_def Let_def RR_queue_def same_control_def)
  have "RR_queue s' xs" using q d' f(1-3) by (simp add: RR_queue_def)
  moreover have "RR_ready x s'" if "RR_ready x s" for x
  proof -
    have "x \<notin> set (p # xs)" using RR_ready_not_queued[OF q that] .
    then show ?thesis using that dlist_del_init_frame(1)[OF d, of "RunLink x"]
      by (auto simp: RR_ready_def list_empty_def f(1))
  qed
  moreover have "RR_ready p s'" using d'(2) by (simp add: RR_ready_def f(1))
  ultimately show ?thesis using s' f(4) by blast
qed

interpretation rr: sched_policy default_sched_class RR_inv RR_ready
proof (unfold_locales, goal_cases)
  case (1 s Q p)
  then show ?case using RR_enqueue_queue[of s _ p] by (auto simp: RR_inv_def default_sched_class_def) fastforce
next
  case (2 s)
  then show ?case using RR_pick_first[of s "[]"] by (auto simp: RR_inv_def default_sched_class_def)
next
  case (3 s Q)
  then obtain p xs where q: "RR_queue s (p # xs)" "set (p # xs) = Q"
    unfolding RR_inv_def by (metis list.exhaust set_empty)
  have "p \<notin> set xs" using q(1) dlist_distinct[of "run_links s" RunList "map RunLink (p # xs)"]
    by (auto simp: RR_queue_def)
  then show ?case using RR_dequeue_first[OF q(1)] RR_pick_first[OF q(1)] q(2)
    by (auto simp: RR_inv_def default_sched_class_def)
next
  case (4 s Q p)
  then show ?case
    by (auto simp: default_sched_class_def RR_proc_tick_def RR_inv_def RR_queue_def RR_ready_def same_control_def Let_def)
next
  case (5 s' s Q p)
  then show ?case by (auto simp: queue_part_def RR_inv_def RR_queue_def RR_ready_def fun_eq_iff)
qed

subsection \<open>Round robin\<close>

text \<open>Process \<open>c\<close> runs, the runnable processes \<open>xs\<close> wait in this order.\<close>

definition RR_state :: "'a sched_scheme \<Rightarrow> nat \<Rightarrow> nat list \<Rightarrow> bool" where
  "RR_state s c xs \<longleftrightarrow> RR_queue s xs \<and> current s = Some c \<and> RR_ready c s \<and>
     (\<forall>p\<in>set (c # xs). pstate (procs s p) = PROC_RUNNABLE \<and> Some p \<noteq> idleproc s)"

fun schedules :: "nat \<Rightarrow> 'a sched_scheme \<Rightarrow> 'a sched_scheme option" where
  "schedules 0 s = Some s"
| "schedules (Suc k) s = do { s' \<leftarrow> schedule default_sched_class s; schedules k s' }"

lemma RR_queue_cong:
  assumes "queue_part s' = queue_part s"
  shows "RR_queue s' xs = RR_queue s xs" "RR_ready p s' = RR_ready p s"
  using assms by (auto simp: queue_part_def RR_queue_def RR_ready_def fun_eq_iff)

lemma RR_schedule_step:
  assumes "RR_state s c xs" "xs @ [c] = n # ys"
  shows "\<exists>s'. schedule default_sched_class s = Some s' \<and> RR_state s' n ys"
proof -
  let ?s1 = "upd_proc c (\<lambda>q. q\<lparr>need_resched := False\<rparr>) s"
  have st: "RR_queue s xs" "current s = Some c" "RR_ready c s"
    "\<forall>p\<in>set (c # xs). pstate (procs s p) = PROC_RUNNABLE \<and> Some p \<noteq> idleproc s"
    using assms(1) by (auto simp: RR_state_def)
  have q1: "RR_queue ?s1 xs" "RR_ready c ?s1"
    using st(1,3) by (simp_all add: RR_queue_cong[OF rr.control_update_cong(2)])
  obtain s2 where s2: "RR_enqueue c ?s1 = Some s2" "RR_queue s2 (n # ys)" "same_control ?s1 s2"
    using RR_enqueue_queue[OF q1] assms(2) by auto
  obtain s3 where s3: "RR_dequeue n s2 = Some s3" "RR_queue s3 ys" "same_control s2 s3" "RR_ready n s3"
    using RR_dequeue_first[OF s2(2)] by blast
  have ctrl: "current s3 = Some c" "idleproc s3 = idleproc s" "\<forall>p. pstate (procs s3 p) = pstate (procs s p)"
    "idleproc s2 = idleproc s"
    using s2(3) s3(3) st(2) by (auto simp: same_control_def)
  let ?s5 = "upd_proc n (\<lambda>q. q\<lparr>runs := runs q + 1\<rparr>) s3"
  have "schedule default_sched_class s = Some (proc_run n ?s5)"
    using st s2(1) s3(1) RR_pick_first[OF s2(2)] ctrl
    by (auto simp: schedule_def Let_def default_sched_class_def sched_class_enqueue_def
        sched_class_pick_next_def sched_class_dequeue_def proc_run_def)
  moreover have "RR_queue (proc_run n ?s5) ys" "RR_ready n (proc_run n ?s5)"
    using s3(2,4) by (simp_all add: RR_queue_cong[OF rr.control_update_cong(4)] RR_queue_cong[OF rr.control_update_cong(3)])
  moreover have "set (n # ys) = set (c # xs)" unfolding assms(2)[symmetric] by auto
  ultimately show ?thesis using st(4) ctrl unfolding RR_state_def by auto
qed

lemma mset_rotate: "mset (rotate k xs) = mset xs"
proof (induction k)
  case (Suc k)
  then show ?case by (cases "rotate k xs") auto
qed simp

lemma RR_rotates: "RR_state s c xs \<Longrightarrow> rotate k (c # xs) = d # ys \<Longrightarrow> \<exists>s'. schedules k s = Some s' \<and> RR_state s' d ys"
proof (induction k arbitrary: s c xs)
  case (Suc k)
  obtain e zs where e: "xs @ [c] = e # zs" by (cases "xs @ [c]") auto
  then have "rotate k (e # zs) = d # ys" using Suc.prems(2) by (simp add: rotate1_rotate_swap rotate_Suc)
  then show ?case using RR_schedule_step[OF Suc.prems(1) e] Suc.IH[of _ e zs] by auto
qed simp

subsection \<open>Properties\<close>

text \<open>
  C17. Round robin is fair: while the runnable processes stay the same, the k-th call of
  schedule from now runs the k-th process of the cycle made of the running process and the
  queue, so every waiting process runs after at most as many switches as there are waiting
  processes before it; schedule never fails.
\<close>

theorem rr_fair:
  assumes "RR_state s c xs" and "j < length (c # xs)"
  shows "\<exists>s' ys. schedules j s = Some s' \<and> current s' = Some ((c # xs) ! j) \<and>
    RR_state s' ((c # xs) ! j) ys \<and> mset ((c # xs) ! j # ys) = mset (c # xs)"
proof -
  obtain d ys where d: "rotate j (c # xs) = d # ys" by (metis list.exhaust rotate_is_Nil_conv list.distinct(1))
  have "d = hd (rotate j (c # xs))" using d by simp
  then have "d = (c # xs) ! j" using assms(2) by (simp add: hd_rotate_conv_nth)
  moreover have "mset (d # ys) = mset (c # xs)" using d by (metis mset_rotate)
  ultimately show ?thesis using RR_rotates[OF assms(1) d] by (auto simp: RR_state_def)
qed

theorem rr_fair_witness:
  "let s0 = (sched_init default_sched_class boot_sched)\<lparr>current := Some 1\<rparr>;
       s1 = upd_proc 1 (\<lambda>q. q\<lparr>pstate := PROC_RUNNABLE\<rparr>) s0
   in \<exists>s2 s3. wakeup_proc default_sched_class 2 s1 = Some s2 \<and> schedules 1 s2 = Some s3 \<and> current s3 = Some 2"
proof -
  define s0 where "s0 = (sched_init default_sched_class boot_sched)\<lparr>current := Some 1\<rparr>"
  define s1 where "s1 = upd_proc 2 (\<lambda>q. q\<lparr>pstate := PROC_RUNNABLE, wait_state := 0\<rparr>)
    (upd_proc 1 (\<lambda>q. q\<lparr>pstate := PROC_RUNNABLE\<rparr>) s0)"
  have "RR_queue s1 []" "RR_ready 2 s1" "RR_ready 1 s1"
    by (simp_all add: s1_def s0_def RR_queue_def RR_ready_def boot_sched_def sched_init_def Let_def
        default_sched_class_def RR_init_def dlist_Nil_iff list_empty_def list_init_def u32_def)
  then obtain s2 where s2: "RR_enqueue 2 s1 = Some s2" "RR_queue s2 [2]" "same_control s1 s2" "RR_ready 1 s2"
    using RR_enqueue_queue[of s1 "[]" 2] by auto
  have "RR_state s2 1 [2]"
    using s2 by (auto simp: RR_state_def same_control_def s1_def s0_def sched_init_def Let_def
        default_sched_class_def RR_init_def boot_sched_def)
  from rr_fair[OF this, of 1] have "\<exists>s3. schedules 1 s2 = Some s3 \<and> current s3 = Some 2" by auto
  moreover have "wakeup_proc default_sched_class 2 (upd_proc 1 (\<lambda>q. q\<lparr>pstate := PROC_RUNNABLE\<rparr>) s0) = Some s2"
    using s2(1) by (simp add: wakeup_proc_def sched_class_enqueue_def s1_def s0_def sched_init_def Let_def
        default_sched_class_def RR_init_def boot_sched_def alloc_proc_fields_def kassert_def)
  ultimately show ?thesis by (auto simp: Let_def s0_def)
qed

text \<open>
  C18. Under round robin schedule and wakeup_proc keep the scheduler's invariant, by which the
  run queue holds exactly the runnable processes other than the running one and idle, so no
  wake-up is lost. schedule returns; it switches to a process of the queue or to the old one
  when that is runnable, loads that process's page table, and runs idle only when nothing
  else is runnable.
\<close>

theorem rr_schedule_safe:
  assumes "sched_inv RR_inv RR_ready s" and "current s = Some c" and "idleproc s = Some i"
    and "finite (runq s)" and "card (insert c (runq s)) < 2 ^ 32"
    and "pstate (procs s p) = PROC_SLEEPING"
  shows "(\<exists>s' n. schedule default_sched_class s = Some s' \<and> sched_inv RR_inv RR_ready s' \<and>
      current s' = Some n \<and> pstate (procs s' n) = PROC_RUNNABLE \<and>
      (n = i \<longleftrightarrow> runq s = {} \<and> (pstate (procs s c) = PROC_RUNNABLE \<longrightarrow> c = i)) \<and>
      (n \<noteq> c \<longrightarrow> satp s' = lsatp (pgdir (procs s n)))) \<and>
    (\<exists>s'. wakeup_proc default_sched_class p s = Some s' \<and> sched_inv RR_inv RR_ready s' \<and>
      pstate (procs s' p) = PROC_RUNNABLE \<and> (p = c \<or> p \<in> runq s'))"
proof
  let ?Q = "if pstate (procs s c) = PROC_RUNNABLE \<and> i \<noteq> c then insert c (runq s) else runq s"
  obtain s' n where s': "schedule default_sched_class s = Some s'" "sched_inv RR_inv RR_ready s'"
    "current s' = Some n" "n \<in> insert i ?Q" "n = i \<longleftrightarrow> ?Q = {}" "n \<noteq> c \<longrightarrow> satp s' = lsatp (pgdir (procs s n))"
    "\<forall>p. pstate (procs s' p) = pstate (procs s p)"
    using rr.schedule_ok[OF assms(1-3,5,4)] by blast
  moreover have "pstate (procs s' n) = PROC_RUNNABLE"
    using s'(4,7) assms(1,3) by (auto simp: runq_def sched_inv_def split: if_splits)
  moreover have "?Q = {} \<longleftrightarrow> runq s = {} \<and> (pstate (procs s c) = PROC_RUNNABLE \<longrightarrow> c = i)" by auto
  ultimately show "\<exists>s' n. schedule default_sched_class s = Some s' \<and> sched_inv RR_inv RR_ready s' \<and>
      current s' = Some n \<and> pstate (procs s' n) = PROC_RUNNABLE \<and>
      (n = i \<longleftrightarrow> runq s = {} \<and> (pstate (procs s c) = PROC_RUNNABLE \<longrightarrow> c = i)) \<and>
      (n \<noteq> c \<longrightarrow> satp s' = lsatp (pgdir (procs s n)))" by blast
next
  have "Some p \<noteq> idleproc s" using assms(1,6) by (auto simp: sched_inv_def)
  then show "\<exists>s'. wakeup_proc default_sched_class p s = Some s' \<and> sched_inv RR_inv RR_ready s' \<and>
      pstate (procs s' p) = PROC_RUNNABLE \<and> (p = c \<or> p \<in> runq s')"
    using rr.wakeup_proc_ok[OF assms(1), of p] assms(2,6) by (auto split: if_splits)
qed

theorem rr_schedule_safe_witness:
  "let s = upd_proc 3 (\<lambda>q. q\<lparr>pstate := PROC_SLEEPING\<rparr>) (sched_init default_sched_class boot_sched)
   in \<exists>s'. wakeup_proc default_sched_class 3 s = Some s' \<and> 3 \<in> runq s' \<and> sched_inv RR_inv RR_ready s'"
proof -
  let ?s = "upd_proc 3 (\<lambda>q. q\<lparr>pstate := PROC_SLEEPING\<rparr>) (sched_init default_sched_class boot_sched)"
  have q: "RR_queue ?s []" "\<forall>p. RR_ready p ?s" and rq: "runq ?s = {}"
    by (auto simp: RR_queue_def RR_ready_def boot_sched_def sched_init_def Let_def runq_def
        default_sched_class_def RR_init_def dlist_Nil_iff list_empty_def list_init_def u32_def alloc_proc_fields_def)
  have "sched_inv RR_inv RR_ready ?s"
    unfolding sched_inv_def rq RR_inv_def using q
    by (auto simp: boot_sched_def sched_init_def Let_def default_sched_class_def RR_init_def)
  moreover have "current ?s = Some 0" "idleproc ?s = Some 0"
    by (simp_all add: boot_sched_def sched_init_def Let_def default_sched_class_def RR_init_def)
  ultimately show ?thesis
    using rr_schedule_safe[of ?s 0 0 3] unfolding Let_def rq by auto
qed

end
