(* ===== verification/Timer.thy ===== *)
theory Timer
  imports RRSched
begin

text \<open>
  The timer list of \<^verbatim>\<open>kern/schedule/sched.c\<close>: each entry holds the number of ticks after its
  predecessor. The lemmas are about the deadlines these differences stand for.
\<close>

subsection \<open>Deadlines\<close>

fun deadlines :: "(nat \<Rightarrow> timer) \<Rightarrow> nat \<Rightarrow> nat list \<Rightarrow> (nat \<times> nat) list" where
  "deadlines tm a [] = []"
| "deadlines tm a (t # ts) = (t, a + expires (tm t)) # deadlines tm (a + expires (tm t)) ts"

definition timer_ring :: "'a sched_scheme \<Rightarrow> nat list \<Rightarrow> bool" where
  "timer_ring s ts \<longleftrightarrow> dlist (timer_links s) TimerList (map TimerLink ts)"

abbreviation delta_sum :: "(nat \<Rightarrow> timer) \<Rightarrow> nat list \<Rightarrow> nat" where
  "delta_sum tm ts \<equiv> sum_list (map (\<lambda>t. expires (tm t)) ts)"

lemma deadlines_append:
  "deadlines tm a (us @ vs) = deadlines tm a us @ deadlines tm (a + delta_sum tm us) vs"
  by (induction us arbitrary: a) (auto simp: add.assoc)

lemma deadlines_cong: "(\<And>t. t \<in> set ts \<Longrightarrow> expires (tm' t) = expires (tm t)) \<Longrightarrow> deadlines tm' a ts = deadlines tm a ts"
  by (induction ts arbitrary: a) auto

lemma deadlines_bound: "(t, d) \<in> set (deadlines tm a ts) \<Longrightarrow> a \<le> d \<and> t \<in> set ts \<and> d \<le> a + delta_sum tm ts"
  by (induction ts arbitrary: a) fastforce+

lemma map_fst_deadlines [simp]: "map fst (deadlines tm a ts) = ts"
  by (induction ts arbitrary: a) auto

lemma upd_timer_simps [simp]:
  "expires (upd_timer t f tm x) = (if x = t then f (expires (tm t)) else expires (tm x))"
  "timer_proc (upd_timer t f tm x) = timer_proc (tm x)"
  by (auto simp: upd_timer_def)

subsection \<open>Adding a timer\<close>

lemma add_timer_loop_ok:
  assumes "dlist h TimerList (map TimerLink (xs @ ys))" "t \<notin> set ys"
  shows "\<exists>us vs tm'. ys = us @ vs \<and>
    add_timer_loop h t (hd (map TimerLink ys @ [TimerList])) tm = Some (hd (map TimerLink vs @ [TimerList]), tm') \<and>
    delta_sum tm us \<le> expires (tm t) \<and> expires (tm' t) = expires (tm t) - delta_sum tm us \<and>
    (vs \<noteq> [] \<longrightarrow> expires (tm' t) < expires (tm (hd vs))) \<and>
    (\<forall>x. x \<noteq> t \<longrightarrow> expires (tm' x) = (if vs \<noteq> [] \<and> x = hd vs then expires (tm x) - expires (tm' t) else expires (tm x))) \<and>
    (\<forall>x. timer_proc (tm' x) = timer_proc (tm x))"
  using assms
proof (induction ys arbitrary: xs tm)
  case Nil
  then show ?case by (subst add_timer_loop.simps) auto
next
  case (Cons y ys)
  show ?case
  proof (cases "expires (tm t) < expires (tm y)")
    case True
    then show ?thesis using Cons.prems(2)
      by (subst add_timer_loop.simps) (rule exI[of _ "[]"], rule exI[of _ "y # ys"], auto)
  next
    case False
    let ?tm = "upd_timer t (\<lambda>e. e - expires (tm y)) tm"
    have nx: "list_next h (TimerLink y) = hd (map TimerLink ys @ [TimerList])"
      using dlist_next[of h TimerList "map TimerLink (xs @ [y])" "map TimerLink ys"] Cons.prems(1) by simp
    have pre: "dlist h TimerList (map TimerLink ((xs @ [y]) @ ys))" "t \<notin> set ys" using Cons.prems by simp_all
    obtain us vs tm' where ih: "ys = us @ vs"
      "add_timer_loop h t (hd (map TimerLink ys @ [TimerList])) ?tm = Some (hd (map TimerLink vs @ [TimerList]), tm')"
      "delta_sum ?tm us \<le> expires (?tm t)" "expires (tm' t) = expires (?tm t) - delta_sum ?tm us"
      "vs \<noteq> [] \<longrightarrow> expires (tm' t) < expires (?tm (hd vs))"
      "\<forall>x. x \<noteq> t \<longrightarrow> expires (tm' x) = (if vs \<noteq> [] \<and> x = hd vs then expires (?tm x) - expires (tm' t) else expires (?tm x))"
      "\<forall>x. timer_proc (tm' x) = timer_proc (?tm x)"
      using Cons.IH[OF pre, of ?tm] by blast
    have t: "t \<notin> set us" "t \<noteq> y" "vs \<noteq> [] \<longrightarrow> hd vs \<noteq> t" using Cons.prems(2) ih(1) by (cases vs; auto)+
    then have ds: "delta_sum ?tm us = delta_sum tm us" by (intro arg_cong[of _ _ sum_list] map_cong) auto
    have run: "add_timer_loop h t (hd (map TimerLink (y # ys) @ [TimerList])) tm = Some (hd (map TimerLink vs @ [TimerList]), tm')"
      using ih(2) False nx by (subst add_timer_loop.simps) simp
    have tmt: "expires (?tm t) = expires (tm t) - expires (tm y)"
      "\<And>x. x \<noteq> t \<Longrightarrow> expires (?tm x) = expires (tm x)" "\<And>x. timer_proc (?tm x) = timer_proc (tm x)"
      by simp_all
    show ?thesis
    proof (rule exI[of _ "y # us"], rule exI[of _ vs], rule exI[of _ tm'], intro conjI)
      show "vs \<noteq> [] \<longrightarrow> expires (tm' t) < expires (tm (hd vs))" using ih(5) t(3) tmt(2) by metis
      show "\<forall>x. x \<noteq> t \<longrightarrow> expires (tm' x) =
          (if vs \<noteq> [] \<and> x = hd vs then expires (tm x) - expires (tm' t) else expires (tm x))"
        using ih(6) tmt(2) by metis
    qed (use ih(1,3,4,7) False ds run in \<open>simp_all add: tmt\<close>)
  qed
qed

lemma deadlines_split:
  assumes "\<forall>x. x \<noteq> t \<longrightarrow> expires (tm' x) = (if vs \<noteq> [] \<and> x = hd vs then expires (tm x) - expires (tm' t) else expires (tm x))"
    "delta_sum tm us \<le> e" "expires (tm' t) = e - delta_sum tm us"
    "vs \<noteq> [] \<longrightarrow> expires (tm' t) < expires (tm (hd vs))" "t \<notin> set (us @ vs)" "distinct (us @ vs)"
  shows "deadlines tm' 0 (us @ t # vs) =
    deadlines tm 0 us @ (t, e) # deadlines tm (delta_sum tm us) vs"
proof -
  have us: "\<And>x. x \<in> set us \<Longrightarrow> expires (tm' x) = expires (tm x)"
    using assms(1,5,6) by (cases vs) auto
  then have "deadlines tm' 0 us = deadlines tm 0 us" "delta_sum tm' us = delta_sum tm us"
    by (auto intro: deadlines_cong arg_cong[of _ _ sum_list])
  moreover have "deadlines tm' e vs = deadlines tm (delta_sum tm us) vs"
  proof (cases vs)
    case (Cons v ws)
    then have "\<And>x. x \<in> set ws \<Longrightarrow> expires (tm' x) = expires (tm x)" "e + expires (tm' v) = delta_sum tm us + expires (tm v)"
      using assms by auto
    then show ?thesis using Cons by (auto intro: deadlines_cong)
  qed simp
  ultimately show ?thesis using assms(2,3) by (simp add: deadlines_append)
qed

lemma add_timer_ok:
  assumes ring: "timer_ring s ts" and t: "t \<notin> set ts" "list_empty (timer_links s) (TimerLink t)"
    and e: "expires (timers s t) = e" "0 < e" "timer_proc (timers s t) \<noteq> None"
  shows "\<exists>s' us vs. add_timer t s = Some s' \<and> ts = us @ vs \<and> timer_ring s' (us @ t # vs) \<and>
    deadlines (timers s') 0 (us @ t # vs) =
      deadlines (timers s) 0 us @ (t, e) # deadlines (timers s) (delta_sum (timers s) us) vs \<and>
    (\<forall>x d. (x, d) \<in> set (deadlines (timers s) 0 us) \<longrightarrow> d \<le> e) \<and>
    (\<forall>x d. (x, d) \<in> set (deadlines (timers s) (delta_sum (timers s) us) vs) \<longrightarrow> e < d) \<and>
    procs s' = procs s \<and> current s' = current s \<and> (\<forall>x. timer_proc (timers s' x) = timer_proc (timers s x))"
proof -
  have d: "dlist (timer_links s) TimerList (map TimerLink ([] @ ts))" using ring by (simp add: timer_ring_def)
  obtain us vs tm' where l: "ts = us @ vs"
    "add_timer_loop (timer_links s) t (hd (map TimerLink ts @ [TimerList])) (timers s) = Some (hd (map TimerLink vs @ [TimerList]), tm')"
    "delta_sum (timers s) us \<le> e" "expires (tm' t) = e - delta_sum (timers s) us"
    "vs \<noteq> [] \<longrightarrow> expires (tm' t) < expires (timers s (hd vs))"
    "\<forall>x. x \<noteq> t \<longrightarrow> expires (tm' x) = (if vs \<noteq> [] \<and> x = hd vs then expires (timers s x) - expires (tm' t) else expires (timers s x))"
    "\<forall>x. timer_proc (tm' x) = timer_proc (timers s x)"
    using add_timer_loop_ok[OF d t(1), of "timers s"] e(1) by blast
  have "list_next (timer_links s) TimerList = hd (map TimerLink ts @ [TimerList])"
    using dlist_next[of _ TimerList "[]" "map TimerLink ts"] d by simp
  then obtain s' where run: "add_timer t s = Some s'" "timers s' = tm'" "procs s' = procs s" "current s' = current s"
      "timer_links s' = list_add_before (timer_links s) (hd (map TimerLink vs @ [TimerList])) (TimerLink t)"
    using l(2) t(2) e by (simp add: add_timer_def kassert_def)
  have "dlist (list_add_before (timer_links s) (hd (map TimerLink vs @ [TimerList])) (TimerLink t)) TimerList
      (map TimerLink us @ TimerLink t # map TimerLink vs)"
    using d l(1) t(1) by (intro dlist_add_before) auto
  moreover have "distinct (us @ vs)" using dlist_distinct[OF d] l(1) by (auto simp: distinct_map)
  moreover have "e < d" if "(x, d) \<in> set (deadlines (timers s) (delta_sum (timers s) us) vs)" for x d
    using that l(3,4,5) deadlines_bound[of x d "timers s"] by (cases vs) (auto dest: deadlines_bound)
  moreover have "d \<le> e" if "(x, d) \<in> set (deadlines (timers s) 0 us)" for x d
    using deadlines_bound[OF that] l(3) by simp
  ultimately show ?thesis using run l(1,7) deadlines_split[OF l(6,3,4,5)] t(1)
    by - (rule exI[of _ s'], rule exI[of _ us], rule exI[of _ vs], simp add: timer_ring_def)
qed

subsection \<open>Deleting a timer\<close>

lemma del_timer_ok:
  assumes ring: "timer_ring s (us @ t # vs)" and b: "expires (timers s t) = 0 \<or> delta_sum (timers s) (us @ t # vs) < 2 ^ 32"
  shows "timer_ring (del_timer t s) (us @ vs) \<and>
    deadlines (timers (del_timer t s)) 0 (us @ vs) =
      deadlines (timers s) 0 us @ deadlines (timers s) (delta_sum (timers s) (us @ [t])) vs \<and>
    list_empty (timer_links (del_timer t s)) (TimerLink t) \<and>
    (expires (timers s t) = 0 \<longrightarrow> timers (del_timer t s) = timers s)"
proof -
  have d: "dlist (timer_links s) TimerList (map TimerLink us @ TimerLink t # map TimerLink vs)"
    using ring by (simp add: timer_ring_def)
  have ne: "\<not> list_empty (timer_links s) (TimerLink t)" by (rule dlist_member_linked[OF d]) simp
  have nx: "list_next (timer_links s) (TimerLink t) = hd (map TimerLink vs @ [TimerList])"
    using dlist_next[of _ TimerList "map TimerLink us @ [TimerLink t]" "map TimerLink vs"] d by simp
  let ?f = "if vs = [] \<or> expires (timers s t) = 0 then timers s
    else upd_timer (hd vs) (\<lambda>e. u32 (e + expires (timers s t))) (timers s)"
  have del: "timers (del_timer t s) = ?f" "timer_links (del_timer t s) = list_del_init (timer_links s) (TimerLink t)"
    using ne nx by (auto simp: del_timer_def Let_def split: timer_entry.splits) (cases vs; simp)+
  have dis: "distinct (us @ t # vs)" using dlist_distinct[OF d] by (auto simp: distinct_map)
  have "deadlines ?f 0 us = deadlines (timers s) 0 us" "delta_sum ?f us = delta_sum (timers s) us"
    using dis by (cases vs; auto intro!: deadlines_cong arg_cong[of _ _ sum_list])+
  moreover have "deadlines ?f (delta_sum (timers s) us) vs = deadlines (timers s) (delta_sum (timers s) (us @ [t])) vs"
  proof (cases vs)
    case (Cons v ws)
    then have "expires (timers s t) \<noteq> 0 \<Longrightarrow>
        u32 (expires (timers s v) + expires (timers s t)) = expires (timers s v) + expires (timers s t)"
      using b by simp
    moreover have "\<And>x. x \<in> set ws \<Longrightarrow> expires (?f x) = expires (timers s x)" using dis Cons by auto
    ultimately show ?thesis using Cons by (auto intro: deadlines_cong simp: add_ac)
  qed simp
  ultimately show ?thesis using dlist_del_init(1)[OF d] dlist_empty_iff[OF dlist_del_init(2)[OF d]] del
    by (auto simp: timer_ring_def deadlines_append)
qed

lemma del_timer_control [simp]:
  "procs (del_timer t s) = procs s" "current (del_timer t s) = current s" "idleproc (del_timer t s) = idleproc s"
  "queue_part (del_timer t s) = queue_part s" "runq (del_timer t s) = runq s"
  by (auto simp: del_timer_def Let_def queue_part_def runq_def split: timer_entry.splits)

subsection \<open>Running the timers\<close>

definition timer_procs_ok :: "'a sched_scheme \<Rightarrow> nat list \<Rightarrow> bool" where
  "timer_procs_ok s ts \<longleftrightarrow> (\<forall>t\<in>set ts. \<exists>p. timer_proc (timers s t) = Some p \<and>
     pstate (procs s p) \<noteq> PROC_UNINIT \<and> pstate (procs s p) \<noteq> PROC_ZOMBIE \<and>
     (wait_state (procs s p) = 0 \<or> wait_state (procs s p) AND WT_INTERRUPTED \<noteq> 0))"

text \<open>Dropping the timers that have run out, seen on the deadlines.\<close>

lemma deadlines_dropWhile:
  "deadlines tm 0 (dropWhile (\<lambda>x. expires (tm x) = 0) ts) = filter (\<lambda>(x, d). 0 < d) (deadlines tm 0 ts)"
proof (induction ts)
  case (Cons t ts)
  have "filter (\<lambda>(x, d). 0 < d) (deadlines tm a us) = deadlines tm a us" if "0 < a" for a us
    using that by (intro filter_True) (auto dest: deadlines_bound)
  with Cons show ?case by simp
qed simp

lemma deadlines_takeWhile:
  "x \<in> set (takeWhile (\<lambda>x. expires (tm x) = 0) ts) \<longleftrightarrow> (x, 0) \<in> set (deadlines tm 0 ts)"
proof (induction ts)
  case (Cons t ts)
  then show ?case by (cases "expires (tm t) = 0") (auto dest: deadlines_bound)
qed simp

lemma deadlines_last: "xs \<noteq> [] \<Longrightarrow> (last xs, a + delta_sum tm xs) \<in> set (deadlines tm a xs)"
  by (induction xs arbitrary: a) (auto simp flip: add.assoc)

lemma deadlines_tick:
  assumes "expires (tm t) \<noteq> 0" "t \<notin> set ts"
  shows "deadlines (upd_timer t (\<lambda>e. e - 1) tm) 0 (t # ts) = map (\<lambda>(x, d). (x, d - 1)) (deadlines tm 0 (t # ts))"
proof -
  have "map (\<lambda>(x, d). (x, d - 1)) (deadlines tm (Suc a) us) = deadlines tm a us" for a us
    by (induction us arbitrary: a) auto
  moreover have "deadlines (upd_timer t (\<lambda>e. e - 1) tm) a ts = deadlines tm a ts" for a
    using assms(2) by (intro deadlines_cong) auto
  ultimately show ?thesis using assms(1) by (cases "expires (tm t)") auto
qed

context sched_policy
begin

lemma sched_inv_cong:
  assumes "queue_part s' = queue_part s" "procs s' = procs s" "current s' = current s" "idleproc s' = idleproc s"
  shows "sched_inv qinv ready s' = sched_inv qinv ready s"
proof -
  have "runq s' = runq s" using assms by (simp add: runq_def)
  then show ?thesis using queue_cong[OF assms(1)] assms(2-) by (simp add: sched_inv_def)
qed

text \<open>One round of the loop: the process of a timer that has run out is woken, the timer removed.\<close>

lemma run_timers_step:
  assumes inv: "sched_inv qinv ready s" and ring: "timer_ring s (t # ts)" and ok: "timer_procs_ok s (t # ts)"
    and zero: "expires (timers s t) = 0"
  shows "\<exists>p s2. timer_proc (timers s t) = Some p \<and>
    run_timers_loop cls t s = (case ts of [] \<Rightarrow> Some s2 | n # _ \<Rightarrow> run_timers_loop cls n s2) \<and>
    sched_inv qinv ready s2 \<and> timer_ring s2 ts \<and> timer_procs_ok s2 ts \<and> timers s2 = timers s \<and>
    current s2 = current s \<and> idleproc s2 = idleproc s \<and> pstate (procs s2 p) = PROC_RUNNABLE \<and>
    (\<forall>q. q \<noteq> p \<longrightarrow> pstate (procs s2 q) = pstate (procs s q))"
proof -
  obtain p where p: "timer_proc (timers s t) = Some p" "pstate (procs s p) \<noteq> PROC_UNINIT" "pstate (procs s p) \<noteq> PROC_ZOMBIE"
    "wait_state (procs s p) = 0 \<or> wait_state (procs s p) AND WT_INTERRUPTED \<noteq> 0"
    using ok by (auto simp: timer_procs_ok_def)
  obtain s1 where s1: "wakeup_proc cls p s = Some s1" "sched_inv qinv ready s1" "pstate (procs s1 p) = PROC_RUNNABLE"
    "current s1 = current s" "idleproc s1 = idleproc s" "timers s1 = timers s" "timer_links s1 = timer_links s"
    "\<forall>q. q \<noteq> p \<longrightarrow> pstate (procs s1 q) = pstate (procs s q) \<and> wait_state (procs s1 q) = wait_state (procs s q)"
    "wait_state (procs s1 p) = 0 \<or> wait_state (procs s1 p) = wait_state (procs s p)"
    using wakeup_proc_ok[OF inv p(3)] p(2) by auto
  have nx: "list_next (timer_links s) (TimerLink t) = hd (map TimerLink ts @ [TimerList])"
    using dlist_next[of "timer_links s" TimerList "[TimerLink t]" "map TimerLink ts"] ring by (simp add: timer_ring_def)
  let ?s2 = "del_timer t s1"
  have "run_timers_loop cls t s = (case ts of [] \<Rightarrow> Some ?s2 | n # _ \<Rightarrow> run_timers_loop cls n ?s2)"
    using zero p s1(1) nx by (subst run_timers_loop.simps) (auto simp: kassert_def Let_def split: list.splits)
  moreover have "timer_ring ?s2 ts" "timers ?s2 = timers s"
    using del_timer_ok[of s1 "[]" t ts] ring s1(6,7) zero by (auto simp: timer_ring_def)
  moreover have "sched_inv qinv ready ?s2" using s1(2) sched_inv_cong[of ?s2 s1] by simp
  moreover have "pstate (procs s1 q) \<noteq> PROC_UNINIT \<and> pstate (procs s1 q) \<noteq> PROC_ZOMBIE \<and>
      (wait_state (procs s1 q) = 0 \<or> wait_state (procs s1 q) AND WT_INTERRUPTED \<noteq> 0)"
    if "pstate (procs s q) \<noteq> PROC_UNINIT" "pstate (procs s q) \<noteq> PROC_ZOMBIE"
      "wait_state (procs s q) = 0 \<or> wait_state (procs s q) AND WT_INTERRUPTED \<noteq> 0" for q
    using that s1(3,8,9) by (cases "q = p") auto
  then have "timer_procs_ok ?s2 ts" using ok calculation(3) by (fastforce simp: timer_procs_ok_def)
  ultimately show ?thesis using p(1) s1(3,4,5,8) by (intro exI[of _ p] exI[of _ ?s2]) simp
qed

lemma run_timers_loop_ok:
  assumes "sched_inv qinv ready s" "timer_ring s (t # ts)" "timer_procs_ok s (t # ts)"
  shows "\<exists>s'. run_timers_loop cls t s = Some s' \<and> sched_inv qinv ready s' \<and>
    timer_ring s' (dropWhile (\<lambda>x. expires (timers s x) = 0) (t # ts)) \<and>
    timers s' = timers s \<and> current s' = current s \<and> idleproc s' = idleproc s \<and>
    (\<forall>x\<in>set (takeWhile (\<lambda>x. expires (timers s x) = 0) (t # ts)). \<exists>p. timer_proc (timers s x) = Some p \<and>
       pstate (procs s' p) = PROC_RUNNABLE) \<and>
    (\<forall>p. pstate (procs s' p) = pstate (procs s p) \<or> pstate (procs s' p) = PROC_RUNNABLE)"
  using assms
proof (induction ts arbitrary: t s)
  case Nil
  show ?case
  proof (cases "expires (timers s t) = 0")
    case False
    then show ?thesis using Nil by (subst run_timers_loop.simps) simp
  next
    case True
    from run_timers_step[OF Nil True] show ?thesis using True by auto metis
  qed
next
  case (Cons u ts)
  show ?case
  proof (cases "expires (timers s t) = 0")
    case False
    then show ?thesis using Cons.prems by (subst run_timers_loop.simps) simp
  next
    case True
    obtain p s2 where s2: "timer_proc (timers s t) = Some p"
      "run_timers_loop cls t s = run_timers_loop cls u s2" "sched_inv qinv ready s2" "timer_ring s2 (u # ts)"
      "timer_procs_ok s2 (u # ts)" "timers s2 = timers s" "current s2 = current s" "idleproc s2 = idleproc s"
      "pstate (procs s2 p) = PROC_RUNNABLE" "\<forall>q. q \<noteq> p \<longrightarrow> pstate (procs s2 q) = pstate (procs s q)"
      using run_timers_step[OF Cons.prems True] by auto
    have st: "\<forall>q. pstate (procs s2 q) = pstate (procs s q) \<or> pstate (procs s2 q) = PROC_RUNNABLE"
      using s2(9,10) by metis
    from Cons.IH[OF s2(3-5)] obtain s' where s': "run_timers_loop cls u s2 = Some s'" "sched_inv qinv ready s'"
      "timer_ring s' (dropWhile (\<lambda>x. expires (timers s x) = 0) (u # ts))" "timers s' = timers s"
      "current s' = current s" "idleproc s' = idleproc s"
      "\<forall>x\<in>set (takeWhile (\<lambda>x. expires (timers s x) = 0) (u # ts)). \<exists>p. timer_proc (timers s x) = Some p \<and>
         pstate (procs s' p) = PROC_RUNNABLE"
      "\<forall>p. pstate (procs s' p) = pstate (procs s2 p) \<or> pstate (procs s' p) = PROC_RUNNABLE"
      unfolding s2(6-8) by blast
    have "pstate (procs s' p) = PROC_RUNNABLE" using s'(8) s2(9) by metis
    moreover have "\<forall>p. pstate (procs s' p) = pstate (procs s p) \<or> pstate (procs s' p) = PROC_RUNNABLE"
      using s'(8) st by metis
    ultimately show ?thesis using s' s2(1,2) True by (intro exI[of _ s']) (simp del: dropWhile.simps(2) add: dropWhile.simps(2)[of _ t])
  qed
qed

lemma tick_current_ok:
  assumes "sched_inv qinv ready s"
  shows "sched_inv qinv ready (sched_class_proc_tick cls c s) \<and> same_control s (sched_class_proc_tick cls c s)"
proof -
  have "same_control s (sched_class_proc_tick cls c s)"
    using tick_ok[of s "runq s" c] assms
    by (auto simp: sched_class_proc_tick_def sched_inv_def same_control_def)
  moreover have "qinv (sched_class_proc_tick cls c s) (runq s) \<and> (\<forall>q. ready q s \<longrightarrow> ready q (sched_class_proc_tick cls c s))"
    using tick_ok[of s "runq s" c] assms
    by (auto simp: sched_class_proc_tick_def sched_inv_def queue_cong[OF control_update_cong(2)])
  moreover have rq: "runq (sched_class_proc_tick cls c s) = runq s"
    using same_control_runq[OF calculation(1)] .
  ultimately show ?thesis using assms unfolding sched_inv_def rq by (auto simp: same_control_def)
qed

lemma run_timer_list_ok:
  assumes inv: "sched_inv qinv ready s" and ring: "timer_ring s ts" and ok: "timer_procs_ok s ts"
    and pos: "\<forall>(x, d)\<in>set (deadlines (timers s) 0 ts). 0 < d"
  shows "\<exists>s' ts'. run_timer_list cls s = Some s' \<and> sched_inv qinv ready s' \<and> timer_ring s' ts' \<and>
    deadlines (timers s') 0 ts' = map (\<lambda>(x, d). (x, d - 1)) (filter (\<lambda>(x, d). 1 < d) (deadlines (timers s) 0 ts)) \<and>
    (\<forall>x. (x, 1) \<in> set (deadlines (timers s) 0 ts) \<longrightarrow>
       (\<exists>p. timer_proc (timers s x) = Some p \<and> pstate (procs s' p) = PROC_RUNNABLE))"
proof -
  obtain c where c: "current s = Some c" using inv by (auto simp: sched_inv_def)
  have first: "list_next (timer_links s) TimerList = hd (map TimerLink ts @ [TimerList])"
    using dlist_next[of "timer_links s" TimerList "[]" "map TimerLink ts"] ring by (simp add: timer_ring_def)
  show ?thesis
  proof (cases ts)
    case Nil
    then have "run_timer_list cls s = Some (sched_class_proc_tick cls c s)"
      using first c by (simp add: run_timer_list_def)
    then show ?thesis using tick_current_ok[OF inv, of c] ring Nil
      by (auto simp: same_control_def timer_ring_def intro!: exI[of _ "[]"])
  next
    case (Cons t us)
    have t: "expires (timers s t) \<noteq> 0" "t \<notin> set us"
      using pos ring dlist_distinct[of "timer_links s" TimerList "map TimerLink ts"] Cons
      by (auto simp: timer_ring_def)
    let ?s1 = "s\<lparr>timers := upd_timer t (\<lambda>e. e - 1) (timers s)\<rparr>"
    let ?Z = "\<lambda>x. expires (timers ?s1 x) = 0"
    have dl: "deadlines (timers ?s1) 0 (t # us) = map (\<lambda>(x, d). (x, d - 1)) (deadlines (timers s) 0 ts)"
      using deadlines_tick[of "timers s", OF t] Cons by simp
    have "sched_inv qinv ready ?s1" using inv sched_inv_cong[of ?s1 s] by (simp add: queue_part_def)
    moreover have "timer_ring ?s1 (t # us)" "timer_procs_ok ?s1 (t # us)"
      using ring ok Cons by (auto simp: timer_ring_def timer_procs_ok_def)
    ultimately obtain s' where s': "run_timers_loop cls t ?s1 = Some s'" "sched_inv qinv ready s'"
      "timer_ring s' (dropWhile ?Z (t # us))" "timers s' = timers ?s1" "current s' = Some c"
      "\<forall>x\<in>set (takeWhile ?Z (t # us)). \<exists>p. timer_proc (timers ?s1 x) = Some p \<and> pstate (procs s' p) = PROC_RUNNABLE"
      using run_timers_loop_ok[of ?s1 t us] c by auto
    let ?s2 = "sched_class_proc_tick cls c s'"
    have s2: "sched_inv qinv ready ?s2" "timer_ring ?s2 (dropWhile ?Z (t # us))" "timers ?s2 = timers ?s1"
      "\<forall>p. pstate (procs ?s2 p) = pstate (procs s' p)"
      using tick_current_ok[OF s'(2), of c] s'(3,4) by (auto simp: same_control_def timer_ring_def)
    have "run_timer_list cls s = Some ?s2"
      using first Cons t(1) s'(1,5) by (simp add: run_timer_list_def kassert_def)
    moreover have "deadlines (timers ?s2) 0 (dropWhile ?Z (t # us)) =
        map (\<lambda>(x, d). (x, d - 1)) (filter (\<lambda>(x, d). 1 < d) (deadlines (timers s) 0 ts))"
      unfolding s2(3) deadlines_dropWhile dl filter_map
      by (intro arg_cong[of _ _ "map _"] filter_cong) (auto simp: comp_def)
    moreover have "\<exists>p. timer_proc (timers s x) = Some p \<and> pstate (procs ?s2 p) = PROC_RUNNABLE"
      if "(x, 1) \<in> set (deadlines (timers s) 0 ts)" for x
    proof -
      have "(x, 0) \<in> set (deadlines (timers ?s1) 0 (t # us))" unfolding dl using that by force
      then have "x \<in> set (takeWhile ?Z (t # us))" unfolding deadlines_takeWhile .
      with s'(6) have "\<exists>p. timer_proc (timers ?s1 x) = Some p \<and> pstate (procs s' p) = PROC_RUNNABLE" by blast
      then show ?thesis using s2(4) by simp
    qed
    ultimately show ?thesis using s2(1,2) by blast
  qed
qed

end

subsection \<open>Properties\<close>

text \<open>
  add_timer returns and inserts the new timer, due in the requested number of ticks,
  behind those due earlier or at the same time and before those due later, leaving the
  deadline of every other timer unchanged; del_timer then removes it and restores the list
  of deadlines.
\<close>

lemma timer_add_del:
  assumes "timer_ring s ts" and "t \<notin> set ts" and "list_empty (timer_links s) (TimerLink t)"
    and "expires (timers s t) = e" and "0 < e" and "e < 2 ^ 32" and "timer_proc (timers s t) \<noteq> None"
    and "\<forall>(x, d)\<in>set (deadlines (timers s) 0 ts). d < 2 ^ 32"
  shows "\<exists>s' us vs D1 D2. add_timer t s = Some s' \<and> ts = us @ vs \<and> timer_ring s' (us @ t # vs) \<and>
    deadlines (timers s) 0 ts = D1 @ D2 \<and> deadlines (timers s') 0 (us @ t # vs) = D1 @ (t, e) # D2 \<and>
    (\<forall>x d. (x, d) \<in> set D1 \<longrightarrow> d \<le> e) \<and> (\<forall>x d. (x, d) \<in> set D2 \<longrightarrow> e < d) \<and>
    timer_ring (del_timer t s') ts \<and> deadlines (timers (del_timer t s')) 0 ts = deadlines (timers s) 0 ts"
proof -
  obtain s' us vs where a: "add_timer t s = Some s'" "ts = us @ vs" "timer_ring s' (us @ t # vs)"
    "deadlines (timers s') 0 (us @ t # vs) =
      deadlines (timers s) 0 us @ (t, e) # deadlines (timers s) (delta_sum (timers s) us) vs"
    "\<forall>x d. (x, d) \<in> set (deadlines (timers s) 0 us) \<longrightarrow> d \<le> e"
    "\<forall>x d. (x, d) \<in> set (deadlines (timers s) (delta_sum (timers s) us) vs) \<longrightarrow> e < d"
    using add_timer_ok[OF assms(1-5,7)] by blast
  have "delta_sum (timers s') (us @ t # vs) < 2 ^ 32"
  proof -
    from deadlines_last[of "us @ t # vs" 0 "timers s'"]
    have "(last (us @ t # vs), delta_sum (timers s') (us @ t # vs)) \<in>
        set (deadlines (timers s) 0 us @ (t, e) # deadlines (timers s) (delta_sum (timers s) us) vs)"
      unfolding a(4) by simp
    then show ?thesis using assms(6,8) unfolding a(2) deadlines_append by auto
  qed
  moreover have "deadlines (timers s') (delta_sum (timers s') (us @ [t])) vs = deadlines (timers s) (delta_sum (timers s) us) vs \<and>
     deadlines (timers s') 0 us = deadlines (timers s) 0 us"
  proof -
    have "length (deadlines (timers s') 0 us) = length (deadlines (timers s) 0 us)"
      by (metis length_map map_fst_deadlines)
    then show ?thesis using a(4) by (auto simp: deadlines_append)
  qed
  ultimately have "timer_ring (del_timer t s') ts" "deadlines (timers (del_timer t s')) 0 ts = deadlines (timers s) 0 ts"
    using del_timer_ok[OF a(3)] a(2) by (simp_all add: deadlines_append)
  moreover have "deadlines (timers s) 0 ts = deadlines (timers s) 0 us @ deadlines (timers s) (delta_sum (timers s) us) vs"
    using a(2) by (simp add: deadlines_append)
  ultimately show ?thesis using a by blast
qed

text \<open>
  C19. A clock tick returns: every timer comes one tick nearer, those due now are removed and
  their processes are runnable, and the scheduler's invariant holds again.
\<close>

theorem run_timer_list_correct:
  assumes "sched_inv RR_inv RR_ready s" and "timer_ring s ts" and "timer_procs_ok s ts"
    and "\<forall>(x, d)\<in>set (deadlines (timers s) 0 ts). 0 < d"
  shows "\<exists>s' ts'. run_timer_list default_sched_class s = Some s' \<and> sched_inv RR_inv RR_ready s' \<and>
    timer_ring s' ts' \<and>
    deadlines (timers s') 0 ts' = map (\<lambda>(x, d). (x, d - 1)) (filter (\<lambda>(x, d). 1 < d) (deadlines (timers s) 0 ts)) \<and>
    (\<forall>x. (x, 1) \<in> set (deadlines (timers s) 0 ts) \<longrightarrow>
       (\<exists>p. timer_proc (timers s x) = Some p \<and> pstate (procs s' p) = PROC_RUNNABLE))"
  using assms by (rule rr.run_timer_list_ok)

theorem run_timer_list_correct_witness:
  "let s0 = timer_init 4 3 1 (upd_proc 3 (\<lambda>q. q\<lparr>pstate := PROC_SLEEPING, wait_state := WT_TIMER\<rparr>)
              (sched_init default_sched_class boot_sched))
   in \<exists>s1 s2. add_timer 4 s0 = Some s1 \<and> run_timer_list default_sched_class s1 = Some s2 \<and>
        pstate (procs s2 3) = PROC_RUNNABLE \<and> timer_ring s2 []"
proof -
  define s0 where "s0 = timer_init 4 3 1 (upd_proc 3 (\<lambda>q. q\<lparr>pstate := PROC_SLEEPING, wait_state := WT_TIMER\<rparr>)
              (sched_init default_sched_class boot_sched))"
  note defs = s0_def timer_init_def sched_init_def Let_def list_init_def list_empty_def
    default_sched_class_def RR_init_def boot_sched_def alloc_proc_fields_def
  have ring: "timer_ring s0 []" by (simp add: timer_ring_def dlist_Nil_iff defs)
  have pre: "list_empty (timer_links s0) (TimerLink 4)" "expires (timers s0 4) = 1" "timer_proc (timers s0 4) = Some 3"
    "pstate (procs s0 3) = PROC_SLEEPING" "wait_state (procs s0 3) = WT_TIMER"
    "current s0 = Some 0" "idleproc s0 = Some 0" "\<forall>q. q \<noteq> 3 \<longrightarrow> q \<noteq> 0 \<longrightarrow> pstate (procs s0 q) = PROC_UNINIT"
    "pstate (procs s0 0) = PROC_RUNNABLE"
    by (simp_all add: defs)
  have q: "RR_queue s0 []" "\<forall>p. RR_ready p s0"
    by (simp_all add: RR_queue_def RR_ready_def dlist_Nil_iff u32_def defs)
  obtain s1 where s1: "add_timer 4 s0 = Some s1" "timer_ring s1 [4]" "deadlines (timers s1) 0 [4] = [(4, 1)]"
    "procs s1 = procs s0" "current s1 = current s0" "timer_proc (timers s1 4) = Some 3"
    using add_timer_ok[OF ring _ pre(1,2)] pre(3) by auto
  have qp: "queue_part s1 = queue_part s0" "idleproc s1 = idleproc s0"
    using s1(1) by (auto simp: add_timer_def queue_part_def kassert_def split: if_splits option.splits bind_splits)
  have "pstate (procs s0 q) \<noteq> PROC_RUNNABLE" if "q \<noteq> 0" for q using that pre(4,8) by (cases "q = 3") auto
  then have "runq s0 = {}" using pre(7) by (auto simp: runq_def)
  then have "sched_inv RR_inv RR_ready s0" using q pre by (auto simp: sched_inv_def RR_inv_def)
  then have "sched_inv RR_inv RR_ready s1" using rr.sched_inv_cong[OF qp(1) s1(4,5) qp(2)] by simp
  moreover have "timer_procs_ok s1 [4]"
    using s1(4,6) pre(4,5) by (simp add: timer_procs_ok_def WT_TIMER_def WT_INTERRUPTED_def)
  ultimately obtain s2 ts' where "run_timer_list default_sched_class s1 = Some s2" "timer_ring s2 ts'"
    "deadlines (timers s2) 0 ts' = []" "pstate (procs s2 3) = PROC_RUNNABLE"
    using run_timer_list_correct[of s1 "[4]"] s1(2,3,6) by auto
  moreover from this have "ts' = []" by (cases ts') auto
  ultimately show ?thesis using s1(1) unfolding Let_def s0_def[symmetric] by blast
qed

end
