(* ===== verification/ProcTable.thy ===== *)
theory ProcTable
  imports Sched
begin

text \<open>
  The process table of \<^verbatim>\<open>kern/process/proc.c\<close>: the ring of all processes, the hash
  chains by process number, the allocation of process numbers and the links between
  parents and children.

  The two rings are heaps of their own, as the run queue is. The static variables of
  \<^verbatim>\<open>get_pid\<close> are part of the state. The loops follow links and are partial functions.
\<close>

unbundle bit_operations_syntax

subsection \<open>State\<close>

definition MAX_PROCESS :: int where "MAX_PROCESS = 4096"
definition MAX_PID :: int where "MAX_PID = MAX_PROCESS * 2"
definition PROC_NAME_LEN :: nat where "PROC_NAME_LEN = 15"

datatype plink = ProcList | ProcLink nat
datatype hlink = HashList nat | HashLink nat

record ptable = sched +
  proc_links :: "plink list_heap"
  hash_links :: "hlink list_heap"
  nr_process :: int
  next_safe :: int
  last_pid :: int
  live_procs :: "nat set"

subsection \<open>Names, links and numbers\<close>

text \<open>
  \<^verbatim>\<open>set_proc_name\<close> copies 15 bytes, whatever the length of the string; \<open>nm\<close> are the
  bytes at the address given.
\<close>

definition set_proc_name :: "nat \<Rightarrow> string \<Rightarrow> 'a ptable_scheme \<Rightarrow> 'a ptable_scheme" where
  "set_proc_name p nm s = upd_proc p (\<lambda>q. q\<lparr>pname := take PROC_NAME_LEN nm\<rparr>) s"

definition get_proc_name :: "nat \<Rightarrow> 'a ptable_scheme \<Rightarrow> string" where
  "get_proc_name p s = take PROC_NAME_LEN (pname (procs s p))"

definition set_links :: "nat \<Rightarrow> 'a ptable_scheme \<Rightarrow> 'a ptable_scheme option" where
  "set_links p s =
     do { let s1 = s\<lparr>proc_links := list_add (proc_links s) ProcList (ProcLink p)\<rparr>;
          let s2 = upd_proc p (\<lambda>q. q\<lparr>yptr := None\<rparr>) s1;
          par \<leftarrow> parent_p (procs s2 p);
          let oc = cptr (procs s2 par);
          let s3 = upd_proc p (\<lambda>q. q\<lparr>optr := oc\<rparr>) s2;
          let s4 = (case oc of None \<Rightarrow> s3 | Some y \<Rightarrow> upd_proc y (\<lambda>q. q\<lparr>yptr := Some p\<rparr>) s3);
          let s5 = upd_proc par (\<lambda>q. q\<lparr>cptr := Some p\<rparr>) s4;
          Some (s5\<lparr>nr_process := nr_process s5 + 1\<rparr>) }"

definition remove_links :: "nat \<Rightarrow> 'a ptable_scheme \<Rightarrow> 'a ptable_scheme option" where
  "remove_links p s =
     do { let s1 = s\<lparr>proc_links := list_del (proc_links s) (ProcLink p)\<rparr>;
          let s2 = (case optr (procs s1 p) of
                      None \<Rightarrow> s1
                    | Some oc \<Rightarrow> upd_proc oc (\<lambda>q. q\<lparr>yptr := yptr (procs s1 p)\<rparr>) s1);
          s3 \<leftarrow> (case yptr (procs s2 p) of
                    Some y \<Rightarrow> Some (upd_proc y (\<lambda>q. q\<lparr>optr := optr (procs s2 p)\<rparr>) s2)
                  | None \<Rightarrow> do { par \<leftarrow> parent_p (procs s2 p);
                                Some (upd_proc par (\<lambda>q. q\<lparr>cptr := optr (procs s2 p)\<rparr>) s2) });
          Some (s3\<lparr>nr_process := nr_process s3 - 1\<rparr>) }"

text \<open>
  The scan of \<^verbatim>\<open>get_pid\<close> from the entry \<open>le\<close> on; \<^verbatim>\<open>goto repeat\<close> starts over at the
  header.
\<close>

partial_function (option) get_pid_loop :: "'a ptable_scheme \<Rightarrow> plink \<Rightarrow> int \<Rightarrow> int \<Rightarrow> (int \<times> int) option" where
  "get_pid_loop s le lst nxt =
     (case list_next (proc_links s) le of
        ProcList \<Rightarrow> Some (lst, nxt)
      | ProcLink p \<Rightarrow>
          if pid (procs s p) = lst then
            if lst + 1 \<ge> nxt
            then get_pid_loop s ProcList (if lst + 1 \<ge> MAX_PID then 1 else lst + 1) MAX_PID
            else get_pid_loop s (ProcLink p) (lst + 1) nxt
          else if pid (procs s p) > lst \<and> nxt > pid (procs s p)
          then get_pid_loop s (ProcLink p) lst (pid (procs s p))
          else get_pid_loop s (ProcLink p) lst nxt)"

definition get_pid :: "'a ptable_scheme \<Rightarrow> (int \<times> 'a ptable_scheme) option" where
  "get_pid s =
     do { let lst = last_pid s + 1;
          (l, n) \<leftarrow> (if lst \<ge> MAX_PID then get_pid_loop s ProcList 1 MAX_PID
                      else if lst \<ge> next_safe s then get_pid_loop s ProcList lst MAX_PID
                      else Some (lst, next_safe s));
          Some (l, s\<lparr>last_pid := l, next_safe := n\<rparr>) }"

subsection \<open>The hash chains\<close>

definition HASH_SHIFT :: nat where "HASH_SHIFT = 10"
definition HASH_LIST_SIZE :: nat where "HASH_LIST_SIZE = push_bit HASH_SHIFT 1"

definition pid_hashfn :: "int \<Rightarrow> nat" where
  "pid_hashfn x = unat (hash32 (word_of_int x) HASH_SHIFT)"

definition hash_proc :: "nat \<Rightarrow> 'a ptable_scheme \<Rightarrow> 'a ptable_scheme" where
  "hash_proc p s = s\<lparr>hash_links :=
     list_add (hash_links s) (HashList (pid_hashfn (pid (procs s p)))) (HashLink p)\<rparr>"

definition unhash_proc :: "nat \<Rightarrow> 'a ptable_scheme \<Rightarrow> 'a ptable_scheme" where
  "unhash_proc p s = s\<lparr>hash_links := list_del (hash_links s) (HashLink p)\<rparr>"

partial_function (option) find_proc_loop :: "'a ptable_scheme \<Rightarrow> hlink \<Rightarrow> int \<Rightarrow> nat option option" where
  "find_proc_loop s le pd =
     (case list_next (hash_links s) le of
        HashList _ \<Rightarrow> Some None
      | HashLink p \<Rightarrow> if pid (procs s p) = pd then Some (Some p) else find_proc_loop s (HashLink p) pd)"

definition find_proc :: "int \<Rightarrow> 'a ptable_scheme \<Rightarrow> nat option option" where
  "find_proc pd s =
     (if 0 < pd \<and> pd < MAX_PID then find_proc_loop s (HashList (pid_hashfn pd)) pd else Some None)"

subsection \<open>Creating a process\<close>

definition CLONE_VM :: "32 word" where "CLONE_VM = 0x00000100"
definition CLONE_FS :: "32 word" where "CLONE_FS = 0x00000800"

definition KSTACKSIZE :: "64 word" where "KSTACKSIZE = 2 * 4096"
definition TRAPFRAME_BYTES :: "64 word" where "TRAPFRAME_BYTES = 36 * 8"

text \<open>The fields of a new block, its links included.\<close>

definition init_block :: "64 word \<Rightarrow> nat \<Rightarrow> 'a sched_scheme \<Rightarrow> 'a sched_scheme" where
  "init_block boot_pgdir_pa p s =
     s\<lparr>procs := (procs s)(p := alloc_proc_fields boot_pgdir_pa (exit_code (procs s p))),
       run_links := list_init (run_links s) (RunLink p),
       pool_links := (pool_links s)\<lparr>parent := (parent (pool_links s))(p := None),
                                    left := (left (pool_links s))(p := None),
                                    right := (right (pool_links s))(p := None)\<rparr>\<rparr>"

text \<open>
  What \<^verbatim>\<open>do_fork\<close> asks of the memory and the file components: a block from \<^verbatim>\<open>kmalloc\<close>, the
  kernel stack, the address space, the table of open files, and how they are given back.
\<close>

record 's fork_res =
  fr_kmalloc :: "'s \<Rightarrow> nat option \<times> 's"
  fr_kfree :: "nat \<Rightarrow> 's \<Rightarrow> 's"
  fr_setup_kstack :: "nat \<Rightarrow> 's \<Rightarrow> int \<times> 's"
  fr_put_kstack :: "nat \<Rightarrow> 's \<Rightarrow> 's"
  fr_copy_mm :: "32 word \<Rightarrow> nat \<Rightarrow> 's \<Rightarrow> int \<times> 's"
  fr_copy_files :: "32 word \<Rightarrow> nat \<Rightarrow> 's \<Rightarrow> int \<times> 's"
  fr_put_files :: "nat \<Rightarrow> 's \<Rightarrow> 's"

definition alloc_proc :: "'a ptable_scheme fork_res \<Rightarrow> 64 word \<Rightarrow> 'a ptable_scheme \<Rightarrow> nat option \<times> 'a ptable_scheme" where
  "alloc_proc R boot_pgdir_pa s =
     (case fr_kmalloc R s of
        (None, s1) \<Rightarrow> (None, s1)
      | (Some p, s1) \<Rightarrow> (Some p, init_block boot_pgdir_pa p s1))"

definition copy_thread :: "64 word \<Rightarrow> nat \<Rightarrow> 64 word \<Rightarrow> trapframe \<Rightarrow> 'a ptable_scheme \<Rightarrow> 'a ptable_scheme" where
  "copy_thread forkret p esp frame s =
     (let tfa = kstack (procs s p) + KSTACKSIZE - TRAPFRAME_BYTES;
          f1 = frame\<lparr>gpr := (gpr frame)(10 := 0)\<rparr>;
          f2 = f1\<lparr>gpr := (gpr f1)(2 := if esp = 0 then tfa else esp)\<rparr>
      in upd_proc p (\<lambda>q. q\<lparr>tf := Some f2, pcontext := (pcontext q)\<lparr>ctx_ra := forkret, ctx_sp := tfa\<rparr>\<rparr>) s)"

text \<open>The part of \<^verbatim>\<open>do_fork\<close> that runs with interrupts off.\<close>

definition fork_register :: "nat \<Rightarrow> 'a ptable_scheme \<Rightarrow> 'a ptable_scheme option" where
  "fork_register p s =
     do { (pd, s1) \<leftarrow> get_pid s;
          set_links p (hash_proc p (upd_proc p (\<lambda>q. q\<lparr>pid := pd\<rparr>) s1)) }"

definition do_fork ::
  "'a ptable_scheme sched_class \<Rightarrow> 'a ptable_scheme fork_res \<Rightarrow> 64 word \<Rightarrow> 64 word \<Rightarrow>
   32 word \<Rightarrow> 64 word \<Rightarrow> trapframe \<Rightarrow> 'a ptable_scheme \<Rightarrow> (int \<times> 'a ptable_scheme) option" where
  "do_fork cls R boot_pgdir_pa forkret clone_flags stack frame s =
     (if nr_process s \<ge> MAX_PROCESS then Some (- E_NO_FREE_PROC, s)
      else case alloc_proc R boot_pgdir_pa s of
        (None, s1) \<Rightarrow> Some (- E_NO_MEM, s1)
      | (Some p, s1) \<Rightarrow>
          do { c \<leftarrow> current s1;
               let s2 = upd_proc p (\<lambda>q. q\<lparr>parent_p := Some c\<rparr>) s1;
               kassert (wait_state (procs s2 c) = 0);
               let (r, s3) = fr_setup_kstack R p s2;
               if r \<noteq> 0 then Some (- E_NO_MEM, fr_kfree R p s3) else
               do { let (r, s4) = fr_copy_mm R clone_flags p s3;
                    if r \<noteq> 0 then Some (- E_NO_MEM, fr_kfree R p (fr_put_kstack R p s4)) else
                    do { let (r, s5) = fr_copy_files R clone_flags p s4;
                         if r \<noteq> 0
                         then Some (- E_NO_MEM, fr_kfree R p (fr_put_kstack R p (fr_put_files R p s5)))
                         else do { s6 \<leftarrow> fork_register p (copy_thread forkret p stack frame s5);
                                   s7 \<leftarrow> wakeup_proc cls p s6;
                                   Some (pid (procs s7 p), s7) } } } })"

text \<open>\<^verbatim>\<open>kernel_thread\<close>: \<open>sstatus\<close> is the value read from the register; 0x100, 0x20 and 0x2 are
  \<^verbatim>\<open>SSTATUS_SPP\<close>, \<^verbatim>\<open>SSTATUS_SPIE\<close> and \<^verbatim>\<open>SSTATUS_SIE\<close>.\<close>

definition kernel_thread ::
  "'a ptable_scheme sched_class \<Rightarrow> 'a ptable_scheme fork_res \<Rightarrow> 64 word \<Rightarrow> 64 word \<Rightarrow> 64 word \<Rightarrow> 64 word \<Rightarrow>
   64 word \<Rightarrow> 64 word \<Rightarrow> 32 word \<Rightarrow> 'a ptable_scheme \<Rightarrow> (int \<times> 'a ptable_scheme) option" where
  "kernel_thread cls R boot_pgdir_pa forkret entry sstatus fn arg clone_flags s =
     do_fork cls R boot_pgdir_pa forkret (clone_flags OR CLONE_VM) 0
       \<lparr>gpr = (\<lambda>_. 0)(8 := fn, 9 := arg), status = (sstatus OR 0x100 OR 0x20) AND NOT 0x2,
        epc = entry, tval = 0, cause = 0\<rparr> s"

subsection \<open>Ending, waiting and killing\<close>

text \<open>
  The part of \<^verbatim>\<open>do_exit\<close> that hands the children of the process \<open>c\<close> over to the
  initial process \<open>i\<close>: one turn of the loop moves the child \<open>p\<close>.
\<close>

definition hand_over :: "nat \<Rightarrow> nat \<Rightarrow> nat \<Rightarrow> 'a ptable_scheme \<Rightarrow> 'a ptable_scheme" where
  "hand_over c p i s =
     (let s1 = upd_proc c (\<lambda>q. q\<lparr>cptr := optr (procs s p)\<rparr>) s;
          s2 = upd_proc p (\<lambda>q. q\<lparr>yptr := None\<rparr>) s1;
          ic = cptr (procs s2 i);
          s3 = upd_proc p (\<lambda>q. q\<lparr>optr := ic\<rparr>) s2;
          s4 = (case ic of None \<Rightarrow> s3 | Some y \<Rightarrow> upd_proc y (\<lambda>q. q\<lparr>yptr := Some p\<rparr>) s3);
          s5 = upd_proc p (\<lambda>q. q\<lparr>parent_p := Some i\<rparr>) s4
      in upd_proc i (\<lambda>q. q\<lparr>cptr := Some p\<rparr>) s5)"

partial_function (option) reparent_loop ::
  "'a ptable_scheme sched_class \<Rightarrow> nat \<Rightarrow> nat \<Rightarrow> 'a ptable_scheme \<Rightarrow> 'a ptable_scheme option" where
  "reparent_loop cls c i s =
     (case cptr (procs s c) of
        None \<Rightarrow> Some s
      | Some p \<Rightarrow>
          do { let s1 = hand_over c p i s;
               s2 \<leftarrow> (if pstate (procs s1 p) = PROC_ZOMBIE \<and> wait_state (procs s1 i) = WT_CHILD
                         then wakeup_proc cls i s1 else Some s1);
               reparent_loop cls c i s2 })"

text \<open>The end of \<^verbatim>\<open>do_exit\<close>, after the memory and the files have been released.\<close>

definition exit_finish :: "'a ptable_scheme sched_class \<Rightarrow> int \<Rightarrow> 'a ptable_scheme \<Rightarrow> 'a ptable_scheme option" where
  "exit_finish cls error_code s =
     do { c \<leftarrow> current s;
          i \<leftarrow> initproc s;
          let s1 = upd_proc c (\<lambda>q. q\<lparr>pstate := PROC_ZOMBIE, exit_code := error_code\<rparr>) s;
          par \<leftarrow> parent_p (procs s1 c);
          s2 \<leftarrow> (if wait_state (procs s1 par) = WT_CHILD then wakeup_proc cls par s1 else Some s1);
          s3 \<leftarrow> reparent_loop cls c i s2;
          schedule cls s3 }"

text \<open>
  \<^verbatim>\<open>do_exit\<close>: \<open>drop_mm\<close> gives up one reference to the address space and \<open>put_files\<close> the
  process's share of its open files.
\<close>

definition do_exit ::
  "'a ptable_scheme sched_class \<Rightarrow> (nat \<Rightarrow> 'a ptable_scheme \<Rightarrow> 'a ptable_scheme option) \<Rightarrow>
   (nat \<Rightarrow> 'a ptable_scheme \<Rightarrow> 'a ptable_scheme option) \<Rightarrow> 64 word \<Rightarrow> int \<Rightarrow>
   'a ptable_scheme \<Rightarrow> 'a ptable_scheme option" where
  "do_exit cls drop_mm put_files boot_pgdir_pa error_code s =
     do { c \<leftarrow> current s;
          kassert (Some c \<noteq> idleproc s);
          kassert (Some c \<noteq> initproc s);
          s1 \<leftarrow> (case mm (procs s c) of
                    None \<Rightarrow> Some s
                  | Some m \<Rightarrow>
                      do { s1 \<leftarrow> drop_mm m (s\<lparr>satp := lsatp boot_pgdir_pa\<rparr>);
                           put_files c (upd_proc c (\<lambda>q. q\<lparr>mm := None\<rparr>) s1) });
          exit_finish cls error_code s1 }"

definition do_yield :: "'a ptable_scheme \<Rightarrow> (int \<times> 'a ptable_scheme) option" where
  "do_yield s = do { c \<leftarrow> current s; Some (0, upd_proc c (\<lambda>q. q\<lparr>need_resched := True\<rparr>) s) }"

definition do_kill :: "'a ptable_scheme sched_class \<Rightarrow> int \<Rightarrow> 'a ptable_scheme \<Rightarrow> (int \<times> 'a ptable_scheme) option" where
  "do_kill cls pd s =
     do { r \<leftarrow> find_proc pd s;
          case r of
            None \<Rightarrow> Some (- E_INVAL, s)
          | Some p \<Rightarrow>
              if pflags (procs s p) AND PF_EXITING = 0 then
                do { let s1 = upd_proc p (\<lambda>q. q\<lparr>pflags := pflags q OR PF_EXITING\<rparr>) s;
                     s2 \<leftarrow> (if wait_state (procs s1 p) AND WT_INTERRUPTED \<noteq> 0
                               then wakeup_proc cls p s1 else Some s1);
                     Some (0, s2) }
              else Some (- E_KILLED, s) }"

text \<open>
  The search of \<^verbatim>\<open>do_wait\<close> for a child that has ended: whether there is a child at
  all, and the child found.
\<close>

partial_function (option) wait_any_loop :: "'a ptable_scheme \<Rightarrow> nat option \<Rightarrow> bool \<Rightarrow> (bool \<times> nat option) option" where
  "wait_any_loop s p haskid =
     (case p of
        None \<Rightarrow> Some (haskid, None)
      | Some c \<Rightarrow> if pstate (procs s c) = PROC_ZOMBIE then Some (True, Some c)
                  else wait_any_loop s (optr (procs s c)) True)"

definition wait_find :: "int \<Rightarrow> 'a ptable_scheme \<Rightarrow> (bool \<times> nat option) option" where
  "wait_find pd s =
     do { c \<leftarrow> current s;
          if pd \<noteq> 0 then
            do { r \<leftarrow> find_proc pd s;
                 case r of
                   None \<Rightarrow> Some (False, None)
                 | Some p \<Rightarrow>
                     if parent_p (procs s p) = Some c
                     then Some (True, if pstate (procs s p) = PROC_ZOMBIE then Some p else None)
                     else Some (False, None) }
          else wait_any_loop s (cptr (procs s c)) False }"

text \<open>
  One round of \<^verbatim>\<open>do_wait\<close>: \<open>Inl\<close> of the result when it returns, \<open>Inr\<close> when the
  process goes to sleep and has to try again; the kernel stack of the child is
  released by the parameter \<open>put\<close>. The round ends where \<^verbatim>\<open>schedule\<close> is called: the test for
  \<^verbatim>\<open>PF_EXITING\<close> is made when the process runs again, before the next round. The exit code is
  part of the result, whether or not the caller gave an address to store it at.
\<close>

definition do_wait_round ::
  "'a ptable_scheme sched_class \<Rightarrow> (nat \<Rightarrow> 'a ptable_scheme \<Rightarrow> 'a ptable_scheme option) \<Rightarrow> int \<Rightarrow> 'a ptable_scheme \<Rightarrow>
   (((int \<times> int option) + unit) \<times> 'a ptable_scheme) option" where
  "do_wait_round cls put pd s =
     do { (haskid, r) \<leftarrow> wait_find pd s;
          case r of
            Some p \<Rightarrow>
              do { kassert (\<not> (Some p = idleproc s \<or> Some p = initproc s));
                   let code = exit_code (procs s p);
                   s1 \<leftarrow> remove_links p (unhash_proc p s);
                   s2 \<leftarrow> put p s1;
                   Some (Inl (0, Some code), s2\<lparr>live_procs := live_procs s2 - {p}\<rparr>) }
          | None \<Rightarrow>
              if haskid then
                do { c \<leftarrow> current s;
                     s1 \<leftarrow> schedule cls (upd_proc c (\<lambda>q. q\<lparr>pstate := PROC_SLEEPING, wait_state := WT_CHILD\<rparr>) s);
                     Some (Inr (), s1) }
              else Some (Inl (- E_BAD_PROC, None), s) }"

definition do_sleep_begin :: "'a ptable_scheme sched_class \<Rightarrow> nat \<Rightarrow> int \<Rightarrow> 'a ptable_scheme \<Rightarrow> (bool \<times> 'a ptable_scheme) option" where
  "do_sleep_begin cls t time s =
     (if time = 0 then Some (False, s)
      else do { c \<leftarrow> current s;
                let s1 = timer_init t c time s;
                let s2 = upd_proc c (\<lambda>q. q\<lparr>pstate := PROC_SLEEPING, wait_state := WT_TIMER\<rparr>) s1;
                s3 \<leftarrow> add_timer t s2;
                s4 \<leftarrow> schedule cls s3;
                Some (True, s4) })"

definition do_sleep_end :: "nat \<Rightarrow> 'a ptable_scheme \<Rightarrow> int \<times> 'a ptable_scheme" where
  "do_sleep_end t s = (0, del_timer t s)"

definition lab6_set_priority :: "32 word \<Rightarrow> 'a ptable_scheme \<Rightarrow> 'a ptable_scheme option" where
  "lab6_set_priority pr s =
     do { c \<leftarrow> current s;
          Some (upd_proc c (\<lambda>q. q\<lparr>lab6_priority := if pr = 0 then 1 else pr\<rparr>) s) }"

end
