(* ===== verification/ProcSpec.thy ===== *)
theory ProcSpec
  imports ProcTable
begin

text \<open>
  The process table, first part: the search of \<^verbatim>\<open>get_pid\<close> for a free process number, the
  family links between a process and its children, and what the end of \<^verbatim>\<open>do_exit\<close> does to
  them, under any scheduling policy.
\<close>

subsection \<open>Process numbers\<close>

abbreviation pids :: "'a ptable_scheme \<Rightarrow> nat list \<Rightarrow> int set" where
  "pids s ps \<equiv> (\<lambda>p. pid (procs s p)) ` set ps"

lemma plist_next:
  assumes "dlist h ProcList (map ProcLink (xs @ ys))"
  shows "list_next h (last (ProcList # map ProcLink xs)) = (case ys of [] \<Rightarrow> ProcList | y # _ \<Rightarrow> ProcLink y)"
  using dlist_next[of h ProcList "map ProcLink xs" "map ProcLink ys"] assms
  by (cases ys) (simp_all del: last.simps)

lemma last_plink: "last (ProcList # map ProcLink (xs @ [y])) = ProcLink y"
  by simp

text \<open>The distance from a candidate to a free number \<open>v\<close>, going upwards and around.\<close>

definition pid_dist :: "int \<Rightarrow> int \<Rightarrow> nat" where
  "pid_dist v l = nat (if l \<le> v then v - l else v - l + (MAX_PID - 1))"

lemma get_pid_loop_ok:
  assumes "dlist (proc_links s) ProcList (map ProcLink (xs @ ys))"
    and "1 \<le> v" "v < MAX_PID" "v \<notin> pids s (xs @ ys)"
    and "1 \<le> l" "l < n" "n \<le> MAX_PID" "\<forall>q\<in>pids s xs. q < l \<or> n \<le> q"
  shows "\<exists>l' n'. get_pid_loop s (last (ProcList # map ProcLink xs)) l n = Some (l', n') \<and>
    1 \<le> l' \<and> l' < n' \<and> n' \<le> MAX_PID \<and> (\<forall>q\<in>pids s (xs @ ys). q < l' \<or> n' \<le> q)"
  using assms
proof (induction "pid_dist v l" arbitrary: l n xs ys rule: less_induct)
  case less
  note outer = less.hyps
  from less.prems show ?case
  proof (induction ys arbitrary: xs n)
    case Nil
    then show ?case using plist_next[OF Nil(1)] by (subst get_pid_loop.simps) (simp del: last.simps)
  next
    case (Cons y ys)
    note nx = plist_next[OF Cons.prems(1)]
    have d: "dlist (proc_links s) ProcList (map ProcLink ((xs @ [y]) @ ys))" using Cons.prems(1) by simp
    have v: "v \<notin> pids s ((xs @ [y]) @ ys)" using Cons.prems(4) by simp
    have all: "set (xs @ y # ys) = set ((xs @ [y]) @ ys)" "set (xs @ y # ys) = set ([] @ (xs @ y # ys))" by auto
    consider (eq) "pid (procs s y) = l" | (mid) "l < pid (procs s y)" "pid (procs s y) < n"
      | (out) "pid (procs s y) \<noteq> l" "pid (procs s y) < l \<or> n \<le> pid (procs s y)" by linarith
    then show ?case
    proof cases
      case eq
      have lv: "l \<noteq> v" using Cons.prems(4) eq by auto
      show ?thesis
      proof (cases "l + 1 \<ge> n")
        case True
        define l1 where "l1 = (if l + 1 \<ge> MAX_PID then 1 else l + 1)"
        have less: "pid_dist v l1 < pid_dist v l"
          using lv Cons.prems(2,3,5-7) by (auto simp: pid_dist_def l1_def MAX_PID_def MAX_PROCESS_def)
        have l1: "1 \<le> l1" "l1 < MAX_PID" using Cons.prems(5) by (auto simp: l1_def MAX_PID_def MAX_PROCESS_def)
        have "\<exists>l' n'. get_pid_loop s (last (ProcList # map ProcLink [])) l1 MAX_PID = Some (l', n') \<and>
          1 \<le> l' \<and> l' < n' \<and> n' \<le> MAX_PID \<and> (\<forall>q\<in>pids s ([] @ xs @ y # ys). q < l' \<or> n' \<le> q)"
          by (rule outer[OF less]) (use Cons.prems l1 in auto)
        moreover have "get_pid_loop s (last (ProcList # map ProcLink xs)) l n = get_pid_loop s ProcList l1 MAX_PID"
          using nx eq True by (subst get_pid_loop.simps) (simp add: l1_def del: last.simps)
        ultimately show ?thesis by simp
      next
        case False
        have less: "pid_dist v (l + 1) < pid_dist v l"
          using lv False Cons.prems(2,3,5-7) by (auto simp: pid_dist_def MAX_PID_def MAX_PROCESS_def)
        have vis: "\<forall>q\<in>pids s (xs @ [y]). q < l + 1 \<or> n \<le> q" using Cons.prems(8) eq by force
        have "\<exists>l' n'. get_pid_loop s (last (ProcList # map ProcLink (xs @ [y]))) (l + 1) n = Some (l', n') \<and>
          1 \<le> l' \<and> l' < n' \<and> n' \<le> MAX_PID \<and> (\<forall>q\<in>pids s ((xs @ [y]) @ ys). q < l' \<or> n' \<le> q)"
          by (rule outer[OF less d Cons.prems(2,3) v _ _ Cons.prems(7) vis]) (use Cons.prems False in auto)
        moreover have "get_pid_loop s (last (ProcList # map ProcLink xs)) l n = get_pid_loop s (ProcLink y) (l + 1) n"
          using nx eq False by (subst get_pid_loop.simps) (simp del: last.simps)
        ultimately show ?thesis unfolding last_plink by simp
      qed
    next
      case mid
      have vis: "\<forall>q\<in>pids s (xs @ [y]). q < l \<or> pid (procs s y) \<le> q" using Cons.prems(8) mid by force
      have "\<exists>l' n'. get_pid_loop s (last (ProcList # map ProcLink (xs @ [y]))) l (pid (procs s y)) = Some (l', n') \<and>
          1 \<le> l' \<and> l' < n' \<and> n' \<le> MAX_PID \<and> (\<forall>q\<in>pids s ((xs @ [y]) @ ys). q < l' \<or> n' \<le> q)"
        by (rule Cons.IH[OF d Cons.prems(2,3) v Cons.prems(5) mid(1) _ vis]) (use Cons.prems mid in auto)
      moreover have "get_pid_loop s (last (ProcList # map ProcLink xs)) l n = get_pid_loop s (ProcLink y) l (pid (procs s y))"
        using nx mid by (subst get_pid_loop.simps) (simp del: last.simps)
      ultimately show ?thesis unfolding last_plink by simp
    next
      case out
      have vis: "\<forall>q\<in>pids s (xs @ [y]). q < l \<or> n \<le> q" using Cons.prems(8) out by auto
      have "\<exists>l' n'. get_pid_loop s (last (ProcList # map ProcLink (xs @ [y]))) l n = Some (l', n') \<and>
          1 \<le> l' \<and> l' < n' \<and> n' \<le> MAX_PID \<and> (\<forall>q\<in>pids s ((xs @ [y]) @ ys). q < l' \<or> n' \<le> q)"
        by (rule Cons.IH[OF d Cons.prems(2,3) v Cons.prems(5-7) vis])
      moreover have "get_pid_loop s (last (ProcList # map ProcLink xs)) l n = get_pid_loop s (ProcLink y) l n"
        using nx out by (subst get_pid_loop.simps) (auto simp del: last.simps)
      ultimately show ?thesis unfolding last_plink by simp
    qed
  qed
qed

text \<open>The numbers above the last one given out, up to \<open>next_safe\<close>, are free.\<close>

definition pid_ok :: "nat list \<Rightarrow> 'a ptable_scheme \<Rightarrow> bool" where
  "pid_ok ps s \<longleftrightarrow> 0 \<le> last_pid s \<and> last_pid s \<le> MAX_PID \<and> next_safe s \<le> MAX_PID \<and>
     (\<forall>q\<in>pids s ps. q \<le> last_pid s \<or> next_safe s \<le> q)"

lemma free_pid_exists:
  assumes "int (length ps) < MAX_PID - 1"
  shows "\<exists>v. 1 \<le> v \<and> v < MAX_PID \<and> v \<notin> pids s ps"
proof (rule ccontr)
  assume "\<not> ?thesis"
  then have "{1..<MAX_PID} \<subseteq> pids s ps" by auto
  then have "card {1..<MAX_PID} \<le> card (pids s ps)" by (intro card_mono) auto
  also have "\<dots> \<le> length ps" by (metis card_image_le card_length le_trans finite_set)
  finally have "card {1..<MAX_PID} \<le> length ps" .
  then have "nat (MAX_PID - 1) \<le> length ps" by simp
  then show False using assms by linarith
qed

lemma get_pid_ok:
  assumes d: "dlist (proc_links s) ProcList (map ProcLink ps)" and ok: "pid_ok ps s"
    and len: "int (length ps) < MAX_PID - 1"
  shows "\<exists>pd n. get_pid s = Some (pd, s\<lparr>last_pid := pd, next_safe := n\<rparr>) \<and> 1 \<le> pd \<and> pd < MAX_PID \<and> pd \<notin> pids s ps \<and>
    n \<le> MAX_PID \<and> (\<forall>q\<in>pids s ps. q \<le> pd \<or> n \<le> q)"
proof -
  obtain v where v: "1 \<le> v" "v < MAX_PID" "v \<notin> pids s ps" using free_pid_exists[OF len, of s] by blast
  define l where "l = (if last_pid s + 1 \<ge> MAX_PID then 1 else last_pid s + 1)"
  have l: "1 \<le> l" "l < MAX_PID" using ok by (auto simp: l_def pid_ok_def MAX_PID_def MAX_PROCESS_def)
  show ?thesis
  proof (cases "last_pid s + 1 \<ge> MAX_PID \<or> last_pid s + 1 \<ge> next_safe s")
    case True
    have "\<exists>l' n'. get_pid_loop s (last (ProcList # map ProcLink [])) l MAX_PID = Some (l', n') \<and>
      1 \<le> l' \<and> l' < n' \<and> n' \<le> MAX_PID \<and> (\<forall>q\<in>pids s ([] @ ps). q < l' \<or> n' \<le> q)"
      by (rule get_pid_loop_ok[of s "[]" ps v l MAX_PID]) (use d v l in auto)
    then obtain l' n' where r: "get_pid_loop s ProcList l MAX_PID = Some (l', n')" "1 \<le> l'" "l' < n'" "n' \<le> MAX_PID"
      "\<forall>q\<in>pids s ps. q < l' \<or> n' \<le> q" by auto
    have "get_pid s = Some (l', s\<lparr>last_pid := l', next_safe := n'\<rparr>)"
      using True r(1) by (auto simp: get_pid_def l_def Let_def)
    moreover have "l' \<notin> pids s ps" "l' < MAX_PID" using r(3-5) by force+
    moreover have "\<forall>q\<in>pids s ps. q \<le> l' \<or> n' \<le> q" using r(5) by force
    ultimately show ?thesis using r by blast
  next
    case False
    have "get_pid s = Some (l, s\<lparr>last_pid := l, next_safe := next_safe s\<rparr>)"
      using False by (auto simp: get_pid_def l_def Let_def)
    moreover have "l \<notin> pids s ps" "\<forall>q\<in>pids s ps. q \<le> l \<or> next_safe s \<le> q"
      using False ok by (fastforce simp: l_def pid_ok_def)+
    ultimately show ?thesis using l ok by - (rule exI[of _ l], rule exI[of _ "next_safe s"], simp add: pid_ok_def)
  qed
qed


subsection \<open>Parents and children\<close>

definition hd_or :: "'a list \<Rightarrow> 'a option \<Rightarrow> 'a option" where
  "hd_or xs e = (case xs of [] \<Rightarrow> e | x # _ \<Rightarrow> Some x)"

definition last_or :: "'a list \<Rightarrow> 'a option \<Rightarrow> 'a option" where
  "last_or xs y = (if xs = [] then y else Some (last xs))"

text \<open>The siblings \<open>cs\<close> from the youngest to the eldest, between \<open>y\<close> and \<open>e\<close>.\<close>

fun sib_chain :: "(nat \<Rightarrow> proc_struct) \<Rightarrow> nat option \<Rightarrow> nat list \<Rightarrow> nat option \<Rightarrow> bool" where
  "sib_chain P y [] e = True"
| "sib_chain P y (c # cs) e = (yptr (P c) = y \<and> optr (P c) = hd_or cs e \<and> sib_chain P (Some c) cs e)"

definition family :: "(nat \<Rightarrow> proc_struct) \<Rightarrow> nat \<Rightarrow> nat list \<Rightarrow> bool" where
  "family P q cs \<longleftrightarrow> cptr (P q) = hd_or cs None \<and> distinct cs \<and> q \<notin> set cs \<and>
     (\<forall>c\<in>set cs. parent_p (P c) = Some q) \<and> sib_chain P None cs None"

lemma hd_or_simps [simp]: "hd_or [] e = e" "hd_or (x # xs) e = Some x" "last_or [] y = y" "last_or (xs @ [x]) y = Some x"
  by (simp_all add: hd_or_def last_or_def)

lemma last_or_Cons [simp]: "last_or (x # xs) y = last_or xs (Some x)"
  by (simp add: last_or_def)

lemma hd_or_append: "hd_or (xs @ ys) e = hd_or xs (hd_or ys e)"
  by (cases xs) auto

lemma sib_chain_append:
  "sib_chain P y (us @ vs) e \<longleftrightarrow> sib_chain P y us (hd_or vs e) \<and> sib_chain P (last_or us y) vs e"
  by (induction us arbitrary: y) (auto simp: hd_or_append)

lemma sib_chain_cong:
  assumes "\<And>c. c \<in> set cs \<Longrightarrow> yptr (P' c) = yptr (P c) \<and> optr (P' c) = optr (P c)"
  shows "sib_chain P' y cs e = sib_chain P y cs e"
  using assms by (induction cs arbitrary: y) auto

lemma family_cong:
  assumes "cptr (P' q) = cptr (P q)"
    "\<And>c. c \<in> set cs \<Longrightarrow> yptr (P' c) = yptr (P c) \<and> optr (P' c) = optr (P c) \<and> parent_p (P' c) = parent_p (P c)"
  shows "family P' q cs = family P q cs"
  using assms sib_chain_cong[of cs P' P] by (auto simp: family_def)

lemma family_static:
  assumes "\<And>p. static_part (P' p) = static_part (P p)"
  shows "family P' q cs = family P q cs"
  using assms by (intro family_cong) (auto simp: static_part_def)

text \<open>A change of the end of a chain.\<close>

lemma sib_chain_end:
  assumes "sib_chain P y us e" "distinct us" "us \<noteq> []"
    "\<And>c. c \<in> set us \<Longrightarrow> c \<noteq> last us \<Longrightarrow> yptr (P' c) = yptr (P c) \<and> optr (P' c) = optr (P c)"
    "yptr (P' (last us)) = yptr (P (last us))" "optr (P' (last us)) = e'"
  shows "sib_chain P' y us e'"
  using assms(3,1,2,4-6)
proof (induction us arbitrary: y rule: list_nonempty_induct)
  case (cons x xs)
  have nx: "x \<noteq> last xs" using cons.hyps cons.prems(2) by auto
  have "sib_chain P' (Some x) xs e'"
    by (rule cons.IH) (use cons.prems cons.hyps in auto)
  then show ?case using cons.prems(1,3) cons.hyps nx
    by (auto simp: hd_or_def split: list.splits)
qed auto

text \<open>A change of the start of a chain.\<close>

lemma sib_chain_start:
  assumes "sib_chain P y vs e" "distinct vs" "vs \<noteq> []"
    "\<And>c. c \<in> set vs \<Longrightarrow> c \<noteq> hd vs \<Longrightarrow> yptr (P' c) = yptr (P c) \<and> optr (P' c) = optr (P c)"
    "optr (P' (hd vs)) = optr (P (hd vs))" "yptr (P' (hd vs)) = y'"
  shows "sib_chain P' y' vs e"
proof (cases vs)
  case (Cons x xs)
  have "sib_chain P' (Some x) xs e = sib_chain P (Some x) xs e"
    by (rule sib_chain_cong) (use assms(2,4) Cons in auto)
  then show ?thesis using assms Cons by auto
qed (use assms in simp)

subsection \<open>Adding and removing a child\<close>

text \<open>A child joins a family as its youngest; \<open>P\<close> and \<open>P'\<close> are the blocks before and after.\<close>

definition adopts :: "(nat \<Rightarrow> proc_struct) \<Rightarrow> nat \<Rightarrow> nat list \<Rightarrow> nat \<Rightarrow> (nat \<Rightarrow> proc_struct) \<Rightarrow> bool" where
  "adopts P q cs p P' \<longleftrightarrow>
     (\<forall>x. yptr (P' x) = (if x = p then None else if cs \<noteq> [] \<and> x = hd cs then Some p else yptr (P x))) \<and>
     (\<forall>x. optr (P' x) = (if x = p then hd_or cs None else optr (P x))) \<and>
     (\<forall>x. parent_p (P' x) = (if x = p then Some q else parent_p (P x))) \<and>
     cptr (P' q) = Some p"

lemma adopts_family:
  assumes fam: "family P q cs" and p: "p \<notin> set cs" "p \<noteq> q" and ad: "adopts P q cs p P'"
  shows "family P' q (p # cs)"
proof -
  have "sib_chain P' (Some p) cs None"
  proof (cases "cs = []")
    case False
    show ?thesis
      by (rule sib_chain_start[of P None]) (use fam False p ad in \<open>auto simp: family_def adopts_def\<close>)
  qed simp
  then show ?thesis using fam p ad by (auto simp: family_def adopts_def)
qed

lemma adopts_chain:
  assumes ad: "adopts P q cs p P'" and "p \<notin> set ds" "set ds \<inter> set cs = {}"
  shows "sib_chain P' y ds e = sib_chain P y ds e"
proof (rule sib_chain_cong)
  fix c assume c: "c \<in> set ds"
  then have "c \<noteq> p" "\<not> (cs \<noteq> [] \<and> c = hd cs)" using assms(2,3) by auto
  then show "yptr (P' c) = yptr (P c) \<and> optr (P' c) = optr (P c)" using ad unfolding adopts_def by auto
qed

lemma family_disjoint:
  assumes "family P q cs" "family P r ds" "r \<noteq> q"
  shows "set ds \<inter> set cs = {}"
  using assms by (fastforce simp: family_def)

lemma adopts_other:
  assumes fam: "family P q cs" "family P r ds" "r \<noteq> q" and p: "p \<notin> set ds" and ad: "adopts P q cs p P'"
    and cp: "cptr (P' r) = cptr (P r)"
  shows "family P' r ds"
  using fam(2) adopts_chain[OF ad p family_disjoint[OF fam]] cp ad p
  by (auto simp: family_def adopts_def)

text \<open>A child leaves its family.\<close>

definition leaves :: "(nat \<Rightarrow> proc_struct) \<Rightarrow> nat \<Rightarrow> nat list \<Rightarrow> nat list \<Rightarrow> (nat \<Rightarrow> proc_struct) \<Rightarrow> bool" where
  "leaves P q us vs P' \<longleftrightarrow>
     (\<forall>x. yptr (P' x) = (if vs \<noteq> [] \<and> x = hd vs then last_or us None else yptr (P x))) \<and>
     (\<forall>x. optr (P' x) = (if us \<noteq> [] \<and> x = last us then hd_or vs None else optr (P x))) \<and>
     (\<forall>x. parent_p (P' x) = parent_p (P x)) \<and>
     (\<forall>x. cptr (P' x) = (if us = [] \<and> x = q then hd_or vs None else cptr (P x)))"

lemma family_split:
  assumes "family P q (us @ p # vs)"
  shows "distinct (us @ p # vs)" "q \<notin> set (us @ p # vs)" "parent_p (P p) = Some q"
    "cptr (P q) = hd_or us (Some p)" "sib_chain P None us (Some p)"
    "yptr (P p) = last_or us None" "optr (P p) = hd_or vs None" "sib_chain P (Some p) vs None"
  using assms by (auto simp: family_def sib_chain_append hd_or_append)

lemma leaves_family:
  assumes fam: "family P q (us @ p # vs)" and lv: "leaves P q us vs P'"
  shows "family P' q (us @ vs)"
proof -
  note f = family_split[OF fam]
  have lu: "us \<noteq> [] \<Longrightarrow> last us \<in> set us" and hv: "vs \<noteq> [] \<Longrightarrow> hd vs \<in> set vs" by simp_all
  have nl: "us \<noteq> [] \<Longrightarrow> last us \<notin> set vs" and nh: "vs \<noteq> [] \<Longrightarrow> hd vs \<notin> set us" using f(1) lu hv by (meson disjoint_iff distinct_append distinct.simps(2) set_ConsD list.set_intros(2))+
  have "sib_chain P' None us (hd_or vs None)"
  proof (cases "us = []")
    case False
    show ?thesis
      by (rule sib_chain_end[OF f(5) _ False]) (use f(1) lv lu[OF False] hv nl[OF False] nh in \<open>auto simp: leaves_def\<close>)
  qed simp
  moreover have "sib_chain P' (last_or us None) vs None"
  proof (cases "vs = []")
    case False
    show ?thesis
      by (rule sib_chain_start[OF f(8) _ False]) (use f(1) lv lu hv[OF False] nl nh[OF False] in \<open>auto simp: leaves_def\<close>)
  qed simp
  moreover have "cptr (P' q) = hd_or (us @ vs) None"
    using f(4) lv by (cases us) (auto simp: leaves_def)
  ultimately show ?thesis
    using fam lv by (auto simp: family_def sib_chain_append leaves_def)
qed

lemma leaves_other:
  assumes fam: "family P q (us @ p # vs)" "family P r ds" "r \<noteq> q" and lv: "leaves P q us vs P'"
  shows "family P' r ds"
proof -
  have dis: "set ds \<inter> set (us @ p # vs) = {}" by (rule family_disjoint[OF fam])
  have "family P' r ds = family P r ds"
  proof (rule family_cong)
    show "cptr (P' r) = cptr (P r)" using lv fam(3) by (simp add: leaves_def)
    fix c assume "c \<in> set ds"
    then have "\<not> (vs \<noteq> [] \<and> c = hd vs)" "\<not> (us \<noteq> [] \<and> c = last us)" using dis by auto
    then show "yptr (P' c) = yptr (P c) \<and> optr (P' c) = optr (P c) \<and> parent_p (P' c) = parent_p (P c)"
      using lv unfolding leaves_def by auto
  qed
  then show ?thesis using fam(2) by blast
qed

text \<open>What the two operations leave alone.\<close>

definition same_but_links :: "(nat \<Rightarrow> proc_struct) \<Rightarrow> (nat \<Rightarrow> proc_struct) \<Rightarrow> bool" where
  "same_but_links P P' \<longleftrightarrow> (\<forall>x. P' x = (P x)\<lparr>yptr := yptr (P' x), optr := optr (P' x), cptr := cptr (P' x)\<rparr>)"

lemma set_links_ok:
  assumes fam: "family (procs s) q cs" and p: "p \<notin> set cs" "p \<noteq> q" "parent_p (procs s p) = Some q"
  shows "\<exists>s'. set_links p s = Some s' \<and>
    s' = s\<lparr>proc_links := list_add (proc_links s) ProcList (ProcLink p), procs := procs s', nr_process := nr_process s + 1\<rparr> \<and>
    adopts (procs s) q cs p (procs s') \<and> same_but_links (procs s) (procs s') \<and>
    (\<forall>r. r \<noteq> q \<longrightarrow> cptr (procs s' r) = cptr (procs s r))"
  using p fam
  by (cases cs) (auto simp: set_links_def upd_proc_def Let_def family_def adopts_def same_but_links_def)

lemma remove_links_ok:
  assumes fam: "family (procs s) q (us @ p # vs)"
  shows "\<exists>s'. remove_links p s = Some s' \<and>
    s' = s\<lparr>proc_links := list_del (proc_links s) (ProcLink p), procs := procs s', nr_process := nr_process s - 1\<rparr> \<and>
    leaves (procs s) q us vs (procs s') \<and> same_but_links (procs s) (procs s')"
  using family_split(1-3,6,7)[OF fam]
  by (cases vs; cases us rule: rev_cases)
    (auto simp: remove_links_def upd_proc_def Let_def leaves_def same_but_links_def)


subsection \<open>Ending a process\<close>

locale proc_system = sched_policy cls qinv ready
  for cls :: "'a ptable_scheme sched_class" and qinv ready
begin

lemma proc_inv_cong:
  assumes "queue_part s' = queue_part s" "\<And>x. pstate (procs s' x) = pstate (procs s x)"
    "current s' = current s" "idleproc s' = idleproc s"
  shows "sched_inv qinv ready s' = sched_inv qinv ready s"
proof -
  have "runq s' = runq s" using assms by (simp add: runq_def)
  then show ?thesis using assms queue_cong[OF assms(1)] by (simp add: sched_inv_def)
qed

end

lemma upd_proc_keep:
  assumes "\<And>q. f (g q) = f q"
  shows "f (procs (upd_proc p g s) x) = f (procs s x)"
  using assms by simp

lemma hand_over_keep:
  assumes "\<And>q v. f (q\<lparr>cptr := v\<rparr>) = f q" "\<And>q v. f (q\<lparr>yptr := v\<rparr>) = f q" "\<And>q v. f (q\<lparr>optr := v\<rparr>) = f q"
    "\<And>q v. f (q\<lparr>parent_p := v\<rparr>) = f q"
  shows "f (procs (hand_over c p i s) x) = f (procs s x)"
proof -
  define s3 where "s3 = upd_proc p (\<lambda>q. q\<lparr>optr := cptr (procs (upd_proc p (\<lambda>q. q\<lparr>yptr := None\<rparr>)
    (upd_proc c (\<lambda>q. q\<lparr>cptr := optr (procs s p)\<rparr>) s)) i)\<rparr>)
    (upd_proc p (\<lambda>q. q\<lparr>yptr := None\<rparr>) (upd_proc c (\<lambda>q. q\<lparr>cptr := optr (procs s p)\<rparr>) s))"
  have s3: "f (procs s3 x) = f (procs s x)"
    unfolding s3_def by (simp only: upd_proc_keep[of f, OF assms(3)] upd_proc_keep[of f, OF assms(2)] upd_proc_keep[of f, OF assms(1)])
  show ?thesis
    unfolding hand_over_def Let_def s3_def[symmetric]
    by (simp only: upd_proc_keep[of f, OF assms(4)] upd_proc_keep[of f, OF assms(1)] s3 upd_proc_keep[of f, OF assms(2)] split: option.split)
      (simp only: HOL.simp_thms)
qed

lemma hand_over_frame [simp]:
  "pstate (procs (hand_over c p i s) x) = pstate (procs s x)"
  "wait_state (procs (hand_over c p i s) x) = wait_state (procs s x)"
  "exit_code (procs (hand_over c p i s) x) = exit_code (procs s x)"
  "pid (procs (hand_over c p i s) x) = pid (procs s x)"
  "p_rq (procs (hand_over c p i s) x) = p_rq (procs s x)"
  "lab6_stride (procs (hand_over c p i s) x) = lab6_stride (procs s x)"
  by (rule hand_over_keep; simp)+

lemma hand_over_frame_state [simp]:
  "current (hand_over c p i s) = current s" "idleproc (hand_over c p i s) = idleproc s"
  "sched.more (hand_over c p i s) = sched.more s" "run_links (hand_over c p i s) = run_links s"
  "pool_links (hand_over c p i s) = pool_links s" "lab6_run_pool (hand_over c p i s) = lab6_run_pool s"
  "proc_num (hand_over c p i s) = proc_num s" "max_time_slice (hand_over c p i s) = max_time_slice s"
  unfolding hand_over_def Let_def
  by (simp_all add: upd_proc_simps(2-) del: upd_proc_simps(1) split: option.split)

lemma hand_over_queue [simp]: "queue_part (hand_over c p i s) = queue_part s"
  by (simp add: queue_part_def)

lemma upd_links:
  "yptr (procs (upd_proc p (\<lambda>q. q\<lparr>yptr := v\<rparr>) s) x) = (if x = p then v else yptr (procs s x))"
  "optr (procs (upd_proc p (\<lambda>q. q\<lparr>optr := v\<rparr>) s) x) = (if x = p then v else optr (procs s x))"
  "cptr (procs (upd_proc p (\<lambda>q. q\<lparr>cptr := v\<rparr>) s) x) = (if x = p then v else cptr (procs s x))"
  "parent_p (procs (upd_proc p (\<lambda>q. q\<lparr>parent_p := v\<rparr>) s) x) = (if x = p then v else parent_p (procs s x))"
  by simp_all

lemma upd_other_links:
  "yptr (procs (upd_proc p (\<lambda>q. q\<lparr>optr := v\<rparr>) s) x) = yptr (procs s x)"
  "yptr (procs (upd_proc p (\<lambda>q. q\<lparr>cptr := v\<rparr>) s) x) = yptr (procs s x)"
  "yptr (procs (upd_proc p (\<lambda>q. q\<lparr>parent_p := v\<rparr>) s) x) = yptr (procs s x)"
  "optr (procs (upd_proc p (\<lambda>q. q\<lparr>yptr := v\<rparr>) s) x) = optr (procs s x)"
  "optr (procs (upd_proc p (\<lambda>q. q\<lparr>cptr := v\<rparr>) s) x) = optr (procs s x)"
  "optr (procs (upd_proc p (\<lambda>q. q\<lparr>parent_p := v\<rparr>) s) x) = optr (procs s x)"
  "cptr (procs (upd_proc p (\<lambda>q. q\<lparr>yptr := v\<rparr>) s) x) = cptr (procs s x)"
  "cptr (procs (upd_proc p (\<lambda>q. q\<lparr>optr := v\<rparr>) s) x) = cptr (procs s x)"
  "cptr (procs (upd_proc p (\<lambda>q. q\<lparr>parent_p := v\<rparr>) s) x) = cptr (procs s x)"
  "parent_p (procs (upd_proc p (\<lambda>q. q\<lparr>yptr := v\<rparr>) s) x) = parent_p (procs s x)"
  "parent_p (procs (upd_proc p (\<lambda>q. q\<lparr>optr := v\<rparr>) s) x) = parent_p (procs s x)"
  "parent_p (procs (upd_proc p (\<lambda>q. q\<lparr>cptr := v\<rparr>) s) x) = parent_p (procs s x)"
  by simp_all

lemma hand_over_links:
  assumes "cptr (procs s i) = hd_or ds None" "p \<noteq> i" "c \<noteq> i" "c \<noteq> p" "p \<notin> set ds"
  shows "adopts (procs s) i ds p (procs (hand_over c p i s))"
    "cptr (procs (hand_over c p i s) x) = (if x = i then Some p else if x = c then optr (procs s p) else cptr (procs s x))"
  using assms
  by (cases ds; simp add: hand_over_def Let_def adopts_def upd_links upd_other_links del: upd_proc_simps(1); fail)+

text \<open>What waking the process \<open>i\<close>, or not, leaves alone.\<close>

definition only_wakes :: "nat \<Rightarrow> 'a ptable_scheme \<Rightarrow> 'a ptable_scheme \<Rightarrow> bool" where
  "only_wakes i s s' \<longleftrightarrow> current s' = current s \<and> idleproc s' = idleproc s \<and> sched.more s' = sched.more s \<and>
     (\<forall>x. exit_code (procs s' x) = exit_code (procs s x) \<and> pid (procs s' x) = pid (procs s x)) \<and>
     (\<forall>x. x \<noteq> i \<longrightarrow> pstate (procs s' x) = pstate (procs s x) \<and> wait_state (procs s' x) = wait_state (procs s x)) \<and>
     (pstate (procs s' i) = pstate (procs s i) \<or> pstate (procs s' i) = PROC_RUNNABLE)"

lemma only_wakes_trans: "only_wakes i s t \<Longrightarrow> only_wakes i t u \<Longrightarrow> only_wakes i s u"
  unfolding only_wakes_def by metis

lemma only_wakes_refl [simp]: "only_wakes i s s" by (simp add: only_wakes_def)

context proc_system
begin

lemma wake_if_ok:
  assumes inv: "sched_inv qinv ready s" and live: "pstate (procs s i) \<noteq> PROC_ZOMBIE" "pstate (procs s i) \<noteq> PROC_UNINIT"
  shows "\<exists>s'. (if b then wakeup_proc cls i s else Some s) = Some s' \<and> sched_inv qinv ready s' \<and> only_wakes i s s' \<and>
    (b \<longrightarrow> pstate (procs s' i) = PROC_RUNNABLE) \<and> (\<not> b \<longrightarrow> s' = s) \<and>
    (\<forall>x. static_part (procs s' x) = static_part (procs s x))"
proof (cases b)
  case True
  obtain s' where "wakeup_proc cls i s = Some s'" "sched_inv qinv ready s'" "pstate (procs s' i) = PROC_RUNNABLE"
    "current s' = current s" "idleproc s' = idleproc s" "sched.more s' = sched.more s"
    "\<forall>q. q \<noteq> i \<longrightarrow> pstate (procs s' q) = pstate (procs s q) \<and> wait_state (procs s' q) = wait_state (procs s q)"
    "\<forall>q. static_part (procs s' q) = static_part (procs s q) \<and> pid (procs s' q) = pid (procs s q)"
    using wakeup_proc_ok[OF inv live(1)] live(2) by blast
  then show ?thesis using True by (auto simp: only_wakes_def static_part_def)
qed (use inv in simp)

lemma reparent_loop_ok:
  assumes "sched_inv qinv ready s" "sib_chain (procs s) y cs None" "cptr (procs s c) = hd_or cs None" "distinct cs"
    "c \<notin> set cs" "i \<notin> set cs" "c \<noteq> i" "family (procs s) i ds" "set cs \<inter> set ds = {}"
    "pstate (procs s i) \<noteq> PROC_ZOMBIE" "pstate (procs s i) \<noteq> PROC_UNINIT"
  shows "\<exists>s'. reparent_loop cls c i s = Some s' \<and> sched_inv qinv ready s' \<and> only_wakes i s s' \<and>
    family (procs s') i (rev cs @ ds) \<and> cptr (procs s' c) = None \<and>
    (wait_state (procs s i) = WT_CHILD \<longrightarrow> (\<exists>z\<in>set cs. pstate (procs s z) = PROC_ZOMBIE) \<longrightarrow>
      pstate (procs s' i) = PROC_RUNNABLE) \<and>
    (\<forall>r gs. r \<noteq> c \<longrightarrow> r \<noteq> i \<longrightarrow> set gs \<inter> set cs = {} \<longrightarrow> family (procs s) r gs \<longrightarrow> family (procs s') r gs)"
  using assms
proof (induction cs arbitrary: s y ds)
  case Nil
  then show ?case by (subst reparent_loop.simps) simp
next
  case (Cons p cs)
  let ?s1 = "hand_over c p i s"
  let ?b = "pstate (procs s p) = PROC_ZOMBIE \<and> wait_state (procs s i) = WT_CHILD"
  have ne: "p \<noteq> i" "c \<noteq> i" "c \<noteq> p" "p \<notin> set ds" "cptr (procs s i) = hd_or ds None" "i \<notin> set ds"
    using Cons.prems by (auto simp: family_def)
  note hl = hand_over_links[OF ne(5,1-4)]
  have inv1: "sched_inv qinv ready ?s1" using Cons.prems(1) proc_inv_cong[of ?s1 s] by simp
  obtain s2 where s2: "(if ?b then wakeup_proc cls i ?s1 else Some ?s1) = Some s2" "sched_inv qinv ready s2"
    "only_wakes i ?s1 s2" "?b \<longrightarrow> pstate (procs s2 i) = PROC_RUNNABLE" "\<not> ?b \<longrightarrow> s2 = ?s1"
    "\<forall>x. static_part (procs s2 x) = static_part (procs ?s1 x)"
    using wake_if_ok[OF inv1, of i ?b] Cons.prems(10,11) by auto
  have fam2: "family (procs s2) r gs = family (procs ?s1) r gs" for r gs using s2(6) by (intro family_static) auto
  have links2: "optr (procs s2 x) = optr (procs ?s1 x)" "yptr (procs s2 x) = yptr (procs ?s1 x)"
    "cptr (procs s2 x) = cptr (procs ?s1 x)" for x using s2(6) by (auto simp: static_part_def)
  have "only_wakes i s ?s1" by (simp add: only_wakes_def)
  then have ow: "only_wakes i s s2" by (rule only_wakes_trans[OF _ s2(3)])
  have "\<exists>s'. reparent_loop cls c i s2 = Some s' \<and> sched_inv qinv ready s' \<and> only_wakes i s2 s' \<and>
    family (procs s') i (rev cs @ (p # ds)) \<and> cptr (procs s' c) = None \<and>
    (wait_state (procs s2 i) = WT_CHILD \<longrightarrow> (\<exists>z\<in>set cs. pstate (procs s2 z) = PROC_ZOMBIE) \<longrightarrow>
      pstate (procs s' i) = PROC_RUNNABLE) \<and>
    (\<forall>r gs. r \<noteq> c \<longrightarrow> r \<noteq> i \<longrightarrow> set gs \<inter> set cs = {} \<longrightarrow> family (procs s2) r gs \<longrightarrow> family (procs s') r gs)"
  proof (rule Cons.IH)
    show "sib_chain (procs s2) (Some p) cs None"
      using adopts_chain[OF hl(1), of cs] Cons.prems(2,4,9) sib_chain_cong[of cs "procs s2" "procs ?s1"] links2 by auto
    show "cptr (procs s2 c) = hd_or cs None" using links2(3) hl(2) ne Cons.prems(2) by simp
    show "family (procs s2) i (p # ds)" unfolding fam2 by (rule adopts_family[OF Cons.prems(8) _ _ hl(1)]) (use ne in auto)
    show "pstate (procs s2 i) \<noteq> PROC_ZOMBIE" "pstate (procs s2 i) \<noteq> PROC_UNINIT"
      using ow Cons.prems(10,11) unfolding only_wakes_def by auto
  qed (use Cons.prems s2(2) in auto)
  then obtain s' where s': "reparent_loop cls c i s2 = Some s'" "sched_inv qinv ready s'" "only_wakes i s2 s'"
    "family (procs s') i (rev cs @ (p # ds))" "cptr (procs s' c) = None"
    "wait_state (procs s2 i) = WT_CHILD \<longrightarrow> (\<exists>z\<in>set cs. pstate (procs s2 z) = PROC_ZOMBIE) \<longrightarrow>
      pstate (procs s' i) = PROC_RUNNABLE"
    "\<forall>r gs. r \<noteq> c \<longrightarrow> r \<noteq> i \<longrightarrow> set gs \<inter> set cs = {} \<longrightarrow> family (procs s2) r gs \<longrightarrow> family (procs s') r gs" by blast
  have run: "reparent_loop cls c i s = Some s'"
    using Cons.prems(3) s2(1) s'(1) by (subst reparent_loop.simps) simp
  have woken: "pstate (procs s' i) = PROC_RUNNABLE"
    if w: "wait_state (procs s i) = WT_CHILD" "\<exists>z\<in>set (p # cs). pstate (procs s z) = PROC_ZOMBIE"
  proof (cases ?b)
    case True
    then show ?thesis using s2(4) s'(3) unfolding only_wakes_def by auto
  next
    case False
    then show ?thesis using w s2(5) s'(6) by auto
  qed
  have others: "family (procs s') r gs"
    if r: "r \<noteq> c" "r \<noteq> i" "set gs \<inter> set (p # cs) = {}" "family (procs s) r gs" for r gs
  proof -
    have "family (procs ?s1) r gs"
      by (rule adopts_other[OF Cons.prems(8) r(4) r(2) _ hl(1)]) (use r hl(2) in auto)
    then show ?thesis using s'(7) r fam2 by auto
  qed
  show ?case
    by (rule exI[of _ s']) (use run s'(2,4,5) only_wakes_trans[OF ow s'(3)] woken others in auto)
qed

text \<open>The current process stops running: the run queue does not hold it.\<close>

lemma stop_inv:
  assumes "sched_inv qinv ready s" "current s = Some c" "idleproc s \<noteq> Some c" "pstate (procs s c) = PROC_RUNNABLE"
    "p_rq (f (procs s c)) = p_rq (procs s c)" "lab6_stride (f (procs s c)) = lab6_stride (procs s c)"
  shows "sched_inv qinv ready (upd_proc c f s)" (is "sched_inv _ _ ?s1")
proof -
  have "runq ?s1 = runq s" using assms(2) by (auto simp: runq_def)
  moreover have "queue_part ?s1 = queue_part s" using assms(5,6) by (auto simp: queue_part_def fun_eq_iff)
  ultimately show ?thesis using assms(1-4) queue_cong[of ?s1 s] by (auto simp: sched_inv_def runq_def)
qed

text \<open>The parent is woken and the children are handed over.\<close>

lemma exit_handover_ok:
  assumes inv: "sched_inv qinv ready s"
    and ini: "c \<noteq> i" "pstate (procs s i) \<noteq> PROC_ZOMBIE" "pstate (procs s i) \<noteq> PROC_UNINIT"
    and par: "p \<noteq> c" "pstate (procs s p) \<noteq> PROC_ZOMBIE" "pstate (procs s p) \<noteq> PROC_UNINIT"
    and fam: "family (procs s) c cs" "family (procs s) i ds" "i \<notin> set cs"
  shows "\<exists>s2 s'. (if wait_state (procs s p) = WT_CHILD then wakeup_proc cls p s else Some s) = Some s2 \<and>
    reparent_loop cls c i s2 = Some s' \<and> sched_inv qinv ready s' \<and> current s' = current s \<and> idleproc s' = idleproc s \<and>
    family (procs s') i (rev cs @ ds) \<and> cptr (procs s' c) = None \<and> exit_code (procs s' c) = exit_code (procs s c) \<and>
    (\<forall>r gs. r \<noteq> c \<longrightarrow> r \<noteq> i \<longrightarrow> family (procs s) r gs \<longrightarrow> family (procs s') r gs) \<and>
    (wait_state (procs s p) = WT_CHILD \<longrightarrow> pstate (procs s' p) = PROC_RUNNABLE) \<and>
    (wait_state (procs s i) = WT_CHILD \<longrightarrow> (\<exists>z\<in>set cs. pstate (procs s z) = PROC_ZOMBIE) \<longrightarrow>
      pstate (procs s' i) = PROC_RUNNABLE) \<and>
    (\<forall>x. pstate (procs s' x) = pstate (procs s x) \<or> x \<in> {p, i} \<and> pstate (procs s' x) = PROC_RUNNABLE)"
proof -
  let ?b = "wait_state (procs s p) = WT_CHILD"
  obtain s2 where s2: "(if ?b then wakeup_proc cls p s else Some s) = Some s2"
    "sched_inv qinv ready s2" "only_wakes p s s2" "?b \<longrightarrow> pstate (procs s2 p) = PROC_RUNNABLE"
    "\<forall>x. static_part (procs s2 x) = static_part (procs s x)"
    using wake_if_ok[OF inv, of p ?b] par by auto
  have fam2: "family (procs s2) r gs = family (procs s) r gs" for r gs
    using s2(5) by (intro family_static) auto
  have i2: "pstate (procs s2 i) \<noteq> PROC_ZOMBIE" "pstate (procs s2 i) \<noteq> PROC_UNINIT"
    using s2(3) ini by (cases "i = p"; auto simp: only_wakes_def)+
  have c2: "sib_chain (procs s2) None cs None" "cptr (procs s2 c) = hd_or cs None" "distinct cs" "c \<notin> set cs"
    using fam(1) fam2 by (auto simp: family_def)
  have i2': "family (procs s2) i ds" using fam(2) fam2 by blast
  obtain s3 where s3: "reparent_loop cls c i s2 = Some s3" "sched_inv qinv ready s3" "only_wakes i s2 s3"
    "family (procs s3) i (rev cs @ ds)" "cptr (procs s3 c) = None"
    "wait_state (procs s2 i) = WT_CHILD \<longrightarrow> (\<exists>z\<in>set cs. pstate (procs s2 z) = PROC_ZOMBIE) \<longrightarrow>
      pstate (procs s3 i) = PROC_RUNNABLE"
    "\<forall>r gs. r \<noteq> c \<longrightarrow> r \<noteq> i \<longrightarrow> set gs \<inter> set cs = {} \<longrightarrow> family (procs s2) r gs \<longrightarrow> family (procs s3) r gs"
    using reparent_loop_ok[OF s2(2) c2(1-4) fam(3) ini(1) i2' family_disjoint[OF fam(2,1) ini(1)] i2] by blast
  have par': "pstate (procs s3 p) = PROC_RUNNABLE" if "?b"
    using that s2(4) s3(3) by (cases "p = i") (auto simp: only_wakes_def)
  have init': "pstate (procs s3 i) = PROC_RUNNABLE"
    if w: "wait_state (procs s i) = WT_CHILD" "\<exists>z\<in>set cs. pstate (procs s z) = PROC_ZOMBIE"
  proof (cases "i = p")
    case True
    then show ?thesis using par' w(1) by simp
  next
    case False
    obtain z where z: "z \<in> set cs" "pstate (procs s z) = PROC_ZOMBIE" using w(2) by blast
    have "wait_state (procs s2 i) = WT_CHILD" "pstate (procs s2 z) = PROC_ZOMBIE"
      using False w(1) z par(2) s2(3) by (auto simp: only_wakes_def)
    then show ?thesis using s3(6) z(1) by blast
  qed
  have others: "family (procs s3) r gs" if r: "r \<noteq> c" "r \<noteq> i" "family (procs s) r gs" for r gs
    using s3(7) r fam2 family_disjoint[OF fam(1) r(3,1)] by blast
  have rest: "pstate (procs s3 x) = pstate (procs s x) \<or> x \<in> {p, i} \<and> pstate (procs s3 x) = PROC_RUNNABLE" for x
    using s2(3) s3(3) by (cases "x = i"; cases "x = p") (auto simp: only_wakes_def)
  show ?thesis
    by (rule exI[of _ s2], rule exI[of _ s3])
      (use s2(1,3) s3(1-5) others par' init' rest in \<open>auto simp: only_wakes_def\<close>)
qed

lemma exit_finish_ok:
  assumes inv: "sched_inv qinv ready s" and cur: "current s = Some c" "pstate (procs s c) = PROC_RUNNABLE"
    and ini: "initproc s = Some i" "c \<noteq> i" "pstate (procs s i) \<noteq> PROC_ZOMBIE" "pstate (procs s i) \<noteq> PROC_UNINIT"
    and idl: "idleproc s = Some d" "c \<noteq> d"
    and par: "parent_p (procs s c) = Some p" "p \<noteq> c" "pstate (procs s p) \<noteq> PROC_ZOMBIE" "pstate (procs s p) \<noteq> PROC_UNINIT"
    and fam: "family (procs s) c cs" "family (procs s) i ds" "i \<notin> set cs"
    and fin: "finite {x. pstate (procs s x) \<noteq> PROC_UNINIT}" "card {x. pstate (procs s x) \<noteq> PROC_UNINIT} < 2 ^ 32"
  shows "\<exists>s' n. exit_finish cls e s = Some s' \<and> sched_inv qinv ready s' \<and> current s' = Some n \<and> n \<noteq> c \<and>
    pstate (procs s' n) = PROC_RUNNABLE \<and>
    pstate (procs s' c) = PROC_ZOMBIE \<and> exit_code (procs s' c) = e \<and> cptr (procs s' c) = None \<and>
    family (procs s') i (rev cs @ ds) \<and>
    (\<forall>r gs. r \<noteq> c \<longrightarrow> r \<noteq> i \<longrightarrow> family (procs s) r gs \<longrightarrow> family (procs s') r gs) \<and>
    (wait_state (procs s p) = WT_CHILD \<longrightarrow> pstate (procs s' p) = PROC_RUNNABLE) \<and>
    (wait_state (procs s i) = WT_CHILD \<longrightarrow> (\<exists>z\<in>set cs. pstate (procs s z) = PROC_ZOMBIE) \<longrightarrow>
      pstate (procs s' i) = PROC_RUNNABLE) \<and>
    (\<forall>x. x \<notin> {c, p, i} \<longrightarrow> pstate (procs s' x) = pstate (procs s x))"
proof -
  define s1 where "s1 = upd_proc c (\<lambda>q. q\<lparr>pstate := PROC_ZOMBIE, exit_code := e\<rparr>) s"
  have inv1: "sched_inv qinv ready s1" unfolding s1_def by (rule stop_inv[OF inv cur(1) _ cur(2)]) (use idl in simp_all)
  have f1: "\<And>x. pstate (procs s1 x) = (if x = c then PROC_ZOMBIE else pstate (procs s x))"
    "\<And>x. wait_state (procs s1 x) = wait_state (procs s x)" "parent_p (procs s1 c) = Some p"
    "exit_code (procs s1 c) = e" "current s1 = Some c" "idleproc s1 = Some d"
    using cur(1) idl(1) par(1) by (auto simp: s1_def)
  have fam1: "family (procs s1) r gs = family (procs s) r gs" for r gs
    by (rule family_cong) (auto simp: s1_def)
  have i1: "pstate (procs s1 i) \<noteq> PROC_ZOMBIE" "pstate (procs s1 i) \<noteq> PROC_UNINIT"
    "pstate (procs s1 p) \<noteq> PROC_ZOMBIE" "pstate (procs s1 p) \<noteq> PROC_UNINIT" using f1(1) ini par by simp_all
  have zz: "pstate (procs s1 z) = PROC_ZOMBIE" if "pstate (procs s z) = PROC_ZOMBIE" for z using that f1(1) by simp
  obtain s2 s3 where s2: "(if wait_state (procs s p) = WT_CHILD then wakeup_proc cls p s1 else Some s1) = Some s2"
    and s3: "reparent_loop cls c i s2 = Some s3" "sched_inv qinv ready s3" "current s3 = Some c" "idleproc s3 = Some d"
    "family (procs s3) i (rev cs @ ds)" "cptr (procs s3 c) = None" "exit_code (procs s3 c) = e"
    "\<forall>r gs. r \<noteq> c \<longrightarrow> r \<noteq> i \<longrightarrow> family (procs s) r gs \<longrightarrow> family (procs s3) r gs"
    "wait_state (procs s p) = WT_CHILD \<longrightarrow> pstate (procs s3 p) = PROC_RUNNABLE"
    "wait_state (procs s i) = WT_CHILD \<longrightarrow> (\<exists>z\<in>set cs. pstate (procs s1 z) = PROC_ZOMBIE) \<longrightarrow>
      pstate (procs s3 i) = PROC_RUNNABLE"
    "\<forall>x. pstate (procs s3 x) = pstate (procs s1 x) \<or> x \<in> {p, i} \<and> pstate (procs s3 x) = PROC_RUNNABLE"
    using exit_handover_ok[OF inv1 ini(2) i1(1,2) par(2) i1(3,4), unfolded fam1 f1(2-6), OF fam] by blast
  have c3: "pstate (procs s3 c) = PROC_ZOMBIE" using s3(11)[rule_format, of c] f1(1)[of c] par(2) ini(2) by auto
  have sub: "insert c (runq s3) \<subseteq> {x. pstate (procs s x) \<noteq> PROC_UNINIT}"
  proof
    fix x assume "x \<in> insert c (runq s3)"
    then show "x \<in> {x. pstate (procs s x) \<noteq> PROC_UNINIT}"
      using s3(11)[rule_format, of x] f1(1)[of x] cur(2) ini(4) par(4) by (auto simp: runq_def split: if_splits)
  qed
  have "card (insert c (runq s3)) < 2 ^ 32" "finite (runq s3)"
    using card_mono[OF fin(1) sub] fin(2) finite_subset[OF sub fin(1)] by auto
  from schedule_ok[OF s3(2-4) this] c3
  obtain s4 n where s4: "schedule cls s3 = Some s4" "sched_inv qinv ready s4" "current s4 = Some n"
    "n \<in> insert d (runq s3)" "\<forall>p. pstate (procs s4 p) = pstate (procs s3 p)"
    "\<forall>p. static_part (procs s4 p) = static_part (procs s3 p)" by auto
  have fam4: "family (procs s4) r gs = family (procs s3) r gs" for r gs using s4(6) by (intro family_static) auto
  have run: "exit_finish cls e s = Some s4"
    unfolding exit_finish_def using cur(1) ini(1) f1(2,3) s2 s3(1) s4(1) by (simp add: s1_def[symmetric] del: upd_proc_simps)
  have n: "n \<noteq> c" "pstate (procs s3 n) = PROC_RUNNABLE"
    using s4(4) idl(2) c3 s3(2,3,4) by (auto simp: runq_def sched_inv_def)
  have init3: "wait_state (procs s i) = WT_CHILD \<longrightarrow> (\<exists>z\<in>set cs. pstate (procs s z) = PROC_ZOMBIE) \<longrightarrow>
      pstate (procs s3 i) = PROC_RUNNABLE" using s3(10) zz by blast
  have rest: "pstate (procs s3 x) = pstate (procs s x)" if "x \<notin> {c, p, i}" for x
    using s3(11)[rule_format, of x] f1(1)[of x] that by auto
  have st4: "cptr (procs s4 c) = None" "exit_code (procs s4 c) = e" using s4(6) s3(6,7) by (auto simp: static_part_def)
  show ?thesis
    unfolding s4(5)[rule_format] fam4
    by (rule exI[of _ s4], rule exI[of _ n], intro conjI)
      (use run s4(2,3) n c3 st4 s3(5,8,9) init3 rest in \<open>auto simp: s4(5) fam4\<close>)
qed

end

end
