(* ===== verification/StrideSched.thy ===== *)
theory StrideSched
  imports Sched
begin

text \<open>
  The stride policy (\<^verbatim>\<open>kern/schedule/default_sched_stride.c\<close>, with \<^verbatim>\<open>USE_SKEW_HEAP\<close>): the run
  pool is a skew heap ordered by the 32-bit stride counters, which wrap around; the order is
  the sign of their difference.
\<close>

definition BIG_STRIDE :: "32 word" where "BIG_STRIDE = push_bit 30 1"

definition proc_stride_comp_f :: "(nat \<Rightarrow> proc_struct) \<Rightarrow> nat \<Rightarrow> nat \<Rightarrow> int" where
  "proc_stride_comp_f ps p q =
     (let c = sint (lab6_stride (ps p) - lab6_stride (ps q))
      in if c > 0 then 1 else if c = 0 then 0 else -1)"

definition stride_init :: "'a sched_scheme \<Rightarrow> 'a sched_scheme" where
  "stride_init s = s\<lparr>run_links := list_init (run_links s) RunList, lab6_run_pool := None, proc_num := 0\<rparr>"

definition stride_enqueue :: "nat \<Rightarrow> 'a sched_scheme \<Rightarrow> 'a sched_scheme option" where
  "stride_enqueue p s =
     do { kassert (p_rq (procs s p) = None);
          let s1 = upd_proc p (\<lambda>q. if time_slice q = 0 \<or> time_slice q > max_time_slice s
                                   then q\<lparr>time_slice := max_time_slice s\<rparr> else q) s;
          let s2 = upd_proc p (\<lambda>q. if lab6_priority q = 0 then q\<lparr>lab6_priority := 1\<rparr> else q) s1;
          (pool, h) \<leftarrow> skew_heap_insert (proc_stride_comp_f (procs s2)) (pool_links s2) (lab6_run_pool s2) p;
          let s3 = s2\<lparr>lab6_run_pool := pool, pool_links := h\<rparr>;
          let s4 = s3\<lparr>run_links := list_add_before (run_links s3) RunList (RunLink p)\<rparr>;
          let s5 = upd_proc p (\<lambda>q. q\<lparr>p_rq := Some ()\<rparr>) s4;
          Some (s5\<lparr>proc_num := u32 (proc_num s5 + 1)\<rparr>) }"

definition stride_dequeue :: "nat \<Rightarrow> 'a sched_scheme \<Rightarrow> 'a sched_scheme option" where
  "stride_dequeue p s =
     do { kassert (p_rq (procs s p) = Some () \<and> proc_num s > 0);
          let s1 = s\<lparr>run_links := list_del_init (run_links s) (RunLink p)\<rparr>;
          (pool, h) \<leftarrow> skew_heap_remove (proc_stride_comp_f (procs s1)) (pool_links s1) (lab6_run_pool s1) p;
          let s2 = s1\<lparr>lab6_run_pool := pool, pool_links := h\<rparr>;
          let s3 = upd_proc p (\<lambda>q. q\<lparr>p_rq := None\<rparr>) s2;
          Some (s3\<lparr>proc_num := u32_minus (proc_num s3) 1\<rparr>) }"

definition stride_pick_next :: "'a sched_scheme \<Rightarrow> nat option \<times> 'a sched_scheme" where
  "stride_pick_next s =
     (case lab6_run_pool s of
        None \<Rightarrow> (None, s)
      | Some p \<Rightarrow>
          let priority = (if lab6_priority (procs s p) = 0 then 1 else lab6_priority (procs s p))
          in (Some p, upd_proc p (\<lambda>q. q\<lparr>lab6_stride := lab6_stride q + BIG_STRIDE div priority\<rparr>) s))"

definition stride_proc_tick :: "nat \<Rightarrow> 'a sched_scheme \<Rightarrow> 'a sched_scheme" where
  "stride_proc_tick p s =
     (let s1 = (if time_slice (procs s p) > 0
                then upd_proc p (\<lambda>q. q\<lparr>time_slice := time_slice q - 1\<rparr>) s else s)
      in if time_slice (procs s1 p) = 0 then upd_proc p (\<lambda>q. q\<lparr>need_resched := True\<rparr>) s1 else s1)"

definition stride_sched_class :: "'a sched_scheme sched_class" where
  "stride_sched_class = \<lparr>sc_init = stride_init, sc_enqueue = stride_enqueue, sc_dequeue = stride_dequeue,
     sc_pick_next = stride_pick_next, sc_proc_tick = stride_proc_tick\<rparr>"

subsection \<open>The run pool and the run list\<close>

text \<open>The heap \<open>t\<close> and the list \<open>xs\<close> hold the same processes.\<close>

definition stride_queue :: "'a sched_scheme \<Rightarrow> nat tree \<Rightarrow> nat list \<Rightarrow> bool" where
  "stride_queue s t xs \<longleftrightarrow> heap_of (pool_links s) (lab6_run_pool s) t \<and>
     dlist (run_links s) RunList (map RunLink xs) \<and> set xs = set_tree t \<and>
     proc_num s = u32 (length xs) \<and> (\<forall>p\<in>set xs. p_rq (procs s p) = Some ())"

definition stride_inv :: "'a sched_scheme \<Rightarrow> nat set \<Rightarrow> bool" where
  "stride_inv s Q \<longleftrightarrow> (\<exists>t xs. stride_queue s t xs \<and> set xs = Q)"

definition stride_ready :: "nat \<Rightarrow> 'a sched_scheme \<Rightarrow> bool" where
  "stride_ready p s \<longleftrightarrow> p_rq (procs s p) = None"

lemma stride_ready_not_queued: "stride_queue s t xs \<Longrightarrow> stride_ready p s \<Longrightarrow> p \<notin> set xs \<and> p \<notin> set_tree t"
  by (auto simp: stride_queue_def stride_ready_def)

lemma stride_enqueue_queue:
  assumes q: "stride_queue s t xs" and r: "stride_ready p s"
  shows "\<exists>s'. stride_enqueue p s = Some s' \<and>
    stride_queue s' (smerge (proc_stride_comp_f (procs s)) t \<langle>\<langle>\<rangle>, p, \<langle>\<rangle>\<rangle>) (xs @ [p]) \<and> same_control s s' \<and>
    (\<forall>x. lab6_stride (procs s' x) = lab6_stride (procs s x)) \<and>
    (\<forall>x. x \<noteq> p \<longrightarrow> stride_ready x s \<longrightarrow> stride_ready x s')"
proof -
  have p: "p \<notin> set xs" "p \<notin> set_tree t" using stride_ready_not_queued[OF q r] by auto
  have d: "dlist (run_links s) RunList (map RunLink xs)" using q by (simp add: stride_queue_def)
  have d': "dlist (list_add_before (run_links s) RunList (RunLink p)) RunList (map RunLink (xs @ [p]))"
    using lh.push_back[OF d, of "RunLink p"] p by auto
  let ?s2 = "upd_proc p (\<lambda>q. if lab6_priority q = 0 then q\<lparr>lab6_priority := 1\<rparr> else q)
    (upd_proc p (\<lambda>q. if time_slice q = 0 \<or> time_slice q > max_time_slice s
                     then q\<lparr>time_slice := max_time_slice s\<rparr> else q) s)"
  have cmp: "proc_stride_comp_f (procs ?s2) = proc_stride_comp_f (procs s)"
    by (simp add: proc_stride_comp_f_def fun_eq_iff)
  let ?t = "smerge (proc_stride_comp_f (procs s)) t \<langle>\<langle>\<rangle>, p, \<langle>\<rangle>\<rangle>"
  have "heap_of (pool_links s) (lab6_run_pool s) t" using q by (simp add: stride_queue_def)
  then obtain h' where h': "skew_heap_insert (proc_stride_comp_f (procs s)) (pool_links s) (lab6_run_pool s) p =
      Some (root_of ?t, h')" "heap_of h' (root_of ?t) ?t"
    using skew_heap_insert_refines[OF _ p(2)] by blast
  then obtain s' where s': "stride_enqueue p s = Some s'" "lab6_run_pool s' = root_of ?t" "pool_links s' = h'"
    "run_links s' = list_add_before (run_links s) RunList (RunLink p)" "proc_num s' = u32 (Suc (proc_num s))"
    "\<forall>x. p_rq (procs s' x) = (if x = p then Some () else p_rq (procs s x))"
    "\<forall>x. lab6_stride (procs s' x) = lab6_stride (procs s x)" "same_control s s'"
    using r cmp unfolding stride_enqueue_def stride_ready_def kassert_def Let_def same_control_def by simp
  then show ?thesis using q d' h'(2) by (auto simp: stride_queue_def stride_ready_def)
qed

lemma stride_dequeue_queue:
  assumes q: "stride_queue s t xs" and p: "p \<in> set_tree t" and len: "length xs < 2 ^ 32"
  shows "\<exists>s'. stride_dequeue p s = Some s' \<and>
    stride_queue s' (sremove (proc_stride_comp_f (procs s)) p t) (remove1 p xs) \<and> same_control s s' \<and>
    stride_ready p s' \<and> (\<forall>x. lab6_stride (procs s' x) = lab6_stride (procs s x)) \<and>
    (\<forall>x. stride_ready x s \<longrightarrow> stride_ready x s')"
proof -
  have px: "p \<in> set xs" "p_rq (procs s p) = Some ()" using q p by (auto simp: stride_queue_def)
  have d: "dlist (run_links s) RunList (map RunLink xs)" using q by (simp add: stride_queue_def)
  have dis: "distinct xs" using dlist_distinct[OF d] by (simp add: distinct_map)
  have d': "dlist (list_del_init (run_links s) (RunLink p)) RunList (map RunLink (remove1 p xs))"
    using lh.remove1_del[OF d, of "RunLink p"] px(1) by (simp add: map_remove1_inj inj_on_def)
  let ?t = "sremove (proc_stride_comp_f (procs s)) p t"
  have ho: "heap_of (pool_links s) (lab6_run_pool s) t" using q by (simp add: stride_queue_def)
  then obtain h' where h': "skew_heap_remove (proc_stride_comp_f (procs s)) (pool_links s) (lab6_run_pool s) p =
      Some (root_of ?t, h')" "heap_of h' (root_of ?t) ?t"
    using skew_heap_remove_refines[OF _ p] by blast
  obtain n where n: "length xs = Suc n" using px(1) by (cases xs) auto
  have num: "proc_num s = u32 (Suc n)" "0 < proc_num s" using q n len by (auto simp: stride_queue_def)
  obtain s' where s': "stride_dequeue p s = Some s'" "lab6_run_pool s' = root_of ?t" "pool_links s' = h'"
    "run_links s' = list_del_init (run_links s) (RunLink p)" "proc_num s' = u32 n"
    "\<forall>x. p_rq (procs s' x) = (if x = p then None else p_rq (procs s x))"
    "\<forall>x. lab6_stride (procs s' x) = lab6_stride (procs s x)" "same_control s s'"
    using px(2) num h'(1) unfolding stride_dequeue_def kassert_def Let_def same_control_def by simp
  moreover have "set (remove1 p xs) = set_tree ?t" "length (remove1 p xs) = n" "set_tree ?t = set_tree t - {p}"
    using q ho px(1) dis n by (auto simp: stride_queue_def set_sremove heap_of_def length_remove1)
  ultimately show ?thesis using q d' h'(2) by (auto simp: stride_queue_def stride_ready_def simp del: set_remove1_eq)
qed

lemma stride_pick_root:
  assumes "stride_queue s t xs"
  shows "stride_pick_next s = (case t of \<langle>\<rangle> \<Rightarrow> (None, s) | \<langle>_, p, _\<rangle> \<Rightarrow>
    (Some p, upd_proc p (\<lambda>q. q\<lparr>lab6_stride := lab6_stride q + BIG_STRIDE div
       (if lab6_priority (procs s p) = 0 then 1 else lab6_priority (procs s p))\<rparr>) s))"
  using assms by (cases t) (auto simp: stride_queue_def heap_of_def stride_pick_next_def)

lemma stride_queue_stride_change:
  "stride_queue (upd_proc p (\<lambda>q. q\<lparr>lab6_stride := f q\<rparr>) s) t xs = stride_queue s t xs"
  "stride_ready x (upd_proc p (\<lambda>q. q\<lparr>lab6_stride := f q\<rparr>) s) = stride_ready x s"
  "same_control s (upd_proc p (\<lambda>q. q\<lparr>lab6_stride := f q\<rparr>) s)"
  by (auto simp: stride_queue_def stride_ready_def same_control_def)

lemma same_control_trans: "same_control a b \<Longrightarrow> same_control b c \<Longrightarrow> same_control a c"
  by (simp add: same_control_def)

interpretation stride: sched_policy stride_sched_class stride_inv stride_ready
proof (unfold_locales, goal_cases)
  case (1 s Q p)
  then obtain t xs where q: "stride_queue s t xs" "set xs = Q" by (auto simp: stride_inv_def)
  show ?case using stride_enqueue_queue[OF q(1) 1(3)] q(2)
    by (auto simp: stride_inv_def stride_sched_class_def) (metis set_append insert_is_Un list.simps(15) set_empty2 sup.commute)
next
  case (2 s)
  then show ?case using stride_pick_root[of s "\<langle>\<rangle>" "[]"]
    by (auto simp: stride_inv_def stride_sched_class_def stride_queue_def)
next
  case (3 s Q)
  then obtain t xs where q: "stride_queue s t xs" "set xs = Q" by (auto simp: stride_inv_def)
  have tx: "set_tree t = Q" "distinct xs" 
    using q dlist_distinct[of "run_links s" RunList "map RunLink xs"] by (auto simp: stride_queue_def distinct_map)
  then obtain l p r where t: "t = \<langle>l, p, r\<rangle>" using 3(2) by (cases t) auto
  have len: "length xs < 2 ^ 32" using 3(3) q(2) tx(2) distinct_card by fastforce
  obtain s1 where s1: "stride_pick_next s = (Some p, s1)" "stride_queue s1 t xs" "same_control s s1"
    "\<forall>x. stride_ready x s1 = stride_ready x s"
    using stride_pick_root[OF q(1)] q(1) t stride_queue_stride_change by (fastforce simp: t)
  obtain s2 where s2: "stride_dequeue p s1 = Some s2"
    "stride_queue s2 (sremove (proc_stride_comp_f (procs s1)) p t) (remove1 p xs)" "same_control s1 s2"
    "stride_ready p s2" "\<forall>x. stride_ready x s1 \<longrightarrow> stride_ready x s2"
    using stride_dequeue_queue[OF s1(2) _ len, of p] t by auto
  have "set (remove1 p xs) = Q - {p}" using q(2) tx(2) by simp
  then have "stride_inv s2 (Q - {p})" using s2(2) unfolding stride_inv_def by blast
  then show ?case using s1 s2 t tx(1) same_control_trans[OF s1(3) s2(3)] by (auto simp: stride_sched_class_def)
next
  case (4 s Q p)
  then show ?case
    by (auto simp: stride_sched_class_def stride_proc_tick_def stride_inv_def stride_queue_def stride_ready_def
        same_control_def Let_def)
next
  case (5 s' s Q p)
  then show ?case by (auto simp: queue_part_def stride_inv_def stride_queue_def stride_ready_def fun_eq_iff)
qed

subsection \<open>Order of wrapping strides\<close>

text \<open>
  The strides of \<open>S\<close> lie within \<open>BIG_STRIDE\<close> above \<open>w\<close>, on the circle of 32-bit numbers.
\<close>

definition stride_window :: "(nat \<Rightarrow> proc_struct) \<Rightarrow> nat set \<Rightarrow> 32 word \<Rightarrow> bool" where
  "stride_window ps S w \<longleftrightarrow> (\<forall>x\<in>S. unat (lab6_stride (ps x) - w) \<le> unat BIG_STRIDE)"

abbreviation stride_off :: "(nat \<Rightarrow> proc_struct) \<Rightarrow> 32 word \<Rightarrow> nat \<Rightarrow> nat" where
  "stride_off ps w x \<equiv> unat (lab6_stride (ps x) - w)"

lemma unat_BIG_STRIDE: "unat BIG_STRIDE = 2 ^ 30"
  by (simp add: BIG_STRIDE_def)

lemma sint_diff:
  fixes x y :: "32 word"
  assumes "unat x \<le> 2 ^ 30" "unat y \<le> 2 ^ 30"
  shows "sint (x - y) = int (unat x) - int (unat y)"
proof -
  have "x - y = word_of_int (int (unat x) - int (unat y))" by simp
  moreover have "sint (word_of_int z :: 32 word) = z" if "- (2 ^ 31) \<le> z" "z < 2 ^ 31" for z
    using that by (simp add: sint_sbintrunc' signed_take_bit_int_eq_self)
  moreover have "- (2 ^ 31) \<le> int m - int n \<and> int m - int n < 2 ^ 31" if "m \<le> 2 ^ 30" "n \<le> 2 ^ 30" for m n
    using that by simp
  ultimately show ?thesis using assms by metis
qed

lemma stride_comp_less:
  assumes "stride_window ps S w" "x \<in> S" "y \<in> S"
  shows "proc_stride_comp_f ps x y = -1 \<longleftrightarrow> stride_off ps w x < stride_off ps w y"
proof -
  have "sint (lab6_stride (ps x) - lab6_stride (ps y)) = int (stride_off ps w x) - int (stride_off ps w y)"
    using sint_diff[of "lab6_stride (ps x) - w" "lab6_stride (ps y) - w"] assms
    by (simp add: stride_window_def unat_BIG_STRIDE)
  then show ?thesis unfolding proc_stride_comp_f_def Let_def
    by (simp only: of_nat_less_iff of_nat_eq_iff diff_gt_0_iff_gt right_minus_eq split: if_split) auto
qed

lemma stride_cmp_ok: "stride_window ps S w \<Longrightarrow> cmp_ok (proc_stride_comp_f ps) S"
  unfolding cmp_ok_def by (auto simp: stride_comp_less)

lemma heap_ordered_cong:
  "(\<And>x y. x \<in> set_tree t \<Longrightarrow> y \<in> set_tree t \<Longrightarrow> c' x y = c x y) \<Longrightarrow> heap_ordered c' t = heap_ordered c t"
  by (induction t) auto

text \<open>The window after the process with the least stride has been advanced.\<close>

lemma stride_window_advance:
  assumes win: "stride_window ps S w" and p: "p \<in> S" "\<forall>x\<in>S. stride_off ps w p \<le> stride_off ps w x"
    and new: "lab6_stride (ps' p) = lab6_stride (ps p) + d" "unat d \<le> unat BIG_STRIDE"
    and same: "\<forall>x. x \<noteq> p \<longrightarrow> lab6_stride (ps' x) = lab6_stride (ps x)"
  shows "stride_window ps' S (lab6_stride (ps p))"
  unfolding stride_window_def
proof
  fix x assume x: "x \<in> S"
  show "stride_off ps' (lab6_stride (ps p)) x \<le> unat BIG_STRIDE"
  proof (cases "x = p")
    case True
    then show ?thesis using new by simp
  next
    case False
    have "lab6_stride (ps x) - lab6_stride (ps p) = (lab6_stride (ps x) - w) - (lab6_stride (ps p) - w)" by simp
    also have "unat \<dots> = stride_off ps w x - stride_off ps w p"
      using p(2) x by (intro unat_sub) (simp add: word_le_nat_alt)
    finally have "unat (lab6_stride (ps x) - lab6_stride (ps p)) \<le> stride_off ps w x" by simp
    then show ?thesis using False same win x by (fastforce simp: stride_window_def)
  qed
qed

definition stride_ordered :: "'a sched_scheme \<Rightarrow> nat set \<Rightarrow> bool" where
  "stride_ordered s Q \<longleftrightarrow> (\<exists>t xs. stride_queue s t xs \<and> set xs = Q \<and>
     heap_ordered (proc_stride_comp_f (procs s)) t)"

lemma stride_enqueue_ordered:
  assumes "stride_ordered s Q" "stride_ready p s" "stride_window (procs s) (insert p Q) w"
  shows "\<exists>s'. stride_enqueue p s = Some s' \<and> stride_ordered s' (insert p Q) \<and> same_control s s' \<and>
    stride_window (procs s') (insert p Q) w"
proof -
  obtain t xs where q: "stride_queue s t xs" "set xs = Q" "heap_ordered (proc_stride_comp_f (procs s)) t"
    using assms(1) by (auto simp: stride_ordered_def)
  let ?c = "proc_stride_comp_f (procs s)"
  have st: "set_tree t = Q" using q(1,2) by (simp add: stride_queue_def)
  obtain s' where s': "stride_enqueue p s = Some s'" "stride_queue s' (smerge ?c t \<langle>\<langle>\<rangle>, p, \<langle>\<rangle>\<rangle>) (xs @ [p])"
    "same_control s s'" "\<forall>x. lab6_stride (procs s' x) = lab6_stride (procs s x)"
    using stride_enqueue_queue[OF q(1) assms(2)] by blast
  have eq: "proc_stride_comp_f (procs s') = ?c" using s'(4) by (simp add: proc_stride_comp_f_def fun_eq_iff)
  have "heap_ordered ?c (smerge ?c t \<langle>\<langle>\<rangle>, p, \<langle>\<rangle>\<rangle>)"
    using q(3) stride_cmp_ok[OF assms(3)] st by (intro heap_ordered_smerge) auto
  moreover have "set (xs @ [p]) = insert p Q" using q(2) by auto
  ultimately have "stride_ordered s' (insert p Q)" unfolding stride_ordered_def eq using s'(2) by blast
  then show ?thesis using s' assms(3) by (auto simp: stride_window_def)
qed

lemma stride_pick_dequeue_ordered:
  assumes ord: "stride_ordered s Q" and win: "stride_window (procs s) Q w" and ne: "Q \<noteq> {}" "card Q < 2 ^ 32"
  shows "\<exists>p s1 s2. stride_pick_next s = (Some p, s1) \<and> stride_dequeue p s1 = Some s2 \<and> p \<in> Q \<and>
    (\<forall>x\<in>Q. stride_off (procs s) w p \<le> stride_off (procs s) w x) \<and>
    stride_ordered s2 (Q - {p}) \<and> stride_ready p s2 \<and> stride_window (procs s2) Q (lab6_stride (procs s p)) \<and>
    lab6_stride (procs s2 p) = lab6_stride (procs s p) + BIG_STRIDE div (if lab6_priority (procs s p) = 0 then 1 else lab6_priority (procs s p))"
proof -
  obtain t xs where q: "stride_queue s t xs" "set xs = Q" "heap_ordered (proc_stride_comp_f (procs s)) t"
    using ord by (auto simp: stride_ordered_def)
  have tx: "set_tree t = Q" "distinct xs" "distinct (inorder t)"
    using q dlist_distinct[of "run_links s" RunList "map RunLink xs"] by (auto simp: stride_queue_def distinct_map heap_of_def)
  then obtain l p r where t: "t = \<langle>l, p, r\<rangle>" using ne(1) by (cases t) auto
  have len: "length xs < 2 ^ 32" using ne(2) q(2) tx(2) distinct_card by fastforce
  have p: "p \<in> Q" using t tx(1) by auto
  have min: "\<forall>x\<in>Q. stride_off (procs s) w p \<le> stride_off (procs s) w x"
    using heap_root_min[OF q(3), of p] t tx(1) stride_comp_less[OF win _ p] by fastforce
  define d where "d = BIG_STRIDE div (if lab6_priority (procs s p) = 0 then 1 else lab6_priority (procs s p))"
  define s1 where "s1 = upd_proc p (\<lambda>q. q\<lparr>lab6_stride := lab6_stride q + d\<rparr>) s"
  have s1: "stride_pick_next s = (Some p, s1)" "stride_queue s1 t xs"
    using stride_pick_root[OF q(1)] t q(1) by (auto simp: s1_def d_def stride_queue_stride_change)
  let ?c = "proc_stride_comp_f (procs s1)"
  obtain s2 where s2: "stride_dequeue p s1 = Some s2" "stride_queue s2 (sremove ?c p t) (remove1 p xs)"
    "stride_ready p s2" "\<forall>x. lab6_stride (procs s2 x) = lab6_stride (procs s1 x)"
    using stride_dequeue_queue[OF s1(2) _ len, of p] t by auto
  have "unat d \<le> unat BIG_STRIDE" by (auto simp: d_def unat_div div_le_dividend)
  then have win2: "stride_window (procs s2) Q (lab6_stride (procs s p))"
    using s2(4) by (intro stride_window_advance[OF win p min, of _ d]) (auto simp: s1_def)
  have c2: "proc_stride_comp_f (procs s2) = ?c" using s2(4) by (simp add: proc_stride_comp_f_def fun_eq_iff)
  have agree: "?c x y = proc_stride_comp_f (procs s) x y" if "x \<noteq> p" "y \<noteq> p" for x y
    using that by (simp add: proc_stride_comp_f_def s1_def)
  have sub: "heap_ordered ?c u = heap_ordered (proc_stride_comp_f (procs s)) u" if "p \<notin> set_tree u" for u
    using that by (intro heap_ordered_cong agree) auto
  have "heap_ordered ?c l" "heap_ordered ?c r" using q(3) t tx(3) sub[of l] sub[of r] by auto
  moreover have "cmp_ok ?c (set_tree l \<union> set_tree r)"
    using stride_cmp_ok[OF win2] tx(1) t unfolding c2 by (auto elim: cmp_ok_subset)
  ultimately have "heap_ordered ?c (sremove ?c p t)" using t by (simp add: heap_ordered_smerge)
  moreover have "set (remove1 p xs) = Q - {p}" using q(2) tx(2) by simp
  ultimately have "stride_ordered s2 (Q - {p})" unfolding stride_ordered_def c2 using s2(2) by blast
  moreover have "lab6_stride (procs s2 p) = lab6_stride (procs s p) + d" using s2(4) by (simp add: s1_def)
  ultimately show ?thesis using s1(1) s2(1,3) p min win2 unfolding d_def by blast
qed

subsection \<open>Properties\<close>

text \<open>
  C20. With stride counters that wrap around at 32 bits, as long as the waiting processes'
  counters lie within BIG_STRIDE of a common origin on the circle, the process picked is one
  with the least stride; it is advanced by BIG_STRIDE over its priority, and after it has been
  dequeued and enqueued again the heap is ordered and the counters still lie within BIG_STRIDE
  of a common origin, so the comparison stays meaningful for ever.
\<close>

theorem stride_round_correct:
  assumes "stride_ordered s Q" and "stride_window (procs s) Q w" and "Q \<noteq> {}" and "card Q < 2 ^ 32"
  shows "\<exists>p s1 s2 s3 w'. stride_pick_next s = (Some p, s1) \<and> stride_dequeue p s1 = Some s2 \<and>
    stride_enqueue p s2 = Some s3 \<and> p \<in> Q \<and>
    (\<forall>x\<in>Q. unat (lab6_stride (procs s p) - w) \<le> unat (lab6_stride (procs s x) - w)) \<and>
    lab6_stride (procs s2 p) = lab6_stride (procs s p) +
      BIG_STRIDE div (if lab6_priority (procs s p) = 0 then 1 else lab6_priority (procs s p)) \<and>
    stride_ordered s3 Q \<and> stride_window (procs s3) Q w'"
proof -
  obtain p s1 s2 where p: "stride_pick_next s = (Some p, s1)" "stride_dequeue p s1 = Some s2" "p \<in> Q"
    "\<forall>x\<in>Q. stride_off (procs s) w p \<le> stride_off (procs s) w x"
    "stride_ordered s2 (Q - {p})" "stride_ready p s2" "stride_window (procs s2) Q (lab6_stride (procs s p))"
    "lab6_stride (procs s2 p) = lab6_stride (procs s p) + BIG_STRIDE div (if lab6_priority (procs s p) = 0 then 1 else lab6_priority (procs s p))"
    using stride_pick_dequeue_ordered[OF assms] by blast
  have "insert p (Q - {p}) = Q" using p(3) by auto
  then show ?thesis using stride_enqueue_ordered[OF p(5,6), of "lab6_stride (procs s p)"] p by auto
qed

theorem stride_round_correct_witness:
  "let s = sched_init stride_sched_class boot_sched
   in \<exists>s1 s2 s3 s4. stride_enqueue 3 s = Some s1 \<and> stride_pick_next s1 = (Some 3, s2) \<and>
        stride_dequeue 3 s2 = Some s3 \<and> stride_enqueue 3 s3 = Some s4 \<and> stride_ordered s4 {3}"
proof -
  let ?s = "sched_init stride_sched_class boot_sched"
  have "stride_queue ?s \<langle>\<rangle> []" "stride_ready 3 ?s" "stride_window (procs ?s) {3} 0"
    by (simp_all add: stride_queue_def heap_of_def dlist_Nil_iff sched_init_def Let_def stride_sched_class_def
        stride_init_def boot_sched_def list_init_def u32_def stride_ready_def alloc_proc_fields_def stride_window_def)
  moreover from this(1) have "stride_ordered ?s {}" unfolding stride_ordered_def by fastforce
  ultimately obtain s1 where s1: "stride_enqueue 3 ?s = Some s1" "stride_ordered s1 {3}" "stride_window (procs s1) {3} 0"
    using stride_enqueue_ordered[of ?s "{}" 3 0] by auto
  show ?thesis using stride_round_correct[OF s1(2,3)] s1(1) unfolding Let_def by auto
qed

end
