(* ===== verification/ProcFork.thy ===== *)
theory ProcFork
  imports ProcSpec RRSched StrideSched
begin

text \<open>
  The process table as a whole: the ring of all processes, the chains by process number
  and the numbers in use agree. Looking a number up, creating a process and reaping one.
\<close>

subsection \<open>Looking a process up\<close>

lemma hlist_next:
  assumes "dlist h (HashList k) (map HashLink (xs @ ys))"
  shows "list_next h (last (HashList k # map HashLink xs)) = (case ys of [] \<Rightarrow> HashList k | y # _ \<Rightarrow> HashLink y)"
  using dlist_next[of h "HashList k" "map HashLink xs" "map HashLink ys"] assms
  by (cases ys) (simp_all del: last.simps)

lemma last_hlink: "last (HashList k # map HashLink (xs @ [y])) = HashLink y"
  by simp

lemma find_proc_loop_ok:
  "dlist (hash_links s) (HashList k) (map HashLink (xs @ ys)) \<Longrightarrow>
   find_proc_loop s (last (HashList k # map HashLink xs)) pd = Some (find (\<lambda>p. pid (procs s p) = pd) ys)"
proof (induction ys arbitrary: xs)
  case Nil
  then show ?case using hlist_next[OF Nil] by (subst find_proc_loop.simps) (simp del: last.simps)
next
  case (Cons y ys)
  have "find_proc_loop s (last (HashList k # map HashLink (xs @ [y]))) pd = Some (find (\<lambda>p. pid (procs s p) = pd) ys)"
    by (rule Cons.IH) (use Cons.prems in simp)
  then show ?case unfolding last_hlink using hlist_next[OF Cons.prems] by (subst find_proc_loop.simps) (simp del: last.simps)
qed

text \<open>
  The table with the processes \<open>ps\<close>; the idle process is counted and not listed. The
  chain of each hash value holds the listed processes with that value.
\<close>

definition ptable_ok :: "nat list \<Rightarrow> 'a ptable_scheme \<Rightarrow> bool" where
  "ptable_ok ps s \<longleftrightarrow> dlist (proc_links s) ProcList (map ProcLink ps) \<and> nr_process s = int (length ps) + 1 \<and>
     inj_on (\<lambda>p. pid (procs s p)) (set ps) \<and> (\<forall>p\<in>set ps. 1 \<le> pid (procs s p) \<and> pid (procs s p) < MAX_PID) \<and>
     pid_ok ps s \<and>
     (\<forall>k. \<exists>xs. dlist (hash_links s) (HashList k) (map HashLink xs) \<and>
            set xs = {p \<in> set ps. pid_hashfn (pid (procs s p)) = k})"

lemma find_proc_ok:
  assumes ok: "ptable_ok ps s"
  shows "find_proc pd s = Some (find (\<lambda>p. pid (procs s p) = pd) ps)"
proof (cases "0 < pd \<and> pd < MAX_PID")
  case True
  obtain xs where xs: "dlist (hash_links s) (HashList (pid_hashfn pd)) (map HashLink xs)"
    "set xs = {p \<in> set ps. pid_hashfn (pid (procs s p)) = pid_hashfn pd}"
    using ok unfolding ptable_ok_def by blast
  have inj: "p = q" if "p \<in> set ps" "q \<in> set ps" "pid (procs s p) = pid (procs s q)" for p q
    using ok that unfolding ptable_ok_def inj_on_def by blast
  have "find (\<lambda>p. pid (procs s p) = pd) xs = find (\<lambda>p. pid (procs s p) = pd) ps"
  proof (cases "\<exists>p\<in>set ps. pid (procs s p) = pd")
    case True
    then obtain p where p: "p \<in> set ps" "pid (procs s p) = pd" by blast
    have uniq: "find (\<lambda>p. pid (procs s p) = pd) zs = Some p" if zs: "p \<in> set zs" "set zs \<subseteq> set ps" for zs
      using zs by (induction zs) (use p inj in auto)
    show ?thesis using uniq[of xs] uniq[of ps] p xs(2) by auto
  next
    case False
    then show ?thesis using xs(2) by (simp add: find_None_iff[THEN iffD2])
  qed
  then show ?thesis using True find_proc_loop_ok[of s "pid_hashfn pd" "[]" xs pd] xs(1) by (simp add: find_proc_def)
next
  case False
  have "\<not> (\<exists>p\<in>set ps. pid (procs s p) = pd)" using ok False by (auto simp: ptable_ok_def)
  then have "find (\<lambda>p. pid (procs s p) = pd) ps = None" by (simp add: find_None_iff)
  then show ?thesis using False by (auto simp: find_proc_def)
qed

subsection \<open>The table gains and loses a process\<close>

lemma ptable_ok_cong:
  assumes "proc_links s' = proc_links s" "hash_links s' = hash_links s" "nr_process s' = nr_process s"
    "last_pid s' = last_pid s" "next_safe s' = next_safe s" "\<And>p. p \<in> set ps \<Longrightarrow> pid (procs s' p) = pid (procs s p)"
  shows "ptable_ok ps s' = ptable_ok ps s"
proof -
  have im: "pids s' ps = pids s ps" using assms(6) by auto
  have inj: "inj_on (\<lambda>p. pid (procs s' p)) (set ps) = inj_on (\<lambda>p. pid (procs s p)) (set ps)"
    by (rule inj_on_cong) (use assms(6) in auto)
  have hs: "{p \<in> set ps. pid_hashfn (pid (procs s' p)) = k} = {p \<in> set ps. pid_hashfn (pid (procs s p)) = k}" for k
    using assms(6) by auto
  show ?thesis unfolding ptable_ok_def pid_ok_def im inj hs assms(1-5) using assms(6) by simp
qed

text \<open>A new process joins with a number that is not in use.\<close>

lemma hash_proc_chains:
  assumes ok: "\<forall>k. \<exists>xs. dlist (hash_links s) (HashList k) (map HashLink xs) \<and>
      set xs = {q \<in> A. pid_hashfn (pid (procs s q)) = k}" and p: "p \<notin> A"
  shows "\<exists>xs. dlist (hash_links (hash_proc p s)) (HashList k) (map HashLink xs) \<and>
      set xs = {q \<in> insert p A. pid_hashfn (pid (procs s q)) = k}"
proof -
  let ?j = "pid_hashfn (pid (procs s p))"
  obtain xs where xs: "dlist (hash_links s) (HashList ?j) (map HashLink xs)"
    "set xs = {q \<in> A. pid_hashfn (pid (procs s q)) = ?j}" using ok by blast
  show ?thesis
  proof (cases "k = ?j")
    case True
    have "dlist (hash_links (hash_proc p s)) (HashList ?j) (map HashLink (p # xs))"
      using dlist_add_after[of "hash_links s" "HashList ?j" "[]" "map HashLink xs" "HashLink p" "HashList ?j"] xs p
      by (auto simp: hash_proc_def list_add_def)
    then show ?thesis using True xs(2) p by (intro exI[of _ "p # xs"]) auto
  next
    case False
    obtain ys where ys: "dlist (hash_links s) (HashList k) (map HashLink ys)"
      "set ys = {q \<in> A. pid_hashfn (pid (procs s q)) = k}" using ok by blast
    have "dlist (hash_links (hash_proc p s)) (HashList k) (map HashLink ys) = dlist (hash_links s) (HashList k) (map HashLink ys)"
    proof (rule dlist_cong)
      fix q assume "q \<in> set (HashList k # map HashLink ys)"
      then have q: "q \<notin> set (HashList ?j # HashLink p # map HashLink xs)" using False xs(2) ys(2) p by auto
      show "next_of (hash_links (hash_proc p s)) q = next_of (hash_links s) q"
        "prev_of (hash_links (hash_proc p s)) q = prev_of (hash_links s) q"
        using dlist_add_frame[OF xs(1) q] by (simp_all add: hash_proc_def)
    qed
    then show ?thesis using ys False by (intro exI[of _ ys]) auto
  qed
qed

lemma unhash_proc_chains:
  assumes ok: "\<forall>k. \<exists>xs. dlist (hash_links s) (HashList k) (map HashLink xs) \<and>
      set xs = {q \<in> A. pid_hashfn (pid (procs s q)) = k}" and p: "p \<in> A"
  shows "\<exists>xs. dlist (hash_links (unhash_proc p s)) (HashList k) (map HashLink xs) \<and>
      set xs = {q \<in> A - {p}. pid_hashfn (pid (procs s q)) = k}"
proof -
  let ?j = "pid_hashfn (pid (procs s p))"
  obtain xs where xs: "dlist (hash_links s) (HashList ?j) (map HashLink xs)"
    "set xs = {q \<in> A. pid_hashfn (pid (procs s q)) = ?j}" using ok by blast
  then obtain us vs where uv: "xs = us @ p # vs" using p split_list[of p xs] by auto
  have d: "dlist (hash_links s) (HashList ?j) (map HashLink us @ HashLink p # map HashLink vs)" using xs(1) uv by simp
  have dist: "distinct (us @ p # vs)" using dlist_distinct[OF xs(1)] uv by (auto simp: distinct_map)
  show ?thesis
  proof (cases "k = ?j")
    case True
    have "dlist (hash_links (unhash_proc p s)) (HashList ?j) (map HashLink (us @ vs))"
      using dlist_del[OF d] by (simp add: unhash_proc_def)
    moreover have "set (us @ vs) = {q \<in> A - {p}. pid_hashfn (pid (procs s q)) = ?j}" using xs(2) uv dist by auto
    ultimately show ?thesis using True by (intro exI[of _ "us @ vs"]) simp
  next
    case False
    obtain ys where ys: "dlist (hash_links s) (HashList k) (map HashLink ys)"
      "set ys = {q \<in> A. pid_hashfn (pid (procs s q)) = k}" using ok by blast
    have "dlist (hash_links (unhash_proc p s)) (HashList k) (map HashLink ys) = dlist (hash_links s) (HashList k) (map HashLink ys)"
    proof (rule dlist_cong)
      fix q assume "q \<in> set (HashList k # map HashLink ys)"
      then have q: "q \<notin> set (HashList ?j # map HashLink us @ HashLink p # map HashLink vs)"
        using False xs(2) ys(2) p uv by auto
      show "next_of (hash_links (unhash_proc p s)) q = next_of (hash_links s) q"
        "prev_of (hash_links (unhash_proc p s)) q = prev_of (hash_links s) q"
        using dlist_del_frame[OF d q] by (simp_all add: unhash_proc_def)
    qed
    then show ?thesis using ys False by (intro exI[of _ ys]) auto
  qed
qed

lemma same_but_links_fields:
  assumes "same_but_links P P'"
  shows "pstate (P' x) = pstate (P x)" "pid (P' x) = pid (P x)" "wait_state (P' x) = wait_state (P x)"
    "p_rq (P' x) = p_rq (P x)" "lab6_stride (P' x) = lab6_stride (P x)" "tf (P' x) = tf (P x)"
    "pcontext (P' x) = pcontext (P x)" "exit_code (P' x) = exit_code (P x)" "parent_p (P' x) = parent_p (P x)"
proof -
  obtain y e c where "P' x = (P x)\<lparr>yptr := y, optr := e, cptr := c\<rparr>" using assms unfolding same_but_links_def by blast
  then show "pstate (P' x) = pstate (P x)" "pid (P' x) = pid (P x)" "wait_state (P' x) = wait_state (P x)"
    "p_rq (P' x) = p_rq (P x)" "lab6_stride (P' x) = lab6_stride (P x)" "tf (P' x) = tf (P x)"
    "pcontext (P' x) = pcontext (P x)" "exit_code (P' x) = exit_code (P x)" "parent_p (P' x) = parent_p (P x)" by simp_all
qed

lemma ptable_ok_new:
  assumes ok: "ptable_ok ps s" and p: "p \<notin> set ps"
    and pd: "1 \<le> pd" "pd < MAX_PID" "pd \<notin> pids s ps" "n \<le> MAX_PID" "\<forall>q\<in>pids s ps. q \<le> pd \<or> n \<le> q"
    and s': "proc_links s' = list_add (proc_links s) ProcList (ProcLink p)"
      "hash_links s' = hash_links (hash_proc p (upd_proc p (\<lambda>q. q\<lparr>pid := pd\<rparr>) s))"
      "nr_process s' = nr_process s + 1" "last_pid s' = pd" "next_safe s' = n"
      "\<And>x. pid (procs s' x) = (if x = p then pd else pid (procs s x))"
  shows "ptable_ok (p # ps) s'"
proof -
  have im: "pids s' (p # ps) = insert pd (pids s ps)" using p s'(6) by auto
  have d: "dlist (proc_links s') ProcList (map ProcLink (p # ps))"
    using dlist_add_after[of "proc_links s" ProcList "[]" "map ProcLink ps" "ProcLink p" ProcList] ok p
    by (auto simp: ptable_ok_def s'(1) list_add_def)
  have inj: "inj_on (\<lambda>x. pid (procs s' x)) (set (p # ps))"
    using ok pd(3) p unfolding ptable_ok_def inj_on_def s'(6) by (auto split: if_splits)
  let ?u = "upd_proc p (\<lambda>q. q\<lparr>pid := pd\<rparr>) s"
  have hs: "\<forall>k. \<exists>xs. dlist (hash_links ?u) (HashList k) (map HashLink xs) \<and>
      set xs = {q \<in> set ps. pid_hashfn (pid (procs ?u q)) = k}"
  proof
    fix k
    have "{q \<in> set ps. pid_hashfn (pid (procs ?u q)) = k} = {q \<in> set ps. pid_hashfn (pid (procs s q)) = k}"
      using p by auto
    then show "\<exists>xs. dlist (hash_links ?u) (HashList k) (map HashLink xs) \<and>
      set xs = {q \<in> set ps. pid_hashfn (pid (procs ?u q)) = k}"
      using ok by (simp add: ptable_ok_def upd_proc_def)
  qed
  have same: "pid (procs ?u q) = pid (procs s' q)" for q using s'(6) by simp
  have "\<exists>xs. dlist (hash_links s') (HashList k) (map HashLink xs) \<and>
      set xs = {q \<in> set (p # ps). pid_hashfn (pid (procs s' q)) = k}" for k
    using hash_proc_chains[OF hs p, of k] unfolding s'(2) same by simp
  moreover have "pid_ok (p # ps) s'" unfolding pid_ok_def im s'(4,5) using pd by auto
  moreover have "\<forall>q\<in>set (p # ps). 1 \<le> pid (procs s' q) \<and> pid (procs s' q) < MAX_PID"
    using ok pd(1,2) s'(6) by (auto simp: ptable_ok_def)
  ultimately show ?thesis using d inj ok s'(3) by (simp add: ptable_ok_def)
qed

lemma fork_register_ok:
  assumes ok: "ptable_ok ps s" and nr: "nr_process s < MAX_PROCESS" and p: "p \<notin> set ps" "p \<noteq> q" "p \<notin> set cs"
    and par: "parent_p (procs s p) = Some q" and fam: "family (procs s) q cs"
  shows "\<exists>s' pd n P. fork_register p s = Some s' \<and> ptable_ok (p # ps) s' \<and>
    1 \<le> pd \<and> pd < MAX_PID \<and> pd \<notin> pids s ps \<and>
    s' = s\<lparr>last_pid := pd, next_safe := n, procs := procs s', hash_links := hash_links s', proc_links := proc_links s',
      nr_process := nr_process s + 1\<rparr> \<and>
    P = (procs s)(p := (procs s p)\<lparr>pid := pd\<rparr>) \<and> adopts P q cs p (procs s') \<and> same_but_links P (procs s') \<and>
    (\<forall>r. r \<noteq> q \<longrightarrow> cptr (procs s' r) = cptr (procs s r))"
proof -
  have "dlist (proc_links s) ProcList (map ProcLink ps)" "pid_ok ps s" "int (length ps) < MAX_PID - 1"
    using ok nr by (auto simp: ptable_ok_def MAX_PID_def MAX_PROCESS_def)
  from get_pid_ok[OF this] obtain pd n where g: "get_pid s = Some (pd, s\<lparr>last_pid := pd, next_safe := n\<rparr>)"
    "1 \<le> pd" "pd < MAX_PID" "pd \<notin> pids s ps" "n \<le> MAX_PID" "\<forall>q\<in>pids s ps. q \<le> pd \<or> n \<le> q" by blast
  define u where "u = hash_proc p (upd_proc p (\<lambda>q. q\<lparr>pid := pd\<rparr>) (s\<lparr>last_pid := pd, next_safe := n\<rparr>))"
  have pu: "procs u = (procs s)(p := (procs s p)\<lparr>pid := pd\<rparr>)" by (simp add: u_def hash_proc_def upd_proc_def)
  have hu: "hash_links u = hash_links (hash_proc p (upd_proc p (\<lambda>q. q\<lparr>pid := pd\<rparr>) s))"
    by (simp add: u_def hash_proc_def upd_proc_def)
  have uq: "u = s\<lparr>last_pid := pd, next_safe := n, procs := procs u, hash_links := hash_links u\<rparr>"
    by (simp add: u_def hash_proc_def upd_proc_def)
  have "family (procs u) q cs = family (procs s) q cs" unfolding pu by (rule family_cong) auto
  moreover have "parent_p (procs u p) = Some q" using par pu by simp
  ultimately obtain s' where s': "set_links p u = Some s'"
    "s' = u\<lparr>proc_links := list_add (proc_links u) ProcList (ProcLink p), procs := procs s', nr_process := nr_process u + 1\<rparr>"
    "adopts (procs u) q cs p (procs s')" "same_but_links (procs u) (procs s')"
    "\<forall>r. r \<noteq> q \<longrightarrow> cptr (procs s' r) = cptr (procs u r)"
    using set_links_ok[of u q cs p] fam p by blast
  have f: "proc_links u = proc_links s" "nr_process u = nr_process s" "last_pid u = pd" "next_safe u = n"
    by (subst uq, simp)+
  have f': "proc_links s' = list_add (proc_links s) ProcList (ProcLink p)" "hash_links s' = hash_links u"
    "nr_process s' = nr_process s + 1" "last_pid s' = pd" "next_safe s' = n"
    by (subst s'(2), simp add: f)+
  have pidx: "pid (procs s' x) = (if x = p then pd else pid (procs s x))" for x
    using same_but_links_fields(2)[OF s'(4)] pu by simp
  have "ptable_ok (p # ps) s'"
    by (rule ptable_ok_new[OF ok p(1) g(2-6)]) (use f' hu pidx in auto)
  moreover have "fork_register p s = Some s'" using g(1) s'(1) by (simp add: fork_register_def u_def)
  moreover have "s' = s\<lparr>last_pid := pd, next_safe := n, procs := procs s', hash_links := hash_links s', proc_links := proc_links s',
      nr_process := nr_process s + 1\<rparr>"
  proof -
    have "s' = u\<lparr>procs := procs s', hash_links := hash_links s', proc_links := proc_links s', nr_process := nr_process s'\<rparr>"
      by (subst s'(2)) (simp add: f' f)
    also have "\<dots> = s\<lparr>last_pid := pd, next_safe := n, procs := procs s', hash_links := hash_links s', proc_links := proc_links s',
      nr_process := nr_process s'\<rparr>" by (subst uq) simp
    finally show ?thesis using f'(3) by simp
  qed
  moreover have "\<forall>r. r \<noteq> q \<longrightarrow> cptr (procs s' r) = cptr (procs s r)" using s'(5) pu by simp
  ultimately show ?thesis using g(2-4) s'(3,4) unfolding pu
    by - (rule exI[of _ s'], rule exI[of _ pd], rule exI[of _ n], rule exI[of _ "(procs s)(p := (procs s p)\<lparr>pid := pd\<rparr>)"], simp)
qed

lemma sched_more_ptable:
  assumes "sched.more s' = sched.more s"
  shows "proc_links s' = proc_links s" "hash_links s' = hash_links s" "nr_process s' = nr_process s"
    "last_pid s' = last_pid s" "next_safe s' = next_safe s" "live_procs s' = live_procs s"
  using assms by (cases s; cases s'; simp)+

lemma ptable_ok_gone:
  assumes ok: "ptable_ok (us @ p # vs) s"
    and s': "proc_links s' = list_del (proc_links s) (ProcLink p)" "hash_links s' = hash_links (unhash_proc p s)"
      "nr_process s' = nr_process s - 1" "last_pid s' = last_pid s" "next_safe s' = next_safe s"
      "\<And>x. pid (procs s' x) = pid (procs s x)"
  shows "ptable_ok (us @ vs) s'"
proof -
  let ?ps = "us @ p # vs"
  have d: "dlist (proc_links s) ProcList (map ProcLink us @ ProcLink p # map ProcLink vs)"
    using ok by (simp add: ptable_ok_def)
  have dist: "distinct ?ps" using dlist_distinct[OF d] by (auto simp: distinct_map)
  have "dlist (proc_links s') ProcList (map ProcLink (us @ vs))" using dlist_del[OF d] s'(1) by simp
  moreover have "inj_on (\<lambda>x. pid (procs s' x)) (set (us @ vs))"
    using ok unfolding ptable_ok_def s'(6) by (auto intro: inj_on_subset)
  moreover have "pid_ok (us @ vs) s'" using ok unfolding ptable_ok_def pid_ok_def s'(4-6) by auto
  moreover have "\<exists>xs. dlist (hash_links s') (HashList k) (map HashLink xs) \<and>
      set xs = {q \<in> set (us @ vs). pid_hashfn (pid (procs s' q)) = k}" for k
  proof -
    have set: "set ?ps - {p} = set (us @ vs)" using dist by auto
    have "\<forall>k. \<exists>xs. dlist (hash_links s) (HashList k) (map HashLink xs) \<and>
      set xs = {q \<in> set ?ps. pid_hashfn (pid (procs s q)) = k}" using ok unfolding ptable_ok_def by blast
    from unhash_proc_chains[OF this, of p k] show ?thesis unfolding set s'(2,6) by simp
  qed
  ultimately show ?thesis using ok s'(3,6) by (simp add: ptable_ok_def)
qed

subsection \<open>The contract of the resources\<close>

text \<open>
  What an operation on the resources of the process \<open>p\<close> leaves alone: it may change its
  stack, its address space, its files and its frame, and the state of other components.
\<close>

definition table_frame :: "nat \<Rightarrow> 'a ptable_scheme \<Rightarrow> 'a ptable_scheme \<Rightarrow> bool" where
  "table_frame p s s' \<longleftrightarrow>
     current s' = current s \<and> idleproc s' = idleproc s \<and> initproc s' = initproc s \<and> proc_links s' = proc_links s \<and>
     hash_links s' = hash_links s \<and> nr_process s' = nr_process s \<and> last_pid s' = last_pid s \<and>
     next_safe s' = next_safe s \<and> live_procs s' = live_procs s \<and> queue_part s' = queue_part s \<and>
     (\<forall>x. x \<noteq> p \<longrightarrow> procs s' x = procs s x) \<and>
     pstate (procs s' p) = pstate (procs s p) \<and> wait_state (procs s' p) = wait_state (procs s p) \<and>
     pid (procs s' p) = pid (procs s p) \<and> parent_p (procs s' p) = parent_p (procs s p) \<and>
     cptr (procs s' p) = cptr (procs s p) \<and> yptr (procs s' p) = yptr (procs s p) \<and> optr (procs s' p) = optr (procs s p)"

lemma table_frame_trans: "table_frame p s t \<Longrightarrow> table_frame p t u \<Longrightarrow> table_frame p s u"
  unfolding table_frame_def by simp

lemma table_frame_fields:
  assumes "table_frame p s s'"
  shows "pstate (procs s' x) = pstate (procs s x)" "wait_state (procs s' x) = wait_state (procs s x)"
    "pid (procs s' x) = pid (procs s x)" "parent_p (procs s' x) = parent_p (procs s x)"
    "cptr (procs s' x) = cptr (procs s x)" "yptr (procs s' x) = yptr (procs s x)" "optr (procs s' x) = optr (procs s x)"
  using assms by (cases "x = p"; simp add: table_frame_def)+

lemma table_frame_state:
  assumes "table_frame p s s'"
  shows "current s' = current s" "idleproc s' = idleproc s" "initproc s' = initproc s" "proc_links s' = proc_links s"
    "hash_links s' = hash_links s" "nr_process s' = nr_process s" "last_pid s' = last_pid s"
    "next_safe s' = next_safe s" "live_procs s' = live_procs s" "queue_part s' = queue_part s"
    "x \<noteq> p \<Longrightarrow> procs s' x = procs s x"
  using assms by (simp_all add: table_frame_def)

lemma table_frame_family: "table_frame p s s' \<Longrightarrow> family (procs s') q cs = family (procs s) q cs"
  by (rule family_cong) (simp_all add: table_frame_fields)

lemma table_frame_ptable: "table_frame p s s' \<Longrightarrow> ptable_ok ps s' = ptable_ok ps s"
  by (rule ptable_ok_cong) (erule table_frame_state table_frame_fields)+

lemma upd_proc_frame:
  assumes "pstate (f (procs s p)) = pstate (procs s p)" "wait_state (f (procs s p)) = wait_state (procs s p)"
    "pid (f (procs s p)) = pid (procs s p)" "parent_p (f (procs s p)) = parent_p (procs s p)"
    "cptr (f (procs s p)) = cptr (procs s p)" "yptr (f (procs s p)) = yptr (procs s p)" "optr (f (procs s p)) = optr (procs s p)"
    "p_rq (f (procs s p)) = p_rq (procs s p)" "lab6_stride (f (procs s p)) = lab6_stride (procs s p)"
  shows "table_frame p s (upd_proc p f s)"
proof -
  have "queue_part (upd_proc p f s) = queue_part s" using assms(8,9) by (auto simp: queue_part_def fun_eq_iff)
  then show ?thesis using assms(1-7) by (simp add: table_frame_def) (simp add: upd_proc_def)
qed

lemma copy_thread_frame: "table_frame p s (copy_thread fr p esp frame s)"
  unfolding copy_thread_def Let_def by (rule upd_proc_frame) simp_all

text \<open>\<open>fork_res_ok\<close>: none of the calls blocks, and each keeps to its own part of the state.\<close>

definition fork_res_ok :: "'a ptable_scheme fork_res \<Rightarrow> bool" where
  "fork_res_ok R \<longleftrightarrow>
     (\<forall>s. case fr_kmalloc R s of
        (None, s') \<Rightarrow> \<exists>e. s' = ptable.more_update e s
      | (Some p, s') \<Rightarrow> p \<notin> live_procs s \<and> (\<exists>e. s' = ptable.more_update e (s\<lparr>live_procs := insert p (live_procs s)\<rparr>))) \<and>
     (\<forall>p s. \<exists>e. fr_kfree R p s = ptable.more_update e (s\<lparr>live_procs := live_procs s - {p}\<rparr>)) \<and>
     (\<forall>p s. table_frame p s (snd (fr_setup_kstack R p s))) \<and> (\<forall>p s. table_frame p s (fr_put_kstack R p s)) \<and>
     (\<forall>f p s. table_frame p s (snd (fr_copy_mm R f p s))) \<and> (\<forall>f p s. table_frame p s (snd (fr_copy_files R f p s))) \<and>
     (\<forall>p s. table_frame p s (fr_put_files R p s))"

lemma fork_res_okD:
  assumes "fork_res_ok R"
  shows "fr_kmalloc R s = (None, s') \<Longrightarrow> \<exists>e. s' = ptable.more_update e s"
    "fr_kmalloc R s = (Some p, s') \<Longrightarrow> p \<notin> live_procs s \<and> (\<exists>e. s' = ptable.more_update e (s\<lparr>live_procs := insert p (live_procs s)\<rparr>))"
    "\<exists>e. fr_kfree R p s = ptable.more_update e (s\<lparr>live_procs := live_procs s - {p}\<rparr>)"
    "fr_setup_kstack R p s = (r, s') \<Longrightarrow> table_frame p s s'" "table_frame p s (fr_put_kstack R p s)"
    "fr_copy_mm R f p s = (r, s') \<Longrightarrow> table_frame p s s'" "fr_copy_files R f p s = (r, s') \<Longrightarrow> table_frame p s s'"
    "table_frame p s (fr_put_files R p s)"
proof -
  note R = assms[unfolded fork_res_ok_def]
  show "fr_kmalloc R s = (None, s') \<Longrightarrow> \<exists>e. s' = ptable.more_update e s"
    using conjunct1[OF R, rule_format, of s] by simp
  show "fr_kmalloc R s = (Some p, s') \<Longrightarrow> p \<notin> live_procs s \<and> (\<exists>e. s' = ptable.more_update e (s\<lparr>live_procs := insert p (live_procs s)\<rparr>))"
    using conjunct1[OF R, rule_format, of s] by simp
  show "\<exists>e. fr_kfree R p s = ptable.more_update e (s\<lparr>live_procs := live_procs s - {p}\<rparr>)" using R by blast
  show "fr_setup_kstack R p s = (r, s') \<Longrightarrow> table_frame p s s'" using R by (metis snd_conv)
  show "fr_copy_mm R f p s = (r, s') \<Longrightarrow> table_frame p s s'" using R by (metis snd_conv)
  show "fr_copy_files R f p s = (r, s') \<Longrightarrow> table_frame p s s'" using R by (metis snd_conv)
  show "table_frame p s (fr_put_kstack R p s)" "table_frame p s (fr_put_files R p s)" using R by blast+
qed

subsection \<open>Creating a process\<close>

text \<open>The blocks of the processes that can run, and of the table, are allocated.\<close>

definition blocks_live :: "nat list \<Rightarrow> 'a ptable_scheme \<Rightarrow> bool" where
  "blocks_live ps s \<longleftrightarrow> set ps \<subseteq> live_procs s \<and>
     (\<forall>c. current s = Some c \<longrightarrow> c \<in> live_procs s) \<and> (\<forall>q. pstate (procs s q) = PROC_RUNNABLE \<longrightarrow> q \<in> live_procs s)"

text \<open>A block given back by \<^verbatim>\<open>kmalloc\<close> is not in the run queue: its links can be set up anew.\<close>

locale fork_system = proc_system cls qinv ready
  for cls :: "'a ptable_scheme sched_class" and qinv ready +
  assumes init_block_ok: "qinv s Q \<Longrightarrow> p \<notin> Q \<Longrightarrow>
    qinv (init_block b p s) Q \<and> ready p (init_block b p s) \<and> (\<forall>q. q \<noteq> p \<longrightarrow> ready q s \<longrightarrow> ready q (init_block b p s))"
begin

lemma sched_inv_more: "sched_inv qinv ready (ptable.more_update e s) = sched_inv qinv ready s"
  by (rule proc_inv_cong) (simp_all add: queue_part_def)

lemma sched_inv_live: "sched_inv qinv ready (s\<lparr>live_procs := l\<rparr>) = sched_inv qinv ready s"
  by (rule proc_inv_cong) (simp_all add: queue_part_def)

lemma sched_inv_frame: "table_frame p s s' \<Longrightarrow> sched_inv qinv ready s' = sched_inv qinv ready s"
  by (rule proc_inv_cong) (erule table_frame_state table_frame_fields)+

lemma init_block_inv:
  assumes inv: "sched_inv qinv ready s" and p: "pstate (procs s p) \<noteq> PROC_RUNNABLE"
  shows "sched_inv qinv ready (init_block b p s)" "ready p (init_block b p s)"
proof -
  have rq: "runq (init_block b p s) = runq s" "p \<notin> runq s"
    using p by (auto simp: runq_def init_block_def alloc_proc_fields_def)
  have q: "qinv s (runq s)" using inv by (simp add: sched_inv_def)
  note ib = init_block_ok[OF q rq(2), of b]
  show "ready p (init_block b p s)" using ib by blast
  have f: "current (init_block b p s) = current s" "idleproc (init_block b p s) = idleproc s"
    "\<And>x. pstate (procs (init_block b p s) x) = (if x = p then PROC_UNINIT else pstate (procs s x))"
    by (auto simp: init_block_def alloc_proc_fields_def)
  show "sched_inv qinv ready (init_block b p s)"
    unfolding sched_inv_def rq f using ib inv p by (auto simp: sched_inv_def)
qed

text \<open>The new block, filled in and with the running process as its parent.\<close>

lemma fork_start_ok:
  assumes inv: "sched_inv qinv ready s" and tab: "ptable_ok ps s" and live: "blocks_live ps s"
    and c: "current s = Some c" and p: "p \<notin> live_procs s"
    and s0: "s0 = ptable.more_update e (s\<lparr>live_procs := insert p (live_procs s)\<rparr>)"
    and s2_def: "s2 = upd_proc p (\<lambda>q. q\<lparr>parent_p := Some c\<rparr>) (init_block b p s0)"
  shows "sched_inv qinv ready s2" "ready p s2" "ptable_ok ps s2" "nr_process s2 = nr_process s" "current s2 = Some c"
    "idleproc s2 = idleproc s" "live_procs s2 = insert p (live_procs s)" "\<And>x. x \<noteq> p \<Longrightarrow> procs s2 x = procs s x"
    "pstate (procs s2 p) = PROC_UNINIT" "parent_p (procs s2 p) = Some c" "c \<noteq> p" "p \<notin> set ps" "initproc s2 = initproc s"
proof -
  have pn: "pstate (procs s p) \<noteq> PROC_RUNNABLE" "c \<noteq> p" "p \<notin> set ps" using live p c by (auto simp: blocks_live_def)
  then show "c \<noteq> p" "p \<notin> set ps" by auto
  have "sched_inv qinv ready s0" unfolding s0 using inv by (simp only: sched_inv_more sched_inv_live)
  moreover have "pstate (procs s0 p) \<noteq> PROC_RUNNABLE" using pn(1) by (simp add: s0)
  ultimately have ib: "sched_inv qinv ready (init_block b p s0)" "ready p (init_block b p s0)"
    using init_block_inv by blast+
  have qp: "queue_part s2 = queue_part (init_block b p s0)" unfolding s2_def queue_part_def by (simp add: fun_eq_iff)
  show "sched_inv qinv ready s2"
    using ib(1) proc_inv_cong[OF qp] by (simp add: s2_def)
  show "ready p s2" using ib(2) queue_cong[OF qp] by simp
  show f: "nr_process s2 = nr_process s" "current s2 = Some c" "idleproc s2 = idleproc s"
    "live_procs s2 = insert p (live_procs s)" "\<And>x. x \<noteq> p \<Longrightarrow> procs s2 x = procs s x"
    "pstate (procs s2 p) = PROC_UNINIT" "parent_p (procs s2 p) = Some c" "initproc s2 = initproc s"
    using c by (simp_all add: s2_def s0 init_block_def alloc_proc_fields_def upd_proc_def)
  show "ptable_ok ps s2"
    using tab by (subst ptable_ok_cong[of s2 s]) (use pn(3) in \<open>auto simp: s2_def s0 init_block_def upd_proc_def\<close>)
qed

text \<open>The new process enters the table and the run queue.\<close>

lemma fork_enter_ok:
  assumes inv: "sched_inv qinv ready s" "ready p s" "pstate (procs s p) = PROC_UNINIT"
    and tab: "ptable_ok ps s" "nr_process s < MAX_PROCESS"
    and p: "p \<notin> set ps" "p \<noteq> c" "p \<notin> set cs" "Some p \<noteq> idleproc s"
    and par: "parent_p (procs s p) = Some c" and fam: "family (procs s) c cs" and cur: "current s = Some c"
  shows "\<exists>s1 s' pd. fork_register p s = Some s1 \<and> wakeup_proc cls p s1 = Some s' \<and>
    1 \<le> pd \<and> pd < MAX_PID \<and> pd \<notin> pids s ps \<and> ptable_ok (p # ps) s' \<and> pid (procs s' p) = pd \<and>
    family (procs s') c (p # cs) \<and> sched_inv qinv ready s' \<and> p \<in> runq s' \<and> current s' = Some c \<and>
    tf (procs s' p) = tf (procs s p) \<and> pcontext (procs s' p) = pcontext (procs s p)"
proof -
  obtain s1 pd n P where s1: "fork_register p s = Some s1" "ptable_ok (p # ps) s1" "1 \<le> pd" "pd < MAX_PID" "pd \<notin> pids s ps"
    "s1 = s\<lparr>last_pid := pd, next_safe := n, procs := procs s1, hash_links := hash_links s1, proc_links := proc_links s1,
      nr_process := nr_process s + 1\<rparr>"
    "P = (procs s)(p := (procs s p)\<lparr>pid := pd\<rparr>)" "adopts P c cs p (procs s1)" "same_but_links P (procs s1)"
    using fork_register_ok[OF tab p(1-3) par fam] by blast
  have f1: "pstate (procs s1 x) = pstate (procs s x)"
    "p_rq (procs s1 x) = p_rq (procs s x)" "lab6_stride (procs s1 x) = lab6_stride (procs s x)"
    "tf (procs s1 x) = tf (procs s x)" "pcontext (procs s1 x) = pcontext (procs s x)"
    "pid (procs s1 p) = pd" for x
    using same_but_links_fields[OF s1(9)] by (simp_all add: s1(7))
  have g1: "current s1 = current s" "idleproc s1 = idleproc s" "run_links s1 = run_links s" "pool_links s1 = pool_links s"
    "lab6_run_pool s1 = lab6_run_pool s" "proc_num s1 = proc_num s" "max_time_slice s1 = max_time_slice s"
    by (subst s1(6), simp)+
  have qp: "queue_part s1 = queue_part s" by (simp add: queue_part_def f1 g1)
  have inv1: "sched_inv qinv ready s1" "ready p s1"
    using inv(1,2) proc_inv_cong[OF qp f1(1) g1(1,2)] queue_cong[OF qp] by simp_all
  obtain s' where s': "wakeup_proc cls p s1 = Some s'" "sched_inv qinv ready s'" "pstate (procs s' p) = PROC_RUNNABLE"
    "current s' = current s" "idleproc s' = idleproc s" "sched.more s' = sched.more s1"
    "\<forall>q. static_part (procs s' q) = static_part (procs s1 q)" "\<forall>q. pid (procs s' q) = pid (procs s1 q)"
    using wakeup_proc_ok[OF inv1(1), of p] inv(3) f1(1) inv1(2) g1(1,2) by auto
  have tab': "ptable_ok (p # ps) s'"
    using s1(2) by (subst ptable_ok_cong[of s' s1]) (auto simp: s'(8) sched_more_ptable[OF s'(6)])
  have "family P c cs = family (procs s) c cs" unfolding s1(7) by (rule family_cong) auto
  then have "family (procs s1) c (p # cs)" using adopts_family[OF _ p(3,2) s1(8)] fam by blast
  then have fam': "family (procs s') c (p # cs)" using family_static[of "procs s'" "procs s1"] s'(7) by blast
  have tf': "tf (procs s' p) = tf (procs s p)" "pcontext (procs s' p) = pcontext (procs s p)"
    using s'(7) f1(4,5) by (auto simp: static_part_def)
  have "p \<in> runq s'" using s'(3,4,5) cur p(2,4) by (auto simp: runq_def)
  then show ?thesis using s1(1,3-5) s'(1,2,4,8) tab' fam' tf' cur f1(6)
    by - (rule exI[of _ s1], rule exI[of _ s'], rule exI[of _ pd], simp)
qed

lemma do_fork_ok:
  assumes R: "fork_res_ok R"
    and inv: "sched_inv qinv ready s" and tab: "ptable_ok ps s" "nr_process s < MAX_PROCESS" and live: "blocks_live ps s"
    and c: "current s = Some c" "wait_state (procs s c) = 0"
    and fam: "family (procs s) c cs" "set cs \<subseteq> live_procs s"
    and mem: "fst (fr_kmalloc R s) \<noteq> None" "\<forall>p s. fst (fr_setup_kstack R p s) = 0"
      "\<forall>p s. fst (fr_copy_mm R flags p s) = 0" "\<forall>p s. fst (fr_copy_files R flags p s) = 0"
  shows "\<exists>p pd s' f. do_fork cls R b fr flags stack frame s = Some (pd, s') \<and> p \<notin> live_procs s \<and>
    1 \<le> pd \<and> pd < MAX_PID \<and> pd \<notin> pids s ps \<and> ptable_ok (p # ps) s' \<and> pid (procs s' p) = pd \<and>
    family (procs s') c (p # cs) \<and> sched_inv qinv ready s' \<and> p \<in> runq s' \<and> current s' = Some c \<and>
    tf (procs s' p) = Some f \<and> gpr f 10 = 0 \<and> (stack \<noteq> 0 \<longrightarrow> gpr f 2 = stack) \<and> epc f = epc frame \<and>
    ctx_ra (pcontext (procs s' p)) = fr"
proof -
  obtain p s0 where k: "fr_kmalloc R s = (Some p, s0)" using mem(1) by (metis option.exhaust prod.collapse)
  obtain e where p: "p \<notin> live_procs s" and s0: "s0 = ptable.more_update e (s\<lparr>live_procs := insert p (live_procs s)\<rparr>)"
    using fork_res_okD(2)[OF R k] by blast
  define s2 where "s2 = upd_proc p (\<lambda>q. q\<lparr>parent_p := Some c\<rparr>) (init_block b p s0)"
  note st = fork_start_ok[OF inv tab(1) live c(1) p s0 s2_def]
  obtain s3 s4 s5 where m: "fr_setup_kstack R p s2 = (0, s3)" "fr_copy_mm R flags p s3 = (0, s4)"
    "fr_copy_files R flags p s4 = (0, s5)" using mem(2-4) by (metis prod.collapse)
  define s6 where "s6 = copy_thread fr p stack frame s5"
  have fr26: "table_frame p s2 s6" unfolding s6_def
    using fork_res_okD(4)[OF R m(1)] fork_res_okD(6)[OF R m(2)] fork_res_okD(7)[OF R m(3)] copy_thread_frame
    by (blast intro: table_frame_trans)
  have pcs: "p \<notin> set cs" using fam(2) p by auto
  have fam6: "family (procs s6) c cs"
  proof -
    have "family (procs s2) c cs = family (procs s) c cs"
      by (rule family_cong) (use st(8,11) pcs in \<open>metis\<close>)+
    then show ?thesis using fam(1) table_frame_family[OF fr26] by simp
  qed
  have "\<exists>s7 s' pd. fork_register p s6 = Some s7 \<and> wakeup_proc cls p s7 = Some s' \<and>
    1 \<le> pd \<and> pd < MAX_PID \<and> pd \<notin> pids s6 ps \<and> ptable_ok (p # ps) s' \<and> pid (procs s' p) = pd \<and>
    family (procs s') c (p # cs) \<and> sched_inv qinv ready s' \<and> p \<in> runq s' \<and> current s' = Some c \<and>
    tf (procs s' p) = tf (procs s6 p) \<and> pcontext (procs s' p) = pcontext (procs s6 p)"
  proof (rule fork_enter_ok)
    show "ready p s6" using st(2) queue_cong[OF table_frame_state(10)[OF fr26]] by simp
    show "Some p \<noteq> idleproc s6"
      using inv live p table_frame_state(2)[OF fr26] st(6) by (auto simp: sched_inv_def blocks_live_def)
  qed (use st tab(2) pcs fam6 sched_inv_frame[OF fr26] table_frame_ptable[OF fr26] table_frame_fields(1,4)[OF fr26]
      table_frame_state(1,6)[OF fr26] in auto)
  then obtain s7 s' pd where e: "fork_register p s6 = Some s7" "wakeup_proc cls p s7 = Some s'"
    "1 \<le> pd" "pd < MAX_PID" "pd \<notin> pids s6 ps" "ptable_ok (p # ps) s'" "pid (procs s' p) = pd"
    "family (procs s') c (p # cs)" "sched_inv qinv ready s'" "p \<in> runq s'" "current s' = Some c"
    "tf (procs s' p) = tf (procs s6 p)" "pcontext (procs s' p) = pcontext (procs s6 p)" by blast
  have pid6: "pids s6 ps = pids s ps"
    using table_frame_fields(3)[OF fr26] st(8,12) by (intro image_cong) metis+
  have "wait_state (procs s2 c) = 0" using c(2) st(8)[OF st(11)] by simp
  moreover have "current (init_block b p s0) = Some c" using st(5) by (simp add: s2_def)
  ultimately have run: "do_fork cls R b fr flags stack frame s = Some (pd, s')"
    using tab(2) k m e(1,2,7)
    by (simp add: do_fork_def alloc_proc_def s2_def[symmetric] s6_def[symmetric] kassert_def del: upd_proc_simps)
  have "\<exists>f. tf (procs s' p) = Some f \<and> gpr f 10 = 0 \<and> (stack \<noteq> 0 \<longrightarrow> gpr f 2 = stack) \<and> epc f = epc frame"
    "ctx_ra (pcontext (procs s' p)) = fr" unfolding e(12,13) by (simp_all add: s6_def copy_thread_def Let_def)
  then obtain f where "tf (procs s' p) = Some f" "gpr f 10 = 0" "stack \<noteq> 0 \<longrightarrow> gpr f 2 = stack" "epc f = epc frame"
    "ctx_ra (pcontext (procs s' p)) = fr" by blast
  then show ?thesis
    using run p e(3-11) unfolding pid6
    by - (rule exI[of _ p], rule exI[of _ pd], rule exI[of _ s'], rule exI[of _ f], simp)
qed

text \<open>A failure: the block is given back, and the table is as it was.\<close>

lemma fork_cleanup_ok:
  assumes R: "fork_res_ok R"
    and inv: "sched_inv qinv ready s" and tab: "ptable_ok ps s" and live: "blocks_live ps s" and c: "current s = Some c"
    and p: "p \<notin> live_procs s" and s0: "s0 = ptable.more_update e (s\<lparr>live_procs := insert p (live_procs s)\<rparr>)"
    and s2: "s2 = upd_proc p (\<lambda>q. q\<lparr>parent_p := Some c\<rparr>) (init_block b p s0)" and fr: "table_frame p s2 t"
  shows "sched_inv qinv ready (fr_kfree R p t)" "ptable_ok ps (fr_kfree R p t)" "live_procs (fr_kfree R p t) = live_procs s"
    "\<forall>x\<in>live_procs s. procs (fr_kfree R p t) x = procs s x" "current (fr_kfree R p t) = Some c"
proof -
  note st = fork_start_ok[OF inv tab live c p s0 s2]
  obtain e' where k: "fr_kfree R p t = ptable.more_update e' (t\<lparr>live_procs := live_procs t - {p}\<rparr>)"
    using fork_res_okD(3)[OF R] by blast
  show "sched_inv qinv ready (fr_kfree R p t)"
    unfolding k sched_inv_more sched_inv_live using st(1) sched_inv_frame[OF fr] by simp
  have "ptable_ok ps t" using st(3) table_frame_ptable[OF fr] by simp
  then show "ptable_ok ps (fr_kfree R p t)" by (subst ptable_ok_cong[of _ t]) (auto simp: k)
  show "live_procs (fr_kfree R p t) = live_procs s" using st(7) table_frame_state(9)[OF fr] p by (auto simp: k)
  show "current (fr_kfree R p t) = Some c" using st(5) table_frame_state(1)[OF fr] by (simp add: k)
  show "\<forall>x\<in>live_procs s. procs (fr_kfree R p t) x = procs s x"
  proof
    fix x assume "x \<in> live_procs s"
    then have x: "x \<noteq> p" using p by auto
    then show "procs (fr_kfree R p t) x = procs s x" using st(8)[OF x] table_frame_state(11)[OF fr x] by (simp add: k)
  qed
qed

lemma do_fork_fail_ok:
  assumes R: "fork_res_ok R"
    and inv: "sched_inv qinv ready s" and tab: "ptable_ok ps s" "nr_process s < MAX_PROCESS" and live: "blocks_live ps s"
    and c: "current s = Some c" "wait_state (procs s c) = 0"
    and fails: "fst (fr_kmalloc R s) = None \<or> (\<forall>p s. fst (fr_setup_kstack R p s) \<noteq> 0) \<or>
      (\<forall>p s. fst (fr_copy_mm R flags p s) \<noteq> 0) \<or> (\<forall>p s. fst (fr_copy_files R flags p s) \<noteq> 0)"
  shows "\<exists>s'. do_fork cls R b fr flags stack frame s = Some (- E_NO_MEM, s') \<and> sched_inv qinv ready s' \<and> ptable_ok ps s' \<and>
    live_procs s' = live_procs s \<and> (\<forall>x\<in>live_procs s. procs s' x = procs s x) \<and> current s' = Some c"
proof (cases "fr_kmalloc R s")
  case (Pair q s0)
  show ?thesis
  proof (cases q)
    case None
    obtain e where "s0 = ptable.more_update e s" using fork_res_okD(1)[OF R] Pair None by blast
    moreover have "ptable_ok ps (ptable.more_update e s)" using tab(1) by (subst ptable_ok_cong[of _ s]) auto
    ultimately show ?thesis using Pair None tab(2) inv c(1) sched_inv_more by (simp add: do_fork_def alloc_proc_def)
  next
    case (Some p)
    obtain e where p: "p \<notin> live_procs s" and s0: "s0 = ptable.more_update e (s\<lparr>live_procs := insert p (live_procs s)\<rparr>)"
      using fork_res_okD(2)[OF R] Pair Some by blast
    define s2 where "s2 = upd_proc p (\<lambda>q. q\<lparr>parent_p := Some c\<rparr>) (init_block b p s0)"
    note st = fork_start_ok[OF inv tab(1) live c(1) p s0 s2_def]
    note cl = fork_cleanup_ok[OF R inv tab(1) live c(1) p s0 s2_def]
    have pre: "current (init_block b p s0) = Some c" "wait_state (procs s2 c) = 0"
      using st(5) c(2) st(8)[OF st(11)] by (simp_all add: s2_def)
    obtain r3 s3 where k3: "fr_setup_kstack R p s2 = (r3, s3)" by fastforce
    obtain r4 s4 where k4: "fr_copy_mm R flags p s3 = (r4, s4)" by fastforce
    obtain r5 s5 where k5: "fr_copy_files R flags p s4 = (r5, s5)" by fastforce
    have some_fails: "r3 \<noteq> 0 \<or> r4 \<noteq> 0 \<or> r5 \<noteq> 0" using fails k3 k4 k5 Pair Some by (metis fst_conv option.distinct(1))
    have f3: "table_frame p s2 s3" using fork_res_okD(4)[OF R k3] .
    have f4: "table_frame p s2 s4" using table_frame_trans[OF f3 fork_res_okD(6)[OF R k4]] .
    have f5: "table_frame p s2 s5" using table_frame_trans[OF f4 fork_res_okD(7)[OF R k5]] .
    have g4: "table_frame p s2 (fr_put_kstack R p s4)" using table_frame_trans[OF f4 fork_res_okD(5)[OF R]] .
    have g5: "table_frame p s2 (fr_put_kstack R p (fr_put_files R p s5))"
      using table_frame_trans[OF table_frame_trans[OF f5 fork_res_okD(8)[OF R]] fork_res_okD(5)[OF R]] .
    let ?t = "if r3 \<noteq> 0 then s3 else if r4 \<noteq> 0 then fr_put_kstack R p s4 else fr_put_kstack R p (fr_put_files R p s5)"
    have "table_frame p s2 ?t" using f3 g4 g5 by simp
    moreover have "do_fork cls R b fr flags stack frame s = Some (- E_NO_MEM, fr_kfree R p ?t)"
      using tab(2) Pair Some pre k3 k4 k5 some_fails
      by (auto simp: do_fork_def alloc_proc_def s2_def[symmetric] kassert_def simp del: upd_proc_simps)
    ultimately show ?thesis using cl[of ?t] by blast
  qed
qed

end

subsection \<open>Waiting for a child\<close>

text \<open>Whether there is a child to wait for, and the one that has ended; \<open>cs\<close> are the children.\<close>

definition wait_target :: "int \<Rightarrow> nat list \<Rightarrow> 'a ptable_scheme \<Rightarrow> bool \<times> nat option" where
  "wait_target pd cs s =
     (if pd = 0 then (cs \<noteq> [], find (\<lambda>p. pstate (procs s p) = PROC_ZOMBIE) cs)
      else case find (\<lambda>p. pid (procs s p) = pd) cs of
             None \<Rightarrow> (False, None)
           | Some p \<Rightarrow> (True, if pstate (procs s p) = PROC_ZOMBIE then Some p else None))"

lemma wait_any_loop_ok:
  "sib_chain (procs s) y cs None \<Longrightarrow>
   wait_any_loop s (hd_or cs None) b = Some (b \<or> cs \<noteq> [], find (\<lambda>p. pstate (procs s p) = PROC_ZOMBIE) cs)"
proof (induction cs arbitrary: y b)
  case Nil
  then show ?case by (subst wait_any_loop.simps) simp
next
  case (Cons p cs)
  have "wait_any_loop s (hd_or cs None) True = Some (True, find (\<lambda>p. pstate (procs s p) = PROC_ZOMBIE) cs)"
    using Cons.IH[of "Some p" True] Cons.prems by simp
  then show ?case using Cons.prems by (subst wait_any_loop.simps) simp
qed

lemma wait_find_ok:
  assumes tab: "ptable_ok ps s" and c: "current s = Some c" and fam: "family (procs s) c cs"
    and kids: "set cs = {p \<in> set ps. parent_p (procs s p) = Some c}"
  shows "wait_find pd s = Some (wait_target pd cs s)"
proof (cases "pd = 0")
  case True
  then show ?thesis using c fam wait_any_loop_ok[of s None cs False] by (simp add: wait_find_def wait_target_def family_def)
next
  case False
  let ?f = "\<lambda>p. pid (procs s p) = pd"
  have inj: "p = q" if "p \<in> set ps" "q \<in> set ps" "?f p" "?f q" for p q
    using tab that unfolding ptable_ok_def inj_on_def by metis
  have "find ?f cs = (case find ?f ps of None \<Rightarrow> None | Some p \<Rightarrow> if p \<in> set cs then Some p else None)"
  proof (cases "find ?f ps")
    case None
    then have "find ?f cs = None" using kids by (auto simp: find_None_iff)
    then show ?thesis using None by simp
  next
    case (Some p)
    then have p: "p \<in> set ps" "?f p" by (auto simp: find_Some_iff)
    show ?thesis
    proof (cases "p \<in> set cs")
      case True
      have "find ?f cs = Some p"
      proof (cases "find ?f cs")
        case None
        then show ?thesis using True p(2) by (auto simp: find_None_iff)
      next
        case (Some q)
        then have "q \<in> set cs" "?f q" by (auto simp: find_Some_iff)
        then show ?thesis using Some inj[OF p(1) _ p(2)] kids by auto
      qed
      then show ?thesis using True Some by simp
    next
      case F: False
      have "find ?f cs = None" using inj p F kids unfolding find_None_iff by blast
      then show ?thesis using F Some by simp
    qed
  qed
  moreover have "parent_p (procs s p) = Some c \<longleftrightarrow> p \<in> set cs" if "find ?f ps = Some p" for p
    using that kids by (auto simp: find_Some_iff)
  ultimately show ?thesis using False c find_proc_ok[OF tab, of pd]
    by (auto simp: wait_find_def wait_target_def split: option.splits)
qed

text \<open>The contract of releasing a kernel stack.\<close>

definition put_ok :: "(nat \<Rightarrow> 'a ptable_scheme \<Rightarrow> 'a ptable_scheme option) \<Rightarrow> bool" where
  "put_ok put \<longleftrightarrow> (\<forall>p s. \<exists>s'. put p s = Some s' \<and> table_frame p s s')"

context fork_system
begin

lemma reap_ok:
  assumes inv: "sched_inv qinv ready s" and tab: "ptable_ok ps s" and fam: "family (procs s) c cs" and z: "z \<in> set cs" "z \<in> set ps"
    and put: "put_ok put"
  shows "\<exists>s1 s2. remove_links z (unhash_proc z s) = Some s1 \<and> put z s1 = Some s2 \<and>
    (let s' = s2\<lparr>live_procs := live_procs s2 - {z}\<rparr> in
     sched_inv qinv ready s' \<and> ptable_ok (remove1 z ps) s' \<and> family (procs s') c (remove1 z cs) \<and>
     current s' = current s \<and> idleproc s' = idleproc s \<and> live_procs s' = live_procs s - {z} \<and>
     (\<forall>x. pid (procs s' x) = pid (procs s x) \<and> pstate (procs s' x) = pstate (procs s x)))"
proof -
  let ?u = "unhash_proc z s"
  have u: "procs ?u = procs s" "proc_links ?u = proc_links s" "nr_process ?u = nr_process s" by (simp_all add: unhash_proc_def)
  obtain us vs where cs: "cs = us @ z # vs" "z \<notin> set us" using split_list_first[OF z(1)] by blast
  obtain as bs where ps: "ps = as @ z # bs" "z \<notin> set as" using split_list_first[OF z(2)] by blast
  have famu: "family (procs ?u) c (us @ z # vs)" using fam cs(1) u(1) by simp
  obtain s1 where s1: "remove_links z ?u = Some s1"
    "s1 = ?u\<lparr>proc_links := list_del (proc_links ?u) (ProcLink z), procs := procs s1, nr_process := nr_process ?u - 1\<rparr>"
    "leaves (procs ?u) c us vs (procs s1)" "same_but_links (procs ?u) (procs s1)"
    using remove_links_ok[OF famu] by blast
  have g1: "current s1 = current s" "idleproc s1 = idleproc s" "run_links s1 = run_links s" "pool_links s1 = pool_links s"
    "lab6_run_pool s1 = lab6_run_pool s" "proc_num s1 = proc_num s" "max_time_slice s1 = max_time_slice s"
    "proc_links s1 = list_del (proc_links s) (ProcLink z)" "nr_process s1 = nr_process s - 1" "hash_links s1 = hash_links ?u"
    "last_pid s1 = last_pid s" "next_safe s1 = next_safe s" "live_procs s1 = live_procs s"
    by (subst s1(2), simp add: unhash_proc_def)+
  note f1 = same_but_links_fields[OF s1(4), unfolded u(1)]
  have qp: "queue_part s1 = queue_part s" by (simp add: queue_part_def f1 g1)
  have inv1: "sched_inv qinv ready s1" using inv proc_inv_cong[OF qp f1(1) g1(1,2)] by simp
  have tab1: "ptable_ok (as @ bs) s1" by (rule ptable_ok_gone) (use tab ps(1) g1 f1(2) in auto)
  have fam1: "family (procs s1) c (us @ vs)" by (rule leaves_family[OF famu s1(3)])
  obtain s2 where s2: "put z s1 = Some s2" "table_frame z s1 s2" using put by (auto simp: put_ok_def)
  let ?s' = "s2\<lparr>live_procs := live_procs s2 - {z}\<rparr>"
  have "sched_inv qinv ready ?s'" unfolding sched_inv_live using inv1 sched_inv_frame[OF s2(2)] by simp
  moreover have "ptable_ok (remove1 z ps) ?s'"
    using tab1 table_frame_ptable[OF s2(2)] ps by (subst ptable_ok_cong[of _ s2]) (auto simp: remove1_append)
  moreover have "family (procs ?s') c (remove1 z cs)"
    using fam1 table_frame_family[OF s2(2)] cs by (simp add: remove1_append)
  ultimately show ?thesis
    using s1(1) s2(1) g1 f1(1,2) table_frame_state(1,2,9)[OF s2(2)] table_frame_fields(1,3)[OF s2(2)]
    by - (rule exI[of _ s1], rule exI[of _ s2], simp)
qed

lemma wait_sleep_ok:
  assumes inv: "sched_inv qinv ready s" and tab: "ptable_ok ps s"
    and c: "current s = Some c" "pstate (procs s c) = PROC_RUNNABLE" "idleproc s = Some d" "c \<noteq> d"
    and fam: "family (procs s) c cs"
    and fin: "finite {x. pstate (procs s x) \<noteq> PROC_UNINIT}" "card {x. pstate (procs s x) \<noteq> PROC_UNINIT} < 2 ^ 32"
  shows "\<exists>s' n. schedule cls (upd_proc c (\<lambda>q. q\<lparr>pstate := PROC_SLEEPING, wait_state := WT_CHILD\<rparr>) s) = Some s' \<and>
    sched_inv qinv ready s' \<and> current s' = Some n \<and> n \<noteq> c \<and> pstate (procs s' n) = PROC_RUNNABLE \<and> ptable_ok ps s' \<and>
    family (procs s') c cs \<and> pstate (procs s' c) = PROC_SLEEPING \<and> wait_state (procs s' c) = WT_CHILD"
proof -
  define s1 where "s1 = upd_proc c (\<lambda>q. q\<lparr>pstate := PROC_SLEEPING, wait_state := WT_CHILD\<rparr>) s"
  have f1: "pstate (procs s1 x) = (if x = c then PROC_SLEEPING else pstate (procs s x))" for x by (simp add: s1_def)
  have inv1: "sched_inv qinv ready s1"
    unfolding s1_def by (rule stop_inv[OF inv c(1) _ c(2)]) (use c in simp_all)
  have sub: "insert c (runq s1) \<subseteq> {x. pstate (procs s x) \<noteq> PROC_UNINIT}"
    using c(2) f1 by (auto simp: runq_def split: if_splits)
  have "card (insert c (runq s1)) < 2 ^ 32" "finite (runq s1)"
    using card_mono[OF fin(1) sub] fin(2) finite_subset[OF sub fin(1)] by auto
  moreover have "current s1 = Some c" "idleproc s1 = Some d" using c by (simp_all add: s1_def)
  ultimately obtain s' n where s': "schedule cls s1 = Some s'" "sched_inv qinv ready s'" "current s' = Some n" "n \<in> insert d (runq s1)"
    "\<forall>p. pstate (procs s' p) = pstate (procs s1 p) \<and> wait_state (procs s' p) = wait_state (procs s1 p)"
    "\<forall>p. pid (procs s' p) = pid (procs s1 p)" "\<forall>p. static_part (procs s' p) = static_part (procs s1 p)"
    "sched.more s' = sched.more s1"
    using schedule_ok[OF inv1] f1[of c] by force
  have n: "n \<noteq> c" "pstate (procs s' n) = PROC_RUNNABLE"
    using s'(4,5) c inv f1 by (auto simp: runq_def sched_inv_def)
  have "ptable_ok ps s1" using tab by (subst ptable_ok_cong[of s1 s]) (auto simp: s1_def upd_proc_def)
  then have "ptable_ok ps s'"
    by (subst ptable_ok_cong[of s' s1]) (simp_all add: s'(6) sched_more_ptable[OF s'(8)])
  moreover have "family (procs s1) c cs = family (procs s) c cs" by (rule family_cong) (auto simp: s1_def)
  then have "family (procs s') c cs" using fam family_static[of "procs s'" "procs s1"] s'(7) by blast
  moreover have "pstate (procs s' c) = PROC_SLEEPING" "wait_state (procs s' c) = WT_CHILD"
    using s'(5) by (simp_all add: s1_def)
  ultimately show ?thesis using s'(1-3) n unfolding s1_def
    by - (rule exI[of _ s'], rule exI[of _ n], simp)
qed

lemma do_wait_ok:
  assumes inv: "sched_inv qinv ready s" and tab: "ptable_ok ps s" and put: "put_ok put"
    and c: "current s = Some c" "pstate (procs s c) = PROC_RUNNABLE" "idleproc s = Some d" "c \<noteq> d"
    and fam: "family (procs s) c cs" "set cs = {p \<in> set ps. parent_p (procs s p) = Some c}"
      "\<forall>z\<in>set cs. idleproc s \<noteq> Some z \<and> initproc s \<noteq> Some z"
    and fin: "finite {x. pstate (procs s x) \<noteq> PROC_UNINIT}" "card {x. pstate (procs s x) \<noteq> PROC_UNINIT} < 2 ^ 32"
  shows "\<exists>r s'. do_wait_round cls put pd s = Some (r, s') \<and> sched_inv qinv ready s' \<and>
    (case wait_target pd cs s of
       (_, Some z) \<Rightarrow> r = Inl (0, Some (exit_code (procs s z))) \<and> ptable_ok (remove1 z ps) s' \<and>
         family (procs s') c (remove1 z cs) \<and> find_proc (pid (procs s z)) s' = Some None \<and>
         live_procs s' = live_procs s - {z} \<and> current s' = Some c
     | (True, None) \<Rightarrow> r = Inr () \<and> pstate (procs s' c) = PROC_SLEEPING \<and> wait_state (procs s' c) = WT_CHILD \<and>
         (\<exists>n. current s' = Some n \<and> n \<noteq> c \<and> pstate (procs s' n) = PROC_RUNNABLE) \<and> ptable_ok ps s' \<and> family (procs s') c cs
     | (False, None) \<Rightarrow> r = Inl (- E_BAD_PROC, None) \<and> s' = s)"
proof (cases "wait_target pd cs s")
  case (Pair h t)
  note wf = wait_find_ok[OF tab c(1) fam(1,2), of pd]
  show ?thesis
  proof (cases t)
    case (Some z)
    have z: "z \<in> set cs" using Pair Some by (auto simp: wait_target_def find_Some_iff split: if_splits option.splits)
    then have zp: "z \<in> set ps" using fam(2) by auto
    obtain s1 s2 where r: "remove_links z (unhash_proc z s) = Some s1" "put z s1 = Some s2"
      "let s' = s2\<lparr>live_procs := live_procs s2 - {z}\<rparr> in
       sched_inv qinv ready s' \<and> ptable_ok (remove1 z ps) s' \<and> family (procs s') c (remove1 z cs) \<and>
       current s' = current s \<and> idleproc s' = idleproc s \<and> live_procs s' = live_procs s - {z} \<and>
       (\<forall>x. pid (procs s' x) = pid (procs s x) \<and> pstate (procs s' x) = pstate (procs s x))"
      using reap_ok[OF inv tab fam(1) z zp put] by blast
    define s' where "s' = s2\<lparr>live_procs := live_procs s2 - {z}\<rparr>"
    note r3 = r(3)[unfolded Let_def, folded s'_def]
    have "distinct ps" using tab dlist_distinct by (fastforce simp: ptable_ok_def distinct_map)
    then have zs: "z \<notin> set (remove1 z ps)" by simp
    have "pid (procs s' p) \<noteq> pid (procs s z)" if "p \<in> set (remove1 z ps)" for p
    proof -
      have "p \<in> set ps" "p \<noteq> z" using that zs notin_set_remove1 by fastforce+
      then show ?thesis using tab zp r3 unfolding ptable_ok_def inj_on_def by metis
    qed
    then have "find_proc (pid (procs s z)) s' = Some None"
      using find_proc_ok[of "remove1 z ps" s'] r3 by (simp add: find_None_iff)
    moreover have "do_wait_round cls put pd s = Some (Inl (0, Some (exit_code (procs s z))), s')"
      using wf Pair Some fam(3) z r(1,2) by (auto simp: do_wait_round_def kassert_def s'_def)
    ultimately show ?thesis using r3 Pair Some c(1)
      by - (rule exI[of _ "Inl (0, Some (exit_code (procs s z)))"], rule exI[of _ s'], simp split: bool.split)
  next
    case None
    show ?thesis
    proof (cases h)
      case False
      then show ?thesis using wf Pair None inv by (simp add: do_wait_round_def)
    next
      case True
      obtain s' n where s': "schedule cls (upd_proc c (\<lambda>q. q\<lparr>pstate := PROC_SLEEPING, wait_state := WT_CHILD\<rparr>) s) = Some s'"
        "sched_inv qinv ready s'" "current s' = Some n" "n \<noteq> c" "pstate (procs s' n) = PROC_RUNNABLE" "ptable_ok ps s'"
        "family (procs s') c cs" "pstate (procs s' c) = PROC_SLEEPING" "wait_state (procs s' c) = WT_CHILD"
        using wait_sleep_ok[OF inv tab c fam(1) fin] by blast
      then show ?thesis using Pair None True wf c(1)
        by - (rule exI[of _ "Inr ()"], rule exI[of _ s'], simp add: do_wait_round_def)
    qed
  qed
qed

end

end
