(* ===== verification/ProcMgr.thy ===== *)
theory ProcMgr
  imports ProcFork
begin

text \<open>
  The process table under the two scheduling policies of the kernel, and its properties
  for the round-robin policy, the one the kernel is built with.
\<close>

lemma RR_init_block:
  assumes q: "RR_inv s Q" and p: "p \<notin> Q"
  shows "RR_inv (init_block b p s) Q \<and> RR_ready p (init_block b p s) \<and>
    (\<forall>q. q \<noteq> p \<longrightarrow> RR_ready q s \<longrightarrow> RR_ready q (init_block b p s))"
proof -
  obtain xs where xs: "RR_queue s xs" "set xs = Q" using q by (auto simp: RR_inv_def)
  have "dlist (list_init (run_links s) (RunLink p)) RunList (map RunLink xs)"
    using xs p by (intro dlist_init_other) (auto simp: RR_queue_def)
  then have "RR_queue (init_block b p s) xs" using xs p by (auto simp: RR_queue_def init_block_def)
  then show ?thesis using xs(2)
    by (auto simp: RR_inv_def RR_ready_def init_block_def list_empty_def list_init_def)
qed

lemma stride_init_block:
  assumes q: "stride_inv s Q" and p: "p \<notin> Q"
  shows "stride_inv (init_block b p s) Q \<and> stride_ready p (init_block b p s) \<and>
    (\<forall>q. q \<noteq> p \<longrightarrow> stride_ready q s \<longrightarrow> stride_ready q (init_block b p s))"
proof -
  obtain t xs where xs: "stride_queue s t xs" "set xs = Q" using q by (auto simp: stride_inv_def)
  have pt: "p \<notin> set_tree t" using xs p by (auto simp: stride_queue_def)
  have ho: "heap_of (pool_links s) (lab6_run_pool s) t" using xs(1) by (simp add: stride_queue_def)
  have "dlist (list_init (run_links s) (RunLink p)) RunList (map RunLink xs)"
    using xs p by (intro dlist_init_other) (auto simp: stride_queue_def)
  moreover have "tree_at (pool_links (init_block b p s)) t"
    by (rule tree_at_cong[of "pool_links s"]) (use ho pt in \<open>auto simp: heap_of_def init_block_def\<close>)
  ultimately have "stride_queue (init_block b p s) t xs"
    using xs(1,2) p ho by (auto simp: stride_queue_def heap_of_def init_block_def)
  then show ?thesis using xs(2)
    by (auto simp: stride_inv_def stride_ready_def init_block_def alloc_proc_fields_def)
qed

interpretation rr_proc: fork_system default_sched_class RR_inv RR_ready
  by unfold_locales (rule RR_init_block)

interpretation stride_proc: fork_system stride_sched_class stride_inv stride_ready
  by unfold_locales (rule stride_init_block)

subsection \<open>A small process table\<close>

text \<open>
  The idle process 0, the initial process 1 waiting for a child, its child 2, which runs,
  and a child 3 of that one, which has ended.
\<close>

definition demo_blocks :: "nat \<Rightarrow> proc_struct" where
  "demo_blocks p =
     (let q = (alloc_proc_fields 0 0)\<lparr>pid := int p\<rparr> in
      if p = 0 then q\<lparr>pstate := PROC_RUNNABLE, cptr := Some 1\<rparr>
      else if p = 1 then q\<lparr>pstate := PROC_SLEEPING, wait_state := WT_CHILD, parent_p := Some 0, cptr := Some 2\<rparr>
      else if p = 2 then q\<lparr>pstate := PROC_RUNNABLE, parent_p := Some 1, cptr := Some 3\<rparr>
      else if p = 3 then q\<lparr>pstate := PROC_ZOMBIE, parent_p := Some 2, exit_code := 42\<rparr>
      else q)"

definition blank_pt :: ptable where
  "blank_pt = sched.extend (boot_sched\<lparr>procs := demo_blocks, current := Some 2, initproc := Some 1\<rparr>)
     (ptable.fields \<lparr>prev_of = id, next_of = id\<rparr> \<lparr>prev_of = id, next_of = id\<rparr> 1 MAX_PID 0 {0, 1, 2, 3})"

definition enter :: "nat \<Rightarrow> ptable \<Rightarrow> ptable" where
  "enter p s = hash_proc p (s\<lparr>proc_links := list_add (proc_links s) ProcList (ProcLink p),
     nr_process := nr_process s + 1, last_pid := pid (procs s p)\<rparr>)"

definition demo_pt :: ptable where
  "demo_pt = enter 3 (enter 2 (enter 1 blank_pt))"

lemma blank_ok: "ptable_ok [] blank_pt"
  by (simp add: blank_pt_def ptable_ok_def pid_ok_def dlist_Nil_iff sched.extend_def ptable.fields_def MAX_PID_def MAX_PROCESS_def)

lemma enter_state [simp]:
  "procs (enter p s) = procs s" "current (enter p s) = current s" "idleproc (enter p s) = idleproc s"
  "initproc (enter p s) = initproc s" "nr_process (enter p s) = nr_process s + 1" "last_pid (enter p s) = pid (procs s p)"
  "next_safe (enter p s) = next_safe s" "live_procs (enter p s) = live_procs s" "run_links (enter p s) = run_links s"
  "proc_num (enter p s) = proc_num s" "proc_links (enter p s) = list_add (proc_links s) ProcList (ProcLink p)"
  by (simp_all add: enter_def hash_proc_def)

lemma enter_ok:
  assumes "ptable_ok ps s" "p \<notin> set ps" "1 \<le> pid (procs s p)" "pid (procs s p) < next_safe s" "next_safe s \<le> MAX_PID"
    "\<forall>q\<in>pids s ps. q < pid (procs s p)"
  shows "ptable_ok (p # ps) (enter p s)"
  by (rule ptable_ok_new[OF assms(1,2), of "pid (procs s p)" "next_safe s"])
    (use assms(3-6) in \<open>force simp: enter_def hash_proc_def upd_proc_def\<close>)+

lemma blank_state [simp]:
  "procs blank_pt = demo_blocks" "current blank_pt = Some 2" "idleproc blank_pt = Some 0" "initproc blank_pt = Some 1"
  "nr_process blank_pt = 1" "next_safe blank_pt = MAX_PID" "live_procs blank_pt = {0, 1, 2, 3}" "proc_num blank_pt = 0"
  "run_links blank_pt = \<lparr>prev_of = id, next_of = id\<rparr>"
  by (simp_all add: blank_pt_def sched.extend_def ptable.fields_def boot_sched_def)

lemma demo_pid [simp]: "pid (demo_blocks p) = int p"
  by (simp add: demo_blocks_def Let_def)

lemma demo_pt_ok: "ptable_ok [3, 2, 1] demo_pt"
proof -
  have "ptable_ok [1] (enter 1 blank_pt)"
    by (rule enter_ok[OF blank_ok]) (simp_all add: MAX_PID_def MAX_PROCESS_def)
  then have "ptable_ok [2, 1] (enter 2 (enter 1 blank_pt))"
    by (rule enter_ok) (simp_all add: MAX_PID_def MAX_PROCESS_def)
  then show ?thesis unfolding demo_pt_def
    by (rule enter_ok) (simp_all add: MAX_PID_def MAX_PROCESS_def)
qed

lemma demo_state [simp]:
  "procs demo_pt = demo_blocks" "current demo_pt = Some 2" "idleproc demo_pt = Some 0" "initproc demo_pt = Some 1"
  "nr_process demo_pt = 4" "live_procs demo_pt = {0, 1, 2, 3}" "proc_num demo_pt = 0"
  "run_links demo_pt = \<lparr>prev_of = id, next_of = id\<rparr>"
  by (simp_all add: demo_pt_def)

lemma demo_families: "family demo_blocks 1 [2]" "family demo_blocks 2 [3]"
  by (simp_all add: family_def demo_blocks_def Let_def alloc_proc_fields_def)

lemma demo_pstate:
  "pstate (demo_blocks p) = (if p \<in> {0, 2} then PROC_RUNNABLE else if p = 1 then PROC_SLEEPING
     else if p = 3 then PROC_ZOMBIE else PROC_UNINIT)"
  "wait_state (demo_blocks 2) = 0" "wait_state (demo_blocks 1) = WT_CHILD" "parent_p (demo_blocks 2) = Some 1"
  "parent_p (demo_blocks 3) = Some 2" "exit_code (demo_blocks 3) = 42"
  "parent_p (demo_blocks (Suc 0)) = Some 0" "wait_state (demo_blocks (Suc 0)) = WT_CHILD"
  by (auto simp: demo_blocks_def Let_def alloc_proc_fields_def)

lemma demo_inv: "sched_inv RR_inv RR_ready demo_pt"
proof -
  have "runq demo_pt = {}" by (auto simp: runq_def demo_pstate)
  moreover have "RR_queue demo_pt []" by (simp add: RR_queue_def dlist_Nil_iff)
  ultimately show ?thesis by (auto simp: sched_inv_def RR_inv_def RR_ready_def list_empty_def demo_pstate)
qed

lemma demo_live: "blocks_live [3, 2, 1] demo_pt"
  by (auto simp: blocks_live_def demo_pstate split: if_splits)

lemma demo_finite: "finite {x. pstate (procs demo_pt x) \<noteq> PROC_UNINIT}" "card {x. pstate (procs demo_pt x) \<noteq> PROC_UNINIT} < 2 ^ 32"
proof -
  have "{x. pstate (procs demo_pt x) \<noteq> PROC_UNINIT} = {0, 1, 2, 3}" by (auto simp: demo_pstate)
  then show "finite {x. pstate (procs demo_pt x) \<noteq> PROC_UNINIT}" "card {x. pstate (procs demo_pt x) \<noteq> PROC_UNINIT} < 2 ^ 32" by simp_all
qed

text \<open>Resources that do not run out, but for one block.\<close>

definition demo_res :: "int \<Rightarrow> ptable fork_res" where
  "demo_res r =
     \<lparr>fr_kmalloc = (\<lambda>s. if 4 \<in> live_procs s then (None, s) else (Some 4, s\<lparr>live_procs := insert 4 (live_procs s)\<rparr>)),
      fr_kfree = (\<lambda>p s. s\<lparr>live_procs := live_procs s - {p}\<rparr>),
      fr_setup_kstack = (\<lambda>p s. (0, upd_proc p (\<lambda>q. q\<lparr>kstack := 0xffffffffc0400000\<rparr>) s)),
      fr_put_kstack = (\<lambda>p s. s), fr_copy_mm = (\<lambda>f p s. (0, s)), fr_copy_files = (\<lambda>f p s. (r, s)), fr_put_files = (\<lambda>p s. s)\<rparr>"

lemma table_frame_refl: "table_frame p s s"
  by (simp add: table_frame_def)

lemma demo_res_ok: "fork_res_ok (demo_res r)"
proof -
  have more: "\<exists>e. s = ptable.more_update e s" for s :: ptable by (rule exI[of _ id]) simp
  have "table_frame p s (upd_proc p (\<lambda>q. q\<lparr>kstack := k\<rparr>) s)" for p k and s :: ptable
    by (rule upd_proc_frame) simp_all
  then show ?thesis unfolding fork_res_ok_def by (auto simp: demo_res_def table_frame_refl more)
qed

subsection \<open>Properties\<close>

text \<open>C32. With at least one number free, get_pid ends its search, returns a number between 1 and
  MAX_PID - 1 that no listed process has, and keeps the interval of free numbers right.\<close>

theorem get_pid_correct:
  assumes "dlist (proc_links s) ProcList (map ProcLink ps)" "pid_ok ps s" "int (length ps) < MAX_PID - 1"
  shows "\<exists>pd s'. get_pid s = Some (pd, s') \<and> 1 \<le> pd \<and> pd < MAX_PID \<and> pd \<notin> (\<lambda>p. pid (procs s p)) ` set ps \<and>
    last_pid s' = pd \<and> pid_ok ps s' \<and> procs s' = procs s"
proof -
  obtain pd n where g: "get_pid s = Some (pd, s\<lparr>last_pid := pd, next_safe := n\<rparr>)" "1 \<le> pd" "pd < MAX_PID" "pd \<notin> pids s ps"
    "n \<le> MAX_PID" "\<forall>q\<in>pids s ps. q \<le> pd \<or> n \<le> q" using get_pid_ok[OF assms] by blast
  then have "pid_ok ps (s\<lparr>last_pid := pd, next_safe := n\<rparr>)" by (auto simp: pid_ok_def)
  then show ?thesis using g by auto
qed

theorem get_pid_correct_witness:
  "\<exists>pd s'. get_pid demo_pt = Some (pd, s') \<and> 1 \<le> pd \<and> pd < MAX_PID \<and> pd \<notin> {1, 2, 3}"
proof -
  have "dlist (proc_links demo_pt) ProcList (map ProcLink [3, 2, 1])" "pid_ok [3, 2, 1] demo_pt"
    "int (length [3, 2, 1 :: nat]) < MAX_PID - 1"
    using demo_pt_ok by (simp_all add: ptable_ok_def MAX_PID_def MAX_PROCESS_def)
  from get_pid_correct[OF this] show ?thesis by auto
qed

text \<open>C33. When the resources are available, do_fork makes a child of the running process from a new
  block: its number is free and finds it, the table and the family are as they should be, the
  child is runnable and queued, and it will return from its trap with 0 in a0, on the stack
  asked for.\<close>

theorem do_fork_correct:
  assumes "fork_res_ok R" "sched_inv RR_inv RR_ready s" "ptable_ok ps s" "nr_process s < MAX_PROCESS" "blocks_live ps s"
    "current s = Some c" "wait_state (procs s c) = 0" "family (procs s) c cs" "set cs \<subseteq> live_procs s"
    "fst (fr_kmalloc R s) \<noteq> None" "\<forall>p s. fst (fr_setup_kstack R p s) = 0"
    "\<forall>p s. fst (fr_copy_mm R flags p s) = 0" "\<forall>p s. fst (fr_copy_files R flags p s) = 0"
  shows "\<exists>p pd s' f. do_fork default_sched_class R b fr flags stack frame s = Some (pd, s') \<and> p \<notin> live_procs s \<and>
    1 \<le> pd \<and> pd < MAX_PID \<and> (\<forall>q\<in>set ps. pid (procs s q) \<noteq> pd) \<and> ptable_ok (p # ps) s' \<and> find_proc pd s' = Some (Some p) \<and>
    family (procs s') c (p # cs) \<and> sched_inv RR_inv RR_ready s' \<and> p \<in> runq s' \<and> current s' = Some c \<and>
    tf (procs s' p) = Some f \<and> gpr f 10 = 0 \<and> (stack \<noteq> 0 \<longrightarrow> gpr f 2 = stack) \<and> epc f = epc frame \<and>
    ctx_ra (pcontext (procs s' p)) = fr"
proof -
  obtain p pd s' f where r: "do_fork default_sched_class R b fr flags stack frame s = Some (pd, s')" "p \<notin> live_procs s"
    "1 \<le> pd" "pd < MAX_PID" "pd \<notin> pids s ps" "ptable_ok (p # ps) s'" "pid (procs s' p) = pd"
    "family (procs s') c (p # cs)" "sched_inv RR_inv RR_ready s'" "p \<in> runq s'" "current s' = Some c"
    "tf (procs s' p) = Some f" "gpr f 10 = 0" "stack \<noteq> 0 \<longrightarrow> gpr f 2 = stack" "epc f = epc frame"
    "ctx_ra (pcontext (procs s' p)) = fr"
    using rr_proc.do_fork_ok[OF assms, of b fr stack frame] by blast
  have "find_proc pd s' = Some (Some p)" using find_proc_ok[OF r(6), of pd] r(7) by simp
  moreover have "\<forall>q\<in>set ps. pid (procs s q) \<noteq> pd" using r(5) by auto
  ultimately show ?thesis using r(1-4,6,8-16) by blast
qed

definition demo_frame :: trapframe where
  "demo_frame = \<lparr>gpr = (\<lambda>_. 7), status = 0, epc = 0x800020, tval = 0, cause = 8\<rparr>"

lemma demo_res_hyps:
  "fork_res_ok (demo_res r)" "nr_process demo_pt < MAX_PROCESS" "current demo_pt = Some 2" "wait_state (procs demo_pt 2) = 0"
  "fst (fr_kmalloc (demo_res r) demo_pt) \<noteq> None" "\<forall>p s. fst (fr_setup_kstack (demo_res r) p s) = 0"
  "\<forall>p s. fst (fr_copy_mm (demo_res r) 0 p s) = 0" "\<forall>p s. fst (fr_copy_files (demo_res r) 0 p s) = r"
  by (simp_all add: demo_res_ok MAX_PROCESS_def demo_pstate) (simp_all add: demo_res_def)

theorem do_fork_correct_witness:
  "\<exists>p pd s'. do_fork default_sched_class (demo_res 0) 0 0x1000 0 0x7ffff000 demo_frame demo_pt = Some (pd, s') \<and>
     find_proc pd s' = Some (Some p) \<and> pd \<notin> {1, 2, 3} \<and> p \<notin> {0, 1, 2, 3} \<and> family (procs s') 2 [p, 3]"
proof -
  have fam: "family (procs demo_pt) 2 [3]" "set [3] \<subseteq> live_procs demo_pt" using demo_families by simp_all
  obtain p pd s' where "do_fork default_sched_class (demo_res 0) 0 0x1000 0 0x7ffff000 demo_frame demo_pt = Some (pd, s')"
    "find_proc pd s' = Some (Some p)" "p \<notin> live_procs demo_pt" "\<forall>q\<in>set [3, 2, 1]. pid (procs demo_pt q) \<noteq> pd"
    "family (procs s') 2 [p, 3]"
    using do_fork_correct[OF demo_res_hyps(1) demo_inv demo_pt_ok demo_res_hyps(2) demo_live demo_res_hyps(3,4) fam
        demo_res_hyps(5-8), of 0 "0x1000" "0x7ffff000" demo_frame] by blast
  then show ?thesis by auto
qed

text \<open>C34. When a resource is not available, do_fork returns -E_NO_MEM and leaves the process table, the
  run queue and every block in use as they were.\<close>

theorem do_fork_fails:
  assumes "fork_res_ok R" "sched_inv RR_inv RR_ready s" "ptable_ok ps s" "nr_process s < MAX_PROCESS" "blocks_live ps s"
    "current s = Some c" "wait_state (procs s c) = 0"
    "fst (fr_kmalloc R s) = None \<or> (\<forall>p s. fst (fr_setup_kstack R p s) \<noteq> 0) \<or>
      (\<forall>p s. fst (fr_copy_mm R flags p s) \<noteq> 0) \<or> (\<forall>p s. fst (fr_copy_files R flags p s) \<noteq> 0)"
  shows "\<exists>s'. do_fork default_sched_class R b fr flags stack frame s = Some (- E_NO_MEM, s') \<and>
    sched_inv RR_inv RR_ready s' \<and> ptable_ok ps s' \<and> live_procs s' = live_procs s \<and>
    (\<forall>x\<in>live_procs s. procs s' x = procs s x) \<and> current s' = Some c"
  by (rule rr_proc.do_fork_fail_ok[OF assms])

theorem do_fork_fails_witness:
  "\<exists>s'. do_fork default_sched_class (demo_res (- 4)) 0 0x1000 0 0 demo_frame demo_pt = Some (- E_NO_MEM, s') \<and>
     live_procs s' = {0, 1, 2, 3}"
  using do_fork_fails[OF demo_res_hyps(1) demo_inv demo_pt_ok demo_res_hyps(2) demo_live demo_res_hyps(3,4), of "- 4" 0 0 "0x1000" 0 demo_frame]
    demo_res_hyps(8)[of "- 4"] by auto

text \<open>C35. The end of do_exit: the process becomes a zombie with its exit code and another process
  runs; its children, in order, become the youngest children of the initial process; a parent
  waiting for a child is woken, and so is the initial process when it waits and one of the
  children has ended; no other process changes its state.\<close>

theorem exit_finish_correct:
  assumes "sched_inv RR_inv RR_ready s" "current s = Some c" "pstate (procs s c) = PROC_RUNNABLE"
    "initproc s = Some i" "c \<noteq> i" "pstate (procs s i) \<noteq> PROC_ZOMBIE" "pstate (procs s i) \<noteq> PROC_UNINIT"
    "idleproc s = Some d" "c \<noteq> d"
    "parent_p (procs s c) = Some p" "p \<noteq> c" "pstate (procs s p) \<noteq> PROC_ZOMBIE" "pstate (procs s p) \<noteq> PROC_UNINIT"
    "family (procs s) c cs" "family (procs s) i ds" "i \<notin> set cs"
    "finite {x. pstate (procs s x) \<noteq> PROC_UNINIT}" "card {x. pstate (procs s x) \<noteq> PROC_UNINIT} < 2 ^ 32"
  shows "\<exists>s' n. exit_finish default_sched_class e s = Some s' \<and> sched_inv RR_inv RR_ready s' \<and> current s' = Some n \<and> n \<noteq> c \<and>
    pstate (procs s' n) = PROC_RUNNABLE \<and>
    pstate (procs s' c) = PROC_ZOMBIE \<and> exit_code (procs s' c) = e \<and> cptr (procs s' c) = None \<and>
    family (procs s') i (rev cs @ ds) \<and>
    (\<forall>r gs. r \<noteq> c \<longrightarrow> r \<noteq> i \<longrightarrow> family (procs s) r gs \<longrightarrow> family (procs s') r gs) \<and>
    (wait_state (procs s p) = WT_CHILD \<longrightarrow> pstate (procs s' p) = PROC_RUNNABLE) \<and>
    (wait_state (procs s i) = WT_CHILD \<longrightarrow> (\<exists>z\<in>set cs. pstate (procs s z) = PROC_ZOMBIE) \<longrightarrow>
      pstate (procs s' i) = PROC_RUNNABLE) \<and>
    (\<forall>x. x \<notin> {c, p, i} \<longrightarrow> pstate (procs s' x) = pstate (procs s x))"
  by (rule rr_proc.exit_finish_ok[OF assms])

theorem exit_finish_correct_witness:
  "\<exists>s' n. exit_finish default_sched_class 7 demo_pt = Some s' \<and> current s' = Some n \<and> n \<noteq> 2 \<and>
     exit_code (procs s' 2) = 7 \<and> family (procs s') 1 [3, 2] \<and> pstate (procs s' 1) = PROC_RUNNABLE"
proof -
  have "\<exists>s' n. exit_finish default_sched_class 7 demo_pt = Some s' \<and> sched_inv RR_inv RR_ready s' \<and> current s' = Some n \<and> n \<noteq> 2 \<and>
    pstate (procs s' n) = PROC_RUNNABLE \<and>
    pstate (procs s' 2) = PROC_ZOMBIE \<and> exit_code (procs s' 2) = 7 \<and> cptr (procs s' 2) = None \<and>
    family (procs s') 1 (rev [3] @ [2]) \<and>
    (\<forall>r gs. r \<noteq> 2 \<longrightarrow> r \<noteq> 1 \<longrightarrow> family (procs demo_pt) r gs \<longrightarrow> family (procs s') r gs) \<and>
    (wait_state (procs demo_pt 1) = WT_CHILD \<longrightarrow> pstate (procs s' 1) = PROC_RUNNABLE) \<and>
    (wait_state (procs demo_pt 1) = WT_CHILD \<longrightarrow> (\<exists>z\<in>set [3]. pstate (procs demo_pt z) = PROC_ZOMBIE) \<longrightarrow>
      pstate (procs s' 1) = PROC_RUNNABLE) \<and>
    (\<forall>x. x \<notin> {2, 1, 1} \<longrightarrow> pstate (procs s' x) = pstate (procs demo_pt x))"
    by (rule exit_finish_correct[OF demo_inv, where d = 0])
      (use demo_families demo_finite in \<open>simp_all add: demo_pstate\<close>)
  then show ?thesis by (auto simp: demo_pstate)
qed

text \<open>C36. One round of do_wait, for any child (0) or a given number: a child that has ended is taken out of
  the table and the family, its exit code is returned and its number finds nothing any more;
  with a child that still lives the caller sleeps and another process runs; without a child
  the result is -E_BAD_PROC and nothing changes.\<close>

theorem do_wait_correct:
  assumes "sched_inv RR_inv RR_ready s" "ptable_ok ps s" "put_ok put"
    "current s = Some c" "pstate (procs s c) = PROC_RUNNABLE" "idleproc s = Some d" "c \<noteq> d"
    "family (procs s) c cs" "set cs = {p \<in> set ps. parent_p (procs s p) = Some c}"
    "\<forall>z\<in>set cs. idleproc s \<noteq> Some z \<and> initproc s \<noteq> Some z"
    "finite {x. pstate (procs s x) \<noteq> PROC_UNINIT}" "card {x. pstate (procs s x) \<noteq> PROC_UNINIT} < 2 ^ 32"
  shows "\<exists>r s'. do_wait_round default_sched_class put pd s = Some (r, s') \<and> sched_inv RR_inv RR_ready s' \<and>
    (case wait_target pd cs s of
       (_, Some z) \<Rightarrow> r = Inl (0, Some (exit_code (procs s z))) \<and> ptable_ok (remove1 z ps) s' \<and>
         family (procs s') c (remove1 z cs) \<and> find_proc (pid (procs s z)) s' = Some None \<and>
         live_procs s' = live_procs s - {z} \<and> current s' = Some c
     | (True, None) \<Rightarrow> r = Inr () \<and> pstate (procs s' c) = PROC_SLEEPING \<and> wait_state (procs s' c) = WT_CHILD \<and>
         (\<exists>n. current s' = Some n \<and> n \<noteq> c \<and> pstate (procs s' n) = PROC_RUNNABLE) \<and> ptable_ok ps s' \<and> family (procs s') c cs
     | (False, None) \<Rightarrow> r = Inl (- E_BAD_PROC, None) \<and> s' = s)"
  by (rule rr_proc.do_wait_ok[OF assms])

theorem do_wait_correct_witness:
  "\<exists>s'. do_wait_round default_sched_class (\<lambda>p s. Some s) 0 demo_pt = Some (Inl (0, Some 42), s') \<and>
     find_proc 3 s' = Some None \<and> live_procs s' = {0, 1, 2}"
proof -
  have kids: "set [3] = {p \<in> set [3, 2, 1]. parent_p (procs demo_pt p) = Some 2}" by (auto simp: demo_pstate)
  have put: "put_ok (\<lambda>p s. Some (s :: ptable))" by (simp add: put_ok_def table_frame_refl)
  have fam: "family (procs demo_pt) 2 [3]" using demo_families by simp
  have t: "wait_target 0 [3] demo_pt = (True, Some 3)" by (simp add: wait_target_def demo_pstate)
  have "\<exists>r s'. do_wait_round default_sched_class (\<lambda>p s. Some s) 0 demo_pt = Some (r, s') \<and> sched_inv RR_inv RR_ready s' \<and>
    (case wait_target 0 [3] demo_pt of
       (_, Some z) \<Rightarrow> r = Inl (0, Some (exit_code (procs demo_pt z))) \<and> ptable_ok (remove1 z [3, 2, 1]) s' \<and>
         family (procs s') 2 (remove1 z [3]) \<and> find_proc (pid (procs demo_pt z)) s' = Some None \<and>
         live_procs s' = live_procs demo_pt - {z} \<and> current s' = Some 2
     | (True, None) \<Rightarrow> r = Inr () \<and> pstate (procs s' 2) = PROC_SLEEPING \<and> wait_state (procs s' 2) = WT_CHILD \<and>
         (\<exists>n. current s' = Some n \<and> n \<noteq> 2 \<and> pstate (procs s' n) = PROC_RUNNABLE) \<and> ptable_ok [3, 2, 1] s' \<and> family (procs s') 2 [3]
     | (False, None) \<Rightarrow> r = Inl (- E_BAD_PROC, None) \<and> s' = demo_pt)"
  proof (rule do_wait_correct[where d = 0, OF demo_inv demo_pt_ok put _ _ _ _ fam kids _ demo_finite])
    show "\<forall>z\<in>set [3]. idleproc demo_pt \<noteq> Some z \<and> initproc demo_pt \<noteq> Some z" by simp
  qed (simp_all add: demo_pstate)
  then obtain r s' where "do_wait_round default_sched_class (\<lambda>p s. Some s) 0 demo_pt = Some (r, s')"
    "r = Inl (0, Some (exit_code (procs demo_pt 3)))" "find_proc (pid (procs demo_pt 3)) s' = Some None"
    "live_procs s' = live_procs demo_pt - {3}" unfolding t prod.case option.case bool.case by blast
  moreover have "{0, 1, 2, 3} - {3} = {0, 1, 2 :: nat}" by auto
  ultimately show ?thesis by (simp add: demo_pstate)
qed

end
