(* ===== verification/Bytes.thy ===== *)
theory Bytes
  imports Prelude
begin

text \<open>
  Memory objects as lists of bytes: \<^verbatim>\<open>memcpy\<close>, \<^verbatim>\<open>memset\<close> and the little-endian layout of
  the integers the file system keeps on disk.
\<close>

type_synonym byte = "8 word"

text \<open>\<^verbatim>\<open>memcpy(buf + off, data, n)\<close> with \<open>n = length data\<close>.\<close>

definition put_bytes :: "nat \<Rightarrow> 'a list \<Rightarrow> 'a list \<Rightarrow> 'a list" where
  "put_bytes off data buf = take off buf @ data @ drop (off + length data) buf"

text \<open>The \<open>n\<close> bytes at \<open>buf + off\<close>.\<close>

definition get_bytes :: "nat \<Rightarrow> nat \<Rightarrow> 'a list \<Rightarrow> 'a list" where
  "get_bytes off n buf = take n (drop off buf)"

lemma length_put [simp]: "off + length data \<le> length buf \<Longrightarrow> length (put_bytes off data buf) = length buf"
  by (simp add: put_bytes_def)

lemma length_get [simp]: "off + n \<le> length buf \<Longrightarrow> length (get_bytes off n buf) = n"
  by (simp add: get_bytes_def)

lemma nth_put:
  "off + length data \<le> length buf \<Longrightarrow> i < length buf \<Longrightarrow>
   put_bytes off data buf ! i = (if off \<le> i \<and> i < off + length data then data ! (i - off) else buf ! i)"
  by (auto simp: put_bytes_def nth_append)

lemma nth_get: "off + n \<le> length buf \<Longrightarrow> i < n \<Longrightarrow> get_bytes off n buf ! i = buf ! (off + i)"
  by (simp add: get_bytes_def)

lemma get_put_same [simp]:
  "off + length data \<le> length buf \<Longrightarrow> n = length data \<Longrightarrow> get_bytes off n (put_bytes off data buf) = data"
  by (simp add: get_bytes_def put_bytes_def)

lemma get_put_other:
  assumes "off + length data \<le> length buf" "o2 + n \<le> length buf" "o2 + n \<le> off \<or> off + length data \<le> o2"
  shows "get_bytes o2 n (put_bytes off data buf) = get_bytes o2 n buf"
  using assms by (intro nth_equalityI) (auto simp: nth_get nth_put)

lemma put_get_same [simp]: "off + n \<le> length buf \<Longrightarrow> put_bytes off (get_bytes off n buf) buf = buf"
  by (intro nth_equalityI) (auto simp: nth_put nth_get)

text \<open>A window that a smaller put_bytes hits inside.\<close>

lemma get_put_inner:
  assumes "off + length data \<le> n" "o2 + n \<le> length buf"
  shows "get_bytes o2 n (put_bytes (o2 + off) data buf) = put_bytes off data (get_bytes o2 n buf)"
  using assms by (intro nth_equalityI) (auto simp: nth_get nth_put)

lemma put_append: "put_bytes off (xs @ ys) buf = put_bytes off xs (put_bytes (off + length xs) ys buf)"
  if "off + length xs + length ys \<le> length buf"
  using that by (intro nth_equalityI) (auto simp: nth_put nth_append)

lemma get_append: "get_bytes off (m + n) buf = get_bytes off m buf @ get_bytes (off + m) n buf"
  by (simp add: get_bytes_def take_add add.commute)

subsection \<open>Little-endian integers\<close>

definition le16 :: "nat \<Rightarrow> byte list" where
  "le16 n = [of_nat n, of_nat (n div 256)]"

definition le32 :: "nat \<Rightarrow> byte list" where
  "le32 n = [of_nat n, of_nat (n div 256), of_nat (n div 65536), of_nat (n div 16777216)]"

definition of_le16 :: "byte list \<Rightarrow> nat" where
  "of_le16 b = unat (b ! 0) + 256 * unat (b ! 1)"

definition of_le32 :: "byte list \<Rightarrow> nat" where
  "of_le32 b = unat (b ! 0) + 256 * unat (b ! 1) + 65536 * unat (b ! 2) + 16777216 * unat (b ! 3)"

lemma length_le [simp]: "length (le16 n) = 2" "length (le32 n) = 4"
  by (simp_all add: le16_def le32_def)

lemma of_le16_le16 [simp]: "n < 65536 \<Longrightarrow> of_le16 (le16 n) = n"
  by (simp add: of_le16_def le16_def unat_of_nat take_bit_eq_mod)

lemma of_le32_le32 [simp]:
  assumes "n < 4294967296"
  shows "of_le32 (le32 n) = n"
proof -
  have "n mod 256 + 256 * (n div 256 mod 256) + 65536 * (n div 65536 mod 256) + 16777216 * (n div 16777216 mod 256) = n"
  proof -
    have d: "n div 65536 = n div 256 div 256" "n div 16777216 = n div 256 div 256 div 256"
      by (simp_all flip: div_mult2_eq)
    have "n div 256 div 256 div 256 < 256" using assms by (simp flip: div_mult2_eq)
    moreover have "n = 256 * (n div 256) + n mod 256" "n div 256 = 256 * (n div 256 div 256) + n div 256 mod 256"
      "n div 256 div 256 = 256 * (n div 256 div 256 div 256) + n div 256 div 256 mod 256" by simp_all
    ultimately show ?thesis unfolding d by (simp only: mod_less)
  qed
  moreover have "n div 16777216 mod 256 = n div 16777216" using assms by simp
  ultimately show ?thesis by (simp add: of_le32_def le32_def unat_of_nat)
qed

lemma of_le32_bound [simp]: "of_le32 b < 4294967296"
proof -
  have "unat (x :: byte) < 256" for x using unsigned_less[of x] by simp
  from this[of "b ! 0"] this[of "b ! 1"] this[of "b ! 2"] this[of "b ! 3"] show ?thesis
    unfolding of_le32_def by linarith
qed

lemma of_le16_bound [simp]: "of_le16 b < 65536"
proof -
  have "unat (x :: byte) < 256" for x using unsigned_less[of x] by simp
  from this[of "b ! 0"] this[of "b ! 1"] show ?thesis unfolding of_le16_def by linarith
qed

end
