(* ===== verification/DiskIo.thy ===== *)
theory DiskIo
  imports Bytes
begin

text \<open>
  I/O buffers (\<^verbatim>\<open>kern/fs/iobuf.c\<close>), the RAM disk behind the IDE interface
  (\<^verbatim>\<open>kern/driver/ramdisk.c\<close>, \<^verbatim>\<open>kern/driver/ide.c\<close>) and the block device \<^verbatim>\<open>disk0\<close>
  (\<^verbatim>\<open>kern/fs/devs/dev_disk0.c\<close>).

  The object \<^verbatim>\<open>io_base\<close> points into is the byte list \<open>io_mem\<close>, the pointer an index into
  it. A semaphore used as a lock is its value; acquiring it at 0 does not return.
\<close>

subsection \<open>I/O buffers\<close>

record iobuf =
  io_mem :: "byte list"
  io_base :: nat
  io_offset :: int
  io_len :: nat
  io_resid :: nat

definition iobuf_init :: "byte list \<Rightarrow> nat \<Rightarrow> nat \<Rightarrow> int \<Rightarrow> iobuf" where
  "iobuf_init mem base len offset =
     \<lparr>io_mem = mem, io_base = base, io_offset = offset, io_len = len, io_resid = len\<rparr>"

definition iobuf_used :: "iobuf \<Rightarrow> nat" where
  "iobuf_used iob = io_len iob - io_resid iob"

definition iobuf_skip :: "nat \<Rightarrow> iobuf \<Rightarrow> iobuf option" where
  "iobuf_skip n iob =
     do { kassert (n \<le> io_resid iob);
          Some (iob\<lparr>io_base := io_base iob + n, io_offset := io_offset iob + int n,
                    io_resid := io_resid iob - n\<rparr>) }"

text \<open>Returns the error code, the buffer, \<open>data\<close> and the number of bytes copied.\<close>

definition iobuf_move :: "iobuf \<Rightarrow> byte list \<Rightarrow> nat \<Rightarrow> bool \<Rightarrow> (int \<times> iobuf \<times> byte list \<times> nat) option" where
  "iobuf_move iob data len m2b =
     (let alen = (if io_resid iob > len then len else io_resid iob) in
      do { (iob', data') \<leftarrow>
             (if alen > 0 then
                let (iob1, data1) =
                  (if m2b then (iob\<lparr>io_mem := put_bytes (io_base iob) (take alen data) (io_mem iob)\<rparr>, data)
                   else (iob, put_bytes 0 (get_bytes (io_base iob) alen (io_mem iob)) data))
                in do { iob2 \<leftarrow> iobuf_skip alen iob1; Some (iob2, data1) }
              else Some (iob, data));
           Some (if len - alen = 0 then 0 else - E_NO_MEM, iob', data', alen) })"

definition iobuf_move_zeros :: "iobuf \<Rightarrow> nat \<Rightarrow> (int \<times> iobuf \<times> nat) option" where
  "iobuf_move_zeros iob len =
     (let alen = (if io_resid iob > len then len else io_resid iob) in
      do { iob' \<leftarrow> (if alen > 0
                    then iobuf_skip alen (iob\<lparr>io_mem := put_bytes (io_base iob) (replicate alen 0) (io_mem iob)\<rparr>)
                    else Some iob);
           Some (if len - alen = 0 then 0 else - E_NO_MEM, iob', alen) })"

subsection \<open>RAM disk and IDE interface\<close>

definition SECTSIZE :: nat where "SECTSIZE = 512"
definition MAX_NSECS :: nat where "MAX_NSECS = 128"
definition MAX_DISK_NSECS :: nat where "MAX_DISK_NSECS = 0x10000000"

record disk =
  disk_img :: "byte list"
  disk_size :: nat
  disk0_buffer :: "byte list"
  disk0_sem :: nat
  d_blocks :: nat

text \<open>\<^verbatim>\<open>MIN(nsecs, dev->size - secno)\<close>, the difference taken in \<^verbatim>\<open>size_t\<close>.\<close>

definition clip_secs :: "disk \<Rightarrow> nat \<Rightarrow> nat \<Rightarrow> nat" where
  "clip_secs d secno nsecs = min nsecs (u64 (disk_size d + (2 ^ 64 - u64 secno)))"

definition ramdisk_read :: "nat \<Rightarrow> nat \<Rightarrow> disk \<Rightarrow> disk" where
  "ramdisk_read secno nsecs d =
     (let n = clip_secs d secno nsecs in
      d\<lparr>disk0_buffer := put_bytes 0 (get_bytes (secno * SECTSIZE) (n * SECTSIZE) (disk_img d)) (disk0_buffer d)\<rparr>)"

definition ramdisk_write :: "nat \<Rightarrow> nat \<Rightarrow> disk \<Rightarrow> disk" where
  "ramdisk_write secno nsecs d =
     (let n = clip_secs d secno nsecs in
      d\<lparr>disk_img := put_bytes (secno * SECTSIZE) (get_bytes 0 (n * SECTSIZE) (disk0_buffer d)) (disk_img d)\<rparr>)"

definition ide_read_secs :: "nat \<Rightarrow> nat \<Rightarrow> disk \<Rightarrow> disk option" where
  "ide_read_secs secno nsecs d =
     do { kassert (nsecs \<le> MAX_NSECS);
          kassert (secno < MAX_DISK_NSECS \<and> secno + nsecs \<le> MAX_DISK_NSECS);
          Some (ramdisk_read secno nsecs d) }"

definition ide_write_secs :: "nat \<Rightarrow> nat \<Rightarrow> disk \<Rightarrow> disk option" where
  "ide_write_secs secno nsecs d =
     do { kassert (nsecs \<le> MAX_NSECS);
          kassert (secno < MAX_DISK_NSECS \<and> secno + nsecs \<le> MAX_DISK_NSECS);
          Some (ramdisk_write secno nsecs d) }"

subsection \<open>The block device\<close>

definition DISK0_BLKSIZE :: nat where "DISK0_BLKSIZE = 4096"
definition DISK0_BUFSIZE :: nat where "DISK0_BUFSIZE = 4 * 4096"
definition DISK0_BLK_NSECT :: nat where "DISK0_BLK_NSECT = 8"

lemmas disk_consts = SECTSIZE_def MAX_NSECS_def MAX_DISK_NSECS_def DISK0_BLKSIZE_def DISK0_BUFSIZE_def
  DISK0_BLK_NSECT_def

definition lock_disk0 :: "disk \<Rightarrow> disk option" where
  "lock_disk0 d = (if disk0_sem d > 0 then Some (d\<lparr>disk0_sem := disk0_sem d - 1\<rparr>) else None)"

definition unlock_disk0 :: "disk \<Rightarrow> disk" where
  "unlock_disk0 d = d\<lparr>disk0_sem := disk0_sem d + 1\<rparr>"

definition disk0_read_blks_nolock :: "nat \<Rightarrow> nat \<Rightarrow> disk \<Rightarrow> disk option" where
  "disk0_read_blks_nolock blkno nblks d =
     ide_read_secs (u32 (blkno * DISK0_BLK_NSECT)) (u32 (nblks * DISK0_BLK_NSECT)) d"

definition disk0_write_blks_nolock :: "nat \<Rightarrow> nat \<Rightarrow> disk \<Rightarrow> disk option" where
  "disk0_write_blks_nolock blkno nblks d =
     ide_write_secs (u32 (blkno * DISK0_BLK_NSECT)) (u32 (nblks * DISK0_BLK_NSECT)) d"

partial_function (option) disk0_loop ::
  "nat \<Rightarrow> nat \<Rightarrow> bool \<Rightarrow> iobuf \<Rightarrow> disk \<Rightarrow> (iobuf \<times> disk) option" where
  "disk0_loop resid blkno wr iob d =
     (if resid \<noteq> 0 then
        if wr then
          do { (_, iob1, data, copied) \<leftarrow> iobuf_move iob (disk0_buffer d) DISK0_BUFSIZE False;
               kassert (copied \<noteq> 0 \<and> copied \<le> resid \<and> copied mod DISK0_BLKSIZE = 0);
               let nblks = copied div DISK0_BLKSIZE;
               d1 \<leftarrow> disk0_write_blks_nolock blkno nblks (d\<lparr>disk0_buffer := data\<rparr>);
               disk0_loop (resid - copied) (u32 (blkno + nblks)) wr iob1 d1 }
        else
          do { let alen = (if DISK0_BUFSIZE > resid then resid else DISK0_BUFSIZE);
               let nblks = alen div DISK0_BLKSIZE;
               d1 \<leftarrow> disk0_read_blks_nolock blkno nblks d;
               (_, iob1, _, copied) \<leftarrow> iobuf_move iob (disk0_buffer d1) alen True;
               kassert (copied = alen \<and> copied mod DISK0_BLKSIZE = 0);
               disk0_loop (resid - copied) (u32 (blkno + nblks)) wr iob1 d1 }
      else Some (iob, d))"

definition disk0_io :: "iobuf \<Rightarrow> bool \<Rightarrow> disk \<Rightarrow> (int \<times> iobuf \<times> disk) option" where
  "disk0_io iob wr d =
     (let offset = io_offset iob; resid = io_resid iob;
          blkno = u32 (nat (offset div int DISK0_BLKSIZE)); nblks = u32 (resid div DISK0_BLKSIZE)
      in if offset mod int DISK0_BLKSIZE \<noteq> 0 \<or> resid mod DISK0_BLKSIZE \<noteq> 0 then Some (- E_INVAL, iob, d)
         else if u32 (blkno + nblks) > d_blocks d then Some (- E_INVAL, iob, d)
         else if nblks = 0 then Some (0, iob, d)
         else do { d1 \<leftarrow> lock_disk0 d;
                   (iob', d2) \<leftarrow> disk0_loop resid blkno wr iob d1;
                   Some (0, iob', unlock_disk0 d2) })"

text \<open>The device after \<open>disk0_device_init\<close> on an image of whole sectors.\<close>

definition disk0_device_init :: "byte list \<Rightarrow> disk" where
  "disk0_device_init img =
     \<lparr>disk_img = img, disk_size = length img div SECTSIZE, disk0_buffer = replicate DISK0_BUFSIZE 0,
      disk0_sem = 1, d_blocks = length img div SECTSIZE div DISK0_BLK_NSECT\<rparr>"

subsection \<open>Transfers of one block\<close>

definition disk_ok :: "disk \<Rightarrow> bool" where
  "disk_ok d \<longleftrightarrow> disk_size d * SECTSIZE = length (disk_img d) \<and> length (disk0_buffer d) = DISK0_BUFSIZE \<and>
     disk0_sem d = 1 \<and> d_blocks d = disk_size d div DISK0_BLK_NSECT \<and> disk_size d \<le> MAX_DISK_NSECS"

definition block :: "disk \<Rightarrow> nat \<Rightarrow> byte list" where
  "block d b = get_bytes (b * DISK0_BLKSIZE) DISK0_BLKSIZE (disk_img d)"

lemma disk0_device_init_ok:
  "length img mod SECTSIZE = 0 \<Longrightarrow> length img div SECTSIZE \<le> MAX_DISK_NSECS \<Longrightarrow> disk_ok (disk0_device_init img)"
  by (auto simp: disk_ok_def disk0_device_init_def)

lemma block_in_image: "disk_ok d \<Longrightarrow> b < d_blocks d \<Longrightarrow> b * 4096 + 4096 \<le> length (disk_img d)"
  by (auto simp: disk_ok_def disk_consts)

lemma clip_one_block: "disk_ok d \<Longrightarrow> b < d_blocks d \<Longrightarrow> clip_secs d (b * 8) 8 = 8"
proof -
  assume ok: "disk_ok d" and b: "b < d_blocks d"
  then have le: "b * 8 + 8 \<le> disk_size d" "disk_size d \<le> 0x10000000" by (auto simp: disk_ok_def disk_consts)
  then have eq: "disk_size d + (2 ^ 64 - u64 (b * 8)) = (disk_size d - b * 8) + 2 ^ 64"
    by (simp add: u64_def)
  have "u64 (disk_size d + (2 ^ 64 - u64 (b * 8))) = disk_size d - b * 8"
  proof (subst eq)
    show "u64 (disk_size d - b * 8 + 2 ^ 64) = disk_size d - b * 8"
      unfolding u64_def mod_add_self2 by (rule mod_less) (use le in simp)
  qed
  then show ?thesis using le by (simp add: clip_secs_def)
qed

text \<open>Reading one block into a block-sized buffer.\<close>

lemma disk0_read_block:
  assumes ok: "disk_ok d" and b: "b < d_blocks d" and mem: "base + DISK0_BLKSIZE \<le> length mem"
  shows "\<exists>iob' d'. disk0_io (iobuf_init mem base DISK0_BLKSIZE (int (b * DISK0_BLKSIZE))) False d = Some (0, iob', d') \<and>
    io_mem iob' = put_bytes base (block d b) mem \<and> disk_ok d' \<and> disk_img d' = disk_img d \<and> d_blocks d' = d_blocks d"
proof -
  have b2: "b < 2 ^ 25" using ok b by (auto simp: disk_ok_def disk_consts)
  have img: "b * 4096 + 4096 \<le> length (disk_img d)" by (rule block_in_image[OF ok b])
  have buf: "length (disk0_buffer d) = 16384" using ok by (simp add: disk_ok_def disk_consts)
  have clip: "clip_secs (d\<lparr>disk0_sem := 0\<rparr>) (b * 8) 8 = 8"
    using clip_one_block[OF ok b] by (simp add: clip_secs_def)
  define d1 where "d1 = ramdisk_read (b * 8) 8 (d\<lparr>disk0_sem := 0\<rparr>)"
  have d1: "disk0_buffer d1 = put_bytes 0 (block d b) (disk0_buffer d)" "disk_img d1 = disk_img d"
    "disk0_sem d1 = 0" "disk_size d1 = disk_size d" "d_blocks d1 = d_blocks d"
    using clip by (simp_all add: d1_def ramdisk_read_def block_def disk_consts mult.commute)
  have rd: "disk0_read_blks_nolock b 1 (d\<lparr>disk0_sem := 0\<rparr>) = Some d1"
    using b2 by (simp add: disk0_read_blks_nolock_def ide_read_secs_def disk_consts kassert_def d1_def)
  have bl: "length (block d b) = 4096" using img by (simp add: block_def disk_consts)
  let ?iob = "iobuf_init mem base 4096 (int (b * 4096))"
  have mv: "iobuf_move ?iob (disk0_buffer d1) 4096 True =
      Some (0, ?iob\<lparr>io_mem := put_bytes base (block d b) mem, io_base := base + 4096, io_offset := int (b * 4096) + 4096, io_resid := 0\<rparr>, disk0_buffer d1, 4096)"
    using mem buf bl by (simp add: iobuf_move_def iobuf_init_def iobuf_skip_def kassert_def d1(1) put_bytes_def disk_consts add.commute)
  have "disk0_loop 4096 b False ?iob (d\<lparr>disk0_sem := 0\<rparr>) =
      Some (?iob\<lparr>io_mem := put_bytes base (block d b) mem, io_base := base + 4096, io_offset := int (b * 4096) + 4096, io_resid := 0\<rparr>, d1)"
    using rd mv by (subst disk0_loop.simps) (simp add: disk_consts kassert_def Let_def disk0_loop.simps)
  moreover have "\<not> u32 (b + 1) > d_blocks d" using b b2 by simp
  ultimately have "disk0_io ?iob False d = Some (0, ?iob\<lparr>io_mem := put_bytes base (block d b) mem, io_base := base + 4096,
      io_offset := int (b * 4096) + 4096, io_resid := 0\<rparr>, unlock_disk0 d1)"
    using ok b2 by (simp add: disk0_io_def disk_consts iobuf_init_def lock_disk0_def disk_ok_def Let_def)
  moreover have "disk_ok (unlock_disk0 d1)" using ok d1 buf bl
    by (auto simp: disk_ok_def unlock_disk0_def disk_consts put_bytes_def)
  ultimately show ?thesis using d1 by (auto simp: disk_consts unlock_disk0_def)
qed

text \<open>Writing one block from a block-sized buffer.\<close>

lemma disk0_write_block:
  assumes ok: "disk_ok d" and b: "b < d_blocks d" and mem: "base + DISK0_BLKSIZE \<le> length mem"
  shows "\<exists>iob' d'. disk0_io (iobuf_init mem base DISK0_BLKSIZE (int (b * DISK0_BLKSIZE))) True d = Some (0, iob', d') \<and>
    io_mem iob' = mem \<and> disk_ok d' \<and> disk_img d' = put_bytes (b * DISK0_BLKSIZE) (get_bytes base DISK0_BLKSIZE mem) (disk_img d) \<and>
    d_blocks d' = d_blocks d"
proof -
  have b2: "b < 2 ^ 25" using ok b by (auto simp: disk_ok_def disk_consts)
  have img: "b * 4096 + 4096 \<le> length (disk_img d)" by (rule block_in_image[OF ok b])
  have buf: "length (disk0_buffer d) = 16384" using ok by (simp add: disk_ok_def disk_consts)
  define blk where "blk = get_bytes base 4096 mem"
  have ml: "length blk = 4096" using mem by (simp add: disk_consts blk_def)
  define data where "data = put_bytes 0 blk (disk0_buffer d)"
  define d1 where "d1 = ramdisk_write (b * 8) 8 (d\<lparr>disk0_sem := 0, disk0_buffer := data\<rparr>)"
  have clip: "clip_secs (d\<lparr>disk0_sem := 0, disk0_buffer := data\<rparr>) (b * 8) 8 = 8"
    using clip_one_block[OF ok b] by (simp add: clip_secs_def)
  have dl: "length data = 16384" "get_bytes 0 4096 data = blk" using ml buf by (simp_all add: data_def)
  then have d1: "disk0_buffer d1 = data" "disk_img d1 = put_bytes (b * 4096) blk (disk_img d)"
    "disk0_sem d1 = 0" "disk_size d1 = disk_size d" "d_blocks d1 = d_blocks d"
    using clip by (simp_all add: d1_def ramdisk_write_def disk_consts mult.commute)
  have wr: "disk0_write_blks_nolock b 1 (d\<lparr>disk0_sem := 0, disk0_buffer := data\<rparr>) = Some d1"
    using b2 by (simp add: disk0_write_blks_nolock_def ide_write_secs_def disk_consts kassert_def d1_def)
  let ?iob = "iobuf_init mem base 4096 (int (b * 4096))"
  have mv: "iobuf_move ?iob (disk0_buffer d) 16384 False =
      Some (- E_NO_MEM, ?iob\<lparr>io_base := base + 4096, io_offset := int (b * 4096) + 4096, io_resid := 0\<rparr>, data, 4096)"
    using ml by (simp add: iobuf_move_def iobuf_init_def iobuf_skip_def kassert_def data_def blk_def Let_def)
  have "disk0_loop 4096 b True ?iob (d\<lparr>disk0_sem := 0\<rparr>) =
      Some (?iob\<lparr>io_base := base + 4096, io_offset := int (b * 4096) + 4096, io_resid := 0\<rparr>, d1)"
    using wr mv by (subst disk0_loop.simps) (simp add: disk_consts kassert_def Let_def disk0_loop.simps)
  moreover have "\<not> u32 (b + 1) > d_blocks d" using b b2 by simp
  ultimately have "disk0_io ?iob True d = Some (0, ?iob\<lparr>io_base := base + 4096,
      io_offset := int (b * 4096) + 4096, io_resid := 0\<rparr>, unlock_disk0 d1)"
    using ok b2 by (simp add: disk0_io_def disk_consts iobuf_init_def lock_disk0_def disk_ok_def Let_def)
  moreover have "disk_ok (unlock_disk0 d1)" using ok d1 dl ml img
    by (auto simp: disk_ok_def unlock_disk0_def disk_consts)
  ultimately show ?thesis using d1 by (auto simp: disk_consts unlock_disk0_def iobuf_init_def blk_def)
qed

lemma block_write_same:
  "disk_ok d \<Longrightarrow> b < d_blocks d \<Longrightarrow> length mem = DISK0_BLKSIZE \<Longrightarrow>
   disk_img d' = put_bytes (b * DISK0_BLKSIZE) mem (disk_img d) \<Longrightarrow> block d' b = mem"
  using block_in_image by (auto simp: block_def disk_consts)

lemma block_write_other:
  assumes "disk_ok d" "b < d_blocks d" "c < d_blocks d" "b \<noteq> c" "length mem = DISK0_BLKSIZE"
    "disk_img d' = put_bytes (b * DISK0_BLKSIZE) mem (disk_img d)"
  shows "block d' c = block d c"
proof -
  have "c * 4096 + 4096 \<le> b * 4096 \<or> b * 4096 + 4096 \<le> c * 4096" using assms(4) by (cases "b < c") linarith+
  then show ?thesis
    using block_in_image[OF assms(1,2)] block_in_image[OF assms(1,3)] assms(5,6)
    by (simp add: block_def disk_consts get_put_other)
qed

lemma length_block [simp]: "disk_ok d \<Longrightarrow> b < d_blocks d \<Longrightarrow> length (block d b) = 4096"
  using block_in_image by (simp add: block_def disk_consts)

subsection \<open>Properties\<close>

text \<open>
  The block device is a store of blocks: writing a block within the device and reading
  it back gives the bytes written, every other block is unchanged, the device lock is free
  again, and requests that are not block-aligned or end past the device are refused.
\<close>

lemma disk0_read_after_write:
  assumes "disk_ok d" and "b < d_blocks d" and "c < d_blocks d" and "length mem = DISK0_BLKSIZE"
    and "length mem' = DISK0_BLKSIZE"
  shows "\<exists>iob1 d1 iob2 d2.
    disk0_io (iobuf_init mem 0 DISK0_BLKSIZE (int (b * DISK0_BLKSIZE))) True d = Some (0, iob1, d1) \<and>
    disk0_io (iobuf_init mem' 0 DISK0_BLKSIZE (int (c * DISK0_BLKSIZE))) False d1 = Some (0, iob2, d2) \<and>
    io_mem iob2 = (if c = b then mem else block d c) \<and> disk_ok d2 \<and> disk0_sem d2 = 1 \<and>
    (\<forall>iob w. (\<not> int DISK0_BLKSIZE dvd io_offset iob \<or> \<not> DISK0_BLKSIZE dvd io_resid iob) \<longrightarrow>
       disk0_io iob w d = Some (- E_INVAL, iob, d))"
proof -
  obtain iob1 d1 where w: "disk0_io (iobuf_init mem 0 DISK0_BLKSIZE (int (b * DISK0_BLKSIZE))) True d = Some (0, iob1, d1)"
    "disk_ok d1" "disk_img d1 = put_bytes (b * DISK0_BLKSIZE) mem (disk_img d)" "d_blocks d1 = d_blocks d"
    using disk0_write_block[OF assms(1,2), of 0 mem] assms(4) by (auto simp: get_bytes_def)
  obtain iob2 d2 where r: "disk0_io (iobuf_init mem' 0 DISK0_BLKSIZE (int (c * DISK0_BLKSIZE))) False d1 = Some (0, iob2, d2)"
    "io_mem iob2 = block d1 c" "disk_ok d2"
    using disk0_read_block[OF w(2), of c 0 mem'] assms(3,5) w(2,4) by (auto simp: put_bytes_def disk_consts)
  have "block d1 c = (if c = b then mem else block d c)"
    using block_write_same[OF assms(1,2,4) w(3)] block_write_other[OF assms(1,2,3) _ assms(4) w(3)] by auto
  moreover have "disk0_sem d2 = 1" using r(3) by (simp add: disk_ok_def)
  ultimately show ?thesis using w(1) r by (auto simp: disk0_io_def Let_def dvd_eq_mod_eq_0)
qed

end
