(* ===== verification/Bitmap.thy ===== *)
theory Bitmap
  imports Prelude
begin

unbundle bit_operations_syntax

text \<open>
  The bitmap of \<^verbatim>\<open>kern/fs/sfs/bitmap.c\<close>, which records the free disk blocks: words of 32 bits,
  a set bit means free. The results of the two calls of \<^verbatim>\<open>kmalloc\<close> in \<^verbatim>\<open>bitmap_create\<close> are
  arguments; a result \<open>Some None\<close> is the \<^verbatim>\<open>NULL\<close> it returns then.
\<close>

definition WORD_BITS :: nat where "WORD_BITS = 32"

record bitmap =
  nbits :: nat
  nwords :: nat
  bmap :: "32 word list"

definition bm_mask :: "nat \<Rightarrow> 32 word" where
  "bm_mask offset = push_bit offset 1"

definition bitmap_create :: "bool \<Rightarrow> bool \<Rightarrow> nat \<Rightarrow> bitmap option option" where
  "bitmap_create kmalloc1 kmalloc2 n =
     do { kassert (n \<noteq> 0 \<and> n + WORD_BITS > n);
          if \<not> kmalloc1 then Some None
          else let nw = (n + WORD_BITS - 1) div WORD_BITS in
          if \<not> kmalloc2 then Some None
          else let m = replicate nw (- 1) in
          if n \<noteq> nw * WORD_BITS then
            let ix = nw - 1; overbits = n - ix * WORD_BITS in
            do { kassert (n div WORD_BITS = ix);
                 kassert (overbits > 0 \<and> overbits < WORD_BITS);
                 Some (Some \<lparr>nbits = n, nwords = nw,
                   bmap = m[ix := fold (\<lambda>k w. w XOR bm_mask k) [overbits..<WORD_BITS] (m ! ix)]\<rparr>) }
          else Some (Some \<lparr>nbits = n, nwords = nw, bmap = m\<rparr>) }"

text \<open>The inner loop of \<open>bitmap_alloc\<close>; \<open>None\<close> is its \<^verbatim>\<open>assert(0)\<close>.\<close>

function alloc_offset :: "32 word \<Rightarrow> nat \<Rightarrow> nat option" where
  "alloc_offset w offset =
     (if offset < WORD_BITS then
        if w AND bm_mask offset \<noteq> 0 then Some offset else alloc_offset w (offset + 1)
      else None)"
  by auto
termination by (relation "measure (\<lambda>(_, k). WORD_BITS - k)") (auto simp: WORD_BITS_def)

declare alloc_offset.simps [simp del]

text \<open>The outer loop: the result code, the index stored and the bitmap.\<close>

function alloc_word :: "bitmap \<Rightarrow> nat \<Rightarrow> (int \<times> nat option \<times> bitmap) option" where
  "alloc_word b ix =
     (if ix < nwords b then
        if bmap b ! ix \<noteq> 0 then
          do { offset \<leftarrow> alloc_offset (bmap b ! ix) 0;
               Some (0, Some (ix * WORD_BITS + offset),
                     b\<lparr>bmap := (bmap b)[ix := bmap b ! ix XOR bm_mask offset]\<rparr>) }
        else alloc_word b (ix + 1)
      else Some (- E_NO_MEM, None, b))"
  by auto
termination by (relation "measure (\<lambda>(b, k). nwords b - k)") auto

declare alloc_word.simps [simp del]

definition bitmap_alloc :: "bitmap \<Rightarrow> (int \<times> nat option \<times> bitmap) option" where
  "bitmap_alloc b = alloc_word b 0"

definition bitmap_translate :: "bitmap \<Rightarrow> nat \<Rightarrow> (nat \<times> 32 word) option" where
  "bitmap_translate b index =
     do { kassert (index < nbits b);
          Some (index div WORD_BITS, bm_mask (index mod WORD_BITS)) }"

definition bitmap_test :: "bitmap \<Rightarrow> nat \<Rightarrow> bool option" where
  "bitmap_test b index =
     do { (ix, mask) \<leftarrow> bitmap_translate b index; Some (bmap b ! ix AND mask \<noteq> 0) }"

definition bitmap_free :: "bitmap \<Rightarrow> nat \<Rightarrow> bitmap option" where
  "bitmap_free b index =
     do { (ix, mask) \<leftarrow> bitmap_translate b index;
          kassert (bmap b ! ix AND mask = 0);
          Some (b\<lparr>bmap := (bmap b)[ix := bmap b ! ix OR mask]\<rparr>) }"

definition bitmap_getdata :: "bitmap \<Rightarrow> 32 word list \<times> nat" where
  "bitmap_getdata b = (bmap b, 4 * nwords b)"

subsection \<open>The set of free indices\<close>

definition bm_free :: "bitmap \<Rightarrow> nat set" where
  "bm_free b = {i. i < WORD_BITS * nwords b \<and> bit (bmap b ! (i div WORD_BITS)) (i mod WORD_BITS)}"

definition bm_ok :: "bitmap \<Rightarrow> bool" where
  "bm_ok b \<longleftrightarrow> nbits b \<noteq> 0 \<and> nwords b = (nbits b + WORD_BITS - 1) div WORD_BITS \<and>
     length (bmap b) = nwords b \<and> bm_free b \<subseteq> {0..<nbits b}"

lemma word_zero_iff: "w = 0 \<longleftrightarrow> (\<forall>n<32. \<not> bit w n)" for w :: "32 word"
  by (auto simp: bit_eq_iff dest: bit_imp_le_length)

lemma bm_mask_bit: "k < 32 \<Longrightarrow> bit (bm_mask k) j \<longleftrightarrow> j = k"
  by (auto simp: bm_mask_def bit_simps)

lemma and_mask: "k < 32 \<Longrightarrow> w AND bm_mask k \<noteq> 0 \<longleftrightarrow> bit w k" for w :: "32 word"
proof -
  assume k: "k < 32"
  have "(w AND bm_mask k = 0) = (\<forall>n<32. \<not> bit (w AND bm_mask k) n)" by (rule word_zero_iff)
  also have "\<dots> = (\<not> bit w k)" using k by (auto simp: bit_and_iff bm_mask_bit)
  finally show ?thesis by simp
qed

lemma xor_mask: "k < 32 \<Longrightarrow> bit (w XOR bm_mask k) j = (if j = k then \<not> bit w k else bit w j)" for w :: "32 word"
  by (auto simp: bit_xor_iff bm_mask_bit)

lemma or_mask: "k < 32 \<Longrightarrow> bit (w OR bm_mask k) j = (j = k \<or> bit w j)" for w :: "32 word"
  by (auto simp: bit_or_iff bm_mask_bit)

text \<open>Replacing one word, seen on the set of free indices.\<close>

lemma bm_free_upd:
  assumes "length (bmap b) = nwords b" "ix < nwords b"
  shows "i \<in> bm_free (b\<lparr>bmap := (bmap b)[ix := w]\<rparr>) \<longleftrightarrow>
    (if i div 32 = ix then bit w (i mod 32) else i \<in> bm_free b)"
  using assms by (auto simp: bm_free_def WORD_BITS_def nth_list_update)

lemma index_eq: "i = j \<longleftrightarrow> i div 32 = j div 32 \<and> i mod 32 = j mod 32" for i j :: nat
  by (metis div_mult_mod_eq)

lemma bm_free_bit: "i \<in> bm_free b \<longleftrightarrow> i div 32 < nwords b \<and> bit (bmap b ! (i div 32)) (i mod 32)"
  by (auto simp: bm_free_def WORD_BITS_def)

subsection \<open>Allocation\<close>

lemma alloc_offset_least:
  "k \<le> 32 \<Longrightarrow> (\<exists>j. k \<le> j \<and> j < 32 \<and> bit w j) \<Longrightarrow>
   \<exists>j. alloc_offset w k = Some j \<and> k \<le> j \<and> j < 32 \<and> bit w j \<and> (\<forall>i. k \<le> i \<and> i < j \<longrightarrow> \<not> bit w i)"
proof (induction w k rule: alloc_offset.induct)
  case (1 w k)
  then have k: "k < 32" by auto
  show ?case
  proof (cases "bit w k")
    case True
    then show ?thesis using k and_mask[OF k, of w] by (subst alloc_offset.simps) (auto simp: WORD_BITS_def)
  next
    case False
    have "\<exists>j. alloc_offset w (k + 1) = Some j \<and> k + 1 \<le> j \<and> j < 32 \<and> bit w j \<and> (\<forall>i. k + 1 \<le> i \<and> i < j \<longrightarrow> \<not> bit w i)"
    proof (rule "1.IH")
      obtain j where "k \<le> j" "j < 32" "bit w j" using "1.prems"(2) by blast
      moreover from this False have "j \<noteq> k" by auto
      ultimately show "\<exists>j. k + 1 \<le> j \<and> j < 32 \<and> bit w j" by (intro exI[of _ j]) auto
    qed (use k False and_mask[OF k, of w] in \<open>auto simp: WORD_BITS_def\<close>)
    then obtain j where j: "alloc_offset w (k + 1) = Some j" "k + 1 \<le> j" "j < 32" "bit w j"
      "\<forall>i. k + 1 \<le> i \<and> i < j \<longrightarrow> \<not> bit w i" by blast
    have "\<not> bit w i" if "k \<le> i" "i < j" for i using that j(5) False by (cases "i = k") auto
    moreover have "alloc_offset w k = Some j" using j(1) k False and_mask[OF k, of w]
      by (subst alloc_offset.simps) (auto simp: WORD_BITS_def)
    ultimately show ?thesis using j(2-4) by auto
  qed
qed

lemma word_nonzero_bit: "w \<noteq> 0 \<longleftrightarrow> (\<exists>j<32. bit w j)" for w :: "32 word"
  using word_zero_iff[of w] by auto

lemma alloc_word_least:
  assumes "length (bmap b) = nwords b" "\<forall>i\<in>bm_free b. k \<le> i div 32"
  shows "(if bm_free b = {} then alloc_word b k = Some (- E_NO_MEM, None, b)
    else \<exists>i b'. alloc_word b k = Some (0, Some i, b') \<and> i \<in> bm_free b \<and> (\<forall>j\<in>bm_free b. i \<le> j) \<and>
      bm_free b' = bm_free b - {i} \<and> nbits b' = nbits b \<and> nwords b' = nwords b \<and> length (bmap b') = nwords b)"
  using assms
proof (induction b k rule: alloc_word.induct)
  case (1 b k)
  have zero: "bmap b ! ix = 0 \<longleftrightarrow> (\<forall>i\<in>bm_free b. i div 32 \<noteq> ix)" if "ix < nwords b" for ix
  proof -
    have "bit (bmap b ! ix) j \<Longrightarrow> j < 32 \<Longrightarrow> ix * 32 + j \<in> bm_free b" for j
      using that by (auto simp: bm_free_def WORD_BITS_def)
    moreover have "i \<in> bm_free b \<Longrightarrow> i div 32 = ix \<Longrightarrow> bit (bmap b ! ix) (i mod 32)" for i
      by (auto simp: bm_free_def WORD_BITS_def)
    ultimately show ?thesis using word_nonzero_bit[of "bmap b ! ix"] by fastforce
  qed
  show ?case
  proof (cases "k < nwords b")
    case False
    have "bm_free b = {}" using "1.prems"(2) False by (fastforce simp: bm_free_def WORD_BITS_def)
    then show ?thesis using False by (subst alloc_word.simps) simp
  next
    case True
    show ?thesis
    proof (cases "bmap b ! k = 0")
      case zk: True
      have "\<forall>i\<in>bm_free b. k + 1 \<le> i div 32" using "1.prems"(2) zero[OF True] zk by fastforce
      moreover have "alloc_word b k = alloc_word b (k + 1)" using zk True by (subst alloc_word.simps) simp
      ultimately show ?thesis using "1.IH"[OF True _ "1.prems"(1)] zk by metis
    next
      case False
      obtain j where j: "alloc_offset (bmap b ! k) 0 = Some j" "j < 32" "bit (bmap b ! k) j" "\<forall>i<j. \<not> bit (bmap b ! k) i"
        using alloc_offset_least[of 0 "bmap b ! k"] False word_nonzero_bit by auto
      let ?i = "k * 32 + j" and ?b = "b\<lparr>bmap := (bmap b)[k := bmap b ! k XOR bm_mask j]\<rparr>"
      have run: "alloc_word b k = Some (0, Some ?i, ?b)"
        using True False j(1) by (subst alloc_word.simps) (simp add: WORD_BITS_def)
      have mem: "?i \<in> bm_free b" using True j by (auto simp: bm_free_def WORD_BITS_def)
      have "?i \<le> i" if "i \<in> bm_free b" for i
      proof -
        have "k \<le> i div 32" using that "1.prems"(2) by blast
        moreover have "j \<le> i mod 32" if "i div 32 = k"
          using \<open>i \<in> bm_free b\<close> that j(4) by (auto simp: bm_free_def WORD_BITS_def not_le[symmetric])
        moreover have "i = i div 32 * 32 + i mod 32" by simp
        ultimately show ?thesis using j(2) by (cases "i div 32 = k") linarith+
      qed
      moreover have "bm_free ?b = bm_free b - {?i}"
      proof (rule set_eqI)
        show "i \<in> bm_free ?b \<longleftrightarrow> i \<in> bm_free b - {?i}" for i
          using bm_free_upd[OF "1.prems"(1) True, of i] index_eq[of i ?i] True j(2,3)
          by (auto simp: xor_mask bm_free_bit)
      qed
      ultimately show ?thesis using run mem "1.prems"(1) by auto
    qed
  qed
qed

lemma bitmap_alloc_ok:
  assumes "bm_ok b"
  shows "if bm_free b = {} then bitmap_alloc b = Some (- E_NO_MEM, None, b)
    else \<exists>i b'. bitmap_alloc b = Some (0, Some i, b') \<and> i \<in> bm_free b \<and> (\<forall>j\<in>bm_free b. i \<le> j) \<and>
      bm_ok b' \<and> bm_free b' = bm_free b - {i} \<and> nbits b' = nbits b \<and> nwords b' = nwords b"
proof -
  have "length (bmap b) = nwords b" using assms by (simp add: bm_ok_def)
  from alloc_word_least[OF this, of 0] assms show ?thesis
    unfolding bitmap_alloc_def bm_ok_def by (auto split: if_splits)
qed

subsection \<open>Release and test\<close>

lemma bm_index:
  assumes "bm_ok b" "i < nbits b"
  shows "i div WORD_BITS < nwords b" "i mod WORD_BITS < 32"
    "i \<in> bm_free b \<longleftrightarrow> bit (bmap b ! (i div WORD_BITS)) (i mod WORD_BITS)"
proof -
  show "i div WORD_BITS < nwords b" using assms by (auto simp: bm_ok_def WORD_BITS_def)
  then show "i \<in> bm_free b \<longleftrightarrow> bit (bmap b ! (i div WORD_BITS)) (i mod WORD_BITS)"
    by (auto simp: bm_free_def WORD_BITS_def)
qed (simp add: WORD_BITS_def)

lemma bitmap_test_ok: "bm_ok b \<Longrightarrow> i < nbits b \<Longrightarrow> bitmap_test b i = Some (i \<in> bm_free b)"
  using bm_index[of b i] by (simp add: bitmap_test_def bitmap_translate_def kassert_def and_mask)

lemma bitmap_free_ok:
  assumes ok: "bm_ok b" and i: "i < nbits b" "i \<notin> bm_free b"
  shows "\<exists>b'. bitmap_free b i = Some b' \<and> bm_ok b' \<and> bm_free b' = insert i (bm_free b) \<and>
    nbits b' = nbits b \<and> nwords b' = nwords b"
proof -
  note ix = bm_index[OF ok i(1)]
  have len: "length (bmap b) = nwords b" using ok by (simp add: bm_ok_def)
  let ?b = "b\<lparr>bmap := (bmap b)[i div WORD_BITS := bmap b ! (i div WORD_BITS) OR bm_mask (i mod WORD_BITS)]\<rparr>"
  have "bitmap_free b i = Some ?b"
    using i ix and_mask[OF ix(2)] by (simp add: bitmap_free_def bitmap_translate_def kassert_def)
  moreover have "bm_free ?b = insert i (bm_free b)"
  proof (rule set_eqI)
    show "x \<in> bm_free ?b \<longleftrightarrow> x \<in> insert i (bm_free b)" for x
      using bm_free_upd[OF len ix(1), of x] index_eq[of x i] ix
      by (auto simp: or_mask bm_free_bit WORD_BITS_def)
  qed
  ultimately show ?thesis using ok i(1) by (auto simp: bm_ok_def)
qed

subsection \<open>Creation\<close>

lemma fold_xor_masks:
  "l \<le> 32 \<Longrightarrow> bit (fold (\<lambda>k w. w XOR bm_mask k) [m..<l] w) j = (if m \<le> j \<and> j < l then \<not> bit w j else bit w j)"
  for w :: "32 word"
proof (induction l)
  case (Suc l)
  show ?case
  proof (cases "m \<le> l")
    case True
    then show ?thesis using Suc by (auto simp: xor_mask less_Suc_eq)
  qed (use Suc in auto)
qed simp

lemma bitmap_create_ok:
  assumes "n \<noteq> 0"
  shows "\<exists>b. bitmap_create True True n = Some (Some b) \<and> bm_ok b \<and> nbits b = n \<and> bm_free b = {0..<n}"
proof -
  define nw where "nw = (n + 31) div 32"
  then have nd: "(n + 31) div 32 = nw" "(31 + n) div 32 = nw" by (simp_all add: add.commute)
  show ?thesis
  proof (cases "n = nw * 32")
    case True
    let ?b = "\<lparr>nbits = n, nwords = nw, bmap = replicate nw (- 1)\<rparr>"
    have "bitmap_create True True n = Some (Some ?b)"
      using assms True[symmetric] nd by (simp add: bitmap_create_def WORD_BITS_def kassert_def Let_def)
    moreover have "bm_free ?b = {0..<n}"
      using True[symmetric] by (auto simp: bm_free_def WORD_BITS_def bit_minus_1_iff possible_bit_def mult.commute)
    ultimately show ?thesis using assms nd by (auto simp: bm_ok_def WORD_BITS_def)
  next
    case False
    define ix where "ix = nw - 1"
    obtain q r where n: "n = 32 * q + r" "r < 32" by (metis mult_div_mod_eq mod_less_divisor zero_less_numeral)
    have "r \<noteq> 0"
    proof
      assume "r = 0"
      then have "n + 31 = 31 + 32 * q" using n by simp
      then have "nw = q" unfolding nw_def by simp
      then show False using False n \<open>r = 0\<close> by simp
    qed
    then have "n + 31 = 32 * (q + 1) + (r - 1)" "r - 1 < 32" using n by auto
    then have "nw = q + 1" unfolding nw_def by simp
    then have ix: "n div 32 = ix" "0 < n - ix * 32" "n - ix * 32 < 32" "nw = Suc ix" "ix * 32 < n" "n < nw * 32"
      using n \<open>r \<noteq> 0\<close> by (simp_all add: ix_def)
    have ixw: "ix < nw" "nw - Suc 0 = ix" using ix(4) by simp_all
    let ?w = "fold (\<lambda>k w. w XOR bm_mask k) [n - ix * 32..<32] (- 1 :: 32 word)"
    let ?b = "\<lparr>nbits = n, nwords = nw, bmap = (replicate nw (- 1))[ix := ?w]\<rparr>"
    have "bitmap_create True True n = Some (Some ?b)"
      using assms False ix(1-3) nd ixw by (simp add: bitmap_create_def WORD_BITS_def kassert_def Let_def)
    moreover have "bm_free ?b = {0..<n}"
    proof (rule set_eqI)
      fix x :: nat
      have x: "x = x div 32 * 32 + x mod 32" "x mod 32 < 32" by simp_all
      have "x \<in> bm_free ?b \<longleftrightarrow> x div 32 < nw \<and> (x div 32 = ix \<longrightarrow> x mod 32 < n - ix * 32)"
        using ixw by (auto simp: bm_free_bit nth_list_update fold_xor_masks bit_minus_1_iff possible_bit_def)
      also have "\<dots> \<longleftrightarrow> x < n" using ix(2-5) x by (cases "x div 32 = ix"; cases "x div 32 < ix") linarith+
      finally show "x \<in> bm_free ?b \<longleftrightarrow> x \<in> {0..<n}" by simp
    qed
    ultimately show ?thesis using assms nd by (auto simp: bm_ok_def WORD_BITS_def)
  qed
qed

subsection \<open>Properties\<close>

text \<open>
  C21. A new bitmap has exactly its first nbits indices free. On a well-formed bitmap
  bitmap_alloc returns the least free index and marks it used, or fails without a change when
  none is free; bitmap_free gives a used index back and undoes the allocation; bitmap_test
  reports membership; neither the internal assertion of the search nor an index out of range
  is ever reached.
\<close>

theorem bitmap_correct:
  assumes "bm_ok b" and "n \<noteq> 0"
  shows "(\<exists>c. bitmap_create True True n = Some (Some c) \<and> bm_ok c \<and> bm_free c = {0..<n}) \<and>
    (\<forall>i<nbits b. bitmap_test b i = Some (i \<in> bm_free b)) \<and>
    (if bm_free b = {} then bitmap_alloc b = Some (- E_NO_MEM, None, b)
     else \<exists>i b' b''. bitmap_alloc b = Some (0, Some i, b') \<and> i \<in> bm_free b \<and> (\<forall>j\<in>bm_free b. i \<le> j) \<and>
       bm_ok b' \<and> bm_free b' = bm_free b - {i} \<and> i < nbits b \<and>
       bitmap_free b' i = Some b'' \<and> bm_ok b'' \<and> bm_free b'' = bm_free b)"
proof -
  have "if bm_free b = {} then bitmap_alloc b = Some (- E_NO_MEM, None, b)
     else \<exists>i b' b''. bitmap_alloc b = Some (0, Some i, b') \<and> i \<in> bm_free b \<and> (\<forall>j\<in>bm_free b. i \<le> j) \<and>
       bm_ok b' \<and> bm_free b' = bm_free b - {i} \<and> i < nbits b \<and>
       bitmap_free b' i = Some b'' \<and> bm_ok b'' \<and> bm_free b'' = bm_free b"
  proof (cases "bm_free b = {}")
    case False
    then obtain i b' where a: "bitmap_alloc b = Some (0, Some i, b')" "i \<in> bm_free b" "\<forall>j\<in>bm_free b. i \<le> j"
      "bm_ok b'" "bm_free b' = bm_free b - {i}" "nbits b' = nbits b"
      using bitmap_alloc_ok[OF assms(1)] by auto
    have i: "i < nbits b" using assms(1) a(2) by (auto simp: bm_ok_def)
    obtain b'' where "bitmap_free b' i = Some b''" "bm_ok b''" "bm_free b'' = insert i (bm_free b')"
      using bitmap_free_ok[OF a(4), of i] a(5,6) i by auto
    then show ?thesis using a i by auto
  qed (use bitmap_alloc_ok[OF assms(1)] in auto)
  moreover have "\<forall>i<nbits b. bitmap_test b i = Some (i \<in> bm_free b)" using bitmap_test_ok[OF assms(1)] by blast
  moreover have "\<exists>c. bitmap_create True True n = Some (Some c) \<and> bm_ok c \<and> bm_free c = {0..<n}"
    using bitmap_create_ok[OF assms(2)] by blast
  ultimately show ?thesis by blast
qed

theorem bitmap_correct_witness:
  "\<exists>c i c'. bitmap_create True True 40 = Some (Some c) \<and> bm_free c = {0..<40} \<and>
     bitmap_alloc c = Some (0, Some i, c') \<and> i = 0 \<and> bm_free c' = {0..<40} - {0}"
proof -
  obtain c where c: "bitmap_create True True 40 = Some (Some c)" "bm_ok c" "bm_free c = {0..<40}"
    using bitmap_create_ok[of 40] by auto
  have ne: "bm_free c \<noteq> {}" "(40 :: nat) \<noteq> 0" using c(3) by auto
  obtain i c' where a: "bitmap_alloc c = Some (0, Some i, c')" "i \<in> bm_free c" "\<forall>j\<in>bm_free c. i \<le> j"
    "bm_free c' = bm_free c - {i}" using conjunct2[OF conjunct2[OF bitmap_correct[OF c(2) ne(2)]], unfolded if_not_P[OF ne(1)]] by metis
  have "0 \<in> bm_free c" unfolding c(3) by simp
  then have "i = 0" using a(3) by blast
  then show ?thesis using a c by - (rule exI[of _ c], rule exI[of _ i], rule exI[of _ c'], simp)
qed

end
