(* ===== verification/SfsIo.thy ===== *)
theory SfsIo
  imports DiskIo Bitmap
begin

text \<open>
  The mounted file system (\<^verbatim>\<open>kern/fs/sfs/sfs.h\<close>), its locks (\<^verbatim>\<open>sfs_lock.c\<close>) and block-level
  I/O (\<^verbatim>\<open>sfs_io.c\<close>), with the on-disk layout of the superblock, inodes and directory entries.

  A buffer argument is a byte list and an index into it. Functions return the result code, the
  buffer and the file system. The three semaphores are their values: a lock that is taken
  does not return.
\<close>

subsection \<open>Constants and on-disk structures\<close>

definition SFS_MAGIC :: nat where "SFS_MAGIC = 0x2f8dbe2a"
definition SFS_BLKSIZE :: nat where "SFS_BLKSIZE = 4096"
definition SFS_NDIRECT :: nat where "SFS_NDIRECT = 12"
definition SFS_MAX_INFO_LEN :: nat where "SFS_MAX_INFO_LEN = 31"
definition SFS_MAX_FNAME_LEN :: nat where "SFS_MAX_FNAME_LEN = 255"
definition SFS_MAX_FILE_SIZE :: nat where "SFS_MAX_FILE_SIZE = 1024 * 1024 * 128"
definition SFS_BLKN_SUPER :: nat where "SFS_BLKN_SUPER = 0"
definition SFS_BLKN_ROOT :: nat where "SFS_BLKN_ROOT = 1"
definition SFS_BLKN_FREEMAP :: nat where "SFS_BLKN_FREEMAP = 2"
definition SFS_BLKBITS :: nat where "SFS_BLKBITS = 4096 * 8"
definition SFS_BLK_NENTRY :: nat where "SFS_BLK_NENTRY = 1024"
definition SFS_TYPE_FILE :: nat where "SFS_TYPE_FILE = 1"
definition SFS_TYPE_DIR :: nat where "SFS_TYPE_DIR = 2"
definition SFS_TYPE_LINK :: nat where "SFS_TYPE_LINK = 3"

lemmas sfs_consts = SFS_BLKSIZE_def SFS_NDIRECT_def SFS_BLK_NENTRY_def SFS_BLKN_SUPER_def SFS_BLKN_FREEMAP_def
  SFS_BLKBITS_def SFS_MAX_FNAME_LEN_def

record sfs_super =
  magic :: nat
  blocks :: nat
  unused_blocks :: nat
  info :: "byte list"

record sfs_disk_inode =
  din_size :: nat
  din_type :: nat
  din_nlinks :: nat
  din_blocks :: nat
  din_direct :: "nat list"
  din_indirect :: nat

record sfs_disk_entry =
  ent_ino :: nat
  ent_name :: "byte list"

definition enc_super :: "sfs_super \<Rightarrow> byte list" where
  "enc_super s = le32 (magic s) @ le32 (blocks s) @ le32 (unused_blocks s) @ info s"

definition dec_super :: "byte list \<Rightarrow> sfs_super" where
  "dec_super b = \<lparr>magic = of_le32 (get_bytes 0 4 b), blocks = of_le32 (get_bytes 4 4 b),
     unused_blocks = of_le32 (get_bytes 8 4 b), info = get_bytes 12 32 b\<rparr>"

definition enc_words :: "nat list \<Rightarrow> byte list" where
  "enc_words ws = concat (map le32 ws)"

definition dec_words :: "nat \<Rightarrow> byte list \<Rightarrow> nat list" where
  "dec_words n b = map (\<lambda>i. of_le32 (get_bytes (4 * i) 4 b)) [0..<n]"

definition enc_din :: "sfs_disk_inode \<Rightarrow> byte list" where
  "enc_din d = le32 (din_size d) @ le16 (din_type d) @ le16 (din_nlinks d) @ le32 (din_blocks d) @
     enc_words (din_direct d) @ le32 (din_indirect d)"

definition dec_din :: "byte list \<Rightarrow> sfs_disk_inode" where
  "dec_din b = \<lparr>din_size = of_le32 (get_bytes 0 4 b), din_type = of_le16 (get_bytes 4 2 b),
     din_nlinks = of_le16 (get_bytes 6 2 b), din_blocks = of_le32 (get_bytes 8 4 b),
     din_direct = dec_words SFS_NDIRECT (get_bytes 12 48 b), din_indirect = of_le32 (get_bytes 60 4 b)\<rparr>"

definition enc_entry :: "sfs_disk_entry \<Rightarrow> byte list" where
  "enc_entry e = le32 (ent_ino e) @ ent_name e"

definition dec_entry :: "byte list \<Rightarrow> sfs_disk_entry" where
  "dec_entry b = \<lparr>ent_ino = of_le32 (get_bytes 0 4 b), ent_name = get_bytes 4 256 b\<rparr>"

subsection \<open>The file system in memory\<close>

record sfs_fs =
  super :: sfs_super
  dev :: disk
  freemap :: bitmap
  super_dirty :: bool
  sfs_buffer :: "byte list"
  fs_sem :: nat
  io_sem :: nat
  mutex_sem :: nat

definition lock_sfs_fs :: "'a sfs_fs_scheme \<Rightarrow> 'a sfs_fs_scheme option" where
  "lock_sfs_fs fs = (if fs_sem fs > 0 then Some (fs\<lparr>fs_sem := fs_sem fs - 1\<rparr>) else None)"

definition lock_sfs_io :: "'a sfs_fs_scheme \<Rightarrow> 'a sfs_fs_scheme option" where
  "lock_sfs_io fs = (if io_sem fs > 0 then Some (fs\<lparr>io_sem := io_sem fs - 1\<rparr>) else None)"

definition unlock_sfs_fs :: "'a sfs_fs_scheme \<Rightarrow> 'a sfs_fs_scheme" where
  "unlock_sfs_fs fs = fs\<lparr>fs_sem := fs_sem fs + 1\<rparr>"

definition unlock_sfs_io :: "'a sfs_fs_scheme \<Rightarrow> 'a sfs_fs_scheme" where
  "unlock_sfs_io fs = fs\<lparr>io_sem := io_sem fs + 1\<rparr>"

subsection \<open>Block I/O\<close>

definition sfs_rwblock_nolock ::
  "byte list \<Rightarrow> nat \<Rightarrow> nat \<Rightarrow> bool \<Rightarrow> bool \<Rightarrow> 'a sfs_fs_scheme \<Rightarrow> (int \<times> byte list \<times> 'a sfs_fs_scheme) option" where
  "sfs_rwblock_nolock mem base blkno wr chk fs =
     do { kassert ((blkno \<noteq> 0 \<or> \<not> chk) \<and> blkno < blocks (super fs));
          (ret, iob, d) \<leftarrow> disk0_io (iobuf_init mem base SFS_BLKSIZE (int (u32 (blkno * SFS_BLKSIZE)))) wr (dev fs);
          Some (ret, io_mem iob, fs\<lparr>dev := d\<rparr>) }"

fun sfs_rwblock_loop ::
  "nat \<Rightarrow> byte list \<Rightarrow> nat \<Rightarrow> nat \<Rightarrow> bool \<Rightarrow> 'a sfs_fs_scheme \<Rightarrow> (int \<times> byte list \<times> 'a sfs_fs_scheme) option" where
  "sfs_rwblock_loop 0 mem base blkno wr fs = Some (0, mem, fs)"
| "sfs_rwblock_loop (Suc nblks) mem base blkno wr fs =
     do { (ret, mem', fs') \<leftarrow> sfs_rwblock_nolock mem base blkno wr True fs;
          if ret \<noteq> 0 then Some (ret, mem', fs')
          else sfs_rwblock_loop nblks mem' (base + SFS_BLKSIZE) (u32 (blkno + 1)) wr fs' }"

definition sfs_rwblock ::
  "byte list \<Rightarrow> nat \<Rightarrow> nat \<Rightarrow> nat \<Rightarrow> bool \<Rightarrow> 'a sfs_fs_scheme \<Rightarrow> (int \<times> byte list \<times> 'a sfs_fs_scheme) option" where
  "sfs_rwblock mem base blkno nblks wr fs =
     do { fs1 \<leftarrow> lock_sfs_io fs;
          (ret, mem', fs2) \<leftarrow> sfs_rwblock_loop nblks mem base blkno wr fs1;
          Some (ret, mem', unlock_sfs_io fs2) }"

definition sfs_rblock where "sfs_rblock mem base blkno nblks fs = sfs_rwblock mem base blkno nblks False fs"
definition sfs_wblock where "sfs_wblock mem base blkno nblks fs = sfs_rwblock mem base blkno nblks True fs"

definition sfs_rbuf ::
  "byte list \<Rightarrow> nat \<Rightarrow> nat \<Rightarrow> nat \<Rightarrow> int \<Rightarrow> 'a sfs_fs_scheme \<Rightarrow> (int \<times> byte list \<times> 'a sfs_fs_scheme) option" where
  "sfs_rbuf mem base len blkno offset fs =
     do { kassert (offset \<ge> 0 \<and> offset < int SFS_BLKSIZE \<and> nat offset + len \<le> SFS_BLKSIZE);
          fs1 \<leftarrow> lock_sfs_io fs;
          (ret, buf, fs2) \<leftarrow> sfs_rwblock_nolock (sfs_buffer fs1) 0 blkno False True fs1;
          let fs3 = fs2\<lparr>sfs_buffer := buf\<rparr>;
          let mem' = (if ret = 0 then put_bytes base (get_bytes (nat offset) len buf) mem else mem);
          Some (ret, mem', unlock_sfs_io fs3) }"

definition sfs_wbuf ::
  "byte list \<Rightarrow> nat \<Rightarrow> nat \<Rightarrow> nat \<Rightarrow> int \<Rightarrow> 'a sfs_fs_scheme \<Rightarrow> (int \<times> byte list \<times> 'a sfs_fs_scheme) option" where
  "sfs_wbuf mem base len blkno offset fs =
     do { kassert (offset \<ge> 0 \<and> offset < int SFS_BLKSIZE \<and> nat offset + len \<le> SFS_BLKSIZE);
          fs1 \<leftarrow> lock_sfs_io fs;
          (ret, buf, fs2) \<leftarrow> sfs_rwblock_nolock (sfs_buffer fs1) 0 blkno False True fs1;
          let fs3 = fs2\<lparr>sfs_buffer := buf\<rparr>;
          (ret', fs4) \<leftarrow>
            (if ret = 0 then
               let buf' = put_bytes (nat offset) (get_bytes base len mem) (sfs_buffer fs3) in
               do { (r, b, f) \<leftarrow> sfs_rwblock_nolock buf' 0 blkno True True (fs3\<lparr>sfs_buffer := buf'\<rparr>);
                    Some (r, f\<lparr>sfs_buffer := b\<rparr>) }
             else Some (ret, fs3));
          Some (ret', mem, unlock_sfs_io fs4) }"

definition sfs_sync_super :: "'a sfs_fs_scheme \<Rightarrow> (int \<times> 'a sfs_fs_scheme) option" where
  "sfs_sync_super fs =
     do { fs1 \<leftarrow> lock_sfs_io fs;
          let buf = put_bytes 0 (enc_super (super fs1)) (replicate SFS_BLKSIZE 0);
          (ret, b, fs2) \<leftarrow> sfs_rwblock_nolock buf 0 SFS_BLKN_SUPER True False (fs1\<lparr>sfs_buffer := buf\<rparr>);
          Some (ret, unlock_sfs_io (fs2\<lparr>sfs_buffer := b\<rparr>)) }"

definition sfs_freemap_blocks :: "sfs_super \<Rightarrow> nat" where
  "sfs_freemap_blocks s = (blocks s + SFS_BLKBITS - 1) div SFS_BLKBITS"

definition sfs_freemap_bits :: "sfs_super \<Rightarrow> nat" where
  "sfs_freemap_bits s = (let a = blocks s + SFS_BLKBITS - 1 in a - a mod SFS_BLKBITS)"

definition freemap_bytes :: "bitmap \<Rightarrow> byte list" where
  "freemap_bytes b = enc_words (map unat (fst (bitmap_getdata b)))"

definition sfs_sync_freemap :: "'a sfs_fs_scheme \<Rightarrow> (int \<times> 'a sfs_fs_scheme) option" where
  "sfs_sync_freemap fs =
     do { (ret, _, fs') \<leftarrow> sfs_wblock (freemap_bytes (freemap fs)) 0 SFS_BLKN_FREEMAP (sfs_freemap_blocks (super fs)) fs;
          Some (ret, fs') }"

text \<open>With no block to clear \<^verbatim>\<open>ret\<close> is never set; the value is \<open>None\<close> then.\<close>

fun sfs_clear_loop :: "nat \<Rightarrow> nat \<Rightarrow> 'a sfs_fs_scheme \<Rightarrow> (int \<times> 'a sfs_fs_scheme) option" where
  "sfs_clear_loop 0 blkno fs = None"
| "sfs_clear_loop (Suc nblks) blkno fs =
     do { (ret, b, fs') \<leftarrow> sfs_rwblock_nolock (sfs_buffer fs) 0 blkno True True fs;
          let fs'' = fs'\<lparr>sfs_buffer := b\<rparr>;
          if ret \<noteq> 0 \<or> nblks = 0 then Some (ret, fs'')
          else sfs_clear_loop nblks (u32 (blkno + 1)) fs'' }"

definition sfs_clear_block :: "nat \<Rightarrow> nat \<Rightarrow> 'a sfs_fs_scheme \<Rightarrow> (int \<times> 'a sfs_fs_scheme) option" where
  "sfs_clear_block blkno nblks fs =
     do { fs1 \<leftarrow> lock_sfs_io fs;
          (ret, fs2) \<leftarrow> sfs_clear_loop nblks blkno (fs1\<lparr>sfs_buffer := replicate SFS_BLKSIZE 0\<rparr>);
          Some (ret, unlock_sfs_io fs2) }"

subsection \<open>Layout round trips\<close>

lemma length_enc_words [simp]: "length (enc_words ws) = 4 * length ws"
  by (induction ws) (simp_all add: enc_words_def)

lemma get_app_left: "off + n \<le> length xs \<Longrightarrow> get_bytes off n (xs @ ys) = get_bytes off n xs"
  by (simp add: get_bytes_def)

lemma get_app_right: "length xs \<le> off \<Longrightarrow> get_bytes off n (xs @ ys) = get_bytes (off - length xs) n ys"
  by (simp add: get_bytes_def)

lemma get_all [simp]: "n = length xs \<Longrightarrow> get_bytes 0 n xs = xs"
  by (simp add: get_bytes_def)

lemma get_word: "i < length ws \<Longrightarrow> get_bytes (4 * i) 4 (enc_words ws) = le32 (ws ! i)"
proof (induction ws arbitrary: i)
  case (Cons w ws)
  show ?case
  proof (cases i)
    case 0
    then show ?thesis by (simp add: enc_words_def get_app_left)
  next
    case (Suc j)
    have "get_bytes (4 * i) 4 (enc_words (w # ws)) = get_bytes (4 * j) 4 (enc_words ws)"
      using Suc by (simp add: enc_words_def get_app_right)
    then show ?thesis using Cons Suc by simp
  qed
qed simp

lemma dec_enc_words: "(\<forall>w\<in>set ws. w < 2 ^ 32) \<Longrightarrow> dec_words (length ws) (enc_words ws) = ws"
  by (intro nth_equalityI) (auto simp: dec_words_def get_word)

definition din_ok :: "sfs_disk_inode \<Rightarrow> bool" where
  "din_ok d \<longleftrightarrow> din_size d < 2 ^ 32 \<and> din_type d < 2 ^ 16 \<and> din_nlinks d < 2 ^ 16 \<and> din_blocks d < 2 ^ 32 \<and>
     length (din_direct d) = SFS_NDIRECT \<and> (\<forall>b\<in>set (din_direct d). b < 2 ^ 32) \<and> din_indirect d < 2 ^ 32"

lemma length_enc_din: "din_ok d \<Longrightarrow> length (enc_din d) = 64"
  by (simp add: din_ok_def enc_din_def sfs_consts)

lemma dec_enc_din: "din_ok d \<Longrightarrow> dec_din (enc_din d @ rest) = d"
  using dec_enc_words[of "din_direct d"]
  by (simp add: din_ok_def dec_din_def enc_din_def sfs_consts get_app_left get_app_right)

lemma dec_enc_super:
  "magic s < 2 ^ 32 \<Longrightarrow> blocks s < 2 ^ 32 \<Longrightarrow> unused_blocks s < 2 ^ 32 \<Longrightarrow> length (info s) = 32 \<Longrightarrow>
   dec_super (enc_super s @ rest) = s"
  by (simp add: dec_super_def enc_super_def get_app_left get_app_right)

lemma dec_enc_entry:
  "ent_ino e < 2 ^ 32 \<Longrightarrow> length (ent_name e) = 256 \<Longrightarrow> dec_entry (enc_entry e @ rest) = e"
  by (simp add: dec_entry_def enc_entry_def get_app_left get_app_right)

subsection \<open>Blocks as contents\<close>

definition io_ok :: "'a sfs_fs_scheme \<Rightarrow> bool" where
  "io_ok fs \<longleftrightarrow> disk_ok (dev fs) \<and> blocks (super fs) \<le> d_blocks (dev fs) \<and> blocks (super fs) \<le> 2 ^ 20 \<and>
     length (sfs_buffer fs) = SFS_BLKSIZE"

abbreviation content :: "'a sfs_fs_scheme \<Rightarrow> nat \<Rightarrow> byte list" where
  "content fs b \<equiv> block (dev fs) b"

text \<open>What block I/O leaves alone.\<close>

definition io_frame :: "'a sfs_fs_scheme \<Rightarrow> 'a sfs_fs_scheme \<Rightarrow> bool" where
  "io_frame fs fs' \<longleftrightarrow> io_ok fs' \<and> super fs' = super fs \<and> freemap fs' = freemap fs \<and>
     super_dirty fs' = super_dirty fs \<and> fs_sem fs' = fs_sem fs \<and> io_sem fs' = io_sem fs \<and>
     mutex_sem fs' = mutex_sem fs \<and> sfs_fs.more fs' = sfs_fs.more fs"

text \<open>The blocks of \<open>fs'\<close> are those of \<open>fs\<close> with the block \<open>b\<close> replaced.\<close>

definition upd_block :: "nat \<Rightarrow> byte list \<Rightarrow> 'a sfs_fs_scheme \<Rightarrow> 'a sfs_fs_scheme \<Rightarrow> bool" where
  "upd_block b data fs fs' \<longleftrightarrow>
     (\<forall>c<blocks (super fs). content fs' c = (if c = b then data else content fs c))"

definition same_blocks :: "'a sfs_fs_scheme \<Rightarrow> 'a sfs_fs_scheme \<Rightarrow> bool" where
  "same_blocks fs fs' \<longleftrightarrow> (\<forall>c<blocks (super fs). content fs' c = content fs c)"

lemma length_content [simp]: "io_ok fs \<Longrightarrow> b < blocks (super fs) \<Longrightarrow> length (content fs b) = 4096"
  by (auto simp: io_ok_def)

lemma blk_offset: "io_ok fs \<Longrightarrow> b < blocks (super fs) \<Longrightarrow> u32 (b * SFS_BLKSIZE) = b * SFS_BLKSIZE"
  by (rule u32_id) (auto simp: io_ok_def sfs_consts)

lemma rwblock_read:
  assumes ok: "io_ok fs" and b: "b < blocks (super fs)" "b \<noteq> 0 \<or> \<not> chk" and mem: "base + SFS_BLKSIZE \<le> length mem"
  shows "\<exists>fs'. sfs_rwblock_nolock mem base b False chk fs = Some (0, put_bytes base (content fs b) mem, fs') \<and>
    io_frame fs fs' \<and> same_blocks fs fs' \<and> sfs_buffer fs' = sfs_buffer fs"
proof -
  have "b < d_blocks (dev fs)" "disk_ok (dev fs)" using ok b by (auto simp: io_ok_def)
  then obtain iob d where d: "disk0_io (iobuf_init mem base SFS_BLKSIZE (int (b * SFS_BLKSIZE))) False (dev fs) = Some (0, iob, d)"
    "io_mem iob = put_bytes base (content fs b) mem" "disk_ok d" "disk_img d = disk_img (dev fs)" "d_blocks d = d_blocks (dev fs)"
    using disk0_read_block[of "dev fs" b base mem] mem by (auto simp: sfs_consts disk_consts)
  have "sfs_rwblock_nolock mem base b False chk fs = Some (0, put_bytes base (content fs b) mem, fs\<lparr>dev := d\<rparr>)"
    using b d(1,2) blk_offset[OF ok b(1)] by (simp add: sfs_rwblock_nolock_def kassert_def)
  moreover have "io_frame fs (fs\<lparr>dev := d\<rparr>)" "same_blocks fs (fs\<lparr>dev := d\<rparr>)"
    using ok d by (auto simp: io_frame_def io_ok_def same_blocks_def block_def)
  ultimately show ?thesis by auto
qed

lemma rwblock_write:
  assumes ok: "io_ok fs" and b: "b < blocks (super fs)" "b \<noteq> 0 \<or> \<not> chk" and mem: "base + SFS_BLKSIZE \<le> length mem"
  shows "\<exists>fs'. sfs_rwblock_nolock mem base b True chk fs = Some (0, mem, fs') \<and>
    io_frame fs fs' \<and> upd_block b (get_bytes base SFS_BLKSIZE mem) fs fs' \<and> sfs_buffer fs' = sfs_buffer fs"
proof -
  have bd: "b < d_blocks (dev fs)" "disk_ok (dev fs)" using ok b by (auto simp: io_ok_def)
  then obtain iob d where d: "disk0_io (iobuf_init mem base SFS_BLKSIZE (int (b * SFS_BLKSIZE))) True (dev fs) = Some (0, iob, d)"
    "io_mem iob = mem" "disk_ok d"
    "disk_img d = put_bytes (b * DISK0_BLKSIZE) (get_bytes base DISK0_BLKSIZE mem) (disk_img (dev fs))" "d_blocks d = d_blocks (dev fs)"
    using disk0_write_block[of "dev fs" b base mem] mem by (auto simp: sfs_consts disk_consts)
  have "sfs_rwblock_nolock mem base b True chk fs = Some (0, mem, fs\<lparr>dev := d\<rparr>)"
    using b d(1,2) blk_offset[OF ok b(1)] by (simp add: sfs_rwblock_nolock_def kassert_def)
  moreover have len: "length (get_bytes base DISK0_BLKSIZE mem) = DISK0_BLKSIZE"
    using mem by (simp add: sfs_consts disk_consts)
  have "upd_block b (get_bytes base SFS_BLKSIZE mem) fs (fs\<lparr>dev := d\<rparr>)"
    unfolding upd_block_def
  proof (intro allI impI)
    fix c assume "c < blocks (super fs)"
    then have "c < d_blocks (dev fs)" using ok by (auto simp: io_ok_def)
    then show "content (fs\<lparr>dev := d\<rparr>) c = (if c = b then get_bytes base SFS_BLKSIZE mem else content fs c)"
      using block_write_same[OF bd(2,1) len d(4)] block_write_other[OF bd(2,1) _ _ len d(4), of c]
      by (simp add: sfs_consts disk_consts)
  qed
  moreover have "io_frame fs (fs\<lparr>dev := d\<rparr>)" using ok d by (auto simp: io_frame_def io_ok_def)
  ultimately show ?thesis by auto
qed

lemma io_frame_simps:
  assumes "io_frame fs fs'"
  shows "io_ok fs'" "super fs' = super fs" "freemap fs' = freemap fs" "super_dirty fs' = super_dirty fs"
    "fs_sem fs' = fs_sem fs" "io_sem fs' = io_sem fs" "sfs_fs.more fs' = sfs_fs.more fs"
  using assms by (auto simp: io_frame_def)

lemma io_frame_trans: "io_frame a b \<Longrightarrow> io_frame b c \<Longrightarrow> io_frame a c"
  by (simp add: io_frame_def)

lemma sfs_rbuf_ok:
  assumes ok: "io_ok fs" "io_sem fs = 1" and b: "0 < b" "b < blocks (super fs)" and off: "off < 4096" "off + len \<le> 4096"
  shows "\<exists>fs'. sfs_rbuf mem base len b (int off) fs = Some (0, put_bytes base (get_bytes off len (content fs b)) mem, fs') \<and>
    io_frame fs fs' \<and> same_blocks fs fs'"
proof -
  let ?fs1 = "fs\<lparr>io_sem := 0\<rparr>"
  have "io_ok ?fs1" "0 + SFS_BLKSIZE \<le> length (sfs_buffer ?fs1)" using ok by (auto simp: io_ok_def sfs_consts)
  then obtain fs2 where fs2: "sfs_rwblock_nolock (sfs_buffer ?fs1) 0 b False True ?fs1 =
      Some (0, put_bytes 0 (content ?fs1 b) (sfs_buffer ?fs1), fs2)" "io_frame ?fs1 fs2" "same_blocks ?fs1 fs2"
    using rwblock_read[of ?fs1 b True 0 "sfs_buffer ?fs1"] b by auto
  have buf: "put_bytes 0 (content fs b) (sfs_buffer fs) = content fs b"
    using ok b by (simp add: put_bytes_def io_ok_def sfs_consts)
  have "sfs_rbuf mem base len b (int off) fs = Some (0, put_bytes base (get_bytes off len (content fs b)) mem,
      unlock_sfs_io (fs2\<lparr>sfs_buffer := content fs b\<rparr>))"
    using fs2(1) off ok(2) by (simp add: sfs_rbuf_def kassert_def lock_sfs_io_def buf sfs_consts)
  moreover have "io_frame fs (unlock_sfs_io (fs2\<lparr>sfs_buffer := content fs b\<rparr>))"
    using fs2(2) ok b by (auto simp: io_frame_def unlock_sfs_io_def io_ok_def sfs_consts)
  moreover have "same_blocks fs (unlock_sfs_io (fs2\<lparr>sfs_buffer := content fs b\<rparr>))"
    using fs2(3) by (auto simp: same_blocks_def unlock_sfs_io_def)
  ultimately show ?thesis by auto
qed

lemma sfs_wbuf_ok:
  assumes ok: "io_ok fs" "io_sem fs = 1" and b: "0 < b" "b < blocks (super fs)" and off: "off < 4096" "off + len \<le> 4096"
    and mem: "base + len \<le> length mem"
  shows "\<exists>fs'. sfs_wbuf mem base len b (int off) fs = Some (0, mem, fs') \<and>
    io_frame fs fs' \<and> upd_block b (put_bytes off (get_bytes base len mem) (content fs b)) fs fs'"
proof -
  let ?fs1 = "fs\<lparr>io_sem := 0\<rparr>"
  have ok1: "io_ok ?fs1" "0 + SFS_BLKSIZE \<le> length (sfs_buffer ?fs1)" using ok by (auto simp: io_ok_def sfs_consts)
  then obtain fs2 where fs2: "sfs_rwblock_nolock (sfs_buffer ?fs1) 0 b False True ?fs1 =
      Some (0, put_bytes 0 (content ?fs1 b) (sfs_buffer ?fs1), fs2)" "io_frame ?fs1 fs2" "same_blocks ?fs1 fs2"
    using rwblock_read[of ?fs1 b True 0 "sfs_buffer ?fs1"] b by auto
  have buf: "put_bytes 0 (content fs b) (sfs_buffer fs) = content fs b"
    using ok b by (simp add: put_bytes_def io_ok_def sfs_consts)
  let ?buf = "put_bytes off (get_bytes base len mem) (content fs b)"
  have lb: "length ?buf = 4096" using ok(1) b off mem by simp
  let ?fs3 = "fs2\<lparr>sfs_buffer := ?buf\<rparr>"
  have "io_ok ?fs3" "super ?fs3 = super fs" using fs2(2) lb by (auto simp: io_frame_def io_ok_def sfs_consts)
  then obtain fs4 where fs4: "sfs_rwblock_nolock ?buf 0 b True True ?fs3 = Some (0, ?buf, fs4)" "io_frame ?fs3 fs4"
    "upd_block b (get_bytes 0 SFS_BLKSIZE ?buf) ?fs3 fs4"
    using rwblock_write[of ?fs3 b True 0 ?buf] b lb by (auto simp: sfs_consts)
  let ?fs5 = "unlock_sfs_io (fs4\<lparr>sfs_buffer := ?buf\<rparr>)"
  have "sfs_wbuf mem base len b (int off) fs = Some (0, mem, ?fs5)"
    using fs2(1) fs4(1) off ok(2) by (simp add: sfs_wbuf_def kassert_def lock_sfs_io_def buf sfs_consts Let_def)
  moreover have "io_frame fs ?fs5"
    using fs2(2) fs4(2) ok b lb by (auto simp: io_frame_def unlock_sfs_io_def io_ok_def sfs_consts)
  moreover have "upd_block b ?buf fs ?fs5"
    using fs2(2,3) fs4(3) lb by (auto simp: upd_block_def same_blocks_def unlock_sfs_io_def io_frame_def sfs_consts)
  ultimately show ?thesis by auto
qed

lemma sfs_clear_block_ok:
  assumes ok: "io_ok fs" "io_sem fs = 1" and b: "0 < b" "b < blocks (super fs)"
  shows "\<exists>fs'. sfs_clear_block b 1 fs = Some (0, fs') \<and> io_frame fs fs' \<and> upd_block b (replicate 4096 0) fs fs'"
proof -
  let ?z = "replicate SFS_BLKSIZE (0 :: byte)"
  let ?fs1 = "fs\<lparr>io_sem := 0, sfs_buffer := ?z\<rparr>"
  have "io_ok ?fs1" using ok by (auto simp: io_ok_def)
  then obtain fs2 where fs2: "sfs_rwblock_nolock ?z 0 b True True ?fs1 = Some (0, ?z, fs2)" "io_frame ?fs1 fs2"
    "upd_block b (get_bytes 0 SFS_BLKSIZE ?z) ?fs1 fs2"
    using rwblock_write[of ?fs1 b True 0 ?z] b by auto
  let ?fs3 = "unlock_sfs_io (fs2\<lparr>sfs_buffer := ?z\<rparr>)"
  have "sfs_clear_block b 1 fs = Some (0, ?fs3)"
    using fs2(1) ok(2) by (simp add: sfs_clear_block_def lock_sfs_io_def)
  moreover have "io_frame fs ?fs3" using fs2(2) ok by (auto simp: io_frame_def unlock_sfs_io_def io_ok_def)
  moreover have "upd_block b (replicate 4096 0) fs ?fs3"
    using fs2(3) by (auto simp: upd_block_def unlock_sfs_io_def sfs_consts)
  ultimately show ?thesis by auto
qed

end
