(* ===== verification/SfsInode.thy ===== *)
theory SfsInode
  imports SfsIo
begin

text \<open>
  Inodes of the simple file system (\<^verbatim>\<open>kern/fs/sfs/sfs_inode.c\<close>): allocation of blocks, the
  block map with its direct and indirect blocks, directory entries, file I/O and truncation.
  These are the functions the code calls with the inode's lock held; each takes the file system
  and the inode and returns both. Out-parameters are results; file names are byte lists
  without the terminating zero. The result of \<^verbatim>\<open>kmalloc\<close> is an argument.
\<close>

record sfs_inode =
  din :: sfs_disk_inode
  sin_ino :: nat
  sin_dirty :: bool
  reclaim_count :: int
  sin_sem :: nat

definition lock_sin :: "sfs_inode \<Rightarrow> sfs_inode option" where
  "lock_sin sin = (if sin_sem sin > 0 then Some (sin\<lparr>sin_sem := sin_sem sin - 1\<rparr>) else None)"

definition unlock_sin :: "sfs_inode \<Rightarrow> sfs_inode" where
  "unlock_sin sin = sin\<lparr>sin_sem := sin_sem sin + 1\<rparr>"

definition upd_din :: "(sfs_disk_inode \<Rightarrow> sfs_disk_inode) \<Rightarrow> sfs_inode \<Rightarrow> sfs_inode" where
  "upd_din f sin = sin\<lparr>din := f (din sin)\<rparr>"

subsection \<open>Allocation of blocks\<close>

definition sfs_block_inuse :: "'a sfs_fs_scheme \<Rightarrow> nat \<Rightarrow> bool option" where
  "sfs_block_inuse fs ino =
     (if ino \<noteq> 0 \<and> ino < blocks (super fs)
      then do { t \<leftarrow> bitmap_test (freemap fs) ino; Some (\<not> t) }
      else kpanic)"

definition sfs_block_alloc :: "'a sfs_fs_scheme \<Rightarrow> (int \<times> nat option \<times> 'a sfs_fs_scheme) option" where
  "sfs_block_alloc fs =
     do { (ret, idx, bm) \<leftarrow> bitmap_alloc (freemap fs);
          let fs1 = fs\<lparr>freemap := bm\<rparr>;
          if ret \<noteq> 0 then Some (ret, idx, fs1)
          else do {
            kassert (unused_blocks (super fs1) > 0);
            let fs2 = fs1\<lparr>super := (super fs1)\<lparr>unused_blocks := unused_blocks (super fs1) - 1\<rparr>, super_dirty := True\<rparr>;
            i \<leftarrow> idx;
            used \<leftarrow> sfs_block_inuse fs2 i;
            kassert used;
            (ret', fs3) \<leftarrow> sfs_clear_block i 1 fs2;
            Some (ret', Some i, fs3) } }"

definition sfs_block_free :: "nat \<Rightarrow> 'a sfs_fs_scheme \<Rightarrow> 'a sfs_fs_scheme option" where
  "sfs_block_free ino fs =
     do { used \<leftarrow> sfs_block_inuse fs ino;
          kassert used;
          bm \<leftarrow> bitmap_free (freemap fs) ino;
          Some (fs\<lparr>freemap := bm, super := (super fs)\<lparr>unused_blocks := u32 (unused_blocks (super fs) + 1)\<rparr>,
                   super_dirty := True\<rparr>) }"

subsection \<open>The block map\<close>

definition load_u32 :: "nat \<Rightarrow> nat \<Rightarrow> 'a sfs_fs_scheme \<Rightarrow> (int \<times> nat \<times> 'a sfs_fs_scheme) option" where
  "load_u32 blkno offset fs =
     do { (ret, b, fs') \<leftarrow> sfs_rbuf [0, 0, 0, 0] 0 4 blkno (int offset) fs; Some (ret, of_le32 b, fs') }"

definition store_u32 :: "nat \<Rightarrow> nat \<Rightarrow> nat \<Rightarrow> 'a sfs_fs_scheme \<Rightarrow> (int \<times> 'a sfs_fs_scheme) option" where
  "store_u32 v blkno offset fs =
     do { (ret, _, fs') \<leftarrow> sfs_wbuf (le32 v) 0 4 blkno (int offset) fs; Some (ret, fs') }"

text \<open>Returns the code, the value of \<^verbatim>\<open>*entp\<close> afterwards and the block number.\<close>

definition sfs_bmap_get_sub_nolock ::
  "nat \<Rightarrow> nat \<Rightarrow> bool \<Rightarrow> 'a sfs_fs_scheme \<Rightarrow> (int \<times> nat \<times> nat \<times> 'a sfs_fs_scheme) option" where
  "sfs_bmap_get_sub_nolock ent0 index create fs =
     do { kassert (index < SFS_BLK_NENTRY);
          let offset = index * 4;
          let fill = (\<lambda>ent fs1.
            do { (ret, ino, fs2) \<leftarrow> sfs_block_alloc fs1;
                 if ret \<noteq> 0 then
                   do { fs3 \<leftarrow> (if ent \<noteq> ent0 then sfs_block_free ent fs2 else Some fs2);
                        Some (ret, ent0, 0, fs3) }
                 else do {
                   i \<leftarrow> ino;
                   (ret2, fs3) \<leftarrow> store_u32 i ent offset fs2;
                   if ret2 \<noteq> 0 then
                     do { fs4 \<leftarrow> sfs_block_free i fs3;
                          fs5 \<leftarrow> (if ent \<noteq> ent0 then sfs_block_free ent fs4 else Some fs4);
                          Some (ret2, ent0, 0, fs5) }
                   else Some (0, ent, i, fs3) } });
          if ent0 \<noteq> 0 then
            do { (ret, ino, fs1) \<leftarrow> load_u32 ent0 offset fs;
                 if ret \<noteq> 0 then Some (ret, ent0, 0, fs1)
                 else if ino \<noteq> 0 \<or> \<not> create then Some (0, ent0, ino, fs1)
                 else fill ent0 fs1 }
          else if \<not> create then Some (0, ent0, 0, fs)
          else do { (ret, ent, fs1) \<leftarrow> sfs_block_alloc fs;
                    if ret \<noteq> 0 then Some (ret, ent0, 0, fs1)
                    else do { e \<leftarrow> ent; fill e fs1 } } }"

definition check_ino :: "nat \<Rightarrow> 'a sfs_fs_scheme \<Rightarrow> unit option" where
  "check_ino ino fs = (if ino = 0 then Some () else do { u \<leftarrow> sfs_block_inuse fs ino; kassert u })"

definition sfs_bmap_get_nolock ::
  "sfs_inode \<Rightarrow> nat \<Rightarrow> bool \<Rightarrow> 'a sfs_fs_scheme \<Rightarrow> (int \<times> nat \<times> sfs_inode \<times> 'a sfs_fs_scheme) option" where
  "sfs_bmap_get_nolock sin index create fs =
     (if index < SFS_NDIRECT then
        let ino = din_direct (din sin) ! index in
        if ino = 0 \<and> create then
          do { (ret, i, fs1) \<leftarrow> sfs_block_alloc fs;
               if ret \<noteq> 0 then Some (ret, 0, sin, fs1)
               else do { b \<leftarrow> i;
                         check_ino b fs1;
                         Some (0, b, (upd_din (\<lambda>d. d\<lparr>din_direct := (din_direct d)[index := b]\<rparr>) sin)\<lparr>sin_dirty := True\<rparr>, fs1) } }
        else do { check_ino ino fs; Some (0, ino, sin, fs) }
      else
        let index' = index - SFS_NDIRECT in
        if index' < SFS_BLK_NENTRY then
          do { (ret, ent, ino, fs1) \<leftarrow> sfs_bmap_get_sub_nolock (din_indirect (din sin)) index' create fs;
               if ret \<noteq> 0 then Some (ret, 0, sin, fs1)
               else do {
                 sin1 \<leftarrow> (if ent \<noteq> din_indirect (din sin) then
                            do { kassert (din_indirect (din sin) = 0);
                                 Some ((upd_din (\<lambda>d. d\<lparr>din_indirect := ent\<rparr>) sin)\<lparr>sin_dirty := True\<rparr>) }
                          else Some sin);
                 check_ino ino fs1;
                 Some (0, ino, sin1, fs1) } }
        else kpanic)"

definition sfs_bmap_free_sub_nolock :: "nat \<Rightarrow> nat \<Rightarrow> 'a sfs_fs_scheme \<Rightarrow> (int \<times> 'a sfs_fs_scheme) option" where
  "sfs_bmap_free_sub_nolock ent index fs =
     do { u \<leftarrow> sfs_block_inuse fs ent;
          kassert (u \<and> index < SFS_BLK_NENTRY);
          (ret, ino, fs1) \<leftarrow> load_u32 ent (index * 4) fs;
          if ret \<noteq> 0 then Some (ret, fs1)
          else if ino \<noteq> 0 then
            do { (ret2, fs2) \<leftarrow> store_u32 0 ent (index * 4) fs1;
                 if ret2 \<noteq> 0 then Some (ret2, fs2)
                 else do { fs3 \<leftarrow> sfs_block_free ino fs2; Some (0, fs3) } }
          else Some (0, fs1) }"

definition sfs_bmap_free_nolock ::
  "sfs_inode \<Rightarrow> nat \<Rightarrow> 'a sfs_fs_scheme \<Rightarrow> (int \<times> sfs_inode \<times> 'a sfs_fs_scheme) option" where
  "sfs_bmap_free_nolock sin index fs =
     (if index < SFS_NDIRECT then
        let ino = din_direct (din sin) ! index in
        if ino \<noteq> 0 then
          do { fs1 \<leftarrow> sfs_block_free ino fs;
               Some (0, (upd_din (\<lambda>d. d\<lparr>din_direct := (din_direct d)[index := 0]\<rparr>) sin)\<lparr>sin_dirty := True\<rparr>, fs1) }
        else Some (0, sin, fs)
      else
        let index' = index - SFS_NDIRECT in
        if index' < SFS_BLK_NENTRY then
          if din_indirect (din sin) \<noteq> 0 then
            do { (ret, fs1) \<leftarrow> sfs_bmap_free_sub_nolock (din_indirect (din sin)) index' fs; Some (ret, sin, fs1) }
          else Some (0, sin, fs)
        else Some (0, sin, fs))"

definition sfs_bmap_load_nolock ::
  "sfs_inode \<Rightarrow> nat \<Rightarrow> 'a sfs_fs_scheme \<Rightarrow> (int \<times> nat \<times> sfs_inode \<times> 'a sfs_fs_scheme) option" where
  "sfs_bmap_load_nolock sin index fs =
     do { kassert (index \<le> din_blocks (din sin));
          let create = (index = din_blocks (din sin));
          (ret, ino, sin1, fs1) \<leftarrow> sfs_bmap_get_nolock sin index create fs;
          if ret \<noteq> 0 then Some (ret, 0, sin1, fs1)
          else do { u \<leftarrow> sfs_block_inuse fs1 ino;
                    kassert u;
                    Some (0, ino, if create then upd_din (\<lambda>d. d\<lparr>din_blocks := u32 (din_blocks d + 1)\<rparr>) sin1 else sin1, fs1) } }"

definition sfs_bmap_truncate_nolock ::
  "sfs_inode \<Rightarrow> 'a sfs_fs_scheme \<Rightarrow> (int \<times> sfs_inode \<times> 'a sfs_fs_scheme) option" where
  "sfs_bmap_truncate_nolock sin fs =
     do { kassert (din_blocks (din sin) \<noteq> 0);
          (ret, sin1, fs1) \<leftarrow> sfs_bmap_free_nolock sin (din_blocks (din sin) - 1) fs;
          if ret \<noteq> 0 then Some (ret, sin1, fs1)
          else Some (0, (upd_din (\<lambda>d. d\<lparr>din_blocks := din_blocks d - 1\<rparr>) sin1)\<lparr>sin_dirty := True\<rparr>, fs1) }"

subsection \<open>Directory entries\<close>

definition sfs_dirent_read_nolock ::
  "sfs_inode \<Rightarrow> nat \<Rightarrow> 'a sfs_fs_scheme \<Rightarrow> (int \<times> sfs_disk_entry option \<times> sfs_inode \<times> 'a sfs_fs_scheme) option" where
  "sfs_dirent_read_nolock sin slot fs =
     do { kassert (din_type (din sin) = SFS_TYPE_DIR \<and> slot < din_blocks (din sin));
          (ret, ino, sin1, fs1) \<leftarrow> sfs_bmap_load_nolock sin slot fs;
          if ret \<noteq> 0 then Some (ret, None, sin1, fs1)
          else do {
            u \<leftarrow> sfs_block_inuse fs1 ino;
            kassert u;
            (ret2, b, fs2) \<leftarrow> sfs_rbuf (replicate 260 0) 0 260 ino 0 fs1;
            if ret2 \<noteq> 0 then Some (ret2, None, sin1, fs2)
            else let e = dec_entry b in
                 Some (0, Some (e\<lparr>ent_name := (ent_name e)[SFS_MAX_FNAME_LEN := 0]\<rparr>), sin1, fs2) } }"

definition cname :: "byte list \<Rightarrow> byte list" where
  "cname b = takeWhile (\<lambda>c. c \<noteq> 0) b"

text \<open>
  The search loop: code, slot and inode number found, and the last empty slot seen.
\<close>

function dirent_search_loop ::
  "byte list \<Rightarrow> nat \<Rightarrow> nat \<Rightarrow> nat \<Rightarrow> sfs_inode \<Rightarrow> 'a sfs_fs_scheme \<Rightarrow>
   (int \<times> (nat \<times> nat) option \<times> nat \<times> sfs_inode \<times> 'a sfs_fs_scheme) option" where
  "dirent_search_loop name i nslots empty_slot sin fs =
     (if i < nslots then
        do { (ret, e, sin1, fs1) \<leftarrow> sfs_dirent_read_nolock sin i fs;
             if ret \<noteq> 0 then Some (ret, None, empty_slot, sin1, fs1)
             else do { entry \<leftarrow> e;
                       if ent_ino entry = 0 then dirent_search_loop name (i + 1) nslots i sin1 fs1
                       else if name = cname (ent_name entry) then Some (0, Some (i, ent_ino entry), empty_slot, sin1, fs1)
                       else dirent_search_loop name (i + 1) nslots empty_slot sin1 fs1 } }
      else Some (- E_NOENT, None, empty_slot, sin, fs))"
  by auto
termination by (relation "measure (\<lambda>(_, i, n, _). n - i)") auto

declare dirent_search_loop.simps [simp del]

definition sfs_dirent_search_nolock ::
  "bool \<Rightarrow> sfs_inode \<Rightarrow> byte list \<Rightarrow> 'a sfs_fs_scheme \<Rightarrow>
   (int \<times> (nat \<times> nat) option \<times> nat \<times> sfs_inode \<times> 'a sfs_fs_scheme) option" where
  "sfs_dirent_search_nolock kmalloc sin name fs =
     do { kassert (length name \<le> SFS_MAX_FNAME_LEN);
          if \<not> kmalloc then Some (- E_NO_MEM, None, 0, sin, fs)
          else dirent_search_loop name 0 (din_blocks (din sin)) (din_blocks (din sin)) sin fs }"

function dirent_findino_loop ::
  "nat \<Rightarrow> nat \<Rightarrow> nat \<Rightarrow> sfs_inode \<Rightarrow> 'a sfs_fs_scheme \<Rightarrow>
   (int \<times> sfs_disk_entry option \<times> sfs_inode \<times> 'a sfs_fs_scheme) option" where
  "dirent_findino_loop ino i nslots sin fs =
     (if i < nslots then
        do { (ret, e, sin1, fs1) \<leftarrow> sfs_dirent_read_nolock sin i fs;
             if ret \<noteq> 0 then Some (ret, None, sin1, fs1)
             else do { entry \<leftarrow> e;
                       if ent_ino entry = ino then Some (0, Some entry, sin1, fs1)
                       else dirent_findino_loop ino (i + 1) nslots sin1 fs1 } }
      else Some (- E_NOENT, None, sin, fs))"
  by auto
termination by (relation "measure (\<lambda>(_, i, n, _). n - i)") auto

declare dirent_findino_loop.simps [simp del]

definition sfs_dirent_findino_nolock ::
  "sfs_inode \<Rightarrow> nat \<Rightarrow> 'a sfs_fs_scheme \<Rightarrow> (int \<times> sfs_disk_entry option \<times> sfs_inode \<times> 'a sfs_fs_scheme) option" where
  "sfs_dirent_findino_nolock sin ino fs = dirent_findino_loop ino 0 (din_blocks (din sin)) sin fs"

function getdirentry_loop ::
  "nat \<Rightarrow> nat \<Rightarrow> nat \<Rightarrow> sfs_inode \<Rightarrow> 'a sfs_fs_scheme \<Rightarrow>
   (int \<times> sfs_disk_entry option \<times> sfs_inode \<times> 'a sfs_fs_scheme) option" where
  "getdirentry_loop slot i nslots sin fs =
     (if i < nslots then
        do { (ret, e, sin1, fs1) \<leftarrow> sfs_dirent_read_nolock sin i fs;
             if ret \<noteq> 0 then Some (ret, None, sin1, fs1)
             else do { entry \<leftarrow> e;
                       if ent_ino entry \<noteq> 0 then
                         if slot = 0 then Some (0, Some entry, sin1, fs1)
                         else getdirentry_loop (slot - 1) (i + 1) nslots sin1 fs1
                       else getdirentry_loop slot (i + 1) nslots sin1 fs1 } }
      else Some (- E_NOENT, None, sin, fs))"
  by auto
termination by (relation "measure (\<lambda>(_, i, n, _). n - i)") auto

declare getdirentry_loop.simps [simp del]

definition sfs_getdirentry_sub_nolock ::
  "sfs_inode \<Rightarrow> nat \<Rightarrow> 'a sfs_fs_scheme \<Rightarrow> (int \<times> sfs_disk_entry option \<times> sfs_inode \<times> 'a sfs_fs_scheme) option" where
  "sfs_getdirentry_sub_nolock sin slot fs = getdirentry_loop slot 0 (din_blocks (din sin)) sin fs"

subsection \<open>File I/O\<close>

definition to_s64 :: "int \<Rightarrow> int" where
  "to_s64 x = (x + 2 ^ 63) mod 2 ^ 64 - 2 ^ 63"

text \<open>The variables of \<open>sfs_io_nolock\<close> that change: buffer and position, length done, block, offset.\<close>

record io_state =
  i_mem :: "byte list"
  i_base :: nat
  i_alen :: nat
  i_blkno :: nat
  i_off :: nat

definition sfs_buf_op where
  "sfs_buf_op wr mem base len blkno offset fs =
     (if wr then sfs_wbuf mem base len blkno offset fs else sfs_rbuf mem base len blkno offset fs)"

definition sfs_block_op where
  "sfs_block_op wr mem base blkno nblks fs =
     (if wr then sfs_wblock mem base blkno nblks fs else sfs_rblock mem base blkno nblks fs)"

text \<open>One transfer of part of a block (steps 1 and 3).\<close>

definition io_part ::
  "bool \<Rightarrow> nat \<Rightarrow> nat \<Rightarrow> io_state \<Rightarrow> sfs_inode \<Rightarrow> 'a sfs_fs_scheme \<Rightarrow> (int \<times> io_state \<times> sfs_inode \<times> 'a sfs_fs_scheme) option" where
  "io_part wr sz blkoff st sin fs =
     do { (ret, ino, sin1, fs1) \<leftarrow> sfs_bmap_load_nolock sin (i_blkno st) fs;
          if ret \<noteq> 0 then Some (ret, st, sin1, fs1)
          else do { (ret2, mem, fs2) \<leftarrow> sfs_buf_op wr (i_mem st) (i_base st) sz ino (int blkoff) fs1;
                    Some (ret2, st\<lparr>i_mem := mem\<rparr>, sin1, fs2) } }"

fun io_blocks ::
  "bool \<Rightarrow> nat \<Rightarrow> io_state \<Rightarrow> sfs_inode \<Rightarrow> 'a sfs_fs_scheme \<Rightarrow> (int \<times> io_state \<times> sfs_inode \<times> 'a sfs_fs_scheme) option" where
  "io_blocks wr 0 st sin fs = Some (0, st, sin, fs)"
| "io_blocks wr (Suc nblks) st sin fs =
     do { (ret, ino, sin1, fs1) \<leftarrow> sfs_bmap_load_nolock sin (i_blkno st) fs;
          if ret \<noteq> 0 then Some (ret, st, sin1, fs1)
          else do { (ret2, mem, fs2) \<leftarrow> sfs_block_op wr (i_mem st) (i_base st) ino 1 fs1;
                    let st1 = st\<lparr>i_mem := mem\<rparr>;
                    if ret2 \<noteq> 0 then Some (ret2, st1, sin1, fs2)
                    else io_blocks wr nblks
                      (st1\<lparr>i_base := i_base st1 + SFS_BLKSIZE, i_alen := i_alen st1 + SFS_BLKSIZE,
                           i_blkno := u32 (i_blkno st1 + 1), i_off := i_off st1 + SFS_BLKSIZE\<rparr>) sin1 fs2 } }"

text \<open>Steps 1 to 3, up to the label \<^verbatim>\<open>out\<close>.\<close>

definition io_steps ::
  "bool \<Rightarrow> nat \<Rightarrow> nat \<Rightarrow> io_state \<Rightarrow> sfs_inode \<Rightarrow> 'a sfs_fs_scheme \<Rightarrow> (int \<times> io_state \<times> sfs_inode \<times> 'a sfs_fs_scheme) option" where
  "io_steps wr endpos nblks0 st sin fs =
     (let blkoff = i_off st mod SFS_BLKSIZE in
      do { (ret1, nblks, st1, sin1, fs1) \<leftarrow>
             (if blkoff \<noteq> 0 then
                let sz = (if nblks0 \<noteq> 0 then SFS_BLKSIZE - blkoff else endpos - i_off st) in
                do { (ret, st', sin', fs') \<leftarrow> io_part wr sz blkoff st sin fs;
                     if ret \<noteq> 0 then Some (ret, nblks0, st', sin', fs')
                     else Some (0, nblks0 - 1,
                            st'\<lparr>i_base := i_base st' + sz, i_alen := i_alen st' + sz,
                                i_off := i_off st' + sz, i_blkno := u32 (i_blkno st' + 1)\<rparr>, sin', fs') }
              else Some (0, nblks0, st, sin, fs));
           if ret1 \<noteq> 0 then Some (ret1, st1, sin1, fs1)
           else do {
             (ret2, st2, sin2, fs2) \<leftarrow> io_blocks wr nblks st1 sin1 fs1;
             if ret2 \<noteq> 0 then Some (ret2, st2, sin2, fs2)
             else if i_off st2 < endpos then
               let sz = endpos - i_off st2 in
               do { (ret, st3, sin3, fs3) \<leftarrow> io_part wr sz 0 st2 sin2 fs2;
                    if ret \<noteq> 0 then Some (ret, st3, sin3, fs3)
                    else Some (0, st3\<lparr>i_alen := i_alen st3 + sz\<rparr>, sin3, fs3) }
             else Some (0, st2, sin2, fs2) } })"

text \<open>Returns the code, the buffer, the length done, the inode and the file system.\<close>

definition sfs_io_nolock ::
  "sfs_inode \<Rightarrow> byte list \<Rightarrow> nat \<Rightarrow> int \<Rightarrow> nat \<Rightarrow> bool \<Rightarrow> 'a sfs_fs_scheme \<Rightarrow>
   (int \<times> byte list \<times> nat \<times> sfs_inode \<times> 'a sfs_fs_scheme) option" where
  "sfs_io_nolock sin mem base offset len wr fs =
     do { kassert (din_type (din sin) \<noteq> SFS_TYPE_DIR);
          let endpos0 = to_s64 (offset + int len);
          if offset < 0 \<or> offset \<ge> int SFS_MAX_FILE_SIZE \<or> offset > endpos0 then Some (- E_INVAL, mem, 0, sin, fs)
          else if offset = endpos0 then Some (0, mem, 0, sin, fs)
          else
            let endpos1 = (if endpos0 > int SFS_MAX_FILE_SIZE then SFS_MAX_FILE_SIZE else nat endpos0);
                off = nat offset in
            if \<not> wr \<and> off \<ge> din_size (din sin) then Some (0, mem, 0, sin, fs)
            else
              let endpos = (if \<not> wr \<and> endpos1 > din_size (din sin) then din_size (din sin) else endpos1);
                  blkno = off div SFS_BLKSIZE;
                  nblks = endpos div SFS_BLKSIZE - blkno in
              do { (ret, st, sin1, fs1) \<leftarrow> io_steps wr endpos nblks
                      \<lparr>i_mem = mem, i_base = base, i_alen = 0, i_blkno = blkno, i_off = off\<rparr> sin fs;
                   let newsize = i_off st + i_alen st;
                   let sin2 = (if newsize > din_size (din sin1)
                               then (upd_din (\<lambda>d. d\<lparr>din_size := u32 newsize\<rparr>) sin1)\<lparr>sin_dirty := True\<rparr> else sin1);
                   Some (ret, i_mem st, i_alen st, sin2, fs1) } }"

end
