(* ===== verification/SfsMap.thy ===== *)
theory SfsMap
  imports SfsInode
begin

text \<open>
  What the block allocator and the block map of an inode promise. The state of a mounted file
  system is abstracted to the set of free blocks and the content of each block; an inode to
  the sequence of blocks it maps.
\<close>

abbreviation free_blocks :: "'a sfs_fs_scheme \<Rightarrow> nat set" where
  "free_blocks fs \<equiv> bm_free (freemap fs)"

definition fs_ok :: "'a sfs_fs_scheme \<Rightarrow> bool" where
  "fs_ok fs \<longleftrightarrow> io_ok fs \<and> io_sem fs = 1 \<and> bm_ok (freemap fs) \<and> blocks (super fs) \<le> nbits (freemap fs) \<and>
     free_blocks fs \<subseteq> {1..<blocks (super fs)} \<and> unused_blocks (super fs) = card (free_blocks fs)"

text \<open>
  A change of the file system that touches, among the blocks in use, only those of \<open>S\<close>.
\<close>

definition fs_step :: "nat set \<Rightarrow> 'a sfs_fs_scheme \<Rightarrow> 'a sfs_fs_scheme \<Rightarrow> bool" where
  "fs_step S fs fs' \<longleftrightarrow> fs_ok fs' \<and> blocks (super fs') = blocks (super fs) \<and> fs_sem fs' = fs_sem fs \<and>
     mutex_sem fs' = mutex_sem fs \<and> sfs_fs.more fs' = sfs_fs.more fs \<and>
     (\<forall>c<blocks (super fs). c \<notin> free_blocks fs \<longrightarrow> c \<notin> S \<longrightarrow> content fs' c = content fs c)"

definition in_use :: "'a sfs_fs_scheme \<Rightarrow> nat \<Rightarrow> bool" where
  "in_use fs b \<longleftrightarrow> 0 < b \<and> b < blocks (super fs) \<and> b \<notin> free_blocks fs"

lemma fs_step_refl: "fs_ok fs \<Longrightarrow> fs_step S fs fs"
  by (simp add: fs_step_def)

lemma fs_step_trans:
  "fs_step S fs fs' \<Longrightarrow> fs_step T fs' fs'' \<Longrightarrow> free_blocks fs' \<subseteq> free_blocks fs \<Longrightarrow> T \<subseteq> S \<union> free_blocks fs \<Longrightarrow>
   fs_step S fs fs''"
  unfolding fs_step_def by (metis UnE subsetD)

lemma fs_step_mono: "fs_step S fs fs' \<Longrightarrow> S \<subseteq> T \<Longrightarrow> fs_step T fs fs'"
  unfolding fs_step_def by blast

lemma fs_stepD:
  assumes "fs_step S fs fs'"
  shows "fs_ok fs'" "blocks (super fs') = blocks (super fs)"
    "in_use fs c \<Longrightarrow> c \<notin> S \<Longrightarrow> content fs' c = content fs c"
  using assms by (auto simp: fs_step_def in_use_def)

lemma fs_okD:
  assumes "fs_ok fs"
  shows "io_ok fs" "io_sem fs = 1" "bm_ok (freemap fs)" "finite (free_blocks fs)"
    "b \<in> free_blocks fs \<Longrightarrow> 0 < b \<and> b < blocks (super fs)"
    "b < blocks (super fs) \<Longrightarrow> b < nbits (freemap fs)" "blocks (super fs) \<le> 2 ^ 20"
    "unused_blocks (super fs) = card (free_blocks fs)"
  using assms finite_subset[of "free_blocks fs" "{1..<blocks (super fs)}"] by (auto simp: fs_ok_def io_ok_def)

lemma io_frame_step:
  "fs_ok fs \<Longrightarrow> io_frame fs fs' \<Longrightarrow> same_blocks fs fs' \<Longrightarrow> fs_step S fs fs' \<and> freemap fs' = freemap fs"
  by (simp add: fs_step_def fs_ok_def io_frame_def same_blocks_def)

lemma io_frame_upd:
  "fs_ok fs \<Longrightarrow> io_frame fs fs' \<Longrightarrow> upd_block b data fs fs' \<Longrightarrow> fs_step {b} fs fs' \<and> freemap fs' = freemap fs"
  by (simp add: fs_step_def fs_ok_def io_frame_def upd_block_def)

subsection \<open>Allocating and freeing blocks\<close>

lemma sfs_block_inuse_ok:
  "fs_ok fs \<Longrightarrow> 0 < b \<Longrightarrow> b < blocks (super fs) \<Longrightarrow> sfs_block_inuse fs b = Some (b \<notin> free_blocks fs)"
  by (simp add: sfs_block_inuse_def bitmap_test_ok fs_okD)

lemma check_ino_ok: "fs_ok fs \<Longrightarrow> in_use fs b \<Longrightarrow> check_ino b fs = Some ()"
  by (simp add: check_ino_def sfs_block_inuse_ok in_use_def kassert_def)

lemma sfs_block_alloc_none:
  "fs_ok fs \<Longrightarrow> free_blocks fs = {} \<Longrightarrow> sfs_block_alloc fs = Some (- E_NO_MEM, None, fs)"
  using bitmap_alloc_ok[of "freemap fs"] by (simp add: sfs_block_alloc_def fs_okD E_NO_MEM_def)

lemma sfs_block_alloc_ok:
  assumes ok: "fs_ok fs" and ne: "free_blocks fs \<noteq> {}"
  shows "\<exists>i fs'. sfs_block_alloc fs = Some (0, Some i, fs') \<and> i \<in> free_blocks fs \<and> fs_step {} fs fs' \<and>
    free_blocks fs' = free_blocks fs - {i} \<and> content fs' i = replicate 4096 0"
proof -
  obtain i bm where a: "bitmap_alloc (freemap fs) = Some (0, Some i, bm)" "i \<in> free_blocks fs" "bm_ok bm"
    "bm_free bm = free_blocks fs - {i}" "nbits bm = nbits (freemap fs)"
    using bitmap_alloc_ok[OF fs_okD(3)[OF ok]] ne by auto
  note i = fs_okD(5)[OF ok a(2)]
  let ?fs2 = "fs\<lparr>freemap := bm, super := (super fs)\<lparr>unused_blocks := unused_blocks (super fs) - 1\<rparr>, super_dirty := True\<rparr>"
  have card: "card (free_blocks fs) = Suc (card (bm_free bm))"
    using card.remove[OF fs_okD(4)[OF ok] a(2)] a(4) by simp
  have sub: "bm_free bm \<subseteq> {1..<blocks (super fs)}" using ok a(4) by (auto simp: fs_ok_def)
  have ok2: "fs_ok ?fs2"
    using ok a(3,5) card sub by (simp add: fs_ok_def io_ok_def)
  have "io_ok ?fs2" "io_sem ?fs2 = 1" "i < blocks (super ?fs2)" using ok2 i by (auto simp: fs_ok_def)
  then obtain fs3 where fs3: "sfs_clear_block i 1 ?fs2 = Some (0, fs3)" "io_frame ?fs2 fs3" "upd_block i (replicate 4096 0) ?fs2 fs3"
    using sfs_clear_block_ok[of ?fs2 i] i by auto
  note st = io_frame_upd[OF ok2 fs3(2,3)]
  have "sfs_block_inuse ?fs2 i = Some True"
    using sfs_block_inuse_ok[OF ok2, of i] i a(4) by simp
  then have "sfs_block_alloc fs = Some (0, Some i, fs3)"
    using a(1) fs3(1) card fs_okD(8)[OF ok] by (simp add: sfs_block_alloc_def Let_def kassert_def)
  moreover have "fs_step {} fs fs3"
    using st fs3(2) a(2) a(4) by (auto simp: fs_step_def)
  moreover have "content fs3 i = replicate 4096 0" using fs3(3) i by (simp add: upd_block_def)
  ultimately show ?thesis using a(2,4) st by auto
qed

lemma sfs_block_free_ok:
  assumes ok: "fs_ok fs" and b: "in_use fs b"
  shows "\<exists>fs'. sfs_block_free b fs = Some fs' \<and> fs_step {} fs fs' \<and> free_blocks fs' = insert b (free_blocks fs) \<and>
    dev fs' = dev fs"
proof -
  have b': "0 < b" "b < blocks (super fs)" "b \<notin> free_blocks fs" "b < nbits (freemap fs)"
    using b ok by (auto simp: in_use_def fs_okD)
  obtain bm where f: "bitmap_free (freemap fs) b = Some bm" "bm_ok bm" "bm_free bm = insert b (free_blocks fs)"
    "nbits bm = nbits (freemap fs)" using bitmap_free_ok[OF fs_okD(3)[OF ok] b'(4,3)] by blast
  have "card (free_blocks fs) \<le> card {1..<blocks (super fs)}" using ok by (intro card_mono) (auto simp: fs_ok_def)
  then have "u32 (unused_blocks (super fs) + 1) = card (bm_free bm)"
    using fs_okD(4,7,8)[OF ok] b'(3) f(3) by (subst u32_id) auto
  then have "fs_ok (fs\<lparr>freemap := bm, super := (super fs)\<lparr>unused_blocks := u32 (unused_blocks (super fs) + 1)\<rparr>, super_dirty := True\<rparr>)"
    using ok f b' by (auto simp: fs_ok_def io_ok_def)
  moreover have "sfs_block_free b fs = Some (fs\<lparr>freemap := bm,
      super := (super fs)\<lparr>unused_blocks := u32 (unused_blocks (super fs) + 1)\<rparr>, super_dirty := True\<rparr>)"
    using sfs_block_inuse_ok[OF ok b'(1,2)] f(1) b'(3) by (simp add: sfs_block_free_def kassert_def)
  ultimately show ?thesis using f by (auto simp: fs_step_def)
qed

subsection \<open>Reading and writing block numbers\<close>

definition entry :: "'a sfs_fs_scheme \<Rightarrow> nat \<Rightarrow> nat \<Rightarrow> nat" where
  "entry fs b k = of_le32 (get_bytes (k * 4) 4 (content fs b))"

lemma load_u32_ok:
  assumes ok: "fs_ok fs" and b: "in_use fs b" and k: "k < SFS_BLK_NENTRY"
  shows "\<exists>fs'. load_u32 b (k * 4) fs = Some (0, entry fs b k, fs') \<and> io_frame fs fs' \<and> same_blocks fs fs'"
proof -
  have "k * 4 < 4096" "k * 4 + 4 \<le> 4096" using k by (auto simp: sfs_consts)
  then obtain fs' where r: "sfs_rbuf [0, 0, 0, 0] 0 4 b (int (k * 4)) fs =
      Some (0, put_bytes 0 (get_bytes (k * 4) 4 (content fs b)) [0, 0, 0, 0], fs')" "io_frame fs fs'" "same_blocks fs fs'"
    using sfs_rbuf_ok[of fs b "k * 4" 4] ok b by (auto simp: fs_okD in_use_def)
  have "length (content fs b) = 4096" using ok b by (simp add: fs_okD in_use_def)
  then have "put_bytes 0 (get_bytes (k * 4) 4 (content fs b)) [0, 0, 0, 0] = get_bytes (k * 4) 4 (content fs b)"
    using \<open>k * 4 + 4 \<le> 4096\<close> by (simp add: put_bytes_def)
  then show ?thesis using r by (simp add: load_u32_def entry_def)
qed

lemma store_u32_ok:
  assumes ok: "fs_ok fs" and b: "in_use fs b" and k: "k < SFS_BLK_NENTRY" and v: "v < 2 ^ 32"
  shows "\<exists>fs'. store_u32 v b (k * 4) fs = Some (0, fs') \<and> fs_step {b} fs fs' \<and> freemap fs' = freemap fs \<and>
    (\<forall>j<SFS_BLK_NENTRY. entry fs' b j = (if j = k then v else entry fs b j))"
proof -
  have k4: "k * 4 < 4096" "k * 4 + 4 \<le> 4096" using k by (auto simp: sfs_consts)
  then obtain fs' where w: "sfs_wbuf (le32 v) 0 4 b (int (k * 4)) fs = Some (0, le32 v, fs')" "io_frame fs fs'"
    "upd_block b (put_bytes (k * 4) (get_bytes 0 4 (le32 v)) (content fs b)) fs fs'"
    using sfs_wbuf_ok[of fs b "k * 4" 4 0 "le32 v"] ok b by (auto simp: fs_okD in_use_def)
  have len: "length (content fs b) = 4096" using ok b by (simp add: fs_okD in_use_def)
  have c: "content fs' b = put_bytes (k * 4) (le32 v) (content fs b)" using w(3) b by (simp add: upd_block_def in_use_def)
  have "entry fs' b j = (if j = k then v else entry fs b j)" if "j < SFS_BLK_NENTRY" for j
  proof (cases "j = k")
    case False
    then have "j * 4 + 4 \<le> k * 4 \<or> k * 4 + 4 \<le> j * 4" by linarith
    then show ?thesis using False that k4 len by (simp add: entry_def c get_put_other sfs_consts)
  qed (use k4 len v in \<open>simp add: entry_def c\<close>)
  then show ?thesis using w(1) io_frame_upd[OF ok w(2,3)] by (simp add: store_u32_def)
qed

lemma entry_zero: "content fs b = replicate 4096 0 \<Longrightarrow> k < SFS_BLK_NENTRY \<Longrightarrow> entry fs b k = 0"
  by (simp add: entry_def get_bytes_def of_le32_def sfs_consts)

subsection \<open>The block map of an inode\<close>

definition blkmap :: "sfs_inode \<Rightarrow> 'a sfs_fs_scheme \<Rightarrow> nat \<Rightarrow> nat" where
  "blkmap sin fs k =
     (if k < SFS_NDIRECT then din_direct (din sin) ! k
      else if din_indirect (din sin) = 0 then 0
      else entry fs (din_indirect (din sin)) (k - SFS_NDIRECT))"

definition MAX_BLKS :: nat where "MAX_BLKS = SFS_NDIRECT + SFS_BLK_NENTRY"

abbreviation nblocks :: "sfs_inode \<Rightarrow> nat" where
  "nblocks sin \<equiv> din_blocks (din sin)"

definition meta :: "sfs_inode \<Rightarrow> nat set" where
  "meta sin = {din_indirect (din sin)} - {0}"

definition owned :: "sfs_inode \<Rightarrow> 'a sfs_fs_scheme \<Rightarrow> nat set" where
  "owned sin fs = meta sin \<union> blkmap sin fs ` {0..<nblocks sin}"

definition inode_ok :: "sfs_inode \<Rightarrow> 'a sfs_fs_scheme \<Rightarrow> bool" where
  "inode_ok sin fs \<longleftrightarrow> length (din_direct (din sin)) = SFS_NDIRECT \<and> nblocks sin \<le> MAX_BLKS \<and>
     (\<forall>b\<in>owned sin fs. in_use fs b) \<and> inj_on (blkmap sin fs) {0..<nblocks sin} \<and>
     (\<forall>k<nblocks sin. blkmap sin fs k \<notin> meta sin) \<and> (\<forall>k. nblocks sin \<le> k \<and> k < MAX_BLKS \<longrightarrow> blkmap sin fs k = 0)"

text \<open>The bytes of the blocks of an inode, whatever the size says.\<close>

definition file_data :: "sfs_inode \<Rightarrow> 'a sfs_fs_scheme \<Rightarrow> byte list" where
  "file_data sin fs = concat (map (\<lambda>k. content fs (blkmap sin fs k)) [0..<nblocks sin])"

text \<open>
  A change leaves every inode that owns other blocks as it was.
\<close>

lemma other_inode:
  assumes st: "fs_step S fs fs'" and ok: "inode_ok sin fs" and d: "owned sin fs \<inter> S = {}"
    and fr: "free_blocks fs' \<inter> owned sin fs = {}"
  shows "inode_ok sin fs' \<and> owned sin fs' = owned sin fs \<and> file_data sin fs' = file_data sin fs"
proof -
  have same: "content fs' c = content fs c" if "c \<in> owned sin fs" for c
    using that ok d fs_stepD(3)[OF st] by (auto simp: inode_ok_def)
  have map: "blkmap sin fs' = blkmap sin fs"
    using same[of "din_indirect (din sin)"] by (intro ext) (auto simp: blkmap_def entry_def owned_def meta_def)
  then have own: "owned sin fs' = owned sin fs" by (simp add: owned_def)
  have "in_use fs' b" if "b \<in> owned sin fs" for b
    using that ok fr fs_stepD(2)[OF st] by (auto simp: inode_ok_def in_use_def)
  then have "inode_ok sin fs'" using ok own by (simp add: inode_ok_def map)
  moreover have "file_data sin fs' = file_data sin fs"
    unfolding file_data_def using same by (intro arg_cong[where f = concat]) (auto simp: map owned_def)
  ultimately show ?thesis using own by simp
qed

subsection \<open>The indirect block\<close>

lemma in_use_step: "fs_step S fs fs' \<Longrightarrow> in_use fs b \<Longrightarrow> free_blocks fs' \<subseteq> free_blocks fs \<Longrightarrow> in_use fs' b"
  by (auto simp: in_use_def fs_step_def)

lemma free_bound: "fs_ok fs \<Longrightarrow> b \<in> free_blocks fs \<Longrightarrow> b < 2 ^ 32"
  using fs_okD(5,7)[of fs] by fastforce

lemma get_sub_old:
  assumes ok: "fs_ok fs" and e: "in_use fs e" and k: "k < SFS_BLK_NENTRY" and c: "entry fs e k \<noteq> 0 \<or> \<not> create"
  shows "\<exists>fs'. sfs_bmap_get_sub_nolock e k create fs = Some (0, e, entry fs e k, fs') \<and> io_frame fs fs' \<and> same_blocks fs fs'"
proof -
  obtain fs' where "load_u32 e (k * 4) fs = Some (0, entry fs e k, fs')" "io_frame fs fs'" "same_blocks fs fs'"
    using load_u32_ok[OF ok e k] by blast
  then show ?thesis using e k c by (auto simp: sfs_bmap_get_sub_nolock_def kassert_def in_use_def Let_def)
qed

lemma get_sub_fill:
  assumes ok: "fs_ok fs" and e: "in_use fs e" and k: "k < SFS_BLK_NENTRY" and z: "entry fs e k = 0"
    and f: "free_blocks fs \<noteq> {}"
  shows "\<exists>i fs'. sfs_bmap_get_sub_nolock e k True fs = Some (0, e, i, fs') \<and> i \<in> free_blocks fs \<and> fs_step {e} fs fs' \<and>
    free_blocks fs' = free_blocks fs - {i} \<and> content fs' i = replicate 4096 0 \<and>
    (\<forall>j<SFS_BLK_NENTRY. entry fs' e j = (if j = k then i else entry fs e j))"
proof -
  obtain fs1 where l: "load_u32 e (k * 4) fs = Some (0, 0, fs1)" "io_frame fs fs1" "same_blocks fs fs1"
    using load_u32_ok[OF ok e k] z by auto
  have s1: "fs_step {} fs fs1" "freemap fs1 = freemap fs" using io_frame_step[OF ok l(2,3)] by auto
  obtain i fs2 where a: "sfs_block_alloc fs1 = Some (0, Some i, fs2)" "i \<in> free_blocks fs" "fs_step {} fs1 fs2"
    "free_blocks fs2 = free_blocks fs - {i}" "content fs2 i = replicate 4096 0"
    using sfs_block_alloc_ok[OF fs_stepD(1)[OF s1(1)]] f s1(2) by auto
  have s2: "fs_step {} fs fs2" using fs_step_trans[OF s1(1) a(3)] s1(2) by auto
  have e2: "in_use fs2 e" by (rule in_use_step[OF s2 e]) (use a(4) in auto)
  obtain fs3 where w: "store_u32 i e (k * 4) fs2 = Some (0, fs3)" "fs_step {e} fs2 fs3" "freemap fs3 = freemap fs2"
    "\<forall>j<SFS_BLK_NENTRY. entry fs3 e j = (if j = k then i else entry fs2 e j)"
    using store_u32_ok[OF fs_stepD(1)[OF s2] e2 k free_bound[OF ok a(2)]] by blast
  have i: "in_use fs2 i" "i \<noteq> e"
    using a(2,4) e fs_okD(5)[OF ok a(2)] fs_stepD(2)[OF s2] by (auto simp: in_use_def)
  have "sfs_bmap_get_sub_nolock e k True fs = Some (0, e, i, fs3)"
    using e k l(1) a(1) w(1) by (auto simp: sfs_bmap_get_sub_nolock_def kassert_def in_use_def Let_def)
  moreover have "fs_step {e} fs fs3" using fs_step_trans[OF fs_step_mono[OF s2, of "{e}"] w(2)] a(4) by auto
  moreover have "content fs3 i = replicate 4096 0" using fs_stepD(3)[OF w(2) i(1)] i(2) a(5) by simp
  moreover have "entry fs2 e j = entry fs e j" for j using fs_stepD(3)[OF s2 e] by (simp add: entry_def)
  ultimately show ?thesis using a(2,4) w(3,4) by auto
qed

lemma get_sub_full:
  assumes ok: "fs_ok fs" and e: "in_use fs e" and k: "k < SFS_BLK_NENTRY" and z: "entry fs e k = 0"
    and f: "free_blocks fs = {}"
  shows "\<exists>fs'. sfs_bmap_get_sub_nolock e k True fs = Some (- E_NO_MEM, e, 0, fs') \<and> fs_step {} fs fs' \<and>
    free_blocks fs' = free_blocks fs"
proof -
  obtain fs1 where l: "load_u32 e (k * 4) fs = Some (0, 0, fs1)" "io_frame fs fs1" "same_blocks fs fs1"
    using load_u32_ok[OF ok e k] z by auto
  have s1: "fs_step {} fs fs1" "freemap fs1 = freemap fs" using io_frame_step[OF ok l(2,3)] by auto
  have "sfs_block_alloc fs1 = Some (- E_NO_MEM, None, fs1)"
    using sfs_block_alloc_none[OF fs_stepD(1)[OF s1(1)]] f s1(2) by simp
  then show ?thesis using e k l(1) s1 by (auto simp: sfs_bmap_get_sub_nolock_def kassert_def in_use_def Let_def E_NO_MEM_def)
qed

lemma get_sub_new:
  assumes ok: "fs_ok fs" and k: "k < SFS_BLK_NENTRY" and f: "2 \<le> card (free_blocks fs)"
  shows "\<exists>e i fs'. sfs_bmap_get_sub_nolock 0 k True fs = Some (0, e, i, fs') \<and> e \<in> free_blocks fs \<and> i \<in> free_blocks fs \<and>
    e \<noteq> i \<and> fs_step {} fs fs' \<and> free_blocks fs' = free_blocks fs - {e, i} \<and> content fs' i = replicate 4096 0 \<and>
    (\<forall>j<SFS_BLK_NENTRY. entry fs' e j = (if j = k then i else 0))"
proof -
  have f0: "free_blocks fs \<noteq> {}" using f by auto
  obtain e fs1 where a1: "sfs_block_alloc fs = Some (0, Some e, fs1)" "e \<in> free_blocks fs" "fs_step {} fs fs1"
    "free_blocks fs1 = free_blocks fs - {e}" "content fs1 e = replicate 4096 0"
    using sfs_block_alloc_ok[OF ok f0] by auto
  have f1: "free_blocks fs1 \<noteq> {}"
  proof
    assume "free_blocks fs1 = {}"
    then have "free_blocks fs \<subseteq> {e}" using a1(4) by auto
    then show False using f card_mono[of "{e}" "free_blocks fs"] by simp
  qed
  obtain i fs2 where a: "sfs_block_alloc fs1 = Some (0, Some i, fs2)" "i \<in> free_blocks fs1" "fs_step {} fs1 fs2"
    "free_blocks fs2 = free_blocks fs1 - {i}" "content fs2 i = replicate 4096 0"
    using sfs_block_alloc_ok[OF fs_stepD(1)[OF a1(3)] f1] by auto
  have s2: "fs_step {} fs fs2" using fs_step_trans[OF a1(3) a(3)] a1(4) by auto
  have b: "blocks (super fs1) = blocks (super fs)" "blocks (super fs2) = blocks (super fs)"
    using fs_stepD(2)[OF s2] fs_stepD(2)[OF a1(3)] by auto
  have ei: "e \<noteq> i" "i \<in> free_blocks fs" using a(2) a1(4) by auto
  have u: "in_use fs1 e" "in_use fs2 e" "in_use fs2 i"
    using b fs_okD(5)[OF ok a1(2)] fs_okD(5)[OF ok ei(2)] a(4) a1(4) ei by (auto simp: in_use_def)
  obtain fs3 where w: "store_u32 i e (k * 4) fs2 = Some (0, fs3)" "fs_step {e} fs2 fs3" "freemap fs3 = freemap fs2"
    "\<forall>j<SFS_BLK_NENTRY. entry fs3 e j = (if j = k then i else entry fs2 e j)"
    using store_u32_ok[OF fs_stepD(1)[OF s2] u(2) k free_bound[OF ok ei(2)]] by blast
  have "content fs2 e = replicate 4096 0" using fs_stepD(3)[OF a(3) u(1)] a1(5) by simp
  then have z: "entry fs2 e j = 0" if "j < SFS_BLK_NENTRY" for j using entry_zero that by blast
  have "e \<noteq> 0" using u by (simp add: in_use_def)
  then have "sfs_bmap_get_sub_nolock 0 k True fs = Some (0, e, i, fs3)"
    using k a1(1) a(1) w(1) by (auto simp: sfs_bmap_get_sub_nolock_def kassert_def Let_def)
  moreover have "fs_step {} fs fs3" using fs_step_trans[OF s2 w(2)] a(4) a1(2,4) by auto
  moreover have "content fs3 i = replicate 4096 0" using fs_stepD(3)[OF w(2) u(3)] ei a(5) by simp
  moreover have "free_blocks fs3 = free_blocks fs - {e, i}" using w(3) a(4) a1(4) by auto
  ultimately show ?thesis using a1(2) ei w(4) z
    by - (rule exI[of _ e], rule exI[of _ i], rule exI[of _ fs3], simp)
qed

lemma get_sub_new_full:
  assumes ok: "fs_ok fs" and k: "k < SFS_BLK_NENTRY" and f: "card (free_blocks fs) < 2"
  shows "\<exists>fs'. sfs_bmap_get_sub_nolock 0 k True fs = Some (- E_NO_MEM, 0, 0, fs') \<and> fs_step {} fs fs' \<and>
    free_blocks fs' = free_blocks fs"
proof (cases "free_blocks fs = {}")
  case True
  then show ?thesis using k sfs_block_alloc_none[OF ok True] fs_step_refl[OF ok]
    by (auto simp: sfs_bmap_get_sub_nolock_def kassert_def Let_def E_NO_MEM_def)
next
  case False
  obtain e fs1 where a1: "sfs_block_alloc fs = Some (0, Some e, fs1)" "e \<in> free_blocks fs" "fs_step {} fs fs1"
    "free_blocks fs1 = free_blocks fs - {e}" using sfs_block_alloc_ok[OF ok False] by auto
  have "card (free_blocks fs - {e}) = 0" using f a1(2) fs_okD(4)[OF ok] by simp
  then have f1: "free_blocks fs1 = {}" using fs_okD(4)[OF ok] a1(4) by simp
  note n = sfs_block_alloc_none[OF fs_stepD(1)[OF a1(3)] f1]
  have u: "in_use fs1 e" using fs_okD(5)[OF ok a1(2)] fs_stepD(2)[OF a1(3)] f1 by (simp add: in_use_def)
  obtain fs3 where fr: "sfs_block_free e fs1 = Some fs3" "fs_step {} fs1 fs3" "free_blocks fs3 = insert e (free_blocks fs1)"
    using sfs_block_free_ok[OF fs_stepD(1)[OF a1(3)] u] by blast
  have "sfs_bmap_get_sub_nolock 0 k True fs = Some (- E_NO_MEM, 0, 0, fs3)"
    using k a1(1) n fr(1) u by (auto simp: sfs_bmap_get_sub_nolock_def kassert_def Let_def E_NO_MEM_def in_use_def)
  moreover have "fs_step {} fs fs3" using fs_step_trans[OF a1(3) fr(2)] a1(4) by auto
  ultimately show ?thesis using fr(3) a1(2,4) by auto
qed

subsection \<open>Loading a block of a file\<close>

definition same_file :: "sfs_inode \<Rightarrow> sfs_inode \<Rightarrow> bool" where
  "same_file sin sin' \<longleftrightarrow> din_size (din sin') = din_size (din sin) \<and> din_type (din sin') = din_type (din sin) \<and>
     din_nlinks (din sin') = din_nlinks (din sin) \<and> sin_ino sin' = sin_ino sin \<and>
     reclaim_count sin' = reclaim_count sin \<and> sin_sem sin' = sin_sem sin"

text \<open>The inode has got one more block, \<open>b\<close>, filled with zeros.\<close>

definition grown :: "sfs_inode \<Rightarrow> 'a sfs_fs_scheme \<Rightarrow> nat \<Rightarrow> sfs_inode \<Rightarrow> 'a sfs_fs_scheme \<Rightarrow> bool" where
  "grown sin fs b sin' fs' \<longleftrightarrow> inode_ok sin' fs' \<and> fs_step (owned sin fs) fs fs' \<and> same_file sin sin' \<and>
     nblocks sin' = nblocks sin + 1 \<and> blkmap sin' fs' (nblocks sin) = b \<and>
     free_blocks fs' \<subseteq> free_blocks fs \<and> owned sin' fs' = owned sin fs \<union> (free_blocks fs - free_blocks fs') \<and>
     card (free_blocks fs) \<le> card (free_blocks fs') + 2 \<and>
     file_data sin' fs' = file_data sin fs @ replicate 4096 0"

lemma inode_okD:
  assumes "inode_ok sin fs"
  shows "k < nblocks sin \<Longrightarrow> in_use fs (blkmap sin fs k)" "e \<in> meta sin \<Longrightarrow> in_use fs e"
    "k < nblocks sin \<Longrightarrow> blkmap sin fs k \<notin> meta sin" "length (din_direct (din sin)) = SFS_NDIRECT"
    "nblocks sin \<le> MAX_BLKS" "nblocks sin \<le> k \<Longrightarrow> k < MAX_BLKS \<Longrightarrow> blkmap sin fs k = 0"
    "j < nblocks sin \<Longrightarrow> k < nblocks sin \<Longrightarrow> blkmap sin fs j = blkmap sin fs k \<longleftrightarrow> j = k"
  using assms by (auto simp: inode_ok_def owned_def inj_on_def)

lemma grownI:
  assumes ok: "inode_ok sin fs" "fs_ok fs" and st: "fs_step (meta sin) fs fs'" and n: "nblocks sin < MAX_BLKS"
    and b: "b \<in> free_blocks fs" "b \<notin> M" and M: "M \<subseteq> free_blocks fs" "meta sin' = meta sin \<union> M" "card M \<le> 1"
    and free: "free_blocks fs' = free_blocks fs - M - {b}"
    and map: "\<And>j. j < MAX_BLKS \<Longrightarrow> blkmap sin' fs' j = (if j = nblocks sin then b else blkmap sin fs j)"
    and z: "content fs' b = replicate 4096 0" and sf: "same_file sin sin'" "nblocks sin' = nblocks sin + 1"
      "length (din_direct (din sin')) = SFS_NDIRECT"
  shows "grown sin fs b sin' fs'"
proof -
  let ?n = "nblocks sin"
  have used: "in_use fs' c" if "in_use fs c" for c using in_use_step[OF st that] free by auto
  have got: "in_use fs' c" if "c \<in> insert b M" for c
    using that fs_okD(5)[OF ok(2), of c] fs_stepD(2)[OF st] free b M by (auto simp: in_use_def)
  have old: "blkmap sin' fs' j = blkmap sin fs j" "blkmap sin fs j \<notin> free_blocks fs" if "j < ?n" for j
    using map[of j] that n inode_okD(1)[OF ok(1) that] by (auto simp: in_use_def)
  have nb: "blkmap sin fs j \<noteq> b" if "j < ?n" for j using old(2)[OF that] b(1) by metis
  have mf: "meta sin \<inter> free_blocks fs = {}" using inode_okD(2)[OF ok(1)] by (auto simp: in_use_def)
  have last: "blkmap sin' fs' ?n = b" using map[of ?n] n by simp
  have own: "owned sin' fs' = owned sin fs \<union> insert b M"
    using old last M(2) sf(2) by (auto simp: owned_def atLeast0_lessThan_Suc)
  have ok': "inode_ok sin' fs'" unfolding inode_ok_def
  proof (intro conjI)
    show "\<forall>c\<in>owned sin' fs'. in_use fs' c" using own used got ok(1) by (auto simp: inode_ok_def)
    have "inj_on (blkmap sin' fs') {0..<?n}" using old(1) inode_okD(7)[OF ok(1)] by (simp add: inj_on_def)
    moreover have "b \<notin> blkmap sin' fs' ` {0..<?n}" using old(1) nb by force
    ultimately show "inj_on (blkmap sin' fs') {0..<nblocks sin'}"
      using last sf(2) by (simp add: atLeast0_lessThan_Suc)
    show "\<forall>k<nblocks sin'. blkmap sin' fs' k \<notin> meta sin'"
      using old last b mf M inode_okD(3)[OF ok(1)] sf(2) by (auto simp: less_Suc_eq)
    show "\<forall>k. nblocks sin' \<le> k \<and> k < MAX_BLKS \<longrightarrow> blkmap sin' fs' k = 0"
      using map inode_okD(6)[OF ok(1)] sf(2) by auto
  qed (use n sf in auto)
  have "content fs' (blkmap sin fs j) = content fs (blkmap sin fs j)" if "j < ?n" for j
    using fs_stepD(3)[OF st inode_okD(1)[OF ok(1) that]] inode_okD(3)[OF ok(1) that] by simp
  then have data: "file_data sin' fs' = file_data sin fs @ replicate 4096 0"
    using old last z sf(2) by (auto simp: file_data_def intro!: arg_cong[where f = concat])
  have fin: "finite (free_blocks fs)" using ok(2) by (rule fs_okD)
  have sub: "free_blocks fs' \<subseteq> free_blocks fs" using free by auto
  have Mb: "free_blocks fs - free_blocks fs' = insert b M" using free b M by auto
  have "card (free_blocks fs) = card (free_blocks fs') + card (free_blocks fs - free_blocks fs')"
    using card_mono[OF fin sub] card_Diff_subset[OF finite_subset[OF sub fin] sub] by linarith
  moreover have "card (insert b M) \<le> 2" using M(3) card_insert_le_m1[of 2 M b] by simp
  ultimately have "card (free_blocks fs) \<le> card (free_blocks fs') + 2" using Mb by simp
  moreover have "fs_step (owned sin fs) fs fs'" by (rule fs_step_mono[OF st]) (auto simp: owned_def)
  ultimately show ?thesis using ok' data own Mb sf(1,2) last free by (auto simp: grown_def)
qed

lemma bmap_load_old:
  assumes ok: "fs_ok fs" "inode_ok sin fs" and k: "k < nblocks sin"
  shows "\<exists>fs'. sfs_bmap_load_nolock sin k fs = Some (0, blkmap sin fs k, sin, fs') \<and> io_frame fs fs' \<and> same_blocks fs fs'"
proof -
  let ?e = "din_indirect (din sin)"
  note u = inode_okD(1)[OF ok(2) k]
  have "\<exists>fs'. sfs_bmap_get_nolock sin k False fs = Some (0, blkmap sin fs k, sin, fs') \<and> io_frame fs fs' \<and> same_blocks fs fs'"
  proof (cases "k < SFS_NDIRECT")
    case True
    then have "io_frame fs fs" "same_blocks fs fs" using ok by (auto simp: io_frame_def same_blocks_def fs_ok_def)
    then show ?thesis using True u check_ino_ok[OF ok(1) u] by (auto simp: sfs_bmap_get_nolock_def blkmap_def Let_def)
  next
    case False
    then have e: "?e \<noteq> 0" "blkmap sin fs k = entry fs ?e (k - SFS_NDIRECT)"
      using u by (auto simp: blkmap_def in_use_def split: if_splits)
    have ek: "in_use fs ?e" "k - SFS_NDIRECT < SFS_BLK_NENTRY"
      using e inode_okD(2,5)[OF ok(2)] k by (auto simp: meta_def MAX_BLKS_def sfs_consts)
    then obtain fs' where g: "sfs_bmap_get_sub_nolock ?e (k - SFS_NDIRECT) False fs = Some (0, ?e, blkmap sin fs k, fs')"
      "io_frame fs fs'" "same_blocks fs fs'" using get_sub_old[OF ok(1) ek, of False] e(2) by auto
    have "fs_ok fs'" "in_use fs' (blkmap sin fs k)"
      using io_frame_step[OF ok(1) g(2,3)] u in_use_step[of "{}" fs fs'] by (auto simp: fs_step_def)
    then show ?thesis using False ek(2) g check_ino_ok[of fs'] by (auto simp: sfs_bmap_get_nolock_def Let_def)
  qed
  then obtain fs' where g: "sfs_bmap_get_nolock sin k False fs = Some (0, blkmap sin fs k, sin, fs')" "io_frame fs fs'" "same_blocks fs fs'"
    by blast
  have "fs_ok fs'" "in_use fs' (blkmap sin fs k)"
    using io_frame_step[OF ok(1) g(2,3)] u in_use_step[of "{}" fs fs'] by (auto simp: fs_step_def)
  then have "sfs_block_inuse fs' (blkmap sin fs k) = Some True" by (simp add: sfs_block_inuse_ok in_use_def)
  then show ?thesis using g k by (auto simp: sfs_bmap_load_nolock_def kassert_def Let_def)
qed

abbreviation one_more :: "sfs_inode \<Rightarrow> sfs_inode" where
  "one_more sin \<equiv> upd_din (\<lambda>d. d\<lparr>din_blocks := u32 (din_blocks d + 1)\<rparr>) sin"

definition no_space :: "'a sfs_fs_scheme \<Rightarrow> 'a sfs_fs_scheme \<Rightarrow> bool" where
  "no_space fs fs' \<longleftrightarrow> fs_step {} fs fs' \<and> free_blocks fs' = free_blocks fs \<and> card (free_blocks fs) < 2"

lemma got_in_use: "fs_ok fs \<Longrightarrow> fs_step S fs fs' \<Longrightarrow> b \<in> free_blocks fs \<Longrightarrow> b \<notin> free_blocks fs' \<Longrightarrow> in_use fs' b"
  using fs_okD(5)[of fs b] by (auto simp: in_use_def fs_step_def)

lemma blocks_u32: "inode_ok sin fs \<Longrightarrow> u32 (nblocks sin + 1) = nblocks sin + 1"
  using inode_okD(5)[of sin fs] by (intro u32_id) (auto simp: MAX_BLKS_def sfs_consts)

lemma same_entries: "fs_step S fs fs' \<Longrightarrow> in_use fs e \<Longrightarrow> e \<notin> S \<Longrightarrow> entry fs' e j = entry fs e j"
  by (simp add: entry_def fs_stepD(3))

lemma bmap_get_direct:
  assumes ok: "fs_ok fs" "inode_ok sin fs" and k: "nblocks sin < SFS_NDIRECT"
  shows "(\<exists>fs'. sfs_bmap_get_nolock sin (nblocks sin) True fs = Some (- E_NO_MEM, 0, sin, fs') \<and> no_space fs fs') \<or>
    (\<exists>b sin' fs'. sfs_bmap_get_nolock sin (nblocks sin) True fs = Some (0, b, sin', fs') \<and> grown sin fs b (one_more sin') fs')"
proof (cases "free_blocks fs = {}")
  case True
  have z: "din_direct (din sin) ! nblocks sin = 0" using inode_okD(6)[OF ok(2), of "nblocks sin"] k by (simp add: blkmap_def MAX_BLKS_def)
  have "no_space fs fs" using True ok(1) by (simp add: no_space_def fs_step_refl)
  then show ?thesis using z k sfs_block_alloc_none[OF ok(1) True] by (auto simp: sfs_bmap_get_nolock_def Let_def E_NO_MEM_def)
next
  case False
  let ?n = "nblocks sin"
  have z: "din_direct (din sin) ! ?n = 0" using inode_okD(6)[OF ok(2), of ?n] k by (simp add: blkmap_def MAX_BLKS_def)
  obtain b fs1 where a: "sfs_block_alloc fs = Some (0, Some b, fs1)" "b \<in> free_blocks fs" "fs_step {} fs fs1"
    "free_blocks fs1 = free_blocks fs - {b}" "content fs1 b = replicate 4096 0" using sfs_block_alloc_ok[OF ok(1) False] by auto
  let ?s = "(upd_din (\<lambda>d. d\<lparr>din_direct := (din_direct d)[?n := b]\<rparr>) sin)\<lparr>sin_dirty := True\<rparr>"
  have "check_ino b fs1 = Some ()"
    using check_ino_ok[OF fs_stepD(1)[OF a(3)]] got_in_use[OF ok(1) a(3,2)] a(4) by simp
  then have "sfs_bmap_get_nolock sin ?n True fs = Some (0, b, ?s, fs1)"
    using z k a(1) by (simp add: sfs_bmap_get_nolock_def Let_def)
  moreover have "grown sin fs b (one_more ?s) fs1"
  proof (rule grownI[OF ok(2,1), where M = "{}"])
    have "in_use fs (din_indirect (din sin))" if "din_indirect (din sin) \<noteq> 0" using inode_okD(2)[OF ok(2)] that by (simp add: meta_def)
    then show "blkmap (one_more ?s) fs1 j = (if j = ?n then b else blkmap sin fs j)" if "j < MAX_BLKS" for j
      using k inode_okD(4)[OF ok(2)] same_entries[OF a(3)] by (auto simp: blkmap_def upd_din_def)
  qed (use a k blocks_u32[OF ok(2)] inode_okD(4)[OF ok(2)] fs_step_mono[OF a(3)] in
       \<open>auto simp: meta_def upd_din_def same_file_def MAX_BLKS_def\<close>)
  ultimately show ?thesis by blast
qed

lemma bmap_get_indirect:
  assumes ok: "fs_ok fs" "inode_ok sin fs" and k: "SFS_NDIRECT \<le> nblocks sin" "nblocks sin < MAX_BLKS"
    and e: "din_indirect (din sin) \<noteq> 0"
  shows "(\<exists>fs'. sfs_bmap_get_nolock sin (nblocks sin) True fs = Some (- E_NO_MEM, 0, sin, fs') \<and> no_space fs fs') \<or>
    (\<exists>b sin' fs'. sfs_bmap_get_nolock sin (nblocks sin) True fs = Some (0, b, sin', fs') \<and> grown sin fs b (one_more sin') fs')"
proof -
  let ?n = "nblocks sin" and ?e = "din_indirect (din sin)"
  have ek: "in_use fs ?e" "?n - SFS_NDIRECT < SFS_BLK_NENTRY"
    using e inode_okD(2)[OF ok(2)] k by (auto simp: meta_def MAX_BLKS_def)
  have z: "entry fs ?e (?n - SFS_NDIRECT) = 0" using inode_okD(6)[OF ok(2), of ?n] k e by (simp add: blkmap_def)
  show ?thesis
  proof (cases "free_blocks fs = {}")
    case True
    obtain fs' where "sfs_bmap_get_sub_nolock ?e (?n - SFS_NDIRECT) True fs = Some (- E_NO_MEM, ?e, 0, fs')" "fs_step {} fs fs'"
      "free_blocks fs' = free_blocks fs" using get_sub_full[OF ok(1) ek z True] by blast
    then show ?thesis using k ek True by (auto simp: sfs_bmap_get_nolock_def Let_def E_NO_MEM_def no_space_def)
  next
    case False
    obtain b fs1 where g: "sfs_bmap_get_sub_nolock ?e (?n - SFS_NDIRECT) True fs = Some (0, ?e, b, fs1)" "b \<in> free_blocks fs"
      "fs_step {?e} fs fs1" "free_blocks fs1 = free_blocks fs - {b}" "content fs1 b = replicate 4096 0"
      "\<forall>j<SFS_BLK_NENTRY. entry fs1 ?e j = (if j = ?n - SFS_NDIRECT then b else entry fs ?e j)"
      using get_sub_fill[OF ok(1) ek z False] by blast
    have "check_ino b fs1 = Some ()"
      using check_ino_ok[OF fs_stepD(1)[OF g(3)]] got_in_use[OF ok(1) g(3,2)] g(4) by simp
    then have "sfs_bmap_get_nolock sin ?n True fs = Some (0, b, sin, fs1)"
      using k ek g(1) by (simp add: sfs_bmap_get_nolock_def Let_def)
    moreover have "grown sin fs b (one_more sin) fs1"
    proof (rule grownI[OF ok(2,1), where M = "{}"])
      show "blkmap (one_more sin) fs1 j = (if j = ?n then b else blkmap sin fs j)" if "j < MAX_BLKS" for j
        using k e that g(6)[rule_format, of "j - SFS_NDIRECT"] by (auto simp: blkmap_def upd_din_def MAX_BLKS_def)
    qed (use g k blocks_u32[OF ok(2)] inode_okD(4)[OF ok(2)] e in
         \<open>auto simp: meta_def upd_din_def same_file_def MAX_BLKS_def\<close>)
    ultimately show ?thesis by blast
  qed
qed

lemma bmap_get_new_indirect:
  assumes ok: "fs_ok fs" "inode_ok sin fs" and k: "SFS_NDIRECT \<le> nblocks sin" "nblocks sin < MAX_BLKS"
    and e: "din_indirect (din sin) = 0"
  shows "(\<exists>fs'. sfs_bmap_get_nolock sin (nblocks sin) True fs = Some (- E_NO_MEM, 0, sin, fs') \<and> no_space fs fs') \<or>
    (\<exists>b sin' fs'. sfs_bmap_get_nolock sin (nblocks sin) True fs = Some (0, b, sin', fs') \<and> grown sin fs b (one_more sin') fs')"
proof -
  let ?n = "nblocks sin"
  have ek: "?n - SFS_NDIRECT < SFS_BLK_NENTRY" using k by (auto simp: MAX_BLKS_def)
  show ?thesis
  proof (cases "card (free_blocks fs) < 2")
    case True
    obtain fs' where "sfs_bmap_get_sub_nolock 0 (?n - SFS_NDIRECT) True fs = Some (- E_NO_MEM, 0, 0, fs')" "fs_step {} fs fs'"
      "free_blocks fs' = free_blocks fs" using get_sub_new_full[OF ok(1) ek True] by blast
    then show ?thesis using k ek True e by (auto simp: sfs_bmap_get_nolock_def Let_def E_NO_MEM_def no_space_def)
  next
    case False
    then have "2 \<le> card (free_blocks fs)" by simp
    from get_sub_new[OF ok(1) ek this] obtain x b fs1 where
      g: "sfs_bmap_get_sub_nolock 0 (?n - SFS_NDIRECT) True fs = Some (0, x, b, fs1)" "x \<in> free_blocks fs" "b \<in> free_blocks fs"
      "x \<noteq> b" "fs_step {} fs fs1" "free_blocks fs1 = free_blocks fs - {x, b}" "content fs1 b = replicate 4096 0"
      "\<forall>j<SFS_BLK_NENTRY. entry fs1 x j = (if j = ?n - SFS_NDIRECT then b else 0)" by blast
    let ?s = "(upd_din (\<lambda>d. d\<lparr>din_indirect := x\<rparr>) sin)\<lparr>sin_dirty := True\<rparr>"
    have x: "x \<noteq> 0" using fs_okD(5)[OF ok(1) g(2)] by simp
    have "check_ino b fs1 = Some ()"
      using check_ino_ok[OF fs_stepD(1)[OF g(5)]] got_in_use[OF ok(1) g(5,3)] g(6) by simp
    then have "sfs_bmap_get_nolock sin ?n True fs = Some (0, b, ?s, fs1)"
      using k ek g(1) e x by (simp add: sfs_bmap_get_nolock_def Let_def kassert_def)
    moreover have "grown sin fs b (one_more ?s) fs1"
    proof (rule grownI[OF ok(2,1), where M = "{x}"])
      show "blkmap (one_more ?s) fs1 j = (if j = ?n then b else blkmap sin fs j)" if "j < MAX_BLKS" for j
        using k e x that g(8)[rule_format, of "j - SFS_NDIRECT"] by (auto simp: blkmap_def upd_din_def MAX_BLKS_def)
    qed (use g k blocks_u32[OF ok(2)] inode_okD(4)[OF ok(2)] e x fs_step_mono[OF g(5)] in
         \<open>auto simp: meta_def upd_din_def same_file_def MAX_BLKS_def\<close>)
    ultimately show ?thesis by blast
  qed
qed

lemma bmap_load_new:
  assumes ok: "fs_ok fs" "inode_ok sin fs" and k: "nblocks sin < MAX_BLKS"
  shows "(\<exists>fs'. sfs_bmap_load_nolock sin (nblocks sin) fs = Some (- E_NO_MEM, 0, sin, fs') \<and> no_space fs fs') \<or>
    (\<exists>b sin' fs'. sfs_bmap_load_nolock sin (nblocks sin) fs = Some (0, b, sin', fs') \<and> grown sin fs b sin' fs')"
proof -
  have "(\<exists>fs'. sfs_bmap_get_nolock sin (nblocks sin) True fs = Some (- E_NO_MEM, 0, sin, fs') \<and> no_space fs fs') \<or>
    (\<exists>b sin' fs'. sfs_bmap_get_nolock sin (nblocks sin) True fs = Some (0, b, sin', fs') \<and> grown sin fs b (one_more sin') fs')"
    using bmap_get_direct[OF ok] bmap_get_indirect[OF ok _ k] bmap_get_new_indirect[OF ok _ k]
    by (meson not_le_imp_less)
  then consider (fail) fs' where "sfs_bmap_get_nolock sin (nblocks sin) True fs = Some (- E_NO_MEM, 0, sin, fs')" "no_space fs fs'"
    | (ok) b sin' fs' where "sfs_bmap_get_nolock sin (nblocks sin) True fs = Some (0, b, sin', fs')" "grown sin fs b (one_more sin') fs'"
    by blast
  then show ?thesis
  proof cases
    case fail
    then show ?thesis by (auto simp: sfs_bmap_load_nolock_def kassert_def E_NO_MEM_def)
  next
    case ok
    then have "fs_ok fs'" "in_use fs' b"
      using inode_okD(1)[of "one_more sin'" fs' "nblocks sin"] by (auto simp: grown_def fs_step_def)
    then have "sfs_block_inuse fs' b = Some True" by (simp add: sfs_block_inuse_ok in_use_def)
    then show ?thesis using ok by (auto simp: sfs_bmap_load_nolock_def kassert_def)
  qed
qed

subsection \<open>Giving back the last block\<close>

definition shrunk :: "sfs_inode \<Rightarrow> 'a sfs_fs_scheme \<Rightarrow> sfs_inode \<Rightarrow> 'a sfs_fs_scheme \<Rightarrow> bool" where
  "shrunk sin fs sin' fs' \<longleftrightarrow> inode_ok sin' fs' \<and> fs_step (owned sin fs) fs fs' \<and> same_file sin sin' \<and>
     nblocks sin' = nblocks sin - 1 \<and> free_blocks fs' = insert (blkmap sin fs (nblocks sin - 1)) (free_blocks fs) \<and>
     owned sin' fs' = owned sin fs - {blkmap sin fs (nblocks sin - 1)} \<and>
     file_data sin' fs' @ content fs (blkmap sin fs (nblocks sin - 1)) = file_data sin fs"

lemma shrunkI:
  assumes ok: "inode_ok sin fs" and n: "nblocks sin = Suc m" and st: "fs_step (meta sin) fs fs'"
    and free: "free_blocks fs' = insert (blkmap sin fs m) (free_blocks fs)"
    and map: "\<And>j. j < MAX_BLKS \<Longrightarrow> blkmap sin' fs' j = (if j = m then 0 else blkmap sin fs j)"
    and sf: "same_file sin sin'" "nblocks sin' = m" "meta sin' = meta sin" "length (din_direct (din sin')) = SFS_NDIRECT"
  shows "shrunk sin fs sin' fs'"
proof -
  let ?b = "blkmap sin fs m"
  have m: "m < nblocks sin" "m < MAX_BLKS" using n inode_okD(5)[OF ok] by auto
  have old: "blkmap sin' fs' j = blkmap sin fs j" "blkmap sin fs j \<noteq> ?b" if "j < m" for j
    using map[of j] that m inode_okD(7)[OF ok, of j m] by auto
  have bm: "?b \<notin> meta sin" using inode_okD(3)[OF ok m(1)] .
  have img: "blkmap sin' fs' ` {0..<m} = blkmap sin fs ` {0..<m}" using old(1) by (intro image_cong) auto
  have nin: "?b \<notin> blkmap sin fs ` {0..<m}" using old(2) by (metis atLeastLessThan_iff imageE)
  have own: "owned sin' fs' = owned sin fs - {?b}"
    using sf(2,3) bm nin n unfolding owned_def img by (simp add: atLeast0_lessThan_Suc img)
  have ok': "inode_ok sin' fs'" unfolding inode_ok_def
  proof (intro conjI)
    show "\<forall>c\<in>owned sin' fs'. in_use fs' c"
      using own ok free fs_stepD(2)[OF st] by (auto simp: inode_ok_def in_use_def)
    show "inj_on (blkmap sin' fs') {0..<nblocks sin'}"
      using old(1) inode_okD(7)[OF ok] sf(2) n by (simp add: inj_on_def)
    show "\<forall>k<nblocks sin'. blkmap sin' fs' k \<notin> meta sin'" using old(1) inode_okD(3)[OF ok] sf(2,3) n by simp
    show "\<forall>k. nblocks sin' \<le> k \<and> k < MAX_BLKS \<longrightarrow> blkmap sin' fs' k = 0"
      using map inode_okD(6)[OF ok] sf(2) n by (metis Suc_leI le_neq_implies_less)
  qed (use m sf in auto)
  have "content fs' (blkmap sin fs j) = content fs (blkmap sin fs j)" if "j < m" for j
    using fs_stepD(3)[OF st inode_okD(1)[OF ok]] inode_okD(3)[OF ok] that n by simp
  then have "file_data sin' fs' = concat (map (\<lambda>k. content fs (blkmap sin fs k)) [0..<m])"
    using old(1) sf(2) by (auto simp: file_data_def intro!: arg_cong[where f = concat])
  then have "file_data sin' fs' @ content fs ?b = file_data sin fs" using n by (simp add: file_data_def)
  moreover have "fs_step (owned sin fs) fs fs'" by (rule fs_step_mono[OF st]) (auto simp: owned_def)
  ultimately show ?thesis using ok' own sf free n by (simp add: shrunk_def)
qed

abbreviation one_less :: "sfs_inode \<Rightarrow> sfs_inode" where
  "one_less sin \<equiv> (upd_din (\<lambda>d. d\<lparr>din_blocks := din_blocks d - 1\<rparr>) sin)\<lparr>sin_dirty := True\<rparr>"

lemma bmap_free_direct:
  assumes ok: "fs_ok fs" "inode_ok sin fs" and n: "nblocks sin = Suc m" "m < SFS_NDIRECT"
  shows "\<exists>sin' fs'. sfs_bmap_free_nolock sin m fs = Some (0, sin', fs') \<and> nblocks sin' = nblocks sin \<and>
    shrunk sin fs (one_less sin') fs'"
proof -
  let ?b = "blkmap sin fs m"
  have u: "in_use fs ?b" using inode_okD(1)[OF ok(2)] n(1) by simp
  have b: "?b = din_direct (din sin) ! m" "?b \<noteq> 0" using n(2) u by (auto simp: blkmap_def in_use_def)
  obtain fs' where f: "sfs_block_free ?b fs = Some fs'" "fs_step {} fs fs'" "free_blocks fs' = insert ?b (free_blocks fs)"
    "dev fs' = dev fs" using sfs_block_free_ok[OF ok(1) u] by blast
  let ?s = "(upd_din (\<lambda>d. d\<lparr>din_direct := (din_direct d)[m := 0]\<rparr>) sin)\<lparr>sin_dirty := True\<rparr>"
  have "sfs_bmap_free_nolock sin m fs = Some (0, ?s, fs')"
    using f(1) b n(2) by (simp add: sfs_bmap_free_nolock_def Let_def)
  moreover have "shrunk sin fs (one_less ?s) fs'"
  proof (rule shrunkI[OF ok(2) n(1)])
    show "blkmap (one_less ?s) fs' j = (if j = m then 0 else blkmap sin fs j)" for j
      using inode_okD(4)[OF ok(2)] n(2) by (auto simp: blkmap_def upd_din_def entry_def f(4))
  qed (use f n inode_okD(4)[OF ok(2)] fs_step_mono[OF f(2)] in \<open>auto simp: upd_din_def same_file_def meta_def\<close>)
  ultimately show ?thesis by (auto simp: upd_din_def)
qed

lemma bmap_free_indirect:
  assumes ok: "fs_ok fs" "inode_ok sin fs" and n: "nblocks sin = Suc m" "SFS_NDIRECT \<le> m"
  shows "\<exists>sin' fs'. sfs_bmap_free_nolock sin m fs = Some (0, sin', fs') \<and> nblocks sin' = nblocks sin \<and>
    shrunk sin fs (one_less sin') fs'"
proof -
  let ?b = "blkmap sin fs m" and ?e = "din_indirect (din sin)" and ?k = "m - SFS_NDIRECT"
  have u: "in_use fs ?b" using inode_okD(1)[OF ok(2)] n(1) by simp
  have e: "?e \<noteq> 0" "?b = entry fs ?e ?k" using n(2) u by (auto simp: blkmap_def in_use_def split: if_splits)
  have ek: "in_use fs ?e" "?k < SFS_BLK_NENTRY"
    using e n inode_okD(2,5)[OF ok(2)] by (auto simp: meta_def MAX_BLKS_def)
  obtain fs1 where l: "load_u32 ?e (?k * 4) fs = Some (0, ?b, fs1)" "io_frame fs fs1" "same_blocks fs fs1"
    using load_u32_ok[OF ok(1) ek] e(2) by auto
  have s1: "fs_step {} fs fs1" "freemap fs1 = freemap fs" using io_frame_step[OF ok(1) l(2,3)] by auto
  have e1: "in_use fs1 ?e" by (rule in_use_step[OF s1(1) ek(1)]) (simp add: s1(2))
  obtain fs2 where w: "store_u32 0 ?e (?k * 4) fs1 = Some (0, fs2)" "fs_step {?e} fs1 fs2" "freemap fs2 = freemap fs1"
    "\<forall>j<SFS_BLK_NENTRY. entry fs2 ?e j = (if j = ?k then 0 else entry fs1 ?e j)"
    using store_u32_ok[OF fs_stepD(1)[OF s1(1)] e1 ek(2), of 0] by auto
  have s2: "fs_step {?e} fs fs2" using fs_step_trans[OF fs_step_mono[OF s1(1)] w(2)] s1(2) by simp
  have b2: "in_use fs2 ?b" by (rule in_use_step[OF s2 u]) (simp add: w(3) s1(2))
  obtain fs3 where f: "sfs_block_free ?b fs2 = Some fs3" "fs_step {} fs2 fs3" "free_blocks fs3 = insert ?b (free_blocks fs2)"
    "dev fs3 = dev fs2" using sfs_block_free_ok[OF fs_stepD(1)[OF s2] b2] by blast
  have "?b \<noteq> 0" "?e \<noteq> 0" using u ek by (auto simp: in_use_def)
  moreover have "sfs_block_inuse fs ?e = Some True" using sfs_block_inuse_ok[OF ok(1)] ek(1) by (simp add: in_use_def)
  ultimately have "sfs_bmap_free_nolock sin m fs = Some (0, sin, fs3)"
    using l(1) w(1) f(1) ek n(2) by (simp add: sfs_bmap_free_nolock_def sfs_bmap_free_sub_nolock_def kassert_def Let_def)
  moreover have "shrunk sin fs (one_less sin) fs3"
  proof (rule shrunkI[OF ok(2) n(1)])
    have "entry fs3 ?e j = (if j = ?k then 0 else entry fs ?e j)" if "j < SFS_BLK_NENTRY" for j
      using w(4) that same_entries[OF s1(1) ek(1)] f(4) by (simp add: entry_def)
    then show "blkmap (one_less sin) fs3 j = (if j = m then 0 else blkmap sin fs j)" if "j < MAX_BLKS" for j
      using that n(2) by (auto simp: blkmap_def upd_din_def MAX_BLKS_def)
    show "fs_step (meta sin) fs fs3" using fs_step_trans[OF s2 f(2)] w(3) s1(2) e by (simp add: meta_def)
  qed (use f w s1 n inode_okD(4)[OF ok(2)] in \<open>auto simp: upd_din_def same_file_def meta_def\<close>)
  ultimately show ?thesis by blast
qed

lemma bmap_truncate_ok:
  assumes ok: "fs_ok fs" "inode_ok sin fs" and n: "nblocks sin \<noteq> 0"
  shows "\<exists>sin' fs'. sfs_bmap_truncate_nolock sin fs = Some (0, sin', fs') \<and> shrunk sin fs sin' fs'"
proof -
  obtain m where m: "nblocks sin = Suc m" using n by (cases "nblocks sin") auto
  obtain sin' fs' where "sfs_bmap_free_nolock sin m fs = Some (0, sin', fs')" "shrunk sin fs (one_less sin') fs'"
    using bmap_free_direct[OF ok m] bmap_free_indirect[OF ok m] by (meson not_le_imp_less)
  then show ?thesis using m by (auto simp: sfs_bmap_truncate_nolock_def kassert_def)
qed

subsection \<open>Properties\<close>

lemma other_after_step:
  assumes st: "fs_step (owned sin fs) fs fs'" and ok: "inode_ok oth fs" and d: "owned oth fs \<inter> owned sin fs = {}"
    and fr: "free_blocks fs' \<subseteq> free_blocks fs \<union> owned sin fs" and ow: "owned sin' fs' \<subseteq> owned sin fs \<union> free_blocks fs"
  shows "inode_ok oth fs' \<and> file_data oth fs' = file_data oth fs \<and> owned oth fs' \<inter> owned sin' fs' = {}"
proof -
  have "owned oth fs \<inter> free_blocks fs = {}" using ok by (auto simp: inode_ok_def in_use_def)
  then have "free_blocks fs' \<inter> owned oth fs = {}" "owned oth fs \<inter> owned sin' fs' = {}" using fr ow d by auto
  then show ?thesis using other_inode[OF st ok d] by auto
qed

text \<open>A file system of eight blocks with blocks 4 to 7 free, and a file of one block, block 3.\<close>

definition demo_fs :: sfs_fs where
  "demo_fs = \<lparr>super = \<lparr>magic = SFS_MAGIC, blocks = 8, unused_blocks = 4, info = replicate 32 0\<rparr>,
     dev = disk0_device_init (replicate 32768 7), freemap = \<lparr>nbits = 32, nwords = 1, bmap = [240]\<rparr>,
     super_dirty = False, sfs_buffer = replicate 4096 0, fs_sem = 1, io_sem = 1, mutex_sem = 1\<rparr>"

definition demo_sin :: sfs_inode where
  "demo_sin = \<lparr>din = \<lparr>din_size = 4096, din_type = SFS_TYPE_FILE, din_nlinks = 1, din_blocks = 1,
     din_direct = 3 # replicate 11 0, din_indirect = 0\<rparr>, sin_ino = 2, sin_dirty = False, reclaim_count = 1, sin_sem = 1\<rparr>"

lemma demo_free: "free_blocks demo_fs = {4, 5, 6, 7}"
proof -
  have "free_blocks demo_fs = set (filter (\<lambda>i. bit (240 :: 32 word) i) [0..<32])"
    by (auto simp: bm_free_def demo_fs_def WORD_BITS_def)
  also have "\<dots> = {4, 5, 6, 7}" by code_simp
  finally show ?thesis .
qed

lemma demo_fs_ok: "fs_ok demo_fs"
proof -
  have "disk_ok (disk0_device_init (replicate 32768 7))" by (rule disk0_device_init_ok) (simp_all add: disk_consts)
  moreover have "d_blocks (disk0_device_init (replicate 32768 7)) = 8" by (simp add: disk0_device_init_def disk_consts)
  ultimately have "io_ok demo_fs" by (simp add: io_ok_def demo_fs_def sfs_consts)
  moreover have "bm_ok (freemap demo_fs)" using demo_free by (simp add: bm_ok_def WORD_BITS_def) (simp add: demo_fs_def)
  ultimately show ?thesis using demo_free by (simp add: fs_ok_def) (simp add: demo_fs_def)
qed

lemma demo_map: "k < MAX_BLKS \<Longrightarrow> blkmap demo_sin fs k = (if k = 0 then 3 else 0)"
  by (simp add: blkmap_def demo_sin_def sfs_consts nth_Cons')

lemma demo_sin_ok: "inode_ok demo_sin demo_fs"
proof -
  have b: "nblocks demo_sin = 1" "meta demo_sin = {}" by (simp_all add: demo_sin_def meta_def)
  have l: "length (din_direct (din demo_sin)) = 12" by (simp add: demo_sin_def)
  have "owned demo_sin demo_fs = {3}" using demo_map[of 0 demo_fs] by (simp add: owned_def b MAX_BLKS_def sfs_consts)
  moreover have "in_use demo_fs 3" using demo_free by (simp add: in_use_def) (simp add: demo_fs_def)
  ultimately show ?thesis using demo_map[where fs = demo_fs] l by (auto simp: inode_ok_def b MAX_BLKS_def sfs_consts)
qed

text \<open>
  Loading block k of a file, at most one past its last block, never fails an assertion.
  An existing block is found; one past the end a zeroed block (and the indirect block where
  needed) is allocated and the file grows by it. The only failure is -E_NO_MEM, when fewer than
  two blocks are free, and it leaves file and free blocks as they were. The invariants are kept
  and every other file keeps its data and shares no block with this one.
\<close>

lemma sfs_bmap_load_correct:
  assumes "fs_ok fs" and "inode_ok sin fs" and "k \<le> nblocks sin" and "k < MAX_BLKS"
  shows "\<exists>ret b sin' fs'. sfs_bmap_load_nolock sin k fs = Some (ret, b, sin', fs') \<and> fs_ok fs' \<and> inode_ok sin' fs' \<and>
    (if ret = 0 then b = blkmap sin' fs' k \<and> in_use fs' b \<and>
       file_data sin' fs' = file_data sin fs @ (if k = nblocks sin then replicate 4096 0 else [])
     else ret = - E_NO_MEM \<and> k = nblocks sin \<and> card (free_blocks fs) < 2 \<and> sin' = sin \<and>
       free_blocks fs' = free_blocks fs \<and> file_data sin' fs' = file_data sin fs) \<and>
    (\<forall>oth. inode_ok oth fs \<and> owned oth fs \<inter> owned sin fs = {} \<longrightarrow>
       inode_ok oth fs' \<and> file_data oth fs' = file_data oth fs \<and> owned oth fs' \<inter> owned sin' fs' = {})"
proof (cases "k < nblocks sin")
  case True
  obtain fs' where l: "sfs_bmap_load_nolock sin k fs = Some (0, blkmap sin fs k, sin, fs')" "io_frame fs fs'" "same_blocks fs fs'"
    using bmap_load_old[OF assms(1,2) True] by blast
  have st: "fs_step {} fs fs'" "freemap fs' = freemap fs" using io_frame_step[OF assms(1) l(2,3)] by auto
  have all: "inode_ok oth fs' \<and> owned oth fs' = owned oth fs \<and> file_data oth fs' = file_data oth fs" if "inode_ok oth fs" for oth
    using other_inode[OF st(1) that] that st(2) by (auto simp: inode_ok_def in_use_def)
  have "blkmap sin fs' k = blkmap sin fs k"
    using same_entries[OF st(1), of "din_indirect (din sin)"] inode_okD(2)[OF assms(2)] by (auto simp: blkmap_def meta_def)
  moreover have "in_use fs' (blkmap sin fs k)" using in_use_step[OF st(1) inode_okD(1)[OF assms(2) True]] st(2) by simp
  ultimately show ?thesis using l(1) all assms(2) True fs_stepD(1)[OF st(1)]
    by - (rule exI[of _ 0], rule exI[of _ "blkmap sin fs k"], rule exI[of _ sin], rule exI[of _ fs'], simp)
next
  case False
  then have k: "k = nblocks sin" using assms(3) by simp
  consider (fail) fs' where "sfs_bmap_load_nolock sin k fs = Some (- E_NO_MEM, 0, sin, fs')" "no_space fs fs'"
    | (ok) b sin' fs' where "sfs_bmap_load_nolock sin k fs = Some (0, b, sin', fs')" "grown sin fs b sin' fs'"
    using bmap_load_new[OF assms(1,2)] assms(4) unfolding k by blast
  then show ?thesis
  proof cases
    case fail
    have st: "fs_step {} fs fs'" "free_blocks fs' = free_blocks fs" "card (free_blocks fs) < 2" using fail(2) by (auto simp: no_space_def)
    have all: "inode_ok oth fs' \<and> owned oth fs' = owned oth fs \<and> file_data oth fs' = file_data oth fs" if "inode_ok oth fs" for oth
      using other_inode[OF st(1) that] that st(2) by (auto simp: inode_ok_def in_use_def)
    then show ?thesis using fail(1) assms(2) k st fs_stepD(1)[OF st(1)]
      by - (rule exI[of _ "- E_NO_MEM"], rule exI[of _ 0], rule exI[of _ sin], rule exI[of _ fs'], simp add: E_NO_MEM_def)
  next
    case ok
    have g: "inode_ok sin' fs'" "fs_step (owned sin fs) fs fs'" "nblocks sin' = nblocks sin + 1" "blkmap sin' fs' k = b"
      "free_blocks fs' \<subseteq> free_blocks fs" "owned sin' fs' = owned sin fs \<union> (free_blocks fs - free_blocks fs')"
      "file_data sin' fs' = file_data sin fs @ replicate 4096 0" using ok(2) k by (auto simp: grown_def)
    have "inode_ok oth fs' \<and> file_data oth fs' = file_data oth fs \<and> owned oth fs' \<inter> owned sin' fs' = {}"
      if "inode_ok oth fs" "owned oth fs \<inter> owned sin fs = {}" for oth
      using other_after_step[OF g(2) that] g(5,6) by blast
    moreover have "in_use fs' b" using inode_okD(1)[OF g(1), of k] g(3,4) k by simp
    ultimately show ?thesis using ok(1) g(1,4,7) k fs_stepD(1)[OF g(2)]
      by - (rule exI[of _ 0], rule exI[of _ b], rule exI[of _ sin'], rule exI[of _ fs'], simp)
  qed
qed

text \<open>
  Truncating a non-empty file by one block never fails: the last block becomes free, the
  other blocks of the file keep their place and content, the invariants are kept and every
  other file keeps its data.
\<close>

lemma sfs_bmap_truncate_correct:
  assumes "fs_ok fs" and "inode_ok sin fs" and "nblocks sin \<noteq> 0"
  shows "\<exists>sin' fs'. sfs_bmap_truncate_nolock sin fs = Some (0, sin', fs') \<and> fs_ok fs' \<and> inode_ok sin' fs' \<and>
    nblocks sin' = nblocks sin - 1 \<and> free_blocks fs' = insert (blkmap sin fs (nblocks sin - 1)) (free_blocks fs) \<and>
    file_data sin' fs' @ content fs (blkmap sin fs (nblocks sin - 1)) = file_data sin fs \<and>
    (\<forall>oth. inode_ok oth fs \<and> owned oth fs \<inter> owned sin fs = {} \<longrightarrow>
       inode_ok oth fs' \<and> file_data oth fs' = file_data oth fs \<and> owned oth fs' \<inter> owned sin' fs' = {})"
proof -
  obtain sin' fs' where t: "sfs_bmap_truncate_nolock sin fs = Some (0, sin', fs')" "shrunk sin fs sin' fs'"
    using bmap_truncate_ok[OF assms] by blast
  have s: "inode_ok sin' fs'" "fs_step (owned sin fs) fs fs'" "nblocks sin' = nblocks sin - 1"
    "free_blocks fs' = insert (blkmap sin fs (nblocks sin - 1)) (free_blocks fs)"
    "owned sin' fs' = owned sin fs - {blkmap sin fs (nblocks sin - 1)}"
    "file_data sin' fs' @ content fs (blkmap sin fs (nblocks sin - 1)) = file_data sin fs" using t(2) by (auto simp: shrunk_def)
  have "blkmap sin fs (nblocks sin - 1) \<in> owned sin fs" using assms(3) by (auto simp: owned_def)
  then have sub: "free_blocks fs' \<subseteq> free_blocks fs \<union> owned sin fs" "owned sin' fs' \<subseteq> owned sin fs \<union> free_blocks fs"
    using s(4,5) by auto
  have "inode_ok oth fs' \<and> file_data oth fs' = file_data oth fs \<and> owned oth fs' \<inter> owned sin' fs' = {}"
    if "inode_ok oth fs" "owned oth fs \<inter> owned sin fs = {}" for oth
    using other_after_step[OF s(2) that sub] .
  then show ?thesis using t(1) s fs_stepD(1)[OF s(2)] by blast
qed

end
