(* ===== verification/SfsFile.thy ===== *)
theory SfsFile
  imports SfsMap
begin

text \<open>
  Reading and writing files (\<open>sfs_io_nolock\<close>). A file is the byte string of its blocks; a read
  returns a piece of it and a write replaces one, growing the file where needed.
\<close>

subsection \<open>The byte string of a file\<close>

lemma length_blocks: "\<forall>k<n. length (f k) = 4096 \<Longrightarrow> length (concat (map f [0..<n])) = n * 4096"
  by (induction n) auto

lemma nth_blocks:
  "\<forall>k<n. length (f k) = 4096 \<Longrightarrow> i < n * 4096 \<Longrightarrow> concat (map f [0..<n]) ! i = f (i div 4096) ! (i mod 4096)"
proof (induction n)
  case (Suc n)
  have len: "length (concat (map f [0..<n])) = n * 4096" using Suc.prems by (intro length_blocks) auto
  show ?case
  proof (cases "i < n * 4096")
    case False
    then obtain r where r: "i = n * 4096 + r" "r < 4096" using Suc.prems(2) by (metis add_diff_inverse_nat mult_Suc less_diff_conv2 linorder_not_less add.commute)
    then show ?thesis using len by (simp add: nth_append)
  qed (use Suc len in \<open>simp add: nth_append\<close>)
qed simp

lemma length_file_block:
  "fs_ok fs \<Longrightarrow> inode_ok sin fs \<Longrightarrow> k < nblocks sin \<Longrightarrow> length (content fs (blkmap sin fs k)) = 4096"
  using inode_okD(1)[of sin fs k] by (simp add: in_use_def fs_okD)

lemma length_file: "fs_ok fs \<Longrightarrow> inode_ok sin fs \<Longrightarrow> length (file_data sin fs) = nblocks sin * 4096"
  unfolding file_data_def by (rule length_blocks) (simp add: length_file_block)

lemma nth_file:
  "fs_ok fs \<Longrightarrow> inode_ok sin fs \<Longrightarrow> i < nblocks sin * 4096 \<Longrightarrow>
   file_data sin fs ! i = content fs (blkmap sin fs (i div 4096)) ! (i mod 4096)"
  unfolding file_data_def by (rule nth_blocks) (simp_all add: length_file_block)

lemma blk_index: "r < 4096 \<Longrightarrow> (k * 4096 + r) div 4096 = k" "r < 4096 \<Longrightarrow> (k * 4096 + r) mod 4096 = r" for r :: nat
  by simp_all

lemma get_file:
  assumes "fs_ok fs" "inode_ok sin fs" "k < nblocks sin" "off + n \<le> 4096"
  shows "get_bytes (k * 4096 + off) n (file_data sin fs) = get_bytes off n (content fs (blkmap sin fs k))"
proof -
  have "Suc k * 4096 \<le> nblocks sin * 4096" using assms(3) by (intro mult_right_mono) auto
  then have b: "k * 4096 + off + n \<le> nblocks sin * 4096" using assms(4) by simp
  show ?thesis
  proof (rule nth_equalityI)
    fix i assume "i < length (get_bytes (k * 4096 + off) n (file_data sin fs))"
    then have "i < n" using b by (simp add: length_file[OF assms(1,2)])
    moreover have "(k * 4096 + off + i) div 4096 = k" "(k * 4096 + off + i) mod 4096 = off + i"
      using blk_index[of "off + i" k] assms(4) \<open>i < n\<close> by (simp_all add: add.assoc)
    ultimately show "get_bytes (k * 4096 + off) n (file_data sin fs) ! i = get_bytes off n (content fs (blkmap sin fs k)) ! i"
      using assms b by (simp add: nth_get length_file length_file_block nth_file)
  qed (use b assms in \<open>simp add: length_file length_file_block\<close>)
qed

lemma same_blocks_file:
  assumes "fs_ok fs" "io_frame fs fs'" "same_blocks fs fs'" "inode_ok sin fs"
  shows "fs_ok fs'" "inode_ok sin fs'" "file_data sin fs' = file_data sin fs" "owned sin fs' = owned sin fs"
proof -
  have st: "fs_step {} fs fs'" "freemap fs' = freemap fs" using io_frame_step[OF assms(1-3)] by auto
  show "fs_ok fs'" using fs_stepD(1)[OF st(1)] .
  have "inode_ok sin fs' \<and> owned sin fs' = owned sin fs \<and> file_data sin fs' = file_data sin fs"
    using other_inode[OF st(1) assms(4)] assms(4) st(2) by (auto simp: inode_ok_def in_use_def)
  then show "inode_ok sin fs'" "file_data sin fs' = file_data sin fs" "owned sin fs' = owned sin fs" by auto
qed

lemma same_blocks_trans: "same_blocks a b \<Longrightarrow> io_frame a b \<Longrightarrow> same_blocks b c \<Longrightarrow> same_blocks a c"
  by (simp add: same_blocks_def io_frame_def)

subsection \<open>One whole block\<close>

lemma sfs_rblock_ok:
  assumes ok: "fs_ok fs" and b: "in_use fs b" and mem: "base + 4096 \<le> length mem"
  shows "\<exists>fs'. sfs_rblock mem base b 1 fs = Some (0, put_bytes base (content fs b) mem, fs') \<and> io_frame fs fs' \<and> same_blocks fs fs'"
proof -
  let ?fs1 = "fs\<lparr>io_sem := 0\<rparr>"
  have "io_ok ?fs1" using ok by (auto simp: fs_ok_def io_ok_def)
  then obtain fs2 where r: "sfs_rwblock_nolock mem base b False True ?fs1 = Some (0, put_bytes base (content fs b) mem, fs2)"
    "io_frame ?fs1 fs2" "same_blocks ?fs1 fs2"
    using rwblock_read[of ?fs1 b True base mem] b mem by (auto simp: in_use_def sfs_consts)
  have "sfs_rblock mem base b 1 fs = Some (0, put_bytes base (content fs b) mem, unlock_sfs_io fs2)"
    using r(1) ok by (simp add: sfs_rblock_def sfs_rwblock_def lock_sfs_io_def fs_ok_def)
  moreover have "io_frame fs (unlock_sfs_io fs2)" using r(2) ok by (auto simp: io_frame_def unlock_sfs_io_def io_ok_def fs_ok_def)
  moreover have "same_blocks fs (unlock_sfs_io fs2)" using r(3) by (simp add: same_blocks_def unlock_sfs_io_def)
  ultimately show ?thesis by blast
qed

lemma sfs_wblock_ok:
  assumes ok: "fs_ok fs" and b: "in_use fs b" and mem: "base + 4096 \<le> length mem"
  shows "\<exists>fs'. sfs_wblock mem base b 1 fs = Some (0, mem, fs') \<and> io_frame fs fs' \<and> upd_block b (get_bytes base 4096 mem) fs fs'"
proof -
  let ?fs1 = "fs\<lparr>io_sem := 0\<rparr>"
  have "io_ok ?fs1" using ok by (auto simp: fs_ok_def io_ok_def)
  then obtain fs2 where r: "sfs_rwblock_nolock mem base b True True ?fs1 = Some (0, mem, fs2)"
    "io_frame ?fs1 fs2" "upd_block b (get_bytes base 4096 mem) ?fs1 fs2"
    using rwblock_write[of ?fs1 b True base mem] b mem by (auto simp: in_use_def sfs_consts)
  have "sfs_wblock mem base b 1 fs = Some (0, mem, unlock_sfs_io fs2)"
    using r(1) ok by (simp add: sfs_wblock_def sfs_rwblock_def lock_sfs_io_def fs_ok_def)
  moreover have "io_frame fs (unlock_sfs_io fs2)" using r(2) ok by (auto simp: io_frame_def unlock_sfs_io_def io_ok_def fs_ok_def)
  moreover have "upd_block b (get_bytes base 4096 mem) fs (unlock_sfs_io fs2)" using r(3) by (simp add: upd_block_def unlock_sfs_io_def)
  ultimately show ?thesis by blast
qed


subsection \<open>Reading\<close>

lemma read_part:
  assumes ok: "fs_ok fs" "inode_ok sin fs" and k: "i_blkno st < nblocks sin" and sz: "blkoff < 4096" "blkoff + n \<le> 4096"
  shows "\<exists>fs'. io_part False n blkoff st sin fs =
      Some (0, st\<lparr>i_mem := put_bytes (i_base st) (get_bytes (i_blkno st * 4096 + blkoff) n (file_data sin fs)) (i_mem st)\<rparr>, sin, fs') \<and>
    io_frame fs fs' \<and> same_blocks fs fs'"
proof -
  let ?b = "blkmap sin fs (i_blkno st)"
  obtain fs1 where l: "sfs_bmap_load_nolock sin (i_blkno st) fs = Some (0, ?b, sin, fs1)" "io_frame fs fs1" "same_blocks fs fs1"
    using bmap_load_old[OF ok k] by blast
  have b: "0 < ?b" "?b < blocks (super fs)" using inode_okD(1)[OF ok(2) k] by (auto simp: in_use_def)
  have c: "content fs1 ?b = content fs ?b" using l(3) b by (simp add: same_blocks_def)
  note ok1 = same_blocks_file[OF ok(1) l(2,3) ok(2)]
  have "?b < blocks (super fs1)" using b io_frame_simps[OF l(2)] by simp
  then obtain fs2 where r: "sfs_rbuf (i_mem st) (i_base st) n ?b (int blkoff) fs1 =
      Some (0, put_bytes (i_base st) (get_bytes blkoff n (content fs1 ?b)) (i_mem st), fs2)" "io_frame fs1 fs2" "same_blocks fs1 fs2"
    using sfs_rbuf_ok[of fs1 ?b blkoff n] ok1(1) b sz by (auto simp: fs_okD)
  have "io_part False n blkoff st sin fs =
      Some (0, st\<lparr>i_mem := put_bytes (i_base st) (get_bytes (i_blkno st * 4096 + blkoff) n (file_data sin fs)) (i_mem st)\<rparr>, sin, fs2)"
    using l(1) r(1) get_file[OF ok k sz(2)] c by (simp add: io_part_def sfs_buf_op_def)
  then show ?thesis using io_frame_trans[OF l(2) r(2)] same_blocks_trans[OF l(3,2) r(3)] by blast
qed

abbreviation skip_blocks :: "nat \<Rightarrow> io_state \<Rightarrow> io_state" where
  "skip_blocks n st \<equiv> st\<lparr>i_base := i_base st + n * 4096, i_alen := i_alen st + n * 4096,
     i_blkno := i_blkno st + n, i_off := i_off st + n * 4096\<rparr>"

lemma put_two:
  "base + length xs + length ys \<le> length buf \<Longrightarrow>
   put_bytes (base + length xs) ys (put_bytes base xs buf) = put_bytes base (xs @ ys) buf"
  by (intro nth_equalityI) (auto simp: nth_put nth_append)

lemma read_blocks:
  assumes "fs_ok fs" "inode_ok sin fs" "i_blkno st + n \<le> nblocks sin" "i_base st + n * 4096 \<le> length (i_mem st)"
  shows "\<exists>fs'. io_blocks False n st sin fs = Some (0, skip_blocks n (st\<lparr>i_mem :=
        put_bytes (i_base st) (get_bytes (i_blkno st * 4096) (n * 4096) (file_data sin fs)) (i_mem st)\<rparr>), sin, fs') \<and>
    io_frame fs fs' \<and> same_blocks fs fs'"
  using assms
proof (induction n arbitrary: st fs)
  case 0
  then have "io_frame fs fs" "same_blocks fs fs" by (auto simp: io_frame_def same_blocks_def fs_ok_def)
  then show ?case by (simp add: put_bytes_def get_bytes_def)
next
  case (Suc n)
  let ?k = "i_blkno st" and ?d = "file_data sin fs"
  let ?b = "blkmap sin fs ?k"
  have k: "?k < nblocks sin" using Suc.prems by simp
  obtain fs1 where l: "sfs_bmap_load_nolock sin ?k fs = Some (0, ?b, sin, fs1)" "io_frame fs fs1" "same_blocks fs fs1"
    using bmap_load_old[OF Suc.prems(1,2) k] by blast
  note ok1 = same_blocks_file[OF Suc.prems(1) l(2,3) Suc.prems(2)]
  have u: "in_use fs ?b" "in_use fs1 ?b"
    using inode_okD(1)[OF Suc.prems(2) k] io_frame_simps[OF l(2)] by (auto simp: in_use_def)
  have "content fs1 ?b = content fs ?b" using l(3) u by (simp add: same_blocks_def in_use_def)
  also have "\<dots> = get_bytes (?k * 4096) 4096 ?d"
    using get_file[OF Suc.prems(1,2) k, of 0 4096] length_file_block[OF Suc.prems(1,2) k] by simp
  finally have c: "content fs1 ?b = get_bytes (?k * 4096) 4096 ?d" .
  let ?mem = "put_bytes (i_base st) (get_bytes (?k * 4096) 4096 ?d) (i_mem st)"
  have "i_base st + 4096 \<le> length (i_mem st)" using Suc.prems by simp
  then obtain fs2 where r: "sfs_rblock (i_mem st) (i_base st) ?b 1 fs1 = Some (0, ?mem, fs2)" "io_frame fs1 fs2" "same_blocks fs1 fs2"
    using sfs_rblock_ok[OF ok1(1) u(2), of "i_base st" "i_mem st"] unfolding c by blast
  note ok2 = same_blocks_file[OF ok1(1) r(2,3) ok1(2)]
  let ?st = "skip_blocks 1 (st\<lparr>i_mem := ?mem\<rparr>)"
  have u32: "u32 (?k + 1) = ?k + 1" using Suc.prems inode_okD(5)[OF Suc.prems(2)] by (intro u32_id) (auto simp: MAX_BLKS_def sfs_consts)
  have dl: "length ?d = nblocks sin * 4096" using length_file Suc.prems by blast
  have kd: "(?k + 1) * 4096 + n * 4096 \<le> length ?d"
    using Suc.prems(3) mult_right_mono[of "?k + Suc n" "nblocks sin" 4096] by (simp add: dl algebra_simps)
  have lens: "length (get_bytes (?k * 4096) 4096 ?d) = 4096" using kd by simp
  have lm: "length ?mem = length (i_mem st)" using lens Suc.prems(4) by simp
  have step: "io_blocks False (Suc n) st sin fs = io_blocks False n ?st sin fs2"
    using l(1) r(1) u32 by (simp add: sfs_block_op_def sfs_consts)
  obtain fs3 where i: "io_blocks False n ?st sin fs2 = Some (0, skip_blocks n (?st\<lparr>i_mem :=
        put_bytes (i_base ?st) (get_bytes (i_blkno ?st * 4096) (n * 4096) (file_data sin fs2)) (i_mem ?st)\<rparr>), sin, fs3)"
    "io_frame fs2 fs3" "same_blocks fs2 fs3"
    using Suc.IH[OF ok2(1,2), of ?st] Suc.prems(3,4) lm by auto
  have "put_bytes (i_base st + 4096) (get_bytes ((?k + 1) * 4096) (n * 4096) ?d) ?mem =
      put_bytes (i_base st) (get_bytes (?k * 4096) (Suc n * 4096) ?d) (i_mem st)"
    using put_two[of "i_base st" "get_bytes (?k * 4096) 4096 ?d" "get_bytes ((?k + 1) * 4096) (n * 4096) ?d" "i_mem st"]
      lens kd Suc.prems(4) get_append[of "?k * 4096" 4096 "n * 4096" ?d] by (simp add: add.commute)
  then have "skip_blocks n (?st\<lparr>i_mem :=
        put_bytes (i_base ?st) (get_bytes (i_blkno ?st * 4096) (n * 4096) (file_data sin fs2)) (i_mem ?st)\<rparr>) =
      skip_blocks (Suc n) (st\<lparr>i_mem := put_bytes (i_base st) (get_bytes (?k * 4096) (Suc n * 4096) ?d) (i_mem st)\<rparr>)"
    by (simp add: ok1(3) ok2(3))
  then show ?case using step i io_frame_trans[OF io_frame_trans[OF l(2) r(2)] i(2)]
      same_blocks_trans[OF same_blocks_trans[OF l(3,2) r(3)] io_frame_trans[OF l(2) r(2)] i(3)] by auto
qed


lemma file_room: "inode_ok sin fs \<Longrightarrow> endpos \<le> nblocks sin * 4096 \<Longrightarrow> endpos mod 4096 \<noteq> 0 \<Longrightarrow> endpos div 4096 < nblocks sin"
  by (metis div_le_mono less_mult_imp_div_less mod_eq_0_iff_dvd dvd_triv_right le_neq_implies_less)

lemma read_aligned:
  assumes ok: "fs_ok fs" "inode_ok sin fs" and off: "i_off st = i_blkno st * 4096" "i_off st \<le> endpos"
    and e: "endpos \<le> nblocks sin * 4096" "i_base st + (endpos - i_off st) \<le> length (i_mem st)"
  shows "\<exists>st' fs'. io_steps False endpos (endpos div 4096 - i_blkno st) st sin fs = Some (0, st', sin, fs') \<and>
    i_mem st' = put_bytes (i_base st) (get_bytes (i_off st) (endpos - i_off st) (file_data sin fs)) (i_mem st) \<and>
    i_alen st' = i_alen st + (endpos - i_off st) \<and> i_off st' = endpos div 4096 * 4096 \<and> io_frame fs fs' \<and> same_blocks fs fs'"
proof -
  let ?k = "i_blkno st" and ?d = "file_data sin fs"
  obtain q r where q: "endpos = q * 4096 + r" "r < 4096" "q = endpos div 4096" "r = endpos mod 4096"
    by (metis div_mult_mod_eq mod_less_divisor zero_less_numeral)
  have kq: "?k \<le> q" using off q(1,2) by linarith
  let ?n = "q - ?k"
  have qn: "q \<le> nblocks sin" using e(1) q(1) by simp
  have n4: "?n * 4096 = q * 4096 - ?k * 4096" by (simp add: diff_mult_distrib)
  then have room: "?k + ?n \<le> nblocks sin" "i_base st + ?n * 4096 \<le> length (i_mem st)"
    using kq qn e(2) q(1) off(1) by linarith+
  obtain fs1 where b: "io_blocks False ?n st sin fs = Some (0, skip_blocks ?n (st\<lparr>i_mem :=
        put_bytes (i_base st) (get_bytes (?k * 4096) (?n * 4096) ?d) (i_mem st)\<rparr>), sin, fs1)" "io_frame fs fs1" "same_blocks fs fs1"
    using read_blocks[OF ok, of st ?n] room by auto
  note ok1 = same_blocks_file[OF ok(1) b(2,3) ok(2)]
  let ?st = "skip_blocks ?n (st\<lparr>i_mem := put_bytes (i_base st) (get_bytes (?k * 4096) (?n * 4096) ?d) (i_mem st)\<rparr>)"
  have pos: "i_off ?st = q * 4096" "i_blkno ?st = q" using kq off(1) by (simp_all add: diff_mult_distrib)
  have al: "i_off st mod 4096 = 0" "endpos div 4096 - ?k = ?n" using off(1) q(3) by simp_all
  have len: "length ?d = nblocks sin * 4096" using length_file ok by blast
  show ?thesis
  proof (cases "r = 0")
    case True
    have "io_steps False endpos ?n st sin fs = Some (0, ?st, sin, fs1)"
      using b(1) al(1) pos True q(1) by (simp add: io_steps_def Let_def sfs_consts)
    moreover have "?n * 4096 = endpos - i_off st" using True q(1) off(1) n4 by linarith
    moreover have "endpos div 4096 * 4096 = q * 4096" by (simp only: q(3))
    ultimately show ?thesis using b(2,3) pos(1) unfolding al(2)
      by - (rule exI[of _ ?st], rule exI[of _ fs1], simp add: off(1))
  next
    case False
    have qlt: "q < nblocks sin" using file_room[OF ok(2) e(1)] False unfolding q(3)[symmetric] q(4)[symmetric] by simp
    obtain fs2 where p: "io_part False r 0 ?st sin fs1 =
        Some (0, ?st\<lparr>i_mem := put_bytes (i_base ?st) (get_bytes (i_blkno ?st * 4096 + 0) r (file_data sin fs1)) (i_mem ?st)\<rparr>, sin, fs2)"
      "io_frame fs1 fs2" "same_blocks fs1 fs2" using read_part[OF ok1(1,2), of ?st 0 r] qlt pos(2) q(2) by auto
    have sz: "endpos - i_off ?st = r" "i_off ?st < endpos" using pos q(1) False by simp_all
    let ?st2 = "?st\<lparr>i_mem := put_bytes (i_base ?st) (get_bytes (q * 4096) r ?d) (i_mem ?st)\<rparr>"
    have p': "io_part False r 0 ?st sin fs1 = Some (0, ?st2, sin, fs2)" using p(1) unfolding pos(2) ok1(3) add_0_right .
    have "io_steps False endpos ?n st sin fs = Some (0, ?st2\<lparr>i_alen := i_alen ?st2 + r\<rparr>, sin, fs2)"
      using b(1) al(1) p' sz unfolding io_steps_def by (simp add: Let_def sfs_consts)
    moreover have "i_mem ?st2 = put_bytes (i_base st) (get_bytes (i_off st) (endpos - i_off st) ?d) (i_mem st)"
    proof -
      have eq: "endpos - ?k * 4096 = ?n * 4096 + r" "?k * 4096 + ?n * 4096 = q * 4096"
        using q(1) off(1) kq by (simp_all add: diff_mult_distrib)
      have l1: "length (get_bytes (?k * 4096) (?n * 4096) ?d) = ?n * 4096" "length (get_bytes (q * 4096) r ?d) = r"
        using len qn eq(2) e(1) q(1) by simp_all
      show ?thesis using put_two[of "i_base st" "get_bytes (?k * 4096) (?n * 4096) ?d" "get_bytes (q * 4096) r ?d" "i_mem st"]
          l1 e(2) unfolding off(1) eq(1) get_append eq(2) by (simp add: add.assoc)
    qed
    moreover have "i_alen ?st2 + r = i_alen st + (endpos - i_off st)"
      using q(1) off(1) kq by (simp add: diff_mult_distrib)
    moreover have "i_off ?st2 = endpos div 4096 * 4096" using pos(1) by (simp add: q(3)[symmetric])
    ultimately show ?thesis using io_frame_trans[OF b(2) p(2)] same_blocks_trans[OF b(3,2) p(3)] al(2)
      by - (rule exI[of _ "?st2\<lparr>i_alen := i_alen ?st2 + r\<rparr>"], rule exI[of _ fs2], simp)
  qed
qed


text \<open>Where \<open>offset\<close> stands at the label \<^verbatim>\<open>out\<close> after a complete transfer.\<close>

definition io_end :: "nat \<Rightarrow> nat \<Rightarrow> nat" where
  "io_end off endpos = (if off mod 4096 \<noteq> 0 \<and> off div 4096 = endpos div 4096 then endpos else endpos div 4096 * 4096)"

text \<open>An unaligned start with whole blocks to follow: after step 1 the rest is an aligned transfer.\<close>

lemma io_steps_unaligned:
  assumes "i_off st mod 4096 \<noteq> 0" "nblks \<noteq> 0"
    and "io_part wr (4096 - i_off st mod 4096) (i_off st mod 4096) st sin fs = Some (0, st1, sin1, fs1)"
    and "i_off st1 = i_off st"
  shows "io_steps wr endpos nblks st sin fs = io_steps wr endpos (nblks - 1)
    (let n = 4096 - i_off st mod 4096 in st1\<lparr>i_base := i_base st1 + n, i_alen := i_alen st1 + n, i_off := i_off st1 + n,
       i_blkno := u32 (i_blkno st1 + 1)\<rparr>) sin1 fs1"
proof -
  have "(i_off st + (4096 - i_off st mod 4096)) mod 4096 = 0"
    by (metis add_diff_inverse_nat mod_add_left_eq mod_less_divisor mod_self not_less_iff_gr_or_eq zero_less_numeral)
  then show ?thesis using assms unfolding io_steps_def[of wr endpos nblks] io_steps_def[of wr endpos "nblks - 1"]
    by (simp add: sfs_consts Let_def)
qed

lemma read_steps:
  assumes ok: "fs_ok fs" "inode_ok sin fs" and off: "off < endpos" and e: "endpos \<le> nblocks sin * 4096"
    and m: "base + (endpos - off) \<le> length mem"
  shows "\<exists>st' fs'. io_steps False endpos (endpos div 4096 - off div 4096)
      \<lparr>i_mem = mem, i_base = base, i_alen = 0, i_blkno = off div 4096, i_off = off\<rparr> sin fs = Some (0, st', sin, fs') \<and>
    i_mem st' = put_bytes base (get_bytes off (endpos - off) (file_data sin fs)) mem \<and>
    i_alen st' = endpos - off \<and> i_off st' = io_end off endpos \<and> io_frame fs fs' \<and> same_blocks fs fs'"
proof (cases "off mod 4096 = 0")
  case True
  let ?st = "\<lparr>i_mem = mem, i_base = base, i_alen = 0, i_blkno = off div 4096, i_off = off\<rparr>"
  have "off = off div 4096 * 4096" using True by (metis add_0_right div_mult_mod_eq)
  then have al: "i_off ?st = i_blkno ?st * 4096" by simp
  show ?thesis using read_aligned[OF ok al, of endpos] True off e m by (simp add: io_end_def)
next
  case False
  let ?k = "off div 4096" and ?r = "off mod 4096" and ?d = "file_data sin fs"
  let ?st = "\<lparr>i_mem = mem, i_base = base, i_alen = 0, i_blkno = ?k, i_off = off\<rparr>"
  have off': "off = ?k * 4096 + ?r" "?r < 4096" by simp_all
  have k: "?k < nblocks sin" using off e by (simp add: less_mult_imp_div_less)
  have len: "length ?d = nblocks sin * 4096" using length_file ok by blast
  show ?thesis
  proof (cases "endpos div 4096 = ?k")
    case True
    then have "endpos = ?k * 4096 + endpos mod 4096" by (metis div_mult_mod_eq)
    then have sz: "?r + (endpos - off) \<le> 4096" using off off'(1) mod_less_divisor[of 4096 endpos] by linarith
    obtain fs1 where p: "io_part False (endpos - off) ?r ?st sin fs =
        Some (0, ?st\<lparr>i_mem := put_bytes base (get_bytes off (endpos - off) ?d) mem\<rparr>, sin, fs1)" "io_frame fs fs1" "same_blocks fs fs1"
      using read_part[OF ok, of ?st ?r "endpos - off"] k sz by auto
    then show ?thesis using False True off unfolding io_steps_def io_end_def by (simp add: sfs_consts Let_def)
  next
    case neq: False
    have n0: "endpos div 4096 - ?k \<noteq> 0" using neq off by (metis diff_is_0_eq div_le_mono le_antisym less_imp_le)
    let ?n = "4096 - ?r"
    have end1: "off + ?n = (?k + 1) * 4096" using off' unfolding add_mult_distrib by linarith
    have "(?k + 1) * 4096 \<le> endpos div 4096 * 4096" using n0 by (intro mult_right_mono) simp_all
    then have le: "(?k + 1) * 4096 \<le> endpos" using div_times_less_eq_dividend[of endpos 4096] by linarith
    let ?mem = "put_bytes base (get_bytes off ?n ?d) mem"
    obtain fs1 where p: "io_part False ?n ?r ?st sin fs = Some (0, ?st\<lparr>i_mem := ?mem\<rparr>, sin, fs1)" "io_frame fs fs1" "same_blocks fs fs1"
      using read_part[OF ok, of ?st ?r ?n] k off'(2) by auto
    note ok1 = same_blocks_file[OF ok(1) p(2,3) ok(2)]
    have u32: "u32 (?k + 1) = ?k + 1" using k inode_okD(5)[OF ok(2)] by (intro u32_id) (auto simp: MAX_BLKS_def sfs_consts)
    let ?st1 = "\<lparr>i_mem = ?mem, i_base = base + ?n, i_alen = ?n, i_blkno = ?k + 1, i_off = (?k + 1) * 4096\<rparr>"
    have st: "io_steps False endpos (endpos div 4096 - ?k) ?st sin fs = io_steps False endpos (endpos div 4096 - i_blkno ?st1) ?st1 sin fs1"
      using io_steps_unaligned[of ?st "endpos div 4096 - ?k" False sin fs] p(1) False n0 u32 end1 by (simp add: Let_def)
    have lm: "length (get_bytes off ?n ?d) = ?n" using len le e end1 by simp
    have tot: "endpos - off = ?n + (endpos - (?k + 1) * 4096)" using le end1 by linarith
    have bn: "base + ?n \<le> length mem" "base + ?n + (endpos - (?k + 1) * 4096) \<le> length mem" using m tot by linarith+
    have lmem: "length ?mem = length mem" using lm bn by simp
    have pre: "i_off ?st1 = i_blkno ?st1 * 4096" "i_off ?st1 \<le> endpos" "i_base ?st1 + (endpos - i_off ?st1) \<le> length (i_mem ?st1)"
      unfolding io_state.simps lmem by (rule refl, rule le, rule bn(2))
    obtain st' fs2 where r: "io_steps False endpos (endpos div 4096 - i_blkno ?st1) ?st1 sin fs1 = Some (0, st', sin, fs2)"
      "i_mem st' = put_bytes (base + ?n) (get_bytes ((?k + 1) * 4096) (endpos - (?k + 1) * 4096) (file_data sin fs1)) ?mem"
      "i_alen st' = ?n + (endpos - (?k + 1) * 4096)" "i_off st' = endpos div 4096 * 4096" "io_frame fs1 fs2" "same_blocks fs1 fs2"
      using read_aligned[OF ok1(1,2) pre(1,2) e pre(3)] unfolding io_state.simps by blast
    have l2: "length (get_bytes ((?k + 1) * 4096) (endpos - (?k + 1) * 4096) ?d) = endpos - (?k + 1) * 4096" using len le e by simp
    have "put_bytes (base + length (get_bytes off ?n ?d)) (get_bytes ((?k + 1) * 4096) (endpos - (?k + 1) * 4096) ?d) ?mem =
        put_bytes base (get_bytes off ?n ?d @ get_bytes ((?k + 1) * 4096) (endpos - (?k + 1) * 4096) ?d) mem"
      by (rule put_two) (simp only: lm l2 bn(2))
    then have "i_mem st' = put_bytes base (get_bytes off (endpos - off) ?d) mem"
      unfolding r(2) ok1(3) tot get_append end1 lm .
    moreover have "i_off st' = io_end off endpos" using neq r(4) by (simp add: io_end_def)
    moreover have "io_steps False endpos (endpos div 4096 - ?k) ?st sin fs = Some (0, st', sin, fs2)" unfolding st r(1) ..
    moreover have "i_alen st' = endpos - off" unfolding r(3) tot ..
    ultimately show ?thesis using io_frame_trans[OF p(2) r(5)] same_blocks_trans[OF p(3,2) r(6)] by blast
  qed
qed


lemma to_s64_id: "0 \<le> x \<Longrightarrow> x < 2 ^ 63 \<Longrightarrow> to_s64 x = x"
  by (simp add: to_s64_def)

lemma file_bound: "inode_ok sin fs \<Longrightarrow> x \<le> nblocks sin * 4096 \<Longrightarrow> x < SFS_MAX_FILE_SIZE"
  using inode_okD(5)[of sin fs] by (simp add: MAX_BLKS_def sfs_consts SFS_MAX_FILE_SIZE_def)

abbreviation set_size :: "nat \<Rightarrow> sfs_inode \<Rightarrow> sfs_inode" where
  "set_size n sin \<equiv> (upd_din (\<lambda>d. d\<lparr>din_size := n\<rparr>) sin)\<lparr>sin_dirty := True\<rparr>"

lemma sfs_io_read:
  assumes ok: "fs_ok fs" "inode_ok sin fs" "din_type (din sin) \<noteq> SFS_TYPE_DIR" and bnd: "din_size (din sin) < SFS_MAX_FILE_SIZE"
    and off: "off < din_size (din sin)" and len: "0 < len" "off + len < 2 ^ 63"
    and alen: "alen = min len (din_size (din sin) - off)" and mem: "base + alen \<le> length mem"
    and e4: "off + alen \<le> nblocks sin * 4096"
  shows "\<exists>fs'. sfs_io_nolock sin mem base (int off) len False fs =
      Some (0, put_bytes base (get_bytes off alen (file_data sin fs)) mem, alen,
        if io_end off (off + alen) + alen > din_size (din sin) then set_size (io_end off (off + alen) + alen) sin else sin, fs') \<and>
    io_frame fs fs' \<and> same_blocks fs fs'"
proof -
  let ?s = "din_size (din sin)"
  let ?endp = "off + alen"
  have s64: "to_s64 (int off + int len) = int off + int len" using len by (intro to_s64_id) auto
  have ep: "off < ?endp" "?endp \<le> ?s" using off len alen by auto
  have m: "base + (?endp - off) \<le> length mem" using mem by simp
  obtain st' fs' where r: "io_steps False ?endp (?endp div 4096 - off div 4096)
      \<lparr>i_mem = mem, i_base = base, i_alen = 0, i_blkno = off div 4096, i_off = off\<rparr> sin fs = Some (0, st', sin, fs')"
    "i_mem st' = put_bytes base (get_bytes off alen (file_data sin fs)) mem"
    "i_alen st' = alen" "i_off st' = io_end off ?endp" "io_frame fs fs'" "same_blocks fs fs'"
    using read_steps[OF ok(1,2) ep(1) e4 m] unfolding diff_add_inverse by blast
  define e1 where "e1 = (if int off + int len > int SFS_MAX_FILE_SIZE then SFS_MAX_FILE_SIZE else nat (int off + int len))"
  have endp: "(if e1 > ?s then ?s else e1) = ?endp"
    using alen off bnd by (auto simp: e1_def min_def)
  have "io_end off ?endp \<le> ?endp" by (simp add: io_end_def)
  then have u: "u32 (io_end off ?endp + alen) = io_end off ?endp + alen"
    using bnd ep by (intro u32_id) (auto simp: SFS_MAX_FILE_SIZE_def)
  have g: "\<not> (int off < 0 \<or> int off \<ge> int SFS_MAX_FILE_SIZE \<or> int off > int off + int len)" "int off \<noteq> int off + int len"
    "\<not> (off \<ge> ?s)" using off bnd len by auto
  have "sfs_io_nolock sin mem base (int off) len False fs =
      Some (0, put_bytes base (get_bytes off alen (file_data sin fs)) mem, alen,
        if io_end off ?endp + alen > ?s then set_size (io_end off ?endp + alen) sin else sin, fs')"
    unfolding sfs_io_nolock_def s64 Let_def if_not_P[OF g(1)] if_not_P[OF g(2)] e1_def[symmetric] nat_int
    using g(3) r(1-4) endp u ok(3) by (simp add: kassert_def sfs_consts)
  then show ?thesis using r(5,6) by blast
qed


subsection \<open>Properties\<close>

text \<open>
  C23. For a file that is not a directory and whose recorded size does not exceed the bytes of its
  blocks: a read of at least one byte at an offset below the largest file size returns the bytes
  of the file from the offset up to its end or the length
  asked for, changes no block, and leaves the invariants; a read at or past the end transfers
  nothing. The size the inode has afterwards is what the code computes, offset + alen with the
  offset as advanced by the transfer, when that is larger than the size. That can exceed the
  bytes of the blocks, after a read of whole blocks up to the end: of reads of an inode with such a
  size nothing is claimed here, they may allocate a block or fail the assertion on the index.
\<close>

theorem sfs_read_correct:
  assumes "fs_ok fs" and "inode_ok sin fs" and "din_type (din sin) \<noteq> SFS_TYPE_DIR" and "din_size (din sin) \<le> nblocks sin * 4096"
    and "off < SFS_MAX_FILE_SIZE" and "0 < len" and "off + len < 2 ^ 63" and "base + len \<le> length mem"
  shows "\<exists>fs'. let alen = min len (din_size (din sin) - off); out = io_end off (off + alen) + alen in
    sfs_io_nolock sin mem base (int off) len False fs =
      Some (0, put_bytes base (get_bytes off alen (file_data sin fs)) mem, alen,
        if alen \<noteq> 0 \<and> out > din_size (din sin) then set_size out sin else sin, fs') \<and>
    fs_ok fs' \<and> inode_ok sin fs' \<and> file_data sin fs' = file_data sin fs \<and> same_blocks fs fs' \<and> freemap fs' = freemap fs"
proof (cases "off < din_size (din sin)")
  case True
  define alen where "alen = min len (din_size (din sin) - off)"
  have b: "din_size (din sin) < SFS_MAX_FILE_SIZE" using file_bound[OF assms(2,4)] .
  have e: "off + alen \<le> nblocks sin * 4096" "base + alen \<le> length mem" "alen \<noteq> 0" using True assms(4,6,8) by (auto simp: alen_def)
  obtain fs' where r: "sfs_io_nolock sin mem base (int off) len False fs =
      Some (0, put_bytes base (get_bytes off alen (file_data sin fs)) mem, alen,
        if io_end off (off + alen) + alen > din_size (din sin) then set_size (io_end off (off + alen) + alen) sin else sin, fs')"
    "io_frame fs fs'" "same_blocks fs fs'" using sfs_io_read[OF assms(1-3) b True assms(6,7) alen_def e(2,1)] by blast
  have "freemap fs' = freemap fs" using r(2) by (simp add: io_frame_def)
  then show ?thesis using r same_blocks_file[OF assms(1) r(2,3) assms(2)] e(3)
    unfolding Let_def alen_def[symmetric] by - (rule exI[of _ fs'], simp)
next
  case False
  have s64: "to_s64 (int off + int len) = int off + int len" using assms(7) by (intro to_s64_id) auto
  have "sfs_io_nolock sin mem base (int off) len False fs = Some (0, mem, 0, sin, fs)"
    using False assms(3,5,6) by (simp add: sfs_io_nolock_def kassert_def s64 Let_def)
  then show ?thesis using False assms(1,2) by - (rule exI[of _ fs], simp add: Let_def get_bytes_def put_bytes_def same_blocks_def)
qed

theorem sfs_read_correct_witness:
  "\<exists>fs'. sfs_io_nolock demo_sin (replicate 100 0) 0 (int 10) 50 False demo_fs =
     Some (0, put_bytes 0 (get_bytes 10 50 (file_data demo_sin demo_fs)) (replicate 100 0), 50, demo_sin, fs') \<and>
     fs_ok fs' \<and> file_data demo_sin fs' = file_data demo_sin demo_fs"
proof -
  have d: "din_type (din demo_sin) \<noteq> SFS_TYPE_DIR" "din_size (din demo_sin) \<le> nblocks demo_sin * 4096" "din_size (din demo_sin) = 4096"
    by (simp_all add: demo_sin_def SFS_TYPE_FILE_def SFS_TYPE_DIR_def)
  show ?thesis using sfs_read_correct[OF demo_fs_ok demo_sin_ok d(1,2), of 10 50 0 "replicate 100 0"]
    by (simp add: SFS_MAX_FILE_SIZE_def d(3) io_end_def Let_def) blast
qed

text \<open>
  C24. Reading a file of n whole blocks from start to end doubles the size recorded in its
  inode and marks the inode dirty, although nothing was written: at the label out the
  offset has already been advanced past the blocks read.
\<close>

theorem sfs_read_enlarges:
  assumes "fs_ok fs" and "inode_ok sin fs" and "din_type (din sin) \<noteq> SFS_TYPE_DIR" and "nblocks sin \<noteq> 0"
    and "din_size (din sin) = nblocks sin * 4096" and "length mem = nblocks sin * 4096"
  shows "\<exists>sin' fs'. sfs_io_nolock sin mem 0 0 (nblocks sin * 4096) False fs =
      Some (0, file_data sin fs, nblocks sin * 4096, sin', fs') \<and>
    din_size (din sin') = 2 * din_size (din sin) \<and> sin_dirty sin' \<and> file_data sin' fs' = file_data sin fs"
proof -
  let ?s = "nblocks sin * 4096"
  have b: "din_size (din sin) < SFS_MAX_FILE_SIZE" using file_bound[OF assms(2)] assms(5) by simp
  have pre: "0 < din_size (din sin)" "0 < ?s" "0 + ?s < 2 ^ 63" "?s = min ?s (din_size (din sin) - 0)" "0 + ?s \<le> length mem" "0 + ?s \<le> ?s"
    using assms(4-6) b by (simp_all add: SFS_MAX_FILE_SIZE_def)
  obtain fs' where r: "sfs_io_nolock sin mem 0 (int 0) ?s False fs =
      Some (0, put_bytes 0 (get_bytes 0 ?s (file_data sin fs)) mem, ?s,
        if io_end 0 (0 + ?s) + ?s > din_size (din sin) then set_size (io_end 0 (0 + ?s) + ?s) sin else sin, fs')"
    "io_frame fs fs'" "same_blocks fs fs'" using sfs_io_read[OF assms(1-3) b pre] by blast
  have "put_bytes 0 (get_bytes 0 ?s (file_data sin fs)) mem = file_data sin fs"
    using length_file[OF assms(1,2)] assms(6) by (simp add: put_bytes_def)
  moreover have "io_end 0 (0 + ?s) + ?s = 2 * din_size (din sin)" using assms(5) by (simp add: io_end_def)
  ultimately show ?thesis using r(1) assms(4,5) same_blocks_file(3)[OF assms(1) r(2,3) assms(2)]
    by (simp add: upd_din_def file_data_def blkmap_def cong: map_cong if_cong)
qed

theorem sfs_read_enlarges_witness:
  "\<exists>sin' fs'. sfs_io_nolock demo_sin (replicate 4096 0) 0 0 4096 False demo_fs = Some (0, file_data demo_sin demo_fs, 4096, sin', fs') \<and>
     din_size (din demo_sin) = 4096 \<and> din_size (din sin') = 8192"
proof -
  have d: "din_type (din demo_sin) \<noteq> SFS_TYPE_DIR" "nblocks demo_sin \<noteq> 0" "din_size (din demo_sin) = nblocks demo_sin * 4096"
    "length (replicate 4096 (0 :: byte)) = nblocks demo_sin * 4096" "nblocks demo_sin * 4096 = 4096"
    by (simp_all add: demo_sin_def SFS_TYPE_FILE_def SFS_TYPE_DIR_def)
  obtain sin' fs' where "sfs_io_nolock demo_sin (replicate 4096 0) 0 0 (nblocks demo_sin * 4096) False demo_fs =
      Some (0, file_data demo_sin demo_fs, nblocks demo_sin * 4096, sin', fs')" "din_size (din sin') = 2 * din_size (din demo_sin)"
    using sfs_read_enlarges[OF demo_fs_ok demo_sin_ok d(1-4)] by blast
  then show ?thesis unfolding d(3) d(5) by (intro exI[of _ sin'] exI[of _ fs']) simp
qed

end
