(* ===== verification/SfsWrite.thy ===== *)
theory SfsWrite
  imports SfsFile
begin

text \<open>
  Writing files (\<open>sfs_io_nolock\<close> with \<^verbatim>\<open>write\<close> set), in place and past the last block,
  including the disk running full on the way.
\<close>

subsection \<open>Writing\<close>

text \<open>
  The data have been written at \<open>off\<close>; where the file was too short, blocks of zeros were
  added first. Only blocks of the file and free blocks have changed.
\<close>

definition wrote :: "nat \<Rightarrow> byte list \<Rightarrow> sfs_inode \<Rightarrow> 'a sfs_fs_scheme \<Rightarrow> sfs_inode \<Rightarrow> 'a sfs_fs_scheme \<Rightarrow> bool" where
  "wrote off data sin fs sin' fs' \<longleftrightarrow> fs_ok fs' \<and> inode_ok sin' fs' \<and> same_file sin sin' \<and> fs_step (owned sin fs) fs fs' \<and>
     free_blocks fs' \<subseteq> free_blocks fs \<and> owned sin' fs' = owned sin fs \<union> (free_blocks fs - free_blocks fs') \<and>
     nblocks sin \<le> nblocks sin' \<and> off + length data \<le> nblocks sin' * 4096 \<and>
     file_data sin' fs' = put_bytes off data (file_data sin fs @ replicate ((nblocks sin' - nblocks sin) * 4096) 0)"

lemma put_nil: "put_bytes off [] buf = buf"
  by (simp add: put_bytes_def)

lemma same_file_trans: "same_file a b \<Longrightarrow> same_file b c \<Longrightarrow> same_file a c"
  by (simp add: same_file_def)

lemma put_extend:
  assumes "off + length xs \<le> length buf" "off + length xs + length ys \<le> length buf + n"
  shows "put_bytes (off + length xs) ys (put_bytes off xs buf @ replicate n z) = put_bytes off (xs @ ys) (buf @ replicate n z)"
proof -
  have "put_bytes off xs buf @ replicate n z = put_bytes off xs (buf @ replicate n z)"
    using assms(1) by (simp add: put_bytes_def)
  then show ?thesis using put_two[of off xs ys "buf @ replicate n z"] assms by simp
qed

lemma wrote_trans:
  assumes "fs_ok fs" "inode_ok sin fs" and 1: "wrote off xs sin fs sin1 fs1" and 2: "wrote (off + length xs) ys sin1 fs1 sin2 fs2"
  shows "wrote off (xs @ ys) sin fs sin2 fs2"
proof -
  note d1 = 1[unfolded wrote_def] and d2 = 2[unfolded wrote_def]
  let ?n = "nblocks sin" and ?n1 = "nblocks sin1" and ?n2 = "nblocks sin2"
  have n: "?n \<le> ?n1" "?n1 \<le> ?n2" using d1 d2 by auto
  have le: "length (file_data sin fs) = ?n * 4096" "length (file_data sin1 fs1) = ?n1 * 4096"
    using length_file assms(1,2) d1 by blast+
  have r: "replicate ((?n1 - ?n) * 4096) 0 @ replicate ((?n2 - ?n1) * 4096) 0 = replicate ((?n2 - ?n) * 4096) (0 :: byte)"
    using n by (simp add: replicate_add[symmetric] diff_mult_distrib)
  let ?b = "file_data sin fs @ replicate ((?n1 - ?n) * 4096) 0"
  have lb: "length ?b = ?n1 * 4096" using le n by (simp add: diff_mult_distrib)
  have "file_data sin2 fs2 = put_bytes (off + length xs) ys (put_bytes off xs ?b @ replicate ((?n2 - ?n1) * 4096) 0)"
    using d1 d2 by simp
  also have "\<dots> = put_bytes off (xs @ ys) (?b @ replicate ((?n2 - ?n1) * 4096) 0)"
    by (rule put_extend) (use d1 d2 lb n in \<open>auto simp: diff_mult_distrib\<close>)
  finally have "file_data sin2 fs2 = put_bytes off (xs @ ys) (file_data sin fs @ replicate ((?n2 - ?n) * 4096) 0)" using r by simp
  moreover have "fs_step (owned sin fs) fs fs2"
    using fs_step_trans[of "owned sin fs" fs fs1 "owned sin1 fs1" fs2] d1 d2 by auto
  moreover have "same_file sin sin2" using d1 d2 same_file_trans by blast
  moreover have "owned sin2 fs2 = owned sin fs \<union> (free_blocks fs - free_blocks fs2)" "free_blocks fs2 \<subseteq> free_blocks fs"
    using d1 d2 by blast+
  ultimately show ?thesis unfolding wrote_def using d1 d2 n by (simp add: add.assoc)
qed

lemma wrote_nothing:
  assumes "inode_ok sin fs" "fs_step {} fs fs'" "free_blocks fs' = free_blocks fs" "off \<le> nblocks sin * 4096"
  shows "wrote off [] sin fs sin fs'"
proof -
  have "inode_ok sin fs' \<and> owned sin fs' = owned sin fs \<and> file_data sin fs' = file_data sin fs"
    using other_inode[OF assms(2,1)] assms(1,3) by (auto simp: inode_ok_def in_use_def)
  then show ?thesis using assms fs_stepD(1)[OF assms(2)] fs_step_mono[OF assms(2), of "owned sin fs"]
    by (auto simp: wrote_def same_file_def put_bytes_def)
qed

text \<open>A block of the file has been replaced.\<close>

lemma upd_file:
  assumes ok: "fs_ok fs" "inode_ok sin fs" and k: "k < nblocks sin" and sz: "off + length data \<le> 4096"
    and u: "io_frame fs fs'" "upd_block (blkmap sin fs k) (put_bytes off data (content fs (blkmap sin fs k))) fs fs'"
  shows "wrote (k * 4096 + off) data sin fs sin fs'"
proof -
  let ?b = "blkmap sin fs k"
  note st = io_frame_upd[OF ok(1) u]
  have b: "?b \<notin> meta sin" "in_use fs ?b" using inode_okD(1,3)[OF ok(2) k] by auto
  have cont: "content fs' c = (if c = ?b then put_bytes off data (content fs ?b) else content fs c)" if "in_use fs c" for c
    using u(2) that by (auto simp: upd_block_def in_use_def)
  have ent: "entry fs' (din_indirect (din sin)) j = entry fs (din_indirect (din sin)) j" if "din_indirect (din sin) \<noteq> 0" for j
  proof -
    have m: "din_indirect (din sin) \<in> meta sin" using that by (simp add: meta_def)
    then have "din_indirect (din sin) \<noteq> ?b" using b(1) by metis
    then show ?thesis using cont[OF inode_okD(2)[OF ok(2) m]] by (simp add: entry_def)
  qed
  have map: "blkmap sin fs' = blkmap sin fs"
    by (intro ext) (simp add: blkmap_def ent)
  then have own: "owned sin fs' = owned sin fs" by (simp add: owned_def)
  have "in_use fs' c \<longleftrightarrow> in_use fs c" for c using st fs_stepD(2)[OF conjunct1[OF st]] by (auto simp: in_use_def)
  then have ok': "inode_ok sin fs'" using ok(2) own by (simp add: inode_ok_def map)
  have fok: "fs_ok fs'" using st fs_stepD(1) by blast
  have kb: "k * 4096 + 4096 \<le> nblocks sin * 4096" using k mult_right_mono[of "Suc k" "nblocks sin" 4096] by simp
  have "file_data sin fs' = put_bytes (k * 4096 + off) data (file_data sin fs)"
  proof (rule nth_equalityI)
    show "length (file_data sin fs') = length (put_bytes (k * 4096 + off) data (file_data sin fs))"
      using kb sz by (simp add: length_file[OF ok] length_file[OF fok ok'])
    fix i assume "i < length (file_data sin fs')"
    then have i: "i < nblocks sin * 4096" by (simp add: length_file[OF fok ok'])
    have j: "i div 4096 < nblocks sin" using i by (simp add: less_mult_imp_div_less)
    have "file_data sin fs' ! i = content fs' (blkmap sin fs (i div 4096)) ! (i mod 4096)"
      using nth_file[OF fok ok' i] by (simp add: map)
    also have "\<dots> = (if i div 4096 = k then put_bytes off data (content fs ?b) ! (i mod 4096) else file_data sin fs ! i)"
      using cont[OF inode_okD(1)[OF ok(2) j]] inode_okD(7)[OF ok(2) j k] nth_file[OF ok i] by simp
    also have "\<dots> = put_bytes (k * 4096 + off) data (file_data sin fs) ! i"
    proof (cases "i div 4096 = k")
      case True
      define r where "r = i mod 4096"
      have r: "i = k * 4096 + r" "r < 4096" using div_mult_mod_eq[of i 4096] True by (auto simp: r_def)
      have fd: "file_data sin fs ! i = content fs ?b ! r" using nth_file[OF ok i] True by (simp add: r_def)
      have 1: "put_bytes off data (content fs ?b) ! r = (if off \<le> r \<and> r < off + length data then data ! (r - off) else content fs ?b ! r)"
        using r(2) sz length_file_block[OF ok k] by (simp add: nth_put)
      have "put_bytes (k * 4096 + off) data (file_data sin fs) ! i =
          (if k * 4096 + off \<le> i \<and> i < k * 4096 + off + length data then data ! (i - (k * 4096 + off)) else file_data sin fs ! i)"
        using i kb sz by (intro nth_put) (simp_all add: length_file[OF ok])
      also have "\<dots> = (if off \<le> r \<and> r < off + length data then data ! (r - off) else content fs ?b ! r)"
        unfolding fd by (simp add: r(1))
      finally show ?thesis using 1 True by (simp add: r_def)
    next
      case False
      then have "\<not> (k * 4096 + off \<le> i \<and> i < k * 4096 + off + length data)"
        using sz div_mult_mod_eq[of i 4096] mod_less_divisor[of 4096 i] by linarith
      then show ?thesis using False sz kb i by (auto simp: nth_put length_file[OF ok])
    qed
    finally show "file_data sin fs' ! i = put_bytes (k * 4096 + off) data (file_data sin fs) ! i" .
  qed
  moreover have "fs_step (owned sin fs) fs fs'" by (rule fs_step_mono[OF conjunct1[OF st]]) (use k in \<open>auto simp: owned_def\<close>)
  ultimately show ?thesis using ok' fok own st kb sz by (auto simp: wrote_def same_file_def)
qed


lemma load_for_write:
  assumes ok: "fs_ok fs" "inode_ok sin fs" and k: "k \<le> nblocks sin" "k < MAX_BLKS"
  shows "(\<exists>fs'. sfs_bmap_load_nolock sin k fs = Some (- E_NO_MEM, 0, sin, fs') \<and> no_space fs fs') \<or>
    (\<exists>sin' fs'. sfs_bmap_load_nolock sin k fs = Some (0, blkmap sin' fs' k, sin', fs') \<and> k < nblocks sin' \<and>
       (\<forall>off\<le>nblocks sin' * 4096. wrote off [] sin fs sin' fs'))"
proof (cases "k < nblocks sin")
  case True
  obtain fs' where l: "sfs_bmap_load_nolock sin k fs = Some (0, blkmap sin fs k, sin, fs')" "io_frame fs fs'" "same_blocks fs fs'"
    using bmap_load_old[OF ok True] by blast
  have st: "fs_step {} fs fs'" "freemap fs' = freemap fs" using io_frame_step[OF ok(1) l(2,3)] by auto
  have "blkmap sin fs' k = blkmap sin fs k"
    using same_entries[OF st(1), of "din_indirect (din sin)"] inode_okD(2)[OF ok(2)] by (auto simp: blkmap_def meta_def)
  moreover have "wrote off [] sin fs sin fs'" if "off \<le> nblocks sin * 4096" for off
    using wrote_nothing[OF ok(2) st(1) _ that] st(2) by simp
  ultimately show ?thesis using l(1) True by (intro disjI2) (rule exI[of _ sin], rule exI[of _ fs'], simp)
next
  case False
  then have k': "k = nblocks sin" using k(1) by simp
  consider (fail) fs' where "sfs_bmap_load_nolock sin k fs = Some (- E_NO_MEM, 0, sin, fs')" "no_space fs fs'"
    | (got) b sin' fs' where "sfs_bmap_load_nolock sin k fs = Some (0, b, sin', fs')" "grown sin fs b sin' fs'"
    using bmap_load_new[OF ok] k(2) unfolding k' by blast
  then show ?thesis
  proof cases
    case fail
    then show ?thesis by blast
  next
    case got
    note g = got(2)[unfolded grown_def]
    have "fs_ok fs'" using g fs_stepD(1) by blast
    then have "wrote off [] sin fs sin' fs'" if "off \<le> nblocks sin' * 4096" for off
      using g that by (simp add: wrote_def put_nil)
    then show ?thesis using got(1) g k' by (intro disjI2) (rule exI[of _ sin'], rule exI[of _ fs'], simp)
  qed
qed

lemma wroteD: "wrote off data sin fs sin' fs' \<Longrightarrow> fs_ok fs' \<and> inode_ok sin' fs'"
  by (simp add: wrote_def)

lemma write_part:
  assumes ok: "fs_ok fs" "inode_ok sin fs" and k: "i_blkno st \<le> nblocks sin" "i_blkno st < MAX_BLKS"
    and sz: "blkoff < 4096" "blkoff + n \<le> 4096" and m: "i_base st + n \<le> length (i_mem st)"
  shows "(\<exists>fs'. io_part True n blkoff st sin fs = Some (- E_NO_MEM, st, sin, fs') \<and> no_space fs fs') \<or>
    (\<exists>sin' fs'. io_part True n blkoff st sin fs = Some (0, st, sin', fs') \<and>
       wrote (i_blkno st * 4096 + blkoff) (get_bytes (i_base st) n (i_mem st)) sin fs sin' fs')"
proof -
  let ?k = "i_blkno st" and ?data = "get_bytes (i_base st) n (i_mem st)"
  consider (fail) fs' where "sfs_bmap_load_nolock sin ?k fs = Some (- E_NO_MEM, 0, sin, fs')" "no_space fs fs'"
    | (got) sin' fs' where "sfs_bmap_load_nolock sin ?k fs = Some (0, blkmap sin' fs' ?k, sin', fs')" "?k < nblocks sin'"
      "\<forall>off\<le>nblocks sin' * 4096. wrote off [] sin fs sin' fs'" using load_for_write[OF ok k] by blast
  then show ?thesis
  proof cases
    case fail
    then show ?thesis by (simp add: io_part_def E_NO_MEM_def)
  next
    case l: got
    let ?b = "blkmap sin' fs' ?k"
    have kb: "?k * 4096 + 4096 \<le> nblocks sin' * 4096" using l(2) mult_right_mono[of "Suc ?k" "nblocks sin'" 4096] by simp
    then have w1: "wrote (?k * 4096 + blkoff) [] sin fs sin' fs'" using l(3) sz by simp
    note ok1 = wroteD[OF w1]
    have u: "in_use fs' ?b" using inode_okD(1) ok1 l(2) by blast
    have b: "0 < ?b" "?b < blocks (super fs')" using u by (auto simp: in_use_def)
    obtain fs2 where w: "sfs_wbuf (i_mem st) (i_base st) n ?b (int blkoff) fs' = Some (0, i_mem st, fs2)" "io_frame fs' fs2"
      "upd_block ?b (put_bytes blkoff ?data (content fs' ?b)) fs' fs2"
      using sfs_wbuf_ok[OF _ _ b sz m] ok1 fs_okD(1,2) by blast
    have ld: "length ?data = n" using m by simp
    have "wrote (?k * 4096 + blkoff) ?data sin' fs' sin' fs2"
      using upd_file[OF conjunct1[OF ok1] conjunct2[OF ok1] l(2) _ w(2,3)] sz(2) ld by simp
    then have "wrote (?k * 4096 + blkoff) ([] @ ?data) sin fs sin' fs2"
      by (intro wrote_trans[OF ok w1]) simp
    moreover have "io_part True n blkoff st sin fs = Some (0, st, sin', fs2)"
      using l(1) w(1) by (simp add: io_part_def sfs_buf_op_def)
    ultimately show ?thesis by auto
  qed
qed


text \<open>Either all of it was written, or the disk is full and less was.\<close>

definition wres :: "int \<Rightarrow> nat \<Rightarrow> nat \<Rightarrow> 'a sfs_fs_scheme \<Rightarrow> bool" where
  "wres ret n m fs' \<longleftrightarrow> ret = 0 \<and> m = n \<or> ret = - E_NO_MEM \<and> m < n \<and> card (free_blocks fs') < 2"

lemma wrote_failed:
  assumes "inode_ok sin fs" "no_space fs fs'" "off \<le> nblocks sin * 4096"
  shows "wrote off [] sin fs sin fs'" "card (free_blocks fs') < 2"
  using assms wrote_nothing[OF assms(1), of fs' off] by (auto simp: no_space_def)

lemma blkno_u32: "k < MAX_BLKS \<Longrightarrow> u32 (k + 1) = k + 1"
  by (intro u32_id) (auto simp: MAX_BLKS_def sfs_consts)

lemma write_one:
  assumes ok: "fs_ok fs" "inode_ok sin fs" and k: "k \<le> nblocks sin" "k < MAX_BLKS" and m: "base + 4096 \<le> length mem"
  shows "(\<exists>fs'. sfs_bmap_load_nolock sin k fs = Some (- E_NO_MEM, 0, sin, fs') \<and> no_space fs fs') \<or>
    (\<exists>b sin' fs1 fs'. sfs_bmap_load_nolock sin k fs = Some (0, b, sin', fs1) \<and> sfs_wblock mem base b 1 fs1 = Some (0, mem, fs') \<and>
       wrote (k * 4096) (get_bytes base 4096 mem) sin fs sin' fs')"
proof -
  consider (fail) fs' where "sfs_bmap_load_nolock sin k fs = Some (- E_NO_MEM, 0, sin, fs')" "no_space fs fs'"
    | (got) sin' fs' where "sfs_bmap_load_nolock sin k fs = Some (0, blkmap sin' fs' k, sin', fs')" "k < nblocks sin'"
      "\<forall>off\<le>nblocks sin' * 4096. wrote off [] sin fs sin' fs'" using load_for_write[OF ok k] by blast
  then show ?thesis
  proof cases
    case fail
    then show ?thesis by blast
  next
    case l: got
    let ?b = "blkmap sin' fs' k"
    have w1: "wrote (k * 4096) [] sin fs sin' fs'" using l(2,3) by simp
    have ok1: "fs_ok fs'" "inode_ok sin' fs'" using wroteD[OF w1] by auto
    have u: "in_use fs' ?b" using inode_okD(1)[OF ok1(2) l(2)] .
    obtain fs2 where w: "sfs_wblock mem base ?b 1 fs' = Some (0, mem, fs2)" "io_frame fs' fs2" "upd_block ?b (get_bytes base 4096 mem) fs' fs2"
      using sfs_wblock_ok[OF ok1(1) u m] by blast
    have "put_bytes 0 (get_bytes base 4096 mem) (content fs' ?b) = get_bytes base 4096 mem"
      using length_file_block[OF ok1 l(2)] m by (simp add: put_bytes_def)
    then have "wrote (k * 4096 + 0) (get_bytes base 4096 mem) sin' fs' sin' fs2"
      using upd_file[OF ok1 l(2) _ w(2), of 0 "get_bytes base 4096 mem"] w(3) m by simp
    then have "wrote (k * 4096) ([] @ get_bytes base 4096 mem) sin fs sin' fs2" by (intro wrote_trans[OF ok w1]) simp
    then show ?thesis using l(1) w(1) by auto
  qed
qed

lemma write_blocks:
  assumes "fs_ok fs" "inode_ok sin fs" "i_blkno st \<le> nblocks sin" "i_blkno st + n \<le> MAX_BLKS" "i_base st + n * 4096 \<le> length (i_mem st)"
  shows "\<exists>ret j sin' fs'. io_blocks True n st sin fs = Some (ret, skip_blocks j st, sin', fs') \<and> wres ret n j fs' \<and>
    wrote (i_blkno st * 4096) (get_bytes (i_base st) (j * 4096) (i_mem st)) sin fs sin' fs'"
  using assms
proof (induction n arbitrary: st sin fs)
  case 0
  then have "wrote (i_blkno st * 4096) [] sin fs sin fs" by (intro wrote_nothing) (simp_all add: fs_step_refl)
  then show ?case by (intro exI[of _ 0] exI[of _ sin] exI[of _ fs]) (simp add: get_bytes_def wres_def)
next
  case (Suc n)
  let ?k = "i_blkno st" and ?mem = "i_mem st" and ?base = "i_base st"
  have k: "?k < MAX_BLKS" "?base + 4096 \<le> length ?mem" using Suc.prems by auto
  consider (fail) fs' where "sfs_bmap_load_nolock sin ?k fs = Some (- E_NO_MEM, 0, sin, fs')" "no_space fs fs'"
    | (got) b sin1 fs1 fs2 where "sfs_bmap_load_nolock sin ?k fs = Some (0, b, sin1, fs1)" "sfs_wblock ?mem ?base b 1 fs1 = Some (0, ?mem, fs2)"
       "wrote (?k * 4096) (get_bytes ?base 4096 ?mem) sin fs sin1 fs2"
    using write_one[OF Suc.prems(1-3) k(1,2)] by blast
  then show ?case
  proof cases
    case fail
    have "?k * 4096 \<le> nblocks sin * 4096" using Suc.prems(3) by simp
    note w = wrote_failed[OF Suc.prems(2) fail(2) this]
    have "io_blocks True (Suc n) st sin fs = Some (- E_NO_MEM, skip_blocks 0 st, sin, fs')" using fail(1) by (simp add: E_NO_MEM_def)
    then show ?thesis using w by - (rule exI[of _ "- E_NO_MEM"], rule exI[of _ 0], rule exI[of _ sin], rule exI[of _ fs'], simp add: get_bytes_def wres_def)
  next
    case got
    have ok2: "fs_ok fs2" "inode_ok sin1 fs2" using wroteD[OF got(3)] by auto
    have l: "length (get_bytes ?base 4096 ?mem) = 4096" using k(2) by simp
    have "?k * 4096 + 4096 \<le> nblocks sin1 * 4096" using got(3) l by (simp add: wrote_def)
    then have k1: "?k + 1 \<le> nblocks sin1" by simp
    let ?st = "skip_blocks 1 st"
    obtain ret j sin' fs' where i: "io_blocks True n ?st sin1 fs2 = Some (ret, skip_blocks j ?st, sin', fs')" "wres ret n j fs'"
      "wrote ((?k + 1) * 4096) (get_bytes (?base + 4096) (j * 4096) ?mem) sin1 fs2 sin' fs'"
      using Suc.IH[OF ok2, of ?st] k1 Suc.prems(4,5) by auto
    have "wrote (?k * 4096) (get_bytes ?base 4096 ?mem @ get_bytes (?base + 4096) (j * 4096) ?mem) sin fs sin' fs'"
      using wrote_trans[OF Suc.prems(1,2) got(3), of "get_bytes (?base + 4096) (j * 4096) ?mem" sin' fs'] i(3) by (simp add: l algebra_simps)
    then have "wrote (?k * 4096) (get_bytes ?base (Suc j * 4096) ?mem) sin fs sin' fs'"
      using get_append[of ?base 4096 "j * 4096" ?mem] by simp
    moreover have "io_blocks True (Suc n) st sin fs = Some (ret, skip_blocks (Suc j) st, sin', fs')"
      using got(1,2) i(1) blkno_u32[OF k(1)] by (simp add: sfs_block_op_def sfs_consts add.assoc add.left_commute)
    moreover have "wres ret (Suc n) (Suc j) fs'" using i(2) by (auto simp: wres_def)
    ultimately show ?thesis by blast
  qed
qed


text \<open>Where \<open>offset\<close> stands at the label \<^verbatim>\<open>out\<close> of a write.\<close>

definition out_pos :: "int \<Rightarrow> nat \<Rightarrow> nat \<Rightarrow> nat \<Rightarrow> nat" where
  "out_pos ret off endpos m = (if ret = 0 then io_end off endpos else off + m)"

lemma write_aligned:
  assumes ok: "fs_ok fs" "inode_ok sin fs" and off: "i_off st = i_blkno st * 4096" "i_off st \<le> endpos"
    and k: "i_blkno st \<le> nblocks sin" and e: "endpos \<le> MAX_BLKS * 4096" "i_base st + (endpos - i_off st) \<le> length (i_mem st)"
  shows "\<exists>ret m st' sin' fs'. io_steps True endpos (endpos div 4096 - i_blkno st) st sin fs = Some (ret, st', sin', fs') \<and>
    i_mem st' = i_mem st \<and> i_alen st' = i_alen st + m \<and> wres ret (endpos - i_off st) m fs' \<and>
    i_off st' = (if ret = 0 then endpos div 4096 * 4096 else i_off st + m) \<and>
    wrote (i_off st) (get_bytes (i_base st) m (i_mem st)) sin fs sin' fs'"
proof -
  let ?k = "i_blkno st" and ?mem = "i_mem st" and ?base = "i_base st"
  define q r where "q = endpos div 4096" and "r = endpos mod 4096"
  have q: "endpos = q * 4096 + r" "r < 4096" by (simp_all add: q_def r_def)
  have kq: "?k \<le> q" using off q by linarith
  let ?n = "q - ?k"
  have n4: "?n * 4096 = q * 4096 - ?k * 4096" by (simp add: diff_mult_distrib)
  have room: "?k + ?n \<le> MAX_BLKS" "?base + ?n * 4096 \<le> length ?mem" "endpos - i_off st = ?n * 4096 + r"
    using kq e q n4 off(1) mult_right_mono[OF kq, of 4096] by linarith+
  obtain ret j sin1 fs1 where b: "io_blocks True ?n st sin fs = Some (ret, skip_blocks j st, sin1, fs1)" "wres ret ?n j fs1"
    "wrote (?k * 4096) (get_bytes ?base (j * 4096) ?mem) sin fs sin1 fs1"
    using write_blocks[OF ok k room(1,2)] by blast
  have al: "i_off st mod 4096 = 0" using off(1) by simp
  show ?thesis
  proof (cases "ret = 0")
    case False
    then have j: "ret = - E_NO_MEM" "j < ?n" "card (free_blocks fs1) < 2" using b(2) by (auto simp: wres_def)
    have "io_steps True endpos ?n st sin fs = Some (ret, skip_blocks j st, sin1, fs1)"
      using b(1) al False by (simp add: io_steps_def Let_def sfs_consts)
    moreover have "wres ret (endpos - i_off st) (j * 4096) fs1"
      using j room(3) by (simp add: wres_def mult_less_mono1[of j ?n 4096] trans_less_add1)
    ultimately show ?thesis using b(3) False unfolding q_def[symmetric] off(1)
      by - (rule exI[of _ ret], rule exI[of _ "j * 4096"], rule exI[of _ "skip_blocks j st"], rule exI[of _ sin1], rule exI[of _ fs1],
          simp add: off(1))
  next
    case True
    have j: "j = ?n" using b(2) True by (auto simp: wres_def E_NO_MEM_def)
    let ?st = "skip_blocks ?n st"
    have pos: "i_off ?st = q * 4096" "i_blkno ?st = q" using kq off(1) by (simp_all add: diff_mult_distrib)
    have ok1: "fs_ok fs1" "inode_ok sin1 fs1" using wroteD[OF b(3)] by auto
    have lj: "length (get_bytes ?base (?n * 4096) ?mem) = ?n * 4096" using room(2) by simp
    have "?k * 4096 + ?n * 4096 \<le> nblocks sin1 * 4096" using b(3) lj unfolding j by (simp add: wrote_def)
    then have qn: "q \<le> nblocks sin1" using n4 kq by simp
    show ?thesis
    proof (cases "r = 0")
      case r0: True
      have "io_steps True endpos ?n st sin fs = Some (0, ?st, sin1, fs1)"
        using b(1) al pos True r0 q(1) unfolding j by (simp add: io_steps_def Let_def sfs_consts)
      then show ?thesis using b(3) pos(1) room(3) r0 unfolding j q_def[symmetric] off(1)
        by - (rule exI[of _ 0], rule exI[of _ "?n * 4096"], rule exI[of _ ?st], rule exI[of _ sin1], rule exI[of _ fs1],
          simp add: wres_def off(1))
    next
      case rn: False
      have qM: "q < MAX_BLKS" using e(1) q rn by linarith
      have sz: "endpos - i_off ?st = r" "i_off ?st < endpos" using pos q(1) rn by simp_all
      have mr: "i_base ?st + r \<le> length (i_mem ?st)" using e(2) room(3) by simp
      consider (fail) fs' where "io_part True r 0 ?st sin1 fs1 = Some (- E_NO_MEM, ?st, sin1, fs')" "no_space fs1 fs'"
        | (got) sin' fs' where "io_part True r 0 ?st sin1 fs1 = Some (0, ?st, sin', fs')"
          "wrote (i_blkno ?st * 4096 + 0) (get_bytes (i_base ?st) r (i_mem ?st)) sin1 fs1 sin' fs'"
        using write_part[OF ok1, of ?st 0 r] qn qM pos(2) q(2) mr by auto
      then show ?thesis
      proof cases
        case fail
        have "io_steps True endpos ?n st sin fs = Some (- E_NO_MEM, ?st, sin1, fs')"
          using b(1) al fail(1) sz True unfolding io_steps_def j by (simp add: Let_def sfs_consts E_NO_MEM_def)
        moreover have w: "wrote (?k * 4096 + length (get_bytes ?base (?n * 4096) ?mem)) [] sin1 fs1 sin1 fs'" "card (free_blocks fs') < 2"
          using wrote_failed[OF ok1(2) fail(2), of "?k * 4096 + ?n * 4096"] qn n4 kq lj by simp_all
        moreover have "wrote (?k * 4096) (get_bytes ?base (?n * 4096) ?mem) sin fs sin1 fs'"
          using wrote_trans[OF ok b(3)[unfolded j] w(1)] by simp
        moreover have "?n * 4096 < endpos - i_off st" using room(3) rn by simp
        ultimately show ?thesis unfolding q_def[symmetric] off(1)
          by - (rule exI[of _ "- E_NO_MEM"], rule exI[of _ "?n * 4096"], rule exI[of _ ?st], rule exI[of _ sin1], rule exI[of _ fs'],
            simp add: wres_def off(1) E_NO_MEM_def)
      next
        case got
        have kq4: "?k * 4096 + ?n * 4096 = q * 4096" using n4 mult_right_mono[OF kq, of 4096] by linarith
        have "io_steps True endpos ?n st sin fs = Some (0, ?st\<lparr>i_alen := i_alen ?st + r\<rparr>, sin', fs')"
          using b(1) al got(1) sz True unfolding io_steps_def j by (simp add: Let_def sfs_consts)
        moreover have "wrote (?k * 4096) (get_bytes ?base (?n * 4096) ?mem @ get_bytes (?base + ?n * 4096) r ?mem) sin fs sin' fs'"
          using wrote_trans[OF ok b(3)[unfolded j], of "get_bytes (?base + ?n * 4096) r ?mem" sin' fs'] got(2)
          unfolding lj kq4 pos(2) by simp
        then have "wrote (?k * 4096) (get_bytes ?base (?n * 4096 + r) ?mem) sin fs sin' fs'" unfolding get_append .
        ultimately show ?thesis using room(3) pos(1) unfolding q_def[symmetric] off(1)
          by - (rule exI[of _ 0], rule exI[of _ "?n * 4096 + r"], rule exI[of _ "?st\<lparr>i_alen := i_alen ?st + r\<rparr>"],
            rule exI[of _ sin'], rule exI[of _ fs'], simp add: wres_def off(1))
      qed
    qed
  qed
qed




text \<open>The size of the transfer of step 1.\<close>

lemma part_size:
  fixes off endpos :: nat
  assumes "off < endpos"
  shows "off mod 4096 + (if endpos div 4096 - off div 4096 \<noteq> 0 then 4096 - off mod 4096 else endpos - off) \<le> 4096 \<and>
    (if endpos div 4096 - off div 4096 \<noteq> 0 then 4096 - off mod 4096 else endpos - off) \<le> endpos - off \<and>
    0 < (if endpos div 4096 - off div 4096 \<noteq> 0 then 4096 - off mod 4096 else endpos - off)"
proof -
  obtain k r where o: "off = k * 4096 + r" "r < 4096" "off div 4096 = k" "off mod 4096 = r"
    by (metis div_mult_mod_eq mod_less_divisor zero_less_numeral)
  obtain q s where e: "endpos = q * 4096 + s" "s < 4096" "endpos div 4096 = q"
    by (metis div_mult_mod_eq mod_less_divisor zero_less_numeral)
  have "k \<le> q" using assms o e by linarith
  show ?thesis
  proof (cases "q = k")
    case True
    then show ?thesis unfolding o(3,4) e(3) using assms o(1,2) e(1,2) by simp
  next
    case False
    then have "k * 4096 + 4096 \<le> q * 4096" using \<open>k \<le> q\<close> by simp
    then have "4096 - r \<le> endpos - off" unfolding o(1) e(1) using o(2) by linarith
    then show ?thesis unfolding o(3,4) e(3) using False \<open>k \<le> q\<close> o(2) by simp
  qed
qed

lemma io_steps_failed:
  assumes "i_off st mod 4096 \<noteq> 0" "ret \<noteq> 0"
    "io_part wr (if nblks \<noteq> 0 then 4096 - i_off st mod 4096 else endpos - i_off st) (i_off st mod 4096) st sin fs = Some (ret, st', sin', fs')"
  shows "io_steps wr endpos nblks st sin fs = Some (ret, st', sin', fs')"
  using assms by (cases "nblks = 0") (simp_all add: io_steps_def Let_def sfs_consts)

lemma io_steps_within:
  assumes "i_off st mod 4096 \<noteq> 0" "i_off st < endpos" "i_off st' = i_off st"
    "io_part wr (endpos - i_off st) (i_off st mod 4096) st sin fs = Some (0, st', sin', fs')"
  shows "io_steps wr endpos 0 st sin fs = Some (0, st'\<lparr>i_base := i_base st' + (endpos - i_off st),
    i_alen := i_alen st' + (endpos - i_off st), i_off := endpos, i_blkno := u32 (i_blkno st' + 1)\<rparr>, sin', fs')"
  using assms by (simp add: io_steps_def Let_def sfs_consts)

lemma write_steps:
  assumes ok: "fs_ok fs" "inode_ok sin fs" and off: "off < endpos" "off \<le> nblocks sin * 4096"
    and e: "endpos \<le> MAX_BLKS * 4096" and m: "base + (endpos - off) \<le> length mem"
  shows "\<exists>ret m st' sin' fs'. io_steps True endpos (endpos div 4096 - off div 4096)
      \<lparr>i_mem = mem, i_base = base, i_alen = 0, i_blkno = off div 4096, i_off = off\<rparr> sin fs = Some (ret, st', sin', fs') \<and>
    i_mem st' = mem \<and> i_alen st' = m \<and> wres ret (endpos - off) m fs' \<and> i_off st' = out_pos ret off endpos m \<and>
    wrote off (get_bytes base m mem) sin fs sin' fs'"
proof (cases "off mod 4096 = 0")
  case True
  let ?st = "\<lparr>i_mem = mem, i_base = base, i_alen = 0, i_blkno = off div 4096, i_off = off\<rparr>"
  have "off = off div 4096 * 4096" using True by (metis add_0_right div_mult_mod_eq)
  then have al: "i_off ?st = i_blkno ?st * 4096" by simp
  have k: "i_blkno ?st \<le> nblocks sin" using div_le_mono[OF off(2), of 4096] by simp
  have le: "i_off ?st \<le> endpos" "i_base ?st + (endpos - i_off ?st) \<le> length (i_mem ?st)" using off m by simp_all
  have po: "out_pos ret off endpos j = (if ret = 0 then endpos div 4096 * 4096 else off + j)" for ret j
    using True by (simp add: out_pos_def io_end_def)
  show ?thesis using write_aligned[OF ok al le(1) k e le(2)] unfolding po io_state.simps add_0 .
next
  case False
  let ?k = "off div 4096" and ?r = "off mod 4096"
  let ?st = "\<lparr>i_mem = mem, i_base = base, i_alen = 0, i_blkno = ?k, i_off = off\<rparr>"
  have off': "off = ?k * 4096 + ?r" "?r < 4096" by simp_all
  have k: "?k \<le> nblocks sin" "?k < MAX_BLKS"
    using div_le_mono[OF off(2), of 4096] off(1) e by (simp_all add: less_mult_imp_div_less)
  let ?n = "if endpos div 4096 - ?k \<noteq> 0 then 4096 - ?r else endpos - off"
  have e': "endpos = endpos div 4096 * 4096 + endpos mod 4096" "endpos mod 4096 < 4096" by simp_all
  have kle: "?k \<le> endpos div 4096" using off(1) by (simp add: div_le_mono)
  have n: "?r + ?n \<le> 4096" "?n \<le> endpos - off" "0 < ?n"
    using part_size[OF off(1)] by blast+
  have m1: "i_base ?st + ?n \<le> length (i_mem ?st)" using m n by simp
  consider (fail) fs' where "io_part True ?n ?r ?st sin fs = Some (- E_NO_MEM, ?st, sin, fs')" "no_space fs fs'"
    | (got) sin1 fs1 where "io_part True ?n ?r ?st sin fs = Some (0, ?st, sin1, fs1)" "wrote off (get_bytes base ?n mem) sin fs sin1 fs1"
    using write_part[OF ok _ _ off'(2) n(1) m1] k off'(1)[symmetric] unfolding io_state.simps by metis
  then show ?thesis
  proof cases
    case fail
    note w = wrote_failed[OF ok(2) fail(2) off(2)]
    have "io_steps True endpos (endpos div 4096 - ?k) ?st sin fs = Some (- E_NO_MEM, ?st, sin, fs')"
    proof (rule io_steps_failed)
      show "- E_NO_MEM \<noteq> 0" by (simp add: E_NO_MEM_def)
    qed (use False fail(1) in \<open>simp_all only: io_state.simps, simp\<close>)
    then show ?thesis using w off(1)
      by - (rule exI[of _ "- E_NO_MEM"], rule exI[of _ 0], rule exI[of _ ?st], rule exI[of _ sin], rule exI[of _ fs'],
        simp add: wres_def out_pos_def get_bytes_def E_NO_MEM_def)
  next
    case got
    show ?thesis
    proof (cases "endpos div 4096 - ?k = 0")
      case True
      then have nn: "(if endpos div 4096 - ?k \<noteq> 0 then 4096 - ?r else endpos - off) = endpos - off" by simp
      have dk: "off div 4096 = endpos div 4096" using True kle by simp
      let ?st1 = "?st\<lparr>i_base := base + (endpos - off), i_alen := 0 + (endpos - off), i_off := endpos, i_blkno := u32 (?k + 1)\<rparr>"
      have "io_steps True endpos 0 ?st sin fs = Some (0, ?st1, sin1, fs1)"
        using io_steps_within[of ?st endpos ?st True sin fs sin1 fs1] False off(1) got(1)[unfolded nn] by simp
      moreover have "out_pos 0 off endpos (endpos - off) = endpos" using False dk by (simp add: out_pos_def io_end_def)
      ultimately show ?thesis unfolding True using got(2)[unfolded nn]
        by - (rule exI[of _ 0], rule exI[of _ "endpos - off"], rule exI[of _ ?st1], rule exI[of _ sin1], rule exI[of _ fs1], simp add: wres_def)
    next
      case n0: False
      let ?n = "4096 - ?r"
      have nn: "(if endpos div 4096 - ?k \<noteq> 0 then 4096 - ?r else endpos - off) = ?n" using n0 by simp
      note got' = got[unfolded nn] and n' = n[unfolded nn]
      have end1: "off + ?n = (?k + 1) * 4096" using off' unfolding add_mult_distrib by linarith
      have le: "(?k + 1) * 4096 \<le> endpos" using n'(2) end1 off(1) by linarith
      have ok1: "fs_ok fs1" "inode_ok sin1 fs1" using wroteD[OF got'(2)] by auto
      have ln: "length (get_bytes base ?n mem) = ?n" using m n'(2) by simp
      have "off + ?n \<le> nblocks sin1 * 4096" using got'(2) ln by (simp only: wrote_def)
      then have k1: "?k + 1 \<le> nblocks sin1" unfolding end1 by simp
      let ?st1 = "\<lparr>i_mem = mem, i_base = base + ?n, i_alen = ?n, i_blkno = ?k + 1, i_off = (?k + 1) * 4096\<rparr>"
      have st: "io_steps True endpos (endpos div 4096 - ?k) ?st sin fs = io_steps True endpos (endpos div 4096 - i_blkno ?st1) ?st1 sin1 fs1"
        using io_steps_unaligned[of ?st "endpos div 4096 - ?k" True sin fs] got'(1) False n0 blkno_u32[OF k(2)] end1 by (simp add: Let_def)
      have tot: "endpos - off = ?n + (endpos - (?k + 1) * 4096)" using le end1 by linarith
      have pre: "i_off ?st1 = i_blkno ?st1 * 4096" "i_off ?st1 \<le> endpos" "i_blkno ?st1 \<le> nblocks sin1"
        "i_base ?st1 + (endpos - i_off ?st1) \<le> length (i_mem ?st1)"
        unfolding io_state.simps using le k1 m tot by linarith+
      obtain ret j st' sin' fs' where r: "io_steps True endpos (endpos div 4096 - i_blkno ?st1) ?st1 sin1 fs1 = Some (ret, st', sin', fs')"
        "i_mem st' = mem" "i_alen st' = ?n + j" "wres ret (endpos - (?k + 1) * 4096) j fs'"
        "i_off st' = (if ret = 0 then endpos div 4096 * 4096 else (?k + 1) * 4096 + j)"
        "wrote ((?k + 1) * 4096) (get_bytes (base + ?n) j mem) sin1 fs1 sin' fs'"
        using write_aligned[OF ok1 pre(1,2,3) e pre(4)] unfolding io_state.simps by blast
      have "wrote off (get_bytes base ?n mem @ get_bytes (base + ?n) j mem) sin fs sin' fs'"
        by (rule wrote_trans[OF ok got'(2)]) (use r(6) in \<open>simp only: ln end1\<close>)
      then have w: "wrote off (get_bytes base (?n + j) mem) sin fs sin' fs'" unfolding get_append .
      have wr: "wres ret (endpos - off) (?n + j) fs'" using r(4) unfolding tot wres_def nat_add_left_cancel_less add_left_cancel .
      have po: "i_off st' = out_pos ret off endpos (?n + j)"
      proof -
        have "off div 4096 \<noteq> endpos div 4096" using n0 by auto
        then have "io_end off endpos = endpos div 4096 * 4096" by (simp add: io_end_def)
        moreover have "(?k + 1) * 4096 + j = off + (?n + j)" unfolding end1[symmetric] by (rule add.assoc)
        ultimately show ?thesis unfolding r(5) out_pos_def by (simp only:)
      qed
      have "io_steps True endpos (endpos div 4096 - ?k) ?st sin fs = Some (ret, st', sin', fs')" unfolding st r(1) ..
      then show ?thesis using r(2,3) w wr po by blast
    qed
  qed
qed

lemma size_irrelevant [simp]:
  "inode_ok (set_size n sin) fs = inode_ok sin fs" "file_data (set_size n sin) fs = file_data sin fs"
  "owned (set_size n sin) fs = owned sin fs" "nblocks (set_size n sin) = nblocks sin"
proof -
  have m: "blkmap (set_size n sin) fs = blkmap sin fs" "meta (set_size n sin) = meta sin"
    by (intro ext) (simp_all add: blkmap_def meta_def upd_din_def)
  show n: "nblocks (set_size n sin) = nblocks sin" by (simp add: upd_din_def)
  show o: "owned (set_size n sin) fs = owned sin fs" by (simp only: owned_def m n)
  show "file_data (set_size n sin) fs = file_data sin fs" by (simp only: file_data_def m n)
  have "length (din_direct (din (set_size n sin))) = length (din_direct (din sin))" by (simp add: upd_din_def)
  then show "inode_ok (set_size n sin) fs = inode_ok sin fs" by (simp only: inode_ok_def m n o)
qed

lemma sfs_io_write:
  assumes ok: "fs_ok fs" "inode_ok sin fs" "din_type (din sin) \<noteq> SFS_TYPE_DIR"
    and off: "off \<le> nblocks sin * 4096" and len: "0 < len" "off + len \<le> MAX_BLKS * 4096" and mem: "base + len \<le> length mem"
  shows "\<exists>ret alen sin1 fs'. sfs_io_nolock sin mem base (int off) len True fs = Some (ret, mem, alen,
       if out_pos ret off (off + len) alen + alen > din_size (din sin) then set_size (out_pos ret off (off + len) alen + alen) sin1 else sin1, fs') \<and>
     wres ret len alen fs' \<and> wrote off (get_bytes base alen mem) sin fs sin1 fs'"
proof -
  let ?endp = "off + len"
  have bnd: "?endp < SFS_MAX_FILE_SIZE" using len(2) by (simp add: MAX_BLKS_def sfs_consts SFS_MAX_FILE_SIZE_def)
  have s64: "to_s64 (int off + int len) = int off + int len" using bnd by (intro to_s64_id) (auto simp: SFS_MAX_FILE_SIZE_def)
  have ep: "off < ?endp" "base + (?endp - off) \<le> length mem" using len mem by auto
  obtain ret alen st' sin1 fs' where r: "io_steps True ?endp (?endp div 4096 - off div 4096)
      \<lparr>i_mem = mem, i_base = base, i_alen = 0, i_blkno = off div 4096, i_off = off\<rparr> sin fs = Some (ret, st', sin1, fs')"
    "i_mem st' = mem" "i_alen st' = alen" "wres ret len alen fs'" "i_off st' = out_pos ret off ?endp alen"
    "wrote off (get_bytes base alen mem) sin fs sin1 fs'"
    using write_steps[OF ok(1,2) ep(1) off len(2) ep(2)] unfolding diff_add_inverse by blast
  have al: "alen \<le> len" using r(4) by (auto simp: wres_def)
  then have "out_pos ret off ?endp alen \<le> ?endp" by (simp add: io_end_def out_pos_def)
  then have u: "u32 (out_pos ret off ?endp alen + alen) = out_pos ret off ?endp alen + alen"
    using bnd al by (intro u32_id) (auto simp: SFS_MAX_FILE_SIZE_def)
  have g: "\<not> (int off < 0 \<or> int off \<ge> int SFS_MAX_FILE_SIZE \<or> int off > int off + int len)" "int off \<noteq> int off + int len"
    "\<not> (int off + int len > int SFS_MAX_FILE_SIZE)" "nat (int off + int len) = ?endp" using off bnd len by auto
  have sz: "din_size (din sin1) = din_size (din sin)" using r(6) by (simp add: wrote_def same_file_def)
  have "sfs_io_nolock sin mem base (int off) len True fs = Some (ret, mem, alen,
       if out_pos ret off ?endp alen + alen > din_size (din sin) then set_size (out_pos ret off ?endp alen + alen) sin1 else sin1, fs')"
    unfolding sfs_io_nolock_def s64 Let_def if_not_P[OF g(1)] if_not_P[OF g(2)] if_not_P[OF g(3)] g(4) nat_int
    using r(1,2,3,5) u ok(3) sz by (simp add: kassert_def sfs_consts)
  then show ?thesis using r(4,6) by blast
qed


subsection \<open>Properties\<close>

lemma io_end_ge: "off < endpos \<Longrightarrow> off \<le> io_end off endpos"
proof -
  assume "off < endpos"
  then have "off div 4096 \<le> endpos div 4096" by (simp add: div_le_mono)
  then consider "off div 4096 = endpos div 4096" | "off div 4096 + 1 \<le> endpos div 4096" by linarith
  then show ?thesis
  proof cases
    case 1
    have "off mod 4096 = 0 \<Longrightarrow> off = off div 4096 * 4096" by (metis add_0_right div_mult_mod_eq)
    then show ?thesis using 1 \<open>off < endpos\<close> by (auto simp: io_end_def)
  next
    case 2
    have "off < (off div 4096 + 1) * 4096" using div_mult_mod_eq[of off 4096] mod_less_divisor[of 4096 off]
      unfolding add_mult_distrib by linarith
    also have "\<dots> \<le> endpos div 4096 * 4096" using 2 by (intro mult_right_mono) simp_all
    finally show ?thesis using \<open>off < endpos\<close> by (auto simp: io_end_def)
  qed
qed

text \<open>
  C22. Writing to a file, from any offset up to its last block and up to the largest size the
  block map can hold, never fails an assertion. Either all of the buffer is written, or the disk
  has run full (-E_NO_MEM with at most one block left) and exactly the prefix of the reported
  length is written. The file then is the old file, extended with zeros where it was too
  short, with the prefix put at the offset; the invariants hold; every other file keeps its
  data. After a complete write, reading the same range returns the data.
\<close>

theorem sfs_write_correct:
  fixes fs :: "'a sfs_fs_scheme"
  assumes "fs_ok fs" and "inode_ok sin fs" and "din_type (din sin) \<noteq> SFS_TYPE_DIR" and "din_size (din sin) < SFS_MAX_FILE_SIZE"
    and "off \<le> nblocks sin * 4096" and "0 < len" and "off + len \<le> MAX_BLKS * 4096"
    and "base + len \<le> length mem" and "base' + len \<le> length mem'"
  shows "\<exists>ret alen sin' fs'. sfs_io_nolock sin mem base (int off) len True fs = Some (ret, mem, alen, sin', fs') \<and>
    fs_ok fs' \<and> inode_ok sin' fs' \<and>
    (ret = 0 \<and> alen = len \<or> ret = - E_NO_MEM \<and> alen < len \<and> card (free_blocks fs') < 2) \<and>
    file_data sin' fs' = put_bytes off (get_bytes base alen mem)
      (file_data sin fs @ replicate ((nblocks sin' - nblocks sin) * 4096) 0) \<and>
    (\<forall>oth. inode_ok oth fs \<and> owned oth fs \<inter> owned sin fs = {} \<longrightarrow>
       inode_ok oth fs' \<and> file_data oth fs' = file_data oth fs \<and> owned oth fs' \<inter> owned sin' fs' = {}) \<and>
    (ret = 0 \<longrightarrow> (\<exists>sin'' fs''. sfs_io_nolock sin' mem' base' (int off) len False fs' =
       Some (0, put_bytes base' (get_bytes base len mem) mem', len, sin'', fs'')))"
proof -
  obtain ret alen sin1 fs' where w: "sfs_io_nolock sin mem base (int off) len True fs = Some (ret, mem, alen,
       if out_pos ret off (off + len) alen + alen > din_size (din sin) then set_size (out_pos ret off (off + len) alen + alen) sin1 else sin1, fs')"
    "wres ret len alen fs'" "wrote off (get_bytes base alen mem) sin fs sin1 fs'"
    using sfs_io_write[OF assms(1-3,5-8)] by blast
  let ?p = "out_pos ret off (off + len) alen + alen"
  define sin' where "sin' = (if ?p > din_size (din sin) then set_size ?p sin1 else sin1)"
  have same: "inode_ok sin' f = inode_ok sin1 f" "file_data sin' f = file_data sin1 f" "owned sin' f = owned sin1 f"
    "nblocks sin' = nblocks sin1" for f :: "'a sfs_fs_scheme" unfolding sin'_def by (simp_all split: if_split) (simp add: upd_din_def)
  note d = w(3)[unfolded wrote_def]
  have ok': "fs_ok fs'" "inode_ok sin' fs'" using d same by auto
  have sub: "owned sin' fs' \<subseteq> owned sin fs \<union> free_blocks fs" "free_blocks fs' \<subseteq> free_blocks fs \<union> owned sin fs" using d same by auto
  have oth: "inode_ok oth fs' \<and> file_data oth fs' = file_data oth fs \<and> owned oth fs' \<inter> owned sin' fs' = {}"
    if "inode_ok oth fs" "owned oth fs \<inter> owned sin fs = {}" for oth
    using other_after_step[OF _ that sub(2,1)] d by blast
  have reread: "\<exists>sin'' fs''. sfs_io_nolock sin' mem' base' (int off) len False fs' =
       Some (0, put_bytes base' (get_bytes base len mem) mem', len, sin'', fs'')" if r0: "ret = 0"
  proof -
    have al: "alen = len" using w(2) r0 by (auto simp: wres_def E_NO_MEM_def)
    have "io_end off (off + len) \<le> off + len" by (simp add: io_end_def)
    then have p: "off + len \<le> ?p" "?p \<le> 2 * (off + len)" using io_end_ge[of off "off + len"] assms(6) r0 al
      by (simp_all add: out_pos_def)
    have sf: "same_file sin sin1" using d by blast
    have big: "2 * (off + len) < SFS_MAX_FILE_SIZE" using assms(7) by (simp add: MAX_BLKS_def sfs_consts SFS_MAX_FILE_SIZE_def)
    have sz: "off + len \<le> din_size (din sin')" "din_size (din sin') < SFS_MAX_FILE_SIZE"
      using p assms(4) sf big by (auto simp: sin'_def same_file_def upd_din_def)
    have ty: "din_type (din sin') \<noteq> SFS_TYPE_DIR" using assms(3) sf by (simp add: sin'_def same_file_def upd_din_def)
    have lb: "length (get_bytes base len mem) = len" using assms(8) by simp
    have room: "off + len \<le> nblocks sin' * 4096" using d lb unfolding al same(4) by simp
    have pre: "off < din_size (din sin')" "off + len < 2 ^ 63" "len = min len (din_size (din sin') - off)"
      using sz assms(6) big by (auto simp: SFS_MAX_FILE_SIZE_def)
    let ?old = "file_data sin fs @ replicate ((nblocks sin1 - nblocks sin) * 4096) 0"
    have "length ?old = nblocks sin1 * 4096" using length_file[OF assms(1,2)] d by (simp add: diff_mult_distrib)
    then have "get_bytes off len (file_data sin' fs') = get_bytes base len mem"
      using d room lb unfolding al same(2,4) by simp
    moreover obtain fs'' where "sfs_io_nolock sin' mem' base' (int off) len False fs' =
        Some (0, put_bytes base' (get_bytes off len (file_data sin' fs')) mem', len,
          if io_end off (off + len) + len > din_size (din sin') then set_size (io_end off (off + len) + len) sin' else sin', fs'')"
      using sfs_io_read[OF ok' ty sz(2) pre(1) assms(6) pre(2,3) assms(9) room] by blast
    ultimately show ?thesis by auto
  qed
  have "file_data sin' fs' = put_bytes off (get_bytes base alen mem) (file_data sin fs @ replicate ((nblocks sin' - nblocks sin) * 4096) 0)"
    using d unfolding same by blast
  moreover have "ret = 0 \<and> alen = len \<or> ret = - E_NO_MEM \<and> alen < len \<and> card (free_blocks fs') < 2" using w(2) by (simp add: wres_def)
  ultimately show ?thesis using w(1)[folded sin'_def] ok' oth reread by blast
qed

theorem sfs_write_correct_witness:
  "\<exists>ret alen sin' fs'. sfs_io_nolock demo_sin (replicate 100 1) 0 (int 4090) 100 True demo_fs = Some (ret, replicate 100 1, alen, sin', fs') \<and>
     fs_ok fs' \<and> inode_ok sin' fs'"
proof -
  have d: "din_type (din demo_sin) \<noteq> SFS_TYPE_DIR" "din_size (din demo_sin) < SFS_MAX_FILE_SIZE" "4090 \<le> nblocks demo_sin * 4096"
    "0 < (100 :: nat)" "4090 + 100 \<le> MAX_BLKS * 4096" "0 + 100 \<le> length (replicate 100 (1 :: byte))"
    by (simp_all add: demo_sin_def SFS_TYPE_FILE_def SFS_TYPE_DIR_def SFS_MAX_FILE_SIZE_def MAX_BLKS_def sfs_consts)
  show ?thesis using sfs_write_correct[OF demo_fs_ok demo_sin_ok d d(6)] by (elim exE conjE) (intro exI conjI)
qed

end
