(* ===== verification/FileTable.thy ===== *)
theory FileTable
  imports DiskIo
begin

text \<open>
  Open files: the reference counts of inodes (\<^verbatim>\<open>kern/fs/vfs/inode.c\<close>), opening and
  closing through the VFS (\<^verbatim>\<open>kern/fs/vfs/vfsfile.c\<close>), the table of open files of a
  process (\<^verbatim>\<open>kern/fs/file.c\<close>, \<^verbatim>\<open>kern/fs/fs.c\<close>) and how processes share and copy it
  (\<^verbatim>\<open>copy_files\<close> and \<^verbatim>\<open>put_files\<close> of \<^verbatim>\<open>kern/process/proc.c\<close>).

  Pointers to inodes and tables are natural numbers. The operations behind
  \<^verbatim>\<open>struct inode_ops\<close> and the lookup of a path are arguments: they may change any part of
  the state, also the tables, when the process sleeps in them. A failed assertion is the
  value \<open>None\<close> of the option monad, as is a local pointer that was never assigned.
\<close>

unbundle bit_operations_syntax

subsection \<open>Data\<close>

definition O_RDONLY :: "32 word" where "O_RDONLY = 0"
definition O_WRONLY :: "32 word" where "O_WRONLY = 1"
definition O_RDWR :: "32 word" where "O_RDWR = 2"
definition O_CREAT :: "32 word" where "O_CREAT = 0x00000004"
definition O_EXCL :: "32 word" where "O_EXCL = 0x00000008"
definition O_TRUNC :: "32 word" where "O_TRUNC = 0x00000010"
definition O_APPEND :: "32 word" where "O_APPEND = 0x00000020"
definition O_ACCMODE :: "32 word" where "O_ACCMODE = 3"
definition NO_FD :: int where "NO_FD = -0x9527"
definition LSEEK_SET :: int where "LSEEK_SET = 0"
definition LSEEK_CUR :: int where "LSEEK_CUR = 1"
definition LSEEK_END :: int where "LSEEK_END = 2"
definition MAX_INODE_COUNT :: int where "MAX_INODE_COUNT = 0x10000"

text \<open>(4096 - sizeof(struct files_struct)) / sizeof(struct file), that is 4048 / 40.\<close>

definition FILES_STRUCT_NENTRY :: nat where "FILES_STRUCT_NENTRY = (4096 - 48) div 40"

datatype fd_status = FD_NONE | FD_INIT | FD_OPENED | FD_CLOSED

record file_entry =
  f_status :: fd_status
  f_readable :: bool
  f_writable :: bool
  f_fd :: int
  f_pos :: int
  f_node :: "nat option"
  f_open_count :: int

record stat =
  st_mode :: "32 word"
  st_nlinks :: nat
  st_blocks :: nat
  st_size :: nat

record dirent =
  de_offset :: int
  de_name :: "byte list"

text \<open>The three tables of operations in the kernel, and the operations each of them defines.\<close>

datatype ops_table = sfs_node_dirops | sfs_node_fileops | dev_node_ops

datatype vop_sym = Vopen | Vclose | Vread | Vwrite | Vfstat | Vfsync | Vnamefile | Vgetdirentry | Vreclaim | Vgettype
  | Vtryseek | Vtruncate | Vcreate | Vlookup | Vioctl

fun vop_defined :: "ops_table \<Rightarrow> vop_sym \<Rightarrow> bool" where
  "vop_defined sfs_node_dirops vs \<longleftrightarrow> vs \<in> {Vopen, Vclose, Vfstat, Vfsync, Vnamefile, Vgetdirentry, Vreclaim, Vgettype, Vlookup}"
| "vop_defined sfs_node_fileops vs \<longleftrightarrow> vs \<in> {Vopen, Vclose, Vread, Vwrite, Vfstat, Vfsync, Vreclaim, Vgettype, Vtryseek, Vtruncate}"
| "vop_defined dev_node_ops vs \<longleftrightarrow> vs \<in> {Vopen, Vclose, Vread, Vwrite, Vfstat, Vioctl, Vgettype, Vtryseek, Vlookup}"

record inode =
  ref_count :: int
  open_count :: int
  in_ops :: ops_table

record files_struct =
  pwd :: "nat option"
  fd_array :: "file_entry list"
  files_count :: int

record fstate =
  inodes :: "nat \<Rightarrow> inode"
  files :: "nat \<Rightarrow> files_struct"
  current_filesp :: "nat option"

record 's inode_ops =
  op_open :: "nat \<Rightarrow> 32 word \<Rightarrow> 's \<Rightarrow> (int \<times> 's) option"
  op_close :: "nat \<Rightarrow> 's \<Rightarrow> (int \<times> 's) option"
  op_read :: "nat \<Rightarrow> iobuf \<Rightarrow> 's \<Rightarrow> (int \<times> iobuf \<times> 's) option"
  op_write :: "nat \<Rightarrow> iobuf \<Rightarrow> 's \<Rightarrow> (int \<times> iobuf \<times> 's) option"
  op_fstat :: "nat \<Rightarrow> 's \<Rightarrow> (int \<times> stat \<times> 's) option"
  op_fsync :: "nat \<Rightarrow> 's \<Rightarrow> (int \<times> 's) option"
  op_getdirentry :: "nat \<Rightarrow> iobuf \<Rightarrow> 's \<Rightarrow> (int \<times> iobuf \<times> 's) option"
  op_reclaim :: "nat \<Rightarrow> 's \<Rightarrow> (int \<times> 's) option"
  op_tryseek :: "nat \<Rightarrow> int \<Rightarrow> 's \<Rightarrow> (int \<times> 's) option"
  op_truncate :: "nat \<Rightarrow> int \<Rightarrow> 's \<Rightarrow> (int \<times> 's) option"
  op_create :: "nat \<Rightarrow> string \<Rightarrow> bool \<Rightarrow> 's \<Rightarrow> (int \<times> nat option \<times> 's) option"
  op_lookup :: "string \<Rightarrow> 's \<Rightarrow> (int \<times> nat option \<times> 's) option"
  op_lookup_parent :: "string \<Rightarrow> 's \<Rightarrow> (int \<times> nat option \<times> string \<times> 's) option"

subsection \<open>Inodes\<close>

definition upd_inode :: "nat \<Rightarrow> (inode \<Rightarrow> inode) \<Rightarrow> 'a fstate_scheme \<Rightarrow> 'a fstate_scheme" where
  "upd_inode n f s = s\<lparr>inodes := (inodes s)(n := f (inodes s n))\<rparr>"

definition inode_check :: "nat \<Rightarrow> 'a fstate_scheme \<Rightarrow> unit option" where
  "inode_check n s =
     do { kassert (ref_count (inodes s n) \<ge> open_count (inodes s n) \<and> open_count (inodes s n) \<ge> 0);
          kassert (ref_count (inodes s n) < MAX_INODE_COUNT \<and> open_count (inodes s n) < MAX_INODE_COUNT) }"

text \<open>\<^verbatim>\<open>__vop_op\<close>: the assertion that the table defines the operation and the check before each call.\<close>

definition vop :: "vop_sym \<Rightarrow> ('a fstate_scheme \<Rightarrow> 'b option) \<Rightarrow> nat \<Rightarrow> 'a fstate_scheme \<Rightarrow> 'b option" where
  "vop vs f n s = do { kassert (vop_defined (in_ops (inodes s n)) vs); inode_check n s; f s }"

definition inode_ref_inc :: "nat \<Rightarrow> 'a fstate_scheme \<Rightarrow> 'a fstate_scheme" where
  "inode_ref_inc n s = upd_inode n (\<lambda>i. i\<lparr>ref_count := ref_count i + 1\<rparr>) s"

definition inode_init :: "nat \<Rightarrow> ops_table \<Rightarrow> 'a fstate_scheme \<Rightarrow> 'a fstate_scheme" where
  "inode_init n ops s = inode_ref_inc n (upd_inode n (\<lambda>i. i\<lparr>ref_count := 0, open_count := 0, in_ops := ops\<rparr>) s)"

definition inode_kill :: "nat \<Rightarrow> 'a fstate_scheme \<Rightarrow> unit option" where
  "inode_kill n s = do { kassert (ref_count (inodes s n) = 0); kassert (open_count (inodes s n) = 0) }"

definition inode_ref_dec :: "'a fstate_scheme inode_ops \<Rightarrow> nat \<Rightarrow> 'a fstate_scheme \<Rightarrow> 'a fstate_scheme option" where
  "inode_ref_dec V n s =
     do { kassert (ref_count (inodes s n) > 0);
          let s1 = upd_inode n (\<lambda>i. i\<lparr>ref_count := ref_count i - 1\<rparr>) s;
          if ref_count (inodes s1 n) = 0
          then do { (r, s2) \<leftarrow> vop Vreclaim (op_reclaim V n) n s1; Some s2 }
          else Some s1 }"

definition inode_open_inc :: "nat \<Rightarrow> 'a fstate_scheme \<Rightarrow> 'a fstate_scheme" where
  "inode_open_inc n s = upd_inode n (\<lambda>i. i\<lparr>open_count := open_count i + 1\<rparr>) s"

definition inode_open_dec :: "'a fstate_scheme inode_ops \<Rightarrow> nat \<Rightarrow> 'a fstate_scheme \<Rightarrow> 'a fstate_scheme option" where
  "inode_open_dec V n s =
     do { kassert (open_count (inodes s n) > 0);
          let s1 = upd_inode n (\<lambda>i. i\<lparr>open_count := open_count i - 1\<rparr>) s;
          if open_count (inodes s1 n) = 0
          then do { (r, s2) \<leftarrow> vop Vclose (op_close V n) n s1; Some s2 }
          else Some s1 }"

subsection \<open>Opening and closing in the VFS\<close>

definition vfs_close :: "'a fstate_scheme inode_ops \<Rightarrow> nat \<Rightarrow> 'a fstate_scheme \<Rightarrow> 'a fstate_scheme option" where
  "vfs_close V n s = do { s1 \<leftarrow> inode_open_dec V n s; inode_ref_dec V n s1 }"

text \<open>
  The lookup of the path, and the creation of a file that is not there; the result of
  \<^verbatim>\<open>vop_create\<close> is not looked at. \<open>Inl\<close> is an early return.
\<close>

definition vfs_open_find ::
  "'a fstate_scheme inode_ops \<Rightarrow> string \<Rightarrow> bool \<Rightarrow> bool \<Rightarrow> 'a fstate_scheme \<Rightarrow>
   ((int + nat) \<times> 'a fstate_scheme) option" where
  "vfs_open_find V path excl create s =
     do { (ret, node, s1) \<leftarrow> op_lookup V path s;
          if ret \<noteq> 0 then
            if ret = -16 \<and> create then
              do { (ret, dir, nm, s2) \<leftarrow> op_lookup_parent V path s1;
                   if ret \<noteq> 0 then Some (Inl ret, s2)
                   else do { d \<leftarrow> dir;
                             (ret, node, s3) \<leftarrow> vop Vcreate (op_create V d nm excl) d s2;
                             n \<leftarrow> node;
                             Some (Inr n, s3) } }
            else Some (Inl ret, s1)
          else if excl \<and> create then Some (Inl (- E_EXISTS), s1)
          else do { n \<leftarrow> node; Some (Inr n, s1) } }"

text \<open>What follows with the inode found: \<^verbatim>\<open>vop_open\<close>, and emptying the file.\<close>

definition vfs_open_node ::
  "'a fstate_scheme inode_ops \<Rightarrow> nat \<Rightarrow> 32 word \<Rightarrow> 'a fstate_scheme \<Rightarrow> ((int + nat) \<times> 'a fstate_scheme) option" where
  "vfs_open_node V n open_flags s =
     do { (ret, s1) \<leftarrow> vop Vopen (op_open V n open_flags) n s;
          if ret \<noteq> 0 then do { s2 \<leftarrow> inode_ref_dec V n s1; Some (Inl ret, s2) }
          else
            do { let s2 = inode_open_inc n s1;
                 if open_flags AND O_TRUNC \<noteq> 0 \<or> open_flags AND O_CREAT \<noteq> 0 then
                   do { (ret, s3) \<leftarrow> vop Vtruncate (op_truncate V n 0) n s2;
                        if ret \<noteq> 0
                        then do { s4 \<leftarrow> inode_open_dec V n s3; s5 \<leftarrow> inode_ref_dec V n s4; Some (Inl ret, s5) }
                        else Some (Inr n, s3) }
                 else Some (Inr n, s2) } }"

definition vfs_open ::
  "'a fstate_scheme inode_ops \<Rightarrow> string \<Rightarrow> 32 word \<Rightarrow> 'a fstate_scheme \<Rightarrow> ((int + nat) \<times> 'a fstate_scheme) option" where
  "vfs_open V path open_flags s =
     (let acc = open_flags AND O_ACCMODE; can_write = (acc = O_WRONLY \<or> acc = O_RDWR);
          excl = (open_flags AND O_EXCL \<noteq> 0); create = (open_flags AND O_CREAT \<noteq> 0) in
      if acc \<noteq> O_RDONLY \<and> acc \<noteq> O_WRONLY \<and> acc \<noteq> O_RDWR then Some (Inl (- E_INVAL), s)
      else if open_flags AND O_TRUNC \<noteq> 0 \<and> \<not> can_write then Some (Inl (- E_INVAL), s)
      else do { (r, s1) \<leftarrow> vfs_open_find V path excl create s;
                case r of
                  Inl e \<Rightarrow> Some (Inl e, s1)
                | Inr n \<Rightarrow> vfs_open_node V n open_flags s1 })"

subsection \<open>Entries of a table\<close>

definition file_at :: "nat \<Rightarrow> nat \<Rightarrow> 'a fstate_scheme \<Rightarrow> file_entry" where
  "file_at t i s = fd_array (files s t) ! i"

definition upd_files :: "nat \<Rightarrow> (files_struct \<Rightarrow> files_struct) \<Rightarrow> 'a fstate_scheme \<Rightarrow> 'a fstate_scheme" where
  "upd_files t f s = s\<lparr>files := (files s)(t := f (files s t))\<rparr>"

definition upd_fd :: "nat \<Rightarrow> nat \<Rightarrow> (file_entry \<Rightarrow> file_entry) \<Rightarrow> 'a fstate_scheme \<Rightarrow> 'a fstate_scheme" where
  "upd_fd t i g s =
     upd_files t (\<lambda>x. x\<lparr>fd_array := (fd_array x)[i := g (fd_array x ! i)]\<rparr>) s"

definition get_fd_array :: "'a fstate_scheme \<Rightarrow> nat option" where
  "get_fd_array s =
     do { t \<leftarrow> current_filesp s; kassert (files_count (files s t) > 0); Some t }"

text \<open>The other fields of an entry are left as they were.\<close>

definition fd_array_init :: "file_entry list \<Rightarrow> file_entry list" where
  "fd_array_init fs = map (\<lambda>(fd, f). f\<lparr>f_open_count := 0, f_status := FD_NONE, f_fd := int fd\<rparr>) (enumerate 0 fs)"

fun fd_free_loop :: "file_entry list \<Rightarrow> nat \<Rightarrow> nat option" where
  "fd_free_loop [] fd = None"
| "fd_free_loop (f # fs) fd = (if f_status f = FD_NONE then Some fd else fd_free_loop fs (fd + 1))"

definition testfd :: "int \<Rightarrow> bool" where
  "testfd fd \<longleftrightarrow> fd \<ge> 0 \<and> fd < int FILES_STRUCT_NENTRY"

definition fd_array_alloc :: "int \<Rightarrow> 'a fstate_scheme \<Rightarrow> ((int + nat \<times> nat) \<times> 'a fstate_scheme) option" where
  "fd_array_alloc fd s =
     do { t \<leftarrow> get_fd_array s;
          let r = (if fd = NO_FD then
                     (case fd_free_loop (take FILES_STRUCT_NENTRY (fd_array (files s t))) 0 of
                        None \<Rightarrow> Inl (- E_MAX_OPEN) | Some i \<Rightarrow> Inr i)
                   else if testfd fd then
                     (if f_status (file_at t (nat fd) s) = FD_NONE then Inr (nat fd) else Inl (- E_BUSY))
                   else Inl (- E_INVAL));
          case r of
            Inl e \<Rightarrow> Some (Inl e, s)
          | Inr i \<Rightarrow>
              do { kassert (f_open_count (file_at t i s) = 0);
                   Some (Inr (t, i), upd_fd t i (\<lambda>f. f\<lparr>f_status := FD_INIT, f_node := None\<rparr>) s) } }"

definition fd_array_free :: "'a fstate_scheme inode_ops \<Rightarrow> nat \<Rightarrow> nat \<Rightarrow> 'a fstate_scheme \<Rightarrow> 'a fstate_scheme option" where
  "fd_array_free V t i s =
     do { kassert (f_status (file_at t i s) = FD_INIT \<or> f_status (file_at t i s) = FD_CLOSED);
          kassert (f_open_count (file_at t i s) = 0);
          s1 \<leftarrow> (if f_status (file_at t i s) = FD_CLOSED
                  then do { n \<leftarrow> f_node (file_at t i s); vfs_close V n s } else Some s);
          Some (upd_fd t i (\<lambda>f. f\<lparr>f_status := FD_NONE\<rparr>) s1) }"

definition fd_array_acquire :: "nat \<Rightarrow> nat \<Rightarrow> 'a fstate_scheme \<Rightarrow> 'a fstate_scheme option" where
  "fd_array_acquire t i s =
     do { kassert (f_status (file_at t i s) = FD_OPENED);
          Some (upd_fd t i (\<lambda>f. f\<lparr>f_open_count := f_open_count f + 1\<rparr>) s) }"

definition fd_array_release :: "'a fstate_scheme inode_ops \<Rightarrow> nat \<Rightarrow> nat \<Rightarrow> 'a fstate_scheme \<Rightarrow> 'a fstate_scheme option" where
  "fd_array_release V t i s =
     do { kassert (f_status (file_at t i s) = FD_OPENED \<or> f_status (file_at t i s) = FD_CLOSED);
          kassert (f_open_count (file_at t i s) > 0);
          let s1 = upd_fd t i (\<lambda>f. f\<lparr>f_open_count := f_open_count f - 1\<rparr>) s;
          if f_open_count (file_at t i s1) = 0 then fd_array_free V t i s1 else Some s1 }"

definition fd_array_open :: "nat \<Rightarrow> nat \<Rightarrow> 'a fstate_scheme \<Rightarrow> 'a fstate_scheme option" where
  "fd_array_open t i s =
     do { kassert (f_status (file_at t i s) = FD_INIT \<and> f_node (file_at t i s) \<noteq> None);
          Some (upd_fd t i (\<lambda>f. f\<lparr>f_status := FD_OPENED, f_open_count := f_open_count f + 1\<rparr>) s) }"

definition fd_array_close :: "'a fstate_scheme inode_ops \<Rightarrow> nat \<Rightarrow> nat \<Rightarrow> 'a fstate_scheme \<Rightarrow> 'a fstate_scheme option" where
  "fd_array_close V t i s =
     do { kassert (f_status (file_at t i s) = FD_OPENED);
          kassert (f_open_count (file_at t i s) > 0);
          let s1 = upd_fd t i (\<lambda>f. f\<lparr>f_status := FD_CLOSED, f_open_count := f_open_count f - 1\<rparr>) s;
          if f_open_count (file_at t i s1) = 0 then fd_array_free V t i s1 else Some s1 }"

definition fd_array_dup :: "nat \<Rightarrow> nat \<Rightarrow> nat \<Rightarrow> nat \<Rightarrow> 'a fstate_scheme \<Rightarrow> 'a fstate_scheme option" where
  "fd_array_dup tt ti ft fi s =
     do { kassert (f_status (file_at tt ti s) = FD_INIT \<and> f_status (file_at ft fi s) = FD_OPENED);
          let from = file_at ft fi s;
          let s1 = upd_fd tt ti (\<lambda>f. f\<lparr>f_pos := f_pos from, f_readable := f_readable from,
                                         f_writable := f_writable from\<rparr>) s;
          n \<leftarrow> f_node (file_at ft fi s1);
          let s2 = inode_open_inc n (inode_ref_inc n s1);
          fd_array_open tt ti (upd_fd tt ti (\<lambda>f. f\<lparr>f_node := Some n\<rparr>) s2) }"

definition fd2file :: "int \<Rightarrow> 'a fstate_scheme \<Rightarrow> (int + nat \<times> nat) option" where
  "fd2file fd s =
     (if testfd fd then
        do { t \<leftarrow> get_fd_array s;
             Some (if f_status (file_at t (nat fd) s) = FD_OPENED \<and> f_fd (file_at t (nat fd) s) = fd
                   then Inr (t, nat fd) else Inl (- E_INVAL)) }
      else Some (Inl (- E_INVAL)))"

definition file_testfd :: "int \<Rightarrow> bool \<Rightarrow> bool \<Rightarrow> 'a fstate_scheme \<Rightarrow> bool option" where
  "file_testfd fd readable writable s =
     do { r \<leftarrow> fd2file fd s;
          Some (case r of Inl _ \<Rightarrow> False
                | Inr (t, i) \<Rightarrow> (readable \<longrightarrow> f_readable (file_at t i s)) \<and> (writable \<longrightarrow> f_writable (file_at t i s))) }"

subsection \<open>File operations\<close>

text \<open>Opening the path for the entry \<open>i\<close> that has been allocated for it.\<close>

definition file_open_at ::
  "'a fstate_scheme inode_ops \<Rightarrow> string \<Rightarrow> 32 word \<Rightarrow> bool \<Rightarrow> bool \<Rightarrow> nat \<Rightarrow> nat \<Rightarrow> 'a fstate_scheme \<Rightarrow>
   (int \<times> 'a fstate_scheme) option" where
  "file_open_at V path open_flags readable writable t i s =
     do { (r, s1) \<leftarrow> vfs_open V path open_flags s;
          case r of
            Inl e \<Rightarrow> do { s2 \<leftarrow> fd_array_free V t i s1; Some (e, s2) }
          | Inr n \<Rightarrow>
              do { let s2 = upd_fd t i (\<lambda>f. f\<lparr>f_pos := 0\<rparr>) s1;
                   (ret, s3) \<leftarrow>
                     (if open_flags AND O_APPEND \<noteq> 0 then
                        do { (ret, st, s3) \<leftarrow> vop Vfstat (op_fstat V n) n s2;
                             if ret \<noteq> 0
                             then do { s4 \<leftarrow> vfs_close V n s3; s5 \<leftarrow> fd_array_free V t i s4; Some (ret, s5) }
                             else Some (0, upd_fd t i (\<lambda>f. f\<lparr>f_pos := int (st_size st)\<rparr>) s3) }
                      else Some (0, s2));
                   if ret \<noteq> 0 then Some (ret, s3)
                   else do { s4 \<leftarrow> fd_array_open t i
                                 (upd_fd t i (\<lambda>f. f\<lparr>f_node := Some n, f_readable := readable,
                                                     f_writable := writable\<rparr>) s3);
                             Some (f_fd (file_at t i s4), s4) } } }"

definition file_open :: "'a fstate_scheme inode_ops \<Rightarrow> string \<Rightarrow> 32 word \<Rightarrow> 'a fstate_scheme \<Rightarrow> (int \<times> 'a fstate_scheme) option" where
  "file_open V path open_flags s =
     (let acc = open_flags AND O_ACCMODE;
          readable = (acc = O_RDONLY \<or> acc = O_RDWR); writable = (acc = O_WRONLY \<or> acc = O_RDWR) in
      if acc \<noteq> O_RDONLY \<and> acc \<noteq> O_WRONLY \<and> acc \<noteq> O_RDWR then Some (- E_INVAL, s)
      else do { (r, s1) \<leftarrow> fd_array_alloc NO_FD s;
                case r of
                  Inl e \<Rightarrow> Some (e, s1)
                | Inr (t, i) \<Rightarrow> file_open_at V path open_flags readable writable t i s1 })"

definition file_close :: "'a fstate_scheme inode_ops \<Rightarrow> int \<Rightarrow> 'a fstate_scheme \<Rightarrow> (int \<times> 'a fstate_scheme) option" where
  "file_close V fd s =
     do { r \<leftarrow> fd2file fd s;
          case r of
            Inl e \<Rightarrow> Some (e, s)
          | Inr (t, i) \<Rightarrow> do { s1 \<leftarrow> fd_array_close V t i s; Some (0, s1) } }"

text \<open>
  \<^verbatim>\<open>file_read\<close> and \<^verbatim>\<open>file_write\<close> differ in the flag and the operation; \<open>mem\<close> is the object
  behind \<^verbatim>\<open>base\<close>. The result is the code, the number of bytes moved and the object.
\<close>

definition file_io ::
  "'a fstate_scheme inode_ops \<Rightarrow> (file_entry \<Rightarrow> bool) \<Rightarrow> vop_sym \<Rightarrow>
   (nat \<Rightarrow> iobuf \<Rightarrow> 'a fstate_scheme \<Rightarrow> (int \<times> iobuf \<times> 'a fstate_scheme) option) \<Rightarrow>
   int \<Rightarrow> byte list \<Rightarrow> nat \<Rightarrow> 'a fstate_scheme \<Rightarrow> (int \<times> nat \<times> byte list \<times> 'a fstate_scheme) option" where
  "file_io V allowed vs f fd mem len s =
     do { r \<leftarrow> fd2file fd s;
          case r of
            Inl e \<Rightarrow> Some (e, 0, mem, s)
          | Inr (t, i) \<Rightarrow>
              if \<not> allowed (file_at t i s) then Some (- E_INVAL, 0, mem, s)
              else
                do { s1 \<leftarrow> fd_array_acquire t i s;
                     n \<leftarrow> f_node (file_at t i s1);
                     (ret, iob, s2) \<leftarrow> vop vs (f n (iobuf_init mem 0 len (f_pos (file_at t i s1)))) n s1;
                     let copied = iobuf_used iob;
                     let s3 = (if f_status (file_at t i s2) = FD_OPENED
                               then upd_fd t i (\<lambda>x. x\<lparr>f_pos := f_pos x + int copied\<rparr>) s2 else s2);
                     s4 \<leftarrow> fd_array_release V t i s3;
                     Some (ret, copied, io_mem iob, s4) } }"

definition file_read ::
  "'a fstate_scheme inode_ops \<Rightarrow> int \<Rightarrow> byte list \<Rightarrow> nat \<Rightarrow> 'a fstate_scheme \<Rightarrow> (int \<times> nat \<times> byte list \<times> 'a fstate_scheme) option" where
  "file_read V = file_io V f_readable Vread (op_read V)"

definition file_write ::
  "'a fstate_scheme inode_ops \<Rightarrow> int \<Rightarrow> byte list \<Rightarrow> nat \<Rightarrow> 'a fstate_scheme \<Rightarrow> (int \<times> nat \<times> byte list \<times> 'a fstate_scheme) option" where
  "file_write V = file_io V f_writable Vwrite (op_write V)"

definition file_seek :: "'a fstate_scheme inode_ops \<Rightarrow> int \<Rightarrow> int \<Rightarrow> int \<Rightarrow> 'a fstate_scheme \<Rightarrow> (int \<times> 'a fstate_scheme) option" where
  "file_seek V fd pos whence s =
     do { r \<leftarrow> fd2file fd s;
          case r of
            Inl e \<Rightarrow> Some (e, s)
          | Inr (t, i) \<Rightarrow>
              do { s1 \<leftarrow> fd_array_acquire t i s;
                   n \<leftarrow> f_node (file_at t i s1);
                   (ret, pos', s2) \<leftarrow>
                     (if whence = LSEEK_SET then Some (0, pos, s1)
                      else if whence = LSEEK_CUR then Some (0, pos + f_pos (file_at t i s1), s1)
                      else if whence = LSEEK_END then
                        do { (ret, st, s2) \<leftarrow> vop Vfstat (op_fstat V n) n s1;
                             Some (ret, if ret = 0 then pos + int (st_size st) else pos, s2) }
                      else Some (- E_INVAL, pos, s1));
                   (ret, s3) \<leftarrow>
                     (if ret = 0 then
                        do { (ret, s3) \<leftarrow> vop Vtryseek (op_tryseek V n pos') n s2;
                             Some (ret, if ret = 0 then upd_fd t i (\<lambda>f. f\<lparr>f_pos := pos'\<rparr>) s3 else s3) }
                      else Some (ret, s2));
                   s4 \<leftarrow> fd_array_release V t i s3;
                   Some (ret, s4) } }"

definition file_fstat :: "'a fstate_scheme inode_ops \<Rightarrow> int \<Rightarrow> 'a fstate_scheme \<Rightarrow> (int \<times> stat option \<times> 'a fstate_scheme) option" where
  "file_fstat V fd s =
     do { r \<leftarrow> fd2file fd s;
          case r of
            Inl e \<Rightarrow> Some (e, None, s)
          | Inr (t, i) \<Rightarrow>
              do { s1 \<leftarrow> fd_array_acquire t i s;
                   n \<leftarrow> f_node (file_at t i s1);
                   (ret, st, s2) \<leftarrow> vop Vfstat (op_fstat V n) n s1;
                   s3 \<leftarrow> fd_array_release V t i s2;
                   Some (ret, Some st, s3) } }"

definition file_fsync :: "'a fstate_scheme inode_ops \<Rightarrow> int \<Rightarrow> 'a fstate_scheme \<Rightarrow> (int \<times> 'a fstate_scheme) option" where
  "file_fsync V fd s =
     do { r \<leftarrow> fd2file fd s;
          case r of
            Inl e \<Rightarrow> Some (e, s)
          | Inr (t, i) \<Rightarrow>
              do { s1 \<leftarrow> fd_array_acquire t i s;
                   n \<leftarrow> f_node (file_at t i s1);
                   (ret, s2) \<leftarrow> vop Vfsync (op_fsync V n) n s1;
                   s3 \<leftarrow> fd_array_release V t i s2;
                   Some (ret, s3) } }"

definition file_getdirentry ::
  "'a fstate_scheme inode_ops \<Rightarrow> int \<Rightarrow> dirent \<Rightarrow> 'a fstate_scheme \<Rightarrow> (int \<times> dirent \<times> 'a fstate_scheme) option" where
  "file_getdirentry V fd d s =
     do { r \<leftarrow> fd2file fd s;
          case r of
            Inl e \<Rightarrow> Some (e, d, s)
          | Inr (t, i) \<Rightarrow>
              do { s1 \<leftarrow> fd_array_acquire t i s;
                   n \<leftarrow> f_node (file_at t i s1);
                   (ret, iob, s2) \<leftarrow> vop Vgetdirentry (op_getdirentry V n (iobuf_init (de_name d) 0 (length (de_name d)) (de_offset d))) n s1;
                   let d' = d\<lparr>de_name := io_mem iob\<rparr>;
                   let d'' = (if ret = 0 then d'\<lparr>de_offset := de_offset d + int (iobuf_used iob)\<rparr> else d');
                   s3 \<leftarrow> fd_array_release V t i s2;
                   Some (ret, d'', s3) } }"

definition file_dup :: "int \<Rightarrow> int \<Rightarrow> 'a fstate_scheme \<Rightarrow> (int \<times> 'a fstate_scheme) option" where
  "file_dup fd1 fd2 s =
     do { r1 \<leftarrow> fd2file fd1 s;
          case r1 of
            Inl e \<Rightarrow> Some (e, s)
          | Inr (t1, i1) \<Rightarrow>
              do { (r2, s1) \<leftarrow> fd_array_alloc fd2 s;
                   case r2 of
                     Inl e \<Rightarrow> Some (e, s1)
                   | Inr (t2, i2) \<Rightarrow>
                       do { s2 \<leftarrow> fd_array_dup t2 i2 t1 i1 s1;
                            Some (f_fd (file_at t2 i2 s2), s2) } } }"

subsection \<open>Tables of open files\<close>

definition files_count_inc :: "nat \<Rightarrow> 'a fstate_scheme \<Rightarrow> 'a fstate_scheme" where
  "files_count_inc t s = upd_files t (\<lambda>x. x\<lparr>files_count := files_count x + 1\<rparr>) s"

definition files_count_dec :: "nat \<Rightarrow> 'a fstate_scheme \<Rightarrow> int \<times> 'a fstate_scheme" where
  "files_count_dec t s =
     (let s1 = upd_files t (\<lambda>x. x\<lparr>files_count := files_count x - 1\<rparr>) s in (files_count (files s1 t), s1))"

text \<open>\<open>alloc\<close> is \<^verbatim>\<open>kmalloc\<close> for a table; the entries of the new memory hold arbitrary values.\<close>

definition files_create ::
  "('a fstate_scheme \<Rightarrow> (nat \<times> file_entry list) option \<times> 'a fstate_scheme) \<Rightarrow> 'a fstate_scheme \<Rightarrow> nat option \<times> 'a fstate_scheme" where
  "files_create alloc s =
     (case alloc s of
        (None, s1) \<Rightarrow> (None, s1)
      | (Some (t, junk), s1) \<Rightarrow>
          (Some t, upd_files t (\<lambda>_. \<lparr>pwd = None, fd_array = fd_array_init junk, files_count = 0\<rparr>) s1))"

fun files_destroy_loop :: "'a fstate_scheme inode_ops \<Rightarrow> nat \<Rightarrow> nat list \<Rightarrow> 'a fstate_scheme \<Rightarrow> 'a fstate_scheme option" where
  "files_destroy_loop V t [] s = Some s"
| "files_destroy_loop V t (i # is) s =
     do { s1 \<leftarrow> (if f_status (file_at t i s) = FD_OPENED then fd_array_close V t i s else Some s);
          kassert (f_status (file_at t i s1) = FD_NONE);
          files_destroy_loop V t is s1 }"

definition files_destroy :: "'a fstate_scheme inode_ops \<Rightarrow> nat \<Rightarrow> 'a fstate_scheme \<Rightarrow> 'a fstate_scheme option" where
  "files_destroy V t s =
     do { kassert (files_count (files s t) = 0);
          s1 \<leftarrow> (case pwd (files s t) of None \<Rightarrow> Some s | Some n \<Rightarrow> inode_ref_dec V n s);
          files_destroy_loop V t [0..<FILES_STRUCT_NENTRY] s1 }"

fun files_closeall_loop :: "'a fstate_scheme inode_ops \<Rightarrow> nat \<Rightarrow> nat list \<Rightarrow> 'a fstate_scheme \<Rightarrow> 'a fstate_scheme option" where
  "files_closeall_loop V t [] s = Some s"
| "files_closeall_loop V t (i # is) s =
     do { s1 \<leftarrow> (if f_status (file_at t i s) = FD_OPENED then fd_array_close V t i s else Some s);
          files_closeall_loop V t is s1 }"

definition files_closeall :: "'a fstate_scheme inode_ops \<Rightarrow> nat \<Rightarrow> 'a fstate_scheme \<Rightarrow> 'a fstate_scheme option" where
  "files_closeall V t s =
     do { kassert (files_count (files s t) > 0);
          files_closeall_loop V t [2..<FILES_STRUCT_NENTRY] s }"

fun dup_files_loop :: "nat \<Rightarrow> nat \<Rightarrow> nat list \<Rightarrow> 'a fstate_scheme \<Rightarrow> 'a fstate_scheme option" where
  "dup_files_loop tt ft [] s = Some s"
| "dup_files_loop tt ft (i # is) s =
     do { s1 \<leftarrow> (if f_status (file_at ft i s) = FD_OPENED
                  then fd_array_dup tt i ft i (upd_fd tt i (\<lambda>f. f\<lparr>f_status := FD_INIT\<rparr>) s) else Some s);
          dup_files_loop tt ft is s1 }"

definition dup_files :: "nat \<Rightarrow> nat \<Rightarrow> 'a fstate_scheme \<Rightarrow> (int \<times> 'a fstate_scheme) option" where
  "dup_files tt ft s =
     do { kassert (files_count (files s tt) = 0 \<and> files_count (files s ft) > 0);
          let s1 = upd_files tt (\<lambda>x. x\<lparr>pwd := pwd (files s ft)\<rparr>) s;
          let s2 = (case pwd (files s1 tt) of None \<Rightarrow> s1 | Some n \<Rightarrow> inode_ref_inc n s1);
          s3 \<leftarrow> dup_files_loop tt ft [0..<FILES_STRUCT_NENTRY] s2;
          Some (0, s3) }"

text \<open>
  \<^verbatim>\<open>copy_files\<close> gives the table of the new process; 0x800 is \<^verbatim>\<open>CLONE_FS\<close>. \<^verbatim>\<open>put_files\<close> gives
  up one process's share of a table.
\<close>

definition copy_files ::
  "('a fstate_scheme \<Rightarrow> (nat \<times> file_entry list) option \<times> 'a fstate_scheme) \<Rightarrow> 'a fstate_scheme inode_ops \<Rightarrow> 32 word \<Rightarrow>
   'a fstate_scheme \<Rightarrow> ((int + nat) \<times> 'a fstate_scheme) option" where
  "copy_files alloc V clone_flags s =
     do { old \<leftarrow> current_filesp s;
          if clone_flags AND 0x800 \<noteq> 0 then Some (Inr old, files_count_inc old s)
          else case files_create alloc s of
            (None, s1) \<Rightarrow> Some (Inl (- E_NO_MEM), s1)
          | (Some t, s1) \<Rightarrow>
              do { (ret, s2) \<leftarrow> dup_files t old s1;
                   if ret \<noteq> 0 then do { s3 \<leftarrow> files_destroy V t s2; Some (Inl ret, s3) }
                   else Some (Inr t, files_count_inc t s2) } }"

definition put_files :: "'a fstate_scheme inode_ops \<Rightarrow> nat option \<Rightarrow> 'a fstate_scheme \<Rightarrow> 'a fstate_scheme option" where
  "put_files V filesp s =
     (case filesp of
        None \<Rightarrow> Some s
      | Some t \<Rightarrow> (case files_count_dec t s of (c, s1) \<Rightarrow> if c = 0 then files_destroy V t s1 else Some s1))"

end
