(* ===== verification/SfsOps.thy ===== *)
theory SfsOps
  imports SfsWrite FileTable
begin

text \<open>
  The operations of an inode of the simple file system as the VFS calls them
  (\<^verbatim>\<open>sfs_node_dirops\<close> and \<^verbatim>\<open>sfs_node_fileops\<close> of \<^verbatim>\<open>kern/fs/sfs/sfs_inode.c\<close>), as far as they
  concern one inode: they take the inode's lock around the functions of \<open>SfsInode\<close>. The
  operations that need the table of loaded inodes are in \<open>SfsNode\<close>.

  Each operation takes the inode and the file system and returns the code and both.
\<close>

subsection \<open>Types and opening\<close>

definition S_IFREG :: "32 word" where "S_IFREG = 0x1000"
definition S_IFDIR :: "32 word" where "S_IFDIR = 0x2000"
definition S_IFLNK :: "32 word" where "S_IFLNK = 0x3000"

definition sfs_get_ops :: "nat \<Rightarrow> ops_table option" where
  "sfs_get_ops type =
     (if type = SFS_TYPE_DIR then Some sfs_node_dirops
      else if type = SFS_TYPE_FILE then Some sfs_node_fileops
      else kpanic)"

definition sfs_opendir :: "32 word \<Rightarrow> int" where
  "sfs_opendir open_flags =
     (if open_flags AND O_ACCMODE \<noteq> O_RDONLY then - E_ISDIR
      else if open_flags AND O_APPEND \<noteq> 0 then - E_ISDIR
      else 0)"

definition sfs_openfile :: "32 word \<Rightarrow> int" where
  "sfs_openfile open_flags = 0"

definition sfs_gettype :: "sfs_inode \<Rightarrow> (int \<times> 32 word) option" where
  "sfs_gettype sin =
     (if din_type (din sin) = SFS_TYPE_DIR then Some (0, S_IFDIR)
      else if din_type (din sin) = SFS_TYPE_FILE then Some (0, S_IFREG)
      else if din_type (din sin) = SFS_TYPE_LINK then Some (0, S_IFLNK)
      else kpanic)"

definition sfs_fstat :: "sfs_inode \<Rightarrow> (int \<times> stat) option" where
  "sfs_fstat sin =
     do { let st = \<lparr>st_mode = 0, st_nlinks = 0, st_blocks = 0, st_size = 0\<rparr>;
          (ret, mode) \<leftarrow> sfs_gettype sin;
          if ret \<noteq> 0 then Some (ret, st)
          else Some (0, st\<lparr>st_mode := mode, st_nlinks := din_nlinks (din sin), st_blocks := din_blocks (din sin),
                           st_size := din_size (din sin)\<rparr>) }"

subsection \<open>Transfers\<close>

definition sfs_io :: "sfs_inode \<Rightarrow> iobuf \<Rightarrow> bool \<Rightarrow> 'a sfs_fs_scheme \<Rightarrow> (int \<times> iobuf \<times> sfs_inode \<times> 'a sfs_fs_scheme) option" where
  "sfs_io sin iob wr fs =
     do { sin1 \<leftarrow> lock_sin sin;
          (ret, mem, alen, sin2, fs2) \<leftarrow> sfs_io_nolock sin1 (io_mem iob) (io_base iob) (io_offset iob) (io_resid iob) wr fs;
          let iob1 = iob\<lparr>io_mem := mem\<rparr>;
          iob2 \<leftarrow> (if alen \<noteq> 0 then iobuf_skip alen iob1 else Some iob1);
          Some (ret, iob2, unlock_sin sin2, fs2) }"

definition sfs_read where "sfs_read sin iob fs = sfs_io sin iob False fs"

definition sfs_write where "sfs_write sin iob fs = sfs_io sin iob True fs"

text \<open>Writes the inode back; the flag is tested again once the lock is held.\<close>

definition sfs_fsync :: "sfs_inode \<Rightarrow> 'a sfs_fs_scheme \<Rightarrow> (int \<times> sfs_inode \<times> 'a sfs_fs_scheme) option" where
  "sfs_fsync sin fs =
     (if sin_dirty sin then
        do { sin1 \<leftarrow> lock_sin sin;
             (ret, sin2, fs2) \<leftarrow>
               (if sin_dirty sin1 then
                  do { let sin2 = sin1\<lparr>sin_dirty := False\<rparr>;
                       (ret, _, fs2) \<leftarrow> sfs_wbuf (enc_din (din sin2)) 0 64 (sin_ino sin2) 0 fs;
                       Some (ret, if ret \<noteq> 0 then sin2\<lparr>sin_dirty := True\<rparr> else sin2, fs2) }
                else Some (0, sin1, fs));
             Some (ret, unlock_sin sin2, fs2) }
      else Some (0, sin, fs))"

definition sfs_close where "sfs_close sin fs = sfs_fsync sin fs"

text \<open>The entry that was read is copied out by its name; \<open>kmalloc\<close> tells whether the buffer could be had.\<close>

definition sfs_getdirentry ::
  "bool \<Rightarrow> sfs_inode \<Rightarrow> iobuf \<Rightarrow> 'a sfs_fs_scheme \<Rightarrow> (int \<times> iobuf \<times> sfs_inode \<times> 'a sfs_fs_scheme) option" where
  "sfs_getdirentry kmalloc sin iob fs =
     (if \<not> kmalloc then Some (- E_NO_MEM, iob, sin, fs)
      else if io_offset iob < 0 \<or> io_offset iob mod 256 \<noteq> 0 then Some (- E_INVAL, iob, sin, fs)
      else
        let slot = u32 (nat (io_offset iob) div 256) in
        if slot > din_blocks (din sin) then Some (- E_NOENT, iob, sin, fs)
        else
          do { sin1 \<leftarrow> lock_sin sin;
               (ret, e, sin2, fs2) \<leftarrow> sfs_getdirentry_sub_nolock sin1 slot fs;
               if ret \<noteq> 0 then Some (ret, iob, unlock_sin sin2, fs2)
               else do { entry \<leftarrow> e;
                         (ret2, iob2, _) \<leftarrow> iobuf_move iob (ent_name entry) 256 True;
                         Some (ret2, iob2, unlock_sin sin2, fs2) } })"

subsection \<open>Changing the size\<close>

definition ROUNDUP_DIV :: "nat \<Rightarrow> nat \<Rightarrow> nat" where
  "ROUNDUP_DIV a n = (a + n - 1) div n"

text \<open>The two loops of \<^verbatim>\<open>sfs_truncfile\<close>.\<close>

partial_function (option) trunc_grow ::
  "nat \<Rightarrow> nat \<Rightarrow> sfs_inode \<Rightarrow> 'a sfs_fs_scheme \<Rightarrow> (int \<times> sfs_inode \<times> 'a sfs_fs_scheme) option" where
  "trunc_grow nblks tblks sin fs =
     (if nblks \<noteq> tblks then
        do { (ret, _, sin1, fs1) \<leftarrow> sfs_bmap_load_nolock sin nblks fs;
             if ret \<noteq> 0 then Some (ret, sin1, fs1) else trunc_grow (u32 (nblks + 1)) tblks sin1 fs1 }
      else Some (0, sin, fs))"

partial_function (option) trunc_shrink ::
  "nat \<Rightarrow> nat \<Rightarrow> sfs_inode \<Rightarrow> 'a sfs_fs_scheme \<Rightarrow> (int \<times> sfs_inode \<times> 'a sfs_fs_scheme) option" where
  "trunc_shrink nblks tblks sin fs =
     (if tblks \<noteq> nblks then
        do { (ret, sin1, fs1) \<leftarrow> sfs_bmap_truncate_nolock sin fs;
             if ret \<noteq> 0 then Some (ret, sin1, fs1) else trunc_shrink (nblks - 1) tblks sin1 fs1 }
      else Some (0, sin, fs))"

definition sfs_truncfile :: "sfs_inode \<Rightarrow> int \<Rightarrow> 'a sfs_fs_scheme \<Rightarrow> (int \<times> sfs_inode \<times> 'a sfs_fs_scheme) option" where
  "sfs_truncfile sin len fs =
     (if len < 0 \<or> len > int SFS_MAX_FILE_SIZE then Some (- E_INVAL, sin, fs)
      else
        let tblks = u32 (ROUNDUP_DIV (nat len) SFS_BLKSIZE) in
        if int (din_size (din sin)) = len then do { kassert (tblks = din_blocks (din sin)); Some (0, sin, fs) }
        else
          do { sin1 \<leftarrow> lock_sin sin;
               let nblks = din_blocks (din sin1);
               (ret, sin2, fs2) \<leftarrow>
                 (if nblks < tblks then trunc_grow nblks tblks sin1 fs
                  else if tblks < nblks then trunc_shrink nblks tblks sin1 fs
                  else Some (0, sin1, fs));
               if ret \<noteq> 0 then Some (ret, unlock_sin sin2, fs2)
               else do { kassert (din_blocks (din sin2) = tblks);
                         Some (0, unlock_sin ((upd_din (\<lambda>d. d\<lparr>din_size := nat len\<rparr>) sin2)\<lparr>sin_dirty := True\<rparr>), fs2) } })"

definition sfs_tryseek :: "sfs_inode \<Rightarrow> int \<Rightarrow> 'a sfs_fs_scheme \<Rightarrow> (int \<times> sfs_inode \<times> 'a sfs_fs_scheme) option" where
  "sfs_tryseek sin pos fs =
     (if pos < 0 \<or> pos \<ge> int SFS_MAX_FILE_SIZE then Some (- E_INVAL, sin, fs)
      else if pos > int (din_size (din sin)) then sfs_truncfile sin pos fs
      else Some (0, sin, fs))"

subsection \<open>The loops of truncation\<close>

text \<open>
  The file has got another number of blocks: it was cut, or blocks of zeros were appended,
  and what it does not own any more is free.
\<close>

definition resized :: "sfs_inode \<Rightarrow> 'a sfs_fs_scheme \<Rightarrow> sfs_inode \<Rightarrow> 'a sfs_fs_scheme \<Rightarrow> bool" where
  "resized sin fs sin' fs' \<longleftrightarrow> inode_ok sin' fs' \<and> same_file sin sin' \<and> fs_step (owned sin fs) fs fs' \<and>
     owned sin' fs' \<subseteq> owned sin fs \<union> free_blocks fs \<and> free_blocks fs' = (free_blocks fs \<union> owned sin fs) - owned sin' fs' \<and>
     file_data sin' fs' = take (nblocks sin' * 4096) (file_data sin fs @ replicate ((nblocks sin' - nblocks sin) * 4096) 0)"

lemma owned_not_free: "inode_ok sin fs \<Longrightarrow> owned sin fs \<inter> free_blocks fs = {}"
  by (auto simp: inode_ok_def in_use_def)

lemma trunc_grow_ok:
  assumes "fs_ok fs" "inode_ok sin fs" "nblocks sin \<le> tblks" "tblks \<le> MAX_BLKS"
  shows "\<exists>ret sin' fs'. trunc_grow (nblocks sin) tblks sin fs = Some (ret, sin', fs') \<and> wrote 0 [] sin fs sin' fs' \<and>
     (ret = 0 \<and> nblocks sin' = tblks \<or> ret = - E_NO_MEM \<and> nblocks sin' < tblks \<and> card (free_blocks fs') < 2)"
  using assms
proof (induction "tblks - nblocks sin" arbitrary: sin fs)
  case 0
  then have "nblocks sin = tblks" by simp
  then show ?case using wrote_nothing[OF 0(3) fs_step_refl[OF 0(2)]] by (simp add: trunc_grow.simps)
next
  case (Suc d)
  then have n: "nblocks sin \<noteq> tblks" "nblocks sin < MAX_BLKS" by auto
  consider (fail) fs' where "sfs_bmap_load_nolock sin (nblocks sin) fs = Some (- E_NO_MEM, 0, sin, fs')" "no_space fs fs'"
    | (got) b sin1 fs1 where "sfs_bmap_load_nolock sin (nblocks sin) fs = Some (0, b, sin1, fs1)" "grown sin fs b sin1 fs1"
    using bmap_load_new[OF Suc(3,4) n(2)] by blast
  then show ?case
  proof cases
    case fail
    then have "wrote 0 [] sin fs sin fs'" using wrote_nothing[OF Suc(4)] by (simp add: no_space_def)
    then show ?thesis using fail n Suc(5) by (subst trunc_grow.simps) (simp add: no_space_def E_NO_MEM_def)
  next
    case got
    note g = got(2)[unfolded grown_def]
    have "fs_ok fs1" using g fs_stepD(1) by blast
    then have w: "wrote 0 [] sin fs sin1 fs1" using g by (simp add: wrote_def put_nil)
    have pre: "d = tblks - nblocks sin1" "fs_ok fs1" "inode_ok sin1 fs1" "nblocks sin1 \<le> tblks"
      using g Suc(2,5) n(1) \<open>fs_ok fs1\<close> by auto
    obtain ret sin' fs' where r: "trunc_grow (nblocks sin1) tblks sin1 fs1 = Some (ret, sin', fs')" "wrote 0 [] sin1 fs1 sin' fs'"
      "ret = 0 \<and> nblocks sin' = tblks \<or> ret = - E_NO_MEM \<and> nblocks sin' < tblks \<and> card (free_blocks fs') < 2"
      using Suc(1)[OF pre Suc(6)] by blast
    have "trunc_grow (nblocks sin) tblks sin fs = Some (ret, sin', fs')"
      using got(1) g n(1) r(1) blocks_u32[OF Suc(4)] by (subst trunc_grow.simps) simp
    moreover have "wrote 0 ([] @ []) sin fs sin' fs'"
      by (rule wrote_trans[OF Suc(3,4) w]) (use r(2) in simp)
    ultimately show ?thesis using r(3) by auto
  qed
qed

lemma wrote_resized:
  assumes "fs_ok fs" "inode_ok sin fs" "wrote 0 [] sin fs sin' fs'"
  shows "resized sin fs sin' fs'"
proof -
  note w = assms(3)[unfolded wrote_def]
  have "length (file_data sin fs) = nblocks sin * 4096" by (rule length_file[OF assms(1,2)])
  then have "file_data sin' fs' = take (nblocks sin' * 4096) (file_data sin fs @ replicate ((nblocks sin' - nblocks sin) * 4096) 0)"
    using w by (simp add: put_nil diff_mult_distrib)
  moreover have "free_blocks fs' = (free_blocks fs \<union> owned sin fs) - owned sin' fs'"
    using w owned_not_free[OF assms(2)] by blast
  moreover have "owned sin' fs' \<subseteq> owned sin fs \<union> free_blocks fs" using w by blast
  ultimately show ?thesis using w unfolding resized_def by blast
qed

lemma shrunk_resized:
  assumes "fs_ok fs" "inode_ok sin fs" "nblocks sin \<noteq> 0" "shrunk sin fs sin' fs'"
  shows "resized sin fs sin' fs'"
proof -
  note s = assms(4)[unfolded shrunk_def]
  let ?b = "blkmap sin fs (nblocks sin - 1)"
  have "length (file_data sin' fs') = nblocks sin' * 4096" using length_file fs_stepD(1) s by blast
  moreover have "file_data sin' fs' @ content fs ?b = file_data sin fs" using s by blast
  ultimately have "file_data sin' fs' = take (nblocks sin' * 4096) (file_data sin fs)" by (metis append_eq_conv_conj)
  moreover have b: "?b \<in> owned sin fs" using assms(3) by (auto simp: owned_def)
  have f: "free_blocks fs' = insert ?b (free_blocks fs)" and o: "owned sin' fs' = owned sin fs - {?b}" using s by simp_all
  have "free_blocks fs' = (free_blocks fs \<union> owned sin fs) - owned sin' fs'"
    unfolding f o using b owned_not_free[OF assms(2)] by auto
  moreover have "owned sin' fs' \<subseteq> owned sin fs \<union> free_blocks fs" unfolding o by auto
  ultimately show ?thesis using s unfolding resized_def by (simp only: simp_thms) simp
qed

lemma resized_shorter_trans:
  assumes "fs_ok fs" "inode_ok sin fs" and 1: "resized sin fs sin1 fs1" and 2: "resized sin1 fs1 sin2 fs2"
    and n: "nblocks sin1 \<le> nblocks sin" "nblocks sin2 \<le> nblocks sin1"
  shows "resized sin fs sin2 fs2"
proof -
  note d1 = 1[unfolded resized_def] and d2 = 2[unfolded resized_def]
  have "file_data sin2 fs2 = take (nblocks sin2 * 4096) (file_data sin fs)" using d1 d2 n by (simp add: min_absorb1)
  moreover have "fs_step (owned sin fs) fs fs2" unfolding fs_step_def
  proof (intro conjI allI impI)
    show "fs_ok fs2" "blocks (super fs2) = blocks (super fs)" "fs_sem fs2 = fs_sem fs" "mutex_sem fs2 = mutex_sem fs"
      "sfs_fs.more fs2 = sfs_fs.more fs" using d1 d2 by (simp_all add: fs_step_def)
    fix c assume c: "c < blocks (super fs)" "c \<notin> free_blocks fs" "c \<notin> owned sin fs"
    then have "content fs1 c = content fs c" "c \<notin> free_blocks fs1" "c \<notin> owned sin1 fs1" "c < blocks (super fs1)"
      using d1 by (auto simp: fs_step_def)
    then show "content fs2 c = content fs c" using d2 by (simp add: fs_step_def)
  qed
  moreover have "owned sin2 fs2 \<subseteq> owned sin fs \<union> free_blocks fs" "free_blocks fs2 = (free_blocks fs \<union> owned sin fs) - owned sin2 fs2"
    using d1 d2 by blast+
  ultimately show ?thesis using d1 d2 n same_file_trans unfolding resized_def by auto
qed

lemma resized_refl: "fs_ok fs \<Longrightarrow> inode_ok sin fs \<Longrightarrow> resized sin fs sin fs"
  using wrote_resized[OF _ _ wrote_nothing[OF _ fs_step_refl]] by fastforce

lemma trunc_shrink_ok:
  assumes "fs_ok fs" "inode_ok sin fs" "tblks \<le> nblocks sin"
  shows "\<exists>sin' fs'. trunc_shrink (nblocks sin) tblks sin fs = Some (0, sin', fs') \<and> resized sin fs sin' fs' \<and> nblocks sin' = tblks"
  using assms
proof (induction "nblocks sin - tblks" arbitrary: sin fs)
  case 0
  then have "nblocks sin = tblks" by simp
  then show ?case using resized_refl[OF 0(2,3)] by (simp add: trunc_shrink.simps)
next
  case (Suc d)
  then have n: "tblks \<noteq> nblocks sin" "nblocks sin \<noteq> 0" by auto
  obtain sin1 fs1 where t: "sfs_bmap_truncate_nolock sin fs = Some (0, sin1, fs1)" "shrunk sin fs sin1 fs1"
    using bmap_truncate_ok[OF Suc(3,4) n(2)] by blast
  note r1 = shrunk_resized[OF Suc(3,4) n(2) t(2)]
  have n1: "nblocks sin1 = nblocks sin - 1" using t(2) by (simp add: shrunk_def)
  have ok1: "fs_ok fs1" "inode_ok sin1 fs1" using r1 fs_stepD(1) by (auto simp: resized_def)
  have pre: "d = nblocks sin1 - tblks" "tblks \<le> nblocks sin1" using Suc(2,5) n n1 by auto
  obtain sin' fs' where r: "trunc_shrink (nblocks sin1) tblks sin1 fs1 = Some (0, sin', fs')" "resized sin1 fs1 sin' fs'" "nblocks sin' = tblks"
    using Suc(1)[OF pre(1) ok1 pre(2)] by blast
  have "trunc_shrink (nblocks sin) tblks sin fs = Some (0, sin', fs')"
    using t(1) n(1) r(1) n1 by (subst trunc_shrink.simps) simp
  moreover have "resized sin fs sin' fs'"
    by (rule resized_shorter_trans[OF Suc(3,4) r1 r(2)]) (use n1 r(3) pre(2) in auto)
  ultimately show ?case using r(3) by blast
qed

subsection \<open>Truncation\<close>

text \<open>Lock, dirty flag and size of an inode play no part in what blocks it has.\<close>

lemma lock_irrelevant [simp]:
  "inode_ok (sin\<lparr>sin_sem := n\<rparr>) fs = inode_ok sin fs" "file_data (sin\<lparr>sin_sem := n\<rparr>) fs = file_data sin fs"
  "owned (sin\<lparr>sin_sem := n\<rparr>) fs = owned sin fs"
  "inode_ok (sin\<lparr>sin_dirty := d\<rparr>) fs = inode_ok sin fs" "file_data (sin\<lparr>sin_dirty := d\<rparr>) fs = file_data sin fs"
  "owned (sin\<lparr>sin_dirty := d\<rparr>) fs = owned sin fs"
proof -
  have m: "blkmap (sin\<lparr>sin_sem := n\<rparr>) fs = blkmap sin fs" "meta (sin\<lparr>sin_sem := n\<rparr>) = meta sin"
    "blkmap (sin\<lparr>sin_dirty := d\<rparr>) fs = blkmap sin fs" "meta (sin\<lparr>sin_dirty := d\<rparr>) = meta sin"
    by (simp_all add: blkmap_def meta_def fun_eq_iff)
  show "owned (sin\<lparr>sin_sem := n\<rparr>) fs = owned sin fs" "owned (sin\<lparr>sin_dirty := d\<rparr>) fs = owned sin fs"
    by (simp_all add: owned_def m)
  then show "inode_ok (sin\<lparr>sin_sem := n\<rparr>) fs = inode_ok sin fs" "inode_ok (sin\<lparr>sin_dirty := d\<rparr>) fs = inode_ok sin fs"
    by (simp_all add: inode_ok_def m)
  show "file_data (sin\<lparr>sin_sem := n\<rparr>) fs = file_data sin fs" "file_data (sin\<lparr>sin_dirty := d\<rparr>) fs = file_data sin fs"
    by (simp_all add: file_data_def m)
qed

lemma resized_lock:
  "resized (sin\<lparr>sin_sem := m\<rparr>) fs sin' fs' \<Longrightarrow> resized sin fs (sin'\<lparr>sin_sem := sin_sem sin\<rparr>) fs'"
  by (simp add: resized_def same_file_def)

lemma resize_blocks:
  assumes "fs_ok fs" "inode_ok sin fs" "tblks \<le> MAX_BLKS"
  shows "\<exists>ret sin' fs'. (if nblocks sin < tblks then trunc_grow (nblocks sin) tblks sin fs
                         else if tblks < nblocks sin then trunc_shrink (nblocks sin) tblks sin fs
                         else Some (0, sin, fs)) = Some (ret, sin', fs') \<and> resized sin fs sin' fs' \<and>
     (ret = 0 \<and> nblocks sin' = tblks \<or>
      ret = - E_NO_MEM \<and> nblocks sin \<le> nblocks sin' \<and> nblocks sin' < tblks \<and> card (free_blocks fs') < 2)"
proof -
  consider "nblocks sin < tblks" | "tblks < nblocks sin" | "nblocks sin = tblks" by linarith
  then show ?thesis
  proof cases
    case 1
    obtain ret sin' fs' where g: "trunc_grow (nblocks sin) tblks sin fs = Some (ret, sin', fs')" "wrote 0 [] sin fs sin' fs'"
      "ret = 0 \<and> nblocks sin' = tblks \<or> ret = - E_NO_MEM \<and> nblocks sin' < tblks \<and> card (free_blocks fs') < 2"
      using trunc_grow_ok[OF assms(1,2) less_imp_le[OF 1] assms(3)] by blast
    moreover have "nblocks sin \<le> nblocks sin'" using g(2) by (simp add: wrote_def)
    ultimately show ?thesis using 1 wrote_resized[OF assms(1,2) g(2)] by auto
  next
    case 2
    then show ?thesis using trunc_shrink_ok[OF assms(1,2), of tblks] by fastforce
  next
    case 3
    then show ?thesis using resized_refl[OF assms(1,2)] by simp
  qed
qed

lemma sfs_truncfile_resizes:
  assumes ok: "fs_ok fs" "inode_ok sin fs" "0 < sin_sem sin" and len: "len \<le> MAX_BLKS * 4096"
    and sz: "din_size (din sin) = len \<Longrightarrow> nblocks sin = ROUNDUP_DIV len 4096"
  shows "\<exists>ret sin' fs'. sfs_truncfile sin (int len) fs = Some (ret, sin', fs') \<and> sin_sem sin' = sin_sem sin \<and>
     (\<exists>sin1. resized sin fs sin1 fs' \<and> (ret = 0 \<and> (sin' = sin1 \<and> din_size (din sin) = len \<or> sin' = set_size len sin1) \<and> nblocks sin' = ROUNDUP_DIV len 4096 \<or>
        ret = - E_NO_MEM \<and> sin' = sin1 \<and> nblocks sin \<le> nblocks sin' \<and> nblocks sin' < ROUNDUP_DIV len 4096 \<and> card (free_blocks fs') < 2))"
proof -
  let ?t = "ROUNDUP_DIV len 4096"
  have "?t \<le> (MAX_BLKS * 4096 + 4096 - 1) div 4096" unfolding ROUNDUP_DIV_def using len by (intro div_le_mono) simp
  then have t: "?t \<le> MAX_BLKS" by (simp add: MAX_BLKS_def sfs_consts)
  then have u: "u32 ?t = ?t" by (intro u32_id) (simp add: MAX_BLKS_def sfs_consts)
  have rng: "\<not> (int len < 0 \<or> int len > int SFS_MAX_FILE_SIZE)" using len by (simp add: MAX_BLKS_def sfs_consts SFS_MAX_FILE_SIZE_def)
  show ?thesis
  proof (cases "din_size (din sin) = len")
    case True
    then have "sfs_truncfile sin (int len) fs = Some (0, sin, fs)"
      unfolding sfs_truncfile_def if_not_P[OF rng] using sz u by (simp add: sfs_consts)
    then show ?thesis using True sz resized_refl[OF ok(1,2)] by auto
  next
    case False
    define L where "L = sin\<lparr>sin_sem := sin_sem sin - 1\<rparr>"
    have l: "lock_sin sin = Some L" using ok(3) by (simp add: lock_sin_def L_def)
    have n: "nblocks L = nblocks sin" by (simp add: L_def)
    have lok: "inode_ok L fs" using ok(2) by (simp add: L_def)
    obtain ret sin1 fs' where r: "(if nblocks L < ?t then trunc_grow (nblocks L) ?t L fs
                         else if ?t < nblocks L then trunc_shrink (nblocks L) ?t L fs
                         else Some (0, L, fs)) = Some (ret, sin1, fs')" "resized L fs sin1 fs'"
       "ret = 0 \<and> nblocks sin1 = ?t \<or> ret = - E_NO_MEM \<and> nblocks L \<le> nblocks sin1 \<and> nblocks sin1 < ?t \<and> card (free_blocks fs') < 2"
      using resize_blocks[OF ok(1) lok t] by blast
    have sem: "sin_sem sin1 = sin_sem sin - 1" using r(2) by (simp add: resized_def same_file_def L_def)
    define sin' where "sin' = (if ret \<noteq> 0 then unlock_sin sin1 else unlock_sin (set_size len sin1))"
    have "sfs_truncfile sin (int len) fs = Some (ret, sin', fs')"
      unfolding sfs_truncfile_def if_not_P[OF rng] sin'_def using r(1,3) u l False by (auto simp: sfs_consts E_NO_MEM_def Let_def)
    moreover have "sin_sem sin' = sin_sem sin" using sem ok(3) by (simp add: sin'_def unlock_sin_def upd_din_def)
    moreover have "sin' = (if ret \<noteq> 0 then sin1\<lparr>sin_sem := sin_sem sin\<rparr> else set_size len (sin1\<lparr>sin_sem := sin_sem sin\<rparr>))"
      using sem ok(3) by (simp add: sin'_def unlock_sin_def upd_din_def)
    ultimately show ?thesis using resized_lock[OF r(2)[unfolded L_def]] r(3) n
      by (intro exI[of _ ret] exI[of _ sin'] exI[of _ fs'] conjI exI[of _ "sin1\<lparr>sin_sem := sin_sem sin\<rparr>"])
        (auto simp: E_NO_MEM_def upd_din_def)
  qed
qed

lemma resized_others:
  assumes "resized sin fs sin' fs'" "inode_ok oth fs" "owned oth fs \<inter> owned sin fs = {}"
  shows "inode_ok oth fs' \<and> file_data oth fs' = file_data oth fs \<and> owned oth fs' \<inter> owned sin' fs' = {}"
proof -
  note r = assms(1)[unfolded resized_def]
  show ?thesis by (rule other_after_step[OF _ assms(2,3)]) (use r in auto)
qed

text \<open>
  C25. Changing the size of a file whose block count fits its size, to any length the block map
  can hold, never fails an assertion and releases the inode's lock. Either the file has the new
  size and just the blocks for it, or the disk has run full (-E_NO_MEM with at most one block
  left) and the size is unchanged while blocks already added stay. The data are the old
  ones, cut at a block or followed by zeros; every block given up is free; every other file
  keeps its data.
\<close>

theorem sfs_truncfile_correct:
  fixes fs :: "'a sfs_fs_scheme"
  assumes "fs_ok fs" and "inode_ok sin fs" and "0 < sin_sem sin" and "nblocks sin = ROUNDUP_DIV (din_size (din sin)) 4096"
    and "len \<le> MAX_BLKS * 4096"
  shows "\<exists>ret sin' fs'. sfs_truncfile sin (int len) fs = Some (ret, sin', fs') \<and> fs_ok fs' \<and> inode_ok sin' fs' \<and> sin_sem sin' = sin_sem sin \<and>
    (ret = 0 \<and> din_size (din sin') = len \<and> nblocks sin' = ROUNDUP_DIV len 4096 \<or>
     ret = - E_NO_MEM \<and> din_size (din sin') = din_size (din sin) \<and> nblocks sin \<le> nblocks sin' \<and>
       nblocks sin' < ROUNDUP_DIV len 4096 \<and> card (free_blocks fs') < 2) \<and>
    file_data sin' fs' = take (nblocks sin' * 4096) (file_data sin fs @ replicate ((nblocks sin' - nblocks sin) * 4096) 0) \<and>
    free_blocks fs' = (free_blocks fs \<union> owned sin fs) - owned sin' fs' \<and>
    (\<forall>oth. inode_ok oth fs \<and> owned oth fs \<inter> owned sin fs = {} \<longrightarrow>
       inode_ok oth fs' \<and> file_data oth fs' = file_data oth fs \<and> owned oth fs' \<inter> owned sin' fs' = {})"
proof -
  obtain ret sin' fs' sin1 where t: "sfs_truncfile sin (int len) fs = Some (ret, sin', fs')" "sin_sem sin' = sin_sem sin" "resized sin fs sin1 fs'"
    "ret = 0 \<and> (sin' = sin1 \<and> din_size (din sin) = len \<or> sin' = set_size len sin1) \<and> nblocks sin' = ROUNDUP_DIV len 4096 \<or>
     ret = - E_NO_MEM \<and> sin' = sin1 \<and> nblocks sin \<le> nblocks sin' \<and> nblocks sin' < ROUNDUP_DIV len 4096 \<and> card (free_blocks fs') < 2"
    using sfs_truncfile_resizes[OF assms(1-3,5)] assms(4) by blast
  have same: "inode_ok sin' f = inode_ok sin1 f" "file_data sin' f = file_data sin1 f" "owned sin' f = owned sin1 f"
    "nblocks sin' = nblocks sin1" for f :: "'a sfs_fs_scheme" using t(4) by (elim disjE conjE, simp_all only: size_irrelevant)+
  note r = t(3)[unfolded resized_def]
  have "fs_ok fs'" using r fs_stepD(1) by blast
  moreover have "ret = 0 \<and> din_size (din sin') = len \<and> nblocks sin' = ROUNDUP_DIV len 4096 \<or>
     ret = - E_NO_MEM \<and> din_size (din sin') = din_size (din sin) \<and> nblocks sin \<le> nblocks sin' \<and>
       nblocks sin' < ROUNDUP_DIV len 4096 \<and> card (free_blocks fs') < 2"
    using t(4) r by (auto simp: same_file_def upd_din_def)
  ultimately show ?thesis using t(1,2) r resized_others[OF t(3)]
    by (intro exI[of _ ret] exI[of _ sin'] exI[of _ fs'] conjI) (simp_all only: same, blast+)
qed

lemma owned_card:
  "card (owned sin fs) \<le> Suc (nblocks sin)" "inode_ok sin fs \<Longrightarrow> nblocks sin \<le> card (owned sin fs)"
proof -
  have m: "card (meta sin) \<le> 1" "finite (meta sin)" 
    using card_mono[of "{din_indirect (din sin)}" "meta sin"] by (auto simp: meta_def)
  have "card (blkmap sin fs ` {0..<nblocks sin}) \<le> nblocks sin" using card_image_le[of "{0..<nblocks sin}"] by simp
  then show "card (owned sin fs) \<le> Suc (nblocks sin)"
    using m card_Un_le[of "meta sin" "blkmap sin fs ` {0..<nblocks sin}"] unfolding owned_def by linarith
  assume "inode_ok sin fs"
  then have "nblocks sin = card (blkmap sin fs ` {0..<nblocks sin})" by (simp add: inode_ok_def card_image)
  also have "\<dots> \<le> card (owned sin fs)" unfolding owned_def by (rule card_mono) (simp_all add: m(2))
  finally show "nblocks sin \<le> card (owned sin fs)" .
qed

lemma demo_trunc:
  "fs_ok demo_fs" "inode_ok demo_sin demo_fs" "0 < sin_sem demo_sin" "nblocks demo_sin = ROUNDUP_DIV (din_size (din demo_sin)) 4096"
  "free_blocks demo_fs \<union> owned demo_sin demo_fs = {3, 4, 5, 6, 7}" "din_size (din demo_sin) = 4096" "nblocks demo_sin = 1"
proof -
  show b: "din_size (din demo_sin) = 4096" "nblocks demo_sin = 1" "0 < sin_sem demo_sin" by (simp_all add: demo_sin_def)
  then show "nblocks demo_sin = ROUNDUP_DIV (din_size (din demo_sin)) 4096" by (simp add: ROUNDUP_DIV_def)
  have "owned demo_sin demo_fs = {3}" using demo_map[of 0 demo_fs] by (simp add: owned_def b MAX_BLKS_def sfs_consts meta_def) (simp add: demo_sin_def)
  then show "free_blocks demo_fs \<union> owned demo_sin demo_fs = {3, 4, 5, 6, 7}" by (simp add: demo_free)
qed (rule demo_fs_ok demo_sin_ok)+

lemma demo_share:
  assumes "free_blocks fs' = {3, 4, 5, 6, 7} - owned sin' fs'"
  shows "card (owned sin' fs' \<inter> {3, 4, 5, 6, 7}) + card (free_blocks fs') = 5"
proof -
  have "card (({3, 4, 5, 6, 7} \<inter> owned sin' fs') \<union> ({3, 4, 5, 6, 7} - owned sin' fs')) =
      card ({3, 4, 5, 6, 7} \<inter> owned sin' fs') + card ({3, 4, 5, 6, 7} - owned sin' fs')" by (rule card_Un_disjoint) auto
  moreover have "({3, 4, 5, 6, 7} \<inter> owned sin' fs') \<union> ({3, 4, 5, 6, 7} - owned sin' fs') = {3, 4, 5, 6, 7}" by blast
  ultimately show ?thesis using assms by (simp add: Int_commute)
qed

theorem sfs_truncfile_correct_witness:
  "\<exists>sin' fs'. sfs_truncfile demo_sin (int 10000) demo_fs = Some (0, sin', fs') \<and> fs_ok fs' \<and> din_size (din sin') = 10000 \<and> nblocks sin' = 3"
proof -
  have len: "(10000 :: nat) \<le> MAX_BLKS * 4096" by (simp add: MAX_BLKS_def sfs_consts)
  obtain ret sin' fs' where t: "sfs_truncfile demo_sin (int 10000) demo_fs = Some (ret, sin', fs')" "fs_ok fs'" "inode_ok sin' fs'"
    "ret = 0 \<and> din_size (din sin') = 10000 \<and> nblocks sin' = ROUNDUP_DIV 10000 4096 \<or>
     ret = - E_NO_MEM \<and> nblocks sin' < ROUNDUP_DIV 10000 4096 \<and> card (free_blocks fs') < 2"
    "free_blocks fs' = (free_blocks demo_fs \<union> owned demo_sin demo_fs) - owned sin' fs'"
    using sfs_truncfile_correct[OF demo_trunc(1-4) len] by (elim exE conjE) metis
  have f: "finite (owned sin' fs')" by (simp add: owned_def meta_def)
  have "card (owned sin' fs' \<inter> {3, 4, 5, 6, 7}) \<le> Suc (nblocks sin')"
    using order_trans[OF card_mono[OF f Int_lower1] owned_card(1)] .
  then have "\<not> (nblocks sin' < 3 \<and> card (free_blocks fs') < 2)" using demo_share[OF t(5)[unfolded demo_trunc(5)]] by linarith
  then show ?thesis using t by (auto simp: ROUNDUP_DIV_def)
qed

text \<open>
  An enlargement that fails half-way leaves more blocks than the size needs. Setting the
  file to the size it has then fails an assertion.
\<close>

lemma same_size_panics:
  assumes "din_size (din sin) \<le> SFS_MAX_FILE_SIZE" "u32 (ROUNDUP_DIV (din_size (din sin)) 4096) \<noteq> nblocks sin"
  shows "sfs_truncfile sin (int (din_size (din sin))) fs = None"
  using assms by (simp add: sfs_truncfile_def sfs_consts)

lemma failed_growth_panics:
  "\<exists>sin' fs'. sfs_truncfile demo_sin (int 40960) demo_fs = Some (- E_NO_MEM, sin', fs') \<and> din_size (din sin') = 4096 \<and>
     sfs_truncfile sin' (int 4096) fs' = None"
proof -
  have len: "40960 \<le> MAX_BLKS * 4096" by (simp add: MAX_BLKS_def sfs_consts)
  obtain ret sin' fs' sin1 where t: "sfs_truncfile demo_sin (int 40960) demo_fs = Some (ret, sin', fs')" "resized demo_sin demo_fs sin1 fs'"
    "ret = 0 \<and> (sin' = sin1 \<and> din_size (din demo_sin) = 40960 \<or> sin' = set_size 40960 sin1) \<and> nblocks sin' = ROUNDUP_DIV 40960 4096 \<or>
     ret = - E_NO_MEM \<and> sin' = sin1 \<and> card (free_blocks fs') < 2"
    using sfs_truncfile_resizes[OF demo_trunc(1-3) len] demo_trunc(6) by fastforce
  have r: "owned sin1 fs' \<subseteq> {3, 4, 5, 6, 7}" "free_blocks fs' = {3, 4, 5, 6, 7} - owned sin1 fs'" "inode_ok sin1 fs'"
    "same_file demo_sin sin1" using t(2) demo_trunc(5) by (auto simp: resized_def)
  have "nblocks sin1 \<le> 5" using order_trans[OF owned_card(2)[OF r(3)] card_mono[OF _ r(1)]] by simp
  then have fail: "ret = - E_NO_MEM" "sin' = sin1" "card (free_blocks fs') < 2" using t(3) by (auto simp: ROUNDUP_DIV_def upd_din_def)
  have sz: "din_size (din sin') = 4096" using r(4) fail(2) demo_trunc(6) by (simp add: same_file_def)
  have "owned sin1 fs' \<inter> {3, 4, 5, 6, 7} = owned sin1 fs'" using r(1) by blast
  then have "card (owned sin1 fs') + card (free_blocks fs') = 5" using demo_share[OF r(2)] by simp
  then have "nblocks sin' > 1" using fail(3) owned_card(1)[of sin1 fs'] unfolding fail(2) by linarith
  moreover have "u32 (ROUNDUP_DIV 4096 4096) = 1" by (simp add: ROUNDUP_DIV_def u32_def)
  ultimately have "sfs_truncfile sin' (int 4096) fs' = None"
    using same_size_panics[of sin' fs'] by (simp add: sz SFS_MAX_FILE_SIZE_def)
  then show ?thesis using t(1) fail sz by blast
qed

text \<open>The block map ends at \<open>MAX_BLKS\<close> blocks, well before \<^verbatim>\<open>SFS_MAX_FILE_SIZE\<close>.\<close>

lemma block_map_ends: "MAX_BLKS \<le> k \<Longrightarrow> sfs_bmap_get_nolock sin k create fs = None" "MAX_BLKS * 4096 < SFS_MAX_FILE_SIZE div 30"
  by (auto simp: sfs_bmap_get_nolock_def MAX_BLKS_def sfs_consts Let_def SFS_MAX_FILE_SIZE_def)

subsection \<open>Writing an inode back\<close>

definition din_stored :: "nat \<Rightarrow> sfs_disk_inode \<Rightarrow> 'a sfs_fs_scheme \<Rightarrow> bool" where
  "din_stored ino d fs \<longleftrightarrow> dec_din (get_bytes 0 64 (content fs ino)) = d"

lemma stored_put:
  assumes "io_ok fs" "upd_block b (put_bytes 0 (enc_din d) (content fs b)) fs fs'" "din_ok d" "b < blocks (super fs)"
  shows "din_stored b d fs'"
proof -
  have "content fs' b = put_bytes 0 (enc_din d) (content fs b)" using assms(2,4) by (simp add: upd_block_def)
  then have "get_bytes 0 64 (content fs' b) = enc_din d @ []"
    using assms(1,4) length_enc_din[OF assms(3)] by (simp add: put_bytes_def get_bytes_def)
  then show ?thesis using dec_enc_din[OF assms(3), of "[]"] by (simp add: din_stored_def)
qed

lemma sfs_fsync_ok:
  assumes "fs_ok fs" "in_use fs (sin_ino sin)" "0 < sin_sem sin" "din_ok (din sin)" "\<not> sin_dirty sin \<Longrightarrow> din_stored (sin_ino sin) (din sin) fs"
  shows "\<exists>fs'. sfs_fsync sin fs = Some (0, sin\<lparr>sin_dirty := False\<rparr>, fs') \<and> io_frame fs fs' \<and> din_stored (sin_ino sin) (din sin) fs' \<and>
     (\<forall>c<blocks (super fs). c \<noteq> sin_ino sin \<longrightarrow> content fs' c = content fs c)"
proof (cases "sin_dirty sin")
  case False
  then show ?thesis using assms by (auto simp: sfs_fsync_def io_frame_def fs_ok_def)
next
  case True
  let ?d = "enc_din (din sin)"
  have io: "io_ok fs" "io_sem fs = 1" and b: "0 < sin_ino sin" "sin_ino sin < blocks (super fs)"
    using assms(1,2) by (auto simp: fs_ok_def in_use_def)
  obtain fs' where w: "sfs_wbuf ?d 0 64 (sin_ino sin) (int 0) fs = Some (0, ?d, fs')" "io_frame fs fs'"
    "upd_block (sin_ino sin) (put_bytes 0 (get_bytes 0 64 ?d) (content fs (sin_ino sin))) fs fs'"
    using sfs_wbuf_ok[OF io b, of 0 64 0 ?d] length_enc_din[OF assms(4)] by auto
  have "get_bytes 0 64 ?d = ?d" using length_enc_din[OF assms(4)] by (simp add: get_bytes_def)
  then have u: "upd_block (sin_ino sin) (put_bytes 0 ?d (content fs (sin_ino sin))) fs fs'" using w(3) by simp
  then have "sfs_fsync sin fs = Some (0, sin\<lparr>sin_dirty := False\<rparr>, fs')"
    using True assms(3) w(1) by (simp add: sfs_fsync_def lock_sin_def unlock_sin_def)
  then show ?thesis using w(2) u stored_put[OF io(1) u assms(4) b(2)] by (auto simp: upd_block_def)
qed

subsection \<open>Directories\<close>

definition dir_entry :: "sfs_inode \<Rightarrow> 'a sfs_fs_scheme \<Rightarrow> nat \<Rightarrow> sfs_disk_entry" where
  "dir_entry sin fs k =
     (let e = dec_entry (get_bytes 0 260 (content fs (blkmap sin fs k))) in e\<lparr>ent_name := (ent_name e)[SFS_MAX_FNAME_LEN := 0]\<rparr>)"

definition quiet_io :: "'a sfs_fs_scheme \<Rightarrow> 'a sfs_fs_scheme \<Rightarrow> bool" where
  "quiet_io fs fs' \<longleftrightarrow> io_frame fs fs' \<and> same_blocks fs fs'"

lemma quiet_io_refl: "fs_ok fs \<Longrightarrow> quiet_io fs fs"
  by (simp add: quiet_io_def io_frame_def same_blocks_def fs_ok_def)

lemma quiet_io_trans: "quiet_io a b \<Longrightarrow> quiet_io b c \<Longrightarrow> quiet_io a c"
  by (simp add: quiet_io_def io_frame_def same_blocks_def)

lemma quiet_io_ok: "quiet_io fs fs' \<Longrightarrow> fs_ok fs \<Longrightarrow> fs_ok fs'"
  by (simp add: quiet_io_def io_frame_def fs_ok_def)

lemma quiet_io_inode:
  assumes "quiet_io fs fs'" "fs_ok fs" "inode_ok sin fs"
  shows "inode_ok sin fs'" "owned sin fs' = owned sin fs" "file_data sin fs' = file_data sin fs"
    "k < nblocks sin \<Longrightarrow> dir_entry sin fs' k = dir_entry sin fs k"
proof -
  have st: "fs_step {} fs fs'" "freemap fs' = freemap fs" using io_frame_step[OF assms(2)] assms(1) by (auto simp: quiet_io_def)
  have "free_blocks fs' \<inter> owned sin fs = {}" using st(2) owned_not_free[OF assms(3)] by (auto simp: Int_commute)
  then show "inode_ok sin fs'" "owned sin fs' = owned sin fs" "file_data sin fs' = file_data sin fs"
    using other_inode[OF st(1) assms(3)] by auto
  assume k: "k < nblocks sin"
  have "blkmap sin fs' k = blkmap sin fs k"
    using same_entries[OF st(1), of "din_indirect (din sin)"] inode_okD(2)[OF assms(3)] by (auto simp: blkmap_def meta_def)
  moreover have "content fs' (blkmap sin fs k) = content fs (blkmap sin fs k)"
    using fs_stepD(3)[OF st(1) inode_okD(1)[OF assms(3) k]] by simp
  ultimately show "dir_entry sin fs' k = dir_entry sin fs k" by (simp add: dir_entry_def)
qed

lemma dirent_read_ok:
  assumes ok: "fs_ok fs" "inode_ok sin fs" "din_type (din sin) = SFS_TYPE_DIR" and k: "k < nblocks sin"
  shows "\<exists>fs'. sfs_dirent_read_nolock sin k fs = Some (0, Some (dir_entry sin fs k), sin, fs') \<and> quiet_io fs fs'"
proof -
  let ?b = "blkmap sin fs k"
  obtain fs1 where l: "sfs_bmap_load_nolock sin k fs = Some (0, ?b, sin, fs1)" "quiet_io fs fs1"
    using bmap_load_old[OF ok(1,2) k] by (auto simp: quiet_io_def)
  note ok1 = quiet_io_ok[OF l(2) ok(1)]
  have b: "in_use fs1 ?b" using inode_okD(1)[OF ok(2) k] l(2) by (simp add: in_use_def quiet_io_def io_frame_def)
  then have u: "sfs_block_inuse fs1 ?b = Some True" using ok1 by (simp add: sfs_block_inuse_ok in_use_def)
  have c: "content fs1 ?b = content fs ?b" using l(2) inode_okD(1)[OF ok(2) k] by (simp add: quiet_io_def same_blocks_def in_use_def)
  obtain fs2 where r: "sfs_rbuf (replicate 260 0) 0 260 ?b (int 0) fs1 =
      Some (0, put_bytes 0 (get_bytes 0 260 (content fs1 ?b)) (replicate 260 0), fs2)" "quiet_io fs1 fs2"
    using sfs_rbuf_ok[of fs1 ?b 0 260 "replicate 260 0" 0] ok1 b by (auto simp: fs_ok_def in_use_def quiet_io_def)
  have "put_bytes 0 (get_bytes 0 260 (content fs1 ?b)) (replicate 260 0) = get_bytes 0 260 (content fs ?b)"
    using length_content[of fs ?b] ok(1) inode_okD(1)[OF ok(2) k] c by (simp add: put_bytes_def fs_ok_def in_use_def)
  then have "sfs_dirent_read_nolock sin k fs = Some (0, Some (dir_entry sin fs k), sin, fs2)"
    using l(1) u r(1) ok(3) k by (simp add: sfs_dirent_read_nolock_def dir_entry_def Let_def)
  then show ?thesis using quiet_io_trans[OF l(2) r(2)] by blast
qed

definition dir_find :: "byte list \<Rightarrow> sfs_inode \<Rightarrow> 'a sfs_fs_scheme \<Rightarrow> nat \<Rightarrow> nat option" where
  "dir_find name sin fs i =
     List.find (\<lambda>k. ent_ino (dir_entry sin fs k) \<noteq> 0 \<and> name = cname (ent_name (dir_entry sin fs k))) [i..<nblocks sin]"

lemma dir_find_quiet: "quiet_io fs fs' \<Longrightarrow> fs_ok fs \<Longrightarrow> inode_ok sin fs \<Longrightarrow> dir_find name sin fs' i = dir_find name sin fs i"
  unfolding dir_find_def by (rule find_cong) (auto simp: quiet_io_inode(4))

lemma search_loop_ok:
  assumes "fs_ok fs" "inode_ok sin fs" "din_type (din sin) = SFS_TYPE_DIR" "i \<le> nblocks sin"
  shows "\<exists>empty fs'. dirent_search_loop name i (nblocks sin) empty_slot sin fs =
     Some (case dir_find name sin fs i of None \<Rightarrow> (- E_NOENT, None, empty, sin, fs')
           | Some k \<Rightarrow> (0, Some (k, ent_ino (dir_entry sin fs k)), empty, sin, fs')) \<and> quiet_io fs fs'"
  using assms
proof (induction "nblocks sin - i" arbitrary: i fs empty_slot)
  case 0
  then show ?case using quiet_io_refl[OF 0(2)] by (simp add: dirent_search_loop.simps dir_find_def)
next
  case (Suc d)
  then have i: "i < nblocks sin" by simp
  let ?e = "dir_entry sin fs i"
  obtain fs1 where r: "sfs_dirent_read_nolock sin i fs = Some (0, Some ?e, sin, fs1)" "quiet_io fs fs1"
    using dirent_read_ok[OF Suc(3-5) i] by blast
  show ?case
  proof (cases "ent_ino ?e \<noteq> 0 \<and> name = cname (ent_name ?e)")
    case True
    then have "dir_find name sin fs i = Some i" using i by (simp add: dir_find_def upt_rec)
    then show ?thesis using True i r by (subst dirent_search_loop.simps) simp
  next
    case False
    then have f: "dir_find name sin fs i = dir_find name sin fs (i + 1)" using i by (auto simp: dir_find_def upt_rec[of i])
    have pre: "d = nblocks sin - (i + 1)" "fs_ok fs1" "inode_ok sin fs1" "i + 1 \<le> nblocks sin"
      using Suc(2) i quiet_io_ok[OF r(2)] quiet_io_inode(1)[OF r(2)] Suc(3,4) by auto
    have "\<exists>es. dirent_search_loop name i (nblocks sin) empty_slot sin fs = dirent_search_loop name (i + 1) (nblocks sin) es sin fs1"
      using False i r(1) by (subst dirent_search_loop.simps) auto
    then obtain es where es: "dirent_search_loop name i (nblocks sin) empty_slot sin fs = dirent_search_loop name (i + 1) (nblocks sin) es sin fs1"
      by blast
    obtain empty fs' where l: "dirent_search_loop name (i + 1) (nblocks sin) es sin fs1 =
        Some (case dir_find name sin fs1 (i + 1) of None \<Rightarrow> (- E_NOENT, None, empty, sin, fs')
           | Some k \<Rightarrow> (0, Some (k, ent_ino (dir_entry sin fs1 k)), empty, sin, fs'))" "quiet_io fs1 fs'"
      using Suc(1)[OF pre(1,2,3) Suc(5) pre(4), of es] by blast
    have k: "dir_entry sin fs1 k = dir_entry sin fs k" if "dir_find name sin fs (i + 1) = Some k" for k
      using that by (intro quiet_io_inode(4)[OF r(2) Suc(3,4)]) (auto simp: dir_find_def find_Some_iff)
    show ?thesis using l(1) es f k quiet_io_trans[OF r(2) l(2)] dir_find_quiet[OF r(2) Suc(3,4)]
      by (intro exI[of _ empty] exI[of _ fs']) (auto split: option.splits)
  qed
qed

end
