(* ===== verification/SfsNode.thy ===== *)
theory SfsNode
  imports SfsOps DList
begin

text \<open>
  The table of loaded inodes of a mounted simple file system: the hash chains and the ring of
  \<^verbatim>\<open>struct sfs_fs\<close>, loading and reclaiming inodes, and the operations of
  \<^verbatim>\<open>kern/fs/sfs/sfs_inode.c\<close> that reach other inodes.

  The state extends the one of \<open>FileTable\<close>, which holds the reference counts of the inodes, by
  the mounted file system, the private part of each inode and the heaps of list links.
  \<open>struct inode\<close> and the \<open>struct sfs_inode\<close> inside it have the same address. What \<^verbatim>\<open>kmalloc\<close>
  returns is an argument. The three semaphores of the file system and the one of an inode are their
  values; a lock that is taken does not return.
\<close>

subsection \<open>State\<close>

datatype ilink = InodeList | InodeLink nat
datatype slink = SinHash nat | SinLink nat

record sfs_state = fstate +
  sfs :: sfs_fs
  sins :: "nat \<Rightarrow> sfs_inode"
  inode_links :: "ilink list_heap"
  sin_links :: "slink list_heap"

text \<open>What \<^verbatim>\<open>kmalloc\<close> gives for a directory entry, an inode of the disk and an inode.\<close>

record kmem =
  mem_entry :: bool
  mem_din :: bool
  mem_node :: "nat option"

definition SFS_HLIST_SHIFT :: nat where "SFS_HLIST_SHIFT = 10"
definition SFS_HLIST_SIZE :: nat where "SFS_HLIST_SIZE = push_bit SFS_HLIST_SHIFT 1"

definition sin_hashfn :: "nat \<Rightarrow> nat" where
  "sin_hashfn x = unat (hash32 (word_of_nat x) SFS_HLIST_SHIFT)"

definition upd_sin :: "nat \<Rightarrow> (sfs_inode \<Rightarrow> sfs_inode) \<Rightarrow> 'a sfs_state_scheme \<Rightarrow> 'a sfs_state_scheme" where
  "upd_sin n f s = s\<lparr>sins := (sins s)(n := f (sins s n))\<rparr>"

text \<open>An operation of \<open>SfsOps\<close> on the inode at \<open>n\<close>.\<close>

definition on_sin :: "nat \<Rightarrow> (sfs_inode \<Rightarrow> sfs_fs \<Rightarrow> (int \<times> sfs_inode \<times> sfs_fs) option) \<Rightarrow> 'a sfs_state_scheme \<Rightarrow> (int \<times> 'a sfs_state_scheme) option" where
  "on_sin n f s =
     do { (ret, sin, fs) \<leftarrow> f (sins s n) (sfs s);
          Some (ret, s\<lparr>sfs := fs, sins := (sins s)(n := sin)\<rparr>) }"

definition release_fs :: "'a sfs_state_scheme \<Rightarrow> 'a sfs_state_scheme" where
  "release_fs s = s\<lparr>sfs := unlock_sfs_fs (sfs s)\<rparr>"

subsection \<open>Links\<close>

definition sfs_hash_list :: "nat \<Rightarrow> slink" where
  "sfs_hash_list ino = SinHash (sin_hashfn ino)"

definition sfs_set_links :: "nat \<Rightarrow> 'a sfs_state_scheme \<Rightarrow> 'a sfs_state_scheme" where
  "sfs_set_links n s =
     s\<lparr>inode_links := list_add (inode_links s) InodeList (InodeLink n),
       sin_links := list_add (sin_links s) (sfs_hash_list (sin_ino (sins s n))) (SinLink n)\<rparr>"

definition sfs_remove_links :: "nat \<Rightarrow> 'a sfs_state_scheme \<Rightarrow> 'a sfs_state_scheme" where
  "sfs_remove_links n s =
     s\<lparr>inode_links := list_del (inode_links s) (InodeLink n), sin_links := list_del (sin_links s) (SinLink n)\<rparr>"

subsection \<open>Loading\<close>

definition sfs_create_inode :: "nat option \<Rightarrow> sfs_disk_inode \<Rightarrow> nat \<Rightarrow> 'a sfs_state_scheme \<Rightarrow> (int \<times> nat option \<times> 'a sfs_state_scheme) option" where
  "sfs_create_inode alloc d ino s =
     (case alloc of
        None \<Rightarrow> Some (- E_NO_MEM, None, s)
      | Some n \<Rightarrow>
          do { ops \<leftarrow> sfs_get_ops (din_type d);
               let s1 = inode_init n ops s;
               let sin = \<lparr>din = d, sin_ino = ino, sin_dirty = False, reclaim_count = 1, sin_sem = 1\<rparr>;
               Some (0, Some n, s1\<lparr>sins := (sins s1)(n := sin)\<rparr>) })"

partial_function (option) lookup_sfs_loop :: "slink \<Rightarrow> slink \<Rightarrow> nat \<Rightarrow> 'a sfs_state_scheme \<Rightarrow> nat option option" where
  "lookup_sfs_loop lst le ino s =
     (let le1 = list_next (sin_links s) le in
      if le1 = lst then Some None
      else case le1 of
             SinHash _ \<Rightarrow> None
           | SinLink n \<Rightarrow> if sin_ino (sins s n) = ino then Some (Some n) else lookup_sfs_loop lst le1 ino s)"

definition lookup_sfs_nolock :: "nat \<Rightarrow> 'a sfs_state_scheme \<Rightarrow> (nat option \<times> 'a sfs_state_scheme) option" where
  "lookup_sfs_nolock ino s =
     do { r \<leftarrow> lookup_sfs_loop (sfs_hash_list ino) (sfs_hash_list ino) ino s;
          case r of
            None \<Rightarrow> Some (None, s)
          | Some n \<Rightarrow>
              let s1 = inode_ref_inc n s in
              Some (Some n, if ref_count (inodes s1 n) = 1
                            then upd_sin n (\<lambda>i. i\<lparr>reclaim_count := reclaim_count i + 1\<rparr>) s1 else s1) }"

text \<open>Returns the code and the value of \<^verbatim>\<open>*node_store\<close>.\<close>

definition sfs_load_inode :: "kmem \<Rightarrow> nat \<Rightarrow> 'a sfs_state_scheme \<Rightarrow> (int \<times> nat option \<times> 'a sfs_state_scheme) option" where
  "sfs_load_inode k ino s =
     do { f \<leftarrow> lock_sfs_fs (sfs s);
          (r, s1) \<leftarrow> lookup_sfs_nolock ino (s\<lparr>sfs := f\<rparr>);
          case r of
            Some n \<Rightarrow> Some (0, Some n, release_fs s1)
          | None \<Rightarrow>
              if \<not> mem_din k then Some (- E_NO_MEM, None, release_fs s1)
              else do {
                used \<leftarrow> sfs_block_inuse (sfs s1) ino;
                kassert used;
                (ret, b, f2) \<leftarrow> sfs_rbuf (replicate 64 0) 0 64 ino 0 (sfs s1);
                let s2 = s1\<lparr>sfs := f2\<rparr>;
                if ret \<noteq> 0 then Some (ret, None, release_fs s2)
                else do {
                  let d = dec_din b;
                  kassert (din_nlinks d \<noteq> 0);
                  (ret, node, s3) \<leftarrow> sfs_create_inode (mem_node k) d ino s2;
                  if ret \<noteq> 0 then Some (ret, None, release_fs s3)
                  else do { n \<leftarrow> node; Some (0, Some n, release_fs (sfs_set_links n s3)) } } } }"

subsection \<open>Reclaiming\<close>

definition sfs_vop_truncate :: "nat \<Rightarrow> int \<Rightarrow> 'a sfs_state_scheme \<Rightarrow> (int \<times> 'a sfs_state_scheme) option" where
  "sfs_vop_truncate n len s =
     vop Vtruncate (on_sin n (\<lambda>sin fs. sfs_truncfile sin len fs)) n s"

definition sfs_vop_fsync :: "nat \<Rightarrow> 'a sfs_state_scheme \<Rightarrow> (int \<times> 'a sfs_state_scheme) option" where
  "sfs_vop_fsync n s = vop Vfsync (on_sin n sfs_fsync) n s"

text \<open>The blocks of an inode without links, once it is out of the table.\<close>

definition reclaim_blocks :: "nat \<Rightarrow> 'a sfs_state_scheme \<Rightarrow> 'a sfs_state_scheme option" where
  "reclaim_blocks n s =
     (if din_nlinks (din (sins s n)) = 0 then
        do { f1 \<leftarrow> sfs_block_free (sin_ino (sins s n)) (sfs s);
             let ent = din_indirect (din (sins s n));
             f2 \<leftarrow> (if ent \<noteq> 0 then sfs_block_free ent f1 else Some f1);
             Some (s\<lparr>sfs := f2\<rparr>) }
      else Some s)"

definition sfs_reclaim :: "nat \<Rightarrow> 'a sfs_state_scheme \<Rightarrow> (int \<times> 'a sfs_state_scheme) option" where
  "sfs_reclaim n s =
     do { f \<leftarrow> lock_sfs_fs (sfs s);
          let s1 = s\<lparr>sfs := f\<rparr>;
          kassert (reclaim_count (sins s1 n) > 0);
          let s2 = upd_sin n (\<lambda>i. i\<lparr>reclaim_count := reclaim_count i - 1\<rparr>) s1;
          if reclaim_count (sins s2 n) \<noteq> 0 \<or> ref_count (inodes s2 n) \<noteq> 0 then Some (- E_BUSY, release_fs s2)
          else do {
            (ret3, s3) \<leftarrow> (if din_nlinks (din (sins s2 n)) = 0 then sfs_vop_truncate n 0 s2 else Some (0, s2));
            if ret3 \<noteq> 0 then Some (ret3, release_fs s3)
            else do {
              (ret4, s4) \<leftarrow> (if sin_dirty (sins s3 n) then sfs_vop_fsync n s3 else Some (0, s3));
              if ret4 \<noteq> 0 then Some (ret4, release_fs s4)
              else do { s5 \<leftarrow> reclaim_blocks n (release_fs (sfs_remove_links n s4));
                        inode_kill n s5;
                        Some (0, s5) } } } }"

text \<open>\<^verbatim>\<open>vop_ref_dec\<close> on an inode of this file system; only \<^verbatim>\<open>vop_reclaim\<close> is called.\<close>

definition reclaim_ops :: "'a sfs_state_scheme inode_ops" where
  "reclaim_ops =
     \<lparr>op_open = (\<lambda>_ _ _. kpanic), op_close = (\<lambda>_ _. kpanic), op_read = (\<lambda>_ _ _. kpanic), op_write = (\<lambda>_ _ _. kpanic),
      op_fstat = (\<lambda>_ _. kpanic), op_fsync = (\<lambda>_ _. kpanic), op_getdirentry = (\<lambda>_ _ _. kpanic), op_reclaim = sfs_reclaim,
      op_tryseek = (\<lambda>_ _ _. kpanic), op_truncate = (\<lambda>_ _ _. kpanic), op_create = (\<lambda>_ _ _ _. kpanic),
      op_lookup = (\<lambda>_ _. kpanic), op_lookup_parent = (\<lambda>_ _. kpanic)\<rparr>"

definition sfs_ref_dec :: "nat \<Rightarrow> 'a sfs_state_scheme \<Rightarrow> 'a sfs_state_scheme option" where
  "sfs_ref_dec n s = inode_ref_dec reclaim_ops n s"

subsection \<open>Lookup\<close>

definition sfs_lookup_once :: "kmem \<Rightarrow> nat \<Rightarrow> byte list \<Rightarrow> 'a sfs_state_scheme \<Rightarrow> (int \<times> nat option \<times> 'a sfs_state_scheme) option" where
  "sfs_lookup_once k n name s =
     do { sin1 \<leftarrow> lock_sin (sins s n);
          (ret, found, _, sin2, f) \<leftarrow> sfs_dirent_search_nolock (mem_entry k) sin1 name (sfs s);
          let s1 = s\<lparr>sfs := f, sins := (sins s)(n := unlock_sin sin2)\<rparr>;
          if ret = 0 then do { (slot, ino) \<leftarrow> found; sfs_load_inode k ino s1 }
          else Some (ret, None, s1) }"

definition sfs_lookup :: "kmem \<Rightarrow> nat \<Rightarrow> byte list \<Rightarrow> 'a sfs_state_scheme \<Rightarrow> (int \<times> nat option \<times> 'a sfs_state_scheme) option" where
  "sfs_lookup k n path s =
     do { kassert (path \<noteq> [] \<and> hd path \<noteq> 47);
          let s1 = inode_ref_inc n s;
          if din_type (din (sins s1 n)) \<noteq> SFS_TYPE_DIR
          then do { s2 \<leftarrow> sfs_ref_dec n s1; Some (- E_NOTDIR, None, s2) }
          else do { (ret, sub, s2) \<leftarrow> sfs_lookup_once k n path s1;
                    s3 \<leftarrow> sfs_ref_dec n s2;
                    Some (ret, if ret \<noteq> 0 then None else sub, s3) } }"

text \<open>
  \<^verbatim>\<open>sfs_namefile\<close> climbs to the root and writes the names from the end of the buffer
  downwards; \<open>k i\<close> is what \<^verbatim>\<open>kmalloc\<close> gives in round \<open>i\<close>. Returns the code, the place
  reached and the room left.
\<close>

partial_function (option) namefile_loop ::
  "(nat \<Rightarrow> kmem) \<Rightarrow> nat \<Rightarrow> nat \<Rightarrow> nat \<Rightarrow> nat \<Rightarrow> byte list \<Rightarrow> 'a sfs_state_scheme \<Rightarrow> (int \<times> nat \<times> nat \<times> byte list \<times> 'a sfs_state_scheme) option" where
  "namefile_loop k i node ptr resid mem s =
     do { (ret, par, s1) \<leftarrow> sfs_lookup_once (k i) node [46, 46] s;
          if ret \<noteq> 0 then do { s2 \<leftarrow> sfs_ref_dec node s1; Some (ret, ptr, resid, mem, s2) }
          else do {
            parent \<leftarrow> par;
            let ino = sin_ino (sins s1 node);
            s2 \<leftarrow> sfs_ref_dec node s1;
            if node = parent then do { s3 \<leftarrow> sfs_ref_dec node s2; Some (0, ptr, resid, mem, s3) }
            else do {
              kassert (ino \<noteq> sin_ino (sins s2 parent) \<and> din_type (din (sins s2 parent)) = SFS_TYPE_DIR);
              sin1 \<leftarrow> lock_sin (sins s2 parent);
              (ret, e, sin2, f) \<leftarrow> sfs_dirent_findino_nolock sin1 ino (sfs s2);
              let s3 = s2\<lparr>sfs := f, sins := (sins s2)(parent := unlock_sin sin2)\<rparr>;
              if ret \<noteq> 0 then do { s4 \<leftarrow> sfs_ref_dec parent s3; Some (ret, ptr, resid, mem, s4) }
              else do {
                entry \<leftarrow> e;
                let nm = cname (ent_name entry);
                let alen = length nm + 1;
                if alen > resid then do { s4 \<leftarrow> sfs_ref_dec parent s3; Some (- E_NO_MEM, ptr, resid, mem, s4) }
                else namefile_loop k (i + 1) parent (ptr - alen) (resid - alen) (put_bytes (ptr - alen) (nm @ [47]) mem) s3 } } } }"

definition sfs_namefile :: "bool \<Rightarrow> (nat \<Rightarrow> kmem) \<Rightarrow> nat \<Rightarrow> iobuf \<Rightarrow> 'a sfs_state_scheme \<Rightarrow> (int \<times> iobuf \<times> 'a sfs_state_scheme) option" where
  "sfs_namefile kmalloc k node iob s =
     (if io_resid iob \<le> 2 \<or> \<not> kmalloc then Some (- E_NO_MEM, iob, s)
      else do {
        (ret, ptr, resid, mem, s1) \<leftarrow>
          namefile_loop k 0 node (io_base iob + io_resid iob) (io_resid iob - 2) (io_mem iob) (inode_ref_inc node s);
        if ret \<noteq> 0 then Some (ret, iob\<lparr>io_mem := mem\<rparr>, s1)
        else do {
          let alen = io_resid iob - resid - 2;
          let mem1 = put_bytes (io_base iob + 1) (get_bytes ptr alen mem) mem;
          let mem2 = put_bytes (io_base iob + 1 + alen) [0] (put_bytes (io_base iob) [47] mem1);
          iob1 \<leftarrow> iobuf_skip alen (iob\<lparr>io_mem := mem2\<rparr>);
          Some (0, iob1, s1) } })"

subsection \<open>The invariant of the table\<close>

text \<open>
  \<open>pend n\<close> is the number of processes that have dropped the last reference to the inode \<open>n\<close>
  and are about to reclaim it. \<^verbatim>\<open>reclaim_count\<close> counts them, and one more while there are
  references. An inode in memory that differs from the disk is marked dirty; \<open>X\<close> are inodes of
  which that is not known.
\<close>

definition xnode_ok :: "nat set \<Rightarrow> (nat \<Rightarrow> nat) \<Rightarrow> 'a sfs_state_scheme \<Rightarrow> nat \<Rightarrow> bool" where
  "xnode_ok X pend s n \<longleftrightarrow> in_use (sfs s) (sin_ino (sins s n)) \<and> din_ok (din (sins s n)) \<and> din_nlinks (din (sins s n)) \<noteq> 0 \<and>
     sin_sem (sins s n) = 1 \<and> (n \<in> X \<or> sin_dirty (sins s n) \<or> din_stored (sin_ino (sins s n)) (din (sins s n)) (sfs s)) \<and>
     sfs_get_ops (din_type (din (sins s n))) = Some (in_ops (inodes s n)) \<and>
     0 \<le> open_count (inodes s n) \<and> open_count (inodes s n) \<le> ref_count (inodes s n) \<and>
     reclaim_count (sins s n) = int (pend n) + (if ref_count (inodes s n) > 0 then 1 else 0) \<and>
     (ref_count (inodes s n) = 0 \<longrightarrow> pend n > 0)"

definition links_ok :: "nat set \<Rightarrow> 'a sfs_state_scheme \<Rightarrow> bool" where
  "links_ok N s \<longleftrightarrow> (\<exists>ns. dlist (inode_links s) InodeList (map InodeLink ns) \<and> set ns = N) \<and>
     (\<forall>h<SFS_HLIST_SIZE. \<exists>ch. dlist (sin_links s) (SinHash h) (map SinLink ch) \<and> set ch = {n \<in> N. sin_hashfn (sin_ino (sins s n)) = h})"

definition xtable_ok :: "nat set \<Rightarrow> nat set \<Rightarrow> (nat \<Rightarrow> nat) \<Rightarrow> 'a sfs_state_scheme \<Rightarrow> bool" where
  "xtable_ok X N pend s \<longleftrightarrow> fs_ok (sfs s) \<and> fs_sem (sfs s) = 1 \<and> links_ok N s \<and>
     inj_on (\<lambda>n. sin_ino (sins s n)) N \<and> (\<forall>n\<in>N. xnode_ok X pend s n) \<and> (\<forall>n. n \<notin> N \<longrightarrow> pend n = 0)"

abbreviation node_ok :: "(nat \<Rightarrow> nat) \<Rightarrow> 'a sfs_state_scheme \<Rightarrow> nat \<Rightarrow> bool" where
  "node_ok \<equiv> xnode_ok {}"

abbreviation table_ok :: "nat set \<Rightarrow> (nat \<Rightarrow> nat) \<Rightarrow> 'a sfs_state_scheme \<Rightarrow> bool" where
  "table_ok \<equiv> xtable_ok {}"

lemma sin_hashfn_less: "sin_hashfn x < SFS_HLIST_SIZE"
proof -
  have "unat (drop_bit 22 v) < 1024" for v :: "32 word"
    using unsigned_less[of v, where ?'a = nat] by (simp add: unat_drop_bit_eq less_mult_imp_div_less drop_bit_eq_div[of _ "unat v"])
  then show ?thesis by (simp add: sin_hashfn_def hash32_def SFS_HLIST_SHIFT_def SFS_HLIST_SIZE_def)
qed

lemma chain_next:
  "dlist h l (map SinLink (xs @ ys)) \<Longrightarrow> list_next h (last (l # map SinLink xs)) = hd (map SinLink ys @ [l])"
  using dlist_next[of h l "map SinLink xs" "map SinLink ys"] by simp

lemma lookup_loop_ok:
  "dlist (sin_links s) (SinHash h) (map SinLink (xs @ ys)) \<Longrightarrow>
   lookup_sfs_loop (SinHash h) (last (SinHash h # map SinLink xs)) ino s = Some (find (\<lambda>n. sin_ino (sins s n) = ino) ys)"
proof (induction ys arbitrary: xs)
  case Nil
  then show ?case using chain_next[OF Nil] by (subst lookup_sfs_loop.simps) (simp del: last.simps)
next
  case (Cons y ys)
  have l: "last (SinHash h # map SinLink (xs @ [y])) = SinLink y" by simp
  have "lookup_sfs_loop (SinHash h) (last (SinHash h # map SinLink (xs @ [y]))) ino s = Some (find (\<lambda>n. sin_ino (sins s n) = ino) ys)"
    by (rule Cons.IH) (use Cons.prems in simp)
  then show ?case unfolding l using chain_next[OF Cons.prems] by (subst lookup_sfs_loop.simps) (simp del: last.simps)
qed

definition node_found :: "nat set \<Rightarrow> 'a sfs_state_scheme \<Rightarrow> nat \<Rightarrow> nat option \<Rightarrow> bool" where
  "node_found N s ino r \<longleftrightarrow> (case r of None \<Rightarrow> \<forall>n\<in>N. sin_ino (sins s n) \<noteq> ino | Some n \<Rightarrow> n \<in> N \<and> sin_ino (sins s n) = ino)"

lemma lookup_finds:
  assumes "links_ok N s"
  shows "\<exists>r. lookup_sfs_loop (sfs_hash_list ino) (sfs_hash_list ino) ino s = Some r \<and> node_found N s ino r"
proof -
  obtain ch where ch: "dlist (sin_links s) (SinHash (sin_hashfn ino)) (map SinLink ch)"
    "set ch = {n \<in> N. sin_hashfn (sin_ino (sins s n)) = sin_hashfn ino}"
    using assms sin_hashfn_less[of ino] unfolding links_ok_def by blast
  have "lookup_sfs_loop (sfs_hash_list ino) (sfs_hash_list ino) ino s = Some (find (\<lambda>n. sin_ino (sins s n) = ino) ch)"
    using lookup_loop_ok[of s "sin_hashfn ino" "[]" ch ino] ch(1) by (simp add: sfs_hash_list_def)
  moreover have "node_found N s ino (find (\<lambda>n. sin_ino (sins s n) = ino) ch)"
    using ch(2) by (auto simp: node_found_def find_None_iff find_Some_iff split: option.splits)
  ultimately show ?thesis by blast
qed

lemma table_okD:
  assumes "xtable_ok X N pend s"
  shows "fs_ok (sfs s)" "fs_sem (sfs s) = 1" "links_ok N s" "inj_on (\<lambda>n. sin_ino (sins s n)) N" "n \<in> N \<Longrightarrow> xnode_ok X pend s n"
  using assms by (simp_all add: xtable_ok_def)

text \<open>Only the numbers of the listed inodes and the links matter to the lists.\<close>

lemma links_ok_cong:
  assumes "links_ok N s" "inode_links s' = inode_links s" "sin_links s' = sin_links s" "\<And>n. n \<in> N \<Longrightarrow> sin_ino (sins s' n) = sin_ino (sins s n)"
  shows "links_ok N s'"
proof -
  have "{n \<in> N. sin_hashfn (sin_ino (sins s' n)) = h} = {n \<in> N. sin_hashfn (sin_ino (sins s n)) = h}" for h
    using assms(4) by auto
  then show ?thesis using assms(1-3) by (simp add: links_ok_def)
qed

lemma node_ok_cong:
  assumes "xnode_ok X pend s n" "sins s' n = sins s n" "inodes s' n = inodes s n" "pend' n = pend n"
    "in_use (sfs s') (sin_ino (sins s n)) = in_use (sfs s) (sin_ino (sins s n))"
    "content (sfs s') (sin_ino (sins s n)) = content (sfs s) (sin_ino (sins s n))"
  shows "xnode_ok X pend' s' n"
  using assms by (simp add: xnode_ok_def din_stored_def)

text \<open>A change of the inode \<open>m\<close> and of its count keeps the table.\<close>

lemma table_ok_upd:
  assumes t: "xtable_ok X N pend s" and s': "inode_links s' = inode_links s" "sin_links s' = sin_links s" "sfs s' = sfs s"
    "\<And>n. n \<noteq> m \<Longrightarrow> sins s' n = sins s n \<and> inodes s' n = inodes s n \<and> pend' n = pend n"
    "sin_ino (sins s' m) = sin_ino (sins s m)" and m: "m \<in> N" "xnode_ok X pend' s' m"
  shows "xtable_ok X N pend' s'"
proof -
  have ino: "sin_ino (sins s' n) = sin_ino (sins s n)" for n using s'(4)[of n] s'(5) by (cases "n = m") auto
  have "links_ok N s'" by (rule links_ok_cong[OF table_okD(3)[OF t] s'(1,2)]) (simp add: ino)
  moreover have "xnode_ok X pend' s' n" if "n \<in> N" for n
    using m(2) s'(3) s'(4)[of n] node_ok_cong[OF table_okD(5)[OF t that], of s' pend'] by (cases "n = m") auto
  moreover have "pend' n = 0" if "n \<notin> N" for n using that m(1) s'(4)[of n] t by (auto simp: xtable_ok_def)
  ultimately show ?thesis using t s'(3) by (simp add: xtable_ok_def ino)
qed

lemma lock_release:
  assumes "fs_sem (sfs s) = 1"
  shows "lock_sfs_fs (sfs s) = Some (sfs s\<lparr>fs_sem := 0\<rparr>)" "release_fs (s\<lparr>sfs := sfs s\<lparr>fs_sem := 0\<rparr>\<rparr>) = s"
  using assms by (simp_all add: lock_sfs_fs_def release_fs_def unlock_sfs_fs_def)

lemma load_found:
  assumes t: "xtable_ok X N pend s" and n: "n \<in> N" "lookup_sfs_loop (sfs_hash_list ino) (sfs_hash_list ino) ino (s\<lparr>sfs := sfs s\<lparr>fs_sem := 0\<rparr>\<rparr>) = Some (Some n)"
  shows "\<exists>s'. sfs_load_inode k ino s = Some (0, Some n, s') \<and> xtable_ok X N pend s' \<and> sfs s' = sfs s \<and>
     ref_count (inodes s' n) = ref_count (inodes s n) + 1 \<and> open_count (inodes s' n) = open_count (inodes s n) \<and>
     din (sins s' n) = din (sins s n) \<and> sin_ino (sins s' n) = sin_ino (sins s n) \<and>
     (\<forall>m. m \<noteq> n \<longrightarrow> sins s' m = sins s m \<and> inodes s' m = inodes s m)"
proof -
  let ?s0 = "s\<lparr>sfs := sfs s\<lparr>fs_sem := 0\<rparr>\<rparr>"
  define s1 where "s1 = inode_ref_inc n ?s0"
  define s2 where "s2 = (if ref_count (inodes s1 n) = 1 then upd_sin n (\<lambda>i. i\<lparr>reclaim_count := reclaim_count i + 1\<rparr>) s1 else s1)"
  define s' where "s' = release_fs s2"
  have "sfs_load_inode k ino s = Some (0, Some n, s')"
    using n(2) lock_release(1)[OF table_okD(2)[OF t]] by (simp add: sfs_load_inode_def lookup_sfs_nolock_def s'_def s2_def s1_def Let_def)
  moreover have f: "sfs s' = sfs s" "inode_links s' = inode_links s" "sin_links s' = sin_links s" "in_ops (inodes s' n) = in_ops (inodes s n)"
    using table_okD(2)[OF t] by (simp_all add: s'_def s2_def s1_def release_fs_def unlock_sfs_fs_def upd_sin_def inode_ref_inc_def upd_inode_def)
  moreover have c: "ref_count (inodes s' n) = ref_count (inodes s n) + 1" "open_count (inodes s' n) = open_count (inodes s n)"
    "sins s' n = (if ref_count (inodes s n) = 0 then (sins s n)\<lparr>reclaim_count := reclaim_count (sins s n) + 1\<rparr> else sins s n)"
    "m \<noteq> n \<Longrightarrow> sins s' m = sins s m \<and> inodes s' m = inodes s m" for m
    by (simp_all add: s'_def s2_def s1_def release_fs_def upd_sin_def inode_ref_inc_def upd_inode_def)
  moreover have "xnode_ok X pend s' n" using table_okD(5)[OF t n(1)] f c(1-3) by (auto simp: xnode_ok_def)
  then have "xtable_ok X N pend s'" using table_ok_upd[OF t f(2,3,1), of n pend] c n(1) f(4) by auto
  ultimately show ?thesis by auto
qed

text \<open>An inode of the disk that can be loaded.\<close>

definition disk_inode_ok :: "nat \<Rightarrow> 'a sfs_fs_scheme \<Rightarrow> bool" where
  "disk_inode_ok ino fs \<longleftrightarrow> (let d = dec_din (get_bytes 0 64 (content fs ino)) in
     din_nlinks d \<noteq> 0 \<and> (din_type d = SFS_TYPE_DIR \<or> din_type d = SFS_TYPE_FILE))"

lemma din_ok_dec: "din_ok (dec_din b)"
  by (auto simp: din_ok_def dec_din_def dec_words_def)

lemma links_chain:
  assumes "links_ok N s" "h < SFS_HLIST_SIZE"
  obtains ch where "dlist (sin_links s) (SinHash h) (map SinLink ch)" "set ch = {m \<in> N. sin_hashfn (sin_ino (sins s m)) = h}"
  using assms unfolding links_ok_def by blast

lemma sin_link_ok:
  assumes l: "links_ok N s" and n: "n \<notin> N"
  shows "links_ok (insert n N) (sfs_set_links n s)"
proof -
  let ?h = "sin_hashfn (sin_ino (sins s n))" and ?s' = "sfs_set_links n s"
  obtain ns where ns: "dlist (inode_links s) InodeList (map InodeLink ns)" "set ns = N" using l by (auto simp: links_ok_def)
  have "dlist (inode_links ?s') InodeList (map InodeLink (n # ns))"
    using dlist_add_after[of "inode_links s" InodeList "[]" "map InodeLink ns" "InodeLink n"] ns n by (auto simp: sfs_set_links_def list_add_def)
  moreover have "\<exists>ch. dlist (sin_links ?s') (SinHash h) (map SinLink ch) \<and> set ch = {m \<in> insert n N. sin_hashfn (sin_ino (sins ?s' m)) = h}"
    if h: "h < SFS_HLIST_SIZE" for h
  proof -
    obtain ch where ch: "dlist (sin_links s) (SinHash h) (map SinLink ch)" "set ch = {m \<in> N. sin_hashfn (sin_ino (sins s m)) = h}"
      using links_chain[OF l h] by blast
    obtain c0 where c0: "dlist (sin_links s) (SinHash ?h) (map SinLink c0)" "set c0 = {m \<in> N. sin_hashfn (sin_ino (sins s m)) = ?h}"
      using links_chain[OF l sin_hashfn_less] by blast
    show ?thesis
    proof (cases "h = ?h")
      case True
      have "dlist (sin_links ?s') (SinHash h) (map SinLink (n # ch))"
        using dlist_add_after[of "sin_links s" "SinHash h" "[]" "map SinLink ch" "SinLink n"] ch n True
        by (auto simp: sfs_set_links_def list_add_def sfs_hash_list_def)
      then show ?thesis using ch(2) True by (intro exI[of _ "n # ch"]) (auto simp: sfs_set_links_def)
    next
      case False
      have "q \<notin> set (SinHash ?h # SinLink n # map SinLink c0)" if "q \<in> set (SinHash h # map SinLink ch)" for q
        using that False ch(2) c0(2) n by auto
      then have "dlist (sin_links ?s') (SinHash h) (map SinLink ch)"
        using ch(1) dlist_add_frame[OF c0(1)]
        by (subst dlist_cong[of _ _ _ "sin_links s"]) (simp_all add: sfs_set_links_def sfs_hash_list_def)
      then show ?thesis using ch(2) False by (intro exI[of _ ch]) (auto simp: sfs_set_links_def)
    qed
  qed
  ultimately show ?thesis using ns(2) unfolding links_ok_def by (metis list.simps(15))
qed

definition new_sin :: "nat \<Rightarrow> 'a sfs_fs_scheme \<Rightarrow> sfs_inode" where
  "new_sin ino fs = \<lparr>din = dec_din (get_bytes 0 64 (content fs ino)), sin_ino = ino, sin_dirty = False, reclaim_count = 1, sin_sem = 1\<rparr>"

lemma quiet_io_sem: "quiet_io (fs\<lparr>fs_sem := a\<rparr>) f \<Longrightarrow> quiet_io fs (f\<lparr>fs_sem := fs_sem fs\<rparr>)"
  by (auto simp: quiet_io_def io_frame_def same_blocks_def io_ok_def)

text \<open>The part of loading that reads the disk.\<close>

lemma load_reads:
  assumes ok: "fs_ok (sfs s)" "fs_sem (sfs s) = 1" and b: "in_use (sfs s) ino" and k: "mem_din k" "disk_inode_ok ino (sfs s)"
    and l: "lookup_sfs_loop (sfs_hash_list ino) (sfs_hash_list ino) ino (s\<lparr>sfs := sfs s\<lparr>fs_sem := 0\<rparr>\<rparr>) = Some None"
  shows "\<exists>f. quiet_io (sfs s) f \<and> sfs_load_inode k ino s =
     (case mem_node k of None \<Rightarrow> Some (- E_NO_MEM, None, s\<lparr>sfs := f\<rparr>)
      | Some n \<Rightarrow> do { ops \<leftarrow> sfs_get_ops (din_type (din (new_sin ino (sfs s))));
          Some (0, Some n, sfs_set_links n (s\<lparr>sfs := f, 
             inodes := (inodes s)(n := (inodes s n)\<lparr>ref_count := 1, open_count := 0, in_ops := ops\<rparr>), sins := (sins s)(n := new_sin ino (sfs s))\<rparr>)) })"
proof -
  let ?f0 = "sfs s\<lparr>fs_sem := 0\<rparr>" let ?d = "dec_din (get_bytes 0 64 (content (sfs s) ino))"
  have f0: "fs_ok ?f0" "in_use ?f0 ino" using ok(1) b by (simp_all add: fs_ok_def io_ok_def in_use_def)
  have u: "sfs_block_inuse ?f0 ino = Some True" using f0 by (simp add: sfs_block_inuse_ok in_use_def)
  obtain f1 where r: "sfs_rbuf (replicate 64 0) 0 64 ino (int 0) ?f0 = Some (0, put_bytes 0 (get_bytes 0 64 (content ?f0 ino)) (replicate 64 0), f1)"
    "quiet_io ?f0 f1" using sfs_rbuf_ok[of ?f0 ino 0 64 "replicate 64 0" 0] f0 by (auto simp: fs_ok_def in_use_def quiet_io_def)
  have "put_bytes 0 (get_bytes 0 64 (content ?f0 ino)) (replicate 64 0) = get_bytes 0 64 (content (sfs s) ino)"
    using length_content[of "sfs s" ino] ok(1) b by (simp add: put_bytes_def fs_ok_def in_use_def)
  then have rd: "sfs_rbuf (replicate 64 0) 0 64 ino 0 ?f0 = Some (0, get_bytes 0 64 (content (sfs s) ino), f1)" using r(1) by simp
  have nl: "din_nlinks ?d \<noteq> 0" using k(2) by (auto simp: disk_inode_ok_def Let_def)
  have sem: "fs_sem f1 = 0" using r(2) by (simp add: quiet_io_def io_frame_def)
  let ?f = "f1\<lparr>fs_sem := 1\<rparr>"
  have rel: "release_fs (s\<lparr>sfs := f1\<rparr>) = s\<lparr>sfs := ?f\<rparr>" using sem by (simp add: release_fs_def unlock_sfs_fs_def)
  have "quiet_io (sfs s) ?f" using quiet_io_sem[OF r(2)] ok(2) by simp
  moreover have "sfs_load_inode k ino s = (case mem_node k of None \<Rightarrow> Some (- E_NO_MEM, None, s\<lparr>sfs := ?f\<rparr>)
      | Some n \<Rightarrow> do { ops \<leftarrow> sfs_get_ops (din_type ?d);
          Some (0, Some n, sfs_set_links n (s\<lparr>sfs := ?f, 
             inodes := (inodes s)(n := (inodes s n)\<lparr>ref_count := 1, open_count := 0, in_ops := ops\<rparr>), sins := (sins s)(n := new_sin ino (sfs s))\<rparr>)) })"
    using lock_release(1)[OF ok(2)] l u rd nl k(1) rel sem
    by (auto simp: sfs_load_inode_def lookup_sfs_nolock_def sfs_create_inode_def Let_def new_sin_def E_NO_MEM_def inode_init_def
        inode_ref_inc_def upd_inode_def sfs_set_links_def release_fs_def unlock_sfs_fs_def split: option.split bind_splits intro!: sfs_state.equality)
  moreover have "din (new_sin ino (sfs s)) = ?d" by (simp add: new_sin_def)
  ultimately show ?thesis by (intro exI[of _ ?f]) (simp only: simp_thms)
qed

lemma quiet_nodes:
  assumes "xnode_ok X pend s n" "quiet_io (sfs s) f" "sfs s' = f" "sins s' n = sins s n" "inodes s' n = inodes s n"
  shows "xnode_ok X pend s' n"
  using assms(1) by (rule node_ok_cong) (use assms in \<open>auto simp: in_use_def quiet_io_def io_frame_def same_blocks_def xnode_ok_def\<close>)

lemma table_quiet:
  assumes t: "xtable_ok X N pend s" and f: "quiet_io (sfs s) f"
  shows "xtable_ok X N pend (s\<lparr>sfs := f\<rparr>)"
proof -
  have "xnode_ok X pend (s\<lparr>sfs := f\<rparr>) n" if "n \<in> N" for n by (rule quiet_nodes[OF table_okD(5)[OF t that] f]) simp_all
  moreover have "links_ok N (s\<lparr>sfs := f\<rparr>)" by (rule links_ok_cong[OF table_okD(3)[OF t]]) simp_all
  moreover have "fs_ok f" "fs_sem f = 1" using quiet_io_ok[OF f table_okD(1)[OF t]] f table_okD(2)[OF t] by (simp_all add: quiet_io_def io_frame_def)
  ultimately show ?thesis using t by (simp add: xtable_ok_def)
qed

lemma load_new:
  assumes t: "xtable_ok X N pend s" and b: "in_use (sfs s) ino" and k: "mem_node k = Some n" "n \<notin> N" "disk_inode_ok ino (sfs s)"
    and new: "\<forall>m\<in>N. sin_ino (sins s m) \<noteq> ino" and f: "quiet_io (sfs s) f"
    and s': "s' = sfs_set_links n (s\<lparr>sfs := f, 
             inodes := (inodes s)(n := (inodes s n)\<lparr>ref_count := 1, open_count := 0, in_ops := ops\<rparr>), sins := (sins s)(n := new_sin ino (sfs s))\<rparr>)"
    and ops: "sfs_get_ops (din_type (din (new_sin ino (sfs s)))) = Some ops"
  shows "xtable_ok X (insert n N) pend s'"
proof -
  let ?s1 = "s\<lparr>sfs := f, 
             inodes := (inodes s)(n := (inodes s n)\<lparr>ref_count := 1, open_count := 0, in_ops := ops\<rparr>), sins := (sins s)(n := new_sin ino (sfs s))\<rparr>"
  have same: "sfs s' = f" "sins s' = (sins s)(n := new_sin ino (sfs s))" 
    "inodes s' = (inodes s)(n := (inodes s n)\<lparr>ref_count := 1, open_count := 0, in_ops := ops\<rparr>)" by (simp_all add: s' sfs_set_links_def)
  have "links_ok N ?s1" by (rule links_ok_cong[OF table_okD(3)[OF t]]) (use k(2) in auto)
  then have "links_ok (insert n N) s'" unfolding s' by (rule sin_link_ok[OF _ k(2)])
  moreover have "xnode_ok X pend s' m" if "m \<in> N" for m
    using that k(2) by (intro quiet_nodes[OF table_okD(5)[OF t that] f same(1)]) (auto simp: same)
  moreover have "xnode_ok X pend s' n"
  proof -
    have "pend n = 0" using t k(2) by (simp add: xtable_ok_def)
    moreover have "in_use f ino" "content f ino = content (sfs s) ino"
      using b f by (auto simp: in_use_def quiet_io_def io_frame_def same_blocks_def)
    moreover have "din_nlinks (din (new_sin ino (sfs s))) \<noteq> 0" using k(3) by (auto simp: new_sin_def disk_inode_ok_def Let_def)
    ultimately show ?thesis using ops by (simp add: xnode_ok_def same) (simp add: new_sin_def din_stored_def din_ok_dec)
  qed
  moreover have "inj_on (\<lambda>m. sin_ino (sins s' m)) (insert n N)"
    using table_okD(4)[OF t] new k(2) by (auto simp: same inj_on_def new_sin_def)
  moreover have "fs_ok f" "fs_sem f = 1" using quiet_io_ok[OF f table_okD(1)[OF t]] f table_okD(2)[OF t] by (simp_all add: quiet_io_def io_frame_def)
  ultimately show ?thesis using t same(1) by (auto simp: xtable_ok_def)
qed

definition xload_result :: "nat set \<Rightarrow> nat set \<Rightarrow> (nat \<Rightarrow> nat) \<Rightarrow> kmem \<Rightarrow> nat \<Rightarrow> 'a sfs_state_scheme \<Rightarrow> int \<Rightarrow> nat option \<Rightarrow> 'a sfs_state_scheme \<Rightarrow> bool" where
  "xload_result X N pend k ino s ret r s' \<longleftrightarrow> quiet_io (sfs s) (sfs s') \<and>
     (case r of
        None \<Rightarrow> ret = - E_NO_MEM \<and> (\<not> mem_din k \<or> mem_node k = None) \<and> (\<forall>n\<in>N. sin_ino (sins s n) \<noteq> ino) \<and>
          xtable_ok X N pend s' \<and> sins s' = sins s \<and> inodes s' = inodes s
      | Some n \<Rightarrow> ret = 0 \<and> xtable_ok X (insert n N) pend s' \<and> sin_ino (sins s' n) = ino \<and>
          (if n \<in> N then sin_ino (sins s n) = ino \<and> ref_count (inodes s' n) = ref_count (inodes s n) + 1 \<and>
             open_count (inodes s' n) = open_count (inodes s n) \<and> din (sins s' n) = din (sins s n)
           else mem_node k = Some n \<and> ref_count (inodes s' n) = 1 \<and> open_count (inodes s' n) = 0 \<and> din_stored ino (din (sins s' n)) (sfs s)) \<and>
          (\<forall>m. m \<noteq> n \<longrightarrow> sins s' m = sins s m \<and> inodes s' m = inodes s m))"

abbreviation load_result :: "nat set \<Rightarrow> (nat \<Rightarrow> nat) \<Rightarrow> kmem \<Rightarrow> nat \<Rightarrow> 'a sfs_state_scheme \<Rightarrow> int \<Rightarrow> nat option \<Rightarrow> 'a sfs_state_scheme \<Rightarrow> bool" where
  "load_result \<equiv> xload_result {}"

lemma load_ok:
  assumes t: "xtable_ok X N pend s" and b: "in_use (sfs s) ino" and fresh: "\<And>n. mem_node k = Some n \<Longrightarrow> n \<notin> N"
    and d: "\<forall>n\<in>N. sin_ino (sins s n) \<noteq> ino \<Longrightarrow> disk_inode_ok ino (sfs s)"
  shows "\<exists>ret r s'. sfs_load_inode k ino s = Some (ret, r, s') \<and> xload_result X N pend k ino s ret r s'"
proof -
  let ?s0 = "s\<lparr>sfs := sfs s\<lparr>fs_sem := 0\<rparr>\<rparr>"
  have "links_ok N ?s0" by (rule links_ok_cong[OF table_okD(3)[OF t]]) simp_all
  then obtain r where r: "lookup_sfs_loop (sfs_hash_list ino) (sfs_hash_list ino) ino ?s0 = Some r" "node_found N ?s0 ino r"
    using lookup_finds by blast
  show ?thesis
  proof (cases r)
    case (Some n)
    then have n: "n \<in> N" "sin_ino (sins s n) = ino" using r(2) by (simp_all add: node_found_def)
    show ?thesis using load_found[OF t n(1) r(1)[unfolded Some], of k] n quiet_io_refl[OF table_okD(1)[OF t]] insert_absorb[OF n(1)]
      by (fastforce simp: xload_result_def)
  next
    case None
    then have new: "\<forall>n\<in>N. sin_ino (sins s n) \<noteq> ino" using r(2) by (simp add: node_found_def)
    show ?thesis
    proof (cases "mem_din k")
      case False
      then have "sfs_load_inode k ino s = Some (- E_NO_MEM, None, s)"
        using r(1) None lock_release[OF table_okD(2)[OF t]] by (simp add: sfs_load_inode_def lookup_sfs_nolock_def)
      then show ?thesis using False t new quiet_io_refl[OF table_okD(1)[OF t]] by (simp add: xload_result_def)
    next
      case True
      obtain f where f: "quiet_io (sfs s) f" "sfs_load_inode k ino s =
         (case mem_node k of None \<Rightarrow> Some (- E_NO_MEM, None, s\<lparr>sfs := f\<rparr>)
          | Some n \<Rightarrow> do { ops \<leftarrow> sfs_get_ops (din_type (din (new_sin ino (sfs s))));
              Some (0, Some n, sfs_set_links n (s\<lparr>sfs := f, 
                 inodes := (inodes s)(n := (inodes s n)\<lparr>ref_count := 1, open_count := 0, in_ops := ops\<rparr>), sins := (sins s)(n := new_sin ino (sfs s))\<rparr>)) })"
        using load_reads[OF table_okD(1,2)[OF t] b True d[OF new] r(1)[unfolded None]] by blast
      show ?thesis
      proof (cases "mem_node k")
        case None
        then show ?thesis using table_quiet[OF t f(1)] f new by (simp add: xload_result_def)
      next
        case (Some n)
        obtain ops where ops: "sfs_get_ops (din_type (din (new_sin ino (sfs s)))) = Some ops"
          using d[OF new] by (auto simp: disk_inode_ok_def Let_def new_sin_def sfs_get_ops_def SFS_TYPE_DIR_def SFS_TYPE_FILE_def)
        define s' where "s' = sfs_set_links n (s\<lparr>sfs := f, 
                 inodes := (inodes s)(n := (inodes s n)\<lparr>ref_count := 1, open_count := 0, in_ops := ops\<rparr>), sins := (sins s)(n := new_sin ino (sfs s))\<rparr>)"
        note tab = load_new[OF t b Some fresh[OF Some] d[OF new] new f(1) s'_def ops]
        have "sfs_load_inode k ino s = Some (0, Some n, s')" using f(2) Some ops by (simp add: s'_def)
        then show ?thesis using tab fresh[OF Some] Some f(1)
          by (intro exI[of _ 0] exI[of _ "Some n"] exI[of _ s']) (simp add: xload_result_def, simp add: s'_def sfs_set_links_def new_sin_def din_stored_def)
      qed
    qed
  qed
qed

lemma sin_unlink_ok:
  assumes l: "links_ok N s" and n: "n \<in> N"
  shows "links_ok (N - {n}) (sfs_remove_links n s)"
proof -
  let ?s' = "sfs_remove_links n s" and ?h = "sin_hashfn (sin_ino (sins s n))"
  obtain ns where ns: "dlist (inode_links s) InodeList (map InodeLink ns)" "set ns = N" using l by (auto simp: links_ok_def)
  obtain us vs where uv: "ns = us @ n # vs" using ns(2) n by (metis split_list)
  have d: "distinct ns" using dlist_distinct[OF ns(1)] by (simp add: distinct_map)
  have "dlist (inode_links ?s') InodeList (map InodeLink (us @ vs))"
    using dlist_del[of "inode_links s" InodeList "map InodeLink us" "InodeLink n" "map InodeLink vs"] ns(1) uv
    by (simp add: sfs_remove_links_def)
  moreover have "set (us @ vs) = N - {n}" using ns(2) uv d by auto
  moreover have "\<exists>ch. dlist (sin_links ?s') (SinHash h) (map SinLink ch) \<and> set ch = {m \<in> N - {n}. sin_hashfn (sin_ino (sins ?s' m)) = h}"
    if h: "h < SFS_HLIST_SIZE" for h
  proof -
    obtain ch where ch: "dlist (sin_links s) (SinHash h) (map SinLink ch)" "set ch = {m \<in> N. sin_hashfn (sin_ino (sins s m)) = h}"
      using links_chain[OF l h] by blast
    obtain c0 where c0: "dlist (sin_links s) (SinHash ?h) (map SinLink c0)" "set c0 = {m \<in> N. sin_hashfn (sin_ino (sins s m)) = ?h}"
      using links_chain[OF l sin_hashfn_less] by blast
    have "n \<in> set c0" using c0(2) n by simp
    then obtain as bs where ab: "c0 = as @ n # bs" by (metis split_list)
    have del: "dlist (sin_links s) (SinHash ?h) (map SinLink as @ SinLink n # map SinLink bs)" using c0(1) ab by simp
    show ?thesis
    proof (cases "h = ?h")
      case True
      have "distinct c0" using dlist_distinct[OF c0(1)] by (simp add: distinct_map)
      then have "set (as @ bs) = {m \<in> N - {n}. sin_hashfn (sin_ino (sins s m)) = h}" using c0(2) ab True by auto
      moreover have "dlist (sin_links ?s') (SinHash h) (map SinLink (as @ bs))"
        using dlist_del[OF del] True by (simp add: sfs_remove_links_def)
      ultimately show ?thesis by (intro exI[of _ "as @ bs"]) (simp add: sfs_remove_links_def)
    next
      case False
      have "q \<notin> set (SinHash ?h # map SinLink as @ SinLink n # map SinLink bs)" if "q \<in> set (SinHash h # map SinLink ch)" for q
      proof
        assume "q \<in> set (SinHash ?h # map SinLink as @ SinLink n # map SinLink bs)"
        then have "q = SinHash ?h \<or> q \<in> SinLink ` set c0" using ab by auto
        then show False using that False ch(2) c0(2) by auto
      qed
      then have "dlist (sin_links ?s') (SinHash h) (map SinLink ch)"
        using ch(1) dlist_del_frame[OF del] by (subst dlist_cong[of _ _ _ "sin_links s"]) (simp_all add: sfs_remove_links_def)
      then show ?thesis using ch(2) False by (intro exI[of _ ch]) (auto simp: sfs_remove_links_def)
    qed
  qed
  ultimately show ?thesis unfolding links_ok_def by blast
qed

lemma reclaim_busy:
  assumes t: "xtable_ok X N pend s" and n: "n \<in> N" "pend n > 0" and busy: "\<not> (pend n = 1 \<and> ref_count (inodes s n) = 0)"
  shows "\<exists>s'. sfs_reclaim n s = Some (- E_BUSY, s') \<and> xtable_ok X N (pend(n := pend n - 1)) s' \<and> inodes s' = inodes s \<and> sfs s' = sfs s \<and>
     (\<forall>m. din (sins s' m) = din (sins s m) \<and> sin_ino (sins s' m) = sin_ino (sins s m))"
proof -
  define s' where "s' = upd_sin n (\<lambda>i. i\<lparr>reclaim_count := reclaim_count i - 1\<rparr>) s"
  note nd = table_okD(5)[OF t n(1), unfolded xnode_ok_def]
  have rc: "reclaim_count (sins s n) > 0" "reclaim_count (sins s n) - 1 \<noteq> 0 \<or> ref_count (inodes s n) \<noteq> 0" using nd n(2) busy by auto
  have "sfs_reclaim n s = Some (- E_BUSY, s')"
    using lock_release(1)[OF table_okD(2)[OF t]] rc table_okD(2)[OF t]
    by (simp add: sfs_reclaim_def upd_sin_def release_fs_def unlock_sfs_fs_def s'_def Let_def)
  moreover have "xnode_ok X (pend(n := pend n - 1)) s' n"
    using nd n(2) busy by (auto simp: xnode_ok_def s'_def upd_sin_def of_nat_diff)
  then have "xtable_ok X N (pend(n := pend n - 1)) s'" using n(1) by (intro table_ok_upd[OF t, where m = n]) (simp_all add: s'_def upd_sin_def)
  ultimately show ?thesis by (auto simp: s'_def upd_sin_def)
qed

lemma io_frame_sem: "io_frame (fs\<lparr>fs_sem := a\<rparr>) f \<Longrightarrow> io_frame fs (f\<lparr>fs_sem := fs_sem fs\<rparr>)"
  by (auto simp: io_frame_def io_ok_def)

text \<open>Both tables of the file system define these two.\<close>

lemma sfs_has_ops: "sfs_get_ops ty = Some ops \<Longrightarrow> vop_defined ops Vfsync \<and> vop_defined ops Vreclaim"
  by (auto simp: sfs_get_ops_def split: if_splits)

lemma fsync_writes:
  assumes "fs_ok fs" "in_use fs (sin_ino sin)" "0 < sin_sem sin" "din_ok (din sin)"
  shows "\<exists>fs'. sfs_fsync sin fs = Some (0, sin\<lparr>sin_dirty := False\<rparr>, fs') \<and> io_frame fs fs' \<and>
     (sin_dirty sin \<or> din_stored (sin_ino sin) (din sin) fs \<longrightarrow> din_stored (sin_ino sin) (din sin) fs') \<and> (\<not> sin_dirty sin \<longrightarrow> fs' = fs) \<and>
     (\<forall>c<blocks (super fs). c \<noteq> sin_ino sin \<longrightarrow> content fs' c = content fs c)"
proof (cases "sin_dirty sin")
  case True
  then show ?thesis using sfs_fsync_ok[OF assms] by auto
next
  case False
  then show ?thesis using assms(1) by (cases sin) (auto simp: sfs_fsync_def io_frame_def fs_ok_def)
qed

text \<open>
  The last process to reclaim takes the inode out of the table; when the inode is marked dirty, it
  writes it back.
\<close>

lemma reclaim_runs:
  assumes t: "xtable_ok X N pend s" and n: "n \<in> N" "pend n = 1" "ref_count (inodes s n) = 0"
  shows "\<exists>f sin. sfs_reclaim n s = Some (0, sfs_remove_links n (s\<lparr>sfs := f, sins := (sins s)(n := sin)\<rparr>)) \<and> io_frame (sfs s) f \<and>
     (n \<notin> X \<or> sin_dirty (sins s n) \<longrightarrow> din_stored (sin_ino (sins s n)) (din (sins s n)) f) \<and>
     (\<forall>c<blocks (super (sfs s)). c \<noteq> sin_ino (sins s n) \<or> \<not> sin_dirty (sins s n) \<longrightarrow> content f c = content (sfs s) c)"
proof -
  note nd = table_okD(5)[OF t n(1), unfolded xnode_ok_def] and sem = table_okD(2)[OF t]
  let ?f0 = "sfs s\<lparr>fs_sem := 0\<rparr>" and ?sin = "(sins s n)\<lparr>reclaim_count := reclaim_count (sins s n) - 1\<rparr>"
  have rc: "reclaim_count (sins s n) = 1" "open_count (inodes s n) = 0" "din_nlinks (din (sins s n)) \<noteq> 0" using nd n by auto
  have f0: "fs_ok ?f0" "in_use ?f0 (sin_ino ?sin)" "0 < sin_sem ?sin" "din_ok (din ?sin)"
    using nd table_okD(1)[OF t] by (simp_all add: fs_ok_def io_ok_def in_use_def)
  have st: "n \<notin> X \<Longrightarrow> sin_dirty ?sin \<or> din_stored (sin_ino ?sin) (din ?sin) ?f0" using nd by (simp add: din_stored_def)
  obtain f1 where w: "sfs_fsync ?sin ?f0 = Some (0, ?sin\<lparr>sin_dirty := False\<rparr>, f1)" "io_frame ?f0 f1"
    "n \<notin> X \<or> sin_dirty ?sin \<Longrightarrow> din_stored (sin_ino ?sin) (din ?sin) f1"
    "\<forall>c<blocks (super ?f0). c \<noteq> sin_ino ?sin \<longrightarrow> content f1 c = content ?f0 c" "\<not> sin_dirty ?sin \<longrightarrow> f1 = ?f0"
    using fsync_writes[OF f0] st by blast
  have chk: "inode_check n s' = Some ()" if "inodes s' n = inodes s n" for s' :: "'a sfs_state_scheme"
    using that n(3) rc(2) by (simp add: inode_check_def MAX_INODE_COUNT_def)
  define s2 where "s2 = s\<lparr>sfs := ?f0, sins := (sins s)(n := ?sin)\<rparr>"
  define s4 where "s4 = s\<lparr>sfs := f1, sins := (sins s)(n := ?sin\<lparr>sin_dirty := False\<rparr>)\<rparr>"
  have f: "sfs s2 = ?f0" "sins s2 n = ?sin" "inodes s2 = inodes s" by (simp_all add: s2_def)
  have same: "sin_dirty ?sin \<or> f1 = ?f0 \<and> ?sin\<lparr>sin_dirty := False\<rparr> = ?sin" using w(1) by (auto simp: sfs_fsync_def)
  have step: "(if sin_dirty (sins s2 n) then sfs_vop_fsync n s2 else Some (0, s2)) = Some (0, s4)"
  proof (cases "sin_dirty ?sin")
    case True
    moreover have "vop_defined (in_ops (inodes s n)) Vfsync" using nd sfs_has_ops by blast
    ultimately show ?thesis using w(1) f chk by (simp add: sfs_vop_fsync_def vop_def on_sin_def s4_def s2_def)
  next
    case False
    then have e: "f1 = ?f0" "?sin\<lparr>sin_dirty := False\<rparr> = ?sin" using same by blast+
    have "s4 = s2" unfolding s4_def s2_def e ..
    then show ?thesis using False f(2) by simp
  qed
  let ?s5 = "release_fs (sfs_remove_links n s4)"
  have "fs_sem f1 = 0" using w(2) by (simp add: io_frame_def)
  then have s5: "?s5 = sfs_remove_links n (s\<lparr>sfs := f1\<lparr>fs_sem := 1\<rparr>, sins := (sins s)(n := ?sin\<lparr>sin_dirty := False\<rparr>)\<rparr>)"
    by (simp add: release_fs_def unlock_sfs_fs_def s4_def sfs_remove_links_def)
  have "reclaim_blocks n ?s5 = Some ?s5" "inode_kill n ?s5 = Some ()"
    using rc n(3) by (simp_all add: reclaim_blocks_def sfs_remove_links_def release_fs_def s4_def inode_kill_def)
  moreover have "upd_sin n (\<lambda>i. i\<lparr>reclaim_count := reclaim_count i - 1\<rparr>) (s\<lparr>sfs := ?f0\<rparr>) = s2" by (simp add: upd_sin_def s2_def)
  ultimately have "sfs_reclaim n s = Some (0, ?s5)"
    using lock_release(1)[OF sem] rc n(3) step f by (simp add: sfs_reclaim_def)
  moreover have "io_frame (sfs s) (f1\<lparr>fs_sem := 1\<rparr>)" using io_frame_sem[OF w(2)] sem by simp
  moreover have "\<forall>c<blocks (super (sfs s)). c \<noteq> sin_ino (sins s n) \<or> \<not> sin_dirty (sins s n) \<longrightarrow> content f1 c = content (sfs s) c"
    using w(4,5) by (cases "sin_dirty (sins s n)") auto
  ultimately show ?thesis using w(3) s5
    by (intro exI[of _ "f1\<lparr>fs_sem := 1\<rparr>"] exI[of _ "?sin\<lparr>sin_dirty := False\<rparr>"]) (simp add: din_stored_def)
qed

lemma reclaim_last:
  assumes t: "xtable_ok X N pend s" and n: "n \<in> N" "pend n = 1" "ref_count (inodes s n) = 0"
  shows "\<exists>s'. sfs_reclaim n s = Some (0, s') \<and> xtable_ok X (N - {n}) (pend(n := 0)) s' \<and> inodes s' = inodes s \<and>
     io_frame (sfs s) (sfs s') \<and> (n \<notin> X \<or> sin_dirty (sins s n) \<longrightarrow> din_stored (sin_ino (sins s n)) (din (sins s n)) (sfs s')) \<and>
     (\<forall>m. m \<noteq> n \<longrightarrow> sins s' m = sins s m) \<and>
     (\<forall>c<blocks (super (sfs s)). c \<noteq> sin_ino (sins s n) \<or> \<not> sin_dirty (sins s n) \<longrightarrow> content (sfs s') c = content (sfs s) c)"
proof -
  obtain f sin where r: "sfs_reclaim n s = Some (0, sfs_remove_links n (s\<lparr>sfs := f, sins := (sins s)(n := sin)\<rparr>))" "io_frame (sfs s) f"
     "n \<notin> X \<or> sin_dirty (sins s n) \<longrightarrow> din_stored (sin_ino (sins s n)) (din (sins s n)) f"
     "\<forall>c<blocks (super (sfs s)). c \<noteq> sin_ino (sins s n) \<or> \<not> sin_dirty (sins s n) \<longrightarrow> content f c = content (sfs s) c"
    using reclaim_runs[OF assms] by blast
  define s1 where "s1 = s\<lparr>sfs := f, sins := (sins s)(n := sin)\<rparr>"
  define s' where "s' = sfs_remove_links n s1"
  have f: "sfs s' = f" "inodes s' = inodes s" "m \<noteq> n \<Longrightarrow> sins s' m = sins s m" for m
    by (simp_all add: s'_def s1_def sfs_remove_links_def)
  have "links_ok (N - {n}) (sfs_remove_links n s)" by (rule sin_unlink_ok[OF table_okD(3)[OF t] n(1)])
  then have "links_ok (N - {n}) s'" by (rule links_ok_cong) (simp_all add: s'_def s1_def sfs_remove_links_def)
  moreover have "xnode_ok X (pend(n := 0)) s' m" if m: "m \<in> N - {n}" for m
  proof (rule node_ok_cong)
    show "xnode_ok X pend s m" using table_okD(5)[OF t] m by blast
    have "sin_ino (sins s m) \<noteq> sin_ino (sins s n)" using table_okD(4)[OF t] m n(1) by (auto simp: inj_on_def)
    moreover have "sin_ino (sins s m) < blocks (super (sfs s))" using table_okD(5)[OF t] m by (auto simp: xnode_ok_def in_use_def)
    ultimately show "content (sfs s') (sin_ino (sins s m)) = content (sfs s) (sin_ino (sins s m))" using r(4) f(1) by simp
  qed (use m f r(2) in \<open>auto simp: in_use_def io_frame_def\<close>)
  moreover have "inj_on (\<lambda>m. sin_ino (sins s' m)) (N - {n})" using table_okD(4)[OF t] f(3) by (auto simp: inj_on_def)
  moreover have "fs_ok f" "fs_sem f = 1" using r(2) table_okD(1,2)[OF t] by (simp_all add: io_frame_def fs_ok_def)
  ultimately have "xtable_ok X (N - {n}) (pend(n := 0)) s'" using t f(1) by (auto simp: xtable_ok_def)
  then show ?thesis using r f by (intro exI[of _ s']) (simp add: s'_def s1_def)
qed

subsection \<open>Interleavings\<close>

text \<open>
  The part of \<^verbatim>\<open>inode_ref_dec\<close> before the call of \<^verbatim>\<open>vop_reclaim\<close>. Between the two the process
  may wait for the lock of the file system while others load the same inode.
\<close>

abbreviation drop_ref :: "nat \<Rightarrow> 'a sfs_state_scheme \<Rightarrow> 'a sfs_state_scheme" where
  "drop_ref n s \<equiv> upd_inode n (\<lambda>i. i\<lparr>ref_count := ref_count i - 1\<rparr>) s"

text \<open>
  Steps of the processes: a load, taking a further reference, dropping one, reclaiming, writing
  an inode back, and any change of a loaded inode that leaves the other inodes alone on the
  disk. \<open>N\<close> is the set of loaded inodes. A change of an inode outside \<open>X\<close> marks it dirty or
  leaves it as it is on the disk; one of an inode in \<open>X\<close> need not, as when
  \<^verbatim>\<open>sfs_bmap_load_nolock\<close> enters a block into an indirect block that exists.
\<close>

inductive node_step :: "nat set \<Rightarrow> nat set \<times> (nat \<Rightarrow> nat) \<times> 'a sfs_state_scheme \<Rightarrow> nat set \<times> (nat \<Rightarrow> nat) \<times> 'a sfs_state_scheme \<Rightarrow> bool" for X where
  step_load: "sfs_load_inode k ino s = Some (ret, r, s') \<Longrightarrow> in_use (sfs s) ino \<Longrightarrow> (\<And>n. mem_node k = Some n \<Longrightarrow> n \<notin> N) \<Longrightarrow>
     (\<forall>n\<in>N. sin_ino (sins s n) \<noteq> ino \<Longrightarrow> disk_inode_ok ino (sfs s)) \<Longrightarrow>
     node_step X (N, pend, s) (N \<union> set_option r, pend, s')"
| step_ref: "n \<in> N \<Longrightarrow> ref_count (inodes s n) > 0 \<Longrightarrow> node_step X (N, pend, s) (N, pend, inode_ref_inc n s)"
| step_drop: "n \<in> N \<Longrightarrow> ref_count (inodes s n) > open_count (inodes s n) \<Longrightarrow> s' = drop_ref n s \<Longrightarrow>
     pend' = (if ref_count (inodes s' n) = 0 then pend(n := pend n + 1) else pend) \<Longrightarrow> node_step X (N, pend, s) (N, pend', s')"
| step_reclaim: "pend n > 0 \<Longrightarrow> sfs_reclaim n s = Some (ret, s') \<Longrightarrow>
     node_step X (N, pend, s) (if ret = 0 then N - {n} else N, pend(n := pend n - 1), s')"
| step_sync: "n \<in> N \<Longrightarrow> sfs_vop_fsync n s = Some (ret, s') \<Longrightarrow> node_step X (N, pend, s) (N, pend, s')"
| step_change: "n \<in> N \<Longrightarrow> fs_ok f \<Longrightarrow> fs_sem f = 1 \<Longrightarrow> din_ok (din sin) \<Longrightarrow> din_nlinks (din sin) \<noteq> 0 \<Longrightarrow>
     n \<in> X \<or> sin_dirty sin \<or> din_stored (sin_ino sin) (din sin) f \<Longrightarrow>
     din_type (din sin) = din_type (din (sins s n)) \<Longrightarrow> sin_ino sin = sin_ino (sins s n) \<Longrightarrow> sin_sem sin = 1 \<Longrightarrow>
     reclaim_count sin = reclaim_count (sins s n) \<Longrightarrow>
     (\<And>m. m \<in> N \<Longrightarrow> in_use f (sin_ino (sins s m)) \<and> content f (sin_ino (sins s m)) = content (sfs s) (sin_ino (sins s m))) \<Longrightarrow>
     node_step X (N, pend, s) (N, pend, s\<lparr>sfs := f, sins := (sins s)(n := sin)\<rparr>)"

lemma pend_in: "xtable_ok X N pend s \<Longrightarrow> pend n > 0 \<Longrightarrow> n \<in> N"
  by (auto simp: xtable_ok_def)

lemma drop_ok:
  assumes t: "xtable_ok X N pend s" and n: "n \<in> N" "ref_count (inodes s n) > open_count (inodes s n)"
  shows "xtable_ok X N (if ref_count (inodes (drop_ref n s) n) = 0 then pend(n := pend n + 1) else pend) (drop_ref n s)"
proof (rule table_ok_upd[OF t _ _ _ _ _ n(1)])
  show "xnode_ok X (if ref_count (inodes (drop_ref n s) n) = 0 then pend(n := pend n + 1) else pend) (drop_ref n s) n"
    using table_okD(5)[OF t n(1)] n(2) by (auto simp: xnode_ok_def upd_inode_def)
qed (simp_all add: upd_inode_def)

lemma node_ref_ok:
  assumes t: "xtable_ok X N pend s" and n: "n \<in> N" "ref_count (inodes s n) > 0"
  shows "xtable_ok X N pend (inode_ref_inc n s)"
proof (rule table_ok_upd[OF t _ _ _ _ _ n(1)])
  show "xnode_ok X pend (inode_ref_inc n s) n"
    using table_okD(5)[OF t n(1)] n(2) by (auto simp: xnode_ok_def inode_ref_inc_def upd_inode_def)
qed (simp_all add: inode_ref_inc_def upd_inode_def)

lemma change_ok:
  assumes t: "xtable_ok X N pend s" and n: "n \<in> N" and f: "fs_ok f" "fs_sem f = 1"
    and sin: "din_ok (din sin)" "din_nlinks (din sin) \<noteq> 0" "n \<in> X \<or> sin_dirty sin \<or> din_stored (sin_ino sin) (din sin) f" "din_type (din sin) = din_type (din (sins s n))"
      "sin_ino sin = sin_ino (sins s n)" "sin_sem sin = 1" "reclaim_count sin = reclaim_count (sins s n)"
    and use: "\<And>m. m \<in> N \<Longrightarrow> in_use f (sin_ino (sins s m)) \<and> content f (sin_ino (sins s m)) = content (sfs s) (sin_ino (sins s m))"
  shows "xtable_ok X N pend (s\<lparr>sfs := f, sins := (sins s)(n := sin)\<rparr>)" (is "xtable_ok _ _ _ ?s'")
proof -
  have ino: "sin_ino (sins ?s' m) = sin_ino (sins s m)" for m using sin(5) by simp
  have "links_ok N ?s'" by (rule links_ok_cong[OF table_okD(3)[OF t]]) (use ino in simp_all)
  moreover have "xnode_ok X pend ?s' m" if m: "m \<in> N" for m
    using table_okD(5)[OF t m] use[OF m] sin by (cases "m = n") (auto simp: xnode_ok_def din_stored_def)
  moreover have "inj_on (\<lambda>m. sin_ino (sins ?s' m)) N" using table_okD(4)[OF t] unfolding ino .
  ultimately show ?thesis using t f by (simp add: xtable_ok_def)
qed

lemma sync_step_ok:
  assumes t: "xtable_ok X N pend s" and n: "n \<in> N" and run: "sfs_vop_fsync n s = Some (ret, s')"
  shows "xtable_ok X N pend s'"
proof -
  note nd = table_okD(5)[OF t n, unfolded xnode_ok_def]
  obtain f where f: "sfs_fsync (sins s n) (sfs s) = Some (0, (sins s n)\<lparr>sin_dirty := False\<rparr>, f)" "io_frame (sfs s) f"
    "sin_dirty (sins s n) \<or> din_stored (sin_ino (sins s n)) (din (sins s n)) (sfs s) \<longrightarrow> din_stored (sin_ino (sins s n)) (din (sins s n)) f"
    "\<forall>c<blocks (super (sfs s)). c \<noteq> sin_ino (sins s n) \<longrightarrow> content f c = content (sfs s) c"
    using fsync_writes[OF table_okD(1)[OF t], of "sins s n"] nd by auto
  have s': "s' = s\<lparr>sfs := f, sins := (sins s)(n := (sins s n)\<lparr>sin_dirty := False\<rparr>)\<rparr>"
    using run f(1) by (auto simp: sfs_vop_fsync_def vop_def on_sin_def kassert_def bind_eq_Some_conv split: if_splits)
  have "links_ok N s'" by (rule links_ok_cong[OF table_okD(3)[OF t]]) (simp_all add: s')
  moreover have "xnode_ok X pend s' m" if m: "m \<in> N" for m
  proof (cases "m = n")
    case True
    have "n \<in> X \<or> din_stored (sin_ino (sins s n)) (din (sins s n)) f" using nd f(3) by blast
    then show ?thesis using nd f(2) True by (simp add: xnode_ok_def s' in_use_def io_frame_def)
  next
    case False
    have "sin_ino (sins s m) \<noteq> sin_ino (sins s n)" using table_okD(4)[OF t] m n False by (auto simp: inj_on_def)
    moreover have "sin_ino (sins s m) < blocks (super (sfs s))" using table_okD(5)[OF t m] by (simp add: xnode_ok_def in_use_def)
    ultimately show ?thesis using f(2,4) False
      by (intro node_ok_cong[OF table_okD(5)[OF t m]]) (auto simp: s' in_use_def io_frame_def)
  qed
  moreover have "sin_ino (sins s' m) = sin_ino (sins s m)" for m by (simp add: s')
  then have "inj_on (\<lambda>m. sin_ino (sins s' m)) N" using table_okD(4)[OF t] by simp
  moreover have "fs_ok f" "fs_sem f = 1" using f(2) table_okD(1,2)[OF t] by (simp_all add: io_frame_def fs_ok_def)
  ultimately show ?thesis using t by (simp add: xtable_ok_def s')
qed

definition conf_ok :: "nat set \<Rightarrow> nat set \<times> (nat \<Rightarrow> nat) \<times> 'a sfs_state_scheme \<Rightarrow> bool" where
  "conf_ok X c = (case c of (N, pend, s) \<Rightarrow> xtable_ok X N pend s)"

lemma node_step_ok: "node_step X c c' \<Longrightarrow> conf_ok X c \<Longrightarrow> conf_ok X c'"
proof (induction rule: node_step.induct)
  case (step_load k ino s ret r s' N pend)
  then have t: "xtable_ok X N pend s" by (simp add: conf_ok_def)
  obtain ret' r' s'' where "sfs_load_inode k ino s = Some (ret', r', s'')" "xload_result X N pend k ino s ret' r' s''"
    using load_ok[OF t step_load(2-4)] by blast
  then show ?case using step_load(1) by (cases r) (auto simp: xload_result_def conf_ok_def)
next
  case (step_ref n N s pend)
  then have t: "xtable_ok X N pend s" by (simp add: conf_ok_def)
  then show ?case using node_ref_ok[OF t step_ref(1,2)] by (simp add: conf_ok_def)
next
  case (step_drop n N s s' pend' pend)
  then show ?case using drop_ok[of X N pend s n] by (simp add: conf_ok_def)
next
  case (step_reclaim pend n s ret s' N)
  then have t: "xtable_ok X N pend s" by (simp add: conf_ok_def)
  note n = pend_in[OF t step_reclaim(1)]
  show ?case
  proof (cases "pend n = 1 \<and> ref_count (inodes s n) = 0")
    case True
    then show ?thesis using reclaim_last[OF t n] step_reclaim(2) by (auto simp: conf_ok_def)
  next
    case False
    then show ?thesis using reclaim_busy[OF t n step_reclaim(1)] step_reclaim(2) by (auto simp: conf_ok_def E_BUSY_def)
  qed
next
  case (step_sync n N s ret s' pend)
  then show ?case using sync_step_ok[of X N pend s n ret s'] by (simp add: conf_ok_def)
next
  case (step_change n N f sin s pend)
  then have t: "xtable_ok X N pend s" by (simp add: conf_ok_def)
  show ?case unfolding conf_ok_def prod.case by (rule change_ok[OF t step_change(1-11)])
qed

lemma node_steps_ok: "(node_step X)\<^sup>*\<^sup>* c c' \<Longrightarrow> conf_ok X c \<Longrightarrow> conf_ok X c'"
  by (induction rule: rtranclp_induct) (auto dest: node_step_ok)

subsection \<open>Lookup in a directory\<close>

lemma ref_dec_keeps:
  assumes "ref_count (inodes s n) > 1"
  shows "sfs_ref_dec n s = Some (drop_ref n s)"
  using assms by (simp add: sfs_ref_dec_def inode_ref_dec_def upd_inode_def)

lemma lookup_once_ok:
  assumes t: "table_ok N pend s" and n: "n \<in> N" "din_type (din (sins s n)) = SFS_TYPE_DIR" "inode_ok (sins s n) (sfs s)"
    and k: "mem_entry k" "length name \<le> SFS_MAX_FNAME_LEN"
  shows "\<exists>f. quiet_io (sfs s) f \<and> sfs_lookup_once k n name s =
     (case dir_find name (sins s n) (sfs s) 0 of None \<Rightarrow> Some (- E_NOENT, None, s\<lparr>sfs := f\<rparr>)
      | Some j \<Rightarrow> sfs_load_inode k (ent_ino (dir_entry (sins s n) (sfs s) j)) (s\<lparr>sfs := f\<rparr>))"
proof -
  let ?sin = "sins s n" let ?L = "?sin\<lparr>sin_sem := 0\<rparr>"
  have sem: "sin_sem ?sin = 1" using table_okD(5)[OF t n(1)] by (simp add: xnode_ok_def)
  have lk: "lock_sin ?sin = Some ?L" "unlock_sin ?L = ?sin" using sem by (simp_all add: lock_sin_def unlock_sin_def)
  have m: "blkmap ?L = blkmap ?sin" "nblocks ?L = nblocks ?sin" by (simp_all add: blkmap_def fun_eq_iff)
  have e1: "dir_entry ?L = dir_entry ?sin" by (intro ext) (simp only: dir_entry_def m(1))
  have e: "dir_entry ?L = dir_entry ?sin" "dir_find name ?L = dir_find name ?sin" by (rule e1) (intro ext, simp only: dir_find_def m(2) e1)
  obtain es f where "dirent_search_loop name 0 (nblocks ?L) (nblocks ?L) ?L (sfs s) =
     Some (case dir_find name ?L (sfs s) 0 of None \<Rightarrow> (- E_NOENT, None, es, ?L, f)
           | Some j \<Rightarrow> (0, Some (j, ent_ino (dir_entry ?L (sfs s) j)), es, ?L, f))" "quiet_io (sfs s) f"
    using search_loop_ok[OF table_okD(1)[OF t], of ?L 0 name "nblocks ?L"] n by auto
  then show ?thesis using lk k by (intro exI[of _ f]) (auto simp: sfs_lookup_once_def sfs_dirent_search_nolock_def e E_NOENT_def split: option.split)
qed

text \<open>What \<^verbatim>\<open>sfs_lookup\<close> returns and leaves.\<close>

definition lookup_result :: "nat set \<Rightarrow> (nat \<Rightarrow> nat) \<Rightarrow> kmem \<Rightarrow> nat \<Rightarrow> byte list \<Rightarrow> 'a sfs_state_scheme \<Rightarrow> int \<Rightarrow> nat option \<Rightarrow> 'a sfs_state_scheme \<Rightarrow> bool" where
  "lookup_result N pend k n name s ret r s' \<longleftrightarrow>
     (case dir_find name (sins s n) (sfs s) 0 of
        None \<Rightarrow> ret = - E_NOENT \<and> r = None \<and> table_ok N pend s' \<and> quiet_io (sfs s) (sfs s') \<and> sins s' = sins s \<and> inodes s' = inodes s
      | Some j \<Rightarrow> load_result N pend k (ent_ino (dir_entry (sins s n) (sfs s) j)) s ret r s')"

lemma lookup_ok:
  assumes t: "table_ok N pend s" and n: "n \<in> N" "din_type (din (sins s n)) = SFS_TYPE_DIR" "inode_ok (sins s n) (sfs s)" "ref_count (inodes s n) > 0"
    and k: "mem_entry k" "length name \<le> SFS_MAX_FNAME_LEN" "name \<noteq> []" "hd name \<noteq> 47" and fresh: "\<And>m. mem_node k = Some m \<Longrightarrow> m \<notin> N"
    and ent: "\<And>j ino. dir_find name (sins s n) (sfs s) 0 = Some j \<Longrightarrow> ino = ent_ino (dir_entry (sins s n) (sfs s) j) \<Longrightarrow>
       in_use (sfs s) ino \<and> ((\<forall>m\<in>N. sin_ino (sins s m) \<noteq> ino) \<longrightarrow> disk_inode_ok ino (sfs s))"
  shows "\<exists>ret r s'. sfs_lookup k n name s = Some (ret, r, s') \<and> lookup_result N pend k n name s ret r s'"
proof -
  define s1 where "s1 = inode_ref_inc n s"
  have s1: "sfs s1 = sfs s" "sins s1 = sins s" "inodes s1 = (inodes s)(n := (inodes s n)\<lparr>ref_count := ref_count (inodes s n) + 1\<rparr>)"
    by (simp_all add: s1_def inode_ref_inc_def upd_inode_def)
  have t1: "table_ok N pend s1" unfolding s1_def by (rule node_ref_ok[OF t n(1,4)])
  have op: "open_count (inodes s n) \<le> ref_count (inodes s n)" using table_okD(5)[OF t n(1)] by (simp add: xnode_ok_def)
  obtain f where f: "quiet_io (sfs s) f" "sfs_lookup_once k n name s1 =
     (case dir_find name (sins s n) (sfs s) 0 of None \<Rightarrow> Some (- E_NOENT, None, s1\<lparr>sfs := f\<rparr>)
      | Some j \<Rightarrow> sfs_load_inode k (ent_ino (dir_entry (sins s n) (sfs s) j)) (s1\<lparr>sfs := f\<rparr>))"
    using lookup_once_ok[OF t1 n(1) _ _ k(1,2)] n(2,3) unfolding s1(1,2) by blast
  have t2: "table_ok N pend (s1\<lparr>sfs := f\<rparr>)" using table_quiet[OF t1, of f] f(1) s1 by simp
  note lk = sfs_lookup_def s1_def[symmetric]
  show ?thesis
  proof (cases "dir_find name (sins s n) (sfs s) 0")
    case None
    let ?s' = "drop_ref n (s1\<lparr>sfs := f\<rparr>)"
    have "sfs_ref_dec n (s1\<lparr>sfs := f\<rparr>) = Some ?s'" by (rule ref_dec_keeps) (use n(4) s1 in simp)
    then have "sfs_lookup k n name s = Some (- E_NOENT, None, ?s')" using f(2) None k(3,4) n(2) s1 by (simp add: lk E_NOENT_def)
    moreover have "table_ok N pend ?s'" using drop_ok[OF t2 n(1)] n(4) op s1 by (simp add: upd_inode_def)
    ultimately show ?thesis using None f(1) s1 by (simp add: lookup_result_def upd_inode_def)
  next
    case (Some j)
    let ?ino = "ent_ino (dir_entry (sins s n) (sfs s) j)"
    note e = ent[OF Some refl]
    have use: "in_use f ?ino" "content f ?ino = content (sfs s) ?ino"
      using e f(1) by (auto simp: in_use_def quiet_io_def io_frame_def same_blocks_def)
    obtain ret r s2 where l: "sfs_load_inode k ?ino (s1\<lparr>sfs := f\<rparr>) = Some (ret, r, s2)" "load_result N pend k ?ino (s1\<lparr>sfs := f\<rparr>) ret r s2"
      using load_ok[OF t2, of ?ino k] use e fresh s1 by (auto simp: disk_inode_ok_def)
    let ?s' = "drop_ref n s2"
    have cnt: "ref_count (inodes s2 n) \<ge> ref_count (inodes s n) + 1" "open_count (inodes s2 n) \<le> ref_count (inodes s n)"
    proof -
      have "inodes s2 n = inodes s1 n \<or> ref_count (inodes s2 n) = ref_count (inodes s1 n) + 1 \<and> open_count (inodes s2 n) = open_count (inodes s1 n)"
        using l(2) n(1) by (cases "r = Some n") (auto simp: xload_result_def split: option.splits)
      then show "ref_count (inodes s2 n) \<ge> ref_count (inodes s n) + 1" "open_count (inodes s2 n) \<le> ref_count (inodes s n)"
        using s1(3) op by auto
    qed
    have "sfs_ref_dec n s2 = Some ?s'" by (rule ref_dec_keeps) (use n(4) cnt in simp)
    moreover have rr: "(if ret \<noteq> 0 then None else r) = r" using l(2) by (auto simp: xload_result_def E_NO_MEM_def split: option.splits)
    ultimately have "sfs_lookup k n name s = Some (ret, r, ?s')" using f(2) Some l(1) k(3,4) n(2) s1 by (simp add: lk)
    moreover have "load_result N pend k ?ino s ret r ?s'"
    proof (cases r)
      case None
      then have "table_ok N pend s2" using l(2) by (simp add: xload_result_def)
      then have "table_ok N pend ?s'" using drop_ok[of "{}" N pend s2 n] n(1,4) cnt by (simp add: upd_inode_def)
      then show ?thesis using l(2) None s1 quiet_io_trans[OF f(1)] by (auto simp: xload_result_def upd_inode_def)
    next
      case (Some m)
      then have "table_ok (insert m N) pend s2" using l(2) by (simp add: xload_result_def)
      then have "table_ok (insert m N) pend ?s'" using drop_ok[of "{}" "insert m N" pend s2 n] n(1,4) cnt by (simp add: upd_inode_def)
      then show ?thesis using l(2) Some s1 quiet_io_trans[OF f(1)] n(1) use(2)
        by (cases "m = n") (auto simp: xload_result_def upd_inode_def din_stored_def)
    qed
    ultimately show ?thesis using Some by (auto simp: lookup_result_def)
  qed
qed

text \<open>
  The whole path is taken as one name, whose length is asserted and not checked: a path of more
  than 255 characters stops the kernel.
\<close>

lemma long_path_panics:
  assumes "din_type (din (sins s n)) = SFS_TYPE_DIR" "length path > SFS_MAX_FNAME_LEN"
  shows "sfs_lookup k n path s = None"
  using assms by (cases "lock_sin (sins s n)")
    (simp_all add: sfs_lookup_def sfs_lookup_once_def sfs_dirent_search_nolock_def inode_ref_inc_def upd_inode_def)

subsection \<open>Properties\<close>

text \<open>
  A disk of eight blocks with a directory in block 1, whose only entry, in block 3, names the
  empty file in block 2; it is mounted with no inode loaded.
\<close>

definition demo_dir :: sfs_disk_inode where
  "demo_dir = \<lparr>din_size = 4096, din_type = SFS_TYPE_DIR, din_nlinks = 1, din_blocks = 1, din_direct = 3 # replicate 11 0, din_indirect = 0\<rparr>"

definition demo_din :: sfs_disk_inode where
  "demo_din = \<lparr>din_size = 0, din_type = SFS_TYPE_FILE, din_nlinks = 1, din_blocks = 0, din_direct = replicate 12 0, din_indirect = 0\<rparr>"

definition demo_ent :: sfs_disk_entry where
  "demo_ent = \<lparr>ent_ino = 2, ent_name = 97 # replicate 255 0\<rparr>"

definition pad :: "byte list \<Rightarrow> byte list" where
  "pad b = b @ replicate (4096 - length b) 0"

definition demo_img :: "byte list" where
  "demo_img = replicate 4096 0 @ pad (enc_din demo_dir) @ pad (enc_din demo_din) @ pad (enc_entry demo_ent) @ replicate 16384 0"

definition demo_nodes :: sfs_state where
  "demo_nodes = \<lparr>inodes = (\<lambda>_. \<lparr>ref_count = 0, open_count = 0, in_ops = sfs_node_fileops\<rparr>), files = (\<lambda>_. \<lparr>pwd = None, fd_array = [], files_count = 0\<rparr>),
     current_filesp = None, sfs = demo_fs\<lparr>dev := disk0_device_init demo_img\<rparr>,
     sins = (\<lambda>_. new_sin 0 demo_fs), inode_links = \<lparr>prev_of = id, next_of = id\<rparr>,
     sin_links = \<lparr>prev_of = id, next_of = id\<rparr>\<rparr>"

lemma demo_din_ok: "din_ok demo_din" "din_ok demo_dir"
  by (simp_all add: din_ok_def demo_din_def demo_dir_def SFS_TYPE_FILE_def SFS_TYPE_DIR_def SFS_NDIRECT_def)

lemma length_pad: "length b \<le> 4096 \<Longrightarrow> length (pad b) = 4096"
  by (simp add: pad_def)

lemma demo_len: "length (enc_entry demo_ent) = 260" "length (pad (enc_din demo_dir)) = 4096" "length (pad (enc_din demo_din)) = 4096"
  "length (pad (enc_entry demo_ent)) = 4096" "length demo_img = 32768"
proof -
  show e: "length (enc_entry demo_ent) = 260" by (simp add: enc_entry_def demo_ent_def)
  show "length (pad (enc_din demo_dir)) = 4096" "length (pad (enc_din demo_din)) = 4096" "length (pad (enc_entry demo_ent)) = 4096"
    using e demo_din_ok by (simp_all add: length_pad length_enc_din)
  then show "length demo_img = 32768" by (simp add: demo_img_def)
qed

lemma demo_content:
  "content (sfs demo_nodes) 1 = pad (enc_din demo_dir)" "content (sfs demo_nodes) 2 = pad (enc_din demo_din)"
  "content (sfs demo_nodes) 3 = pad (enc_entry demo_ent)"
  using demo_len by (simp_all add: demo_nodes_def block_def disk_consts disk0_device_init_def demo_img_def get_app_left get_app_right)

lemma demo_nodes_ok:
  "table_ok {} (\<lambda>_. 0) demo_nodes" "in_use (sfs demo_nodes) 1" "in_use (sfs demo_nodes) 2" "in_use (sfs demo_nodes) 3"
proof -
  have d: "disk_ok (disk0_device_init demo_img)" by (rule disk0_device_init_ok) (simp_all add: disk_consts demo_len)
  have db: "d_blocks (disk0_device_init demo_img) = 8" by (simp add: disk0_device_init_def disk_consts demo_len)
  have ok: "io_ok demo_fs" "io_sem demo_fs = 1" "bm_ok (freemap demo_fs)" "blocks (super demo_fs) \<le> nbits (freemap demo_fs)"
    "free_blocks demo_fs \<subseteq> {1..<blocks (super demo_fs)}" "unused_blocks (super demo_fs) = card (free_blocks demo_fs)"
    using demo_fs_ok by (simp_all add: fs_ok_def)
  have b: "blocks (super demo_fs) = 8" by (simp add: demo_fs_def)
  have "fs_ok (sfs demo_nodes)" using ok d db b by (simp add: demo_nodes_def fs_ok_def io_ok_def)
  moreover have "links_ok {} demo_nodes" unfolding links_ok_def
    by (intro conjI allI impI exI[of _ "[]"]) (simp_all add: dlist_Nil_iff demo_nodes_def)
  moreover have "fs_sem (sfs demo_nodes) = 1" by (simp add: demo_nodes_def demo_fs_def)
  ultimately show "table_ok {} (\<lambda>_. 0) demo_nodes" by (simp add: xtable_ok_def)
  show "in_use (sfs demo_nodes) 1" "in_use (sfs demo_nodes) 2" "in_use (sfs demo_nodes) 3"
    using demo_free b by (simp_all add: in_use_def demo_nodes_def)
qed

lemma demo_stored:
  "din_stored 1 demo_dir (sfs demo_nodes)" "din_stored 2 demo_din (sfs demo_nodes)" "disk_inode_ok 1 (sfs demo_nodes)" "disk_inode_ok 2 (sfs demo_nodes)"
proof -
  have "get_bytes 0 64 (pad (enc_din d)) = enc_din d @ []" if "din_ok d" for d
    using length_enc_din[OF that] by (simp add: pad_def get_bytes_def)
  then show st: "din_stored 1 demo_dir (sfs demo_nodes)" "din_stored 2 demo_din (sfs demo_nodes)"
    using demo_din_ok dec_enc_din[of _ "[]"] by (simp_all add: din_stored_def demo_content del: One_nat_def)
  show "disk_inode_ok 1 (sfs demo_nodes)" "disk_inode_ok 2 (sfs demo_nodes)"
    using st by (simp_all add: disk_inode_ok_def din_stored_def) (simp_all add: demo_din_def demo_dir_def)
qed

text \<open>
  C26. However processes load inodes, take and drop references, change inodes, write them back and
  reclaim them, waiting for the lock of the file system between dropping the last reference
  and reclaiming: no assertion fails, no inode of the disk is loaded twice, and an inode leaves
  the table only when nothing refers to it and no other process is about to reclaim it. When
  it is marked dirty it is then written back, and else the disk is left as it is: an inode all of
  whose changes marked it dirty (one outside X) is on the disk afterwards. X are the inodes that
  were changed without the mark, as the code does when it enters a block into an
  existing indirect block. A load finds the loaded inode or reads the disk, and fails only for
  lack of memory.
\<close>

theorem sfs_nodes_safe:
  assumes "xtable_ok X N pend s" and "(node_step X)\<^sup>*\<^sup>* (N, pend, s) (N', pend', s')"
  shows "inj_on (\<lambda>n. sin_ino (sins s' n)) N' \<and>
    (\<forall>n. pend' n > 0 \<longrightarrow> (\<exists>ret s''. sfs_reclaim n s' = Some (ret, s'') \<and>
       (if ref_count (inodes s' n) = 0 \<and> pend' n = 1
        then ret = 0 \<and> xtable_ok X (N' - {n}) (pend'(n := 0)) s'' \<and>
          (n \<notin> X \<or> sin_dirty (sins s' n) \<longrightarrow> din_stored (sin_ino (sins s' n)) (din (sins s' n)) (sfs s'')) \<and>
          (\<forall>c<blocks (super (sfs s')). c \<noteq> sin_ino (sins s' n) \<or> \<not> sin_dirty (sins s' n) \<longrightarrow> content (sfs s'') c = content (sfs s') c)
        else ret = - E_BUSY \<and> xtable_ok X N' (pend'(n := pend' n - 1)) s'' \<and> din (sins s'' n) = din (sins s' n)))) \<and>
    (\<forall>k ino. in_use (sfs s') ino \<and> disk_inode_ok ino (sfs s') \<and> set_option (mem_node k) \<inter> N' = {} \<longrightarrow>
       (\<exists>ret r s''. sfs_load_inode k ino s' = Some (ret, r, s'') \<and> xload_result X N' pend' k ino s' ret r s''))"
proof (intro conjI allI impI)
  have t: "xtable_ok X N' pend' s'" using node_steps_ok[OF assms(2)] assms(1) by (simp add: conf_ok_def)
  show "inj_on (\<lambda>n. sin_ino (sins s' n)) N'" by (rule table_okD(4)[OF t])
  show "\<exists>ret s''. sfs_reclaim n s' = Some (ret, s'') \<and> (if ref_count (inodes s' n) = 0 \<and> pend' n = 1
        then ret = 0 \<and> xtable_ok X (N' - {n}) (pend'(n := 0)) s'' \<and>
          (n \<notin> X \<or> sin_dirty (sins s' n) \<longrightarrow> din_stored (sin_ino (sins s' n)) (din (sins s' n)) (sfs s'')) \<and>
          (\<forall>c<blocks (super (sfs s')). c \<noteq> sin_ino (sins s' n) \<or> \<not> sin_dirty (sins s' n) \<longrightarrow> content (sfs s'') c = content (sfs s') c)
        else ret = - E_BUSY \<and> xtable_ok X N' (pend'(n := pend' n - 1)) s'' \<and> din (sins s'' n) = din (sins s' n))" if p: "pend' n > 0" for n
    using reclaim_last[OF t pend_in[OF t p]] reclaim_busy[OF t pend_in[OF t p] p] by (cases "ref_count (inodes s' n) = 0 \<and> pend' n = 1") auto
  show "\<exists>ret r s''. sfs_load_inode k ino s' = Some (ret, r, s'') \<and> xload_result X N' pend' k ino s' ret r s''"
    if "in_use (sfs s') ino \<and> disk_inode_ok ino (sfs s') \<and> set_option (mem_node k) \<inter> N' = {}" for k ino
    using load_ok[OF t, of ino k] that by auto
qed

lemma demo_load:
  "\<exists>s1. sfs_load_inode \<lparr>mem_entry = True, mem_din = True, mem_node = Some 5\<rparr> 2 demo_nodes = Some (0, Some 5, s1) \<and>
     table_ok {5} (\<lambda>_. 0) s1 \<and> ref_count (inodes s1 5) = 1 \<and> open_count (inodes s1 5) = 0 \<and> sin_ino (sins s1 5) = 2 \<and> din (sins s1 5) = demo_din"
proof -
  let ?k = "\<lparr>mem_entry = True, mem_din = True, mem_node = Some 5\<rparr>"
  obtain ret r s1 where "sfs_load_inode ?k 2 demo_nodes = Some (ret, r, s1)" "load_result {} (\<lambda>_. 0) ?k 2 demo_nodes ret r s1"
    using load_ok[OF demo_nodes_ok(1,3), of ?k] demo_stored(4) by auto
  then show ?thesis using demo_stored(2) by (auto simp: xload_result_def din_stored_def split: option.splits)
qed

theorem sfs_nodes_safe_witness:
  "\<exists>s1 s2 s3 s4. sfs_load_inode \<lparr>mem_entry = True, mem_din = True, mem_node = Some 5\<rparr> 2 demo_nodes = Some (0, Some 5, s1) \<and> s2 = drop_ref 5 s1 \<and>
     sfs_load_inode \<lparr>mem_entry = True, mem_din = True, mem_node = None\<rparr> 2 s2 = Some (0, Some 5, s3) \<and> sfs_reclaim 5 s3 = Some (- E_BUSY, s4)"
proof -
  let ?k = "\<lparr>mem_entry = True, mem_din = True, mem_node = None\<rparr>"
  obtain s1 where s1: "sfs_load_inode \<lparr>mem_entry = True, mem_din = True, mem_node = Some 5\<rparr> 2 demo_nodes = Some (0, Some 5, s1)"
    "table_ok {5} (\<lambda>_. 0) s1" "ref_count (inodes s1 5) = 1" "open_count (inodes s1 5) = 0" "sin_ino (sins s1 5) = 2" using demo_load by blast
  let ?s2 = "drop_ref 5 s1" and ?p = "(\<lambda>_. 0)(5 := Suc 0)"
  have c2: "ref_count (inodes ?s2 5) = 0" "sins ?s2 = sins s1" "sfs ?s2 = sfs s1" using s1(3) by (simp_all add: upd_inode_def)
  have d: "node_step {} ({5}, \<lambda>_. 0, s1) ({5}, ?p, ?s2)" by (rule step_drop) (use s1 c2 in auto)
  have t2: "table_ok {5} ?p ?s2" using drop_ok[OF s1(2), of 5] s1(3,4) c2(1) by simp
  have u: "in_use (sfs ?s2) 2" using table_okD(5)[OF t2, of 5] s1(5) c2(2) by (simp add: xnode_ok_def)
  obtain ret r s3 where l: "sfs_load_inode ?k 2 ?s2 = Some (ret, r, s3)" "load_result {5} ?p ?k 2 ?s2 ret r s3"
    using load_ok[OF t2 u, of ?k] s1(5) c2(2) by auto
  then have l3: "ret = 0" "r = Some 5" "ref_count (inodes s3 5) = 1" using s1(5) c2 by (auto simp: xload_result_def split: option.splits if_splits)
  have "node_step {} ({5}, ?p, ?s2) ({5} \<union> set_option r, ?p, s3)" by (rule step_load[OF l(1) u]) (use s1(5) c2(2) in auto)
  then have "(node_step {})\<^sup>*\<^sup>* ({5}, \<lambda>_. 0, s1) ({5}, ?p, s3)" using d l3(2) by simp
  from sfs_nodes_safe[OF s1(2) this, THEN conjunct2, THEN conjunct1, rule_format, of 5] have "\<exists>s4. sfs_reclaim 5 s3 = Some (- E_BUSY, s4)" using l3(3) by auto
  then show ?thesis using s1(1) l(1) l3 by blast
qed

text \<open>
  C27. Dropping the last reference to a loaded inode, dirty or not, writes it back and removes it
  from the table; loading the same inode number afterwards, at whatever new address, gives back
  the same inode. No other block and no other loaded inode changes.
\<close>

theorem sfs_reclaim_load:
  assumes "table_ok N pend s" and "n \<in> N" and "pend n = 0" and "ref_count (inodes s n) = 1" and "open_count (inodes s n) = 0"
    and "din_type (din (sins s n)) = SFS_TYPE_FILE \<or> din_type (din (sins s n)) = SFS_TYPE_DIR"
    and "mem_din k" and "mem_node k = Some n'" and "n' \<notin> N - {n}"
  shows "\<exists>s' s''. sfs_ref_dec n s = Some s' \<and> table_ok (N - {n}) pend s' \<and>
    (\<forall>c<blocks (super (sfs s)). c \<noteq> sin_ino (sins s n) \<longrightarrow> content (sfs s') c = content (sfs s) c) \<and>
    (\<forall>m\<in>N - {n}. sins s' m = sins s m \<and> inodes s' m = inodes s m) \<and>
    sfs_load_inode k (sin_ino (sins s n)) s' = Some (0, Some n', s'') \<and> table_ok (insert n' (N - {n})) pend s'' \<and>
    din (sins s'' n') = din (sins s n) \<and> ref_count (inodes s'' n') = 1"
proof -
  let ?s1 = "drop_ref n s" and ?p = "pend(n := Suc 0)" and ?ino = "sin_ino (sins s n)"
  have f1: "sins ?s1 = sins s" "sfs ?s1 = sfs s" "ref_count (inodes ?s1 n) = 0" "m \<noteq> n \<Longrightarrow> inodes ?s1 m = inodes s m" for m
    using assms(4) by (simp_all add: upd_inode_def)
  have t1: "table_ok N ?p ?s1" using drop_ok[OF assms(1,2)] assms(3-5) f1(3) by simp
  obtain s' where r: "sfs_reclaim n ?s1 = Some (0, s')" "table_ok (N - {n}) (?p(n := 0)) s'" "inodes s' = inodes ?s1" "io_frame (sfs ?s1) (sfs s')"
    "din_stored ?ino (din (sins s n)) (sfs s')" "\<forall>m. m \<noteq> n \<longrightarrow> sins s' m = sins s m"
    "\<forall>c<blocks (super (sfs s)). c \<noteq> ?ino \<longrightarrow> content (sfs s') c = content (sfs s) c"
    using reclaim_last[OF t1 assms(2)] f1 by auto
  have p: "?p(n := 0) = pend" using assms(3) by auto
  have "inode_check n ?s1 = Some ()" using assms(4,5) by (simp add: inode_check_def upd_inode_def MAX_INODE_COUNT_def)
  moreover have "vop_defined (in_ops (inodes s n)) Vreclaim" using table_okD(5)[OF assms(1,2)] sfs_has_ops unfolding xnode_ok_def by blast
  ultimately have "sfs_ref_dec n s = Some s'" using r(1) assms(4) by (simp add: sfs_ref_dec_def inode_ref_dec_def upd_inode_def vop_def reclaim_ops_def)
  moreover have nd: "in_use (sfs s) ?ino" "din_nlinks (din (sins s n)) \<noteq> 0" using table_okD(5)[OF assms(1,2)] by (auto simp: xnode_ok_def)
  have u: "in_use (sfs s') ?ino" using nd(1) r(4) f1(2) by (simp add: in_use_def io_frame_def)
  have dk: "disk_inode_ok ?ino (sfs s')" using r(5) nd(2) assms(6) by (auto simp: disk_inode_ok_def din_stored_def Let_def)
  have new: "\<forall>m\<in>N - {n}. sin_ino (sins s' m) \<noteq> ?ino" using r(6) table_okD(4)[OF assms(1)] assms(2) by (auto simp: inj_on_def)
  obtain ret q s'' where l: "sfs_load_inode k ?ino s' = Some (ret, q, s'')" "load_result (N - {n}) pend k ?ino s' ret q s''"
    using load_ok[OF r(2)[unfolded p] u, of k] dk assms(8,9) by auto
  have "q = Some n'" "ret = 0" "n' \<notin> N - {n}" "table_ok (insert n' (N - {n})) pend s''" "ref_count (inodes s'' n') = 1" "din_stored ?ino (din (sins s'' n')) (sfs s')"
    using l(2) new assms(7-9) by (auto simp: xload_result_def split: option.splits if_splits)
  moreover from this have "din (sins s'' n') = din (sins s n)" using r(5) by (simp add: din_stored_def)
  ultimately show ?thesis using l(1) r(2,3,6,7) p f1(4) by (intro exI[of _ s'] exI[of _ s'']) auto
qed

theorem sfs_reclaim_load_witness:
  "\<exists>s1 s2 s3. sfs_load_inode \<lparr>mem_entry = True, mem_din = True, mem_node = Some 5\<rparr> 2 demo_nodes = Some (0, Some 5, s1) \<and>
     sfs_ref_dec 5 s1 = Some s2 \<and>
     sfs_load_inode \<lparr>mem_entry = True, mem_din = True, mem_node = Some 9\<rparr> 2 s2 = Some (0, Some 9, s3) \<and> din (sins s3 9) = demo_din"
proof -
  let ?k = "\<lparr>mem_entry = True, mem_din = True, mem_node = Some 9\<rparr>"
  obtain s1 where s1: "sfs_load_inode \<lparr>mem_entry = True, mem_din = True, mem_node = Some 5\<rparr> 2 demo_nodes = Some (0, Some 5, s1)"
    "table_ok {5} (\<lambda>_. 0) s1" "ref_count (inodes s1 5) = 1" "open_count (inodes s1 5) = 0" "sin_ino (sins s1 5) = 2" "din (sins s1 5) = demo_din"
    using demo_load by blast
  have "din_type (din (sins s1 5)) = SFS_TYPE_FILE \<or> din_type (din (sins s1 5)) = SFS_TYPE_DIR" by (simp add: s1(6) demo_din_def)
  from sfs_reclaim_load[OF s1(2) _ _ s1(3,4) this, of ?k 9] show ?thesis using s1(1,5,6) by fastforce
qed

text \<open>
  C28. Looking a name up in a loaded directory never fails an assertion and leaves the reference
  count of the directory as it was. With no entry of that name the result is -E_NOENT and nothing
  is loaded. Otherwise the inode that the first such entry names is returned with one more
  reference, the loaded one if there is one and else a new one with the content of the disk;
  the only other outcome is -E_NO_MEM.
\<close>

theorem sfs_lookup_correct:
  assumes "table_ok N pend s" and "n \<in> N" and "din_type (din (sins s n)) = SFS_TYPE_DIR" and "inode_ok (sins s n) (sfs s)"
    and "ref_count (inodes s n) > 0" and "mem_entry k" and "length name \<le> SFS_MAX_FNAME_LEN" and "name \<noteq> []" and "hd name \<noteq> 47"
    and "set_option (mem_node k) \<inter> N = {}"
    and "\<forall>j<nblocks (sins s n). \<forall>ino. ino = ent_ino (dir_entry (sins s n) (sfs s) j) \<and> ino \<noteq> 0 \<longrightarrow>
       in_use (sfs s) ino \<and> ((\<forall>m\<in>N. sin_ino (sins s m) \<noteq> ino) \<longrightarrow> disk_inode_ok ino (sfs s))"
  shows "\<exists>ret r s'. sfs_lookup k n name s = Some (ret, r, s') \<and>
     (case dir_find name (sins s n) (sfs s) 0 of
        None \<Rightarrow> ret = - E_NOENT \<and> r = None \<and> table_ok N pend s' \<and> quiet_io (sfs s) (sfs s') \<and> sins s' = sins s \<and> inodes s' = inodes s
      | Some j \<Rightarrow> load_result N pend k (ent_ino (dir_entry (sins s n) (sfs s) j)) s ret r s')"
proof -
  have e: "in_use (sfs s) ino \<and> ((\<forall>m\<in>N. sin_ino (sins s m) \<noteq> ino) \<longrightarrow> disk_inode_ok ino (sfs s))"
    if "dir_find name (sins s n) (sfs s) 0 = Some j" "ino = ent_ino (dir_entry (sins s n) (sfs s) j)" for j ino
    using that assms(11) by (auto simp: dir_find_def find_Some_iff)
  have fr: "m \<notin> N" if "mem_node k = Some m" for m using assms(10) that by auto
  show ?thesis using lookup_ok[OF assms(1-9) fr e] unfolding lookup_result_def .
qed

lemma demo_dir_loaded:
  assumes "din sin = demo_dir" "quiet_io (sfs demo_nodes) f"
  shows "inode_ok sin f" "dir_entry sin f 0 = demo_ent" "nblocks sin = 1" "dir_find [97] sin f 0 = Some 0"
proof -
  have map: "k < MAX_BLKS \<Longrightarrow> blkmap sin f k = (if k = 0 then 3 else 0)" for k
    by (simp add: blkmap_def assms(1) demo_dir_def sfs_consts nth_Cons')
  have m: "meta sin = {}" by (simp add: meta_def assms(1) demo_dir_def)
  show n: "nblocks sin = 1" by (simp add: assms(1) demo_dir_def)
  have l: "length (din_direct (din sin)) = SFS_NDIRECT" by (simp add: assms(1) demo_dir_def sfs_consts)
  have o: "owned sin f = {3}" using map[of 0] by (simp add: owned_def n m MAX_BLKS_def sfs_consts)
  have u: "in_use f 3" and c: "content f 3 = pad (enc_entry demo_ent)"
    using assms(2) demo_nodes_ok(4) demo_content(3) by (auto simp: in_use_def quiet_io_def io_frame_def same_blocks_def)
  show "inode_ok sin f" using map l o u by (auto simp: inode_ok_def n m MAX_BLKS_def sfs_consts)
  have "get_bytes 0 260 (pad (enc_entry demo_ent)) = enc_entry demo_ent @ []" using demo_len(1) by (simp add: pad_def get_app_left)
  then have "dec_entry (get_bytes 0 260 (content f 3)) = demo_ent"
    using dec_enc_entry[of demo_ent "[]"] by (simp add: c) (simp add: demo_ent_def)
  then show e: "dir_entry sin f 0 = demo_ent" using map[of 0] by (simp add: dir_entry_def MAX_BLKS_def sfs_consts) (simp add: demo_ent_def list_update_same_conv)
  have "cname (ent_name demo_ent) = [97]" "ent_ino demo_ent \<noteq> 0" by (simp_all add: demo_ent_def cname_def)
  then show "dir_find [97] sin f 0 = Some 0" by (simp add: dir_find_def n upt_rec e)
qed

theorem sfs_lookup_correct_witness:
  "\<exists>s1 s2. sfs_load_inode \<lparr>mem_entry = True, mem_din = True, mem_node = Some 5\<rparr> 1 demo_nodes = Some (0, Some 5, s1) \<and>
     sfs_lookup \<lparr>mem_entry = True, mem_din = True, mem_node = Some 6\<rparr> 5 [97] s1 = Some (0, Some 6, s2) \<and> din (sins s2 6) = demo_din"
proof -
  let ?k = "\<lparr>mem_entry = True, mem_din = True, mem_node = Some 5\<rparr>" and ?k' = "\<lparr>mem_entry = True, mem_din = True, mem_node = Some 6\<rparr>"
  obtain ret r s1 where l: "sfs_load_inode ?k 1 demo_nodes = Some (ret, r, s1)" "load_result {} (\<lambda>_. 0) ?k 1 demo_nodes ret r s1"
    using load_ok[OF demo_nodes_ok(1,2), of ?k] demo_stored(3) by auto
  then have s1: "ret = 0" "r = Some 5" "table_ok {5} (\<lambda>_. 0) s1" "ref_count (inodes s1 5) > 0" "sin_ino (sins s1 5) = 1"
    "din (sins s1 5) = demo_dir" "quiet_io (sfs demo_nodes) (sfs s1)"
    using demo_stored(1) by (auto simp: xload_result_def din_stored_def split: option.splits)
  note d = demo_dir_loaded[OF s1(6,7)]
  have e: "ent_ino (dir_entry (sins s1 5) (sfs s1) 0) = 2" by (simp add: d(2) demo_ent_def)
  have q: "in_use (sfs s1) 2" "content (sfs s1) 2 = content (sfs demo_nodes) 2"
    using s1(7) demo_nodes_ok(3) by (auto simp: in_use_def quiet_io_def io_frame_def same_blocks_def)
  then have ent: "\<forall>j<nblocks (sins s1 5). \<forall>ino. ino = ent_ino (dir_entry (sins s1 5) (sfs s1) j) \<and> ino \<noteq> 0 \<longrightarrow>
       in_use (sfs s1) ino \<and> ((\<forall>m\<in>{5}. sin_ino (sins s1 m) \<noteq> ino) \<longrightarrow> disk_inode_ok ino (sfs s1))"
    using demo_stored(4) e d(3) by (simp add: disk_inode_ok_def)
  have ty: "din_type (din (sins s1 5)) = SFS_TYPE_DIR" by (simp add: s1(6) demo_dir_def)
  have small: "(5 :: nat) \<in> {5}" "mem_entry ?k'" "length [97 :: byte] \<le> SFS_MAX_FNAME_LEN" "[97 :: byte] \<noteq> []" "hd [97 :: byte] \<noteq> 47"
    "set_option (mem_node ?k') \<inter> {5} = {}" by (simp_all add: sfs_consts)
  obtain ret' r' s2 where lk: "sfs_lookup ?k' 5 [97] s1 = Some (ret', r', s2)" "load_result {5} (\<lambda>_. 0) ?k' 2 s1 ret' r' s2"
    using sfs_lookup_correct[OF s1(3) small(1) ty d(1) s1(4) small(2-6) ent] d(4) e by auto
  have st: "din_stored 2 demo_din (sfs s1)" using demo_stored(2) q(2) by (simp add: din_stored_def)
  have "ret' = 0" "r' = Some 6" "din_stored 2 (din (sins s2 6)) (sfs s1)" using lk(2) s1(5) by (auto simp: xload_result_def split: option.splits if_splits)
  then show ?thesis using l(1) s1(1,2) lk(1) st by (simp add: din_stored_def)
qed

end
