(* ===== verification/SfsMount.thy ===== *)
theory SfsMount
  imports SfsNode
begin

text \<open>
  Mounting, synchronising and unmounting a simple file system (\<^verbatim>\<open>kern/fs/sfs/sfs_fs.c\<close>).
  The results of the calls of \<^verbatim>\<open>kmalloc\<close> are arguments. Mounting returns the file system in
  memory with its two empty lists, or no file system, and the device; printing is left out.
\<close>

subsection \<open>Synchronising\<close>

text \<open>The result of \<^verbatim>\<open>vop_fsync\<close> is not looked at.\<close>

partial_function (option) sync_loop :: "ilink \<Rightarrow> 'a sfs_state_scheme \<Rightarrow> 'a sfs_state_scheme option" where
  "sync_loop le s =
     (case list_next (inode_links s) le of
        InodeList \<Rightarrow> Some s
      | InodeLink n \<Rightarrow> do { (ret, s1) \<leftarrow> sfs_vop_fsync n s; sync_loop (InodeLink n) s1 })"

definition sync_meta :: "sfs_fs \<Rightarrow> (int \<times> sfs_fs) option" where
  "sync_meta fs =
     (if super_dirty fs then
        do { (ret, fs1) \<leftarrow> sfs_sync_super (fs\<lparr>super_dirty := False\<rparr>);
             if ret \<noteq> 0 then Some (ret, fs1\<lparr>super_dirty := True\<rparr>)
             else do { (ret2, fs2) \<leftarrow> sfs_sync_freemap fs1;
                       if ret2 \<noteq> 0 then Some (ret2, fs2\<lparr>super_dirty := True\<rparr>) else Some (0, fs2) } }
      else Some (0, fs))"

definition sfs_sync :: "'a sfs_state_scheme \<Rightarrow> (int \<times> 'a sfs_state_scheme) option" where
  "sfs_sync s =
     do { f \<leftarrow> lock_sfs_fs (sfs s);
          s1 \<leftarrow> sync_loop InodeList (s\<lparr>sfs := f\<rparr>);
          let s2 = release_fs s1;
          (ret, f2) \<leftarrow> sync_meta (sfs s2);
          Some (ret, s2\<lparr>sfs := f2\<rparr>) }"

subsection \<open>Root, unmounting and clean-up\<close>

definition sfs_get_root :: "kmem \<Rightarrow> 'a sfs_state_scheme \<Rightarrow> (nat \<times> 'a sfs_state_scheme) option" where
  "sfs_get_root k s =
     do { (ret, node, s1) \<leftarrow> sfs_load_inode k SFS_BLKN_ROOT s;
          if ret \<noteq> 0 then kpanic else do { n \<leftarrow> node; Some (n, s1) } }"

text \<open>Everything of the file system in memory is freed when the code is 0.\<close>

definition sfs_unmount :: "'a sfs_state_scheme \<Rightarrow> int option" where
  "sfs_unmount s =
     (if \<not> list_empty (inode_links s) InodeList then Some (- E_BUSY)
      else do { kassert (\<not> super_dirty (sfs s)); Some 0 })"

fun cleanup_loop :: "nat \<Rightarrow> 'a sfs_state_scheme \<Rightarrow> 'a sfs_state_scheme option" where
  "cleanup_loop 0 s = Some s"
| "cleanup_loop (Suc i) s =
     do { (ret, s1) \<leftarrow> sfs_sync s; if ret = 0 then Some s1 else cleanup_loop i s1 }"

definition sfs_cleanup :: "'a sfs_state_scheme \<Rightarrow> 'a sfs_state_scheme option" where
  "sfs_cleanup s = cleanup_loop 32 s"

subsection \<open>Mounting\<close>

record mount_mem =
  m_fs :: bool
  m_buffer :: "byte list option"
  m_hash :: bool
  m_bitmap :: bool
  m_map :: bool

definition sfs_init_read :: "disk \<Rightarrow> nat \<Rightarrow> byte list \<Rightarrow> nat \<Rightarrow> (int \<times> byte list \<times> disk) option" where
  "sfs_init_read d blkno mem base =
     do { (ret, iob, d1) \<leftarrow> disk0_io (iobuf_init mem base SFS_BLKSIZE (int (u32 (blkno * SFS_BLKSIZE)))) False d;
          Some (ret, io_mem iob, d1) }"

fun init_freemap_loop :: "nat \<Rightarrow> nat \<Rightarrow> byte list \<Rightarrow> nat \<Rightarrow> disk \<Rightarrow> (int \<times> byte list \<times> disk) option" where
  "init_freemap_loop 0 blkno data base d = Some (0, data, d)"
| "init_freemap_loop (Suc nblks) blkno data base d =
     do { (ret, data1, d1) \<leftarrow> sfs_init_read d blkno data base;
          if ret \<noteq> 0 then Some (ret, data1, d1)
          else init_freemap_loop nblks (u32 (blkno + 1)) data1 (base + SFS_BLKSIZE) d1 }"

text \<open>The words of the bitmap are read in place.\<close>

definition words_of_bytes :: "nat \<Rightarrow> byte list \<Rightarrow> 32 word list" where
  "words_of_bytes n b = map word_of_nat (dec_words n b)"

definition sfs_init_freemap :: "disk \<Rightarrow> bitmap \<Rightarrow> nat \<Rightarrow> nat \<Rightarrow> (int \<times> bitmap \<times> disk) option" where
  "sfs_init_freemap d bm blkno nblks =
     do { kassert (snd (bitmap_getdata bm) = nblks * SFS_BLKSIZE);
          (ret, data, d1) \<leftarrow> init_freemap_loop nblks blkno (freemap_bytes bm) 0 d;
          Some (ret, bm\<lparr>bmap := words_of_bytes (nwords bm) data\<rparr>, d1) }"

function count_free_loop :: "bitmap \<Rightarrow> nat \<Rightarrow> nat \<Rightarrow> nat \<Rightarrow> nat option" where
  "count_free_loop bm n i cnt =
     (if i < n then do { t \<leftarrow> bitmap_test bm i; count_free_loop bm n (i + 1) (if t then u32 (cnt + 1) else cnt) }
      else Some cnt)"
  by auto
termination by (relation "measure (\<lambda>(_, n, i, _). n - i)") auto

declare count_free_loop.simps [simp del]

definition init_hash_list :: "slink list_heap \<Rightarrow> slink list_heap" where
  "init_hash_list sl = fold (\<lambda>i h. list_init h (SinHash i)) [0..<SFS_HLIST_SIZE] sl"

definition mount_freemap ::
  "mount_mem \<Rightarrow> sfs_super \<Rightarrow> byte list \<Rightarrow> disk \<Rightarrow> ilink list_heap \<Rightarrow> slink list_heap \<Rightarrow>
   (int \<times> (sfs_fs \<times> ilink list_heap \<times> slink list_heap) option \<times> disk) option" where
  "mount_freemap m sb buf d il sl =
     do { bm \<leftarrow> bitmap_create (m_bitmap m) (m_map m) (sfs_freemap_bits sb);
          case bm of
            None \<Rightarrow> Some (- E_NO_MEM, None, d)
          | Some b \<Rightarrow>
              do { (ret, b1, d1) \<leftarrow> sfs_init_freemap d b SFS_BLKN_FREEMAP (sfs_freemap_blocks sb);
                   if ret \<noteq> 0 then Some (ret, None, d1)
                   else do {
                     unused \<leftarrow> count_free_loop b1 (sfs_freemap_bits sb) 0 0;
                     kassert (unused = unused_blocks sb);
                     Some (0, Some (\<lparr>super = sb, dev = d1, freemap = b1, super_dirty = False, sfs_buffer = buf,
                                     fs_sem = 1, io_sem = 1, mutex_sem = 1\<rparr>, list_init il InodeList, sl), d1) } } }"

text \<open>The superblock is used in the buffer, where its last byte is set to zero.\<close>

definition sfs_do_mount ::
  "mount_mem \<Rightarrow> disk \<Rightarrow> ilink list_heap \<Rightarrow> slink list_heap \<Rightarrow>
   (int \<times> (sfs_fs \<times> ilink list_heap \<times> slink list_heap) option \<times> disk) option" where
  "sfs_do_mount m d il sl =
     (if DISK0_BLKSIZE \<noteq> SFS_BLKSIZE then Some (- E_NA_DEV, None, d)
      else if \<not> m_fs m then Some (- E_NO_MEM, None, d)
      else case m_buffer m of
        None \<Rightarrow> Some (- E_NO_MEM, None, d)
      | Some buf \<Rightarrow>
          do { (ret, buf1, d1) \<leftarrow> sfs_init_read d SFS_BLKN_SUPER buf 0;
               let sb = dec_super buf1;
               if ret \<noteq> 0 then Some (ret, None, d1)
               else if magic sb \<noteq> SFS_MAGIC then Some (- E_INVAL, None, d1)
               else if blocks sb > d_blocks d1 then Some (- E_INVAL, None, d1)
               else if \<not> m_hash m then Some (- E_NO_MEM, None, d1)
               else mount_freemap m (sb\<lparr>info := (info sb)[SFS_MAX_INFO_LEN := 0]\<rparr>) (buf1[12 + SFS_MAX_INFO_LEN := 0]) d1 il (init_hash_list sl) })"

subsection \<open>Superblock and bitmap on the disk\<close>

definition freemap_area :: "sfs_super \<Rightarrow> nat list" where
  "freemap_area sb = [2..<2 + sfs_freemap_blocks sb]"

definition layout_ok :: "'a sfs_fs_scheme \<Rightarrow> bool" where
  "layout_ok fs \<longleftrightarrow> magic (super fs) = SFS_MAGIC \<and> length (info (super fs)) = 32 \<and> info (super fs) ! 31 = 0 \<and>
     nbits (freemap fs) = sfs_freemap_bits (super fs) \<and> 2 + sfs_freemap_blocks (super fs) \<le> blocks (super fs)"

definition meta_stored :: "'a sfs_fs_scheme \<Rightarrow> bool" where
  "meta_stored fs \<longleftrightarrow> dec_super (content fs 0) = super fs \<and>
     concat (map (content fs) (freemap_area (super fs))) = freemap_bytes (freemap fs)"

lemma freemap_bits_eq: "sfs_freemap_bits sb = sfs_freemap_blocks sb * 32768"
proof -
  define a where "a = blocks sb + 32768 - 1"
  have "a - a mod 32768 = a div 32768 * 32768" by (simp add: minus_mod_eq_div_mult)
  then show ?thesis by (simp add: sfs_freemap_bits_def sfs_freemap_blocks_def sfs_consts a_def)
qed

lemma freemap_size:
  assumes "fs_ok fs" "layout_ok fs"
  shows "nwords (freemap fs) = sfs_freemap_blocks (super fs) * 1024" "length (bmap (freemap fs)) = nwords (freemap fs)"
    "length (freemap_bytes (freemap fs)) = sfs_freemap_blocks (super fs) * 4096" "sfs_freemap_blocks (super fs) \<noteq> 0"
proof -
  let ?n = "sfs_freemap_blocks (super fs)"
  have bm: "nbits (freemap fs) \<noteq> 0" "nwords (freemap fs) = (nbits (freemap fs) + 31) div 32" "length (bmap (freemap fs)) = nwords (freemap fs)"
    using assms(1) by (simp_all add: fs_ok_def bm_ok_def WORD_BITS_def)
  have nb: "nbits (freemap fs) = ?n * 32768" using assms(2) by (simp add: layout_ok_def freemap_bits_eq)
  have "(?n * 32768 + 31) div 32 = ?n * 1024" by simp
  then show nw: "nwords (freemap fs) = ?n * 1024" using bm(2) nb by simp
  show "length (bmap (freemap fs)) = nwords (freemap fs)" by (rule bm(3))
  then show "length (freemap_bytes (freemap fs)) = ?n * 4096" using nw by (simp add: freemap_bytes_def bitmap_getdata_def)
  show "?n \<noteq> 0" using bm(1) nb by simp
qed

lemma words_roundtrip: "words_of_bytes (length ws) (enc_words (map unat ws)) = ws"
proof -
  have "\<forall>w\<in>set (map unat ws). w < 2 ^ 32" using unsigned_less[where ?'a = nat and ?'b = 32] by auto
  then have "dec_words (length ws) (enc_words (map unat ws)) = map unat ws" using dec_enc_words[of "map unat ws"] by simp
  then show ?thesis by (simp add: words_of_bytes_def map_idI)
qed

lemma init_read_ok:
  assumes "disk_ok d" "b < d_blocks d" "b < 2 ^ 20" "base + 4096 \<le> length mem"
  shows "\<exists>d'. sfs_init_read d b mem base = Some (0, put_bytes base (block d b) mem, d') \<and> disk_ok d' \<and> disk_img d' = disk_img d \<and> d_blocks d' = d_blocks d"
proof -
  have u: "u32 (b * SFS_BLKSIZE) = b * SFS_BLKSIZE" by (rule u32_id) (use assms(3) in \<open>simp add: sfs_consts\<close>)
  show ?thesis using disk0_read_block[OF assms(1,2), of base mem] assms(4) u by (auto simp: sfs_init_read_def sfs_consts disk_consts)
qed

lemma length_run: "(\<And>k. b \<le> k \<Longrightarrow> k < b + n \<Longrightarrow> length (f k) = 4096) \<Longrightarrow> length (concat (map f [b..<b + n])) = n * 4096"
  by (induction n) auto

lemma init_freemap_loop_ok:
  assumes "disk_ok d" "b + n \<le> d_blocks d" "b + n \<le> 2 ^ 20" "base + n * 4096 \<le> length mem"
  shows "\<exists>d'. init_freemap_loop n b mem base d = Some (0, put_bytes base (concat (map (block d) [b..<b + n])) mem, d') \<and>
     disk_ok d' \<and> disk_img d' = disk_img d \<and> d_blocks d' = d_blocks d"
  using assms
proof (induction n arbitrary: b mem base d)
  case 0
  then show ?case by (simp add: put_bytes_def)
next
  case (Suc n)
  obtain d1 where r: "sfs_init_read d b mem base = Some (0, put_bytes base (block d b) mem, d1)" "disk_ok d1" "disk_img d1 = disk_img d" "d_blocks d1 = d_blocks d"
    using init_read_ok[OF Suc(2), of b base mem] Suc(3-5) by auto
  let ?m = "put_bytes base (block d b) mem"
  have ln: "length (concat (map (block d) [b + 1..<b + 1 + n])) = n * 4096" by (rule length_run) (use Suc(2,3) in simp)
  have lb: "length (block d b) = 4096" using Suc(2,3) by simp
  then have lm: "length ?m = length mem" using Suc(5) by simp
  obtain d' where l: "init_freemap_loop n (b + 1) ?m (base + 4096) d1 = Some (0, put_bytes (base + 4096) (concat (map (block d1) [b + 1..<b + 1 + n])) ?m, d')"
     "disk_ok d'" "disk_img d' = disk_img d1" "d_blocks d' = d_blocks d1"
    using Suc(1)[OF r(2), of "b + 1" "base + 4096" ?m] Suc(3-5) r(4) lm by auto
  have bl: "block d1 = block d" by (intro ext) (simp add: block_def r(3))
  have "u32 (b + 1) = b + 1" by (rule u32_id) (use Suc(4) in simp)
  then have "init_freemap_loop (Suc n) b mem base d = Some (0, put_bytes (base + 4096) (concat (map (block d) [b + 1..<b + 1 + n])) ?m, d')"
    using r(1) l(1) by (simp add: sfs_consts bl)
  moreover have "put_bytes (base + 4096) (concat (map (block d) [b + 1..<b + 1 + n])) ?m = put_bytes base (concat (map (block d) [b..<b + Suc n])) mem"
  proof -
    have "[b..<b + Suc n] = b # [b + 1..<b + 1 + n]" by (simp add: upt_rec)
    moreover have "put_bytes base (block d b @ concat (map (block d) [b + 1..<b + 1 + n])) mem =
        put_bytes (base + length (block d b)) (concat (map (block d) [b + 1..<b + 1 + n])) ?m"
      using put_two[of base "block d b" "concat (map (block d) [b + 1..<b + 1 + n])" mem] lb Suc(5) ln by simp
    ultimately show ?thesis using lb by simp
  qed
  ultimately show ?case using l(2-4) r(3,4) by simp
qed

lemma count_free_ok:
  assumes "bm_ok bm" "n \<le> nbits bm" "i \<le> n" "c + (n - i) < 2 ^ 32"
  shows "count_free_loop bm n i c = Some (c + card (bm_free bm \<inter> {i..<n}))"
  using assms
proof (induction "n - i" arbitrary: i c)
  case 0
  then show ?case by (simp add: count_free_loop.simps)
next
  case (Suc k)
  then have i: "i < n" by simp
  have t: "bitmap_test bm i = Some (i \<in> bm_free bm)" using bitmap_test_ok[OF Suc(3), of i] i Suc(4) by simp
  have split: "bm_free bm \<inter> {i..<n} = (if i \<in> bm_free bm then insert i (bm_free bm \<inter> {i + 1..<n}) else bm_free bm \<inter> {i + 1..<n})"
    using i by (auto simp: Suc_le_eq) (metis le_neq_implies_less)+
  have "card (bm_free bm \<inter> {i..<n}) = (if i \<in> bm_free bm then 1 else 0) + card (bm_free bm \<inter> {i + 1..<n})"
    unfolding split by simp
  moreover have "count_free_loop bm n (i + 1) c' = Some (c' + card (bm_free bm \<inter> {i + 1..<n}))" if "c' + (n - (i + 1)) < 2 ^ 32" for c'
    by (rule Suc(1)) (use Suc(2-5) i that in auto)
  ultimately show ?case using i t Suc(6) by (subst count_free_loop.simps) auto
qed

lemma create_freemap:
  assumes "n \<noteq> 0" "n * 32768 + 32 < 2 ^ 32"
  shows "bitmap_create True True (n * 32768) = Some (Some \<lparr>nbits = n * 32768, nwords = n * 1024, bmap = replicate (n * 1024) (- 1)\<rparr>)"
proof -
  have "(n * 32768 + 32 - 1) div 32 = n * 1024" by simp
  then show ?thesis using assms by (simp add: bitmap_create_def WORD_BITS_def Let_def)
qed

definition enough_mem :: "mount_mem \<Rightarrow> bool" where
  "enough_mem m \<longleftrightarrow> m_fs m \<and> (\<exists>buf. m_buffer m = Some buf \<and> length buf = 4096) \<and> m_hash m \<and> m_bitmap m \<and> m_map m"

text \<open>What was stored is mounted again.\<close>

lemma mount_ok:
  assumes ok: "fs_ok fs" "layout_ok fs" "meta_stored fs" and m: "enough_mem m"
  shows "\<exists>fs' d. sfs_do_mount m (dev fs) il sl = Some (0, Some (fs', list_init il InodeList, init_hash_list sl), d) \<and>
     super fs' = super fs \<and> freemap fs' = freemap fs \<and> \<not> super_dirty fs' \<and> fs_sem fs' = 1 \<and> fs_ok fs' \<and>
     (\<forall>c. content fs' c = content fs c)"
proof -
  let ?sb = "super fs" let ?n = "sfs_freemap_blocks ?sb"
  obtain buf where buf: "m_buffer m = Some buf" "length buf = 4096" using m by (auto simp: enough_mem_def)
  have io: "disk_ok (dev fs)" "blocks ?sb \<le> d_blocks (dev fs)" "blocks ?sb \<le> 2 ^ 20" using ok(1) by (simp_all add: fs_ok_def io_ok_def)
  have lay: "magic ?sb = SFS_MAGIC" "length (info ?sb) = 32" "info ?sb ! 31 = 0" "nbits (freemap fs) = ?n * 32768" "2 + ?n \<le> blocks ?sb"
    using ok(2) by (simp_all add: layout_ok_def freemap_bits_eq)
  note fz = freemap_size[OF ok(1,2)]
  have b0: "0 < d_blocks (dev fs)" using lay(5) io(2) by linarith
  obtain d1 where r: "sfs_init_read (dev fs) 0 buf 0 = Some (0, put_bytes 0 (content fs 0) buf, d1)" "disk_ok d1" "disk_img d1 = disk_img (dev fs)"
    "d_blocks d1 = d_blocks (dev fs)" using init_read_ok[OF io(1) b0, of 0 buf] buf(2) by auto
  have pb: "put_bytes 0 (content fs 0) buf = content fs 0" using buf(2) io(1) b0 by (simp add: put_bytes_def)
  have bl: "block d1 = content fs" by (intro ext) (simp add: block_def r(3))
  let ?b0 = "\<lparr>nbits = ?n * 32768, nwords = ?n * 1024, bmap = replicate (?n * 1024) (- 1)\<rparr>"
  have "?n * 32768 \<le> blocks ?sb + 32767" by (simp add: sfs_freemap_blocks_def sfs_consts)
  then have sblk: "?n * 32768 + 32 < 2 ^ 32" using io(3) by simp
  have cr: "bitmap_create True True (sfs_freemap_bits ?sb) = Some (Some ?b0)"
    unfolding freemap_bits_eq by (rule create_freemap[OF fz(4)]) (rule sblk)
  obtain d2 where l: "init_freemap_loop ?n 2 (freemap_bytes ?b0) 0 d1 =
      Some (0, put_bytes 0 (concat (map (block d1) [2..<2 + ?n])) (freemap_bytes ?b0), d2)" "disk_ok d2" "disk_img d2 = disk_img d1" "d_blocks d2 = d_blocks d1"
    using init_freemap_loop_ok[OF r(2), of 2 ?n 0 "freemap_bytes ?b0"] lay(5) io r(4) by (auto simp: freemap_bytes_def bitmap_getdata_def)
  have "concat (map (block d1) [2..<2 + ?n]) = freemap_bytes (freemap fs)" using ok(3) by (simp add: meta_stored_def freemap_area_def bl)
  then have data: "put_bytes 0 (concat (map (block d1) [2..<2 + ?n])) (freemap_bytes ?b0) = freemap_bytes (freemap fs)"
    using fz(3) by (simp add: put_bytes_def freemap_bytes_def bitmap_getdata_def)
  have "words_of_bytes (?n * 1024) (freemap_bytes (freemap fs)) = bmap (freemap fs)"
    using words_roundtrip[of "bmap (freemap fs)"] fz(1,2) by (simp add: freemap_bytes_def bitmap_getdata_def)
  then have fm: "?b0\<lparr>bmap := words_of_bytes (nwords ?b0) (freemap_bytes (freemap fs))\<rparr> = freemap fs"
    using lay(4) fz(1) by (intro bitmap.equality) simp_all
  have init: "sfs_init_freemap d1 ?b0 SFS_BLKN_FREEMAP ?n = Some (0, freemap fs, d2)"
    using l(1) data fm by (simp add: sfs_init_freemap_def sfs_consts bitmap_getdata_def)
  have bm: "bm_ok (freemap fs)" "unused_blocks ?sb = card (free_blocks fs)" using ok(1) by (simp_all add: fs_ok_def)
  then have "free_blocks fs \<inter> {0..<?n * 32768} = free_blocks fs" using lay(4) by (auto simp: bm_ok_def)
  then have cnt: "count_free_loop (freemap fs) (sfs_freemap_bits ?sb) 0 0 = Some (unused_blocks ?sb)"
    using count_free_ok[OF bm(1), of "?n * 32768" 0 0] lay(4) sblk bm(2) by (simp add: freemap_bits_eq)
  have sb: "dec_super (content fs 0) = ?sb" using ok(3) by (simp add: meta_stored_def)
  have "(info ?sb)[31 := 0] = info ?sb" using lay(2,3) by (simp add: list_update_same_conv)
  then have sbi: "?sb\<lparr>info := (info ?sb)[SFS_MAX_INFO_LEN := 0]\<rparr> = ?sb" by (simp add: SFS_MAX_INFO_LEN_def)
  let ?buf = "(content fs 0)[12 + SFS_MAX_INFO_LEN := 0]"
  let ?fs' = "\<lparr>super = ?sb, dev = d2, freemap = freemap fs, super_dirty = False, sfs_buffer = ?buf, fs_sem = 1, io_sem = 1, mutex_sem = 1\<rparr>"
  have "mount_freemap m ?sb ?buf d1 il (init_hash_list sl) = Some (0, Some (?fs', list_init il InodeList, init_hash_list sl), d2)"
    using cr init cnt m by (simp add: mount_freemap_def enough_mem_def)
  then have "sfs_do_mount m (dev fs) il sl = Some (0, Some (?fs', list_init il InodeList, init_hash_list sl), d2)"
    using r(1,4) buf(1) m lay(1) io(2) sb sbi pb by (simp add: sfs_do_mount_def enough_mem_def SFS_BLKN_SUPER_def) (simp add: sfs_consts disk_consts)
  moreover have "length ?buf = 4096" using io(1) b0 by simp
  then have "fs_ok ?fs'" using ok(1) l(2,4) r(4) io by (simp add: fs_ok_def io_ok_def sfs_consts)
  moreover have "content ?fs' c = content fs c" for c by (simp add: block_def l(3) r(3))
  ultimately show ?thesis by (intro exI[of _ ?fs'] exI[of _ d2]) simp
qed

lemma sync_super_ok:
  assumes ok: "io_ok fs" "io_sem fs = 1" "0 < blocks (super fs)" and i: "length (info (super fs)) = 32"
  shows "\<exists>fs'. sfs_sync_super fs = Some (0, fs') \<and> io_frame fs fs' \<and>
     upd_block 0 (enc_super (super fs) @ replicate 4052 0) fs fs'"
proof -
  let ?buf = "put_bytes 0 (enc_super (super fs)) (replicate SFS_BLKSIZE 0)"
  have le: "length (enc_super (super fs)) = 44" using i by (simp add: enc_super_def)
  then have buf: "?buf = enc_super (super fs) @ replicate 4052 0" by (simp add: put_bytes_def sfs_consts)
  let ?f = "fs\<lparr>io_sem := 0, sfs_buffer := ?buf\<rparr>"
  have f: "io_ok ?f" "0 < blocks (super ?f)" "0 + SFS_BLKSIZE \<le> length ?buf" using ok le by (auto simp: io_ok_def sfs_consts buf)
  have all: "get_bytes 0 SFS_BLKSIZE ?buf = ?buf" using le by (simp add: buf sfs_consts)
  obtain f1 where w: "sfs_rwblock_nolock ?buf 0 0 True False ?f = Some (0, ?buf, f1)" "io_frame ?f f1" "upd_block 0 ?buf ?f f1" "sfs_buffer f1 = sfs_buffer ?f"
    using rwblock_write[OF f(1,2) _ f(3), of False] unfolding all by auto
  let ?fs' = "unlock_sfs_io (f1\<lparr>sfs_buffer := ?buf\<rparr>)"
  have "sfs_sync_super fs = Some (0, ?fs')" using ok(2) w(1) by (simp add: sfs_sync_super_def lock_sfs_io_def SFS_BLKN_SUPER_def)
  moreover have "io_frame fs ?fs'" using w(2) ok(2) f(3) le by (auto simp: io_frame_def io_ok_def unlock_sfs_io_def buf sfs_consts)
  moreover have "upd_block 0 ?buf fs ?fs'" using w(3) by (simp add: upd_block_def unlock_sfs_io_def)
  ultimately show ?thesis unfolding buf by blast
qed

lemma wblock_loop_ok:
  assumes "io_ok fs" "0 < b" "b + n \<le> blocks (super fs)" "base + n * 4096 \<le> length mem"
  shows "\<exists>fs'. sfs_rwblock_loop n mem base b True fs = Some (0, mem, fs') \<and> io_frame fs fs' \<and>
     (\<forall>c<blocks (super fs). content fs' c = (if b \<le> c \<and> c < b + n then get_bytes (base + (c - b) * 4096) 4096 mem else content fs c))"
  using assms
proof (induction n arbitrary: b base fs)
  case 0
  then show ?case by (auto simp: io_frame_def)
next
  case (Suc n)
  have b: "b < blocks (super fs)" "b \<noteq> 0 \<or> \<not> True" "base + SFS_BLKSIZE \<le> length mem" using Suc(3-5) by (auto simp: sfs_consts)
  obtain f1 where w: "sfs_rwblock_nolock mem base b True True fs = Some (0, mem, f1)" "io_frame fs f1" "upd_block b (get_bytes base SFS_BLKSIZE mem) fs f1"
    using rwblock_write[OF Suc(2) b] by blast
  have f1: "io_ok f1" "super f1 = super fs" using w(2) by (simp_all add: io_frame_def)
  obtain fs' where l: "sfs_rwblock_loop n mem (base + 4096) (b + 1) True f1 = Some (0, mem, fs')" "io_frame f1 fs'"
    "\<forall>c<blocks (super f1). content fs' c = (if b + 1 \<le> c \<and> c < b + 1 + n then get_bytes (base + 4096 + (c - (b + 1)) * 4096) 4096 mem else content f1 c)"
    using Suc(1)[OF f1(1), of "b + 1" "base + 4096"] Suc(3-5) f1(2) by auto
  have "u32 (b + 1) = b + 1" by (rule u32_id) (use Suc(2) b(1) in \<open>simp add: io_ok_def\<close>)
  then have "sfs_rwblock_loop (Suc n) mem base b True fs = Some (0, mem, fs')" using w(1) l(1) by (simp add: sfs_consts)
  moreover have "content fs' c = (if b \<le> c \<and> c < b + Suc n then get_bytes (base + (c - b) * 4096) 4096 mem else content fs c)"
    if c: "c < blocks (super fs)" for c
  proof -
    have c1: "content f1 c = (if c = b then get_bytes base 4096 mem else content fs c)" using w(3) c by (simp add: upd_block_def sfs_consts)
    have "4096 + (c - (b + 1)) * 4096 = (c - b) * 4096" if "b + 1 \<le> c" using that by (simp add: algebra_simps diff_mult_distrib)
    then show ?thesis using l(3) c c1 f1(2) by (auto simp: add.assoc)
  qed
  ultimately show ?case using io_frame_trans[OF w(2) l(2)] by blast
qed

lemma concat_chunks: "length mem = n * 4096 \<Longrightarrow> concat (map (\<lambda>c. get_bytes ((c - b) * 4096) 4096 mem) [b..<b + n]) = mem"
proof (induction n arbitrary: mem)
  case (Suc n)
  let ?t = "take (n * 4096) mem"
  have "get_bytes ((c - b) * 4096) 4096 mem = get_bytes ((c - b) * 4096) 4096 ?t" if "c \<in> set [b..<b + n]" for c
  proof -
    have "Suc (c - b) \<le> n" using that by auto
    then have "Suc (c - b) * 4096 \<le> n * 4096" by (rule mult_right_mono) simp
    then have "(c - b) * 4096 + 4096 \<le> n * 4096" by simp
    then show ?thesis using Suc(2) by (simp add: get_bytes_def drop_take)
  qed
  then have m: "map (\<lambda>c. get_bytes ((c - b) * 4096) 4096 mem) [b..<b + n] = map (\<lambda>c. get_bytes ((c - b) * 4096) 4096 ?t) [b..<b + n]"
    by (intro map_cong refl)
  have t: "concat (map (\<lambda>c. get_bytes ((c - b) * 4096) 4096 ?t) [b..<b + n]) = ?t" by (rule Suc(1)) (use Suc(2) in simp)
  have "get_bytes (n * 4096) 4096 mem = drop (n * 4096) mem" using Suc(2) by (simp add: get_bytes_def)
  then have "concat (map (\<lambda>c. get_bytes ((c - b) * 4096) 4096 mem) ([b..<b + n] @ [b + n])) = mem"
    by (simp add: m t)
  then show ?case by simp
qed simp

lemma sync_freemap_ok:
  assumes ok: "fs_ok fs" "layout_ok fs"
  shows "\<exists>fs'. sfs_sync_freemap fs = Some (0, fs') \<and> io_frame fs fs' \<and>
     concat (map (content fs') (freemap_area (super fs))) = freemap_bytes (freemap fs) \<and>
     (\<forall>c<blocks (super fs). c \<notin> set (freemap_area (super fs)) \<longrightarrow> content fs' c = content fs c)"
proof -
  let ?n = "sfs_freemap_blocks (super fs)" and ?mem = "freemap_bytes (freemap fs)" let ?f = "fs\<lparr>io_sem := 0\<rparr>"
  note ln = freemap_size(3)[OF ok]
  have f: "io_ok ?f" "io_sem fs = 1" "2 + ?n \<le> blocks (super ?f)" using ok by (auto simp: fs_ok_def io_ok_def layout_ok_def)
  obtain f1 where w: "sfs_rwblock_loop ?n ?mem 0 2 True ?f = Some (0, ?mem, f1)" "io_frame ?f f1"
    "\<forall>c<blocks (super fs). content f1 c = (if 2 \<le> c \<and> c < 2 + ?n then get_bytes ((c - 2) * 4096) 4096 ?mem else content fs c)"
    using wblock_loop_ok[OF f(1) _ f(3), of 0 ?mem] ln by auto
  let ?fs' = "unlock_sfs_io f1"
  have "sfs_sync_freemap fs = Some (0, ?fs')"
    using w(1) f(2) by (simp add: sfs_sync_freemap_def sfs_wblock_def sfs_rwblock_def lock_sfs_io_def SFS_BLKN_FREEMAP_def)
  moreover have "io_frame fs ?fs'" using w(2) f(2) by (auto simp: io_frame_def io_ok_def unlock_sfs_io_def)
  moreover have "content ?fs' c = (if 2 \<le> c \<and> c < 2 + ?n then get_bytes ((c - 2) * 4096) 4096 ?mem else content fs c)" if "c < blocks (super fs)" for c
    using w(3) that by (simp add: unlock_sfs_io_def)
  moreover from this have "map (content ?fs') (freemap_area (super fs)) = map (\<lambda>c. get_bytes ((c - 2) * 4096) 4096 ?mem) [2..<2 + ?n]"
    using f(3) unfolding freemap_area_def by (intro map_cong) auto
  then have "concat (map (content ?fs') (freemap_area (super fs))) = ?mem" using concat_chunks[OF ln, of 2] by simp
  ultimately show ?thesis by (intro exI[of _ ?fs']) (auto simp: freemap_area_def)
qed

lemma sync_meta_ok:
  assumes ok: "fs_ok fs" "layout_ok fs" and clean: "\<not> super_dirty fs \<Longrightarrow> meta_stored fs"
  shows "\<exists>fs'. sync_meta fs = Some (0, fs') \<and> meta_stored fs' \<and> io_frame (fs\<lparr>super_dirty := False\<rparr>) fs' \<and>
     (\<forall>c<blocks (super fs). c \<notin> insert 0 (set (freemap_area (super fs))) \<longrightarrow> content fs' c = content fs c)"
proof (cases "super_dirty fs")
  case False
  then show ?thesis using clean ok by (auto simp: sync_meta_def io_frame_def fs_ok_def io_ok_def)
next
  case True
  let ?f0 = "fs\<lparr>super_dirty := False\<rparr>" and ?sb = "super fs"
  have f0: "io_ok ?f0" "io_sem ?f0 = 1" "0 < blocks (super ?f0)" "length (info (super ?f0)) = 32"
    using ok by (auto simp: fs_ok_def io_ok_def layout_ok_def)
  obtain f1 where s1: "sfs_sync_super ?f0 = Some (0, f1)" "io_frame ?f0 f1" "upd_block 0 (enc_super ?sb @ replicate 4052 0) ?f0 f1"
    using sync_super_ok[OF f0] by auto
  have f1: "fs_ok f1" "layout_ok f1" "super f1 = ?sb" "freemap f1 = freemap fs"
    using s1(2) ok by (auto simp: io_frame_def fs_ok_def layout_ok_def)
  obtain f2 where s2: "sfs_sync_freemap f1 = Some (0, f2)" "io_frame f1 f2" "concat (map (content f2) (freemap_area ?sb)) = freemap_bytes (freemap fs)"
    "\<forall>c<blocks ?sb. c \<notin> set (freemap_area ?sb) \<longrightarrow> content f2 c = content f1 c" using sync_freemap_ok[OF f1(1,2)] unfolding f1(3,4) by blast
  have "card (free_blocks fs) \<le> card {1..<blocks ?sb}" using ok(1) by (intro card_mono) (auto simp: fs_ok_def)
  then have bnd: "blocks ?sb < 2 ^ 32" "unused_blocks ?sb < 2 ^ 32" "magic ?sb < 2 ^ 32"
    using ok by (auto simp: fs_ok_def io_ok_def layout_ok_def SFS_MAGIC_def)
  have "content f2 0 = enc_super ?sb @ replicate 4052 0" using s2(4) s1(3) f0(3) by (simp add: freemap_area_def upd_block_def)
  then have "dec_super (content f2 0) = ?sb" using dec_enc_super[of ?sb] bnd f0(4) by simp
  then have "meta_stored f2" using s2(2,3) f1(3,4) by (simp add: meta_stored_def io_frame_def)
  moreover have "sync_meta fs = Some (0, f2)" using True s1(1) s2(1) by (simp add: sync_meta_def)
  moreover have "content f2 c = content fs c" if "c < blocks ?sb" "c \<notin> insert 0 (set (freemap_area ?sb))" for c
    using s2(4) s1(3) that by (simp add: upd_block_def)
  ultimately show ?thesis using io_frame_trans[OF s1(2) s2(2)] by blast
qed

subsection \<open>Writing back all inodes\<close>

text \<open>The loop runs with the lock of the file system held.\<close>

definition fs_held :: "nat set \<Rightarrow> (nat \<Rightarrow> nat) \<Rightarrow> 'a sfs_state_scheme \<Rightarrow> bool" where
  "fs_held N pend s \<longleftrightarrow> fs_sem (sfs s) = 0 \<and> table_ok N pend (release_fs s)"

definition flushed :: "nat set \<Rightarrow> 'a sfs_state_scheme \<Rightarrow> 'a sfs_state_scheme \<Rightarrow> bool" where
  "flushed N s s' \<longleftrightarrow> io_frame (sfs s) (sfs s') \<and> inodes s' = inodes s \<and> inode_links s' = inode_links s \<and>
     (\<forall>n. din (sins s' n) = din (sins s n) \<and> sin_ino (sins s' n) = sin_ino (sins s n) \<and> (\<not> sin_dirty (sins s n) \<longrightarrow> \<not> sin_dirty (sins s' n))) \<and>
     (\<forall>c<blocks (super (sfs s)). c \<notin> (\<lambda>n. sin_ino (sins s n)) ` N \<longrightarrow> content (sfs s') c = content (sfs s) c)"

lemma flushed_trans: "flushed N a b \<Longrightarrow> flushed N b c \<Longrightarrow> flushed N a c"
  by (auto simp: flushed_def io_frame_def)

lemma held_simps:
  "sins (release_fs s) = sins s" "inodes (release_fs s) = inodes s"
  "inode_links (release_fs s) = inode_links s" "sin_links (release_fs s) = sin_links s" "super (sfs (release_fs s)) = super (sfs s)"
  "dev (sfs (release_fs s)) = dev (sfs s)" "freemap (sfs (release_fs s)) = freemap (sfs s)" "fs_ok (sfs (release_fs s)) = fs_ok (sfs s)"
  "in_use (sfs (release_fs s)) = in_use (sfs s)"
  by (simp_all add: release_fs_def unlock_sfs_fs_def fs_ok_def io_ok_def in_use_def fun_eq_iff)

lemma held_fs: "fs_held N pend s \<Longrightarrow> fs_ok (sfs s)"
  using table_okD(1)[of "{}" N pend "release_fs s"] by (simp add: fs_held_def held_simps)

lemma fsync_step:
  assumes h: "fs_held N pend s" and n: "n \<in> N" "ref_count (inodes s n) < MAX_INODE_COUNT"
  shows "\<exists>s'. sfs_vop_fsync n s = Some (0, s') \<and> fs_held N pend s' \<and> flushed N s s' \<and> \<not> sin_dirty (sins s' n)"
proof -
  have t: "table_ok N pend (release_fs s)" and sem: "fs_sem (sfs s) = 0" using h by (simp_all add: fs_held_def)
  note nd = table_okD(5)[OF t n(1), unfolded xnode_ok_def held_simps din_stored_def]
  note ok = held_fs[OF h]
  obtain f where f: "sfs_fsync (sins s n) (sfs s) = Some (0, (sins s n)\<lparr>sin_dirty := False\<rparr>, f)" "io_frame (sfs s) f"
    "din_stored (sin_ino (sins s n)) (din (sins s n)) f" "\<forall>c<blocks (super (sfs s)). c \<noteq> sin_ino (sins s n) \<longrightarrow> content f c = content (sfs s) c"
    using sfs_fsync_ok[OF ok, of "sins s n"] nd by (auto simp: din_stored_def)
  define s' where "s' = s\<lparr>sfs := f, sins := (sins s)(n := (sins s n)\<lparr>sin_dirty := False\<rparr>)\<rparr>"
  have "inode_check n s = Some ()" using nd n(2) by (simp add: inode_check_def)
  moreover have "vop_defined (in_ops (inodes s n)) Vfsync" using nd sfs_has_ops by blast
  ultimately have "sfs_vop_fsync n s = Some (0, s')" using f(1) by (simp add: sfs_vop_fsync_def vop_def on_sin_def s'_def)
  moreover have "fs_held N pend s'"
  proof -
    have nodes: "node_ok pend (release_fs s') m" if m: "m \<in> N" for m
    proof (cases "m = n")
      case True
      have "in_use f (sin_ino (sins s n))" using nd f(2) by (simp add: in_use_def io_frame_def)
      then show ?thesis using nd f(3) True by (simp add: xnode_ok_def held_simps din_stored_def) (simp add: s'_def)
    next
      case False
      have "sin_ino (sins s m) \<noteq> sin_ino (sins s n)" using table_okD(4)[OF t] m n(1) False by (auto simp: inj_on_def held_simps)
      moreover have "sin_ino (sins s m) < blocks (super (sfs s))" using table_okD(5)[OF t m] by (simp add: xnode_ok_def held_simps in_use_def)
      ultimately have "content f (sin_ino (sins s m)) = content (sfs s) (sin_ino (sins s m))" using f(4) by blast
      then show ?thesis using table_okD(5)[OF t m] False f(2)
        by (simp add: xnode_ok_def held_simps din_stored_def) (simp add: s'_def in_use_def io_frame_def)
    qed
    have "links_ok N (release_fs s')" by (rule links_ok_cong[OF table_okD(3)[OF t]]) (simp_all add: held_simps, simp_all add: s'_def)
    moreover have "(\<lambda>m. sin_ino (sins (release_fs s') m)) = (\<lambda>m. sin_ino (sins (release_fs s) m))"
      unfolding held_simps by (simp add: s'_def fun_eq_iff)
    then have "inj_on (\<lambda>m. sin_ino (sins (release_fs s') m)) N" using table_okD(4)[OF t] by (simp only:)
    moreover have fo: "fs_ok f" "fs_sem f = 0" using f(2) ok sem by (auto simp: io_frame_def fs_ok_def)
    have "fs_sem (sfs s') = 0" "fs_ok (sfs (release_fs s'))" "fs_sem (sfs (release_fs s')) = 1"
      using fo unfolding held_simps by (simp_all add: s'_def release_fs_def unlock_sfs_fs_def)
    moreover have "\<forall>m. m \<notin> N \<longrightarrow> pend m = 0" using t by (simp add: xtable_ok_def)
    moreover have "\<forall>m\<in>N. node_ok pend (release_fs s') m" using nodes by (intro ballI)
    ultimately show ?thesis unfolding fs_held_def xtable_ok_def by (intro conjI)
  qed
  moreover have "flushed N s s'" using f(2,4) n(1) by (auto simp: flushed_def s'_def)
  ultimately show ?thesis by (auto simp: s'_def)
qed

lemma sync_loop_ok:
  assumes "fs_held N pend s" "\<forall>n\<in>N. ref_count (inodes s n) < MAX_INODE_COUNT"
    "dlist (inode_links s) InodeList (map InodeLink (xs @ ys))" "set (xs @ ys) = N" "\<forall>n\<in>set xs. \<not> sin_dirty (sins s n)"
  shows "\<exists>s'. sync_loop (last (InodeList # map InodeLink xs)) s = Some s' \<and> fs_held N pend s' \<and> flushed N s s' \<and> (\<forall>n\<in>N. \<not> sin_dirty (sins s' n))"
  using assms
proof (induction ys arbitrary: xs s)
  case Nil
  have "list_next (inode_links s) (last (InodeList # map InodeLink xs)) = InodeList"
    using dlist_next[of "inode_links s" InodeList "map InodeLink xs" "[]"] Nil(3) by simp
  moreover have "flushed N s s" using held_fs[OF Nil(1)] by (auto simp: flushed_def io_frame_def fs_ok_def)
  ultimately show ?case using Nil(1,4,5) by (subst sync_loop.simps) (simp del: last.simps)
next
  case (Cons y ys)
  have nx: "list_next (inode_links s) (last (InodeList # map InodeLink xs)) = InodeLink y"
    using dlist_next[of "inode_links s" InodeList "map InodeLink xs" "map InodeLink (y # ys)"] Cons(4) by simp
  have y: "y \<in> N" using Cons(5) by auto
  obtain s1 where f: "sfs_vop_fsync y s = Some (0, s1)" "fs_held N pend s1" "flushed N s s1" "\<not> sin_dirty (sins s1 y)"
    using fsync_step[OF Cons(2) y] Cons(3) y by blast
  have l: "last (InodeList # map InodeLink (xs @ [y])) = InodeLink y" by simp
  have "\<exists>s'. sync_loop (last (InodeList # map InodeLink (xs @ [y]))) s1 = Some s' \<and> fs_held N pend s' \<and> flushed N s1 s' \<and> (\<forall>n\<in>N. \<not> sin_dirty (sins s' n))"
    by (rule Cons(1)[OF f(2)]) (use Cons(3-6) f(3,4) in \<open>auto simp: flushed_def\<close>)
  then obtain s' where s': "sync_loop (InodeLink y) s1 = Some s'" "fs_held N pend s'" "flushed N s1 s'" "\<forall>n\<in>N. \<not> sin_dirty (sins s' n)"
    unfolding l by blast
  have "sync_loop (last (InodeList # map InodeLink xs)) s = Some s'" using nx f(1) s'(1) by (subst sync_loop.simps) (simp del: last.simps)
  then show ?case using s' flushed_trans[OF f(3) s'(3)] by blast
qed

subsection \<open>Properties\<close>

lemma sync_ok:
  assumes t: "table_ok N pend s" and refs: "\<forall>n\<in>N. ref_count (inodes s n) < MAX_INODE_COUNT" and lay: "layout_ok (sfs s)"
    and clean: "\<not> super_dirty (sfs s) \<Longrightarrow> meta_stored (sfs s)"
    and area: "\<forall>n\<in>N. sin_ino (sins s n) \<notin> set (freemap_area (super (sfs s)))"
  shows "\<exists>s'. sfs_sync s = Some (0, s') \<and> fs_ok (sfs s') \<and> layout_ok (sfs s') \<and> meta_stored (sfs s') \<and> super (sfs s') = super (sfs s) \<and>
     freemap (sfs s') = freemap (sfs s) \<and> \<not> super_dirty (sfs s') \<and> (\<forall>n\<in>N. din_stored (sin_ino (sins s n)) (din (sins s n)) (sfs s')) \<and>
     (\<forall>c<blocks (super (sfs s)). c \<notin> insert 0 (set (freemap_area (super (sfs s)))) \<union> (\<lambda>n. sin_ino (sins s n)) ` N \<longrightarrow>
        content (sfs s') c = content (sfs s) c)"
proof -
  let ?s0 = "s\<lparr>sfs := sfs s\<lparr>fs_sem := 0\<rparr>\<rparr>" and ?A = "set (freemap_area (super (sfs s)))" and ?I = "(\<lambda>n. sin_ino (sins s n)) ` N"
  note rel = lock_release[OF table_okD(2)[OF t]]
  obtain ns where ns: "dlist (inode_links s) InodeList (map InodeLink ns)" "set ns = N" using table_okD(3)[OF t] by (auto simp: links_ok_def)
  have h0: "fs_held N pend ?s0" using t rel(2) by (simp add: fs_held_def)
  obtain s1 where l: "sync_loop InodeList ?s0 = Some s1" "fs_held N pend s1" "flushed N ?s0 s1" "\<forall>n\<in>N. \<not> sin_dirty (sins s1 n)"
    using sync_loop_ok[OF h0, of "[]" ns] ns refs by auto
  let ?s2 = "release_fs s1"
  have t2: "table_ok N pend ?s2" using l(2) by (simp add: fs_held_def)
  have fl: "super (sfs ?s2) = super (sfs s)" "freemap (sfs ?s2) = freemap (sfs s)" "super_dirty (sfs ?s2) = super_dirty (sfs s)"
    "\<And>n. din (sins ?s2 n) = din (sins s n) \<and> sin_ino (sins ?s2 n) = sin_ino (sins s n)"
    "\<And>c. c < blocks (super (sfs s)) \<Longrightarrow> c \<notin> ?I \<Longrightarrow> content (sfs ?s2) c = content (sfs s) c"
    using l(3) by (simp_all add: flushed_def io_frame_def release_fs_def unlock_sfs_fs_def)
  have lay2: "layout_ok (sfs ?s2)" using lay fl(1,2) by (simp add: layout_ok_def)
  have ino: "0 < sin_ino (sins s n)" if "n \<in> N" for n using table_okD(5)[OF t that] by (simp add: xnode_ok_def in_use_def)
  have pos: "0 \<notin> ?I" "?A \<subseteq> {0..<blocks (super (sfs s))}" "0 < blocks (super (sfs s))"
    using ino lay by (fastforce, auto simp: layout_ok_def freemap_area_def)
  have "meta_stored (sfs ?s2)" if "\<not> super_dirty (sfs ?s2)"
  proof -
    have e: "map (content (sfs ?s2)) (freemap_area (super (sfs s))) = map (content (sfs s)) (freemap_area (super (sfs s)))"
    proof (intro map_cong refl fl(5))
      fix c assume c: "c \<in> ?A"
      then show "c < blocks (super (sfs s))" using pos(2) by auto
      show "c \<notin> ?I" using c area by blast
    qed
    have "meta_stored (sfs s)" using clean that fl(3) by simp
    then show ?thesis unfolding meta_stored_def fl(1,2) e fl(5)[OF pos(3,1)] .
  qed
  then obtain f where m: "sync_meta (sfs ?s2) = Some (0, f)" "meta_stored f" "io_frame (sfs ?s2\<lparr>super_dirty := False\<rparr>) f"
    "\<forall>c<blocks (super (sfs s)). c \<notin> insert 0 ?A \<longrightarrow> content f c = content (sfs ?s2) c"
    using sync_meta_ok[OF table_okD(1)[OF t2] lay2] fl(1) by auto
  have f: "fs_ok f" "super f = super (sfs s)" "freemap f = freemap (sfs s)" "\<not> super_dirty f" "layout_ok f"
    using m(3) table_okD(1)[OF t2] fl(1,2) lay2 by (auto simp: io_frame_def fs_ok_def layout_ok_def)
  have st: "din_stored (sin_ino (sins s n)) (din (sins s n)) f" if n: "n \<in> N" for n
  proof -
    have "din_stored (sin_ino (sins s n)) (din (sins s n)) (sfs ?s2)" "in_use (sfs s) (sin_ino (sins s n))"
      using table_okD(5)[OF t2 n] table_okD(5)[OF t n] l(4) n fl(4)[of n] by (auto simp: xnode_ok_def held_simps)
    then show ?thesis using m(4) area n by (auto simp: din_stored_def in_use_def)
  qed
  have "sfs_sync s = Some (0, ?s2\<lparr>sfs := f\<rparr>)" using rel(1) l(1) m(1) by (simp add: sfs_sync_def)
  then show ?thesis using f m(2,4) st fl(5) by (intro exI[of _ "?s2\<lparr>sfs := f\<rparr>"]) auto
qed

text \<open>
  C29. Synchronising and mounting are inverse: after sfs_sync, which always succeeds on a
  consistent file system, mounting the same device gives back the superblock, the bitmap of
  free blocks and every block outside the areas written; nothing is dirty, the two lists are
  empty, and every inode that was loaded is on the disk as it was in memory.
\<close>

theorem sfs_sync_mount:
  assumes "table_ok N pend s" and "\<forall>n\<in>N. ref_count (inodes s n) < MAX_INODE_COUNT" and "layout_ok (sfs s)"
    and "super_dirty (sfs s) \<or> meta_stored (sfs s)" and "\<forall>n\<in>N. sin_ino (sins s n) \<notin> set (freemap_area (super (sfs s)))" and "enough_mem m"
  shows "\<exists>s' fs' d. sfs_sync s = Some (0, s') \<and>
    sfs_do_mount m (dev (sfs s')) il sl = Some (0, Some (fs', list_init il InodeList, init_hash_list sl), d) \<and>
    fs_ok fs' \<and> \<not> super_dirty fs' \<and> super fs' = super (sfs s) \<and> freemap fs' = freemap (sfs s) \<and>
    dlist (list_init il InodeList) InodeList [] \<and> (\<forall>h<SFS_HLIST_SIZE. dlist (init_hash_list sl) (SinHash h) []) \<and>
    (\<forall>n\<in>N. din_stored (sin_ino (sins s n)) (din (sins s n)) fs') \<and>
    (\<forall>c<blocks (super (sfs s)). c \<notin> insert 0 (set (freemap_area (super (sfs s)))) \<union> (\<lambda>n. sin_ino (sins s n)) ` N \<longrightarrow>
       content fs' c = content (sfs s) c)"
proof -
  obtain s' where s': "sfs_sync s = Some (0, s')" "fs_ok (sfs s')" "layout_ok (sfs s')" "meta_stored (sfs s')" "super (sfs s') = super (sfs s)"
     "freemap (sfs s') = freemap (sfs s)" "\<forall>n\<in>N. din_stored (sin_ino (sins s n)) (din (sins s n)) (sfs s')"
     "\<forall>c<blocks (super (sfs s)). c \<notin> insert 0 (set (freemap_area (super (sfs s)))) \<union> (\<lambda>n. sin_ino (sins s n)) ` N \<longrightarrow>
        content (sfs s') c = content (sfs s) c"
    using sync_ok[OF assms(1-3) _ assms(5)] assms(4) by blast
  obtain fs' d where m: "sfs_do_mount m (dev (sfs s')) il sl = Some (0, Some (fs', list_init il InodeList, init_hash_list sl), d)"
     "super fs' = super (sfs s')" "freemap fs' = freemap (sfs s')" "\<not> super_dirty fs'" "fs_ok fs'" "\<forall>c. content fs' c = content (sfs s') c"
    using mount_ok[OF s'(2-4) assms(6)] by blast
  have "dlist (init_hash_list sl) (SinHash h) []" if "h < SFS_HLIST_SIZE" for h
  proof -
    have "h < n \<Longrightarrow> dlist (fold (\<lambda>i h. list_init h (SinHash i)) [0..<n] sl) (SinHash h) []" for n
      by (induction n) (auto simp: less_Suc_eq dlist_init intro: dlist_init_other)
    then show ?thesis using that by (simp add: init_hash_list_def)
  qed
  moreover have "\<forall>n\<in>N. din_stored (sin_ino (sins s n)) (din (sins s n)) fs'" using s'(7) m(6) by (simp add: din_stored_def)
  ultimately show ?thesis using s'(1,5,6,8) m
    by (intro exI[of _ s'] exI[of _ fs'] exI[of _ d]) (simp add: dlist_init)
qed

text \<open>The disk of the previous examples with a bitmap of one block, not yet synchronised.\<close>

definition demo_mount :: sfs_state where
  "demo_mount = demo_nodes\<lparr>sfs := sfs demo_nodes\<lparr>freemap := \<lparr>nbits = 32768, nwords = 1024, bmap = 240 # replicate 1023 0\<rparr>, super_dirty := True\<rparr>\<rparr>"

lemma demo_mount_free: "free_blocks (sfs demo_mount) = {4, 5, 6, 7}"
proof -
  have "i \<in> free_blocks (sfs demo_mount) \<longleftrightarrow> i \<in> free_blocks demo_fs" for i
  proof (cases "i < 32")
    case True
    then show ?thesis by (simp add: bm_free_def demo_mount_def demo_fs_def WORD_BITS_def)
  next
    case False
    then have "i div 32 \<noteq> 0" by (simp add: div_eq_0_iff)
    then have "i < 32768 \<Longrightarrow> (240 # replicate 1023 (0 :: 32 word)) ! (i div 32) = 0" by (simp add: nth_Cons')
    then show ?thesis using False by (auto simp: bm_free_def demo_mount_def demo_fs_def WORD_BITS_def)
  qed
  then show ?thesis using demo_free by blast
qed

lemma demo_mount_ok: "table_ok {} (\<lambda>_. 0) demo_mount" "layout_ok (sfs demo_mount)" "in_use (sfs demo_mount) 1" "disk_inode_ok 1 (sfs demo_mount)"
proof -
  have b: "blocks (super (sfs demo_mount)) = 8" "unused_blocks (super (sfs demo_mount)) = 4" by (simp_all add: demo_mount_def demo_nodes_def demo_fs_def)
  have c: "dev (sfs demo_mount) = dev (sfs demo_nodes)" "super (sfs demo_mount) = super (sfs demo_nodes)" "sfs_buffer (sfs demo_mount) = sfs_buffer (sfs demo_nodes)"
    "io_sem (sfs demo_mount) = io_sem (sfs demo_nodes)" "fs_sem (sfs demo_mount) = fs_sem (sfs demo_nodes)" by (simp_all add: demo_mount_def)
  have "bm_ok (freemap (sfs demo_mount))" unfolding bm_ok_def demo_mount_free by (simp add: demo_mount_def WORD_BITS_def)
  moreover have "nbits (freemap (sfs demo_mount)) = 32768" by (simp add: demo_mount_def)
  moreover have "io_ok (sfs demo_mount)" "io_sem (sfs demo_mount) = 1" "fs_sem (sfs demo_mount) = 1"
    using demo_nodes_ok(1) c by (simp_all add: xtable_ok_def fs_ok_def io_ok_def)
  ultimately have ok: "fs_ok (sfs demo_mount)" "fs_sem (sfs demo_mount) = 1" using b demo_mount_free by (simp_all add: fs_ok_def)
  have "links_ok {} demo_mount" using demo_nodes_ok(1) by (simp add: xtable_ok_def links_ok_def demo_mount_def)
  then show "table_ok {} (\<lambda>_. 0) demo_mount" using ok by (simp add: xtable_ok_def)
  show "layout_ok (sfs demo_mount)"
    by (simp add: layout_ok_def demo_mount_def demo_nodes_def demo_fs_def sfs_freemap_bits_def sfs_freemap_blocks_def sfs_consts)
  show "in_use (sfs demo_mount) 1" using b demo_mount_free by (simp add: in_use_def)
  show "disk_inode_ok 1 (sfs demo_mount)" using demo_stored(3) c(1) by (simp add: disk_inode_ok_def)
qed

theorem sfs_sync_mount_witness:
  "\<exists>s1 s2 fs d. sfs_load_inode \<lparr>mem_entry = True, mem_din = True, mem_node = Some 5\<rparr> 1 demo_mount = Some (0, Some 5, s1) \<and>
     sfs_sync s1 = Some (0, s2) \<and> din_stored 1 demo_dir fs \<and>
     sfs_do_mount \<lparr>m_fs = True, m_buffer = Some (replicate 4096 0), m_hash = True, m_bitmap = True, m_map = True\<rparr> (dev (sfs s2))
       (inode_links s2) (sin_links s2) = Some (0, Some (fs, list_init (inode_links s2) InodeList, init_hash_list (sin_links s2)), d) \<and>
     bm_free (freemap fs) = {4, 5, 6, 7}"
proof -
  let ?k = "\<lparr>mem_entry = True, mem_din = True, mem_node = Some 5\<rparr>"
  let ?m = "\<lparr>m_fs = True, m_buffer = Some (replicate 4096 0), m_hash = True, m_bitmap = True, m_map = True\<rparr>"
  obtain ret r s1 where l: "sfs_load_inode ?k 1 demo_mount = Some (ret, r, s1)" "load_result {} (\<lambda>_. 0) ?k 1 demo_mount ret r s1"
    using load_ok[OF demo_mount_ok(1,3), of ?k] demo_mount_ok(4) by auto
  have st: "din_stored 1 demo_dir (sfs demo_mount)" using demo_stored(1) by (simp add: din_stored_def demo_mount_def)
  have s1: "ret = 0" "r = Some 5" "table_ok {5} (\<lambda>_. 0) s1" "ref_count (inodes s1 5) = 1" "sin_ino (sins s1 5) = 1"
    "din (sins s1 5) = demo_dir" "quiet_io (sfs demo_mount) (sfs s1)"
    using l(2) st by (auto simp: xload_result_def din_stored_def split: option.splits)
  have q: "super (sfs s1) = super (sfs demo_mount)" "freemap (sfs s1) = freemap (sfs demo_mount)" "super_dirty (sfs s1)"
    using s1(7) by (auto simp: quiet_io_def io_frame_def demo_mount_def)
  have lay: "layout_ok (sfs s1)" using demo_mount_ok(2) q by (simp add: layout_ok_def)
  have "sfs_freemap_blocks (super (sfs s1)) = 1" by (simp add: q(1) demo_mount_def demo_nodes_def demo_fs_def sfs_freemap_blocks_def sfs_consts)
  then have h: "\<forall>n\<in>{5}. ref_count (inodes s1 n) < MAX_INODE_COUNT" "super_dirty (sfs s1) \<or> meta_stored (sfs s1)"
    "\<forall>n\<in>{5}. sin_ino (sins s1 n) \<notin> set (freemap_area (super (sfs s1)))" "enough_mem ?m"
    using s1(4,5) q(3) by (simp_all add: MAX_INODE_COUNT_def freemap_area_def enough_mem_def)
  obtain s2 where s2: "sfs_sync s1 = Some (0, s2)" using sfs_sync_mount[OF s1(3) h(1) lay h(2-4)] by blast
  obtain fs d where "sfs_do_mount ?m (dev (sfs s2)) (inode_links s2) (sin_links s2) =
      Some (0, Some (fs, list_init (inode_links s2) InodeList, init_hash_list (sin_links s2)), d)"
    "freemap fs = freemap (sfs s1)" "din_stored 1 demo_dir fs"
    using sfs_sync_mount[OF s1(3) h(1) lay h(2-4), of "inode_links s2" "sin_links s2"] s2 s1(5,6) by auto
  then show ?thesis using l(1) s1(1,2) s2 q(2) demo_mount_free by auto
qed

end
