(* ===== verification/FileSpec.thy ===== *)
theory FileSpec
  imports FileTable
begin

text \<open>
  The open-file tables keep their shape and the counts of the inodes agree with the
  entries that refer to them, whatever sequence of file operations is called.
\<close>

subsection \<open>Entries and counts\<close>

lemma file_at_upd [simp]:
  "i < length (fd_array (files s t)) \<Longrightarrow> file_at t i (upd_fd t i g s) = g (file_at t i s)"
  "(t, i) \<noteq> (t', j) \<Longrightarrow> file_at t' j (upd_fd t i g s) = file_at t' j s"
  by (auto simp: file_at_def upd_fd_def upd_files_def)

lemma upd_file_state [simp]:
  "inodes (upd_fd t i g s) = inodes s" "current_filesp (upd_fd t i g s) = current_filesp s"
  "files_count (files (upd_fd t i g s) t') = files_count (files s t')"
  "pwd (files (upd_fd t i g s) t') = pwd (files s t')"
  "length (fd_array (files (upd_fd t i g s) t')) = length (fd_array (files s t'))"
  by (simp_all add: upd_fd_def upd_files_def)

lemma upd_file_files:
  "fd_array (files (upd_fd t i g s) t') = (if t' = t then (fd_array (files s t))[i := g (file_at t i s)] else fd_array (files s t'))"
  by (simp add: file_at_def upd_fd_def upd_files_def)

lemma upd_inode_state [simp]:
  "files (upd_inode n f s) = files s" "current_filesp (upd_inode n f s) = current_filesp s"
  "inodes (upd_inode n f s) = (inodes s)(n := f (inodes s n))" "file_at t i (upd_inode n f s) = file_at t i s"
  by (simp_all add: upd_inode_def file_at_def)

text \<open>The entry refers to the inode \<open>n\<close> and holds one of its opens.\<close>

definition holds :: "nat \<Rightarrow> file_entry \<Rightarrow> bool" where
  "holds n f \<longleftrightarrow> (f_status f = FD_OPENED \<or> f_status f = FD_CLOSED) \<and> f_node f = Some n"

definition held :: "nat \<Rightarrow> file_entry list \<Rightarrow> int" where
  "held n fs = int (length (filter (holds n) fs))"

definition holders :: "nat set \<Rightarrow> (nat \<Rightarrow> files_struct) \<Rightarrow> nat \<Rightarrow> int" where
  "holders T F n = (\<Sum>t\<in>T. held n (fd_array (F t)))"

lemma held_update:
  "i < length fs \<Longrightarrow> held n (fs[i := f]) = held n fs - of_bool (holds n (fs ! i)) + of_bool (holds n f)"
proof (induction fs arbitrary: i)
  case (Cons g fs)
  then show ?case by (cases i) (auto simp: held_def)
qed simp

lemma held_nonneg: "0 \<le> held n fs" by (simp add: held_def)

lemma holders_nonneg: "0 \<le> holders T F n" by (simp add: holders_def sum_nonneg held_nonneg)

lemma holders_pos:
  assumes "finite T" "t \<in> T" "i < length (fd_array (F t))" "holds n (fd_array (F t) ! i)"
  shows "0 < holders T F n"
proof -
  have "fd_array (F t) ! i \<in> set (filter (holds n) (fd_array (F t)))" using assms(3,4) by simp
  then have "0 < held n (fd_array (F t))" unfolding held_def by (cases "filter (holds n) (fd_array (F t))") auto
  then show ?thesis unfolding holders_def using assms(1,2) held_nonneg by (intro sum_pos2[of T t]) auto
qed

lemma holders_update:
  assumes "finite T" "t \<in> T" "i < length (fd_array (files s t))"
  shows "holders T (files (upd_fd t i g s)) n =
    holders T (files s) n - of_bool (holds n (file_at t i s)) + of_bool (holds n (g (file_at t i s)))"
proof -
  have "holders T (files (upd_fd t i g s)) n =
      held n ((fd_array (files s t))[i := g (file_at t i s)]) + (\<Sum>t'\<in>T - {t}. held n (fd_array (files s t')))"
    unfolding holders_def using assms(1,2) by (subst sum.remove[of T t]) (auto simp: upd_file_files intro!: sum.cong)
  moreover have "holders T (files s) n = held n (fd_array (files s t)) + (\<Sum>t'\<in>T - {t}. held n (fd_array (files s t')))"
    unfolding holders_def using assms(1,2) by (subst sum.remove[of T t]) auto
  ultimately show ?thesis using held_update[OF assms(3), of n "g (file_at t i s)"] by (simp add: file_at_def)
qed

subsection \<open>The contract of the inode operations\<close>

text \<open>
  Opening, closing, reclaiming and asking for the status of an inode return. The other operations
  may stop the kernel by themselves, and nothing is assumed of an operation that the table of
  the inode does not define. When an operation returns, no other process has used the tables and the
  inodes meanwhile. A lookup returns an inode with one reference more; when
  the inode was not in memory it is one of a file system, which can be reclaimed.
\<close>

definition quiet :: "'a fstate_scheme \<Rightarrow> 'a fstate_scheme \<Rightarrow> bool" where
  "quiet s s' \<longleftrightarrow> files s' = files s \<and> current_filesp s' = current_filesp s \<and> inodes s' = inodes s"

abbreviation has_op :: "vop_sym \<Rightarrow> nat \<Rightarrow> 'a fstate_scheme \<Rightarrow> bool" where
  "has_op vs n s \<equiv> vop_defined (in_ops (inodes s n)) vs"

definition looked_up :: "nat \<Rightarrow> 'a fstate_scheme \<Rightarrow> 'a fstate_scheme \<Rightarrow> bool" where
  "looked_up n s s' \<longleftrightarrow> files s' = files s \<and> current_filesp s' = current_filesp s \<and>
     (if ref_count (inodes s n) = 0
      then \<exists>ops. vop_defined ops Vreclaim \<and> inodes s' = (inodes s)(n := \<lparr>ref_count = 1, open_count = 0, in_ops = ops\<rparr>)
      else inodes s' = (inodes s)(n := (inodes s n)\<lparr>ref_count := ref_count (inodes s n) + 1\<rparr>))"

definition vops_ok :: "'a fstate_scheme inode_ops \<Rightarrow> bool" where
  "vops_ok V \<longleftrightarrow>
     (\<forall>n f s. \<exists>r s'. op_open V n f s = Some (r, s') \<and> quiet s s') \<and>
     (\<forall>n s. \<exists>r s'. op_close V n s = Some (r, s') \<and> quiet s s') \<and>
     (\<forall>n s. has_op Vreclaim n s \<longrightarrow> (\<exists>r s'. op_reclaim V n s = Some (r, s') \<and> quiet s s')) \<and>
     (\<forall>n b s r b' s'. has_op Vread n s \<and> op_read V n b s = Some (r, b', s') \<longrightarrow> quiet s s') \<and>
     (\<forall>n b s r b' s'. has_op Vwrite n s \<and> op_write V n b s = Some (r, b', s') \<longrightarrow> quiet s s') \<and>
     (\<forall>n b s r b' s'. has_op Vgetdirentry n s \<and> op_getdirentry V n b s = Some (r, b', s') \<longrightarrow> quiet s s') \<and>
     (\<forall>n s. \<exists>r st s'. op_fstat V n s = Some (r, st, s') \<and> quiet s s') \<and>
     (\<forall>n s r s'. has_op Vfsync n s \<and> op_fsync V n s = Some (r, s') \<longrightarrow> quiet s s') \<and>
     (\<forall>n p s r s'. has_op Vtryseek n s \<and> op_tryseek V n p s = Some (r, s') \<longrightarrow> quiet s s') \<and>
     (\<forall>n p s r s'. has_op Vtruncate n s \<and> op_truncate V n p s = Some (r, s') \<longrightarrow> quiet s s') \<and>
     (\<forall>p s. op_lookup V p s = None \<or> (\<exists>n s'. op_lookup V p s = Some (0, Some n, s') \<and> looked_up n s s') \<or>
            (\<exists>r n s'. op_lookup V p s = Some (r, n, s') \<and> r < 0 \<and> quiet s s')) \<and>
     (\<forall>p s. op_lookup_parent V p s = None \<or> (\<exists>n nm s'. op_lookup_parent V p s = Some (0, Some n, nm, s') \<and> looked_up n s s') \<or>
            (\<exists>r n nm s'. op_lookup_parent V p s = Some (r, n, nm, s') \<and> r < 0 \<and> quiet s s'))"

lemma vops_okD:
  assumes "vops_ok V"
  shows "\<exists>r s'. op_open V n f s = Some (r, s') \<and> quiet s s'"
    "\<exists>r s'. op_close V n s = Some (r, s') \<and> quiet s s'"
    "has_op Vreclaim n s \<Longrightarrow> \<exists>r s'. op_reclaim V n s = Some (r, s') \<and> quiet s s'"
    "\<And>r b' s'. has_op Vread n s \<Longrightarrow> op_read V n b s = Some (r, b', s') \<Longrightarrow> quiet s s'"
    "\<And>r b' s'. has_op Vwrite n s \<Longrightarrow> op_write V n b s = Some (r, b', s') \<Longrightarrow> quiet s s'"
    "\<And>r b' s'. has_op Vgetdirentry n s \<Longrightarrow> op_getdirentry V n b s = Some (r, b', s') \<Longrightarrow> quiet s s'"
    "\<exists>r st s'. op_fstat V n s = Some (r, st, s') \<and> quiet s s'"
    "\<And>r s'. has_op Vfsync n s \<Longrightarrow> op_fsync V n s = Some (r, s') \<Longrightarrow> quiet s s'"
    "\<And>r s'. has_op Vtryseek n s \<Longrightarrow> op_tryseek V n p s = Some (r, s') \<Longrightarrow> quiet s s'"
    "\<And>r s'. has_op Vtruncate n s \<Longrightarrow> op_truncate V n p s = Some (r, s') \<Longrightarrow> quiet s s'"
    "op_lookup V path s = None \<or> (\<exists>n s'. op_lookup V path s = Some (0, Some n, s') \<and> looked_up n s s') \<or>
      (\<exists>r n s'. op_lookup V path s = Some (r, n, s') \<and> r < 0 \<and> quiet s s')"
    "op_lookup_parent V path s = None \<or> (\<exists>n nm s'. op_lookup_parent V path s = Some (0, Some n, nm, s') \<and> looked_up n s s') \<or>
      (\<exists>r n nm s'. op_lookup_parent V path s = Some (r, n, nm, s') \<and> r < 0 \<and> quiet s s')"
  using assms unfolding vops_ok_def by (elim conjE, meson)+

text \<open>Every table defines these three, and none defines \<^verbatim>\<open>vop_create\<close>.\<close>

lemma vop_always [simp]:
  "vop_defined tab Vopen" "vop_defined tab Vclose" "vop_defined tab Vfstat" "\<not> vop_defined tab Vcreate"
  by (cases tab; simp)+

subsection \<open>The invariant\<close>

text \<open>An entry between two file operations.\<close>

definition entry_ok :: "nat \<Rightarrow> file_entry \<Rightarrow> bool" where
  "entry_ok i f \<longleftrightarrow> f_fd f = int i \<and>
     (f_status f = FD_NONE \<and> f_open_count f = 0 \<or>
      f_status f = FD_OPENED \<and> f_open_count f = 1 \<and> (\<exists>n. f_node f = Some n))"

text \<open>
  \<open>T\<close> are the tables; \<open>x\<close> and \<open>y\<close> the opens and the references of an inode that are not
  those of entries.
\<close>

definition ftab_ok :: "nat set \<Rightarrow> (nat \<Rightarrow> int) \<Rightarrow> (nat \<Rightarrow> int) \<Rightarrow> 'a fstate_scheme \<Rightarrow> bool" where
  "ftab_ok T x y s \<longleftrightarrow> finite T \<and>
     (\<forall>t\<in>T. length (fd_array (files s t)) = FILES_STRUCT_NENTRY \<and>
            (\<forall>i<FILES_STRUCT_NENTRY. entry_ok i (file_at t i s))) \<and>
     (\<forall>n. 0 \<le> x n \<and> x n \<le> y n \<and> open_count (inodes s n) = holders T (files s) n + x n \<and>
          ref_count (inodes s n) = holders T (files s) n + y n)"

definition refs_below :: "int \<Rightarrow> 'a fstate_scheme \<Rightarrow> bool" where
  "refs_below k s \<longleftrightarrow> (\<forall>n. ref_count (inodes s n) + k < MAX_INODE_COUNT)"

lemma refs_below_mono:
  assumes "refs_below k s" "j \<le> k"
  shows "refs_below j s"
  unfolding refs_below_def
proof
  fix n
  have "ref_count (inodes s n) + k < MAX_INODE_COUNT" using assms(1) by (simp add: refs_below_def)
  then show "ref_count (inodes s n) + j < MAX_INODE_COUNT" using assms(2) by linarith
qed

text \<open>A device, whose inode cannot be reclaimed, keeps a reference of its own.\<close>

definition devs_kept :: "(nat \<Rightarrow> int) \<Rightarrow> 'a fstate_scheme \<Rightarrow> bool" where
  "devs_kept y s \<longleftrightarrow> (\<forall>n. \<not> has_op Vreclaim n s \<longrightarrow> 0 < y n)"

lemma ftab_ok_quiet: "quiet s s' \<Longrightarrow> ftab_ok T x y s' = ftab_ok T x y s"
  by (simp add: ftab_ok_def quiet_def file_at_def)

lemma inode_check_ok:
  "ref_count (inodes s n) \<ge> open_count (inodes s n) \<Longrightarrow> open_count (inodes s n) \<ge> 0 \<Longrightarrow> ref_count (inodes s n) < MAX_INODE_COUNT \<Longrightarrow>
   vop vs f n s = (if has_op vs n s then f s else None)"
  by (simp add: vop_def inode_check_def kassert_def)

lemma ftab_vop:
  assumes "ftab_ok T x y s" "refs_below 0 s"
  shows "vop vs f n s = (if has_op vs n s then f s else None)"
proof (rule inode_check_ok)
  show "open_count (inodes s n) \<le> ref_count (inodes s n)" "0 \<le> open_count (inodes s n)"
    using assms(1) holders_nonneg[of T "files s" n] by (auto simp: ftab_ok_def)
  show "ref_count (inodes s n) < MAX_INODE_COUNT" using assms(2) by (simp add: refs_below_def)
qed

lemma inode_ref_dec_ok:
  assumes V: "vops_ok V" and c: "0 \<le> open_count (inodes s n)" "open_count (inodes s n) < ref_count (inodes s n)"
    "ref_count (inodes s n) < MAX_INODE_COUNT" "ref_count (inodes s n) = 1 \<Longrightarrow> has_op Vreclaim n s"
  shows "\<exists>s'. inode_ref_dec V n s = Some s' \<and> files s' = files s \<and> current_filesp s' = current_filesp s \<and>
    inodes s' = (inodes s)(n := (inodes s n)\<lparr>ref_count := ref_count (inodes s n) - 1\<rparr>)"
proof -
  define s1 where "s1 = upd_inode n (\<lambda>i. i\<lparr>ref_count := ref_count i - 1\<rparr>) s"
  have v1: "vop Vreclaim f n s1 = (if has_op Vreclaim n s1 then f s1 else None)" for f :: "'a fstate_scheme \<Rightarrow> (int \<times> 'a fstate_scheme) option"
    by (rule inode_check_ok) (use c in \<open>auto simp: s1_def\<close>)
  have h: "ref_count (inodes s1 n) = 0 \<Longrightarrow> has_op Vreclaim n s1" using c(4) by (simp add: s1_def)
  show ?thesis
  proof (cases "ref_count (inodes s1 n) = 0")
    case True
    obtain r s2 where q: "op_reclaim V n s1 = Some (r, s2)" "quiet s1 s2" using vops_okD(3)[OF V h[OF True]] by blast
    then have "inode_ref_dec V n s = Some s2" using c True v1 h by (simp add: inode_ref_dec_def kassert_def s1_def[symmetric])
    then show ?thesis using q(2) by (simp add: quiet_def s1_def)
  next
    case False
    then show ?thesis using c by (simp add: inode_ref_dec_def kassert_def s1_def[symmetric]) (simp add: s1_def)
  qed
qed

lemma inode_open_dec_ok:
  assumes V: "vops_ok V" and c: "0 < open_count (inodes s n)" "open_count (inodes s n) \<le> ref_count (inodes s n)"
    "ref_count (inodes s n) < MAX_INODE_COUNT"
  shows "\<exists>s'. inode_open_dec V n s = Some s' \<and> files s' = files s \<and> current_filesp s' = current_filesp s \<and>
    inodes s' = (inodes s)(n := (inodes s n)\<lparr>open_count := open_count (inodes s n) - 1\<rparr>)"
proof -
  define s1 where "s1 = upd_inode n (\<lambda>i. i\<lparr>open_count := open_count i - 1\<rparr>) s"
  have v1: "vop Vclose f n s1 = f s1" for f :: "'a fstate_scheme \<Rightarrow> (int \<times> 'a fstate_scheme) option"
    using inode_check_ok[of s1 n Vclose f] c by (auto simp: s1_def)
  obtain r s2 where q: "op_close V n s1 = Some (r, s2)" "quiet s1 s2" using vops_okD(2)[OF V] by blast
  show ?thesis
    using c q v1 by (cases "open_count (inodes s1 n) = 0")
      (auto simp: inode_open_dec_def kassert_def s1_def[symmetric] quiet_def, simp_all add: s1_def)
qed

lemma vfs_close_ok:
  assumes V: "vops_ok V" and c: "0 < open_count (inodes s n)" "open_count (inodes s n) \<le> ref_count (inodes s n)"
    "ref_count (inodes s n) < MAX_INODE_COUNT" and rc: "ref_count (inodes s n) = 1 \<Longrightarrow> has_op Vreclaim n s"
  shows "\<exists>s'. vfs_close V n s = Some s' \<and> files s' = files s \<and> current_filesp s' = current_filesp s \<and>
    inodes s' = (inodes s)(n := (inodes s n)\<lparr>ref_count := ref_count (inodes s n) - 1, open_count := open_count (inodes s n) - 1\<rparr>)"
proof -
  obtain s1 where s1: "inode_open_dec V n s = Some s1" "files s1 = files s" "current_filesp s1 = current_filesp s"
    "inodes s1 = (inodes s)(n := (inodes s n)\<lparr>open_count := open_count (inodes s n) - 1\<rparr>)"
    using inode_open_dec_ok[OF V c] by blast
  obtain s2 where s2: "inode_ref_dec V n s1 = Some s2" "files s2 = files s1" "current_filesp s2 = current_filesp s1"
    "inodes s2 = (inodes s1)(n := (inodes s1 n)\<lparr>ref_count := ref_count (inodes s1 n) - 1\<rparr>)"
    using inode_ref_dec_ok[OF V, of s1 n] s1(4) c rc by auto
  then show ?thesis using s1 by (cases "inodes s n") (simp add: vfs_close_def)
qed

text \<open>The running process has a table.\<close>

definition cur_ok :: "nat set \<Rightarrow> 'a fstate_scheme \<Rightarrow> bool" where
  "cur_ok T s \<longleftrightarrow> (\<exists>t\<in>T. current_filesp s = Some t \<and> 0 < files_count (files s t))"

lemma ftab_entry:
  assumes "ftab_ok T x y s" "t \<in> T" "i < FILES_STRUCT_NENTRY"
  shows "entry_ok i (file_at t i s)" "i < length (fd_array (files s t))"
  using assms by (auto simp: ftab_ok_def)

lemma fd2file_cases:
  assumes "ftab_ok T x y s" "cur_ok T s"
  obtains "fd2file fd s = Some (Inl (- E_INVAL))"
  | t i n where "fd2file fd s = Some (Inr (t, i))" "t \<in> T" "current_filesp s = Some t" "0 < files_count (files s t)"
      "i < FILES_STRUCT_NENTRY" "i = nat fd"
      "f_status (file_at t i s) = FD_OPENED" "f_open_count (file_at t i s) = 1" "f_node (file_at t i s) = Some n" "f_fd (file_at t i s) = fd"
proof -
  obtain t where t: "t \<in> T" "current_filesp s = Some t" "0 < files_count (files s t)" using assms(2) by (auto simp: cur_ok_def)
  show ?thesis
  proof (cases "testfd fd \<and> f_status (file_at t (nat fd) s) = FD_OPENED")
    case True
    then have n: "nat fd < FILES_STRUCT_NENTRY" "0 \<le> fd" by (auto simp: testfd_def)
    have e: "entry_ok (nat fd) (file_at t (nat fd) s)" using ftab_entry(1)[OF assms(1) t(1) n(1)] .
    have "fd2file fd s = Some (Inr (t, nat fd))"
      using True e n(2) t by (simp add: fd2file_def get_fd_array_def kassert_def entry_ok_def)
    then show ?thesis using that(2)[of t "nat fd"] t n e True by (auto simp: entry_ok_def)
  next
    case False
    then have "fd2file fd s = Some (Inl (- E_INVAL))" using t by (auto simp: fd2file_def get_fd_array_def kassert_def)
    then show ?thesis by (rule that(1))
  qed
qed

text \<open>A change of the position, and of nothing else.\<close>

definition pos_change :: "'a fstate_scheme \<Rightarrow> 'a fstate_scheme \<Rightarrow> bool" where
  "pos_change s s' \<longleftrightarrow> inodes s' = inodes s \<and> current_filesp s' = current_filesp s \<and>
     (\<exists>t i p. files s' = files (upd_fd t i (\<lambda>f. f\<lparr>f_pos := p\<rparr>) s))"

lemma pos_change_refl: "pos_change s s"
proof -
  have "files s = files (upd_fd t i (\<lambda>f. f\<lparr>f_pos := f_pos (file_at t i s)\<rparr>) s)" for t i
    by (simp add: upd_fd_def upd_files_def file_at_def)
  then show ?thesis unfolding pos_change_def by blast
qed

lemma pos_change_ok:
  assumes "pos_change s s'"
  shows "ftab_ok T x y s \<Longrightarrow> ftab_ok T x y s'" "cur_ok T s \<Longrightarrow> cur_ok T s'" "refs_below k s' = refs_below k s"
proof -
  obtain t i p where f: "files s' = files (upd_fd t i (\<lambda>f. f\<lparr>f_pos := p\<rparr>) s)" and
    r: "inodes s' = inodes s" "current_filesp s' = current_filesp s" using assms by (auto simp: pos_change_def)
  show "refs_below k s' = refs_below k s" by (simp add: refs_below_def r)
  show "cur_ok T s \<Longrightarrow> cur_ok T s'" unfolding cur_ok_def f r by simp
  assume ok: "ftab_ok T x y s"
  let ?s = "upd_fd t i (\<lambda>f. f\<lparr>f_pos := p\<rparr>) s"
  have at: "file_at t' j s' = (if t' = t \<and> j = i \<and> i < length (fd_array (files s t)) then (file_at t i s)\<lparr>f_pos := p\<rparr> else file_at t' j s)" for t' j
    unfolding file_at_def f by (cases "i < length (fd_array (files s t))") (auto simp: upd_file_files file_at_def nth_list_update not_less list_update_beyond)
  have ent: "entry_ok j (file_at t' j s')" if "entry_ok j (file_at t' j s)" for t' j
    using that by (auto simp: at entry_ok_def)
  have "held n (fd_array (files s' t')) = held n (fd_array (files s t'))" for n t'
  proof -
    have "holds n (f\<lparr>f_pos := p\<rparr>) = holds n f" for f by (simp add: holds_def)
    then show ?thesis using held_update[of i "fd_array (files s t)" n]
      by (cases "i < length (fd_array (files s t))") (auto simp: f upd_file_files file_at_def not_less list_update_beyond)
  qed
  then have "holders T (files s') n = holders T (files s) n" for n by (simp add: holders_def)
  moreover have "length (fd_array (files s' t')) = length (fd_array (files s t'))" for t' by (simp add: f)
  ultimately show "ftab_ok T x y s'" using ok ent by (simp add: ftab_ok_def r)
qed

text \<open>
  The bracket of \<^verbatim>\<open>fd_array_acquire\<close> and \<^verbatim>\<open>fd_array_release\<close> around a call that leaves the
  tables alone, but for the position.
\<close>

lemma bracket_ok:
  assumes e: "i < length (fd_array (files s t))" "f_status (file_at t i s) = FD_OPENED" "f_open_count (file_at t i s) = 1"
    and s1: "fd_array_acquire t i s = Some s1"
    and s2: "files s2 = files s1 \<or> files s2 = files (upd_fd t i (\<lambda>f. f\<lparr>f_pos := p\<rparr>) s1)" "inodes s2 = inodes s"
      "current_filesp s2 = current_filesp s"
  shows "\<exists>s'. fd_array_release V t i s2 = Some s' \<and> pos_change s s'"
proof -
  have s1': "s1 = upd_fd t i (\<lambda>f. f\<lparr>f_open_count := f_open_count f + 1\<rparr>) s"
    using s1 e(2) by (simp add: fd_array_acquire_def kassert_def)
  obtain q where q: "files s2 = files (upd_fd t i (\<lambda>f. f\<lparr>f_pos := q\<rparr>) s1)"
  proof (cases "files s2 = files s1")
    case True
    then have "files s2 = files (upd_fd t i (\<lambda>f. f\<lparr>f_pos := f_pos (file_at t i s1)\<rparr>) s1)"
      by (simp add: upd_fd_def upd_files_def file_at_def)
    then show ?thesis by (rule that)
  qed (use s2(1) that in blast)
  have at2: "file_at t i s2 = (file_at t i s)\<lparr>f_open_count := 2, f_pos := q\<rparr>"
    unfolding file_at_def q using e by (simp add: upd_file_files s1' file_at_def)
  have len: "i < length (fd_array (files s2 t))" using e(1) by (simp add: q s1')
  let ?s' = "upd_fd t i (\<lambda>f. f\<lparr>f_open_count := f_open_count f - 1\<rparr>) s2"
  have "fd_array_release V t i s2 = Some ?s'"
    using at2 e len by (simp add: fd_array_release_def kassert_def Let_def)
  moreover have "files ?s' = files (upd_fd t i (\<lambda>f. f\<lparr>f_pos := q\<rparr>) s)"
  proof -
    have eq: "(fd_array (files s t) ! i)\<lparr>f_pos := q, f_open_count := 1\<rparr> = (fd_array (files s t) ! i)\<lparr>f_pos := q\<rparr>"
      using e(3) by (cases "fd_array (files s t) ! i") (simp add: file_at_def)
    show ?thesis using e(1,3) q
      by (simp add: upd_fd_def upd_files_def s1' file_at_def fun_eq_iff) (simp only: eq)
  qed
  ultimately show ?thesis using s2(2,3) by (auto simp: pos_change_def)
qed

subsection \<open>Operations on an open file\<close>

text \<open>An open file is acquired: what follows works on \<open>s1\<close>.\<close>

lemma acquire_ok:
  assumes ok: "ftab_ok T x y s" and t: "t \<in> T" "i < FILES_STRUCT_NENTRY"
    and f: "f_status (file_at t i s) = FD_OPENED" "f_node (file_at t i s) = Some n"
  shows "\<exists>s1. fd_array_acquire t i s = Some s1 \<and> f_node (file_at t i s1) = Some n \<and> inodes s1 = inodes s \<and>
    current_filesp s1 = current_filesp s \<and> f_pos (file_at t i s1) = f_pos (file_at t i s)"
  using f ftab_entry(2)[OF ok t] by (auto simp: fd_array_acquire_def kassert_def)

lemma inodes_vop:
  assumes ok: "ftab_ok T x y s" "refs_below 0 s" and s': "inodes s' = inodes s"
  shows "vop vs g n s' = (if has_op vs n s then g s' else None)"
proof -
  have "open_count (inodes s n) \<le> ref_count (inodes s n)" "0 \<le> open_count (inodes s n)" "ref_count (inodes s n) < MAX_INODE_COUNT"
    using ok holders_nonneg[of T "files s" n] by (auto simp: ftab_ok_def refs_below_def)
  then show ?thesis using inode_check_ok[of s' n vs g] s' by simp
qed

text \<open>
  The descriptor is open and allowed, and the call of the operation stops the kernel: the table of
  the inode lacks it, or it stops by itself when it is called with the inode, the entry and the state.
\<close>

definition fd_stops ::
  "vop_sym \<Rightarrow> (nat \<Rightarrow> file_entry \<Rightarrow> 'a fstate_scheme \<Rightarrow> bool) \<Rightarrow> (file_entry \<Rightarrow> bool) \<Rightarrow> int \<Rightarrow> 'a fstate_scheme \<Rightarrow> bool" where
  "fd_stops vs stops allowed fd s \<longleftrightarrow>
     (case fd2file fd s of
        Some (Inr (t, i)) \<Rightarrow> allowed (file_at t i s) \<and>
          (case do { s1 \<leftarrow> fd_array_acquire t i s; n \<leftarrow> f_node (file_at t i s1); Some (n, s1) } of
             Some (n, s1) \<Rightarrow> \<not> has_op vs n s1 \<or> stops n (file_at t i s1) s1
           | None \<Rightarrow> False)
      | _ \<Rightarrow> False)"

abbreviation io_stops where
  "io_stops f mem len \<equiv> \<lambda>n e s1. f n (iobuf_init mem 0 len (f_pos e)) s1 = None"

lemma file_io_ok:
  assumes ok: "ftab_ok T x y s" "cur_ok T s" "refs_below 0 s"
    and f: "\<And>n b s r b' s'. has_op vs n s \<Longrightarrow> f n b s = Some (r, b', s') \<Longrightarrow> quiet s s'"
  shows "if fd_stops vs (io_stops f mem len) al fd s then file_io V al vs f fd mem len s = None
    else \<exists>r c mem' s'. file_io V al vs f fd mem len s = Some (r, c, mem', s') \<and> pos_change s s'"
proof (rule fd2file_cases[OF ok(1,2), of fd])
  assume "fd2file fd s = Some (Inl (- E_INVAL))"
  then show ?thesis by (simp add: file_io_def fd_stops_def pos_change_refl)
next
  fix t i n
  assume r: "fd2file fd s = Some (Inr (t, i))" "t \<in> T" "i < FILES_STRUCT_NENTRY"
    "f_status (file_at t i s) = FD_OPENED" "f_open_count (file_at t i s) = 1" "f_node (file_at t i s) = Some n"
  show ?thesis
  proof (cases "al (file_at t i s)")
    case False
    then show ?thesis using r(1) by (simp add: file_io_def fd_stops_def pos_change_refl)
  next
    case True
    obtain s1 where s1: "fd_array_acquire t i s = Some s1" "f_node (file_at t i s1) = Some n" "inodes s1 = inodes s"
      "current_filesp s1 = current_filesp s"
      using acquire_ok[OF ok(1) r(2-4,6)] by blast
    note v1 = inodes_vop[OF ok(1,3) s1(3)]
    let ?b = "iobuf_init mem 0 len (f_pos (file_at t i s1))"
    show ?thesis
    proof (cases "has_op vs n s \<and> f n ?b s1 \<noteq> None")
      case False
      then show ?thesis using r(1,6) True s1 by (auto simp: file_io_def fd_stops_def v1)
    next
      case has: True
      then obtain ret iob s2 where s2: "f n ?b s1 = Some (ret, iob, s2)" "quiet s1 s2"
        using f[where n = n and s = s1 and b = ?b] s1(3) by force
      let ?s3 = "if f_status (file_at t i s2) = FD_OPENED
          then upd_fd t i (\<lambda>x. x\<lparr>f_pos := f_pos x + int (iobuf_used iob)\<rparr>) s2 else s2"
      have "files ?s3 = files s1 \<or> files ?s3 = files (upd_fd t i (\<lambda>f. f\<lparr>f_pos := f_pos (file_at t i s1) + int (iobuf_used iob)\<rparr>) s1)"
        using s2(2) by (simp add: quiet_def upd_fd_def upd_files_def file_at_def)
      moreover have "inodes ?s3 = inodes s" "current_filesp ?s3 = current_filesp s" using s2(2) s1(3,4) by (simp_all add: quiet_def)
      ultimately obtain s' where "fd_array_release V t i ?s3 = Some s'" "pos_change s s'"
        using bracket_ok[OF ftab_entry(2)[OF ok(1) r(2,3)] r(4,5) s1(1), of ?s3] by blast
      then show ?thesis using r(1,6) True s1 s2(1) has by (simp add: file_io_def fd_stops_def v1)
    qed
  qed
qed

lemma file_read_ok:
  assumes "ftab_ok T x y s" "cur_ok T s" "refs_below 0 s" "vops_ok V"
  shows "if fd_stops Vread (io_stops (op_read V) mem len) f_readable fd s then file_read V fd mem len s = None
    else \<exists>r c mem' s'. file_read V fd mem len s = Some (r, c, mem', s') \<and> pos_change s s'"
  unfolding file_read_def by (rule file_io_ok[OF assms(1-3) vops_okD(4)[OF assms(4)]])

lemma file_write_ok:
  assumes "ftab_ok T x y s" "cur_ok T s" "refs_below 0 s" "vops_ok V"
  shows "if fd_stops Vwrite (io_stops (op_write V) mem len) f_writable fd s then file_write V fd mem len s = None
    else \<exists>r c mem' s'. file_write V fd mem len s = Some (r, c, mem', s') \<and> pos_change s s'"
  unfolding file_write_def by (rule file_io_ok[OF assms(1-3) vops_okD(5)[OF assms(4)]])

text \<open>One call between acquiring and releasing; \<open>st\<close> is the state in its result.\<close>

lemma one_call_ok:
  assumes ok: "ftab_ok T x y s" "cur_ok T s" "refs_below 0 s"
    and f: "\<And>n s1 v. has_op vs n s1 \<Longrightarrow> f n s1 = Some v \<Longrightarrow> quiet s1 (st v)"
  obtains "fd2file fd s = Some (Inl (- E_INVAL))" "\<not> fd_stops vs (\<lambda>n e s1. f n s1 = None) (\<lambda>_. True) fd s"
  | t i n s1 where "fd2file fd s = Some (Inr (t, i))" "fd_array_acquire t i s = Some s1" "f_node (file_at t i s1) = Some n"
      "vop vs (f n) n s1 = None" "fd_stops vs (\<lambda>n e s1. f n s1 = None) (\<lambda>_. True) fd s"
  | t i n s1 v s' where "fd2file fd s = Some (Inr (t, i))" "fd_array_acquire t i s = Some s1" "f_node (file_at t i s1) = Some n"
      "vop vs (f n) n s1 = Some v" "fd_array_release V t i (st v) = Some s'" "pos_change s s'" "\<not> fd_stops vs (\<lambda>n e s1. f n s1 = None) (\<lambda>_. True) fd s"
proof (rule fd2file_cases[OF ok(1,2), of fd])
  assume "fd2file fd s = Some (Inl (- E_INVAL))"
  then show ?thesis using that(1) by (simp add: fd_stops_def)
next
  fix t i n
  assume r: "fd2file fd s = Some (Inr (t, i))" "t \<in> T" "i < FILES_STRUCT_NENTRY"
    "f_status (file_at t i s) = FD_OPENED" "f_open_count (file_at t i s) = 1" "f_node (file_at t i s) = Some n"
  obtain s1 where s1: "fd_array_acquire t i s = Some s1" "f_node (file_at t i s1) = Some n" "inodes s1 = inodes s"
    "current_filesp s1 = current_filesp s" "vop vs (f n) n s1 = (if has_op vs n s then f n s1 else None)"
    using acquire_ok[OF ok(1) r(2-4,6)] inodes_vop[OF ok(1,3)] by blast
  show ?thesis
  proof (cases "has_op vs n s \<and> f n s1 \<noteq> None")
    case False
    then show ?thesis using that(2)[OF r(1) s1(1,2)] s1(1,2,3,5) r(1,6) by (auto simp: fd_stops_def)
  next
    case True
    then obtain v where v: "f n s1 = Some v" "quiet s1 (st v)" using f[where n = n and ?s1.0 = s1] s1(3) by auto
    have "\<exists>s'. fd_array_release V t i (st v) = Some s' \<and> pos_change s s'"
      by (rule bracket_ok[OF ftab_entry(2)[OF ok(1) r(2,3)] r(4,5) s1(1)]) (use s1 v(2) in \<open>auto simp: quiet_def\<close>)
    then show ?thesis using that(3)[OF r(1) s1(1,2)] s1(1,2,3,5) v(1) True r(1,6) by (auto simp: fd_stops_def)
  qed
qed

lemma file_fstat_ok:
  assumes "ftab_ok T x y s" "cur_ok T s" "refs_below 0 s" "vops_ok V"
  shows "\<exists>r st s'. file_fstat V fd s = Some (r, st, s') \<and> pos_change s s'"
proof -
  have never: "\<not> fd_stops Vfstat (\<lambda>n e s1. op_fstat V n s1 = None) a fd s" for a
    using vops_okD(7)[OF assms(4)] by (fastforce simp: fd_stops_def split: option.splits sum.splits)
  have f: "quiet s1 ((\<lambda>(r, st, s'). s') v)" if "op_fstat V n s1 = Some v" for n s1 v using vops_okD(7)[OF assms(4), of n s1] that by auto
  show ?thesis
  proof (rule one_call_ok[where vs = Vfstat and f = "op_fstat V" and st = "\<lambda>(r, st, s'). s'" and fd = fd and V = V, OF assms(1-3) f])
    fix t i n s1 s' and v :: "int \<times> stat \<times> 'a fstate_scheme"
    assume "fd2file fd s = Some (Inr (t, i))" "fd_array_acquire t i s = Some s1" "f_node (file_at t i s1) = Some n"
      "vop Vfstat (op_fstat V n) n s1 = Some v" "fd_array_release V t i ((\<lambda>(r, st, s'). s') v) = Some s'" "pos_change s s'"
    then show ?thesis by (cases v) (simp add: file_fstat_def)
  qed (use never in \<open>auto simp: file_fstat_def pos_change_refl\<close>)
qed

lemma file_fsync_ok:
  assumes "ftab_ok T x y s" "cur_ok T s" "refs_below 0 s" "vops_ok V"
  shows "if fd_stops Vfsync (\<lambda>n e s1. op_fsync V n s1 = None) (\<lambda>_. True) fd s then file_fsync V fd s = None
    else \<exists>r s'. file_fsync V fd s = Some (r, s') \<and> pos_change s s'"
proof (rule one_call_ok[where vs = Vfsync and f = "op_fsync V" and st = snd and fd = fd and V = V, OF assms(1-3)])
  show "has_op Vfsync n s1 \<Longrightarrow> op_fsync V n s1 = Some v \<Longrightarrow> quiet s1 (snd v)" for n s1 v
    using vops_okD(8)[OF assms(4)] by (cases v) auto
  fix t i n s1 s' and v :: "int \<times> 'a fstate_scheme"
  assume "fd2file fd s = Some (Inr (t, i))" "fd_array_acquire t i s = Some s1" "f_node (file_at t i s1) = Some n"
    "vop Vfsync (op_fsync V n) n s1 = Some v" "fd_array_release V t i (snd v) = Some s'" "pos_change s s'" "\<not> fd_stops Vfsync (\<lambda>n e s1. op_fsync V n s1 = None) (\<lambda>_. True) fd s"
  then show ?thesis by (cases v) (simp add: file_fsync_def)
qed (simp_all add: file_fsync_def pos_change_refl)

abbreviation dirent_stops where
  "dirent_stops V d \<equiv> \<lambda>n (e :: file_entry) s1. op_getdirentry V n (iobuf_init (de_name d) 0 (length (de_name d)) (de_offset d)) s1 = None"

lemma file_getdirentry_ok:
  assumes "ftab_ok T x y s" "cur_ok T s" "refs_below 0 s" "vops_ok V"
  shows "if fd_stops Vgetdirentry (dirent_stops V d) (\<lambda>_. True) fd s then file_getdirentry V fd d s = None
    else \<exists>r d' s'. file_getdirentry V fd d s = Some (r, d', s') \<and> pos_change s s'"
proof (rule one_call_ok[where vs = Vgetdirentry and f = "\<lambda>n. op_getdirentry V n (iobuf_init (de_name d) 0 (length (de_name d)) (de_offset d))"
      and st = "\<lambda>(r, b, s'). s'" and fd = fd and V = V, OF assms(1-3)])
  show "has_op Vgetdirentry n s1 \<Longrightarrow> op_getdirentry V n (iobuf_init (de_name d) 0 (length (de_name d)) (de_offset d)) s1 = Some v \<Longrightarrow>
      quiet s1 ((\<lambda>(r, b, s'). s') v)" for n s1 v
    using vops_okD(6)[OF assms(4)] by (cases v) auto
  fix t i n s1 s' and v :: "int \<times> iobuf \<times> 'a fstate_scheme"
  assume "fd2file fd s = Some (Inr (t, i))" "fd_array_acquire t i s = Some s1" "f_node (file_at t i s1) = Some n"
    "vop Vgetdirentry (op_getdirentry V n (iobuf_init (de_name d) 0 (length (de_name d)) (de_offset d))) n s1 = Some v"
    "fd_array_release V t i ((\<lambda>(r, b, s'). s') v) = Some s'" "pos_change s s'" "\<not> fd_stops Vgetdirentry (dirent_stops V d) (\<lambda>_. True) fd s"
  then show ?thesis by (cases v) (simp add: file_getdirentry_def Let_def)
qed (simp_all add: file_getdirentry_def pos_change_refl)

text \<open>
  The inode, the position and the state with which the new position is tried. It is not tried when
  \<^verbatim>\<open>whence\<close> is wrong or the size cannot be found.
\<close>

definition seek_target :: "'a fstate_scheme inode_ops \<Rightarrow> int \<Rightarrow> int \<Rightarrow> int \<Rightarrow> 'a fstate_scheme \<Rightarrow> (nat \<times> int \<times> 'a fstate_scheme) option" where
  "seek_target V fd pos whence s =
     (case fd2file fd s of
        Some (Inr (t, i)) \<Rightarrow>
          do { s1 \<leftarrow> fd_array_acquire t i s;
               n \<leftarrow> f_node (file_at t i s1);
               if whence = LSEEK_SET then Some (n, pos, s1)
               else if whence = LSEEK_CUR then Some (n, pos + f_pos (file_at t i s1), s1)
               else if whence = LSEEK_END
               then do { (r, st, s2) \<leftarrow> op_fstat V n s1; if r = 0 then Some (n, pos + int (st_size st), s2) else None }
               else None }
      | _ \<Rightarrow> None)"

definition seek_stops :: "'a fstate_scheme inode_ops \<Rightarrow> int \<Rightarrow> int \<Rightarrow> int \<Rightarrow> 'a fstate_scheme \<Rightarrow> bool" where
  "seek_stops V fd pos whence s \<longleftrightarrow>
     (case seek_target V fd pos whence s of
        Some (n, p, s2) \<Rightarrow> \<not> has_op Vtryseek n s2 \<or> op_tryseek V n p s2 = None
      | None \<Rightarrow> False)"

lemma file_seek_ok:
  assumes ok: "ftab_ok T x y s" "cur_ok T s" "refs_below 0 s" and V: "vops_ok V"
  shows "if seek_stops V fd pos whence s then file_seek V fd pos whence s = None
    else \<exists>r s'. file_seek V fd pos whence s = Some (r, s') \<and> pos_change s s'"
proof (rule fd2file_cases[OF ok(1,2), of fd])
  fix t i n
  assume r: "fd2file fd s = Some (Inr (t, i))" "t \<in> T" "i < FILES_STRUCT_NENTRY"
    "f_status (file_at t i s) = FD_OPENED" "f_open_count (file_at t i s) = 1" "f_node (file_at t i s) = Some n"
  obtain s1 where s1: "fd_array_acquire t i s = Some s1" "f_node (file_at t i s1) = Some n" "inodes s1 = inodes s"
    "current_filesp s1 = current_filesp s"
    using acquire_ok[OF ok(1) r(2-4,6)] by blast
  have v2: "vop Vfstat (op_fstat V n) n s1 = op_fstat V n s1" by (simp add: inodes_vop[OF ok(1,3) s1(3)])
  obtain fr st sf where f: "op_fstat V n s1 = Some (fr, st, sf)" "quiet s1 sf" using vops_okD(7)[OF V] by blast
  let ?q = "if whence = LSEEK_SET then (0, pos, s1) else if whence = LSEEK_CUR then (0, pos + f_pos (file_at t i s1), s1)
    else if whence = LSEEK_END then (fr, if fr = 0 then pos + int (st_size st) else pos, sf) else (- E_INVAL, pos, s1)"
  obtain ret p s2 where q: "?q = (ret, p, s2)" by (cases ?q) auto
  have q2: "quiet s1 s2" using q f(2) by (auto simp: quiet_def split: if_splits)
  have stops: "seek_stops V fd pos whence s \<longleftrightarrow> ret = 0 \<and> (\<not> has_op Vtryseek n s \<or> op_tryseek V n p s2 = None)"
  proof -
    have "inodes s2 = inodes s" using q2 s1(3) by (simp add: quiet_def)
    moreover have "seek_target V fd pos whence s = (if ret = 0 then Some (n, p, s2) else None)"
      using q r(1) s1(1,2) f(1) by (auto simp: seek_target_def E_INVAL_def split: if_splits)
    ultimately show ?thesis by (simp add: seek_stops_def)
  qed
  have v3: "vop Vtryseek (op_tryseek V n p) n s2 = (if has_op Vtryseek n s then op_tryseek V n p s2 else None)"
    by (rule inodes_vop[OF ok(1,3)]) (use s1(3) q2 in \<open>simp add: quiet_def\<close>)
  have mid: "(if whence = LSEEK_SET then Some (0, pos, s1) else if whence = LSEEK_CUR then Some (0, pos + f_pos (file_at t i s1), s1)
      else if whence = LSEEK_END
      then do { (ret, st, s2) \<leftarrow> vop Vfstat (op_fstat V n) n s1; Some (ret, if ret = 0 then pos + int (st_size st) else pos, s2) }
      else Some (- E_INVAL, pos, s1)) = Some (ret, p, s2)"
    using q v2 f(1) by (auto split: if_splits)
  have run: "file_seek V fd pos whence s = (if ret = 0
      then do { (tr, s3) \<leftarrow> vop Vtryseek (op_tryseek V n p) n s2;
                s' \<leftarrow> fd_array_release V t i (if tr = 0 then upd_fd t i (\<lambda>f. f\<lparr>f_pos := p\<rparr>) s3 else s3); Some (tr, s') }
      else do { s' \<leftarrow> fd_array_release V t i s2; Some (ret, s') })"
    using r(1) s1(1,2) mid by (cases "vop Vtryseek (op_tryseek V n p) n s2") (auto simp: file_seek_def)
  show ?thesis
  proof (cases "seek_stops V fd pos whence s")
    case True
    then show ?thesis using run v3 stops by auto
  next
    case False
    have "\<exists>tr s3. (ret = 0 \<longrightarrow> op_tryseek V n p s2 = Some (tr, s3)) \<and> quiet s2 s3"
    proof (cases "ret = 0")
      case True
      then obtain v where "op_tryseek V n p s2 = Some v" "has_op Vtryseek n s2" using False stops s1(3) q2 by (auto simp: quiet_def)
      then show ?thesis using vops_okD(9)[OF V, of s2 n p "fst v" "snd v"] by (intro exI[of _ "fst v"] exI[of _ "snd v"]) simp
    qed (auto simp: quiet_def)
    then obtain tr s3 where k: "ret = 0 \<Longrightarrow> op_tryseek V n p s2 = Some (tr, s3)" "quiet s2 s3" by blast
    let ?s3 = "if ret = 0 then if tr = 0 then upd_fd t i (\<lambda>f. f\<lparr>f_pos := p\<rparr>) s3 else s3 else s2"
    have "\<exists>s'. fd_array_release V t i ?s3 = Some s' \<and> pos_change s s'"
      by (rule bracket_ok[OF ftab_entry(2)[OF ok(1) r(2,3)] r(4,5) s1(1)])
        (use s1(3,4) q2 k(2) in \<open>auto simp: quiet_def upd_fd_def upd_files_def\<close>)
    moreover have "file_seek V fd pos whence s = do { s' \<leftarrow> fd_array_release V t i ?s3; Some (if ret = 0 then tr else ret, s') }"
      using run v3 False stops k(1) by (cases "ret = 0") auto
    ultimately show ?thesis using False by auto
  qed
qed (simp add: file_seek_def seek_stops_def seek_target_def pos_change_refl)

subsection \<open>Closing, allocating and duplicating\<close>

text \<open>One entry changes, and the counts of the inodes with it.\<close>

lemma ftab_ok_upd:
  assumes ok: "ftab_ok T x y s" and t: "t \<in> T" "i < FILES_STRUCT_NENTRY" and f: "files s' = files (upd_fd t i g s)"
    and e: "entry_ok i (g (file_at t i s))" and y: "\<And>m. y m \<le> y' m"
    and o: "\<And>m. open_count (inodes s' m) = open_count (inodes s m) - of_bool (holds m (file_at t i s)) + of_bool (holds m (g (file_at t i s)))"
    and r: "\<And>m. ref_count (inodes s' m) = ref_count (inodes s m) - of_bool (holds m (file_at t i s)) + of_bool (holds m (g (file_at t i s)))
      + (y' m - y m)"
  shows "ftab_ok T x y' s'"
proof -
  have len: "i < length (fd_array (files s t))" using ftab_entry(2)[OF ok t] .
  have at: "file_at t' j s' = (if (t', j) = (t, i) then g (file_at t i s) else file_at t' j s)" for t' j
    unfolding file_at_def f using len by (auto simp: upd_file_files file_at_def nth_list_update)
  have "holders T (files s') m = holders T (files s) m - of_bool (holds m (file_at t i s)) + of_bool (holds m (g (file_at t i s)))" for m
    unfolding f by (rule holders_update[OF _ t(1) len]) (use ok in \<open>simp add: ftab_ok_def\<close>)
  moreover have "length (fd_array (files s' t')) = length (fd_array (files s t'))" for t' by (simp add: f)
  ultimately show ?thesis using ok e o r at y by (auto simp: ftab_ok_def intro: order_trans)
qed

lemma fd_array_close_ok:
  assumes ok: "ftab_ok T x y s" "refs_below 0 s" "devs_kept y s" and V: "vops_ok V" and t: "t \<in> T" "i < FILES_STRUCT_NENTRY"
    and f: "f_status (file_at t i s) = FD_OPENED" "f_node (file_at t i s) = Some n"
  shows "\<exists>s'. fd_array_close V t i s = Some s' \<and> ftab_ok T x y s' \<and>
    files s' = files (upd_fd t i (\<lambda>f. f\<lparr>f_open_count := 0, f_status := FD_NONE\<rparr>) s) \<and>
    current_filesp s' = current_filesp s \<and>
    inodes s' = (inodes s)(n := (inodes s n)\<lparr>ref_count := ref_count (inodes s n) - 1, open_count := open_count (inodes s n) - 1\<rparr>)"
proof -
  have len: "i < length (fd_array (files s t))" using ftab_entry(2)[OF ok(1) t] .
  have e: "f_open_count (file_at t i s) = 1" "f_fd (file_at t i s) = int i"
    using ftab_entry(1)[OF ok(1) t] f by (auto simp: entry_ok_def)
  define s1 where "s1 = upd_fd t i (\<lambda>f. f\<lparr>f_status := FD_CLOSED, f_open_count := f_open_count f - 1\<rparr>) s"
  have at1: "file_at t i s1 = (file_at t i s)\<lparr>f_status := FD_CLOSED, f_open_count := 0\<rparr>" using len e by (simp add: s1_def)
  have "0 < holders T (files s) n"
    by (rule holders_pos[of T t i]) (use ok(1) t len f in \<open>auto simp: ftab_ok_def holds_def file_at_def\<close>)
  then have c: "0 < open_count (inodes s1 n)" "open_count (inodes s1 n) \<le> ref_count (inodes s1 n)" "ref_count (inodes s1 n) < MAX_INODE_COUNT"
    "ref_count (inodes s1 n) = 1 \<Longrightarrow> has_op Vreclaim n s1"
    using ok by (auto simp: ftab_ok_def refs_below_def devs_kept_def s1_def add_pos_nonneg)
  obtain s2 where s2: "vfs_close V n s1 = Some s2" "files s2 = files s1" "current_filesp s2 = current_filesp s1"
    "inodes s2 = (inodes s1)(n := (inodes s1 n)\<lparr>ref_count := ref_count (inodes s1 n) - 1, open_count := open_count (inodes s1 n) - 1\<rparr>)"
    using vfs_close_ok[OF V c] by blast
  define s' where "s' = upd_fd t i (\<lambda>f. f\<lparr>f_status := FD_NONE\<rparr>) s2"
  have "fd_array_free V t i s1 = Some s'"
    using at1 f s2(1) by (simp add: fd_array_free_def kassert_def s'_def)
  then have run: "fd_array_close V t i s = Some s'"
    using f e at1 by (simp add: fd_array_close_def kassert_def s1_def[symmetric])
  have fs: "files s' = files (upd_fd t i (\<lambda>f. f\<lparr>f_open_count := 0, f_status := FD_NONE\<rparr>) s)"
    using len e(1) by (simp add: s'_def s2(2) s1_def upd_fd_def upd_files_def file_at_def fun_eq_iff)
  have ino: "inodes s' = (inodes s)(n := (inodes s n)\<lparr>ref_count := ref_count (inodes s n) - 1, open_count := open_count (inodes s n) - 1\<rparr>)"
    using s2(4) by (simp add: s'_def s1_def)
  have "ftab_ok T x y s'"
    by (rule ftab_ok_upd[OF ok(1) t fs]) (use f e in \<open>auto simp: entry_ok_def holds_def ino\<close>)
  then show ?thesis using run fs ino s2(3) by (simp add: s'_def s1_def)
qed

lemma fd_free_loop_Some:
  "fd_free_loop fs k = Some i \<longleftrightarrow> k \<le> i \<and> i - k < length fs \<and> f_status (fs ! (i - k)) = FD_NONE \<and>
     (\<forall>j<i - k. f_status (fs ! j) \<noteq> FD_NONE)"
proof (induction fs arbitrary: k)
  case (Cons f fs)
  show ?case
  proof (cases "f_status f = FD_NONE")
    case True
    then show ?thesis by (auto simp: nth_Cons split: nat.splits)
  next
    case False
    have "(k \<le> i \<and> i - k < length (f # fs) \<and> f_status ((f # fs) ! (i - k)) = FD_NONE \<and> (\<forall>j<i - k. f_status ((f # fs) ! j) \<noteq> FD_NONE)) \<longleftrightarrow>
      (k + 1 \<le> i \<and> i - (k + 1) < length fs \<and> f_status (fs ! (i - (k + 1))) = FD_NONE \<and> (\<forall>j<i - (k + 1). f_status (fs ! j) \<noteq> FD_NONE))"
    proof (cases "i - k")
      case 0
      then show ?thesis using False by auto
    next
      case (Suc d)
      then have "i - (k + 1) = d" "k + 1 \<le> i" by linarith+
      then show ?thesis using False Suc by (auto simp: nth_Cons less_Suc_eq_0_disj split: nat.splits)
    qed
    then show ?thesis using False Cons.IH[of "k + 1"] by simp
  qed
qed simp

lemma fd_array_alloc_cases:
  assumes ok: "ftab_ok T x y s" "cur_ok T s"
  obtains e where "fd_array_alloc fd s = Some (Inl e, s)" "e < 0"
  | t i where "fd_array_alloc fd s = Some (Inr (t, i), upd_fd t i (\<lambda>f. f\<lparr>f_status := FD_INIT, f_node := None\<rparr>) s)"
      "t \<in> T" "current_filesp s = Some t" "i < FILES_STRUCT_NENTRY"
      "f_status (file_at t i s) = FD_NONE" "f_open_count (file_at t i s) = 0" "f_fd (file_at t i s) = int i"
      "fd = NO_FD \<longrightarrow> (\<forall>j<i. f_status (file_at t j s) \<noteq> FD_NONE)" "fd \<noteq> NO_FD \<longrightarrow> i = nat fd"
proof -
  obtain t where t: "t \<in> T" "current_filesp s = Some t" "0 < files_count (files s t)" using ok(2) by (auto simp: cur_ok_def)
  have len: "length (fd_array (files s t)) = FILES_STRUCT_NENTRY" using ok(1) t(1) by (simp add: ftab_ok_def)
  let ?r = "if fd = NO_FD then
      (case fd_free_loop (take FILES_STRUCT_NENTRY (fd_array (files s t))) 0 of None \<Rightarrow> Inl (- E_MAX_OPEN) | Some i \<Rightarrow> Inr i)
    else if testfd fd then (if f_status (file_at t (nat fd) s) = FD_NONE then Inr (nat fd) else Inl (- E_BUSY))
    else Inl (- E_INVAL)"
  have g: "get_fd_array s = Some t" using t by (simp add: get_fd_array_def kassert_def)
  show ?thesis
  proof (cases ?r)
    case (Inl e)
    have "e < 0" using Inl by (auto simp: E_MAX_OPEN_def E_BUSY_def E_INVAL_def split: if_splits option.splits)
    moreover have "fd_array_alloc fd s = Some (Inl e, s)" unfolding fd_array_alloc_def g using Inl by (simp add: Let_def)
    ultimately show ?thesis by (rule that(1)[rotated])
  next
    case (Inr i)
    have i: "i < FILES_STRUCT_NENTRY" "f_status (file_at t i s) = FD_NONE"
      "fd = NO_FD \<longrightarrow> (\<forall>j<i. f_status (file_at t j s) \<noteq> FD_NONE)" "fd \<noteq> NO_FD \<longrightarrow> i = nat fd"
      using Inr len by (auto simp: fd_free_loop_Some testfd_def file_at_def split: if_splits option.splits)
    have e: "entry_ok i (file_at t i s)" using ftab_entry(1)[OF ok(1) t(1) i(1)] .
    have "fd_array_alloc fd s = Some (Inr (t, i), upd_fd t i (\<lambda>f. f\<lparr>f_status := FD_INIT, f_node := None\<rparr>) s)"
      unfolding fd_array_alloc_def g using Inr e i(2) by (simp add: Let_def kassert_def entry_ok_def)
    then show ?thesis using that(2) t i e by (auto simp: entry_ok_def)
  qed
qed

text \<open>The entry of a duplicate: the other fields are those of the original.\<close>

definition dup_of :: "file_entry \<Rightarrow> file_entry \<Rightarrow> file_entry" where
  "dup_of orig f = f\<lparr>f_status := FD_OPENED, f_readable := f_readable orig, f_writable := f_writable orig,
     f_pos := f_pos orig, f_node := f_node orig, f_open_count := 1\<rparr>"

lemma fd_array_dup_ok:
  assumes i: "i < length (fd_array (files s t))" "f_status (file_at t i s) = FD_INIT" "f_open_count (file_at t i s) = 0"
    and fr: "(t', j) \<noteq> (t, i)" "f_status (file_at t' j s) = FD_OPENED" "f_node (file_at t' j s) = Some n"
  shows "\<exists>s'. fd_array_dup t i t' j s = Some s' \<and> files s' = files (upd_fd t i (dup_of (file_at t' j s)) s) \<and>
    current_filesp s' = current_filesp s \<and>
    inodes s' = (inodes s)(n := (inodes s n)\<lparr>ref_count := ref_count (inodes s n) + 1, open_count := open_count (inodes s n) + 1\<rparr>)"
proof -
  define orig where "orig = file_at t' j s"
  define s1 where "s1 = upd_fd t i (\<lambda>f. f\<lparr>f_pos := f_pos orig, f_readable := f_readable orig, f_writable := f_writable orig\<rparr>) s"
  have n1: "f_node (file_at t' j s1) = Some n" unfolding s1_def using fr(3) fr(1)[symmetric] by (subst file_at_upd(2)) auto
  define s2 where "s2 = upd_fd t i (\<lambda>f. f\<lparr>f_node := Some n\<rparr>) (inode_open_inc n (inode_ref_inc n s1))"
  have fs2: "files s2 = files (upd_fd t i (\<lambda>f. f\<lparr>f_pos := f_pos orig, f_readable := f_readable orig, f_writable := f_writable orig,
      f_node := Some n\<rparr>) s)"
    using i(1) by (simp add: s2_def s1_def inode_open_inc_def inode_ref_inc_def upd_inode_def upd_fd_def upd_files_def fun_eq_iff)
  have at2: "file_at t i s2 = (file_at t i s)\<lparr>f_pos := f_pos orig, f_readable := f_readable orig, f_writable := f_writable orig,
      f_node := Some n\<rparr>" unfolding file_at_def fs2 using i(1) by (simp add: upd_file_files file_at_def)
  let ?s' = "upd_fd t i (\<lambda>f. f\<lparr>f_status := FD_OPENED, f_open_count := f_open_count f + 1\<rparr>) s2"
  have run: "fd_array_dup t i t' j s = Some ?s'"
    using i(2) fr(2) n1 at2
    by (simp add: fd_array_dup_def kassert_def orig_def[symmetric] s1_def[symmetric] s2_def[symmetric] fd_array_open_def)
  have eq: "(file_at t i s2)\<lparr>f_status := FD_OPENED, f_open_count := f_open_count (file_at t i s2) + 1\<rparr> = dup_of orig (file_at t i s)"
    using i(3) fr(3) unfolding at2 by (cases "file_at t i s") (simp add: dup_of_def orig_def)
  have "files ?s' t'' = files (upd_fd t i (dup_of orig) s) t''" for t''
  proof (cases "t'' = t")
    case True
    then show ?thesis using i(1) eq fs2 by (simp add: upd_fd_def upd_files_def file_at_def)
  qed (simp add: fs2 upd_fd_def upd_files_def)
  then have "files ?s' = files (upd_fd t i (dup_of orig) s)" by blast
  moreover have "inodes ?s' = (inodes s)(n := (inodes s n)\<lparr>ref_count := ref_count (inodes s n) + 1, open_count := open_count (inodes s n) + 1\<rparr>)"
    by (cases "inodes s n") (simp add: s2_def s1_def inode_open_inc_def inode_ref_inc_def)
  moreover have "current_filesp ?s' = current_filesp s" by (simp add: s2_def s1_def inode_open_inc_def inode_ref_inc_def)
  ultimately show ?thesis using run by (simp add: orig_def)
qed

lemma file_dup_ok:
  assumes ok: "ftab_ok T x y s" "cur_ok T s"
  obtains e where "file_dup fd1 fd2 s = Some (e, s)" "e < 0"
  | t i j n s' where "file_dup fd1 fd2 s = Some (int i, s')" "ftab_ok T x y s'"
      "current_filesp s = Some t" "current_filesp s' = Some t" "t \<in> T" "i < FILES_STRUCT_NENTRY" "j = nat fd1" "i \<noteq> j"
      "f_status (file_at t i s) = FD_NONE" "f_status (file_at t j s) = FD_OPENED" "f_node (file_at t j s) = Some n"
      "fd2 = NO_FD \<longrightarrow> (\<forall>k<i. f_status (file_at t k s) \<noteq> FD_NONE)" "fd2 \<noteq> NO_FD \<longrightarrow> i = nat fd2"
      "files s' = files (upd_fd t i (dup_of (file_at t j s)) s)"
      "inodes s' = (inodes s)(n := (inodes s n)\<lparr>ref_count := ref_count (inodes s n) + 1, open_count := open_count (inodes s n) + 1\<rparr>)"
proof (rule fd2file_cases[OF ok, of fd1])
  assume "fd2file fd1 s = Some (Inl (- E_INVAL))"
  then have "file_dup fd1 fd2 s = Some (- E_INVAL, s)" by (simp add: file_dup_def)
  then show ?thesis by (rule that(1)) (simp add: E_INVAL_def)
next
  fix t j n
  assume r: "fd2file fd1 s = Some (Inr (t, j))" "t \<in> T" "current_filesp s = Some t" "j < FILES_STRUCT_NENTRY" "j = nat fd1"
    "f_status (file_at t j s) = FD_OPENED" "f_open_count (file_at t j s) = 1" "f_node (file_at t j s) = Some n"
  show ?thesis
  proof (rule fd_array_alloc_cases[OF ok, of fd2])
    fix e assume "fd_array_alloc fd2 s = Some (Inl e, s)" "e < 0"
    then show ?thesis using r(1) by (intro that(1)[of e]) (simp_all add: file_dup_def)
  next
    fix t' i
    let ?s1 = "upd_fd t' i (\<lambda>f. f\<lparr>f_status := FD_INIT, f_node := None\<rparr>) s"
    assume a: "fd_array_alloc fd2 s = Some (Inr (t', i), ?s1)" "current_filesp s = Some t'" "i < FILES_STRUCT_NENTRY"
      "f_status (file_at t' i s) = FD_NONE" "f_open_count (file_at t' i s) = 0" "f_fd (file_at t' i s) = int i"
      "fd2 = NO_FD \<longrightarrow> (\<forall>k<i. f_status (file_at t' k s) \<noteq> FD_NONE)" "fd2 \<noteq> NO_FD \<longrightarrow> i = nat fd2"
    have tt: "t' = t" using a(2) r(3) by simp
    have ne: "(t, j) \<noteq> (t, i)" using a(4) r(6) tt by auto
    have len: "i < length (fd_array (files s t))" using ftab_entry(2)[OF ok(1) r(2) a(3)] .
    have at1: "file_at t j ?s1 = file_at t j s" "file_at t i ?s1 = (file_at t i s)\<lparr>f_status := FD_INIT, f_node := None\<rparr>"
      using ne len tt by auto
    have len1: "i < length (fd_array (files ?s1 t))" using len by simp
    obtain s' where s': "fd_array_dup t i t j ?s1 = Some s'" "files s' = files (upd_fd t i (dup_of (file_at t j ?s1)) ?s1)"
      "current_filesp s' = current_filesp ?s1"
      "inodes s' = (inodes ?s1)(n := (inodes ?s1 n)\<lparr>ref_count := ref_count (inodes ?s1 n) + 1, open_count := open_count (inodes ?s1 n) + 1\<rparr>)"
      using fd_array_dup_ok[OF len1 _ _ ne, of n] at1 a(5) r(6,8) tt by auto
    have d: "dup_of g (f\<lparr>f_status := FD_INIT, f_node := None\<rparr>) = dup_of g f" for f g by (simp add: dup_of_def)
    have fs: "files s' = files (upd_fd t i (dup_of (file_at t j s)) s)"
      using s'(2) len at1(1) d tt by (simp add: upd_fd_def upd_files_def)
    have ino: "inodes s' = (inodes s)(n := (inodes s n)\<lparr>ref_count := ref_count (inodes s n) + 1, open_count := open_count (inodes s n) + 1\<rparr>)"
      using s'(4) by simp
    have ok': "ftab_ok T x y s'"
      by (rule ftab_ok_upd[OF ok(1) r(2) a(3) fs]) (use a(4,6) r(8) ino tt in \<open>auto simp: entry_ok_def holds_def dup_of_def\<close>)
    have "file_at t i s' = dup_of (file_at t j s) (file_at t i s)"
      unfolding file_at_def fs using len by (simp add: upd_file_files file_at_def)
    then have "file_dup fd1 fd2 s = Some (int i, s')"
      using r(1) a(1,6) s'(1) tt by (simp add: file_dup_def dup_of_def)
    then show ?thesis using that(2)[of i s' t j n] ok' r a s'(3) fs ino ne tt by auto
  qed
qed

subsection \<open>Opening\<close>

text \<open>
  Each inode has room for \<open>k\<close> more references, and one that cannot be reclaimed is referenced.
  Opening a path may leave a reference behind that nobody gives back: \<open>l\<close> counts it.
\<close>

definition cnt_ok :: "int \<Rightarrow> 'a fstate_scheme \<Rightarrow> bool" where
  "cnt_ok k s \<longleftrightarrow> (\<forall>n. 0 \<le> open_count (inodes s n) \<and> open_count (inodes s n) \<le> ref_count (inodes s n) \<and>
     ref_count (inodes s n) + k < MAX_INODE_COUNT \<and> (has_op Vreclaim n s \<or> 0 < ref_count (inodes s n)))"

text \<open>Only an inode that was not in memory gets another table.\<close>

definition ops_kept :: "'a fstate_scheme \<Rightarrow> 'a fstate_scheme \<Rightarrow> bool" where
  "ops_kept s s' \<longleftrightarrow> (\<forall>m. in_ops (inodes s' m) = in_ops (inodes s m) \<or> has_op Vreclaim m s')"

lemma ops_kept_same: "inodes s' = inodes s \<Longrightarrow> ops_kept s s'"
  by (simp add: ops_kept_def)

lemma ops_kept_trans: "ops_kept s s' \<Longrightarrow> ops_kept s' s'' \<Longrightarrow> ops_kept s s''"
  unfolding ops_kept_def by metis

definition refs_added :: "(nat \<Rightarrow> int) \<Rightarrow> 'a fstate_scheme \<Rightarrow> 'a fstate_scheme \<Rightarrow> bool" where
  "refs_added l s s' \<longleftrightarrow> files s' = files s \<and> current_filesp s' = current_filesp s \<and> ops_kept s s' \<and>
     (\<forall>m. open_count (inodes s' m) = open_count (inodes s m) \<and> ref_count (inodes s' m) = ref_count (inodes s m) + l m)"

lemma quiet_added: "quiet s s' \<Longrightarrow> refs_added (\<lambda>_. 0) s s'"
  by (simp add: quiet_def refs_added_def ops_kept_def)

lemma looked_up_added:
  assumes "looked_up n s s'" "cnt_ok k s"
  shows "refs_added (\<lambda>m. of_bool (m = n)) s s'"
proof -
  have "0 \<le> open_count (inodes s n)" "open_count (inodes s n) \<le> ref_count (inodes s n)" using assms(2) by (simp_all add: cnt_ok_def)
  then have "ref_count (inodes s n) = 0 \<Longrightarrow> open_count (inodes s n) = 0" by linarith
  then show ?thesis using assms(1) by (auto simp: looked_up_def refs_added_def ops_kept_def split: if_splits)
qed

lemma refs_added_trans: "refs_added l s s' \<Longrightarrow> refs_added l' s' s'' \<Longrightarrow> refs_added (\<lambda>m. l m + l' m) s s''"
  by (auto simp: refs_added_def intro: ops_kept_trans)

lemma refs_added_counts:
  assumes "refs_added (\<lambda>m. l m + of_bool (m = n)) s s'" "cnt_ok k s" "2 \<le> k" "\<And>m. 0 \<le> l m \<and> l m \<le> 1"
  shows "0 \<le> open_count (inodes s' n)" "open_count (inodes s' n) < ref_count (inodes s' n)" "ref_count (inodes s' n) < MAX_INODE_COUNT"
    "ref_count (inodes s' n) = 1 \<Longrightarrow> has_op Vreclaim n s'"
proof -
  have c: "open_count (inodes s' n) = open_count (inodes s n)" "ref_count (inodes s' n) = ref_count (inodes s n) + l n + 1"
    "0 \<le> open_count (inodes s n)" "open_count (inodes s n) \<le> ref_count (inodes s n)" "ref_count (inodes s n) + k < MAX_INODE_COUNT"
    "has_op Vreclaim n s \<or> 0 < ref_count (inodes s n)"
    using assms(1,2) by (simp_all add: refs_added_def cnt_ok_def)
  then show "0 \<le> open_count (inodes s' n)" "open_count (inodes s' n) < ref_count (inodes s' n)" "ref_count (inodes s' n) < MAX_INODE_COUNT"
    using assms(3) assms(4)[of n] by linarith+
  assume "ref_count (inodes s' n) = 1"
  then have "has_op Vreclaim n s" using c(2,3,4,6) assms(4)[of n] by auto
  moreover have "in_ops (inodes s' n) = in_ops (inodes s n) \<or> has_op Vreclaim n s'" using assms(1) by (simp add: refs_added_def ops_kept_def)
  ultimately show "has_op Vreclaim n s'" by auto
qed

text \<open>
  What the file system answers when a path is opened: an error code or an inode. There is no
  answer when the inode lacks an operation that is called (\<^verbatim>\<open>vop_create\<close>, which no table has,
  for a file that is not there, and \<^verbatim>\<open>vop_truncate\<close>) or when an operation stops by itself.
\<close>

definition find_answer :: "'a fstate_scheme inode_ops \<Rightarrow> string \<Rightarrow> bool \<Rightarrow> bool \<Rightarrow> 'a fstate_scheme \<Rightarrow> (int + nat) option" where
  "find_answer V path excl create s =
     do { (ret, node, s1) \<leftarrow> op_lookup V path s;
          if ret \<noteq> 0 then
            if ret = -16 \<and> create
            then do { (ret, dir, nm, s2) \<leftarrow> op_lookup_parent V path s1; if ret \<noteq> 0 then Some (Inl ret) else None }
            else Some (Inl ret)
          else if excl \<and> create then Some (Inl (- E_EXISTS))
          else map_option Inr node }"

definition node_answer :: "'a fstate_scheme inode_ops \<Rightarrow> nat \<Rightarrow> 32 word \<Rightarrow> 'a fstate_scheme \<Rightarrow> (int + nat) option" where
  "node_answer V n flags s =
     do { (ret, s1) \<leftarrow> op_open V n flags s;
          if ret \<noteq> 0 then Some (Inl ret)
          else if flags AND O_TRUNC \<noteq> 0 \<or> flags AND O_CREAT \<noteq> 0 then
            if has_op Vtruncate n s
            then do { (ret, s2) \<leftarrow> op_truncate V n 0 (inode_open_inc n s1); Some (if ret \<noteq> 0 then Inl ret else Inr n) }
            else None
          else Some (Inr n) }"

definition vfs_answer :: "'a fstate_scheme inode_ops \<Rightarrow> string \<Rightarrow> 32 word \<Rightarrow> 'a fstate_scheme \<Rightarrow> (int + nat) option" where
  "vfs_answer V path flags s =
     (let acc = flags AND O_ACCMODE in
      if acc \<noteq> O_RDONLY \<and> acc \<noteq> O_WRONLY \<and> acc \<noteq> O_RDWR \<or> flags AND O_TRUNC \<noteq> 0 \<and> \<not> (acc = O_WRONLY \<or> acc = O_RDWR)
      then Some (Inl (- E_INVAL))
      else do { r \<leftarrow> find_answer V path (flags AND O_EXCL \<noteq> 0) (flags AND O_CREAT \<noteq> 0) s;
                case r of
                  Inl e \<Rightarrow> Some (Inl e)
                | Inr n \<Rightarrow> do { (ret, node, s1) \<leftarrow> op_lookup V path s; node_answer V n flags s1 } })"

lemma vfs_open_find_ok:
  assumes V: "vops_ok V" and c: "cnt_ok 3 s"
  shows "case find_answer V path excl create s of
      None \<Rightarrow> vfs_open_find V path excl create s = None
    | Some r \<Rightarrow> \<exists>s' l. vfs_open_find V path excl create s = Some (r, s') \<and> (\<forall>m. 0 \<le> l m \<and> l m \<le> 1) \<and> (\<not> (excl \<and> create) \<longrightarrow> l = (\<lambda>_. 0)) \<and>
        (case r of Inl e \<Rightarrow> e < 0 \<and> refs_added l s s'
         | Inr n \<Rightarrow> refs_added (\<lambda>m. l m + of_bool (m = n)) s s' \<and> op_lookup V path s = Some (0, Some n, s'))"
proof -
  consider (stop) "op_lookup V path s = None" | (found) n s1 where "op_lookup V path s = Some (0, Some n, s1)" "looked_up n s s1"
    | (fail) r n s1 where "op_lookup V path s = Some (r, n, s1)" "r < 0" "quiet s s1"
    using vops_okD(11)[OF V, of path s] by (elim disjE exE conjE)
  then show ?thesis
  proof cases
    case stop
    then show ?thesis by (simp add: vfs_open_find_def find_answer_def)
  next
    case found
    then obtain n s1 where n: "op_lookup V path s = Some (0, Some n, s1)" "refs_added (\<lambda>m. of_bool (m = n)) s s1"
      using looked_up_added[OF _ c] by blast
    show ?thesis
    proof (cases "excl \<and> create")
      case True
      then show ?thesis using n
        by (auto simp: vfs_open_find_def find_answer_def E_EXISTS_def intro!: exI[of _ "\<lambda>m. of_bool (m = n)"])
    next
      case False
      have "refs_added (\<lambda>m. 0 + of_bool (m = n)) s s1" using n(2) by simp
      then show ?thesis using n(1) False by (auto simp: vfs_open_find_def find_answer_def)
    qed
  next
    case fail
    then obtain r n s1 where n: "op_lookup V path s = Some (r, n, s1)" "r < 0" "refs_added (\<lambda>_. 0) s s1" using quiet_added by blast
    show ?thesis
    proof (cases "r = - 16 \<and> create")
      case False
      then show ?thesis using n by (auto simp: vfs_open_find_def find_answer_def intro!: exI[of _ "\<lambda>_. 0"])
    next
      case cr: True
      show ?thesis
      proof (cases "op_lookup_parent V path s1 = None \<or> (\<exists>d nm s2. op_lookup_parent V path s1 = Some (0, Some d, nm, s2))")
        case True
        then show ?thesis using n(1) cr by (auto simp: vfs_open_find_def find_answer_def vop_def kassert_def)
      next
        case False
        then obtain r' d nm s2 where d: "op_lookup_parent V path s1 = Some (r', d, nm, s2)" "r' < 0" "refs_added (\<lambda>_. 0) s1 s2"
          using quiet_added vops_okD(12)[OF V, of path s1] by blast
        have "refs_added (\<lambda>_. 0) s s2" using refs_added_trans[OF n(3) d(3)] by simp
        then show ?thesis using n(1) cr d(1,2) by (auto simp: vfs_open_find_def find_answer_def intro!: exI[of _ "\<lambda>_. 0"])
      qed
    qed
  qed
qed

text \<open>The inode \<open>n\<close> has one open and one reference more.\<close>

definition node_opened :: "(nat \<Rightarrow> int) \<Rightarrow> nat \<Rightarrow> 'a fstate_scheme \<Rightarrow> 'a fstate_scheme \<Rightarrow> bool" where
  "node_opened l n s s' \<longleftrightarrow> files s' = files s \<and> current_filesp s' = current_filesp s \<and> ops_kept s s' \<and>
     (\<forall>m. open_count (inodes s' m) = open_count (inodes s m) + of_bool (m = n) \<and>
          ref_count (inodes s' m) = ref_count (inodes s m) + l m + of_bool (m = n))"

lemma node_opened_quiet: "node_opened l n s s' \<Longrightarrow> quiet s' s'' \<Longrightarrow> node_opened l n s s''"
  by (simp add: node_opened_def quiet_def ops_kept_def)

lemma node_opened_counts:
  assumes "node_opened l n s s'" "cnt_ok k s" "2 \<le> k" "\<And>m. 0 \<le> l m \<and> l m \<le> 1"
  shows "0 < open_count (inodes s' n)" "open_count (inodes s' n) \<le> ref_count (inodes s' n)" "ref_count (inodes s' n) < MAX_INODE_COUNT"
    "ref_count (inodes s' n) = 1 \<Longrightarrow> has_op Vreclaim n s'"
proof -
  have c: "open_count (inodes s' n) = open_count (inodes s n) + 1" "ref_count (inodes s' n) = ref_count (inodes s n) + l n + 1"
    "0 \<le> open_count (inodes s n)" "open_count (inodes s n) \<le> ref_count (inodes s n)" "ref_count (inodes s n) + k < MAX_INODE_COUNT"
    "has_op Vreclaim n s \<or> 0 < ref_count (inodes s n)"
    using assms(1,2) by (simp_all add: node_opened_def cnt_ok_def)
  then show "0 < open_count (inodes s' n)" "open_count (inodes s' n) \<le> ref_count (inodes s' n)" "ref_count (inodes s' n) < MAX_INODE_COUNT"
    using assms(3) assms(4)[of n] by linarith+
  assume "ref_count (inodes s' n) = 1"
  then have "has_op Vreclaim n s" using c(2,3,4,6) assms(4)[of n] by auto
  moreover have "in_ops (inodes s' n) = in_ops (inodes s n) \<or> has_op Vreclaim n s'" using assms(1) by (simp add: node_opened_def ops_kept_def)
  ultimately show "has_op Vreclaim n s'" by auto
qed

lemma node_opened_close:
  assumes "vops_ok V" "node_opened l n s s'" "cnt_ok k s" "2 \<le> k" "\<And>m. 0 \<le> l m \<and> l m \<le> 1"
  shows "\<exists>s''. vfs_close V n s' = Some s'' \<and> refs_added l s s''"
proof -
  obtain s'' where s: "vfs_close V n s' = Some s''" "files s'' = files s'" "current_filesp s'' = current_filesp s'"
    "inodes s'' = (inodes s')(n := (inodes s' n)\<lparr>ref_count := ref_count (inodes s' n) - 1, open_count := open_count (inodes s' n) - 1\<rparr>)"
    using vfs_close_ok[OF assms(1) node_opened_counts[OF assms(2-5)]] by blast
  have "ops_kept s' s''" by (simp add: ops_kept_def s(4))
  then have "ops_kept s s''" using assms(2) ops_kept_trans by (auto simp: node_opened_def)
  then show ?thesis using assms(2) s by (auto simp: refs_added_def node_opened_def)
qed

lemma vfs_open_node_ok:
  assumes V: "vops_ok V" and c: "cnt_ok 3 s" and l: "\<And>m. 0 \<le> l m \<and> l m \<le> 1"
    and a1: "refs_added (\<lambda>m. l m + of_bool (m = n)) s s1"
  shows "case node_answer V n flags s1 of
      None \<Rightarrow> vfs_open_node V n flags s1 = None
    | Some r \<Rightarrow> \<exists>s'. vfs_open_node V n flags s1 = Some (r, s') \<and>
        (case r of Inl e \<Rightarrow> e \<noteq> 0 \<and> refs_added l s s' | Inr m \<Rightarrow> m = n \<and> node_opened l n s s')"
proof -
  obtain ret s2 where o: "op_open V n flags s1 = Some (ret, s2)" "quiet s1 s2" using vops_okD(1)[OF V] by blast
  have a2: "refs_added (\<lambda>m. l m + of_bool (m = n)) s s2" using a1 o(2) by (simp add: refs_added_def quiet_def ops_kept_def)
  have v1: "vop Vopen (op_open V n flags) n s1 = Some (ret, s2)"
    using o(1) refs_added_counts[OF a1 c _ l] by (subst inode_check_ok) auto
  have h: "has_op Vtruncate n s1 = has_op Vtruncate n (inode_open_inc n s2)" using o(2) by (simp add: quiet_def inode_open_inc_def)
  show ?thesis
  proof (cases "ret = 0")
    case False
    obtain s3 where s3: "inode_ref_dec V n s2 = Some s3" "files s3 = files s2" "current_filesp s3 = current_filesp s2"
      "inodes s3 = (inodes s2)(n := (inodes s2 n)\<lparr>ref_count := ref_count (inodes s2 n) - 1\<rparr>)"
      using inode_ref_dec_ok[OF V refs_added_counts[OF a2 c _ l]] by auto
    have "ops_kept s2 s3" by (simp add: ops_kept_def s3(4))
    then have "refs_added l s s3" using a2 s3(2-4) ops_kept_trans by (auto simp: refs_added_def)
    then show ?thesis using False s3(1) v1 o(1) by (simp add: vfs_open_node_def node_answer_def)
  next
    case True
    have "ops_kept s2 (inode_open_inc n s2)" by (simp add: ops_kept_def inode_open_inc_def)
    then have op: "node_opened l n s (inode_open_inc n s2)"
      using a2 ops_kept_trans by (auto simp: node_opened_def refs_added_def inode_open_inc_def)
    have v: "vop Vtruncate (op_truncate V n 0) n (inode_open_inc n s2) = (if has_op Vtruncate n s1 then op_truncate V n 0 (inode_open_inc n s2) else None)"
      using node_opened_counts[OF op c _ l] h by (subst inode_check_ok) auto
    consider (skip) "flags AND O_TRUNC = 0 \<and> flags AND O_CREAT = 0"
      | (lack) "flags AND O_TRUNC \<noteq> 0 \<or> flags AND O_CREAT \<noteq> 0" "\<not> has_op Vtruncate n s1 \<or> op_truncate V n 0 (inode_open_inc n s2) = None"
      | (has) tr s4 where "flags AND O_TRUNC \<noteq> 0 \<or> flags AND O_CREAT \<noteq> 0" "has_op Vtruncate n s1"
          "op_truncate V n 0 (inode_open_inc n s2) = Some (tr, s4)" by (metis option.exhaust surj_pair)
    then show ?thesis
    proof cases
      case skip
      then show ?thesis using True v1 o(1) op by (simp add: vfs_open_node_def node_answer_def)
    next
      case lack
      then show ?thesis using True v1 v o(1) by (auto simp: vfs_open_node_def node_answer_def)
    next
      case has
      then have t: "op_truncate V n 0 (inode_open_inc n s2) = Some (tr, s4)" "quiet (inode_open_inc n s2) s4"
        using vops_okD(10)[OF V, where n = n and s = "inode_open_inc n s2" and p = 0] h by auto
      have op4: "node_opened l n s s4" using node_opened_quiet[OF op t(2)] .
      obtain s6 where s6: "vfs_close V n s4 = Some s6" "refs_added l s s6" using node_opened_close[OF V op4 c _ l] by auto
      then obtain s5 where s5: "inode_open_dec V n s4 = Some s5" "inode_ref_dec V n s5 = Some s6"
        by (auto simp: vfs_close_def bind_eq_Some_conv)
      have run: "node_answer V n flags s1 = Some (if tr \<noteq> 0 then Inl tr else Inr n)"
        "vfs_open_node V n flags s1 = Some (if tr \<noteq> 0 then (Inl tr, s6) else (Inr n, s4))"
        using True v1 v o(1) has t(1) s5 by (auto simp: vfs_open_node_def node_answer_def)
      then show ?thesis using op4 s6(2) by simp
    qed
  qed
qed

lemma vfs_open_ok:
  assumes V: "vops_ok V" and c: "cnt_ok 3 s"
  shows "case vfs_answer V path flags s of
      None \<Rightarrow> vfs_open V path flags s = None
    | Some r \<Rightarrow> \<exists>s' l. vfs_open V path flags s = Some (r, s') \<and> (\<forall>m. 0 \<le> l m \<and> l m \<le> 1) \<and>
        (flags AND O_EXCL = 0 \<or> flags AND O_CREAT = 0 \<longrightarrow> l = (\<lambda>_. 0)) \<and>
        (case r of Inl e \<Rightarrow> e \<noteq> 0 \<and> refs_added l s s' | Inr n \<Rightarrow> node_opened l n s s')"
proof -
  let ?acc = "flags AND O_ACCMODE" and ?excl = "flags AND O_EXCL \<noteq> 0" and ?create = "flags AND O_CREAT \<noteq> 0" and ?trunc = "flags AND O_TRUNC \<noteq> 0"
  let ?bad = "?acc \<noteq> O_RDONLY \<and> ?acc \<noteq> O_WRONLY \<and> ?acc \<noteq> O_RDWR \<or> ?trunc \<and> \<not> (?acc = O_WRONLY \<or> ?acc = O_RDWR)"
  note find = vfs_open_find_ok[OF V c, of path ?excl ?create]
  show ?thesis
  proof (cases ?bad)
    case True
    have "refs_added (\<lambda>_. 0) s s" by (simp add: refs_added_def ops_kept_def)
    moreover have "vfs_open V path flags s = Some (Inl (- E_INVAL), s)" "vfs_answer V path flags s = Some (Inl (- E_INVAL))"
      using True by (auto simp: vfs_open_def vfs_answer_def Let_def)
    ultimately show ?thesis by (auto simp: E_INVAL_def intro!: exI[of _ "\<lambda>_. 0"])
  next
    case good: False
    have run: "vfs_open V path flags s = do { (r, s1) \<leftarrow> vfs_open_find V path ?excl ?create s;
        case r of Inl e \<Rightarrow> Some (Inl e, s1) | Inr n \<Rightarrow> vfs_open_node V n flags s1 }"
      "vfs_answer V path flags s = do { r \<leftarrow> find_answer V path ?excl ?create s;
        case r of Inl e \<Rightarrow> Some (Inl e) | Inr n \<Rightarrow> do { (ret, node, s1) \<leftarrow> op_lookup V path s; node_answer V n flags s1 } }"
      using good by (auto simp: vfs_open_def vfs_answer_def Let_def)
    show ?thesis
    proof (cases "find_answer V path ?excl ?create s")
      case None
      then show ?thesis using find by (simp add: run)
    next
      case (Some r)
      then obtain s1 l where f: "vfs_open_find V path ?excl ?create s = Some (r, s1)" "\<forall>m. 0 \<le> l m \<and> l m \<le> 1" "\<not> (?excl \<and> ?create) \<longrightarrow> l = (\<lambda>_. 0)"
        "case r of Inl e \<Rightarrow> e < 0 \<and> refs_added l s s1
         | Inr n \<Rightarrow> refs_added (\<lambda>m. l m + of_bool (m = n)) s s1 \<and> op_lookup V path s = Some (0, Some n, s1)"
        using find unfolding Some option.case by (elim exE conjE)
      have l: "\<And>m. 0 \<le> l m \<and> l m \<le> 1" using f(2) by blast
      show ?thesis
      proof (cases r)
        case (Inl e)
        then have "e \<noteq> 0 \<and> refs_added l s s1" using f(4) by simp
        then show ?thesis using Inl Some f(1-3) by (auto simp: run)
      next
        case (Inr n)
        then have a: "refs_added (\<lambda>m. l m + of_bool (m = n)) s s1" "op_lookup V path s = Some (0, Some n, s1)" using f(4) by simp_all
        have go: "vfs_open V path flags s = vfs_open_node V n flags s1" "vfs_answer V path flags s = node_answer V n flags s1"
          using Inr Some f(1) a(2) by (simp_all add: run)
        show ?thesis
        proof (cases "node_answer V n flags s1")
          case None
          then show ?thesis using vfs_open_node_ok[OF V c l a(1), of flags] by (simp add: go)
        next
          case (Some r')
          then obtain s' where s': "vfs_open_node V n flags s1 = Some (r', s')"
            "case r' of Inl e \<Rightarrow> e \<noteq> 0 \<and> refs_added l s s' | Inr m \<Rightarrow> node_opened l m s s'"
            using vfs_open_node_ok[OF V c l a(1), of flags] by (cases r') auto
          have "flags AND O_EXCL = 0 \<or> flags AND O_CREAT = 0 \<longrightarrow> l = (\<lambda>_. 0)" using f(3) by argo
          then show ?thesis unfolding go Some option.case
            by (intro exI[of _ s'] exI[of _ l] conjI s' f(2))
        qed
      qed
    qed
  qed
qed

text \<open>The entry of a file that has just been opened.\<close>

definition opened :: "nat \<Rightarrow> int \<Rightarrow> bool \<Rightarrow> bool \<Rightarrow> file_entry \<Rightarrow> file_entry" where
  "opened n p rd wr f = f\<lparr>f_status := FD_OPENED, f_readable := rd, f_writable := wr, f_pos := p, f_node := Some n, f_open_count := 1\<rparr>"

text \<open>Giving up an entry that was allocated, and filling it in.\<close>

lemma fd_free_init_ok:
  assumes i: "i < length (fd_array (files s t))" and st: "f_status (file_at t i s) = FD_NONE" "f_open_count (file_at t i s) = 0"
    and fs: "files s2 = files (upd_fd t i (\<lambda>f. f\<lparr>f_status := FD_INIT, f_node := None, f_pos := p\<rparr>) s)"
  shows "\<exists>s'. fd_array_free V t i s2 = Some s' \<and> inodes s' = inodes s2 \<and> current_filesp s' = current_filesp s2 \<and>
    files s' = files (upd_fd t i (\<lambda>f. f\<lparr>f_node := None, f_pos := p, f_status := FD_NONE\<rparr>) s)"
proof -
  have at: "file_at t i s2 = (file_at t i s)\<lparr>f_status := FD_INIT, f_node := None, f_pos := p\<rparr>"
    unfolding file_at_def fs using i by (simp add: upd_file_files file_at_def)
  have "files (upd_fd t i (\<lambda>f. f\<lparr>f_status := FD_NONE\<rparr>) s2) =
      files (upd_fd t i (\<lambda>f. f\<lparr>f_node := None, f_pos := p, f_status := FD_NONE\<rparr>) s)"
    using i by (simp add: upd_fd_def upd_files_def fs fun_eq_iff)
  then show ?thesis using at st by (simp add: fd_array_free_def kassert_def)
qed

lemma fd_open_init_ok:
  assumes i: "i < length (fd_array (files s t))" and st: "f_status (file_at t i s) = FD_NONE" "f_open_count (file_at t i s) = 0"
    and fs: "files s2 = files (upd_fd t i (\<lambda>f. f\<lparr>f_status := FD_INIT, f_node := None, f_pos := p\<rparr>) s)"
  shows "\<exists>s'. fd_array_open t i (upd_fd t i (\<lambda>f. f\<lparr>f_node := Some n, f_readable := rd, f_writable := wr\<rparr>) s2) = Some s' \<and>
    inodes s' = inodes s2 \<and> current_filesp s' = current_filesp s2 \<and> files s' = files (upd_fd t i (opened n p rd wr) s)"
proof -
  let ?s3 = "upd_fd t i (\<lambda>f. f\<lparr>f_node := Some n, f_readable := rd, f_writable := wr\<rparr>) s2"
  have at2: "file_at t i s2 = (file_at t i s)\<lparr>f_status := FD_INIT, f_node := None, f_pos := p\<rparr>"
    unfolding file_at_def fs using i by (simp add: upd_file_files file_at_def)
  have len: "i < length (fd_array (files s2 t))" using i by (simp add: fs)
  have at3: "file_at t i ?s3 = (file_at t i s2)\<lparr>f_node := Some n, f_readable := rd, f_writable := wr\<rparr>" using len by simp
  let ?g = "\<lambda>f. f\<lparr>f_status := FD_OPENED, f_open_count := f_open_count f + 1\<rparr>"
  have eq: "?g (file_at t i ?s3) = opened n p rd wr (file_at t i s)"
    unfolding at3 at2 using st(2) by (cases "file_at t i s") (simp add: opened_def)
  have "files (upd_fd t i ?g ?s3) t' = files (upd_fd t i (opened n p rd wr) s) t'" for t'
  proof (cases "t' = t")
    case True
    have "fd_array (files (upd_fd t i ?g ?s3) t) = (fd_array (files s t))[i := opened n p rd wr (file_at t i s)]"
      unfolding upd_file_files eq by (simp add: upd_file_files fs)
    then show ?thesis using True i by (simp add: upd_fd_def upd_files_def fs eq[symmetric] file_at_def)
  qed (simp add: fs upd_fd_def upd_files_def)
  then have "files (upd_fd t i ?g ?s3) = files (upd_fd t i (opened n p rd wr) s)" by blast
  then show ?thesis using at2 at3 by (simp add: fd_array_open_def kassert_def)
qed

lemma ftab_cnt:
  assumes "ftab_ok T x y s" "devs_kept y s" "refs_below k s"
  shows "cnt_ok k s"
  unfolding cnt_ok_def
proof
  fix n
  have "0 \<le> holders T (files s) n" "0 \<le> x n" "x n \<le> y n" "open_count (inodes s n) = holders T (files s) n + x n"
    "ref_count (inodes s n) = holders T (files s) n + y n" "ref_count (inodes s n) + k < MAX_INODE_COUNT" "\<not> has_op Vreclaim n s \<Longrightarrow> 0 < y n"
    using assms holders_nonneg by (simp_all add: ftab_ok_def refs_below_def devs_kept_def)
  then show "0 \<le> open_count (inodes s n) \<and> open_count (inodes s n) \<le> ref_count (inodes s n) \<and>
     ref_count (inodes s n) + k < MAX_INODE_COUNT \<and> (has_op Vreclaim n s \<or> 0 < ref_count (inodes s n))"
    by (cases "has_op Vreclaim n s") simp_all
qed

lemma cnt_ok_inodes: "inodes s' = inodes s \<Longrightarrow> cnt_ok k s' = cnt_ok k s"
  by (simp add: cnt_ok_def)

text \<open>
  The answer to an open file: an error code, or the inode and the position the file starts at,
  which is its size with \<open>O_APPEND\<close>.
\<close>

definition open_answer ::
  "'a fstate_scheme inode_ops \<Rightarrow> string \<Rightarrow> 32 word \<Rightarrow> nat \<Rightarrow> nat \<Rightarrow> 'a fstate_scheme \<Rightarrow> (int + nat \<times> int) option" where
  "open_answer V path flags t i s =
     do { r \<leftarrow> vfs_answer V path flags s;
          case r of
            Inl e \<Rightarrow> Some (Inl e)
          | Inr n \<Rightarrow>
              if flags AND O_APPEND \<noteq> 0
              then do { (_, s1) \<leftarrow> vfs_open V path flags s;
                        (ret, st, s2) \<leftarrow> op_fstat V n (upd_fd t i (\<lambda>f. f\<lparr>f_pos := 0\<rparr>) s1);
                        Some (if ret \<noteq> 0 then Inl ret else Inr (n, int (st_size st))) }
              else Some (Inr (n, 0)) }"

lemma open_answer_flags:
  assumes "open_answer V path flags t i s = Some (Inr v)"
  shows "flags AND O_EXCL = 0 \<or> flags AND O_CREAT = 0"
  using assms
  by (auto simp: open_answer_def vfs_answer_def find_answer_def Let_def bind_eq_Some_conv split: if_splits sum.splits)

lemma open_position_ok:
  assumes V: "vops_ok V" and i: "i < length (fd_array (files s t))" and c: "cnt_ok 3 s"
    and l: "\<And>m. 0 \<le> l m \<and> l m \<le> 1"
    and n: "node_opened l n (upd_fd t i (\<lambda>f. f\<lparr>f_status := FD_INIT, f_node := None\<rparr>) s) s2"
  shows "\<exists>p ret s4. (if flags AND O_APPEND \<noteq> 0
      then do { (ret, st, s4) \<leftarrow> vop Vfstat (op_fstat V n) n (upd_fd t i (\<lambda>f. f\<lparr>f_pos := 0\<rparr>) s2);
                if ret \<noteq> 0 then do { s5 \<leftarrow> vfs_close V n s4; s6 \<leftarrow> fd_array_free V t i s5; Some (ret, s6) }
                else Some (0, upd_fd t i (\<lambda>f. f\<lparr>f_pos := int (st_size st)\<rparr>) s4) }
      else Some (0, upd_fd t i (\<lambda>f. f\<lparr>f_pos := 0\<rparr>) s2)) =
     (if ret \<noteq> 0 then do { s5 \<leftarrow> vfs_close V n s4; s6 \<leftarrow> fd_array_free V t i s5; Some (ret, s6) } else Some (0, s4)) \<and>
    node_opened l n (upd_fd t i (\<lambda>f. f\<lparr>f_status := FD_INIT, f_node := None, f_pos := p\<rparr>) s) s4 \<and>
    (if flags AND O_APPEND \<noteq> 0
     then do { (ret, st, s5) \<leftarrow> op_fstat V n (upd_fd t i (\<lambda>f. f\<lparr>f_pos := 0\<rparr>) s2);
               Some (if ret \<noteq> 0 then Inl ret else Inr (n, int (st_size st))) }
     else Some (Inr (n, 0))) = Some (if ret \<noteq> 0 then Inl ret else Inr (n, p))"
proof -
  let ?i = "upd_fd t i (\<lambda>f. f\<lparr>f_status := FD_INIT, f_node := None\<rparr>) s"
  let ?s3 = "upd_fd t i (\<lambda>f. f\<lparr>f_pos := 0\<rparr>) s2"
  have n3: "node_opened l n (upd_fd t i (\<lambda>f. f\<lparr>f_status := FD_INIT, f_node := None, f_pos := q\<rparr>) s) (upd_fd t i (\<lambda>f. f\<lparr>f_pos := q\<rparr>) s3)"
    if "files s3 = files (upd_fd t i (\<lambda>f. f\<lparr>f_pos := r\<rparr>) s2) \<or> files s3 = files s2" "inodes s3 = inodes s2" "current_filesp s3 = current_filesp s2" for q r s3
    using n i that by (auto simp: node_opened_def ops_kept_def upd_fd_def upd_files_def fun_eq_iff)
  have "node_opened l n ?i s2" "cnt_ok 3 ?i" using n c by (simp_all add: cnt_ok_def)
  note oc = node_opened_counts[OF this _ l]
  have v: "vop Vfstat (op_fstat V n) n ?s3 = op_fstat V n ?s3" by (subst inode_check_ok) (use oc in auto)
  obtain ret st s4 where f: "op_fstat V n ?s3 = Some (ret, st, s4)" "quiet ?s3 s4" using vops_okD(7)[OF V] by blast
  have q: "files s4 = files (upd_fd t i (\<lambda>f. f\<lparr>f_pos := 0\<rparr>) s2)" "inodes s4 = inodes s2" "current_filesp s4 = current_filesp s2"
    using f(2) by (simp_all add: quiet_def)
  consider (plain) "flags AND O_APPEND = 0" | (bad) "flags AND O_APPEND \<noteq> 0" "ret \<noteq> 0" | (fine) "flags AND O_APPEND \<noteq> 0" "ret = 0" by blast
  then show ?thesis
  proof cases
    case plain
    have "node_opened l n (upd_fd t i (\<lambda>f. f\<lparr>f_status := FD_INIT, f_node := None, f_pos := 0\<rparr>) s) ?s3"
      using n3[of s2 0 0] by simp
    then show ?thesis using plain by - (rule exI[of _ 0], rule exI[of _ 0], rule exI[of _ ?s3], simp)
  next
    case bad
    have "upd_fd t i (\<lambda>f. f\<lparr>f_pos := 0\<rparr>) s4 = s4"
      using q(1) i n by (simp add: upd_fd_def upd_files_def node_opened_def)
    then have "node_opened l n (upd_fd t i (\<lambda>f. f\<lparr>f_status := FD_INIT, f_node := None, f_pos := 0\<rparr>) s) s4"
      using n3[of s4 0 0] q by simp
    then show ?thesis using bad v f(1) by - (rule exI[of _ 0], rule exI[of _ ret], rule exI[of _ s4], simp)
  next
    case fine
    have "node_opened l n (upd_fd t i (\<lambda>f. f\<lparr>f_status := FD_INIT, f_node := None, f_pos := int (st_size st)\<rparr>) s)
        (upd_fd t i (\<lambda>f. f\<lparr>f_pos := int (st_size st)\<rparr>) s4)" using n3[of s4 0] q by simp
    then show ?thesis using fine v f(1)
      by - (rule exI[of _ "int (st_size st)"], rule exI[of _ 0], rule exI[of _ "upd_fd t i (\<lambda>f. f\<lparr>f_pos := int (st_size st)\<rparr>) s4"], simp)
  qed
qed

text \<open>Only the entry \<open>i\<close> of the table \<open>t\<close> may have changed.\<close>

definition others_same :: "nat \<Rightarrow> nat \<Rightarrow> 'a fstate_scheme \<Rightarrow> 'a fstate_scheme \<Rightarrow> bool" where
  "others_same t i s s' \<longleftrightarrow> current_filesp s' = current_filesp s \<and>
     (\<forall>t'. files_count (files s' t') = files_count (files s t') \<and> pwd (files s' t') = pwd (files s t')) \<and>
     (\<forall>t' j. (t', j) \<noteq> (t, i) \<longrightarrow> file_at t' j s' = file_at t' j s)"

lemma others_same_upd:
  "files s' = files (upd_fd t i g s) \<Longrightarrow> current_filesp s' = current_filesp s \<Longrightarrow> others_same t i s s'"
  by (auto simp: others_same_def file_at_def upd_file_files nth_list_update_neq)

text \<open>An attempt that fails leaves the entry free; \<open>l\<close> counts the references left behind.\<close>

definition open_refused ::
  "nat set \<Rightarrow> (nat \<Rightarrow> int) \<Rightarrow> (nat \<Rightarrow> int) \<Rightarrow> (nat \<Rightarrow> int) \<Rightarrow> nat \<Rightarrow> nat \<Rightarrow> 'a fstate_scheme \<Rightarrow> 'a fstate_scheme \<Rightarrow> bool" where
  "open_refused T x y l t i s s' \<longleftrightarrow> ftab_ok T x (\<lambda>m. y m + l m) s' \<and> ops_kept s s' \<and> others_same t i s s' \<and>
     f_status (file_at t i s') = FD_NONE \<and>
     (\<forall>m. open_count (inodes s' m) = open_count (inodes s m) \<and> ref_count (inodes s' m) = ref_count (inodes s m) + l m)"

definition open_done ::
  "nat set \<Rightarrow> (nat \<Rightarrow> int) \<Rightarrow> (nat \<Rightarrow> int) \<Rightarrow> nat \<Rightarrow> nat \<Rightarrow> nat \<Rightarrow> file_entry \<Rightarrow> 'a fstate_scheme \<Rightarrow> 'a fstate_scheme \<Rightarrow> bool" where
  "open_done T x y t i n f s s' \<longleftrightarrow> ftab_ok T x y s' \<and> ops_kept s s' \<and> others_same t i s s' \<and> file_at t i s' = f \<and>
     (\<forall>m. open_count (inodes s' m) = open_count (inodes s m) + of_bool (m = n) \<and>
          ref_count (inodes s' m) = ref_count (inodes s m) + of_bool (m = n))"

lemma open_failed_ok:
  assumes ok: "ftab_ok T x y s" and t: "t \<in> T" "i < FILES_STRUCT_NENTRY"
    and e: "f_status (file_at t i s) = FD_NONE" "f_open_count (file_at t i s) = 0" "f_fd (file_at t i s) = int i"
    and l: "\<And>m. 0 \<le> l m" and a: "refs_added l (upd_fd t i (\<lambda>f. f\<lparr>f_status := FD_INIT, f_node := None, f_pos := p\<rparr>) s) s2"
  shows "\<exists>s'. fd_array_free V t i s2 = Some s' \<and> open_refused T x y l t i s s'"
proof -
  have len: "i < length (fd_array (files s t))" using ftab_entry(2)[OF ok t] .
  obtain s' where s': "fd_array_free V t i s2 = Some s'" "inodes s' = inodes s2" "current_filesp s' = current_filesp s2"
    "files s' = files (upd_fd t i (\<lambda>f. f\<lparr>f_node := None, f_pos := p, f_status := FD_NONE\<rparr>) s)"
    using fd_free_init_ok[OF len e(1,2), of s2 p V] a by (auto simp: refs_added_def)
  have "ftab_ok T x (\<lambda>m. y m + l m) s'"
    by (rule ftab_ok_upd[OF ok t s'(4)]) (use e l a s'(2) in \<open>auto simp: entry_ok_def holds_def refs_added_def\<close>)
  moreover have "others_same t i s s'" by (rule others_same_upd[OF s'(4)]) (use s'(3) a in \<open>simp add: refs_added_def\<close>)
  moreover have "f_status (file_at t i s') = FD_NONE"
    unfolding file_at_def s'(4) using len by (simp add: upd_file_files file_at_def)
  ultimately show ?thesis using s' a by (simp add: refs_added_def ops_kept_def open_refused_def)
qed

lemma open_done_ok:
  assumes ok: "ftab_ok T x y s" and t: "t \<in> T" "i < FILES_STRUCT_NENTRY"
    and e: "f_status (file_at t i s) = FD_NONE" "f_open_count (file_at t i s) = 0" "f_fd (file_at t i s) = int i"
    and a: "node_opened (\<lambda>_. 0) n (upd_fd t i (\<lambda>f. f\<lparr>f_status := FD_INIT, f_node := None, f_pos := p\<rparr>) s) s2"
  shows "\<exists>s'. fd_array_open t i (upd_fd t i (\<lambda>f. f\<lparr>f_node := Some n, f_readable := rd, f_writable := wr\<rparr>) s2) = Some s' \<and>
    open_done T x y t i n (opened n p rd wr (file_at t i s)) s s'"
proof -
  have len: "i < length (fd_array (files s t))" using ftab_entry(2)[OF ok t] .
  obtain s' where s': "fd_array_open t i (upd_fd t i (\<lambda>f. f\<lparr>f_node := Some n, f_readable := rd, f_writable := wr\<rparr>) s2) = Some s'"
    "inodes s' = inodes s2" "current_filesp s' = current_filesp s2" "files s' = files (upd_fd t i (opened n p rd wr) s)"
    using fd_open_init_ok[OF len e(1,2), where ?s2.0 = s2 and p = p and n = n and rd = rd and wr = wr] a by (auto simp: node_opened_def)
  have "ftab_ok T x y s'"
    by (rule ftab_ok_upd[OF ok t s'(4)]) (use e a s'(2) in \<open>auto simp: entry_ok_def holds_def node_opened_def opened_def\<close>)
  moreover have "others_same t i s s'" by (rule others_same_upd[OF s'(4)]) (use s'(3) a in \<open>simp add: node_opened_def\<close>)
  moreover have "file_at t i s' = opened n p rd wr (file_at t i s)"
    unfolding file_at_def s'(4) using len by (simp add: upd_file_files file_at_def)
  ultimately show ?thesis using s' a by (simp add: node_opened_def ops_kept_def open_done_def)
qed

text \<open>A reference is left behind only with \<open>O_CREAT\<close> and \<open>O_EXCL\<close> together.\<close>

definition leaks :: "32 word \<Rightarrow> (nat \<Rightarrow> int) \<Rightarrow> bool" where
  "leaks flags l \<longleftrightarrow> (\<forall>m. 0 \<le> l m \<and> l m \<le> 1) \<and> (flags AND O_EXCL = 0 \<or> flags AND O_CREAT = 0 \<longrightarrow> l = (\<lambda>_. 0))"

lemma file_open_at_ok:
  assumes ok: "ftab_ok T x y s" "devs_kept y s" "refs_below 3 s" and V: "vops_ok V" and t: "t \<in> T" "i < FILES_STRUCT_NENTRY"
    and e: "f_status (file_at t i s) = FD_NONE" "f_open_count (file_at t i s) = 0" "f_fd (file_at t i s) = int i"
  shows "case open_answer V path flags t i (upd_fd t i (\<lambda>f. f\<lparr>f_status := FD_INIT, f_node := None\<rparr>) s) of
      None \<Rightarrow> file_open_at V path flags rd wr t i (upd_fd t i (\<lambda>f. f\<lparr>f_status := FD_INIT, f_node := None\<rparr>) s) = None
    | Some (Inl e) \<Rightarrow> \<exists>s' l. file_open_at V path flags rd wr t i (upd_fd t i (\<lambda>f. f\<lparr>f_status := FD_INIT, f_node := None\<rparr>) s) = Some (e, s') \<and>
        e \<noteq> 0 \<and> leaks flags l \<and> open_refused T x y l t i s s'
    | Some (Inr (n, p)) \<Rightarrow> \<exists>s'. file_open_at V path flags rd wr t i (upd_fd t i (\<lambda>f. f\<lparr>f_status := FD_INIT, f_node := None\<rparr>) s) = Some (int i, s') \<and>
        open_done T x y t i n (opened n p rd wr (file_at t i s)) s s'"
proof -
  let ?s1 = "upd_fd t i (\<lambda>f. f\<lparr>f_status := FD_INIT, f_node := None\<rparr>) s"
  let ?go = "file_open_at V path flags rd wr t i ?s1"
  have len: "i < length (fd_array (files s t))" using ftab_entry(2)[OF ok(1) t(1,2)] .
  have c: "cnt_ok 3 s" "cnt_ok 3 (upd_fd t i g s)" for g using ftab_cnt[OF ok] by (simp_all add: cnt_ok_def)
  note vo = vfs_open_ok[OF V c(2)[of "\<lambda>f. f\<lparr>f_status := FD_INIT, f_node := None\<rparr>"], of path flags]
  show ?thesis
  proof (cases "vfs_answer V path flags ?s1")
    case None
    then show ?thesis using vo by (simp add: open_answer_def file_open_at_def)
  next
    case (Some r)
    obtain s2 l where v: "vfs_open V path flags ?s1 = Some (r, s2)" "\<forall>m. 0 \<le> l m \<and> l m \<le> 1"
      "flags AND O_EXCL = 0 \<or> flags AND O_CREAT = 0 \<longrightarrow> l = (\<lambda>_. 0)"
      "case r of Inl e \<Rightarrow> e \<noteq> 0 \<and> refs_added l ?s1 s2 | Inr n \<Rightarrow> node_opened l n ?s1 s2"
      using vo unfolding Some option.case by (elim exE conjE)
    have l: "\<And>m. 0 \<le> l m \<and> l m \<le> 1" and l0: "\<And>m. 0 \<le> l m" and lk: "leaks flags l" using v(2,3) by (auto simp: leaks_def)
    show ?thesis
    proof (cases r)
      case (Inl e')
      have "refs_added l (upd_fd t i (\<lambda>f. f\<lparr>f_status := FD_INIT, f_node := None, f_pos := f_pos (file_at t i s)\<rparr>) s) s2"
        using v(4) Inl by (simp add: refs_added_def ops_kept_def upd_fd_def upd_files_def file_at_def)
      from open_failed_ok[OF ok(1) t e l0 this, of V] obtain s' where s': "fd_array_free V t i s2 = Some s'" "open_refused T x y l t i s s'" by blast
      have "?go = Some (e', s')" using v(1) Inl s'(1) by (simp add: file_open_at_def)
      then show ?thesis using Some Inl v(4) s'(2) lk by (auto simp: open_answer_def)
    next
      case (Inr n)
      have n: "node_opened l n ?s1 s2" using v(4) Inr by simp
      obtain p ret s4 where q: "(if flags AND O_APPEND \<noteq> 0
          then do { (ret, st, s4) \<leftarrow> vop Vfstat (op_fstat V n) n (upd_fd t i (\<lambda>f. f\<lparr>f_pos := 0\<rparr>) s2);
                    if ret \<noteq> 0 then do { s5 \<leftarrow> vfs_close V n s4; s6 \<leftarrow> fd_array_free V t i s5; Some (ret, s6) }
                    else Some (0, upd_fd t i (\<lambda>f. f\<lparr>f_pos := int (st_size st)\<rparr>) s4) }
          else Some (0, upd_fd t i (\<lambda>f. f\<lparr>f_pos := 0\<rparr>) s2)) =
         (if ret \<noteq> 0 then do { s5 \<leftarrow> vfs_close V n s4; s6 \<leftarrow> fd_array_free V t i s5; Some (ret, s6) } else Some (0, s4))"
        "node_opened l n (upd_fd t i (\<lambda>f. f\<lparr>f_status := FD_INIT, f_node := None, f_pos := p\<rparr>) s) s4"
        "(if flags AND O_APPEND \<noteq> 0
          then do { (ret, st, s5) \<leftarrow> op_fstat V n (upd_fd t i (\<lambda>f. f\<lparr>f_pos := 0\<rparr>) s2);
                    Some (if ret \<noteq> 0 then Inl ret else Inr (n, int (st_size st))) }
          else Some (Inr (n, 0))) = Some (if ret \<noteq> 0 then Inl ret else Inr (n, p))"
        using open_position_ok[OF V len c(1) l n] by blast
      have ans: "open_answer V path flags t i ?s1 = Some (if ret \<noteq> 0 then Inl ret else Inr (n, p))"
        unfolding q(3)[symmetric] using Some Inr v(1) by (simp add: open_answer_def)
      show ?thesis
      proof (cases "ret = 0")
        case False
        obtain s5 where s5: "vfs_close V n s4 = Some s5" "refs_added l (upd_fd t i (\<lambda>f. f\<lparr>f_status := FD_INIT, f_node := None, f_pos := p\<rparr>) s) s5"
          using node_opened_close[OF V q(2) c(2) _ l] by auto
        obtain s6 where s6: "fd_array_free V t i s5 = Some s6" "open_refused T x y l t i s s6"
          using open_failed_ok[OF ok(1) t e l0 s5(2), of V] by blast
        have "?go = Some (ret, s6)" using v(1) Inr q(1) s5(1) s6(1) False by (simp add: file_open_at_def)
        then show ?thesis using ans False s6(2) lk by auto
      next
        case True
        have "l = (\<lambda>_. 0)" using open_answer_flags[of V path flags t i ?s1] ans True v(3) by simp
        then obtain s7 where s7: "fd_array_open t i (upd_fd t i (\<lambda>f. f\<lparr>f_node := Some n, f_readable := rd, f_writable := wr\<rparr>) s4) = Some s7"
          "open_done T x y t i n (opened n p rd wr (file_at t i s)) s s7"
          using open_done_ok[OF ok(1) t e] q(2) by blast
        have "f_fd (file_at t i s7) = int i" using s7(2) e(3) by (simp add: open_done_def opened_def)
        then have "?go = Some (int i, s7)" using v(1) Inr q(1) s7(1) True by (simp add: file_open_at_def)
        then show ?thesis using ans True s7(2) by simp
      qed
    qed
  qed
qed

text \<open>The lowest descriptor of the table that is not in use.\<close>

definition free_fd :: "nat \<Rightarrow> 'a fstate_scheme \<Rightarrow> nat option" where
  "free_fd t s = find (\<lambda>i. f_status (file_at t i s) = FD_NONE) [0..<FILES_STRUCT_NENTRY]"

lemma free_fd_Some:
  "free_fd t s = Some i \<longleftrightarrow> i < FILES_STRUCT_NENTRY \<and> f_status (file_at t i s) = FD_NONE \<and> (\<forall>j<i. f_status (file_at t j s) \<noteq> FD_NONE)"
  by (auto simp: free_fd_def find_Some_iff)

lemma fd_free_loop_free:
  assumes "length (fd_array (files s t)) = FILES_STRUCT_NENTRY"
  shows "fd_free_loop (take FILES_STRUCT_NENTRY (fd_array (files s t))) 0 = free_fd t s"
proof -
  have "fd_free_loop (take FILES_STRUCT_NENTRY (fd_array (files s t))) 0 = Some i \<longleftrightarrow> free_fd t s = Some i" for i
    using assms by (simp add: fd_free_loop_Some free_fd_Some file_at_def)
  then show ?thesis by (metis not_None_eq)
qed

text \<open>\<open>open_call\<close> is what \<^verbatim>\<open>file_open\<close> does, in terms of the answer of the file system.\<close>

definition open_call ::
  "'a fstate_scheme inode_ops \<Rightarrow> nat set \<Rightarrow> (nat \<Rightarrow> int) \<Rightarrow> (nat \<Rightarrow> int) \<Rightarrow> string \<Rightarrow> 32 word \<Rightarrow> nat \<Rightarrow> 'a fstate_scheme \<Rightarrow>
   (int \<times> 'a fstate_scheme) option \<Rightarrow> bool" where
  "open_call V T x y path flags t s res \<longleftrightarrow>
     (if flags AND O_ACCMODE \<notin> {O_RDONLY, O_WRONLY, O_RDWR} then res = Some (- E_INVAL, s)
      else case free_fd t s of
        None \<Rightarrow> res = Some (- E_MAX_OPEN, s)
      | Some i \<Rightarrow>
          (case open_answer V path flags t i (upd_fd t i (\<lambda>f. f\<lparr>f_status := FD_INIT, f_node := None\<rparr>) s) of
             None \<Rightarrow> res = None
           | Some (Inl e) \<Rightarrow> \<exists>s' l. res = Some (e, s') \<and> e \<noteq> 0 \<and> leaks flags l \<and> open_refused T x y l t i s s'
           | Some (Inr (n, p)) \<Rightarrow> \<exists>s'. res = Some (int i, s') \<and>
               open_done T x y t i n (opened n p (flags AND O_ACCMODE \<noteq> O_WRONLY) (flags AND O_ACCMODE \<noteq> O_RDONLY) (file_at t i s)) s s'))"

lemma file_open_ok:
  assumes ok: "ftab_ok T x y s" "cur_ok T s" "devs_kept y s" "refs_below 3 s" and V: "vops_ok V" and cur: "current_filesp s = Some t"
  shows "open_call V T x y path flags t s (file_open V path flags s)"
proof -
  let ?acc = "flags AND O_ACCMODE"
  have t: "t \<in> T" "0 < files_count (files s t)" using ok(2) cur by (auto simp: cur_ok_def)
  have len: "length (fd_array (files s t)) = FILES_STRUCT_NENTRY" using ok(1) t(1) by (simp add: ftab_ok_def)
  have g: "get_fd_array s = Some t" using t(2) cur by (simp add: get_fd_array_def kassert_def)
  show ?thesis
  proof (cases "?acc \<in> {O_RDONLY, O_WRONLY, O_RDWR}")
    case False
    then show ?thesis by (simp add: open_call_def file_open_def Let_def)
  next
    case good: True
    have rw: "(?acc = O_RDONLY \<or> ?acc = O_RDWR) = (?acc \<noteq> O_WRONLY)" "(?acc = O_WRONLY \<or> ?acc = O_RDWR) = (?acc \<noteq> O_RDONLY)"
      using good by (auto simp: O_RDONLY_def O_WRONLY_def O_RDWR_def)
    have run: "file_open V path flags s = do { (r, s1) \<leftarrow> fd_array_alloc NO_FD s;
        case r of Inl e \<Rightarrow> Some (e, s1) | Inr (t, i) \<Rightarrow> file_open_at V path flags (?acc \<noteq> O_WRONLY) (?acc \<noteq> O_RDONLY) t i s1 }"
      unfolding file_open_def Let_def rw using good by auto
    have al: "fd_array_alloc NO_FD s = (case free_fd t s of None \<Rightarrow> Some (Inl (- E_MAX_OPEN), s)
        | Some i \<Rightarrow> do { kassert (f_open_count (file_at t i s) = 0);
                         Some (Inr (t, i), upd_fd t i (\<lambda>f. f\<lparr>f_status := FD_INIT, f_node := None\<rparr>) s) })"
      by (simp add: fd_array_alloc_def g fd_free_loop_free[OF len] Let_def split: option.splits)
    show ?thesis
    proof (cases "free_fd t s")
      case None
      then show ?thesis using good by (simp add: open_call_def run al)
    next
      case (Some i)
      then have i: "i < FILES_STRUCT_NENTRY" "f_status (file_at t i s) = FD_NONE" by (simp_all add: free_fd_Some)
      then have e: "f_open_count (file_at t i s) = 0" "f_fd (file_at t i s) = int i"
        using ftab_entry(1)[OF ok(1) t(1) i(1)] by (auto simp: entry_ok_def)
      have "file_open V path flags s = file_open_at V path flags (?acc \<noteq> O_WRONLY) (?acc \<noteq> O_RDONLY) t i
          (upd_fd t i (\<lambda>f. f\<lparr>f_status := FD_INIT, f_node := None\<rparr>) s)"
        using Some e(1) by (simp add: run al kassert_def)
      then show ?thesis using file_open_at_ok[OF ok(1,3,4) V t(1) i e, of path flags] good Some by (simp add: open_call_def)
    qed
  qed
qed

subsection \<open>Any sequence of file operations\<close>

datatype fop = FOpen string "32 word" | FClose int | FRead int "byte list" nat | FWrite int "byte list" nat
  | FSeek int int int | FStat int | FSync int | FDirent int dirent | FDup int int

fun run_fop :: "'a fstate_scheme inode_ops \<Rightarrow> fop \<Rightarrow> 'a fstate_scheme \<Rightarrow> (int \<times> 'a fstate_scheme) option" where
  "run_fop V (FOpen path flags) s = file_open V path flags s"
| "run_fop V (FClose fd) s = file_close V fd s"
| "run_fop V (FRead fd mem len) s = do { (r, c, mem', s') \<leftarrow> file_read V fd mem len s; Some (r, s') }"
| "run_fop V (FWrite fd mem len) s = do { (r, c, mem', s') \<leftarrow> file_write V fd mem len s; Some (r, s') }"
| "run_fop V (FSeek fd pos whence) s = file_seek V fd pos whence s"
| "run_fop V (FStat fd) s = do { (r, st, s') \<leftarrow> file_fstat V fd s; Some (r, s') }"
| "run_fop V (FSync fd) s = file_fsync V fd s"
| "run_fop V (FDirent fd d) s = do { (r, d', s') \<leftarrow> file_getdirentry V fd d s; Some (r, s') }"
| "run_fop V (FDup fd1 fd2) s = file_dup fd1 fd2 s"

fun run_fops :: "'a fstate_scheme inode_ops \<Rightarrow> fop list \<Rightarrow> 'a fstate_scheme \<Rightarrow> (int list \<times> 'a fstate_scheme) option" where
  "run_fops V [] s = Some ([], s)"
| "run_fops V (p # ps) s = do { (r, s1) \<leftarrow> run_fop V p s; (rs, s2) \<leftarrow> run_fops V ps s1; Some (r # rs, s2) }"

text \<open>The kernel stops: the table of the inode does not define the operation, or the operation stops by itself.\<close>

fun fop_stops :: "'a fstate_scheme inode_ops \<Rightarrow> fop \<Rightarrow> 'a fstate_scheme \<Rightarrow> bool" where
  "fop_stops V (FOpen path flags) s \<longleftrightarrow>
     (\<exists>t i. current_filesp s = Some t \<and> free_fd t s = Some i \<and>
        open_answer V path flags t i (upd_fd t i (\<lambda>f. f\<lparr>f_status := FD_INIT, f_node := None\<rparr>) s) = None)"
| "fop_stops V (FClose fd) s \<longleftrightarrow> False"
| "fop_stops V (FRead fd mem len) s \<longleftrightarrow> fd_stops Vread (io_stops (op_read V) mem len) f_readable fd s"
| "fop_stops V (FWrite fd mem len) s \<longleftrightarrow> fd_stops Vwrite (io_stops (op_write V) mem len) f_writable fd s"
| "fop_stops V (FSeek fd pos whence) s \<longleftrightarrow> seek_stops V fd pos whence s"
| "fop_stops V (FStat fd) s \<longleftrightarrow> False"
| "fop_stops V (FSync fd) s \<longleftrightarrow> fd_stops Vfsync (\<lambda>n e s1. op_fsync V n s1 = None) (\<lambda>_. True) fd s"
| "fop_stops V (FDirent fd d) s \<longleftrightarrow> fd_stops Vgetdirentry (dirent_stops V d) (\<lambda>_. True) fd s"
| "fop_stops V (FDup fd1 fd2) s \<longleftrightarrow> False"

text \<open>What one operation keeps.\<close>

definition step_ok :: "nat set \<Rightarrow> (nat \<Rightarrow> int) \<Rightarrow> (nat \<Rightarrow> int) \<Rightarrow> 'a fstate_scheme \<Rightarrow> 'a fstate_scheme \<Rightarrow> bool" where
  "step_ok T x y s s' \<longleftrightarrow> (\<exists>y'. (\<forall>m. y m \<le> y' m) \<and> ftab_ok T x y' s' \<and> devs_kept y' s') \<and> cur_ok T s' \<and>
     (\<forall>m. ref_count (inodes s' m) \<le> ref_count (inodes s m) + 2)"

lemma devs_kept_ops: "ops_kept s s' \<Longrightarrow> devs_kept y s \<Longrightarrow> (\<And>m. y m \<le> y' m) \<Longrightarrow> devs_kept y' s'"
  unfolding ops_kept_def devs_kept_def by (metis order_less_le_trans)

lemma pos_change_step:
  assumes "ftab_ok T x y s" "cur_ok T s" "devs_kept y s" "pos_change s s'"
  shows "step_ok T x y s s'"
proof -
  have "inodes s' = inodes s" using assms(4) by (simp add: pos_change_def)
  then show ?thesis using pos_change_ok[OF assms(4)] assms(1-3) by (auto simp: step_ok_def devs_kept_def)
qed

lemma others_same_cur: "others_same t i s s' \<Longrightarrow> cur_ok T s \<Longrightarrow> cur_ok T s'"
  by (simp add: others_same_def cur_ok_def)

lemma file_close_cases:
  assumes ok: "ftab_ok T x y s" "cur_ok T s" "refs_below 0 s" "devs_kept y s" and V: "vops_ok V"
  obtains "file_close V fd s = Some (- E_INVAL, s)"
  | t i n s' where "file_close V fd s = Some (0, s')" "current_filesp s = Some t" "t \<in> T" "i = nat fd" "i < FILES_STRUCT_NENTRY"
      "f_status (file_at t i s) = FD_OPENED" "f_node (file_at t i s) = Some n" "ftab_ok T x y s'"
      "files s' = files (upd_fd t i (\<lambda>f. f\<lparr>f_open_count := 0, f_status := FD_NONE\<rparr>) s)" "current_filesp s' = current_filesp s"
      "inodes s' = (inodes s)(n := (inodes s n)\<lparr>ref_count := ref_count (inodes s n) - 1, open_count := open_count (inodes s n) - 1\<rparr>)"
proof (rule fd2file_cases[OF ok(1,2), of fd])
  assume "fd2file fd s = Some (Inl (- E_INVAL))"
  then show ?thesis by (intro that(1)) (simp add: file_close_def)
next
  fix t i n
  assume r: "fd2file fd s = Some (Inr (t, i))" "t \<in> T" "current_filesp s = Some t" "i < FILES_STRUCT_NENTRY" "i = nat fd"
    "f_status (file_at t i s) = FD_OPENED" "f_node (file_at t i s) = Some n"
  obtain s' where s': "fd_array_close V t i s = Some s'" "ftab_ok T x y s'"
    "files s' = files (upd_fd t i (\<lambda>f. f\<lparr>f_open_count := 0, f_status := FD_NONE\<rparr>) s)" "current_filesp s' = current_filesp s"
    "inodes s' = (inodes s)(n := (inodes s n)\<lparr>ref_count := ref_count (inodes s n) - 1, open_count := open_count (inodes s n) - 1\<rparr>)"
    using fd_array_close_ok[OF ok(1,3,4) V r(2,4,6,7)] by blast
  have "file_close V fd s = Some (0, s')" using r(1) s'(1) by (simp add: file_close_def)
  then show ?thesis using that(2) r s' by blast
qed

lemma open_call_step:
  assumes "open_call V T x y path flags t s res" "current_filesp s = Some t" "ftab_ok T x y s" "cur_ok T s" "devs_kept y s"
  shows "if fop_stops V (FOpen path flags) s then res = None else \<exists>r s'. res = Some (r, s') \<and> step_ok T x y s s'"
proof -
  have refl: "step_ok T x y s s" using assms by (auto simp: step_ok_def)
  show ?thesis
  proof (cases "flags AND O_ACCMODE \<notin> {O_RDONLY, O_WRONLY, O_RDWR} \<or> free_fd t s = None")
    case True
    then have "\<not> fop_stops V (FOpen path flags) s"
      using assms(2) by (auto simp: open_answer_def vfs_answer_def Let_def)
    then show ?thesis using True assms(1) refl by (auto simp: open_call_def split: if_splits)
  next
    case False
    then obtain i where i: "free_fd t s = Some i" by auto
    let ?a = "open_answer V path flags t i (upd_fd t i (\<lambda>f. f\<lparr>f_status := FD_INIT, f_node := None\<rparr>) s)"
    have st: "fop_stops V (FOpen path flags) s \<longleftrightarrow> ?a = None" using assms(2) i by simp
    consider (stop) "?a = None" | (bad) e where "?a = Some (Inl e)" | (fine) n p where "?a = Some (Inr (n, p))" by (metis not_None_eq old.sum.exhaust surj_pair)
    then show ?thesis
    proof cases
      case stop
      then show ?thesis using st False i assms(1) by (auto simp: open_call_def)
    next
      case bad
      then obtain s' l where s': "res = Some (e, s')" "leaks flags l" "open_refused T x y l t i s s'"
        using False i assms(1) by (auto simp: open_call_def)
      have "devs_kept (\<lambda>m. y m + l m) s'"
        using devs_kept_ops[OF _ assms(5), of s' "\<lambda>m. y m + l m"] s'(2,3) by (simp add: open_refused_def leaks_def)
      moreover have "ref_count (inodes s' m) \<le> ref_count (inodes s m) + 2" for m
      proof -
        have "l m \<le> 1" using s'(2) by (simp add: leaks_def)
        then show ?thesis using s'(3) by (simp add: open_refused_def)
      qed
      moreover have "\<forall>m. y m \<le> y m + l m" using s'(2) by (simp add: leaks_def)
      ultimately have "step_ok T x y s s'"
        using s'(3) others_same_cur[OF _ assms(4), of t i s'] unfolding step_ok_def open_refused_def
        by (intro conjI allI exI[of _ "\<lambda>m. y m + l m"]) auto
      then show ?thesis using st bad s'(1) by simp
    next
      case fine
      then obtain s' f where s': "res = Some (int i, s')" "open_done T x y t i n f s s'"
        using False i assms(1) by (auto simp: open_call_def)
      have "devs_kept y s'" using devs_kept_ops[OF _ assms(5), of s' y] s'(2) by (simp add: open_done_def)
      then have "step_ok T x y s s'" using s'(2) others_same_cur[OF _ assms(4)] by (auto simp: step_ok_def open_done_def)
      then show ?thesis using st fine s'(1) by simp
    qed
  qed
qed

lemma run_fop_ok:
  assumes ok: "ftab_ok T x y s" "cur_ok T s" "devs_kept y s" "refs_below 3 s" and V: "vops_ok V"
  shows "if fop_stops V p s then run_fop V p s = None else \<exists>r s'. run_fop V p s = Some (r, s') \<and> step_ok T x y s s'"
proof -
  have r0: "refs_below 0 s" using refs_below_mono[OF ok(4)] by simp
  note pc = pos_change_step[OF ok(1-3)]
  have refl: "step_ok T x y s s" using ok by (auto simp: step_ok_def)
  show ?thesis
  proof (cases p)
    case (FOpen path flags)
    obtain t where "current_filesp s = Some t" using ok(2) by (auto simp: cur_ok_def)
    then show ?thesis using open_call_step[OF file_open_ok[OF ok V] _ ok(1-3)] FOpen by simp
  next
    case (FClose fd)
    show ?thesis
    proof (rule file_close_cases[OF ok(1,2) r0 ok(3) V, of fd])
      assume "file_close V fd s = Some (- E_INVAL, s)"
      then show ?thesis using FClose refl by simp
    next
      fix t i n s'
      assume a: "file_close V fd s = Some (0, s')" "ftab_ok T x y s'"
        "files s' = files (upd_fd t i (\<lambda>f. f\<lparr>f_open_count := 0, f_status := FD_NONE\<rparr>) s)" "current_filesp s' = current_filesp s"
        "inodes s' = (inodes s)(n := (inodes s n)\<lparr>ref_count := ref_count (inodes s n) - 1, open_count := open_count (inodes s n) - 1\<rparr>)"
      have "cur_ok T s'" by (rule others_same_cur[OF others_same_upd[OF a(3,4)] ok(2)])
      moreover have "devs_kept y s'" using ok(3) by (simp add: devs_kept_def a(5))
      ultimately have "step_ok T x y s s'" using a(2,5) by (auto simp: step_ok_def)
      then show ?thesis using a(1) FClose by simp
    qed
  next
    case (FDup fd1 fd2)
    show ?thesis
    proof (rule file_dup_ok[OF ok(1,2), of fd1 fd2])
      fix e assume "file_dup fd1 fd2 s = Some (e, s)"
      then show ?thesis using FDup refl by simp
    next
      fix t i j n s'
      assume a: "file_dup fd1 fd2 s = Some (int i, s')" "ftab_ok T x y s'" "current_filesp s = Some t" "current_filesp s' = Some t"
        "files s' = files (upd_fd t i (dup_of (file_at t j s)) s)"
        "inodes s' = (inodes s)(n := (inodes s n)\<lparr>ref_count := ref_count (inodes s n) + 1, open_count := open_count (inodes s n) + 1\<rparr>)"
      have "cur_ok T s'" by (rule others_same_cur[OF others_same_upd[OF a(5)] ok(2)]) (use a(3,4) in simp)
      moreover have "devs_kept y s'" using ok(3) by (simp add: devs_kept_def a(6))
      ultimately have "step_ok T x y s s'" using a(2,6) by (auto simp: step_ok_def)
      then show ?thesis using a(1) FDup by simp
    qed
  next
    case (FRead fd mem len)
    then show ?thesis using file_read_ok[OF ok(1,2) r0 V, of mem len fd] pc by (auto split: if_splits)
  next
    case (FWrite fd mem len)
    then show ?thesis using file_write_ok[OF ok(1,2) r0 V, of mem len fd] pc by (auto split: if_splits)
  next
    case (FSeek fd pos whence)
    then show ?thesis using file_seek_ok[OF ok(1,2) r0 V, of fd pos whence] pc by (auto split: if_splits)
  next
    case (FStat fd)
    then show ?thesis using file_fstat_ok[OF ok(1,2) r0 V, of fd] pc by auto
  next
    case (FSync fd)
    then show ?thesis using file_fsync_ok[OF ok(1,2) r0 V, of fd] pc by (auto split: if_splits)
  next
    case (FDirent fd d)
    then show ?thesis using file_getdirentry_ok[OF ok(1,2) r0 V, of d fd] pc by (auto split: if_splits)
  qed
qed

text \<open>Some call of the sequence is one that stops the kernel.\<close>

definition some_stops :: "'a fstate_scheme inode_ops \<Rightarrow> fop list \<Rightarrow> 'a fstate_scheme \<Rightarrow> bool" where
  "some_stops V ps s \<longleftrightarrow> (\<exists>ps1 p ps2 rs s1. ps = ps1 @ p # ps2 \<and> run_fops V ps1 s = Some (rs, s1) \<and> fop_stops V p s1)"

lemma some_stops_Cons:
  assumes "run_fop V p s = Some (r, s1)" "\<not> fop_stops V p s"
  shows "some_stops V (p # ps) s = some_stops V ps s1"
proof
  assume "some_stops V (p # ps) s"
  then obtain ps1 q ps2 rs s2 where q: "p # ps = ps1 @ q # ps2" "run_fops V ps1 s = Some (rs, s2)" "fop_stops V q s2"
    by (auto simp: some_stops_def)
  show "some_stops V ps s1"
  proof (cases ps1)
    case Nil
    then show ?thesis using q assms(2) by simp
  next
    case (Cons p' ps1')
    then obtain rs' where "run_fops V ps1' s1 = Some (rs', s2)" using q(1,2) assms(1) by (auto simp: bind_eq_Some_conv)
    then show ?thesis using q(1,3) Cons by (auto simp: some_stops_def)
  qed
next
  assume "some_stops V ps s1"
  then obtain ps1 q ps2 rs s2 where q: "ps = ps1 @ q # ps2" "run_fops V ps1 s1 = Some (rs, s2)" "fop_stops V q s2"
    by (auto simp: some_stops_def)
  have "p # ps = (p # ps1) @ q # ps2" "run_fops V (p # ps1) s = Some (r # rs, s2)" using q(1,2) assms(1) by simp_all
  then show "some_stops V (p # ps) s" unfolding some_stops_def using q(3) by blast
qed

lemma run_fops_ok:
  assumes "ftab_ok T x y s" "cur_ok T s" "devs_kept y s" "refs_below (2 * int (length ps) + 1) s" "vops_ok V"
  shows "if some_stops V ps s then run_fops V ps s = None
    else \<exists>rs s' y'. run_fops V ps s = Some (rs, s') \<and> (\<forall>m. y m \<le> y' m) \<and> ftab_ok T x y' s' \<and> cur_ok T s' \<and> devs_kept y' s'"
  using assms(1-4)
proof (induction ps arbitrary: s y)
  case Nil
  have "\<not> some_stops V [] s" by (simp add: some_stops_def)
  then show ?case using Nil by auto
next
  case (Cons p ps)
  have r3: "refs_below 3 s" using refs_below_mono[OF Cons.prems(4), of 3] by simp
  show ?case
  proof (cases "fop_stops V p s")
    case True
    have "some_stops V (p # ps) s" unfolding some_stops_def
      by (rule exI[of _ "[]"], rule exI[of _ p], rule exI[of _ ps]) (use True in simp)
    then show ?thesis using True run_fop_ok[OF Cons.prems(1-3) r3 assms(5), of p] by simp
  next
    case False
    then obtain r s1 where s1: "run_fop V p s = Some (r, s1)" "step_ok T x y s s1"
      using run_fop_ok[OF Cons.prems(1-3) r3 assms(5), of p] by auto
    then obtain y1 where y1: "\<forall>m. y m \<le> y1 m" "ftab_ok T x y1 s1" "cur_ok T s1" "devs_kept y1 s1"
      "\<forall>m. ref_count (inodes s1 m) \<le> ref_count (inodes s m) + 2" by (auto simp: step_ok_def)
    have "refs_below (2 * int (length ps) + 1) s1"
      unfolding refs_below_def
    proof
      fix m
      have "ref_count (inodes s m) + (2 * int (length (p # ps)) + 1) < MAX_INODE_COUNT"
        using Cons.prems(4) by (simp add: refs_below_def)
      then show "ref_count (inodes s1 m) + (2 * int (length ps) + 1) < MAX_INODE_COUNT" using spec[OF y1(5), of m] by simp
    qed
    note ih = Cons.IH[OF y1(2-4) this]
    have "some_stops V (p # ps) s = some_stops V ps s1" by (rule some_stops_Cons[OF s1(1) False])
    moreover have "\<forall>m. y1 m \<le> y2 m \<Longrightarrow> \<forall>m. y m \<le> y2 m" for y2 using y1(1) order_trans by blast
    ultimately show ?thesis using ih s1(1) by (auto split: if_splits) blast
  qed
qed

end
