(* ===== verification/FileShare.thy ===== *)
theory FileShare
  imports FileSpec
begin

text \<open>
  Sharing open files between processes: the table a child gets from its parent when it is
  forked, and the table of a process that ends. Properties of the file layer.
\<close>

subsection \<open>A new table\<close>

lemma fd_array_init_nth:
  "i < length fs \<Longrightarrow> fd_array_init fs ! i = (fs ! i)\<lparr>f_open_count := 0, f_status := FD_NONE, f_fd := int i\<rparr>"
  by (simp add: fd_array_init_def nth_enumerate_eq)

lemma length_fd_array_init [simp]: "length (fd_array_init fs) = length fs"
  by (simp add: fd_array_init_def)

lemma held_none: "(\<And>f. f \<in> set fs \<Longrightarrow> f_status f = FD_NONE) \<Longrightarrow> held n fs = 0"
  by (auto simp: held_def holds_def filter_empty_conv)

lemma holders_insert:
  assumes "finite T" "t \<notin> T" "\<And>f. f \<in> set (fd_array (F t)) \<Longrightarrow> f_status f = FD_NONE"
  shows "holders (insert t T) F n = holders T F n"
  using assms held_none[of "fd_array (F t)" n] by (simp add: holders_def)

text \<open>What the memory for a table has to be.\<close>

definition alloc_ok :: "('a fstate_scheme \<Rightarrow> (nat \<times> file_entry list) option \<times> 'a fstate_scheme) \<Rightarrow> nat set \<Rightarrow> bool" where
  "alloc_ok alloc T \<longleftrightarrow> (\<forall>s. quiet s (snd (alloc s)) \<and>
     (case fst (alloc s) of None \<Rightarrow> True | Some (t, junk) \<Rightarrow> t \<notin> T \<and> length junk = FILES_STRUCT_NENTRY))"

lemma files_create_ok:
  assumes ok: "ftab_ok T x y s" and al: "alloc_ok alloc T" and c: "files_create alloc s = (Some t, s')"
  shows "t \<notin> T" "ftab_ok (insert t T) x y s'" "inodes s' = inodes s" "current_filesp s' = current_filesp s"
    "\<And>t'. t' \<noteq> t \<Longrightarrow> files s' t' = files s t'" "files_count (files s' t) = 0" "pwd (files s' t) = None"
    "\<And>i. i < FILES_STRUCT_NENTRY \<Longrightarrow> f_status (file_at t i s') = FD_NONE"
proof -
  obtain junk s1 where a: "alloc s = (Some (t, junk), s1)"
    using c by (cases "alloc s") (auto simp: files_create_def split: option.splits)
  have q: "quiet s s1" "t \<notin> T" "length junk = FILES_STRUCT_NENTRY"
    using al a unfolding alloc_ok_def by (auto dest!: spec[of _ s])
  have s': "s' = upd_files t (\<lambda>_. \<lparr>pwd = None, fd_array = fd_array_init junk, files_count = 0\<rparr>) s1"
    using c a by (simp add: files_create_def)
  show "t \<notin> T" by fact
  show f: "inodes s' = inodes s" "current_filesp s' = current_filesp s" "\<And>t'. t' \<noteq> t \<Longrightarrow> files s' t' = files s t'"
    "files_count (files s' t) = 0" "pwd (files s' t) = None" using q(1) by (simp_all add: s' upd_files_def quiet_def)
  have e: "file_at t i s' = (junk ! i)\<lparr>f_open_count := 0, f_status := FD_NONE, f_fd := int i\<rparr>" if "i < FILES_STRUCT_NENTRY" for i
    using that q(3) by (simp add: s' upd_files_def file_at_def fd_array_init_nth)
  then show "\<And>i. i < FILES_STRUCT_NENTRY \<Longrightarrow> f_status (file_at t i s') = FD_NONE" by simp
  have len: "length (fd_array (files s' t)) = FILES_STRUCT_NENTRY" using q(3) by (simp add: s' upd_files_def)
  have "f_status g = FD_NONE" if g: "g \<in> set (fd_array (files s' t))" for g
  proof -
    obtain i where "i < FILES_STRUCT_NENTRY" "g = file_at t i s'" using g len by (auto simp: in_set_conv_nth file_at_def)
    then show ?thesis using e by simp
  qed
  then have h: "holders (insert t T) (files s') n = holders T (files s) n" for n
    using holders_insert[of T t "files s'" n] ok q(2) f(3)
    by (auto simp: ftab_ok_def holders_def intro!: sum.cong) (metis)
  have at: "file_at t' i s' = file_at t' i s" if "t' \<in> T" for t' i using that f(3) q(2) by (metis file_at_def)
  have "entry_ok i (file_at t i s')" if "i < FILES_STRUCT_NENTRY" for i using e[OF that] by (simp add: entry_ok_def)
  moreover have "length (fd_array (files s' t')) = FILES_STRUCT_NENTRY" if "t' \<in> T" for t'
    using that f(3) q(2) ok by (metis ftab_ok_def)
  ultimately show "ftab_ok (insert t T) x y s'"
    using ok len at by (auto simp: ftab_ok_def h f(1))
qed

subsection \<open>Copying a table\<close>

definition same_ops :: "'a fstate_scheme \<Rightarrow> 'a fstate_scheme \<Rightarrow> bool" where
  "same_ops s s' \<longleftrightarrow> (\<forall>m. in_ops (inodes s' m) = in_ops (inodes s m))"

lemma same_ops_refl [simp]: "same_ops s s"
  by (simp add: same_ops_def)

lemma same_ops_trans: "same_ops s s' \<Longrightarrow> same_ops s' s'' \<Longrightarrow> same_ops s s''"
  by (simp add: same_ops_def)

lemma devs_kept_same: "same_ops s s' \<Longrightarrow> devs_kept y s' = devs_kept y s"
  by (simp add: same_ops_def devs_kept_def)

lemma file_at_files: "files s' = files s \<Longrightarrow> file_at t i s' = file_at t i s"
  by (simp add: file_at_def)

lemma dup_of_status [simp]: "dup_of g (f\<lparr>f_status := st\<rparr>) = dup_of g f"
  by (simp add: dup_of_def)

lemma dup_files_loop_ok:
  assumes "ftab_ok T x y s" "tt \<in> T" "ft \<in> T" "tt \<noteq> ft" "distinct js" "\<forall>i\<in>set js. i < FILES_STRUCT_NENTRY"
    "\<forall>i\<in>set js. f_status (file_at tt i s) = FD_NONE"
  shows "\<exists>s'. dup_files_loop tt ft js s = Some s' \<and> ftab_ok T x y s' \<and> same_ops s s' \<and> current_filesp s' = current_filesp s \<and>
    (\<forall>t. files_count (files s' t) = files_count (files s t) \<and> pwd (files s' t) = pwd (files s t)) \<and>
    (\<forall>t. t \<noteq> tt \<longrightarrow> files s' t = files s t) \<and>
    (\<forall>i. file_at tt i s' = (if i \<in> set js \<and> f_status (file_at ft i s) = FD_OPENED
       then dup_of (file_at ft i s) (file_at tt i s) else file_at tt i s))"
  using assms(1,5-7)
proof (induction js arbitrary: s)
  case (Cons i js)
  have i: "i < FILES_STRUCT_NENTRY" "f_status (file_at tt i s) = FD_NONE" "i \<notin> set js" using Cons.prems by auto
  have len: "i < length (fd_array (files s tt))" using ftab_entry(2)[OF Cons.prems(1) assms(2) i(1)] .
  have ent: "entry_ok i (file_at tt i s)" "entry_ok i (file_at ft i s)"
    using ftab_entry(1)[OF Cons.prems(1) _ i(1)] assms(2,3) by auto
  show ?case
  proof (cases "f_status (file_at ft i s) = FD_OPENED")
    case False
    have "\<exists>s'. dup_files_loop tt ft js s = Some s' \<and> ftab_ok T x y s' \<and> same_ops s s' \<and> current_filesp s' = current_filesp s \<and>
      (\<forall>t. files_count (files s' t) = files_count (files s t) \<and> pwd (files s' t) = pwd (files s t)) \<and>
      (\<forall>t. t \<noteq> tt \<longrightarrow> files s' t = files s t) \<and>
      (\<forall>i. file_at tt i s' = (if i \<in> set js \<and> f_status (file_at ft i s) = FD_OPENED
         then dup_of (file_at ft i s) (file_at tt i s) else file_at tt i s))"
      by (rule Cons.IH) (use Cons.prems in auto)
    then show ?thesis using False by auto
  next
    case True
    obtain n where n: "f_node (file_at ft i s) = Some n" using ent(2) True by (auto simp: entry_ok_def)
    let ?u = "upd_fd tt i (\<lambda>f. f\<lparr>f_status := FD_INIT\<rparr>) s"
    have ne: "(ft, i) \<noteq> (tt, i)" using assms(4) by auto
    have at: "file_at ft i ?u = file_at ft i s" "file_at tt i ?u = (file_at tt i s)\<lparr>f_status := FD_INIT\<rparr>"
      using ne len by auto
    obtain s1 where s1: "fd_array_dup tt i ft i ?u = Some s1" "files s1 = files (upd_fd tt i (dup_of (file_at ft i ?u)) ?u)"
      "current_filesp s1 = current_filesp ?u"
      "inodes s1 = (inodes ?u)(n := (inodes ?u n)\<lparr>ref_count := ref_count (inodes ?u n) + 1, open_count := open_count (inodes ?u n) + 1\<rparr>)"
      using fd_array_dup_ok[OF _ _ _ ne, of ?u n] at len ent(1) True n i(2) by (auto simp: entry_ok_def)
    have fs: "files s1 = files (upd_fd tt i (dup_of (file_at ft i s)) s)"
      using s1(2) len at(1) by (simp add: upd_fd_def upd_files_def)
    have ok1: "ftab_ok T x y s1"
      by (rule ftab_ok_upd[OF Cons.prems(1) assms(2) i(1) fs])
        (use i(2) n ent(1) s1(4) in \<open>auto simp: entry_ok_def holds_def dup_of_def\<close>)
    have at1: "file_at t j s1 = (if (t, j) = (tt, i) then dup_of (file_at ft i s) (file_at tt i s) else file_at t j s)" for t j
      unfolding file_at_def fs using len by (auto simp: upd_file_files file_at_def nth_list_update)
    have "\<exists>s'. dup_files_loop tt ft js s1 = Some s' \<and> ftab_ok T x y s' \<and> same_ops s1 s' \<and> current_filesp s' = current_filesp s1 \<and>
      (\<forall>t. files_count (files s' t) = files_count (files s1 t) \<and> pwd (files s' t) = pwd (files s1 t)) \<and>
      (\<forall>t. t \<noteq> tt \<longrightarrow> files s' t = files s1 t) \<and>
      (\<forall>i. file_at tt i s' = (if i \<in> set js \<and> f_status (file_at ft i s1) = FD_OPENED
         then dup_of (file_at ft i s1) (file_at tt i s1) else file_at tt i s1))"
      by (rule Cons.IH[OF ok1]) (use Cons.prems at1 in auto)
    then obtain s' where s': "dup_files_loop tt ft js s1 = Some s'" "ftab_ok T x y s'" "current_filesp s' = current_filesp s"
      "\<forall>t. files_count (files s' t) = files_count (files s t) \<and> pwd (files s' t) = pwd (files s t)"
      "\<forall>t. t \<noteq> tt \<longrightarrow> files s' t = files s1 t"
      "\<forall>i. file_at tt i s' = (if i \<in> set js \<and> f_status (file_at ft i s1) = FD_OPENED
         then dup_of (file_at ft i s1) (file_at tt i s1) else file_at tt i s1)" "same_ops s1 s'" using s1(3) fs by auto
    have "same_ops s s1" by (simp add: same_ops_def s1(4))
    then have ops: "same_ops s s'" using s'(7) by (rule same_ops_trans)
    have "file_at tt j s' = (if j \<in> set (i # js) \<and> f_status (file_at ft j s) = FD_OPENED
         then dup_of (file_at ft j s) (file_at tt j s) else file_at tt j s)" for j
      using s'(6) at1 i(3) True assms(4) by (cases "j = i") auto
    moreover have "\<forall>t. t \<noteq> tt \<longrightarrow> files s' t = files s t" using s'(5) fs by (simp add: upd_fd_def upd_files_def)
    moreover have "dup_files_loop tt ft (i # js) s = Some s'" using True s1(1) s'(1) by simp
    ultimately show ?thesis using s'(2-4) ops by blast
  qed
qed simp

lemma dup_files_ok:
  assumes ok: "ftab_ok T x y s" and t: "tt \<in> T" "ft \<in> T" "tt \<noteq> ft" "files_count (files s tt) = 0" "0 < files_count (files s ft)"
    and e: "\<forall>i<FILES_STRUCT_NENTRY. f_status (file_at tt i s) = FD_NONE"
  shows "\<exists>s'. dup_files tt ft s = Some (0, s') \<and>
    ftab_ok T x (\<lambda>m. y m + of_bool (pwd (files s ft) = Some m)) s' \<and> same_ops s s' \<and> current_filesp s' = current_filesp s \<and>
    files_count (files s' tt) = 0 \<and> pwd (files s' tt) = pwd (files s ft) \<and> (\<forall>t. t \<noteq> tt \<longrightarrow> files s' t = files s t) \<and>
    (\<forall>i<FILES_STRUCT_NENTRY. file_at tt i s' = (if f_status (file_at ft i s) = FD_OPENED
       then dup_of (file_at ft i s) (file_at tt i s) else file_at tt i s))"
proof -
  define s1 where "s1 = upd_files tt (\<lambda>z. z\<lparr>pwd := pwd (files s ft)\<rparr>) s"
  define s2 where "s2 = (case pwd (files s1 tt) of None \<Rightarrow> s1 | Some n \<Rightarrow> inode_ref_inc n s1)"
  have f2: "files s2 = (files s)(tt := (files s tt)\<lparr>pwd := pwd (files s ft)\<rparr>)" "current_filesp s2 = current_filesp s"
    by (auto simp: s2_def s1_def upd_files_def inode_ref_inc_def upd_inode_def split: option.splits)
  have at2: "file_at t i s2 = file_at t i s" for t i by (simp add: file_at_def f2)
  have h: "holders T (files s2) n = holders T (files s) n" for n
    unfolding holders_def by (rule sum.cong) (auto simp: f2)
  have i2: "open_count (inodes s2 m) = open_count (inodes s m)"
    "ref_count (inodes s2 m) = ref_count (inodes s m) + of_bool (pwd (files s ft) = Some m)" "in_ops (inodes s2 m) = in_ops (inodes s m)" for m
    by (auto simp: s2_def s1_def upd_files_def inode_ref_inc_def upd_inode_def split: option.splits)
  have ok2: "ftab_ok T x (\<lambda>m. y m + of_bool (pwd (files s ft) = Some m)) s2"
    using ok unfolding ftab_ok_def h i2 at2 by (auto simp: f2 intro: order_trans)
  have "\<exists>s'. dup_files_loop tt ft [0..<FILES_STRUCT_NENTRY] s2 = Some s' \<and>
    ftab_ok T x (\<lambda>m. y m + of_bool (pwd (files s ft) = Some m)) s' \<and> same_ops s2 s' \<and> current_filesp s' = current_filesp s2 \<and>
    (\<forall>t. files_count (files s' t) = files_count (files s2 t) \<and> pwd (files s' t) = pwd (files s2 t)) \<and>
    (\<forall>t. t \<noteq> tt \<longrightarrow> files s' t = files s2 t) \<and>
    (\<forall>i. file_at tt i s' = (if i \<in> set [0..<FILES_STRUCT_NENTRY] \<and> f_status (file_at ft i s2) = FD_OPENED
       then dup_of (file_at ft i s2) (file_at tt i s2) else file_at tt i s2))"
    by (rule dup_files_loop_ok[OF ok2 t(1-3)]) (use e at2 in auto)
  then obtain s' where s': "dup_files_loop tt ft [0..<FILES_STRUCT_NENTRY] s2 = Some s'"
    "ftab_ok T x (\<lambda>m. y m + of_bool (pwd (files s ft) = Some m)) s'" "current_filesp s' = current_filesp s"
    "\<forall>t. files_count (files s' t) = files_count (files s2 t) \<and> pwd (files s' t) = pwd (files s2 t)"
    "\<forall>t. t \<noteq> tt \<longrightarrow> files s' t = files s2 t"
    "\<forall>i. file_at tt i s' = (if i \<in> set [0..<FILES_STRUCT_NENTRY] \<and> f_status (file_at ft i s2) = FD_OPENED
       then dup_of (file_at ft i s2) (file_at tt i s2) else file_at tt i s2)" "same_ops s2 s'" using f2(2) by auto
  have "same_ops s s'" using same_ops_trans[OF _ s'(7)] i2(3) by (simp add: same_ops_def)
  moreover have "dup_files tt ft s = Some (0, s')"
    using t(4,5) s'(1) by (simp add: dup_files_def kassert_def s1_def[symmetric] s2_def[symmetric])
  ultimately show ?thesis using s'(2-6) t(3,4) by (auto simp: f2 at2)
qed

subsection \<open>Giving up a table\<close>

lemma files_destroy_loop_ok:
  assumes "ftab_ok T x y s" "refs_below 0 s" "vops_ok V" "t \<in> T" "distinct js" "\<forall>i\<in>set js. i < FILES_STRUCT_NENTRY" "devs_kept y s"
  shows "\<exists>s'. files_destroy_loop V t js s = Some s' \<and> ftab_ok T x y s' \<and> refs_below 0 s' \<and> same_ops s s' \<and> current_filesp s' = current_filesp s \<and>
    (\<forall>t'. t' \<noteq> t \<longrightarrow> files s' t' = files s t') \<and> (\<forall>i\<in>set js. f_status (file_at t i s') = FD_NONE) \<and>
    (\<forall>i. i \<notin> set js \<longrightarrow> file_at t i s' = file_at t i s)"
  using assms(1,2,5-7)
proof (induction js arbitrary: s)
  case (Cons i js)
  have i: "i < FILES_STRUCT_NENTRY" "i \<notin> set js" using Cons.prems by auto
  have ent: "entry_ok i (file_at t i s)" "i < length (fd_array (files s t))" using ftab_entry[OF Cons.prems(1) assms(4) i(1)] by auto
  have "\<exists>s1. (if f_status (file_at t i s) = FD_OPENED then fd_array_close V t i s else Some s) = Some s1 \<and>
    ftab_ok T x y s1 \<and> refs_below 0 s1 \<and> same_ops s s1 \<and> current_filesp s1 = current_filesp s \<and> (\<forall>t'. t' \<noteq> t \<longrightarrow> files s1 t' = files s t') \<and>
    f_status (file_at t i s1) = FD_NONE \<and> (\<forall>j. j \<noteq> i \<longrightarrow> file_at t j s1 = file_at t j s)"
  proof (cases "f_status (file_at t i s) = FD_OPENED")
    case False
    then show ?thesis using Cons.prems ent(1) by (auto simp: entry_ok_def)
  next
    case True
    obtain n where n: "f_node (file_at t i s) = Some n" using ent(1) True by (auto simp: entry_ok_def)
    obtain s1 where s1: "fd_array_close V t i s = Some s1" "ftab_ok T x y s1"
      "files s1 = files (upd_fd t i (\<lambda>f. f\<lparr>f_open_count := 0, f_status := FD_NONE\<rparr>) s)" "current_filesp s1 = current_filesp s"
      "inodes s1 = (inodes s)(n := (inodes s n)\<lparr>ref_count := ref_count (inodes s n) - 1, open_count := open_count (inodes s n) - 1\<rparr>)"
      using fd_array_close_ok[OF Cons.prems(1,2,5) assms(3,4) i(1) True n] by blast
    have "f_status (file_at t i s1) = FD_NONE" "\<forall>j. j \<noteq> i \<longrightarrow> file_at t j s1 = file_at t j s" "\<forall>t'. t' \<noteq> t \<longrightarrow> files s1 t' = files s t'"
      using ent(2) by (auto simp: file_at_def s1(3) upd_fd_def upd_files_def)
    moreover have "refs_below 0 s1"
      unfolding refs_below_def s1(5)
    proof
      fix m
      have "ref_count (inodes s m) < MAX_INODE_COUNT" using Cons.prems(2) by (simp add: refs_below_def)
      then show "ref_count (((inodes s)(n := (inodes s n)\<lparr>ref_count := ref_count (inodes s n) - 1, open_count := open_count (inodes s n) - 1\<rparr>)) m) + 0 < MAX_INODE_COUNT"
        by auto
    qed
    moreover have "same_ops s s1" by (simp add: same_ops_def s1(5))
    ultimately show ?thesis using True s1(1,2,4) by auto
  qed
  then obtain s1 where s1: "(if f_status (file_at t i s) = FD_OPENED then fd_array_close V t i s else Some s) = Some s1"
    "ftab_ok T x y s1" "refs_below 0 s1" "current_filesp s1 = current_filesp s" "\<forall>t'. t' \<noteq> t \<longrightarrow> files s1 t' = files s t'"
    "f_status (file_at t i s1) = FD_NONE" "\<forall>j. j \<noteq> i \<longrightarrow> file_at t j s1 = file_at t j s" "same_ops s s1" by blast
  obtain s' where s': "files_destroy_loop V t js s1 = Some s'" "ftab_ok T x y s'" "refs_below 0 s'" "current_filesp s' = current_filesp s1"
    "\<forall>t'. t' \<noteq> t \<longrightarrow> files s' t' = files s1 t'" "\<forall>i\<in>set js. f_status (file_at t i s') = FD_NONE"
    "\<forall>i. i \<notin> set js \<longrightarrow> file_at t i s' = file_at t i s1" "same_ops s1 s'"
    using Cons.IH[OF s1(2,3)] Cons.prems(3-5) devs_kept_same[OF s1(8)] by auto
  have "files_destroy_loop V t (i # js) s = Some s'" using s1(1,6) s'(1) by (simp add: kassert_def)
  moreover have "\<forall>j\<in>set (i # js). f_status (file_at t j s') = FD_NONE" using s'(6,7) s1(6) i(2) by auto
  moreover have "\<forall>j. j \<notin> set (i # js) \<longrightarrow> file_at t j s' = file_at t j s" using s'(7) s1(7) by auto
  ultimately show ?case using s'(2-5) s1(4,5) same_ops_trans[OF s1(8) s'(8)] by auto
qed simp

lemma ftab_ok_shrink:
  assumes ok: "ftab_ok (insert t T) x y s" and t: "t \<notin> T" and e: "\<forall>i<FILES_STRUCT_NENTRY. f_status (file_at t i s) = FD_NONE"
  shows "ftab_ok T x y s"
proof -
  have len: "length (fd_array (files s t)) = FILES_STRUCT_NENTRY" using ok by (simp add: ftab_ok_def)
  have "f_status f = FD_NONE" if f: "f \<in> set (fd_array (files s t))" for f
  proof -
    obtain i where "i < FILES_STRUCT_NENTRY" "f = file_at t i s" using f len by (auto simp: in_set_conv_nth file_at_def)
    then show ?thesis using e by simp
  qed
  then have "holders (insert t T) (files s) n = holders T (files s) n" for n
    using holders_insert[of T t "files s" n] ok t by (simp add: ftab_ok_def)
  then show ?thesis using ok by (simp add: ftab_ok_def)
qed

lemma files_destroy_ok:
  assumes ok: "ftab_ok (insert t T) x y s" "refs_below 0 s" and V: "vops_ok V" and t: "t \<notin> T" "files_count (files s t) = 0"
    and p: "\<And>n. pwd (files s t) = Some n \<Longrightarrow> x n < y n" and d: "devs_kept (\<lambda>m. y m - of_bool (pwd (files s t) = Some m)) s"
  shows "\<exists>s'. files_destroy V t s = Some s' \<and> same_ops s s' \<and> ftab_ok T x (\<lambda>m. y m - of_bool (pwd (files s t) = Some m)) s' \<and>
    current_filesp s' = current_filesp s \<and> (\<forall>t'. t' \<noteq> t \<longrightarrow> files s' t' = files s t')"
proof -
  let ?y = "\<lambda>m. y m - of_bool (pwd (files s t) = Some m)"
  have "\<exists>s1. (case pwd (files s t) of None \<Rightarrow> Some s | Some n \<Rightarrow> inode_ref_dec V n s) = Some s1 \<and>
    ftab_ok (insert t T) x ?y s1 \<and> refs_below 0 s1 \<and> same_ops s s1 \<and> files s1 = files s \<and> current_filesp s1 = current_filesp s"
  proof (cases "pwd (files s t)")
    case None
    then show ?thesis using ok by simp
  next
    case (Some n)
    have c: "0 \<le> open_count (inodes s n)" "open_count (inodes s n) < ref_count (inodes s n)" "ref_count (inodes s n) < MAX_INODE_COUNT"
      using ok p[OF Some] holders_nonneg[of "insert t T" "files s" n] by (auto simp: ftab_ok_def refs_below_def)
    have rc: "has_op Vreclaim n s" if "ref_count (inodes s n) = 1"
    proof (rule ccontr)
      assume "\<not> has_op Vreclaim n s"
      then have "1 < y n" using d Some by (auto simp: devs_kept_def)
      then show False using that ok(1) holders_nonneg[of "insert t T" "files s" n] by (auto simp: ftab_ok_def)
    qed
    obtain s1 where s1: "inode_ref_dec V n s = Some s1" "files s1 = files s" "current_filesp s1 = current_filesp s"
      "inodes s1 = (inodes s)(n := (inodes s n)\<lparr>ref_count := ref_count (inodes s n) - 1\<rparr>)"
      using inode_ref_dec_ok[OF V c rc] by blast
    have "ftab_ok (insert t T) x ?y s1"
      using ok(1) p[OF Some] Some unfolding ftab_ok_def s1(2,4) file_at_files[OF s1(2)] by auto
    moreover have "refs_below 0 s1" unfolding refs_below_def
    proof
      fix m
      have "ref_count (inodes s m) < MAX_INODE_COUNT" using ok(2) by (simp add: refs_below_def)
      then show "ref_count (inodes s1 m) + 0 < MAX_INODE_COUNT" by (auto simp: s1(4))
    qed
    moreover have "same_ops s s1" by (simp add: same_ops_def s1(4))
    ultimately show ?thesis using Some s1 by simp
  qed
  then obtain s1 where s1: "(case pwd (files s t) of None \<Rightarrow> Some s | Some n \<Rightarrow> inode_ref_dec V n s) = Some s1"
    "ftab_ok (insert t T) x ?y s1" "refs_below 0 s1" "files s1 = files s" "current_filesp s1 = current_filesp s" "same_ops s s1" by blast
  have "\<exists>s'. files_destroy_loop V t [0..<FILES_STRUCT_NENTRY] s1 = Some s' \<and> ftab_ok (insert t T) x ?y s' \<and> refs_below 0 s' \<and> same_ops s1 s' \<and>
    current_filesp s' = current_filesp s1 \<and> (\<forall>t'. t' \<noteq> t \<longrightarrow> files s' t' = files s1 t') \<and>
    (\<forall>i\<in>set [0..<FILES_STRUCT_NENTRY]. f_status (file_at t i s') = FD_NONE) \<and>
    (\<forall>i. i \<notin> set [0..<FILES_STRUCT_NENTRY] \<longrightarrow> file_at t i s' = file_at t i s1)"
    by (rule files_destroy_loop_ok[OF s1(2,3) V]) (use d devs_kept_same[OF s1(6)] in auto)
  then obtain s' where s': "files_destroy_loop V t [0..<FILES_STRUCT_NENTRY] s1 = Some s'" "ftab_ok (insert t T) x ?y s'"
    "current_filesp s' = current_filesp s1" "\<forall>t'. t' \<noteq> t \<longrightarrow> files s' t' = files s1 t'"
    "\<forall>i\<in>set [0..<FILES_STRUCT_NENTRY]. f_status (file_at t i s') = FD_NONE" "same_ops s1 s'" by blast
  have "files_destroy V t s = Some s'" using t(2) s1(1) s'(1) by (simp add: files_destroy_def kassert_def)
  moreover have "ftab_ok T x ?y s'" by (rule ftab_ok_shrink[OF s'(2) t(1)]) (use s'(5) in auto)
  ultimately show ?thesis using s'(3,4) s1(4,5) same_ops_trans[OF s1(6) s'(6)] by auto
qed

subsection \<open>Forking and ending\<close>

lemma held_le: "held n fs \<le> int (length fs)"
  by (simp add: held_def)

text \<open>What a process sees through a descriptor.\<close>

definition same_open_file :: "file_entry \<Rightarrow> file_entry \<Rightarrow> bool" where
  "same_open_file f g \<longleftrightarrow> f_status f = f_status g \<and> f_fd f = f_fd g \<and>
     (f_status f = FD_OPENED \<longrightarrow> f_node f = f_node g \<and> f_pos f = f_pos g \<and> f_readable f = f_readable g \<and> f_writable f = f_writable g)"

lemma copy_files_ok:
  assumes ok: "ftab_ok T x y s" and ft: "current_filesp s = Some ft" "ft \<in> T" "0 < files_count (files s ft)"
    and al: "alloc_ok alloc T" "fst (alloc s) \<noteq> None" and fl: "flags AND 0x800 = 0"
  shows "\<exists>t s1. copy_files alloc V flags s = Some (Inr t, s1) \<and> t \<notin> T \<and> same_ops s s1 \<and>
    ftab_ok (insert t T) x (\<lambda>m. y m + of_bool (pwd (files s ft) = Some m)) s1 \<and>
    files_count (files s1 t) = 1 \<and> pwd (files s1 t) = pwd (files s ft) \<and> (\<forall>t'\<in>T. files s1 t' = files s t') \<and>
    current_filesp s1 = current_filesp s \<and> (\<forall>i<FILES_STRUCT_NENTRY. same_open_file (file_at t i s1) (file_at ft i s))"
proof -
  obtain t s0 where c: "files_create alloc s = (Some t, s0)"
    using al(2) by (cases "alloc s") (auto simp: files_create_def split: option.splits)
  note cr = files_create_ok[OF ok al(1) c]
  have ne: "t \<noteq> ft" using cr(1) ft(2) by auto
  have ne2: "files s0 ft = files s ft" using cr(5)[of ft] ne by simp
  note ne = ne ne2
  have "\<exists>s'. dup_files t ft s0 = Some (0, s') \<and>
    ftab_ok (insert t T) x (\<lambda>m. y m + of_bool (pwd (files s0 ft) = Some m)) s' \<and> same_ops s0 s' \<and> current_filesp s' = current_filesp s0 \<and>
    files_count (files s' t) = 0 \<and> pwd (files s' t) = pwd (files s0 ft) \<and> (\<forall>t'. t' \<noteq> t \<longrightarrow> files s' t' = files s0 t') \<and>
    (\<forall>i<FILES_STRUCT_NENTRY. file_at t i s' = (if f_status (file_at ft i s0) = FD_OPENED
       then dup_of (file_at ft i s0) (file_at t i s0) else file_at t i s0))"
    by (rule dup_files_ok[OF cr(2)]) (use cr ft ne in auto)
  then obtain s1 where s1: "dup_files t ft s0 = Some (0, s1)"
    "ftab_ok (insert t T) x (\<lambda>m. y m + of_bool (pwd (files s ft) = Some m)) s1" "current_filesp s1 = current_filesp s"
    "files_count (files s1 t) = 0" "pwd (files s1 t) = pwd (files s ft)" "\<forall>t'. t' \<noteq> t \<longrightarrow> files s1 t' = files s0 t'"
    "\<forall>i<FILES_STRUCT_NENTRY. file_at t i s1 = (if f_status (file_at ft i s0) = FD_OPENED
       then dup_of (file_at ft i s0) (file_at t i s0) else file_at t i s0)" "same_ops s0 s1" using cr(4) ne(2) by auto
  have at0: "file_at ft i s0 = file_at ft i s" for i by (simp add: file_at_def ne(2))
  have same: "same_open_file (file_at t i s1) (file_at ft i s)" if "i < FILES_STRUCT_NENTRY" for i
    using s1(7)[rule_format, OF that] cr(8)[OF that] ftab_entry(1)[OF ok ft(2) that] ftab_entry(1)[OF cr(2) _ that, of t]
    by (auto simp: at0 same_open_file_def dup_of_def entry_ok_def)
  let ?s = "files_count_inc t s1"
  have f: "files ?s = (files s1)(t := (files s1 t)\<lparr>files_count := 1\<rparr>)" "inodes ?s = inodes s1" "current_filesp ?s = current_filesp s1"
    using s1(4) by (simp_all add: files_count_inc_def upd_files_def)
  have at: "file_at t' i ?s = file_at t' i s1" for t' i by (simp add: file_at_def f(1))
  have "holders (insert t T) (files ?s) n = holders (insert t T) (files s1) n" for n
    unfolding holders_def by (rule sum.cong) (auto simp: f(1))
  then have "ftab_ok (insert t T) x (\<lambda>m. y m + of_bool (pwd (files s ft) = Some m)) ?s"
    using s1(2) by (auto simp: ftab_ok_def f at)
  moreover have "copy_files alloc V flags s = Some (Inr t, ?s)"
    using ft(1) fl c s1(1) by (simp add: copy_files_def)
  moreover have "\<forall>t'\<in>T. files ?s t' = files s t'" using s1(6) cr(1,5) by (auto simp: f(1))
  moreover have "same_ops s ?s" using s1(8) cr(3) by (simp add: same_ops_def f(2))
  ultimately show ?thesis using cr(1) s1(3,5) same
    by - (rule exI[of _ t], rule exI[of _ ?s], simp add: f at)
qed

lemma put_files_last_ok:
  assumes ok: "ftab_ok (insert t T) x y s" "refs_below 0 s" and V: "vops_ok V" and t: "t \<notin> T" "files_count (files s t) = 1"
    and p: "\<And>n. pwd (files s t) = Some n \<Longrightarrow> x n < y n" and d: "devs_kept (\<lambda>m. y m - of_bool (pwd (files s t) = Some m)) s"
  shows "\<exists>s'. put_files V (Some t) s = Some s' \<and> same_ops s s' \<and> ftab_ok T x (\<lambda>m. y m - of_bool (pwd (files s t) = Some m)) s' \<and>
    (\<forall>t'. t' \<noteq> t \<longrightarrow> files s' t' = files s t')"
proof -
  define s1 where "s1 = upd_files t (\<lambda>z. z\<lparr>files_count := files_count z - 1\<rparr>) s"
  have f: "files s1 = (files s)(t := (files s t)\<lparr>files_count := 0\<rparr>)" "inodes s1 = inodes s"
    using t(2) by (simp_all add: s1_def upd_files_def)
  have at: "file_at t' i s1 = file_at t' i s" for t' i by (simp add: file_at_def f(1))
  have "holders (insert t T) (files s1) n = holders (insert t T) (files s) n" for n
    unfolding holders_def by (rule sum.cong) (auto simp: f(1))
  then have "ftab_ok (insert t T) x y s1" using ok(1) by (auto simp: ftab_ok_def f at)
  moreover have "refs_below 0 s1" using ok(2) by (simp add: refs_below_def f)
  moreover have "devs_kept (\<lambda>m. y m - of_bool (pwd (files s1 t) = Some m)) s1" using d by (simp add: devs_kept_def f)
  ultimately obtain s' where "files_destroy V t s1 = Some s'" "same_ops s1 s'" "ftab_ok T x (\<lambda>m. y m - of_bool (pwd (files s1 t) = Some m)) s'"
    "\<forall>t'. t' \<noteq> t \<longrightarrow> files s' t' = files s1 t'"
    using files_destroy_ok[OF _ _ V t(1), of x y s1] p by (auto simp: f)
  then show ?thesis using t(2) by (simp add: put_files_def files_count_dec_def Let_def s1_def[symmetric] f same_ops_def)
qed

subsection \<open>A small file system\<close>

text \<open>
  Inode operations that always succeed; every path but one leads to inode 5, which is a file of
  10 bytes.
\<close>

definition demo_find :: "nat \<Rightarrow> fstate \<Rightarrow> fstate" where
  "demo_find n s = (if ref_count (inodes s n) = 0 then inode_init n sfs_node_fileops s else inode_ref_inc n s)"

definition demo_vops :: "fstate inode_ops" where
  "demo_vops =
     \<lparr>op_open = (\<lambda>n f s. Some (0, s)), op_close = (\<lambda>n s. Some (0, s)),
      op_read = (\<lambda>n b s. Some (0, b, s)), op_write = (\<lambda>n b s. Some (0, b, s)),
      op_fstat = (\<lambda>n s. Some (0, \<lparr>st_mode = 0, st_nlinks = 1, st_blocks = 1, st_size = 10\<rparr>, s)), op_fsync = (\<lambda>n s. Some (0, s)),
      op_getdirentry = (\<lambda>n b s. Some (0, b, s)), op_reclaim = (\<lambda>n s. Some (0, s)),
      op_tryseek = (\<lambda>n p s. Some (0, s)), op_truncate = (\<lambda>n p s. Some (0, s)),
      op_create = (\<lambda>d nm e s. None),
      op_lookup = (\<lambda>p s. if 255 < length p then None else if p = ''missing'' then Some (- 16, None, s) else Some (0, Some 5, demo_find 5 s)),
      op_lookup_parent = (\<lambda>p s. Some (0, Some 4, p, demo_find 4 s))\<rparr>"

definition blank_file :: "nat \<Rightarrow> file_entry" where
  "blank_file i = \<lparr>f_status = FD_NONE, f_readable = False, f_writable = False, f_fd = int i, f_pos = 0, f_node = None, f_open_count = 0\<rparr>"

text \<open>One table, with the console (inode 7, which the list of devices refers to) as descriptor 0.\<close>

definition demo_ftab :: fstate where
  "demo_ftab =
     \<lparr>inodes = (\<lambda>n. if n = 7 then \<lparr>ref_count = 2, open_count = 1, in_ops = dev_node_ops\<rparr>
         else \<lparr>ref_count = 0, open_count = 0, in_ops = sfs_node_fileops\<rparr>),
      files = (\<lambda>t. \<lparr>pwd = None, fd_array = opened 7 0 True False (blank_file 0) # map blank_file [1..<FILES_STRUCT_NENTRY], files_count = 1\<rparr>),
      current_filesp = Some 0\<rparr>"

definition demo_y :: "nat \<Rightarrow> int" where
  "demo_y n = of_bool (n = 7)"

lemma demo_find_ok: "looked_up n s (demo_find n s)"
  by (auto simp: looked_up_def demo_find_def inode_init_def inode_ref_inc_def upd_inode_def intro!: exI[of _ sfs_node_fileops])

lemma demo_vops_ok: "vops_ok demo_vops"
  unfolding vops_ok_def by (auto simp: demo_vops_def quiet_def) (meson demo_find_ok)+

lemma demo_devs: "devs_kept demo_y demo_ftab"
  by (simp add: devs_kept_def demo_ftab_def demo_y_def)

lemma NENTRY: "FILES_STRUCT_NENTRY = 101"
  by (simp add: FILES_STRUCT_NENTRY_def)

lemma demo_fs_at: "i < FILES_STRUCT_NENTRY \<Longrightarrow> file_at t i demo_ftab = (if i = 0 then opened 7 0 True False (blank_file 0) else blank_file i)"
  by (cases i) (auto simp: demo_ftab_def file_at_def)

lemma demo_ftab_ok: "ftab_ok {0} (\<lambda>_. 0) demo_y demo_ftab"
proof -
  have "held n (map blank_file js) = 0" for n js by (rule held_none) (auto simp: blank_file_def)
  moreover have "held n (f # fs) = of_bool (holds n f) + held n fs" for n f fs by (simp add: held_def)
  ultimately have "holders {0} (files demo_ftab) n = (if n = 7 then 1 else 0)" for n
    by (auto simp: holders_def demo_ftab_def) (auto simp: holds_def opened_def)
  moreover have "entry_ok i (file_at 0 i demo_ftab)" if "i < FILES_STRUCT_NENTRY" for i
    using that by (simp add: demo_fs_at entry_ok_def opened_def blank_file_def)
  ultimately show ?thesis by (simp add: ftab_ok_def) (simp add: demo_ftab_def demo_y_def NENTRY)
qed

lemma demo_fs_state: "current_filesp demo_ftab = Some 0" "files_count (files demo_ftab t) = 1" "pwd (files demo_ftab t) = None"
  by (simp_all add: demo_ftab_def)

lemma demo_fs_refs: "k \<le> 1000 \<Longrightarrow> refs_below k demo_ftab"
  by (simp add: refs_below_def demo_ftab_def MAX_INODE_COUNT_def)

lemma demo_fs_cur: "cur_ok {0} demo_ftab"
  by (simp add: cur_ok_def demo_fs_state)

subsection \<open>Properties\<close>

lemma demo_fd_free: "free_fd 0 demo_ftab = Some 1"
  unfolding free_fd_Some by (auto simp: demo_fs_at NENTRY blank_file_def opened_def)





text \<open>C38. A wrong access mode and a full table are refused. Otherwise opening a file takes the lowest
  free descriptor and does what the file system answers: it stops the kernel when the answer needs
  an operation the inode lacks (a file that is not there with O_CREAT, emptying a directory) or when
  the file system stops by itself; it
  returns the error code, with the entry free again and every other entry and count as before, but for one
  reference that stays behind when the file exists and O_CREAT and O_EXCL are given; or it returns the descriptor, whose
  entry refers to the inode found, at position 0 or with O_APPEND at the end of the file, with the counts
  of that inode one higher and every other entry as before. Opening, closing and reclaiming an inode and asking for
  its status return, and no other process uses the tables meanwhile.\<close>

theorem file_open_correct:
  assumes "ftab_ok T x y s" "cur_ok T s" "devs_kept y s" "refs_below 3 s" "vops_ok V" "current_filesp s = Some t"
  shows "if flags AND O_ACCMODE \<notin> {O_RDONLY, O_WRONLY, O_RDWR} then file_open V path flags s = Some (- E_INVAL, s)
    else case free_fd t s of
      None \<Rightarrow> file_open V path flags s = Some (- E_MAX_OPEN, s)
    | Some i \<Rightarrow>
        (case open_answer V path flags t i (upd_fd t i (\<lambda>f. f\<lparr>f_status := FD_INIT, f_node := None\<rparr>) s) of
           None \<Rightarrow> file_open V path flags s = None
         | Some (Inl e) \<Rightarrow> \<exists>s' l. file_open V path flags s = Some (e, s') \<and> e \<noteq> 0 \<and> leaks flags l \<and> open_refused T x y l t i s s'
         | Some (Inr (n, p)) \<Rightarrow> \<exists>s'. file_open V path flags s = Some (int i, s') \<and>
             open_done T x y t i n (opened n p (flags AND O_ACCMODE \<noteq> O_WRONLY) (flags AND O_ACCMODE \<noteq> O_RDONLY) (file_at t i s)) s s')"
  using file_open_ok[OF assms, of path flags] unfolding open_call_def .

lemma demo_node5: "inodes demo_ftab 5 = \<lparr>ref_count = 0, open_count = 0, in_ops = sfs_node_fileops\<rparr>"
  by (simp add: demo_ftab_def)

lemmas demo_answer_simps = open_answer_def vfs_answer_def find_answer_def node_answer_def vfs_open_def vfs_open_find_def vfs_open_node_def
  vop_def inode_check_def kassert_def demo_find_def inode_init_def inode_ref_inc_def MAX_INODE_COUNT_def demo_node5 demo_vops_def O_ACCMODE_def O_RDONLY_def O_WRONLY_def O_RDWR_def O_CREAT_def O_EXCL_def O_TRUNC_def O_APPEND_def

theorem file_open_correct_witness:
  "file_open demo_vops ''missing'' (O_RDWR OR O_CREAT) demo_ftab = None \<and>
   (\<exists>s'. file_open demo_vops ''hello'' (O_RDWR OR O_APPEND) demo_ftab = Some (1, s') \<and>
      file_at 0 1 s' = opened 5 10 True True (blank_file 1) \<and> ref_count (inodes s' 5) = 1 \<and> open_count (inodes s' 5) = 1)"
proof -
  let ?s = "upd_fd 0 1 (\<lambda>f. f\<lparr>f_status := FD_INIT, f_node := None\<rparr>) demo_ftab"
  have "refs_below 3 demo_ftab" by (rule demo_fs_refs) simp
  note c = file_open_correct[OF demo_ftab_ok demo_fs_cur demo_devs this demo_vops_ok demo_fs_state(1)]
  have "open_answer demo_vops ''missing'' (O_RDWR OR O_CREAT) 0 1 ?s = None" by (simp add: demo_answer_simps)
  then have none: "file_open demo_vops ''missing'' (O_RDWR OR O_CREAT) demo_ftab = None"
    using c[of "O_RDWR OR O_CREAT" "''missing''"] demo_fd_free by (simp add: O_ACCMODE_def O_RDONLY_def O_WRONLY_def O_RDWR_def O_CREAT_def)
  have "open_answer demo_vops ''hello'' (O_RDWR OR O_APPEND) 0 1 ?s = Some (Inr (5, 10))"
    by (simp add: demo_answer_simps)
  then obtain s' where s': "file_open demo_vops ''hello'' (O_RDWR OR O_APPEND) demo_ftab = Some (int 1, s')"
    "open_done {0} (\<lambda>_. 0) demo_y 0 1 5 (opened 5 10 True True (file_at 0 1 demo_ftab)) demo_ftab s'"
    using c[of "O_RDWR OR O_APPEND" "''hello''"] demo_fd_free by (auto simp: O_ACCMODE_def O_RDONLY_def O_WRONLY_def O_RDWR_def O_APPEND_def)
  then show ?thesis using none by (simp add: open_done_def demo_fs_at NENTRY demo_node5)
qed

text \<open>C39. A child that does not share its parent's table gets a table through which it sees the same
  files; when it ends, every inode has the counts it had before the fork and the tables of the
  other processes have not changed. The inodes of devices keep the reference of the list of devices.\<close>

theorem fork_exit_files:
  assumes "ftab_ok T x y s" "refs_below (int FILES_STRUCT_NENTRY + 1) s" "vops_ok V" "devs_kept y s"
    "current_filesp s = Some ft" "ft \<in> T" "0 < files_count (files s ft)"
    "alloc_ok alloc T" "fst (alloc s) \<noteq> None" "flags AND 0x800 = 0"
  shows "\<exists>t s1 s2. copy_files alloc V flags s = Some (Inr t, s1) \<and> t \<notin> T \<and>
    (\<forall>i<FILES_STRUCT_NENTRY. same_open_file (file_at t i s1) (file_at ft i s)) \<and>
    put_files V (Some t) s1 = Some s2 \<and> inodes s2 = inodes s \<and> (\<forall>t'\<in>T. files s2 t' = files s t')"
proof -
  let ?y = "\<lambda>m. y m + of_bool (pwd (files s ft) = Some m)"
  obtain t s1 where c: "copy_files alloc V flags s = Some (Inr t, s1)" "t \<notin> T" "ftab_ok (insert t T) x ?y s1"
    "files_count (files s1 t) = 1" "pwd (files s1 t) = pwd (files s ft)" "\<forall>t'\<in>T. files s1 t' = files s t'"
    "\<forall>i<FILES_STRUCT_NENTRY. same_open_file (file_at t i s1) (file_at ft i s)" "same_ops s s1"
    using copy_files_ok[OF assms(1,5-10), of V] by blast
  have fin: "finite T" using assms(1) by (simp add: ftab_ok_def)
  have hT: "holders T (files s1) m = holders T (files s) m" for m
    unfolding holders_def by (rule sum.cong) (use c(6) in auto)
  have "refs_below 0 s1"
    unfolding refs_below_def
  proof
    fix m
    have "held m (fd_array (files s1 t)) \<le> int FILES_STRUCT_NENTRY"
      using held_le[of m "fd_array (files s1 t)"] c(3) by (simp add: ftab_ok_def)
    moreover have "ref_count (inodes s1 m) = held m (fd_array (files s1 t)) + holders T (files s) m + ?y m"
      using c(2,3) fin hT by (simp add: ftab_ok_def) (simp add: holders_def)
    moreover have "ref_count (inodes s m) = holders T (files s) m + y m" using assms(1) by (simp add: ftab_ok_def)
    moreover have "ref_count (inodes s m) + (int FILES_STRUCT_NENTRY + 1) < MAX_INODE_COUNT" using assms(2) by (simp add: refs_below_def)
    ultimately show "ref_count (inodes s1 m) + 0 < MAX_INODE_COUNT" by (simp add: of_bool_def split: if_splits)
  qed
  moreover have "x n < ?y n" if "pwd (files s1 t) = Some n" for n
  proof -
    have "x n \<le> y n" using assms(1) by (simp add: ftab_ok_def)
    then show ?thesis using that c(5) by simp
  qed
  moreover have "devs_kept (\<lambda>m. ?y m - of_bool (pwd (files s1 t) = Some m)) s1"
    using assms(4) devs_kept_same[OF c(8)] c(5) by simp
  ultimately obtain s2 where s2: "put_files V (Some t) s1 = Some s2"
    "ftab_ok T x (\<lambda>m. ?y m - of_bool (pwd (files s1 t) = Some m)) s2" "\<forall>t'. t' \<noteq> t \<longrightarrow> files s2 t' = files s1 t'" "same_ops s1 s2"
    using put_files_last_ok[OF c(3) _ assms(3) c(2,4)] by blast
  have f2: "\<forall>t'\<in>T. files s2 t' = files s t'" using s2(3) c(2,6) by auto
  have h2: "holders T (files s2) m = holders T (files s) m" for m
    unfolding holders_def by (rule sum.cong) (use f2 in auto)
  have "inodes s2 m = inodes s m" for m
  proof -
    have "ref_count (inodes s2 m) = ref_count (inodes s m)" "open_count (inodes s2 m) = open_count (inodes s m)"
      using s2(2) assms(1) c(5) h2 by (simp_all add: ftab_ok_def)
    moreover have "in_ops (inodes s2 m) = in_ops (inodes s m)" using same_ops_trans[OF c(8) s2(4)] by (simp add: same_ops_def)
    ultimately show ?thesis by simp
  qed
  then have "inodes s2 = inodes s" by blast
  then show ?thesis using c(1,2,7) s2(1) f2 by blast
qed

definition demo_alloc :: "fstate \<Rightarrow> (nat \<times> file_entry list) option \<times> fstate" where
  "demo_alloc s = (Some (9, replicate FILES_STRUCT_NENTRY (blank_file 3)), s)"

theorem fork_exit_files_witness:
  "\<exists>t s1 s2. copy_files demo_alloc demo_vops 0 demo_ftab = Some (Inr t, s1) \<and> f_node (file_at t 0 s1) = Some 7 \<and>
     put_files demo_vops (Some t) s1 = Some s2 \<and> inodes s2 = inodes demo_ftab"
proof -
  have hyps: "refs_below (int FILES_STRUCT_NENTRY + 1) demo_ftab" "0 < files_count (files demo_ftab 0)" "alloc_ok demo_alloc {0}"
    "fst (demo_alloc demo_ftab) \<noteq> None" "(0 :: 32 word) AND 0x800 = 0"
    by (auto simp: NENTRY demo_fs_refs demo_fs_state alloc_ok_def demo_alloc_def quiet_def)
  obtain t s1 s2 where r: "copy_files demo_alloc demo_vops 0 demo_ftab = Some (Inr t, s1)"
    "\<forall>i<FILES_STRUCT_NENTRY. same_open_file (file_at t i s1) (file_at 0 i demo_ftab)"
    "put_files demo_vops (Some t) s1 = Some s2" "inodes s2 = inodes demo_ftab"
    using fork_exit_files[OF demo_ftab_ok hyps(1) demo_vops_ok demo_devs demo_fs_state(1) _ hyps(2-5)] by auto
  have "same_open_file (file_at t 0 s1) (file_at 0 0 demo_ftab)" using r(2) by (simp add: NENTRY)
  then have "f_node (file_at t 0 s1) = Some 7" by (auto simp: same_open_file_def demo_fs_at NENTRY opened_def)
  then show ?thesis using r by blast
qed

end
