(* ===== verification/Sync.thy ===== *)
theory Sync
  imports Sched
begin

text \<open>
  Wait queues (\<^verbatim>\<open>kern/sync/wait.c\<close>), semaphores (\<^verbatim>\<open>sem.c\<close>) and monitors with condition
  variables (\<^verbatim>\<open>monitor.c\<close>).

  The state extends the scheduler's. A wait queue and the semaphore it belongs to have one
  number; a \<^verbatim>\<open>wait_t\<close> lives on the kernel stack of the process that waits and has that
  process's number. \<^verbatim>\<open>down\<close> runs in two pieces, because the process sleeps in between:
  \<open>down_enter\<close> up to and including the call of \<^verbatim>\<open>schedule\<close>, and \<open>down_leave\<close> after it, when
  the process runs again. Everything else runs with interrupts off or is not preempted in
  the kernel, so each piece is one step.
\<close>

subsection \<open>Wait queues\<close>

datatype wait_entry = WaitHead nat | WaitLink nat

record wait =
  w_proc :: "nat option"
  wakeup_flags :: "32 word"
  w_queue :: "nat option"

record sync = sched +
  waits :: "nat \<Rightarrow> wait"
  wait_links :: "wait_entry list_heap"
  sem_value :: "nat \<Rightarrow> int"

definition upd_wait :: "nat \<Rightarrow> (wait \<Rightarrow> wait) \<Rightarrow> 'a sync_scheme \<Rightarrow> 'a sync_scheme" where
  "upd_wait w f s = s\<lparr>waits := (waits s)(w := f (waits s w))\<rparr>"

definition wait_init :: "nat \<Rightarrow> nat option \<Rightarrow> 'a sync_scheme \<Rightarrow> 'a sync_scheme" where
  "wait_init w p s =
     (upd_wait w (\<lambda>x. x\<lparr>w_proc := p, wakeup_flags := WT_INTERRUPTED\<rparr>) s)
       \<lparr>wait_links := list_init (wait_links s) (WaitLink w)\<rparr>"

definition wait_queue_init :: "nat \<Rightarrow> 'a sync_scheme \<Rightarrow> 'a sync_scheme" where
  "wait_queue_init q s = s\<lparr>wait_links := list_init (wait_links s) (WaitHead q)\<rparr>"

definition wait_queue_add :: "nat \<Rightarrow> nat \<Rightarrow> 'a sync_scheme \<Rightarrow> 'a sync_scheme option" where
  "wait_queue_add q w s =
     do { kassert (list_empty (wait_links s) (WaitLink w) \<and> w_proc (waits s w) \<noteq> None);
          Some ((upd_wait w (\<lambda>x. x\<lparr>w_queue := Some q\<rparr>) s)
             \<lparr>wait_links := list_add_before (wait_links s) (WaitHead q) (WaitLink w)\<rparr>) }"

definition wait_queue_del :: "nat \<Rightarrow> nat \<Rightarrow> 'a sync_scheme \<Rightarrow> 'a sync_scheme option" where
  "wait_queue_del q w s =
     do { kassert (\<not> list_empty (wait_links s) (WaitLink w) \<and> w_queue (waits s w) = Some q);
          Some (s\<lparr>wait_links := list_del_init (wait_links s) (WaitLink w)\<rparr>) }"

text \<open>The entry as a \<^verbatim>\<open>wait_t\<close>, or \<^verbatim>\<open>NULL\<close> for the head of the queue.\<close>

definition le2wait :: "wait_entry \<Rightarrow> nat option" where
  "le2wait le = (case le of WaitLink w \<Rightarrow> Some w | WaitHead _ \<Rightarrow> None)"

definition wait_queue_next :: "nat \<Rightarrow> nat \<Rightarrow> 'a sync_scheme \<Rightarrow> nat option option" where
  "wait_queue_next q w s =
     do { kassert (\<not> list_empty (wait_links s) (WaitLink w) \<and> w_queue (waits s w) = Some q);
          Some (le2wait (list_next (wait_links s) (WaitLink w))) }"

definition wait_queue_prev :: "nat \<Rightarrow> nat \<Rightarrow> 'a sync_scheme \<Rightarrow> nat option option" where
  "wait_queue_prev q w s =
     do { kassert (\<not> list_empty (wait_links s) (WaitLink w) \<and> w_queue (waits s w) = Some q);
          Some (le2wait (list_prev (wait_links s) (WaitLink w))) }"

definition wait_queue_first :: "nat \<Rightarrow> 'a sync_scheme \<Rightarrow> nat option" where
  "wait_queue_first q s = le2wait (list_next (wait_links s) (WaitHead q))"

definition wait_queue_last :: "nat \<Rightarrow> 'a sync_scheme \<Rightarrow> nat option" where
  "wait_queue_last q s = le2wait (list_prev (wait_links s) (WaitHead q))"

definition wait_queue_empty :: "nat \<Rightarrow> 'a sync_scheme \<Rightarrow> bool" where
  "wait_queue_empty q s = list_empty (wait_links s) (WaitHead q)"

definition wait_in_queue :: "nat \<Rightarrow> 'a sync_scheme \<Rightarrow> bool" where
  "wait_in_queue w s \<longleftrightarrow> \<not> list_empty (wait_links s) (WaitLink w)"

definition wakeup_wait ::
  "'a sync_scheme sched_class \<Rightarrow> nat \<Rightarrow> nat \<Rightarrow> 32 word \<Rightarrow> bool \<Rightarrow> 'a sync_scheme \<Rightarrow> 'a sync_scheme option" where
  "wakeup_wait cls q w flags del s =
     do { s1 \<leftarrow> (if del then wait_queue_del q w s else Some s);
          let s2 = upd_wait w (\<lambda>x. x\<lparr>wakeup_flags := flags\<rparr>) s1;
          p \<leftarrow> w_proc (waits s2 w);
          wakeup_proc cls p s2 }"

definition wakeup_first ::
  "'a sync_scheme sched_class \<Rightarrow> nat \<Rightarrow> 32 word \<Rightarrow> bool \<Rightarrow> 'a sync_scheme \<Rightarrow> 'a sync_scheme option" where
  "wakeup_first cls q flags del s =
     (case wait_queue_first q s of
        None \<Rightarrow> Some s
      | Some w \<Rightarrow> wakeup_wait cls q w flags del s)"

text \<open>The two loops of \<open>wakeup_queue\<close>, from the wait \<open>w\<close> on.\<close>

partial_function (option) wakeup_all_del ::
  "'a sync_scheme sched_class \<Rightarrow> nat \<Rightarrow> 32 word \<Rightarrow> nat \<Rightarrow> 'a sync_scheme \<Rightarrow> 'a sync_scheme option" where
  "wakeup_all_del cls q flags w s =
     do { s1 \<leftarrow> wakeup_wait cls q w flags True s;
          case wait_queue_first q s1 of
            None \<Rightarrow> Some s1
          | Some w' \<Rightarrow> wakeup_all_del cls q flags w' s1 }"

partial_function (option) wakeup_all_keep ::
  "'a sync_scheme sched_class \<Rightarrow> nat \<Rightarrow> 32 word \<Rightarrow> nat \<Rightarrow> 'a sync_scheme \<Rightarrow> 'a sync_scheme option" where
  "wakeup_all_keep cls q flags w s =
     do { s1 \<leftarrow> wakeup_wait cls q w flags False s;
          nxt \<leftarrow> wait_queue_next q w s1;
          case nxt of
            None \<Rightarrow> Some s1
          | Some w' \<Rightarrow> wakeup_all_keep cls q flags w' s1 }"

definition wakeup_queue ::
  "'a sync_scheme sched_class \<Rightarrow> nat \<Rightarrow> 32 word \<Rightarrow> bool \<Rightarrow> 'a sync_scheme \<Rightarrow> 'a sync_scheme option" where
  "wakeup_queue cls q flags del s =
     (case wait_queue_first q s of
        None \<Rightarrow> Some s
      | Some w \<Rightarrow> if del then wakeup_all_del cls q flags w s else wakeup_all_keep cls q flags w s)"

definition wait_current_set :: "nat \<Rightarrow> nat \<Rightarrow> 32 word \<Rightarrow> 'a sync_scheme \<Rightarrow> 'a sync_scheme option" where
  "wait_current_set q w ws s =
     do { c \<leftarrow> current s;
          let s1 = wait_init w (Some c) s;
          let s2 = upd_proc c (\<lambda>p. p\<lparr>pstate := PROC_SLEEPING, wait_state := ws\<rparr>) s1;
          wait_queue_add q w s2 }"

definition wait_current_del :: "nat \<Rightarrow> nat \<Rightarrow> 'a sync_scheme \<Rightarrow> 'a sync_scheme option" where
  "wait_current_del q w s = (if wait_in_queue w s then wait_queue_del q w s else Some s)"

subsection \<open>Semaphores\<close>

definition sem_init :: "nat \<Rightarrow> int \<Rightarrow> 'a sync_scheme \<Rightarrow> 'a sync_scheme" where
  "sem_init m v s = wait_queue_init m (s\<lparr>sem_value := (sem_value s)(m := v)\<rparr>)"

definition sem_up :: "'a sync_scheme sched_class \<Rightarrow> nat \<Rightarrow> 32 word \<Rightarrow> 'a sync_scheme \<Rightarrow> 'a sync_scheme option" where
  "sem_up cls m ws s =
     (case wait_queue_first m s of
        None \<Rightarrow> Some (s\<lparr>sem_value := (sem_value s)(m := sem_value s m + 1)\<rparr>)
      | Some w \<Rightarrow>
          do { p \<leftarrow> w_proc (waits s w);
               kassert (wait_state (procs s p) = ws);
               wakeup_wait cls m w ws True s })"

text \<open>The result of \<open>down_enter\<close> says whether the semaphore was taken without sleeping.\<close>

definition down_enter ::
  "'a sync_scheme sched_class \<Rightarrow> nat \<Rightarrow> nat \<Rightarrow> 32 word \<Rightarrow> 'a sync_scheme \<Rightarrow> (bool \<times> 'a sync_scheme) option" where
  "down_enter cls m w ws s =
     (if sem_value s m > 0
      then Some (True, s\<lparr>sem_value := (sem_value s)(m := sem_value s m - 1)\<rparr>)
      else do { s1 \<leftarrow> wait_current_set m w ws s;
                s2 \<leftarrow> schedule cls s1;
                Some (False, s2) })"

definition down_leave :: "nat \<Rightarrow> nat \<Rightarrow> 32 word \<Rightarrow> 'a sync_scheme \<Rightarrow> (32 word \<times> 'a sync_scheme) option" where
  "down_leave m w ws s =
     do { s1 \<leftarrow> wait_current_del m w s;
          Some (if wakeup_flags (waits s1 w) \<noteq> ws then wakeup_flags (waits s1 w) else 0, s1) }"

definition up :: "'a sync_scheme sched_class \<Rightarrow> nat \<Rightarrow> 'a sync_scheme \<Rightarrow> 'a sync_scheme option" where
  "up cls m s = sem_up cls m WT_KSEM s"

definition down_begin :: "'a sync_scheme sched_class \<Rightarrow> nat \<Rightarrow> nat \<Rightarrow> 'a sync_scheme \<Rightarrow> (bool \<times> 'a sync_scheme) option" where
  "down_begin cls m w s = down_enter cls m w WT_KSEM s"

definition down_end :: "nat \<Rightarrow> nat \<Rightarrow> 'a sync_scheme \<Rightarrow> 'a sync_scheme option" where
  "down_end m w s =
     do { (flags, s1) \<leftarrow> down_leave m w WT_KSEM s;
          kassert (flags = 0);
          Some s1 }"

definition try_down :: "nat \<Rightarrow> 'a sync_scheme \<Rightarrow> bool \<times> 'a sync_scheme" where
  "try_down m s =
     (if sem_value s m > 0 then (True, s\<lparr>sem_value := (sem_value s)(m := sem_value s m - 1)\<rparr>) else (False, s))"

end
