(* ===== verification/SemSystem.thy ===== *)
theory SemSystem
  imports Sync RRSched StrideSched
begin

text \<open>
  Processes that use semaphores, under any scheduling policy that keeps the contract of
  \<open>sched_policy\<close>: a step relation whose steps are the atomic pieces of \<^verbatim>\<open>up\<close>, \<^verbatim>\<open>down\<close>,
  \<^verbatim>\<open>try_down\<close> and \<^verbatim>\<open>schedule\<close> as the running process executes them, in any order and on any
  semaphores, and the invariant of the reachable states.
\<close>

text \<open>The kernel, the semaphore in whose \<^verbatim>\<open>down\<close> each process is, and how often each was used.\<close>

record 's semsys =
  sys :: 's
  waiting :: "nat \<Rightarrow> nat option"
  ups :: "nat \<Rightarrow> nat"
  downs :: "nat \<Rightarrow> nat"

inductive sem_step :: "'a sync_scheme sched_class \<Rightarrow> 'a sync_scheme semsys \<Rightarrow> 'a sync_scheme semsys \<Rightarrow> bool"
  for cls :: "'a sync_scheme sched_class" where
  Up: "current (sys c) = Some p \<Longrightarrow> waiting c p = None \<Longrightarrow> up cls m (sys c) = Some s' \<Longrightarrow>
    sem_step cls c (c\<lparr>sys := s', ups := (ups c)(m := ups c m + 1)\<rparr>)"
| Down: "current (sys c) = Some p \<Longrightarrow> waiting c p = None \<Longrightarrow> idleproc (sys c) \<noteq> Some p \<Longrightarrow>
    down_begin cls m p (sys c) = Some (got, s') \<Longrightarrow>
    sem_step cls c (c\<lparr>sys := s', downs := (downs c)(m := downs c m + 1),
      waiting := if got then waiting c else (waiting c)(p := Some m)\<rparr>)"
| Resume: "current (sys c) = Some p \<Longrightarrow> waiting c p = Some m \<Longrightarrow> down_end m p (sys c) = Some s' \<Longrightarrow>
    sem_step cls c (c\<lparr>sys := s', waiting := (waiting c)(p := None)\<rparr>)"
| Try: "current (sys c) = Some p \<Longrightarrow> waiting c p = None \<Longrightarrow> try_down m (sys c) = (got, s') \<Longrightarrow>
    sem_step cls c (c\<lparr>sys := s', downs := if got then (downs c)(m := downs c m + 1) else downs c\<rparr>)"
| Yield: "current (sys c) = Some p \<Longrightarrow> waiting c p = None \<Longrightarrow> schedule cls (sys c) = Some s' \<Longrightarrow>
    sem_step cls c (c\<lparr>sys := s'\<rparr>)"

inductive_cases sem_stepE: "sem_step cls c c'"

subsection \<open>The invariant\<close>

definition sys_ok :: "('a sched_scheme \<Rightarrow> nat set \<Rightarrow> bool) \<Rightarrow> (nat \<Rightarrow> 'a sched_scheme \<Rightarrow> bool) \<Rightarrow> 'a sched_scheme \<Rightarrow> bool" where
  "sys_ok qinv ready s \<longleftrightarrow> sched_inv qinv ready s \<and> (\<exists>p. current s = Some p \<and> pstate (procs s p) = PROC_RUNNABLE) \<and>
     finite {p. pstate (procs s p) \<noteq> PROC_UNINIT} \<and> card {p. pstate (procs s p) \<noteq> PROC_UNINIT} < 2 ^ 32"

definition sem_ok :: "(nat \<Rightarrow> nat list) \<Rightarrow> (nat \<Rightarrow> nat option) \<Rightarrow> (nat \<Rightarrow> int) \<Rightarrow> 'a sync_scheme \<Rightarrow> bool" where
  "sem_ok Q wt bal s \<longleftrightarrow>
     (\<forall>m. dlist (wait_links s) (WaitHead m) (map WaitLink (Q m))) \<and>
     (\<forall>m. \<forall>w\<in>set (Q m). pstate (procs s w) = PROC_SLEEPING \<and> wait_state (procs s w) = WT_KSEM \<and>
        w_proc (waits s w) = Some w \<and> w_queue (waits s w) = Some m \<and> wt w = Some m) \<and>
     (\<forall>w m. wt w = Some m \<longrightarrow> w \<notin> set (Q m) \<longrightarrow> list_empty (wait_links s) (WaitLink w) \<and>
        wakeup_flags (waits s w) = WT_KSEM \<and> pstate (procs s w) = PROC_RUNNABLE) \<and>
     (\<forall>m. 0 \<le> sem_value s m \<and> (Q m \<noteq> [] \<longrightarrow> sem_value s m = 0) \<and> sem_value s m - int (length (Q m)) = bal m)"

lemma sem_okD:
  assumes "sem_ok Q wt bal s"
  shows "dlist (wait_links s) (WaitHead m) (map WaitLink (Q m))"
    "w \<in> set (Q m) \<Longrightarrow> pstate (procs s w) = PROC_SLEEPING"
    "w \<in> set (Q m) \<Longrightarrow> wait_state (procs s w) = WT_KSEM"
    "w \<in> set (Q m) \<Longrightarrow> w_proc (waits s w) = Some w" "w \<in> set (Q m) \<Longrightarrow> w_queue (waits s w) = Some m"
    "w \<in> set (Q m) \<Longrightarrow> wt w = Some m"
    "wt w = Some m \<Longrightarrow> w \<notin> set (Q m) \<Longrightarrow> list_empty (wait_links s) (WaitLink w)"
    "wt w = Some m \<Longrightarrow> w \<notin> set (Q m) \<Longrightarrow> wakeup_flags (waits s w) = WT_KSEM"
    "wt w = Some m \<Longrightarrow> w \<notin> set (Q m) \<Longrightarrow> pstate (procs s w) = PROC_RUNNABLE"
    "0 \<le> sem_value s m" "Q m \<noteq> [] \<Longrightarrow> sem_value s m = 0" "sem_value s m - int (length (Q m)) = bal m"
  using assms unfolding sem_ok_def by blast+

lemma sem_okI:
  assumes "\<And>m. dlist (wait_links s) (WaitHead m) (map WaitLink (Q m))"
    and "\<And>m w. w \<in> set (Q m) \<Longrightarrow> pstate (procs s w) = PROC_SLEEPING \<and> wait_state (procs s w) = WT_KSEM \<and>
        w_proc (waits s w) = Some w \<and> w_queue (waits s w) = Some m \<and> wt w = Some m"
    and "\<And>w m. wt w = Some m \<Longrightarrow> w \<notin> set (Q m) \<Longrightarrow> list_empty (wait_links s) (WaitLink w) \<and>
        wakeup_flags (waits s w) = WT_KSEM \<and> pstate (procs s w) = PROC_RUNNABLE"
    and "\<And>m. 0 \<le> sem_value s m \<and> (Q m \<noteq> [] \<longrightarrow> sem_value s m = 0) \<and> sem_value s m - int (length (Q m)) = bal m"
  shows "sem_ok Q wt bal s"
  unfolding sem_ok_def using assms by blast

lemma sem_ok_value:
  assumes "sem_ok Q wt bal s" "0 \<le> v" "Q m \<noteq> [] \<longrightarrow> v = 0" "v - int (length (Q m)) = b"
  shows "sem_ok Q wt (bal(m := b)) (s\<lparr>sem_value := (sem_value s)(m := v)\<rparr>)"
  using assms unfolding sem_ok_def by simp

lemma queues_disjoint: "sem_ok Q wt bal s \<Longrightarrow> w \<in> set (Q m) \<Longrightarrow> w \<in> set (Q n) \<Longrightarrow> m = n"
  by (metis option.inject sem_okD(6))

lemma first_waiter:
  assumes "sem_ok Q wt bal s"
  shows "wait_queue_first m s = (case Q m of [] \<Rightarrow> None | w # _ \<Rightarrow> Some w)"
  using dlist_next[of "wait_links s" "WaitHead m" "[]" "map WaitLink (Q m)"] sem_okD(1)[OF assms, of m]
  by (simp add: wait_queue_first_def le2wait_def split: list.split)

lemma sync_more:
  "sched.more s' = sched.more s \<Longrightarrow> waits s' = waits s \<and> wait_links s' = wait_links s \<and> sem_value s' = sem_value s \<and>
     sync.more s' = sync.more s" for s s' :: "'a sync_scheme"
  by (cases s; cases s') auto

definition semsys_inv :: "('a sync_scheme \<Rightarrow> nat set \<Rightarrow> bool) \<Rightarrow> (nat \<Rightarrow> 'a sync_scheme \<Rightarrow> bool) \<Rightarrow> (nat \<Rightarrow> int) \<Rightarrow>
    'a sync_scheme semsys \<Rightarrow> bool" where
  "semsys_inv qinv ready init c \<longleftrightarrow> sys_ok qinv ready (sys c) \<and>
     (\<exists>Q. sem_ok Q (waiting c) (\<lambda>m. init m + int (ups c m) - int (downs c m)) (sys c))"

text \<open>Queue operations on the rings of all semaphores at once.\<close>

lemma enqueue_rings:
  assumes d: "\<And>m. dlist h (WaitHead m) (map WaitLink (Q m))" and e: "\<And>m. w \<notin> set (Q m)"
    and dis: "\<And>n. n \<noteq> m \<Longrightarrow> set (Q n) \<inter> set (Q m) = {}"
  shows "dlist (list_add_before h (WaitHead m) (WaitLink w)) (WaitHead n) (map WaitLink ((Q(m := Q m @ [w])) n))"
    "v \<noteq> w \<Longrightarrow> v \<notin> set (Q m) \<Longrightarrow>
     list_empty (list_add_before h (WaitHead m) (WaitLink w)) (WaitLink v) = list_empty h (WaitLink v)"
proof -
  note fr = dlist_add_before_frame[OF d[of m], of _ "WaitLink w"]
  show "dlist (list_add_before h (WaitHead m) (WaitLink w)) (WaitHead n) (map WaitLink ((Q(m := Q m @ [w])) n))"
  proof (cases "n = m")
    case True
    then show ?thesis using dlist_add_before[of h "WaitHead m" "map WaitLink (Q m)" "[]" "WaitLink w" "WaitHead m"] d[of m] e[of m] by auto
  next
    case False
    have out: "x \<notin> set (WaitHead m # WaitLink w # map WaitLink (Q m))" if "x \<in> set (WaitHead n # map WaitLink (Q n))" for x
      using that False dis[OF False] e[of n] by auto
    have "dlist (list_add_before h (WaitHead m) (WaitLink w)) (WaitHead n) (map WaitLink (Q n)) = dlist h (WaitHead n) (map WaitLink (Q n))"
      by (rule dlist_cong) (rule fr, erule out)+
    then show ?thesis using d[of n] False by simp
  qed
  show "v \<noteq> w \<Longrightarrow> v \<notin> set (Q m) \<Longrightarrow>
     list_empty (list_add_before h (WaitHead m) (WaitLink w)) (WaitLink v) = list_empty h (WaitLink v)"
    unfolding list_empty_def using fr(1)[of "WaitLink v"] by (simp add: image_iff)
qed

lemma dequeue_rings:
  assumes d: "\<And>m. dlist h (WaitHead m) (map WaitLink (Q m))" and q: "Q m = w # ws"
    and dis: "\<And>n. n \<noteq> m \<Longrightarrow> set (Q n) \<inter> set (Q m) = {}"
  shows "dlist (list_del_init h (WaitLink w)) (WaitHead n) (map WaitLink ((Q(m := ws)) n))"
    "list_empty (list_del_init h (WaitLink w)) (WaitLink w)" "w \<notin> set ws"
    "v \<notin> set (Q m) \<Longrightarrow> list_empty (list_del_init h (WaitLink w)) (WaitLink v) = list_empty h (WaitLink v)"
proof -
  have dm: "dlist h (WaitHead m) ([] @ WaitLink w # map WaitLink ws)" using d[of m] q by simp
  note fr = dlist_del_init_frame[OF dm]
  show "dlist (list_del_init h (WaitLink w)) (WaitHead n) (map WaitLink ((Q(m := ws)) n))"
  proof (cases "n = m")
    case True
    then show ?thesis using dlist_del_init(1)[OF dm] by simp
  next
    case False
    have out: "x \<notin> set (WaitHead m # [] @ WaitLink w # map WaitLink ws)" if "x \<in> set (WaitHead n # map WaitLink (Q n))" for x
      using that False dis[OF False] q by auto
    have "dlist (list_del_init h (WaitLink w)) (WaitHead n) (map WaitLink (Q n)) = dlist h (WaitHead n) (map WaitLink (Q n))"
      by (rule dlist_cong) (rule fr, erule out)+
    then show ?thesis using d[of n] False by simp
  qed
  show "list_empty (list_del_init h (WaitLink w)) (WaitLink w)" using dlist_del_init(2)[OF dm] by (simp add: dlist_empty_iff)
  show "w \<notin> set ws" using dlist_distinct[OF dm] by auto
  show "v \<notin> set (Q m) \<Longrightarrow> list_empty (list_del_init h (WaitLink w)) (WaitLink v) = list_empty h (WaitLink v)"
    unfolding list_empty_def using fr(1)[of "WaitLink v"] q by (simp add: image_iff)
qed

subsection \<open>Every step is possible and keeps the invariant\<close>

locale sem_system = sched_policy cls qinv ready
  for cls :: "'a sync_scheme sched_class" and qinv and ready
begin

lemma sys_ok_cong:
  assumes "sys_ok qinv ready s" "queue_part s' = queue_part s" "current s' = current s" "idleproc s' = idleproc s"
    "\<And>p. pstate (procs s' p) = pstate (procs s p)"
  shows "sys_ok qinv ready s'"
proof -
  have "runq s' = runq s" using assms by (simp add: runq_def)
  then show ?thesis using assms queue_cong[OF assms(2)] by (simp add: sys_ok_def sched_inv_def)
qed

lemma queue_part_sync:
  "queue_part (s\<lparr>wait_links := h\<rparr>) = queue_part s" "queue_part (s\<lparr>sem_value := v\<rparr>) = queue_part s"
  "queue_part (upd_wait w f s) = queue_part s" for s :: "'a sync_scheme"
  by (simp_all add: queue_part_def upd_wait_def)

lemma runq_bound:
  assumes "sys_ok qinv ready s" "current s = Some p" "pstate (procs s p) \<noteq> PROC_UNINIT"
  shows "finite (runq s)" "card (insert p (runq s)) < 2 ^ 32"
proof -
  have sub: "insert p (runq s) \<subseteq> {p. pstate (procs s p) \<noteq> PROC_UNINIT}" using assms(3) by (auto simp: runq_def)
  have fin: "finite {p. pstate (procs s p) \<noteq> PROC_UNINIT}" "card {p. pstate (procs s p) \<noteq> PROC_UNINIT} < 2 ^ 32"
    using assms(1) by (auto simp: sys_ok_def)
  show "finite (runq s)" using finite_subset[OF sub fin(1)] by simp
  show "card (insert p (runq s)) < 2 ^ 32" using card_mono[OF fin(1) sub] fin(2) by linarith
qed

lemma up_wake:
  assumes sys: "sys_ok qinv ready s" and ok: "sem_ok Q wt bal s" and q: "Q m = w # ws"
  shows "\<exists>s'. up cls m s = Some s' \<and> sys_ok qinv ready s' \<and> sem_ok (Q(m := ws)) wt (bal(m := bal m + 1)) s' \<and>
    pstate (procs s' w) = PROC_RUNNABLE \<and> current s' = current s \<and> idleproc s' = idleproc s \<and>
    sync.more s' = sync.more s \<and> sem_value s' = sem_value s \<and> (\<forall>v. v \<noteq> w \<longrightarrow> pstate (procs s' v) = pstate (procs s v))"
proof -
  have w: "w \<in> set (Q m)" using q by simp
  have dis: "set (Q n) \<inter> set (Q m) = {}" if "n \<noteq> m" for n using queues_disjoint[OF ok] that by blast
  note rings = dequeue_rings[of "wait_links s" Q m w ws, OF sem_okD(1)[OF ok] q dis]
  note wD = sem_okD(2-6)[OF ok w]
  have nl: "\<not> list_empty (wait_links s) (WaitLink w)" by (rule dlist_member_linked[OF sem_okD(1)[OF ok, of m]]) (use w in simp)
  define s2 where "s2 = upd_wait w (\<lambda>x. x\<lparr>wakeup_flags := WT_KSEM\<rparr>) (s\<lparr>wait_links := list_del_init (wait_links s) (WaitLink w)\<rparr>)"
  have sys2: "sys_ok qinv ready s2" unfolding s2_def
    by (rule sys_ok_cong[OF sys]) (simp_all only: queue_part_sync, simp_all add: upd_wait_def)
  have st2: "pstate (procs s2 w) = PROC_SLEEPING" "waits s2 = (waits s)(w := (waits s w)\<lparr>wakeup_flags := WT_KSEM\<rparr>)"
    "wait_links s2 = list_del_init (wait_links s) (WaitLink w)" "sem_value s2 = sem_value s" "procs s2 = procs s" "sync.more s2 = sync.more s"
    "current s2 = current s" "idleproc s2 = idleproc s"
    using wD by (simp_all add: s2_def upd_wait_def)
  have inv2: "sched_inv qinv ready s2" using sys2 by (simp only: sys_ok_def)
  have live: "pstate (procs s2 w) \<noteq> PROC_ZOMBIE" "pstate (procs s2 w) = PROC_UNINIT \<Longrightarrow> ready w s2" using st2(1) by simp_all
  obtain s' where s': "wakeup_proc cls w s2 = Some s'" "sched_inv qinv ready s'" "pstate (procs s' w) = PROC_RUNNABLE" "current s' = current s2"
    "\<And>v. v \<noteq> w \<Longrightarrow> pstate (procs s' v) = pstate (procs s2 v) \<and> wait_state (procs s' v) = wait_state (procs s2 v)"
    "sched.more s' = sched.more s2" "idleproc s' = idleproc s2" using wakeup_proc_ok[OF inv2 live] by blast
  note more = sync_more[OF s'(6)]
  have "up cls m s = Some s'"
    using first_waiter[OF ok, of m] q wD nl s'(1)
    by (simp add: up_def sem_up_def wakeup_wait_def wait_queue_del_def s2_def upd_wait_def)
  moreover have "(pstate (procs s' v) \<noteq> PROC_UNINIT) = (pstate (procs s v) \<noteq> PROC_UNINIT)" for v
    using s'(3) s'(5)[of v] st2(5) wD(1) by (cases "v = w") simp_all
  moreover have "pstate (procs s' p) = PROC_RUNNABLE" if "pstate (procs s p) = PROC_RUNNABLE" for p
    using that s'(3) s'(5)[of p] st2(5) by (cases "p = w") simp_all
  ultimately have "up cls m s = Some s'" "sys_ok qinv ready s'" using s'(2,4) st2(7) sys by (auto simp: sys_ok_def)
  moreover have "sem_ok (Q(m := ws)) wt (bal(m := bal m + 1)) s'"
  proof (rule sem_okI)
    fix n
    show "dlist (wait_links s') (WaitHead n) (map WaitLink ((Q(m := ws)) n))" using rings(1)[of n] more st2(3) by simp
    show "0 \<le> sem_value s' n \<and> ((Q(m := ws)) n \<noteq> [] \<longrightarrow> sem_value s' n = 0) \<and>
        sem_value s' n - int (length ((Q(m := ws)) n)) = (bal(m := bal m + 1)) n"
      using more st2(4) sem_okD(10-12)[OF ok, of n] sem_okD(10-12)[OF ok, of m] q by auto
  next
    fix n v assume "v \<in> set ((Q(m := ws)) n)"
    then have v: "v \<in> set (Q n)" "v \<noteq> w" using q rings(3) dis[of n] by (auto split: if_splits)
    then show "pstate (procs s' v) = PROC_SLEEPING \<and> wait_state (procs s' v) = WT_KSEM \<and>
        w_proc (waits s' v) = Some v \<and> w_queue (waits s' v) = Some n \<and> wt v = Some n"
      using sem_okD(2-6)[OF ok v(1)] s'(5)[OF v(2)] more st2 by simp
  next
    fix v n assume a: "wt v = Some n" "v \<notin> set ((Q(m := ws)) n)"
    show "list_empty (wait_links s') (WaitLink v) \<and> wakeup_flags (waits s' v) = WT_KSEM \<and> pstate (procs s' v) = PROC_RUNNABLE"
    proof (cases "v = w")
      case True
      then show ?thesis using rings(2) more st2(2,3) s'(3) by simp
    next
      case False
      then have v: "v \<notin> set (Q n)" using a(2) q by (auto split: if_splits)
      then have "v \<notin> set (Q m)" using a(1) sem_okD(6)[OF ok, of v m] by auto
      then show ?thesis using a(1) v False sem_okD(7-9)[OF ok a(1) v] rings(4) more st2 s'(5)[OF False] by simp
    qed
  qed
  ultimately show ?thesis using s'(3,4,5,7) st2(4-8) more by auto
qed

lemma up_ok:
  assumes sys: "sys_ok qinv ready s" and ok: "sem_ok Q wt bal s"
  shows "\<exists>s' Q'. up cls m s = Some s' \<and> sys_ok qinv ready s' \<and> sem_ok Q' wt (bal(m := bal m + 1)) s' \<and>
    current s' = current s \<and> idleproc s' = idleproc s"
proof (cases "Q m")
  case Nil
  let ?s = "s\<lparr>sem_value := (sem_value s)(m := sem_value s m + 1)\<rparr>"
  have "up cls m s = Some ?s" using first_waiter[OF ok, of m] Nil by (simp add: up_def sem_up_def)
  moreover have "sys_ok qinv ready ?s" by (rule sys_ok_cong[OF sys]) (simp_all add: queue_part_sync)
  moreover have "sem_ok Q wt (bal(m := bal m + 1)) ?s"
    using sem_okD(12)[OF ok, of m] sem_okD(10)[OF ok, of m] Nil by (intro sem_ok_value[OF ok]) auto
  ultimately show ?thesis by (intro exI[of _ ?s] exI[of _ Q]) simp
next
  case (Cons w ws)
  then show ?thesis using up_wake[OF sys ok] by blast
qed

lemma schedule_sys_ok:
  assumes inv: "sched_inv qinv ready s" and c: "current s = Some p" "pstate (procs s p) \<noteq> PROC_UNINIT"
    and fin: "finite {p. pstate (procs s p) \<noteq> PROC_UNINIT}" "card {p. pstate (procs s p) \<noteq> PROC_UNINIT} < 2 ^ 32"
  shows "\<exists>s'. schedule cls s = Some s' \<and> sys_ok qinv ready s' \<and> sched.more s' = sched.more s \<and> idleproc s' = idleproc s \<and>
    (\<forall>q. pstate (procs s' q) = pstate (procs s q) \<and> wait_state (procs s' q) = wait_state (procs s q))"
proof -
  obtain i where i: "idleproc s = Some i" "pstate (procs s i) = PROC_RUNNABLE" using inv by (auto simp: sched_inv_def)
  have sub: "insert p (runq s) \<subseteq> {p. pstate (procs s p) \<noteq> PROC_UNINIT}" using c(2) by (auto simp: runq_def)
  have b: "finite (runq s)" "card (insert p (runq s)) < 2 ^ 32"
    using finite_subset[OF sub fin(1)] card_mono[OF fin(1) sub] fin(2) by auto
  obtain s' n where s': "schedule cls s = Some s'" "sched_inv qinv ready s'" "current s' = Some n"
    "n \<in> insert i (if pstate (procs s p) = PROC_RUNNABLE \<and> i \<noteq> p then insert p (runq s) else runq s)"
    "\<forall>q. pstate (procs s' q) = pstate (procs s q) \<and> wait_state (procs s' q) = wait_state (procs s q)"
    "sched.more s' = sched.more s" "idleproc s' = idleproc s"
    using schedule_ok[OF inv c(1) i(1) b(2,1)] by blast
  have "pstate (procs s n) = PROC_RUNNABLE" using s'(4) i(2) by (auto simp: runq_def split: if_splits)
  then have "sys_ok qinv ready s'" using s'(2,3,5) fin by (simp add: sys_ok_def)
  then show ?thesis using s' by blast
qed

lemma sem_ok_cong:
  assumes "sem_ok Q wt bal s" "sched.more s' = sched.more s"
    "\<forall>q. pstate (procs s' q) = pstate (procs s q) \<and> wait_state (procs s' q) = wait_state (procs s q)"
  shows "sem_ok Q wt bal s'"
  using assms sync_more[OF assms(2)] unfolding sem_ok_def by simp

lemma yield_ok:
  assumes sys: "sys_ok qinv ready s" and ok: "sem_ok Q wt bal s"
  shows "\<exists>s'. schedule cls s = Some s' \<and> sys_ok qinv ready s' \<and> sem_ok Q wt bal s'"
proof -
  obtain p where p: "current s = Some p" "pstate (procs s p) = PROC_RUNNABLE" using sys by (auto simp: sys_ok_def)
  have "\<exists>s'. schedule cls s = Some s' \<and> sys_ok qinv ready s' \<and> sched.more s' = sched.more s \<and> idleproc s' = idleproc s \<and>
    (\<forall>q. pstate (procs s' q) = pstate (procs s q) \<and> wait_state (procs s' q) = wait_state (procs s q))"
    by (rule schedule_sys_ok[where p = p]) (use p sys in \<open>auto simp: sys_ok_def\<close>)
  then show ?thesis using sem_ok_cong[OF ok] by blast
qed

lemma down_sleep:
  assumes sys: "sys_ok qinv ready s" and ok: "sem_ok Q wt bal s" and c: "current s = Some p" "wt p = None" "idleproc s \<noteq> Some p"
    and v: "sem_value s m = 0"
  shows "\<exists>s'. down_begin cls m p s = Some (False, s') \<and> sys_ok qinv ready s' \<and>
    sem_ok (Q(m := Q m @ [p])) (wt(p := Some m)) (bal(m := bal m - 1)) s' \<and>
    sync.more s' = sync.more s \<and> (\<forall>v. pstate (procs s' v) = (if v = p then PROC_SLEEPING else pstate (procs s v)))"
proof -
  have pn: "p \<notin> set (Q n)" for n using sem_okD(6)[OF ok, of p n] c(2) by auto
  have dis: "set (Q n) \<inter> set (Q m) = {}" if "n \<noteq> m" for n using queues_disjoint[OF ok] that by blast
  let ?h = "list_init (wait_links s) (WaitLink p)"
  have dh: "dlist ?h (WaitHead n) (map WaitLink (Q n))" for n
    using sem_okD(1)[OF ok, of n] pn[of n] by (intro dlist_init_other) auto
  have eh: "list_empty ?h (WaitLink x) = list_empty (wait_links s) (WaitLink x)" if "x \<noteq> p" for x
    using that by (simp add: list_empty_def list_init_def)
  note rings = enqueue_rings[of ?h Q p m, OF dh pn dis]
  define s1 where "s1 = (upd_wait p (\<lambda>x. x\<lparr>w_queue := Some m\<rparr>) (upd_proc p (\<lambda>q. q\<lparr>pstate := PROC_SLEEPING, wait_state := WT_KSEM\<rparr>)
      (wait_init p (Some p) s)))\<lparr>wait_links := list_add_before ?h (WaitHead m) (WaitLink p)\<rparr>"
  have set1: "wait_current_set m p WT_KSEM s = Some s1"
    using c(1) by (simp add: wait_current_set_def wait_queue_add_def s1_def upd_wait_def wait_init_def list_empty_def list_init_def upd_proc_def)
  have f1: "procs s1 = (procs s)(p := (procs s p)\<lparr>pstate := PROC_SLEEPING, wait_state := WT_KSEM\<rparr>)" "current s1 = current s"
    "idleproc s1 = idleproc s" "wait_links s1 = list_add_before ?h (WaitHead m) (WaitLink p)" "sem_value s1 = sem_value s"
    "waits s1 = (waits s)(p := (waits s p)\<lparr>w_proc := Some p, wakeup_flags := WT_INTERRUPTED, w_queue := Some m\<rparr>)"
    "queue_part s1 = queue_part s" "sync.more s1 = sync.more s"
    by (simp_all add: s1_def upd_wait_def wait_init_def upd_proc_def queue_part_def fun_eq_iff)
  obtain pr where pr: "pstate (procs s p) = PROC_RUNNABLE" using sys c(1) by (auto simp: sys_ok_def)
  have rq: "runq s1 = runq s" using c(1) f1(1-3) by (auto simp: runq_def)
  have un: "{q. pstate (procs s1 q) \<noteq> PROC_UNINIT} = {q. pstate (procs s q) \<noteq> PROC_UNINIT}" using f1(1) pr by auto
  have "sched_inv qinv ready s1"
    using sys queue_cong[OF f1(7)] rq f1(1-3) c pr by (auto simp: sys_ok_def sched_inv_def)
  then obtain s' where s': "schedule cls s1 = Some s'" "sys_ok qinv ready s'" "sched.more s' = sched.more s1"
    "\<forall>q. pstate (procs s' q) = pstate (procs s1 q) \<and> wait_state (procs s' q) = wait_state (procs s1 q)"
    using schedule_sys_ok[of s1 p] c(1) f1(1,2) un sys by (auto simp: sys_ok_def)
  have "sem_ok (Q(m := Q m @ [p])) (wt(p := Some m)) (bal(m := bal m - 1)) s1"
  proof (rule sem_okI)
    fix n
    show "dlist (wait_links s1) (WaitHead n) (map WaitLink ((Q(m := Q m @ [p])) n))" using rings(1) f1(4) by simp
    show "0 \<le> sem_value s1 n \<and> ((Q(m := Q m @ [p])) n \<noteq> [] \<longrightarrow> sem_value s1 n = 0) \<and>
        sem_value s1 n - int (length ((Q(m := Q m @ [p])) n)) = (bal(m := bal m - 1)) n"
      using f1(5) v sem_okD(10-12)[OF ok, of n] sem_okD(12)[OF ok, of m] by auto
  next
    fix n w assume w: "w \<in> set ((Q(m := Q m @ [p])) n)"
    show "pstate (procs s1 w) = PROC_SLEEPING \<and> wait_state (procs s1 w) = WT_KSEM \<and>
        w_proc (waits s1 w) = Some w \<and> w_queue (waits s1 w) = Some n \<and> (wt(p := Some m)) w = Some n"
      using w pn f1 sem_okD(2-6)[OF ok, of w n] by (cases "w = p") (auto split: if_splits)
  next
    fix w n assume a: "(wt(p := Some m)) w = Some n" "w \<notin> set ((Q(m := Q m @ [p])) n)"
    then have w: "w \<noteq> p" "wt w = Some n" "w \<notin> set (Q n)" by (auto split: if_splits)
    have "w \<notin> set (Q m)" using w sem_okD(6)[OF ok, of w m] by auto
    then show "list_empty (wait_links s1) (WaitLink w) \<and> wakeup_flags (waits s1 w) = WT_KSEM \<and> pstate (procs s1 w) = PROC_RUNNABLE"
      using w f1 eh rings(2) sem_okD(7-9)[OF ok w(2,3)] by simp
  qed
  then have "sem_ok (Q(m := Q m @ [p])) (wt(p := Some m)) (bal(m := bal m - 1)) s'" by (rule sem_ok_cong) (use s' in auto)
  moreover have "down_begin cls m p s = Some (False, s')" using set1 s'(1) v by (simp add: down_begin_def down_enter_def)
  ultimately show ?thesis using s'(2,4) sync_more[OF s'(3)] f1(1,8) by simp
qed

lemma take_ok:
  assumes sys: "sys_ok qinv ready s" and ok: "sem_ok Q wt bal s" and v: "0 < sem_value s m"
  defines "s' \<equiv> s\<lparr>sem_value := (sem_value s)(m := sem_value s m - 1)\<rparr>"
  shows "sys_ok qinv ready s'" "sem_ok Q wt (bal(m := bal m - 1)) s'"
proof -
  show "sys_ok qinv ready s'" unfolding s'_def by (rule sys_ok_cong[OF sys]) (simp_all add: queue_part_sync)
  show "sem_ok Q wt (bal(m := bal m - 1)) s'" unfolding s'_def
    using v sem_okD(10-12)[OF ok, of m] by (intro sem_ok_value[OF ok]) auto
qed

lemma resume_ok:
  assumes sys: "sys_ok qinv ready s" and ok: "sem_ok Q wt bal s" and c: "current s = Some p" "wt p = Some m"
  shows "down_end m p s = Some s \<and> sem_ok Q (wt(p := None)) bal s"
proof -
  have r: "pstate (procs s p) = PROC_RUNNABLE" using sys c(1) by (auto simp: sys_ok_def)
  have pn: "p \<notin> set (Q n)" for n using sem_okD(2)[OF ok, of p n] r by auto
  have "down_end m p s = Some s"
    using sem_okD(7,8)[OF ok c(2) pn] by (simp add: down_end_def down_leave_def wait_current_del_def wait_in_queue_def)
  moreover have "sem_ok Q (wt(p := None)) bal s"
    using ok pn unfolding sem_ok_def by auto
  ultimately show ?thesis by blast
qed

lemma bal_up: "(\<lambda>n. init n + int ((us(m := Suc (us m))) n) - int (ds n)) =
    (\<lambda>n. init n + int (us n) - int (ds n))(m := (init m + int (us m) - int (ds m)) + 1)"
  by (simp add: fun_eq_iff)

lemma bal_down: "(\<lambda>n. init n + int (us n) - int ((ds(m := Suc (ds m))) n)) =
    (\<lambda>n. init n + int (us n) - int (ds n))(m := (init m + int (us m) - int (ds m)) - 1)"
  by (simp add: fun_eq_iff)

lemma sem_step_inv:
  assumes "sem_step cls c c'" and "semsys_inv qinv ready init c"
  shows "semsys_inv qinv ready init c'"
proof -
  obtain Q where sys: "sys_ok qinv ready (sys c)" and ok: "sem_ok Q (waiting c) (\<lambda>m. init m + int (ups c m) - int (downs c m)) (sys c)"
    using assms(2) by (auto simp: semsys_inv_def)
  from assms(1) show ?thesis
  proof cases
    case (Up p m s')
    then show ?thesis using up_ok[OF sys ok, of m] by (auto simp: semsys_inv_def bal_up simp del: fun_upd_apply)
  next
    case (Down p m got s')
    show ?thesis
    proof (cases "0 < sem_value (sys c) m")
      case True
      then have "got" "s' = (sys c)\<lparr>sem_value := (sem_value (sys c))(m := sem_value (sys c) m - 1)\<rparr>"
        using Down(5) by (auto simp: down_begin_def down_enter_def)
      then show ?thesis using Down(1) take_ok[OF sys ok True] by (auto simp: semsys_inv_def bal_down simp del: fun_upd_apply)
    next
      case False
      then have "sem_value (sys c) m = 0" using sem_okD(10)[OF ok, of m] by simp
      from down_sleep[OF sys ok Down(2,3,4) this] show ?thesis using Down(1,5)
        by (auto simp: semsys_inv_def bal_down simp del: fun_upd_apply)
    qed
  next
    case (Resume p m s')
    then show ?thesis using resume_ok[OF sys ok Resume(2,3)] sys by (auto simp: semsys_inv_def)
  next
    case (Try p m got s')
    show ?thesis
    proof (cases "0 < sem_value (sys c) m")
      case True
      then have "got" "s' = (sys c)\<lparr>sem_value := (sem_value (sys c))(m := sem_value (sys c) m - 1)\<rparr>"
        using Try(4) by (auto simp: try_down_def)
      then show ?thesis using Try(1) take_ok[OF sys ok True] by (auto simp: semsys_inv_def bal_down simp del: fun_upd_apply)
    next
      case False
      then show ?thesis using Try(1,4) sys ok by (auto simp: semsys_inv_def try_down_def)
    qed
  next
    case (Yield p s')
    then show ?thesis using yield_ok[OF sys ok] by (auto simp: semsys_inv_def)
  qed
qed

lemma sem_reach_inv: "(sem_step cls)\<^sup>*\<^sup>* c0 c \<Longrightarrow> semsys_inv qinv ready init c0 \<Longrightarrow> semsys_inv qinv ready init c"
  by (induction rule: rtranclp_induct) (auto intro: sem_step_inv)

text \<open>No call of the running process fails an assertion.\<close>

lemma sem_progress:
  assumes "semsys_inv qinv ready init c" "current (sys c) = Some p"
  shows "(case waiting c p of
      None \<Rightarrow> up cls m (sys c) \<noteq> None \<and> schedule cls (sys c) \<noteq> None \<and> (idleproc (sys c) \<noteq> Some p \<longrightarrow> down_begin cls m p (sys c) \<noteq> None)
    | Some n \<Rightarrow> down_end n p (sys c) \<noteq> None)"
proof -
  obtain Q where sys: "sys_ok qinv ready (sys c)" and ok: "sem_ok Q (waiting c) (\<lambda>m. init m + int (ups c m) - int (downs c m)) (sys c)"
    using assms(1) by (auto simp: semsys_inv_def)
  show ?thesis
  proof (cases "waiting c p")
    case None
    have "down_begin cls m p (sys c) \<noteq> None" if i: "idleproc (sys c) \<noteq> Some p"
    proof (cases "0 < sem_value (sys c) m")
      case False
      then have "sem_value (sys c) m = 0" using sem_okD(10)[OF ok, of m] by simp
      from down_sleep[OF sys ok assms(2) None i this] show ?thesis by auto
    qed (simp add: down_begin_def down_enter_def)
    then show ?thesis using None up_ok[OF sys ok, of m] yield_ok[OF sys ok] by auto
  next
    case (Some n)
    then show ?thesis using resume_ok[OF sys ok assms(2) Some] by simp
  qed
qed

text \<open>The processes asleep on a semaphore, and the semaphore's value.\<close>

lemma sem_accounts:
  assumes "semsys_inv qinv ready init c"
  defines "asleep \<equiv> \<lambda>m. {w. waiting c w = Some m \<and> pstate (procs (sys c) w) = PROC_SLEEPING}"
  shows "finite (asleep m) \<and> 0 \<le> sem_value (sys c) m \<and> (asleep m \<noteq> {} \<longrightarrow> sem_value (sys c) m = 0) \<and>
    sem_value (sys c) m = init m + int (ups c m) - int (downs c m) + int (card (asleep m))"
proof -
  obtain Q where ok: "sem_ok Q (waiting c) (\<lambda>m. init m + int (ups c m) - int (downs c m)) (sys c)"
    using assms(1) by (auto simp: semsys_inv_def)
  have "w \<in> set (Q m)" if "waiting c w = Some m" "pstate (procs (sys c) w) = PROC_SLEEPING" for w
    using sem_okD(9)[OF ok that(1)] that(2) by (cases "w \<in> set (Q m)") auto
  then have "asleep m = set (Q m)" using sem_okD(2,6)[OF ok] by (auto simp: asleep_def)
  moreover have "distinct (Q m)" using dlist_distinct[OF sem_okD(1)[OF ok, of m]] by (simp add: distinct_map)
  ultimately show ?thesis using sem_okD(10-12)[OF ok, of m] by (auto simp: distinct_card)
qed

end

interpretation rr_sem: sem_system default_sched_class RR_inv RR_ready ..

interpretation stride_sem: sem_system stride_sched_class stride_inv stride_ready ..


subsection \<open>Properties\<close>

text \<open>Round robin at boot, all semaphores with one unit, process 1 running.\<close>

definition demo_sem :: "sync semsys" where
  "demo_sem = \<lparr>sys = sched.extend
       ((upd_proc 1 (\<lambda>q. q\<lparr>pstate := PROC_RUNNABLE\<rparr>) (sched_init default_sched_class boot_sched))\<lparr>current := Some 1\<rparr>)
       (sync.fields (\<lambda>_. \<lparr>w_proc = None, wakeup_flags = 0, w_queue = None\<rparr>) \<lparr>prev_of = id, next_of = id\<rparr> (\<lambda>_. 1)),
     waiting = (\<lambda>_. None), ups = (\<lambda>_. 0), downs = (\<lambda>_. 0)\<rparr>"

lemmas demo_sem_simps = demo_sem_def sched.defs sync.defs boot_sched_def sched_init_def Let_def default_sched_class_def RR_init_def
  list_init_def alloc_proc_fields_def

lemma demo_sem_inv: "semsys_inv RR_inv RR_ready (\<lambda>_. 1) demo_sem"
proof -
  let ?s = "sys demo_sem"
  have st: "pstate (procs ?s p) = (if p = 0 \<or> p = 1 then PROC_RUNNABLE else PROC_UNINIT)" for p
    by (simp add: demo_sem_simps)
  have cur: "current ?s = Some 1" "idleproc ?s = Some 0" by (simp_all add: demo_sem_simps)
  have q: "RR_queue ?s []" "\<forall>p. RR_ready p ?s"
    by (auto simp: RR_queue_def RR_ready_def demo_sem_simps dlist_Nil_iff list_empty_def u32_def)
  have rq: "runq ?s = {}" unfolding runq_def cur st by auto
  have "sched_inv RR_inv RR_ready ?s" unfolding sched_inv_def rq RR_inv_def st cur using q by auto
  moreover have "{p. pstate (procs ?s p) \<noteq> PROC_UNINIT} = {0, 1}" unfolding st by auto
  ultimately have "sys_ok RR_inv RR_ready ?s" unfolding sys_ok_def cur st by (simp add: st)
  moreover have "sem_ok (\<lambda>_. []) (\<lambda>_. None) (\<lambda>_. 1) ?s" by (auto simp: sem_ok_def demo_sem_simps dlist_Nil_iff)
  ultimately show ?thesis by (auto simp: semsys_inv_def demo_sem_def)
qed

text \<open>
  C30. Under round robin, processes that use any semaphores in any order reach only states in
  which the scheduler's invariant holds, no call of the running process of up, down or
  schedule fails an assertion, a semaphore's value is its initial value plus the
  number of ups minus the number of downs begun plus the number of processes asleep on it, it is
  never negative, and no process sleeps on a semaphore whose value is positive. So the number
  of processes that have got past down never exceeds the initial value plus the ups: with
  initial value 1 the semaphore is a mutual exclusion lock.
\<close>

theorem rr_semaphores_safe:
  assumes "semsys_inv RR_inv RR_ready init c0" and "(sem_step default_sched_class)\<^sup>*\<^sup>* c0 c" and "current (sys c) = Some p"
  shows "sched_inv RR_inv RR_ready (sys c) \<and>
    (let asleep = {w. waiting c w = Some m \<and> pstate (procs (sys c) w) = PROC_SLEEPING} in
       finite asleep \<and> 0 \<le> sem_value (sys c) m \<and> (asleep \<noteq> {} \<longrightarrow> sem_value (sys c) m = 0) \<and>
       sem_value (sys c) m = init m + int (ups c m) - int (downs c m) + int (card asleep) \<and>
       int (downs c m) - int (card asleep) \<le> init m + int (ups c m)) \<and>
    (case waiting c p of
       None \<Rightarrow> up default_sched_class m (sys c) \<noteq> None \<and> schedule default_sched_class (sys c) \<noteq> None \<and>
         (idleproc (sys c) \<noteq> Some p \<longrightarrow> down_begin default_sched_class m p (sys c) \<noteq> None)
     | Some n \<Rightarrow> down_end n p (sys c) \<noteq> None)"
proof -
  have inv: "semsys_inv RR_inv RR_ready init c" using rr_sem.sem_reach_inv[OF assms(2,1)] .
  then have "sched_inv RR_inv RR_ready (sys c)" by (simp add: semsys_inv_def sys_ok_def)
  then show ?thesis using rr_sem.sem_accounts[OF inv, of m] rr_sem.sem_progress[OF inv assms(3), of m]
    unfolding Let_def by linarith
qed

theorem rr_semaphores_safe_witness:
  "\<exists>c. sem_step default_sched_class demo_sem c \<and> sem_value (sys c) 5 = 0 \<and> downs c 5 = 1 \<and>
     sched_inv RR_inv RR_ready (sys c) \<and> up default_sched_class 5 (sys c) \<noteq> None"
proof -
  let ?s' = "(sys demo_sem)\<lparr>sem_value := (sem_value (sys demo_sem))(5 := 0)\<rparr>"
  have cur: "current (sys demo_sem) = Some 1" "waiting demo_sem 1 = None" "idleproc (sys demo_sem) \<noteq> Some 1"
    by (simp_all add: demo_sem_simps)
  have "down_begin default_sched_class 5 1 (sys demo_sem) = Some (True, ?s')"
    by (simp add: down_begin_def down_enter_def demo_sem_simps)
  from sem_step.Down[OF cur this] obtain c where c: "sem_step default_sched_class demo_sem c" "sys c = ?s'" "downs c 5 = 1" "waiting c 1 = None"
    by (simp add: demo_sem_def)
  have "current (sys c) = Some 1" using c(2) cur(1) by simp
  from rr_semaphores_safe[OF demo_sem_inv r_into_rtranclp[of "sem_step default_sched_class", OF c(1)] this, of 5] show ?thesis
    using c by (intro exI[of _ c]) simp
qed

end
