(* ===== verification/Monitor.thy ===== *)
theory Monitor
  imports SemSystem
begin

text \<open>
  Monitors and condition variables (\<^verbatim>\<open>kern/sync/monitor.c\<close>) on top of the semaphores. Like
  \<^verbatim>\<open>down\<close>, \<^verbatim>\<open>cond_wait\<close> and \<^verbatim>\<open>cond_signal\<close> run in two pieces, up to where the process sleeps and
  from where it continues; the first piece says whether the call has already returned.
\<close>

record mon = sync +
  mon_mutex :: "nat \<Rightarrow> nat"
  mon_next :: "nat \<Rightarrow> nat"
  next_count :: "nat \<Rightarrow> int"
  mon_cv :: "nat \<Rightarrow> nat list"
  cv_sem :: "nat \<Rightarrow> nat"
  cv_count :: "nat \<Rightarrow> int"
  cv_owner :: "nat \<Rightarrow> nat"

definition cv_init :: "nat \<Rightarrow> nat \<Rightarrow> 'a mon_scheme \<Rightarrow> 'a mon_scheme" where
  "cv_init mt cv s =
     (let s1 = s\<lparr>cv_count := (cv_count s)(cv := 0)\<rparr>;
          s2 = sem_init (cv_sem s1 cv) 0 s1
      in s2\<lparr>cv_owner := (cv_owner s2)(cv := mt)\<rparr>)"

text \<open>\<open>kmalloc\<close> gives the array of condition variables, or nothing.\<close>

definition monitor_init :: "(nat \<Rightarrow> nat list option) \<Rightarrow> nat \<Rightarrow> nat \<Rightarrow> 'a mon_scheme \<Rightarrow> 'a mon_scheme option" where
  "monitor_init kmalloc mt num_cv s =
     do { kassert (num_cv > 0);
          let s1 = s\<lparr>next_count := (next_count s)(mt := 0), mon_cv := (mon_cv s)(mt := [])\<rparr>;
          let s2 = sem_init (mon_mutex s1 mt) 1 s1;
          let s3 = sem_init (mon_next s2 mt) 0 s2;
          cvs \<leftarrow> kmalloc num_cv;
          let s4 = s3\<lparr>mon_cv := (mon_cv s3)(mt := cvs)\<rparr>;
          Some (fold (\<lambda>i s. cv_init mt (cvs ! i) s) [0..<num_cv] s4) }"

definition upd_next_count :: "nat \<Rightarrow> int \<Rightarrow> 'a mon_scheme \<Rightarrow> 'a mon_scheme" where
  "upd_next_count mt d s = s\<lparr>next_count := (next_count s)(mt := next_count s mt + d)\<rparr>"

definition upd_cv_count :: "nat \<Rightarrow> int \<Rightarrow> 'a mon_scheme \<Rightarrow> 'a mon_scheme" where
  "upd_cv_count cv d s = s\<lparr>cv_count := (cv_count s)(cv := cv_count s cv + d)\<rparr>"

definition cond_signal_begin :: "'a mon_scheme sched_class \<Rightarrow> nat \<Rightarrow> nat \<Rightarrow> 'a mon_scheme \<Rightarrow> (bool \<times> 'a mon_scheme) option" where
  "cond_signal_begin cls cv w s =
     (if cv_count s cv > 0 then
        let mt = cv_owner s cv; s1 = upd_next_count mt 1 s in
        do { s2 \<leftarrow> up cls (cv_sem s1 cv) s1;
             (got, s3) \<leftarrow> down_begin cls (mon_next s2 mt) w s2;
             Some (got, if got then upd_next_count mt (-1) s3 else s3) }
      else Some (True, s))"

definition cond_signal_end :: "nat \<Rightarrow> nat \<Rightarrow> 'a mon_scheme \<Rightarrow> 'a mon_scheme option" where
  "cond_signal_end cv w s =
     do { s1 \<leftarrow> down_end (mon_next s (cv_owner s cv)) w s;
          Some (upd_next_count (cv_owner s cv) (-1) s1) }"

definition cond_wait_begin :: "'a mon_scheme sched_class \<Rightarrow> nat \<Rightarrow> nat \<Rightarrow> 'a mon_scheme \<Rightarrow> (bool \<times> 'a mon_scheme) option" where
  "cond_wait_begin cls cv w s =
     (let s1 = upd_cv_count cv 1 s; mt = cv_owner s1 cv in
      do { s2 \<leftarrow> (if next_count s1 mt > 0 then up cls (mon_next s1 mt) s1 else up cls (mon_mutex s1 mt) s1);
           (got, s3) \<leftarrow> down_begin cls (cv_sem s2 cv) w s2;
           Some (got, if got then upd_cv_count cv (-1) s3 else s3) })"

definition cond_wait_end :: "nat \<Rightarrow> nat \<Rightarrow> 'a mon_scheme \<Rightarrow> 'a mon_scheme option" where
  "cond_wait_end cv w s =
     do { s1 \<leftarrow> down_end (cv_sem s cv) w s;
          Some (upd_cv_count cv (-1) s1) }"

subsection \<open>Handing over\<close>

lemma mon_more:
  fixes s s' :: "'a mon_scheme"
  assumes "sync.more s' = sync.more s"
  shows "mon_next s' = mon_next s" "mon_mutex s' = mon_mutex s" "cv_sem s' = cv_sem s" "next_count s' = next_count s"
    "cv_count s' = cv_count s" "cv_owner s' = cv_owner s"
  using assms by (cases s; cases s'; auto)+

lemma sem_ok_counts [simp]:
  fixes s :: "'a mon_scheme"
  shows "sem_ok Q wt bal (upd_next_count mt d s) = sem_ok Q wt bal s" "sem_ok Q wt bal (upd_cv_count cv d s) = sem_ok Q wt bal s"
  by (simp_all add: sem_ok_def upd_next_count_def upd_cv_count_def)

locale monitor_system = sem_system cls qinv ready
  for cls :: "'a mon_scheme sched_class" and qinv and ready
begin

lemma sys_ok_counts: "sys_ok qinv ready s \<Longrightarrow> sys_ok qinv ready (upd_next_count mt d s)"
  by (erule sys_ok_cong) (simp_all add: upd_next_count_def queue_part_def)

text \<open>A signal wakes the first waiter and puts the signalling process to sleep on the monitor's \<^verbatim>\<open>next\<close>.\<close>

lemma signal_hands_over:
  assumes sys: "sys_ok qinv ready s" and ok: "sem_ok Q wt bal s"
    and c: "current s = Some p" "wt p = None" "idleproc s \<noteq> Some p" and n: "cv_count s cv > 0"
    and q: "Q (cv_sem s cv) = w # ws" and v: "sem_value s (mon_next s (cv_owner s cv)) = 0"
    and ne: "mon_next s (cv_owner s cv) \<noteq> cv_sem s cv"
  shows "\<exists>s'. cond_signal_begin cls cv p s = Some (False, s') \<and> sys_ok qinv ready s' \<and>
    sem_ok (Q(cv_sem s cv := ws, mon_next s (cv_owner s cv) := Q (mon_next s (cv_owner s cv)) @ [p]))
      (wt(p := Some (mon_next s (cv_owner s cv)))) (bal(cv_sem s cv := bal (cv_sem s cv) + 1,
        mon_next s (cv_owner s cv) := bal (mon_next s (cv_owner s cv)) - 1)) s' \<and>
    pstate (procs s' w) = PROC_RUNNABLE \<and> pstate (procs s' p) = PROC_SLEEPING \<and>
    next_count s' (cv_owner s cv) = next_count s (cv_owner s cv) + 1 \<and> cv_count s' cv = cv_count s cv"
proof -
  let ?mt = "cv_owner s cv" and ?m = "cv_sem s cv"
  let ?n = "mon_next s ?mt"
  let ?s1 = "upd_next_count ?mt 1 s"
  have s1: "sys_ok qinv ready ?s1" "sem_ok Q wt bal ?s1" using sys_ok_counts[OF sys] ok by simp_all
  have f1: "cv_sem ?s1 = cv_sem s" "mon_next ?s1 = mon_next s" "current ?s1 = current s" "idleproc ?s1 = idleproc s"
    "sem_value ?s1 = sem_value s" "procs ?s1 = procs s" "cv_count ?s1 = cv_count s" "next_count ?s1 = (next_count s)(?mt := next_count s ?mt + 1)"
    by (simp_all add: upd_next_count_def)
  obtain s2 where s2: "up cls ?m ?s1 = Some s2" "sys_ok qinv ready s2" "sem_ok (Q(?m := ws)) wt (bal(?m := bal ?m + 1)) s2"
    "pstate (procs s2 w) = PROC_RUNNABLE" "current s2 = current ?s1" "idleproc s2 = idleproc ?s1" "sync.more s2 = sync.more ?s1"
    "sem_value s2 = sem_value ?s1" using up_wake[OF s1 q] by blast
  note m2 = mon_more[OF s2(7)]
  have "p \<noteq> w" using sem_okD(6)[OF ok, of w ?m] q c(2) by auto
  have cur2: "current s2 = Some p" "idleproc s2 \<noteq> Some p" "sem_value s2 ?n = 0" using s2(5,6,8) f1 c v by simp_all
  obtain s3 where s3: "down_begin cls ?n p s2 = Some (False, s3)" "sys_ok qinv ready s3"
    "sem_ok ((Q(?m := ws))(?n := (Q(?m := ws)) ?n @ [p])) (wt(p := Some ?n)) ((bal(?m := bal ?m + 1))(?n := (bal(?m := bal ?m + 1)) ?n - 1)) s3"
    "sync.more s3 = sync.more s2" "\<forall>v. pstate (procs s3 v) = (if v = p then PROC_SLEEPING else pstate (procs s2 v))"
    using down_sleep[OF s2(2,3) cur2(1) c(2) cur2(2,3)] by blast
  have "cond_signal_begin cls cv p s = Some (False, s3)"
    using n s2(1) s3(1) m2(1) f1 by (simp add: cond_signal_begin_def Let_def)
  then show ?thesis using s3(2,3,5) s2(4) \<open>p \<noteq> w\<close> ne mon_more[OF s3(4)] m2 f1 by simp
qed

end

interpretation rr_mon: monitor_system default_sched_class RR_inv RR_ready ..

subsection \<open>Properties\<close>

text \<open>Process 2 runs; process 1 waits for condition variable 0 (semaphore 7) of monitor 0, whose next is semaphore 8.\<close>

definition demo_mon :: mon where
  "demo_mon = sync.extend (sched.extend
     ((upd_proc 2 (\<lambda>q. q\<lparr>pstate := PROC_RUNNABLE\<rparr>) (upd_proc 1 (\<lambda>q. q\<lparr>pstate := PROC_SLEEPING, wait_state := WT_KSEM\<rparr>)
        (sched_init default_sched_class boot_sched)))\<lparr>current := Some 2\<rparr>)
     (sync.fields (\<lambda>_. \<lparr>w_proc = Some 1, wakeup_flags = 0, w_queue = Some 7\<rparr>)
        \<lparr>prev_of = id(WaitHead 7 := WaitLink 1, WaitLink 1 := WaitHead 7), next_of = id(WaitHead 7 := WaitLink 1, WaitLink 1 := WaitHead 7)\<rparr>
        (\<lambda>_. 0)))
     (mon.fields (\<lambda>_. 9) (\<lambda>_. 8) (\<lambda>_. 0) (\<lambda>_. [0]) (\<lambda>_. 7) (\<lambda>_. 1) (\<lambda>_. 0))"

lemmas demo_mon_simps = demo_mon_def sched.defs sync.defs mon.defs boot_sched_def sched_init_def Let_def default_sched_class_def RR_init_def
  list_init_def alloc_proc_fields_def

lemma demo_mon_ok:
  "sys_ok RR_inv RR_ready demo_mon" "sem_ok ((\<lambda>_. [])(7 := [1])) ((\<lambda>_. None)(1 := Some 7)) ((\<lambda>_. 0)(7 := -1)) demo_mon"
proof -
  have st: "pstate (procs demo_mon p) = (if p = 0 \<or> p = 2 then PROC_RUNNABLE else if p = 1 then PROC_SLEEPING else PROC_UNINIT)" for p
    by (simp add: demo_mon_simps)
  have cur: "current demo_mon = Some 2" "idleproc demo_mon = Some 0" by (simp_all add: demo_mon_simps)
  have q: "RR_queue demo_mon []" "\<forall>p. RR_ready p demo_mon"
    by (auto simp: RR_queue_def RR_ready_def demo_mon_simps dlist_Nil_iff list_empty_def u32_def)
  have rq: "runq demo_mon = {}" unfolding runq_def cur st by auto
  have "sched_inv RR_inv RR_ready demo_mon" unfolding sched_inv_def rq RR_inv_def st cur using q by auto
  moreover have "{p. pstate (procs demo_mon p) \<noteq> PROC_UNINIT} = {0, 1, 2}" unfolding st by auto
  ultimately show "sys_ok RR_inv RR_ready demo_mon" unfolding sys_ok_def cur st by (simp add: st)
  have l: "wait_links demo_mon = \<lparr>prev_of = id(WaitHead 7 := WaitLink 1, WaitLink 1 := WaitHead 7),
      next_of = id(WaitHead 7 := WaitLink 1, WaitLink 1 := WaitHead 7)\<rparr>"
    "waits demo_mon = (\<lambda>_. \<lparr>w_proc = Some 1, wakeup_flags = 0, w_queue = Some 7\<rparr>)" "sem_value demo_mon = (\<lambda>_. 0)"
    "wait_state (procs demo_mon 1) = WT_KSEM"
    by (simp_all add: demo_mon_simps)
  show "sem_ok ((\<lambda>_. [])(7 := [1])) ((\<lambda>_. None)(1 := Some 7)) ((\<lambda>_. 0)(7 := -1)) demo_mon"
    by (rule sem_okI) (auto simp: l l(4)[simplified] st dlist_def split: if_splits)
qed

text \<open>
  C31. A process that signals a condition variable someone waits for hands the monitor over:
  the longest waiting process becomes runnable, the signalling process sleeps on the monitor's
  next semaphore and is counted in next_count, no assertion fails, and the invariants of
  scheduler and semaphores hold again.
\<close>

theorem rr_cond_signal_hands_over:
  assumes "sys_ok RR_inv RR_ready s" and "sem_ok Q wt bal s"
    and "current s = Some p" and "wt p = None" and "idleproc s \<noteq> Some p" and "cv_count s cv > 0"
    and "Q (cv_sem s cv) = w # ws" and "sem_value s (mon_next s (cv_owner s cv)) = 0"
    and "mon_next s (cv_owner s cv) \<noteq> cv_sem s cv"
  shows "\<exists>s' Q' bal'. cond_signal_begin default_sched_class cv p s = Some (False, s') \<and> sys_ok RR_inv RR_ready s' \<and>
    sem_ok Q' (wt(p := Some (mon_next s (cv_owner s cv)))) bal' s' \<and>
    Q' (cv_sem s cv) = ws \<and> Q' (mon_next s (cv_owner s cv)) = Q (mon_next s (cv_owner s cv)) @ [p] \<and>
    pstate (procs s' w) = PROC_RUNNABLE \<and> pstate (procs s' p) = PROC_SLEEPING \<and>
    next_count s' (cv_owner s cv) = next_count s (cv_owner s cv) + 1"
  using rr_mon.signal_hands_over[OF assms] assms(9) by (elim exE conjE) (intro exI conjI, assumption+, simp_all)

theorem rr_cond_signal_hands_over_witness:
  "\<exists>s'. cond_signal_begin default_sched_class 0 2 demo_mon = Some (False, s') \<and> pstate (procs s' 1) = PROC_RUNNABLE \<and>
     pstate (procs s' 2) = PROC_SLEEPING"
proof -
  have "current demo_mon = Some 2" "((\<lambda>_. None)(1 := Some 7)) (2 :: nat) = (None :: nat option)" "idleproc demo_mon \<noteq> Some 2" "cv_count demo_mon 0 > 0"
    "((\<lambda>_. [])(7 := [1])) (cv_sem demo_mon 0) = (1 :: nat) # []" "sem_value demo_mon (mon_next demo_mon (cv_owner demo_mon 0)) = 0"
    "mon_next demo_mon (cv_owner demo_mon 0) \<noteq> cv_sem demo_mon 0"
    by (simp_all add: demo_mon_simps)
  from rr_cond_signal_hands_over[OF demo_mon_ok this] show ?thesis by blast
qed

end
