(* ===== verification/Spec2Isabelle.thy ===== *)
theory Spec2Isabelle
  imports PageMgr KmallocSpec StrLib VmmSpec BestFit Buddy Timer ProcMgr SfsMount FileShare Monitor
begin

text \<open>
  Verification of a teaching kernel for RISC-V (uCore). The sources hold one directory per
  laboratory; each extends the one before. The development follows the last of them,
  \<^verbatim>\<open>src/lab8\<close>, and takes from \<^verbatim>\<open>src/lab2\<close> the two physical memory managers that exist only
  there. File names below are relative to \<^verbatim>\<open>src/lab8\<close> unless they begin with \<^verbatim>\<open>lab2\<close>.

  \<^bold>\<open>Parts of the system and how they interact.\<close> The physical memory manager hands out runs of
  page frames. The page-table code takes frames from it and counts the mappings of each
  page. The memory areas of an address space decide which user addresses a process may
  touch, and user memory is copied only after a check against them. The scheduler core runs
  the process that a scheduling class picks, and owns the list of timers. The process table
  creates, ends and reaps processes with the help of all of these. Wait queues, semaphores
  and monitors put processes to sleep and hand them back to the scheduler. The simple file
  system maps the blocks of a file through its inode to disk blocks, takes free blocks from
  a bitmap and reaches the disk through a block device. The open-file tables of the
  processes refer to counted inodes, which fork shares and exit gives up.

  \<^bold>\<open>Common conventions.\<close> A function of the source becomes one definition of the same name
  (a suffix names a loop or a piece of it). \<open>None\<close> in the option monad is a kernel panic, a
  failed assertion or the use of a null pointer; error numbers are ordinary results. A loop
  that follows pointers or depends on the data is a \<open>partial_function (option)\<close>, so that a
  loop that never ends also has the value \<open>None\<close>; the theorems state that the operations
  return (\<open>\<exists>r. f x = Some r\<close>). The only fuel is the one of \<open>list_walk\<close> in \<open>DList\<close>, a reference
  function for which one more than the length of the ring is enough. Pointers are indices
  or addresses, \<^verbatim>\<open>NULL\<close> is \<open>None\<close>; embedded list links live in heaps of links, so that the
  list code works at pointer level. Unsigned counters are naturals reduced by \<open>u32\<close> and
  \<open>u64\<close> at every assignment, or words where bits or wrap-around matter (page-table entries,
  strides, on-disk integers). A kernel function that runs with interrupts off is one step;
  a function that sleeps is split where it calls \<^verbatim>\<open>schedule\<close>.

  \<^bold>\<open>Theories, by component.\<close>

  \<^item> \<open>Prelude\<close>: the panic monad, the error numbers of \<^verbatim>\<open>libs/error.h\<close>, unsigned
    arithmetic.
  \<^item> \<open>DList\<close> (\<^verbatim>\<open>libs/list.h\<close>): the circular list with its pointers; locale \<open>klist\<close> is what
    clients rely on. The operations refine insertion and deletion on sequences.
  \<^item> \<open>SkewHeap\<close> (\<^verbatim>\<open>libs/skew_heap.h\<close>): merging, insertion and removal by pointers, refined
    to functional trees that stay ordered.
  \<^item> \<open>StrLib\<close> (\<^verbatim>\<open>libs/string.c\<close>): every function on a byte memory, each equal to a function
    on lists of bytes; \<open>memmove\<close> is right for every overlap.
  \<^item> \<open>PmmManager\<close> (\<^verbatim>\<open>struct pmm_manager\<close> of \<^verbatim>\<open>kern/mm/pmm.h\<close>): the locales \<open>page_source\<close> and
    \<open>pmm_manager\<close>, what a physical memory manager promises. \<open>DefaultPmm\<close>
    (\<^verbatim>\<open>kern/mm/default_pmm.c\<close>, first fit) and \<open>BestFit\<close> (\<^verbatim>\<open>lab2/kern/mm/best_fit_pmm.c\<close>)
    are interpretations of \<open>pmm_manager\<close>; \<open>Buddy\<close> (\<^verbatim>\<open>lab2/kern/mm/buddy_pmm.c\<close>) rounds
    requests up and is one of \<open>page_source\<close>. Invariants of the free lists, the exact effect
    of allocation and release, disjointness of what is handed out.
  \<^item> \<open>Kmalloc\<close>, \<open>KmallocSpec\<close> (\<^verbatim>\<open>kern/mm/kmalloc.c\<close>): the small-object allocator on a ring of free
    blocks inside pages; the locale \<open>kheap\<close>, interpreted over two managers, shows that what
    \<^verbatim>\<open>kmalloc\<close> returns was available and that \<^verbatim>\<open>kfree\<close> restores it.
  \<^item> \<open>PageTable\<close>, \<open>PageMap\<close>, \<open>PageOps\<close>, \<open>PageMgr\<close> (\<^verbatim>\<open>kern/mm/pmm.c\<close>, \<^verbatim>\<open>pmm.h\<close>, \<^verbatim>\<open>mmu.h\<close>): the
    operations on three-level page tables; the trees they form and the invariant of a set
    of address spaces with reference counts; the effect of each operation, proved in the
    locale \<open>page_refs\<close> over any manager; the properties over first fit.
  \<^item> \<open>Vmm\<close>, \<open>VmmSpec\<close> (\<^verbatim>\<open>kern/mm/vmm.c\<close>): areas, \<^verbatim>\<open>mm_map\<close>, \<^verbatim>\<open>user_mem_check\<close> and the copies
    between user and kernel memory; disjoint ordered areas, all outcomes of mapping, the
    check accepts exactly the covered ranges, string copies end and are complete.
  \<^item> \<open>ProcTypes\<close>, \<open>Sched\<close> (\<^verbatim>\<open>kern/process/proc.h\<close>, \<^verbatim>\<open>kern/schedule/sched.c\<close>): the process
    control block, the scheduler core over any class, and the locale \<open>sched_policy\<close>, the
    contract of a class. \<open>RRSched\<close> (\<^verbatim>\<open>default_sched.c\<close>) and \<open>StrideSched\<close>
    (\<^verbatim>\<open>default_sched_stride.c\<close>) are its interpretations: fairness of round robin, the run
    queue holds exactly the runnable processes, wrap-around of strides. \<open>Timer\<close>: the list
    of relative deadlines.
  \<^item> \<open>ProcTable\<close>, \<open>ProcSpec\<close>, \<open>ProcFork\<close>, \<open>ProcMgr\<close> (\<^verbatim>\<open>kern/process/proc.c\<close>): process numbers,
    the ring and the hash chains, family links, \<^verbatim>\<open>do_fork\<close>, the end of \<^verbatim>\<open>do_exit\<close> and
    \<^verbatim>\<open>do_wait\<close>, proved in the locales \<open>proc_system\<close> and \<open>fork_system\<close> for both policies.
  \<^item> \<open>Sync\<close>, \<open>SemSystem\<close>, \<open>Monitor\<close> (\<^verbatim>\<open>kern/sync\<close>): wait queues, semaphores and monitors;
    a step relation of processes that call them in any order and the invariant of its
    reachable states, in the locales \<open>sem_system\<close> and \<open>monitor_system\<close>.
  \<^item> \<open>Bytes\<close>, \<open>DiskIo\<close>, \<open>Bitmap\<close>, \<open>SfsIo\<close>, \<open>SfsInode\<close>, \<open>SfsMap\<close>, \<open>SfsFile\<close>, \<open>SfsWrite\<close>
    (\<^verbatim>\<open>kern/fs/iobuf.c\<close>, \<^verbatim>\<open>kern/driver/ramdisk.c\<close>, \<^verbatim>\<open>kern/fs/devs/dev_disk0.c\<close>,
    \<^verbatim>\<open>kern/fs/sfs\<close>): the disk, the free-block bitmap, block maps of inodes and file
    transfers; reads and writes of arbitrary ranges agree with the bytes of the file, and
    files never share blocks.
  \<^item> \<open>SfsOps\<close>, \<open>SfsNode\<close>, \<open>SfsMount\<close> (\<^verbatim>\<open>kern/fs/sfs/sfs_inode.c\<close>, \<^verbatim>\<open>sfs_fs.c\<close>): the operations of an
    inode as the VFS calls them, truncation among them; the table of loaded inodes with its hash
    chains, reference counts and lookup in directories, and a step relation of processes that
    load, change, drop and reclaim inodes in any order (the set X of a state holds the inodes
    that were changed without being marked dirty, which the code does); synchronising and mounting, which are inverse
    to each other.
  \<^item> \<open>FileTable\<close>, \<open>FileSpec\<close>, \<open>FileShare\<close> (\<^verbatim>\<open>kern/fs/file.c\<close>, \<^verbatim>\<open>fs.c\<close>, \<^verbatim>\<open>vfs/inode.c\<close>,
    \<^verbatim>\<open>vfs/vfsfile.c\<close>): descriptors, open files and the counts of inodes, and their sharing
    by fork and exit. \<open>vop_defined\<close> lists the operations of the three tables of the kernel
    (\<^verbatim>\<open>sfs_node_dirops\<close>, \<^verbatim>\<open>sfs_node_fileops\<close>, \<^verbatim>\<open>dev_node_ops\<close>); calling one that the table of the inode
    lacks is a failed assertion, and the properties say exactly when that happens or an
    operation stops by itself.

  \<^bold>\<open>Parameters.\<close> Code outside the modelled components appears as arguments: \<^verbatim>\<open>kmalloc\<close>
  in \<open>Vmm\<close> and \<open>FileShare\<close> (\<open>alloc_ok\<close>: what it returns is not in use), the resources that
  \<^verbatim>\<open>do_fork\<close> copies (\<open>fork_res_ok\<close>), the operations behind an inode and the lookup of a path
  in \<open>FileTable\<close> (\<open>vops_ok\<close>: opening, closing, reclaiming and asking for the status return,
  the others may stop the kernel, and what returns has left the tables alone; nothing is
  assumed of an operation that is not defined). Each hypothesis has a witness with a concrete instance.

  \<^bold>\<open>Not modelled.\<close> Boot and trap entry, the context switch and other assembly; consoles,
  clock and device tree; the self tests of the components; loading of programs
  (\<^verbatim>\<open>load_icode\<close>, \<^verbatim>\<open>do_execve\<close>), which is a sequence of calls of modelled operations on file
  contents that are not modelled; the dispatch of system calls and traps; path lookup and
  the table of mounted devices; user programs and host tools. The earlier laboratories are earlier states of the same files.
\<close>

end
